(* ===== verification/Blorg_Prelude.thy ===== *)
theory Blorg_Prelude
  imports Main "HOL-Library.Word" "HOL-Library.Monad_Syntax"
begin

unbundle bit_operations_syntax

text \<open>
  Shared vocabulary of the development: the driver's machine types, the NTSTATUS values the
  modelled code returns, the part of the NT runtime library that the driver's path handling
  calls (case folding and path hashing), memory as byte lists, and generic lemmas on lists,
  options and words.
\<close>

section \<open>Machine types\<close>

type_synonym UCHAR = "8 word"
type_synonym USHORT = "16 word"
type_synonym WCHAR = "16 word"
type_synonym ULONG = "32 word"
type_synonym ULONG64 = "64 word"
type_synonym SIZE_T = "64 word"

text \<open>
  A counted UNICODE_STRING is the list of its UTF-16 code units; its Length field, in bytes,
  is twice the length of the list.
\<close>

type_synonym UNICODE_STRING = "WCHAR list"

abbreviation byte_length :: "UNICODE_STRING \<Rightarrow> nat" where
  "byte_length s \<equiv> 2 * length s"

abbreviation backslash :: WCHAR where
  "backslash \<equiv> 0x5C"

text \<open>
  An NTSTATUS is a signed 32-bit value, negative for errors; the named ones are those the
  modelled code returns or tests for, and a device or the server may report any other.
\<close>

type_synonym NTSTATUS = "32 word"

definition NT_SUCCESS :: "NTSTATUS \<Rightarrow> bool" where
  "NT_SUCCESS st \<longleftrightarrow> 0 \<le> sint st"

definition STATUS_SUCCESS :: NTSTATUS where "STATUS_SUCCESS = 0"
definition STATUS_PENDING :: NTSTATUS where "STATUS_PENDING = 0x103"
definition STATUS_INVALID_PARAMETER :: NTSTATUS where "STATUS_INVALID_PARAMETER = 0xC000000D"
definition STATUS_INSUFFICIENT_RESOURCES :: NTSTATUS where "STATUS_INSUFFICIENT_RESOURCES = 0xC000009A"
definition STATUS_UNEXPECTED_IO_ERROR :: NTSTATUS where "STATUS_UNEXPECTED_IO_ERROR = 0xC00000E9"
definition STATUS_NOT_FOUND :: NTSTATUS where "STATUS_NOT_FOUND = 0xC0000225"
definition STATUS_INVALID_NETWORK_RESPONSE :: NTSTATUS where "STATUS_INVALID_NETWORK_RESPONSE = 0xC00000C3"
definition STATUS_NAME_TOO_LONG :: NTSTATUS where "STATUS_NAME_TOO_LONG = 0xC0000106"
definition STATUS_BUFFER_OVERFLOW :: NTSTATUS where "STATUS_BUFFER_OVERFLOW = 0x80000005"
definition STATUS_BUFFER_TOO_SMALL :: NTSTATUS where "STATUS_BUFFER_TOO_SMALL = 0xC0000023"
definition STATUS_OBJECT_NAME_NOT_FOUND :: NTSTATUS where "STATUS_OBJECT_NAME_NOT_FOUND = 0xC0000034"
definition STATUS_ACCESS_DENIED :: NTSTATUS where "STATUS_ACCESS_DENIED = 0xC0000022"
definition STATUS_END_OF_FILE :: NTSTATUS where "STATUS_END_OF_FILE = 0xC0000011"
definition STATUS_CONNECTION_DISCONNECTED :: NTSTATUS where "STATUS_CONNECTION_DISCONNECTED = 0xC000020C"

definition PAGE_SIZE :: ULONG where "PAGE_SIZE = 0x1000"

section \<open>Collections of facts\<close>

named_theorems status_defs \<open>the values of the named statuses\<close>

declare STATUS_SUCCESS_def [status_defs] STATUS_PENDING_def [status_defs]
  STATUS_INVALID_PARAMETER_def [status_defs] STATUS_INSUFFICIENT_RESOURCES_def [status_defs]
  STATUS_UNEXPECTED_IO_ERROR_def [status_defs]
  STATUS_NOT_FOUND_def [status_defs] STATUS_INVALID_NETWORK_RESPONSE_def [status_defs]
  STATUS_NAME_TOO_LONG_def [status_defs] STATUS_BUFFER_OVERFLOW_def [status_defs]
  STATUS_BUFFER_TOO_SMALL_def [status_defs] STATUS_OBJECT_NAME_NOT_FOUND_def [status_defs]
  STATUS_ACCESS_DENIED_def [status_defs] STATUS_END_OF_FILE_def [status_defs]
  STATUS_CONNECTION_DISCONNECTED_def [status_defs]

lemma NT_SUCCESS_simps [simp]:
  "NT_SUCCESS STATUS_SUCCESS" "NT_SUCCESS STATUS_PENDING"
  "\<not> NT_SUCCESS STATUS_INVALID_PARAMETER" "\<not> NT_SUCCESS STATUS_INSUFFICIENT_RESOURCES"
  "\<not> NT_SUCCESS STATUS_UNEXPECTED_IO_ERROR"
  "\<not> NT_SUCCESS STATUS_NOT_FOUND"
  "\<not> NT_SUCCESS STATUS_INVALID_NETWORK_RESPONSE"
  "\<not> NT_SUCCESS STATUS_NAME_TOO_LONG"
  "\<not> NT_SUCCESS STATUS_BUFFER_OVERFLOW"
  "\<not> NT_SUCCESS STATUS_BUFFER_TOO_SMALL"
  "\<not> NT_SUCCESS STATUS_OBJECT_NAME_NOT_FOUND"
  "\<not> NT_SUCCESS STATUS_ACCESS_DENIED"
  "\<not> NT_SUCCESS STATUS_END_OF_FILE"
  "\<not> NT_SUCCESS STATUS_CONNECTION_DISCONNECTED"
  by (simp_all add: NT_SUCCESS_def status_defs)

section \<open>Lists and options\<close>

lemma bind_Some_conv:
  "(Option.bind m f = Some y) \<longleftrightarrow> (\<exists>x. m = Some x \<and> f x = Some y)"
  by (cases m) auto

lemma find_SomeD: "List.find P xs = Some x \<Longrightarrow> x \<in> set xs \<and> P x"
  by (auto simp: find_Some_iff)

lemma find_NoneD: "List.find P xs = None \<Longrightarrow> x \<in> set xs \<Longrightarrow> \<not> P x"
  by (auto simp: find_None_iff)

lemma nth_list_update_cases:
  "i < length xs \<Longrightarrow> xs[i := v] ! j = (if j = i then v else xs ! j)"
  by (simp add: nth_list_update)

section \<open>Words used as array indices\<close>

lemma unat_neqI: "(a :: 'a::len word) \<noteq> b \<Longrightarrow> unat a \<noteq> unat b"
  by (simp add: word_unat_eq_iff)

lemma unat_of_nat_less: "n < 2 ^ LENGTH('a) \<Longrightarrow> unat (of_nat n :: 'a::len word) = n"
  by (simp add: unat_of_nat take_bit_nat_eq_self)

lemma unat_and_le: "unat (a AND m) \<le> unat (m :: 'a::len word)"
  using word_and_le1 word_le_nat_alt by blast

lemma unat_pow2: "k < LENGTH('a) \<Longrightarrow> unat (2 ^ k :: 'a::len word) = 2 ^ k"
  using unat_of_nat_less [of "2 ^ k", where 'a = 'a] by simp

lemma unat_ucast_up:
  assumes "LENGTH('a) \<le> LENGTH('b)"
  shows "unat (ucast (x :: 'a::len word) :: 'b::len word) = unat x"
proof -
  have "unat x < 2 ^ LENGTH('a)" by (rule unsigned_less)
  also have "\<dots> \<le> 2 ^ LENGTH('b)" using assms by simp
  finally show ?thesis by (simp add: unsigned_ucast_eq take_bit_nat_eq_self)
qed

lemma unat_Suc_less:
  fixes a n :: "'a::len word"
  assumes "unat a < unat n"
  shows "unat (a + 1) = Suc (unat a)"
proof -
  have "unat n < 2 ^ LENGTH('a)" by (rule unsigned_less)
  with assms have "Suc (unat a) < 2 ^ LENGTH('a)" by linarith
  then show ?thesis
    by (simp add: unat_word_ariths)
qed

lemma unat_minus_le: "b \<le> a \<Longrightarrow> unat (a - b) = unat a - unat (b :: 'a::len word)"
  by (rule unat_sub)

section \<open>Memory\<close>

text \<open>The bytes of a C string literal.\<close>

definition ascii :: "string \<Rightarrow> UCHAR list" where
  "ascii s = map of_char s"

text \<open>
  A buffer is the list of its bytes; reading or writing outside it is undefined, the None that a
  proof of memory safety excludes.
\<close>

definition peek :: "nat \<Rightarrow> nat \<Rightarrow> UCHAR list \<Rightarrow> UCHAR list option" where
  "peek at n buf = (if at + n \<le> length buf then Some (take n (drop at buf)) else None)"

definition poke :: "nat \<Rightarrow> UCHAR list \<Rightarrow> UCHAR list \<Rightarrow> UCHAR list option" where
  "poke at bytes buf =
     (if at + length bytes \<le> length buf
      then Some (take at buf @ bytes @ drop (at + length bytes) buf) else None)"

lemma peek_take: "at + n \<le> length buf \<Longrightarrow> peek at n buf = Some (take n (drop at buf))"
  by (simp add: peek_def)

lemma poke_ok: "at + length bytes \<le> length buf \<Longrightarrow> \<exists>buf'. poke at bytes buf = Some buf'"
  by (simp add: poke_def)

lemma poked:
  assumes "poke at bytes buf = Some buf'" "b \<le> at"
  shows "length buf' = length buf"
    and "take (at - b + length bytes) (drop b buf') = take (at - b) (drop b buf) @ bytes"
proof -
  have room: "at + length bytes \<le> length buf" and eq: "buf' = take at buf @ bytes @ drop (at + length bytes) buf"
    using assms(1) by (auto simp: poke_def split: if_splits)
  show "length buf' = length buf" using room by (simp add: eq)
  have "drop b buf' = take (at - b) (drop b buf) @ bytes @ drop (at + length bytes) buf"
    using assms(2) room by (simp add: eq drop_take)
  moreover have "length (take (at - b) (drop b buf)) = at - b" using assms(2) room by simp
  ultimately show "take (at - b + length bytes) (drop b buf') = take (at - b) (drop b buf) @ bytes" by simp
qed

end
