(* ===== verification/Disk_Cache_Index.thy ===== *)
theory Disk_Cache_Index
  imports Blorg_Prelude
begin

unbundle bit_operations_syntax

text \<open>
  The disk cache's index (DiskCacheIndex.c, DiskCache.h): which slot of the cache file holds
  which block, which slot the clock gives up next, second-miss admission through the ghost
  table, and which blocks of a partly held read are fetched rather than served.

  The arrays of the index are lists and the links are the source's ULONGs, so a hash chain is
  a linked list through \<open>Slot_Next\<close>. Every operation returns an option: \<open>None\<close> stands for a
  run with no defined outcome, an access outside an array or a chain walk that never ends. The
  theorems of \<open>Disk_Cache_Index_Correct\<close> show that neither happens under the index invariant.
  Each operation of the source holds the index spin lock from its first access to its last, so
  it is one atomic function of the state here.
\<close>

section \<open>Data\<close>

definition DISK_CACHE_BLOCK_SHIFT :: nat where "DISK_CACHE_BLOCK_SHIFT = 16"
definition DISK_CACHE_MAX_MB :: nat where "DISK_CACHE_MAX_MB = 16384"
definition DISK_CACHE_NO_SLOT :: ULONG where "DISK_CACHE_NO_SLOT = 0xFFFFFFFF"
definition DISK_CACHE_GHOST_WAYS :: nat where "DISK_CACHE_GHOST_WAYS = 4"
definition DISK_CACHE_CLOCK_REACH :: nat where "DISK_CACHE_CLOCK_REACH = 256"
definition DISK_CACHE_GOLDEN :: ULONG64 where "DISK_CACHE_GOLDEN = 0x9E3779B97F4A7C15"

record DISK_CACHE_KEY =
  File0 :: ULONG64
  File1 :: ULONG64
  Key_Size :: ULONG64
  Key_ModifiedTime :: ULONG64
  Key_Block :: ULONG64

datatype DISK_CACHE_SLOT_STATE = DiskCacheSlotFree | DiskCacheSlotFilling | DiskCacheSlotValid

text \<open>
  \<open>Slot_Pins\<close> is a signed LONG. It counts reads and fills in flight, so it is far from the
  ends of its range and is an unbounded integer here; that it never goes below zero is part of
  the invariant.
\<close>

record DISK_CACHE_SLOT =
  Slot_Key :: DISK_CACHE_KEY
  Slot_Next :: ULONG
  Slot_Pins :: int
  Slot_State :: DISK_CACHE_SLOT_STATE
  Slot_Referenced :: bool

record DISK_CACHE_INDEX =
  Slots :: "DISK_CACHE_SLOT list"
  Heads :: "ULONG list"
  Ghosts :: "ULONG64 list"
  SlotCount :: ULONG
  HashMask :: ULONG
  Hand :: ULONG
  GhostMask :: ULONG

datatype DISK_CACHE_ADMIT =
  DiskCacheReserved | DiskCacheHeld | DiskCacheFirstMiss | DiskCacheNoVictim

section \<open>Array accesses\<close>

definition slot_at :: "DISK_CACHE_INDEX \<Rightarrow> ULONG \<Rightarrow> DISK_CACHE_SLOT option" where
  "slot_at ix s = (if unat s < length (Slots ix) then Some (Slots ix ! unat s) else None)"

definition set_slot :: "DISK_CACHE_INDEX \<Rightarrow> ULONG \<Rightarrow> DISK_CACHE_SLOT \<Rightarrow> DISK_CACHE_INDEX" where
  "set_slot ix s e = ix\<lparr>Slots := (Slots ix)[unat s := e]\<rparr>"

section \<open>Hashing and the chain walks\<close>

definition DiskCacheIndexMix :: "DISK_CACHE_KEY \<Rightarrow> ULONG64" where
  "DiskCacheIndexMix k =
     (let hash = File0 k;
          hash = (hash XOR File1 k) * DISK_CACHE_GOLDEN;
          hash = (hash XOR Key_Size k) * DISK_CACHE_GOLDEN;
          hash = (hash XOR Key_ModifiedTime k) * DISK_CACHE_GOLDEN;
          hash = (hash XOR Key_Block k) * DISK_CACHE_GOLDEN
      in hash XOR drop_bit 29 hash)"

text \<open>The source returns a pointer to the chain head; the model returns its index in \<open>Heads\<close>.\<close>

definition DiskCacheIndexHead :: "DISK_CACHE_INDEX \<Rightarrow> ULONG64 \<Rightarrow> nat" where
  "DiskCacheIndexHead ix mix = unat ((ucast (drop_bit 32 mix) :: ULONG) AND HashMask ix)"

definition head_at :: "DISK_CACHE_INDEX \<Rightarrow> nat \<Rightarrow> ULONG option" where
  "head_at ix h = (if h < length (Heads ix) then Some (Heads ix ! h) else None)"

partial_function (option) find_from ::
  "DISK_CACHE_INDEX \<Rightarrow> DISK_CACHE_KEY \<Rightarrow> ULONG \<Rightarrow> ULONG option" where
  [code]: "find_from ix k slot =
     (if slot = DISK_CACHE_NO_SLOT then Some DISK_CACHE_NO_SLOT
      else do {
        e \<leftarrow> slot_at ix slot;
        (if Slot_Key e = k then Some slot else find_from ix k (Slot_Next e))
      })"

definition DiskCacheIndexFind ::
  "DISK_CACHE_INDEX \<Rightarrow> DISK_CACHE_KEY \<Rightarrow> ULONG64 \<Rightarrow> ULONG option" where
  "DiskCacheIndexFind ix k mix = do {
     head \<leftarrow> head_at ix (DiskCacheIndexHead ix mix);
     find_from ix k head
   }"

text \<open>
  The unlink loop moves a pointer to a link: first the chain head, then the \<open>Next\<close> field of
  each slot it passes.
\<close>

datatype link = HeadLink nat | NextLink ULONG

fun read_link :: "DISK_CACHE_INDEX \<Rightarrow> link \<Rightarrow> ULONG option" where
  "read_link ix (HeadLink h) = head_at ix h"
| "read_link ix (NextLink s) = map_option Slot_Next (slot_at ix s)"

fun write_link :: "DISK_CACHE_INDEX \<Rightarrow> link \<Rightarrow> ULONG \<Rightarrow> DISK_CACHE_INDEX" where
  "write_link ix (HeadLink h) v = ix\<lparr>Heads := (Heads ix)[h := v]\<rparr>"
| "write_link ix (NextLink s) v =
     ix\<lparr>Slots := (Slots ix)[unat s := (Slots ix ! unat s)\<lparr>Slot_Next := v\<rparr>]\<rparr>"

partial_function (option) find_link ::
  "DISK_CACHE_INDEX \<Rightarrow> ULONG \<Rightarrow> link \<Rightarrow> link option" where
  [code]: "find_link ix slot l = do {
     p \<leftarrow> read_link ix l;
     (if p = slot then Some l
      else do {
        _ \<leftarrow> slot_at ix p;
        find_link ix slot (NextLink p)
      })
   }"

definition DiskCacheIndexUnlink :: "DISK_CACHE_INDEX \<Rightarrow> ULONG \<Rightarrow> DISK_CACHE_INDEX option" where
  "DiskCacheIndexUnlink ix slot = do {
     e \<leftarrow> slot_at ix slot;
     l \<leftarrow> find_link ix slot (HeadLink (DiskCacheIndexHead ix (DiskCacheIndexMix (Slot_Key e))));
     let ix1 = write_link ix l (Slot_Next e);
     e1 \<leftarrow> slot_at ix1 slot;
     Some (set_slot ix1 slot (e1\<lparr>Slot_Next := DISK_CACHE_NO_SLOT\<rparr>))
   }"

section \<open>The clock\<close>

text \<open>\<open>left\<close> counts the slots the hand may still look at.\<close>

fun victim_loop :: "nat \<Rightarrow> ULONG \<Rightarrow> DISK_CACHE_INDEX \<Rightarrow> (ULONG \<times> DISK_CACHE_INDEX) option" where
  "victim_loop 0 fallback ix = Some (fallback, ix)"
| "victim_loop (Suc left) fallback ix = do {
     let slot = Hand ix;
     entry \<leftarrow> slot_at ix slot;
     let ix1 = ix\<lparr>Hand := (if slot + 1 = SlotCount ix then 0 else slot + 1)\<rparr>;
     (if Slot_Pins entry \<noteq> 0 then victim_loop left fallback ix1
      else if Slot_State entry \<noteq> DiskCacheSlotFree \<and> Slot_Referenced entry
      then victim_loop left (if fallback = DISK_CACHE_NO_SLOT then slot else fallback)
             (set_slot ix1 slot (entry\<lparr>Slot_Referenced := False\<rparr>))
      else Some (slot, ix1))
   }"

definition DiskCacheIndexVictim :: "DISK_CACHE_INDEX \<Rightarrow> (ULONG \<times> DISK_CACHE_INDEX) option" where
  "DiskCacheIndexVictim ix =
     victim_loop (min (unat (SlotCount ix)) DISK_CACHE_CLOCK_REACH) DISK_CACHE_NO_SLOT ix"

section \<open>Creation\<close>

definition zero_key :: DISK_CACHE_KEY where
  "zero_key = \<lparr>File0 = 0, File1 = 0, Key_Size = 0, Key_ModifiedTime = 0, Key_Block = 0\<rparr>"

definition zero_slot :: DISK_CACHE_SLOT where
  "zero_slot = \<lparr>Slot_Key = zero_key, Slot_Next = 0, Slot_Pins = 0,
     Slot_State = DiskCacheSlotFree, Slot_Referenced = False\<rparr>"

definition empty_index :: DISK_CACHE_INDEX where
  "empty_index = \<lparr>Slots = [], Heads = [], Ghosts = [], SlotCount = 0, HashMask = 0, Hand = 0,
     GhostMask = 0\<rparr>"

text \<open>
  The doubling loop \<open>while (heads < SlotCount) heads <<= 1\<close>, on the 32-bit value of the source;
  shifted to zero it would never end.
\<close>

partial_function (option) heads_loop :: "ULONG \<Rightarrow> ULONG \<Rightarrow> ULONG option" where
  [code]: "heads_loop slotCount heads =
     (if heads < slotCount then heads_loop slotCount (push_bit 1 heads) else Some heads)"

text \<open>
  \<open>allocated\<close> tells whether all three pool allocations succeed; the result is the status and
  the index the call leaves.
\<close>

definition BlorgDiskCacheIndexInitialize ::
  "ULONG \<Rightarrow> bool \<Rightarrow> (NTSTATUS \<times> DISK_CACHE_INDEX) option" where
  "BlorgDiskCacheIndexInitialize slotCount allocated =
     (if slotCount = 0 \<or>
         unat slotCount > DISK_CACHE_MAX_MB * 2 ^ (20 - DISK_CACHE_BLOCK_SHIFT)
      then Some (STATUS_INVALID_PARAMETER, empty_index)
      else do {
        heads \<leftarrow> heads_loop slotCount 1;
        let ghostSets = (if heads > 1 then heads div 2 else 1);
        Some (if \<not> allocated then (STATUS_INSUFFICIENT_RESOURCES, empty_index)
          else (STATUS_SUCCESS,
            \<lparr>Slots = replicate (unat slotCount) (zero_slot\<lparr>Slot_Next := DISK_CACHE_NO_SLOT\<rparr>),
             Heads = replicate (unat heads) DISK_CACHE_NO_SLOT,
             Ghosts = replicate (unat ghostSets * DISK_CACHE_GHOST_WAYS) 0,
             SlotCount = slotCount,
             HashMask = heads - 1,
             Hand = 0,
             GhostMask = ghostSets - 1\<rparr>))
      })"

definition BlorgDiskCacheIndexCleanup :: "DISK_CACHE_INDEX \<Rightarrow> DISK_CACHE_INDEX" where
  "BlorgDiskCacheIndexCleanup ix = ix\<lparr>Slots := [], Heads := [], Ghosts := [], SlotCount := 0\<rparr>"

section \<open>Pinning\<close>

text \<open>The caller's \<open>Slots\<close> array is the list of what was written to it, in order.\<close>

partial_function (option) pin_loop ::
  "DISK_CACHE_INDEX \<Rightarrow> DISK_CACHE_KEY \<Rightarrow> ULONG64 \<Rightarrow> ULONG list \<Rightarrow> ULONG
     \<Rightarrow> (ULONG \<times> ULONG list \<times> DISK_CACHE_INDEX) option" where
  [code]: "pin_loop ix key lastBlock slots pinned =
     (if Key_Block key \<le> lastBlock
      then do {
        slot \<leftarrow> DiskCacheIndexFind ix key (DiskCacheIndexMix key);
        (if slot = DISK_CACHE_NO_SLOT
         then pin_loop ix (key\<lparr>Key_Block := Key_Block key + 1\<rparr>) lastBlock
                (slots @ [DISK_CACHE_NO_SLOT]) pinned
         else do {
           entry \<leftarrow> slot_at ix slot;
           (if Slot_State entry \<noteq> DiskCacheSlotValid
            then pin_loop ix (key\<lparr>Key_Block := Key_Block key + 1\<rparr>) lastBlock
                   (slots @ [DISK_CACHE_NO_SLOT]) pinned
            else pin_loop (set_slot ix slot (entry\<lparr>Slot_Pins := Slot_Pins entry + 1\<rparr>))
                   (key\<lparr>Key_Block := Key_Block key + 1\<rparr>) lastBlock
                   (slots @ [slot]) (pinned + 1))
         })
      }
      else Some (pinned, slots, ix))"

definition BlorgDiskCacheIndexPinHeld ::
  "DISK_CACHE_INDEX \<Rightarrow> DISK_CACHE_KEY \<Rightarrow> ULONG64
     \<Rightarrow> (ULONG \<times> ULONG list \<times> DISK_CACHE_INDEX) option" where
  "BlorgDiskCacheIndexPinHeld ix key lastBlock = pin_loop ix key lastBlock [] 0"

fun BlorgDiskCacheIndexUnpin ::
  "DISK_CACHE_INDEX \<Rightarrow> ULONG list \<Rightarrow> bool \<Rightarrow> DISK_CACHE_INDEX option" where
  "BlorgDiskCacheIndexUnpin ix [] served = Some ix"
| "BlorgDiskCacheIndexUnpin ix (s # slots) served =
     (if s = DISK_CACHE_NO_SLOT then BlorgDiskCacheIndexUnpin ix slots served
      else do {
        entry \<leftarrow> slot_at ix s;
        let entry1 = entry\<lparr>Slot_Pins := Slot_Pins entry - 1\<rparr>;
        BlorgDiskCacheIndexUnpin
          (set_slot ix s (if served then entry1\<lparr>Slot_Referenced := True\<rparr> else entry1))
          slots served
      })"

section \<open>Planning a partly held read\<close>

definition MAXULONG :: nat where "MAXULONG = 2 ^ 32 - 1"

text \<open>The inner \<open>while\<close>: back from \<open>i\<close> over the held blocks before it.\<close>

fun gap_start :: "ULONG list \<Rightarrow> nat \<Rightarrow> nat" where
  "gap_start slots 0 = 0"
| "gap_start slots (Suc s) =
     (if slots ! s \<noteq> DISK_CACHE_NO_SLOT then gap_start slots s else Suc s)"

text \<open>One pass of the \<open>for\<close> body: \<open>(runs, gapStart, gapLength)\<close> after looking at block \<open>i\<close>.\<close>

definition plan_step :: "ULONG list \<Rightarrow> nat \<times> nat \<times> nat \<Rightarrow> nat \<Rightarrow> nat \<times> nat \<times> nat" where
  "plan_step slots acc i =
     (case acc of (runs, gapStart, gapLength) \<Rightarrow>
       if slots ! i \<noteq> DISK_CACHE_NO_SLOT \<or> (i \<noteq> 0 \<and> slots ! (i - 1) = DISK_CACHE_NO_SLOT)
       then (runs, gapStart, gapLength)
       else if runs \<noteq> 0 \<and> i - gap_start slots i < gapLength
       then (Suc runs, gap_start slots i, i - gap_start slots i)
       else (Suc runs, gapStart, gapLength))"

definition plan_scan :: "ULONG list \<Rightarrow> nat \<times> nat \<times> nat" where
  "plan_scan slots = foldl (plan_step slots) (0, 0, MAXULONG) [0..<length slots]"

definition give_up :: "ULONG list \<Rightarrow> nat \<Rightarrow> nat \<Rightarrow> ULONG list" where
  "give_up slots start len =
     take start slots @ replicate len DISK_CACHE_NO_SLOT @ drop (start + len) slots"

text \<open>
  The outer loop. Giving up a gap reaches outside the array when there is no gap to give up,
  which is the read with a hole and \<open>MaxRuns\<close> zero that the source's contract excludes.
\<close>

partial_function (option) BlorgDiskCacheIndexPlanRead ::
  "DISK_CACHE_INDEX \<Rightarrow> ULONG list \<Rightarrow> ULONG \<Rightarrow> nat
     \<Rightarrow> (ULONG \<times> ULONG list \<times> DISK_CACHE_INDEX) option" where
  [code]: "BlorgDiskCacheIndexPlanRead ix slots held maxRuns =
     (case plan_scan slots of (runs, gapStart, gapLength) \<Rightarrow>
       if runs \<le> maxRuns then Some (held, slots, ix)
       else if gapStart + gapLength > length slots then None
       else do {
         ix1 \<leftarrow> BlorgDiskCacheIndexUnpin ix (take gapLength (drop gapStart slots)) False;
         BlorgDiskCacheIndexPlanRead ix1 (give_up slots gapStart gapLength)
           (held - of_nat gapLength) maxRuns
       })"

section \<open>Admission\<close>

definition ghost_base :: "DISK_CACHE_INDEX \<Rightarrow> ULONG64 \<Rightarrow> nat" where
  "ghost_base ix mix = unat ((ucast mix :: ULONG) AND GhostMask ix) * DISK_CACHE_GHOST_WAYS"

text \<open>The way of the set that holds \<open>tag\<close>, \<open>DISK_CACHE_GHOST_WAYS\<close> when none does.\<close>

fun ghost_way :: "ULONG64 list \<Rightarrow> nat \<Rightarrow> ULONG64 \<Rightarrow> nat \<Rightarrow> nat" where
  "ghost_way ghosts base tag 0 = DISK_CACHE_GHOST_WAYS"
| "ghost_way ghosts base tag (Suc left) =
     (let way = DISK_CACHE_GHOST_WAYS - Suc left
      in if tag = ghosts ! (base + way) then way else ghost_way ghosts base tag left)"

text \<open>RtlMoveMemory of the set one way down, then the new tag in front.\<close>

definition ghost_push :: "ULONG64 list \<Rightarrow> nat \<Rightarrow> ULONG64 \<Rightarrow> ULONG64 list" where
  "ghost_push ghosts base tag =
     take base ghosts @ tag # take (DISK_CACHE_GHOST_WAYS - 1) (drop base ghosts)
       @ drop (base + DISK_CACHE_GHOST_WAYS) ghosts"

text \<open>
  \<open>reserve_slot\<close> is the last branch of the source's function, from the clock's victim on;
  the slot is the value written through the caller's \<open>Slot\<close> pointer.
\<close>

definition reserve_slot ::
  "DISK_CACHE_INDEX \<Rightarrow> DISK_CACHE_KEY \<Rightarrow> ULONG64 \<Rightarrow> nat
     \<Rightarrow> (DISK_CACHE_ADMIT \<times> ULONG option \<times> DISK_CACHE_INDEX) option" where
  "reserve_slot ix key mix ghost = do {
     (slot, ix1) \<leftarrow> DiskCacheIndexVictim ix;
     (if slot = DISK_CACHE_NO_SLOT then Some (DiskCacheNoVictim, None, ix1)
      else do {
        entry \<leftarrow> slot_at ix1 slot;
        ix2 \<leftarrow> (if Slot_State entry \<noteq> DiskCacheSlotFree then DiskCacheIndexUnlink ix1 slot
                else Some ix1);
        let h = DiskCacheIndexHead ix2 mix;
        head \<leftarrow> head_at ix2 h;
        let ix3 = set_slot ix2 slot
          \<lparr>Slot_Key = key, Slot_Next = head, Slot_Pins = 1, Slot_State = DiskCacheSlotFilling,
           Slot_Referenced = False\<rparr>;
        Some (DiskCacheReserved, Some slot,
          ix3\<lparr>Heads := (Heads ix3)[h := slot], Ghosts := (Ghosts ix3)[ghost := 0]\<rparr>)
      })
   }"

definition BlorgDiskCacheIndexReserve ::
  "DISK_CACHE_INDEX \<Rightarrow> DISK_CACHE_KEY
     \<Rightarrow> (DISK_CACHE_ADMIT \<times> ULONG option \<times> DISK_CACHE_INDEX) option" where
  "BlorgDiskCacheIndexReserve ix key = do {
     let mix = DiskCacheIndexMix key;
     let tag = mix OR 1;
     let base = ghost_base ix mix;
     _ \<leftarrow> (if base + DISK_CACHE_GHOST_WAYS \<le> length (Ghosts ix) then Some () else None);
     let way = ghost_way (Ghosts ix) base tag DISK_CACHE_GHOST_WAYS;
     found \<leftarrow> DiskCacheIndexFind ix key mix;
     (if found \<noteq> DISK_CACHE_NO_SLOT then Some (DiskCacheHeld, None, ix)
      else if way = DISK_CACHE_GHOST_WAYS
      then Some (DiskCacheFirstMiss, None, ix\<lparr>Ghosts := ghost_push (Ghosts ix) base tag\<rparr>)
      else reserve_slot ix key mix (base + way))
   }"

definition BlorgDiskCacheIndexCommit ::
  "DISK_CACHE_INDEX \<Rightarrow> ULONG \<Rightarrow> bool \<Rightarrow> DISK_CACHE_INDEX option" where
  "BlorgDiskCacheIndexCommit ix slot written = do {
     _ \<leftarrow> slot_at ix slot;
     ix1 \<leftarrow> (if written then Some ix else DiskCacheIndexUnlink ix slot);
     entry \<leftarrow> slot_at ix1 slot;
     Some (set_slot ix1 slot
       (entry\<lparr>Slot_State := (if written then DiskCacheSlotValid else DiskCacheSlotFree),
              Slot_Pins := Slot_Pins entry - 1\<rparr>))
   }"

end
