(* ===== verification/Disk_Cache_Index_Correct.thy ===== *)
theory Disk_Cache_Index_Correct
  imports Disk_Cache_Index
begin

unbundle bit_operations_syntax

text \<open>
  Correctness of the disk cache index: the invariant of the hash chains, the slots and the
  ghost table, that every operation returns and keeps it, and the refinement of the linked
  index to a map from keys to slots.
\<close>

section \<open>Chains\<close>

fun chain :: "DISK_CACHE_SLOT list \<Rightarrow> ULONG \<Rightarrow> ULONG list \<Rightarrow> bool" where
  "chain sl p [] \<longleftrightarrow> p = DISK_CACHE_NO_SLOT"
| "chain sl p (a # as) \<longleftrightarrow>
     p = a \<and> a \<noteq> DISK_CACHE_NO_SLOT \<and> unat a < length sl \<and> chain sl (Slot_Next (sl ! unat a)) as"

lemma chain_upd [simp]:
  "s \<notin> set as \<Longrightarrow> chain (sl[unat s := e]) p as = chain sl p as"
  by (induction as arbitrary: p) (auto simp: nth_list_update word_unat_eq_iff)

lemma chain_bound: "chain sl p as \<Longrightarrow> s \<in> set as \<Longrightarrow> unat s < length sl \<and> s \<noteq> DISK_CACHE_NO_SLOT"
  by (induction as arbitrary: p) auto

lemma chain_head_cases:
  "chain sl p as \<Longrightarrow> (p = DISK_CACHE_NO_SLOT \<and> as = []) \<or> (\<exists>bs. as = p # bs)"
  by (cases as) auto

lemma chain_relink:
  assumes "chain sl p (as @ q # s # bs)" "distinct (as @ q # s # bs)"
  shows "chain (sl[unat q := (sl ! unat q)\<lparr>Slot_Next := Slot_Next (sl ! unat s)\<rparr>]) p (as @ q # bs)"
  using assms
proof (induction as arbitrary: p)
  case (Cons a as)
  then have "unat q \<noteq> unat a" by (auto simp: word_unat_eq_iff)
  with Cons show ?case by (simp add: nth_list_update)
qed simp

lemma chain_suffix:
  "chain sl p (as @ s # bs) \<Longrightarrow> chain sl (Slot_Next (sl ! unat s)) bs"
  by (induction as arbitrary: p) auto

lemma chain_first: "chain sl p (as @ s # bs) \<Longrightarrow> as = [] \<Longrightarrow> p = s"
  by simp

lemma chain_cong_next:
  "length sl' = length sl \<Longrightarrow>
   (\<And>s :: ULONG. unat s < length sl \<Longrightarrow> Slot_Next (sl' ! unat s) = Slot_Next (sl ! unat s)) \<Longrightarrow>
   chain sl' p as = chain sl p as"
  by (induction as arbitrary: p) auto

section \<open>The invariant\<close>

definition key_of :: "DISK_CACHE_INDEX \<Rightarrow> ULONG \<Rightarrow> DISK_CACHE_KEY" where
  "key_of ix s = Slot_Key (Slots ix ! unat s)"

definition state_of :: "DISK_CACHE_INDEX \<Rightarrow> ULONG \<Rightarrow> DISK_CACHE_SLOT_STATE" where
  "state_of ix s = Slot_State (Slots ix ! unat s)"

definition pins_of :: "DISK_CACHE_INDEX \<Rightarrow> ULONG \<Rightarrow> int" where
  "pins_of ix s = Slot_Pins (Slots ix ! unat s)"

definition used :: "DISK_CACHE_INDEX \<Rightarrow> ULONG set" where
  "used ix = {s. unat s < length (Slots ix) \<and> state_of ix s \<noteq> DiskCacheSlotFree}"

definition head_of :: "DISK_CACHE_INDEX \<Rightarrow> DISK_CACHE_KEY \<Rightarrow> nat" where
  "head_of ix k = DiskCacheIndexHead ix (DiskCacheIndexMix k)"

definition index_shape :: "DISK_CACHE_INDEX \<Rightarrow> bool" where
  "index_shape ix \<longleftrightarrow>
     length (Slots ix) = unat (SlotCount ix) \<and> 0 < unat (SlotCount ix) \<and>
     unat (SlotCount ix) \<le> 262144 \<and> unat (Hand ix) < unat (SlotCount ix) \<and>
     length (Heads ix) = Suc (unat (HashMask ix)) \<and>
     length (Ghosts ix) = Suc (unat (GhostMask ix)) * DISK_CACHE_GHOST_WAYS"

text \<open>
  A fill holds the only pin of its slot, since reads pin filled slots only; a free slot has
  none.
\<close>

definition slot_ok :: "DISK_CACHE_SLOT \<Rightarrow> bool" where
  "slot_ok e \<longleftrightarrow> 0 \<le> Slot_Pins e \<and>
     (Slot_State e = DiskCacheSlotFree \<longrightarrow> Slot_Pins e = 0) \<and>
     (Slot_State e = DiskCacheSlotFilling \<longrightarrow> Slot_Pins e = 1)"

definition keys_unique :: "DISK_CACHE_INDEX \<Rightarrow> bool" where
  "keys_unique ix \<longleftrightarrow> (\<forall>s\<in>used ix. \<forall>t\<in>used ix. key_of ix s = key_of ix t \<longrightarrow> s = t)"

text \<open>\<open>links_ok ix U\<close>: the chains hold exactly the slots of \<open>U\<close>, each in its key's chain.\<close>

definition links_by :: "DISK_CACHE_INDEX \<Rightarrow> ULONG set \<Rightarrow> (nat \<Rightarrow> ULONG list) \<Rightarrow> bool" where
  "links_by ix U ch \<longleftrightarrow>
     (\<forall>h < length (Heads ix).
        chain (Slots ix) (Heads ix ! h) (ch h) \<and> distinct (ch h) \<and>
        set (ch h) = {s \<in> U. head_of ix (key_of ix s) = h})"

lemma links_byD:
  assumes "links_by ix U ch" "h < length (Heads ix)"
  shows "chain (Slots ix) (Heads ix ! h) (ch h)" "distinct (ch h)"
    "set (ch h) = {s \<in> U. head_of ix (key_of ix s) = h}"
  using assms by (simp_all add: links_by_def)

definition links_ok :: "DISK_CACHE_INDEX \<Rightarrow> ULONG set \<Rightarrow> bool" where
  "links_ok ix U \<longleftrightarrow> (\<exists>ch. links_by ix U ch)"

definition index_inv :: "DISK_CACHE_INDEX \<Rightarrow> bool" where
  "index_inv ix \<longleftrightarrow>
     index_shape ix \<and> (\<forall>e \<in> set (Slots ix). slot_ok e) \<and> keys_unique ix \<and> links_ok ix (used ix)"

lemmas index_inv_defs = index_inv_def index_shape_def keys_unique_def

lemma head_of_less: "index_shape ix \<Longrightarrow> head_of ix k < length (Heads ix)"
  unfolding head_of_def DiskCacheIndexHead_def index_shape_def
  using unat_and_le[of _ "HashMask ix"] by (simp add: less_Suc_eq_le)

lemma slot_neq_NO:
  "index_shape ix \<Longrightarrow> unat s < length (Slots ix) \<Longrightarrow> s \<noteq> DISK_CACHE_NO_SLOT"
  by (auto simp: index_shape_def DISK_CACHE_NO_SLOT_def)

lemma slot_at_Some: "slot_at ix s = Some e \<longleftrightarrow> unat s < length (Slots ix) \<and> e = Slots ix ! unat s"
  by (auto simp: slot_at_def)

lemma head_at_head_of:
  "index_shape ix \<Longrightarrow> head_at ix (head_of ix k) = Some (Heads ix ! head_of ix k)"
  by (simp add: head_at_def head_of_less)

section \<open>Finding\<close>

lemma find_from_chain:
  "chain (Slots ix) p as \<Longrightarrow>
   find_from ix k p =
     Some (case List.find (\<lambda>s. key_of ix s = k) as of None \<Rightarrow> DISK_CACHE_NO_SLOT | Some s \<Rightarrow> s)"
proof (induction as arbitrary: p)
  case Nil
  then show ?case by (simp add: find_from.simps)
next
  case (Cons a as)
  then show ?case
    by (subst find_from.simps) (auto simp: slot_at_def key_of_def)
qed

text \<open>The abstract view: the slot that holds or fills a key.\<close>

definition slot_of :: "DISK_CACHE_INDEX \<Rightarrow> DISK_CACHE_KEY \<Rightarrow> ULONG option" where
  "slot_of ix k =
     List.find (\<lambda>s. state_of ix s \<noteq> DiskCacheSlotFree \<and> key_of ix s = k)
       (map of_nat [0..<length (Slots ix)])"

lemma mem_all_slots:
  fixes s :: ULONG
  shows "index_shape ix \<Longrightarrow>
    s \<in> set (map of_nat [0..<length (Slots ix)]) \<longleftrightarrow> unat s < length (Slots ix)"
proof -
  assume sh: "index_shape ix"
  then have le: "length (Slots ix) \<le> 262144" by (simp add: index_shape_def)
  show ?thesis
  proof
    assume "s \<in> set (map of_nat [0..<length (Slots ix)])"
    then obtain n where n: "n < length (Slots ix)" "s = of_nat n" by auto
    with le have "unat s = n" by (simp add: unat_of_nat take_bit_nat_eq_self)
    with n show "unat s < length (Slots ix)" by simp
  next
    assume "unat s < length (Slots ix)"
    moreover have "s = of_nat (unat s)" by simp
    ultimately show "s \<in> set (map of_nat [0..<length (Slots ix)])"
      by (metis atLeastLessThan_iff image_eqI less_eq_nat.simps(1) set_map set_upt)
  qed
qed

lemma slot_of_None: "index_shape ix \<Longrightarrow> slot_of ix k = None \<longleftrightarrow> (\<forall>s\<in>used ix. key_of ix s \<noteq> k)"
  unfolding slot_of_def find_None_iff used_def by (auto simp: mem_all_slots simp del: set_map)

lemma slot_of_Some:
  assumes "index_shape ix" "keys_unique ix"
  shows "slot_of ix k = Some s \<longleftrightarrow> s \<in> used ix \<and> key_of ix s = k"
proof
  assume "slot_of ix k = Some s"
  then have "s \<in> set (map of_nat [0..<length (Slots ix)])"
    and p: "state_of ix s \<noteq> DiskCacheSlotFree \<and> key_of ix s = k"
    unfolding slot_of_def by (auto simp del: set_map dest!: find_SomeD)
  then show "s \<in> used ix \<and> key_of ix s = k"
    using assms(1) p by (simp add: used_def mem_all_slots del: set_map)
next
  assume s: "s \<in> used ix \<and> key_of ix s = k"
  with assms(1) obtain t where t: "slot_of ix k = Some t"
    by (meson not_None_eq slot_of_None)
  then have "t \<in> set (map of_nat [0..<length (Slots ix)])"
    and p: "state_of ix t \<noteq> DiskCacheSlotFree \<and> key_of ix t = k"
    unfolding slot_of_def by (auto simp del: set_map dest!: find_SomeD)
  then have "t \<in> used ix" using assms(1) by (simp add: used_def mem_all_slots del: set_map)
  with s p assms(2) have "t = s" by (auto simp: keys_unique_def)
  with t show "slot_of ix k = Some s" by simp
qed

lemma Find_slot_of:
  assumes "index_inv ix"
  shows "DiskCacheIndexFind ix k (DiskCacheIndexMix k) =
    Some (case slot_of ix k of None \<Rightarrow> DISK_CACHE_NO_SLOT | Some s \<Rightarrow> s)"
proof -
  from assms have sh: "index_shape ix" and ku: "keys_unique ix" and "links_ok ix (used ix)"
    by (auto simp: index_inv_def)
  then obtain ch where ch: "links_by ix (used ix) ch" by (auto simp: links_ok_def)
  let ?h = "head_of ix k"
  have h: "?h < length (Heads ix)" using sh by (rule head_of_less)
  with ch have c: "chain (Slots ix) (Heads ix ! ?h) (ch ?h)"
    and set_ch: "set (ch ?h) = {s \<in> used ix. head_of ix (key_of ix s) = ?h}"
    by (auto simp: links_by_def)
  have "List.find (\<lambda>s. key_of ix s = k) (ch ?h) = slot_of ix k"
  proof (cases "slot_of ix k")
    case None
    then have "\<forall>s\<in>set (ch ?h). key_of ix s \<noteq> k" using set_ch sh by (auto simp: slot_of_None)
    with None show ?thesis by (simp add: find_None_iff)
  next
    case (Some s)
    then have s: "s \<in> used ix" "key_of ix s = k" using sh ku by (auto simp: slot_of_Some)
    then have mem: "s \<in> set (ch ?h)" using set_ch by auto
    then obtain t where t: "List.find (\<lambda>s. key_of ix s = k) (ch ?h) = Some t"
      using s(2) by (cases "List.find (\<lambda>s. key_of ix s = k) (ch ?h)") (auto simp: find_None_iff)
    then have "t \<in> used ix" "key_of ix t = k"
      using set_ch find_SomeD[OF t] by auto
    with s ku have "t = s" by (auto simp: keys_unique_def)
    with t Some show ?thesis by simp
  qed
  then show ?thesis
    using find_from_chain[OF c, of k] head_at_head_of[OF sh, of k]
    by (simp add: DiskCacheIndexFind_def head_of_def)
qed

section \<open>Updates that leave the chains alone\<close>

text \<open>
  \<open>same_view ix ix'\<close>: the two indexes differ at most in pins, marks, ghost tags and the hand.
\<close>

definition same_view :: "DISK_CACHE_INDEX \<Rightarrow> DISK_CACHE_INDEX \<Rightarrow> bool" where
  "same_view ix ix' \<longleftrightarrow>
     length (Slots ix') = length (Slots ix) \<and> Heads ix' = Heads ix \<and>
     length (Ghosts ix') = length (Ghosts ix) \<and> SlotCount ix' = SlotCount ix \<and>
     HashMask ix' = HashMask ix \<and> GhostMask ix' = GhostMask ix \<and>
     (\<forall>s. unat s < length (Slots ix) \<longrightarrow>
        key_of ix' s = key_of ix s \<and> state_of ix' s = state_of ix s \<and>
        Slot_Next (Slots ix' ! unat s) = Slot_Next (Slots ix ! unat s))"

lemma same_view_refl [simp]: "same_view ix ix"
  by (simp add: same_view_def)

lemma same_view_trans: "same_view a b \<Longrightarrow> same_view b c \<Longrightarrow> same_view a c"
  by (simp add: same_view_def)

lemma same_view_used: "same_view ix ix' \<Longrightarrow> used ix' = used ix"
  by (auto simp: same_view_def used_def)

lemma same_view_head_of: "same_view ix ix' \<Longrightarrow> head_of ix' k = head_of ix k"
  by (simp add: same_view_def head_of_def DiskCacheIndexHead_def)

lemma same_view_slot_of: "same_view ix ix' \<Longrightarrow> index_shape ix \<Longrightarrow> slot_of ix' k = slot_of ix k"
  unfolding slot_of_def
  by (auto simp: same_view_def mem_all_slots simp del: set_map intro!: find_cong)

lemma links_transfer:
  assumes lk: "links_ok ix U" and U: "\<And>t. t \<in> U \<Longrightarrow> key_of ix' t = key_of ix t"
    and same: "length (Slots ix') = length (Slots ix)" "Heads ix' = Heads ix" "HashMask ix' = HashMask ix"
    and nxt: "\<And>s :: ULONG. unat s < length (Slots ix) \<Longrightarrow>
      Slot_Next (Slots ix' ! unat s) = Slot_Next (Slots ix ! unat s)"
  shows "links_ok ix' U"
proof -
  from lk obtain ch where ch: "links_by ix U ch" by (auto simp: links_ok_def)
  have "chain (Slots ix') p as = chain (Slots ix) p as" for p as
    using same(1) nxt by (rule chain_cong_next)
  moreover have "head_of ix' k = head_of ix k" for k
    using same(3) by (simp add: head_of_def DiskCacheIndexHead_def)
  moreover have "{s \<in> U. head_of ix (key_of ix' s) = h} = {s \<in> U. head_of ix (key_of ix s) = h}" for h
    using U by auto
  ultimately have "links_by ix' U ch" using ch same(2) by (simp add: links_by_def)
  then show ?thesis by (auto simp: links_ok_def)
qed

lemma same_view_inv:
  assumes inv: "index_inv ix" and sv: "same_view ix ix'"
    and hand: "unat (Hand ix') < unat (SlotCount ix')"
    and ok: "\<forall>e \<in> set (Slots ix'). slot_ok e"
  shows "index_inv ix'"
proof -
  have used: "used ix' = used ix" using sv by (rule same_view_used)
  have key: "\<And>s. s \<in> used ix \<Longrightarrow> key_of ix' s = key_of ix s"
    using sv by (auto simp: same_view_def used_def)
  have "links_ok ix' (used ix')"
    unfolding used
    by (rule links_transfer[of ix]) (use inv sv key in \<open>auto simp: index_inv_def same_view_def\<close>)
  moreover have "keys_unique ix'"
    using inv used key by (simp add: index_inv_def keys_unique_def)
  moreover have "index_shape ix'"
    using inv sv hand by (simp add: index_inv_def index_shape_def same_view_def)
  ultimately show ?thesis
    using ok by (simp add: index_inv_def)
qed

lemma same_view_set_slot:
  assumes "unat s < length (Slots ix)" "Slot_Key e = key_of ix s" "Slot_State e = state_of ix s"
    "Slot_Next e = Slot_Next (Slots ix ! unat s)"
  shows "same_view ix (set_slot ix s e)"
  using assms
  by (auto simp: same_view_def set_slot_def key_of_def state_of_def nth_list_update)

lemma set_slot_inv:
  assumes "index_inv ix" "unat s < length (Slots ix)" "Slot_Key e = key_of ix s"
    "Slot_State e = state_of ix s" "Slot_Next e = Slot_Next (Slots ix ! unat s)" "slot_ok e"
  shows "index_inv (set_slot ix s e)"
proof (rule same_view_inv[OF assms(1)])
  show "same_view ix (set_slot ix s e)" using assms by (intro same_view_set_slot) auto
  show "\<forall>e \<in> set (Slots (set_slot ix s e)). slot_ok e"
    using assms by (auto simp: set_slot_def index_inv_def dest!: set_update_subset_insert[THEN subsetD])
qed (use assms in \<open>auto simp: set_slot_def index_inv_def index_shape_def\<close>)

lemma set_slot_next:
  fixes s t :: ULONG
  assumes "unat s < length (Slots ix)" "Slot_Next e = Slot_Next (Slots ix ! unat s)"
  shows "Slot_Next (Slots (set_slot ix s e) ! unat t) = Slot_Next (Slots ix ! unat t)"
  using assms by (cases "unat t = unat s") (simp_all add: set_slot_def)

lemma inv_slot_ok: "index_inv ix \<Longrightarrow> unat s < length (Slots ix) \<Longrightarrow> slot_ok (Slots ix ! unat s)"
  by (simp add: index_inv_def)

lemma pins_nonneg: "index_inv ix \<Longrightarrow> unat s < length (Slots ix) \<Longrightarrow> 0 \<le> pins_of ix s"
  using inv_slot_ok[of ix s] by (simp add: pins_of_def slot_ok_def)

section \<open>Unlinking and linking\<close>

text \<open>\<open>same_data ix ix'\<close>: the two indexes differ at most in their links.\<close>

definition same_data :: "DISK_CACHE_INDEX \<Rightarrow> DISK_CACHE_INDEX \<Rightarrow> bool" where
  "same_data ix ix' \<longleftrightarrow>
     length (Slots ix') = length (Slots ix) \<and> length (Heads ix') = length (Heads ix) \<and>
     Ghosts ix' = Ghosts ix \<and> SlotCount ix' = SlotCount ix \<and> HashMask ix' = HashMask ix \<and>
     GhostMask ix' = GhostMask ix \<and> Hand ix' = Hand ix \<and>
     (\<forall>s :: ULONG. unat s < length (Slots ix) \<longrightarrow>
        (Slots ix' ! unat s)\<lparr>Slot_Next := 0\<rparr> = (Slots ix ! unat s)\<lparr>Slot_Next := 0\<rparr>)"

lemma slot_eq_but_next:
  "(e'\<lparr>Slot_Next := 0\<rparr> = e\<lparr>Slot_Next := 0\<rparr>) \<longleftrightarrow>
   (Slot_Key e' = Slot_Key e \<and> Slot_Pins e' = Slot_Pins e \<and> Slot_State e' = Slot_State e \<and>
    Slot_Referenced e' = Slot_Referenced (e :: DISK_CACHE_SLOT))"
  by (cases e; cases e') auto

lemma same_dataD:
  assumes "same_data ix ix'" "unat s < length (Slots ix)"
  shows "key_of ix' s = key_of ix s" "state_of ix' s = state_of ix s" "pins_of ix' s = pins_of ix s"
  using assms by (auto simp: same_data_def slot_eq_but_next key_of_def state_of_def pins_of_def)

lemma same_data_head_of: "same_data ix ix' \<Longrightarrow> head_of ix' k = head_of ix k"
  by (simp add: same_data_def head_of_def DiskCacheIndexHead_def)

lemma same_data_used: "same_data ix ix' \<Longrightarrow> used ix' = used ix"
  using same_dataD(2)[of ix ix'] by (auto simp: used_def same_data_def)

lemma find_link_chain:
  "read_link ix l = Some p \<Longrightarrow> chain (Slots ix) p (as @ s # bs) \<Longrightarrow> s \<notin> set as \<Longrightarrow>
   find_link ix s l = Some (if as = [] then l else NextLink (last as))"
proof (induction as arbitrary: l p)
  case Nil
  then show ?case by (simp add: find_link.simps)
next
  case (Cons a as)
  then have p: "p = a" "unat a < length (Slots ix)" "a \<noteq> s"
    and c: "chain (Slots ix) (Slot_Next (Slots ix ! unat a)) (as @ s # bs)" "s \<notin> set as"
    by auto
  have "read_link ix (NextLink a) = Some (Slot_Next (Slots ix ! unat a))"
    using p by (simp add: slot_at_def)
  from Cons.IH[OF this c] have "find_link ix s (NextLink a) =
      Some (if as = [] then NextLink a else NextLink (last as))" .
  then show ?case
    using Cons.prems(1) p by (subst find_link.simps) (simp add: slot_at_def)
qed

lemma same_data_upd:
  fixes s :: ULONG
  assumes "unat s < length (Slots ix)" "e\<lparr>Slot_Next := 0\<rparr> = (Slots ix ! unat s)\<lparr>Slot_Next := 0\<rparr>"
  shows "same_data ix (ix\<lparr>Slots := (Slots ix)[unat s := e]\<rparr>)"
  using assms by (simp add: same_data_def nth_list_update)

lemma same_data_trans: "same_data a b \<Longrightarrow> same_data b c \<Longrightarrow> same_data a c"
  by (simp add: same_data_def)

lemma same_data_heads: "same_data ix (ix\<lparr>Heads := (Heads ix)[h := v]\<rparr>)"
  by (simp add: same_data_def)

lemma write_link_same_data:
  "(\<And>s. l = NextLink s \<Longrightarrow> unat s < length (Slots ix)) \<Longrightarrow> same_data ix (write_link ix l v)"
  by (cases l) (auto intro!: same_data_upd same_data_heads simp: slot_eq_but_next)

lemma Unlink_links:
  assumes sh: "index_shape ix" and lk: "links_ok ix U"
    and U: "\<And>t. t \<in> U \<Longrightarrow> unat t < length (Slots ix)" and sU: "s \<in> U"
  shows "\<exists>ix'. DiskCacheIndexUnlink ix s = Some ix' \<and> links_ok ix' (U - {s}) \<and> same_data ix ix'"
proof -
  let ?h = "head_of ix (key_of ix s)" and ?n = "Slot_Next (Slots ix ! unat s)"
  have h: "?h < length (Heads ix)" using sh by (rule head_of_less)
  from lk obtain ch where ch: "links_by ix U ch" by (auto simp: links_ok_def)
  note chD = links_byD[OF ch]
  have s: "unat s < length (Slots ix)" using U sU .
  have "s \<in> set (ch ?h)" using chD(3)[OF h] sU by simp
  then obtain as bs where ab: "ch ?h = as @ s # bs" by (meson split_list)
  with chD(1,2)[OF h] have c: "chain (Slots ix) (Heads ix ! ?h) (as @ s # bs)"
    and d: "distinct (as @ s # bs)" by simp_all
  let ?l = "if as = [] then HeadLink ?h else NextLink (last as)"
  let ?ix1 = "write_link ix ?l ?n"
  let ?ix2 = "set_slot ?ix1 s ((Slots ?ix1 ! unat s)\<lparr>Slot_Next := DISK_CACHE_NO_SLOT\<rparr>)"
  have las: "as \<noteq> [] \<Longrightarrow> unat (last as) < length (Slots ix)"
    using chain_bound[OF c, of "last as"] by simp
  have sd1: "same_data ix ?ix1" using las by (intro write_link_same_data) (auto split: if_splits)
  have "unat s < length (Slots ?ix1)" using sd1 s by (simp add: same_data_def)
  from same_data_upd[OF this] have "same_data ?ix1 ?ix2"
    unfolding set_slot_def by (simp add: slot_eq_but_next)
  with sd1 have sd: "same_data ix ?ix2" by (rule same_data_trans)
  have "find_link ix s (HeadLink ?h) = Some ?l"
    using c d h by (intro find_link_chain) (auto simp: head_at_def)
  then have ul: "DiskCacheIndexUnlink ix s = Some ?ix2"
    using s sd1 unfolding DiskCacheIndexUnlink_def head_of_def key_of_def
    by (simp add: slot_at_def same_data_def Let_def)
  have other: "chain (Slots ?ix2) (Heads ?ix2 ! h') (ch h')"
    if h': "h' < length (Heads ix)" "h' \<noteq> ?h" for h'
  proof -
    have "as \<noteq> [] \<Longrightarrow> last as \<in> set (ch ?h)" using ab by simp
    then have "as \<noteq> [] \<Longrightarrow> last as \<notin> set (ch h')" and "s \<notin> set (ch h')"
      using h' chD(3)[OF h] chD(3)[OF h'(1)] by auto
    then show ?thesis using h' chD(1)[OF h'(1)] by (auto simp: set_slot_def)
  qed
  have mine: "chain (Slots ?ix2) (Heads ?ix2 ! ?h) (as @ bs)"
  proof (cases "as = []")
    case True
    then show ?thesis using c d h chain_suffix[OF c] by (simp add: set_slot_def)
  next
    case False
    then obtain as' q where q: "as = as' @ [q]" by (metis rev_exhaust)
    from c d q have c': "chain (Slots ix) (Heads ix ! ?h) (as' @ q # s # bs)"
      and d': "distinct (as' @ q # s # bs)" by simp_all
    from d' have "s \<notin> set (as' @ q # bs)" by auto
    then show ?thesis using chain_relink[OF c' d'] q by (simp add: set_slot_def)
  qed
  have "links_by ?ix2 (U - {s}) (ch(?h := as @ bs))"
    unfolding links_by_def
  proof (intro allI impI)
    fix h' assume "h' < length (Heads ?ix2)"
    then have h': "h' < length (Heads ix)" using sd by (simp add: same_data_def)
    have "{t \<in> U - {s}. head_of ?ix2 (key_of ?ix2 t) = h'} = set (ch h') - {s}"
      using chD(3)[OF h'] U same_dataD(1)[OF sd] same_data_head_of[OF sd] by auto
    then show "chain (Slots ?ix2) (Heads ?ix2 ! h') ((ch(?h := as @ bs)) h') \<and>
        distinct ((ch(?h := as @ bs)) h') \<and>
        set ((ch(?h := as @ bs)) h') = {t \<in> U - {s}. head_of ?ix2 (key_of ?ix2 t) = h'}"
      using mine other[OF h'] d ab chD(2,3)[OF h'] chD(3)[OF h]
      by (cases "h' = ?h") auto
  qed
  with ul sd show ?thesis by (auto simp: links_ok_def)
qed

lemma link_front:
  assumes sh: "index_shape ix" and lk: "links_ok ix U"
    and U: "\<And>t. t \<in> U \<Longrightarrow> unat t < length (Slots ix)"
    and s: "s \<notin> U" "unat s < length (Slots ix)"
    and e: "Slot_Next e = Heads ix ! head_of ix (Slot_Key e)"
  shows "links_ok ((set_slot ix s e)\<lparr>Heads := (Heads ix)[head_of ix (Slot_Key e) := s], Ghosts := g\<rparr>)
           (insert s U)" (is "links_ok ?ix _")
proof -
  let ?h = "head_of ix (Slot_Key e)"
  from lk obtain ch where ch: "links_by ix U ch" by (auto simp: links_ok_def)
  note chD = links_byD[OF ch]
  have ho: "head_of ?ix k = head_of ix k" for k
    by (simp add: head_of_def DiskCacheIndexHead_def set_slot_def)
  have ks: "key_of ?ix s = Slot_Key e" using s by (simp add: key_of_def set_slot_def)
  have kt: "key_of ?ix t = key_of ix t" if "t \<in> U" for t
  proof -
    have "unat t \<noteq> unat s" using that s by (intro unat_neqI) auto
    then show ?thesis using s by (simp add: key_of_def set_slot_def nth_list_update)
  qed
  have "links_by ?ix (insert s U) (ch(?h := s # ch ?h))"
    unfolding links_by_def
  proof (intro allI impI)
    fix h' assume "h' < length (Heads ?ix)"
    then have h': "h' < length (Heads ix)" by simp
    have ns: "s \<notin> set (ch h')" using chD(3)[OF h'] s by simp
    have mem: "{t \<in> insert s U. head_of ?ix (key_of ?ix t) = h'} =
        (if h' = ?h then insert s (set (ch h')) else set (ch h'))"
      unfolding ho using chD(3)[OF h'] ks kt by auto
    show "chain (Slots ?ix) (Heads ?ix ! h') ((ch(?h := s # ch ?h)) h') \<and>
        distinct ((ch(?h := s # ch ?h)) h') \<and>
        set ((ch(?h := s # ch ?h)) h') = {t \<in> insert s U. head_of ?ix (key_of ?ix t) = h'}"
      unfolding mem using chD(1,2)[OF h'] ns h' s e slot_neq_NO[OF sh s(2)]
      by (cases "h' = ?h") (auto simp: set_slot_def)
  qed
  then show ?thesis by (auto simp: links_ok_def)
qed

section \<open>The clock\<close>

text \<open>The slot the hand reaches after \<open>i\<close> steps.\<close>

definition hand_at :: "DISK_CACHE_INDEX \<Rightarrow> nat \<Rightarrow> nat" where
  "hand_at ix i = (unat (Hand ix) + i) mod length (Slots ix)"

text \<open>\<open>swept ix ix'\<close>: the clock moved its hand and cleared marks, and did nothing else.\<close>

definition swept :: "DISK_CACHE_INDEX \<Rightarrow> DISK_CACHE_INDEX \<Rightarrow> bool" where
  "swept ix ix' \<longleftrightarrow> same_view ix ix' \<and> Ghosts ix' = Ghosts ix \<and>
     (\<forall>s. unat s < length (Slots ix) \<longrightarrow> pins_of ix' s = pins_of ix s)"

lemma swept_trans: "swept a b \<Longrightarrow> swept b c \<Longrightarrow> swept a c"
  unfolding swept_def by (auto intro: same_view_trans simp: same_view_def)

lemma swept_len [simp]: "swept ix ix' \<Longrightarrow> length (Slots ix') = length (Slots ix)"
  by (simp add: swept_def same_view_def)

definition advance :: "DISK_CACHE_INDEX \<Rightarrow> DISK_CACHE_INDEX" where
  "advance ix = ix\<lparr>Hand := (if Hand ix + 1 = SlotCount ix then 0 else Hand ix + 1)\<rparr>"

lemma advance_props:
  assumes "index_inv ix"
  shows "index_inv (advance ix)" "swept ix (advance ix)" "Slots (advance ix) = Slots ix"
    "hand_at (advance ix) i = hand_at ix (Suc i)"
proof -
  have sh: "unat (Hand ix) < unat (SlotCount ix)" "length (Slots ix) = unat (SlotCount ix)"
    using assms by (auto simp: index_inv_def index_shape_def)
  have h1: "unat (Hand ix + 1) = Suc (unat (Hand ix))" using sh(1) by (rule unat_Suc_less)
  have sv: "same_view ix (advance ix)" by (simp add: same_view_def advance_def key_of_def state_of_def)
  have lt: "unat (Hand (advance ix)) < unat (SlotCount ix)"
    using sh h1 by (auto simp: advance_def word_unat_eq_iff)
  then show "index_inv (advance ix)"
    using assms by (intro same_view_inv[OF assms sv]) (auto simp: advance_def index_inv_def)
  show "swept ix (advance ix)" using sv by (simp add: swept_def advance_def pins_of_def)
  show "Slots (advance ix) = Slots ix" by (simp add: advance_def)
  show "hand_at (advance ix) i = hand_at ix (Suc i)"
  proof (cases "Hand ix + 1 = SlotCount ix")
    case True
    then have "Suc (unat (Hand ix)) = length (Slots ix)" using h1 sh by simp
    with True show ?thesis
      by (simp add: hand_at_def advance_def) (metis add_Suc_right mod_add_self1 plus_nat.simps(2))
  qed (simp add: hand_at_def advance_def h1)
qed

text \<open>
  What a sweep of \<open>left\<close> slots with the fallback \<open>fb\<close> promises of its victim \<open>v\<close>: in range and
  unpinned; and when there is none, that every slot in reach is pinned.
\<close>

definition victim_ok ::
  "nat \<Rightarrow> ULONG \<Rightarrow> DISK_CACHE_INDEX \<Rightarrow> ULONG \<Rightarrow> DISK_CACHE_INDEX \<Rightarrow> bool" where
  "victim_ok left fb ix v ix' \<longleftrightarrow>
     index_inv ix' \<and> swept ix ix' \<and>
     (v \<noteq> DISK_CACHE_NO_SLOT \<longrightarrow> unat v < length (Slots ix) \<and> pins_of ix v = 0) \<and>
     (fb \<noteq> DISK_CACHE_NO_SLOT \<longrightarrow> v \<noteq> DISK_CACHE_NO_SLOT) \<and>
     (v = DISK_CACHE_NO_SLOT \<longrightarrow> (\<forall>i < left. Slot_Pins (Slots ix ! hand_at ix i) \<noteq> 0))"

lemma victim_ok_pinned:
  assumes inv: "index_inv ix" and v: "victim_ok left fb (advance ix) v ix'"
    and pin: "pins_of ix (Hand ix) \<noteq> 0"
  shows "victim_ok (Suc left) fb ix v ix'"
proof -
  note adv = advance_props[OF inv]
  have "hand_at ix 0 = unat (Hand ix)"
    using inv by (simp add: hand_at_def index_inv_def index_shape_def)
  then have "Slot_Pins (Slots ix ! hand_at ix 0) \<noteq> 0" using pin by (simp add: pins_of_def)
  moreover have "swept ix ix'" using adv(2) v unfolding victim_ok_def by (blast intro: swept_trans)
  ultimately show ?thesis
    using v adv(3,4) unfolding victim_ok_def by (auto simp: pins_of_def less_Suc_eq_0_disj)
qed

lemma victim_ok_sweep:
  assumes "swept ix ix1" "victim_ok left fb ix1 v ix'" "fb \<noteq> DISK_CACHE_NO_SLOT"
  shows "victim_ok n fb' ix v ix'"
proof -
  have "swept ix ix'" using assms unfolding victim_ok_def by (blast intro: swept_trans)
  then show ?thesis using assms unfolding victim_ok_def swept_def same_view_def by auto
qed

lemma clear_mark:
  assumes "index_inv ix" "unat s < length (Slots ix)"
  shows "index_inv (set_slot ix s ((Slots ix ! unat s)\<lparr>Slot_Referenced := False\<rparr>))" (is "index_inv ?ix")
    and "swept ix (set_slot ix s ((Slots ix ! unat s)\<lparr>Slot_Referenced := False\<rparr>))"
proof -
  show "index_inv ?ix"
    using assms inv_slot_ok[OF assms]
    by (intro set_slot_inv) (auto simp: key_of_def state_of_def slot_ok_def)
  have "same_view ix ?ix"
    using assms by (intro same_view_set_slot) (auto simp: key_of_def state_of_def)
  then show "swept ix ?ix"
    using assms by (auto simp: swept_def set_slot_def pins_of_def nth_list_update)
qed

lemma victim_loop_spec:
  assumes "index_inv ix" "fb \<noteq> DISK_CACHE_NO_SLOT \<Longrightarrow> unat fb < length (Slots ix) \<and> pins_of ix fb = 0"
  shows "\<exists>v ix'. victim_loop left fb ix = Some (v, ix') \<and> victim_ok left fb ix v ix'"
  using assms
proof (induction left arbitrary: fb ix)
  case 0
  then show ?case by (auto simp: victim_ok_def swept_def)
next
  case (Suc left)
  let ?s = "Hand ix" and ?ix1 = "advance ix"
  let ?e = "Slots ix ! unat ?s"
  let ?ix2 = "set_slot ?ix1 ?s (?e\<lparr>Slot_Referenced := False\<rparr>)"
  let ?fb = "if fb = DISK_CACHE_NO_SLOT then ?s else fb"
  note adv = advance_props[OF Suc.prems(1)]
  have s: "unat ?s < length (Slots ix)" and sh: "index_shape ix"
    using Suc.prems(1) by (auto simp: index_inv_def index_shape_def)
  have step: "victim_loop (Suc left) fb ix =
     (if Slot_Pins ?e \<noteq> 0 then victim_loop left fb ?ix1
      else if Slot_State ?e \<noteq> DiskCacheSlotFree \<and> Slot_Referenced ?e then victim_loop left ?fb ?ix2
      else Some (?s, ?ix1))"
    using s by (simp add: slot_at_def advance_def Let_def)
  show ?case
  proof (cases "Slot_Pins ?e = 0")
    case False
    have "fb \<noteq> DISK_CACHE_NO_SLOT \<Longrightarrow> unat fb < length (Slots ?ix1) \<and> pins_of ?ix1 fb = 0"
      using Suc.prems(2) adv(3) by (simp add: pins_of_def)
    from Suc.IH[OF adv(1) this] obtain v ix' where
      "victim_loop left fb ?ix1 = Some (v, ix')" "victim_ok left fb ?ix1 v ix'" by blast
    moreover have "victim_loop (Suc left) fb ix = victim_loop left fb ?ix1"
      using step False by (simp only: if_True simp_thms)
    ultimately show ?thesis
      using False victim_ok_pinned[OF Suc.prems(1)] unfolding pins_of_def by metis
  next
    case unpinned: True
    show ?thesis
    proof (cases "Slot_State ?e \<noteq> DiskCacheSlotFree \<and> Slot_Referenced ?e")
      case True
      have m: "index_inv ?ix2" "swept ?ix1 ?ix2"
        using clear_mark[OF adv(1), of ?s] s adv(3) by simp_all
      have sw: "swept ix ?ix2" using adv(2) m(2) by (rule swept_trans)
      have fb: "?fb \<noteq> DISK_CACHE_NO_SLOT" using slot_neq_NO[OF sh s] by simp
      have "unat ?fb < length (Slots ix)" "pins_of ix ?fb = 0"
        using Suc.prems(2) s unpinned by (simp_all add: pins_of_def)
      then have "unat ?fb < length (Slots ?ix2) \<and> pins_of ?ix2 ?fb = 0"
        using sw unfolding swept_def same_view_def by metis
      with Suc.IH[OF m(1), of ?fb] obtain v ix' where
        v: "victim_loop left ?fb ?ix2 = Some (v, ix')" "victim_ok left ?fb ?ix2 v ix'" by blast
      have "victim_loop (Suc left) fb ix = Some (v, ix')"
        using step unpinned True v(1) by (simp only: if_True if_False simp_thms)
      then show ?thesis using victim_ok_sweep[OF sw v(2) fb] by blast
    next
      case False
      have "victim_ok (Suc left) fb ix ?s ?ix1"
        using adv(1,2) s unpinned slot_neq_NO[OF sh s] by (simp add: victim_ok_def pins_of_def)
      moreover have "victim_loop (Suc left) fb ix = Some (?s, ?ix1)"
        using step unpinned False by (simp only: if_False not_True_eq_False simp_thms)
      ultimately show ?thesis by blast
    qed
  qed
qed

lemma Victim_spec:
  assumes "index_inv ix"
  shows "\<exists>v ix'. DiskCacheIndexVictim ix = Some (v, ix') \<and>
    victim_ok (min (unat (SlotCount ix)) DISK_CACHE_CLOCK_REACH) DISK_CACHE_NO_SLOT ix v ix'"
  unfolding DiskCacheIndexVictim_def by (rule victim_loop_spec[OF assms]) simp

section \<open>Taking a slot over\<close>

lemma used_range: "s \<in> used ix \<Longrightarrow> unat s < length (Slots ix)"
  by (simp add: used_def)

lemma unlink_if_used:
  assumes inv: "index_inv ix" and v: "unat v < length (Slots ix)"
  shows "\<exists>ix'. (if state_of ix v \<noteq> DiskCacheSlotFree then DiskCacheIndexUnlink ix v else Some ix) = Some ix'
    \<and> links_ok ix' (used ix - {v}) \<and> same_data ix ix'"
proof (cases "state_of ix v = DiskCacheSlotFree")
  case True
  then have "used ix - {v} = used ix" by (auto simp: used_def)
  with inv True show ?thesis by (auto simp: index_inv_def same_data_def)
next
  case False
  then have "v \<in> used ix" using v by (simp add: used_def)
  with Unlink_links[of ix "used ix" v] inv used_range False show ?thesis
    by (auto simp: index_inv_def)
qed

definition fill_entry :: "DISK_CACHE_KEY \<Rightarrow> ULONG \<Rightarrow> DISK_CACHE_SLOT" where
  "fill_entry k head = \<lparr>Slot_Key = k, Slot_Next = head, Slot_Pins = 1,
     Slot_State = DiskCacheSlotFilling, Slot_Referenced = False\<rparr>"

text \<open>\<open>others_same ix ix' s\<close>: every slot but \<open>s\<close> keeps its key, its state and its pins.\<close>

definition others_same :: "DISK_CACHE_INDEX \<Rightarrow> DISK_CACHE_INDEX \<Rightarrow> ULONG \<Rightarrow> bool" where
  "others_same ix ix' s \<longleftrightarrow> length (Slots ix') = length (Slots ix) \<and>
     (\<forall>t. unat t < length (Slots ix) \<longrightarrow> t \<noteq> s \<longrightarrow>
        key_of ix' t = key_of ix t \<and> state_of ix' t = state_of ix t \<and> pins_of ix' t = pins_of ix t)"

lemma slot_ok_all:
  assumes "index_shape ix"
  shows "(\<forall>e \<in> set (Slots ix). slot_ok e) \<longleftrightarrow>
    (\<forall>s :: ULONG. unat s < length (Slots ix) \<longrightarrow> slot_ok (Slots ix ! unat s))"
proof -
  have "\<exists>s :: ULONG. unat s < length (Slots ix) \<and> Slots ix ! unat s = Slots ix ! n"
    if "n < length (Slots ix)" for n
  proof -
    have "n < 2 ^ LENGTH(32)" using that assms by (simp add: index_shape_def)
    then have "unat (of_nat n :: ULONG) = n" by (rule unat_of_nat_less)
    with that show ?thesis by metis
  qed
  then show ?thesis by (metis in_set_conv_nth nth_mem)
qed

lemma others_same_used:
  assumes "others_same ix ix' s" "unat s < length (Slots ix)"
  shows "used ix' - {s} = used ix - {s}"
    "s \<in> used ix' \<longleftrightarrow> state_of ix' s \<noteq> DiskCacheSlotFree"
  using assms by (auto simp: used_def others_same_def)

lemma others_same_inv:
  assumes inv: "index_inv ix" and os: "others_same ix ix' s" and s: "unat s < length (Slots ix)"
    and sh': "index_shape ix'" and ok: "slot_ok (Slots ix' ! unat s)"
    and lk: "links_ok ix' (used ix')"
    and key: "\<And>t. t \<in> used ix \<Longrightarrow> t \<noteq> s \<Longrightarrow> state_of ix' s \<noteq> DiskCacheSlotFree \<Longrightarrow>
      key_of ix t \<noteq> key_of ix' s"
  shows "index_inv ix'"
proof -
  have oth: "key_of ix' t = key_of ix t" "t \<in> used ix" if "t \<in> used ix'" "t \<noteq> s" for t
    using os that by (auto simp: others_same_def used_def)
  have "keys_unique ix'"
    unfolding keys_unique_def
  proof (intro ballI impI)
    fix t u assume tu: "t \<in> used ix'" "u \<in> used ix'" "key_of ix' t = key_of ix' u"
    have nf: "s \<in> used ix' \<Longrightarrow> state_of ix' s \<noteq> DiskCacheSlotFree" by (simp add: used_def)
    show "t = u"
    proof (cases "t = s \<or> u = s")
      case True
      then show ?thesis using tu oth key nf by metis
    next
      case False
      then show ?thesis using tu oth inv unfolding index_inv_def keys_unique_def by metis
    qed
  qed
  moreover have "slot_ok (Slots ix' ! unat t)" if "unat t < length (Slots ix')" for t :: ULONG
    using inv_slot_ok[OF inv, of t] os that ok
    by (cases "t = s") (auto simp: slot_ok_def pins_of_def state_of_def others_same_def)
  ultimately show ?thesis using sh' lk slot_ok_all[OF sh'] by (simp add: index_inv_def)
qed

lemma place_fill:
  assumes inv: "index_inv ix" and v: "unat v < length (Slots ix)" and k: "slot_of ix k = None"
    and lk: "links_ok ix2 (used ix - {v})" and sd: "same_data ix ix2"
    and ix': "ix' = (set_slot ix2 v (fill_entry k (Heads ix2 ! head_of ix2 k)))
      \<lparr>Heads := (Heads ix2)[head_of ix2 k := v], Ghosts := g\<rparr>"
    and g: "length g = length (Ghosts ix)"
  shows "index_inv ix'" "used ix' = insert v (used ix)" "others_same ix ix' v"
    "key_of ix' v = k" "state_of ix' v = DiskCacheSlotFilling" "pins_of ix' v = 1"
proof -
  have sh: "index_shape ix" using inv by (simp add: index_inv_def)
  have sh2: "index_shape ix2" using sh sd by (simp add: index_shape_def same_data_def)
  have len: "length (Slots ix2) = length (Slots ix)" using sd by (simp add: same_data_def)
  have vv: "key_of ix' v = k" "state_of ix' v = DiskCacheSlotFilling" "pins_of ix' v = 1"
    using v len by (simp_all add: ix' key_of_def state_of_def pins_of_def set_slot_def fill_entry_def)
  then show "key_of ix' v = k" "state_of ix' v = DiskCacheSlotFilling" "pins_of ix' v = 1" .
  have tt: "Slots ix' ! unat t = Slots ix2 ! unat t" if "t \<noteq> v" for t
    using unat_neqI[OF that] v len by (simp add: ix' set_slot_def nth_list_update)
  have oth: "key_of ix' t = key_of ix t \<and> state_of ix' t = state_of ix t \<and> pins_of ix' t = pins_of ix t"
    if "unat t < length (Slots ix)" "t \<noteq> v" for t
    using tt[OF that(2)] same_dataD[OF sd that(1)] by (simp add: key_of_def state_of_def pins_of_def)
  then show os: "others_same ix ix' v" by (simp add: others_same_def ix' set_slot_def len)
  have len': "length (Slots ix') = length (Slots ix)" by (simp add: ix' set_slot_def len)
  show us: "used ix' = insert v (used ix)" using others_same_used[OF os v] vv(2) by auto
  have "links_ok ix' (insert v (used ix - {v}))"
    unfolding ix'
    using link_front[OF sh2 lk, of v "fill_entry k (Heads ix2 ! head_of ix2 k)" g] v len used_range
    by (auto simp: fill_entry_def)
  then have "links_ok ix' (used ix')" using us by simp
  moreover have "index_shape ix'"
    using sh2 g sd by (simp add: index_shape_def ix' set_slot_def same_data_def)
  moreover have "slot_ok (Slots ix' ! unat v)"
    using vv by (simp add: slot_ok_def pins_of_def state_of_def)
  ultimately show "index_inv ix'"
    using others_same_inv[OF inv os v] k slot_of_None[OF sh] vv(1) by simp
qed

section \<open>Reserve and commit\<close>

definition clock_reach :: "DISK_CACHE_INDEX \<Rightarrow> nat" where
  "clock_reach ix = min (unat (SlotCount ix)) DISK_CACHE_CLOCK_REACH"

text \<open>What each answer of a reservation means for the index before and after it.\<close>

definition reserve_post ::
  "DISK_CACHE_INDEX \<Rightarrow> DISK_CACHE_KEY \<Rightarrow> DISK_CACHE_ADMIT \<Rightarrow> ULONG option \<Rightarrow> DISK_CACHE_INDEX \<Rightarrow> bool"
where
  "reserve_post ix k admit so ix' =
     (case admit of
        DiskCacheHeld \<Rightarrow> slot_of ix k \<noteq> None \<and> so = None \<and> ix' = ix
      | DiskCacheFirstMiss \<Rightarrow>
          slot_of ix k = None \<and> so = None \<and>
          ix' = ix\<lparr>Ghosts := ghost_push (Ghosts ix) (ghost_base ix (DiskCacheIndexMix k))
                          (DiskCacheIndexMix k OR 1)\<rparr>
      | DiskCacheNoVictim \<Rightarrow>
          slot_of ix k = None \<and> so = None \<and> swept ix ix' \<and>
          (\<forall>i < clock_reach ix. Slot_Pins (Slots ix ! hand_at ix i) \<noteq> 0)
      | DiskCacheReserved \<Rightarrow>
          slot_of ix k = None \<and>
          (\<exists>s. so = Some s \<and> unat s < length (Slots ix) \<and> pins_of ix s = 0 \<and>
             key_of ix' s = k \<and> state_of ix' s = DiskCacheSlotFilling \<and> pins_of ix' s = 1 \<and>
             others_same ix ix' s \<and> used ix' = insert s (used ix)))"

lemma swept_others:
  assumes "swept ix ix1" "others_same ix1 ix' s"
  shows "others_same ix ix' s"
  unfolding others_same_def
proof (intro conjI allI impI)
  show "length (Slots ix') = length (Slots ix)" using assms by (simp add: others_same_def)
  fix t assume t: "unat t < length (Slots ix)" "t \<noteq> s"
  with assms(1) have a: "key_of ix1 t = key_of ix t" "state_of ix1 t = state_of ix t"
    "pins_of ix1 t = pins_of ix t" "unat t < length (Slots ix1)"
    unfolding swept_def same_view_def by metis+
  then show "key_of ix' t = key_of ix t" "state_of ix' t = state_of ix t" "pins_of ix' t = pins_of ix t"
    using assms(2) t unfolding others_same_def by metis+
qed

lemma reserve_slot_spec:
  assumes inv: "index_inv ix" and k: "slot_of ix k = None"
  shows "\<exists>admit so ix'. reserve_slot ix k (DiskCacheIndexMix k) g = Some (admit, so, ix') \<and>
    index_inv ix' \<and> reserve_post ix k admit so ix' \<and>
    admit \<in> {DiskCacheNoVictim, DiskCacheReserved}"
proof -
  obtain v ix1 where v: "DiskCacheIndexVictim ix = Some (v, ix1)"
    and ok: "victim_ok (clock_reach ix) DISK_CACHE_NO_SLOT ix v ix1"
    using Victim_spec[OF inv] by (auto simp: clock_reach_def)
  have sw: "swept ix ix1" and inv1: "index_inv ix1" using ok by (auto simp: victim_ok_def)
  show ?thesis
  proof (cases "v = DISK_CACHE_NO_SLOT")
    case True
    then have "reserve_post ix k DiskCacheNoVictim None ix1"
      using ok k by (simp add: reserve_post_def victim_ok_def)
    then show ?thesis using v True inv1 by (simp add: reserve_slot_def)
  next
    case False
    then have vr: "unat v < length (Slots ix)" "pins_of ix v = 0" using ok by (auto simp: victim_ok_def)
    then have vr1: "unat v < length (Slots ix1)" using sw by simp
    have k1: "slot_of ix1 k = None"
      using k sw inv same_view_slot_of[of ix ix1 k] by (simp add: swept_def index_inv_def)
    obtain ix2 where u: "(if state_of ix1 v \<noteq> DiskCacheSlotFree then DiskCacheIndexUnlink ix1 v
        else Some ix1) = Some ix2" and lk: "links_ok ix2 (used ix1 - {v})" and sd: "same_data ix1 ix2"
      using unlink_if_used[OF inv1 vr1] by auto
    let ?h = "head_of ix2 k"
    let ?g = "(Ghosts ix2)[g := 0]"
    let ?ix' = "(set_slot ix2 v (fill_entry k (Heads ix2 ! ?h)))\<lparr>Heads := (Heads ix2)[?h := v], Ghosts := ?g\<rparr>"
    have lg: "length ?g = length (Ghosts ix1)" using sd by (simp add: same_data_def)
    note pf = place_fill[OF inv1 vr1 k1 lk sd refl lg]
    have "index_shape ix2"
      using inv1 sd by (simp add: index_inv_def index_shape_def same_data_def)
    then have "head_at ix2 ?h = Some (Heads ix2 ! ?h)" by (rule head_at_head_of)
    then have "reserve_slot ix k (DiskCacheIndexMix k) g = Some (DiskCacheReserved, Some v, ?ix')"
      using False u vr1 unfolding reserve_slot_def v fill_entry_def state_of_def head_of_def
      by (simp add: slot_at_def set_slot_def Let_def)
    moreover have "used ix1 = used ix" using sw by (simp add: swept_def same_view_used)
    then have "reserve_post ix k DiskCacheReserved (Some v) ?ix'"
      using k vr pf swept_others[OF sw pf(3)] by (simp add: reserve_post_def)
    ultimately show ?thesis using pf(1) by blast
  qed
qed

lemma ghost_base_bound:
  assumes "index_shape ix"
  shows "ghost_base ix mix + DISK_CACHE_GHOST_WAYS \<le> length (Ghosts ix)"
proof -
  let ?w = DISK_CACHE_GHOST_WAYS and ?a = "unat ((ucast mix :: ULONG) AND GhostMask ix)"
  have "Suc ?a * ?w \<le> Suc (unat (GhostMask ix)) * ?w"
    using unat_and_le[of "ucast mix" "GhostMask ix"] by (intro mult_le_mono1) simp
  then show ?thesis using assms by (simp add: index_shape_def ghost_base_def)
qed

lemma ghosts_inv:
  assumes "index_inv ix" "length g = length (Ghosts ix)"
  shows "index_inv (ix\<lparr>Ghosts := g\<rparr>)"
proof (rule same_view_inv[OF assms(1)])
  show "same_view ix (ix\<lparr>Ghosts := g\<rparr>)" using assms(2) by (simp add: same_view_def key_of_def state_of_def)
qed (use assms(1) in \<open>auto simp: index_inv_def index_shape_def\<close>)

lemma length_ghost_push:
  "base + DISK_CACHE_GHOST_WAYS \<le> length g \<Longrightarrow> length (ghost_push g base tag) = length g"
  by (simp add: ghost_push_def DISK_CACHE_GHOST_WAYS_def)

lemma Reserve_unfold:
  fixes k :: DISK_CACHE_KEY
  assumes inv: "index_inv ix"
  defines "mix \<equiv> DiskCacheIndexMix k"
  defines "way \<equiv> ghost_way (Ghosts ix) (ghost_base ix mix) (mix OR 1) DISK_CACHE_GHOST_WAYS"
  shows "BlorgDiskCacheIndexReserve ix k =
     (if slot_of ix k \<noteq> None then Some (DiskCacheHeld, None, ix)
      else if way = DISK_CACHE_GHOST_WAYS
      then Some (DiskCacheFirstMiss, None, ix\<lparr>Ghosts := ghost_push (Ghosts ix) (ghost_base ix mix) (mix OR 1)\<rparr>)
      else reserve_slot ix k mix (ghost_base ix mix + way))"
proof -
  have sh: "index_shape ix" and ku: "keys_unique ix" using inv by (auto simp: index_inv_def)
  have "slot_of ix k = Some s \<Longrightarrow> s \<noteq> DISK_CACHE_NO_SLOT" for s
    using slot_of_Some[OF sh ku] slot_neq_NO[OF sh] used_range by blast
  then show ?thesis
    using Find_slot_of[OF inv, of k] ghost_base_bound[OF sh, of mix]
    unfolding BlorgDiskCacheIndexReserve_def mix_def way_def
    by (cases "slot_of ix k") (auto simp: Let_def)
qed

lemma Reserve_spec:
  assumes inv: "index_inv ix"
  shows "\<exists>admit so ix'. BlorgDiskCacheIndexReserve ix k = Some (admit, so, ix') \<and>
    index_inv ix' \<and> reserve_post ix k admit so ix'"
proof (cases "slot_of ix k")
  case (Some s)
  then show ?thesis using inv by (simp add: Reserve_unfold[OF inv] reserve_post_def)
next
  case None
  have "length (ghost_push (Ghosts ix) (ghost_base ix (DiskCacheIndexMix k)) t) = length (Ghosts ix)" for t
    using inv ghost_base_bound by (intro length_ghost_push) (simp add: index_inv_def)
  with None reserve_slot_spec[OF inv None] ghosts_inv[OF inv] show ?thesis
    unfolding Reserve_unfold[OF inv] by (force simp: reserve_post_def)
qed

text \<open>The abstract effect on the map from keys to slots.\<close>

lemma slot_of_reserved:
  assumes "index_inv ix" "index_inv ix'" "reserve_post ix k DiskCacheReserved (Some s) ix'"
  shows "slot_of ix' = (\<lambda>k'. if k' = k then Some s
    else if slot_of ix k' = Some s then None else slot_of ix k')"
proof
  fix k'
  have sh: "index_shape ix" "keys_unique ix" "index_shape ix'" "keys_unique ix'"
    using assms(1,2) by (auto simp: index_inv_def)
  have p: "key_of ix' s = k" "used ix' = insert s (used ix)" "\<And>t. t \<in> used ix \<Longrightarrow> t \<noteq> s \<Longrightarrow> key_of ix' t = key_of ix t"
    using assms(3) used_range by (auto simp: reserve_post_def others_same_def)
  have "slot_of ix' k' = Some t \<longleftrightarrow> (if k' = k then t = s else t \<noteq> s \<and> slot_of ix k' = Some t)" for t
    using slot_of_Some[OF sh(3,4), of k' t] slot_of_Some[OF sh(1,2), of k' t] p assms(3)
      p(3)[of t] slot_of_None[OF sh(1), of k]
    by (cases "t = s") (auto simp: reserve_post_def)
  then show "slot_of ix' k' = (if k' = k then Some s
    else if slot_of ix k' = Some s then None else slot_of ix k')"
    by (metis not_None_eq option.inject)
qed

lemma Commit_written:
  assumes inv: "index_inv ix" and s: "unat s < length (Slots ix)"
    and st: "state_of ix s = DiskCacheSlotFilling"
  shows "\<exists>ix'. BlorgDiskCacheIndexCommit ix s True = Some ix' \<and> index_inv ix' \<and>
    others_same ix ix' s \<and> key_of ix' s = key_of ix s \<and>
    state_of ix' s = DiskCacheSlotValid \<and> pins_of ix' s = 0"
proof -
  let ?e = "(Slots ix ! unat s)\<lparr>Slot_State := DiskCacheSlotValid,
      Slot_Pins := Slot_Pins (Slots ix ! unat s) - 1\<rparr>"
  let ?ix = "set_slot ix s ?e"
  have c: "BlorgDiskCacheIndexCommit ix s True = Some ?ix"
    using s by (simp add: BlorgDiskCacheIndexCommit_def slot_at_def)
  have p1: "pins_of ix s = 1" using inv_slot_ok[OF inv s] st by (simp add: slot_ok_def pins_of_def state_of_def)
  have vals: "key_of ?ix s = key_of ix s" "state_of ?ix s = DiskCacheSlotValid" "pins_of ?ix s = 0"
    using s p1 by (simp_all add: set_slot_def key_of_def state_of_def pins_of_def)
  have tt: "Slots ?ix ! unat t = Slots ix ! unat t" if "t \<noteq> s" for t
    using unat_neqI[OF that] by (simp add: set_slot_def)
  have len: "length (Slots ?ix) = length (Slots ix)" by (simp add: set_slot_def)
  have os: "others_same ix ?ix s"
    unfolding others_same_def key_of_def state_of_def pins_of_def using len tt by metis
  have "s \<in> used ?ix" "s \<in> used ix"
    using others_same_used(2)[OF os s] vals(2) st s by (simp_all add: used_def)
  then have us: "used ?ix = used ix" using others_same_used(1)[OF os s] by blast
  have keys: "key_of ?ix t = key_of ix t" if "unat t < length (Slots ix)" for t
    using os vals(1) that unfolding others_same_def by metis
  have sh: "index_shape ix" using inv by (simp add: index_inv_def)
  then have sh': "index_shape ?ix" by (simp add: index_shape_def set_slot_def)
  have "links_ok ?ix (used ?ix)"
    unfolding us
  proof (rule links_transfer)
    show "links_ok ix (used ix)" using inv by (simp add: index_inv_def)
    show "key_of ?ix t = key_of ix t" if "t \<in> used ix" for t using keys used_range that by blast
    show "Slot_Next (Slots ?ix ! unat t) = Slot_Next (Slots ix ! unat t)"
      if "unat t < length (Slots ix)" for t :: ULONG
      using s by (simp add: set_slot_next)
  qed (simp_all add: set_slot_def)
  then have "index_inv ?ix"
  proof (rule others_same_inv[OF inv os s sh', rotated])
    show "slot_ok (Slots ?ix ! unat s)" using vals by (simp add: slot_ok_def pins_of_def state_of_def)
    show "key_of ix t \<noteq> key_of ?ix s" if "t \<in> used ix" "t \<noteq> s" for t
      using inv that \<open>s \<in> used ix\<close> vals(1) unfolding index_inv_def keys_unique_def by metis
  qed
  with c os vals show ?thesis by blast
qed

lemma Commit_failed:
  assumes inv: "index_inv ix" and s: "unat s < length (Slots ix)"
    and st: "state_of ix s = DiskCacheSlotFilling"
  shows "\<exists>ix'. BlorgDiskCacheIndexCommit ix s False = Some ix' \<and> index_inv ix' \<and>
    others_same ix ix' s \<and> state_of ix' s = DiskCacheSlotFree \<and> pins_of ix' s = 0"
proof -
  obtain ix1 where u: "DiskCacheIndexUnlink ix s = Some ix1"
    and lk: "links_ok ix1 (used ix - {s})" and sd: "same_data ix ix1"
    using unlink_if_used[OF inv s] st by auto
  have len1: "length (Slots ix1) = length (Slots ix)" using sd by (simp add: same_data_def)
  let ?e = "(Slots ix1 ! unat s)\<lparr>Slot_State := DiskCacheSlotFree,
      Slot_Pins := Slot_Pins (Slots ix1 ! unat s) - 1\<rparr>"
  let ?ix = "set_slot ix1 s ?e"
  have c: "BlorgDiskCacheIndexCommit ix s False = Some ?ix"
    using s u len1 by (simp add: BlorgDiskCacheIndexCommit_def slot_at_def)
  have "pins_of ix s = 1" using inv_slot_ok[OF inv s] st by (simp add: slot_ok_def pins_of_def state_of_def)
  then have "pins_of ix1 s = 1" using same_dataD(3)[OF sd s] by simp
  then have vals: "state_of ?ix s = DiskCacheSlotFree" "pins_of ?ix s = 0"
    using s len1 by (simp_all add: set_slot_def state_of_def pins_of_def)
  have tt: "Slots ?ix ! unat t = Slots ix1 ! unat t" if "t \<noteq> s" for t
    using unat_neqI[OF that] by (simp add: set_slot_def)
  have len: "length (Slots ?ix) = length (Slots ix)" by (simp add: set_slot_def len1)
  have os: "others_same ix ?ix s"
    unfolding others_same_def
    using len tt same_dataD[OF sd] unfolding key_of_def state_of_def pins_of_def by metis
  have "s \<notin> used ?ix" using others_same_used(2)[OF os s] vals(1) by simp
  then have us: "used ?ix = used ix - {s}" using others_same_used(1)[OF os s] by blast
  have "links_ok ?ix (used ?ix)"
    unfolding us
  proof (rule links_transfer[OF lk])
    show "key_of ?ix t = key_of ix1 t" if "t \<in> used ix - {s}" for t
      using tt[of t] that by (simp add: key_of_def)
    show "Slot_Next (Slots ?ix ! unat t) = Slot_Next (Slots ix1 ! unat t)"
      if "unat t < length (Slots ix1)" for t :: ULONG
      using s len1 by (simp add: set_slot_next)
  qed (simp_all add: set_slot_def)
  moreover have "index_shape ?ix"
    using inv sd by (simp add: index_inv_def index_shape_def set_slot_def same_data_def)
  moreover have "slot_ok (Slots ?ix ! unat s)" using vals by (simp add: slot_ok_def pins_of_def state_of_def)
  ultimately have "index_inv ?ix"
    using others_same_inv[OF inv os s] vals(1) by blast
  with c os vals show ?thesis by blast
qed

section \<open>Creation\<close>

lemma heads_loop_pow2:
  assumes "0 < unat n" "unat n \<le> 2 ^ 18" "j \<le> 18"
  shows "\<exists>k. heads_loop n (2 ^ j) = Some (2 ^ k) \<and> k \<le> 18"
  using assms(3)
proof (induction "18 - j" arbitrary: j)
  case 0
  then have j: "j = 18" by simp
  have "\<not> (2 ^ 18 < n)" using assms(2) by (simp add: word_less_nat_alt)
  then show ?case using j by (subst heads_loop.simps) (auto intro!: exI[of _ 18])
next
  case (Suc d)
  then have "\<exists>k. heads_loop n (2 ^ Suc j) = Some (2 ^ k) \<and> k \<le> 18" by (intro Suc.hyps) auto
  moreover have "push_bit 1 (2 ^ j) = (2 ^ Suc j :: ULONG)" by (simp add: push_bit_eq_mult)
  ultimately show ?case using Suc.prems by (subst heads_loop.simps) (auto simp: mult.commute)
qed

lemma unat_pred:
  fixes h :: "'a::len word"
  assumes "h \<noteq> 0"
  shows "Suc (unat (h - 1)) = unat h"
proof -
  have "0 < unat h" using assms by (simp add: unat_gt_0)
  then show ?thesis using unat_minus_one[OF assms] by linarith
qed

lemma Initialize_inv:
  assumes "0 < unat n" "unat n \<le> 262144"
  shows "\<exists>ix. BlorgDiskCacheIndexInitialize n True = Some (STATUS_SUCCESS, ix) \<and> index_inv ix \<and>
    SlotCount ix = n \<and> (\<forall>k. slot_of ix k = None)"
proof -
  obtain j where j: "heads_loop n 1 = Some (2 ^ j)" "j \<le> 18"
    using heads_loop_pow2[of n 0] assms by auto
  let ?hd = "2 ^ j :: ULONG" and ?gs = "if (2 ^ j :: ULONG) > 1 then (2 ^ j :: ULONG) div 2 else 1"
  let ?ix = "\<lparr>Slots = replicate (unat n) (zero_slot\<lparr>Slot_Next := DISK_CACHE_NO_SLOT\<rparr>),
      Heads = replicate (unat ?hd) DISK_CACHE_NO_SLOT,
      Ghosts = replicate (unat ?gs * DISK_CACHE_GHOST_WAYS) 0,
      SlotCount = n, HashMask = ?hd - 1, Hand = 0, GhostMask = ?gs - 1\<rparr>"
  have i: "BlorgDiskCacheIndexInitialize n True = Some (STATUS_SUCCESS, ?ix)"
    using assms j(1)
    by (auto simp: BlorgDiskCacheIndexInitialize_def DISK_CACHE_MAX_MB_def DISK_CACHE_BLOCK_SHIFT_def Let_def)
  have "(2 ^ j :: ULONG) \<noteq> 0" using j(2) by simp
  moreover have "?gs \<noteq> 0" by (auto simp: word_less_nat_alt word_unat_eq_iff unat_div)
  ultimately have sh: "index_shape ?ix"
    using assms by (simp add: index_shape_def unat_pred del: replicate_Suc)
  have u: "used ?ix = {}" by (auto simp: used_def state_of_def zero_slot_def)
  have "links_by ?ix (used ?ix) (\<lambda>_. [])" by (simp add: links_by_def u)
  then have "index_inv ?ix"
    using sh u by (auto simp: index_inv_def links_ok_def keys_unique_def slot_ok_def zero_slot_def)
  with i u show ?thesis using slot_of_None[OF sh] by auto
qed

end
