(* ===== verification/Disk_Cache_Pin.thy ===== *)
theory Disk_Cache_Pin
  imports Disk_Cache_Index_Correct
begin

text \<open>
  Pinning, unpinning and planning of partly held reads: what \<open>BlorgDiskCacheIndexPinHeld\<close>
  reports of each block and does to the pins, that unpinning takes exactly those pins back, and
  what \<open>BlorgDiskCacheIndexPlanRead\<close> gives up.
\<close>

section \<open>Pinning\<close>

definition block_key :: "DISK_CACHE_KEY \<Rightarrow> nat \<Rightarrow> DISK_CACHE_KEY" where
  "block_key k i = k\<lparr>Key_Block := Key_Block k + of_nat i\<rparr>"

text \<open>The slot that can serve a key: held, and not still being filled.\<close>

definition served_slot :: "DISK_CACHE_INDEX \<Rightarrow> DISK_CACHE_KEY \<Rightarrow> ULONG" where
  "served_slot ix k =
     (case slot_of ix k of None \<Rightarrow> DISK_CACHE_NO_SLOT
      | Some s \<Rightarrow> if state_of ix s = DiskCacheSlotValid then s else DISK_CACHE_NO_SLOT)"

definition held :: "ULONG list \<Rightarrow> ULONG list" where
  "held slots = filter (\<lambda>s. s \<noteq> DISK_CACHE_NO_SLOT) slots"

lemma slot_of_used:
  "index_inv ix \<Longrightarrow> slot_of ix k = Some s \<Longrightarrow> s \<in> used ix \<and> key_of ix s = k \<and> s \<noteq> DISK_CACHE_NO_SLOT"
  using slot_of_Some[of ix k s] slot_neq_NO[of ix s] used_range[of s ix] by (auto simp: index_inv_def)

lemma served_slot_same_view:
  assumes "index_inv ix" "same_view ix ix'"
  shows "served_slot ix' k = served_slot ix k"
proof -
  have "slot_of ix' k = slot_of ix k" using assms same_view_slot_of by (simp add: index_inv_def)
  moreover have "slot_of ix k = Some s \<Longrightarrow> state_of ix' s = state_of ix s" for s
    using assms slot_of_used[of ix k s] used_range[of s ix] by (auto simp: same_view_def)
  ultimately show ?thesis by (simp add: served_slot_def split: option.split)
qed

text \<open>\<open>pins_moved ix ix' d\<close>: only pins and marks changed, the pins of each slot by \<open>d\<close>.\<close>

definition pins_moved :: "DISK_CACHE_INDEX \<Rightarrow> DISK_CACHE_INDEX \<Rightarrow> (ULONG \<Rightarrow> int) \<Rightarrow> bool" where
  "pins_moved ix ix' d \<longleftrightarrow> same_view ix ix' \<and> Ghosts ix' = Ghosts ix \<and> Hand ix' = Hand ix \<and>
     (\<forall>s. unat s < length (Slots ix) \<longrightarrow> pins_of ix' s = pins_of ix s + d s)"

lemma pins_moved_trans:
  "pins_moved a b d \<Longrightarrow> pins_moved b c d' \<Longrightarrow> pins_moved a c (\<lambda>s. d s + d' s)"
  unfolding pins_moved_def by (auto intro: same_view_trans simp: same_view_def)

lemma set_pins:
  assumes inv: "index_inv ix" and s: "unat s < length (Slots ix)"
    and st: "state_of ix s = DiskCacheSlotValid" and p: "0 \<le> pins_of ix s + n"
    and e: "e = (Slots ix ! unat s)\<lparr>Slot_Pins := pins_of ix s + n\<rparr> \<or>
            e = (Slots ix ! unat s)\<lparr>Slot_Pins := pins_of ix s + n, Slot_Referenced := True\<rparr>"
  shows "index_inv (set_slot ix s e)" "pins_moved ix (set_slot ix s e) (\<lambda>t. if t = s then n else 0)"
proof -
  have k: "Slot_Key e = key_of ix s" "Slot_State e = state_of ix s"
    "Slot_Next e = Slot_Next (Slots ix ! unat s)" "Slot_Pins e = pins_of ix s + n"
    using e by (auto simp: key_of_def state_of_def)
  have "slot_ok e" using k p st by (simp add: slot_ok_def)
  with k show "index_inv (set_slot ix s e)" using inv s by (intro set_slot_inv) auto
  have "same_view ix (set_slot ix s e)" using k s by (intro same_view_set_slot) auto
  moreover have "pins_of (set_slot ix s e) t = pins_of ix t + (if t = s then n else 0)" for t
    using s k(4) unat_neqI[of t s] by (auto simp: pins_of_def set_slot_def)
  ultimately show "pins_moved ix (set_slot ix s e) (\<lambda>t. if t = s then n else 0)"
    by (simp add: pins_moved_def set_slot_def)
qed

lemma pin_loop_step:
  assumes inv: "index_inv ix" and b: "Key_Block key \<le> lastBlock"
  shows "\<exists>ix1. pin_loop ix key lastBlock slots pinned =
      pin_loop ix1 (block_key key 1) lastBlock (slots @ [served_slot ix key])
        (if served_slot ix key = DISK_CACHE_NO_SLOT then pinned else pinned + 1) \<and>
    index_inv ix1 \<and>
    pins_moved ix ix1 (\<lambda>t. if t = served_slot ix key \<and> t \<noteq> DISK_CACHE_NO_SLOT then 1 else 0)"
proof (cases "served_slot ix key = DISK_CACHE_NO_SLOT")
  case True
  then have "pin_loop ix key lastBlock slots pinned =
      pin_loop ix (block_key key 1) lastBlock (slots @ [DISK_CACHE_NO_SLOT]) pinned"
  proof (cases "slot_of ix key")
    case None
    then show ?thesis
      using b Find_slot_of[OF inv, of key] by (subst pin_loop.simps) (simp add: block_key_def)
  next
    case (Some s)
    then have n: "s \<noteq> DISK_CACHE_NO_SLOT" "unat s < length (Slots ix)"
      using slot_of_used[OF inv Some] used_range by blast+
    then have "state_of ix s \<noteq> DiskCacheSlotValid"
      using True Some by (auto simp only: served_slot_def option.case split: if_splits)
    with n show ?thesis
      using b Find_slot_of[OF inv, of key] Some
      by (subst pin_loop.simps) (simp add: slot_at_def state_of_def block_key_def)
  qed
  moreover have "pins_moved ix ix (\<lambda>t. if t = DISK_CACHE_NO_SLOT \<and> t \<noteq> DISK_CACHE_NO_SLOT then 1 else 0)"
    by (simp add: pins_moved_def)
  ultimately show ?thesis using True inv by (intro exI[of _ ix]) simp
next
  case False
  then obtain s where s: "slot_of ix key = Some s" "state_of ix s = DiskCacheSlotValid" "served_slot ix key = s"
    by (auto simp: served_slot_def split: option.splits if_splits)
  then have r: "unat s < length (Slots ix)" "s \<noteq> DISK_CACHE_NO_SLOT"
    using slot_of_used[OF inv] used_range by blast+
  let ?ix1 = "set_slot ix s ((Slots ix ! unat s)\<lparr>Slot_Pins := pins_of ix s + 1\<rparr>)"
  have "pin_loop ix key lastBlock slots pinned =
      pin_loop ?ix1 (block_key key 1) lastBlock (slots @ [s]) (pinned + 1)"
    using b Find_slot_of[OF inv, of key] s r
    by (subst pin_loop.simps) (simp add: slot_at_def state_of_def pins_of_def block_key_def)
  moreover have "index_inv ?ix1" and "pins_moved ix ?ix1 (\<lambda>t. if t = s then 1 else 0)"
    using set_pins[OF inv r(1) s(2), of 1] pins_nonneg[OF inv r(1)] by simp_all
  moreover have "(\<lambda>t. if t = s \<and> t \<noteq> DISK_CACHE_NO_SLOT then 1 else 0) = (\<lambda>t. if t = s then 1 else (0 :: int))"
    using r(2) by auto
  ultimately show ?thesis using s(3) r(2) by (intro exI[of _ ?ix1]) simp
qed

definition read_slots :: "DISK_CACHE_INDEX \<Rightarrow> DISK_CACHE_KEY \<Rightarrow> nat \<Rightarrow> ULONG list" where
  "read_slots ix key n = map (\<lambda>i. served_slot ix (block_key key i)) [0..<n]"

lemma block_key_add: "block_key (block_key k i) j = block_key k (i + j)"
  by (simp add: block_key_def add.assoc)

lemma block_key_0: "block_key k 0 = k"
  by (simp add: block_key_def)

lemma read_slots_Suc:
  "read_slots ix key (Suc n) = served_slot ix key # read_slots ix (block_key key 1) n"
proof -
  have "[0..<Suc n] = 0 # map Suc [0..<n]" by (simp only: map_Suc_upt upt_conv_Cons zero_less_Suc)
  then have "read_slots ix key (Suc n) =
      served_slot ix (block_key key 0) # map (\<lambda>i. served_slot ix (block_key key (Suc i))) [0..<n]"
    by (simp only: read_slots_def list.map map_map o_def)
  moreover have "block_key key (Suc i) = block_key (block_key key 1) i" for i
    by (simp only: block_key_add plus_1_eq_Suc)
  ultimately show ?thesis by (simp only: read_slots_def block_key_0)
qed

lemma read_slots_same_view:
  "index_inv ix \<Longrightarrow> same_view ix ix' \<Longrightarrow> read_slots ix' key n = read_slots ix key n"
  by (simp add: read_slots_def served_slot_same_view[of ix ix'])

definition pin_count :: "ULONG list \<Rightarrow> ULONG \<Rightarrow> int" where
  "pin_count slots s = (if s = DISK_CACHE_NO_SLOT then 0 else int (count_list slots s))"

lemma pin_loop_spec:
  assumes "index_inv ix" "n = Suc (unat lastBlock) - unat (Key_Block key)" "unat lastBlock < 2 ^ 64 - 1"
  shows "\<exists>ix'. pin_loop ix key lastBlock slots pinned =
      Some (pinned + of_nat (length (held (read_slots ix key n))), slots @ read_slots ix key n, ix') \<and>
    index_inv ix' \<and> pins_moved ix ix' (pin_count (read_slots ix key n))"
  using assms
proof (induction n arbitrary: ix key slots pinned)
  case 0
  then have "\<not> Key_Block key \<le> lastBlock" by (simp add: word_le_nat_alt)
  then have "pin_loop ix key lastBlock slots pinned = Some (pinned, slots, ix)"
    by (subst pin_loop.simps) simp
  moreover have "pins_moved ix ix (pin_count (read_slots ix key 0))"
    by (simp add: pins_moved_def pin_count_def read_slots_def)
  ultimately show ?case using 0 by (simp add: read_slots_def held_def)
next
  case (Suc n)
  let ?s = "served_slot ix key" and ?k1 = "block_key key 1"
  have b: "Key_Block key \<le> lastBlock" using Suc.prems(2) by (simp add: word_le_nat_alt)
  then have "unat (Key_Block key) < 2 ^ 64 - 1" using Suc.prems(3) by (simp add: word_le_nat_alt)
  then have "unat (Key_Block key + 1) = Suc (unat (Key_Block key))" by (simp add: unat_word_ariths)
  then have n: "n = Suc (unat lastBlock) - unat (Key_Block ?k1)"
    using Suc.prems(2) by (simp add: block_key_def)
  obtain ix1 where st: "pin_loop ix key lastBlock slots pinned =
      pin_loop ix1 ?k1 lastBlock (slots @ [?s]) (if ?s = DISK_CACHE_NO_SLOT then pinned else pinned + 1)"
    and inv1: "index_inv ix1"
    and m1: "pins_moved ix ix1 (\<lambda>t. if t = ?s \<and> t \<noteq> DISK_CACHE_NO_SLOT then 1 else 0)"
    using pin_loop_step[OF Suc.prems(1) b] by blast
  have rs: "read_slots ix1 ?k1 n = read_slots ix ?k1 n"
    using m1 Suc.prems(1) by (intro read_slots_same_view) (simp_all add: pins_moved_def)
  let ?p1 = "if ?s = DISK_CACHE_NO_SLOT then pinned else pinned + 1"
  obtain ix' where r: "pin_loop ix1 ?k1 lastBlock (slots @ [?s]) ?p1 =
      Some (?p1 + of_nat (length (held (read_slots ix ?k1 n))), (slots @ [?s]) @ read_slots ix ?k1 n, ix')"
    and inv': "index_inv ix'" and m2: "pins_moved ix1 ix' (pin_count (read_slots ix ?k1 n))"
    using Suc.IH[OF inv1 n Suc.prems(3), of "slots @ [?s]" ?p1] rs by auto
  have "(\<lambda>t. (if t = ?s \<and> t \<noteq> DISK_CACHE_NO_SLOT then 1 else 0) + pin_count (read_slots ix ?k1 n) t)
      = pin_count (read_slots ix key (Suc n))"
    by (auto simp: pin_count_def read_slots_Suc)
  then have "pins_moved ix ix' (pin_count (read_slots ix key (Suc n)))"
    using pins_moved_trans[OF m1 m2] by simp
  moreover have "pin_loop ix key lastBlock slots pinned =
      Some (pinned + of_nat (length (held (read_slots ix key (Suc n)))), slots @ read_slots ix key (Suc n), ix')"
    using st r by (auto simp: read_slots_Suc held_def)
  ultimately show ?case using inv' by blast
qed

section \<open>Unpinning\<close>

text \<open>The pins a caller gives back: each is a pin of a filled slot that is really held.\<close>

definition pins_held :: "DISK_CACHE_INDEX \<Rightarrow> ULONG list \<Rightarrow> bool" where
  "pins_held ix slots \<longleftrightarrow> (\<forall>s \<in> set (held slots).
     unat s < length (Slots ix) \<and> state_of ix s = DiskCacheSlotValid \<and>
     int (count_list slots s) \<le> pins_of ix s)"

lemma Unpin_spec:
  assumes "index_inv ix" "pins_held ix slots"
  shows "\<exists>ix'. BlorgDiskCacheIndexUnpin ix slots served = Some ix' \<and> index_inv ix' \<and>
    pins_moved ix ix' (\<lambda>s. - pin_count slots s)"
  using assms
proof (induction slots arbitrary: ix)
  case Nil
  then show ?case by (simp add: pins_moved_def pin_count_def)
next
  case (Cons s slots)
  show ?case
  proof (cases "s = DISK_CACHE_NO_SLOT")
    case True
    then have "pin_count (s # slots) = pin_count slots" by (auto simp: pin_count_def)
    moreover have "pins_held ix slots" using Cons.prems(2) True by (auto simp: pins_held_def held_def)
    ultimately show ?thesis using Cons.IH[OF Cons.prems(1)] True by simp
  next
    case False
    then have s: "unat s < length (Slots ix)" "state_of ix s = DiskCacheSlotValid"
      "int (count_list (s # slots) s) \<le> pins_of ix s"
      using Cons.prems(2) by (auto simp: pins_held_def held_def)
    let ?e1 = "(Slots ix ! unat s)\<lparr>Slot_Pins := pins_of ix s + -1\<rparr>"
    let ?ix1 = "set_slot ix s (if served then ?e1\<lparr>Slot_Referenced := True\<rparr> else ?e1)"
    have i1: "index_inv ?ix1" "pins_moved ix ?ix1 (\<lambda>t. if t = s then -1 else 0)"
      using set_pins[OF Cons.prems(1) s(1,2), of "-1"] s(3) by auto
    have "pins_held ?ix1 slots"
      unfolding pins_held_def
    proof
      fix t assume t: "t \<in> set (held slots)"
      then have "unat t < length (Slots ix)" "state_of ix t = DiskCacheSlotValid"
        "int (count_list (s # slots) t) \<le> pins_of ix t"
        using Cons.prems(2) False by (auto simp: pins_held_def held_def)
      then show "unat t < length (Slots ?ix1) \<and> state_of ?ix1 t = DiskCacheSlotValid \<and>
          int (count_list slots t) \<le> pins_of ?ix1 t"
        using i1(2) by (auto simp: pins_moved_def same_view_def split: if_splits)
    qed
    then obtain ix' where r: "BlorgDiskCacheIndexUnpin ?ix1 slots served = Some ix'" "index_inv ix'"
      "pins_moved ?ix1 ix' (\<lambda>s. - pin_count slots s)"
      using Cons.IH[OF i1(1)] by blast
    have "(\<lambda>t. (if t = s then -1 else 0) + - pin_count slots t) = (\<lambda>t. - pin_count (s # slots) t)"
      using False by (auto simp: pin_count_def)
    then have "pins_moved ix ix' (\<lambda>t. - pin_count (s # slots) t)"
      using pins_moved_trans[OF i1(2) r(3)] by simp
    moreover have "BlorgDiskCacheIndexUnpin ix (s # slots) served = Some ix'"
      using False s(1) r(1) by (cases served) (simp_all add: slot_at_def pins_of_def Let_def)
    ultimately show ?thesis using r(2) by blast
  qed
qed

end
