(* ===== verification/Disk_Cache_Plan.thy ===== *)
theory Disk_Cache_Plan
  imports Disk_Cache_Pin
begin

text \<open>
  \<open>BlorgDiskCacheIndexPlanRead\<close>: which held blocks of a read are given up so that at most
  \<open>MaxRuns\<close> runs of blocks are left to fetch.
\<close>

section \<open>Runs of blocks to fetch and gaps of held blocks\<close>

definition run_starts :: "ULONG list \<Rightarrow> nat set" where
  "run_starts slots = {i. i < length slots \<and> slots ! i = DISK_CACHE_NO_SLOT \<and>
     (i = 0 \<or> slots ! (i - 1) \<noteq> DISK_CACHE_NO_SLOT)}"

definition runs :: "ULONG list \<Rightarrow> nat" where
  "runs slots = card (run_starts slots)"

text \<open>A gap: held blocks, all of them, between the end of one run and the start of the next.\<close>

definition gap_at :: "ULONG list \<Rightarrow> nat \<Rightarrow> nat \<Rightarrow> bool" where
  "gap_at slots start len \<longleftrightarrow> 0 < start \<and> 0 < len \<and> start + len < length slots \<and>
     slots ! (start - 1) = DISK_CACHE_NO_SLOT \<and> slots ! (start + len) = DISK_CACHE_NO_SLOT \<and>
     (\<forall>j. start \<le> j \<and> j < start + len \<longrightarrow> slots ! j \<noteq> DISK_CACHE_NO_SLOT)"

lemma run_starts_finite [simp]: "finite (run_starts slots)"
  by (rule finite_subset[of _ "{..<length slots}"]) (auto simp: run_starts_def)

lemma gap_start_le: "gap_start slots i \<le> i"
  by (induction i) (auto simp: le_SucI)

lemma gap_start_held: "gap_start slots i \<le> j \<Longrightarrow> j < i \<Longrightarrow> slots ! j \<noteq> DISK_CACHE_NO_SLOT"
  by (induction i) (auto simp: less_Suc_eq split: if_splits)

lemma gap_start_before:
  "gap_start slots i = 0 \<or> slots ! (gap_start slots i - 1) = DISK_CACHE_NO_SLOT"
  by (induction i) auto

lemma gap_start_unique:
  assumes "gap_at slots start len"
  shows "gap_start slots (start + len) = start"
proof (rule antisym)
  let ?g = "gap_start slots (start + len)"
  show "start \<le> ?g"
  proof (rule ccontr)
    assume "\<not> start \<le> ?g"
    then have "slots ! (start - 1) \<noteq> DISK_CACHE_NO_SLOT"
      using gap_start_held[of slots "start + len" "start - 1"] assms by (simp add: gap_at_def)
    then show False using assms by (simp add: gap_at_def)
  qed
  show "?g \<le> start"
  proof (rule ccontr)
    assume g: "\<not> ?g \<le> start"
    then have "start \<le> ?g - 1" "?g - 1 < start + len"
      using gap_start_le[of slots "start + len"] by linarith+
    then have "slots ! (?g - 1) \<noteq> DISK_CACHE_NO_SLOT" using assms by (simp add: gap_at_def)
    then show False using g gap_start_before[of slots "start + len"] by simp
  qed
qed

lemma gap_ends_at_start: "gap_at slots start len \<Longrightarrow> start + len \<in> run_starts slots"
  by (auto simp: gap_at_def run_starts_def)

lemma gap_before_start:
  assumes i: "i \<in> run_starts slots" and j: "j \<in> run_starts slots" "j < i"
  shows "gap_at slots (gap_start slots i) (i - gap_start slots i)"
proof -
  let ?g = "gap_start slots i"
  have jn: "slots ! j = DISK_CACHE_NO_SLOT" using j(1) by (simp add: run_starts_def)
  then have "j < ?g" using gap_start_held[of slots i j] j(2) by (meson not_le_imp_less)
  moreover from this have "slots ! (?g - 1) = DISK_CACHE_NO_SLOT" using gap_start_before[of slots i] by auto
  moreover have "?g \<noteq> i" using calculation i j(2) by (auto simp: run_starts_def)
  then have "?g < i" using gap_start_le[of slots i] by simp
  ultimately show ?thesis
    using i gap_start_held[of slots i] by (auto simp: gap_at_def run_starts_def)
qed

lemma gap_after_start:
  assumes "gap_at slots s l"
  shows "\<exists>j \<in> run_starts slots. j < s"
proof -
  let ?P = "\<lambda>j. slots ! j = DISK_CACHE_NO_SLOT"
  have P: "?P (s - 1)" and s: "0 < s" "s < length slots" using assms by (auto simp: gap_at_def)
  let ?j = "LEAST j. ?P j"
  have le: "?j \<le> s - 1" using P by (rule Least_le)
  moreover have "?P ?j" using P by (rule LeastI)
  moreover have "?j = 0 \<or> \<not> ?P (?j - 1)" using not_less_Least[of "?j - 1" ?P] by auto
  ultimately have "?j \<in> run_starts slots" using s by (auto simp: run_starts_def)
  with le s show ?thesis by (intro bexI[of _ ?j]) auto
qed

lemma first_run_no_gap:
  assumes "card {i \<in> run_starts slots. i < n} = 1" "gap_at slots s l"
  shows "\<not> s + l < n"
proof
  assume lt: "s + l < n"
  obtain j where "j \<in> run_starts slots" "j < s" using gap_after_start[OF assms(2)] by blast
  with gap_ends_at_start[OF assms(2)] lt
  have "{j, s + l} \<subseteq> {i \<in> run_starts slots. i < n}" by auto
  from card_mono[OF _ this] show False using assms(1) \<open>j < s\<close> by simp
qed

section \<open>The scan\<close>

definition scan_ok :: "ULONG list \<Rightarrow> nat \<Rightarrow> nat \<times> nat \<times> nat \<Rightarrow> bool" where
  "scan_ok slots n acc =
     (case acc of (r, start, len) \<Rightarrow>
       r = card {i \<in> run_starts slots. i < n} \<and>
       (r \<le> 1 \<longrightarrow> len = MAXULONG) \<and>
       (1 < r \<longrightarrow> gap_at slots start len \<and>
          (\<forall>s l. gap_at slots s l \<longrightarrow> s + l < n \<longrightarrow> len \<le> l)))"

lemma runs_before_Suc:
  "{i \<in> run_starts slots. i < Suc n} =
   (if n \<in> run_starts slots then insert n {i \<in> run_starts slots. i < n} else {i \<in> run_starts slots. i < n})"
  by (auto simp: less_Suc_eq)

lemma scan_step:
  assumes ok: "scan_ok slots n acc" and n: "n < length slots" and len: "length slots \<le> MAXULONG"
  shows "scan_ok slots (Suc n) (plan_step slots acc n)"
proof -
  obtain r start l where acc: "acc = (r, start, l)" by (cases acc)
  have fin: "finite {i \<in> run_starts slots. i < n}" by simp
  show ?thesis
  proof (cases "n \<in> run_starts slots")
    case False
    then have "plan_step slots acc n = acc"
      using n by (auto simp: plan_step_def acc run_starts_def)
    moreover have "gap_at slots s l' \<Longrightarrow> s + l' < Suc n \<Longrightarrow> s + l' < n" for s l'
      using gap_ends_at_start[of slots s l'] False by (metis less_SucE)
    ultimately show ?thesis
      using ok False unfolding scan_ok_def acc by (auto simp: runs_before_Suc)
  next
    case True
    let ?g = "gap_start slots n"
    have cnt: "card {i \<in> run_starts slots. i < Suc n} = Suc r"
      using ok True fin by (simp add: scan_ok_def acc runs_before_Suc)
    have step: "plan_step slots acc n =
        (if r \<noteq> 0 \<and> n - ?g < l then (Suc r, ?g, n - ?g) else (Suc r, start, l))"
      using True by (auto simp: plan_step_def acc run_starts_def)
    show ?thesis
    proof (cases "r = 0")
      case True
      then show ?thesis using ok step cnt by (simp add: scan_ok_def acc)
    next
      case False
      then obtain j where "j \<in> run_starts slots" "j < n"
        using ok by (fastforce simp: scan_ok_def acc card_gt_0_iff)
      then have gap: "gap_at slots ?g (n - ?g)" using gap_before_start[OF True] by blast
      have this_gap: "gap_at slots s l' \<Longrightarrow> s + l' = n \<Longrightarrow> l' = n - ?g" for s l'
        using gap_start_unique[of slots s l'] by auto
      have mx: "n - ?g < MAXULONG" using n len by simp
      have first: "r = 1 \<Longrightarrow> l = MAXULONG"
        and more: "1 < r \<Longrightarrow> gap_at slots start l \<and> (\<forall>s l'. gap_at slots s l' \<longrightarrow> s + l' < n \<longrightarrow> l \<le> l')"
        using ok by (auto simp: scan_ok_def acc)
      have cr: "r = card {i \<in> run_starts slots. i < n}" using ok by (simp add: scan_ok_def acc)
      have only: "l \<le> l'" if "gap_at slots s l'" "s + l' < n" for s l'
      proof (cases "r = 1")
        case True
        then show ?thesis using first_run_no_gap[of slots n s l'] cr that by simp
      next
        case False
        then show ?thesis using more that \<open>r \<noteq> 0\<close> by auto
      qed
      have "scan_ok slots (Suc n) (Suc r, ?g, n - ?g)" if lt: "n - ?g < l"
      proof -
        have "n - ?g \<le> l'" if "gap_at slots s l'" "s + l' < Suc n" for s l'
          using this_gap[OF that(1)] only[OF that(1)] that(2) lt by (cases "s + l' = n") auto
        then show ?thesis using cnt gap False by (simp add: scan_ok_def)
      qed
      moreover have "scan_ok slots (Suc n) (Suc r, start, l)" if nlt: "\<not> n - ?g < l"
      proof -
        have r1: "1 < r" using nlt mx first False by (cases "r = 1") auto
        have "l \<le> l'" if "gap_at slots s l'" "s + l' < Suc n" for s l'
          using this_gap[OF that(1)] only[OF that(1)] that(2) nlt by (cases "s + l' = n") auto
        then show ?thesis using cnt more[OF r1] r1 by (simp add: scan_ok_def)
      qed
      ultimately show ?thesis using step False by simp
    qed
  qed
qed

lemma scan_prefix:
  assumes "length slots \<le> MAXULONG" "n \<le> length slots"
  shows "scan_ok slots n (foldl (plan_step slots) (0, 0, MAXULONG) [0..<n])"
  using assms(2)
proof (induction n)
  case 0
  then show ?case by (simp add: scan_ok_def)
next
  case (Suc n)
  then show ?case using scan_step[OF Suc.IH _ assms(1)] by simp
qed

lemma plan_scan_spec:
  assumes "length slots \<le> MAXULONG" "plan_scan slots = (r, start, len)"
  shows "r = runs slots"
    "1 < r \<Longrightarrow> gap_at slots start len \<and> (\<forall>s l. gap_at slots s l \<longrightarrow> len \<le> l)"
    "r \<le> 1 \<Longrightarrow> len = MAXULONG"
proof -
  have ok: "scan_ok slots (length slots) (r, start, len)"
    using scan_prefix[OF assms(1), of "length slots"] assms(2) by (simp add: plan_scan_def)
  have "{i \<in> run_starts slots. i < length slots} = run_starts slots" by (auto simp: run_starts_def)
  then show "r = runs slots" using ok by (simp add: scan_ok_def runs_def)
  show "1 < r \<Longrightarrow> gap_at slots start len \<and> (\<forall>s l. gap_at slots s l \<longrightarrow> len \<le> l)"
    using ok by (auto simp: scan_ok_def gap_at_def)
  show "r \<le> 1 \<Longrightarrow> len = MAXULONG" using ok by (simp add: scan_ok_def)
qed

section \<open>Giving a gap up\<close>

lemma give_up_nth:
  assumes "start + len \<le> length slots" "i < length slots"
  shows "give_up slots start len ! i =
    (if start \<le> i \<and> i < start + len then DISK_CACHE_NO_SLOT else slots ! i)"
  using assms by (auto simp: give_up_def nth_append)

lemma give_up_length [simp]:
  "start + len \<le> length slots \<Longrightarrow> length (give_up slots start len) = length slots"
  by (simp add: give_up_def)

lemma run_starts_give_up:
  assumes gap: "gap_at slots start len"
  shows "run_starts (give_up slots start len) = run_starts slots - {start + len}"
proof -
  have le: "start + len \<le> length slots" using gap by (simp add: gap_at_def)
  have nth: "i < length slots \<Longrightarrow> give_up slots start len ! i =
      (if start \<le> i \<and> i < start + len then DISK_CACHE_NO_SLOT else slots ! i)" for i
    using le by (rule give_up_nth)
  have before: "slots ! (start - 1) = DISK_CACHE_NO_SLOT" "0 < start" "0 < len"
    and held: "\<And>j. start \<le> j \<Longrightarrow> j < start + len \<Longrightarrow> slots ! j \<noteq> DISK_CACHE_NO_SLOT"
    using gap by (auto simp: gap_at_def)
  have "i \<in> run_starts (give_up slots start len) \<longleftrightarrow> i \<in> run_starts slots \<and> i \<noteq> start + len" for i
  proof (cases "i < length slots")
    case True
    consider "i < start" | "i = start" | "start < i" "i < start + len" | "i = start + len" | "start + len < i"
      by linarith
    then show ?thesis
    proof cases
      case 2
      then show ?thesis using True before held[of start] le by (auto simp: run_starts_def nth)
    next
      case 3
      then show ?thesis using True held[of i] le by (auto simp: run_starts_def nth)
    qed (use True before le in \<open>auto simp: run_starts_def nth\<close>)
  qed (use le in \<open>simp add: run_starts_def\<close>)
  then show ?thesis by blast
qed

lemma runs_give_up:
  assumes "gap_at slots start len"
  shows "Suc (runs (give_up slots start len)) = runs slots"
  unfolding runs_def run_starts_give_up[OF assms]
  using gap_ends_at_start[OF assms] by (simp add: card.remove[symmetric] del: card_Diff_singleton card_Diff_insert)

text \<open>The blocks of a gap, and what is left of the read without them.\<close>

lemma gap_split:
  assumes gap: "gap_at slots start len"
  obtains A seg B where "slots = A @ seg @ B" "seg = take len (drop start slots)"
    "give_up slots start len = A @ replicate len DISK_CACHE_NO_SLOT @ B" "held seg = seg" "length seg = len"
proof -
  let ?A = "take start slots" and ?B = "drop (start + len) slots" and ?seg = "take len (drop start slots)"
  have le: "start + len \<le> length slots" using gap by (simp add: gap_at_def)
  have b: "drop len (drop start slots) = ?B" by (simp add: add.commute)
  have "drop start slots = ?seg @ ?B" unfolding b[symmetric] by (rule append_take_drop_id[symmetric])
  then have s: "slots = ?A @ ?seg @ ?B" using append_take_drop_id[of start slots] by metis
  have "\<forall>x \<in> set ?seg. x \<noteq> DISK_CACHE_NO_SLOT"
    unfolding all_set_conv_all_nth using gap by (simp add: gap_at_def)
  then have h: "held ?seg = ?seg" by (simp add: held_def filter_id_conv)
  show thesis by (rule that[OF s refl _ h]) (use le in \<open>simp_all add: give_up_def\<close>)
qed

section \<open>The plan\<close>

text \<open>What a plan leaves of a read: at most \<open>maxRuns\<close> runs to fetch, nothing newly served, and
  exactly the pins of the given-up blocks dropped.\<close>

definition planned ::
  "DISK_CACHE_INDEX \<Rightarrow> ULONG list \<Rightarrow> nat \<Rightarrow> ULONG list \<Rightarrow> DISK_CACHE_INDEX \<Rightarrow> bool" where
  "planned ix slots maxRuns slots' ix' \<longleftrightarrow>
     runs slots' = min (runs slots) maxRuns \<and> length slots' = length slots \<and>
     (\<forall>i < length slots. slots' ! i = slots ! i \<or> slots' ! i = DISK_CACHE_NO_SLOT) \<and>
     pins_moved ix ix' (\<lambda>s. pin_count slots' s - pin_count slots s)"

lemma pin_count_append: "pin_count (xs @ ys) s = pin_count xs s + pin_count ys s"
  by (simp add: pin_count_def)

lemma pin_count_gone: "pin_count (replicate n DISK_CACHE_NO_SLOT) s = 0"
  by (simp add: pin_count_def count_list_0_iff)

lemma held_append: "held (xs @ ys) = held xs @ held ys"
  by (simp add: held_def)

lemma held_gone: "held (replicate n DISK_CACHE_NO_SLOT) = []"
  by (simp add: held_def)

lemmas plan_counts = pin_count_append pin_count_gone held_append held_gone

text \<open>Pins a caller holds for a read, stated with the counts.\<close>

lemma pins_held_alt:
  "pins_held ix slots \<longleftrightarrow> (\<forall>s. 0 < pin_count slots s \<longrightarrow>
     unat s < length (Slots ix) \<and> state_of ix s = DiskCacheSlotValid \<and> pin_count slots s \<le> pins_of ix s)"
proof -
  have "0 < count_list slots s \<longleftrightarrow> s \<in> set slots" for s
    using count_list_0_iff[of slots s] by (cases "count_list slots s") auto
  then show ?thesis by (auto simp: pins_held_def held_def pin_count_def)
qed

lemma pin_count_nonneg: "0 \<le> pin_count slots s"
  by (simp add: pin_count_def)

lemma give_up_step:
  assumes inv: "index_inv ix" and ph: "pins_held ix slots" and gap: "gap_at slots start len"
  obtains ix1 where "BlorgDiskCacheIndexUnpin ix (take len (drop start slots)) False = Some ix1"
    "index_inv ix1" "pins_held ix1 (give_up slots start len)"
    "pins_moved ix ix1 (\<lambda>s. pin_count (give_up slots start len) s - pin_count slots s)"
    "length (held slots) = length (held (give_up slots start len)) + len"
proof -
  let ?new = "give_up slots start len"
  obtain A seg B where s: "slots = A @ seg @ B" "seg = take len (drop start slots)"
    "?new = A @ replicate len DISK_CACHE_NO_SLOT @ B" "held seg = seg" "length seg = len"
    using gap_split[OF gap] by blast
  have cnt: "pin_count slots t = pin_count A t + pin_count seg t + pin_count B t"
    and cnt': "pin_count ?new t = pin_count A t + pin_count B t" for t
    unfolding s(3) using s(1) by (simp_all only: plan_counts)
  have "pins_held ix seg"
    unfolding pins_held_alt
  proof (intro allI impI)
    fix t assume "0 < pin_count seg t"
    then show "unat t < length (Slots ix) \<and> state_of ix t = DiskCacheSlotValid \<and> pin_count seg t \<le> pins_of ix t"
      using ph cnt[of t] pin_count_nonneg[of A t] pin_count_nonneg[of B t]
      unfolding pins_held_alt by (smt (verit))
  qed
  then obtain ix1 where u: "BlorgDiskCacheIndexUnpin ix seg False = Some ix1" and i1: "index_inv ix1"
    and m: "pins_moved ix ix1 (\<lambda>s. - pin_count seg s)"
    using Unpin_spec[OF inv] by blast
  have "(\<lambda>s. - pin_count seg s) = (\<lambda>t. pin_count ?new t - pin_count slots t)"
    by (rule ext) (simp only: cnt cnt')
  then have m': "pins_moved ix ix1 (\<lambda>t. pin_count ?new t - pin_count slots t)" using m by simp
  have "pins_held ix1 ?new"
    unfolding pins_held_alt
  proof (intro allI impI)
    fix t assume t: "0 < pin_count ?new t"
    then have "unat t < length (Slots ix)" "state_of ix t = DiskCacheSlotValid" "pin_count slots t \<le> pins_of ix t"
      using ph cnt[of t] cnt'[of t] pin_count_nonneg[of seg t] unfolding pins_held_alt by (smt (verit))+
    then show "unat t < length (Slots ix1) \<and> state_of ix1 t = DiskCacheSlotValid \<and> pin_count ?new t \<le> pins_of ix1 t"
      using m' by (simp add: pins_moved_def same_view_def)
  qed
  moreover have "length (held slots) = length (held ?new) + len"
    unfolding s(3) using s(1) s(4,5) by (simp only: plan_counts) simp
  ultimately show thesis using that u s(2) i1 m' by blast
qed

lemma PlanRead_spec:
  assumes "index_inv ix" "pins_held ix slots" "length slots \<le> MAXULONG" "0 < maxRuns \<or> runs slots = 0"
    "h = of_nat (length (held slots))"
  shows "\<exists>slots' ix'. BlorgDiskCacheIndexPlanRead ix slots h maxRuns =
      Some (of_nat (length (held slots')), slots', ix') \<and> index_inv ix' \<and>
    pins_held ix' slots' \<and> planned ix slots maxRuns slots' ix'"
  using assms
proof (induction "runs slots" arbitrary: ix slots h rule: less_induct)
  case less
  obtain r start len where sc: "plan_scan slots = (r, start, len)" by (cases "plan_scan slots")
  note sp = plan_scan_spec[OF less.prems(3) sc]
  show ?case
  proof (cases "runs slots \<le> maxRuns")
    case True
    then have "BlorgDiskCacheIndexPlanRead ix slots h maxRuns = Some (h, slots, ix)"
      using sc sp(1) by (subst BlorgDiskCacheIndexPlanRead.simps) simp
    moreover have "planned ix slots maxRuns slots ix" using True by (simp add: planned_def pins_moved_def)
    ultimately show ?thesis using less.prems by blast
  next
    case False
    then have gap: "gap_at slots start len" using sp(1,2) less.prems(4) by auto
    let ?new = "give_up slots start len"
    obtain ix1 where u: "BlorgDiskCacheIndexUnpin ix (take len (drop start slots)) False = Some ix1"
      and i1: "index_inv ix1" and p1: "pins_held ix1 ?new"
      and m: "pins_moved ix ix1 (\<lambda>s. pin_count ?new s - pin_count slots s)"
      and hl: "length (held slots) = length (held ?new) + len"
      using give_up_step[OF less.prems(1,2) gap] by blast
    have le: "start + len \<le> length slots" using gap by (simp add: gap_at_def)
    have step: "BlorgDiskCacheIndexPlanRead ix slots h maxRuns =
        BlorgDiskCacheIndexPlanRead ix1 ?new (h - of_nat len) maxRuns"
      using sc sp(1) False le u by (subst BlorgDiskCacheIndexPlanRead.simps) simp
    have rn: "Suc (runs ?new) = runs slots" using gap by (rule runs_give_up)
    have h': "h - of_nat len = of_nat (length (held ?new))" using less.prems(5) hl by simp
    obtain slots' ix' where r: "BlorgDiskCacheIndexPlanRead ix1 ?new (h - of_nat len) maxRuns =
        Some (of_nat (length (held slots')), slots', ix')" "index_inv ix'" "pins_held ix' slots'"
      and pl: "planned ix1 ?new maxRuns slots' ix'"
      using less.hyps[OF _ i1 p1 _ _ h'] rn less.prems(3,4) le by auto
    have "planned ix slots maxRuns slots' ix'"
      unfolding planned_def
    proof (intro conjI)
      show "runs slots' = min (runs slots) maxRuns" using pl rn False by (simp add: planned_def)
      show "length slots' = length slots" using pl le by (simp add: planned_def)
      show "\<forall>i<length slots. slots' ! i = slots ! i \<or> slots' ! i = DISK_CACHE_NO_SLOT"
        using pl le by (simp add: planned_def give_up_nth) (metis (full_types))
      show "pins_moved ix ix' (\<lambda>s. pin_count slots' s - pin_count slots s)"
        using pins_moved_trans[OF m, of ix' "\<lambda>s. pin_count slots' s - pin_count ?new s"] pl
        by (simp add: planned_def)
    qed
    then show ?thesis using step r by auto
  qed
qed

end
