(* ===== verification/Disk_Cache.thy ===== *)
theory Disk_Cache
  imports Disk_Cache_Index
begin

unbundle bit_operations_syntax

text \<open>
  The disk cache's I/O side (DiskCache.c): what is keyed how, the fills on their way into the
  cache file, the reads served from it, and the count of work in flight.

  What the kernel decides is an argument: whether an allocation or a work item could be had,
  whether an IRP or a fetch could be started, and how each of them ended. An IRP that was sent
  is a value the caller of the model keeps until its completion routine is applied to it
  (\<open>Disk_Cache_Protocol\<close> runs them in every order). File offsets and lengths are natural
  numbers where the guards of the function that computes them keep them below \<open>2 ^ 64\<close>; the
  rounding of a read's length to pages, which happens on 32 bits before any check of its own, is
  on words. The statistics counters are left out. \<open>None\<close> is a run with no defined outcome, as
  in \<open>Disk_Cache_Index\<close>.
\<close>

section \<open>Data\<close>

definition DISK_CACHE_BLOCK_SIZE :: nat where "DISK_CACHE_BLOCK_SIZE = 2 ^ DISK_CACHE_BLOCK_SHIFT"
definition DISK_CACHE_MAX_READ_FETCHES :: nat where "DISK_CACHE_MAX_READ_FETCHES = 4"
definition DISK_CACHE_MAX_READ_BLOCKS :: ULONG where "DISK_CACHE_MAX_READ_BLOCKS = 64"
definition DISK_CACHE_FILL_BACKLOG :: int where "DISK_CACHE_FILL_BACKLOG = 32 * 1024 * 1024"

definition DISK_CACHE_READ_FAILED :: ULONG where "DISK_CACHE_READ_FAILED = 1"
definition DISK_CACHE_READ_STALE :: ULONG where "DISK_CACHE_READ_STALE = 2"
definition DISK_CACHE_READ_UNSTARTED :: ULONG where "DISK_CACHE_READ_UNSTARTED = 4"

text \<open>The fields of a node (Structs.h) that the disk cache keeps.\<close>

record NON_PAGED_NODE_DISK =
  DiskCacheFile0 :: ULONG64
  DiskCacheFile1 :: ULONG64
  DiskCacheSize :: ULONG64
  DiskCacheModifiedTime :: ULONG64

text \<open>What a fetch received (Structs.h): \<open>BodyBuffer\<close> is \<open>None\<close> for the null pointer.\<close>

record FILE_BUFFER =
  BodyBuffer :: "UCHAR list option"
  BodyBufferSize :: nat
  HasVersion :: bool
  VersionSize :: ULONG64
  VersionTime :: ULONG64

record DISK_CACHE_FILL =
  Fill_Buffer :: "UCHAR list"
  Fill_Slot :: ULONG

text \<open>The static state; \<open>FillBytes\<close> and \<open>Busy\<close> are signed counters of work in flight.\<close>

record DISK_CACHE =
  Index :: DISK_CACHE_INDEX
  Fills :: "DISK_CACHE_FILL list"
  FillWorkerQueued :: bool
  FillBytes :: int
  Live :: bool
  Busy :: int
  Idle :: bool

text \<open>
  \<open>Read_Offset\<close> is the file offset of the IRP being served, which the source reads from its
  caller's arguments; \<open>SlotCount\<close> is the length of \<open>Read_Slots\<close>.
\<close>

record DISK_CACHE_READ =
  Read_Key :: DISK_CACHE_KEY
  Read_Offset :: nat
  Outstanding :: int
  Read_Status :: NTSTATUS
  Bytes :: int
  Span :: nat
  DiskSpan :: nat
  Read_Valid :: nat
  FetchCount :: nat
  Refetch :: ULONG
  Read_Slots :: "ULONG list"

text \<open>A part in flight: a read of the cache file, or a fetch, of \<open>length\<close> bytes at \<open>at\<close>.\<close>

datatype read_part =
    DiskPart (part_at: nat) (part_len: nat) (part_disk: nat)
  | FetchPart (part_at: nat) (part_len: nat)

text \<open>What the completion of a served read is told: status, valid bytes, fetches, refetch.\<close>

record READ_OUTCOME =
  Out_Status :: NTSTATUS
  Out_Valid :: nat
  Out_Fetches :: nat
  Out_Refetch :: bool

section \<open>Work in flight\<close>

definition DiskCacheLeave :: "DISK_CACHE \<Rightarrow> DISK_CACHE" where
  "DiskCacheLeave dc =
     (let dc1 = dc\<lparr>Busy := Busy dc - 1\<rparr> in if Busy dc1 = 0 then dc1\<lparr>Idle := True\<rparr> else dc1)"

text \<open>Run alone the second test of \<open>Live\<close> agrees with the first; \<open>Disk_Cache_Rundown\<close> lets
  another thread clear it in between.\<close>

definition DiskCacheEnter :: "DISK_CACHE \<Rightarrow> bool \<times> DISK_CACHE" where
  "DiskCacheEnter dc =
     (if \<not> Live dc then (False, dc)
      else let dc1 = dc\<lparr>Busy := Busy dc + 1\<rparr>
        in if \<not> Live dc1 then (False, DiskCacheLeave dc1) else (True, dc1))"

definition DiskCacheLost :: "DISK_CACHE \<Rightarrow> DISK_CACHE" where
  "DiskCacheLost dc = dc\<lparr>Live := False\<rparr>"

section \<open>Keys and versions\<close>

definition DiskCacheKeyOf :: "NON_PAGED_NODE_DISK \<Rightarrow> DISK_CACHE_KEY option" where
  "DiskCacheKeyOf node =
     (if DiskCacheFile0 node = 0 then None
      else Some \<lparr>File0 = DiskCacheFile0 node, File1 = DiskCacheFile1 node,
        Key_Size = DiskCacheSize node, Key_ModifiedTime = DiskCacheModifiedTime node, Key_Block = 0\<rparr>)"

text \<open>The two path hashes; \<open>upcase\<close> is RtlUpcaseUnicodeChar.\<close>

fun path_hashes :: "(WCHAR \<Rightarrow> WCHAR) \<Rightarrow> UNICODE_STRING \<Rightarrow> ULONG64 \<Rightarrow> ULONG64 \<Rightarrow> ULONG64 \<times> ULONG64" where
  "path_hashes upcase [] first second = (first, second)"
| "path_hashes upcase (w # path) first second =
     (let c = ucast (upcase w) :: ULONG64;
          first1 = (first XOR c) * 0x100000001B3;
          second1 = (second + c) * 0xBF58476D1CE4E5B9;
          second2 = push_bit 23 second1 OR drop_bit 41 second1
      in path_hashes upcase path first1 second2)"

definition BlorgDiskCacheNoteFile ::
  "(WCHAR \<Rightarrow> WCHAR) \<Rightarrow> DISK_CACHE \<Rightarrow> NON_PAGED_NODE_DISK \<Rightarrow> UNICODE_STRING \<Rightarrow> ULONG64 \<Rightarrow> ULONG64
     \<Rightarrow> NON_PAGED_NODE_DISK \<times> DISK_CACHE_KEY" where
  "BlorgDiskCacheNoteFile upcase dc node path sz modified =
     (if \<not> Live dc then (node, zero_key)
      else
        let node1 =
          (if DiskCacheFile0 node = 0
           then (case path_hashes upcase path 0xCBF29CE484222325 0x9E3779B97F4A7C15 of (first, second) \<Rightarrow>
             node\<lparr>DiskCacheFile1 := second, DiskCacheFile0 := first OR 1\<rparr>)
           else node);
          node2 = node1\<lparr>DiskCacheSize := sz, DiskCacheModifiedTime := modified\<rparr>
        in (node2, \<lparr>File0 = DiskCacheFile0 node2, File1 = DiskCacheFile1 node2, Key_Size = sz,
             Key_ModifiedTime = modified, Key_Block = 0\<rparr>))"

definition DiskCacheIsVersion :: "DISK_CACHE_KEY \<Rightarrow> FILE_BUFFER \<Rightarrow> bool" where
  "DiskCacheIsVersion key fb \<longleftrightarrow>
     HasVersion fb \<and> VersionSize fb = Key_Size key \<and> VersionTime fb = Key_ModifiedTime key"

section \<open>Fills\<close>

definition DiskCacheUnchargeFill :: "DISK_CACHE \<Rightarrow> DISK_CACHE" where
  "DiskCacheUnchargeFill dc = dc\<lparr>FillBytes := FillBytes dc - int DISK_CACHE_BLOCK_SIZE\<rparr>"

definition DiskCacheFillSettle :: "DISK_CACHE \<Rightarrow> DISK_CACHE_FILL \<Rightarrow> bool \<Rightarrow> DISK_CACHE option" where
  "DiskCacheFillSettle dc fill written = do {
     ix \<leftarrow> BlorgDiskCacheIndexCommit (Index dc) (Fill_Slot fill) written;
     Some (DiskCacheLeave (DiskCacheUnchargeFill (dc\<lparr>Index := ix\<rparr>)))
   }"

definition DiskCacheFillDone ::
  "DISK_CACHE \<Rightarrow> DISK_CACHE_FILL \<Rightarrow> NTSTATUS \<Rightarrow> nat \<Rightarrow> DISK_CACHE option" where
  "DiskCacheFillDone dc fill status information =
     (let written = (NT_SUCCESS status \<and> information = DISK_CACHE_BLOCK_SIZE)
      in DiskCacheFillSettle (if \<not> written then DiskCacheLost dc else dc) fill written)"

text \<open>
  One pass of the worker's loop. \<open>sent\<close> tells whether the write could be issued; the fill it
  then sent is returned. Outside the loop's \<open>break\<close> the worker goes on.
\<close>

datatype worker_step = WorkerDone DISK_CACHE | WorkerSent DISK_CACHE DISK_CACHE_FILL | WorkerGaveUp DISK_CACHE

definition DiskCacheFillWorker :: "DISK_CACHE \<Rightarrow> bool \<Rightarrow> worker_step option" where
  "DiskCacheFillWorker dc sent =
     (case Fills dc of
        [] \<Rightarrow> Some (WorkerDone (DiskCacheLeave (dc\<lparr>FillWorkerQueued := False\<rparr>)))
      | fill # rest \<Rightarrow>
          let dc1 = dc\<lparr>Fills := rest\<rparr> in
          if \<not> Live dc1 \<or> \<not> sent
          then map_option WorkerGaveUp (DiskCacheFillSettle dc1 fill False)
          else Some (WorkerSent dc1 fill))"

fun settle_all :: "DISK_CACHE \<Rightarrow> DISK_CACHE_FILL list \<Rightarrow> DISK_CACHE option" where
  "settle_all dc [] = Some dc"
| "settle_all dc (fill # fills) = do { dc1 \<leftarrow> DiskCacheFillSettle dc fill False; settle_all dc1 fills }"

text \<open>\<open>workItem\<close> tells whether a work item could be allocated.\<close>

definition DiskCacheQueueFill :: "DISK_CACHE \<Rightarrow> DISK_CACHE_FILL \<Rightarrow> bool \<Rightarrow> DISK_CACHE option" where
  "DiskCacheQueueFill dc fill workItem =
     (let start = (\<not> FillWorkerQueued dc);
          dc1 = dc\<lparr>Fills := Fills dc @ [fill], FillWorkerQueued := True\<rparr>
      in if \<not> start then Some dc1
         else if workItem then Some (dc1\<lparr>Busy := Busy dc1 + 1\<rparr>)
         else settle_all (dc1\<lparr>Fills := [], FillWorkerQueued := False\<rparr>) (Fills dc1))"

text \<open>The copy of one block: the bytes of the body, zeros from end of file to the block's end.\<close>

definition fill_bytes :: "UCHAR list \<Rightarrow> nat \<Rightarrow> nat \<Rightarrow> nat \<Rightarrow> UCHAR list" where
  "fill_bytes source offset start stop =
     take (stop - start) (drop (start - offset) source) @ replicate (DISK_CACHE_BLOCK_SIZE - (stop - start)) 0"

text \<open>
  The body of the loop in \<open>DiskCacheFill\<close> past its exit test, for the block \<open>key\<close> names, which
  is bytes \<open>start\<close> to \<open>stop\<close> of the file. The flag returned is whether the loop goes on.
  \<open>allocated\<close> tells whether the copy, its buffer and its MDL could all be allocated.
\<close>

definition fill_block ::
  "DISK_CACHE \<Rightarrow> DISK_CACHE_KEY \<Rightarrow> UCHAR list \<Rightarrow> nat \<Rightarrow> nat \<Rightarrow> nat \<Rightarrow> bool \<Rightarrow> bool
     \<Rightarrow> (bool \<times> DISK_CACHE) option" where
  "fill_block dc key source offset start stop allocated workItem =
     (let dc1 = dc\<lparr>FillBytes := FillBytes dc + int DISK_CACHE_BLOCK_SIZE\<rparr> in
      if FillBytes dc1 > DISK_CACHE_FILL_BACKLOG then Some (False, DiskCacheUnchargeFill dc1)
      else (case DiskCacheEnter dc1 of (entered, dc2) \<Rightarrow>
        if \<not> entered then Some (False, DiskCacheUnchargeFill dc2)
        else do {
          (admit, so, ix) \<leftarrow> BlorgDiskCacheIndexReserve (Index dc2) key;
          let dc3 = dc2\<lparr>Index := ix\<rparr>;
          (if admit \<noteq> DiskCacheReserved
           then Some (True, DiskCacheLeave (DiskCacheUnchargeFill dc3))
           else do {
             slot \<leftarrow> so;
             (if \<not> allocated
              then do {
                ix1 \<leftarrow> BlorgDiskCacheIndexCommit (Index dc3) slot False;
                Some (False, DiskCacheLeave (DiskCacheUnchargeFill (dc3\<lparr>Index := ix1\<rparr>)))
              }
              else do {
                dc4 \<leftarrow> DiskCacheQueueFill dc3
                  \<lparr>Fill_Buffer = fill_bytes source offset start stop, Fill_Slot = slot\<rparr> workItem;
                Some (True, dc4)
              })
           })
        }))"

definition block_start :: "nat \<Rightarrow> nat" where
  "block_start b = b * DISK_CACHE_BLOCK_SIZE"

definition block_stop :: "DISK_CACHE_KEY \<Rightarrow> nat \<Rightarrow> nat" where
  "block_stop key b = min (block_start b + DISK_CACHE_BLOCK_SIZE) (unat (Key_Size key))"

lemma block_size_pos [simp]: "0 < DISK_CACHE_BLOCK_SIZE"
  by (simp add: DISK_CACHE_BLOCK_SIZE_def)

function fill_loop ::
  "(nat \<Rightarrow> bool) \<Rightarrow> (nat \<Rightarrow> bool) \<Rightarrow> UCHAR list \<Rightarrow> nat \<Rightarrow> nat \<Rightarrow> DISK_CACHE_KEY \<Rightarrow> nat
     \<Rightarrow> DISK_CACHE \<Rightarrow> DISK_CACHE option" where
  "fill_loop allocated workItem source offset end key b dc =
     (if block_start b \<ge> block_stop key b \<or> block_stop key b > end then Some dc
      else do {
        (more, dc1) \<leftarrow> fill_block dc (key\<lparr>Key_Block := of_nat b\<rparr>) source offset
          (block_start b) (block_stop key b) (allocated b) (workItem b);
        (if more then fill_loop allocated workItem source offset end key (Suc b) dc1 else Some dc1)
      })"
  by pat_completeness auto
termination
  by (relation "measure (\<lambda>(_, _, _, _, end, _, b, _). end - block_start b)")
     (auto simp: block_start_def block_stop_def intro!: diff_less_mono2)

declare fill_loop.simps [simp del]

definition DiskCacheFill ::
  "(nat \<Rightarrow> bool) \<Rightarrow> (nat \<Rightarrow> bool) \<Rightarrow> DISK_CACHE \<Rightarrow> DISK_CACHE_KEY \<Rightarrow> UCHAR list option \<Rightarrow> nat \<Rightarrow> nat
     \<Rightarrow> DISK_CACHE option" where
  "DiskCacheFill allocated workItem dc key source offset len =
     (case source of
        None \<Rightarrow> Some dc
      | Some src \<Rightarrow>
          if len = 0 \<or> offset > unat (Key_Size key) \<or> len > unat (Key_Size key) - offset then Some dc
          else fill_loop allocated workItem src offset (offset + len) key
                 ((offset + DISK_CACHE_BLOCK_SIZE - 1) div DISK_CACHE_BLOCK_SIZE) dc)"

definition BlorgDiskCacheAdmit ::
  "(nat \<Rightarrow> bool) \<Rightarrow> (nat \<Rightarrow> bool) \<Rightarrow> DISK_CACHE \<Rightarrow> NON_PAGED_NODE_DISK \<Rightarrow> FILE_BUFFER \<Rightarrow> nat \<Rightarrow> nat
     \<Rightarrow> (bool \<times> DISK_CACHE) option" where
  "BlorgDiskCacheAdmit allocated workItem dc node fb offset len =
     (if \<not> Live dc \<or> BodyBuffer fb = None \<or> len = 0 then Some (True, dc)
      else (case DiskCacheKeyOf node of
          None \<Rightarrow> Some (True, dc)
        | Some key \<Rightarrow>
            if \<not> DiskCacheIsVersion key fb then Some (False, dc)
            else map_option (Pair True) (DiskCacheFill allocated workItem dc key (BodyBuffer fb) offset len)))"

section \<open>Reads\<close>

text \<open>The inner loop of the issuing loop: how many blocks from \<open>i\<close> on go into one part.\<close>

function read_run :: "ULONG list \<Rightarrow> nat \<Rightarrow> nat \<Rightarrow> nat" where
  "read_run slots i run =
     (if i + run < length slots \<and>
         (if slots ! i = DISK_CACHE_NO_SLOT then slots ! (i + run) = DISK_CACHE_NO_SLOT
          else slots ! (i + run) = slots ! i + of_nat run)
      then read_run slots i (Suc run) else run)"
  by pat_completeness auto
termination by (relation "measure (\<lambda>(slots, i, run). length slots - (i + run))") auto

declare read_run.simps [simp del]

text \<open>
  How starting a part went: it is in flight, a mapping, MDL or fetch record could not be had, or
  the IRP or the fetch was refused. \<open>Fetches\<close> has room for \<open>DISK_CACHE_MAX_READ_FETCHES\<close>.
\<close>

datatype part_start = PartStarted | PartNoMemory | PartRefused

definition DiskCacheReadPart ::
  "DISK_CACHE_READ \<Rightarrow> nat \<Rightarrow> nat \<Rightarrow> ULONG \<Rightarrow> part_start
     \<Rightarrow> (bool \<times> DISK_CACHE_READ \<times> read_part list) option" where
  "DiskCacheReadPart read at len slot start =
     (if slot = DISK_CACHE_NO_SLOT
      then if start = PartNoMemory then Some (False, read, [])
        else if FetchCount read \<ge> DISK_CACHE_MAX_READ_FETCHES then None
        else let read1 = read\<lparr>FetchCount := FetchCount read + 1, Outstanding := Outstanding read + 1\<rparr>
          in if start = PartStarted then Some (True, read1, [FetchPart at len])
             else Some (False, read1\<lparr>Outstanding := Outstanding read1 - 1\<rparr>, [])
      else if start = PartNoMemory then Some (False, read, [])
        else let read1 = read\<lparr>Outstanding := Outstanding read + 1\<rparr>;
            diskOffset = unat slot * DISK_CACHE_BLOCK_SIZE + at mod DISK_CACHE_BLOCK_SIZE
          in if start = PartStarted then Some (True, read1, [DiskPart at len diskOffset])
             else Some (False, read1\<lparr>Outstanding := Outstanding read1 - 1\<rparr>, []))"

text \<open>
  The issuing loop; the flag returned is false when the very first part could not be started.
  \<open>start\<close> gives, for the offset a part begins at, how starting it went.
\<close>

partial_function (option) issue_loop ::
  "(nat \<Rightarrow> part_start) \<Rightarrow> nat \<Rightarrow> nat \<Rightarrow> nat \<Rightarrow> DISK_CACHE_READ \<Rightarrow> read_part list
     \<Rightarrow> (bool \<times> DISK_CACHE_READ \<times> read_part list) option" where
  [code]: "issue_loop start span first issued read parts =
     (if issued < span
      then let at = Read_Offset read + issued;
               i = at div DISK_CACHE_BLOCK_SIZE - first;
               slot = Read_Slots read ! i;
               run = read_run (Read_Slots read) i 1;
               runEnd = (first + i + run) * DISK_CACHE_BLOCK_SIZE;
               stop = (if slot = DISK_CACHE_NO_SLOT then Read_Valid read else span);
               len = min (runEnd - at) (stop - issued)
        in if length (Read_Slots read) \<le> i \<or> stop < issued then None
        else do {
          (ok, read1, new) \<leftarrow> DiskCacheReadPart read at len slot (start issued);
          (if \<not> ok
           then Some (if issued = 0 then (False, read1, parts)
             else (True, read1\<lparr>Refetch := Refetch read1 OR DISK_CACHE_READ_UNSTARTED\<rparr>, parts))
           else
             let read2 = read1\<lparr>Span := Span read1 + len,
                   DiskSpan := (if slot \<noteq> DISK_CACHE_NO_SLOT \<and> issued < Read_Valid read
                     then DiskSpan read1 + min len (Read_Valid read - issued) else DiskSpan read1)\<rparr>
             in if slot = DISK_CACHE_NO_SLOT \<and> stop = issued + len then Some (True, read2, parts @ new)
                else issue_loop start span first (issued + len) read2 (parts @ new))
        }
      else Some (True, read, parts))"

fun runs_to_fetch :: "ULONG list \<Rightarrow> nat \<Rightarrow> nat \<Rightarrow> nat \<Rightarrow> nat" where
  "runs_to_fetch slots i 0 runs = runs"
| "runs_to_fetch slots i (Suc left) runs =
     (if runs < DISK_CACHE_MAX_READ_FETCHES
      then runs_to_fetch slots (Suc i) left
        (if slots ! i = DISK_CACHE_NO_SLOT \<and> (i = 0 \<or> slots ! (i - 1) \<noteq> DISK_CACHE_NO_SLOT)
         then Suc runs else runs)
      else runs)"

definition DiskCacheRunsToFetch :: "ULONG list \<Rightarrow> nat" where
  "DiskCacheRunsToFetch slots = runs_to_fetch slots 0 (length slots) 0"

definition page_round :: "ULONG \<Rightarrow> ULONG" where
  "page_round v = (v + (PAGE_SIZE - 1)) AND NOT (PAGE_SIZE - 1)"

text \<open>The guards of a read, in the order of the source; \<open>mdl\<close> is the byte offset of its MDL.\<close>

definition read_refused :: "DISK_CACHE \<Rightarrow> DISK_CACHE_KEY \<Rightarrow> nat option \<Rightarrow> ULONG64 \<Rightarrow> ULONG \<Rightarrow> ULONG \<Rightarrow> bool" where
  "read_refused dc key mdl offset len valid \<longleftrightarrow>
     \<not> Live dc \<or> mdl = None \<or> valid = 0 \<or> valid > len \<or> offset \<ge> Key_Size key \<or>
     ucast valid > Key_Size key - offset \<or>
     (offset OR ucast len) AND ucast (PAGE_SIZE - 1) \<noteq> 0 \<or> mdl \<noteq> Some 0"

text \<open>
  What a call of \<open>BlorgDiskCacheRead\<close> leaves: \<open>NotServed\<close> with the runs written to
  \<open>*Fetches\<close>, or the read with its parts in flight, the issuer's own hold still to be dropped by
  the \<open>DiskCacheReadSettle\<close> the call ends with (parts may complete before it).
\<close>

datatype read_start =
    NotServed nat DISK_CACHE
  | Served nat DISK_CACHE DISK_CACHE_READ "read_part list"

definition not_served :: "nat \<Rightarrow> DISK_CACHE \<Rightarrow> ULONG list \<Rightarrow> read_start option" where
  "not_served fetches dc slots = do {
     ix \<leftarrow> BlorgDiskCacheIndexUnpin (Index dc) slots False;
     Some (NotServed fetches (DiskCacheLeave (dc\<lparr>Index := ix\<rparr>)))
   }"

definition start_read ::
  "(nat \<Rightarrow> part_start) \<Rightarrow> DISK_CACHE \<Rightarrow> DISK_CACHE_KEY \<Rightarrow> nat \<Rightarrow> nat \<Rightarrow> nat \<Rightarrow> nat \<Rightarrow> ULONG list
     \<Rightarrow> read_start option" where
  "start_read start dc key offset valid span first slots = do {
     let read = \<lparr>Read_Key = key, Read_Offset = offset, Outstanding = 1, Read_Status = STATUS_SUCCESS,
       Bytes = 0, Span = 0, DiskSpan = 0, Read_Valid = valid, FetchCount = 0, Refetch = 0,
       Read_Slots = slots\<rparr>;
     (going, read1, parts) \<leftarrow> issue_loop start span first 0 read [];
     (if \<not> going then not_served 0 dc slots
      else Some (Served (FetchCount read1) dc read1 parts))
   }"

definition serve_pinned ::
  "(nat \<Rightarrow> part_start) \<Rightarrow> DISK_CACHE \<Rightarrow> DISK_CACHE_KEY \<Rightarrow> nat \<Rightarrow> nat \<Rightarrow> nat \<Rightarrow> nat \<Rightarrow> ULONG \<Rightarrow> nat
     \<Rightarrow> ULONG \<Rightarrow> ULONG list \<Rightarrow> read_start option" where
  "serve_pinned start dc key offset valid span first blocks allowed held slots =
     (if held = 0 then not_served 0 dc slots
      else if allowed = 0 \<and> held \<noteq> blocks then not_served (DiskCacheRunsToFetch slots) dc slots
      else do {
        (served, slots1, ix) \<leftarrow> BlorgDiskCacheIndexPlanRead (Index dc) slots held allowed;
        (if served = 0 then not_served 0 (dc\<lparr>Index := ix\<rparr>) slots1
         else start_read start (dc\<lparr>Index := ix\<rparr>) key offset valid span first slots1)
      })"

definition BlorgDiskCacheRead ::
  "(nat \<Rightarrow> part_start) \<Rightarrow> bool \<Rightarrow> DISK_CACHE \<Rightarrow> DISK_CACHE_KEY \<Rightarrow> nat option \<Rightarrow> ULONG64 \<Rightarrow> ULONG
     \<Rightarrow> ULONG \<Rightarrow> nat \<Rightarrow> read_start option" where
  "BlorgDiskCacheRead start allocated dc key mdl offset len valid allowed =
     (if read_refused dc key mdl offset len valid then Some (NotServed 0 dc)
      else
        let span = page_round valid;
            first = drop_bit DISK_CACHE_BLOCK_SHIFT offset;
            last = drop_bit DISK_CACHE_BLOCK_SHIFT (offset + ucast span - 1);
            blocks = ucast (last - first + 1) :: ULONG
        in if blocks > DISK_CACHE_MAX_READ_BLOCKS then Some (NotServed 0 dc)
        else (case DiskCacheEnter dc of (entered, dc1) \<Rightarrow>
          if \<not> entered then Some (NotServed 0 dc1)
          else if \<not> allocated then Some (NotServed 0 (DiskCacheLeave dc1))
          else do {
            (held, slots, ix) \<leftarrow> BlorgDiskCacheIndexPinHeld (Index dc1) (key\<lparr>Key_Block := first\<rparr>) last;
            serve_pinned start (dc1\<lparr>Index := ix\<rparr>) (key\<lparr>Key_Block := first\<rparr>) (unat offset) (unat valid)
              (unat span) (unat first) blocks allowed held slots
          }))"

text \<open>The end of a part, and of the read with its last one.\<close>

definition settle_refetch :: "DISK_CACHE_READ \<Rightarrow> ULONG" where
  "settle_refetch read =
     (if NT_SUCCESS (Read_Status read) \<and> Refetch read = 0 \<and> Bytes read \<noteq> int (Span read)
      then Refetch read OR DISK_CACHE_READ_FAILED else Refetch read)"

definition settle_status :: "DISK_CACHE_READ \<Rightarrow> NTSTATUS" where
  "settle_status read = (if settle_refetch read \<noteq> 0 then STATUS_UNEXPECTED_IO_ERROR else Read_Status read)"

definition DiskCacheReadSettle ::
  "DISK_CACHE \<Rightarrow> DISK_CACHE_READ \<Rightarrow> (DISK_CACHE \<times> DISK_CACHE_READ \<times> READ_OUTCOME option) option" where
  "DiskCacheReadSettle dc read =
     (if Outstanding read - 1 \<noteq> 0 then Some (dc, read\<lparr>Outstanding := Outstanding read - 1\<rparr>, None)
      else do {
        ix \<leftarrow> BlorgDiskCacheIndexUnpin (Index dc) (Read_Slots read) (NT_SUCCESS (settle_status read));
        Some (DiskCacheLeave (dc\<lparr>Index := ix\<rparr>), read\<lparr>Outstanding := Outstanding read - 1\<rparr>,
          Some \<lparr>Out_Status = settle_status read, Out_Valid = Read_Valid read,
            Out_Fetches = FetchCount read, Out_Refetch = (settle_refetch read \<noteq> 0)\<rparr>)
      })"

definition DiskCacheReadDone ::
  "DISK_CACHE \<Rightarrow> DISK_CACHE_READ \<Rightarrow> NTSTATUS \<Rightarrow> nat
     \<Rightarrow> (DISK_CACHE \<times> DISK_CACHE_READ \<times> READ_OUTCOME option) option" where
  "DiskCacheReadDone dc read status information =
     (if NT_SUCCESS status
      then DiskCacheReadSettle dc (read\<lparr>Bytes := Bytes read + int information\<rparr>)
      else DiskCacheReadSettle (DiskCacheLost dc)
             (read\<lparr>Refetch := Refetch read OR DISK_CACHE_READ_FAILED\<rparr>))"

text \<open>
  The completion of a fetched run. The bytes it copies into the read's pages are returned beside
  the rest, empty when it copies nothing. A copy of more bytes than the body has is undefined.
\<close>

definition DiskCacheReadFetched ::
  "(nat \<Rightarrow> bool) \<Rightarrow> (nat \<Rightarrow> bool) \<Rightarrow> DISK_CACHE \<Rightarrow> DISK_CACHE_READ \<Rightarrow> nat \<Rightarrow> nat \<Rightarrow> NTSTATUS \<Rightarrow> FILE_BUFFER
     \<Rightarrow> (UCHAR list \<times> DISK_CACHE \<times> DISK_CACHE_READ \<times> READ_OUTCOME option) option" where
  "DiskCacheReadFetched allocated workItem dc read at len status fb =
     (if NT_SUCCESS status
      then let received = min (BodyBufferSize fb) len in
        if DiskCacheIsVersion (Read_Key read) fb
        then do {
          body \<leftarrow> BodyBuffer fb;
          (if length body < received then None
           else do {
             dc1 \<leftarrow> DiskCacheFill allocated workItem dc (Read_Key read) (Some body) at received;
             r \<leftarrow> DiskCacheReadSettle dc1 (read\<lparr>Bytes := Bytes read + int received\<rparr>);
             Some (take received body, r)
           })
        }
        else do {
          r \<leftarrow> DiskCacheReadSettle dc (read\<lparr>Refetch := Refetch read OR DISK_CACHE_READ_STALE\<rparr>);
          Some ([], r)
        }
      else do {
        r \<leftarrow> DiskCacheReadSettle dc
          (if Read_Status read = STATUS_SUCCESS then read\<lparr>Read_Status := status\<rparr> else read);
        Some ([], r)
      })"

section \<open>Creation and teardown\<close>

definition DiskCacheCreateParent :: "UNICODE_STRING \<Rightarrow> UNICODE_STRING option" where
  "DiskCacheCreateParent path =
     (let upto = rev (dropWhile (\<lambda>c. c \<noteq> backslash) (rev path))
      in if byte_length upto \<le> 2 then None else Some (butlast upto))"

definition disk_cache_off :: "DISK_CACHE_INDEX \<Rightarrow> DISK_CACHE" where
  "disk_cache_off ix = \<lparr>Index = ix, Fills = [], FillWorkerQueued = False, FillBytes = 0, Live = False,
     Busy = 0, Idle = False\<rparr>"

text \<open>
  Initialization. \<open>parent\<close>, \<open>opened\<close> and \<open>prepared\<close> are the statuses of creating the directory,
  of opening the file, and of sizing and referencing it; \<open>ownVolume\<close> tells whether the file is
  on this driver's own volume.
\<close>

definition BlorgDiskCacheInitialize ::
  "ULONG \<Rightarrow> bool \<Rightarrow> NTSTATUS \<Rightarrow> NTSTATUS \<Rightarrow> NTSTATUS \<Rightarrow> bool \<Rightarrow> (NTSTATUS \<times> DISK_CACHE) option" where
  "BlorgDiskCacheInitialize sizeMb allocated parent opened prepared ownVolume =
     (if sizeMb = 0 then Some (STATUS_SUCCESS, disk_cache_off empty_index)
      else do {
        let mb = (if sizeMb > of_nat DISK_CACHE_MAX_MB then of_nat DISK_CACHE_MAX_MB else sizeMb);
        let slotCount = push_bit (20 - DISK_CACHE_BLOCK_SHIFT) mb;
        (status, ix) \<leftarrow> BlorgDiskCacheIndexInitialize slotCount allocated;
        let status1 = (if NT_SUCCESS status then parent else status);
        let status2 = (if NT_SUCCESS status1 then opened else status1);
        (if \<not> NT_SUCCESS status2
         then Some (status2, disk_cache_off (BlorgDiskCacheIndexCleanup ix))
         else
           let status3 = (if NT_SUCCESS prepared \<and> ownVolume then STATUS_INVALID_PARAMETER else prepared)
           in if \<not> NT_SUCCESS status3
              then Some (status3, disk_cache_off (BlorgDiskCacheIndexCleanup ix))
              else Some (STATUS_SUCCESS, (disk_cache_off ix)\<lparr>Busy := 1, Live := True\<rparr>))
      })"

text \<open>Cleanup up to its wait for \<open>Idle\<close>, in the two steps others can run between.\<close>

definition cleanup_clear :: "DISK_CACHE \<Rightarrow> DISK_CACHE" where
  "cleanup_clear dc = dc\<lparr>Live := False\<rparr>"

definition cleanup_drop :: "DISK_CACHE \<Rightarrow> DISK_CACHE" where
  "cleanup_drop dc = DiskCacheLeave dc"

definition cleanup_close :: "DISK_CACHE \<Rightarrow> DISK_CACHE" where
  "cleanup_close dc = dc\<lparr>Index := BlorgDiskCacheIndexCleanup (Index dc)\<rparr>"

definition BlorgDiskCacheLive :: "DISK_CACHE \<Rightarrow> bool" where
  "BlorgDiskCacheLive dc = Live dc"

definition DiskCacheBlocksLeft :: "nat \<Rightarrow> nat \<Rightarrow> nat \<Rightarrow> nat" where
  "DiskCacheBlocksLeft block end sz =
     (let whole = end div DISK_CACHE_BLOCK_SIZE - block
      in if end = sz \<and> end mod DISK_CACHE_BLOCK_SIZE \<noteq> 0 then whole + 1 else whole)"

end
