(* ===== verification/Disk_Cache_Store.thy ===== *)
theory Disk_Cache_Store
  imports Disk_Cache_Plan Disk_Cache
begin

text \<open>
  The contract between the two halves of the disk cache. The locale \<open>slot_store\<close> states what
  DiskCache.c relies on of the index: a reservation hands out a slot nobody holds, a commit makes
  it servable under the key it was reserved for, a pin names slots that hold the blocks asked
  for, and nothing moves a slot while it is pinned. From these laws alone follows what the
  I/O side needs: the bytes of a servable slot stay those of its key through every operation.
  The locale is interpreted on the operations of \<open>Disk_Cache_Index\<close>.
\<close>

type_synonym slot_view = "ULONG \<Rightarrow> (DISK_CACHE_KEY \<times> DISK_CACHE_SLOT_STATE \<times> int) option"

definition moved :: "slot_view \<Rightarrow> (ULONG \<Rightarrow> int) \<Rightarrow> slot_view" where
  "moved v d = (\<lambda>s. map_option (\<lambda>(k, st, p). (k, st, p + d s)) (v s))"

lemma moved_Some:
  "moved v d s = Some (k, st, p) \<longleftrightarrow> (\<exists>q. v s = Some (k, st, q) \<and> p = q + d s)"
  by (auto simp: moved_def)

text \<open>What a caller may give back: pins of servable slots that it really holds.\<close>

definition holds :: "slot_view \<Rightarrow> ULONG list \<Rightarrow> bool" where
  "holds v ss \<longleftrightarrow> (\<forall>s. 0 < pin_count ss s \<longrightarrow>
     (\<exists>k p. v s = Some (k, DiskCacheSlotValid, p) \<and> pin_count ss s \<le> p))"

text \<open>Where the blocks of a read are: each named slot holds its block and can serve it.\<close>

definition names_blocks :: "slot_view \<Rightarrow> DISK_CACHE_KEY \<Rightarrow> ULONG list \<Rightarrow> bool" where
  "names_blocks v k ss \<longleftrightarrow> (\<forall>i < length ss. ss ! i \<noteq> DISK_CACHE_NO_SLOT \<longrightarrow>
     (\<exists>p. v (ss ! i) = Some (block_key k i, DiskCacheSlotValid, p)))"

type_synonym active_read = "DISK_CACHE_KEY \<times> ULONG list"

definition read_pins :: "active_read list \<Rightarrow> ULONG \<Rightarrow> int" where
  "read_pins reads s = sum_list (map (\<lambda>r. pin_count (snd r) s) reads)"

lemma pin_count_pos: "s \<in> set ss \<Longrightarrow> s \<noteq> DISK_CACHE_NO_SLOT \<Longrightarrow> 1 \<le> pin_count ss s"
  using count_list_0_iff[of ss s] by (cases "count_list ss s") (auto simp: pin_count_def)

lemma read_pins_mem: "r \<in> set reads \<Longrightarrow> pin_count (snd r) s \<le> read_pins reads s"
  unfolding read_pins_def
proof (induction reads)
  case (Cons a reads)
  have "0 \<le> sum_list (map (\<lambda>r. pin_count (snd r) s) reads)"
    by (rule sum_list_nonneg) (auto simp: pin_count_nonneg)
  then show ?case using Cons pin_count_nonneg[of "snd a" s] by (cases "r = a") auto
qed simp

lemma read_pins_split:
  "read_pins (as @ r # bs) s = pin_count (snd r) s + read_pins (as @ bs) s"
  by (simp add: read_pins_def)

lemma names_blocks_upd:
  assumes "names_blocks v k ss" "\<And>i. i < length ss \<Longrightarrow> ss ! i \<noteq> DISK_CACHE_NO_SLOT \<Longrightarrow> ss ! i \<noteq> s"
  shows "names_blocks (v(s \<mapsto> e)) k ss"
  using assms by (auto simp: names_blocks_def)

lemma names_blocks_moved: "names_blocks (moved v d) k ss \<longleftrightarrow> names_blocks v k ss"
  by (auto simp: names_blocks_def moved_Some)

locale slot_store =
  fixes inv :: "'ix \<Rightarrow> bool"
    and view :: "'ix \<Rightarrow> slot_view"
    and reserve :: "'ix \<Rightarrow> DISK_CACHE_KEY \<Rightarrow> (DISK_CACHE_ADMIT \<times> ULONG option \<times> 'ix) option"
    and commit :: "'ix \<Rightarrow> ULONG \<Rightarrow> bool \<Rightarrow> 'ix option"
    and pin :: "'ix \<Rightarrow> DISK_CACHE_KEY \<Rightarrow> ULONG64 \<Rightarrow> (ULONG \<times> ULONG list \<times> 'ix) option"
    and unpin :: "'ix \<Rightarrow> ULONG list \<Rightarrow> bool \<Rightarrow> 'ix option"
    and plan :: "'ix \<Rightarrow> ULONG list \<Rightarrow> ULONG \<Rightarrow> nat \<Rightarrow> (ULONG \<times> ULONG list \<times> 'ix) option"
  assumes filling_pin: "inv ix \<Longrightarrow> view ix s = Some (k, DiskCacheSlotFilling, p) \<Longrightarrow> p = 1"
    and no_slot: "inv ix \<Longrightarrow> view ix DISK_CACHE_NO_SLOT = None"
    and reserve_law: "inv ix \<Longrightarrow> \<exists>a so ix'. reserve ix k = Some (a, so, ix') \<and> inv ix' \<and>
      (if a = DiskCacheReserved
       then \<exists>s k0 st0. so = Some s \<and> view ix s = Some (k0, st0, 0) \<and>
         view ix' = (view ix)(s \<mapsto> (k, DiskCacheSlotFilling, 1))
       else view ix' = view ix)"
    and commit_law: "inv ix \<Longrightarrow> view ix s = Some (k, DiskCacheSlotFilling, p) \<Longrightarrow>
      \<exists>ix' k'. commit ix s w = Some ix' \<and> inv ix' \<and> (w \<longrightarrow> k' = k) \<and>
        view ix' = (view ix)(s \<mapsto> (k', if w then DiskCacheSlotValid else DiskCacheSlotFree, 0))"
    and pin_law: "inv ix \<Longrightarrow> Key_Block k \<le> hi \<Longrightarrow> unat hi < 2 ^ 64 - 1 \<Longrightarrow>
      \<exists>ss ix'. pin ix k hi = Some (of_nat (length (held ss)), ss, ix') \<and> inv ix' \<and>
        length ss = Suc (unat hi) - unat (Key_Block k) \<and> names_blocks (view ix) k ss \<and>
        view ix' = moved (view ix) (pin_count ss)"
    and unpin_law: "inv ix \<Longrightarrow> holds (view ix) ss \<Longrightarrow>
      \<exists>ix'. unpin ix ss served = Some ix' \<and> inv ix' \<and> view ix' = moved (view ix) (\<lambda>s. - pin_count ss s)"
    and plan_law: "inv ix \<Longrightarrow> holds (view ix) ss \<Longrightarrow> length ss \<le> MAXULONG \<Longrightarrow> 0 < m \<or> runs ss = 0 \<Longrightarrow>
      \<exists>ss' ix'. plan ix ss (of_nat (length (held ss))) m = Some (of_nat (length (held ss')), ss', ix') \<and>
        inv ix' \<and> length ss' = length ss \<and> runs ss' = min (runs ss) m \<and>
        (\<forall>i < length ss. ss' ! i = ss ! i \<or> ss' ! i = DISK_CACHE_NO_SLOT) \<and>
        view ix' = moved (view ix) (\<lambda>s. pin_count ss' s - pin_count ss s)"
begin

text \<open>
  The state of the whole cache seen through the contract: \<open>disk\<close> gives the bytes of each slot,
  \<open>good\<close> the bytes a block is meant to hold, \<open>fills\<close> the copies on their way in, \<open>reads\<close> the
  reads in flight.
\<close>

definition store_ok ::
  "(DISK_CACHE_KEY \<Rightarrow> UCHAR list) \<Rightarrow> 'ix \<Rightarrow> (ULONG \<Rightarrow> UCHAR list) \<Rightarrow> DISK_CACHE_FILL list \<Rightarrow>
     active_read list \<Rightarrow> bool" where
  "store_ok good ix disk fills reads \<longleftrightarrow> inv ix \<and>
     (\<forall>s k p. view ix s = Some (k, DiskCacheSlotValid, p) \<longrightarrow> disk s = good k) \<and>
     distinct (map Fill_Slot fills) \<and>
     (\<forall>f \<in> set fills. \<exists>k p. view ix (Fill_Slot f) = Some (k, DiskCacheSlotFilling, p) \<and>
        Fill_Buffer f = good k) \<and>
     (\<forall>r \<in> set reads. names_blocks (view ix) (fst r) (snd r)) \<and>
     (\<forall>s k p. view ix s = Some (k, DiskCacheSlotValid, p) \<longrightarrow> read_pins reads s \<le> p)"

lemma store_okD:
  assumes "store_ok good ix disk fills reads"
  shows "inv ix" "view ix s = Some (k, DiskCacheSlotValid, p) \<Longrightarrow> disk s = good k"
    "distinct (map Fill_Slot fills)"
    "f \<in> set fills \<Longrightarrow> \<exists>k p. view ix (Fill_Slot f) = Some (k, DiskCacheSlotFilling, p) \<and> Fill_Buffer f = good k"
    "r \<in> set reads \<Longrightarrow> names_blocks (view ix) (fst r) (snd r)"
    "view ix s = Some (k, DiskCacheSlotValid, p) \<Longrightarrow> read_pins reads s \<le> p"
  using assms unfolding store_ok_def by blast+

text \<open>A slot named by a read in flight is servable and pinned.\<close>

lemma read_slot_pinned:
  assumes ok: "store_ok good ix disk fills reads" and r: "r \<in> set reads"
    and i: "i < length (snd r)" "snd r ! i \<noteq> DISK_CACHE_NO_SLOT"
  shows "\<exists>p. view ix (snd r ! i) = Some (block_key (fst r) i, DiskCacheSlotValid, p) \<and> 1 \<le> p"
proof -
  obtain p where v: "view ix (snd r ! i) = Some (block_key (fst r) i, DiskCacheSlotValid, p)"
    using store_okD(5)[OF ok r] i by (auto simp: names_blocks_def)
  have "1 \<le> pin_count (snd r) (snd r ! i)" using i by (intro pin_count_pos) auto
  then have "1 \<le> p" using read_pins_mem[OF r] store_okD(6)[OF ok v] by (meson order.trans)
  then show ?thesis using v by blast
qed

lemma served_bytes:
  assumes "store_ok good ix disk fills reads" "r \<in> set reads" "i < length (snd r)"
    "snd r ! i \<noteq> DISK_CACHE_NO_SLOT"
  shows "disk (snd r ! i) = good (block_key (fst r) i)"
  using read_slot_pinned[OF assms] store_okD(2)[OF assms(1)] by blast

text \<open>A change of one slot that no read in flight names.\<close>

lemma store_ok_upd:
  assumes ok: "store_ok good ix disk fills reads" and inv': "inv ix'"
    and v: "view ix' = (view ix)(s \<mapsto> (k, st, p))"
    and free: "\<nexists>k p. view ix s = Some (k, DiskCacheSlotValid, p) \<and> 1 \<le> p"
    and valid: "st = DiskCacheSlotValid \<Longrightarrow> disk' s = good k \<and> read_pins reads s \<le> p"
    and disk: "\<And>t. t \<noteq> s \<Longrightarrow> disk' t = disk t"
    and fills: "distinct (map Fill_Slot fills')"
      "\<And>f. f \<in> set fills' \<Longrightarrow> (f \<in> set fills \<and> Fill_Slot f \<noteq> s) \<or>
         (Fill_Slot f = s \<and> st = DiskCacheSlotFilling \<and> Fill_Buffer f = good k)"
  shows "store_ok good ix' disk' fills' reads"
  unfolding store_ok_def
proof (intro conjI allI ballI impI)
  show "disk' t = good k'" if "view ix' t = Some (k', DiskCacheSlotValid, p')" for t k' p'
    using that valid disk store_okD(2)[OF ok, of t k' p'] by (cases "t = s") (auto simp: v)
  show "read_pins reads t \<le> p'" if "view ix' t = Some (k', DiskCacheSlotValid, p')" for t k' p'
    using that valid store_okD(6)[OF ok, of t k' p'] by (cases "t = s") (auto simp: v)
  show "\<exists>k' p'. view ix' (Fill_Slot f) = Some (k', DiskCacheSlotFilling, p') \<and> Fill_Buffer f = good k'"
    if "f \<in> set fills'" for f
    using fills(2)[OF that] store_okD(4)[OF ok, of f] by (auto simp: v)
  show "names_blocks (view ix') (fst r) (snd r)" if "r \<in> set reads" for r
    unfolding v by (rule names_blocks_upd[OF store_okD(5)[OF ok that]])
      (use read_slot_pinned[OF ok that] free in metis)
qed (use inv' fills in auto)

lemma fill_reserved:
  assumes ok: "store_ok good ix disk fills reads" and r: "reserve ix k = Some (DiskCacheReserved, so, ix')"
    and b: "Fill_Buffer f = good k" "so = Some (Fill_Slot f)"
  shows "store_ok good ix' disk (f # fills) reads"
proof -
  obtain k0 st0 where s: "view ix (Fill_Slot f) = Some (k0, st0, 0)" and inv': "inv ix'"
    and v: "view ix' = (view ix)(Fill_Slot f \<mapsto> (k, DiskCacheSlotFilling, 1))"
    using reserve_law[OF store_okD(1)[OF ok], of k] r b(2) by auto
  have other: "\<forall>g \<in> set fills. Fill_Slot g \<noteq> Fill_Slot f"
    using store_okD(4)[OF ok] filling_pin[OF store_okD(1)[OF ok]] s by fastforce
  then have "Fill_Slot f \<notin> Fill_Slot ` set fills" by (metis imageE)
  with other show ?thesis
    using s b(1) store_okD(3)[OF ok] by (intro store_ok_upd[OF ok inv' v]) auto
qed

lemma reserve_refused:
  assumes ok: "store_ok good ix disk fills reads" and r: "reserve ix k = Some (a, so, ix')"
    and a: "a \<noteq> DiskCacheReserved"
  shows "store_ok good ix' disk fills reads"
proof -
  have "inv ix'" "view ix' = view ix" using reserve_law[OF store_okD(1)[OF ok], of k] r a by auto
  then show ?thesis using ok by (simp add: store_ok_def)
qed

text \<open>A fill ends: with its bytes in the slot, or given up with anything at all there.\<close>

lemma fill_committed:
  assumes ok: "store_ok good ix disk (as @ f # bs) reads"
    and w: "w \<Longrightarrow> disk' (Fill_Slot f) = Fill_Buffer f"
    and disk: "\<And>t. t \<noteq> Fill_Slot f \<Longrightarrow> disk' t = disk t"
  shows "\<exists>ix'. commit ix (Fill_Slot f) w = Some ix' \<and> store_ok good ix' disk' (as @ bs) reads"
proof -
  note inv = store_okD(1)[OF ok]
  obtain k p where s: "view ix (Fill_Slot f) = Some (k, DiskCacheSlotFilling, p)" "Fill_Buffer f = good k"
    using store_okD(4)[OF ok, of f] by auto
  obtain ix' k' where c: "commit ix (Fill_Slot f) w = Some ix'" and i: "inv ix'" "w \<longrightarrow> k' = k"
    and v: "view ix' = (view ix)(Fill_Slot f \<mapsto> (k', if w then DiskCacheSlotValid else DiskCacheSlotFree, 0))"
    using commit_law[OF inv s(1), of w] by blast
  have un: "read_pins reads (Fill_Slot f) \<le> 0"
  proof -
    have "pin_count (snd r) (Fill_Slot f) = 0" if r: "r \<in> set reads" for r
    proof (rule ccontr)
      assume "pin_count (snd r) (Fill_Slot f) \<noteq> 0"
      then have "Fill_Slot f \<in> set (snd r)" "Fill_Slot f \<noteq> DISK_CACHE_NO_SLOT"
        by (auto simp: pin_count_def count_list_0_iff split: if_splits)
      then obtain i where "i < length (snd r)" "snd r ! i = Fill_Slot f" by (auto simp: in_set_conv_nth)
      then show False
        using read_slot_pinned[OF ok r, of i] s(1) \<open>Fill_Slot f \<noteq> DISK_CACHE_NO_SLOT\<close> by auto
    qed
    then have "map (\<lambda>r. pin_count (snd r) (Fill_Slot f)) reads = map (\<lambda>_. 0) reads" by simp
    then have "sum_list (map (\<lambda>r. pin_count (snd r) (Fill_Slot f)) reads) = 0" by (simp only: sum_list_0)
    then show ?thesis by (simp add: read_pins_def)
  qed
  have "distinct (map Fill_Slot (as @ bs))" "\<forall>g \<in> set (as @ bs). Fill_Slot g \<noteq> Fill_Slot f"
    using store_okD(3)[OF ok] by (auto simp: image_iff)
  then have "store_ok good ix' disk' (as @ bs) reads"
    using s w i un by (intro store_ok_upd[OF ok i(1) v _ _ disk]) (auto split: if_splits)
  then show ?thesis using c by blast
qed

text \<open>Pins move and nothing else does.\<close>

lemma store_ok_moved:
  assumes ok: "store_ok good ix disk fills reads" and inv': "inv ix'" and v: "view ix' = moved (view ix) d"
    and names: "\<And>r. r \<in> set reads' \<Longrightarrow> names_blocks (view ix) (fst r) (snd r)"
    and pins: "\<And>s. read_pins reads' s = read_pins reads s + d s"
  shows "store_ok good ix' disk fills reads'"
  unfolding store_ok_def
proof (intro conjI allI ballI impI)
  show "disk t = good k'" if "view ix' t = Some (k', DiskCacheSlotValid, p')" for t k' p'
    using that store_okD(2)[OF ok] by (auto simp: v moved_Some)
  show "read_pins reads' t \<le> p'" if "view ix' t = Some (k', DiskCacheSlotValid, p')" for t k' p'
    using that store_okD(6)[OF ok] by (auto simp: v moved_Some pins)
  show "\<exists>k' p'. view ix' (Fill_Slot f) = Some (k', DiskCacheSlotFilling, p') \<and> Fill_Buffer f = good k'"
    if "f \<in> set fills" for f
    using store_okD(4)[OF ok that] by (auto simp: v moved_Some)
  show "names_blocks (view ix') (fst r) (snd r)" if "r \<in> set reads'" for r
    using names[OF that] by (simp add: v names_blocks_moved)
qed (use inv' store_okD(3)[OF ok] in auto)

lemma read_holds:
  assumes ok: "store_ok good ix disk fills reads" and r: "r \<in> set reads"
  shows "holds (view ix) (snd r)"
  unfolding holds_def
proof (intro allI impI)
  fix s assume s: "0 < pin_count (snd r) s"
  then have "s \<in> set (snd r)" "s \<noteq> DISK_CACHE_NO_SLOT"
    using count_list_0_iff[of "snd r" s] by (auto simp: pin_count_def split: if_splits)
  then obtain i where "i < length (snd r)" "snd r ! i = s" by (auto simp: in_set_conv_nth)
  then obtain p where v: "view ix s = Some (block_key (fst r) i, DiskCacheSlotValid, p)"
    using read_slot_pinned[OF ok r, of i] \<open>s \<noteq> DISK_CACHE_NO_SLOT\<close> by auto
  moreover have "pin_count (snd r) s \<le> p"
    using store_okD(6)[OF ok v] read_pins_mem[OF r, of s] by linarith
  ultimately show "\<exists>k p. view ix s = Some (k, DiskCacheSlotValid, p) \<and> pin_count (snd r) s \<le> p" by blast
qed

lemma read_pinned:
  assumes ok: "store_ok good ix disk fills reads" and b: "Key_Block k \<le> hi" "unat hi < 2 ^ 64 - 1"
  shows "\<exists>ss ix'. pin ix k hi = Some (of_nat (length (held ss)), ss, ix') \<and>
    length ss = Suc (unat hi) - unat (Key_Block k) \<and> store_ok good ix' disk fills ((k, ss) # reads)"
proof -
  obtain ss ix' where p: "pin ix k hi = Some (of_nat (length (held ss)), ss, ix')" "inv ix'"
    "length ss = Suc (unat hi) - unat (Key_Block k)" "names_blocks (view ix) k ss"
    and v: "view ix' = moved (view ix) (pin_count ss)"
    using pin_law[OF store_okD(1)[OF ok] b] by blast
  have "store_ok good ix' disk fills ((k, ss) # reads)"
    by (rule store_ok_moved[OF ok p(2) v]) (use p(4) store_okD(5)[OF ok] in \<open>auto simp: read_pins_def\<close>)
  then show ?thesis using p by blast
qed

lemma read_planned:
  assumes ok: "store_ok good ix disk fills ((k, ss) # reads)"
    and l: "length ss \<le> MAXULONG" "0 < m \<or> runs ss = 0"
  shows "\<exists>ss' ix'. plan ix ss (of_nat (length (held ss))) m = Some (of_nat (length (held ss')), ss', ix') \<and>
    length ss' = length ss \<and> runs ss' = min (runs ss) m \<and>
    (\<forall>i < length ss. ss' ! i = ss ! i \<or> ss' ! i = DISK_CACHE_NO_SLOT) \<and>
    store_ok good ix' disk fills ((k, ss') # reads)"
proof -
  have h: "holds (view ix) ss" using read_holds[OF ok, of "(k, ss)"] by simp
  obtain ss' ix' where p: "plan ix ss (of_nat (length (held ss))) m = Some (of_nat (length (held ss')), ss', ix')"
    "inv ix'" "length ss' = length ss" "runs ss' = min (runs ss) m"
    and sub: "\<forall>i < length ss. ss' ! i = ss ! i \<or> ss' ! i = DISK_CACHE_NO_SLOT"
    and v: "view ix' = moved (view ix) (\<lambda>s. pin_count ss' s - pin_count ss s)"
    using plan_law[OF store_okD(1)[OF ok] h l] by blast
  have n: "names_blocks (view ix) k ss" using store_okD(5)[OF ok, of "(k, ss)"] by simp
  have "names_blocks (view ix) k ss'"
    unfolding names_blocks_def
  proof (intro allI impI)
    fix i assume "i < length ss'" "ss' ! i \<noteq> DISK_CACHE_NO_SLOT"
    then show "\<exists>p. view ix (ss' ! i) = Some (block_key k i, DiskCacheSlotValid, p)"
      using n sub p(3) unfolding names_blocks_def by metis
  qed
  then have "store_ok good ix' disk fills ((k, ss') # reads)"
    using store_okD(5)[OF ok] by (intro store_ok_moved[OF ok p(2) v]) (auto simp: read_pins_def)
  then show ?thesis using p sub by blast
qed

lemma read_unpinned:
  assumes ok: "store_ok good ix disk fills (as @ r # bs)"
  shows "\<exists>ix'. unpin ix (snd r) served = Some ix' \<and> store_ok good ix' disk fills (as @ bs)"
proof -
  have "holds (view ix) (snd r)" using read_holds[OF ok] by simp
  then obtain ix' where u: "unpin ix (snd r) served = Some ix'" "inv ix'"
    and v: "view ix' = moved (view ix) (\<lambda>s. - pin_count (snd r) s)"
    using unpin_law[OF store_okD(1)[OF ok]] by blast
  have "store_ok good ix' disk fills (as @ bs)"
    by (rule store_ok_moved[OF ok u(2) v]) (use store_okD(5)[OF ok] in \<open>auto simp: read_pins_split\<close>)
  then show ?thesis using u by blast
qed

end

section \<open>The index meets the contract\<close>

definition index_view :: "DISK_CACHE_INDEX \<Rightarrow> slot_view" where
  "index_view ix = (\<lambda>s. if unat s < length (Slots ix)
     then Some (key_of ix s, state_of ix s, pins_of ix s) else None)"

lemma index_view_others:
  assumes "others_same ix ix' s" "unat s < length (Slots ix)"
  shows "index_view ix' = (index_view ix)(s \<mapsto> (key_of ix' s, state_of ix' s, pins_of ix' s))"
  using assms by (auto simp: index_view_def others_same_def fun_eq_iff)

lemma index_view_pins_moved:
  assumes "pins_moved ix ix' d"
  shows "index_view ix' = moved (index_view ix) d"
proof
  fix s
  have "length (Slots ix') = length (Slots ix)" using assms by (simp add: pins_moved_def same_view_def)
  moreover have "unat s < length (Slots ix) \<Longrightarrow> key_of ix' s = key_of ix s \<and>
      state_of ix' s = state_of ix s \<and> pins_of ix' s = pins_of ix s + d s"
    using assms unfolding pins_moved_def same_view_def by metis
  ultimately show "index_view ix' s = moved (index_view ix) d s" by (simp add: index_view_def moved_def)
qed

lemma index_view_same:
  assumes "same_view ix ix'" "\<And>s. unat s < length (Slots ix) \<Longrightarrow> pins_of ix' s = pins_of ix s"
  shows "index_view ix' = index_view ix"
proof
  fix s
  have "length (Slots ix') = length (Slots ix)" using assms(1) by (simp add: same_view_def)
  moreover have "unat s < length (Slots ix) \<Longrightarrow> key_of ix' s = key_of ix s \<and> state_of ix' s = state_of ix s"
    using assms(1) unfolding same_view_def by metis
  ultimately show "index_view ix' s = index_view ix s" using assms(2)[of s] by (simp add: index_view_def)
qed

lemma holds_pins_held: "holds (index_view ix) ss \<Longrightarrow> pins_held ix ss"
  unfolding holds_def pins_held_alt index_view_def by (fastforce split: if_splits)

lemma reserve_post_view:
  assumes "reserve_post ix k a so ix'"
  shows "if a = DiskCacheReserved
    then \<exists>s k0 st0. so = Some s \<and> index_view ix s = Some (k0, st0, 0) \<and>
      index_view ix' = (index_view ix)(s \<mapsto> (k, DiskCacheSlotFilling, 1))
    else index_view ix' = index_view ix"
proof (cases a)
  case DiskCacheReserved
  then obtain s where s: "so = Some s" "unat s < length (Slots ix)" "pins_of ix s = 0" "key_of ix' s = k"
    "state_of ix' s = DiskCacheSlotFilling" "pins_of ix' s = 1" "others_same ix ix' s"
    using assms by (auto simp: reserve_post_def)
  then show ?thesis using DiskCacheReserved index_view_others[OF s(7,2)] by (simp add: index_view_def)
next
  case DiskCacheNoVictim
  then have "swept ix ix'" using assms by (simp add: reserve_post_def)
  then have "index_view ix' = index_view ix" unfolding swept_def by (intro index_view_same) blast+
  then show ?thesis using DiskCacheNoVictim by simp
qed (use assms in \<open>auto simp: reserve_post_def index_view_def key_of_def state_of_def pins_of_def\<close>)

lemma served_slot_names:
  assumes "index_inv ix"
  shows "names_blocks (index_view ix) k (read_slots ix k n)"
  unfolding names_blocks_def
proof (intro allI impI)
  fix i assume i: "i < length (read_slots ix k n)" "read_slots ix k n ! i \<noteq> DISK_CACHE_NO_SLOT"
  then have s: "read_slots ix k n ! i = served_slot ix (block_key k i)" by (simp add: read_slots_def)
  with i(2) obtain s where "slot_of ix (block_key k i) = Some s" "state_of ix s = DiskCacheSlotValid"
    "served_slot ix (block_key k i) = s"
    by (auto simp: served_slot_def split: option.splits if_splits)
  then show "\<exists>p. index_view ix (read_slots ix k n ! i) = Some (block_key k i, DiskCacheSlotValid, p)"
    using slot_of_used[OF assms] used_range s by (auto simp: index_view_def)
qed

interpretation index_store: slot_store index_inv index_view BlorgDiskCacheIndexReserve
  BlorgDiskCacheIndexCommit BlorgDiskCacheIndexPinHeld BlorgDiskCacheIndexUnpin BlorgDiskCacheIndexPlanRead
proof unfold_locales
  fix ix :: DISK_CACHE_INDEX and k hi s p ss served w and m :: nat
  assume inv: "index_inv ix"
  show "p = 1" if "index_view ix s = Some (k, DiskCacheSlotFilling, p)"
    using that inv_slot_ok[OF inv, of s]
    by (auto simp: index_view_def slot_ok_def state_of_def pins_of_def split: if_splits)
  show "index_view ix DISK_CACHE_NO_SLOT = None"
    using slot_neq_NO[of ix DISK_CACHE_NO_SLOT] inv by (auto simp: index_view_def index_inv_def)
  show "\<exists>a so ix'. BlorgDiskCacheIndexReserve ix k = Some (a, so, ix') \<and> index_inv ix' \<and>
      (if a = DiskCacheReserved
       then \<exists>s k0 st0. so = Some s \<and> index_view ix s = Some (k0, st0, 0) \<and>
         index_view ix' = (index_view ix)(s \<mapsto> (k, DiskCacheSlotFilling, 1))
       else index_view ix' = index_view ix)"
    using Reserve_spec[OF inv, of k] reserve_post_view by blast
  show "\<exists>ix' k'. BlorgDiskCacheIndexCommit ix s w = Some ix' \<and> index_inv ix' \<and> (w \<longrightarrow> k' = k) \<and>
      index_view ix' = (index_view ix)(s \<mapsto> (k', if w then DiskCacheSlotValid else DiskCacheSlotFree, 0))"
    if "index_view ix s = Some (k, DiskCacheSlotFilling, p)"
  proof -
    have s: "unat s < length (Slots ix)" "state_of ix s = DiskCacheSlotFilling" "key_of ix s = k"
      using that by (auto simp: index_view_def split: if_splits)
    then show ?thesis
      using Commit_written[OF inv s(1,2)] Commit_failed[OF inv s(1,2)] index_view_others[of ix _ s]
      by (cases w) auto
  qed
  show "\<exists>ss ix'. BlorgDiskCacheIndexPinHeld ix k hi = Some (of_nat (length (held ss)), ss, ix') \<and> index_inv ix' \<and>
      length ss = Suc (unat hi) - unat (Key_Block k) \<and> names_blocks (index_view ix) k ss \<and>
      index_view ix' = moved (index_view ix) (pin_count ss)"
    if "unat hi < 2 ^ 64 - 1"
    using pin_loop_spec[OF inv refl that, of k "[]" 0] served_slot_names[OF inv] index_view_pins_moved[of ix]
    by (auto simp: BlorgDiskCacheIndexPinHeld_def read_slots_def)
  show "\<exists>ix'. BlorgDiskCacheIndexUnpin ix ss served = Some ix' \<and> index_inv ix' \<and>
      index_view ix' = moved (index_view ix) (\<lambda>s. - pin_count ss s)"
    if "holds (index_view ix) ss"
    using Unpin_spec[OF inv holds_pins_held[OF that], of served] index_view_pins_moved by blast
  show "\<exists>ss' ix'. BlorgDiskCacheIndexPlanRead ix ss (of_nat (length (held ss))) m =
        Some (of_nat (length (held ss')), ss', ix') \<and>
      index_inv ix' \<and> length ss' = length ss \<and> runs ss' = min (runs ss) m \<and>
      (\<forall>i < length ss. ss' ! i = ss ! i \<or> ss' ! i = DISK_CACHE_NO_SLOT) \<and>
      index_view ix' = moved (index_view ix) (\<lambda>s. pin_count ss' s - pin_count ss s)"
    if "holds (index_view ix) ss" "length ss \<le> MAXULONG" "0 < m \<or> runs ss = 0"
    using PlanRead_spec[OF inv holds_pins_held[OF that(1)] that(2,3) refl] index_view_pins_moved
    unfolding planned_def by blast
qed

end
