(* ===== verification/Disk_Cache_Read.thy ===== *)
theory Disk_Cache_Read
  imports Disk_Cache_Store
begin

text \<open>
  Splitting a read into parts: the issuing loop of \<open>BlorgDiskCacheRead\<close> ends, its parts cover
  the read without gap or overlap, each part of the cache file lies in the slots that hold its
  blocks, and the fetches fit the array kept for them.
\<close>

abbreviation BS :: nat where "BS \<equiv> DISK_CACHE_BLOCK_SIZE"

section \<open>Runs of one part\<close>

definition in_run :: "ULONG list \<Rightarrow> nat \<Rightarrow> nat \<Rightarrow> bool" where
  "in_run slots i j \<longleftrightarrow> i + j < length slots \<and>
     (if slots ! i = DISK_CACHE_NO_SLOT then slots ! (i + j) = DISK_CACHE_NO_SLOT
      else slots ! (i + j) = slots ! i + of_nat j)"

lemma read_run_spec:
  assumes "\<forall>j < run. in_run slots i j"
  shows "run \<le> read_run slots i run \<and> (\<forall>j < read_run slots i run. in_run slots i j) \<and>
    \<not> in_run slots i (read_run slots i run)"
  using assms
proof (induction slots i run rule: read_run.induct)
  case (1 slots i run)
  show ?case
  proof (cases "in_run slots i run")
    case True
    then have all: "\<forall>j < Suc run. in_run slots i j" using "1.prems" by (simp add: less_Suc_eq)
    have step: "read_run slots i run = read_run slots i (Suc run)"
      using True unfolding in_run_def by (subst read_run.simps) (rule if_P)
    show ?thesis
      using "1.IH"[OF True[unfolded in_run_def] all] unfolding step by (meson Suc_leD)
  next
    case False
    then have "read_run slots i run = run" unfolding in_run_def by (subst read_run.simps) (rule if_not_P)
    then show ?thesis using False "1.prems" by simp
  qed
qed

lemma read_run_1:
  assumes "i < length slots"
  shows "1 \<le> read_run slots i 1" "j < read_run slots i 1 \<Longrightarrow> in_run slots i j"
    "\<not> in_run slots i (read_run slots i 1)"
proof -
  have "\<forall>j < 1. in_run slots i j" using assms by (simp add: in_run_def)
  from read_run_spec[OF this] show "1 \<le> read_run slots i 1" "j < read_run slots i 1 \<Longrightarrow> in_run slots i j"
    "\<not> in_run slots i (read_run slots i 1)" by auto
qed

text \<open>Slots are far below the end of the 32-bit range, so a run of them does not wrap.\<close>

definition slots_small :: "ULONG list \<Rightarrow> bool" where
  "slots_small slots \<longleftrightarrow> length slots \<le> 2 ^ 20 \<and>
     (\<forall>s \<in> set slots. s = DISK_CACHE_NO_SLOT \<or> unat s \<le> 2 ^ 20)"

lemma unat_slot_add:
  assumes "unat (s :: ULONG) \<le> 2 ^ 20" "j \<le> 2 ^ 20"
  shows "unat (s + of_nat j) = unat s + j" "s + of_nat j \<noteq> DISK_CACHE_NO_SLOT"
proof -
  have "unat (of_nat j :: ULONG) = j" using assms(2) by (intro unat_of_nat_less) simp
  then show u: "unat (s + of_nat j) = unat s + j"
    using assms by (subst unat_plus_if') simp
  show "s + of_nat j \<noteq> DISK_CACHE_NO_SLOT"
  proof
    assume "s + of_nat j = DISK_CACHE_NO_SLOT"
    then have "unat s + j = unat DISK_CACHE_NO_SLOT" using u by simp
    then show False using assms by (simp add: DISK_CACHE_NO_SLOT_def)
  qed
qed

lemma run_of_slots:
  assumes "slots_small slots" "i < length slots" "slots ! i \<noteq> DISK_CACHE_NO_SLOT" "j < read_run slots i 1"
  shows "i + j < length slots" "slots ! (i + j) \<noteq> DISK_CACHE_NO_SLOT"
    "unat (slots ! (i + j)) = unat (slots ! i) + j"
proof -
  have r: "in_run slots i j" using read_run_1(2)[OF assms(2,4)] .
  then show b: "i + j < length slots" by (simp add: in_run_def)
  have "slots ! i \<in> set slots" using assms(2) by simp
  then have "unat (slots ! i) \<le> 2 ^ 20" "j \<le> 2 ^ 20" using assms(1,3) b unfolding slots_small_def by fastforce+
  from unat_slot_add[OF this] show "slots ! (i + j) \<noteq> DISK_CACHE_NO_SLOT"
    "unat (slots ! (i + j)) = unat (slots ! i) + j" using r assms(3) by (auto simp: in_run_def)
qed

section \<open>Parts\<close>

text \<open>
  What the issuing loop is called with: a page-aligned read of \<open>span\<close> bytes, of which \<open>Read_Valid\<close>
  lie before end of file, and one slot for each block it touches.
\<close>

definition request_ok :: "DISK_CACHE_READ \<Rightarrow> nat \<Rightarrow> nat \<Rightarrow> bool" where
  "request_ok read first span \<longleftrightarrow>
     4096 dvd Read_Offset read \<and> 4096 dvd span \<and> 0 < Read_Valid read \<and> Read_Valid read \<le> span \<and>
     span < Read_Valid read + 4096 \<and> first = Read_Offset read div BS \<and>
     length (Read_Slots read) = Suc ((Read_Offset read + span - 1) div BS - first) \<and>
     slots_small (Read_Slots read) \<and> runs (Read_Slots read) \<le> DISK_CACHE_MAX_READ_FETCHES"

text \<open>A part of the cache file reads, byte for byte, from the slots of the blocks it covers.\<close>

definition part_ok :: "DISK_CACHE_READ \<Rightarrow> read_part \<Rightarrow> bool" where
  "part_ok read p \<longleftrightarrow> Read_Offset read \<le> part_at p \<and>
     (case p of
        DiskPart at len d \<Rightarrow> \<forall>j < len.
          let b = (at + j) div BS - Read_Offset read div BS in
          Read_Offset read div BS \<le> (at + j) div BS \<and> b < length (Read_Slots read) \<and>
          Read_Slots read ! b \<noteq> DISK_CACHE_NO_SLOT \<and>
          d + j = unat (Read_Slots read ! b) * BS + (at + j) mod BS
      | FetchPart at len \<Rightarrow> at + len \<le> Read_Offset read + Read_Valid read)"

fun tiles :: "read_part list \<Rightarrow> nat \<Rightarrow> nat \<Rightarrow> bool" where
  "tiles [] a b \<longleftrightarrow> a = b"
| "tiles (p # ps) a b \<longleftrightarrow> part_at p = a \<and> 0 < part_len p \<and> tiles ps (a + part_len p) b"

lemma tiles_append: "tiles (ps @ qs) a b \<longleftrightarrow> (\<exists>c. tiles ps a c \<and> tiles qs c b)"
  by (induction ps arbitrary: a) auto

text \<open>Where the loop stands: at the first block of a run.\<close>

definition run_pos :: "DISK_CACHE_READ \<Rightarrow> nat \<Rightarrow> nat \<Rightarrow> nat \<Rightarrow> bool" where
  "run_pos read first issued i \<longleftrightarrow>
     (Read_Offset read + issued) div BS = first + i \<and> i < length (Read_Slots read) \<and>
     (if issued = 0 then i = 0
      else (Read_Offset read + issued) mod BS = 0 \<and> 0 < i \<and>
        \<not> (Read_Slots read ! i = DISK_CACHE_NO_SLOT \<and> Read_Slots read ! (i - 1) = DISK_CACHE_NO_SLOT))"

lemma page_dvd_block: "4096 dvd BS"
  by (simp add: DISK_CACHE_BLOCK_SIZE_def DISK_CACHE_BLOCK_SHIFT_def)

lemma run_pos_before_valid:
  assumes rq: "request_ok read first span" and rp: "run_pos read first issued i" and lt: "issued < span"
  shows "issued < Read_Valid read"
proof -
  have "4096 dvd issued"
  proof (cases "issued = 0")
    case False
    then have "BS dvd Read_Offset read + issued" using rp by (simp add: run_pos_def dvd_eq_mod_eq_0)
    then have "4096 dvd Read_Offset read + issued" using page_dvd_block dvd_trans by blast
    then show ?thesis using rq by (simp add: request_ok_def dvd_add_right_iff)
  qed simp
  then have "4096 dvd span - issued" using rq by (simp add: request_ok_def dvd_diff_nat)
  then have "4096 \<le> span - issued" using lt by (simp add: dvd_imp_le)
  moreover have "span < Read_Valid read + 4096" using rq by (simp add: request_ok_def)
  ultimately show ?thesis by linarith
qed

lemma run_starts_in_run:
  assumes sm: "slots_small slots" and i: "i < length slots"
    and fresh: "i = 0 \<or> \<not> (slots ! i = DISK_CACHE_NO_SLOT \<and> slots ! (i - 1) = DISK_CACHE_NO_SLOT)"
  shows "{j \<in> run_starts slots. j < i + read_run slots i 1} =
    (if slots ! i = DISK_CACHE_NO_SLOT then insert i {j \<in> run_starts slots. j < i}
     else {j \<in> run_starts slots. j < i})"
proof (cases "slots ! i = DISK_CACHE_NO_SLOT")
  case True
  have no: "slots ! j = DISK_CACHE_NO_SLOT" if "i \<le> j" "j < i + read_run slots i 1" for j
    using read_run_1(2)[OF i, of "j - i"] that True by (auto simp: in_run_def)
  have "j = i" if "j \<in> run_starts slots" "i \<le> j" "j < i + read_run slots i 1" for j
  proof (rule ccontr)
    assume "j \<noteq> i"
    then have "slots ! (j - 1) = DISK_CACHE_NO_SLOT" using that no[of "j - 1"] by auto
    then show False using that(1) \<open>j \<noteq> i\<close> that(2) by (auto simp: run_starts_def)
  qed
  moreover have "i \<in> run_starts slots" using i True fresh by (auto simp: run_starts_def)
  moreover have "i < i + read_run slots i 1" using read_run_1(1)[OF i] by simp
  ultimately show ?thesis using True by (fastforce simp: not_less)
next
  case False
  have "slots ! j \<noteq> DISK_CACHE_NO_SLOT" if "i \<le> j" "j < i + read_run slots i 1" for j
    using run_of_slots(2)[OF sm i False, of "j - i"] that by simp
  then have "j < i" if "j \<in> run_starts slots" "j < i + read_run slots i 1" for j
    using that by (auto simp: run_starts_def not_less[symmetric])
  then show ?thesis using False by auto
qed

lemma disk_part_ok:
  assumes rq: "request_ok read first span" and rp: "run_pos read first issued i"
    and slot: "Read_Slots read ! i \<noteq> DISK_CACHE_NO_SLOT"
    and len: "len \<le> (first + i + read_run (Read_Slots read) i 1) * BS - (Read_Offset read + issued)"
  shows "part_ok read (DiskPart (Read_Offset read + issued) len
    (unat (Read_Slots read ! i) * BS + (Read_Offset read + issued) mod BS))"
proof -
  let ?at = "Read_Offset read + issued" and ?r = "read_run (Read_Slots read) i 1"
  have f: "first = Read_Offset read div BS" and sm: "slots_small (Read_Slots read)"
    using rq by (auto simp: request_ok_def)
  have i: "?at div BS = first + i" "i < length (Read_Slots read)" using rp by (auto simp: run_pos_def)
  have "first \<le> (?at + j) div BS \<and> (?at + j) div BS - first < length (Read_Slots read) \<and>
      Read_Slots read ! ((?at + j) div BS - first) \<noteq> DISK_CACHE_NO_SLOT \<and>
      unat (Read_Slots read ! i) * BS + ?at mod BS + j =
        unat (Read_Slots read ! ((?at + j) div BS - first)) * BS + (?at + j) mod BS"
    if j: "j < len" for j
  proof -
    have "?at + j < (first + i + ?r) * BS" using len j by linarith
    then have up: "(?at + j) div BS < first + i + ?r" by (simp add: less_mult_imp_div_less)
    have "?at div BS \<le> (?at + j) div BS" by (rule div_le_mono) simp
    then obtain e where e: "(?at + j) div BS = first + i + e" using i(1) by (auto simp: le_iff_add)
    then have er: "e < ?r" using up by simp
    note ros = run_of_slots[OF sm i(2) slot er]
    have b: "(?at + j) div BS - first = i + e" using e by simp
    have "?at = (first + i) * BS + ?at mod BS" using div_mult_mod_eq[of ?at BS] i(1) by simp
    moreover have "?at + j = (first + i + e) * BS + (?at + j) mod BS"
      using div_mult_mod_eq[of "?at + j" BS] e by simp
    ultimately have "?at mod BS + j = e * BS + (?at + j) mod BS" by (simp add: algebra_simps)
    then show ?thesis unfolding b using ros e by (simp add: algebra_simps)
  qed
  then show ?thesis by (simp add: part_ok_def f Let_def)
qed

text \<open>One pass of the issuing loop: what the part covers, and where the next one begins.\<close>

lemma issue_step:
  assumes rq: "request_ok read first span" and rp: "run_pos read first issued i" and lt: "issued < span"
  defines "slot \<equiv> Read_Slots read ! i"
    and "runEnd \<equiv> (first + i + read_run (Read_Slots read) i 1) * BS"
  defines "stop \<equiv> if slot = DISK_CACHE_NO_SLOT then Read_Valid read else span"
  defines "len \<equiv> min (runEnd - (Read_Offset read + issued)) (stop - issued)"
  shows "issued < stop" "0 < len" "issued + len \<le> stop"
    "issued + len < span \<Longrightarrow> \<not> (slot = DISK_CACHE_NO_SLOT \<and> stop = issued + len) \<Longrightarrow>
       run_pos read first (issued + len) (i + read_run (Read_Slots read) i 1)"
proof -
  let ?at = "Read_Offset read + issued" and ?r = "read_run (Read_Slots read) i 1"
  have i: "?at div BS = first + i" "i < length (Read_Slots read)" using rp by (auto simp: run_pos_def)
  have lens: "length (Read_Slots read) = Suc ((Read_Offset read + span - 1) div BS - first)"
    "slots_small (Read_Slots read)" using rq by (auto simp: request_ok_def)
  note rr = read_run_1[OF i(2)]
  show st: "issued < stop"
    using run_pos_before_valid[OF rq rp lt] lt by (simp add: stop_def)
  have "?at < Suc (first + i) * BS" using i(1) by (metis dividend_less_div_times block_size_pos mult_Suc add.commute)
  also have "\<dots> \<le> runEnd" unfolding runEnd_def using rr(1) by (intro mult_le_mono1) simp
  finally have "?at < runEnd" .
  then show "0 < len" "issued + len \<le> stop" using st by (auto simp: len_def)
  assume more: "issued + len < span" and nb: "\<not> (slot = DISK_CACHE_NO_SLOT \<and> stop = issued + len)"
  have "len = runEnd - ?at" using more nb st by (auto simp: len_def stop_def min_def split: if_splits)
  then have at': "Read_Offset read + (issued + len) = runEnd" using \<open>?at < runEnd\<close> by simp
  then have d: "(Read_Offset read + (issued + len)) div BS = first + (i + ?r)"
    "(Read_Offset read + (issued + len)) mod BS = 0" by (simp_all add: runEnd_def)
  have "(Read_Offset read + (issued + len)) div BS \<le> (Read_Offset read + span - 1) div BS"
    using more by (intro div_le_mono) simp
  then have il: "i + ?r < length (Read_Slots read)" using d(1) lens by simp
  have "\<not> (Read_Slots read ! (i + ?r) = DISK_CACHE_NO_SLOT \<and> Read_Slots read ! (i + ?r - 1) = DISK_CACHE_NO_SLOT)"
  proof (cases "slot = DISK_CACHE_NO_SLOT")
    case True
    then show ?thesis using rr(3) il by (simp add: in_run_def slot_def)
  next
    case False
    then have "Read_Slots read ! (i + (?r - 1)) \<noteq> DISK_CACHE_NO_SLOT"
      using run_of_slots(2)[OF lens(2) i(2), of "?r - 1"] rr(1) by (simp add: slot_def)
    then show ?thesis using rr(1) by simp
  qed
  then show "run_pos read first (issued + len) (i + ?r)"
    using d il \<open>0 < len\<close> rr(1) by (simp add: run_pos_def)
qed

section \<open>The issuing loop\<close>

definition same_request :: "DISK_CACHE_READ \<Rightarrow> DISK_CACHE_READ \<Rightarrow> bool" where
  "same_request a b \<longleftrightarrow> Read_Key b = Read_Key a \<and> Read_Offset b = Read_Offset a \<and>
     Read_Valid b = Read_Valid a \<and> Read_Slots b = Read_Slots a"

lemma same_request_part_ok: "same_request a b \<Longrightarrow> part_ok b p = part_ok a p"
  by (simp add: same_request_def part_ok_def cong: read_part.case_cong)

text \<open>A read with its parts in flight.\<close>

definition in_flight :: "DISK_CACHE_READ \<Rightarrow> read_part list \<Rightarrow> bool" where
  "in_flight read parts \<longleftrightarrow>
     tiles parts (Read_Offset read) (Read_Offset read + Span read) \<and> (\<forall>p \<in> set parts. part_ok read p) \<and>
     Outstanding read = 1 + int (length parts) \<and> Bytes read = 0 \<and> Read_Status read = STATUS_SUCCESS"

definition started :: "DISK_CACHE_READ \<Rightarrow> DISK_CACHE_READ \<Rightarrow> read_part list \<Rightarrow> bool" where
  "started read0 read parts \<longleftrightarrow> same_request read0 read \<and> in_flight read parts \<and>
     (Refetch read = 0 \<longrightarrow> Read_Valid read \<le> Span read) \<and> FetchCount read \<le> runs (Read_Slots read)"

definition runs_before :: "DISK_CACHE_READ \<Rightarrow> nat \<Rightarrow> nat" where
  "runs_before read i = card {j \<in> run_starts (Read_Slots read). j < i}"

lemma runs_before_le: "runs_before read i \<le> runs (Read_Slots read)"
  unfolding runs_before_def runs_def by (intro card_mono) auto

definition new_part :: "nat \<Rightarrow> nat \<Rightarrow> ULONG \<Rightarrow> read_part" where
  "new_part at len slot = (if slot = DISK_CACHE_NO_SLOT then FetchPart at len
     else DiskPart at len (unat slot * BS + at mod BS))"

definition count_fetch :: "ULONG \<Rightarrow> DISK_CACHE_READ \<Rightarrow> DISK_CACHE_READ" where
  "count_fetch slot read =
     (if slot = DISK_CACHE_NO_SLOT then read\<lparr>FetchCount := FetchCount read + 1\<rparr> else read)"

lemma ReadPart_cases:
  assumes "slot = DISK_CACHE_NO_SLOT \<Longrightarrow> FetchCount read < DISK_CACHE_MAX_READ_FETCHES"
  shows "DiskCacheReadPart read at len slot st =
    (if st = PartStarted
     then Some (True, (count_fetch slot read)\<lparr>Outstanding := Outstanding read + 1\<rparr>, [new_part at len slot])
     else Some (False, if st = PartNoMemory then read else count_fetch slot read, []))"
  using assms
  by (cases st; cases "slot = DISK_CACHE_NO_SLOT")
     (simp_all add: DiskCacheReadPart_def new_part_def count_fetch_def Let_def)

text \<open>The loop at a run, in flight so far: either it ends here or it goes on at the next run.\<close>

definition loop_at :: "DISK_CACHE_READ \<Rightarrow> nat \<Rightarrow> nat \<Rightarrow> nat \<Rightarrow> read_part list \<Rightarrow> bool" where
  "loop_at read first span issued parts \<longleftrightarrow>
     request_ok read first span \<and> in_flight read parts \<and> Span read = issued \<and> Refetch read = 0 \<and>
     issued \<le> span \<and> FetchCount read \<le> runs (Read_Slots read) \<and>
     (issued < span \<longrightarrow> (\<exists>i. run_pos read first issued i \<and> FetchCount read = runs_before read i))"

definition issued_read :: "DISK_CACHE_READ \<Rightarrow> ULONG \<Rightarrow> nat \<Rightarrow> nat \<Rightarrow> DISK_CACHE_READ" where
  "issued_read read slot issued len =
     (let read1 = (count_fetch slot read)\<lparr>Outstanding := Outstanding read + 1\<rparr>
      in read1\<lparr>Span := Span read + len,
           DiskSpan := (if slot \<noteq> DISK_CACHE_NO_SLOT \<and> issued < Read_Valid read
             then DiskSpan read1 + min len (Read_Valid read - issued) else DiskSpan read1)\<rparr>)"

lemma issued_read_simps [simp]:
  "Read_Key (issued_read read slot issued len) = Read_Key read"
  "Read_Offset (issued_read read slot issued len) = Read_Offset read"
  "Read_Valid (issued_read read slot issued len) = Read_Valid read"
  "Read_Slots (issued_read read slot issued len) = Read_Slots read"
  "Outstanding (issued_read read slot issued len) = Outstanding read + 1"
  "Bytes (issued_read read slot issued len) = Bytes read"
  "Read_Status (issued_read read slot issued len) = Read_Status read"
  "Refetch (issued_read read slot issued len) = Refetch read"
  "Span (issued_read read slot issued len) = Span read + len"
  "FetchCount (issued_read read slot issued len) =
     (if slot = DISK_CACHE_NO_SLOT then FetchCount read + 1 else FetchCount read)"
  by (simp_all add: issued_read_def count_fetch_def Let_def)

lemma same_request_issued: "same_request read (issued_read read slot issued len)"
  by (simp add: same_request_def)

lemma run_pos_issued: "run_pos (issued_read read slot issued len) = run_pos read"
  by (simp add: run_pos_def fun_eq_iff)

lemma loop_at_step:
  assumes la: "loop_at read first span issued parts" and rp: "run_pos read first issued i"
    and lt: "issued < span"
  defines "slot \<equiv> Read_Slots read ! i"
  defines "stop \<equiv> if slot = DISK_CACHE_NO_SLOT then Read_Valid read else span"
  defines "len \<equiv> min ((first + i + read_run (Read_Slots read) i 1) * BS - (Read_Offset read + issued)) (stop - issued)"
  defines "read' \<equiv> issued_read read slot issued len"
  defines "parts' \<equiv> parts @ [new_part (Read_Offset read + issued) len slot]"
  shows "slot = DISK_CACHE_NO_SLOT \<Longrightarrow> FetchCount read < DISK_CACHE_MAX_READ_FETCHES"
    and "in_flight read' parts'" "FetchCount read' \<le> runs (Read_Slots read)"
    and "\<not> (slot = DISK_CACHE_NO_SLOT \<and> stop = issued + len) \<Longrightarrow>
      loop_at read' first span (issued + len) parts'"
proof -
  have rq: "request_ok read first span" and fl: "in_flight read parts" and sp: "Span read = issued"
    using la by (auto simp: loop_at_def)
  note st = issue_step[OF rq rp lt, folded slot_def, folded stop_def, folded len_def]
  obtain i' where "run_pos read first issued i'" "FetchCount read = runs_before read i'"
    using la lt by (auto simp: loop_at_def)
  moreover from this rp have "i' = i" by (simp add: run_pos_def)
  ultimately have fc: "FetchCount read = runs_before read i" by simp
  have i: "i < length (Read_Slots read)" "slots_small (Read_Slots read)"
    using rp rq by (auto simp: run_pos_def request_ok_def)
  have fresh: "i = 0 \<or> \<not> (slot = DISK_CACHE_NO_SLOT \<and> Read_Slots read ! (i - 1) = DISK_CACHE_NO_SLOT)"
    using rp by (auto simp: run_pos_def slot_def split: if_splits)
  have cnt: "runs_before read (i + read_run (Read_Slots read) i 1) = FetchCount read'"
    using run_starts_in_run[OF i(2,1)] fresh fc
    by (simp add: runs_before_def read'_def slot_def)
  then show fr: "FetchCount read' \<le> runs (Read_Slots read)"
    using runs_before_le[of read "i + read_run (Read_Slots read) i 1"] by simp
  then show "FetchCount read < DISK_CACHE_MAX_READ_FETCHES" if "slot = DISK_CACHE_NO_SLOT"
    using that rq by (simp add: read'_def request_ok_def)
  have "part_ok read (new_part (Read_Offset read + issued) len slot)"
  proof (cases "slot = DISK_CACHE_NO_SLOT")
    case True
    then show ?thesis using st(3) by (simp add: new_part_def part_ok_def stop_def)
  next
    case False
    then show ?thesis
      using disk_part_ok[OF rq rp, of len] by (simp add: new_part_def slot_def len_def)
  qed
  then show fl': "in_flight read' parts'"
    using fl sp st(2) same_request_part_ok[OF same_request_issued, of read slot issued len]
    by (auto simp: in_flight_def read'_def parts'_def tiles_append new_part_def add.assoc)
  assume nb: "\<not> (slot = DISK_CACHE_NO_SLOT \<and> stop = issued + len)"
  have rq': "request_ok read' first span" using rq by (simp add: request_ok_def read'_def)
  have "\<exists>i. run_pos read' first (issued + len) i \<and> FetchCount read' = runs_before read' i" if "issued + len < span"
  proof (intro exI[of _ "i + read_run (Read_Slots read) i 1"] conjI)
    show "run_pos read' first (issued + len) (i + read_run (Read_Slots read) i 1)"
      using st(4)[OF that nb] unfolding read'_def run_pos_issued .
    show "FetchCount read' = runs_before read' (i + read_run (Read_Slots read) i 1)"
      unfolding cnt[symmetric] by (simp add: runs_before_def read'_def)
  qed
  moreover have "issued + len \<le> span"
    using st(3) rq by (auto simp: stop_def request_ok_def split: if_splits)
  ultimately show "loop_at read' first span (issued + len) parts'"
    using rq' fl' fr sp la by (simp add: loop_at_def read'_def)
qed

lemma issue_loop_spec:
  assumes "loop_at read first span issued parts" "issued = 0 \<longrightarrow> parts = []"
  shows "\<exists>going read' parts'. issue_loop start span first issued read parts = Some (going, read', parts') \<and>
    (going \<longrightarrow> started read read' parts') \<and> (\<not> going \<longrightarrow> parts' = [])"
  using assms
proof (induction "span - issued" arbitrary: read issued parts rule: less_induct)
  case less
  note la = less.prems(1)
  have rq: "request_ok read first span" and fl: "in_flight read parts" and sp: "Span read = issued"
    using la by (auto simp: loop_at_def)
  show ?case
  proof (cases "issued < span")
    case False
    then have "issue_loop start span first issued read parts = Some (True, read, parts)"
      by (subst issue_loop.simps) simp
    moreover have "started read read parts"
      using la rq False by (simp add: started_def same_request_def loop_at_def request_ok_def)
    ultimately show ?thesis by auto
  next
    case True
    then obtain i where rp: "run_pos read first issued i" using la by (auto simp: loop_at_def)
    define slot where "slot = Read_Slots read ! i"
    define stop where "stop = (if slot = DISK_CACHE_NO_SLOT then Read_Valid read else span)"
    define len where "len = min ((first + i + read_run (Read_Slots read) i 1) * BS - (Read_Offset read + issued)) (stop - issued)"
    define read' where "read' = issued_read read slot issued len"
    define parts' where "parts' = parts @ [new_part (Read_Offset read + issued) len slot]"
    note ds = slot_def[symmetric] stop_def[symmetric] len_def[symmetric]
    note ls = loop_at_step[OF la rp True, unfolded ds, folded read'_def parts'_def]
    note st = issue_step[OF rq rp True, unfolded ds]
    have i: "(Read_Offset read + issued) div BS - first = i" "i < length (Read_Slots read)"
      using rp by (simp_all add: run_pos_def)
    have go: "\<not> (length (Read_Slots read) \<le> i \<or> stop < issued)" using i(2) st(1) by simp
    have body: "issue_loop start span first issued read parts = do {
          (ok, read1, new) \<leftarrow> DiskCacheReadPart read (Read_Offset read + issued) len slot (start issued);
          (if \<not> ok
           then Some (if issued = 0 then (False, read1, parts)
             else (True, read1\<lparr>Refetch := Refetch read1 OR DISK_CACHE_READ_UNSTARTED\<rparr>, parts))
           else if slot = DISK_CACHE_NO_SLOT \<and> stop = issued + len then Some (True, read1\<lparr>Span := Span read1 + len,
                   DiskSpan := (if slot \<noteq> DISK_CACHE_NO_SLOT \<and> issued < Read_Valid read
                     then DiskSpan read1 + min len (Read_Valid read - issued) else DiskSpan read1)\<rparr>, parts @ new)
                else issue_loop start span first (issued + len) (read1\<lparr>Span := Span read1 + len,
                   DiskSpan := (if slot \<noteq> DISK_CACHE_NO_SLOT \<and> issued < Read_Valid read
                     then DiskSpan read1 + min len (Read_Valid read - issued) else DiskSpan read1)\<rparr>) (parts @ new))
        }"
      unfolding issue_loop.simps[of start span first issued read parts] Let_def i(1) ds if_P[OF True] if_not_P[OF go] ..
    have rpc: "DiskCacheReadPart read (Read_Offset read + issued) len slot (start issued) =
      (if start issued = PartStarted
       then Some (True, (count_fetch slot read)\<lparr>Outstanding := Outstanding read + 1\<rparr>,
         [new_part (Read_Offset read + issued) len slot])
       else Some (False, if start issued = PartNoMemory then read else count_fetch slot read, []))"
      by (rule ReadPart_cases) (rule ls(1))
    show ?thesis
    proof (cases "start issued = PartStarted")
      case False
      let ?r = "if start issued = PartNoMemory then read else count_fetch slot read"
      have "started read (?r\<lparr>Refetch := Refetch ?r OR DISK_CACHE_READ_UNSTARTED\<rparr>) parts"
        using fl sp ls(3) la unfolding read'_def
        by (auto simp: started_def same_request_def in_flight_def count_fetch_def DISK_CACHE_READ_UNSTARTED_def
            part_ok_def loop_at_def split: read_part.splits)
      then show ?thesis
        unfolding body rpc if_not_P[OF False] using less.prems(2) by (cases "issued = 0") auto
    next
      case started: True
      have step: "issue_loop start span first issued read parts =
          (if slot = DISK_CACHE_NO_SLOT \<and> stop = issued + len then Some (True, read', parts')
           else issue_loop start span first (issued + len) read' parts')"
        unfolding body rpc if_P[OF started] read'_def parts'_def issued_read_def Let_def count_fetch_def by simp
      show ?thesis
      proof (cases "slot = DISK_CACHE_NO_SLOT \<and> stop = issued + len")
        case True
        then have "Read_Valid read = issued + len" by (metis stop_def)
        then have "started read read' parts'"
          using ls(2,3) sp True by (simp add: started_def same_request_def read'_def)
        then show ?thesis using step True by auto
      next
        case False
        have "\<exists>going read1 parts1. issue_loop start span first (issued + len) read' parts' = Some (going, read1, parts1) \<and>
            (going \<longrightarrow> started read' read1 parts1) \<and> (\<not> going \<longrightarrow> parts1 = [])"
          using ls(4)[OF False] st(2) True by (intro less.hyps) auto
        moreover have "started read' read1 parts1 \<Longrightarrow> started read read1 parts1" for read1 parts1
          by (auto simp: started_def same_request_def read'_def)
        ultimately show ?thesis using step False by auto
      qed
    qed
  qed
qed

section \<open>The arithmetic of a call\<close>

lemma unat_and_page: "unat ((x :: 'a::len word) AND 0xFFF) = unat x mod 4096"
proof -
  have "x AND 0xFFF = take_bit 12 x" by (simp add: take_bit_eq_mask mask_eq_exp_minus_1)
  then show ?thesis by (simp add: unsigned_take_bit_eq take_bit_nat_def)
qed

lemma or_page_zero:
  "((x :: 'a::len word) OR y) AND 0xFFF = 0 \<Longrightarrow> unat x mod 4096 = 0 \<and> unat y mod 4096 = 0"
proof -
  assume "(x OR y) AND 0xFFF = 0"
  then have "(x AND 0xFFF) OR (y AND 0xFFF) = 0" by (simp add: word_ao_dist)
  then have "x AND 0xFFF = 0" "y AND 0xFFF = 0" by (simp_all add: or_eq_0_iff)
  then show ?thesis using unat_and_page[of x] unat_and_page[of y] by simp
qed

lemma unat_page_round:
  assumes "unat v \<le> unat (len :: ULONG)" "unat len mod 4096 = 0"
  shows "unat (page_round v) = (unat v + 4095) div 4096 * 4096"
proof -
  let ?x = "v + 0xFFF"
  obtain q where q: "unat len = 4096 * q" using assms(2) by (auto simp: mod_eq_0_iff_dvd dvd_def)
  have "unat len < 2 ^ 32" using unsigned_less[of len] by simp
  then have "unat v + 4095 < 2 ^ 32" using q assms(1) by simp
  then have s: "unat ?x = unat v + 4095" by (simp add: unat_word_ariths)
  have "page_round v = ?x AND NOT (mask 12)"
    by (simp add: page_round_def PAGE_SIZE_def mask_eq_exp_minus_1)
  also have "\<dots> = push_bit 12 (drop_bit 12 ?x)" by (rule bit_word_eqI) (auto simp: bit_simps)
  also have "unat \<dots> = unat ?x div 4096 * 4096 mod 2 ^ 32"
    by (simp add: push_bit_eq_mult unat_word_ariths unat_drop_bit_eq drop_bit_eq_div mult.commute)
  also have "\<dots> = unat ?x div 4096 * 4096"
  proof (rule mod_less)
    have "unat ?x < 2 ^ 32" using unsigned_less[of ?x] by simp
    then show "unat ?x div 4096 * 4096 < 2 ^ 32" using div_times_less_eq_dividend[of "unat ?x" 4096] by linarith
  qed
  finally show ?thesis using s by simp
qed

lemma unat_ucast_64: "unat (ucast (x :: ULONG) :: ULONG64) = unat x"
proof -
  have "unat x < 2 ^ LENGTH(32)" by (rule unsigned_less)
  then have "unat x < 2 ^ 64" by simp
  then show ?thesis by (simp add: unsigned_ucast_eq take_bit_nat_eq_self)
qed

text \<open>
  What the guards of a call leave: the words the source computes from the offset and the length
  are the page and block numbers they stand for. Sizes are below \<open>2 ^ 63\<close>, as a file size is a
  signed 64-bit value.
\<close>

lemma read_words:
  assumes ok: "\<not> read_refused dc key mdl offset len valid" and sz: "unat (Key_Size key) < 2 ^ 63"
  defines "span \<equiv> page_round valid"
    and "first \<equiv> drop_bit DISK_CACHE_BLOCK_SHIFT offset"
  defines "hi \<equiv> drop_bit DISK_CACHE_BLOCK_SHIFT (offset + ucast span - 1)"
  defines "blocks \<equiv> ucast (hi - first + 1) :: ULONG"
  shows "4096 dvd unat offset" "4096 dvd unat span" "0 < unat valid" "unat valid \<le> unat span"
    "unat span < unat valid + 4096" "unat offset + unat valid \<le> unat (Key_Size key)"
    "unat first = unat offset div BS" "unat hi = (unat offset + unat span - 1) div BS"
    "unat blocks = Suc (unat hi - unat first)" "unat hi < 2 ^ 64 - 1" "first \<le> hi"
proof -
  have v: "valid \<noteq> 0" "valid \<le> len" "offset < Key_Size key" "ucast valid \<le> Key_Size key - offset"
    and al: "(offset OR ucast len) AND 0xFFF = 0"
    using ok by (auto simp: read_refused_def PAGE_SIZE_def not_less not_le)
  from or_page_zero[OF al] have o: "unat offset mod 4096 = 0" and l: "unat len mod 4096 = 0"
    by (simp_all add: unat_ucast_64)
  show "4096 dvd unat offset" using o by (simp add: dvd_eq_mod_eq_0)
  show v0: "0 < unat valid" using v(1) by (simp add: unat_gt_0)
  have sp: "unat span = (unat valid + 4095) div 4096 * 4096"
    unfolding span_def using v(2) l by (intro unat_page_round) (simp_all add: word_le_nat_alt)
  then show "4096 dvd unat span" by simp
  show vs: "unat valid \<le> unat span" "unat span < unat valid + 4096" 
    unfolding sp using div_mult_mod_eq[of "unat valid + 4095" 4096] mod_less_divisor[of 4096 "unat valid + 4095"]
    by linarith+
  have ov: "unat offset < unat (Key_Size key)" using v(3) by (simp add: word_less_nat_alt)
  then have "unat (Key_Size key - offset) = unat (Key_Size key) - unat offset"
    by (simp add: unat_sub word_le_nat_alt)
  then show os: "unat offset + unat valid \<le> unat (Key_Size key)"
    using v(4) ov by (simp add: word_le_nat_alt unat_ucast_64)
  have us: "unat (ucast span :: ULONG64) = unat span" by (rule unat_ucast_64)
  have bnd: "unat offset + unat span < 2 ^ 63 + 4096" using os vs(2) sz by linarith
  then have "unat (offset + ucast span) = unat offset + unat span" by (simp add: unat_word_ariths us)
  moreover have "offset + ucast span \<noteq> 0" using calculation v0 vs(1) by auto
  ultimately have e: "unat (offset + ucast span - 1) = unat offset + unat span - 1"
    by (simp add: unat_minus_one)
  show f: "unat first = unat offset div BS"
    unfolding first_def unat_drop_bit_eq by (simp add: drop_bit_eq_div DISK_CACHE_BLOCK_SIZE_def)
  show la: "unat hi = (unat offset + unat span - 1) div BS"
    unfolding hi_def unat_drop_bit_eq e by (simp add: drop_bit_eq_div DISK_CACHE_BLOCK_SIZE_def)
  have fl: "unat first \<le> unat hi" unfolding f la using v0 vs(1) by (intro div_le_mono) simp
  then show "first \<le> hi" by (simp add: word_le_nat_alt)
  show l64: "unat hi < 2 ^ 64 - 1" unfolding la using bnd
    by (simp add: DISK_CACHE_BLOCK_SIZE_def DISK_CACHE_BLOCK_SHIFT_def)
  have d: "unat (hi - first) = unat hi - unat first" using fl by (simp add: unat_sub word_le_nat_alt)
  then have "unat (hi - first + 1) = Suc (unat hi - unat first)" using l64 by (simp add: unat_word_ariths)
  moreover have "Suc (unat hi - unat first) < 2 ^ 32"
  proof -
    have "unat span < 2 ^ 32" using unsigned_less[of span] by simp
    then have "unat hi \<le> (unat offset + 2 ^ 32) div BS" unfolding la by (intro div_le_mono) simp
    also have "\<dots> = unat first + 2 ^ 16"
      by (simp add: f DISK_CACHE_BLOCK_SIZE_def DISK_CACHE_BLOCK_SHIFT_def)
    finally show ?thesis by simp
  qed
  ultimately show "unat blocks = Suc (unat hi - unat first)"
    by (simp add: blocks_def unsigned_ucast_eq take_bit_nat_eq_self)
qed

end
