(* ===== verification/Disk_Cache_Protocol.thy ===== *)
theory Disk_Cache_Protocol
  imports Disk_Cache_Read
begin

text \<open>
  The disk cache run as a whole: fills, the fill worker, writes and reads of the cache file and
  fetches, interleaved in every order, as a step relation over the state of the cache, the bytes
  of the cache file, the writes in flight and the reads in flight. Each step is one application
  of a function of \<open>Disk_Cache\<close>. What it shows is that a read the cache answers with success has
  exactly the bytes of the version its key names.

  What the driver relies on from outside appears in the rules: a successful read of the cache
  file returns what the file holds, a successful write of a block replaces the block, a failed
  one may leave anything in it, and a response body belongs to the version its entity tag names.
\<close>

section \<open>Bytes\<close>

definition version :: "DISK_CACHE_KEY \<Rightarrow> DISK_CACHE_KEY" where
  "version k = k\<lparr>Key_Block := 0\<rparr>"

type_synonym contents = "DISK_CACHE_KEY \<Rightarrow> nat \<Rightarrow> UCHAR"

text \<open>The bytes the slot of a block is meant to hold: the file's, zeros past its end.\<close>

definition block_bytes :: "contents \<Rightarrow> DISK_CACHE_KEY \<Rightarrow> UCHAR list" where
  "block_bytes content k = map (\<lambda>j.
     let p = unat (Key_Block k) * BS + j in if p < unat (Key_Size k) then content (version k) p else 0) [0..<BS]"

definition slot_bytes :: "(nat \<Rightarrow> UCHAR) \<Rightarrow> ULONG \<Rightarrow> UCHAR list" where
  "slot_bytes file s = map (\<lambda>j. file (unat s * BS + j)) [0..<BS]"

definition write_bytes :: "(nat \<Rightarrow> UCHAR) \<Rightarrow> nat \<Rightarrow> UCHAR list \<Rightarrow> nat \<Rightarrow> UCHAR" where
  "write_bytes file off bytes = (\<lambda>p. if off \<le> p \<and> p < off + length bytes then bytes ! (p - off) else file p)"

text \<open>The first \<open>n\<close> bytes of a body received for \<open>key\<close>'s file at \<open>offset\<close> are that version's.\<close>

definition faithful :: "contents \<Rightarrow> DISK_CACHE_KEY \<Rightarrow> nat \<Rightarrow> nat \<Rightarrow> UCHAR list \<Rightarrow> bool" where
  "faithful content key offset n body \<longleftrightarrow>
     n \<le> length body \<and> (\<forall>i < n. body ! i = content (version key) (offset + i))"

lemma version_block [simp]: "version (k\<lparr>Key_Block := b\<rparr>) = version k"
  by (simp add: version_def)

lemma version_block_key [simp]: "version (block_key k i) = version k"
  by (simp add: block_key_def)

lemma length_block_bytes [simp]: "length (block_bytes content k) = BS"
  by (simp add: block_bytes_def)

lemma slot_bytes_write:
  assumes "length bytes = BS"
  shows "slot_bytes (write_bytes file (unat s * BS) bytes) s = bytes"
  using assms by (auto simp: slot_bytes_def write_bytes_def intro!: nth_equalityI)

text \<open>Slots do not overlap in the file.\<close>

lemma slot_range_disjoint:
  assumes "s \<noteq> t" "j < BS"
  shows "\<not> (unat s * BS \<le> unat t * BS + j \<and> unat t * BS + j < unat s * BS + BS)"
proof -
  have ne: "unat s \<noteq> unat t" using assms(1) by (rule unat_neqI)
  have "(unat t * BS + j) div BS = unat t" using assms(2) by simp
  moreover have "(unat t * BS + j) div BS = unat s"
    if "unat s * BS \<le> unat t * BS + j" "unat t * BS + j < unat s * BS + BS"
    using that by (intro div_nat_eqI) (simp_all add: mult.commute)
  ultimately show ?thesis using ne by auto
qed

lemma slot_bytes_outside:
  assumes "\<And>p. \<not> (unat s * BS \<le> p \<and> p < unat s * BS + BS) \<Longrightarrow> file' p = file p" "t \<noteq> s"
  shows "slot_bytes file' t = slot_bytes file t"
  using assms(1) slot_range_disjoint[of s t] assms(2) by (auto simp: slot_bytes_def)

lemma write_bytes_outside:
  "length bytes = BS \<Longrightarrow> \<not> (off \<le> p \<and> p < off + BS) \<Longrightarrow> write_bytes file off bytes p = file p"
  by (auto simp: write_bytes_def)

lemma fill_bytes_good:
  assumes f: "faithful content key offset n source" and b: "offset \<le> block_start b" "block_start b < block_stop key b"
    "block_stop key b \<le> offset + n"
  shows "fill_bytes source offset (block_start b) (block_stop key b) = block_bytes content (key\<lparr>Key_Block := of_nat b\<rparr>)"
proof (rule nth_equalityI)
  let ?n = "block_stop key b - block_start b"
  have ls: "n \<le> length source" using f by (simp add: faithful_def)
  have n: "?n \<le> BS" "block_stop key b \<le> unat (Key_Size key)" by (auto simp: block_stop_def)
  have "b \<le> block_start b" by (simp add: block_start_def DISK_CACHE_BLOCK_SIZE_def)
  also have "\<dots> < unat (Key_Size key)" using b(2) n(2) by linarith
  also have "\<dots> < 2 ^ LENGTH(64)" by (rule unsigned_less)
  finally have ub: "unat (of_nat b :: ULONG64) = b" by (rule unat_of_nat_less)
  show len: "length (fill_bytes source offset (block_start b) (block_stop key b)) =
      length (block_bytes content (key\<lparr>Key_Block := of_nat b\<rparr>))"
    using b n(1) ls by (simp add: fill_bytes_def)
  fix j assume "j < length (fill_bytes source offset (block_start b) (block_stop key b))"
  then have j: "j < BS" using len by simp
  have inside: "j < ?n \<longleftrightarrow> b * BS + j < unat (Key_Size key)"
    using j b(2) by (auto simp: block_stop_def block_start_def min_def split: if_splits)
  have "j < ?n \<Longrightarrow> source ! (block_start b - offset + j) = content (version key) (block_start b + j)"
    using f b by (simp add: faithful_def)
  then show "fill_bytes source offset (block_start b) (block_stop key b) ! j =
      block_bytes content (key\<lparr>Key_Block := of_nat b\<rparr>) ! j"
    using j b inside n(1) ls
    by (auto simp: fill_bytes_def block_bytes_def nth_append ub block_start_def Let_def min_def)
qed

section \<open>Fills\<close>

abbreviation cache_ok where
  "cache_ok content dc file writes reads \<equiv>
     index_store.store_ok (block_bytes content) (Index dc) (slot_bytes file) (Fills dc @ writes) reads"

lemma cache_fields [simp]:
  "Index (DiskCacheLeave dc) = Index dc" "Fills (DiskCacheLeave dc) = Fills dc"
  "Index (DiskCacheUnchargeFill dc) = Index dc" "Fills (DiskCacheUnchargeFill dc) = Fills dc"
  "Index (DiskCacheLost dc) = Index dc" "Fills (DiskCacheLost dc) = Fills dc"
  by (simp_all add: DiskCacheLeave_def DiskCacheUnchargeFill_def DiskCacheLost_def Let_def)

lemma FillSettle_ok:
  assumes ok: "index_store.store_ok good (Index dc) disk (as @ fill # bs) reads"
    and w: "written \<Longrightarrow> disk' (Fill_Slot fill) = Fill_Buffer fill"
    and d: "\<And>t. t \<noteq> Fill_Slot fill \<Longrightarrow> disk' t = disk t"
  shows "\<exists>dc'. DiskCacheFillSettle dc fill written = Some dc' \<and> Fills dc' = Fills dc \<and>
    index_store.store_ok good (Index dc') disk' (as @ bs) reads"
  using index_store.fill_committed[OF ok, of written disk'] w d by (auto simp: DiskCacheFillSettle_def)

lemma settle_all_ok:
  assumes "index_store.store_ok good (Index dc) disk (fills @ bs) reads"
  shows "\<exists>dc'. settle_all dc fills = Some dc' \<and> Fills dc' = Fills dc \<and>
    index_store.store_ok good (Index dc') disk bs reads"
  using assms
proof (induction fills arbitrary: dc)
  case (Cons f fills)
  obtain dc1 where s: "DiskCacheFillSettle dc f False = Some dc1" "Fills dc1 = Fills dc"
    and ok1: "index_store.store_ok good (Index dc1) disk (fills @ bs) reads"
    using FillSettle_ok[of good dc disk "[]" f "fills @ bs" reads False disk] Cons.prems by auto
  show ?case using Cons.IH[OF ok1] s by auto
qed auto

lemma QueueFill_ok:
  assumes ok: "index_store.store_ok good (Index dc) disk (fill # Fills dc @ writes) reads"
  shows "\<exists>dc'. DiskCacheQueueFill dc fill workItem = Some dc' \<and>
    index_store.store_ok good (Index dc') disk (Fills dc' @ writes) reads"
proof -
  have ok': "index_store.store_ok good (Index dc) disk ((Fills dc @ [fill]) @ writes) reads"
    using ok unfolding index_store.store_ok_def by auto
  show ?thesis
    using ok' settle_all_ok[of good "dc\<lparr>Fills := [], FillWorkerQueued := False\<rparr>" disk "Fills dc @ [fill]" writes reads]
    by (auto simp: DiskCacheQueueFill_def Let_def)
qed

lemma Enter_fields:
  "DiskCacheEnter dc = (entered, dc') \<Longrightarrow> Index dc' = Index dc \<and> Fills dc' = Fills dc"
  by (auto simp: DiskCacheEnter_def Let_def split: if_splits)

lemma fill_block_ok:
  assumes ok: "index_store.store_ok good (Index dc) disk (Fills dc @ writes) reads"
    and good: "fill_bytes source offset start stop = good key"
  shows "\<exists>more dc'. fill_block dc key source offset start stop allocated workItem = Some (more, dc') \<and>
    index_store.store_ok good (Index dc') disk (Fills dc' @ writes) reads"
proof -
  let ?dc1 = "dc\<lparr>FillBytes := FillBytes dc + int DISK_CACHE_BLOCK_SIZE\<rparr>"
  obtain entered dc2 where en: "DiskCacheEnter ?dc1 = (entered, dc2)" by fastforce
  have f2: "Index dc2 = Index dc" "Fills dc2 = Fills dc" using Enter_fields[OF en] by auto
  show ?thesis
  proof (cases "FillBytes ?dc1 > DISK_CACHE_FILL_BACKLOG \<or> \<not> entered")
    case True
    then show ?thesis using ok f2 en by (auto simp: fill_block_def Let_def)
  next
    case False
    obtain a so ix where r: "BlorgDiskCacheIndexReserve (Index dc) key = Some (a, so, ix)"
      and so: "a = DiskCacheReserved \<Longrightarrow> \<exists>s. so = Some s"
      using index_store.reserve_law[OF index_store.store_okD(1)[OF ok], of key] by (metis (full_types))
    show ?thesis
    proof (cases "a = DiskCacheReserved")
      case refused: False
      then show ?thesis
        using index_store.reserve_refused[OF ok r refused] False en r f2 by (auto simp: fill_block_def Let_def)
    next
      case True
      then obtain s where s: "so = Some s" using so by blast
      let ?f = "\<lparr>Fill_Buffer = fill_bytes source offset start stop, Fill_Slot = s\<rparr>"
      have ok3: "index_store.store_ok good ix disk (?f # Fills dc @ writes) reads"
        using index_store.fill_reserved[OF ok r[unfolded True], of ?f] good s by simp
      have "\<exists>ix1. BlorgDiskCacheIndexCommit ix s False = Some ix1 \<and>
          index_store.store_ok good ix1 disk (Fills dc @ writes) reads"
        using index_store.fill_committed[of good ix disk "[]" ?f "Fills dc @ writes" reads False disk] ok3 by auto
      moreover have "\<exists>dc4. DiskCacheQueueFill (dc2\<lparr>Index := ix\<rparr>) ?f workItem = Some dc4 \<and>
          index_store.store_ok good (Index dc4) disk (Fills dc4 @ writes) reads"
        using QueueFill_ok[of good "dc2\<lparr>Index := ix\<rparr>" disk ?f writes reads] ok3 f2 by simp
      ultimately show ?thesis
        using False en r f2 True s by (cases allocated) (auto simp: fill_block_def Let_def)
    qed
  qed
qed

lemma fill_loop_ok:
  assumes "index_store.store_ok (block_bytes content) (Index dc) disk (Fills dc @ writes) reads"
    "faithful content key offset n source" "end \<le> offset + n" "offset \<le> block_start b"
  shows "\<exists>dc'. fill_loop allocated workItem source offset end key b dc = Some dc' \<and>
    index_store.store_ok (block_bytes content) (Index dc') disk (Fills dc' @ writes) reads"
  using assms
proof (induction allocated workItem source offset "end" key b dc rule: fill_loop.induct)
  case (1 allocated workItem source offset "end" key b dc)
  show ?case
  proof (cases "block_start b \<ge> block_stop key b \<or> block_stop key b > end")
    case True
    then show ?thesis using 1 by (subst fill_loop.simps) simp
  next
    case False
    let ?k = "key\<lparr>Key_Block := of_nat b\<rparr>"
    have "fill_bytes source offset (block_start b) (block_stop key b) = block_bytes content ?k"
      using "1.prems" False by (intro fill_bytes_good[of content key offset n]) auto
    then obtain more dc1 where fb: "fill_block dc ?k source offset (block_start b) (block_stop key b)
        (allocated b) (workItem b) = Some (more, dc1)"
      and ok1: "index_store.store_ok (block_bytes content) (Index dc1) disk (Fills dc1 @ writes) reads"
      using fill_block_ok[OF "1.prems"(1)] by blast
    have "offset \<le> block_start (Suc b)" using "1.prems"(4) by (simp add: block_start_def)
    then have "more \<Longrightarrow> \<exists>dc'. fill_loop allocated workItem source offset end key (Suc b) dc1 = Some dc' \<and>
        index_store.store_ok (block_bytes content) (Index dc') disk (Fills dc' @ writes) reads"
      using "1.IH"[OF False fb refl _ ok1 "1.prems"(2,3)] by simp
    then show ?thesis using False fb ok1 by (subst fill_loop.simps) (cases more; simp)
  qed
qed

lemma DiskCacheFill_ok:
  assumes ok: "index_store.store_ok (block_bytes content) (Index dc) disk (Fills dc @ writes) reads"
    and f: "faithful content key offset len src"
  shows "\<exists>dc'. DiskCacheFill allocated workItem dc key (Some src) offset len = Some dc' \<and>
    index_store.store_ok (block_bytes content) (Index dc') disk (Fills dc' @ writes) reads"
proof -
  have "offset \<le> block_start ((offset + BS - 1) div BS)"
    using div_mult_mod_eq[of "offset + BS - 1" BS] mod_less_divisor[OF block_size_pos, of "offset + BS - 1"]
    unfolding block_start_def by linarith
  then show ?thesis
    using fill_loop_ok[OF ok f order_refl, of "(offset + BS - 1) div BS" allocated workItem] ok
    by (auto simp: DiskCacheFill_def)
qed

section \<open>Reads in flight\<close>

text \<open>
  A read in flight: the record, its parts not yet done, whether the issuer still holds it, the
  parts done with the bytes each reported (which no code keeps), and the read's pages by file
  position.
\<close>

record ACTIVE_READ =
  A_Read :: DISK_CACHE_READ
  A_Parts :: "read_part list"
  A_Issuer :: bool
  A_Got :: "(read_part \<times> nat) list"
  A_Buf :: "nat \<Rightarrow> UCHAR"

definition covers :: "nat \<Rightarrow> read_part \<Rightarrow> bool" where
  "covers x p \<longleftrightarrow> part_at p \<le> x \<and> x < part_at p + part_len p"

definition cover :: "read_part list \<Rightarrow> nat \<Rightarrow> nat" where
  "cover parts x = length (filter (covers x) parts)"

definition total_len :: "read_part list \<Rightarrow> nat" where
  "total_len parts = sum_list (map part_len parts)"

lemma tiles_cover:
  "tiles parts a b \<Longrightarrow> a \<le> b \<and> total_len parts = b - a \<and> (\<forall>x. cover parts x = (if a \<le> x \<and> x < b then 1 else 0))"
proof (induction parts arbitrary: a)
  case Nil
  then show ?case by (simp add: cover_def total_len_def)
next
  case (Cons p parts)
  then have IH: "a + part_len p \<le> b" "total_len parts = b - (a + part_len p)"
    "\<And>x. cover parts x = (if a + part_len p \<le> x \<and> x < b then 1 else 0)"
    and p: "part_at p = a" by auto
  have "cover (p # parts) x = (if a \<le> x \<and> x < b then 1 else 0)" for x
    using IH(1) IH(3)[of x] p by (auto simp: cover_def covers_def)
  then show ?case using IH(1,2) by (simp add: total_len_def)
qed

text \<open>The parts of a read, done or not, cover each of its bytes once.\<close>

definition active_ok :: "contents \<Rightarrow> ACTIVE_READ \<Rightarrow> bool" where
  "active_ok content a \<longleftrightarrow>
     (let r = A_Read a; got = A_Got a in
      (\<forall>p \<in> set (A_Parts a). part_ok r p) \<and>
      Outstanding r = int (length (A_Parts a)) + (if A_Issuer a then 1 else 0) \<and>
      Key_Block (Read_Key r) = of_nat (Read_Offset r div BS) \<and>
      Read_Offset r + Read_Valid r \<le> unat (Key_Size (Read_Key r)) \<and>
      length (Read_Slots r) \<le> 64 \<and>
      Bytes r = int (sum_list (map snd got)) \<and> (\<forall>g \<in> set got. snd g \<le> part_len (fst g)) \<and>
      total_len (A_Parts a) + total_len (map fst got) = Span r \<and>
      (\<forall>x. cover (A_Parts a) x + cover (map fst got) x =
         (if Read_Offset r \<le> x \<and> x < Read_Offset r + Span r then 1 else 0)) \<and>
      (Refetch r = 0 \<longrightarrow> Read_Valid r \<le> Span r) \<and>
      (\<forall>g \<in> set got. \<forall>x. part_at (fst g) \<le> x \<and> x < part_at (fst g) + snd g \<and>
         x < Read_Offset r + Read_Valid r \<longrightarrow> A_Buf a x = content (version (Read_Key r)) x))"

text \<open>
  When everything is done and every byte asked for was reported, the pages hold the file's
  bytes.
\<close>

lemma sum_list_full:
  assumes "\<forall>g \<in> set gs. snd g \<le> (f (fst g) :: nat)" "sum_list (map snd gs) = sum_list (map (\<lambda>g. f (fst g)) gs)"
  shows "\<forall>g \<in> set gs. snd g = f (fst g)"
  using assms
proof (induction gs)
  case (Cons g gs)
  have "sum_list (map snd gs) \<le> sum_list (map (\<lambda>g. f (fst g)) gs)"
    using Cons.prems(1) by (intro sum_list_mono) auto
  moreover have "snd g \<le> f (fst g)" using Cons.prems(1) by simp
  ultimately have "snd g = f (fst g)" "sum_list (map snd gs) = sum_list (map (\<lambda>g. f (fst g)) gs)"
    using Cons.prems(2) by auto
  moreover have "\<forall>h \<in> set gs. snd h \<le> f (fst h)" using Cons.prems(1) by simp
  ultimately have "\<forall>h \<in> set gs. snd h = f (fst h)" by (intro Cons.IH)
  with \<open>snd g = f (fst g)\<close> show ?case by (simp only: list.set ball_simps)
qed simp

lemma active_complete:
  assumes ok: "active_ok content a" and fin: "A_Parts a = []" and full: "Bytes (A_Read a) = int (Span (A_Read a))"
    and nr: "Refetch (A_Read a) = 0" and x: "Read_Offset (A_Read a) \<le> x" "x < Read_Offset (A_Read a) + Read_Valid (A_Read a)"
  shows "A_Buf a x = content (version (Read_Key (A_Read a))) x"
proof -
  let ?r = "A_Read a" and ?got = "A_Got a"
  have le: "\<forall>g \<in> set ?got. snd g \<le> part_len (fst g)" and vs: "Read_Valid ?r \<le> Span ?r"
    and tot: "total_len (map fst ?got) = Span ?r" and byt: "Bytes ?r = int (sum_list (map snd ?got))"
    and cov: "cover (map fst ?got) x = (if Read_Offset ?r \<le> x \<and> x < Read_Offset ?r + Span ?r then 1 else 0)"
    using ok fin nr unfolding active_ok_def Let_def by (auto simp: total_len_def cover_def)
  have "sum_list (map snd ?got) = sum_list (map (\<lambda>g. part_len (fst g)) ?got)"
    using tot byt full by (simp add: total_len_def o_def)
  then have eq: "\<forall>g \<in> set ?got. snd g = part_len (fst g)" by (rule sum_list_full[OF le])
  have "cover (map fst ?got) x = 1" using cov x vs by simp
  then have "filter (covers x) (map fst ?got) \<noteq> []" unfolding cover_def by (metis list.size(3) zero_neq_one)
  then obtain g where g: "g \<in> set ?got" "covers x (fst g)" by (auto simp: filter_empty_conv)
  then show ?thesis using ok eq x(2) unfolding active_ok_def Let_def covers_def by auto
qed

text \<open>A part ends: its bytes land in its own range of the pages.\<close>

lemma cover_split: "cover (as @ p # bs) x = (if covers x p then 1 else 0) + cover (as @ bs) x"
  by (simp add: cover_def)

lemma total_len_split: "total_len (as @ p # bs) = part_len p + total_len (as @ bs)"
  by (simp add: total_len_def)

lemma cover_Cons: "cover (p # ps) x = (if covers x p then 1 else 0) + cover ps x"
  by (simp add: cover_def)

lemma part_done_ok:
  assumes ok: "active_ok content a" and parts: "A_Parts a = as @ p # bs" and n: "n \<le> part_len p"
    and read': "same_request (A_Read a) read'" "Span read' = Span (A_Read a)"
      "Outstanding read' = Outstanding (A_Read a) - 1" "Bytes read' = Bytes (A_Read a) + int n"
      "Refetch read' = 0 \<longrightarrow> Refetch (A_Read a) = 0"
    and out: "\<And>x. \<not> covers x p \<Longrightarrow> buf' x = A_Buf a x"
    and inr: "\<And>x. part_at p \<le> x \<Longrightarrow> x < part_at p + n \<Longrightarrow>
      x < Read_Offset (A_Read a) + Read_Valid (A_Read a) \<Longrightarrow> buf' x = content (version (Read_Key (A_Read a))) x"
  shows "active_ok content (a\<lparr>A_Read := read', A_Parts := as @ bs, A_Got := (p, n) # A_Got a, A_Buf := buf'\<rparr>)"
proof -
  let ?r = "A_Read a" and ?got = "A_Got a"
  have base: "\<forall>q \<in> set (as @ p # bs). part_ok ?r q" "\<forall>g \<in> set ?got. snd g \<le> part_len (fst g)"
    and cov: "\<And>x. cover (as @ p # bs) x + cover (map fst ?got) x =
         (if Read_Offset ?r \<le> x \<and> x < Read_Offset ?r + Span ?r then 1 else 0)"
    and old: "\<And>g x. g \<in> set ?got \<Longrightarrow> part_at (fst g) \<le> x \<Longrightarrow> x < part_at (fst g) + snd g \<Longrightarrow>
         x < Read_Offset ?r + Read_Valid ?r \<Longrightarrow> A_Buf a x = content (version (Read_Key ?r)) x"
    using ok parts unfolding active_ok_def Let_def by auto
  have keep: "buf' x = content (version (Read_Key ?r)) x"
    if g: "g \<in> set ?got" "part_at (fst g) \<le> x" "x < part_at (fst g) + snd g" "x < Read_Offset ?r + Read_Valid ?r" for g x
  proof -
    have "covers x (fst g)" using g base(2) by (force simp: covers_def)
    then have "fst g \<in> set (filter (covers x) (map fst ?got))" using g(1) by simp
    then have "1 \<le> cover (map fst ?got) x" unfolding cover_def by (metis One_nat_def Suc_leI length_pos_if_in_set)
    then have "\<not> covers x p" using cov[of x] by (auto simp: cover_split split: if_splits)
    then show ?thesis using out old[OF g] by simp
  qed
  have po: "\<forall>q \<in> set (as @ bs). part_ok read' q" using base(1) same_request_part_ok[OF read'(1)] by simp
  let ?a = "a\<lparr>A_Read := read', A_Parts := as @ bs, A_Got := (p, n) # ?got, A_Buf := buf'\<rparr>"
  have sel: "A_Read ?a = read'" "A_Parts ?a = as @ bs" "A_Got ?a = (p, n) # ?got" "A_Buf ?a = buf'"
    "A_Issuer ?a = A_Issuer a" by simp_all
  have same: "Read_Key read' = Read_Key ?r" "Read_Offset read' = Read_Offset ?r" "Read_Valid read' = Read_Valid ?r"
    "Read_Slots read' = Read_Slots ?r" using read'(1) by (auto simp: same_request_def)
  have "cover (as @ bs) x + cover (map fst ((p, n) # ?got)) x =
      (if Read_Offset ?r \<le> x \<and> x < Read_Offset ?r + Span ?r then 1 else 0)" for x
    using cov[of x] by (simp add: cover_split cover_Cons)
  moreover have "total_len (as @ bs) + total_len (map fst ((p, n) # ?got)) = Span ?r"
    using ok parts unfolding active_ok_def Let_def by (simp add: total_len_def)
  moreover have "\<forall>g \<in> set ((p, n) # ?got). \<forall>x. part_at (fst g) \<le> x \<and> x < part_at (fst g) + snd g \<and>
      x < Read_Offset ?r + Read_Valid ?r \<longrightarrow> buf' x = content (version (Read_Key ?r)) x"
    using keep inr by simp
  moreover have "\<forall>g \<in> set ((p, n) # ?got). snd g \<le> part_len (fst g)" using base(2) n by simp
  moreover have "Outstanding read' = int (length (as @ bs)) + (if A_Issuer a then 1 else 0)"
    "Bytes read' = int (sum_list (map snd ((p, n) # ?got)))" "Refetch read' = 0 \<longrightarrow> Read_Valid ?r \<le> Span ?r"
    "Key_Block (Read_Key ?r) = of_nat (Read_Offset ?r div BS)" "length (Read_Slots ?r) \<le> 64"
    "Read_Offset ?r + Read_Valid ?r \<le> unat (Key_Size (Read_Key ?r))"
    using ok parts read'(3,4,5) unfolding active_ok_def Let_def by simp_all
  ultimately show ?thesis
    using po unfolding active_ok_def Let_def sel same read'(2) by blast
qed

section \<open>The whole cache\<close>

text \<open>\<open>W_Done\<close> logs each settled read: its key, its offset, what its completion was told, its pages.\<close>

record DISK_WORLD =
  W_Cache :: DISK_CACHE
  W_File :: "nat \<Rightarrow> UCHAR"
  W_Writes :: "DISK_CACHE_FILL list"
  W_Reads :: "ACTIVE_READ list"
  W_Done :: "(DISK_CACHE_KEY \<times> nat \<times> READ_OUTCOME \<times> (nat \<Rightarrow> UCHAR)) list"

definition settled ::
  "DISK_WORLD \<Rightarrow> ACTIVE_READ list \<Rightarrow> ACTIVE_READ \<Rightarrow> ACTIVE_READ list \<Rightarrow> DISK_CACHE \<Rightarrow> READ_OUTCOME option \<Rightarrow> DISK_WORLD" where
  "settled w as a bs dc out =
     (case out of
        None \<Rightarrow> w\<lparr>W_Cache := dc, W_Reads := as @ a # bs\<rparr>
      | Some outcome \<Rightarrow> w\<lparr>W_Cache := dc, W_Reads := as @ bs,
          W_Done := (Read_Key (A_Read a), Read_Offset (A_Read a), outcome, A_Buf a) # W_Done w\<rparr>)"

text \<open>What a response body is taken to be: of the version its entity tag names.\<close>

definition body_ok :: "contents \<Rightarrow> DISK_CACHE_KEY \<Rightarrow> nat \<Rightarrow> FILE_BUFFER \<Rightarrow> bool" where
  "body_ok content key offset fb \<longleftrightarrow> (DiskCacheIsVersion key fb \<longrightarrow>
     (\<exists>body. BodyBuffer fb = Some body \<and> faithful content key offset (BodyBufferSize fb) body))"

inductive disk_step :: "contents \<Rightarrow> DISK_WORLD \<Rightarrow> DISK_WORLD \<Rightarrow> bool" for content where
  FillBlock:
    "\<lbrakk> faithful content key offset n source; offset \<le> block_start b; block_start b < block_stop key b;
       block_stop key b \<le> offset + n;
       fill_block (W_Cache w) (key\<lparr>Key_Block := of_nat b\<rparr>) source offset (block_start b) (block_stop key b)
         allocated workItem = Some (goes_on, dc) \<rbrakk>
     \<Longrightarrow> disk_step content w (w\<lparr>W_Cache := dc\<rparr>)"
| WorkerSends:
    "\<lbrakk> FillWorkerQueued (W_Cache w); DiskCacheFillWorker (W_Cache w) sent = Some (WorkerSent dc fill) \<rbrakk>
     \<Longrightarrow> disk_step content w (w\<lparr>W_Cache := dc, W_Writes := fill # W_Writes w\<rparr>)"
| WorkerGivesUp:
    "\<lbrakk> FillWorkerQueued (W_Cache w); DiskCacheFillWorker (W_Cache w) sent = Some (WorkerGaveUp dc) \<rbrakk>
     \<Longrightarrow> disk_step content w (w\<lparr>W_Cache := dc\<rparr>)"
| WorkerEnds:
    "\<lbrakk> FillWorkerQueued (W_Cache w); DiskCacheFillWorker (W_Cache w) sent = Some (WorkerDone dc) \<rbrakk>
     \<Longrightarrow> disk_step content w (w\<lparr>W_Cache := dc\<rparr>)"
| WriteLands:
    "\<lbrakk> W_Writes w = as @ fill # bs; NT_SUCCESS status;
       DiskCacheFillDone (W_Cache w) fill status DISK_CACHE_BLOCK_SIZE = Some dc \<rbrakk>
     \<Longrightarrow> disk_step content w (w\<lparr>W_Cache := dc, W_Writes := as @ bs,
           W_File := write_bytes (W_File w) (unat (Fill_Slot fill) * BS) (Fill_Buffer fill)\<rparr>)"
| WriteFails:
    "\<lbrakk> W_Writes w = as @ fill # bs; \<not> (NT_SUCCESS status \<and> information = DISK_CACHE_BLOCK_SIZE);
       \<And>p. \<not> (unat (Fill_Slot fill) * BS \<le> p \<and> p < unat (Fill_Slot fill) * BS + BS) \<Longrightarrow> file p = W_File w p;
       DiskCacheFillDone (W_Cache w) fill status information = Some dc \<rbrakk>
     \<Longrightarrow> disk_step content w (w\<lparr>W_Cache := dc, W_Writes := as @ bs, W_File := file\<rparr>)"
| ReadStarts:
    "\<lbrakk> unat (Key_Size key) < 2 ^ 63; allowed \<le> DISK_CACHE_MAX_READ_FETCHES;
       BlorgDiskCacheRead start allocated (W_Cache w) key mdl offset len valid allowed = Some (Served n dc read parts) \<rbrakk>
     \<Longrightarrow> disk_step content w (w\<lparr>W_Cache := dc,
           W_Reads := \<lparr>A_Read = read, A_Parts = parts, A_Issuer = True, A_Got = [], A_Buf = buf\<rparr> # W_Reads w\<rparr>)"
| ReadRefused:
    "\<lbrakk> unat (Key_Size key) < 2 ^ 63; allowed \<le> DISK_CACHE_MAX_READ_FETCHES;
       BlorgDiskCacheRead start allocated (W_Cache w) key mdl offset len valid allowed = Some (NotServed n dc) \<rbrakk>
     \<Longrightarrow> disk_step content w (w\<lparr>W_Cache := dc\<rparr>)"
| IssuerSettles:
    "\<lbrakk> W_Reads w = as @ a # bs; A_Issuer a; DiskCacheReadSettle (W_Cache w) (A_Read a) = Some (dc, read, out) \<rbrakk>
     \<Longrightarrow> disk_step content w (settled w as (a\<lparr>A_Read := read, A_Issuer := False\<rparr>) bs dc out)"
| DiskPartEnds:
    "\<lbrakk> W_Reads w = as @ a # bs; A_Parts a = ps @ DiskPart at len d # qs; information \<le> len;
       \<And>x. \<not> (at \<le> x \<and> x < at + len) \<Longrightarrow> buf x = A_Buf a x;
       \<And>j. NT_SUCCESS status \<Longrightarrow> j < information \<Longrightarrow> buf (at + j) = W_File w (d + j);
       DiskCacheReadDone (W_Cache w) (A_Read a) status information = Some (dc, read, out) \<rbrakk>
     \<Longrightarrow> disk_step content w (settled w as (a\<lparr>A_Read := read, A_Parts := ps @ qs,
           A_Got := (DiskPart at len d, if NT_SUCCESS status then information else 0) # A_Got a, A_Buf := buf\<rparr>) bs dc out)"
| FetchPartEnds:
    "\<lbrakk> W_Reads w = as @ a # bs; A_Parts a = ps @ FetchPart at len # qs;
       NT_SUCCESS status \<Longrightarrow> body_ok content (Read_Key (A_Read a)) at fb;
       DiskCacheReadFetched allocated workItem (W_Cache w) (A_Read a) at len status fb = Some (bytes, dc, read, out) \<rbrakk>
     \<Longrightarrow> disk_step content w (settled w as (a\<lparr>A_Read := read, A_Parts := ps @ qs,
           A_Got := (FetchPart at len, length bytes) # A_Got a, A_Buf := write_bytes (A_Buf a) at bytes\<rparr>) bs dc out)"
| Lost: "disk_step content w (w\<lparr>W_Cache := DiskCacheLost (W_Cache w)\<rparr>)"

definition read_req :: "ACTIVE_READ \<Rightarrow> active_read" where
  "read_req a = (Read_Key (A_Read a), Read_Slots (A_Read a))"

definition done_ok :: "contents \<Rightarrow> DISK_CACHE_KEY \<times> nat \<times> READ_OUTCOME \<times> (nat \<Rightarrow> UCHAR) \<Rightarrow> bool" where
  "done_ok content e = (case e of (key, offset, out, buf) \<Rightarrow>
     NT_SUCCESS (Out_Status out) \<longrightarrow>
       \<not> Out_Refetch out \<and> (\<forall>x. offset \<le> x \<and> x < offset + Out_Valid out \<longrightarrow> buf x = content (version key) x))"

definition world_ok :: "contents \<Rightarrow> DISK_WORLD \<Rightarrow> bool" where
  "world_ok content w \<longleftrightarrow>
     cache_ok content (W_Cache w) (W_File w) (W_Writes w) (map read_req (W_Reads w)) \<and>
     (\<forall>a \<in> set (W_Reads w). active_ok content a) \<and> (\<forall>e \<in> set (W_Done w). done_ok content e)"

lemma ReadSettle_ok:
  assumes ok: "index_store.store_ok good (Index dc) disk fills (as @ (k, Read_Slots read) # bs)"
  shows "\<exists>dc' out. DiskCacheReadSettle dc read = Some (dc', read\<lparr>Outstanding := Outstanding read - 1\<rparr>, out) \<and>
    Fills dc' = Fills dc \<and>
    (case out of
       None \<Rightarrow> index_store.store_ok good (Index dc') disk fills (as @ (k, Read_Slots read) # bs)
     | Some oc \<Rightarrow> index_store.store_ok good (Index dc') disk fills (as @ bs) \<and> Outstanding read = 1 \<and>
         Out_Valid oc = Read_Valid read \<and>
         (NT_SUCCESS (Out_Status oc) \<longrightarrow> \<not> Out_Refetch oc \<and> Refetch read = 0 \<and> Bytes read = int (Span read)))"
proof (cases "Outstanding read = 1")
  case False
  then show ?thesis using ok by (simp add: DiskCacheReadSettle_def Let_def)
next
  case True
  obtain ix' where "BlorgDiskCacheIndexUnpin (Index dc) (Read_Slots read) (NT_SUCCESS (settle_status read)) = Some ix'"
    "index_store.store_ok good ix' disk fills (as @ bs)"
    using index_store.read_unpinned[OF ok, of "NT_SUCCESS (settle_status read)"] by auto
  moreover have "NT_SUCCESS (settle_status read) \<longrightarrow>
      settle_refetch read = 0 \<and> Refetch read = 0 \<and> Bytes read = int (Span read)"
    by (auto simp: settle_status_def settle_refetch_def DISK_CACHE_READ_FAILED_def)
  ultimately show ?thesis using True by (simp add: DiskCacheReadSettle_def)
qed

lemma settled_ok:
  assumes w: "world_ok content w" and reads: "W_Reads w = as @ a # bs"
    and a': "active_ok content a'" "same_request (A_Read a) (A_Read a')"
    and fills: "Fills dc = Fills dc0"
    and c0: "cache_ok content dc0 (W_File w) (W_Writes w) (map read_req (W_Reads w))"
    and out: "case out of
       None \<Rightarrow> index_store.store_ok (block_bytes content) (Index dc) (slot_bytes (W_File w)) (Fills dc0 @ W_Writes w) (map read_req (W_Reads w))
     | Some oc \<Rightarrow> index_store.store_ok (block_bytes content) (Index dc) (slot_bytes (W_File w)) (Fills dc0 @ W_Writes w) (map read_req (as @ bs)) \<and>
         A_Parts a' = [] \<and> Out_Valid oc = Read_Valid (A_Read a') \<and>
         (NT_SUCCESS (Out_Status oc) \<longrightarrow> \<not> Out_Refetch oc \<and> Refetch (A_Read a') = 0 \<and> Bytes (A_Read a') = int (Span (A_Read a')))"
  shows "world_ok content (settled w as a' bs dc out)"
proof (cases out)
  case None
  have "read_req a' = read_req a" using a'(2) by (simp add: read_req_def same_request_def)
  then show ?thesis using w reads a'(1) out None fills by (simp add: world_ok_def settled_def)
next
  case (Some oc)
  then have o: "index_store.store_ok (block_bytes content) (Index dc) (slot_bytes (W_File w)) (Fills dc @ W_Writes w) (map read_req (as @ bs))"
    "A_Parts a' = []" "Out_Valid oc = Read_Valid (A_Read a')"
    "NT_SUCCESS (Out_Status oc) \<Longrightarrow> \<not> Out_Refetch oc \<and> Refetch (A_Read a') = 0 \<and> Bytes (A_Read a') = int (Span (A_Read a'))"
    using out fills by simp_all
  have "done_ok content (Read_Key (A_Read a'), Read_Offset (A_Read a'), oc, A_Buf a')"
    unfolding done_ok_def using o(2,3,4) active_complete[OF a'(1)] by auto
  then show ?thesis using w reads o(1) Some by (simp add: world_ok_def settled_def)
qed

text \<open>A byte of a part of the cache file is the file's byte at that position.\<close>

lemma disk_part_bytes:
  assumes ok: "cache_ok content dc file writes reads" and r: "(Read_Key read, Read_Slots read) \<in> set reads"
    and a: "Key_Block (Read_Key read) = of_nat (Read_Offset read div BS)"
      "Read_Offset read + Read_Valid read \<le> unat (Key_Size (Read_Key read))"
    and p: "part_ok read (DiskPart at len d)" "j < len" "at + j < Read_Offset read + Read_Valid read"
  shows "file (d + j) = content (version (Read_Key read)) (at + j)"
proof -
  let ?f = "Read_Offset read div BS"
  define b where "b = (at + j) div BS - ?f"
  have pb: "?f \<le> (at + j) div BS" "b < length (Read_Slots read)" "Read_Slots read ! b \<noteq> DISK_CACHE_NO_SLOT"
    "d + j = unat (Read_Slots read ! b) * BS + (at + j) mod BS"
    using p(1,2) by (auto simp: part_ok_def b_def Let_def)
  have "slot_bytes file (Read_Slots read ! b) = block_bytes content (block_key (Read_Key read) b)"
    using index_store.served_bytes[OF ok r, of b] pb by simp
  then have "slot_bytes file (Read_Slots read ! b) ! ((at + j) mod BS) =
      block_bytes content (block_key (Read_Key read) b) ! ((at + j) mod BS)" by simp
  moreover have "slot_bytes file (Read_Slots read ! b) ! ((at + j) mod BS) = file (d + j)"
    by (simp add: slot_bytes_def pb(4))
  moreover have ks: "at + j < unat (Key_Size (Read_Key read))" using p(3) a(2) by linarith
  have "unat (Key_Block (block_key (Read_Key read) b)) = (at + j) div BS"
  proof -
    have "(at + j) div BS \<le> at + j" by (rule div_le_dividend)
    also note ks
    also have "unat (Key_Size (Read_Key read)) < 2 ^ LENGTH(64)" by (rule unsigned_less)
    finally have "unat (of_nat ((at + j) div BS) :: ULONG64) = (at + j) div BS" by (rule unat_of_nat_less)
    moreover have "Key_Block (block_key (Read_Key read) b) = of_nat ((at + j) div BS)"
      using pb(1) by (simp add: block_key_def a(1) b_def of_nat_add[symmetric] del: of_nat_add)
    ultimately show ?thesis by simp
  qed
  then have "block_bytes content (block_key (Read_Key read) b) ! ((at + j) mod BS) =
      content (version (Read_Key read)) (at + j)"
    using ks by (simp add: block_bytes_def Let_def block_key_def)
  ultimately show ?thesis by simp
qed

section \<open>Starting a read\<close>

lemma runs_all_held: "length (held ss) = length ss \<Longrightarrow> runs ss = 0"
proof -
  assume "length (held ss) = length ss"
  then have "length (filter (\<lambda>s. \<not> s \<noteq> DISK_CACHE_NO_SLOT) ss) = 0"
    using sum_length_filter_compl[of "\<lambda>s. s \<noteq> DISK_CACHE_NO_SLOT" ss] by (simp add: held_def)
  then have "\<forall>s \<in> set ss. s \<noteq> DISK_CACHE_NO_SLOT" by (simp add: filter_empty_conv)
  then have "run_starts ss = {}" by (auto simp: run_starts_def)
  then show ?thesis by (simp add: runs_def)
qed

lemma index_view_small:
  "index_inv ix \<Longrightarrow> index_view ix s = Some e \<Longrightarrow> unat s \<le> 2 ^ 20"
  by (auto simp: index_view_def index_inv_def index_shape_def split: if_splits)

lemma read_slots_small:
  assumes "index_store.store_ok good ix disk fills ((k, ss) # reads)" "length ss \<le> 64"
  shows "slots_small ss"
  unfolding slots_small_def
proof (intro conjI ballI)
  show "length ss \<le> 2 ^ 20" using assms(2) by simp
  fix s assume "s \<in> set ss"
  then obtain i where i: "i < length ss" "ss ! i = s" by (auto simp: in_set_conv_nth)
  then have "s \<noteq> DISK_CACHE_NO_SLOT \<Longrightarrow> \<exists>p. index_view ix s = Some (block_key k i, DiskCacheSlotValid, p)"
    using index_store.store_okD(5)[OF assms(1), of "(k, ss)"] by (auto simp: names_blocks_def)
  then show "s = DISK_CACHE_NO_SLOT \<or> unat s \<le> 2 ^ 20"
    using index_view_small[OF index_store.store_okD(1)[OF assms(1)], of s] by blast
qed

definition fresh_read :: "DISK_CACHE_READ \<Rightarrow> read_part list \<Rightarrow> (nat \<Rightarrow> UCHAR) \<Rightarrow> ACTIVE_READ" where
  "fresh_read read parts buf = \<lparr>A_Read = read, A_Parts = parts, A_Issuer = True, A_Got = [], A_Buf = buf\<rparr>"

lemma fresh_read_ok:
  assumes fl: "in_flight read parts" and "Refetch read = 0 \<longrightarrow> Read_Valid read \<le> Span read"
    "Key_Block (Read_Key read) = of_nat (Read_Offset read div BS)"
    "Read_Offset read + Read_Valid read \<le> unat (Key_Size (Read_Key read))" "length (Read_Slots read) \<le> 64"
  shows "active_ok content (fresh_read read parts buf)"
proof -
  have "tiles parts (Read_Offset read) (Read_Offset read + Span read)" using fl by (simp add: in_flight_def)
  from tiles_cover[OF this] show ?thesis
    using assms unfolding active_ok_def fresh_read_def in_flight_def Let_def
    by (simp add: cover_def total_len_def)
qed

text \<open>What the answer to a read means for the cache, the reads in flight being \<open>reads\<close>.\<close>

definition answer_ok :: "contents \<Rightarrow> (nat \<Rightarrow> UCHAR) \<Rightarrow> DISK_CACHE_FILL list \<Rightarrow> active_read list \<Rightarrow> read_start \<Rightarrow> bool" where
  "answer_ok content file writes reads answer =
     (case answer of
        NotServed n dc \<Rightarrow> cache_ok content dc file writes reads \<and> n \<le> DISK_CACHE_MAX_READ_FETCHES
      | Served n dc read parts \<Rightarrow>
          cache_ok content dc file writes ((Read_Key read, Read_Slots read) # reads) \<and>
          (\<forall>buf. active_ok content (fresh_read read parts buf)) \<and> n = FetchCount read \<and>
          n \<le> DISK_CACHE_MAX_READ_FETCHES)"

lemma not_served_ok:
  assumes "cache_ok content dc file writes ((k, ss) # reads)" "n \<le> DISK_CACHE_MAX_READ_FETCHES"
  shows "\<exists>ans. not_served n dc ss = Some ans \<and> answer_ok content file writes reads ans"
proof -
  obtain ix where "BlorgDiskCacheIndexUnpin (Index dc) ss False = Some ix"
    "index_store.store_ok (block_bytes content) ix (slot_bytes file) (Fills dc @ writes) reads"
    using index_store.read_unpinned[of "block_bytes content" "Index dc" "slot_bytes file" "Fills dc @ writes" "[]" "(k, ss)" reads False]
      assms(1) by auto
  then show ?thesis using assms(2) by (simp add: not_served_def answer_ok_def)
qed

lemma runs_to_fetch_le: "r \<le> DISK_CACHE_MAX_READ_FETCHES \<Longrightarrow> runs_to_fetch ss i n r \<le> DISK_CACHE_MAX_READ_FETCHES"
  by (induction n arbitrary: i r) auto

lemma start_read_ok:
  assumes ok: "cache_ok content dc file writes ((k, ss) # reads)"
    and rq: "request_ok \<lparr>Read_Key = k, Read_Offset = offset, Outstanding = 1, Read_Status = STATUS_SUCCESS,
       Bytes = 0, Span = 0, DiskSpan = 0, Read_Valid = valid, FetchCount = 0, Refetch = 0,
       Read_Slots = ss\<rparr> first span"
    and k: "Key_Block k = of_nat first" "offset + valid \<le> unat (Key_Size k)" and l: "length ss \<le> 64"
  shows "\<exists>ans. start_read start dc k offset valid span first ss = Some ans \<and> answer_ok content file writes reads ans"
proof -
  let ?read = "\<lparr>Read_Key = k, Read_Offset = offset, Outstanding = 1, Read_Status = STATUS_SUCCESS,
       Bytes = 0, Span = 0, DiskSpan = 0, Read_Valid = valid, FetchCount = 0, Refetch = 0, Read_Slots = ss\<rparr>"
  have f: "first = offset div BS" "0 < valid" "valid \<le> span" "0 < length ss" using rq by (auto simp: request_ok_def)
  have "run_pos ?read first 0 0" using f by (simp add: run_pos_def)
  then have "loop_at ?read first span 0 []"
    using rq by (auto simp: loop_at_def in_flight_def runs_before_def)
  from issue_loop_spec[OF this, of start] obtain going read' parts'
    where il: "issue_loop start span first 0 ?read [] = Some (going, read', parts')"
    and st: "going \<Longrightarrow> started ?read read' parts'" by auto
  show ?thesis
  proof (cases going)
    case False
    then show ?thesis using il not_served_ok[OF ok, of 0] by (simp add: start_read_def)
  next
    case True
    from st[OF this] have s: "Read_Key read' = k" "Read_Offset read' = offset" "Read_Valid read' = valid"
      "Read_Slots read' = ss" "in_flight read' parts'" "Refetch read' = 0 \<longrightarrow> valid \<le> Span read'"
      "FetchCount read' \<le> runs ss" by (auto simp: started_def same_request_def)
    then have "active_ok content (fresh_read read' parts' buf)" for buf
      using k l f by (intro fresh_read_ok) auto
    then show ?thesis using True il ok s rq by (simp add: start_read_def answer_ok_def request_ok_def)
  qed
qed

lemma serve_pinned_ok:
  assumes ok: "cache_ok content dc file writes ((k, ss) # reads)"
    and rd: "4096 dvd offset" "4096 dvd span" "0 < valid" "valid \<le> span" "span < valid + 4096"
      "offset + valid \<le> unat (Key_Size k)" "first = offset div BS"
      "length ss = Suc ((offset + span - 1) div BS - first)"
    and k: "Key_Block k = of_nat first" and l: "length ss \<le> 64" and b: "unat blocks = length ss"
    and al: "allowed \<le> DISK_CACHE_MAX_READ_FETCHES"
  shows "\<exists>ans. serve_pinned start dc k offset valid span first blocks allowed (of_nat (length (held ss))) ss = Some ans \<and>
    answer_ok content file writes reads ans"
proof -
  have hl: "length (held ss) \<le> length ss" by (simp add: held_def)
  have hw: "unat (of_nat (length (held ss)) :: ULONG) = length (held ss)"
    using hl l by (intro unat_of_nat_less) simp
  show ?thesis
  proof (cases "length (held ss) = 0 \<or> (allowed = 0 \<and> of_nat (length (held ss)) \<noteq> blocks)")
    case True
    have "DiskCacheRunsToFetch ss \<le> DISK_CACHE_MAX_READ_FETCHES"
      unfolding DiskCacheRunsToFetch_def by (rule runs_to_fetch_le) simp
    then show ?thesis using True not_served_ok[OF ok] by (auto simp: serve_pinned_def)
  next
    case False
    then have h0: "(of_nat (length (held ss)) :: ULONG) \<noteq> 0" using hw by (metis unat_0)
    have ar: "0 < allowed \<or> runs ss = 0"
      using False b hw by (metis gr0I runs_all_held)
    have lm: "length ss \<le> MAXULONG" using l by (simp add: MAXULONG_def)
    obtain ss' ix' where pl: "BlorgDiskCacheIndexPlanRead (Index dc) ss (of_nat (length (held ss))) allowed =
        Some (of_nat (length (held ss')), ss', ix')"
      and ls: "length ss' = length ss" "runs ss' = min (runs ss) allowed"
      and ok': "index_store.store_ok (block_bytes content) ix' (slot_bytes file) (Fills dc @ writes) ((k, ss') # reads)"
      using index_store.read_planned[OF ok lm ar] by blast
    let ?dc = "dc\<lparr>Index := ix'\<rparr>"
    have ok2: "cache_ok content ?dc file writes ((k, ss') # reads)" using ok' by simp
    have sv: "\<exists>ans. start_read start ?dc k offset valid span first ss' = Some ans \<and> answer_ok content file writes reads ans"
      using rd ls l al read_slots_small[OF ok'] by (intro start_read_ok[OF ok2 _ k]) (auto simp: request_ok_def)
    show ?thesis
      using False h0 pl sv not_served_ok[OF ok2, of 0] by (auto simp: serve_pinned_def)
  qed
qed

lemma Read_ok:
  assumes ok: "cache_ok content dc file writes reads" and sz: "unat (Key_Size key) < 2 ^ 63"
    and al: "allowed \<le> DISK_CACHE_MAX_READ_FETCHES"
  shows "\<exists>ans. BlorgDiskCacheRead start allocated dc key mdl offset len valid allowed = Some ans \<and>
    answer_ok content file writes reads ans"
proof (cases "read_refused dc key mdl offset len valid")
  case True
  then show ?thesis using ok by (simp add: BlorgDiskCacheRead_def answer_ok_def)
next
  case False
  define span where "span = page_round valid"
  define first where "first = drop_bit DISK_CACHE_BLOCK_SHIFT offset"
  define hi where "hi = drop_bit DISK_CACHE_BLOCK_SHIFT (offset + ucast span - 1)"
  define blocks where "blocks = (ucast (hi - first + 1) :: ULONG)"
  note rw = read_words[OF False sz, folded span_def first_def, folded hi_def, folded blocks_def]
  obtain entered dc1 where en: "DiskCacheEnter dc = (entered, dc1)" by fastforce
  have f1: "Index dc1 = Index dc" "Fills dc1 = Fills dc" using Enter_fields[OF en] by auto
  let ?k1 = "key\<lparr>Key_Block := first\<rparr>"
  have unf: "BlorgDiskCacheRead start allocated dc key mdl offset len valid allowed =
     (if blocks > DISK_CACHE_MAX_READ_BLOCKS then Some (NotServed 0 dc)
      else if \<not> entered then Some (NotServed 0 dc1)
      else if \<not> allocated then Some (NotServed 0 (DiskCacheLeave dc1))
      else do {
            (held, slots, ix) \<leftarrow> BlorgDiskCacheIndexPinHeld (Index dc1) ?k1 hi;
            serve_pinned start (dc1\<lparr>Index := ix\<rparr>) ?k1 (unat offset) (unat valid)
              (unat span) (unat first) blocks allowed held slots
          })"
    unfolding BlorgDiskCacheRead_def if_not_P[OF False] Let_def span_def first_def hi_def blocks_def en by simp
  show ?thesis
  proof (cases "blocks > DISK_CACHE_MAX_READ_BLOCKS \<or> \<not> entered \<or> \<not> allocated")
    case True
    then show ?thesis unfolding unf using ok f1 by (auto simp: answer_ok_def)
  next
    case start: False
    obtain ss ix where p: "BlorgDiskCacheIndexPinHeld (Index dc1) ?k1 hi = Some (of_nat (length (held ss)), ss, ix)"
      and ls: "length ss = unat blocks"
      and ok1: "index_store.store_ok (block_bytes content) ix (slot_bytes file) (Fills dc @ writes) ((?k1, ss) # reads)"
      using index_store.read_pinned[OF ok, of ?k1 hi] rw(9,10,11) f1 by (auto simp: Suc_diff_le word_le_nat_alt)
    have l64: "length ss \<le> 64" using start ls by (simp add: DISK_CACHE_MAX_READ_BLOCKS_def word_less_nat_alt not_less)
    have "\<exists>ans. serve_pinned start (dc1\<lparr>Index := ix\<rparr>) ?k1 (unat offset) (unat valid) (unat span) (unat first)
        blocks allowed (of_nat (length (held ss))) ss = Some ans \<and> answer_ok content file writes reads ans"
    proof (rule serve_pinned_ok[OF _ rw(1-5) _ rw(7) _ _ l64 _ al])
      show "Key_Block ?k1 = of_nat (unat first)" by simp
    qed (use ok1 f1 rw(6,8,9) ls in simp_all)
    then show ?thesis unfolding unf using start p by simp
  qed
qed

section \<open>Every step keeps the cache right\<close>

lemma world_okD:
  assumes "world_ok content w"
  shows "cache_ok content (W_Cache w) (W_File w) (W_Writes w) (map read_req (W_Reads w))"
    "a \<in> set (W_Reads w) \<Longrightarrow> active_ok content a" "e \<in> set (W_Done w) \<Longrightarrow> done_ok content e"
  using assms by (auto simp: world_ok_def)

lemma world_ok_cache:
  assumes "world_ok content w" "cache_ok content dc file writes (map read_req (W_Reads w))"
  shows "world_ok content (w\<lparr>W_Cache := dc, W_File := file, W_Writes := writes\<rparr>)"
    "file = W_File w \<Longrightarrow> writes = W_Writes w \<Longrightarrow> world_ok content (w\<lparr>W_Cache := dc\<rparr>)"
  using assms by (auto simp: world_ok_def)

lemma store_ok_perm:
  assumes "index_store.store_ok good ix disk fills reads" "set fills' = set fills" "distinct (map Fill_Slot fills')"
  shows "index_store.store_ok good ix disk fills' reads"
  using assms unfolding index_store.store_ok_def by auto

lemma Worker_ok:
  assumes w: "world_ok content w" and st: "DiskCacheFillWorker (W_Cache w) sent = Some r"
  shows "case r of WorkerDone dc \<Rightarrow> world_ok content (w\<lparr>W_Cache := dc\<rparr>)
    | WorkerGaveUp dc \<Rightarrow> world_ok content (w\<lparr>W_Cache := dc\<rparr>)
    | WorkerSent dc fill \<Rightarrow> world_ok content (w\<lparr>W_Cache := dc, W_Writes := fill # W_Writes w\<rparr>)"
proof (cases "Fills (W_Cache w)")
  case Nil
  then show ?thesis using st w by (auto simp: DiskCacheFillWorker_def world_ok_def)
next
  case (Cons fill rest)
  note ok = world_okD(1)[OF w]
  let ?dc1 = "(W_Cache w)\<lparr>Fills := rest\<rparr>"
  have "index_store.store_ok (block_bytes content) (Index ?dc1) (slot_bytes (W_File w)) ([] @ fill # rest @ W_Writes w)
      (map read_req (W_Reads w))" using ok Cons by simp
  from FillSettle_ok[OF this, of False "slot_bytes (W_File w)"] obtain dc'
    where s: "DiskCacheFillSettle ?dc1 fill False = Some dc'" "Fills dc' = rest"
    and ok': "index_store.store_ok (block_bytes content) (Index dc') (slot_bytes (W_File w)) (rest @ W_Writes w) (map read_req (W_Reads w))"
    by auto
  have "index_store.store_ok (block_bytes content) (Index ?dc1) (slot_bytes (W_File w)) (rest @ fill # W_Writes w)
      (map read_req (W_Reads w))"
    using store_ok_perm[OF ok, of "rest @ fill # W_Writes w"] Cons index_store.store_okD(3)[OF ok] by auto
  then have sent: "world_ok content (w\<lparr>W_Cache := ?dc1, W_Writes := fill # W_Writes w\<rparr>)"
    using w by (simp add: world_ok_def)
  have gave: "world_ok content (w\<lparr>W_Cache := dc'\<rparr>)" using w ok' s(2) by (simp add: world_ok_def)
  show ?thesis
    using st Cons s(1) sent gave by (auto simp: DiskCacheFillWorker_def Let_def split: if_splits)
qed

lemma FillDone_ok:
  assumes w: "world_ok content w" and wr: "W_Writes w = as @ fill # bs"
    and fd: "DiskCacheFillDone (W_Cache w) fill status information = Some dc"
    and landed: "NT_SUCCESS status \<and> information = BS \<Longrightarrow> slot_bytes file (Fill_Slot fill) = Fill_Buffer fill"
    and out: "\<And>p. \<not> (unat (Fill_Slot fill) * BS \<le> p \<and> p < unat (Fill_Slot fill) * BS + BS) \<Longrightarrow> file p = W_File w p"
  shows "world_ok content (w\<lparr>W_Cache := dc, W_Writes := as @ bs, W_File := file\<rparr>)"
proof -
  let ?wr = "NT_SUCCESS status \<and> information = BS"
  let ?dc = "if \<not> ?wr then DiskCacheLost (W_Cache w) else W_Cache w"
  have "index_store.store_ok (block_bytes content) (Index ?dc) (slot_bytes (W_File w))
      ((Fills (W_Cache w) @ as) @ fill # bs) (map read_req (W_Reads w))"
    using world_okD(1)[OF w] wr by simp
  from FillSettle_ok[OF this, of ?wr "slot_bytes file"] obtain dc'
    where "DiskCacheFillSettle ?dc fill ?wr = Some dc'" "Fills dc' = Fills (W_Cache w)"
    "index_store.store_ok (block_bytes content) (Index dc') (slot_bytes file) (Fills (W_Cache w) @ as @ bs) (map read_req (W_Reads w))"
    using landed slot_bytes_outside[OF out] by auto
  then show ?thesis using fd w unfolding DiskCacheFillDone_def Let_def by (simp add: world_ok_def)
qed

lemma fill_buffer_length:
  assumes "world_ok content w" "fill \<in> set (W_Writes w)"
  shows "length (Fill_Buffer fill) = BS"
  using index_store.store_okD(4)[OF world_okD(1)[OF assms(1)], of fill] assms(2) by auto

lemma covers_DiskPart [simp]: "covers x (DiskPart at len d) \<longleftrightarrow> at \<le> x \<and> x < at + len"
  "covers x (FetchPart at len) \<longleftrightarrow> at \<le> x \<and> x < at + len"
  by (simp_all add: covers_def)

lemma active_parts_nil:
  "active_ok content a \<Longrightarrow> Outstanding (A_Read a) = 0 \<Longrightarrow> A_Parts a = []"
  unfolding active_ok_def Let_def by (auto split: if_splits)

lemma part_ok_Outstanding [simp]: "part_ok (r\<lparr>Outstanding := n\<rparr>) = part_ok r"
  by (rule ext, rule same_request_part_ok) (simp add: same_request_def)

lemma active_issuer:
  assumes "active_ok content a" "A_Issuer a"
  shows "active_ok content (a\<lparr>A_Read := (A_Read a)\<lparr>Outstanding := Outstanding (A_Read a) - 1\<rparr>, A_Issuer := False\<rparr>)"
  using assms unfolding active_ok_def Let_def by simp

text \<open>Dropping one hold of a read in flight, whatever its counters became.\<close>

lemma settle_step:
  assumes w: "world_ok content w" and reads: "W_Reads w = as @ a # bs"
    and c: "cache_ok content dc (W_File w) (W_Writes w) (map read_req (W_Reads w))"
    and st: "DiskCacheReadSettle dc read = Some (dc', read', out)" and sr: "same_request (A_Read a) read"
    and a': "active_ok content a'" "A_Read a' = read\<lparr>Outstanding := Outstanding read - 1\<rparr>"
  shows "world_ok content (settled w as a' bs dc' out)" "read' = read\<lparr>Outstanding := Outstanding read - 1\<rparr>"
proof -
  have rr: "map read_req (W_Reads w) = map read_req as @ (Read_Key (A_Read a), Read_Slots read) # map read_req bs"
    using reads sr by (simp add: read_req_def same_request_def)
  note rs = ReadSettle_ok[of "block_bytes content" dc "slot_bytes (W_File w)" "Fills dc @ W_Writes w"
      "map read_req as" "Read_Key (A_Read a)" read "map read_req bs", folded rr, OF c]
  show "read' = read\<lparr>Outstanding := Outstanding read - 1\<rparr>" using rs st by auto
  have "same_request (A_Read a) (A_Read a')" using sr a'(2) by (simp add: same_request_def)
  then show "world_ok content (settled w as a' bs dc' out)"
  proof (rule settled_ok[OF w reads a'(1) _ _ c])
    show "Fills dc' = Fills dc" using rs st by auto
    have "Outstanding read = 1 \<Longrightarrow> A_Parts a' = []" using active_parts_nil[OF a'(1)] a'(2) by simp
    then show "case out of
       None \<Rightarrow> index_store.store_ok (block_bytes content) (Index dc') (slot_bytes (W_File w)) (Fills dc @ W_Writes w) (map read_req (W_Reads w))
     | Some oc \<Rightarrow> index_store.store_ok (block_bytes content) (Index dc') (slot_bytes (W_File w)) (Fills dc @ W_Writes w) (map read_req (as @ bs)) \<and>
         A_Parts a' = [] \<and> Out_Valid oc = Read_Valid (A_Read a') \<and>
         (NT_SUCCESS (Out_Status oc) \<longrightarrow> \<not> Out_Refetch oc \<and> Refetch (A_Read a') = 0 \<and> Bytes (A_Read a') = int (Span (A_Read a')))"
      using rs st a'(2) by (cases out) auto
  qed
qed

lemma disk_part_ends:
  assumes w: "world_ok content w" and reads: "W_Reads w = as @ a # bs"
    and parts: "A_Parts a = ps @ DiskPart at len d # qs" and inf: "information \<le> len"
    and out: "\<And>x. \<not> (at \<le> x \<and> x < at + len) \<Longrightarrow> buf x = A_Buf a x"
    and got: "\<And>j. NT_SUCCESS status \<Longrightarrow> j < information \<Longrightarrow> buf (at + j) = W_File w (d + j)"
    and st: "DiskCacheReadDone (W_Cache w) (A_Read a) status information = Some (dc, read, oc)"
  shows "world_ok content (settled w as (a\<lparr>A_Read := read, A_Parts := ps @ qs,
     A_Got := (DiskPart at len d, if NT_SUCCESS status then information else 0) # A_Got a, A_Buf := buf\<rparr>) bs dc oc)"
proof -
  let ?r = "A_Read a" and ?p = "DiskPart at len d" and ?n = "if NT_SUCCESS status then information else 0"
  define r0 where "r0 = (if NT_SUCCESS status then ?r\<lparr>Bytes := Bytes ?r + int information\<rparr>
    else ?r\<lparr>Refetch := Refetch ?r OR DISK_CACHE_READ_FAILED\<rparr>)"
  define dc0 where "dc0 = (if NT_SUCCESS status then W_Cache w else DiskCacheLost (W_Cache w))"
  have s0: "DiskCacheReadSettle dc0 r0 = Some (dc, read, oc)"
    using st unfolding DiskCacheReadDone_def r0_def dc0_def by (cases "NT_SUCCESS status") simp_all
  note a = world_okD(2)[OF w, of a]
  have aok: "active_ok content a" using a reads by simp
  have r0: "same_request ?r r0" "Span r0 = Span ?r" "Outstanding r0 = Outstanding ?r" "Bytes r0 = Bytes ?r + int ?n"
    "Refetch r0 = 0 \<longrightarrow> Refetch ?r = 0"
    by (simp_all add: r0_def same_request_def or_eq_0_iff)
  have byte: "buf x = content (version (Read_Key ?r)) x"
    if x: "at \<le> x" "x < at + ?n" "x < Read_Offset ?r + Read_Valid ?r" for x
  proof -
    obtain j where j: "x = at + j" using x(1) by (auto simp: le_iff_add)
    with x(2) have jn: "NT_SUCCESS status" "j < information" by (auto split: if_splits)
    have "W_File w (d + j) = content (version (Read_Key ?r)) (at + j)"
    proof (rule disk_part_bytes[OF world_okD(1)[OF w], where at = at and len = len and d = d])
      show "(Read_Key ?r, Read_Slots ?r) \<in> set (map read_req (W_Reads w))" using reads by (simp add: read_req_def)
    qed (use aok parts jn inf x(3) j in \<open>auto simp: active_ok_def Let_def\<close>)
    then show ?thesis using got[OF jn] j by simp
  qed
  let ?a' = "a\<lparr>A_Read := r0\<lparr>Outstanding := Outstanding r0 - 1\<rparr>, A_Parts := ps @ qs,
      A_Got := (?p, ?n) # A_Got a, A_Buf := buf\<rparr>"
  have "active_ok content ?a'"
    by (rule part_done_ok[OF aok parts]) (use r0 inf out byte in \<open>auto simp: same_request_def\<close>)
  from settle_step[OF w reads _ s0 r0(1) this] world_okD(1)[OF w]
  show ?thesis by (simp add: dc0_def)
qed

lemma write_bytes_covers:
  "length bytes \<le> len \<Longrightarrow> \<not> covers x (FetchPart at len) \<Longrightarrow> write_bytes buf at bytes x = buf x"
  by (auto simp: write_bytes_def)

lemma fetch_part_ends:
  assumes w: "world_ok content w" and reads: "W_Reads w = as @ a # bs"
    and parts: "A_Parts a = ps @ FetchPart at len # qs"
    and body: "NT_SUCCESS status \<Longrightarrow> body_ok content (Read_Key (A_Read a)) at fb"
    and st: "DiskCacheReadFetched allocated workItem (W_Cache w) (A_Read a) at len status fb = Some (bytes, dc, read, oc)"
  shows "world_ok content (settled w as (a\<lparr>A_Read := read, A_Parts := ps @ qs,
     A_Got := (FetchPart at len, length bytes) # A_Got a, A_Buf := write_bytes (A_Buf a) at bytes\<rparr>) bs dc oc)"
proof -
  let ?r = "A_Read a" and ?p = "FetchPart at len" and ?fresh = "NT_SUCCESS status \<and> DiskCacheIsVersion (Read_Key (A_Read a)) fb"
  have aok: "active_ok content a" using world_okD(2)[OF w, of a] reads by simp
  note c = world_okD(1)[OF w]
  have "\<exists>dc0 r0. DiskCacheReadSettle dc0 r0 = Some (dc, read, oc) \<and>
      cache_ok content dc0 (W_File w) (W_Writes w) (map read_req (W_Reads w)) \<and>
      same_request ?r r0 \<and> Span r0 = Span ?r \<and> Outstanding r0 = Outstanding ?r \<and>
      Bytes r0 = Bytes ?r + int (length bytes) \<and> (Refetch r0 = 0 \<longrightarrow> Refetch ?r = 0) \<and>
      length bytes \<le> len \<and> (\<forall>j < length bytes. bytes ! j = content (version (Read_Key ?r)) (at + j))"
  proof (cases ?fresh)
    case True
    then obtain bd where bd: "BodyBuffer fb = Some bd" "faithful content (Read_Key ?r) at (BodyBufferSize fb) bd"
      using body by (auto simp: body_ok_def)
    define n where "n = min (BodyBufferSize fb) len"
    have fn: "faithful content (Read_Key ?r) at n bd" using bd(2) by (auto simp: faithful_def n_def)
    obtain dc1 where f: "DiskCacheFill allocated workItem (W_Cache w) (Read_Key ?r) (Some bd) at n = Some dc1"
      and c1: "cache_ok content dc1 (W_File w) (W_Writes w) (map read_req (W_Reads w))"
      using DiskCacheFill_ok[OF c fn] by blast
    have "n \<le> length bd" using fn by (simp add: faithful_def)
    then have b: "bytes = take n bd" "DiskCacheReadSettle dc1 (?r\<lparr>Bytes := Bytes ?r + int n\<rparr>) = Some (dc, read, oc)"
      using st True bd(1) f unfolding DiskCacheReadFetched_def n_def[symmetric] Let_def
      by (auto simp: bind_Some_conv)
    show ?thesis
      using b c1 fn \<open>n \<le> length bd\<close>
      by (intro exI[of _ dc1] exI[of _ "?r\<lparr>Bytes := Bytes ?r + int n\<rparr>"])
         (auto simp: same_request_def faithful_def n_def)
  next
    case False
    define r0 where "r0 = (if NT_SUCCESS status then ?r\<lparr>Refetch := Refetch ?r OR DISK_CACHE_READ_STALE\<rparr>
      else if Read_Status ?r = STATUS_SUCCESS then ?r\<lparr>Read_Status := status\<rparr> else ?r)"
    have "DiskCacheReadSettle (W_Cache w) r0 = Some (dc, read, oc)" "bytes = []"
      using st False unfolding DiskCacheReadFetched_def r0_def Let_def
      by (auto simp: bind_Some_conv split: if_splits)
    then show ?thesis using c
      by (intro exI[of _ "W_Cache w"] exI[of _ r0]) (auto simp: r0_def same_request_def or_eq_0_iff)
  qed
  then obtain dc0 r0 where s0: "DiskCacheReadSettle dc0 r0 = Some (dc, read, oc)"
    and c0: "cache_ok content dc0 (W_File w) (W_Writes w) (map read_req (W_Reads w))"
    and r0: "same_request ?r r0" "Span r0 = Span ?r" "Outstanding r0 = Outstanding ?r"
      "Bytes r0 = Bytes ?r + int (length bytes)" "Refetch r0 = 0 \<longrightarrow> Refetch ?r = 0"
    and bl: "length bytes \<le> len" "\<forall>j < length bytes. bytes ! j = content (version (Read_Key ?r)) (at + j)"
    by blast
  have "active_ok content (a\<lparr>A_Read := r0\<lparr>Outstanding := Outstanding r0 - 1\<rparr>, A_Parts := ps @ qs,
      A_Got := (?p, length bytes) # A_Got a, A_Buf := write_bytes (A_Buf a) at bytes\<rparr>)"
  proof (rule part_done_ok[OF aok parts])
    show "write_bytes (A_Buf a) at bytes x = A_Buf a x" if "\<not> covers x ?p" for x
      using write_bytes_covers[OF bl(1) that] .
    show "write_bytes (A_Buf a) at bytes x = content (version (Read_Key ?r)) x"
      if "part_at ?p \<le> x" "x < part_at ?p + length bytes" for x
      using that bl(2)[rule_format, of "x - at"] by (simp add: write_bytes_def)
  qed (use r0 bl in \<open>auto simp: same_request_def\<close>)
  from settle_step[OF w reads c0 s0 r0(1) this] show ?thesis by simp
qed

lemma disk_step_ok:
  assumes "disk_step content w w'" "world_ok content w"
  shows "world_ok content w'"
  using assms
proof (cases rule: disk_step.cases)
  case (FillBlock key offset n source b allocated workItem goes_on dc)
  then have "fill_bytes source offset (block_start b) (block_stop key b) = block_bytes content (key\<lparr>Key_Block := of_nat b\<rparr>)"
    by (intro fill_bytes_good)
  from fill_block_ok[OF world_okD(1)[OF assms(2)] this] FillBlock(6)
  have "cache_ok content dc (W_File w) (W_Writes w) (map read_req (W_Reads w))" by (metis option.inject prod.inject)
  then show ?thesis using FillBlock(1) world_ok_cache(2)[OF assms(2)] by simp
next
  case (WriteLands as fill bs status dc)
  then have l: "length (Fill_Buffer fill) = BS" using fill_buffer_length[OF assms(2), of fill] by simp
  then show ?thesis
    unfolding WriteLands(1) by (intro FillDone_ok[OF assms(2) WriteLands(2,4)])
      (simp_all add: slot_bytes_write write_bytes_outside)
next
  case (WriteFails as fill bs status information fl dc)
  then show ?thesis unfolding WriteFails(1) by (intro FillDone_ok[OF assms(2) WriteFails(2,5)]) auto
next
  case (ReadStarts key allowed start allocated mdl offset len valid n dc read parts buf)
  then show ?thesis
    using Read_ok[OF world_okD(1)[OF assms(2)] ReadStarts(2,3), of start allocated mdl offset len valid] assms(2)
    by (auto simp: answer_ok_def world_ok_def read_req_def fresh_read_def)
next
  case (ReadRefused key allowed start allocated mdl offset len valid n dc)
  then show ?thesis
    using Read_ok[OF world_okD(1)[OF assms(2)] ReadRefused(2,3), of start allocated mdl offset len valid] assms(2)
    by (auto simp: answer_ok_def world_ok_def)
next
  case (IssuerSettles as a bs dc read out)
  then have "active_ok content a" using assms(2) by (simp add: world_ok_def)
  from settle_step[OF assms(2) IssuerSettles(2) world_okD(1)[OF assms(2)] IssuerSettles(4) _ active_issuer[OF this IssuerSettles(3)]]
  show ?thesis using IssuerSettles(1) by (simp add: same_request_def)
next
  case Lost
  then show ?thesis using assms(2) by (simp add: world_ok_def)
qed (use assms(2) Worker_ok[OF assms(2)] disk_part_ends[OF assms(2)] fetch_part_ends[OF assms(2)] in fastforce)+

end
