(* ===== verification/Disk_Cache_Example.thy ===== *)
theory Disk_Cache_Example
  imports Disk_Cache_Protocol
begin

unbundle bit_operations_syntax

text \<open>
  A run of the disk cache on a cache of one slot and a file of five bytes: its block is fetched
  twice (the first time only remembered), written, and then read back from the cache file.
\<close>

definition ex_content :: contents where
  "ex_content = (\<lambda>_ p. of_nat p)"

definition ex_key :: DISK_CACHE_KEY where
  "ex_key = \<lparr>File0 = 1, File1 = 2, Key_Size = 5, Key_ModifiedTime = 7, Key_Block = 0\<rparr>"

definition ex_body :: "UCHAR list" where "ex_body = [0, 1, 2, 3, 4]"

definition ex_index :: DISK_CACHE_INDEX where
  "ex_index = \<lparr>Slots = [zero_slot\<lparr>Slot_Next := DISK_CACHE_NO_SLOT\<rparr>], Heads = [DISK_CACHE_NO_SLOT],
     Ghosts = [0, 0, 0, 0], SlotCount = 1, HashMask = 0, Hand = 0, GhostMask = 0\<rparr>"

definition ex_missed :: DISK_CACHE_INDEX where
  "ex_missed = ex_index\<lparr>Ghosts := [5197966411386043397, 0, 0, 0]\<rparr>"

definition ex_held :: "int \<Rightarrow> DISK_CACHE_SLOT_STATE \<Rightarrow> bool \<Rightarrow> DISK_CACHE_INDEX" where
  "ex_held pins st ref = ex_index\<lparr>Slots := [\<lparr>Slot_Key = ex_key, Slot_Next = DISK_CACHE_NO_SLOT,
     Slot_Pins = pins, Slot_State = st, Slot_Referenced = ref\<rparr>], Heads := [0]\<rparr>"

text \<open>The cache as \<open>BlorgDiskCacheInitialize\<close> leaves it, with nothing in flight.\<close>

definition disk_start :: "DISK_CACHE_INDEX \<Rightarrow> (nat \<Rightarrow> UCHAR) \<Rightarrow> DISK_WORLD" where
  "disk_start ix file = \<lparr>W_Cache = (disk_cache_off ix)\<lparr>Busy := 1, Live := True\<rparr>, W_File = file,
     W_Writes = [], W_Reads = [], W_Done = []\<rparr>"

definition ex_cache :: "DISK_CACHE_INDEX \<Rightarrow> DISK_CACHE_FILL list \<Rightarrow> bool \<Rightarrow> int \<Rightarrow> int \<Rightarrow> DISK_CACHE" where
  "ex_cache ix fills queued filling busy = \<lparr>Index = ix, Fills = fills, FillWorkerQueued = queued,
     FillBytes = filling * int BS, Live = True, Busy = busy, Idle = False\<rparr>"

definition ex_fill :: DISK_CACHE_FILL where
  "ex_fill = \<lparr>Fill_Buffer = fill_bytes ex_body 0 0 5, Fill_Slot = 0\<rparr>"

definition ex_read :: "int \<Rightarrow> int \<Rightarrow> DISK_CACHE_READ" where
  "ex_read left bytes = \<lparr>Read_Key = ex_key, Read_Offset = 0, Outstanding = left,
     Read_Status = STATUS_SUCCESS, Bytes = bytes, Span = 4096, DiskSpan = 5, Read_Valid = 5,
     FetchCount = 0, Refetch = 0, Read_Slots = [0]\<rparr>"

section \<open>The index\<close>

lemma ex_init: "BlorgDiskCacheIndexInitialize 1 True = Some (STATUS_SUCCESS, ex_index)"
proof -
  have "heads_loop 1 1 = Some 1" by (subst heads_loop.simps) simp
  moreover have "replicate 4 (0 :: ULONG64) = [0, 0, 0, 0]" by (simp add: numeral_eq_Suc)
  ultimately show ?thesis
    by (simp add: BlorgDiskCacheIndexInitialize_def ex_index_def DISK_CACHE_MAX_MB_def
        DISK_CACHE_BLOCK_SHIFT_def Let_def DISK_CACHE_GHOST_WAYS_def)
qed

lemma ex_first_miss: "BlorgDiskCacheIndexReserve ex_index ex_key = Some (DiskCacheFirstMiss, None, ex_missed)"
  by code_simp

lemma ex_reserved:
  "BlorgDiskCacheIndexReserve ex_missed ex_key = Some (DiskCacheReserved, Some 0, ex_held 1 DiskCacheSlotFilling False)"
  by code_simp

lemma ex_commit:
  "BlorgDiskCacheIndexCommit (ex_held 1 DiskCacheSlotFilling False) 0 True = Some (ex_held 0 DiskCacheSlotValid False)"
  by code_simp

lemma ex_pin:
  "BlorgDiskCacheIndexPinHeld (ex_held 0 DiskCacheSlotValid False) ex_key 0 = Some (1, [0], ex_held 1 DiskCacheSlotValid False)"
  by code_simp

lemma ex_plan:
  "BlorgDiskCacheIndexPlanRead (ex_held 1 DiskCacheSlotValid False) [0] 1 0 =
     Some (1, [0], ex_held 1 DiskCacheSlotValid False)"
  by (simp add: BlorgDiskCacheIndexPlanRead.simps plan_scan_def plan_step_def DISK_CACHE_NO_SLOT_def)

lemma ex_unpin:
  "BlorgDiskCacheIndexUnpin (ex_held 1 DiskCacheSlotValid False) [0] True = Some (ex_held 0 DiskCacheSlotValid True)"
  by code_simp

section \<open>The cache\<close>

lemma block_size_value: "BS = 65536"
  by (simp add: DISK_CACHE_BLOCK_SIZE_def DISK_CACHE_BLOCK_SHIFT_def)

lemmas ex_steps = ex_cache_def Let_def DiskCacheLeave_def DiskCacheEnter_def DiskCacheUnchargeFill_def
  DISK_CACHE_FILL_BACKLOG_def block_size_value

lemma ex_fill_missed:
  "fill_block (ex_cache ex_index [] False 0 1) ex_key ex_body 0 0 5 True True = Some (True, ex_cache ex_missed [] False 0 1)"
  by (simp add: fill_block_def ex_first_miss ex_steps)

lemma ex_fill_queued:
  "fill_block (ex_cache ex_missed [] False 0 1) ex_key ex_body 0 0 5 True True =
     Some (True, ex_cache (ex_held 1 DiskCacheSlotFilling False) [ex_fill] True 1 3)"
  by (simp add: fill_block_def ex_reserved ex_steps ex_fill_def DiskCacheQueueFill_def)

lemma ex_worker:
  "DiskCacheFillWorker (ex_cache ix [ex_fill] True 1 3) True = Some (WorkerSent (ex_cache ix [] True 1 3) ex_fill)"
  by (simp add: DiskCacheFillWorker_def ex_cache_def)

lemma ex_write:
  "DiskCacheFillDone (ex_cache (ex_held 1 DiskCacheSlotFilling False) [] True 1 3) ex_fill STATUS_SUCCESS BS =
     Some (ex_cache (ex_held 0 DiskCacheSlotValid False) [] True 0 2)"
  by (simp add: DiskCacheFillDone_def DiskCacheFillSettle_def ex_fill_def ex_commit ex_steps)

lemma ex_read_starts:
  "BlorgDiskCacheRead (\<lambda>_. PartStarted) True (ex_cache (ex_held 0 DiskCacheSlotValid False) [] True 0 2) ex_key (Some 0) 0 4096 5 0
   = Some (Served 0 (ex_cache (ex_held 1 DiskCacheSlotValid False) [] True 0 3) (ex_read 2 0) [DiskPart 0 4096 0])"
proof -
  let ?dc = "ex_cache (ex_held 0 DiskCacheSlotValid False) [] True 0 2"
  have nr: "\<not> read_refused ?dc ex_key (Some 0) 0 4096 5"
    by (simp add: read_refused_def ex_cache_def ex_key_def PAGE_SIZE_def)
  have pr: "page_round 5 = 4096" by (simp add: page_round_def PAGE_SIZE_def)
  have kb: "ex_key\<lparr>Key_Block := 0\<rparr> = ex_key" by (simp add: ex_key_def)
  have rr: "read_run [0] 0 (Suc 0) = 1" by (simp add: read_run.simps)
  show ?thesis
    unfolding BlorgDiskCacheRead_def if_not_P[OF nr] Let_def pr
    by (simp add: DISK_CACHE_BLOCK_SHIFT_def DISK_CACHE_MAX_READ_BLOCKS_def ex_steps ex_pin kb serve_pinned_def
        ex_plan start_read_def issue_loop.simps rr DISK_CACHE_NO_SLOT_def DiskCacheReadPart_def ex_read_def)
qed

lemma ex_part:
  "DiskCacheReadDone dc (ex_read 2 0) STATUS_SUCCESS 4096 = Some (dc, ex_read 1 4096, None)"
  by (simp add: DiskCacheReadDone_def DiskCacheReadSettle_def ex_read_def)

definition ex_outcome :: READ_OUTCOME where
  "ex_outcome = \<lparr>Out_Status = STATUS_SUCCESS, Out_Valid = 5, Out_Fetches = 0, Out_Refetch = False\<rparr>"

lemma ex_settle:
  "DiskCacheReadSettle (ex_cache (ex_held 1 DiskCacheSlotValid False) [] True 0 3) (ex_read 1 4096) =
     Some (ex_cache (ex_held 0 DiskCacheSlotValid True) [] True 0 2, ex_read 0 4096, Some ex_outcome)"
  by (simp add: DiskCacheReadSettle_def settle_status_def settle_refetch_def ex_read_def ex_unpin ex_steps ex_outcome_def
      del: BlorgDiskCacheIndexUnpin.simps)

section \<open>The run\<close>

definition ex_file :: "nat \<Rightarrow> UCHAR" where
  "ex_file = write_bytes (\<lambda>_. 0) 0 (Fill_Buffer ex_fill)"

definition ex_end :: DISK_WORLD where
  "ex_end = \<lparr>W_Cache = ex_cache (ex_held 0 DiskCacheSlotValid True) [] True 0 2, W_File = ex_file,
     W_Writes = [], W_Reads = [], W_Done = [(ex_key, 0, ex_outcome, ex_file)]\<rparr>"

definition ex_world :: "DISK_CACHE \<Rightarrow> (nat \<Rightarrow> UCHAR) \<Rightarrow> DISK_CACHE_FILL list \<Rightarrow> ACTIVE_READ list \<Rightarrow> DISK_WORLD" where
  "ex_world dc file writes reads = \<lparr>W_Cache = dc, W_File = file, W_Writes = writes, W_Reads = reads, W_Done = []\<rparr>"

lemma ex_start_world: "disk_start ex_index (\<lambda>_. 0) = ex_world (ex_cache ex_index [] False 0 1) (\<lambda>_. 0) [] []"
  by (simp add: disk_start_def ex_world_def ex_cache_def disk_cache_off_def)

lemma ex_faithful: "faithful ex_content ex_key 0 5 ex_body"
  by (simp add: faithful_def ex_content_def ex_body_def numeral_eq_Suc less_Suc_eq all_conj_distrib)

lemma ex_fill_step:
  assumes "fill_block dc ex_key ex_body 0 0 5 True True = Some (goes_on, dc')"
  shows "disk_step ex_content (ex_world dc file writes reads) (ex_world dc' file writes reads)"
proof -
  have b: "block_start 0 = 0" "block_stop ex_key 0 = 5" "ex_key\<lparr>Key_Block := of_nat 0\<rparr> = ex_key"
    by (simp_all add: block_start_def block_stop_def block_size_value ex_key_def)
  have "disk_step ex_content (ex_world dc file writes reads) ((ex_world dc file writes reads)\<lparr>W_Cache := dc'\<rparr>)"
    by (rule disk_step.FillBlock[OF ex_faithful, of 0 _ True True goes_on])
       (use assms b in \<open>simp_all add: ex_world_def\<close>)
  then show ?thesis by (simp add: ex_world_def)
qed

lemma ex_fills:
  "(disk_step ex_content)\<^sup>*\<^sup>* (disk_start ex_index (\<lambda>_. 0))
     (ex_world (ex_cache (ex_held 0 DiskCacheSlotValid False) [] True 0 2) ex_file [] [])"
proof -
  let ?filling = "ex_held 1 DiskCacheSlotFilling False"
  have "disk_step ex_content (ex_world (ex_cache ?filling [ex_fill] True 1 3) (\<lambda>_. 0) [] [])
      (ex_world (ex_cache ?filling [] True 1 3) (\<lambda>_. 0) [ex_fill] [])"
    using disk_step.WorkerSends[of "ex_world (ex_cache ?filling [ex_fill] True 1 3) (\<lambda>_. 0) [] []" True, OF _ , of "ex_cache ?filling [] True 1 3" ex_fill ex_content]
    by (simp add: ex_world_def ex_worker) (simp add: ex_cache_def)
  moreover have "disk_step ex_content (ex_world (ex_cache ?filling [] True 1 3) (\<lambda>_. 0) [ex_fill] [])
      (ex_world (ex_cache (ex_held 0 DiskCacheSlotValid False) [] True 0 2) ex_file [] [])"
    using disk_step.WriteLands[of "ex_world (ex_cache ?filling [] True 1 3) (\<lambda>_. 0) [ex_fill] []" "[]" ex_fill "[]"
        STATUS_SUCCESS "ex_cache (ex_held 0 DiskCacheSlotValid False) [] True 0 2" ex_content]
    by (simp add: ex_world_def ex_write ex_file_def) (simp add: ex_fill_def)
  ultimately show ?thesis
    unfolding ex_start_world using ex_fill_step[OF ex_fill_missed] ex_fill_step[OF ex_fill_queued]
    by (meson converse_rtranclp_into_rtranclp rtranclp.rtrancl_refl)
qed

lemma ex_run: "(disk_step ex_content)\<^sup>*\<^sup>* (disk_start ex_index (\<lambda>_. 0)) ex_end"
proof -
  let ?dc = "ex_cache (ex_held 1 DiskCacheSlotValid False) [] True 0 3"
  let ?a = "\<lparr>A_Read = ex_read 2 0, A_Parts = [DiskPart 0 4096 0], A_Issuer = True, A_Got = [], A_Buf = ex_file\<rparr>"
  let ?b = "\<lparr>A_Read = ex_read 1 4096, A_Parts = [], A_Issuer = True, A_Got = [(DiskPart 0 4096 0, 4096)], A_Buf = ex_file\<rparr>"
  have "disk_step ex_content (ex_world (ex_cache (ex_held 0 DiskCacheSlotValid False) [] True 0 2) ex_file [] [])
      (ex_world ?dc ex_file [] [?a])"
    using disk_step.ReadStarts[of ex_key 0 "\<lambda>_. PartStarted" True
        "ex_world (ex_cache (ex_held 0 DiskCacheSlotValid False) [] True 0 2) ex_file [] []" "Some 0" 0 4096 5 0 ?dc
        "ex_read 2 0" "[DiskPart 0 4096 0]" ex_content ex_file]
    by (simp add: ex_world_def ex_read_starts) (simp add: ex_key_def)
  moreover have "disk_step ex_content (ex_world ?dc ex_file [] [?a]) (ex_world ?dc ex_file [] [?b])"
    using disk_step.DiskPartEnds[of "ex_world ?dc ex_file [] [?a]" "[]" ?a "[]" "[]" 0 4096 0 "[]" 4096 ex_file STATUS_SUCCESS
        ?dc "ex_read 1 4096" None ex_content]
    by (simp add: ex_world_def ex_part settled_def)
  moreover have "disk_step ex_content (ex_world ?dc ex_file [] [?b]) ex_end"
    using disk_step.IssuerSettles[of "ex_world ?dc ex_file [] [?b]" "[]" ?b "[]"
        "ex_cache (ex_held 0 DiskCacheSlotValid True) [] True 0 2" "ex_read 0 4096" "Some ex_outcome" ex_content]
    by (simp add: ex_world_def ex_settle settled_def ex_end_def) (simp add: ex_read_def)
  ultimately show ?thesis
    using ex_fills by (meson rtranclp.rtrancl_into_rtrancl)
qed

end
