(* ===== verification/Disk_Cache_Rundown.thy ===== *)
theory Disk_Cache_Rundown
  imports Disk_Cache
begin

text \<open>
  Teardown of the disk cache (DiskCache.c, \<open>DiskCacheEnter\<close>, \<open>DiskCacheLeave\<close>,
  \<open>BlorgDiskCacheCleanup\<close>): threads that enter and leave against the one that cleans up, each
  access to \<open>Live\<close> and \<open>Busy\<close> a step of its own. The file may only be closed once no work is in
  flight, and none may start afterwards.
\<close>

section \<open>Threads\<close>

text \<open>
  Threads in \<open>DiskCacheEnter\<close> by how far they are (past the first test of \<open>Live\<close>, past the
  increment), threads whose entry succeeded and that have not left, and how far cleanup is.
\<close>

datatype cleanup_phase = Running | Cleared | Waiting | Closed

record RUNDOWN =
  R_Cache :: DISK_CACHE
  R_Entering :: nat
  R_Checking :: nat
  R_Working :: nat
  R_Phase :: cleanup_phase

inductive rundown_step :: "RUNDOWN \<Rightarrow> RUNDOWN \<Rightarrow> bool" where
  EnterSeesLive:
    "Live (R_Cache r) \<Longrightarrow> rundown_step r (r\<lparr>R_Entering := R_Entering r + 1\<rparr>)"
| EnterCounts:
    "R_Entering r = Suc n \<Longrightarrow>
     rundown_step r (r\<lparr>R_Entering := n, R_Checking := R_Checking r + 1,
       R_Cache := (R_Cache r)\<lparr>Busy := Busy (R_Cache r) + 1\<rparr>\<rparr>)"
| EnterSucceeds:
    "R_Checking r = Suc n \<Longrightarrow> Live (R_Cache r) \<Longrightarrow>
     rundown_step r (r\<lparr>R_Checking := n, R_Working := R_Working r + 1\<rparr>)"
| EnterBacksOut:
    "R_Checking r = Suc n \<Longrightarrow> \<not> Live (R_Cache r) \<Longrightarrow>
     rundown_step r (r\<lparr>R_Checking := n, R_Cache := DiskCacheLeave (R_Cache r)\<rparr>)"
| WorkLeaves:
    "R_Working r = Suc n \<Longrightarrow> rundown_step r (r\<lparr>R_Working := n, R_Cache := DiskCacheLeave (R_Cache r)\<rparr>)"
| WorkCountsMore:
    "R_Working r = Suc n \<Longrightarrow>
     rundown_step r (r\<lparr>R_Working := R_Working r + 1,
       R_Cache := (R_Cache r)\<lparr>Busy := Busy (R_Cache r) + 1\<rparr>\<rparr>)"
| WorkLosesFile:
    "R_Working r = Suc n \<Longrightarrow> rundown_step r (r\<lparr>R_Cache := DiskCacheLost (R_Cache r)\<rparr>)"
| CleanupClears:
    "R_Phase r = Running \<Longrightarrow>
     rundown_step r (r\<lparr>R_Phase := Cleared, R_Cache := cleanup_clear (R_Cache r)\<rparr>)"
| CleanupDrops:
    "R_Phase r = Cleared \<Longrightarrow>
     rundown_step r (r\<lparr>R_Phase := Waiting, R_Cache := cleanup_drop (R_Cache r)\<rparr>)"
| CleanupCloses:
    "R_Phase r = Waiting \<Longrightarrow> Idle (R_Cache r) \<Longrightarrow>
     rundown_step r (r\<lparr>R_Phase := Closed, R_Cache := cleanup_close (R_Cache r)\<rparr>)"

inductive_cases rundown_stepE: "rundown_step r r'"

definition rundown_start :: "DISK_CACHE \<Rightarrow> RUNDOWN" where
  "rundown_start dc = \<lparr>R_Cache = dc, R_Entering = 0, R_Checking = 0, R_Working = 0, R_Phase = Running\<rparr>"

section \<open>Invariant\<close>

definition rundown_ok :: "RUNDOWN \<Rightarrow> bool" where
  "rundown_ok r \<longleftrightarrow>
     Busy (R_Cache r) = int (R_Checking r + R_Working r) + (if R_Phase r \<in> {Running, Cleared} then 1 else 0) \<and>
     (R_Phase r \<noteq> Running \<longrightarrow> \<not> Live (R_Cache r)) \<and>
     (Idle (R_Cache r) \<longrightarrow> R_Phase r \<in> {Waiting, Closed} \<and> R_Working r = 0) \<and>
     (R_Phase r = Waiting \<and> R_Checking r + R_Working r = 0 \<longrightarrow> Idle (R_Cache r)) \<and>
     (R_Phase r = Closed \<longrightarrow> Idle (R_Cache r))"

lemmas rundown_defs = DiskCacheLeave_def DiskCacheLost_def cleanup_clear_def cleanup_drop_def
  cleanup_close_def Let_def

lemma rundown_ok_step: "rundown_step r r' \<Longrightarrow> rundown_ok r \<Longrightarrow> rundown_ok r'"
  by (erule rundown_stepE; cases "R_Phase r") (auto simp: rundown_ok_def rundown_defs split: if_splits)

lemma rundown_ok_start:
  "Busy dc = 1 \<Longrightarrow> \<not> Idle dc \<Longrightarrow> rundown_ok (rundown_start dc)"
  by (simp add: rundown_ok_def rundown_start_def)

lemma rundown_ok_reachable:
  assumes "rundown_step\<^sup>*\<^sup>* (rundown_start dc) r" "Busy dc = 1" "\<not> Idle dc"
  shows "rundown_ok r"
  using assms(1) by induction (auto intro: rundown_ok_step rundown_ok_start[OF assms(2,3)])

lemma rundown_idle_step:
  "rundown_step r r' \<Longrightarrow> rundown_ok r \<Longrightarrow> R_Phase r = Closed \<Longrightarrow> R_Phase r' = Closed"
  by (erule rundown_stepE) auto

end
