(* ===== verification/Disk_Cache_Theorems.thy ===== *)
theory Disk_Cache_Theorems
  imports Disk_Cache_Example Disk_Cache_Rundown
begin

unbundle bit_operations_syntax

text \<open>
  The properties of the disk cache: what its index does (DiskCacheIndex.c), what the whole cache
  serves (DiskCache.c), and its teardown.
\<close>

section \<open>What is served\<close>

lemma disk_start_ok:
  assumes "BlorgDiskCacheIndexInitialize n True = Some (STATUS_SUCCESS, ix)"
  shows "world_ok content (disk_start ix file)"
proof -
  have n: "0 < unat n" "unat n \<le> 262144"
    using assms
    by (auto simp: BlorgDiskCacheIndexInitialize_def DISK_CACHE_MAX_MB_def DISK_CACHE_BLOCK_SHIFT_def
        status_defs unat_gt_0 split: if_splits)
  then obtain ix' where i: "BlorgDiskCacheIndexInitialize n True = Some (STATUS_SUCCESS, ix')" "index_inv ix'"
    "\<forall>k. slot_of ix' k = None" using Initialize_inv by blast
  then have ix: "ix' = ix" using assms by simp
  have "used ix = {}" using i ix slot_of_None[of ix] by (auto simp: index_inv_def)
  then have "index_view ix s = Some (k, st, p) \<Longrightarrow> st = DiskCacheSlotFree" for s k st p
    by (auto simp: index_view_def used_def split: if_splits)
  then show ?thesis
    using i ix by (fastforce simp: world_ok_def disk_start_def disk_cache_off_def index_store.store_ok_def)
qed

lemma disk_reachable_ok:
  assumes "BlorgDiskCacheIndexInitialize n True = Some (STATUS_SUCCESS, ix)"
    "(disk_step content)\<^sup>*\<^sup>* (disk_start ix file) w"
  shows "world_ok content w"
  using assms(2) by induction (auto intro: disk_step_ok disk_start_ok[OF assms(1)])

text \<open>C1. Whatever the fills, writes, reads, fetches and failures of the cache and their
  interleaving, a read the cache completes with success holds, in every valid byte, the byte of
  the file version its key names: a block is never served under another file, version or
  position, nor while it is half written or being replaced.\<close>

theorem disk_reads_serve_the_version:
  assumes "BlorgDiskCacheIndexInitialize n True = Some (STATUS_SUCCESS, ix)"
    and "(disk_step content)\<^sup>*\<^sup>* (disk_start ix file) w"
    and "(key, offset, out, buf) \<in> set (W_Done w)" "NT_SUCCESS (Out_Status out)"
    and "offset \<le> x" "x < offset + Out_Valid out"
  shows "buf x = content (version key) x"
  using world_okD(3)[OF disk_reachable_ok[OF assms(1,2)] assms(3)] assms(4-6) by (simp add: done_ok_def)

theorem disk_reads_serve_the_version_witness:
  "ex_file 3 = ex_content (version ex_key) 3"
  using disk_reads_serve_the_version[OF ex_init ex_run, of ex_key 0 ex_outcome ex_file 3]
  by (simp add: ex_end_def ex_outcome_def)






text \<open>The parts a served read is split into cover each of its bytes exactly once, each part
  of the cache file lies in the slots pinned for the blocks it covers, the fetches issued are
  those counted and never more than the array of fetches holds, and a read with nothing left
  unstarted covers all its valid bytes.\<close>

theorem disk_read_parts:
  assumes "BlorgDiskCacheIndexInitialize n True = Some (STATUS_SUCCESS, ix)"
    and "(disk_step content)\<^sup>*\<^sup>* (disk_start ix file) w"
    and "unat (Key_Size key) < 2 ^ 63" "allowed \<le> DISK_CACHE_MAX_READ_FETCHES"
    and "BlorgDiskCacheRead start allocated (W_Cache w) key mdl offset len valid allowed = Some (Served k dc read parts)"
  shows "(\<forall>x. cover parts x = (if Read_Offset read \<le> x \<and> x < Read_Offset read + Span read then 1 else 0)) \<and>
    (\<forall>p \<in> set parts. part_ok read p) \<and> k = FetchCount read \<and> k \<le> DISK_CACHE_MAX_READ_FETCHES \<and>
    (Refetch read = 0 \<longrightarrow> Read_Valid read \<le> Span read)"
proof -
  have "answer_ok content (W_File w) (W_Writes w) (map read_req (W_Reads w)) (Served k dc read parts)"
    using Read_ok[OF world_okD(1)[OF disk_reachable_ok[OF assms(1,2)]] assms(3,4)] assms(5)
    by (metis option.inject)
  then show ?thesis by (simp add: answer_ok_def active_ok_def fresh_read_def Let_def cover_def)
qed

theorem disk_read_parts_witness:
  "cover [DiskPart 0 4096 0] 77 = 1 \<and> part_ok (ex_read 2 0) (DiskPart 0 4096 0)"
proof -
  have "BlorgDiskCacheRead (\<lambda>_. PartStarted) True
      (W_Cache (ex_world (ex_cache (ex_held 0 DiskCacheSlotValid False) [] True 0 2) ex_file [] [])) ex_key (Some 0) 0 4096 5 0 =
      Some (Served 0 (ex_cache (ex_held 1 DiskCacheSlotValid False) [] True 0 3) (ex_read 2 0) [DiskPart 0 4096 0])"
    using ex_read_starts by (simp add: ex_world_def)
  from disk_read_parts[OF ex_init ex_fills _ _ this] show ?thesis
    by (simp add: ex_key_def ex_read_def)
qed

section \<open>The index\<close>


lemma ex_index_inv: "index_inv ex_index"
  using Initialize_inv[of 1] ex_init by auto


text \<open>C23. Seen as a map from keys to slots, a successful reservation is an update: the key now
  maps to the slot, the key the slot had before is gone, every other key keeps its slot; and the
  chain walk of \<open>DiskCacheIndexFind\<close> computes this map.\<close>

theorem reserve_refines_map_update:
  assumes "index_inv ix" "BlorgDiskCacheIndexReserve ix key = Some (DiskCacheReserved, Some s, ix')"
  shows "slot_of ix' = (\<lambda>k. if k = key then Some s else if slot_of ix k = Some s then None else slot_of ix k) \<and>
    (\<forall>k. DiskCacheIndexFind ix' k (DiskCacheIndexMix k) =
       Some (case slot_of ix' k of None \<Rightarrow> DISK_CACHE_NO_SLOT | Some t \<Rightarrow> t))"
proof -
  have p: "index_inv ix'" "reserve_post ix key DiskCacheReserved (Some s) ix'"
    using Reserve_spec[OF assms(1), of key] assms(2) by auto
  then show ?thesis using slot_of_reserved[OF assms(1)] Find_slot_of[OF p(1)] by blast
qed

lemma ex_missed_inv: "index_inv ex_missed"
  using Reserve_spec[OF ex_index_inv, of ex_key] ex_first_miss by auto

theorem reserve_refines_map_update_witness:
  "slot_of (ex_held 1 DiskCacheSlotFilling False) ex_key = Some 0"
  using reserve_refines_map_update[OF ex_missed_inv ex_reserved] by simp

lemma ghost_pushed:
  assumes "base + DISK_CACHE_GHOST_WAYS \<le> length g"
  shows "ghost_way (ghost_push g base tag) base tag DISK_CACHE_GHOST_WAYS = 0"
proof -
  have "ghost_push g base tag ! base = tag" using assms by (simp add: ghost_push_def nth_append)
  then show ?thesis by (simp add: DISK_CACHE_GHOST_WAYS_def numeral_eq_Suc)
qed

text \<open>Second-miss admission: a block refused as a first miss is not refused as one when it
  is missed again next; it is then reserved, unless every slot in the clock's reach is pinned.\<close>

theorem second_miss_admitted:
  assumes inv: "index_inv ix" and first: "BlorgDiskCacheIndexReserve ix key = Some (DiskCacheFirstMiss, so, ix1)"
  shows "\<exists>admit so2 ix2. BlorgDiskCacheIndexReserve ix1 key = Some (admit, so2, ix2) \<and>
    (admit = DiskCacheReserved \<or>
     (admit = DiskCacheNoVictim \<and> (\<forall>i < clock_reach ix1. Slot_Pins (Slots ix1 ! hand_at ix1 i) \<noteq> 0)))"
proof -
  have i1: "index_inv ix1" and p: "reserve_post ix key DiskCacheFirstMiss so ix1"
    using Reserve_spec[OF inv, of key] first by auto
  let ?mix = "DiskCacheIndexMix key"
  have ix1: "slot_of ix key = None"
    "ix1 = ix\<lparr>Ghosts := ghost_push (Ghosts ix) (ghost_base ix ?mix) (?mix OR 1)\<rparr>"
    using p by (auto simp: reserve_post_def)
  have sh: "index_shape ix" using inv by (simp add: index_inv_def)
  have n: "slot_of ix1 key = None" using ix1 by (simp add: slot_of_def state_of_def key_of_def)
  have "ghost_base ix1 ?mix = ghost_base ix ?mix" by (simp add: ix1(2) ghost_base_def)
  then have "ghost_way (Ghosts ix1) (ghost_base ix1 ?mix) (?mix OR 1) DISK_CACHE_GHOST_WAYS = 0"
    using ghost_pushed[OF ghost_base_bound[OF sh]] by (simp add: ix1(2))
  then have "BlorgDiskCacheIndexReserve ix1 key = reserve_slot ix1 key ?mix (ghost_base ix1 ?mix + 0)"
    unfolding Reserve_unfold[OF i1] using n by (simp add: DISK_CACHE_GHOST_WAYS_def)
  then show ?thesis
    using reserve_slot_spec[OF i1 n, of "ghost_base ix1 ?mix + 0"] by (auto simp: reserve_post_def)
qed

theorem second_miss_admitted_witness:
  "\<exists>admit so ix. BlorgDiskCacheIndexReserve ex_missed ex_key = Some (admit, so, ix) \<and> admit \<noteq> DiskCacheFirstMiss"
  using second_miss_admitted[OF ex_index_inv ex_first_miss] by auto

lemma pinned_holds:
  assumes inv: "index_inv ix" and v: "index_view ix1 = moved (index_view ix) (pin_count (read_slots ix key n))"
  shows "holds (index_view ix1) (read_slots ix key n)"
  unfolding holds_def
proof (intro allI impI)
  let ?ss = "read_slots ix key n"
  fix s assume "0 < pin_count ?ss s"
  then have "s \<in> set ?ss" "s \<noteq> DISK_CACHE_NO_SLOT"
    using count_list_0_iff[of ?ss s] by (auto simp: pin_count_def split: if_splits)
  then obtain i p where "index_view ix s = Some (block_key key i, DiskCacheSlotValid, p)"
    using served_slot_names[OF inv, of key n] by (auto simp: names_blocks_def in_set_conv_nth)
  moreover from this have "0 \<le> p" using pins_nonneg[OF inv, of s] by (auto simp: index_view_def split: if_splits)
  ultimately show "\<exists>k p. index_view ix1 s = Some (k, DiskCacheSlotValid, p) \<and> pin_count ?ss s \<le> p"
    by (auto simp: v moved_Some)
qed

text \<open>Pinning the blocks of a read reports, block by block, the slot that can serve it (held
  and not being filled) or none, counts them, adds one pin for each and changes nothing else; and
  unpinning what was pinned puts every slot's key, state and pins back.\<close>

theorem pin_unpin_round_trip:
  assumes "index_inv ix" "Key_Block key \<le> lastBlock" "unat lastBlock < 2 ^ 64 - 1"
  shows "\<exists>ix1 ix2. BlorgDiskCacheIndexPinHeld ix key lastBlock =
      Some (of_nat (length (held (read_slots ix key (Suc (unat lastBlock) - unat (Key_Block key))))),
        read_slots ix key (Suc (unat lastBlock) - unat (Key_Block key)), ix1) \<and>
    index_view ix1 = moved (index_view ix) (pin_count (read_slots ix key (Suc (unat lastBlock) - unat (Key_Block key)))) \<and>
    BlorgDiskCacheIndexUnpin ix1 (read_slots ix key (Suc (unat lastBlock) - unat (Key_Block key))) served = Some ix2 \<and>
    index_inv ix2 \<and> index_view ix2 = index_view ix"
proof -
  let ?n = "Suc (unat lastBlock) - unat (Key_Block key)"
  let ?ss = "read_slots ix key ?n"
  obtain ix1 where p: "BlorgDiskCacheIndexPinHeld ix key lastBlock = Some (of_nat (length (held ?ss)), ?ss, ix1)"
    and i1: "index_inv ix1" and m: "pins_moved ix ix1 (pin_count ?ss)"
    using pin_loop_spec[OF assms(1) refl assms(3), of key "[]" 0] by (auto simp: BlorgDiskCacheIndexPinHeld_def)
  have v: "index_view ix1 = moved (index_view ix) (pin_count ?ss)" by (rule index_view_pins_moved[OF m])
  have "holds (index_view ix1) ?ss" by (rule pinned_holds[OF assms(1) v])
  then obtain ix2 where u: "BlorgDiskCacheIndexUnpin ix1 ?ss served = Some ix2" "index_inv ix2"
    "index_view ix2 = moved (index_view ix1) (\<lambda>s. - pin_count ?ss s)"
    using index_store.unpin_law[OF i1] by blast
  have "index_view ix2 = index_view ix"
    unfolding u(3) v moved_def by (auto simp: fun_eq_iff option.map_comp o_def split_def option.map_ident)
  then show ?thesis using p v u by blast
qed

lemma ex_valid_inv: "index_inv (ex_held 0 DiskCacheSlotValid False)"
proof -
  have "index_inv (ex_held 1 DiskCacheSlotFilling False)"
    using Reserve_spec[OF ex_missed_inv, of ex_key] ex_reserved by auto
  moreover have "unat (0 :: ULONG) < length (Slots (ex_held 1 DiskCacheSlotFilling False))"
    "state_of (ex_held 1 DiskCacheSlotFilling False) 0 = DiskCacheSlotFilling"
    by (simp_all add: ex_held_def state_of_def)
  ultimately show ?thesis using Commit_written ex_commit by fastforce
qed

theorem pin_unpin_round_trip_witness:
  "\<exists>ix1. BlorgDiskCacheIndexPinHeld (ex_held 0 DiskCacheSlotValid False) ex_key 0 = Some (1, [0], ix1) \<and>
     BlorgDiskCacheIndexUnpin ix1 [0] True \<noteq> None"
  using pin_unpin_round_trip[OF ex_valid_inv, of ex_key 0 True] ex_pin by (auto simp: ex_key_def)

text \<open>A plan ends with at most \<open>MaxRuns\<close> runs of blocks to fetch and no fewer than it must:
  exactly the smaller of that bound and the runs there were. It serves no block that was not
  held, drops exactly the pins of the blocks it gives up, and counts those left.\<close>

theorem plan_read_correct:
  assumes "index_inv ix" "pins_held ix slots" "length slots \<le> MAXULONG" "0 < maxRuns \<or> runs slots = 0"
  shows "\<exists>slots' ix'. BlorgDiskCacheIndexPlanRead ix slots (of_nat (length (held slots))) maxRuns =
      Some (of_nat (length (held slots')), slots', ix') \<and> index_inv ix' \<and>
    pins_held ix' slots' \<and> planned ix slots maxRuns slots' ix'"
  by (rule PlanRead_spec[OF assms refl])

lemma ex_pinned_inv: "index_inv (ex_held 1 DiskCacheSlotValid False)"
  using index_store.pin_law[OF ex_valid_inv, of ex_key 0] ex_pin by (auto simp: ex_key_def)

theorem plan_read_correct_witness:
  "planned (ex_held 1 DiskCacheSlotValid False) [DISK_CACHE_NO_SLOT, 0, DISK_CACHE_NO_SLOT] 1
     [DISK_CACHE_NO_SLOT, DISK_CACHE_NO_SLOT, DISK_CACHE_NO_SLOT] (ex_held 0 DiskCacheSlotValid False)"
proof -
  let ?ix = "ex_held 1 DiskCacheSlotValid False" and ?ss = "[DISK_CACHE_NO_SLOT, 0, DISK_CACHE_NO_SLOT]"
  have h: "held ?ss = [0]" by (simp add: held_def DISK_CACHE_NO_SLOT_def)
  have ph: "pins_held ?ix ?ss"
    unfolding pins_held_def h by (simp add: ex_held_def state_of_def pins_of_def DISK_CACHE_NO_SLOT_def)
  have mx: "Suc 0 < MAXULONG" by (simp add: MAXULONG_def)
  have u3: "[0..<length [a, b, c]] = [0, Suc 0, Suc (Suc 0)]" for a b c :: ULONG by (simp add: upt_rec)
  have "plan_scan ?ss = (Suc (Suc 0), Suc 0, Suc 0)"
    unfolding plan_scan_def u3 by (simp add: plan_step_def DISK_CACHE_NO_SLOT_def mx)
  moreover have "plan_scan [DISK_CACHE_NO_SLOT, DISK_CACHE_NO_SLOT, DISK_CACHE_NO_SLOT] = (1, 0, MAXULONG)"
    unfolding plan_scan_def u3 by (simp add: plan_step_def)
  moreover have "BlorgDiskCacheIndexUnpin ?ix [0] False = Some (ex_held 0 DiskCacheSlotValid False)" by code_simp
  ultimately have "BlorgDiskCacheIndexPlanRead ?ix ?ss 1 1 =
      Some (0, [DISK_CACHE_NO_SLOT, DISK_CACHE_NO_SLOT, DISK_CACHE_NO_SLOT], ex_held 0 DiskCacheSlotValid False)"
    by (simp add: BlorgDiskCacheIndexPlanRead.simps give_up_def del: BlorgDiskCacheIndexUnpin.simps)
  with plan_read_correct[OF ex_pinned_inv ph, of 1] show ?thesis
    unfolding h by (simp add: MAXULONG_def)
qed

text \<open>The end of a fill: written, the slot can serve the key it was reserved for; not
  written, it is free again and its key is no longer held. Its pin is dropped and no other slot
  changes.\<close>

theorem commit_correct:
  assumes inv: "index_inv ix" and s: "slot_of ix key = Some s" "state_of ix s = DiskCacheSlotFilling"
  shows "\<exists>ix'. BlorgDiskCacheIndexCommit ix s written = Some ix' \<and> index_inv ix' \<and> others_same ix ix' s \<and>
    pins_of ix' s = 0 \<and> served_slot ix' key = (if written then s else DISK_CACHE_NO_SLOT)"
proof -
  have sh: "index_shape ix" "keys_unique ix" using inv by (auto simp: index_inv_def)
  have u: "s \<in> used ix" "key_of ix s = key" "unat s < length (Slots ix)"
    using slot_of_Some[OF sh] s(1) used_range by blast+
  show ?thesis
  proof (cases written)
    case True
    obtain ix' where c: "BlorgDiskCacheIndexCommit ix s True = Some ix'" "index_inv ix'" "others_same ix ix' s"
      "key_of ix' s = key" "state_of ix' s = DiskCacheSlotValid" "pins_of ix' s = 0"
      using Commit_written[OF inv u(3) s(2)] u(2) by auto
    then have "slot_of ix' key = Some s"
      using slot_of_Some[of ix' key s] others_same_used(2)[OF c(3) u(3)] by (simp add: index_inv_def)
    then show ?thesis using c True by (simp add: served_slot_def)
  next
    case False
    obtain ix' where c: "BlorgDiskCacheIndexCommit ix s False = Some ix'" "index_inv ix'" "others_same ix ix' s"
      "state_of ix' s = DiskCacheSlotFree" "pins_of ix' s = 0"
      using Commit_failed[OF inv u(3) s(2)] by auto
    have "slot_of ix' key = None"
    proof -
      have "key_of ix' t \<noteq> key" if t: "t \<in> used ix'" for t
      proof -
        have "t \<noteq> s" using t c(4) by (auto simp: used_def)
        then have "t \<in> used ix" "key_of ix' t = key_of ix t"
          using others_same_used(1)[OF c(3) u(3)] t c(3) used_range[of t ix'] by (auto simp: others_same_def)
        then show ?thesis using sh(2) u \<open>t \<noteq> s\<close> by (auto simp: keys_unique_def)
      qed
      then show ?thesis using slot_of_None[of ix'] c(2) by (simp add: index_inv_def)
    qed
    then show ?thesis using c False by (simp add: served_slot_def)
  qed
qed

theorem commit_correct_witness:
  "served_slot (ex_held 0 DiskCacheSlotValid False) ex_key = 0"
proof -
  have i: "index_inv (ex_held 1 DiskCacheSlotFilling False)"
    using Reserve_spec[OF ex_missed_inv, of ex_key] ex_reserved by auto
  have "slot_of (ex_held 1 DiskCacheSlotFilling False) ex_key = Some 0"
    by (simp add: slot_of_def ex_held_def state_of_def key_of_def)
  moreover have "state_of (ex_held 1 DiskCacheSlotFilling False) 0 = DiskCacheSlotFilling"
    by (simp add: ex_held_def state_of_def)
  ultimately show ?thesis using commit_correct[OF i, of ex_key 0 True] ex_commit by auto
qed

section \<open>Creation and teardown\<close>

text \<open>Initialization sizes the index for the megabytes asked for, at most 16 GB of them, one
  slot per 64 KB block: the doubling loop ends, the index is well formed and holds nothing, and
  the cache is live exactly when every step of opening the file succeeded.\<close>

theorem disk_initialize_correct:
  assumes "sizeMb \<noteq> 0"
  shows "\<exists>status dc. BlorgDiskCacheInitialize sizeMb True parent opened prepared ownVolume = Some (status, dc) \<and>
    (Live dc \<longleftrightarrow> NT_SUCCESS parent \<and> NT_SUCCESS opened \<and> NT_SUCCESS prepared \<and> \<not> ownVolume) \<and>
    (Live dc \<longrightarrow> status = STATUS_SUCCESS \<and> index_inv (Index dc) \<and> (\<forall>k. slot_of (Index dc) k = None) \<and>
       unat (SlotCount (Index dc)) = 16 * min (unat sizeMb) DISK_CACHE_MAX_MB)"
proof -
  define mb where "mb = (if sizeMb > of_nat DISK_CACHE_MAX_MB then of_nat DISK_CACHE_MAX_MB else sizeMb)"
  have um: "unat mb = min (unat sizeMb) DISK_CACHE_MAX_MB"
    by (auto simp: mb_def DISK_CACHE_MAX_MB_def word_less_nat_alt)
  have um0: "0 < unat mb" using assms by (simp add: um unat_gt_0 DISK_CACHE_MAX_MB_def)
  have sc: "unat (push_bit 4 mb) = 16 * unat mb"
    using um by (simp add: push_bit_eq_mult unat_word_ariths DISK_CACHE_MAX_MB_def)
  obtain ix where i: "BlorgDiskCacheIndexInitialize (push_bit 4 mb) True = Some (STATUS_SUCCESS, ix)" "index_inv ix"
    "SlotCount ix = push_bit 4 mb" "\<forall>k. slot_of ix k = None"
    using Initialize_inv[of "push_bit 4 mb"] sc um um0 by (auto simp: DISK_CACHE_MAX_MB_def)
  show ?thesis
    using assms i sc um
    by (auto simp: BlorgDiskCacheInitialize_def mb_def[symmetric] DISK_CACHE_BLOCK_SHIFT_def Let_def disk_cache_off_def)
qed

theorem disk_initialize_correct_witness:
  "\<exists>dc. BlorgDiskCacheInitialize 1 True STATUS_SUCCESS STATUS_SUCCESS STATUS_SUCCESS False = Some (STATUS_SUCCESS, dc) \<and>
     unat (SlotCount (Index dc)) = 16"
  using disk_initialize_correct[of 1 STATUS_SUCCESS STATUS_SUCCESS STATUS_SUCCESS False]
  by (auto simp: DISK_CACHE_MAX_MB_def)

text \<open>C19. Teardown: when cleanup stops waiting and closes the file, no read, fill or worker is in
  flight, and none can start afterwards, however threads entering the cache interleave with it;
  and once the last of them has left, cleanup's wait is over.\<close>

theorem rundown_safe:
  assumes "rundown_step\<^sup>*\<^sup>* (rundown_start dc) r" "Busy dc = 1" "\<not> Idle dc"
  shows "(R_Phase r = Closed \<longrightarrow> R_Working r = 0 \<and> (\<forall>r'. rundown_step\<^sup>*\<^sup>* r r' \<longrightarrow> R_Working r' = 0)) \<and>
    (R_Phase r = Waiting \<and> R_Checking r = 0 \<and> R_Working r = 0 \<longrightarrow> Idle (R_Cache r))"
proof -
  have ok: "rundown_ok r" by (rule rundown_ok_reachable[OF assms])
  have "R_Working r' = 0" if "rundown_step\<^sup>*\<^sup>* r r'" "R_Phase r = Closed" for r'
  proof -
    have "rundown_ok r' \<and> R_Phase r' = Closed" using that(1)
      by induction (use ok that(2) rundown_ok_step rundown_idle_step in auto)
    then show ?thesis by (auto simp: rundown_ok_def)
  qed
  then show ?thesis using ok by (auto simp: rundown_ok_def)
qed

theorem rundown_safe_witness:
  "R_Working \<lparr>R_Cache = cleanup_drop (cleanup_clear ((disk_cache_off ex_index)\<lparr>Busy := 1, Live := True\<rparr>)),
     R_Entering = 0, R_Checking = 0, R_Working = 0, R_Phase = Waiting\<rparr> = 0 \<and>
   Idle (cleanup_drop (cleanup_clear ((disk_cache_off ex_index)\<lparr>Busy := 1, Live := True\<rparr>)))"
proof -
  let ?dc = "(disk_cache_off ex_index)\<lparr>Busy := 1, Live := True\<rparr>"
  let ?a = "\<lparr>R_Cache = cleanup_clear ?dc, R_Entering = 0, R_Checking = 0, R_Working = 0, R_Phase = Cleared\<rparr>"
  let ?b = "\<lparr>R_Cache = cleanup_drop (cleanup_clear ?dc), R_Entering = 0, R_Checking = 0, R_Working = 0, R_Phase = Waiting\<rparr>"
  have "rundown_step (rundown_start ?dc) ?a" "rundown_step ?a ?b"
    using rundown_step.CleanupClears[of "rundown_start ?dc"] rundown_step.CleanupDrops[of ?a]
    by (simp_all add: rundown_start_def)
  then have "rundown_step\<^sup>*\<^sup>* (rundown_start ?dc) ?b" by (meson converse_rtranclp_into_rtranclp rtranclp.rtrancl_refl)
  from rundown_safe[OF this] show ?thesis by (simp add: disk_cache_off_def)
qed

section \<open>Keys\<close>

lemma path_hashes_fold:
  "map upcase p = map upcase q \<Longrightarrow> path_hashes upcase p a b = path_hashes upcase q a b"
proof (induction p arbitrary: q a b)
  case (Cons w p)
  then obtain v q' where "q = v # q'" "upcase w = upcase v" "map upcase p = map upcase q'" by (cases q) auto
  then show ?case using Cons.IH by (simp add: Let_def)
qed simp

lemma or_1_nonzero: "(x :: ULONG64) OR 1 \<noteq> 0"
  by (simp add: or_eq_0_iff)

text \<open>The key a file's blocks are stored under: the same for every spelling of its path that
  differs only in case, never the unset mark, fixed once noted for a node, and what a fetch
  completion reads back from the node.\<close>

theorem note_file_key:
  assumes "Live dc" "map upcase p = map upcase q" "DiskCacheFile0 node = 0"
    "BlorgDiskCacheNoteFile upcase dc node p sz t = (node1, key)"
  shows "BlorgDiskCacheNoteFile upcase dc node q sz t = (node1, key) \<and> File0 key \<noteq> 0 \<and>
    DiskCacheKeyOf node1 = Some key \<and>
    (\<exists>node2. BlorgDiskCacheNoteFile upcase dc node1 r sz2 t2 =
       (node2, key\<lparr>Key_Size := sz2, Key_ModifiedTime := t2\<rparr>))"
proof -
  obtain a b where h: "path_hashes upcase p 0xCBF29CE484222325 0x9E3779B97F4A7C15 = (a, b)" by fastforce
  moreover have "path_hashes upcase q 0xCBF29CE484222325 0x9E3779B97F4A7C15 = (a, b)"
    using path_hashes_fold[OF assms(2)] h by metis
  ultimately show ?thesis
    using assms(1,3,4) or_1_nonzero[of a]
    by (auto simp: BlorgDiskCacheNoteFile_def DiskCacheKeyOf_def Let_def)
qed

theorem note_file_key_witness:
  "\<exists>node key. DiskCacheKeyOf node = Some key \<and> File0 key \<noteq> 0"
proof -
  let ?dc = "(disk_cache_off ex_index)\<lparr>Live := True\<rparr>"
  let ?up = "\<lambda>c. if 0x61 \<le> c \<and> c \<le> 0x7A then c - 0x20 else c :: WCHAR"
  let ?node = "\<lparr>DiskCacheFile0 = 0, DiskCacheFile1 = 0, DiskCacheSize = 0, DiskCacheModifiedTime = 0\<rparr>"
  obtain node1 key where n: "BlorgDiskCacheNoteFile ?up ?dc ?node [0x5C, 0x61] 5 7 = (node1, key)" by fastforce
  from note_file_key[OF _ _ _ n, of "[0x5C, 0x41]" "[]" 0 0] show ?thesis by (auto simp: disk_cache_off_def)
qed

end
