(* ===== verification/Nt_Strings.thy ===== *)
theory Nt_Strings
  imports Blorg_Prelude
begin

text \<open>
  The counted-string services of the NT runtime library that the driver's caches are keyed with,
  and the driver's own path hash (Structs.c, BlorgHashPath).

  Case folding (RtlUpcaseUnicodeChar) and the case-insensitive string hash
  (RtlHashUnicodeString) are the operating system's: they are the fields of the record
  \<open>NLS\<close>, an argument of everything that depends on them. What the driver relies on is the
  predicate \<open>nls_ok\<close>: strings that are equal but for case have the same hash, and nothing but
  a path separator folds to a path separator.
\<close>

record NLS =
  RtlUpcaseUnicodeChar :: "WCHAR \<Rightarrow> WCHAR"
  RtlHashUnicodeString :: "UNICODE_STRING \<Rightarrow> ULONG option"

definition RtlEqualUnicodeString :: "NLS \<Rightarrow> UNICODE_STRING \<Rightarrow> UNICODE_STRING \<Rightarrow> bool" where
  "RtlEqualUnicodeString nls a b \<longleftrightarrow>
     map (RtlUpcaseUnicodeChar nls) a = map (RtlUpcaseUnicodeChar nls) b"

definition RtlPrefixUnicodeString :: "NLS \<Rightarrow> UNICODE_STRING \<Rightarrow> UNICODE_STRING \<Rightarrow> bool" where
  "RtlPrefixUnicodeString nls p s \<longleftrightarrow>
     length p \<le> length s \<and> RtlEqualUnicodeString nls p (take (length p) s)"

definition nls_ok :: "NLS \<Rightarrow> bool" where
  "nls_ok nls \<longleftrightarrow>
     (\<forall>a b. RtlEqualUnicodeString nls a b \<longrightarrow> RtlHashUnicodeString nls a = RtlHashUnicodeString nls b) \<and>
     (\<forall>c. RtlUpcaseUnicodeChar nls c = backslash \<longleftrightarrow> c = backslash)"

text \<open>
  BlorgHashPath: the runtime's hash, or the driver's own when that fails, mixed into its high
  bits. (The failing call leaves \<open>hash\<close> at the zero it was initialised with.)
\<close>

fun fallback_hash :: "NLS \<Rightarrow> UNICODE_STRING \<Rightarrow> ULONG \<Rightarrow> ULONG" where
  "fallback_hash nls [] hash = hash"
| "fallback_hash nls (c # cs) hash =
     fallback_hash nls cs (hash * 131 + ucast (RtlUpcaseUnicodeChar nls c))"

definition BlorgHashPath :: "NLS \<Rightarrow> UNICODE_STRING \<Rightarrow> ULONG" where
  "BlorgHashPath nls path =
     (case RtlHashUnicodeString nls path of
        Some hash \<Rightarrow> hash
      | None \<Rightarrow> fallback_hash nls path 0) * 0x9E3779B1"

section \<open>Equality but for case\<close>

lemma equal_refl [simp]: "RtlEqualUnicodeString nls a a"
  by (simp add: RtlEqualUnicodeString_def)

lemma equal_sym: "RtlEqualUnicodeString nls a b \<Longrightarrow> RtlEqualUnicodeString nls b a"
  by (simp add: RtlEqualUnicodeString_def)

lemma equal_commute: "RtlEqualUnicodeString nls a b = RtlEqualUnicodeString nls b a"
  by (auto simp: RtlEqualUnicodeString_def)

lemma equal_trans:
  "RtlEqualUnicodeString nls a b \<Longrightarrow> RtlEqualUnicodeString nls b c \<Longrightarrow> RtlEqualUnicodeString nls a c"
  by (simp add: RtlEqualUnicodeString_def)

lemma equal_subst:
  "RtlEqualUnicodeString nls a b \<Longrightarrow> RtlEqualUnicodeString nls c a = RtlEqualUnicodeString nls c b"
  by (simp add: RtlEqualUnicodeString_def)

lemma equal_length: "RtlEqualUnicodeString nls a b \<Longrightarrow> length a = length b"
  by (metis RtlEqualUnicodeString_def length_map)

lemma equal_append:
  assumes "RtlEqualUnicodeString nls a c" "RtlEqualUnicodeString nls b d"
  shows "RtlEqualUnicodeString nls (a @ b) (c @ d)"
  using assms by (simp add: RtlEqualUnicodeString_def)

lemma equal_append_same:
  "RtlEqualUnicodeString nls (p @ a) (p @ b) \<longleftrightarrow> RtlEqualUnicodeString nls a b"
  by (simp add: RtlEqualUnicodeString_def)

lemma equal_take: "RtlEqualUnicodeString nls a b \<Longrightarrow> RtlEqualUnicodeString nls (take n a) (take n b)"
  by (simp add: RtlEqualUnicodeString_def take_map [symmetric])

lemma equal_nth_separator:
  assumes "nls_ok nls" "RtlEqualUnicodeString nls a b" "i < length a"
  shows "a ! i = backslash \<longleftrightarrow> b ! i = backslash"
proof -
  have "i < length b" using assms(2,3) by (simp add: equal_length)
  with assms(2,3) have "RtlUpcaseUnicodeChar nls (a ! i) = RtlUpcaseUnicodeChar nls (b ! i)"
    unfolding RtlEqualUnicodeString_def by (metis nth_map)
  with assms(1) show ?thesis unfolding nls_ok_def by metis
qed

section \<open>Hashing folds case\<close>

lemma fallback_hash_equal:
  "RtlEqualUnicodeString nls a b \<Longrightarrow> fallback_hash nls a h = fallback_hash nls b h"
proof (induction a arbitrary: b h)
  case Nil
  then show ?case by (simp add: RtlEqualUnicodeString_def)
next
  case (Cons c cs)
  from Cons.prems obtain d ds where "b = d # ds"
    by (cases b) (auto simp: RtlEqualUnicodeString_def)
  with Cons show ?case by (simp add: RtlEqualUnicodeString_def)
qed

lemma BlorgHashPath_equal:
  assumes "nls_ok nls" "RtlEqualUnicodeString nls a b"
  shows "BlorgHashPath nls a = BlorgHashPath nls b"
proof -
  have "RtlHashUnicodeString nls a = RtlHashUnicodeString nls b"
    using assms unfolding nls_ok_def by blast
  then show ?thesis
    by (simp add: BlorgHashPath_def fallback_hash_equal [OF assms(2)] split: option.split)
qed

lemma prefix_equal:
  assumes "RtlEqualUnicodeString nls a b"
  shows "RtlPrefixUnicodeString nls p a = RtlPrefixUnicodeString nls p b"
  unfolding RtlPrefixUnicodeString_def equal_length [OF assms] equal_subst [OF equal_take [OF assms]]
  by (rule refl)

section \<open>A concrete case folding\<close>

text \<open>
  Folding of the ASCII letters, with a hash that always fails, so that the driver's own hash is
  used: the concrete runtime the examples of the development run on.
\<close>

definition ascii_nls :: NLS where
  "ascii_nls = \<lparr>RtlUpcaseUnicodeChar = (\<lambda>c. if 0x61 \<le> c \<and> c \<le> 0x7A then c - 0x20 else c),
                RtlHashUnicodeString = (\<lambda>_. None)\<rparr>"

lemma ascii_upcase_separator:
  fixes c :: WCHAR
  assumes "0x61 \<le> c" "c \<le> 0x7A"
  shows "c - 0x20 \<noteq> 0x5C" and "c \<noteq> 0x5C"
proof -
  show "c \<noteq> 0x5C" using assms by auto
  have "c - 0x20 = 0x5C \<Longrightarrow> c = 0x7C"
  proof -
    assume "c - 0x20 = 0x5C"
    then have "c = 0x5C + 0x20" by (metis diff_add_cancel)
    then show "c = 0x7C" by simp
  qed
  then show "c - 0x20 \<noteq> 0x5C" using assms by auto
qed

lemma ascii_nls_ok: "nls_ok ascii_nls"
  unfolding nls_ok_def ascii_nls_def using ascii_upcase_separator by auto

end
