(* ===== verification/Listing.thy ===== *)
theory Listing
  imports Nt_Strings
begin

text \<open>
  Directory listings (Structs.h, Client.c): the immutable snapshot a directory fetch produces, its
  layout in one allocation, the name index that opens are answered from, its decoding from the
  server's answer, and its reference count.

  A listing is one block: header, file entries, subdirectory entries, the name index (chain heads
  and one link per entry) and the names. The model keeps the entries as lists, the two parts of
  the index as lists of ULONGs, and the offsets of the header as they are computed; an entry's
  name is the string at its Name pointer, and \<open>NameAt\<close> is where that pointer points, in
  characters from the start of the names area.
\<close>

section \<open>Data\<close>

record DIRECTORY_ENTRY_METADATA =
  Size :: ULONG64
  CreationTime :: ULONG64
  LastAccessedTime :: ULONG64
  LastModifiedTime :: ULONG64
  IsDirectory :: bool
  NoStore :: bool

record DIRECTORY_FILE_METADATA =
  F_Size :: ULONG64
  F_CreationTime :: ULONG64
  F_LastAccessedTime :: ULONG64
  F_LastModifiedTime :: ULONG64
  F_Name :: UNICODE_STRING
  F_NameAt :: nat

record DIRECTORY_SUBDIR_METADATA =
  S_CreationTime :: ULONG64
  S_LastAccessedTime :: ULONG64
  S_LastModifiedTime :: ULONG64
  S_Name :: UNICODE_STRING
  S_NameAt :: nat

text \<open>A listing beneath a subtree answer; \<open>Listing\<close> is the address of its block.\<close>

record DIRECTORY_DESCENDANT =
  D_Listing :: nat
  D_Parent :: nat
  D_SubDir :: nat

record DIRECTORY_INFO =
  SubDirsOffset :: SIZE_T
  IndexOffset :: SIZE_T
  NamesOffset :: SIZE_T
  Files :: "DIRECTORY_FILE_METADATA list"
  SubDirs :: "DIRECTORY_SUBDIR_METADATA list"
  DI_Bytes :: SIZE_T
  Descendants :: "DIRECTORY_DESCENDANT list"
  RefCount :: int
  IndexMask :: ULONG
  IndexHeads :: "ULONG list"
  IndexLinks :: "ULONG list"
  DI_NoStore :: bool

definition MAX_NAME_LEN :: nat where "MAX_NAME_LEN = 260"

abbreviation FileCount :: "DIRECTORY_INFO \<Rightarrow> nat" where "FileCount li \<equiv> length (Files li)"
abbreviation SubDirCount :: "DIRECTORY_INFO \<Rightarrow> nat" where "SubDirCount li \<equiv> length (SubDirs li)"
abbreviation entry_count :: "DIRECTORY_INFO \<Rightarrow> nat" where
  "entry_count li \<equiv> FileCount li + SubDirCount li"

definition BlorgGetSubDirEntry :: "DIRECTORY_INFO \<Rightarrow> nat \<Rightarrow> DIRECTORY_SUBDIR_METADATA option" where
  "BlorgGetSubDirEntry li i = (if SubDirCount li \<le> i then None else Some (SubDirs li ! i))"

definition BlorgGetFileEntry :: "DIRECTORY_INFO \<Rightarrow> nat \<Rightarrow> DIRECTORY_FILE_METADATA option" where
  "BlorgGetFileEntry li i = (if FileCount li \<le> i then None else Some (Files li ! i))"

section \<open>Allocation and layout\<close>

definition HttpCheckedAddSizeT :: "SIZE_T \<Rightarrow> SIZE_T \<Rightarrow> SIZE_T option" where
  "HttpCheckedAddSizeT a b = (if a + b < a then None else Some (a + b))"

definition HTTP_MIN_LISTING_ENTRY_WIRE_BYTES :: SIZE_T where
  "HTTP_MIN_LISTING_ENTRY_WIRE_BYTES = 4"

definition HttpListingCountsAreCredible :: "SIZE_T \<Rightarrow> SIZE_T \<Rightarrow> SIZE_T \<Rightarrow> bool" where
  "HttpListingCountsAreCredible subdirs files bodyLen =
     (case HttpCheckedAddSizeT subdirs files of
        None \<Rightarrow> False
      | Some totalCount \<Rightarrow> \<not> totalCount > bodyLen div HTTP_MIN_LISTING_ENTRY_WIRE_BYTES)"

definition sizeof_DIRECTORY_INFO :: SIZE_T where "sizeof_DIRECTORY_INFO = 88"
definition sizeof_FILE_METADATA :: SIZE_T where "sizeof_FILE_METADATA = 48"
definition sizeof_SUBDIR_METADATA :: SIZE_T where "sizeof_SUBDIR_METADATA = 40"

text \<open>
  \<open>while (chains < entries) chains <<= 1;\<close> with fuel: the caller has bounded \<open>entries\<close> by
  MAXULONG / 4, so thirty doublings are enough (\<open>chains_loop_enough\<close>).
\<close>

fun chains_loop :: "nat \<Rightarrow> ULONG \<Rightarrow> SIZE_T \<Rightarrow> ULONG" where
  "chains_loop 0 chainCount entries = chainCount"
| "chains_loop (Suc fuel) chainCount entries =
     (if ucast chainCount < entries then chains_loop fuel (push_bit 1 chainCount) entries else chainCount)"

definition zero_file :: DIRECTORY_FILE_METADATA where
  "zero_file = \<lparr>F_Size = 0, F_CreationTime = 0, F_LastAccessedTime = 0, F_LastModifiedTime = 0,
                F_Name = [], F_NameAt = 0\<rparr>"

definition zero_subdir :: DIRECTORY_SUBDIR_METADATA where
  "zero_subdir = \<lparr>S_CreationTime = 0, S_LastAccessedTime = 0, S_LastModifiedTime = 0,
                  S_Name = [], S_NameAt = 0\<rparr>"

text \<open>\<open>pool\<close> says whether the pool allocation succeeds; the block comes back zeroed.\<close>

definition BlorgAllocateDirectoryInfo :: "bool \<Rightarrow> SIZE_T \<Rightarrow> SIZE_T \<Rightarrow> SIZE_T \<Rightarrow> DIRECTORY_INFO option" where
  "BlorgAllocateDirectoryInfo pool fileCount subDirCount nameBytes =
     (case HttpCheckedAddSizeT fileCount subDirCount of
        None \<Rightarrow> None
      | Some entries \<Rightarrow>
          if entries > 0x3FFFFFFF then None
          else let chainCount = chains_loop 30 1 entries;
                   filesOffset = sizeof_DIRECTORY_INFO;
                   subDirsOffset = filesOffset + fileCount * sizeof_FILE_METADATA;
                   indexOffset = subDirsOffset + subDirCount * sizeof_SUBDIR_METADATA;
                   namesOffset = indexOffset + (ucast chainCount + entries) * 4
               in case HttpCheckedAddSizeT namesOffset nameBytes of
                    None \<Rightarrow> None
                  | Some bytes \<Rightarrow>
                      if \<not> pool then None
                      else Some \<lparr>SubDirsOffset = subDirsOffset, IndexOffset = indexOffset,
                                 NamesOffset = namesOffset,
                                 Files = replicate (unat fileCount) zero_file,
                                 SubDirs = replicate (unat subDirCount) zero_subdir,
                                 DI_Bytes = bytes, Descendants = [], RefCount = 1,
                                 IndexMask = chainCount - 1,
                                 IndexHeads = replicate (unat chainCount) 0,
                                 IndexLinks = replicate (unat entries) 0,
                                 DI_NoStore = False\<rparr>)"

section \<open>The name index\<close>

definition HttpListingEntryName :: "DIRECTORY_INFO \<Rightarrow> nat \<Rightarrow> UNICODE_STRING" where
  "HttpListingEntryName li entry =
     (if entry < FileCount li then F_Name (Files li ! entry)
      else S_Name (SubDirs li ! (entry - FileCount li)))"

definition HttpListingChain :: "NLS \<Rightarrow> DIRECTORY_INFO \<Rightarrow> UNICODE_STRING \<Rightarrow> nat" where
  "HttpListingChain nls li name =
     (let hash = (case RtlHashUnicodeString nls name of Some h \<Rightarrow> h | None \<Rightarrow> 0);
          mixed = ucast (hash * 0x9E3779B1 :: ULONG) :: ULONG64
      in unat (ucast (drop_bit 32 (mixed * (ucast (IndexMask li) + 1))) :: ULONG))"

text \<open>The loop of BlorgIndexDirectoryInfo; its counter runs from the entry count down to one.\<close>

fun index_loop :: "NLS \<Rightarrow> nat \<Rightarrow> DIRECTORY_INFO \<Rightarrow> DIRECTORY_INFO" where
  "index_loop nls 0 li = li"
| "index_loop nls (Suc e) li =
     (let chain = HttpListingChain nls li (HttpListingEntryName li e)
      in index_loop nls e
           (li\<lparr>IndexLinks := (IndexLinks li)[e := IndexHeads li ! chain],
               IndexHeads := (IndexHeads li)[chain := of_nat (Suc e)]\<rparr>))"

definition BlorgIndexDirectoryInfo :: "NLS \<Rightarrow> DIRECTORY_INFO \<Rightarrow> DIRECTORY_INFO" where
  "BlorgIndexDirectoryInfo nls li = index_loop nls (entry_count li) li"

text \<open>
  The loop of BlorgFindDirectoryEntry: the outer option is None for a chain that never ends, the
  inner one is the entry found.
\<close>

partial_function (option) chain_walk ::
    "NLS \<Rightarrow> DIRECTORY_INFO \<Rightarrow> UNICODE_STRING \<Rightarrow> ULONG \<Rightarrow> nat option option" where
  [code]: "chain_walk nls li name next =
     (if next = 0 then Some None
      else if RtlEqualUnicodeString nls (HttpListingEntryName li (unat next - 1)) name
           then Some (Some (unat next - 1))
           else chain_walk nls li name (IndexLinks li ! (unat next - 1)))"

definition BlorgFindDirectoryEntry :: "NLS \<Rightarrow> DIRECTORY_INFO \<Rightarrow> UNICODE_STRING \<Rightarrow> nat option option" where
  "BlorgFindDirectoryEntry nls li name =
     chain_walk nls li name (IndexHeads li ! HttpListingChain nls li name)"

text \<open>
  CreateFindEntryByName (Create.c): what the found entry writes into the caller's metadata; NoStore
  is not among the fields it writes.
\<close>

definition entry_metadata :: "DIRECTORY_INFO \<Rightarrow> nat \<Rightarrow> DIRECTORY_ENTRY_METADATA \<Rightarrow> DIRECTORY_ENTRY_METADATA" where
  "entry_metadata li entry out =
     (if entry < FileCount li
      then let fi = Files li ! entry
           in out\<lparr>Size := F_Size fi, CreationTime := F_CreationTime fi,
                  LastAccessedTime := F_LastAccessedTime fi,
                  LastModifiedTime := F_LastModifiedTime fi, IsDirectory := False\<rparr>
      else let sub = SubDirs li ! (entry - FileCount li)
           in out\<lparr>Size := 0, CreationTime := S_CreationTime sub,
                  LastAccessedTime := S_LastAccessedTime sub,
                  LastModifiedTime := S_LastModifiedTime sub, IsDirectory := True\<rparr>)"

definition CreateFindEntryByName ::
    "NLS \<Rightarrow> DIRECTORY_INFO \<Rightarrow> UNICODE_STRING \<Rightarrow> DIRECTORY_ENTRY_METADATA \<Rightarrow>
     DIRECTORY_ENTRY_METADATA option option" where
  "CreateFindEntryByName nls li name out =
     map_option (map_option (\<lambda>entry. entry_metadata li entry out)) (BlorgFindDirectoryEntry nls li name)"

section \<open>Decoding the server's answer\<close>

text \<open>
  The verified FlatBuffer tables the decoder reads, as the values its generated accessors return:
  None stands for an absent table, name or listing. A descendant of the answer names its parent
  listing and its place in it.
\<close>

record flat_file =
  ff_name :: "UCHAR list option"
  ff_size :: ULONG64
  ff_created :: ULONG64
  ff_accessed :: ULONG64
  ff_modified :: ULONG64

record flat_subdir =
  fs_name :: "UCHAR list option"
  fs_created :: ULONG64
  fs_accessed :: ULONG64
  fs_modified :: ULONG64

record flat_directory =
  fd_files :: "flat_file option list"
  fd_subdirectories :: "flat_subdir option list"

text \<open>
  RtlUTF8ToUnicodeN is a parameter: from the room in bytes and the UTF-8 bytes, the status and the
  characters written.
\<close>

type_synonym utf8_decoder = "nat \<Rightarrow> UCHAR list \<Rightarrow> NTSTATUS \<times> UNICODE_STRING"

definition HttpDecodeName ::
    "utf8_decoder \<Rightarrow> UCHAR list \<Rightarrow> nat \<Rightarrow> NTSTATUS + (nat \<times> UNICODE_STRING \<times> nat)" where
  "HttpDecodeName utf8 name cursor =
     (let (status, chars) = utf8 ((MAX_NAME_LEN - 1) * 2) name
      in if \<not> NT_SUCCESS status then Inl status
         else Inr (cursor, chars, cursor + length chars + 1))"

text \<open>The first pass of HttpDecodeListing: every name present and not empty, and their total size.\<close>

fun name_bytes :: "UCHAR list option list \<Rightarrow> SIZE_T \<Rightarrow> SIZE_T option" where
  "name_bytes [] nameBytes = Some nameBytes"
| "name_bytes (None # names) nameBytes = None"
| "name_bytes (Some name # names) nameBytes =
     (if name = [] then None
      else case HttpCheckedAddSizeT nameBytes ((of_nat (length name) + 1) * 2) of
             None \<Rightarrow> None
           | Some nameBytes' \<Rightarrow> name_bytes names nameBytes')"

definition flat_names :: "flat_directory \<Rightarrow> UCHAR list option list" where
  "flat_names d = map (\<lambda>x. Option.bind x ff_name) (fd_files d) @
                  map (\<lambda>x. Option.bind x fs_name) (fd_subdirectories d)"

text \<open>
  The second pass, over the files and then over the subdirectories; the first pass has found every
  table and name present.
\<close>

fun decode_files ::
    "utf8_decoder \<Rightarrow> flat_file option list \<Rightarrow> nat \<Rightarrow> NTSTATUS + (DIRECTORY_FILE_METADATA list \<times> nat)" where
  "decode_files utf8 [] cursor = Inr ([], cursor)"
| "decode_files utf8 (x # xs) cursor =
     (let ff = the x
      in case HttpDecodeName utf8 (the (ff_name ff)) cursor of
           Inl status \<Rightarrow> Inl status
         | Inr (at, name, cursor') \<Rightarrow>
             (case decode_files utf8 xs cursor' of
                Inl status \<Rightarrow> Inl status
              | Inr (rest, cursor2) \<Rightarrow>
                  Inr (\<lparr>F_Size = ff_size ff, F_CreationTime = ff_created ff,
                        F_LastAccessedTime = ff_accessed ff, F_LastModifiedTime = ff_modified ff,
                        F_Name = name, F_NameAt = at\<rparr> # rest, cursor2)))"

fun decode_subdirs ::
    "utf8_decoder \<Rightarrow> flat_subdir option list \<Rightarrow> nat \<Rightarrow> NTSTATUS + (DIRECTORY_SUBDIR_METADATA list \<times> nat)" where
  "decode_subdirs utf8 [] cursor = Inr ([], cursor)"
| "decode_subdirs utf8 (x # xs) cursor =
     (let fs = the x
      in case HttpDecodeName utf8 (the (fs_name fs)) cursor of
           Inl status \<Rightarrow> Inl status
         | Inr (at, name, cursor') \<Rightarrow>
             (case decode_subdirs utf8 xs cursor' of
                Inl status \<Rightarrow> Inl status
              | Inr (rest, cursor2) \<Rightarrow>
                  Inr (\<lparr>S_CreationTime = fs_created fs, S_LastAccessedTime = fs_accessed fs,
                        S_LastModifiedTime = fs_modified fs, S_Name = name, S_NameAt = at\<rparr> # rest,
                       cursor2)))"

definition HttpDecodeListing ::
    "NLS \<Rightarrow> utf8_decoder \<Rightarrow> bool \<Rightarrow> flat_directory \<Rightarrow> SIZE_T \<Rightarrow> bool \<Rightarrow> NTSTATUS + DIRECTORY_INFO" where
  "HttpDecodeListing nls utf8 pool d bodyLen noStore =
     (let subdirCount = of_nat (length (fd_subdirectories d));
          filesCount = of_nat (length (fd_files d))
      in if \<not> HttpListingCountsAreCredible subdirCount filesCount bodyLen
         then Inl STATUS_INVALID_PARAMETER
         else case name_bytes (flat_names d) 0 of
                None \<Rightarrow> Inl STATUS_INVALID_PARAMETER
              | Some nameBytes \<Rightarrow>
          (case BlorgAllocateDirectoryInfo pool filesCount subdirCount nameBytes of
             None \<Rightarrow> Inl STATUS_INSUFFICIENT_RESOURCES
           | Some li \<Rightarrow>
               (case decode_files utf8 (fd_files d) 0 of
                  Inl status \<Rightarrow> Inl status
                | Inr (files, cursor) \<Rightarrow>
                    (case decode_subdirs utf8 (fd_subdirectories d) cursor of
                       Inl status \<Rightarrow> Inl status
                     | Inr (subDirs, _) \<Rightarrow>
                         Inr ((BlorgIndexDirectoryInfo nls (li\<lparr>Files := files, SubDirs := subDirs\<rparr>))
                              \<lparr>DI_NoStore := noStore\<rparr>)))))"

text \<open>
  HttpDecodeDescendants: the listings a subtree answer carries beneath the one asked for, each with
  its parent's number and its place in the parent. \<open>pool k\<close> is the outcome of the k-th
  descendant's allocation, \<open>arrayPool\<close> that of the array's. The result is what is attached to
  the root, in order.
\<close>

record flat_descendant =
  fx_listing :: "flat_directory option"
  fx_parent :: ULONG
  fx_subdirectory :: ULONG

record decoded_descendant =
  X_Listing :: DIRECTORY_INFO
  X_Parent :: ULONG
  X_SubDir :: ULONG

definition HTTP_SUBTREE_MAX_ENTRIES :: nat where "HTTP_SUBTREE_MAX_ENTRIES = 65536"

definition parent_listing :: "DIRECTORY_INFO \<Rightarrow> decoded_descendant list \<Rightarrow> ULONG \<Rightarrow> DIRECTORY_INFO option" where
  "parent_listing root decoded parent =
     (if parent = 0 then Some root
      else if unat parent \<le> length decoded then Some (X_Listing (decoded ! (unat parent - 1)))
      else None)"

fun descend_loop ::
    "NLS \<Rightarrow> utf8_decoder \<Rightarrow> (nat \<Rightarrow> bool) \<Rightarrow> SIZE_T \<Rightarrow> nat \<Rightarrow> DIRECTORY_INFO \<Rightarrow>
     flat_descendant option list \<Rightarrow> decoded_descendant list \<Rightarrow> nat \<Rightarrow> decoded_descendant list" where
  "descend_loop nls utf8 pool bodyLen cap root [] decoded entries = decoded"
| "descend_loop nls utf8 pool bodyLen cap root (x # xs) decoded entries =
     (case x of None \<Rightarrow> decoded
      | Some fx \<Rightarrow>
     (case fx_listing fx of None \<Rightarrow> decoded
      | Some flatListing \<Rightarrow>
     (case parent_listing root decoded (fx_parent fx) of None \<Rightarrow> decoded
      | Some parentListing \<Rightarrow>
          if SubDirCount parentListing \<le> unat (fx_subdirectory fx) then decoded
          else (case HttpDecodeListing nls utf8 (pool (length decoded)) flatListing bodyLen (DI_NoStore root) of
                  Inl status \<Rightarrow> decoded
                | Inr listing \<Rightarrow>
                    let entries' = entries + entry_count listing
                    in if entries' > cap then decoded
                       else descend_loop nls utf8 pool bodyLen cap root xs
                              (decoded @ [\<lparr>X_Listing = listing, X_Parent = fx_parent fx,
                                           X_SubDir = fx_subdirectory fx\<rparr>]) entries'))))"

definition HttpDecodeDescendants ::
    "NLS \<Rightarrow> utf8_decoder \<Rightarrow> bool \<Rightarrow> (nat \<Rightarrow> bool) \<Rightarrow> flat_descendant option list \<Rightarrow> SIZE_T \<Rightarrow> ULONG \<Rightarrow>
     DIRECTORY_INFO \<Rightarrow> decoded_descendant list" where
  "HttpDecodeDescendants nls utf8 arrayPool pool flatDescendants bodyLen maxEntries root =
     (let cap = min (unat maxEntries) HTTP_SUBTREE_MAX_ENTRIES;
          count = min (length flatDescendants) cap
      in if count = 0 \<or> \<not> arrayPool then []
         else descend_loop nls utf8 pool bodyLen cap root (take count flatDescendants) [] 0)"

section \<open>References\<close>

text \<open>
  Listings live at addresses of a heap. A listing freed with its last reference releases the
  descendants still attached to it; a descendant's own descendants are never attached
  (HttpDecodeDescendants ignores them), so the recursion is two calls deep and \<open>depth\<close> 2 covers
  it (\<open>release_depth\<close>).
\<close>

type_synonym info_heap = "nat \<rightharpoonup> DIRECTORY_INFO"

definition BlorgReferenceDirectoryInfo :: "nat \<Rightarrow> info_heap \<Rightarrow> info_heap" where
  "BlorgReferenceDirectoryInfo a h = h(a := map_option (\<lambda>li. li\<lparr>RefCount := RefCount li + 1\<rparr>) (h a))"

fun release :: "nat \<Rightarrow> nat \<Rightarrow> info_heap \<Rightarrow> info_heap" where
  "release 0 a h = h"
| "release (Suc depth) a h =
     (case h a of
        None \<Rightarrow> h
      | Some li \<Rightarrow>
          if RefCount li - 1 = 0
          then fold (\<lambda>d. release depth (D_Listing d)) (Descendants li) (h(a := None))
          else h(a \<mapsto> li\<lparr>RefCount := RefCount li - 1\<rparr>))"

definition BlorgReleaseDirectoryInfo :: "nat \<Rightarrow> info_heap \<Rightarrow> info_heap" where
  "BlorgReleaseDirectoryInfo a h = release 2 a h"

definition BlorgTakeDescendants :: "nat \<Rightarrow> info_heap \<Rightarrow> DIRECTORY_DESCENDANT list \<times> info_heap" where
  "BlorgTakeDescendants a h =
     (case h a of
        None \<Rightarrow> ([], h)
      | Some li \<Rightarrow> (Descendants li, h(a \<mapsto> li\<lparr>Descendants := []\<rparr>)))"

definition BlorgReleaseDescendants :: "DIRECTORY_DESCENDANT list \<Rightarrow> info_heap \<Rightarrow> info_heap" where
  "BlorgReleaseDescendants ds h = fold (\<lambda>d. BlorgReleaseDirectoryInfo (D_Listing d)) ds h"

end
