(* ===== verification/Path_Cache.thy ===== *)
theory Path_Cache
  imports Listing
begin

text \<open>
  The path cache and the listing cache (PathCache.c): existence results and directory listings
  kept by full path, in buckets under their own locks, with one invalidation sequence.

  A bucket's LIST_ENTRY chain is the list of its entries, head first. A path is a list of
  characters; the empty list stands for a NULL string, a string of length zero and a string
  without a buffer, which the code treats alike. Each function below that takes a bucket lock is
  one critical section or a composition of critical sections in the order of the code; the parts
  ending in \<open>_locked\<close> are the code between one acquire and its release, so that the
  interleavings of several threads can be described (Path_Cache_Protocol). Reads of the clock and
  outcomes of pool allocations are arguments. The heap of listings is part of the state, since
  the cache holds references to them.
\<close>

section \<open>Constants and data\<close>

definition PATH_CACHE_BUCKETS :: nat where "PATH_CACHE_BUCKETS = 256"
definition PATH_CACHE_MAX_PER_BUCKET :: nat where "PATH_CACHE_MAX_PER_BUCKET = 16"
definition PATH_CACHE_MAX_PATH_BYTES :: nat where "PATH_CACHE_MAX_PATH_BYTES = 4096"
definition PATH_CACHE_TTL_100NS :: ULONG64 where "PATH_CACHE_TTL_100NS = 40000000"
definition PATH_CACHE_FEED_TTL_100NS :: ULONG64 where "PATH_CACHE_FEED_TTL_100NS = 3000000000"
definition PATH_CACHE_SEED_MAX :: nat where "PATH_CACHE_SEED_MAX = 1024"
definition LISTING_CACHE_BUCKETS :: nat where "LISTING_CACHE_BUCKETS = 256"
definition LISTING_CACHE_MAX_PER_BUCKET :: nat where "LISTING_CACHE_MAX_PER_BUCKET = 8"
definition LISTING_CACHE_MAX_BYTES :: int where "LISTING_CACHE_MAX_BYTES = 32 * 1024 * 1024"
definition LISTING_STALE_GRACE_100NS :: ULONG64 where "LISTING_STALE_GRACE_100NS = 260000000"

type_synonym LONG64 = "64 word"

record PATH_CACHE_TICKET =
  T_Sequence :: LONG64
  T_IssueTime :: ULONG64

record PATH_CACHE_ENTRY =
  E_Path :: UNICODE_STRING
  E_IssueTime :: ULONG64
  E_Sequence :: LONG64
  E_Meta :: DIRECTORY_ENTRY_METADATA
  E_Generation :: ULONG
  E_Exists :: bool

record LISTING_CACHE_ENTRY =
  L_Path :: UNICODE_STRING
  L_Listing :: nat
  L_Bytes :: int
  L_IssueTime :: ULONG64
  L_Sequence :: LONG64
  L_Generation :: ULONG
  L_RefreshClaimed :: bool

record 'e PATH_CACHE_BUCKET =
  B_List :: "'e list"
  B_Count :: nat

text \<open>
  PathCache, with the one field of the driver's globals it reads and writes (ChangeFeedLive) and
  the heap of listings. Sequence is a 64-bit and Generation a 32-bit counter; ListingBytes is an
  integer, since the sizes of allocated blocks cannot add up to 2^63.
\<close>

record PATH_CACHE_STATE =
  Buckets :: "PATH_CACHE_ENTRY PATH_CACHE_BUCKET list"
  ListingBuckets :: "LISTING_CACHE_ENTRY PATH_CACHE_BUCKET list"
  Sequence :: LONG64
  ListingBytes :: int
  Ready :: bool
  Generation :: ULONG
  Count :: int
  ChangeFeedLive :: bool
  Infos :: info_heap

datatype PATH_CACHE_RESULT = PathCacheMiss | PathCacheExists | PathCacheNotFound

section \<open>Small operations\<close>

definition PathCacheBucket :: "NLS \<Rightarrow> UNICODE_STRING \<Rightarrow> nat" where
  "PathCacheBucket nls path = unat (drop_bit 24 (BlorgHashPath nls path))"

definition ListingCacheBucket :: "NLS \<Rightarrow> UNICODE_STRING \<Rightarrow> nat" where
  "ListingCacheBucket nls path = unat (drop_bit 24 (BlorgHashPath nls path))"

definition PathCacheTicketHonoured :: "PATH_CACHE_TICKET option \<Rightarrow> PATH_CACHE_STATE \<Rightarrow> bool" where
  "PathCacheTicketHonoured ticket s =
     (case ticket of None \<Rightarrow> True | Some t \<Rightarrow> T_Sequence t = Sequence s)"

definition PathCacheAdvanceSequence :: "PATH_CACHE_STATE \<Rightarrow> PATH_CACHE_STATE" where
  "PathCacheAdvanceSequence s = s\<lparr>Sequence := Sequence s + 1\<rparr>"

definition ListingCacheSizeOf :: "DIRECTORY_INFO \<Rightarrow> int" where
  "ListingCacheSizeOf li = sint (DI_Bytes li)"

definition ListingCacheCharge :: "int \<Rightarrow> PATH_CACHE_STATE \<Rightarrow> bool \<times> PATH_CACHE_STATE" where
  "ListingCacheCharge bytes s =
     (let s1 = s\<lparr>ListingBytes := ListingBytes s + bytes\<rparr>
      in if ListingBytes s + bytes \<le> LISTING_CACHE_MAX_BYTES then (True, s1)
         else (False, s1\<lparr>ListingBytes := ListingBytes s1 - bytes\<rparr>))"

definition unlink :: "'e \<Rightarrow> 'e PATH_CACHE_BUCKET \<Rightarrow> 'e PATH_CACHE_BUCKET" where
  "unlink e b = b\<lparr>B_List := remove1 e (B_List b), B_Count := B_Count b - 1\<rparr>"

definition ListingCacheRemoveEntry :: "nat \<Rightarrow> LISTING_CACHE_ENTRY \<Rightarrow> PATH_CACHE_STATE \<Rightarrow> PATH_CACHE_STATE" where
  "ListingCacheRemoveEntry i e s =
     s\<lparr>ListingBuckets := (ListingBuckets s)[i := unlink e (ListingBuckets s ! i)],
       ListingBytes := ListingBytes s - L_Bytes e,
       Infos := BlorgReleaseDirectoryInfo (L_Listing e) (Infos s)\<rparr>"

definition PathCacheAge :: "ULONG64 \<Rightarrow> ULONG64 \<Rightarrow> ULONG64" where
  "PathCacheAge issueTime now = (if now > issueTime then now - issueTime else 0)"

definition PathCacheLifetime :: "PATH_CACHE_STATE \<Rightarrow> ULONG64" where
  "PathCacheLifetime s = (if ChangeFeedLive s then PATH_CACHE_FEED_TTL_100NS else PATH_CACHE_TTL_100NS)"

definition ListingCacheEntryLive :: "LISTING_CACHE_ENTRY \<Rightarrow> ULONG64 \<Rightarrow> ULONG \<Rightarrow> ULONG64 \<Rightarrow> bool" where
  "ListingCacheEntryLive e now generation lifetime \<longleftrightarrow>
     L_Generation e = generation \<and>
     PathCacheAge (L_IssueTime e) now < lifetime + LISTING_STALE_GRACE_100NS"

definition PathCacheRemoveEntry :: "nat \<Rightarrow> PATH_CACHE_ENTRY \<Rightarrow> PATH_CACHE_STATE \<Rightarrow> PATH_CACHE_STATE" where
  "PathCacheRemoveEntry i e s =
     s\<lparr>Buckets := (Buckets s)[i := unlink e (Buckets s ! i)], Count := Count s - 1\<rparr>"

definition PathCacheEntryLive :: "PATH_CACHE_ENTRY \<Rightarrow> ULONG64 \<Rightarrow> ULONG \<Rightarrow> ULONG64 \<Rightarrow> bool" where
  "PathCacheEntryLive e now generation lifetime \<longleftrightarrow>
     PathCacheAge (E_IssueTime e) now < (if E_Exists e then lifetime else PATH_CACHE_TTL_100NS) \<and>
     E_Generation e = generation"

text \<open>
  The two shapes of the bucket loops: remove every entry that satisfies a test (the next link is
  read before the removal), and remove the first one and stop.
\<close>

fun remove_where :: "(nat \<Rightarrow> 'e \<Rightarrow> 's \<Rightarrow> 's) \<Rightarrow> ('e \<Rightarrow> bool) \<Rightarrow> nat \<Rightarrow> 'e list \<Rightarrow> 's \<Rightarrow> 's" where
  "remove_where remove P i [] s = s"
| "remove_where remove P i (e # es) s =
     remove_where remove P i es (if P e then remove i e s else s)"

fun remove_one :: "(nat \<Rightarrow> 'e \<Rightarrow> 's \<Rightarrow> 's) \<Rightarrow> ('e \<Rightarrow> bool) \<Rightarrow> nat \<Rightarrow> 'e list \<Rightarrow> 's \<Rightarrow> 's" where
  "remove_one remove P i [] s = s"
| "remove_one remove P i (e # es) s =
     (if P e then remove i e s else remove_one remove P i es s)"

abbreviation path_list :: "PATH_CACHE_STATE \<Rightarrow> nat \<Rightarrow> PATH_CACHE_ENTRY list" where
  "path_list s i \<equiv> B_List (Buckets s ! i)"

abbreviation listing_list :: "PATH_CACHE_STATE \<Rightarrow> nat \<Rightarrow> LISTING_CACHE_ENTRY list" where
  "listing_list s i \<equiv> B_List (ListingBuckets s ! i)"

definition sweep_paths :: "(PATH_CACHE_ENTRY \<Rightarrow> bool) \<Rightarrow> nat \<Rightarrow> PATH_CACHE_STATE \<Rightarrow> PATH_CACHE_STATE" where
  "sweep_paths P i s = remove_where PathCacheRemoveEntry P i (path_list s i) s"

definition sweep_listings :: "(LISTING_CACHE_ENTRY \<Rightarrow> bool) \<Rightarrow> nat \<Rightarrow> PATH_CACHE_STATE \<Rightarrow> PATH_CACHE_STATE" where
  "sweep_listings P i s = remove_where ListingCacheRemoveEntry P i (listing_list s i) s"

section \<open>Start and stop\<close>

definition empty_bucket :: "'e PATH_CACHE_BUCKET" where
  "empty_bucket = \<lparr>B_List = [], B_Count = 0\<rparr>"

definition BlorgPathCacheInit :: "PATH_CACHE_STATE \<Rightarrow> PATH_CACHE_STATE" where
  "BlorgPathCacheInit s =
     s\<lparr>Buckets := replicate PATH_CACHE_BUCKETS empty_bucket,
       ListingBuckets := replicate LISTING_CACHE_BUCKETS empty_bucket,
       Generation := 0, Count := 0, Sequence := 0, ListingBytes := 0, Ready := True\<rparr>"

definition BlorgPathCacheCleanup :: "PATH_CACHE_STATE \<Rightarrow> PATH_CACHE_STATE" where
  "BlorgPathCacheCleanup s =
     (if \<not> Ready s then s
      else let s1 = s\<lparr>Ready := False, Buckets := map (\<lambda>b. b\<lparr>B_List := [], B_Count := 0\<rparr>) (Buckets s)\<rparr>;
               s2 = fold (sweep_listings (\<lambda>_. True)) [0..<LISTING_CACHE_BUCKETS] s1
           in s2\<lparr>Count := 0\<rparr>)"

section \<open>Tickets and lookups\<close>

definition BlorgPathCacheTakeTicket :: "ULONG64 \<Rightarrow> PATH_CACHE_STATE \<Rightarrow> PATH_CACHE_TICKET" where
  "BlorgPathCacheTakeTicket now s = \<lparr>T_Sequence = Sequence s, T_IssueTime = now\<rparr>"

definition BlorgPathCacheTicketCurrent :: "ULONG64 \<Rightarrow> PATH_CACHE_TICKET \<Rightarrow> PATH_CACHE_STATE \<Rightarrow> bool" where
  "BlorgPathCacheTicketCurrent now t s \<longleftrightarrow>
     T_IssueTime t \<noteq> 0 \<and> T_Sequence t = Sequence s \<and>
     PathCacheAge (T_IssueTime t) now < PathCacheLifetime s"

text \<open>
  PathCacheFind: the result, the metadata it copies out and the ticket it hands back. The metadata
  and the ticket are those of the caller where nothing is found.
\<close>

definition path_find :: "NLS \<Rightarrow> UNICODE_STRING \<Rightarrow> PATH_CACHE_STATE \<Rightarrow> PATH_CACHE_ENTRY option" where
  "path_find nls path s =
     List.find (\<lambda>e. RtlEqualUnicodeString nls (E_Path e) path) (path_list s (PathCacheBucket nls path))"

definition find_locked ::
    "NLS \<Rightarrow> UNICODE_STRING \<Rightarrow> DIRECTORY_ENTRY_METADATA \<Rightarrow> PATH_CACHE_TICKET \<Rightarrow> ULONG64 \<Rightarrow> ULONG64 \<Rightarrow> ULONG \<Rightarrow>
     PATH_CACHE_STATE \<Rightarrow> PATH_CACHE_RESULT \<times> DIRECTORY_ENTRY_METADATA \<times> PATH_CACHE_TICKET" where
  "find_locked nls path meta ticket now lifetime generation s =
     (case path_find nls path s of
        None \<Rightarrow> (PathCacheMiss, meta, ticket)
      | Some e \<Rightarrow>
          if PathCacheEntryLive e now generation lifetime
          then if E_Exists e
               then (PathCacheExists, E_Meta e, \<lparr>T_Sequence = E_Sequence e, T_IssueTime = E_IssueTime e\<rparr>)
               else (PathCacheNotFound, meta, ticket)
          else (PathCacheMiss, meta, ticket))"

definition PathCacheFind ::
    "NLS \<Rightarrow> ULONG64 \<Rightarrow> UNICODE_STRING \<Rightarrow> DIRECTORY_ENTRY_METADATA \<Rightarrow> PATH_CACHE_TICKET \<Rightarrow> PATH_CACHE_STATE \<Rightarrow>
     PATH_CACHE_RESULT \<times> DIRECTORY_ENTRY_METADATA \<times> PATH_CACHE_TICKET" where
  "PathCacheFind nls now path meta ticket s =
     (if \<not> Ready s \<or> path = [] then (PathCacheMiss, meta, ticket)
      else find_locked nls path meta ticket now (PathCacheLifetime s) (Generation s) s)"

definition BlorgPathCacheLookupDated ::
    "NLS \<Rightarrow> ULONG64 \<Rightarrow> UNICODE_STRING \<Rightarrow> DIRECTORY_ENTRY_METADATA \<Rightarrow> PATH_CACHE_TICKET \<Rightarrow> PATH_CACHE_STATE \<Rightarrow>
     PATH_CACHE_RESULT \<times> DIRECTORY_ENTRY_METADATA \<times> PATH_CACHE_TICKET" where
  "BlorgPathCacheLookupDated nls now path meta ticket s = PathCacheFind nls now path meta ticket s"

text \<open>
  BlorgPathCacheLookup and BlorgPathCachePeek pass no ticket; the one here is read by nobody.
\<close>

definition BlorgPathCacheLookup ::
    "NLS \<Rightarrow> ULONG64 \<Rightarrow> UNICODE_STRING \<Rightarrow> DIRECTORY_ENTRY_METADATA \<Rightarrow> PATH_CACHE_STATE \<Rightarrow>
     PATH_CACHE_RESULT \<times> DIRECTORY_ENTRY_METADATA" where
  "BlorgPathCacheLookup nls now path meta s =
     (case PathCacheFind nls now path meta \<lparr>T_Sequence = 0, T_IssueTime = 0\<rparr> s of
        (result, meta', _) \<Rightarrow> (result, meta'))"

definition BlorgPathCachePeek ::
    "NLS \<Rightarrow> ULONG64 \<Rightarrow> UNICODE_STRING \<Rightarrow> DIRECTORY_ENTRY_METADATA \<Rightarrow> PATH_CACHE_STATE \<Rightarrow>
     PATH_CACHE_RESULT \<times> DIRECTORY_ENTRY_METADATA" where
  "BlorgPathCachePeek nls now path meta s =
     (case PathCacheFind nls now path meta \<lparr>T_Sequence = 0, T_IssueTime = 0\<rparr> s of
        (result, meta', _) \<Rightarrow> (result, meta'))"

section \<open>Insertion\<close>

text \<open>The refresh in place of an entry already there, from the prebuilt new one.\<close>

definition refresh_entry :: "bool \<Rightarrow> PATH_CACHE_ENTRY \<Rightarrow> PATH_CACHE_ENTRY \<Rightarrow> PATH_CACHE_ENTRY" where
  "refresh_entry hasMeta new e =
     e\<lparr>E_Exists := E_Exists new, E_Meta := (if hasMeta then E_Meta new else E_Meta e),
       E_Generation := E_Generation new, E_IssueTime := E_IssueTime new, E_Sequence := E_Sequence new\<rparr>"

definition update_entry :: "nat \<Rightarrow> PATH_CACHE_ENTRY \<Rightarrow> PATH_CACHE_ENTRY \<Rightarrow> PATH_CACHE_STATE \<Rightarrow> PATH_CACHE_STATE" where
  "update_entry i e e' s =
     s\<lparr>Buckets := (Buckets s)[i := (Buckets s ! i)\<lparr>B_List := map (\<lambda>x. if x = e then e' else x) (path_list s i)\<rparr>]\<rparr>"

text \<open>The walk of PathCacheInsert: reap what is dead, refresh and stop at the path itself.\<close>

fun insert_walk ::
    "NLS \<Rightarrow> UNICODE_STRING \<Rightarrow> bool \<Rightarrow> PATH_CACHE_ENTRY \<Rightarrow> (PATH_CACHE_ENTRY \<Rightarrow> bool) \<Rightarrow> nat \<Rightarrow>
     PATH_CACHE_ENTRY list \<Rightarrow> PATH_CACHE_STATE \<Rightarrow> bool \<times> PATH_CACHE_STATE" where
  "insert_walk nls path hasMeta new live i [] s = (False, s)"
| "insert_walk nls path hasMeta new live i (e # es) s =
     (if RtlEqualUnicodeString nls (E_Path e) path
      then (True, update_entry i e (refresh_entry hasMeta new e) s)
      else insert_walk nls path hasMeta new live i es
             (if live e then s else PathCacheRemoveEntry i e s))"

definition insert_tail :: "nat \<Rightarrow> PATH_CACHE_ENTRY \<Rightarrow> PATH_CACHE_STATE \<Rightarrow> PATH_CACHE_STATE" where
  "insert_tail i new s =
     (let s1 = (if PATH_CACHE_MAX_PER_BUCKET \<le> B_Count (Buckets s ! i) \<and> path_list s i \<noteq> []
                then PathCacheRemoveEntry i (hd (path_list s i)) s else s);
          b = Buckets s1 ! i
      in s1\<lparr>Buckets := (Buckets s1)[i := b\<lparr>B_List := B_List b @ [new], B_Count := B_Count b + 1\<rparr>],
            Count := Count s1 + 1\<rparr>)"

definition insert_locked ::
    "NLS \<Rightarrow> UNICODE_STRING \<Rightarrow> bool \<Rightarrow> DIRECTORY_ENTRY_METADATA option \<Rightarrow> PATH_CACHE_TICKET option \<Rightarrow>
     ULONG64 \<Rightarrow> ULONG64 \<Rightarrow> ULONG \<Rightarrow> PATH_CACHE_STATE \<Rightarrow> PATH_CACHE_STATE" where
  "insert_locked nls path exists meta ticket now lifetime generation s =
     (let hasMeta = exists \<and> meta \<noteq> None;
          i = PathCacheBucket nls path;
          zero = \<lparr>Size = 0, CreationTime = 0, LastAccessedTime = 0, LastModifiedTime = 0,
                  IsDirectory = False, NoStore = False\<rparr>;
          new = \<lparr>E_Path = path,
                 E_IssueTime = (case ticket of Some t \<Rightarrow> T_IssueTime t | None \<Rightarrow> now),
                 E_Sequence = (case ticket of Some t \<Rightarrow> T_Sequence t | None \<Rightarrow> Sequence s),
                 E_Meta = (if hasMeta then the meta else zero),
                 E_Generation = generation, E_Exists = exists\<rparr>
      in if \<not> PathCacheTicketHonoured ticket s then s
         else case insert_walk nls path hasMeta new (\<lambda>e. PathCacheEntryLive e now generation lifetime) i
                     (path_list s i) s of
                (inserted, s1) \<Rightarrow> if inserted then s1 else insert_tail i new s1)"

text \<open>\<open>pool\<close>: both allocations of the prebuilt entry succeeded.\<close>

definition PathCacheInsert ::
    "NLS \<Rightarrow> bool \<Rightarrow> ULONG64 \<Rightarrow> UNICODE_STRING \<Rightarrow> bool \<Rightarrow> DIRECTORY_ENTRY_METADATA option \<Rightarrow>
     PATH_CACHE_TICKET option \<Rightarrow> PATH_CACHE_STATE \<Rightarrow> PATH_CACHE_STATE" where
  "PathCacheInsert nls pool now path exists meta ticket s =
     (if \<not> Ready s \<or> path = [] \<or> byte_length path > PATH_CACHE_MAX_PATH_BYTES \<or>
         (exists \<and> (case meta of Some m \<Rightarrow> NoStore m | None \<Rightarrow> False)) \<or> \<not> pool
      then s
      else insert_locked nls path exists meta ticket now (PathCacheLifetime s) (Generation s) s)"

definition BlorgPathCacheInsertExists ::
    "NLS \<Rightarrow> bool \<Rightarrow> ULONG64 \<Rightarrow> UNICODE_STRING \<Rightarrow> DIRECTORY_ENTRY_METADATA \<Rightarrow> PATH_CACHE_TICKET option \<Rightarrow>
     PATH_CACHE_STATE \<Rightarrow> PATH_CACHE_STATE" where
  "BlorgPathCacheInsertExists nls pool now path meta ticket s =
     PathCacheInsert nls pool now path True (Some meta) ticket s"

definition BlorgPathCacheInsertNotFound ::
    "NLS \<Rightarrow> bool \<Rightarrow> ULONG64 \<Rightarrow> UNICODE_STRING \<Rightarrow> PATH_CACHE_TICKET option \<Rightarrow> PATH_CACHE_STATE \<Rightarrow> PATH_CACHE_STATE" where
  "BlorgPathCacheInsertNotFound nls pool now path ticket s =
     PathCacheInsert nls pool now path False None ticket s"

section \<open>Paths\<close>

text \<open>
  PathCacheParent: \<open>last_separator\<close> is the loop's final \<open>chars\<close>, the length of the longest
  prefix that ends in a separator.
\<close>

fun last_separator :: "UNICODE_STRING \<Rightarrow> nat \<Rightarrow> nat" where
  "last_separator path 0 = 0"
| "last_separator path (Suc n) = (if path ! n \<noteq> backslash then last_separator path n else Suc n)"

definition PathCacheParent :: "UNICODE_STRING \<Rightarrow> UNICODE_STRING option" where
  "PathCacheParent path =
     (let chars = last_separator path (length path)
      in if chars = 0 \<or> chars = length path then None
         else Some (take (if chars = 1 then 1 else chars - 1) path))"

definition ends_with_separator :: "UNICODE_STRING \<Rightarrow> bool" where
  "ends_with_separator dir \<longleftrightarrow> 0 < length dir \<and> dir ! (length dir - 1) = backslash"

definition PathCacheIsUnder :: "NLS \<Rightarrow> UNICODE_STRING \<Rightarrow> UNICODE_STRING \<Rightarrow> bool" where
  "PathCacheIsUnder nls dir path \<longleftrightarrow>
     \<not> length path < length dir \<and> RtlPrefixUnicodeString nls dir path \<and>
     (length path = length dir \<or> ends_with_separator dir \<or> path ! length dir = backslash)"

definition PathCacheIsBelowChild :: "UNICODE_STRING \<Rightarrow> UNICODE_STRING \<Rightarrow> bool" where
  "PathCacheIsBelowChild dir path \<longleftrightarrow>
     list_ex (\<lambda>i. path ! i = backslash)
       [(if ends_with_separator dir then length dir else length dir + 1)..<length path]"

definition PathCacheIsComponent :: "UNICODE_STRING \<Rightarrow> bool" where
  "PathCacheIsComponent name \<longleftrightarrow>
     \<not> (length name = 0 \<or> MAX_NAME_LEN \<le> length name) \<and> list_all (\<lambda>c. c \<noteq> backslash) name"

section \<open>Invalidation\<close>

definition ListingCacheDrop :: "NLS \<Rightarrow> UNICODE_STRING \<Rightarrow> PATH_CACHE_STATE \<Rightarrow> PATH_CACHE_STATE" where
  "ListingCacheDrop nls dir s =
     (let i = ListingCacheBucket nls dir
      in remove_one ListingCacheRemoveEntry (\<lambda>e. RtlEqualUnicodeString nls (L_Path e) dir) i (listing_list s i) s)"

definition ListingCacheDropParent :: "NLS \<Rightarrow> UNICODE_STRING \<Rightarrow> PATH_CACHE_STATE \<Rightarrow> PATH_CACHE_STATE" where
  "ListingCacheDropParent nls path s =
     (case PathCacheParent path of None \<Rightarrow> s | Some parent \<Rightarrow> ListingCacheDrop nls parent s)"

definition path_drop :: "NLS \<Rightarrow> UNICODE_STRING \<Rightarrow> PATH_CACHE_STATE \<Rightarrow> PATH_CACHE_STATE" where
  "path_drop nls path s =
     (let i = PathCacheBucket nls path
      in remove_one PathCacheRemoveEntry (\<lambda>e. RtlEqualUnicodeString nls (E_Path e) path) i (path_list s i) s)"

definition BlorgPathCacheInvalidate :: "NLS \<Rightarrow> UNICODE_STRING \<Rightarrow> PATH_CACHE_STATE \<Rightarrow> PATH_CACHE_STATE" where
  "BlorgPathCacheInvalidate nls path s =
     (if \<not> Ready s \<or> path = [] then s
      else let s1 = PathCacheAdvanceSequence s;
               s2 = path_drop nls path s1;
               s3 = ListingCacheDrop nls path s2
           in ListingCacheDropParent nls path s3)"

definition PathCacheInvalidateUnder ::
    "NLS \<Rightarrow> UNICODE_STRING \<Rightarrow> bool \<Rightarrow> bool \<Rightarrow> PATH_CACHE_STATE \<Rightarrow> PATH_CACHE_STATE" where
  "PathCacheInvalidateUnder nls dir keepDir childrenOnly s =
     fold (sweep_paths (\<lambda>e. PathCacheIsUnder nls dir (E_Path e) \<and>
                            \<not> (keepDir \<and> length (E_Path e) = length dir) \<and>
                            \<not> (childrenOnly \<and> PathCacheIsBelowChild dir (E_Path e))))
          [0..<PATH_CACHE_BUCKETS] s"

text \<open>\<open>dir = None\<close> is the NULL of the wholesale flush.\<close>

definition ListingCacheDropUnder :: "NLS \<Rightarrow> UNICODE_STRING option \<Rightarrow> PATH_CACHE_STATE \<Rightarrow> PATH_CACHE_STATE" where
  "ListingCacheDropUnder nls dir s =
     fold (sweep_listings (\<lambda>e. case dir of None \<Rightarrow> True | Some d \<Rightarrow> PathCacheIsUnder nls d (L_Path e)))
          [0..<LISTING_CACHE_BUCKETS] s"

definition BlorgPathCacheInvalidatePrefix :: "NLS \<Rightarrow> UNICODE_STRING \<Rightarrow> PATH_CACHE_STATE \<Rightarrow> PATH_CACHE_STATE" where
  "BlorgPathCacheInvalidatePrefix nls dir s =
     (if \<not> Ready s \<or> dir = [] then s
      else let s1 = PathCacheAdvanceSequence s;
               s2 = PathCacheInvalidateUnder nls dir False False s1;
               s3 = ListingCacheDropUnder nls (Some dir) s2
           in ListingCacheDropParent nls dir s3)"

definition BlorgPathCacheInvalidateAll :: "NLS \<Rightarrow> PATH_CACHE_STATE \<Rightarrow> PATH_CACHE_STATE" where
  "BlorgPathCacheInvalidateAll nls s =
     (let s1 = PathCacheAdvanceSequence s;
          s2 = s1\<lparr>Generation := Generation s1 + 1\<rparr>
      in if Ready s2 then ListingCacheDropUnder nls None s2 else s2)"

definition BlorgPathCacheFollowFeed :: "NLS \<Rightarrow> bool \<Rightarrow> PATH_CACHE_STATE \<Rightarrow> PATH_CACHE_STATE" where
  "BlorgPathCacheFollowFeed nls live s =
     (let s1 = (if live then BlorgPathCacheInvalidateAll nls s else s)
      in s1\<lparr>ChangeFeedLive := live\<rparr>)"

section \<open>Seeding from a listing\<close>

text \<open>
  One scratch path buffer of PATH_CACHE_MAX_PATH_BYTES holds the directory with its separator;
  \<open>dir\<close> below is its contents. The \<open>clock\<close> and \<open>pool\<close> of a seed are read once per insert,
  indexed by the kind of the entry (True for a subdirectory) and its place in the listing.
\<close>

definition PathCacheSeedEntry ::
    "NLS \<Rightarrow> bool \<Rightarrow> ULONG64 \<Rightarrow> UNICODE_STRING \<Rightarrow> UNICODE_STRING \<Rightarrow> DIRECTORY_ENTRY_METADATA \<Rightarrow>
     PATH_CACHE_TICKET option \<Rightarrow> PATH_CACHE_STATE \<Rightarrow> PATH_CACHE_STATE" where
  "PathCacheSeedEntry nls pool now dir name meta ticket s =
     (if \<not> PathCacheIsComponent name \<or> byte_length dir + byte_length name > PATH_CACHE_MAX_PATH_BYTES
      then s
      else PathCacheInsert nls pool now (dir @ name) True (Some meta) ticket s)"

fun seed_subdirs ::
    "NLS \<Rightarrow> (bool \<Rightarrow> nat \<Rightarrow> bool) \<Rightarrow> (bool \<Rightarrow> nat \<Rightarrow> ULONG64) \<Rightarrow> UNICODE_STRING \<Rightarrow> DIRECTORY_INFO \<Rightarrow>
     PATH_CACHE_TICKET option \<Rightarrow> nat \<Rightarrow> DIRECTORY_ENTRY_METADATA \<Rightarrow> PATH_CACHE_STATE \<Rightarrow>
     DIRECTORY_ENTRY_METADATA \<times> PATH_CACHE_STATE" where
  "seed_subdirs nls pool clock dir li ticket 0 meta s = (meta, s)"
| "seed_subdirs nls pool clock dir li ticket (Suc i) meta s =
     (let sub = the (BlorgGetSubDirEntry li i);
          meta' = meta\<lparr>CreationTime := S_CreationTime sub, LastAccessedTime := S_LastAccessedTime sub,
                       LastModifiedTime := S_LastModifiedTime sub\<rparr>
      in seed_subdirs nls pool clock dir li ticket i meta'
           (PathCacheSeedEntry nls (pool True i) (clock True i) dir (S_Name sub) meta' ticket s))"

fun seed_files ::
    "NLS \<Rightarrow> (bool \<Rightarrow> nat \<Rightarrow> bool) \<Rightarrow> (bool \<Rightarrow> nat \<Rightarrow> ULONG64) \<Rightarrow> UNICODE_STRING \<Rightarrow> DIRECTORY_INFO \<Rightarrow>
     PATH_CACHE_TICKET option \<Rightarrow> nat \<Rightarrow> DIRECTORY_ENTRY_METADATA \<Rightarrow> PATH_CACHE_STATE \<Rightarrow> PATH_CACHE_STATE" where
  "seed_files nls pool clock dir li ticket 0 meta s = s"
| "seed_files nls pool clock dir li ticket (Suc i) meta s =
     (let fi = the (BlorgGetFileEntry li i);
          meta' = meta\<lparr>Size := F_Size fi, CreationTime := F_CreationTime fi,
                       LastAccessedTime := F_LastAccessedTime fi, LastModifiedTime := F_LastModifiedTime fi\<rparr>
      in seed_files nls pool clock dir li ticket i meta'
           (PathCacheSeedEntry nls (pool False i) (clock False i) dir (F_Name fi) meta' ticket s))"

definition zero_metadata :: DIRECTORY_ENTRY_METADATA where
  "zero_metadata = \<lparr>Size = 0, CreationTime = 0, LastAccessedTime = 0, LastModifiedTime = 0,
                    IsDirectory = False, NoStore = False\<rparr>"

definition with_separator :: "UNICODE_STRING \<Rightarrow> UNICODE_STRING" where
  "with_separator dir = (if dir ! (length dir - 1) \<noteq> backslash then dir @ [backslash] else dir)"

definition seed_entries ::
    "NLS \<Rightarrow> (bool \<Rightarrow> nat \<Rightarrow> bool) \<Rightarrow> (bool \<Rightarrow> nat \<Rightarrow> ULONG64) \<Rightarrow> UNICODE_STRING \<Rightarrow> DIRECTORY_INFO \<Rightarrow>
     PATH_CACHE_TICKET option \<Rightarrow> PATH_CACHE_STATE \<Rightarrow> PATH_CACHE_STATE" where
  "seed_entries nls pool clock dir li ticket s =
     (let scratch = with_separator dir;
          files = (if FileCount li < PATH_CACHE_SEED_MAX then FileCount li else PATH_CACHE_SEED_MAX);
          subDirs = (if SubDirCount li < PATH_CACHE_SEED_MAX - files then SubDirCount li
                     else PATH_CACHE_SEED_MAX - files);
          (meta, s1) = seed_subdirs nls pool clock scratch li ticket subDirs (zero_metadata\<lparr>IsDirectory := True\<rparr>) s
      in seed_files nls pool clock scratch li ticket files (meta\<lparr>IsDirectory := False\<rparr>) s1)"

text \<open>\<open>listing = None\<close> is a NULL listing, \<open>scratchPool\<close> the outcome of the scratch allocation.\<close>

definition BlorgPathCacheSeedListing ::
    "NLS \<Rightarrow> bool \<Rightarrow> (bool \<Rightarrow> nat \<Rightarrow> bool) \<Rightarrow> (bool \<Rightarrow> nat \<Rightarrow> ULONG64) \<Rightarrow> UNICODE_STRING \<Rightarrow>
     DIRECTORY_INFO option \<Rightarrow> PATH_CACHE_TICKET option \<Rightarrow> PATH_CACHE_STATE \<Rightarrow> PATH_CACHE_STATE" where
  "BlorgPathCacheSeedListing nls scratchPool pool clock dir listing ticket s =
     (if \<not> Ready s \<or> dir = [] then s
      else let s1 = PathCacheInvalidateUnder nls dir True (ChangeFeedLive s) s
           in case listing of
                None \<Rightarrow> s1
              | Some li \<Rightarrow>
                  if byte_length dir + 2 > PATH_CACHE_MAX_PATH_BYTES \<or> \<not> scratchPool then s1
                  else seed_entries nls pool clock dir li ticket s1)"

section \<open>The listing cache\<close>

record listing_lookup =
  R_Listing :: "nat option"
  R_Stale :: bool
  R_RefreshOwed :: bool
  R_Ticket :: PATH_CACHE_TICKET

definition listing_find :: "NLS \<Rightarrow> UNICODE_STRING \<Rightarrow> PATH_CACHE_STATE \<Rightarrow> LISTING_CACHE_ENTRY option" where
  "listing_find nls dir s =
     List.find (\<lambda>e. RtlEqualUnicodeString nls (L_Path e) dir) (listing_list s (ListingCacheBucket nls dir))"

definition claim_refresh :: "nat \<Rightarrow> LISTING_CACHE_ENTRY \<Rightarrow> PATH_CACHE_STATE \<Rightarrow> PATH_CACHE_STATE" where
  "claim_refresh i e s =
     s\<lparr>ListingBuckets := (ListingBuckets s)[i := (ListingBuckets s ! i)
         \<lparr>B_List := map (\<lambda>x. if x = e then e\<lparr>L_RefreshClaimed := True\<rparr> else x) (listing_list s i)\<rparr>]\<rparr>"

definition lookup_listing_locked ::
    "NLS \<Rightarrow> UNICODE_STRING \<Rightarrow> bool \<Rightarrow> PATH_CACHE_TICKET \<Rightarrow> ULONG64 \<Rightarrow> ULONG64 \<Rightarrow> ULONG \<Rightarrow> PATH_CACHE_STATE \<Rightarrow>
     listing_lookup \<times> PATH_CACHE_STATE" where
  "lookup_listing_locked nls dir allowStale ticket now lifetime generation s =
     (let miss = \<lparr>R_Listing = None, R_Stale = False, R_RefreshOwed = False, R_Ticket = ticket\<rparr>
      in case listing_find nls dir s of
           None \<Rightarrow> (miss, s)
         | Some e \<Rightarrow>
             if \<not> ListingCacheEntryLive e now generation lifetime then (miss, s)
             else let stale = (PathCacheAge (L_IssueTime e) now \<ge> lifetime)
                  in if stale \<and> \<not> allowStale then (miss, s)
                     else let s1 = s\<lparr>Infos := BlorgReferenceDirectoryInfo (L_Listing e) (Infos s)\<rparr>;
                              owed = stale \<and> \<not> L_RefreshClaimed e
                          in (\<lparr>R_Listing = Some (L_Listing e), R_Stale = stale, R_RefreshOwed = owed,
                               R_Ticket = \<lparr>T_Sequence = L_Sequence e, T_IssueTime = L_IssueTime e\<rparr>\<rparr>,
                              if stale then claim_refresh (ListingCacheBucket nls dir) e s1 else s1))"

definition BlorgPathCacheLookupListing ::
    "NLS \<Rightarrow> ULONG64 \<Rightarrow> UNICODE_STRING \<Rightarrow> bool \<Rightarrow> PATH_CACHE_TICKET \<Rightarrow> PATH_CACHE_STATE \<Rightarrow>
     listing_lookup \<times> PATH_CACHE_STATE" where
  "BlorgPathCacheLookupListing nls now dir allowStale ticket s =
     (if Ready s \<and> dir \<noteq> []
      then lookup_listing_locked nls dir allowStale ticket now (PathCacheLifetime s) (Generation s) s
      else (\<lparr>R_Listing = None, R_Stale = False, R_RefreshOwed = False, R_Ticket = ticket\<rparr>, s))"

definition ListingCacheReapDead :: "ULONG64 \<Rightarrow> ULONG \<Rightarrow> ULONG64 \<Rightarrow> PATH_CACHE_STATE \<Rightarrow> PATH_CACHE_STATE" where
  "ListingCacheReapDead now generation lifetime s =
     fold (sweep_listings (\<lambda>e. \<not> ListingCacheEntryLive e now generation lifetime)) [0..<LISTING_CACHE_BUCKETS] s"

text \<open>The walk of BlorgPathCachePublishListing: reap what is dead, remember the directory's own entry.\<close>

fun publish_walk ::
    "NLS \<Rightarrow> UNICODE_STRING \<Rightarrow> (LISTING_CACHE_ENTRY \<Rightarrow> bool) \<Rightarrow> nat \<Rightarrow> LISTING_CACHE_ENTRY list \<Rightarrow>
     LISTING_CACHE_ENTRY option \<Rightarrow> PATH_CACHE_STATE \<Rightarrow> LISTING_CACHE_ENTRY option \<times> PATH_CACHE_STATE" where
  "publish_walk nls dir live i [] existing s = (existing, s)"
| "publish_walk nls dir live i (e # es) existing s =
     (if \<not> live e then publish_walk nls dir live i es existing (ListingCacheRemoveEntry i e s)
      else publish_walk nls dir live i es
             (if RtlEqualUnicodeString nls (L_Path e) dir then Some e else existing) s)"

text \<open>The eviction loop: the head goes while the bytes would not fit.\<close>

fun evict_over :: "nat \<Rightarrow> int \<Rightarrow> LISTING_CACHE_ENTRY list \<Rightarrow> PATH_CACHE_STATE \<Rightarrow> PATH_CACHE_STATE" where
  "evict_over i bytes [] s = s"
| "evict_over i bytes (e # es) s =
     (if ListingBytes s + bytes > LISTING_CACHE_MAX_BYTES
      then evict_over i bytes es (ListingCacheRemoveEntry i e s) else s)"

definition publish_evict :: "nat \<Rightarrow> int \<Rightarrow> PATH_CACHE_STATE \<Rightarrow> PATH_CACHE_STATE" where
  "publish_evict i bytes s =
     (let bucketBytes = sum_list (map L_Bytes (listing_list s i))
      in if ListingBytes s - bucketBytes + bytes \<le> LISTING_CACHE_MAX_BYTES
         then let s1 = (if LISTING_CACHE_MAX_PER_BUCKET \<le> B_Count (ListingBuckets s ! i) \<and> listing_list s i \<noteq> []
                        then ListingCacheRemoveEntry i (hd (listing_list s i)) s else s)
              in evict_over i bytes (listing_list s1 i) s1
         else s)"

definition publish_insert :: "nat \<Rightarrow> LISTING_CACHE_ENTRY \<Rightarrow> PATH_CACHE_STATE \<Rightarrow> PATH_CACHE_STATE" where
  "publish_insert i new s =
     (case ListingCacheCharge (L_Bytes new) s of
        (False, s1) \<Rightarrow> s1
      | (True, s1) \<Rightarrow>
          let b = ListingBuckets s1 ! i
          in s1\<lparr>Infos := BlorgReferenceDirectoryInfo (L_Listing new) (Infos s1),
                ListingBuckets := (ListingBuckets s1)[i := b\<lparr>B_List := B_List b @ [new], B_Count := B_Count b + 1\<rparr>]\<rparr>)"

definition publish_locked ::
    "NLS \<Rightarrow> bool \<Rightarrow> UNICODE_STRING \<Rightarrow> nat \<Rightarrow> int \<Rightarrow> PATH_CACHE_TICKET option \<Rightarrow> ULONG64 \<Rightarrow> ULONG64 \<Rightarrow> ULONG \<Rightarrow>
     PATH_CACHE_STATE \<Rightarrow> bool \<times> PATH_CACHE_STATE" where
  "publish_locked nls pool dir listing bytes ticket now lifetime generation s =
     (let i = ListingCacheBucket nls dir;
          issueTime = (case ticket of Some t \<Rightarrow> T_IssueTime t | None \<Rightarrow> now);
          new = \<lparr>L_Path = dir, L_Listing = listing, L_Bytes = bytes, L_IssueTime = issueTime,
                 L_Sequence = (case ticket of Some t \<Rightarrow> T_Sequence t | None \<Rightarrow> Sequence s),
                 L_Generation = generation, L_RefreshClaimed = False\<rparr>;
          honoured = PathCacheTicketHonoured ticket s;
          (existing, s1) = publish_walk nls dir (\<lambda>e. ListingCacheEntryLive e now generation lifetime) i
                             (if honoured then listing_list s i else []) None s;
          (current, s2) = (case existing of
                             None \<Rightarrow> (honoured, s1)
                           | Some e \<Rightarrow> if L_IssueTime e > issueTime then (False, s1)
                                       else (honoured, ListingCacheRemoveEntry i e s1))
      in (current, if current \<and> pool then publish_insert i new (publish_evict i bytes s2) else s2))"

definition BlorgPathCachePublishListing ::
    "NLS \<Rightarrow> bool \<Rightarrow> ULONG64 \<Rightarrow> UNICODE_STRING \<Rightarrow> nat \<Rightarrow> PATH_CACHE_TICKET option \<Rightarrow> PATH_CACHE_STATE \<Rightarrow>
     bool \<times> PATH_CACHE_STATE" where
  "BlorgPathCachePublishListing nls pool now dir listing ticket s =
     (case Infos s listing of
        None \<Rightarrow> (False, s)
      | Some li \<Rightarrow>
          if \<not> Ready s \<or> dir = [] \<or> byte_length dir > PATH_CACHE_MAX_PATH_BYTES \<or> DI_NoStore li
          then (False, s)
          else let bytes = ListingCacheSizeOf li;
                   lifetime = PathCacheLifetime s;
                   generation = Generation s;
                   s1 = (if pool \<and> ListingBytes s + bytes > LISTING_CACHE_MAX_BYTES
                         then ListingCacheReapDead now generation lifetime s else s)
               in publish_locked nls pool dir listing bytes ticket now lifetime generation s1)"

section \<open>Publishing a subtree\<close>

text \<open>
  \<open>paths\<close> is the array of paths built so far, None where its buffer stayed NULL; \<open>pool k\<close> is the
  outcome of the k-th path's allocation and \<open>entryPool k\<close> that of its listing entry.
\<close>

definition descendant_path ::
    "PATH_CACHE_STATE \<Rightarrow> nat \<Rightarrow> DIRECTORY_DESCENDANT list \<Rightarrow> UNICODE_STRING option list \<Rightarrow> nat \<Rightarrow> UNICODE_STRING option" where
  "descendant_path s root ds paths i =
     (let d = ds ! i
      in if D_Parent d > i then None
         else let parent = (if D_Parent d = 0 then root else D_Listing (ds ! (D_Parent d - 1)))
              in case (paths ! D_Parent d, Option.bind (Infos s parent) (\<lambda>li. BlorgGetSubDirEntry li (D_SubDir d))) of
                   (Some parentPath, Some sub) \<Rightarrow>
                     if \<not> PathCacheIsComponent (S_Name sub) then None
                     else let path = with_separator parentPath @ S_Name sub
                          in if byte_length path > PATH_CACHE_MAX_PATH_BYTES then None else Some path
                 | _ \<Rightarrow> None)"

fun publish_loop ::
    "NLS \<Rightarrow> (nat \<Rightarrow> bool) \<Rightarrow> (nat \<Rightarrow> bool) \<Rightarrow> (nat \<Rightarrow> ULONG64) \<Rightarrow> nat \<Rightarrow> DIRECTORY_DESCENDANT list \<Rightarrow>
     PATH_CACHE_TICKET option \<Rightarrow> nat \<Rightarrow> UNICODE_STRING option list \<Rightarrow> nat \<Rightarrow> PATH_CACHE_STATE \<Rightarrow> nat \<times> PATH_CACHE_STATE" where
  "publish_loop nls pool entryPool clock root ds ticket 0 paths published s = (published, s)"
| "publish_loop nls pool entryPool clock root ds ticket (Suc n) paths published s =
     (let i = length ds - Suc n
      in case descendant_path s root ds paths i of
           None \<Rightarrow> publish_loop nls pool entryPool clock root ds ticket n (paths @ [None]) published s
         | Some path \<Rightarrow>
             if \<not> pool i
             then publish_loop nls pool entryPool clock root ds ticket n (paths @ [None]) published s
             else (case BlorgPathCachePublishListing nls (entryPool i) (clock i) path (D_Listing (ds ! i)) ticket s of
                     (current, s1) \<Rightarrow>
                       publish_loop nls pool entryPool clock root ds ticket n (paths @ [Some path])
                         (if current then published + 1 else published) s1))"

definition BlorgPathCachePublishDescendants ::
    "NLS \<Rightarrow> bool \<Rightarrow> (nat \<Rightarrow> bool) \<Rightarrow> (nat \<Rightarrow> bool) \<Rightarrow> (nat \<Rightarrow> ULONG64) \<Rightarrow> UNICODE_STRING \<Rightarrow> nat \<Rightarrow>
     DIRECTORY_DESCENDANT list \<Rightarrow> PATH_CACHE_TICKET option \<Rightarrow> PATH_CACHE_STATE \<Rightarrow> nat \<times> PATH_CACHE_STATE" where
  "BlorgPathCachePublishDescendants nls arrayPool pool entryPool clock dir root ds ticket s =
     (if \<not> Ready s \<or> dir = [] \<or> ds = [] \<or> \<not> arrayPool then (0, s)
      else publish_loop nls pool entryPool clock root ds ticket (length ds) [Some dir] 0 s)"

end
