(* ===== verification/Listing_Correct.thy ===== *)
theory Listing_Correct
  imports Listing
begin

text \<open>
  Correctness of directory listings: the layout of the block fits its allocation, the name index
  answers what a scan of the listing would, decoding stays inside the names area, and a listing
  lives exactly as long as it is referenced.
\<close>

section \<open>Checked arithmetic and layout\<close>

lemma HttpCheckedAddSizeT_Some:
  "HttpCheckedAddSizeT a b = Some c \<longleftrightarrow> unat a + unat b < 2 ^ 64 \<and> c = a + b"
proof -
  have "(a + b < a) = (\<not> unat a + unat b < 2 ^ 64)"
    using no_olen_add_nat [of a b] by (auto simp: linorder_not_less [symmetric])
  then show ?thesis unfolding HttpCheckedAddSizeT_def by auto
qed

lemma unat_checked_add: "HttpCheckedAddSizeT a b = Some c \<Longrightarrow> unat c = unat a + unat b"
  unfolding HttpCheckedAddSizeT_Some by (simp add: unat_add_lem [THEN iffD1])

lemma chains_loop_pow:
  assumes "k + fuel \<le> 30"
  shows "\<exists>j. k \<le> j \<and> j \<le> k + fuel \<and> chains_loop fuel (2 ^ k) entries = 2 ^ j \<and>
             (unat entries \<le> 2 ^ j \<or> j = k + fuel)"
  using assms
proof (induction fuel arbitrary: k)
  case 0
  then show ?case by auto
next
  case (Suc fuel)
  have k: "unat (2 ^ k :: ULONG) = 2 ^ k"
    using Suc.prems by (intro unat_pow2) simp
  have less: "(ucast (2 ^ k :: ULONG) < entries) = (2 ^ k < unat entries)"
    using Suc.prems by (simp add: word_less_nat_alt unat_ucast_up k)
  show ?case
  proof (cases "2 ^ k < unat entries")
    case True
    have "push_bit 1 (2 ^ k :: ULONG) = 2 ^ Suc k" by (simp add: push_bit_eq_mult)
    with True have step: "chains_loop (Suc fuel) (2 ^ k) entries = chains_loop fuel (2 ^ Suc k) entries"
      by (simp add: less del: power_Suc)
    obtain j where "Suc k \<le> j" "j \<le> Suc k + fuel" "chains_loop fuel (2 ^ Suc k) entries = 2 ^ j"
      "unat entries \<le> 2 ^ j \<or> j = Suc k + fuel"
      using Suc.IH [of "Suc k"] Suc.prems by auto
    then show ?thesis unfolding step by (intro exI [of _ j]) auto
  next
    case False
    then show ?thesis by (intro exI [of _ k]) (simp add: less)
  qed
qed

text \<open>Thirty doublings reach any entry count the guard lets through.\<close>

lemma chains_loop_enough:
  assumes "unat entries \<le> 0x3FFFFFFF"
  shows "\<exists>j\<le>30. chains_loop 30 1 entries = 2 ^ j \<and> unat entries \<le> 2 ^ j"
proof -
  obtain j where j: "j \<le> 30" "chains_loop 30 1 entries = 2 ^ j" "unat entries \<le> 2 ^ j \<or> j = 30"
    using chains_loop_pow [of 0 30 entries] by auto
  have "unat entries \<le> 2 ^ j" using j(3) assms by auto
  with j show ?thesis by blast
qed

text \<open>What BlorgAllocateDirectoryInfo returns, with every sum taken without wrap-around.\<close>

definition listing_block :: "DIRECTORY_INFO \<Rightarrow> nat \<Rightarrow> bool" where
  "listing_block li nameBytes \<longleftrightarrow>
     unat (SubDirsOffset li) = 88 + 48 * FileCount li \<and>
     unat (IndexOffset li) = unat (SubDirsOffset li) + 40 * SubDirCount li \<and>
     unat (NamesOffset li) = unat (IndexOffset li) + 4 * (length (IndexHeads li) + length (IndexLinks li)) \<and>
     unat (DI_Bytes li) = unat (NamesOffset li) + nameBytes \<and>
     length (IndexLinks li) = entry_count li \<and>
     length (IndexHeads li) = unat (IndexMask li) + 1 \<and>
     entry_count li < 2 ^ 30 \<and> entry_count li \<le> length (IndexHeads li) \<and>
     length (IndexHeads li) \<le> 2 ^ 30"

lemma unat_mult_small:
  fixes a b :: SIZE_T
  shows "unat a * unat b < 2 ^ 64 \<Longrightarrow> unat (a * b) = unat a * unat b"
  by (simp add: unat_word_ariths)

lemma unat_add_small:
  fixes a b :: SIZE_T
  shows "unat a + unat b < 2 ^ 64 \<Longrightarrow> unat (a + b) = unat a + unat b"
  by (simp add: unat_word_ariths)

lemma BlorgAllocateDirectoryInfo_Some:
  assumes "BlorgAllocateDirectoryInfo pool fileCount subDirCount nameBytes = Some li"
  shows "listing_block li (unat nameBytes) \<and> FileCount li = unat fileCount \<and>
         SubDirCount li = unat subDirCount \<and> RefCount li = 1 \<and> Descendants li = [] \<and>
         IndexHeads li = replicate (length (IndexHeads li)) 0"
proof -
  let ?entries = "fileCount + subDirCount"
  let ?c = "chains_loop 30 1 ?entries"
  let ?subs = "88 + fileCount * 48 :: SIZE_T"
  let ?index = "?subs + subDirCount * 40"
  let ?names = "?index + (ucast ?c + ?entries) * 4"
  have add: "HttpCheckedAddSizeT fileCount subDirCount = Some ?entries"
    and small: "\<not> ?entries > 0x3FFFFFFF"
    and bytes: "HttpCheckedAddSizeT ?names nameBytes = Some (DI_Bytes li)"
    and li: "SubDirsOffset li = ?subs" "IndexOffset li = ?index" "NamesOffset li = ?names"
      "Files li = replicate (unat fileCount) zero_file" "SubDirs li = replicate (unat subDirCount) zero_subdir"
      "IndexHeads li = replicate (unat ?c) 0" "IndexLinks li = replicate (unat ?entries) 0"
      "IndexMask li = ?c - 1" "RefCount li = 1" "Descendants li = []"
    using assms unfolding BlorgAllocateDirectoryInfo_def Let_def sizeof_DIRECTORY_INFO_def
      sizeof_FILE_METADATA_def sizeof_SUBDIR_METADATA_def
    by (auto simp: HttpCheckedAddSizeT_Some split: option.splits if_splits)
  have n: "unat ?entries = unat fileCount + unat subDirCount" using add by (rule unat_checked_add)
  have le: "unat ?entries \<le> 0x3FFFFFFF" using small by (simp add: word_less_nat_alt not_less)
  obtain j where j: "j \<le> 30" "?c = 2 ^ j" "unat ?entries \<le> 2 ^ j"
    using chains_loop_enough [OF le] by blast
  have c: "unat ?c = 2 ^ j" unfolding j(2) using j(1) by (intro unat_pow2) simp
  have pow: "(2::nat) ^ j \<le> 2 ^ 30" using j(1) by (intro power_increasing) auto
  have mask: "unat (?c - 1) + 1 = unat ?c"
  proof -
    have "?c \<noteq> 0" using c by auto
    then show ?thesis using unat_minus_one [of ?c] c by simp
  qed
  have subs: "unat ?subs = 88 + 48 * unat fileCount" using n le by (simp add: unat_word_ariths)
  have index: "unat ?index = unat ?subs + 40 * unat subDirCount"
    using n le subs by (simp add: unat_add_small unat_mult_small)
  have up: "unat (ucast ?c :: SIZE_T) = unat ?c" by (rule unat_ucast_up) simp
  have both: "unat (ucast ?c + ?entries :: SIZE_T) = unat ?c + unat ?entries"
    using le c pow by (subst unat_add_small) (simp_all add: up)
  have four: "unat ((ucast ?c + ?entries) * 4 :: SIZE_T) = 4 * (unat ?c + unat ?entries)"
    using le c pow by (subst unat_mult_small) (simp_all add: both)
  have "unat ?index + unat ((ucast ?c + ?entries) * 4 :: SIZE_T) < 2 ^ 64"
    unfolding four using le c pow index subs n by simp
  then have names: "unat ?names = unat ?index + 4 * (unat ?c + unat ?entries)"
    unfolding four [symmetric] by (rule unat_add_small)
  show ?thesis unfolding listing_block_def li
    using subs index names unat_checked_add [OF bytes] mask n le c pow j(3) by (simp add: li)
qed

section \<open>The name index\<close>

lemma HttpListingChain_less:
  assumes "unat (IndexMask li) + 1 \<le> 2 ^ 30"
  shows "HttpListingChain nls li name < unat (IndexMask li) + 1"
proof -
  define mixed :: ULONG where
    "mixed = (case RtlHashUnicodeString nls name of Some h \<Rightarrow> h | None \<Rightarrow> 0) * 0x9E3779B1"
  let ?n = "ucast (IndexMask li) + 1 :: ULONG64"
  let ?d = "drop_bit 32 (ucast mixed * ?n)"
  have mask: "unat (ucast (IndexMask li) :: ULONG64) = unat (IndexMask li)"
    and up: "unat (ucast mixed :: ULONG64) = unat mixed"
    by (rule unat_ucast_up, simp)+
  have n: "unat ?n = unat (IndexMask li) + 1"
    using assms by (subst unat_add_small) (simp_all add: mask)
  have lt: "unat mixed < 2 ^ 32" using unsigned_less [of mixed] by simp
  have prod: "unat mixed * (unat (IndexMask li) + 1) < 2 ^ 32 * (unat (IndexMask li) + 1)"
    using lt by (intro mult_strict_right_mono) simp_all
  also have "\<dots> \<le> 2 ^ 32 * 2 ^ 30" using assms by (intro mult_le_mono) auto
  finally have fits: "unat mixed * (unat (IndexMask li) + 1) < 2 ^ 64" by simp
  have "unat (ucast mixed * ?n) = unat mixed * (unat (IndexMask li) + 1)"
    using fits unat_mult_small [of "ucast mixed" ?n] by (simp add: n up)
  then have "unat ?d = (unat mixed * (unat (IndexMask li) + 1)) div 2 ^ 32"
    by (simp add: drop_bit_eq_div unat_div)
  then have d: "unat ?d < unat (IndexMask li) + 1"
    using prod by (simp add: less_mult_imp_div_less mult.commute)
  have "unat (ucast ?d :: ULONG) \<le> unat ?d" by (simp add: unsigned_ucast_eq take_bit_nat_less_eq_self)
  with d show ?thesis unfolding HttpListingChain_def Let_def mixed_def [symmetric] by linarith
qed

lemma HttpListingChain_equal:
  assumes "nls_ok nls" "RtlEqualUnicodeString nls a b"
  shows "HttpListingChain nls li a = HttpListingChain nls li b"
proof -
  have "RtlHashUnicodeString nls a = RtlHashUnicodeString nls b"
    using assms unfolding nls_ok_def by blast
  then show ?thesis by (simp add: HttpListingChain_def)
qed

text \<open>The entries met when the links are followed from \<open>next\<close>.\<close>

inductive chained :: "ULONG list \<Rightarrow> ULONG \<Rightarrow> nat list \<Rightarrow> bool" for links where
  chained_end: "chained links 0 []"
| chained_step: "j < length links \<Longrightarrow> unat nx = Suc j \<Longrightarrow> chained links (links ! j) js \<Longrightarrow>
                 chained links nx (j # js)"

lemma chained_update:
  "chained links nx js \<Longrightarrow> e \<notin> set js \<Longrightarrow> chained (links[e := v]) nx js"
  by (induction rule: chained.induct) (auto intro: chained.intros)

lemma chain_walk_chained:
  "chained (IndexLinks li) nx js \<Longrightarrow>
   chain_walk nls li name nx =
     Some (List.find (\<lambda>j. RtlEqualUnicodeString nls (HttpListingEntryName li j) name) js)"
proof (induction rule: chained.induct)
  case chained_end
  show ?case by (subst chain_walk.simps) simp
next
  case (chained_step j nx js)
  have "nx \<noteq> 0" using chained_step.hyps(2) by auto
  then show ?case using chained_step by (subst chain_walk.simps) simp
qed

text \<open>The index of the entries from \<open>e\<close> on: every chain lists its own, in listing order.\<close>

definition index_from :: "NLS \<Rightarrow> DIRECTORY_INFO \<Rightarrow> nat \<Rightarrow> bool" where
  "index_from nls li e \<longleftrightarrow>
     (\<forall>c < length (IndexHeads li).
        chained (IndexLinks li) (IndexHeads li ! c)
          (filter (\<lambda>j. HttpListingChain nls li (HttpListingEntryName li j) = c) [e..<entry_count li]))"

lemma HttpListingEntryName_index [simp]:
  "HttpListingEntryName (li\<lparr>IndexLinks := ls, IndexHeads := hs\<rparr>) j = HttpListingEntryName li j"
  by (simp add: HttpListingEntryName_def)

lemma HttpListingChain_index [simp]:
  "HttpListingChain nls (li\<lparr>IndexLinks := ls, IndexHeads := hs\<rparr>) name = HttpListingChain nls li name"
  by (simp add: HttpListingChain_def)

lemma index_from_step:
  assumes "index_from nls li (Suc e)" "Suc e \<le> entry_count li"
    and "length (IndexLinks li) = entry_count li" "entry_count li < 2 ^ 30"
    and "chain = HttpListingChain nls li (HttpListingEntryName li e)" "chain < length (IndexHeads li)"
  shows "index_from nls (li\<lparr>IndexLinks := (IndexLinks li)[e := IndexHeads li ! chain],
                           IndexHeads := (IndexHeads li)[chain := of_nat (Suc e)]\<rparr>) e"
  unfolding index_from_def
proof (intro allI impI, simp)
  fix c
  assume c: "c < length (IndexHeads li)"
  let ?js = "\<lambda>c e. filter (\<lambda>j. HttpListingChain nls li (HttpListingEntryName li j) = c) [e..<entry_count li]"
  let ?links = "(IndexLinks li)[e := IndexHeads li ! chain]"
  have upt: "[e..<entry_count li] = e # [Suc e..<entry_count li]" using assms(2) by (simp add: upt_conv_Cons)
  have old: "chained ?links (IndexHeads li ! c) (?js c (Suc e))"
    using assms(1) c unfolding index_from_def by (intro chained_update) auto
  show "chained ?links ((IndexHeads li)[chain := 1 + of_nat e] ! c) (?js c e)"
  proof (cases "c = chain")
    case True
    have "unat (of_nat (Suc e) :: ULONG) = Suc e"
      using assms(2,4) by (intro unat_of_nat_less) simp
    then have "chained ?links (of_nat (Suc e)) (e # ?js c (Suc e))"
      using old assms(2,3) True by (intro chained_step) simp_all
    with True c assms(5) show ?thesis by (simp add: upt)
  next
    case False
    with old assms(5) show ?thesis by (simp add: upt)
  qed
qed

lemma index_loop_entries [simp]:
  "Files (index_loop nls e li) = Files li" "SubDirs (index_loop nls e li) = SubDirs li"
  "IndexMask (index_loop nls e li) = IndexMask li" "DI_Bytes (index_loop nls e li) = DI_Bytes li"
  "RefCount (index_loop nls e li) = RefCount li" "Descendants (index_loop nls e li) = Descendants li"
  "SubDirsOffset (index_loop nls e li) = SubDirsOffset li" "IndexOffset (index_loop nls e li) = IndexOffset li"
  "NamesOffset (index_loop nls e li) = NamesOffset li"
  "length (IndexHeads (index_loop nls e li)) = length (IndexHeads li)"
  "length (IndexLinks (index_loop nls e li)) = length (IndexLinks li)"
  by (induction e arbitrary: li) (simp_all add: Let_def)

lemma index_loop_index:
  assumes "index_from nls li e" "e \<le> entry_count li"
    and "length (IndexLinks li) = entry_count li" "entry_count li < 2 ^ 30"
    and "length (IndexHeads li) = unat (IndexMask li) + 1" "length (IndexHeads li) \<le> 2 ^ 30"
  shows "index_from nls (index_loop nls e li) 0"
  using assms
proof (induction e arbitrary: li)
  case 0
  then show ?case by simp
next
  case (Suc e)
  let ?chain = "HttpListingChain nls li (HttpListingEntryName li e)"
  have chain: "?chain < length (IndexHeads li)"
    using Suc.prems(5,6) HttpListingChain_less [of li] by simp
  show ?case
    unfolding index_loop.simps Let_def
    by (rule Suc.IH) (use Suc.prems index_from_step [OF Suc.prems(1-4) refl chain] in simp_all)
qed

text \<open>
  An indexed listing: a block as allocated, whose index lists every entry. It is what decoding
  produces, and the premise of every lookup.
\<close>

definition indexed :: "NLS \<Rightarrow> DIRECTORY_INFO \<Rightarrow> bool" where
  "indexed nls li \<longleftrightarrow>
     length (IndexHeads li) = unat (IndexMask li) + 1 \<and> length (IndexHeads li) \<le> 2 ^ 30 \<and>
     index_from nls li 0"

lemma indexed_update [simp]:
  "indexed nls (li\<lparr>DI_NoStore := b\<rparr>) = indexed nls li"
  "indexed nls (li\<lparr>RefCount := r\<rparr>) = indexed nls li"
  "indexed nls (li\<lparr>Descendants := ds\<rparr>) = indexed nls li"
  by (simp_all add: indexed_def index_from_def HttpListingChain_def HttpListingEntryName_def)

lemma BlorgIndexDirectoryInfo_indexed:
  assumes "listing_block li n" "IndexHeads li = replicate (length (IndexHeads li)) 0"
  shows "indexed nls (BlorgIndexDirectoryInfo nls li)"
proof -
  have "index_from nls li (entry_count li)"
    unfolding index_from_def
  proof (intro allI impI)
    fix c assume "c < length (IndexHeads li)"
    then have "IndexHeads li ! c = 0" using assms(2) by (metis nth_replicate)
    then show "chained (IndexLinks li) (IndexHeads li ! c)
        (filter (\<lambda>j. HttpListingChain nls li (HttpListingEntryName li j) = c) [entry_count li..<entry_count li])"
      by (simp add: chained_end)
  qed
  then have "index_from nls (index_loop nls (entry_count li) li) 0"
    using assms(1) unfolding listing_block_def by (intro index_loop_index) simp_all
  then show ?thesis
    using assms(1) by (simp add: indexed_def BlorgIndexDirectoryInfo_def listing_block_def)
qed

lemma find_filter: "List.find P (filter Q xs) = List.find (\<lambda>x. Q x \<and> P x) xs"
  by (induction xs) simp_all

text \<open>What a scan of the listing, files before subdirectories, finds first.\<close>

definition scan_listing :: "NLS \<Rightarrow> DIRECTORY_INFO \<Rightarrow> UNICODE_STRING \<Rightarrow> nat option" where
  "scan_listing nls li name =
     List.find (\<lambda>j. RtlEqualUnicodeString nls (HttpListingEntryName li j) name) [0..<entry_count li]"

lemma BlorgFindDirectoryEntry_scan:
  assumes "nls_ok nls" "indexed nls li"
  shows "BlorgFindDirectoryEntry nls li name = Some (scan_listing nls li name)"
proof -
  let ?c = "HttpListingChain nls li name"
  let ?js = "filter (\<lambda>j. HttpListingChain nls li (HttpListingEntryName li j) = ?c) [0..<entry_count li]"
  have "?c < length (IndexHeads li)"
    using assms(2) HttpListingChain_less [of li] unfolding indexed_def by simp
  then have "chained (IndexLinks li) (IndexHeads li ! ?c) ?js"
    using assms(2) unfolding indexed_def index_from_def by blast
  then have walk: "BlorgFindDirectoryEntry nls li name =
      Some (List.find (\<lambda>j. RtlEqualUnicodeString nls (HttpListingEntryName li j) name) ?js)"
    unfolding BlorgFindDirectoryEntry_def by (rule chain_walk_chained)
  have same: "(HttpListingChain nls li (HttpListingEntryName li j) = ?c \<and>
        RtlEqualUnicodeString nls (HttpListingEntryName li j) name) =
      RtlEqualUnicodeString nls (HttpListingEntryName li j) name" for j
    using HttpListingChain_equal [OF assms(1)] by blast
  show ?thesis unfolding walk find_filter same scan_listing_def by (rule refl)
qed

section \<open>Decoding\<close>

text \<open>
  What decoding relies on of the runtime's UTF-8 conversion: a successful call writes no more than
  the room it was given, and no more characters than there were bytes.
\<close>

definition utf8_ok :: "utf8_decoder \<Rightarrow> bool" where
  "utf8_ok utf8 \<longleftrightarrow>
     (\<forall>room bytes. NT_SUCCESS (fst (utf8 room bytes)) \<longrightarrow>
        byte_length (snd (utf8 room bytes)) \<le> room \<and>
        length (snd (utf8 room bytes)) \<le> length bytes)"

lemma HttpDecodeName_Inr:
  assumes "utf8_ok utf8" "HttpDecodeName utf8 bytes cursor = Inr (at, name, cursor')"
  shows "at = cursor" "cursor' = at + length name + 1" "length name \<le> length bytes"
    "length name < MAX_NAME_LEN"
proof -
  obtain status chars where u: "utf8 ((MAX_NAME_LEN - 1) * 2) bytes = (status, chars)" by fastforce
  with assms(2) have ok: "NT_SUCCESS status" "at = cursor" "name = chars" "cursor' = cursor + length chars + 1"
    by (auto simp: HttpDecodeName_def split: if_splits)
  have "byte_length chars \<le> (MAX_NAME_LEN - 1) * 2 \<and> length chars \<le> length bytes"
    using assms(1) u ok(1) unfolding utf8_ok_def by (metis fst_conv snd_conv)
  with ok show "at = cursor" "cursor' = at + length name + 1" "length name \<le> length bytes"
    "length name < MAX_NAME_LEN"
    by (auto simp: MAX_NAME_LEN_def)
qed

text \<open>The characters a list of names takes in the names area, terminators included.\<close>

definition name_room :: "UCHAR list option list \<Rightarrow> nat" where
  "name_room names = sum_list (map (\<lambda>n. length (the n) + 1) names)"

lemma name_room_simps [simp]:
  "name_room [] = 0" "name_room (n # ns) = length (the n) + 1 + name_room ns"
  "name_room (ms @ ns) = name_room ms + name_room ns"
  by (simp_all add: name_room_def)

lemma name_bytes_Some:
  assumes "name_bytes names n = Some m"
    and "\<And>name. Some name \<in> set names \<Longrightarrow> length name < 2 ^ 32"
  shows "unat m = unat n + 2 * name_room names \<and> (\<forall>x\<in>set names. x \<noteq> None \<and> x \<noteq> Some [])"
  using assms
proof (induction names n rule: name_bytes.induct)
  case (3 name names n)
  let ?b = "(of_nat (length name) + 1) * 2 :: SIZE_T"
  obtain n' where n': "HttpCheckedAddSizeT n ?b = Some n'" "name \<noteq> []" "name_bytes names n' = Some m"
    using "3.prems"(1) by (auto split: if_splits option.splits)
  have "length name < 2 ^ 32" using "3.prems"(2) by simp
  then have "unat ?b = 2 * (length name + 1)"
    by (simp add: unat_word_ariths unat_of_nat take_bit_nat_eq_self)
  then have "unat n' = unat n + 2 * (length name + 1)" using unat_checked_add [OF n'(1)] by simp
  with "3.IH" [OF n'(2,1,3)] "3.prems"(2) n'(2) show ?case by simp
qed auto

text \<open>A decoded name lies in the names area between \<open>lo\<close> and \<open>hi\<close>.\<close>

definition name_inside :: "nat \<Rightarrow> nat \<Rightarrow> nat \<Rightarrow> UNICODE_STRING \<Rightarrow> bool" where
  "name_inside lo hi at name \<longleftrightarrow>
     lo \<le> at \<and> at + length name + 1 \<le> hi \<and> length name < MAX_NAME_LEN"

lemma name_inside_mono: "name_inside lo hi at name \<Longrightarrow> lo' \<le> lo \<Longrightarrow> hi \<le> hi' \<Longrightarrow> name_inside lo' hi' at name"
  by (simp add: name_inside_def)

lemma decode_files_inside:
  assumes "utf8_ok utf8" "decode_files utf8 xs cursor = Inr (files, cursor')"
    and "\<forall>x\<in>set xs. Option.bind x ff_name \<noteq> None"
  shows "length files = length xs \<and> cursor \<le> cursor' \<and>
         cursor' \<le> cursor + name_room (map (\<lambda>x. Option.bind x ff_name) xs) \<and>
         (\<forall>f\<in>set files. name_inside cursor cursor' (F_NameAt f) (F_Name f))"
  using assms(2,3)
proof (induction xs arbitrary: files cursor)
  case (Cons x xs)
  obtain ff bytes where x: "x = Some ff" "ff_name ff = Some bytes"
    using Cons.prems(2) by (auto simp: bind_Some_conv)
  obtain at name c2 where n: "HttpDecodeName utf8 bytes cursor = Inr (at, name, c2)"
    using Cons.prems(1) x by (auto simp: Let_def split: sum.splits)
  obtain rest where r: "decode_files utf8 xs c2 = Inr (rest, cursor')"
    "\<exists>f. files = f # rest \<and> F_NameAt f = at \<and> F_Name f = name"
    using Cons.prems(1) n x by (auto simp: Let_def split: sum.splits)
  note d = HttpDecodeName_Inr [OF assms(1) n]
  have "length rest = length xs \<and> c2 \<le> cursor' \<and>
      cursor' \<le> c2 + name_room (map (\<lambda>x. Option.bind x ff_name) xs) \<and>
      (\<forall>f\<in>set rest. name_inside c2 cursor' (F_NameAt f) (F_Name f))"
    by (rule Cons.IH [OF r(1)]) (use Cons.prems(2) in simp)
  moreover from this have "\<forall>f\<in>set rest. name_inside cursor cursor' (F_NameAt f) (F_Name f)"
    using d by (auto elim!: name_inside_mono)
  moreover have "name_inside cursor cursor' at name"
    using calculation(1) d unfolding name_inside_def by simp
  ultimately show ?case using r(2) d x by auto
qed auto

lemma decode_subdirs_inside:
  assumes "utf8_ok utf8" "decode_subdirs utf8 xs cursor = Inr (subs, cursor')"
    and "\<forall>x\<in>set xs. Option.bind x fs_name \<noteq> None"
  shows "length subs = length xs \<and> cursor \<le> cursor' \<and>
         cursor' \<le> cursor + name_room (map (\<lambda>x. Option.bind x fs_name) xs) \<and>
         (\<forall>f\<in>set subs. name_inside cursor cursor' (S_NameAt f) (S_Name f))"
  using assms(2,3)
proof (induction xs arbitrary: subs cursor)
  case (Cons x xs)
  obtain fs bytes where x: "x = Some fs" "fs_name fs = Some bytes"
    using Cons.prems(2) by (auto simp: bind_Some_conv)
  obtain at name c2 where n: "HttpDecodeName utf8 bytes cursor = Inr (at, name, c2)"
    using Cons.prems(1) x by (auto simp: Let_def split: sum.splits)
  obtain rest where r: "decode_subdirs utf8 xs c2 = Inr (rest, cursor')"
    "\<exists>f. subs = f # rest \<and> S_NameAt f = at \<and> S_Name f = name"
    using Cons.prems(1) n x by (auto simp: Let_def split: sum.splits)
  note d = HttpDecodeName_Inr [OF assms(1) n]
  have "length rest = length xs \<and> c2 \<le> cursor' \<and>
      cursor' \<le> c2 + name_room (map (\<lambda>x. Option.bind x fs_name) xs) \<and>
      (\<forall>f\<in>set rest. name_inside c2 cursor' (S_NameAt f) (S_Name f))"
    by (rule Cons.IH [OF r(1)]) (use Cons.prems(2) in simp)
  moreover from this have "\<forall>f\<in>set rest. name_inside cursor cursor' (S_NameAt f) (S_Name f)"
    using d by (auto elim!: name_inside_mono)
  moreover have "name_inside cursor cursor' at name"
    using calculation(1) d unfolding name_inside_def by simp
  ultimately show ?case using r(2) d x by auto
qed auto

text \<open>
  The names of a decoded listing: as many as the answer listed, each inside the names area of the
  block and short enough for a component.
\<close>

definition names_inside :: "DIRECTORY_INFO \<Rightarrow> bool" where
  "names_inside li \<longleftrightarrow>
     (\<forall>f\<in>set (Files li). name_inside 0 ((unat (DI_Bytes li) - unat (NamesOffset li)) div 2) (F_NameAt f) (F_Name f)) \<and>
     (\<forall>d\<in>set (SubDirs li). name_inside 0 ((unat (DI_Bytes li) - unat (NamesOffset li)) div 2) (S_NameAt d) (S_Name d))"

lemma HttpDecodeListing_Inr:
  assumes ok: "utf8_ok utf8"
    and names: "\<And>name. Some name \<in> set (flat_names d) \<Longrightarrow> length name < 2 ^ 32"
    and count: "length (fd_files d) + length (fd_subdirectories d) < 2 ^ 64"
    and dec: "HttpDecodeListing nls utf8 pool d bodyLen noStore = Inr li"
  shows "indexed nls li \<and> names_inside li \<and> FileCount li = length (fd_files d) \<and>
         SubDirCount li = length (fd_subdirectories d) \<and> RefCount li = 1 \<and> Descendants li = [] \<and>
         DI_NoStore li = noStore \<and> entry_count li * 4 \<le> unat bodyLen"
proof -
  let ?fc = "of_nat (length (fd_files d)) :: SIZE_T"
  let ?sc = "of_nat (length (fd_subdirectories d)) :: SIZE_T"
  from dec obtain nameBytes li0 files cursor subs cursor2 where
      credible: "HttpListingCountsAreCredible ?sc ?fc bodyLen"
      and nb: "name_bytes (flat_names d) 0 = Some nameBytes"
      and alloc: "BlorgAllocateDirectoryInfo pool ?fc ?sc nameBytes = Some li0"
      and df: "decode_files utf8 (fd_files d) 0 = Inr (files, cursor)"
      and ds: "decode_subdirs utf8 (fd_subdirectories d) cursor = Inr (subs, cursor2)"
      and li: "li = (BlorgIndexDirectoryInfo nls (li0\<lparr>Files := files, SubDirs := subs\<rparr>))\<lparr>DI_NoStore := noStore\<rparr>"
    unfolding HttpDecodeListing_def Let_def by (auto split: if_splits option.splits sum.splits)
  have len: "unat ?fc = length (fd_files d)" "unat ?sc = length (fd_subdirectories d)"
    using count by (auto intro!: unat_of_nat_less)
  note nb' = name_bytes_Some [OF nb names]
  have present: "\<forall>x\<in>set (fd_files d). Option.bind x ff_name \<noteq> None"
    "\<forall>x\<in>set (fd_subdirectories d). Option.bind x fs_name \<noteq> None"
    using nb' unfolding flat_names_def by auto
  note f = decode_files_inside [OF ok df present(1)] and s = decode_subdirs_inside [OF ok ds present(2)]
  have room: "cursor2 \<le> name_room (flat_names d)" "cursor \<le> cursor2"
    using f s unfolding flat_names_def by auto
  note a = BlorgAllocateDirectoryInfo_Some [OF alloc]
  let ?li1 = "li0\<lparr>Files := files, SubDirs := subs\<rparr>"
  have blk: "listing_block ?li1 (unat nameBytes)"
    using a f s len unfolding listing_block_def by simp
  have idx: "indexed nls (BlorgIndexDirectoryInfo nls ?li1)"
    by (rule BlorgIndexDirectoryInfo_indexed [OF blk]) (use a in simp)
  have idx': "indexed nls li"
    using idx unfolding li by simp
  have area: "(unat (DI_Bytes li) - unat (NamesOffset li)) div 2 = name_room (flat_names d)"
    using a nb' by (simp add: li BlorgIndexDirectoryInfo_def listing_block_def)
  have inside: "names_inside li"
    unfolding names_inside_def area
    using f s room by (auto simp: li BlorgIndexDirectoryInfo_def elim!: name_inside_mono)
  have "unat (?sc + ?fc) = unat ?sc + unat ?fc \<and> unat (?sc + ?fc) \<le> unat (bodyLen div 4)"
    using credible unfolding HttpListingCountsAreCredible_def HTTP_MIN_LISTING_ENTRY_WIRE_BYTES_def
    by (auto simp: word_less_nat_alt not_less HttpCheckedAddSizeT_Some unat_add_small split: option.splits)
  then have "length (fd_subdirectories d) + length (fd_files d) \<le> unat bodyLen div 4"
    by (auto simp: len unat_div)
  then have "(length (fd_files d) + length (fd_subdirectories d)) * 4 \<le> unat bodyLen"
    by (metis add.commute div_times_less_eq_dividend le_trans mult_le_mono1)
  with idx' inside a f s show ?thesis by (simp add: li BlorgIndexDirectoryInfo_def)
qed


section \<open>Descendants\<close>

text \<open>
  What decoding attaches beneath a root: every descendant names a listing before it, and a
  subdirectory that listing has; together they hold no more entries than the cap.
\<close>

definition descendants_ok :: "DIRECTORY_INFO \<Rightarrow> decoded_descendant list \<Rightarrow> bool" where
  "descendants_ok root xs \<longleftrightarrow>
     (\<forall>i < length xs. \<exists>p. parent_listing root (take i xs) (X_Parent (xs ! i)) = Some p \<and>
        unat (X_SubDir (xs ! i)) < SubDirCount p)"

lemma descendants_ok_append:
  assumes "descendants_ok root xs" "parent_listing root xs (X_Parent x) = Some p"
    and "unat (X_SubDir x) < SubDirCount p"
  shows "descendants_ok root (xs @ [x])"
  unfolding descendants_ok_def
proof (intro allI impI)
  fix i assume "i < length (xs @ [x])"
  then consider "i < length xs" | "i = length xs" by fastforce
  then show "\<exists>p. parent_listing root (take i (xs @ [x])) (X_Parent ((xs @ [x]) ! i)) = Some p \<and>
      unat (X_SubDir ((xs @ [x]) ! i)) < SubDirCount p"
  proof cases
    case 1
    with assms(1) show ?thesis by (simp add: descendants_ok_def nth_append)
  next
    case 2
    with assms(2,3) show ?thesis by simp
  qed
qed

lemma descend_loop_ok:
  assumes "descendants_ok root decoded" "entries \<le> cap"
    and "sum_list (map (\<lambda>x. entry_count (X_Listing x)) decoded) = entries"
  shows "descendants_ok root (descend_loop nls utf8 pool bodyLen cap root xs decoded entries) \<and>
         sum_list (map (\<lambda>x. entry_count (X_Listing x))
           (descend_loop nls utf8 pool bodyLen cap root xs decoded entries)) \<le> cap"
  using assms
proof (induction xs arbitrary: decoded entries)
  case (Cons x xs)
  show ?case
  proof (cases "descend_loop nls utf8 pool bodyLen cap root (x # xs) decoded entries = decoded")
    case True
    with Cons.prems show ?thesis by simp
  next
    case False
    then obtain fx fl p li where
      fx: "x = Some fx" "fx_listing fx = Some fl"
      "parent_listing root decoded (fx_parent fx) = Some p" "unat (fx_subdirectory fx) < SubDirCount p"
      "HttpDecodeListing nls utf8 (pool (length decoded)) fl bodyLen (DI_NoStore root) = Inr li"
      "entries + entry_count li \<le> cap"
      by (auto simp: Let_def split: option.splits sum.splits if_splits)
    let ?x = "\<lparr>X_Listing = li, X_Parent = fx_parent fx, X_SubDir = fx_subdirectory fx\<rparr>"
    have "descendants_ok root (decoded @ [?x])"
      by (rule descendants_ok_append [OF Cons.prems(1)]) (use fx in simp_all)
    from Cons.IH [OF this fx(6)] Cons.prems(3) fx show ?thesis by (simp add: Let_def)
  qed
qed simp

lemma HttpDecodeDescendants_ok:
  "descendants_ok root (HttpDecodeDescendants nls utf8 arrayPool pool flat bodyLen maxEntries root) \<and>
   sum_list (map (\<lambda>x. entry_count (X_Listing x))
     (HttpDecodeDescendants nls utf8 arrayPool pool flat bodyLen maxEntries root)) \<le>
   min (unat maxEntries) HTTP_SUBTREE_MAX_ENTRIES"
proof -
  let ?cap = "min (unat maxEntries) HTTP_SUBTREE_MAX_ENTRIES"
  let ?xs = "take (min (length flat) ?cap) flat"
  have none: "descendants_ok root []" by (simp add: descendants_ok_def)
  then have "descendants_ok root (descend_loop nls utf8 pool bodyLen ?cap root ?xs [] 0) \<and>
      sum_list (map (\<lambda>x. entry_count (X_Listing x)) (descend_loop nls utf8 pool bodyLen ?cap root ?xs [] 0)) \<le> ?cap"
    by (rule descend_loop_ok) simp_all
  with none show ?thesis unfolding HttpDecodeDescendants_def Let_def by simp
qed

section \<open>References\<close>

text \<open>Two calls reach every listing an address's release can free.\<close>

lemma release_depth:
  assumes "\<And>li d li'. h a = Some li \<Longrightarrow> d \<in> set (Descendants li) \<Longrightarrow> h (D_Listing d) = Some li' \<Longrightarrow>
             Descendants li' = []"
  shows "release (Suc (Suc (Suc n))) a h = BlorgReleaseDirectoryInfo a h"
proof -
  have leaf: "release (Suc m) b g = release (Suc 0) b g"
    if "\<And>li. g b = Some li \<Longrightarrow> Descendants li = []" for m b g
    using that by (auto split: option.split)
  have two: "fold (\<lambda>d. release (Suc (Suc n)) (D_Listing d)) ds g = fold (\<lambda>d. release (Suc 0) (D_Listing d)) ds g"
    if "\<And>d li. d \<in> set ds \<Longrightarrow> g (D_Listing d) = Some li \<Longrightarrow> Descendants li = []" for ds g
    using that
  proof (induction ds arbitrary: g)
    case (Cons d ds)
    have first: "release (Suc (Suc n)) (D_Listing d) g = release (Suc 0) (D_Listing d) g"
      by (rule leaf) (use Cons.prems in auto)
    have "fold (\<lambda>d. release (Suc (Suc n)) (D_Listing d)) ds (release (Suc 0) (D_Listing d) g) =
        fold (\<lambda>d. release (Suc 0) (D_Listing d)) ds (release (Suc 0) (D_Listing d) g)"
    proof (rule Cons.IH)
      fix d' li
      have no: "\<And>li. g (D_Listing d) = Some li \<Longrightarrow> Descendants li = []" using Cons.prems [of d] by simp
      assume "d' \<in> set ds" "release (Suc 0) (D_Listing d) g (D_Listing d') = Some li"
      then show "Descendants li = []"
        using Cons.prems no by (auto split: option.splits if_splits)
    qed
    then show ?case by (simp only: fold_Cons o_apply first)
  qed simp
  show ?thesis
  proof (cases "h a")
    case (Some li)
    have "fold (\<lambda>d. release (Suc (Suc n)) (D_Listing d)) (Descendants li) (h(a := None)) =
        fold (\<lambda>d. release (Suc 0) (D_Listing d)) (Descendants li) (h(a := None))"
      by (rule two) (use assms [OF Some] in \<open>auto split: if_splits\<close>)
    then show ?thesis
      by (simp only: BlorgReleaseDirectoryInfo_def numeral_2_eq_2 release.simps(2) [of "Suc (Suc n)"]
          release.simps(2) [of "Suc 0"] Some option.case)
  qed (simp add: BlorgReleaseDirectoryInfo_def numeral_2_eq_2)
qed

lemma release_no_descendants:
  assumes "h a = Some li" "Descendants li = []"
  shows "BlorgReleaseDirectoryInfo a h =
         (if RefCount li = 1 then h(a := None) else h(a \<mapsto> li\<lparr>RefCount := RefCount li - 1\<rparr>))"
  using assms by (simp add: BlorgReleaseDirectoryInfo_def numeral_2_eq_2)

end
