(* ===== verification/Path_Cache_Inv.thy ===== *)
theory Path_Cache_Inv
  imports Path_Cache Listing_Correct
begin

text \<open>
  The invariant of the two caches and its preservation by every critical section: buckets that
  count their entries, hold each entry where its path hashes to and no path twice, a byte count
  that is the sum of what is held and within the budget, and references that account for every
  listing on the heap.
\<close>

section \<open>Buckets\<close>

definition bucket_index :: "NLS \<Rightarrow> UNICODE_STRING \<Rightarrow> nat" where
  "bucket_index nls path = unat (drop_bit 24 (BlorgHashPath nls path))"

lemma bucket_index_folds [simp]:
  "PathCacheBucket nls path = bucket_index nls path" "ListingCacheBucket nls path = bucket_index nls path"
  by (simp_all add: PathCacheBucket_def ListingCacheBucket_def bucket_index_def)

lemma bucket_index_less [simp]: "bucket_index nls path < 256"
proof -
  have "unat (BlorgHashPath nls path) < 2 ^ LENGTH(32)" by (rule unsigned_less)
  then show ?thesis by (simp add: bucket_index_def drop_bit_eq_div unat_div less_mult_imp_div_less)
qed

lemma bucket_index_equal:
  "nls_ok nls \<Longrightarrow> RtlEqualUnicodeString nls a b \<Longrightarrow> bucket_index nls a = bucket_index nls b"
  by (simp add: bucket_index_def BlorgHashPath_equal)

abbreviation fold_case :: "NLS \<Rightarrow> UNICODE_STRING \<Rightarrow> UNICODE_STRING" where
  "fold_case nls path \<equiv> map (RtlUpcaseUnicodeChar nls) path"

definition bucket_ok :: "('e \<Rightarrow> UNICODE_STRING) \<Rightarrow> NLS \<Rightarrow> nat \<Rightarrow> 'e PATH_CACHE_BUCKET \<Rightarrow> bool" where
  "bucket_ok path nls i b \<longleftrightarrow>
     B_Count b = length (B_List b) \<and> distinct (map (\<lambda>e. fold_case nls (path e)) (B_List b)) \<and>
     (\<forall>e\<in>set (B_List b). bucket_index nls (path e) = i \<and> path e \<noteq> [])"

lemma bucket_ok_distinct: "bucket_ok path nls i b \<Longrightarrow> distinct (B_List b)"
  by (simp add: bucket_ok_def distinct_map)

lemma bucket_ok_unique:
  assumes "bucket_ok path nls i b" "e \<in> set (B_List b)" "e' \<in> set (B_List b)"
    and "RtlEqualUnicodeString nls (path e) (path e')"
  shows "e = e'"
  using assms unfolding bucket_ok_def RtlEqualUnicodeString_def by (auto simp: distinct_map inj_on_def)

lemma bucket_ok_empty [simp]: "bucket_ok path nls i empty_bucket"
  by (simp add: bucket_ok_def empty_bucket_def)

lemma remove1_filter: "distinct xs \<Longrightarrow> remove1 e xs = filter (\<lambda>x. x \<noteq> e) xs"
  by (simp add: distinct_remove1_removeAll removeAll_filter_not_eq eq_commute)

lemma bucket_ok_unlink:
  assumes "bucket_ok path nls i b" "e \<in> set (B_List b)"
  shows "bucket_ok path nls i (unlink e b)"
proof -
  have d: "distinct (B_List b)" using assms(1) by (rule bucket_ok_distinct)
  have n: "length (remove1 e (B_List b)) = B_Count b - 1"
    using assms by (simp add: bucket_ok_def length_remove1)
  have "distinct (map (\<lambda>e. fold_case nls (path e)) (remove1 e (B_List b)))"
    using assms(1) d unfolding remove1_filter [OF d] bucket_ok_def
    by (auto simp: distinct_map intro: inj_on_subset)
  with n assms(1) show ?thesis
    using set_remove1_subset [of e "B_List b"] unfolding bucket_ok_def unlink_def by auto
qed

lemma bucket_ok_append:
  assumes "bucket_ok path nls i b" "bucket_index nls (path new) = i" "path new \<noteq> []"
    and "\<And>e. e \<in> set (B_List b) \<Longrightarrow> \<not> RtlEqualUnicodeString nls (path e) (path new)"
  shows "bucket_ok path nls i (b\<lparr>B_List := B_List b @ [new], B_Count := B_Count b + 1\<rparr>)"
  using assms unfolding bucket_ok_def RtlEqualUnicodeString_def by auto metis

lemma bucket_ok_map:
  assumes "bucket_ok path nls i b" "\<And>e. path (f e) = path e"
  shows "bucket_ok path nls i (b\<lparr>B_List := map f (B_List b)\<rparr>)"
  using assms unfolding bucket_ok_def by (simp add: o_def)

section \<open>Removal loops\<close>

text \<open>
  What the bucket loops do depends only on what removing one entry does to the bucket array. The
  interface is the removal of an entry from one array; both caches provide it.
\<close>

definition filtered :: "('e \<Rightarrow> bool) \<Rightarrow> 'e PATH_CACHE_BUCKET \<Rightarrow> 'e PATH_CACHE_BUCKET" where
  "filtered P b = b\<lparr>B_List := filter (\<lambda>e. \<not> P e) (B_List b),
                    B_Count := B_Count b - length (filter P (B_List b))\<rparr>"

locale bucket_store =
  fixes buckets :: "'s \<Rightarrow> 'e PATH_CACHE_BUCKET list"
    and remove :: "nat \<Rightarrow> 'e \<Rightarrow> 's \<Rightarrow> 's"
    and path_of :: "'e \<Rightarrow> UNICODE_STRING"
  assumes buckets_remove: "buckets (remove i e s) = (buckets s)[i := unlink e (buckets s ! i)]"
begin

lemma remove_where_buckets:
  assumes "i < length (buckets s)" "B_List (buckets s ! i) = kept @ es" "distinct (kept @ es)"
  shows "buckets (remove_where remove P i es s) =
         (buckets s)[i := (buckets s ! i)\<lparr>B_List := kept @ filter (\<lambda>e. \<not> P e) es,
                                         B_Count := B_Count (buckets s ! i) - length (filter P es)\<rparr>]"
  using assms
proof (induction es arbitrary: s kept)
  case Nil
  then have k: "kept = B_List (buckets s ! i)" by simp
  show ?case unfolding k using Nil.prems(1) by simp
next
  case (Cons e es)
  show ?case
  proof (cases "P e")
    case True
    let ?s = "remove i e s"
    have b: "buckets ?s ! i = unlink e (buckets s ! i)" using Cons.prems(1) by (simp add: buckets_remove)
    have "B_List (buckets ?s ! i) = kept @ es"
      using Cons.prems(2,3) by (simp add: b unlink_def remove1_append)
    moreover have "i < length (buckets ?s)" using Cons.prems(1) by (simp add: buckets_remove)
    ultimately show ?thesis
      using Cons.IH [of ?s kept] Cons.prems True by (simp add: b) (simp add: buckets_remove unlink_def)
  next
    case False
    with Cons.IH [of s "kept @ [e]"] Cons.prems show ?thesis by simp
  qed
qed

lemma sweep_buckets:
  assumes "i < length (buckets s)" "distinct (B_List (buckets s ! i))"
  shows "buckets (remove_where remove P i (B_List (buckets s ! i)) s) =
         (buckets s)[i := filtered P (buckets s ! i)]"
  using remove_where_buckets [of i s "[]"] assms by (simp add: filtered_def)

lemma fold_sweep_buckets:
  fixes P :: "'e \<Rightarrow> bool"
  assumes "n \<le> length (buckets s)" "\<And>i. i < length (buckets s) \<Longrightarrow> distinct (B_List (buckets s ! i))"
  defines "sweep \<equiv> (\<lambda>i s. remove_where remove P i (B_List (buckets s ! i)) s)"
  shows "length (buckets (fold sweep [0..<n] s)) = length (buckets s) \<and>
         (\<forall>j < length (buckets s).
            buckets (fold sweep [0..<n] s) ! j = (if j < n then filtered P (buckets s ! j) else buckets s ! j))"
  using assms(1)
proof (induction n)
  case (Suc n)
  let ?s = "fold sweep [0..<n] s"
  have IH: "length (buckets ?s) = length (buckets s)"
    "\<And>j. j < length (buckets s) \<Longrightarrow> buckets ?s ! j = (if j < n then filtered P (buckets s ! j) else buckets s ! j)"
    using Suc by auto
  have "buckets (sweep n ?s) = (buckets ?s)[n := filtered P (buckets ?s ! n)]"
    using sweep_buckets [of n ?s P] IH Suc.prems assms(2) [of n] by (simp add: sweep_def)
  with IH Suc.prems show ?case by (auto simp: nth_list_update less_Suc_eq)
qed simp

lemma remove_one_buckets:
  assumes "i < length (buckets s)" "bucket_ok path_of nls i (buckets s ! i)"
  shows "buckets (remove_one remove (\<lambda>e. RtlEqualUnicodeString nls (path_of e) p) i (B_List (buckets s ! i)) s) =
         (buckets s)[i := filtered (\<lambda>e. RtlEqualUnicodeString nls (path_of e) p) (buckets s ! i)]"
proof -
  let ?P = "\<lambda>e. RtlEqualUnicodeString nls (path_of e) p"
  have one: "remove_one remove ?P i es s = (case List.find ?P es of None \<Rightarrow> s | Some e \<Rightarrow> remove i e s)" for es
    by (induction es) auto
  show ?thesis
  proof (cases "List.find ?P (B_List (buckets s ! i))")
    case None
    then have "\<forall>e\<in>set (B_List (buckets s ! i)). \<not> ?P e" by (auto simp: find_None_iff)
    then have "filtered ?P (buckets s ! i) = buckets s ! i"
      by (simp add: filtered_def filter_True filter_False)
    with None assms(1) show ?thesis by (simp add: one)
  next
    case (Some e)
    then have e: "e \<in> set (B_List (buckets s ! i))" "?P e" by (auto dest: find_SomeD)
    have "?P x \<longleftrightarrow> x = e" if "x \<in> set (B_List (buckets s ! i))" for x
      using bucket_ok_unique [OF assms(2) that e(1)] e(2) equal_sym equal_trans by metis
    then have f: "filter (\<lambda>x. \<not> ?P x) (B_List (buckets s ! i)) = filter (\<lambda>x. x \<noteq> e) (B_List (buckets s ! i))"
      "filter ?P (B_List (buckets s ! i)) = filter (\<lambda>x. x = e) (B_List (buckets s ! i))"
      by (auto intro: filter_cong)
    have d: "distinct (B_List (buckets s ! i))" using assms(2) by (rule bucket_ok_distinct)
    then have "length (filter (\<lambda>x. x = e) (B_List (buckets s ! i))) = 1"
      using e(1) by (simp add: distinct_length_filter) 
    moreover have "remove1 e (B_List (buckets s ! i)) = filter (\<lambda>x. x \<noteq> e) (B_List (buckets s ! i))"
      using d by (rule remove1_filter)
    ultimately have "filtered ?P (buckets s ! i) = unlink e (buckets s ! i)"
      by (simp add: filtered_def unlink_def f)
    then show ?thesis by (simp add: one Some buckets_remove)
  qed
qed

text \<open>A property of the state that single removals keep is kept by every loop.\<close>

lemma remove_where_keeps:
  assumes "\<And>e s. Q s \<Longrightarrow> e \<in> set (B_List (buckets s ! i)) \<Longrightarrow> Q (remove i e s)"
    and "Q s" "i < length (buckets s)" "set es \<subseteq> set (B_List (buckets s ! i))" "distinct es"
  shows "Q (remove_where remove P i es s)"
  using assms(2-)
proof (induction es arbitrary: s)
  case (Cons e es)
  show ?case
  proof (cases "P e")
    case True
    have "x \<in> set (remove1 e (B_List (buckets s ! i)))" if "x \<in> set es" for x
    proof -
      have "x \<noteq> e" using Cons.prems that by auto
      then show ?thesis using Cons.prems that by auto
    qed
    then have "set es \<subseteq> set (B_List (buckets (remove i e s) ! i))"
      using Cons.prems by (auto simp: buckets_remove unlink_def)
    with Cons.IH [of "remove i e s"] Cons.prems assms(1) True show ?thesis by (simp add: buckets_remove)
  next
    case False
    with Cons show ?thesis by simp
  qed
qed simp

end

interpretation path_store: bucket_store Buckets PathCacheRemoveEntry E_Path
  by unfold_locales (simp add: PathCacheRemoveEntry_def)

interpretation listing_store: bucket_store ListingBuckets ListingCacheRemoveEntry L_Path
  by unfold_locales (simp add: ListingCacheRemoveEntry_def)

lemma filtered_list [simp]: "B_List (filtered P b) = filter (\<lambda>e. \<not> P e) (B_List b)"
  by (simp add: filtered_def)

lemma bucket_ok_filtered:
  assumes "bucket_ok path nls i b"
  shows "bucket_ok path nls i (filtered P b)"
proof -
  have "length (B_List b) = length (filter P (B_List b)) + length (filter (\<lambda>e. \<not> P e) (B_List b))"
    by (simp add: sum_length_filter_compl)
  then show ?thesis
    using assms unfolding bucket_ok_def filtered_def by (auto simp: distinct_map intro: inj_on_subset)
qed

section \<open>The invariants\<close>

definition path_inv :: "NLS \<Rightarrow> PATH_CACHE_STATE \<Rightarrow> bool" where
  "path_inv nls s \<longleftrightarrow>
     length (Buckets s) = 256 \<and>
     (\<forall>i < 256. bucket_ok E_Path nls i (Buckets s ! i) \<and> length (path_list s i) \<le> 16) \<and>
     Count s = (\<Sum>b\<leftarrow>Buckets s. int (B_Count b))"

text \<open>The references the listing cache holds to the listing at an address.\<close>

definition cache_refs :: "PATH_CACHE_STATE \<Rightarrow> nat \<Rightarrow> int" where
  "cache_refs s a = (\<Sum>b\<leftarrow>ListingBuckets s. int (count_list (map L_Listing (B_List b)) a))"

definition held_bytes :: "PATH_CACHE_STATE \<Rightarrow> int" where
  "held_bytes s = (\<Sum>b\<leftarrow>ListingBuckets s. sum_list (map L_Bytes (B_List b)))"

text \<open>
  \<open>ext a\<close> is the number of references to the listing at \<open>a\<close> held outside the cache, by handles
  and by fetches in flight: a listing is on the heap exactly while somebody holds it.
\<close>

definition refs_ok :: "(nat \<Rightarrow> int) \<Rightarrow> PATH_CACHE_STATE \<Rightarrow> bool" where
  "refs_ok ext s \<longleftrightarrow>
     (\<forall>a. 0 \<le> ext a \<and>
        (case Infos s a of
           None \<Rightarrow> ext a + cache_refs s a = 0
         | Some li \<Rightarrow> RefCount li = ext a + cache_refs s a \<and> 0 < RefCount li))"

definition cached_ok :: "info_heap \<Rightarrow> LISTING_CACHE_ENTRY \<Rightarrow> bool" where
  "cached_ok h e \<longleftrightarrow>
     0 \<le> L_Bytes e \<and>
     (\<forall>li. h (L_Listing e) = Some li \<longrightarrow>
        L_Bytes e = ListingCacheSizeOf li \<and> \<not> DI_NoStore li \<and> Descendants li = [])"

definition listing_inv :: "NLS \<Rightarrow> (nat \<Rightarrow> int) \<Rightarrow> PATH_CACHE_STATE \<Rightarrow> bool" where
  "listing_inv nls ext s \<longleftrightarrow>
     length (ListingBuckets s) = 256 \<and>
     (\<forall>i < 256. bucket_ok L_Path nls i (ListingBuckets s ! i) \<and>
                (\<forall>e\<in>set (listing_list s i). cached_ok (Infos s) e)) \<and>
     ListingBytes s = held_bytes s \<and> ListingBytes s \<le> LISTING_CACHE_MAX_BYTES \<and> refs_ok ext s"

section \<open>Sums over the buckets\<close>

lemma sum_list_map_update:
  fixes f :: "'b \<Rightarrow> int"
  shows "i < length xs \<Longrightarrow> sum_list (map f (xs[i := v])) = sum_list (map f xs) - f (xs ! i) + f v"
  by (induction xs arbitrary: i) (auto split: nat.split)

lemma count_list_nonneg_refs: "0 \<le> cache_refs s a"
  unfolding cache_refs_def by (intro sum_list_nonneg) auto

lemma sum_list_member_le:
  fixes f :: "'b \<Rightarrow> int"
  assumes "x \<in> set xs" "\<And>y. y \<in> set xs \<Longrightarrow> 0 \<le> f y"
  shows "f x \<le> sum_list (map f xs)"
  using assms by (intro member_le_sum_list) auto

lemma cache_refs_pos:
  assumes "i < length (ListingBuckets s)" "e \<in> set (listing_list s i)"
  shows "0 < cache_refs s (L_Listing e)"
proof -
  let ?f = "\<lambda>b. int (count_list (map L_Listing (B_List b)) (L_Listing e))"
  have "L_Listing e \<in> set (map L_Listing (listing_list s i))" using assms(2) by simp
  then have "count_list (map L_Listing (listing_list s i)) (L_Listing e) \<noteq> 0"
    by (simp add: count_list_0_iff)
  then have "0 < ?f (ListingBuckets s ! i)" by simp
  also have "\<dots> \<le> cache_refs s (L_Listing e)"
    unfolding cache_refs_def using assms(1) by (intro sum_list_member_le) auto
  finally show ?thesis .
qed

lemma cache_refs_update:
  assumes "i < length (ListingBuckets s)"
  shows "cache_refs (s\<lparr>ListingBuckets := (ListingBuckets s)[i := b]\<rparr>) a =
         cache_refs s a - int (count_list (map L_Listing (listing_list s i)) a)
           + int (count_list (map L_Listing (B_List b)) a)"
  using assms by (simp add: cache_refs_def sum_list_map_update)

lemma held_bytes_update:
  assumes "i < length (ListingBuckets s)"
  shows "held_bytes (s\<lparr>ListingBuckets := (ListingBuckets s)[i := b]\<rparr>) =
         held_bytes s - sum_list (map L_Bytes (listing_list s i)) + sum_list (map L_Bytes (B_List b))"
  using assms by (simp add: held_bytes_def sum_list_map_update)

lemma refs_other_fields [simp]:
  "cache_refs (s\<lparr>ListingBytes := n\<rparr>) = cache_refs s" "cache_refs (s\<lparr>Infos := h\<rparr>) = cache_refs s"
  "held_bytes (s\<lparr>ListingBytes := n\<rparr>) = held_bytes s" "held_bytes (s\<lparr>Infos := h\<rparr>) = held_bytes s"
  by (auto simp: cache_refs_def held_bytes_def)

lemma count_list_remove1:
  "x \<in> set xs \<Longrightarrow> int (count_list (map f (remove1 x xs)) a) = int (count_list (map f xs) a) - (if f x = a then 1 else 0)"
  by (induction xs) auto

lemma sum_list_remove1:
  fixes f :: "'b \<Rightarrow> int"
  shows "x \<in> set xs \<Longrightarrow> sum_list (map f (remove1 x xs)) = sum_list (map f xs) - f x"
  by (induction xs) auto

section \<open>Removing one entry\<close>

lemma listing_removed_refs:
  assumes "i < length (ListingBuckets s)" "e \<in> set (listing_list s i)"
  shows "cache_refs (ListingCacheRemoveEntry i e s) a = cache_refs s a - (if L_Listing e = a then 1 else 0)"
    and "held_bytes (ListingCacheRemoveEntry i e s) = held_bytes s - L_Bytes e"
proof -
  let ?s = "s\<lparr>ListingBuckets := (ListingBuckets s)[i := unlink e (ListingBuckets s ! i)]\<rparr>"
  have "cache_refs (ListingCacheRemoveEntry i e s) a = cache_refs ?s a"
    "held_bytes (ListingCacheRemoveEntry i e s) = held_bytes ?s"
    by (simp_all add: ListingCacheRemoveEntry_def cache_refs_def held_bytes_def)
  then show "cache_refs (ListingCacheRemoveEntry i e s) a = cache_refs s a - (if L_Listing e = a then 1 else 0)"
    "held_bytes (ListingCacheRemoveEntry i e s) = held_bytes s - L_Bytes e"
    using assms by (simp_all add: cache_refs_update held_bytes_update unlink_def count_list_remove1 sum_list_remove1)
qed

lemma listing_inv_entry:
  assumes "listing_inv nls ext s" "i < 256" "e \<in> set (listing_list s i)"
  obtains li where "Infos s (L_Listing e) = Some li" "L_Bytes e = ListingCacheSizeOf li" "0 \<le> L_Bytes e"
    "\<not> DI_NoStore li" "Descendants li = []" "RefCount li = ext (L_Listing e) + cache_refs s (L_Listing e)"
proof -
  have inv: "refs_ok ext s" "cached_ok (Infos s) e" "length (ListingBuckets s) = 256"
    using assms unfolding listing_inv_def by auto
  have pos: "0 < cache_refs s (L_Listing e)" using cache_refs_pos assms(2,3) inv(3) by simp
  have "0 \<le> ext (L_Listing e)" using inv(1) unfolding refs_ok_def by blast
  with pos inv(1) obtain li where li: "Infos s (L_Listing e) = Some li"
      "RefCount li = ext (L_Listing e) + cache_refs s (L_Listing e)"
    unfolding refs_ok_def by (cases "Infos s (L_Listing e)") (fastforce dest: spec [of _ "L_Listing e"])+
  with inv(2) show thesis unfolding cached_ok_def by (intro that) auto
qed

lemma release_refs:
  assumes "h a = Some li" "Descendants li = []" "0 < RefCount li"
  shows "BlorgReleaseDirectoryInfo a h b =
         (if b = a then if RefCount li = 1 then None else Some (li\<lparr>RefCount := RefCount li - 1\<rparr>) else h b)"
  using release_no_descendants [of h a li] assms by simp

lemma listing_inv_remove:
  assumes inv: "listing_inv nls ext s" and i: "i < 256" and e: "e \<in> set (listing_list s i)"
  shows "listing_inv nls ext (ListingCacheRemoveEntry i e s)"
proof -
  let ?a = "L_Listing e" and ?s = "ListingCacheRemoveEntry i e s"
  obtain li where li: "Infos s ?a = Some li" "L_Bytes e = ListingCacheSizeOf li" "0 \<le> L_Bytes e"
    "Descendants li = []" "RefCount li = ext ?a + cache_refs s ?a"
    using listing_inv_entry [OF inv i e] by metis
  have len: "length (ListingBuckets s) = 256" and refs: "refs_ok ext s"
    and ok: "\<And>j. j < 256 \<Longrightarrow> bucket_ok L_Path nls j (ListingBuckets s ! j)"
    and cached: "\<And>j x. j < 256 \<Longrightarrow> x \<in> set (listing_list s j) \<Longrightarrow> cached_ok (Infos s) x"
    and bytes: "ListingBytes s = held_bytes s" "ListingBytes s \<le> LISTING_CACHE_MAX_BYTES"
    using inv unfolding listing_inv_def by auto
  have pos: "0 < RefCount li"
    using refs li(1) unfolding refs_ok_def by (auto dest: spec [of _ ?a])
  have heap: "Infos ?s b = (if b = ?a then if RefCount li = 1 then None else Some (li\<lparr>RefCount := RefCount li - 1\<rparr>)
      else Infos s b)" for b
    using release_refs [of "Infos s" ?a li b] li(1,4) pos by (simp add: ListingCacheRemoveEntry_def)
  note removed = listing_removed_refs [of i s e, unfolded len, OF i e]
  have "refs_ok ext ?s"
    unfolding refs_ok_def
  proof (intro allI)
    fix b
    have rb: "0 \<le> ext b \<and> (case Infos s b of None \<Rightarrow> ext b + cache_refs s b = 0
        | Some li \<Rightarrow> RefCount li = ext b + cache_refs s b \<and> 0 < RefCount li)"
      using refs unfolding refs_ok_def by blast
    then show "0 \<le> ext b \<and> (case Infos ?s b of None \<Rightarrow> ext b + cache_refs ?s b = 0
        | Some li \<Rightarrow> RefCount li = ext b + cache_refs ?s b \<and> 0 < RefCount li)"
      using li pos by (cases "b = ?a") (auto simp: heap removed(1) split: option.splits)
  qed
  moreover have "bucket_ok L_Path nls j (ListingBuckets ?s ! j) \<and> (\<forall>x\<in>set (listing_list ?s j). cached_ok (Infos ?s) x)"
    if j: "j < 256" for j
  proof -
    have sub: "set (listing_list ?s j) \<subseteq> set (listing_list s j)"
      using j len set_remove1_subset [of e "listing_list s j"]
      by (cases "j = i") (simp_all add: listing_store.buckets_remove unlink_def)
    have "cached_ok (Infos ?s) x" if "cached_ok (Infos s) x" for x
      using that li unfolding cached_ok_def by (auto simp: heap ListingCacheSizeOf_def split: if_splits)
    with sub cached [OF j] have "\<forall>x\<in>set (listing_list ?s j). cached_ok (Infos ?s) x" by blast
    moreover have "bucket_ok L_Path nls j (ListingBuckets ?s ! j)"
      using ok [OF j] e len j bucket_ok_unlink [OF ok [OF i] e]
      by (cases "j = i") (simp_all add: listing_store.buckets_remove)
    ultimately show ?thesis by blast
  qed
  moreover have "ListingBytes ?s = held_bytes ?s"
    using bytes removed(2) by (simp add: ListingCacheRemoveEntry_def)
  moreover have "ListingBytes ?s \<le> LISTING_CACHE_MAX_BYTES"
    using bytes li(3) by (simp add: ListingCacheRemoveEntry_def)
  ultimately show ?thesis
    using len unfolding listing_inv_def by (simp add: listing_store.buckets_remove)
qed

lemma path_inv_remove:
  assumes inv: "path_inv nls s" and i: "i < 256" and e: "e \<in> set (path_list s i)"
  shows "path_inv nls (PathCacheRemoveEntry i e s)"
proof -
  let ?s = "PathCacheRemoveEntry i e s"
  have len: "length (Buckets s) = 256"
    and ok: "\<And>j. j < 256 \<Longrightarrow> bucket_ok E_Path nls j (Buckets s ! j) \<and> length (path_list s j) \<le> 16"
    and count: "Count s = (\<Sum>b\<leftarrow>Buckets s. int (B_Count b))"
    using inv unfolding path_inv_def by auto
  have pos: "0 < B_Count (Buckets s ! i)"
    using ok [OF i] e unfolding bucket_ok_def by (auto intro: length_pos_if_in_set)
  have "Count ?s = (\<Sum>b\<leftarrow>Buckets ?s. int (B_Count b))"
    using i len count pos by (simp add: PathCacheRemoveEntry_def sum_list_map_update unlink_def)
  moreover have "bucket_ok E_Path nls j (Buckets ?s ! j) \<and> length (path_list ?s j) \<le> 16" if j: "j < 256" for j
  proof (cases "j = i")
    case True
    then show ?thesis
      using ok [OF i] i len bucket_ok_unlink [of E_Path nls i, OF _ e] length_remove1 [of e "path_list s i"]
      by (auto simp: path_store.buckets_remove unlink_def)
  next
    case False
    then show ?thesis using ok [OF j] by (simp add: path_store.buckets_remove)
  qed
  ultimately show ?thesis using len unfolding path_inv_def by (simp add: path_store.buckets_remove)
qed

section \<open>Frames\<close>

text \<open>What the operations on one cache leave alone of the other and of the shared fields.\<close>

definition path_frame :: "PATH_CACHE_STATE \<Rightarrow> PATH_CACHE_STATE \<Rightarrow> bool" where
  "path_frame s s' \<longleftrightarrow> (\<exists>bs n. s' = s\<lparr>Buckets := bs, Count := n\<rparr>)"

definition listing_frame :: "PATH_CACHE_STATE \<Rightarrow> PATH_CACHE_STATE \<Rightarrow> bool" where
  "listing_frame s s' \<longleftrightarrow> (\<exists>bs n h. s' = s\<lparr>ListingBuckets := bs, ListingBytes := n, Infos := h\<rparr>)"

lemma path_frame_refl [simp]: "path_frame s s"
proof -
  have "s = s\<lparr>Buckets := Buckets s, Count := Count s\<rparr>" by simp
  then show ?thesis unfolding path_frame_def by metis
qed

lemma listing_frame_refl [simp]: "listing_frame s s"
proof -
  have "s = s\<lparr>ListingBuckets := ListingBuckets s, ListingBytes := ListingBytes s, Infos := Infos s\<rparr>" by simp
  then show ?thesis unfolding listing_frame_def by metis
qed

lemma path_frame_trans: "path_frame s t \<Longrightarrow> path_frame t u \<Longrightarrow> path_frame s u"
proof -
  assume "path_frame s t" "path_frame t u"
  then obtain bs n bs' n' where t: "t = s\<lparr>Buckets := bs, Count := n\<rparr>"
    and u: "u = t\<lparr>Buckets := bs', Count := n'\<rparr>"
    unfolding path_frame_def by blast
  have "u = s\<lparr>Buckets := bs', Count := n'\<rparr>" by (simp add: t u)
  then show ?thesis unfolding path_frame_def by blast
qed

lemma listing_frame_trans: "listing_frame s t \<Longrightarrow> listing_frame t u \<Longrightarrow> listing_frame s u"
proof -
  assume "listing_frame s t" "listing_frame t u"
  then obtain bs n h bs' n' h' where t: "t = s\<lparr>ListingBuckets := bs, ListingBytes := n, Infos := h\<rparr>"
    and u: "u = t\<lparr>ListingBuckets := bs', ListingBytes := n', Infos := h'\<rparr>"
    unfolding listing_frame_def by blast
  have "u = s\<lparr>ListingBuckets := bs', ListingBytes := n', Infos := h'\<rparr>" by (simp add: t u)
  then show ?thesis unfolding listing_frame_def by blast
qed

lemma path_frameD:
  assumes "path_frame s s'"
  shows "ListingBuckets s' = ListingBuckets s" "Sequence s' = Sequence s" "ListingBytes s' = ListingBytes s"
    "Ready s' = Ready s" "Generation s' = Generation s" "ChangeFeedLive s' = ChangeFeedLive s" "Infos s' = Infos s"
    "PathCacheLifetime s' = PathCacheLifetime s"
  using assms by (auto simp: path_frame_def PathCacheLifetime_def)

lemma listing_frameD:
  assumes "listing_frame s s'"
  shows "Buckets s' = Buckets s" "Sequence s' = Sequence s" "Count s' = Count s"
    "Ready s' = Ready s" "Generation s' = Generation s" "ChangeFeedLive s' = ChangeFeedLive s"
    "PathCacheLifetime s' = PathCacheLifetime s"
  using assms by (auto simp: listing_frame_def PathCacheLifetime_def)

lemma listing_inv_path_frame:
  assumes "listing_inv nls ext s" "path_frame s s'"
  shows "listing_inv nls ext s'"
proof -
  note frame = path_frameD [OF assms(2)]
  have sums: "cache_refs s' = cache_refs s" "held_bytes s' = held_bytes s"
    by (simp_all add: cache_refs_def [abs_def] held_bytes_def frame)
  from assms(1) show ?thesis unfolding listing_inv_def refs_ok_def frame sums .
qed

lemma path_inv_listing_frame:
  assumes "path_inv nls s" "listing_frame s s'"
  shows "path_inv nls s'"
  using assms(1) listing_frameD [OF assms(2)] by (simp add: path_inv_def)

lemma path_remove_frame: "path_frame s (PathCacheRemoveEntry i e s)"
  unfolding path_frame_def PathCacheRemoveEntry_def by blast

lemma listing_remove_frame: "listing_frame s (ListingCacheRemoveEntry i e s)"
  unfolding listing_frame_def ListingCacheRemoveEntry_def by blast

lemma remove_where_frame:
  assumes "\<And>s. R s s" "\<And>s t u. R s t \<Longrightarrow> R t u \<Longrightarrow> R s u" "\<And>e s. R s (remove i e s)"
  shows "R s (remove_where remove P i es s)"
proof (induction es arbitrary: s)
  case Nil
  show ?case using assms(1) by simp
next
  case (Cons e es)
  have "R s (if P e then remove i e s else s)" using assms(1,3) by simp
  then show ?case unfolding remove_where.simps using Cons.IH assms(2) by blast
qed

lemma remove_one_frame:
  assumes "\<And>s. R s s" "\<And>e s. R s (remove i e s)"
  shows "R s (remove_one remove P i es s)"
  using assms by (induction es) auto

lemma fold_frame:
  assumes "\<And>s. R s s" "\<And>s t u. R s t \<Longrightarrow> R t u \<Longrightarrow> R s u" "\<And>x s. R s (f x s)"
  shows "R s (fold f xs s)"
proof (induction xs arbitrary: s)
  case (Cons x xs)
  show ?case using assms(2) [OF assms(3) Cons.IH [of "f x s"]] by simp
qed (simp add: assms(1))

lemma sweep_paths_frame: "path_frame s (sweep_paths P i s)"
  unfolding sweep_paths_def
  by (rule remove_where_frame [where R = path_frame]) (auto intro: path_frame_trans path_remove_frame)

lemma sweep_listings_frame: "listing_frame s (sweep_listings P i s)"
  unfolding sweep_listings_def
  by (rule remove_where_frame [where R = listing_frame]) (auto intro: listing_frame_trans listing_remove_frame)

lemma fold_sweep_paths_frame: "path_frame s (fold (sweep_paths P) is s)"
  by (rule fold_frame) (auto intro: path_frame_trans sweep_paths_frame)

lemma fold_sweep_listings_frame: "listing_frame s (fold (sweep_listings P) is s)"
  by (rule fold_frame) (auto intro: listing_frame_trans sweep_listings_frame)

lemma ListingCacheDrop_frame: "listing_frame s (ListingCacheDrop nls dir s)"
  unfolding ListingCacheDrop_def Let_def
  by (rule remove_one_frame [where R = listing_frame]) (auto intro: listing_remove_frame)

lemma ListingCacheDropParent_frame: "listing_frame s (ListingCacheDropParent nls dir s)"
  by (simp add: ListingCacheDropParent_def ListingCacheDrop_frame split: option.split)

lemma path_drop_frame: "path_frame s (path_drop nls path s)"
  unfolding path_drop_def Let_def
  by (rule remove_one_frame [where R = path_frame]) (auto intro: path_remove_frame)

section \<open>What the sweeps leave\<close>

lemma path_inv_distinct: "path_inv nls s \<Longrightarrow> i < 256 \<Longrightarrow> distinct (path_list s i)"
  unfolding path_inv_def by (blast intro: bucket_ok_distinct)

lemma listing_inv_distinct: "listing_inv nls ext s \<Longrightarrow> i < 256 \<Longrightarrow> distinct (listing_list s i)"
  unfolding listing_inv_def by (blast intro: bucket_ok_distinct)

lemma path_inv_length [simp]: "path_inv nls s \<Longrightarrow> length (Buckets s) = 256"
  by (simp add: path_inv_def)

lemma listing_inv_length [simp]: "listing_inv nls ext s \<Longrightarrow> length (ListingBuckets s) = 256"
  by (simp add: listing_inv_def)

lemma path_inv_sweep:
  assumes "path_inv nls s" "i < 256"
  shows "path_inv nls (sweep_paths P i s)"
  unfolding sweep_paths_def
  by (rule path_store.remove_where_keeps [of "path_inv nls"])
    (use assms path_inv_distinct path_inv_remove in auto)

lemma listing_inv_sweep:
  assumes "listing_inv nls ext s" "i < 256"
  shows "listing_inv nls ext (sweep_listings P i s)"
  unfolding sweep_listings_def
  by (rule listing_store.remove_where_keeps [of "listing_inv nls ext"])
    (use assms listing_inv_distinct listing_inv_remove in auto)

lemma fold_keeps:
  assumes "\<And>x s. x \<in> set xs \<Longrightarrow> Q s \<Longrightarrow> Q (f x s)" "Q s"
  shows "Q (fold f xs s)"
  using assms by (induction xs arbitrary: s) auto

lemma path_inv_fold_sweep: "path_inv nls s \<Longrightarrow> path_inv nls (fold (sweep_paths P) [0..<256] s)"
  by (rule fold_keeps) (auto intro: path_inv_sweep)

lemma listing_inv_fold_sweep: "listing_inv nls ext s \<Longrightarrow> listing_inv nls ext (fold (sweep_listings P) [0..<256] s)"
  by (rule fold_keeps) (auto intro: listing_inv_sweep)

lemma sweep_paths_list:
  assumes "path_inv nls s" "i < 256" "j < 256"
  shows "path_list (sweep_paths P i s) j = (if j = i then filter (\<lambda>e. \<not> P e) (path_list s i) else path_list s j)"
  using path_store.sweep_buckets [of i s P] assms path_inv_distinct [OF assms(1,2)]
  by (simp add: sweep_paths_def nth_list_update)

lemma sweep_listings_list:
  assumes "listing_inv nls ext s" "i < 256" "j < 256"
  shows "listing_list (sweep_listings P i s) j =
         (if j = i then filter (\<lambda>e. \<not> P e) (listing_list s i) else listing_list s j)"
  using listing_store.sweep_buckets [of i s P] assms listing_inv_distinct [OF assms(1,2)]
  by (simp add: sweep_listings_def nth_list_update)

lemma fold_sweep_paths_list:
  assumes "path_inv nls s" "j < 256"
  shows "path_list (fold (sweep_paths P) [0..<256] s) j = filter (\<lambda>e. \<not> P e) (path_list s j)"
  using path_store.fold_sweep_buckets [of 256 s P] assms path_inv_distinct [OF assms(1)]
  unfolding sweep_paths_def [abs_def] by simp

lemma fold_sweep_listings_list:
  assumes "listing_inv nls ext s" "j < 256"
  shows "listing_list (fold (sweep_listings P) [0..<256] s) j = filter (\<lambda>e. \<not> P e) (listing_list s j)"
  using listing_store.fold_sweep_buckets [of 256 s P] assms listing_inv_distinct [OF assms(1)]
  unfolding sweep_listings_def [abs_def] by simp

lemma remove_one_find:
  "remove_one remove P i es s = (case List.find P es of None \<Rightarrow> s | Some e \<Rightarrow> remove i e s)"
  by (induction es) auto

lemma path_inv_drop: "path_inv nls s \<Longrightarrow> path_inv nls (path_drop nls path s)"
  by (auto simp: path_drop_def Let_def remove_one_find dest: find_SomeD split: option.split
      intro: path_inv_remove)

lemma listing_inv_drop: "listing_inv nls ext s \<Longrightarrow> listing_inv nls ext (ListingCacheDrop nls dir s)"
  by (auto simp: ListingCacheDrop_def Let_def remove_one_find dest: find_SomeD split: option.split
      intro: listing_inv_remove)

lemma listing_inv_drop_parent: "listing_inv nls ext s \<Longrightarrow> listing_inv nls ext (ListingCacheDropParent nls dir s)"
  by (auto simp: ListingCacheDropParent_def listing_inv_drop split: option.split)

lemma path_drop_list:
  assumes "path_inv nls s" "j < 256"
  shows "path_list (path_drop nls path s) j =
         (if j = bucket_index nls path
          then filter (\<lambda>e. \<not> RtlEqualUnicodeString nls (E_Path e) path) (path_list s j) else path_list s j)"
  using path_store.remove_one_buckets [of "bucket_index nls path" s nls path] assms
  by (simp add: path_drop_def Let_def path_inv_def nth_list_update)

lemma listing_drop_list:
  assumes "listing_inv nls ext s" "j < 256"
  shows "listing_list (ListingCacheDrop nls dir s) j =
         (if j = bucket_index nls dir
          then filter (\<lambda>e. \<not> RtlEqualUnicodeString nls (L_Path e) dir) (listing_list s j) else listing_list s j)"
  using listing_store.remove_one_buckets [of "bucket_index nls dir" s nls dir] assms
  by (simp add: ListingCacheDrop_def Let_def listing_inv_def nth_list_update)

end
