(* ===== verification/Path_Cache_Ops.thy ===== *)
theory Path_Cache_Ops
  imports Path_Cache_Inv
begin

text \<open>
  The functional behaviour of the cache operations: insertion, publishing and lookup, each with
  its preservation of the invariants and with what it does to the entries of every bucket.
\<close>

section \<open>Finding an entry\<close>

lemma path_find_Some:
  assumes "path_inv nls s" "nls_ok nls"
  shows "path_find nls path s = Some e \<longleftrightarrow>
         e \<in> set (path_list s (bucket_index nls path)) \<and> RtlEqualUnicodeString nls (E_Path e) path"
proof
  show "path_find nls path s = Some e \<Longrightarrow>
      e \<in> set (path_list s (bucket_index nls path)) \<and> RtlEqualUnicodeString nls (E_Path e) path"
    unfolding path_find_def by (auto dest: find_SomeD)
  assume e: "e \<in> set (path_list s (bucket_index nls path)) \<and> RtlEqualUnicodeString nls (E_Path e) path"
  then obtain e' where e': "path_find nls path s = Some e'"
    unfolding path_find_def by (cases "List.find (\<lambda>e. RtlEqualUnicodeString nls (E_Path e) path) (path_list s (bucket_index nls path))")
      (auto dest: find_NoneD)
  then have "e' \<in> set (path_list s (bucket_index nls path)) \<and> RtlEqualUnicodeString nls (E_Path e') path"
    unfolding path_find_def by (auto dest: find_SomeD)
  with e have "e = e'"
    using assms(1) bucket_ok_unique [of E_Path nls "bucket_index nls path" "Buckets s ! bucket_index nls path" e e']
      equal_sym equal_trans unfolding path_inv_def by (metis bucket_index_less)
  with e' show "path_find nls path s = Some e" by simp
qed

lemma listing_find_Some:
  assumes "listing_inv nls ext s" "nls_ok nls"
  shows "listing_find nls path s = Some e \<longleftrightarrow>
         e \<in> set (listing_list s (bucket_index nls path)) \<and> RtlEqualUnicodeString nls (L_Path e) path"
proof
  show "listing_find nls path s = Some e \<Longrightarrow>
      e \<in> set (listing_list s (bucket_index nls path)) \<and> RtlEqualUnicodeString nls (L_Path e) path"
    unfolding listing_find_def by (auto dest: find_SomeD)
  assume e: "e \<in> set (listing_list s (bucket_index nls path)) \<and> RtlEqualUnicodeString nls (L_Path e) path"
  then obtain e' where e': "listing_find nls path s = Some e'"
    unfolding listing_find_def by (cases "List.find (\<lambda>e. RtlEqualUnicodeString nls (L_Path e) path) (listing_list s (bucket_index nls path))")
      (auto dest: find_NoneD)
  then have "e' \<in> set (listing_list s (bucket_index nls path)) \<and> RtlEqualUnicodeString nls (L_Path e') path"
    unfolding listing_find_def by (auto dest: find_SomeD)
  with e have "e = e'"
    using assms(1) bucket_ok_unique [of L_Path nls "bucket_index nls path" "ListingBuckets s ! bucket_index nls path" e e']
      equal_sym equal_trans unfolding listing_inv_def by (metis bucket_index_less)
  with e' show "listing_find nls path s = Some e" by simp
qed

section \<open>Insertion\<close>

lemma refresh_entry_path [simp]: "E_Path (refresh_entry hasMeta new e) = E_Path e"
  by (simp add: refresh_entry_def)

lemma path_inv_update:
  assumes "path_inv nls s" "i < 256" "E_Path e' = E_Path e"
  shows "path_inv nls (update_entry i e e' s)"
proof -
  have "bucket_ok E_Path nls i ((Buckets s ! i)\<lparr>B_List := map (\<lambda>x. if x = e then e' else x) (path_list s i)\<rparr>)"
    by (rule bucket_ok_map) (use assms in \<open>auto simp: path_inv_def\<close>)
  moreover have "Count s = (\<Sum>b\<leftarrow>Buckets s. int (B_Count b))" using assms(1) by (simp add: path_inv_def)
  ultimately show ?thesis
    using assms unfolding path_inv_def update_entry_def
    by (auto simp: nth_list_update sum_list_map_update)
qed

lemma update_entry_frame: "path_frame s (update_entry i e e' s)"
proof -
  have "update_entry i e e' s = s\<lparr>Buckets := Buckets (update_entry i e e' s), Count := Count s\<rparr>"
    by (simp add: update_entry_def)
  then show ?thesis unfolding path_frame_def by blast
qed

text \<open>
  The walk: every entry left was there before, except the refreshed one; the walk ends with the
  path's own entry exactly when there is one.
\<close>

lemma insert_walk_spec:
  assumes "path_inv nls s" "i < 256" "set es \<subseteq> set (path_list s i)" "distinct es"
    and "insert_walk nls path hasMeta new live i es s = (found, s')"
  shows "path_inv nls s' \<and> path_frame s s' \<and>
         (\<forall>j < 256. j \<noteq> i \<longrightarrow> path_list s' j = path_list s j) \<and>
         (found \<longleftrightarrow> (\<exists>e\<in>set es. RtlEqualUnicodeString nls (E_Path e) path)) \<and>
         (\<forall>x\<in>set (path_list s' i). x \<in> set (path_list s i) \<or>
            found \<and> (\<exists>e\<in>set es. x = refresh_entry hasMeta new e \<and> RtlEqualUnicodeString nls (E_Path e) path)) \<and>
         (found \<longrightarrow> (\<exists>e\<in>set es. refresh_entry hasMeta new e \<in> set (path_list s' i) \<and>
            RtlEqualUnicodeString nls (E_Path e) path))"
  using assms
proof (induction es arbitrary: s)
  case (Cons e es)
  show ?case
  proof (cases "RtlEqualUnicodeString nls (E_Path e) path")
    case True
    with Cons.prems(5) have r: "found" "s' = update_entry i e (refresh_entry hasMeta new e) s" by auto
    have e: "e \<in> set (path_list s i)" using Cons.prems(3) by simp
    have lists: "path_list s' j = (if j = i then map (\<lambda>x. if x = e then refresh_entry hasMeta new e else x) (path_list s i)
        else path_list s j)" if "j < 256" for j
      using that Cons.prems(1,2) by (simp add: r(2) update_entry_def nth_list_update)
    have "path_inv nls s'" unfolding r(2) using Cons.prems by (intro path_inv_update) simp_all
    moreover have "path_frame s s'" unfolding r(2) by (rule update_entry_frame)
    ultimately show ?thesis using True r(1) e lists Cons.prems(2) by auto
  next
    case False
    let ?s = "if live e then s else PathCacheRemoveEntry i e s"
    have w: "insert_walk nls path hasMeta new live i es ?s = (found, s')" using Cons.prems(5) False by simp
    have e: "e \<in> set (path_list s i)" "e \<notin> set es" using Cons.prems(3,4) by auto
    have inv: "path_inv nls ?s" using Cons.prems(1,2) e path_inv_remove by auto
    have frame: "path_frame s ?s" using path_remove_frame by auto
    have lists: "path_list ?s j = (if j = i \<and> \<not> live e then remove1 e (path_list s i) else path_list s j)" if "j < 256" for j
      using that Cons.prems(1,2) by (auto simp: path_store.buckets_remove unlink_def nth_list_update)
    have "x \<in> set (remove1 e (path_list s i))" if "x \<in> set es" for x
      using that Cons.prems(3) e(2) by (subst in_set_remove1) auto
    then have sub: "set es \<subseteq> set (path_list ?s i)" using Cons.prems(2,3) lists by auto
    have old: "set (path_list ?s i) \<subseteq> set (path_list s i)"
      using Cons.prems(2) lists set_remove1_subset [of e "path_list s i"] by auto
    have "distinct es" using Cons.prems(4) by simp
    note IH = Cons.IH [OF inv Cons.prems(2) sub this w]
    have "\<forall>j < 256. j \<noteq> i \<longrightarrow> path_list s' j = path_list s j" using IH lists by simp
    moreover have "path_frame s s'" using frame IH path_frame_trans by blast
    moreover have "found \<longleftrightarrow> (\<exists>e\<in>set (e # es). RtlEqualUnicodeString nls (E_Path e) path)"
      using IH False by simp
    moreover have "\<forall>x\<in>set (path_list s' i). x \<in> set (path_list s i) \<or>
        found \<and> (\<exists>e\<in>set (e # es). x = refresh_entry hasMeta new e \<and> RtlEqualUnicodeString nls (E_Path e) path)"
      using IH old by (meson list.set_intros(2) subsetD)
    moreover have "found \<longrightarrow> (\<exists>e\<in>set (e # es). refresh_entry hasMeta new e \<in> set (path_list s' i) \<and>
        RtlEqualUnicodeString nls (E_Path e) path)"
      using IH by auto
    ultimately show ?thesis using IH by blast
  qed
qed (auto simp: path_inv_def)

lemma insert_tail_spec:
  assumes inv: "path_inv nls s" and i: "i = bucket_index nls (E_Path new)" and ne: "E_Path new \<noteq> []"
    and fresh: "\<And>e. e \<in> set (path_list s i) \<Longrightarrow> \<not> RtlEqualUnicodeString nls (E_Path e) (E_Path new)"
  shows "path_inv nls (insert_tail i new s) \<and> path_frame s (insert_tail i new s) \<and>
         (\<forall>j < 256. j \<noteq> i \<longrightarrow> path_list (insert_tail i new s) j = path_list s j) \<and>
         set (path_list (insert_tail i new s) i) \<subseteq> insert new (set (path_list s i)) \<and>
         new \<in> set (path_list (insert_tail i new s) i)"
proof -
  let ?full = "PATH_CACHE_MAX_PER_BUCKET \<le> B_Count (Buckets s ! i) \<and> path_list s i \<noteq> []"
  define t where "t = (if ?full then PathCacheRemoveEntry i (hd (path_list s i)) s else s)"
  have lt: "i < 256" using i by simp
  have tinv: "path_inv nls t" using inv path_inv_remove [OF inv lt] by (simp add: t_def)
  have tframe: "path_frame s t" using path_remove_frame by (simp add: t_def)
  have tlist: "path_list t j = (if j = i \<and> ?full then remove1 (hd (path_list s i)) (path_list s i) else path_list s j)"
    if "j < 256" for j
    using that inv lt by (simp add: t_def path_store.buckets_remove unlink_def nth_list_update)
  have sub: "set (path_list t i) \<subseteq> set (path_list s i)"
    using tlist [OF lt] set_remove1_subset [of "hd (path_list s i)" "path_list s i"] by auto
  have count: "B_Count (Buckets s ! i) = length (path_list s i)" "length (path_list s i) \<le> 16"
    using inv lt unfolding path_inv_def bucket_ok_def by auto
  have room: "length (path_list t i) < 16"
    using count tlist [OF lt] by (auto simp: PATH_CACHE_MAX_PER_BUCKET_def length_remove1)
  let ?b = "Buckets t ! i"
  let ?nb = "?b\<lparr>B_List := B_List ?b @ [new], B_Count := B_Count ?b + 1\<rparr>"
  have eq: "insert_tail i new s = t\<lparr>Buckets := (Buckets t)[i := ?nb], Count := Count t + 1\<rparr>"
    unfolding insert_tail_def Let_def t_def by (rule refl)
  have nb: "bucket_ok E_Path nls i ?nb"
    by (rule bucket_ok_append) (use tinv lt i ne fresh sub in \<open>auto simp: path_inv_def\<close>)
  have "Count t = (\<Sum>b\<leftarrow>Buckets t. int (B_Count b))" using tinv by (simp add: path_inv_def)
  then have "Count t + 1 = (\<Sum>b\<leftarrow>(Buckets t)[i := ?nb]. int (B_Count b))"
    using tinv lt by (simp add: sum_list_map_update)
  then have "path_inv nls (insert_tail i new s)"
    using tinv nb room lt unfolding eq path_inv_def by (auto simp: nth_list_update)
  moreover have "path_frame t (insert_tail i new s)" unfolding eq path_frame_def by blast
  then have "path_frame s (insert_tail i new s)" by (rule path_frame_trans [OF tframe])
  moreover have lists: "path_list (insert_tail i new s) j = (if j = i then path_list t i @ [new] else path_list t j)"
    if "j < 256" for j
    using that tinv lt by (simp add: eq nth_list_update)
  have "\<forall>j < 256. j \<noteq> i \<longrightarrow> path_list (insert_tail i new s) j = path_list s j"
    using lists tlist by simp
  moreover have "set (path_list (insert_tail i new s) i) \<subseteq> insert new (set (path_list s i))"
    "new \<in> set (path_list (insert_tail i new s) i)"
    using lists [OF lt] sub by auto
  ultimately show ?thesis by blast
qed

text \<open>
  An entry as an insertion writes it: the ticket's sequence and time, the generation sampled
  before the lock, and the metadata when there is any.
\<close>

definition written ::
    "bool \<Rightarrow> DIRECTORY_ENTRY_METADATA option \<Rightarrow> PATH_CACHE_TICKET option \<Rightarrow> ULONG64 \<Rightarrow> ULONG \<Rightarrow>
     PATH_CACHE_STATE \<Rightarrow> PATH_CACHE_ENTRY \<Rightarrow> bool" where
  "written exists meta ticket now generation s e \<longleftrightarrow>
     E_Exists e = exists \<and> E_Generation e = generation \<and>
     E_Sequence e = (case ticket of Some t \<Rightarrow> T_Sequence t | None \<Rightarrow> Sequence s) \<and>
     E_IssueTime e = (case ticket of Some t \<Rightarrow> T_IssueTime t | None \<Rightarrow> now) \<and>
     (exists \<and> meta \<noteq> None \<longrightarrow> E_Meta e = the meta)"

lemma insert_locked_spec:
  assumes inv: "path_inv nls s" and ok: "nls_ok nls" and path: "path \<noteq> []"
    and s': "s' = insert_locked nls path exists meta ticket now lifetime generation s"
  shows "path_inv nls s' \<and> path_frame s s' \<and>
         (\<forall>j < 256. \<forall>e\<in>set (path_list s' j). e \<in> set (path_list s j) \<or>
            PathCacheTicketHonoured ticket s \<and> j = bucket_index nls path \<and>
            RtlEqualUnicodeString nls (E_Path e) path \<and> written exists meta ticket now generation s e) \<and>
         (PathCacheTicketHonoured ticket s \<longrightarrow>
            (\<exists>e\<in>set (path_list s' (bucket_index nls path)).
               RtlEqualUnicodeString nls (E_Path e) path \<and> written exists meta ticket now generation s e)) \<and>
         (\<not> PathCacheTicketHonoured ticket s \<longrightarrow> s' = s)"
proof (cases "PathCacheTicketHonoured ticket s")
  case False
  then have "s' = s" unfolding s' insert_locked_def Let_def by simp
  with False inv show ?thesis by simp
next
  case True
  let ?hasMeta = "exists \<and> meta \<noteq> None" and ?i = "bucket_index nls path"
  define new where "new = \<lparr>E_Path = path,
      E_IssueTime = (case ticket of Some t \<Rightarrow> T_IssueTime t | None \<Rightarrow> now),
      E_Sequence = (case ticket of Some t \<Rightarrow> T_Sequence t | None \<Rightarrow> Sequence s),
      E_Meta = (if ?hasMeta then the meta else
        \<lparr>Size = 0, CreationTime = 0, LastAccessedTime = 0, LastModifiedTime = 0, IsDirectory = False, NoStore = False\<rparr>),
      E_Generation = generation, E_Exists = exists\<rparr>"
  let ?live = "\<lambda>e. PathCacheEntryLive e now generation lifetime"
  obtain found s1 where w: "insert_walk nls path ?hasMeta new ?live ?i (path_list s ?i) s = (found, s1)"
    by fastforce
  have s'_eq: "s' = (if found then s1 else insert_tail ?i new s1)"
    unfolding s' insert_locked_def Let_def using True w by (simp add: new_def)
  have lt: "?i < 256" by simp
  note walk = insert_walk_spec [OF inv lt subset_refl path_inv_distinct [OF inv lt] w]
  have new_written: "written exists meta ticket now generation s new" "E_Path new = path"
    by (auto simp: written_def new_def)
  have refreshed: "written exists meta ticket now generation s (refresh_entry ?hasMeta new e)" for e
    by (auto simp: written_def new_def refresh_entry_def)
  show ?thesis
  proof (cases found)
    case True
    have "\<forall>j < 256. \<forall>e\<in>set (path_list s1 j). e \<in> set (path_list s j) \<or> j = ?i \<and>
        RtlEqualUnicodeString nls (E_Path e) path \<and> written exists meta ticket now generation s e"
    proof (intro allI impI ballI)
      fix j e assume j: "j < 256" "e \<in> set (path_list s1 j)"
      show "e \<in> set (path_list s j) \<or> j = ?i \<and> RtlEqualUnicodeString nls (E_Path e) path \<and>
          written exists meta ticket now generation s e"
      proof (cases "j = ?i")
        case True
        with j walk consider "e \<in> set (path_list s ?i)"
          | x where "e = refresh_entry ?hasMeta new x" "RtlEqualUnicodeString nls (E_Path x) path" by blast
        then show ?thesis using True refreshed by cases auto
      next
        case False
        then show ?thesis using j walk by auto
      qed
    qed
    moreover from walk True obtain e where "refresh_entry ?hasMeta new e \<in> set (path_list s1 ?i)"
        "RtlEqualUnicodeString nls (E_Path (refresh_entry ?hasMeta new e)) path" by auto
    with refreshed have "\<exists>e\<in>set (path_list s1 ?i). RtlEqualUnicodeString nls (E_Path e) path \<and>
        written exists meta ticket now generation s e" by blast
    ultimately show ?thesis
      using walk True \<open>PathCacheTicketHonoured ticket s\<close> unfolding s'_eq by simp
  next
    case False
    have fresh: "\<not> RtlEqualUnicodeString nls (E_Path e) path" if "e \<in> set (path_list s1 ?i)" for e
      using walk False that by auto
    have tail: "path_inv nls s' \<and> path_frame s1 s' \<and> (\<forall>j < 256. j \<noteq> ?i \<longrightarrow> path_list s' j = path_list s1 j) \<and>
        set (path_list s' ?i) \<subseteq> insert new (set (path_list s1 ?i)) \<and> new \<in> set (path_list s' ?i)"
      using insert_tail_spec [of nls s1 ?i new] walk fresh path new_written False unfolding s'_eq by simp
    have "\<forall>j < 256. \<forall>e\<in>set (path_list s' j). e \<in> set (path_list s j) \<or> j = ?i \<and>
        RtlEqualUnicodeString nls (E_Path e) path \<and> written exists meta ticket now generation s e"
    proof (intro allI impI ballI)
      fix j e assume "j < 256" "e \<in> set (path_list s' j)"
      then show "e \<in> set (path_list s j) \<or> j = ?i \<and>
          RtlEqualUnicodeString nls (E_Path e) path \<and> written exists meta ticket now generation s e"
        using tail walk False new_written by (cases "j = ?i") auto
    qed
    moreover have "path_frame s s'" using walk tail path_frame_trans by blast
    moreover have "\<exists>e\<in>set (path_list s' ?i). RtlEqualUnicodeString nls (E_Path e) path \<and>
        written exists meta ticket now generation s e"
      using tail new_written by (intro bexI [of _ new]) simp_all
    ultimately show ?thesis using tail \<open>PathCacheTicketHonoured ticket s\<close> by simp
  qed
qed

section \<open>Publishing a listing\<close>

text \<open>A listing never changes but in its reference count.\<close>

definition info_frame :: "info_heap \<Rightarrow> info_heap \<Rightarrow> bool" where
  "info_frame h h' \<longleftrightarrow> (\<forall>a li'. h' a = Some li' \<longrightarrow> (\<exists>li. h a = Some li \<and> li' = li\<lparr>RefCount := RefCount li'\<rparr>))"

lemma info_frame_refl [simp]: "info_frame h h"
  by (simp add: info_frame_def)

lemma info_frame_trans:
  assumes "info_frame h h'" "info_frame h' h''"
  shows "info_frame h h''"
  unfolding info_frame_def
proof (intro allI impI)
  fix a li'' assume "h'' a = Some li''"
  then obtain li' where li': "h' a = Some li'" "li'' = li'\<lparr>RefCount := RefCount li''\<rparr>"
    using assms(2) unfolding info_frame_def by blast
  then obtain li where li: "h a = Some li" "li' = li\<lparr>RefCount := RefCount li'\<rparr>"
    using assms(1) unfolding info_frame_def by blast
  have "li'' = li\<lparr>RefCount := RefCount li''\<rparr>"
    by (subst li'(2), subst li(2)) simp
  with li(1) show "\<exists>li. h a = Some li \<and> li'' = li\<lparr>RefCount := RefCount li''\<rparr>" by blast
qed

lemma listing_remove_info_frame:
  assumes "listing_inv nls ext s" "i < 256" "e \<in> set (listing_list s i)"
  shows "info_frame (Infos s) (Infos (ListingCacheRemoveEntry i e s))"
proof -
  obtain li where li: "Infos s (L_Listing e) = Some li" "Descendants li = []"
    using listing_inv_entry [OF assms] by metis
  from release_no_descendants [of "Infos s" "L_Listing e" li] li show ?thesis
    by (auto simp: info_frame_def ListingCacheRemoveEntry_def split: if_splits)
qed

text \<open>What every sequence of removals from one bucket keeps.\<close>

definition trimmed :: "NLS \<Rightarrow> (nat \<Rightarrow> int) \<Rightarrow> nat \<Rightarrow> PATH_CACHE_STATE \<Rightarrow> PATH_CACHE_STATE \<Rightarrow> bool" where
  "trimmed nls ext i s s' \<longleftrightarrow>
     listing_inv nls ext s' \<and> listing_frame s s' \<and> info_frame (Infos s) (Infos s') \<and>
     set (listing_list s' i) \<subseteq> set (listing_list s i) \<and>
     (\<forall>j < 256. j \<noteq> i \<longrightarrow> listing_list s' j = listing_list s j)"

lemma trimmed_refl: "listing_inv nls ext s \<Longrightarrow> trimmed nls ext i s s"
  by (simp add: trimmed_def)

lemma trimmed_trans:
  assumes "trimmed nls ext i s t" "trimmed nls ext i t u"
  shows "trimmed nls ext i s u"
proof -
  have "listing_frame s u" "info_frame (Infos s) (Infos u)"
    using assms listing_frame_trans info_frame_trans unfolding trimmed_def by blast+
  with assms show ?thesis unfolding trimmed_def by auto
qed

lemma trimmed_remove:
  assumes "listing_inv nls ext s" "i < 256" "e \<in> set (listing_list s i)"
  shows "trimmed nls ext i s (ListingCacheRemoveEntry i e s)"
    and "listing_list (ListingCacheRemoveEntry i e s) i = remove1 e (listing_list s i)"
proof -
  show l: "listing_list (ListingCacheRemoveEntry i e s) i = remove1 e (listing_list s i)"
    using assms by (simp add: listing_store.buckets_remove unlink_def)
  show "trimmed nls ext i s (ListingCacheRemoveEntry i e s)"
    unfolding trimmed_def l
    using listing_inv_remove [OF assms] listing_remove_frame listing_remove_info_frame [OF assms]
      set_remove1_subset [of e "listing_list s i"] assms(1)
    by (auto simp: listing_store.buckets_remove)
qed

lemma in_set_remove1_neq: "x \<in> set xs \<Longrightarrow> x \<noteq> e \<Longrightarrow> x \<in> set (remove1 e xs)"
  by simp

lemma publish_walk_spec:
  assumes "listing_inv nls ext s" "i < 256" "set es \<subseteq> set (listing_list s i)" "distinct es"
    and "publish_walk nls dir live i es ex s = (ex', s')"
  shows "trimmed nls ext i s s' \<and>
         (\<forall>e\<in>set (listing_list s' i). e \<in> set es \<longrightarrow> live e) \<and>
         (\<forall>e\<in>set (listing_list s i). e \<notin> set es \<or> live e \<longrightarrow> e \<in> set (listing_list s' i)) \<and>
         (ex' = ex \<and> (\<forall>e\<in>set es. live e \<longrightarrow> \<not> RtlEqualUnicodeString nls (L_Path e) dir) \<or>
          (\<exists>e\<in>set es. live e \<and> RtlEqualUnicodeString nls (L_Path e) dir \<and> ex' = Some e))"
  using assms
proof (induction es arbitrary: s ex)
  case Nil
  then show ?case by (auto intro: trimmed_refl)
next
  case (Cons e es)
  have e: "e \<in> set (listing_list s i)" "e \<notin> set es" and d: "distinct es" using Cons.prems(3,4) by auto
  show ?case
  proof (cases "live e")
    case False
    let ?s = "ListingCacheRemoveEntry i e s"
    note t = trimmed_remove [OF Cons.prems(1,2) e(1)]
    have inv: "listing_inv nls ext ?s" using t(1) by (simp add: trimmed_def)
    have sub: "set es \<subseteq> set (listing_list ?s i)"
      unfolding t(2) using Cons.prems(3) e(2) by (auto intro!: in_set_remove1_neq)
    have w: "publish_walk nls dir live i es ex ?s = (ex', s')" using Cons.prems(5) False by simp
    note IH = Cons.IH [OF inv Cons.prems(2) sub d w]
    have gone: "e \<notin> set (listing_list s' i)"
    proof -
      have "distinct (listing_list s i)" using Cons.prems(1,2) by (rule listing_inv_distinct)
      then have "e \<notin> set (listing_list ?s i)" unfolding t(2) by (simp add: set_remove1_eq)
      with IH show ?thesis unfolding trimmed_def by blast
    qed
    have "\<forall>x\<in>set (listing_list s i). x \<notin> set (e # es) \<or> live x \<longrightarrow> x \<in> set (listing_list s' i)"
    proof (intro ballI impI)
      fix x assume x: "x \<in> set (listing_list s i)" "x \<notin> set (e # es) \<or> live x"
      then have "x \<noteq> e" using False by auto
      with x(1) have "x \<in> set (listing_list ?s i)" unfolding t(2) by (rule in_set_remove1_neq)
      moreover have "\<forall>x\<in>set (listing_list ?s i). x \<notin> set es \<or> live x \<longrightarrow> x \<in> set (listing_list s' i)"
        using IH by (elim conjE)
      ultimately show "x \<in> set (listing_list s' i)" using x(2) by auto
    qed
    moreover have "trimmed nls ext i s s'" using t(1) IH trimmed_trans by blast
    moreover have "\<forall>x\<in>set (listing_list s' i). x \<in> set es \<longrightarrow> live x" using IH by (elim conjE)
    then have "\<forall>x\<in>set (listing_list s' i). x \<in> set (e # es) \<longrightarrow> live x" using gone by auto
    moreover have "ex' = ex \<and> (\<forall>e\<in>set (e # es). live e \<longrightarrow> \<not> RtlEqualUnicodeString nls (L_Path e) dir) \<or>
        (\<exists>e\<in>set (e # es). live e \<and> RtlEqualUnicodeString nls (L_Path e) dir \<and> ex' = Some e)"
      using conjunct2 [OF conjunct2 [OF conjunct2 [OF IH]]] False by simp
    ultimately show ?thesis by (intro conjI)
  next
    case True
    let ?ex = "if RtlEqualUnicodeString nls (L_Path e) dir then Some e else ex"
    have w: "publish_walk nls dir live i es ?ex s = (ex', s')" using Cons.prems(5) True by simp
    have sub: "set es \<subseteq> set (listing_list s i)" using Cons.prems(3) by simp
    note IH = Cons.IH [OF Cons.prems(1,2) sub d w]
    have "\<forall>x\<in>set (listing_list s' i). x \<in> set (e # es) \<longrightarrow> live x"
      using conjunct1 [OF conjunct2 [OF IH]] True by auto
    moreover have "\<forall>x\<in>set (listing_list s i). x \<notin> set (e # es) \<or> live x \<longrightarrow> x \<in> set (listing_list s' i)"
      using conjunct1 [OF conjunct2 [OF conjunct2 [OF IH]]] by auto
    moreover have "ex' = ex \<and> (\<forall>e\<in>set (e # es). live e \<longrightarrow> \<not> RtlEqualUnicodeString nls (L_Path e) dir) \<or>
        (\<exists>e\<in>set (e # es). live e \<and> RtlEqualUnicodeString nls (L_Path e) dir \<and> ex' = Some e)"
      using conjunct2 [OF conjunct2 [OF conjunct2 [OF IH]]] True by (auto split: if_splits)
    ultimately show ?thesis using conjunct1 [OF IH] by (intro conjI)
  qed
qed

lemma trimmed_inv: "trimmed nls ext i s s' \<Longrightarrow> listing_inv nls ext s'"
  by (simp add: trimmed_def)

lemma evict_over_trimmed:
  assumes "listing_inv nls ext s" "i < 256" "listing_list s i = es"
  shows "trimmed nls ext i s (evict_over i bytes es s) \<and>
         (ListingBytes (evict_over i bytes es s) + bytes \<le> LISTING_CACHE_MAX_BYTES \<or>
          listing_list (evict_over i bytes es s) i = [])"
  using assms
proof (induction es arbitrary: s)
  case (Cons e es)
  show ?case
  proof (cases "ListingBytes s + bytes > LISTING_CACHE_MAX_BYTES")
    case True
    have e: "e \<in> set (listing_list s i)" using Cons.prems(3) by simp
    note t = trimmed_remove [OF Cons.prems(1,2) e]
    have "listing_list (ListingCacheRemoveEntry i e s) i = es" unfolding t(2) using Cons.prems(3) by simp
    from Cons.IH [OF trimmed_inv [OF t(1)] Cons.prems(2) this] show ?thesis
      using True trimmed_trans [OF t(1)] by simp
  next
    case False
    then show ?thesis using Cons.prems trimmed_refl by simp
  qed
qed (simp add: trimmed_refl)

lemma publish_evict_trimmed:
  assumes "listing_inv nls ext s" "i < 256"
  shows "trimmed nls ext i s (publish_evict i bytes s)"
proof -
  define t where "t = (if LISTING_CACHE_MAX_PER_BUCKET \<le> B_Count (ListingBuckets s ! i) \<and> listing_list s i \<noteq> []
      then ListingCacheRemoveEntry i (hd (listing_list s i)) s else s)"
  have t: "trimmed nls ext i s t"
    using trimmed_remove(1) [OF assms] trimmed_refl [OF assms(1)] by (simp add: t_def)
  have "trimmed nls ext i t (evict_over i bytes (listing_list t i) t)"
    using evict_over_trimmed [OF trimmed_inv [OF t] assms(2) refl] by simp
  then show ?thesis
    using t trimmed_trans trimmed_refl [OF assms(1)] unfolding publish_evict_def Let_def t_def [symmetric] by auto
qed

lemma reference_refs:
  assumes "h a = Some li"
  shows "BlorgReferenceDirectoryInfo a h = h(a \<mapsto> li\<lparr>RefCount := RefCount li + 1\<rparr>)"
  using assms by (simp add: BlorgReferenceDirectoryInfo_def)

text \<open>A reference taken or dropped outside the cache.\<close>

lemma listing_inv_reference:
  assumes inv: "listing_inv nls ext s" and a: "Infos s a = Some li"
  shows "listing_inv nls (ext(a := ext a + 1)) (s\<lparr>Infos := BlorgReferenceDirectoryInfo a (Infos s)\<rparr>)"
proof -
  let ?s = "s\<lparr>Infos := BlorgReferenceDirectoryInfo a (Infos s)\<rparr>"
  have refs: "refs_ok ext s" using inv by (simp add: listing_inv_def)
  have "refs_ok (ext(a := ext a + 1)) ?s"
    unfolding refs_ok_def
  proof (intro allI)
    fix b
    have "0 \<le> ext b \<and> (case Infos s b of None \<Rightarrow> ext b + cache_refs s b = 0
        | Some li \<Rightarrow> RefCount li = ext b + cache_refs s b \<and> 0 < RefCount li)"
      using refs unfolding refs_ok_def by blast
    then show "0 \<le> (ext(a := ext a + 1)) b \<and> (case Infos ?s b of None \<Rightarrow> (ext(a := ext a + 1)) b + cache_refs ?s b = 0
        | Some li \<Rightarrow> RefCount li = (ext(a := ext a + 1)) b + cache_refs ?s b \<and> 0 < RefCount li)"
      using a by (auto simp: reference_refs split: option.splits)
  qed
  moreover have "cached_ok (Infos ?s) e" if "cached_ok (Infos s) e" for e
    using that a unfolding cached_ok_def by (auto simp: reference_refs ListingCacheSizeOf_def)
  ultimately show ?thesis using inv unfolding listing_inv_def by simp
qed

lemma publish_insert_spec:
  assumes inv: "listing_inv nls ext s" and i: "i = bucket_index nls (L_Path new)" and ne: "L_Path new \<noteq> []"
    and fresh: "\<And>e. e \<in> set (listing_list s i) \<Longrightarrow> \<not> RtlEqualUnicodeString nls (L_Path e) (L_Path new)"
    and li: "Infos s (L_Listing new) = Some li" and ok: "cached_ok (Infos s) new"
  shows "if ListingBytes s + L_Bytes new \<le> LISTING_CACHE_MAX_BYTES
         then listing_inv nls ext (publish_insert i new s) \<and> listing_frame s (publish_insert i new s) \<and>
              (\<forall>j < 256. listing_list (publish_insert i new s) j =
                 (if j = i then listing_list s i @ [new] else listing_list s j))
         else publish_insert i new s = s"
proof (cases "ListingBytes s + L_Bytes new \<le> LISTING_CACHE_MAX_BYTES")
  case False
  then show ?thesis by (simp add: publish_insert_def ListingCacheCharge_def)
next
  case True
  let ?a = "L_Listing new" and ?s = "publish_insert i new s" and ?b = "ListingBuckets s ! i"
  let ?nb = "?b\<lparr>B_List := B_List ?b @ [new], B_Count := B_Count ?b + 1\<rparr>"
  have lt: "i < 256" using i by simp
  have eq: "?s = s\<lparr>ListingBytes := ListingBytes s + L_Bytes new,
      Infos := BlorgReferenceDirectoryInfo ?a (Infos s), ListingBuckets := (ListingBuckets s)[i := ?nb]\<rparr>"
    using True by (simp add: publish_insert_def ListingCacheCharge_def Let_def)
  have nb: "bucket_ok L_Path nls i ?nb"
    by (rule bucket_ok_append) (use inv lt i ne fresh in \<open>auto simp: listing_inv_def\<close>)
  have sums: "cache_refs ?s a = cache_refs s a + (if a = ?a then 1 else 0)" "held_bytes ?s = held_bytes s + L_Bytes new" for a
  proof -
    let ?t = "s\<lparr>ListingBuckets := (ListingBuckets s)[i := ?nb]\<rparr>"
    have "cache_refs ?s a = cache_refs ?t a" "held_bytes ?s = held_bytes ?t"
      by (simp_all add: eq cache_refs_def held_bytes_def)
    then show "cache_refs ?s a = cache_refs s a + (if a = ?a then 1 else 0)" "held_bytes ?s = held_bytes s + L_Bytes new"
      using lt inv by (simp_all add: cache_refs_update held_bytes_update)
  qed
  have heap: "Infos ?s = (Infos s)(?a \<mapsto> li\<lparr>RefCount := RefCount li + 1\<rparr>)"
    by (simp add: eq reference_refs [of "Infos s" ?a li] li)
  have lists: "\<forall>j < 256. listing_list ?s j = (if j = i then listing_list s i @ [new] else listing_list s j)"
    using inv lt by (simp add: eq nth_list_update)
  have "refs_ok ext ?s"
    unfolding refs_ok_def
  proof (intro allI)
    fix b
    have "0 \<le> ext b \<and> (case Infos s b of None \<Rightarrow> ext b + cache_refs s b = 0
        | Some li \<Rightarrow> RefCount li = ext b + cache_refs s b \<and> 0 < RefCount li)"
      using inv unfolding listing_inv_def refs_ok_def by blast
    then show "0 \<le> ext b \<and> (case Infos ?s b of None \<Rightarrow> ext b + cache_refs ?s b = 0
        | Some li \<Rightarrow> RefCount li = ext b + cache_refs ?s b \<and> 0 < RefCount li)"
      using li by (auto simp: heap sums(1) split: option.splits)
  qed
  moreover have "\<forall>j < 256. bucket_ok L_Path nls j (ListingBuckets ?s ! j) \<and> (\<forall>e\<in>set (listing_list ?s j). cached_ok (Infos ?s) e)"
  proof (intro allI impI conjI ballI)
    fix j :: nat assume j: "j < 256"
    show "bucket_ok L_Path nls j (ListingBuckets ?s ! j)"
      using inv nb j unfolding listing_inv_def by (cases "j = i") (simp_all add: eq)
    fix e assume "e \<in> set (listing_list ?s j)"
    then have "cached_ok (Infos s) e"
      using lists j inv ok unfolding listing_inv_def by (cases "j = i") auto
    then show "cached_ok (Infos ?s) e"
      using li unfolding cached_ok_def heap by (auto simp: ListingCacheSizeOf_def)
  qed
  moreover have "ListingBytes ?s = held_bytes ?s" "ListingBytes ?s \<le> LISTING_CACHE_MAX_BYTES"
    "length (ListingBuckets ?s) = 256"
    using inv True unfolding sums(2) listing_inv_def by (simp_all add: eq)
  ultimately have "listing_inv nls ext ?s" unfolding listing_inv_def by blast
  moreover have "listing_frame s ?s"
  proof -
    have "?s = s\<lparr>ListingBuckets := (ListingBuckets s)[i := ?nb], ListingBytes := ListingBytes s + L_Bytes new,
        Infos := BlorgReferenceDirectoryInfo ?a (Infos s)\<rparr>" by (simp add: eq)
    then show ?thesis unfolding listing_frame_def by blast
  qed
  ultimately show ?thesis using True lists by simp
qed

text \<open>The bytes held outside one bucket.\<close>

definition other_bytes :: "PATH_CACHE_STATE \<Rightarrow> nat \<Rightarrow> int" where
  "other_bytes s i = held_bytes s - sum_list (map L_Bytes (listing_list s i))"

lemma trimmed_other_bytes:
  assumes "trimmed nls ext i s s'" "length (ListingBuckets s) = 256" "i < 256"
  shows "other_bytes s' i = other_bytes s i"
proof -
  let ?f = "\<lambda>b. sum_list (map L_Bytes (B_List b))"
  have len: "length (ListingBuckets s') = 256" using trimmed_inv [OF assms(1)] by simp
  have "map ?f (ListingBuckets s') = (map ?f (ListingBuckets s))[i := ?f (ListingBuckets s' ! i)]"
  proof (rule nth_equalityI)
    fix j assume "j < length (map ?f (ListingBuckets s'))"
    then show "map ?f (ListingBuckets s') ! j = (map ?f (ListingBuckets s))[i := ?f (ListingBuckets s' ! i)] ! j"
      using assms len unfolding trimmed_def by (auto simp: nth_list_update)
  qed (use assms(2) len in simp)
  then have "held_bytes s' = held_bytes s - ?f (ListingBuckets s ! i) + ?f (ListingBuckets s' ! i)"
    using sum_list_map_update [of i "map ?f (ListingBuckets s)" "\<lambda>x. x"] assms(2,3) by (simp add: held_bytes_def)
  then show ?thesis by (simp add: other_bytes_def)
qed

lemma publish_evict_fits:
  assumes inv: "listing_inv nls ext s" and i: "i < 256" and n: "0 \<le> bytes"
  shows "ListingBytes (publish_evict i bytes s) + bytes \<le> LISTING_CACHE_MAX_BYTES \<longleftrightarrow>
         other_bytes s i + bytes \<le> LISTING_CACHE_MAX_BYTES"
proof -
  let ?s = "publish_evict i bytes s"
  note t = publish_evict_trimmed [OF inv i, of bytes]
  have held: "ListingBytes s = held_bytes s" "ListingBytes ?s = held_bytes ?s"
    using inv trimmed_inv [OF t] by (simp_all add: listing_inv_def)
  have same: "other_bytes ?s i = other_bytes s i" using t inv i by (intro trimmed_other_bytes) simp_all
  have "0 \<le> sum_list (map L_Bytes (listing_list ?s i))"
    using trimmed_inv [OF t] i unfolding listing_inv_def cached_ok_def by (intro sum_list_nonneg) auto
  then have le: "other_bytes s i \<le> ListingBytes ?s" using same held unfolding other_bytes_def by linarith
  show ?thesis
  proof (cases "other_bytes s i + bytes \<le> LISTING_CACHE_MAX_BYTES")
    case True
    define u where "u = (if LISTING_CACHE_MAX_PER_BUCKET \<le> B_Count (ListingBuckets s ! i) \<and> listing_list s i \<noteq> []
        then ListingCacheRemoveEntry i (hd (listing_list s i)) s else s)"
    have u: "listing_inv nls ext u"
      using listing_inv_remove [OF inv i] inv by (simp add: u_def)
    have eq: "?s = evict_over i bytes (listing_list u i) u"
      using True held(1) unfolding publish_evict_def Let_def u_def [symmetric] by (simp add: other_bytes_def)
    from evict_over_trimmed [OF u i refl, of bytes] consider
      "ListingBytes ?s + bytes \<le> LISTING_CACHE_MAX_BYTES" | "listing_list ?s i = []" unfolding eq by blast
    then have "ListingBytes ?s + bytes \<le> LISTING_CACHE_MAX_BYTES"
    proof cases
      case 2
      then have "other_bytes ?s i = ListingBytes ?s" using held(2) by (simp add: other_bytes_def)
      with same True show ?thesis by simp
    qed
    with True show ?thesis by simp
  next
    case False
    with le show ?thesis by simp
  qed
qed

lemma held_present:
  assumes "refs_ok ext s" "0 < ext a"
  shows "\<exists>li. Infos s a = Some li"
proof (cases "Infos s a")
  case None
  then have "ext a + cache_refs s a = 0"
    using spec [OF assms(1) [unfolded refs_ok_def], of a] by simp
  with assms(2) count_list_nonneg_refs [of s a] show ?thesis by simp
qed simp

text \<open>
  The first half of a publish whose ticket is honoured: the walk and the removal of the entry it
  replaces. The verdict is that no live entry of the directory was fetched later.
\<close>

lemma publish_replace:
  fixes issueTime :: ULONG64
  assumes inv: "listing_inv nls ext s" and lt: "i < 256"
    and w: "publish_walk nls dir live i (listing_list s i) None s = (ex, s1)"
  defines "s2 \<equiv> (case ex of None \<Rightarrow> s1 | Some e \<Rightarrow> if L_IssueTime e > issueTime then s1 else ListingCacheRemoveEntry i e s1)"
    and "cur \<equiv> (case ex of None \<Rightarrow> True | Some e \<Rightarrow> \<not> L_IssueTime e > issueTime)"
  shows "trimmed nls ext i s s2 \<and>
         (cur \<longleftrightarrow> \<not> (\<exists>e\<in>set (listing_list s i). RtlEqualUnicodeString nls (L_Path e) dir \<and> live e \<and> L_IssueTime e > issueTime)) \<and>
         (cur \<longrightarrow> (\<forall>e\<in>set (listing_list s2 i). \<not> RtlEqualUnicodeString nls (L_Path e) dir))"
proof -
  note walk = publish_walk_spec [OF inv lt subset_refl listing_inv_distinct [OF inv lt] w]
  have t1: "trimmed nls ext i s s1" using walk by blast
  have uniq: "e = e'" if "e \<in> set (listing_list s i)" "e' \<in> set (listing_list s i)"
      "RtlEqualUnicodeString nls (L_Path e) dir" "RtlEqualUnicodeString nls (L_Path e') dir" for e e'
    using inv lt that equal_sym equal_trans bucket_ok_unique [of L_Path nls i "ListingBuckets s ! i" e e']
    unfolding listing_inv_def by metis
  have live1: "\<forall>e\<in>set (listing_list s1 i). e \<in> set (listing_list s i) \<and> live e"
    using walk unfolding trimmed_def by blast
  consider (none) "ex = None" "\<forall>e\<in>set (listing_list s i). live e \<longrightarrow> \<not> RtlEqualUnicodeString nls (L_Path e) dir"
    | (found) x where "ex = Some x" "x \<in> set (listing_list s i)" "live x" "RtlEqualUnicodeString nls (L_Path x) dir"
    using walk by blast
  then show ?thesis
  proof cases
    case none
    then show ?thesis using t1 live1 by (auto simp: s2_def cur_def)
  next
    case found
    then have x1: "x \<in> set (listing_list s1 i)" using walk by auto
    note rem = trimmed_remove [OF trimmed_inv [OF t1] lt x1]
    have "cur \<longleftrightarrow> \<not> (\<exists>e\<in>set (listing_list s i). RtlEqualUnicodeString nls (L_Path e) dir \<and> live e \<and> L_IssueTime e > issueTime)"
      using found uniq unfolding cur_def by auto
    moreover have "trimmed nls ext i s s2"
      using t1 trimmed_trans [OF t1 rem(1)] found(1) by (simp add: s2_def)
    moreover have "\<not> RtlEqualUnicodeString nls (L_Path e) dir" if "cur" "e \<in> set (listing_list s2 i)" for e
    proof -
      have "listing_list s2 i = remove1 x (listing_list s1 i)" using that(1) found(1) rem(2) by (simp add: s2_def cur_def)
      moreover have "distinct (listing_list s1 i)" using trimmed_inv [OF t1] lt by (rule listing_inv_distinct)
      ultimately have "e \<noteq> x" "e \<in> set (listing_list s1 i)" using that(2) by (simp_all add: set_remove1_eq)
      with live1 uniq found show ?thesis by blast
    qed
    ultimately show ?thesis by blast
  qed
qed

text \<open>The second half: eviction, the charge and the insertion.\<close>

lemma publish_keep:
  assumes t2: "trimmed nls ext i s s2" and inv: "listing_inv nls ext s" and i: "i = bucket_index nls (L_Path new)"
    and ne: "L_Path new \<noteq> []" and ext: "0 < ext (L_Listing new)"
    and fresh: "\<forall>e\<in>set (listing_list s2 i). \<not> RtlEqualUnicodeString nls (L_Path e) (L_Path new)"
    and li: "Infos s (L_Listing new) = Some li" and ok: "cached_ok (Infos s) new"
    and s': "s' = publish_insert i new (publish_evict i (L_Bytes new) s2)"
  shows "listing_inv nls ext s' \<and> listing_frame s s' \<and>
         (\<forall>j < 256. \<forall>e\<in>set (listing_list s' j). e \<in> set (listing_list s j) \<or> j = i \<and> e = new) \<and>
         (other_bytes s i + L_Bytes new \<le> LISTING_CACHE_MAX_BYTES \<longrightarrow> new \<in> set (listing_list s' i))"
proof -
  let ?s3 = "publish_evict i (L_Bytes new) s2"
  have lt: "i < 256" using i by simp
  have t3: "trimmed nls ext i s2 ?s3" by (rule publish_evict_trimmed [OF trimmed_inv [OF t2] lt])
  have t: "trimmed nls ext i s ?s3" using t2 t3 by (rule trimmed_trans)
  obtain li3 where li3: "Infos ?s3 (L_Listing new) = Some li3"
    using held_present [of ext ?s3] trimmed_inv [OF t] ext unfolding listing_inv_def by blast
  with t li have same: "li3 = li\<lparr>RefCount := RefCount li3\<rparr>"
    unfolding trimmed_def info_frame_def by fastforce
  have cached: "cached_ok (Infos ?s3) new"
  proof -
    have "L_Bytes new = ListingCacheSizeOf li" "\<not> DI_NoStore li" "Descendants li = []" "0 \<le> L_Bytes new"
      using ok li by (simp_all add: cached_ok_def)
    moreover have "DI_Bytes li3 = DI_Bytes li" "DI_NoStore li3 = DI_NoStore li" "Descendants li3 = Descendants li"
      using arg_cong [OF same, of DI_Bytes] arg_cong [OF same, of DI_NoStore] arg_cong [OF same, of Descendants]
      by simp_all
    ultimately show ?thesis unfolding cached_ok_def li3 by (simp add: ListingCacheSizeOf_def)
  qed
  have sub: "\<forall>j < 256. set (listing_list ?s3 j) \<subseteq> set (listing_list s j)"
    using t lt unfolding trimmed_def by (metis order_refl)
  have fresh3: "\<And>e. e \<in> set (listing_list ?s3 i) \<Longrightarrow> \<not> RtlEqualUnicodeString nls (L_Path e) (L_Path new)"
    using fresh t3 unfolding trimmed_def by blast
  note ins = publish_insert_spec [OF trimmed_inv [OF t] i ne fresh3 li3 cached, folded s']
  have "0 \<le> L_Bytes new" using ok by (simp add: cached_ok_def)
  then have fits: "ListingBytes ?s3 + L_Bytes new \<le> LISTING_CACHE_MAX_BYTES \<longleftrightarrow> other_bytes s i + L_Bytes new \<le> LISTING_CACHE_MAX_BYTES"
    using publish_evict_fits [OF trimmed_inv [OF t2] lt] trimmed_other_bytes [OF t2 _ lt] inv by simp
  have frame: "listing_frame s ?s3" using t by (simp add: trimmed_def)
  show ?thesis
  proof (cases "ListingBytes ?s3 + L_Bytes new \<le> LISTING_CACHE_MAX_BYTES")
    case True
    have lists: "\<And>j. j < 256 \<Longrightarrow> listing_list s' j = (if j = i then listing_list ?s3 i @ [new] else listing_list ?s3 j)"
      and "listing_inv nls ext s'" "listing_frame ?s3 s'" using ins True by auto
    moreover have "\<forall>j < 256. \<forall>e\<in>set (listing_list s' j). e \<in> set (listing_list s j) \<or> j = i \<and> e = new"
      using lists sub by (auto split: if_splits)
    moreover have "new \<in> set (listing_list s' i)" using lists [OF lt] by simp
    ultimately show ?thesis using listing_frame_trans [OF frame] by blast
  next
    case False
    then have "s' = ?s3" using ins by simp
    with sub frame trimmed_inv [OF t] False fits show ?thesis by (simp add: subset_iff)
  qed
qed

lemma publish_locked_spec:
  fixes ticket :: "PATH_CACHE_TICKET option" and now :: ULONG64
  defines "issueTime \<equiv> (case ticket of Some t \<Rightarrow> T_IssueTime t | None \<Rightarrow> now)"
  assumes inv: "listing_inv nls ext s" and dir: "dir \<noteq> []" and ext: "0 < ext a"
    and li: "Infos s a = Some li" "Descendants li = []" "\<not> DI_NoStore li" "bytes = ListingCacheSizeOf li" "0 \<le> bytes"
    and res: "publish_locked nls pool dir a bytes ticket now lifetime generation s = (current, s')"
  shows "listing_inv nls ext s' \<and> listing_frame s s' \<and>
         (\<forall>j < 256. \<forall>e\<in>set (listing_list s' j). e \<in> set (listing_list s j) \<or>
            PathCacheTicketHonoured ticket s \<and> j = bucket_index nls dir \<and> L_Path e = dir \<and>
            L_Listing e = a \<and> L_Generation e = generation \<and> L_IssueTime e = issueTime \<and>
            L_Sequence e = (case ticket of Some t \<Rightarrow> T_Sequence t | None \<Rightarrow> Sequence s)) \<and>
         (current \<longleftrightarrow> PathCacheTicketHonoured ticket s \<and>
            \<not> (\<exists>e\<in>set (listing_list s (bucket_index nls dir)). RtlEqualUnicodeString nls (L_Path e) dir \<and>
                 ListingCacheEntryLive e now generation lifetime \<and> L_IssueTime e > issueTime)) \<and>
         (current \<and> pool \<and> other_bytes s (bucket_index nls dir) + bytes \<le> LISTING_CACHE_MAX_BYTES \<longrightarrow>
            (\<exists>e\<in>set (listing_list s' (bucket_index nls dir)). L_Path e = dir \<and> L_Listing e = a \<and>
               L_Generation e = generation \<and> L_IssueTime e = issueTime \<and>
               L_Sequence e = (case ticket of Some t \<Rightarrow> T_Sequence t | None \<Rightarrow> Sequence s))) \<and>
         (\<not> PathCacheTicketHonoured ticket s \<longrightarrow> s' = s)"
proof (cases "PathCacheTicketHonoured ticket s")
  case False
  then have "current = False \<and> s' = s" using res unfolding publish_locked_def Let_def by simp
  with False inv show ?thesis by simp
next
  case honoured: True
  let ?i = "bucket_index nls dir" and ?live = "\<lambda>e. ListingCacheEntryLive e now generation lifetime"
  define new where "new = \<lparr>L_Path = dir, L_Listing = a, L_Bytes = bytes, L_IssueTime = issueTime,
      L_Sequence = (case ticket of Some t \<Rightarrow> T_Sequence t | None \<Rightarrow> Sequence s),
      L_Generation = generation, L_RefreshClaimed = False\<rparr>"
  obtain ex s1 where w: "publish_walk nls dir ?live ?i (listing_list s ?i) None s = (ex, s1)" by fastforce
  define s2 where "s2 = (case ex of None \<Rightarrow> s1 | Some e \<Rightarrow> if L_IssueTime e > issueTime then s1 else ListingCacheRemoveEntry ?i e s1)"
  define cur where "cur = (case ex of None \<Rightarrow> True | Some e \<Rightarrow> \<not> L_IssueTime e > issueTime)"
  have r: "current = cur" "s' = (if cur \<and> pool then publish_insert ?i new (publish_evict ?i bytes s2) else s2)"
    using res honoured w unfolding publish_locked_def Let_def issueTime_def [symmetric] new_def s2_def cur_def
    by (auto split: option.splits if_splits)
  note replace = publish_replace [OF inv bucket_index_less w, of issueTime, folded s2_def cur_def]
  have new: "L_Path new = dir" "L_Listing new = a" "L_Generation new = generation" "L_IssueTime new = issueTime"
    "L_Sequence new = (case ticket of Some t \<Rightarrow> T_Sequence t | None \<Rightarrow> Sequence s)" "L_Bytes new = bytes"
    by (simp_all add: new_def)
  show ?thesis
  proof (cases "cur \<and> pool")
    case False
    have "s' = s2" unfolding r(2) by (rule if_not_P [OF False])
    moreover have "\<forall>j < 256. \<forall>e\<in>set (listing_list s2 j). e \<in> set (listing_list s j)"
      using replace unfolding trimmed_def by (metis subsetD)
    ultimately show ?thesis using replace False honoured r(1) unfolding trimmed_def by blast
  next
    case True
    have cached: "cached_ok (Infos s) new" using li by (simp add: cached_ok_def new)
    have s': "s' = publish_insert ?i new (publish_evict ?i (L_Bytes new) s2)"
      unfolding r(2) new(6) by (rule if_P [OF True])
    have args: "?i = bucket_index nls (L_Path new)" "L_Path new \<noteq> []" "0 < ext (L_Listing new)"
      "Infos s (L_Listing new) = Some li"
      "\<forall>e\<in>set (listing_list s2 ?i). \<not> RtlEqualUnicodeString nls (L_Path e) (L_Path new)"
      unfolding new using dir ext li(1) replace True by blast+
    note kept = publish_keep [OF conjunct1 [OF replace] inv args(1,2,3,5,4) cached s', unfolded new(6)]
    have keep: "listing_inv nls ext s'" "listing_frame s s'"
      "\<And>j e. j < 256 \<Longrightarrow> e \<in> set (listing_list s' j) \<Longrightarrow> e \<in> set (listing_list s j) \<or> j = ?i \<and> e = new"
      "other_bytes s ?i + bytes \<le> LISTING_CACHE_MAX_BYTES \<Longrightarrow> new \<in> set (listing_list s' ?i)"
      using kept by blast+
    show ?thesis
      using keep(1,2) conjunct1 [OF conjunct2 [OF replace]] honoured r(1) True
      by (intro conjI allI ballI impI) (auto dest!: keep(3) simp: new intro!: bexI [of _ new] keep(4))
  qed
qed

end
