(* ===== verification/Path_Cache_Paths.thy ===== *)
theory Path_Cache_Paths
  imports Path_Cache Nt_Strings
begin

text \<open>
  The path functions of PathCache.c against what they are meant to compute: the parent of a path,
  the paths at or beneath a directory, and its direct children.
\<close>

lemma with_separator_eq: "dir \<noteq> [] \<Longrightarrow> with_separator dir = (if ends_with_separator dir then dir else dir @ [backslash])"
  by (auto simp: with_separator_def ends_with_separator_def)

lemma PathCacheIsComponent_iff:
  "PathCacheIsComponent name \<longleftrightarrow> name \<noteq> [] \<and> length name < MAX_NAME_LEN \<and> backslash \<notin> set name"
  by (auto simp: PathCacheIsComponent_def list_all_iff not_le)

section \<open>The parent\<close>

lemma last_separator_bounds:
  "n \<le> length path \<Longrightarrow> last_separator path n \<le> n \<and>
     (\<forall>i. last_separator path n \<le> i \<and> i < n \<longrightarrow> path ! i \<noteq> backslash) \<and>
     (last_separator path n \<noteq> 0 \<longrightarrow> path ! (last_separator path n - 1) = backslash)"
proof (induction n)
  case (Suc n)
  then show ?case by (auto simp: less_Suc_eq)
qed simp

lemma last_separator_append:
  assumes "backslash \<notin> set name"
  shows "last_separator (d @ backslash # name) (length d + 1 + length name) = length d + 1"
proof -
  have "last_separator (d @ backslash # name) (length d + 1 + n) = length d + 1" if "n \<le> length name" for n
    using that
  proof (induction n)
    case (Suc n)
    have "(d @ backslash # name) ! (length d + 1 + n) = name ! n" by (simp add: nth_append)
    moreover have "name ! n \<noteq> backslash" using Suc.prems assms by (metis Suc_le_lessD nth_mem)
    ultimately show ?case using Suc by simp
  qed simp
  then show ?thesis by simp
qed

text \<open>A component appended to a directory, and its parent: the two functions agree.\<close>

lemma PathCacheParent_child:
  assumes "name \<noteq> []" "backslash \<notin> set name" "d \<noteq> []" "\<not> ends_with_separator d \<or> d = [backslash]"
  shows "PathCacheParent (with_separator d @ name) = Some d"
proof (cases "d = [backslash]")
  case True
  have "last_separator (backslash # name) (length (backslash # name)) = 1"
    using last_separator_append [OF assms(2), of "[]"] by simp
  with True assms show ?thesis
    by (simp add: with_separator_def PathCacheParent_def Let_def del: last_separator.simps)
next
  case False
  with assms have w: "with_separator d @ name = d @ backslash # name" by (simp add: with_separator_eq)
  have "last_separator (d @ backslash # name) (length (d @ backslash # name)) = length d + 1"
    using last_separator_append [OF assms(2), of d] by simp
  then show ?thesis unfolding PathCacheParent_def Let_def w using assms by simp
qed

lemma PathCacheParent_root: "PathCacheParent [backslash] = None"
  by (simp add: PathCacheParent_def)

section \<open>Beneath a directory\<close>

lemma PathCacheIsUnder_iff:
  assumes "nls_ok nls" "dir \<noteq> []"
  shows "PathCacheIsUnder nls dir path \<longleftrightarrow>
         RtlEqualUnicodeString nls dir path \<or> RtlPrefixUnicodeString nls (with_separator dir) path"
proof (cases "ends_with_separator dir")
  case True
  then have "PathCacheIsUnder nls dir path \<longleftrightarrow> RtlPrefixUnicodeString nls (with_separator dir) path"
    using assms(2) by (auto simp: PathCacheIsUnder_def RtlPrefixUnicodeString_def with_separator_eq)
  moreover have "RtlPrefixUnicodeString nls (with_separator dir) path" if "RtlEqualUnicodeString nls dir path"
    using that True assms(2) equal_length [OF that] by (simp add: RtlPrefixUnicodeString_def with_separator_eq)
  ultimately show ?thesis by blast
next
  case False
  have up: "RtlUpcaseUnicodeChar nls c = backslash \<longleftrightarrow> c = backslash" for c
    using assms(1) unfolding nls_ok_def by blast
  have sep: "RtlEqualUnicodeString nls (dir @ [backslash]) (take (length dir + 1) path) \<longleftrightarrow>
      RtlEqualUnicodeString nls dir (take (length dir) path) \<and> path ! length dir = backslash"
    if "length dir < length path"
  proof -
    have "take (length dir + 1) path = take (length dir) path @ [path ! length dir]"
      using that by (simp add: take_Suc_conv_app_nth)
    moreover have "RtlUpcaseUnicodeChar nls backslash = backslash" using up by blast
    then have "RtlUpcaseUnicodeChar nls backslash = RtlUpcaseUnicodeChar nls c \<longleftrightarrow> c = backslash" for c
      using up by metis
    ultimately show ?thesis by (simp add: RtlEqualUnicodeString_def)
  qed
  show ?thesis
    using False assms(2) sep
    by (cases "length path = length dir")
      (auto simp: PathCacheIsUnder_def RtlPrefixUnicodeString_def with_separator_eq dest: equal_length)
qed

lemma PathCacheIsUnder_equal:
  assumes "nls_ok nls" "dir \<noteq> []" "RtlEqualUnicodeString nls p q"
  shows "PathCacheIsUnder nls dir p = PathCacheIsUnder nls dir q"
  unfolding PathCacheIsUnder_iff [OF assms(1,2)] equal_subst [OF assms(3)] prefix_equal [OF assms(3)] by (rule refl)

lemma PathCacheIsUnder_child:
  assumes "dir \<noteq> []"
  shows "PathCacheIsUnder nls dir (with_separator dir @ name)"
  using assms
  by (auto simp: PathCacheIsUnder_def RtlPrefixUnicodeString_def with_separator_eq nth_append)

lemma PathCacheIsBelowChild_child:
  assumes "dir \<noteq> []" "backslash \<notin> set name"
  shows "\<not> PathCacheIsBelowChild dir (with_separator dir @ name)"
proof -
  let ?k = "length (with_separator dir)"
  have k: "?k = (if ends_with_separator dir then length dir else length dir + 1)"
    using assms(1) by (simp add: with_separator_eq)
  have "(with_separator dir @ name) ! i \<noteq> backslash" if "?k \<le> i" "i < ?k + length name" for i
  proof -
    have "(with_separator dir @ name) ! i = name ! (i - ?k)" using that(1) by (simp add: nth_append)
    moreover have "i - ?k < length name" using that by simp
    ultimately show ?thesis using assms(2) by (metis nth_mem)
  qed
  then show ?thesis unfolding PathCacheIsBelowChild_def k [symmetric] by (auto simp: list_ex_iff)
qed

end
