(* ===== verification/Path_Cache_Protocol.thy ===== *)
theory Path_Cache_Protocol
  imports Path_Cache_Ops Path_Cache_Paths
begin

text \<open>
  The caches under concurrency. An invalidation advances the sequence and then runs its parts,
  each a critical section of one bucket or the bump of the generation; readers take tickets,
  sample the generation, insert and publish. The step relation interleaves these at the grain of
  critical sections: a section reads the sequence once, at its ticket test, and everything after
  that test touches only the bucket whose lock it holds, so it may be taken to happen there.

  The world carries, beside the caches, what threads hold (tickets, sampled generations,
  references to listings) and the history of invalidations. The result is the protocol's promise:
  what a lookup finds was read under a ticket no older than any completed invalidation of its
  path.
\<close>

section \<open>Invalidations as sequences of critical sections\<close>

datatype target = One UNICODE_STRING | Prefix UNICODE_STRING | Everything

datatype part =
    PathOne UNICODE_STRING
  | PathUnder UNICODE_STRING nat
  | ListOne UNICODE_STRING
  | ListUnder UNICODE_STRING nat
  | ListAll nat
  | Bump

fun parts :: "target \<Rightarrow> part list" where
  "parts (One path) = [PathOne path, ListOne path] @ map ListOne (case PathCacheParent path of None \<Rightarrow> [] | Some p \<Rightarrow> [p])"
| "parts (Prefix dir) =
     map (PathUnder dir) [0..<PATH_CACHE_BUCKETS] @ map (ListUnder dir) [0..<LISTING_CACHE_BUCKETS] @
     map ListOne (case PathCacheParent dir of None \<Rightarrow> [] | Some p \<Rightarrow> [p])"
| "parts Everything = Bump # map ListAll [0..<LISTING_CACHE_BUCKETS]"

fun run_part :: "NLS \<Rightarrow> part \<Rightarrow> PATH_CACHE_STATE \<Rightarrow> PATH_CACHE_STATE" where
  "run_part nls (PathOne path) s = path_drop nls path s"
| "run_part nls (PathUnder dir i) s = sweep_paths (\<lambda>e. PathCacheIsUnder nls dir (E_Path e)) i s"
| "run_part nls (ListOne path) s = ListingCacheDrop nls path s"
| "run_part nls (ListUnder dir i) s = sweep_listings (\<lambda>e. PathCacheIsUnder nls dir (L_Path e)) i s"
| "run_part nls (ListAll i) s = sweep_listings (\<lambda>_. True) i s"
| "run_part nls Bump s = s\<lparr>Generation := Generation s + 1\<rparr>"

text \<open>The operations of the code are the advance followed by their parts, in order.\<close>

lemma fold_map_parts: "fold (run_part nls) (map f xs) s = fold (\<lambda>x. run_part nls (f x)) xs s"
  by (simp add: fold_map o_def)

lemma drop_parent_parts:
  "fold (run_part nls) (map ListOne (case PathCacheParent path of None \<Rightarrow> [] | Some p \<Rightarrow> [p])) s =
   ListingCacheDropParent nls path s"
  by (simp add: ListingCacheDropParent_def split: option.split)

lemma BlorgPathCacheInvalidate_parts:
  assumes "Ready s" "path \<noteq> []"
  shows "BlorgPathCacheInvalidate nls path s = fold (run_part nls) (parts (One path)) (PathCacheAdvanceSequence s)"
  using assms unfolding BlorgPathCacheInvalidate_def Let_def parts.simps fold_append o_apply drop_parent_parts by simp

lemma BlorgPathCacheInvalidatePrefix_parts:
  assumes "Ready s" "dir \<noteq> []"
  shows "BlorgPathCacheInvalidatePrefix nls dir s = fold (run_part nls) (parts (Prefix dir)) (PathCacheAdvanceSequence s)"
proof -
  have "(\<lambda>x. run_part nls (PathUnder dir x)) = sweep_paths (\<lambda>e. PathCacheIsUnder nls dir (E_Path e))"
    "(\<lambda>x. run_part nls (ListUnder dir x)) = sweep_listings (\<lambda>e. PathCacheIsUnder nls dir (L_Path e))"
    by (simp_all add: fun_eq_iff)
  with assms show ?thesis
    unfolding BlorgPathCacheInvalidatePrefix_def Let_def parts.simps fold_append o_apply drop_parent_parts fold_map_parts
      PathCacheInvalidateUnder_def ListingCacheDropUnder_def
    by (simp add: drop_parent_parts [unfolded fold_map_parts, symmetric])
qed

lemma BlorgPathCacheInvalidateAll_parts:
  assumes "Ready s"
  shows "BlorgPathCacheInvalidateAll nls s = fold (run_part nls) (parts Everything) (PathCacheAdvanceSequence s)"
proof -
  have "(\<lambda>x. run_part nls (ListAll x)) = sweep_listings (\<lambda>_. True)" by (simp add: fun_eq_iff)
  with assms show ?thesis
    unfolding BlorgPathCacheInvalidateAll_def Let_def parts.simps fold_Cons o_apply fold_map_parts ListingCacheDropUnder_def
    by (simp add: PathCacheAdvanceSequence_def)
qed

section \<open>The world\<close>

record invalidation =
  I_Target :: target
  I_Sequence :: nat
  I_Todo :: "part list"
  I_Did :: "part set"
  I_Generation :: nat

record cache_world =
  W_Cache :: PATH_CACHE_STATE
  W_Ext :: "nat \<Rightarrow> int"
  W_Tickets :: "PATH_CACHE_TICKET set"
  W_Generations :: "ULONG set"
  W_Running :: "nat \<rightharpoonup> invalidation"
  W_Done :: "invalidation set"
  W_Feed :: nat

definition begin_invalidation :: "target \<Rightarrow> PATH_CACHE_STATE \<Rightarrow> invalidation" where
  "begin_invalidation target s =
     \<lparr>I_Target = target, I_Sequence = Suc (unat (Sequence s)), I_Todo = parts target, I_Did = {}, I_Generation = 0\<rparr>"

definition advance_invalidation :: "NLS \<Rightarrow> invalidation \<Rightarrow> PATH_CACHE_STATE \<Rightarrow> invalidation" where
  "advance_invalidation nls iv s =
     iv\<lparr>I_Todo := tl (I_Todo iv), I_Did := insert (hd (I_Todo iv)) (I_Did iv),
         I_Generation := (if hd (I_Todo iv) = Bump then Suc (unat (Generation s)) else I_Generation iv)\<rparr>"

text \<open>
  One step of one thread. \<open>put\<close> and \<open>publish\<close> use a ticket and a generation obtained earlier;
  \<open>drop_paths\<close> and \<open>drop_listings\<close> are the sweeps that are not part of an invalidation (seeding,
  the reaping of dead listings), of which only that they remove entries is used; \<open>fetch\<close>,
  \<open>reference\<close> and \<open>release\<close> are the listings' users outside the cache. The counters are assumed not
  to have gone round: a 64-bit sequence, and 2^32 wholesale flushes in one uptime.
\<close>

inductive cache_step :: "NLS \<Rightarrow> cache_world \<Rightarrow> cache_world \<Rightarrow> bool" for nls where
  ticket: "cache_step nls w (w\<lparr>W_Tickets := insert (BlorgPathCacheTakeTicket now (W_Cache w)) (W_Tickets w)\<rparr>)"
| sample: "cache_step nls w (w\<lparr>W_Generations := insert (Generation (W_Cache w)) (W_Generations w)\<rparr>)"
| found: "find_locked nls path meta t now lifetime generation (W_Cache w) = (PathCacheExists, meta', t') \<Longrightarrow>
    cache_step nls w (w\<lparr>W_Tickets := insert t' (W_Tickets w)\<rparr>)"
| listed: "lookup_listing_locked nls dir allowStale t now lifetime generation (W_Cache w) = (r, s') \<Longrightarrow>
    R_Listing r = Some a \<Longrightarrow>
    cache_step nls w (w\<lparr>W_Cache := s', W_Ext := (W_Ext w)(a := W_Ext w a + 1),
                       W_Tickets := insert (R_Ticket r) (W_Tickets w)\<rparr>)"
| put: "t \<in> W_Tickets w \<Longrightarrow> generation \<in> W_Generations w \<Longrightarrow> path \<noteq> [] \<Longrightarrow>
    cache_step nls w (w\<lparr>W_Cache := insert_locked nls path exists meta (Some t) now lifetime generation (W_Cache w)\<rparr>)"
| publish: "t \<in> W_Tickets w \<Longrightarrow> generation \<in> W_Generations w \<Longrightarrow> dir \<noteq> [] \<Longrightarrow> 0 < W_Ext w a \<Longrightarrow>
    Infos (W_Cache w) a = Some li \<Longrightarrow> Descendants li = [] \<Longrightarrow> \<not> DI_NoStore li \<Longrightarrow>
    bytes = ListingCacheSizeOf li \<Longrightarrow> 0 \<le> bytes \<Longrightarrow>
    publish_locked nls pool dir a bytes (Some t) now lifetime generation (W_Cache w) = (current, s') \<Longrightarrow>
    cache_step nls w (w\<lparr>W_Cache := s'\<rparr>)"
| drop_paths: "i < 256 \<Longrightarrow> cache_step nls w (w\<lparr>W_Cache := sweep_paths P i (W_Cache w)\<rparr>)"
| drop_listings: "i < 256 \<Longrightarrow> cache_step nls w (w\<lparr>W_Cache := sweep_listings Q i (W_Cache w)\<rparr>)"
| start: "W_Running w k = None \<Longrightarrow> Sequence (W_Cache w) \<noteq> - 1 \<Longrightarrow>
    (case target of Prefix dir \<Rightarrow> dir \<noteq> [] | _ \<Rightarrow> True) \<Longrightarrow>
    cache_step nls w (w\<lparr>W_Cache := PathCacheAdvanceSequence (W_Cache w),
                       W_Running := (W_Running w)(k \<mapsto> begin_invalidation target (W_Cache w))\<rparr>)"
| part: "W_Running w k = Some iv \<Longrightarrow> I_Todo iv = p # todo \<Longrightarrow> (p = Bump \<longrightarrow> Generation (W_Cache w) \<noteq> - 1) \<Longrightarrow>
    cache_step nls w (w\<lparr>W_Cache := run_part nls p (W_Cache w),
                       W_Running := (W_Running w)(k \<mapsto> advance_invalidation nls iv (W_Cache w))\<rparr>)"
| finish: "W_Running w k = Some iv \<Longrightarrow> I_Todo iv = [] \<Longrightarrow>
    cache_step nls w (w\<lparr>W_Running := (W_Running w)(k := None), W_Done := insert iv (W_Done w)\<rparr>)"
| feed_up: "iv \<in> W_Done w \<Longrightarrow> I_Target iv = Everything \<Longrightarrow>
    cache_step nls w (w\<lparr>W_Cache := (W_Cache w)\<lparr>ChangeFeedLive := True\<rparr>, W_Feed := I_Sequence iv\<rparr>)"
| feed_down: "cache_step nls w (w\<lparr>W_Cache := (W_Cache w)\<lparr>ChangeFeedLive := False\<rparr>, W_Feed := 0\<rparr>)"
| fetch: "Infos (W_Cache w) a = None \<Longrightarrow> RefCount li = 1 \<Longrightarrow> Descendants li = [] \<Longrightarrow>
    cache_step nls w (w\<lparr>W_Cache := (W_Cache w)\<lparr>Infos := (Infos (W_Cache w))(a \<mapsto> li)\<rparr>, W_Ext := (W_Ext w)(a := 1)\<rparr>)"
| reference: "0 < W_Ext w a \<Longrightarrow>
    cache_step nls w (w\<lparr>W_Cache := (W_Cache w)\<lparr>Infos := BlorgReferenceDirectoryInfo a (Infos (W_Cache w))\<rparr>,
                       W_Ext := (W_Ext w)(a := W_Ext w a + 1)\<rparr>)"
| release: "0 < W_Ext w a \<Longrightarrow> Infos (W_Cache w) a = Some li \<Longrightarrow> Descendants li = [] \<Longrightarrow>
    cache_step nls w (w\<lparr>W_Cache := (W_Cache w)\<lparr>Infos := BlorgReleaseDirectoryInfo a (Infos (W_Cache w))\<rparr>,
                       W_Ext := (W_Ext w)(a := W_Ext w a - 1)\<rparr>)"

abbreviation cache_steps :: "NLS \<Rightarrow> cache_world \<Rightarrow> cache_world \<Rightarrow> bool" where
  "cache_steps nls \<equiv> (cache_step nls)\<^sup>*\<^sup>*"

definition cache_boot :: "cache_world" where
  "cache_boot = \<lparr>W_Cache = BlorgPathCacheInit
       \<lparr>Buckets = [], ListingBuckets = [], Sequence = 0, ListingBytes = 0, Ready = False, Generation = 0,
        Count = 0, ChangeFeedLive = False, Infos = Map.empty\<rparr>,
     W_Ext = (\<lambda>_. 0), W_Tickets = {}, W_Generations = {}, W_Running = Map.empty, W_Done = {}, W_Feed = 0\<rparr>"

section \<open>The invariant\<close>

text \<open>A part that has run has cleared its range of everything read before the invalidation.\<close>

fun cleared :: "NLS \<Rightarrow> PATH_CACHE_STATE \<Rightarrow> invalidation \<Rightarrow> part \<Rightarrow> bool" where
  "cleared nls s iv (PathOne path) \<longleftrightarrow>
     (\<forall>i < 256. \<forall>e\<in>set (path_list s i). RtlEqualUnicodeString nls (E_Path e) path \<longrightarrow> I_Sequence iv \<le> unat (E_Sequence e))"
| "cleared nls s iv (PathUnder dir i) \<longleftrightarrow>
     (i < 256 \<longrightarrow> (\<forall>e\<in>set (path_list s i). PathCacheIsUnder nls dir (E_Path e) \<longrightarrow> I_Sequence iv \<le> unat (E_Sequence e)))"
| "cleared nls s iv (ListOne path) \<longleftrightarrow>
     (\<forall>i < 256. \<forall>e\<in>set (listing_list s i). RtlEqualUnicodeString nls (L_Path e) path \<longrightarrow> I_Sequence iv \<le> unat (L_Sequence e))"
| "cleared nls s iv (ListUnder dir i) \<longleftrightarrow>
     (i < 256 \<longrightarrow> (\<forall>e\<in>set (listing_list s i). PathCacheIsUnder nls dir (L_Path e) \<longrightarrow> I_Sequence iv \<le> unat (L_Sequence e)))"
| "cleared nls s iv (ListAll i) \<longleftrightarrow>
     (i < 256 \<longrightarrow> (\<forall>e\<in>set (listing_list s i). I_Sequence iv \<le> unat (L_Sequence e)))"
| "cleared nls s iv Bump \<longleftrightarrow>
     (\<forall>i < 256. \<forall>e\<in>set (path_list s i). I_Sequence iv \<le> unat (E_Sequence e) \<or> unat (E_Generation e) < I_Generation iv)"

definition invalidation_ok :: "NLS \<Rightarrow> PATH_CACHE_STATE \<Rightarrow> invalidation \<Rightarrow> bool" where
  "invalidation_ok nls s iv \<longleftrightarrow>
     I_Sequence iv \<le> unat (Sequence s) \<and> I_Generation iv \<le> unat (Generation s) \<and>
     set (parts (I_Target iv)) \<subseteq> I_Did iv \<union> set (I_Todo iv) \<and>
     (\<forall>dir. I_Target iv = Prefix dir \<longrightarrow> dir \<noteq> []) \<and>
     set (I_Todo iv) \<subseteq> set (parts (I_Target iv)) \<and>
     (\<forall>p\<in>I_Did iv. cleared nls s iv p)"

definition stamps_ok :: "PATH_CACHE_STATE \<Rightarrow> bool" where
  "stamps_ok s \<longleftrightarrow>
     (\<forall>i < 256. \<forall>e\<in>set (path_list s i). unat (E_Sequence e) \<le> unat (Sequence s) \<and> unat (E_Generation e) \<le> unat (Generation s)) \<and>
     (\<forall>i < 256. \<forall>e\<in>set (listing_list s i). unat (L_Sequence e) \<le> unat (Sequence s) \<and> unat (L_Generation e) \<le> unat (Generation s))"

definition held_ok :: "cache_world \<Rightarrow> bool" where
  "held_ok w \<longleftrightarrow>
     (\<forall>t\<in>W_Tickets w. unat (T_Sequence t) \<le> unat (Sequence (W_Cache w))) \<and>
     (\<forall>g\<in>W_Generations w. unat g \<le> unat (Generation (W_Cache w)))"

definition history_ok :: "NLS \<Rightarrow> cache_world \<Rightarrow> bool" where
  "history_ok nls w \<longleftrightarrow>
     (\<forall>iv\<in>ran (W_Running w) \<union> W_Done w. invalidation_ok nls (W_Cache w) iv) \<and>
     (\<forall>iv\<in>W_Done w. I_Todo iv = []) \<and>
     (ChangeFeedLive (W_Cache w) \<longrightarrow> (\<exists>iv\<in>W_Done w. I_Target iv = Everything \<and> I_Sequence iv = W_Feed w))"

definition cache_world_ok :: "NLS \<Rightarrow> cache_world \<Rightarrow> bool" where
  "cache_world_ok nls w \<longleftrightarrow>
     path_inv nls (W_Cache w) \<and> listing_inv nls (W_Ext w) (W_Cache w) \<and> stamps_ok (W_Cache w) \<and>
     held_ok w \<and> history_ok nls w"

section \<open>Steps that add only current entries\<close>

definition evolves :: "PATH_CACHE_STATE \<Rightarrow> PATH_CACHE_STATE \<Rightarrow> bool" where
  "evolves s s' \<longleftrightarrow>
     Sequence s' = Sequence s \<and> Generation s' = Generation s \<and>
     (\<forall>i < 256. \<forall>e\<in>set (path_list s' i). e \<in> set (path_list s i) \<or>
        E_Sequence e = Sequence s \<and> unat (E_Generation e) \<le> unat (Generation s)) \<and>
     (\<forall>i < 256. \<forall>e\<in>set (listing_list s' i).
        (\<exists>x\<in>set (listing_list s i). L_Path x = L_Path e \<and> L_Sequence x = L_Sequence e \<and> L_Generation x = L_Generation e) \<or>
        L_Sequence e = Sequence s \<and> unat (L_Generation e) \<le> unat (Generation s))"

lemma evolves_stamps:
  assumes "evolves s s'" "stamps_ok s"
  shows "stamps_ok s'"
  unfolding stamps_ok_def
proof (intro conjI allI impI ballI)
  fix i :: nat and e
  assume i: "i < 256"
  {
    assume "e \<in> set (path_list s' i)"
    then consider "e \<in> set (path_list s i)" | "E_Sequence e = Sequence s" "unat (E_Generation e) \<le> unat (Generation s)"
      using assms(1) i unfolding evolves_def by blast
    then show "unat (E_Sequence e) \<le> unat (Sequence s')" "unat (E_Generation e) \<le> unat (Generation s')"
      using assms i unfolding evolves_def stamps_ok_def by (cases; simp)+
  }
next
  fix i :: nat and e
  assume i: "i < 256"
  {
    assume "e \<in> set (listing_list s' i)"
    then consider x where "x \<in> set (listing_list s i)" "L_Sequence x = L_Sequence e" "L_Generation x = L_Generation e"
      | "L_Sequence e = Sequence s" "unat (L_Generation e) \<le> unat (Generation s)"
      using assms(1) i unfolding evolves_def by blast
    then show "unat (L_Sequence e) \<le> unat (Sequence s')" "unat (L_Generation e) \<le> unat (Generation s')"
      using assms i unfolding evolves_def stamps_ok_def by (cases; metis order_refl)+
  }
qed

lemma evolves_cleared:
  assumes ev: "evolves s s'" and seq: "I_Sequence iv \<le> unat (Sequence s)" and c: "cleared nls s iv p"
  shows "cleared nls s' iv p"
proof -
  have path: "I_Sequence iv \<le> unat (E_Sequence e) \<or> e \<in> set (path_list s i)"
    if "i < 256" "e \<in> set (path_list s' i)" for i e
    using that ev seq unfolding evolves_def by metis
  have listing: "I_Sequence iv \<le> unat (L_Sequence e) \<or>
      (\<exists>x\<in>set (listing_list s i). L_Path x = L_Path e \<and> L_Sequence x = L_Sequence e)"
    if "i < 256" "e \<in> set (listing_list s' i)" for i e
    using that ev seq unfolding evolves_def by metis
  show ?thesis using c by (cases p) (simp_all, (metis path listing)+)
qed

lemma evolves_invalidation:
  assumes "evolves s s'" "invalidation_ok nls s iv"
  shows "invalidation_ok nls s' iv"
proof -
  have "\<forall>p\<in>I_Did iv. cleared nls s' iv p"
    using assms evolves_cleared [OF assms(1)] unfolding invalidation_ok_def by blast
  with assms show ?thesis unfolding invalidation_ok_def evolves_def by simp
qed

section \<open>Each critical section evolves the caches\<close>

lemma evolves_refl [simp]: "evolves s s"
  by (auto simp: evolves_def)

lemma path_frame_evolves:
  assumes "path_frame s s'"
    and "\<And>i e. i < 256 \<Longrightarrow> e \<in> set (path_list s' i) \<Longrightarrow> e \<in> set (path_list s i) \<or>
           E_Sequence e = Sequence s \<and> unat (E_Generation e) \<le> unat (Generation s)"
  shows "evolves s s'"
  using assms(2) path_frameD [OF assms(1)] unfolding evolves_def by auto

lemma listing_frame_evolves:
  assumes "listing_frame s s'"
    and "\<And>i e. i < 256 \<Longrightarrow> e \<in> set (listing_list s' i) \<Longrightarrow>
           (\<exists>x\<in>set (listing_list s i). L_Path x = L_Path e \<and> L_Sequence x = L_Sequence e \<and> L_Generation x = L_Generation e) \<or>
           L_Sequence e = Sequence s \<and> unat (L_Generation e) \<le> unat (Generation s)"
  shows "evolves s s'"
  using assms(2) listing_frameD [OF assms(1)] unfolding evolves_def by auto

lemma sweep_paths_evolves:
  assumes "path_inv nls s" "i < 256"
  shows "evolves s (sweep_paths P i s)"
  by (rule path_frame_evolves [OF sweep_paths_frame])
    (use assms in \<open>auto simp: sweep_paths_list split: if_splits\<close>)

lemma sweep_listings_evolves:
  assumes "listing_inv nls ext s" "i < 256"
  shows "evolves s (sweep_listings P i s)"
  by (rule listing_frame_evolves [OF sweep_listings_frame])
    (use assms in \<open>auto simp: sweep_listings_list split: if_splits\<close>)

lemma path_drop_evolves:
  assumes "path_inv nls s"
  shows "evolves s (path_drop nls path s)"
  by (rule path_frame_evolves [OF path_drop_frame])
    (use assms in \<open>auto simp: path_drop_list split: if_splits\<close>)

lemma listing_drop_evolves:
  assumes "listing_inv nls ext s"
  shows "evolves s (ListingCacheDrop nls dir s)"
  by (rule listing_frame_evolves [OF ListingCacheDrop_frame])
    (use assms in \<open>auto simp: listing_drop_list split: if_splits\<close>)

lemma insert_evolves:
  assumes "path_inv nls s" "nls_ok nls" "path \<noteq> []" "unat generation \<le> unat (Generation s)"
  shows "evolves s (insert_locked nls path exists meta (Some t) now lifetime generation s)"
proof (rule path_frame_evolves)
  note spec = insert_locked_spec [OF assms(1-3) refl, of exists meta "Some t" now lifetime generation]
  show "path_frame s (insert_locked nls path exists meta (Some t) now lifetime generation s)" using spec by blast
  fix i e
  assume "i < 256" "e \<in> set (path_list (insert_locked nls path exists meta (Some t) now lifetime generation s) i)"
  with spec have "e \<in> set (path_list s i) \<or> PathCacheTicketHonoured (Some t) s \<and> written exists meta (Some t) now generation s e"
    by blast
  then show "e \<in> set (path_list s i) \<or> E_Sequence e = Sequence s \<and> unat (E_Generation e) \<le> unat (Generation s)"
    using assms(4) by (auto simp: written_def PathCacheTicketHonoured_def)
qed

lemma publish_evolves:
  assumes "listing_inv nls ext s" "dir \<noteq> []" "0 < ext a" "Infos s a = Some li" "Descendants li = []"
    "\<not> DI_NoStore li" "bytes = ListingCacheSizeOf li" "0 \<le> bytes" "unat generation \<le> unat (Generation s)"
    "publish_locked nls pool dir a bytes (Some t) now lifetime generation s = (current, s')"
  shows "evolves s s' \<and> listing_inv nls ext s' \<and> listing_frame s s'"
proof -
  note spec = publish_locked_spec [OF assms(1-8,10)]
  have frame: "listing_frame s s'" using spec by blast
  moreover have "evolves s s'"
  proof (rule listing_frame_evolves [OF frame])
    fix i e assume "i < 256" "e \<in> set (listing_list s' i)"
    with spec have "e \<in> set (listing_list s i) \<or>
        PathCacheTicketHonoured (Some t) s \<and> L_Generation e = generation \<and> L_Sequence e = T_Sequence t"
      by (simp, blast)
    then show "(\<exists>x\<in>set (listing_list s i). L_Path x = L_Path e \<and> L_Sequence x = L_Sequence e \<and> L_Generation x = L_Generation e) \<or>
        L_Sequence e = Sequence s \<and> unat (L_Generation e) \<le> unat (Generation s)"
      using assms(9) by (auto simp: PathCacheTicketHonoured_def)
  qed
  ultimately show ?thesis using spec by blast
qed

lemma lookup_listing_spec:
  assumes iv: "listing_inv nls ext s" and ok: "nls_ok nls"
    and res: "lookup_listing_locked nls dir allowStale t now lifetime generation s = (r, s')" "R_Listing r = Some a"
  shows "\<exists>e\<in>set (listing_list s (bucket_index nls dir)).
           RtlEqualUnicodeString nls (L_Path e) dir \<and> ListingCacheEntryLive e now generation lifetime \<and>
           a = L_Listing e \<and> R_Ticket r = \<lparr>T_Sequence = L_Sequence e, T_IssueTime = L_IssueTime e\<rparr> \<and>
           (s' = s\<lparr>Infos := BlorgReferenceDirectoryInfo a (Infos s)\<rparr> \<or>
            s' = claim_refresh (bucket_index nls dir) e (s\<lparr>Infos := BlorgReferenceDirectoryInfo a (Infos s)\<rparr>))"
proof -
  obtain e where e: "listing_find nls dir s = Some e"
    using res by (cases "listing_find nls dir s") (auto simp: lookup_listing_locked_def)
  then have "e \<in> set (listing_list s (bucket_index nls dir)) \<and> RtlEqualUnicodeString nls (L_Path e) dir"
    using listing_find_Some [OF iv ok] by blast
  with e res show ?thesis
    by (intro bexI [of _ e]) (auto simp: lookup_listing_locked_def Let_def split: if_splits)
qed

lemma claim_refresh_lists:
  assumes "length (ListingBuckets s) = 256" "i < 256" "j < 256"
  shows "listing_list (claim_refresh i e s) j =
         (if j = i then map (\<lambda>x. if x = e then e\<lparr>L_RefreshClaimed := True\<rparr> else x) (listing_list s i) else listing_list s j)"
  using assms by (simp add: claim_refresh_def nth_list_update)

lemma listing_inv_claim:
  assumes iv: "listing_inv nls ext s" and i: "i < 256"
  shows "listing_inv nls ext (claim_refresh i e s)"
proof -
  let ?f = "\<lambda>x. if x = e then e\<lparr>L_RefreshClaimed := True\<rparr> else x" and ?s = "claim_refresh i e s"
  let ?b = "(ListingBuckets s ! i)\<lparr>B_List := map ?f (listing_list s i)\<rparr>"
  have fields: "L_Listing \<circ> ?f = L_Listing" "L_Bytes \<circ> ?f = L_Bytes"
    by (simp_all add: fun_eq_iff)
  have eq: "?s = s\<lparr>ListingBuckets := (ListingBuckets s)[i := ?b]\<rparr>" by (simp add: claim_refresh_def)
  have ok: "bucket_ok L_Path nls i ?b"
    by (rule bucket_ok_map) (use iv i in \<open>auto simp: listing_inv_def\<close>)
  have sums: "cache_refs ?s = cache_refs s" "held_bytes ?s = held_bytes s"
    unfolding eq using i iv by (simp_all add: fun_eq_iff [of "cache_refs _"] cache_refs_update held_bytes_update fields)
  have cached: "cached_ok (Infos s) (e\<lparr>L_RefreshClaimed := True\<rparr>) = cached_ok (Infos s) e"
    by (simp add: cached_ok_def)
  have "\<forall>j < 256. bucket_ok L_Path nls j (ListingBuckets ?s ! j) \<and> (\<forall>x\<in>set (listing_list ?s j). cached_ok (Infos s) x)"
  proof (intro allI impI conjI ballI)
    fix j :: nat assume j: "j < 256"
    show "bucket_ok L_Path nls j (ListingBuckets ?s ! j)"
      using iv ok j i by (cases "j = i") (simp_all add: eq listing_inv_def)
    fix x assume "x \<in> set (listing_list ?s j)"
    then show "cached_ok (Infos s) x"
      using iv i j cached claim_refresh_lists [of s i j e] unfolding listing_inv_def by (cases "j = i") auto
  qed
  with iv show ?thesis unfolding listing_inv_def refs_ok_def sums by (simp add: eq)
qed

lemma claim_refresh_frame: "listing_frame s (claim_refresh i e s)"
proof -
  have "claim_refresh i e s = s\<lparr>ListingBuckets := ListingBuckets (claim_refresh i e s),
      ListingBytes := ListingBytes s, Infos := Infos s\<rparr>" by (simp add: claim_refresh_def)
  then show ?thesis unfolding listing_frame_def by blast
qed

lemma infos_frame: "listing_frame s (s\<lparr>Infos := h\<rparr>)"
proof -
  have "s\<lparr>Infos := h\<rparr> = s\<lparr>ListingBuckets := ListingBuckets s, ListingBytes := ListingBytes s, Infos := h\<rparr>" by simp
  then show ?thesis unfolding listing_frame_def by blast
qed

lemma claim_evolves:
  assumes "listing_inv nls ext s" "i < 256" "e \<in> set (listing_list s i)"
  shows "evolves s (claim_refresh i e s)"
  by (rule listing_frame_evolves [OF claim_refresh_frame])
    (use assms in \<open>auto simp: claim_refresh_lists split: if_splits\<close>)

lemma infos_evolves: "evolves s (s\<lparr>Infos := h\<rparr>)"
  by (rule listing_frame_evolves [OF infos_frame]) auto

lemma evolves_trans_infos:
  assumes "evolves (s\<lparr>Infos := h\<rparr>) s'"
  shows "evolves s s'"
  using assms unfolding evolves_def by simp

lemma listed_ok:
  assumes iv: "listing_inv nls ext s" and ok: "nls_ok nls"
    and res: "lookup_listing_locked nls dir allowStale t now lifetime generation s = (r, s')" "R_Listing r = Some a"
  shows "listing_inv nls (ext(a := ext a + 1)) s' \<and> listing_frame s s' \<and> evolves s s'"
proof -
  obtain e where e: "e \<in> set (listing_list s (bucket_index nls dir))" "a = L_Listing e"
    and s': "s' = s\<lparr>Infos := BlorgReferenceDirectoryInfo a (Infos s)\<rparr> \<or>
      s' = claim_refresh (bucket_index nls dir) e (s\<lparr>Infos := BlorgReferenceDirectoryInfo a (Infos s)\<rparr>)"
    using lookup_listing_spec [OF assms] by blast
  obtain li where "Infos s a = Some li" using listing_inv_entry [OF iv bucket_index_less e(1)] e(2) by metis
  then have ref: "listing_inv nls (ext(a := ext a + 1)) (s\<lparr>Infos := BlorgReferenceDirectoryInfo a (Infos s)\<rparr>)" (is "listing_inv _ _ ?t")
    by (rule listing_inv_reference [OF iv])
  have e': "e \<in> set (listing_list ?t (bucket_index nls dir))" using e(1) by simp
  have "evolves s (claim_refresh (bucket_index nls dir) e ?t)"
    by (rule evolves_trans_infos, rule claim_evolves [OF ref bucket_index_less e'])
  moreover have "listing_frame s (claim_refresh (bucket_index nls dir) e ?t)"
    by (rule listing_frame_trans [OF infos_frame claim_refresh_frame])
  ultimately show ?thesis
    using s' ref listing_inv_claim [OF ref bucket_index_less] infos_evolves infos_frame by metis
qed

lemma listing_inv_release:
  assumes iv: "listing_inv nls ext s" and a: "0 < ext a" "Infos s a = Some li" "Descendants li = []"
  shows "listing_inv nls (ext(a := ext a - 1)) (s\<lparr>Infos := BlorgReleaseDirectoryInfo a (Infos s)\<rparr>)"
proof -
  let ?s = "s\<lparr>Infos := BlorgReleaseDirectoryInfo a (Infos s)\<rparr>"
  have refs: "refs_ok ext s" using iv by (simp add: listing_inv_def)
  have pos: "0 < RefCount li" using spec [OF refs [unfolded refs_ok_def], of a] a(2) by simp
  have heap: "Infos ?s b = (if b = a then if RefCount li = 1 then None else Some (li\<lparr>RefCount := RefCount li - 1\<rparr>) else Infos s b)" for b
    using release_refs [of "Infos s" a li b] a pos by simp
  have "refs_ok (ext(a := ext a - 1)) ?s"
    unfolding refs_ok_def
  proof (intro allI)
    fix b
    have "0 \<le> ext b \<and> (case Infos s b of None \<Rightarrow> ext b + cache_refs s b = 0
        | Some li \<Rightarrow> RefCount li = ext b + cache_refs s b \<and> 0 < RefCount li)"
      using refs unfolding refs_ok_def by blast
    then show "0 \<le> (ext(a := ext a - 1)) b \<and> (case Infos ?s b of None \<Rightarrow> (ext(a := ext a - 1)) b + cache_refs ?s b = 0
        | Some li \<Rightarrow> RefCount li = (ext(a := ext a - 1)) b + cache_refs ?s b \<and> 0 < RefCount li)"
      using a pos unfolding heap by (auto split: option.splits)
  qed
  moreover have "cached_ok (Infos ?s) e" if "cached_ok (Infos s) e" for e
    using that a(2,3) unfolding cached_ok_def heap by (auto simp: ListingCacheSizeOf_def split: if_splits)
  ultimately show ?thesis using iv unfolding listing_inv_def by simp
qed

lemma listing_inv_fetch:
  assumes iv: "listing_inv nls ext s" and a: "Infos s a = None" "RefCount li = 1"
  shows "listing_inv nls (ext(a := 1)) (s\<lparr>Infos := (Infos s)(a \<mapsto> li)\<rparr>)"
proof -
  let ?s = "s\<lparr>Infos := (Infos s)(a \<mapsto> li)\<rparr>"
  have refs: "refs_ok ext s" using iv by (simp add: listing_inv_def)
  have zero: "cache_refs s a = 0"
    using spec [OF refs [unfolded refs_ok_def], of a] a(1) count_list_nonneg_refs [of s a] by simp
  have "refs_ok (ext(a := 1)) ?s"
    unfolding refs_ok_def
  proof (intro allI)
    fix b
    have "0 \<le> ext b \<and> (case Infos s b of None \<Rightarrow> ext b + cache_refs s b = 0
        | Some li \<Rightarrow> RefCount li = ext b + cache_refs s b \<and> 0 < RefCount li)"
      using refs unfolding refs_ok_def by blast
    then show "0 \<le> (ext(a := 1)) b \<and> (case Infos ?s b of None \<Rightarrow> (ext(a := 1)) b + cache_refs ?s b = 0
        | Some li \<Rightarrow> RefCount li = (ext(a := 1)) b + cache_refs ?s b \<and> 0 < RefCount li)"
      using a zero by (auto split: option.splits)
  qed
  moreover have "cached_ok (Infos ?s) e" if "e \<in> set (listing_list s j)" "j < 256" "cached_ok (Infos s) e" for e j
  proof -
    have "L_Listing e \<noteq> a"
      using cache_refs_pos [of j s e] that zero iv by auto
    with that(3) show ?thesis unfolding cached_ok_def by simp
  qed
  ultimately show ?thesis using iv unfolding listing_inv_def by simp
qed

section \<open>Every step keeps the invariant\<close>

lemma world_evolves:
  assumes ok: "cache_world_ok nls w" and ev: "evolves (W_Cache w) s'"
    and ivs: "path_inv nls s'" "listing_inv nls ext s'" and feed: "ChangeFeedLive s' = ChangeFeedLive (W_Cache w)"
    and ts: "\<And>t. t \<in> ts \<Longrightarrow> unat (T_Sequence t) \<le> unat (Sequence (W_Cache w))"
  shows "cache_world_ok nls (w\<lparr>W_Cache := s', W_Ext := ext, W_Tickets := ts\<rparr>)"
proof -
  have seq: "Sequence s' = Sequence (W_Cache w)" "Generation s' = Generation (W_Cache w)"
    using ev by (simp_all add: evolves_def)
  have "stamps_ok s'" using evolves_stamps [OF ev] ok by (simp add: cache_world_ok_def)
  moreover have "\<forall>iv\<in>ran (W_Running w) \<union> W_Done w. invalidation_ok nls s' iv"
    using evolves_invalidation [OF ev] ok unfolding cache_world_ok_def history_ok_def by blast
  ultimately show ?thesis
    using ok ivs feed ts seq unfolding cache_world_ok_def held_ok_def history_ok_def by simp
qed

lemma world_evolves_cache:
  assumes "cache_world_ok nls w" "evolves (W_Cache w) s'" "path_inv nls s'" "listing_inv nls (W_Ext w) s'"
    "ChangeFeedLive s' = ChangeFeedLive (W_Cache w)"
  shows "cache_world_ok nls (w\<lparr>W_Cache := s'\<rparr>)"
proof -
  have "cache_world_ok nls (w\<lparr>W_Cache := s', W_Ext := W_Ext w, W_Tickets := W_Tickets w\<rparr>)"
    using assms(1) by (intro world_evolves [OF assms]) (simp add: cache_world_ok_def held_ok_def)
  then show ?thesis by simp
qed

lemma world_evolves_listing:
  assumes "cache_world_ok nls w" "evolves (W_Cache w) s'" "listing_frame (W_Cache w) s'" "listing_inv nls ext s'"
    and "\<And>t. t \<in> ts \<Longrightarrow> unat (T_Sequence t) \<le> unat (Sequence (W_Cache w))"
  shows "cache_world_ok nls (w\<lparr>W_Cache := s', W_Ext := ext, W_Tickets := ts\<rparr>)"
proof (rule world_evolves [OF assms(1,2) _ assms(4)])
  show "path_inv nls s'"
    using assms(1) path_inv_listing_frame [OF _ assms(3)] by (simp add: cache_world_ok_def)
  show "ChangeFeedLive s' = ChangeFeedLive (W_Cache w)" using listing_frameD [OF assms(3)] by simp
qed (rule assms(5))

lemma tickets_bounded:
  "cache_world_ok nls w \<Longrightarrow> t \<in> W_Tickets w \<Longrightarrow> unat (T_Sequence t) \<le> unat (Sequence (W_Cache w))"
  by (simp add: cache_world_ok_def held_ok_def)

lemma world_infos:
  assumes "cache_world_ok nls w" "listing_inv nls ext ((W_Cache w)\<lparr>Infos := h\<rparr>)"
  shows "cache_world_ok nls (w\<lparr>W_Cache := (W_Cache w)\<lparr>Infos := h\<rparr>, W_Ext := ext\<rparr>)"
proof -
  have "cache_world_ok nls (w\<lparr>W_Cache := (W_Cache w)\<lparr>Infos := h\<rparr>, W_Ext := ext, W_Tickets := W_Tickets w\<rparr>)"
    using tickets_bounded [OF assms(1)]
    by (intro world_evolves_listing [OF assms(1) infos_evolves infos_frame assms(2)])
  then show ?thesis by simp
qed

lemma run_part_ok:
  assumes "path_inv nls s" "listing_inv nls ext s" "nls_ok nls" "p \<noteq> Bump"
    "p \<in> set (parts t)" "\<And>dir. t = Prefix dir \<Longrightarrow> dir \<noteq> []"
  shows "path_inv nls (run_part nls p s) \<and> listing_inv nls ext (run_part nls p s) \<and> evolves s (run_part nls p s) \<and>
         ChangeFeedLive (run_part nls p s) = ChangeFeedLive s \<and> cleared nls (run_part nls p s) iv p"
proof -
  have i: "i < 256" if "p = PathUnder d i \<or> p = ListUnder d i \<or> p = ListAll i" for d i
    using that assms(5) by (cases t) (auto simp: PATH_CACHE_BUCKETS_def LISTING_CACHE_BUCKETS_def split: option.splits)
  have bucket: "i = bucket_index nls q" if "i < 256" "e \<in> set (path_list s i)" "RtlEqualUnicodeString nls (E_Path e) q" for i e q
    using that assms(1) bucket_index_equal [OF assms(3)] unfolding path_inv_def bucket_ok_def by metis
  have lbucket: "i = bucket_index nls q" if "i < 256" "e \<in> set (listing_list s i)" "RtlEqualUnicodeString nls (L_Path e) q" for i e q
    using that assms(2) bucket_index_equal [OF assms(3)] unfolding listing_inv_def bucket_ok_def by metis
  show ?thesis
  proof (cases p)
    case (PathOne path)
    have "cleared nls (path_drop nls path s) iv p"
      using bucket by (auto simp: PathOne path_drop_list [OF assms(1)] split: if_splits)
    then show ?thesis
      using PathOne assms(1,2) path_inv_drop path_drop_evolves listing_inv_path_frame [OF assms(2) path_drop_frame]
        path_frameD [OF path_drop_frame] by simp
  next
    case (PathUnder dir k)
    then have "k < 256" using i by blast
    then show ?thesis
      using PathUnder assms(1,2) path_inv_sweep sweep_paths_evolves listing_inv_path_frame [OF assms(2) sweep_paths_frame]
        path_frameD [OF sweep_paths_frame] by (simp add: sweep_paths_list)
  next
    case (ListOne path)
    have "cleared nls (ListingCacheDrop nls path s) iv p"
      using lbucket by (auto simp: ListOne listing_drop_list [OF assms(2)] split: if_splits)
    then show ?thesis
      using ListOne assms(1,2) listing_inv_drop listing_drop_evolves path_inv_listing_frame [OF assms(1) ListingCacheDrop_frame]
        listing_frameD [OF ListingCacheDrop_frame] by simp
  next
    case (ListUnder dir k)
    then have "k < 256" using i by blast
    then show ?thesis
      using ListUnder assms(1,2) listing_inv_sweep sweep_listings_evolves path_inv_listing_frame [OF assms(1) sweep_listings_frame]
        listing_frameD [OF sweep_listings_frame] by (simp add: sweep_listings_list [OF assms(2)])
  next
    case (ListAll k)
    then have "k < 256" using i by blast
    then show ?thesis
      using ListAll assms(1,2) listing_inv_sweep sweep_listings_evolves path_inv_listing_frame [OF assms(1) sweep_listings_frame]
        listing_frameD [OF sweep_listings_frame] by (simp add: sweep_listings_list [OF assms(2)])
  qed (use assms(4) in simp)
qed

text \<open>The two steps that move a counter.\<close>

lemma unat_plus_one:
  fixes a :: "'a::len word"
  assumes "a \<noteq> - 1"
  shows "unat (a + 1) = Suc (unat a)"
proof -
  have "1 + a \<noteq> 0" using assms by (metis add_eq_0_iff)
  then show ?thesis by (metis add.commute unatSuc)
qed

lemma inv_other_fields [simp]:
  "path_inv nls (s\<lparr>Sequence := q\<rparr>) = path_inv nls s" "path_inv nls (s\<lparr>Generation := g\<rparr>) = path_inv nls s"
  "path_inv nls (s\<lparr>ChangeFeedLive := l\<rparr>) = path_inv nls s"
  "listing_inv nls ext (s\<lparr>Sequence := q\<rparr>) = listing_inv nls ext s"
  "listing_inv nls ext (s\<lparr>Generation := g\<rparr>) = listing_inv nls ext s"
  "listing_inv nls ext (s\<lparr>ChangeFeedLive := l\<rparr>) = listing_inv nls ext s"
proof -
  have refs: "cache_refs (s\<lparr>Sequence := q\<rparr>) = cache_refs s" "cache_refs (s\<lparr>Generation := g\<rparr>) = cache_refs s"
    "cache_refs (s\<lparr>ChangeFeedLive := l\<rparr>) = cache_refs s"
    by (simp_all add: cache_refs_def fun_eq_iff)
  show "path_inv nls (s\<lparr>Sequence := q\<rparr>) = path_inv nls s" "path_inv nls (s\<lparr>Generation := g\<rparr>) = path_inv nls s"
    "path_inv nls (s\<lparr>ChangeFeedLive := l\<rparr>) = path_inv nls s"
    "listing_inv nls ext (s\<lparr>Sequence := q\<rparr>) = listing_inv nls ext s"
    "listing_inv nls ext (s\<lparr>Generation := g\<rparr>) = listing_inv nls ext s"
    "listing_inv nls ext (s\<lparr>ChangeFeedLive := l\<rparr>) = listing_inv nls ext s"
    unfolding path_inv_def listing_inv_def refs_ok_def held_bytes_def refs by simp_all
qed

lemma invalidation_ok_counters:
  assumes "invalidation_ok nls s iv" "unat (Sequence s) \<le> unat q" "unat (Generation s) \<le> unat g"
  shows "invalidation_ok nls (s\<lparr>Sequence := q, Generation := g\<rparr>) iv"
proof -
  have "cleared nls (s\<lparr>Sequence := q, Generation := g\<rparr>) iv p = cleared nls s iv p" for p by (cases p) simp_all
  with assms show ?thesis unfolding invalidation_ok_def by auto
qed

lemma start_ok:
  assumes ok: "cache_world_ok nls w" and k: "W_Running w k = None" and q: "Sequence (W_Cache w) \<noteq> - 1"
    and t: "case target of Prefix dir \<Rightarrow> dir \<noteq> [] | _ \<Rightarrow> True"
  shows "cache_world_ok nls (w\<lparr>W_Cache := PathCacheAdvanceSequence (W_Cache w),
           W_Running := (W_Running w)(k \<mapsto> begin_invalidation target (W_Cache w))\<rparr>)"
proof -
  let ?s = "W_Cache w" and ?s' = "PathCacheAdvanceSequence (W_Cache w)"
  have next_seq: "unat (Sequence ?s + 1) = Suc (unat (Sequence ?s))"
    using q by (rule unat_plus_one)
  have s': "?s' = ?s\<lparr>Sequence := Sequence ?s + 1, Generation := Generation ?s\<rparr>" by (simp add: PathCacheAdvanceSequence_def)
  have old: "invalidation_ok nls ?s' iv" if "iv \<in> ran (W_Running w) \<union> W_Done w" for iv
    unfolding s' using ok that next_seq
    by (intro invalidation_ok_counters) (auto simp: cache_world_ok_def history_ok_def)
  have new: "invalidation_ok nls ?s' (begin_invalidation target ?s)"
    using t next_seq by (auto simp: invalidation_ok_def begin_invalidation_def PathCacheAdvanceSequence_def)
  have "\<forall>iv\<in>ran ((W_Running w)(k \<mapsto> begin_invalidation target ?s)) \<union> W_Done w. invalidation_ok nls ?s' iv"
    using old new k by auto
  moreover have "stamps_ok ?s'" using ok next_seq unfolding cache_world_ok_def stamps_ok_def s' by fastforce
  moreover have "path_inv nls ?s'" "listing_inv nls (W_Ext w) ?s'"
    using ok unfolding cache_world_ok_def by (simp_all add: s')
  ultimately show ?thesis
    using ok next_seq unfolding cache_world_ok_def held_ok_def history_ok_def by (auto simp: s')
qed

lemma running_ok:
  "cache_world_ok nls w \<Longrightarrow> W_Running w k = Some iv \<Longrightarrow> invalidation_ok nls (W_Cache w) iv"
  unfolding cache_world_ok_def history_ok_def by (auto intro: ranI)

lemma advance_ok:
  assumes iv: "invalidation_ok nls s' iv" and todo: "I_Todo iv = p # todo"
    and c: "cleared nls s' (advance_invalidation nls iv s) p"
    and g: "p = Bump \<Longrightarrow> Suc (unat (Generation s)) \<le> unat (Generation s')"
  shows "invalidation_ok nls s' (advance_invalidation nls iv s)"
proof -
  have "cleared nls s' (advance_invalidation nls iv s) x = cleared nls s' iv x" if "x \<noteq> Bump \<or> p \<noteq> Bump" for x
    using that todo by (cases x) (auto simp: advance_invalidation_def)
  then have "cleared nls s' (advance_invalidation nls iv s) x" if "x \<in> insert p (I_Did iv)" for x
    using iv c that unfolding invalidation_ok_def by (cases "x = p") (blast, metis insertE)
  with iv todo g show ?thesis unfolding invalidation_ok_def by (auto simp: advance_invalidation_def)
qed

lemma ran_upd: "iv \<in> ran (m(k \<mapsto> x)) \<Longrightarrow> iv = x \<or> iv \<in> ran m"
  by (auto simp: ran_def split: if_splits)

lemma part_ok:
  assumes ok: "cache_world_ok nls w" and nls: "nls_ok nls" and k: "W_Running w k = Some iv" and todo: "I_Todo iv = p # todo"
    and p: "p \<noteq> Bump"
  shows "cache_world_ok nls (w\<lparr>W_Cache := run_part nls p (W_Cache w),
           W_Running := (W_Running w)(k \<mapsto> advance_invalidation nls iv (W_Cache w))\<rparr>)"
proof -
  let ?s = "W_Cache w" and ?s' = "run_part nls p (W_Cache w)" and ?iv = "advance_invalidation nls iv (W_Cache w)"
  have iv: "invalidation_ok nls ?s iv" using running_ok [OF ok k] .
  have p': "p \<in> set (parts (I_Target iv))" "\<And>dir. I_Target iv = Prefix dir \<Longrightarrow> dir \<noteq> []"
    using iv todo unfolding invalidation_ok_def by auto
  have r: "path_inv nls ?s'" "listing_inv nls (W_Ext w) ?s'" "evolves ?s ?s'" "ChangeFeedLive ?s' = ChangeFeedLive ?s"
    "cleared nls ?s' ?iv p"
    using run_part_ok [OF _ _ nls p p'] ok unfolding cache_world_ok_def by blast+
  have w': "cache_world_ok nls (w\<lparr>W_Cache := ?s'\<rparr>)" using world_evolves_cache [OF ok r(3,1,2,4)] .
  have "invalidation_ok nls ?s' ?iv"
    using evolves_invalidation [OF r(3) iv] todo r(5) p by (intro advance_ok) auto
  then have "\<forall>x\<in>ran ((W_Running w)(k \<mapsto> ?iv)) \<union> W_Done w. invalidation_ok nls ?s' x"
    using w' unfolding cache_world_ok_def history_ok_def by (auto dest!: ran_upd)
  with w' show ?thesis unfolding cache_world_ok_def held_ok_def history_ok_def by simp
qed

lemma bump_ok:
  assumes ok: "cache_world_ok nls w" and k: "W_Running w k = Some iv" and todo: "I_Todo iv = Bump # todo"
    and g: "Generation (W_Cache w) \<noteq> - 1"
  shows "cache_world_ok nls (w\<lparr>W_Cache := run_part nls Bump (W_Cache w),
           W_Running := (W_Running w)(k \<mapsto> advance_invalidation nls iv (W_Cache w))\<rparr>)"
proof -
  let ?s = "W_Cache w" and ?s' = "run_part nls Bump (W_Cache w)" and ?iv = "advance_invalidation nls iv (W_Cache w)"
  have next_gen: "unat (Generation ?s + 1) = Suc (unat (Generation ?s))"
    using g by (rule unat_plus_one)
  have s': "?s' = ?s\<lparr>Sequence := Sequence ?s, Generation := Generation ?s + 1\<rparr>" by simp
  have stamps: "stamps_ok ?s" using ok by (simp add: cache_world_ok_def)
  have old: "invalidation_ok nls ?s' x" if "x \<in> ran (W_Running w) \<union> W_Done w" for x
    unfolding s' using ok that next_gen
    by (intro invalidation_ok_counters) (auto simp: cache_world_ok_def history_ok_def)
  have "cleared nls ?s' ?iv Bump"
    using stamps todo unfolding stamps_ok_def by (auto simp: advance_invalidation_def less_Suc_eq_le)
  then have "invalidation_ok nls ?s' ?iv"
    using old [of iv] k todo next_gen by (intro advance_ok) (auto intro: ranI simp del: cleared.simps)
  then have "\<forall>x\<in>ran ((W_Running w)(k \<mapsto> ?iv)) \<union> W_Done w. invalidation_ok nls ?s' x"
    using old by (auto dest!: ran_upd)
  moreover have "stamps_ok ?s'" using stamps next_gen unfolding stamps_ok_def s' by fastforce
  moreover have "path_inv nls ?s'" "listing_inv nls (W_Ext w) ?s'"
    using ok unfolding cache_world_ok_def by (simp_all add: s')
  ultimately show ?thesis
    using ok next_gen unfolding cache_world_ok_def held_ok_def history_ok_def by auto
qed

lemma find_locked_Exists:
  assumes "find_locked nls path meta t now lifetime generation s = (PathCacheExists, meta', t')"
  obtains e where "path_find nls path s = Some e" "E_Exists e" "meta' = E_Meta e"
    "t' = \<lparr>T_Sequence = E_Sequence e, T_IssueTime = E_IssueTime e\<rparr>" "PathCacheEntryLive e now generation lifetime"
  using assms by (auto simp: find_locked_def split: option.splits if_splits)

lemma finish_ok:
  assumes ok: "cache_world_ok nls w" and k: "W_Running w k = Some iv" "I_Todo iv = []"
  shows "cache_world_ok nls (w\<lparr>W_Running := (W_Running w)(k := None), W_Done := insert iv (W_Done w)\<rparr>)"
proof -
  have "invalidation_ok nls (W_Cache w) iv" using running_ok [OF ok k(1)] .
  moreover have "ran ((W_Running w)(k := None)) \<subseteq> ran (W_Running w)" by (auto simp: ran_def split: if_splits)
  ultimately show ?thesis
    using ok k(2) unfolding cache_world_ok_def held_ok_def history_ok_def by auto
qed

lemma feed_ok:
  assumes ok: "cache_world_ok nls w" and l: "l \<Longrightarrow> \<exists>iv\<in>W_Done w. I_Target iv = Everything \<and> I_Sequence iv = f"
  shows "cache_world_ok nls (w\<lparr>W_Cache := (W_Cache w)\<lparr>ChangeFeedLive := l\<rparr>, W_Feed := f\<rparr>)"
proof -
  have "cleared nls (s\<lparr>ChangeFeedLive := l\<rparr>) iv p = cleared nls s iv p" for s iv p by (cases p) simp_all
  then have "invalidation_ok nls (s\<lparr>ChangeFeedLive := l\<rparr>) iv = invalidation_ok nls s iv" for s iv
    by (simp add: invalidation_ok_def)
  then show ?thesis
    using ok l unfolding cache_world_ok_def held_ok_def history_ok_def stamps_ok_def by simp
qed

text \<open>The remaining steps one by one; they change what threads hold, or evolve the caches.\<close>

lemma cache_step_ok:
  assumes "cache_step nls w w'" and nls: "nls_ok nls" and ok: "cache_world_ok nls w"
  shows "cache_world_ok nls w'"
  using assms(1)
proof cases
  case (ticket now)
  with ok show ?thesis
    unfolding cache_world_ok_def held_ok_def history_ok_def by (simp add: BlorgPathCacheTakeTicket_def)
next
  case sample
  with ok show ?thesis unfolding cache_world_ok_def held_ok_def history_ok_def by simp
next
  case (found path meta t now lifetime generation meta' t')
  obtain e where e: "path_find nls path (W_Cache w) = Some e" "t' = \<lparr>T_Sequence = E_Sequence e, T_IssueTime = E_IssueTime e\<rparr>"
    using find_locked_Exists [OF found(2)] by metis
  have "unat (E_Sequence e) \<le> unat (Sequence (W_Cache w))"
    using path_find_Some [OF _ nls, of "W_Cache w" path e] e(1) ok
    unfolding cache_world_ok_def stamps_ok_def by (meson bucket_index_less)
  with ok e(2) show ?thesis
    unfolding found(1) cache_world_ok_def held_ok_def history_ok_def by simp
next
  case (listed dir allowStale t now lifetime generation r s' a)
  have iv: "listing_inv nls (W_Ext w) (W_Cache w)" using ok by (simp add: cache_world_ok_def)
  note l = listed_ok [OF iv nls listed(2,3)]
  have "\<exists>e\<in>set (listing_list (W_Cache w) (bucket_index nls dir)). R_Ticket r = \<lparr>T_Sequence = L_Sequence e, T_IssueTime = L_IssueTime e\<rparr>"
    using lookup_listing_spec [OF iv nls listed(2,3)] by blast
  then obtain e where "e \<in> set (listing_list (W_Cache w) (bucket_index nls dir))" "T_Sequence (R_Ticket r) = L_Sequence e"
    by auto
  then have "unat (T_Sequence (R_Ticket r)) \<le> unat (Sequence (W_Cache w))"
    using ok bucket_index_less [of nls dir] unfolding cache_world_ok_def stamps_ok_def by metis
  then have "cache_world_ok nls (w\<lparr>W_Cache := s', W_Ext := (W_Ext w)(a := W_Ext w a + 1), W_Tickets := insert (R_Ticket r) (W_Tickets w)\<rparr>)"
    using l tickets_bounded [OF ok] by (intro world_evolves_listing [OF ok]) auto
  then show ?thesis unfolding listed(1) by simp
next
  case (put t generation path exists meta now lifetime)
  let ?s' = "insert_locked nls path exists meta (Some t) now lifetime generation (W_Cache w)"
  have iv: "path_inv nls (W_Cache w)" "listing_inv nls (W_Ext w) (W_Cache w)"
    and g: "unat generation \<le> unat (Generation (W_Cache w))"
    using ok put(3) by (auto simp: cache_world_ok_def held_ok_def)
  note spec = insert_locked_spec [OF iv(1) nls put(4) refl, of exists meta "Some t" now lifetime generation]
  have frame: "path_frame (W_Cache w) ?s'" using spec by blast
  show ?thesis
    unfolding put(1)
  proof (rule world_evolves_cache [OF ok insert_evolves [OF iv(1) nls put(4) g]])
    show "path_inv nls ?s'" using spec by blast
    show "listing_inv nls (W_Ext w) ?s'" by (rule listing_inv_path_frame [OF iv(2) frame])
    show "ChangeFeedLive ?s' = ChangeFeedLive (W_Cache w)" using path_frameD [OF frame] by simp
  qed
next
  case (publish t generation dir a li bytes pool now lifetime current s')
  have iv: "path_inv nls (W_Cache w)" "listing_inv nls (W_Ext w) (W_Cache w)"
    and g: "unat generation \<le> unat (Generation (W_Cache w))"
    using ok publish(3) by (auto simp: cache_world_ok_def held_ok_def)
  note p = publish_evolves [OF iv(2) publish(4-10) g publish(11)]
  then show ?thesis
    unfolding publish(1)
    using path_inv_listing_frame [OF iv(1)] listing_frameD(6) by (intro world_evolves_cache [OF ok]) blast+
next
  case (drop_paths i P)
  have iv: "path_inv nls (W_Cache w)" "listing_inv nls (W_Ext w) (W_Cache w)"
    using ok by (auto simp: cache_world_ok_def)
  show ?thesis
    unfolding drop_paths(1)
    by (rule world_evolves_cache [OF ok sweep_paths_evolves [OF iv(1) drop_paths(2)] path_inv_sweep [OF iv(1) drop_paths(2)]
          listing_inv_path_frame [OF iv(2) sweep_paths_frame] path_frameD(6) [OF sweep_paths_frame]])
next
  case (drop_listings i Q)
  have iv: "path_inv nls (W_Cache w)" "listing_inv nls (W_Ext w) (W_Cache w)"
    using ok by (auto simp: cache_world_ok_def)
  show ?thesis
    unfolding drop_listings(1)
    by (rule world_evolves_cache [OF ok sweep_listings_evolves [OF iv(2) drop_listings(2)]
          path_inv_listing_frame [OF iv(1) sweep_listings_frame] listing_inv_sweep [OF iv(2) drop_listings(2)]
          listing_frameD(6) [OF sweep_listings_frame]])
next
  case (start k target)
  then show ?thesis using start_ok [OF ok] by simp
next
  case (part k iv p todo)
  then show ?thesis using part_ok [OF ok nls] bump_ok [OF ok] by (cases "p = Bump") auto
next
  case (finish k iv)
  then show ?thesis using finish_ok [OF ok] by simp
next
  case (feed_up iv)
  then show ?thesis using feed_ok [OF ok, of True "I_Sequence iv"] by auto
next
  case feed_down
  then show ?thesis using feed_ok [OF ok, of False 0] by simp
next
  case (fetch a li)
  have "listing_inv nls ((W_Ext w)(a := 1)) ((W_Cache w)\<lparr>Infos := (Infos (W_Cache w))(a \<mapsto> li)\<rparr>)"
    using ok fetch by (intro listing_inv_fetch) (auto simp: cache_world_ok_def)
  then show ?thesis unfolding fetch(1) by (rule world_infos [OF ok])
next
  case (reference a)
  obtain li where "Infos (W_Cache w) a = Some li"
    using held_present [of "W_Ext w" "W_Cache w" a] reference(2) ok by (auto simp: cache_world_ok_def listing_inv_def)
  then have "listing_inv nls ((W_Ext w)(a := W_Ext w a + 1)) ((W_Cache w)\<lparr>Infos := BlorgReferenceDirectoryInfo a (Infos (W_Cache w))\<rparr>)"
    using ok by (intro listing_inv_reference) (auto simp: cache_world_ok_def)
  then show ?thesis unfolding reference(1) by (rule world_infos [OF ok])
next
  case (release a li)
  have "listing_inv nls ((W_Ext w)(a := W_Ext w a - 1)) ((W_Cache w)\<lparr>Infos := BlorgReleaseDirectoryInfo a (Infos (W_Cache w))\<rparr>)"
    using ok release by (intro listing_inv_release) (auto simp: cache_world_ok_def)
  then show ?thesis unfolding release(1) by (rule world_infos [OF ok])
qed

section \<open>Reachable worlds\<close>

lemma cache_boot_ok: "cache_world_ok nls cache_boot"
proof -
  let ?s = "W_Cache cache_boot"
  have s: "Buckets ?s = replicate 256 empty_bucket" "ListingBuckets ?s = replicate 256 empty_bucket"
    "ListingBytes ?s = 0" "Count ?s = 0" "Infos ?s = Map.empty" "\<not> ChangeFeedLive ?s"
    by (simp_all add: cache_boot_def BlorgPathCacheInit_def PATH_CACHE_BUCKETS_def LISTING_CACHE_BUCKETS_def)
  have zero: "cache_refs ?s a = 0" "held_bytes ?s = 0" for a
    by (simp_all add: cache_refs_def held_bytes_def s empty_bucket_def map_replicate sum_list_replicate)
  have empty: "path_list ?s i = []" "listing_list ?s i = []" if "i < 256" for i
    using that by (simp_all add: s empty_bucket_def)
  have "path_inv nls ?s"
    using empty by (simp add: path_inv_def s) (simp add: empty_bucket_def map_replicate sum_list_replicate)
  moreover have "listing_inv nls (W_Ext cache_boot) ?s"
    using empty by (simp add: listing_inv_def refs_ok_def zero s LISTING_CACHE_MAX_BYTES_def)
      (simp add: cache_boot_def)
  moreover have "stamps_ok ?s" using empty by (simp add: stamps_ok_def)
  ultimately show ?thesis
    unfolding cache_world_ok_def held_ok_def history_ok_def using s(6) by (simp add: cache_boot_def)
qed

lemma cache_steps_ok:
  assumes "cache_steps nls w w'" "nls_ok nls" "cache_world_ok nls w"
  shows "cache_world_ok nls w'"
  using assms by (induction rule: rtranclp_induct) (auto intro: cache_step_ok)

lemma cache_step_monotone:
  assumes "cache_step nls w w'"
  shows "W_Done w \<subseteq> W_Done w'"
  using assms by cases auto

lemma cache_steps_monotone: "cache_steps nls w w' \<Longrightarrow> W_Done w \<subseteq> W_Done w'"
  by (induction rule: rtranclp_induct) (auto dest: cache_step_monotone)

text \<open>The paths and the listings an invalidation covers.\<close>

fun covers_path :: "NLS \<Rightarrow> target \<Rightarrow> UNICODE_STRING \<Rightarrow> bool" where
  "covers_path nls (One q) path \<longleftrightarrow> RtlEqualUnicodeString nls path q"
| "covers_path nls (Prefix dir) path \<longleftrightarrow> PathCacheIsUnder nls dir path"
| "covers_path nls Everything path \<longleftrightarrow> True"

definition is_parent :: "NLS \<Rightarrow> UNICODE_STRING \<Rightarrow> UNICODE_STRING \<Rightarrow> bool" where
  "is_parent nls dir path \<longleftrightarrow> (case PathCacheParent path of None \<Rightarrow> False | Some p \<Rightarrow> RtlEqualUnicodeString nls dir p)"

fun covers_listing :: "NLS \<Rightarrow> target \<Rightarrow> UNICODE_STRING \<Rightarrow> bool" where
  "covers_listing nls (One q) dir \<longleftrightarrow> RtlEqualUnicodeString nls dir q \<or> is_parent nls dir q"
| "covers_listing nls (Prefix d) dir \<longleftrightarrow> PathCacheIsUnder nls d dir \<or> is_parent nls dir d"
| "covers_listing nls Everything dir \<longleftrightarrow> True"

lemma done_cleared:
  assumes "cache_world_ok nls w" "iv \<in> W_Done w" "p \<in> set (parts (I_Target iv))"
  shows "cleared nls (W_Cache w) iv p"
proof -
  have "invalidation_ok nls (W_Cache w) iv" "I_Todo iv = []"
    using assms(1,2) unfolding cache_world_ok_def history_ok_def by auto
  with assms(3) show ?thesis unfolding invalidation_ok_def by auto
qed

lemma found_after_invalidation:
  assumes nls: "nls_ok nls" and ok: "cache_world_ok nls w" and iv: "iv \<in> W_Done w" "covers_path nls (I_Target iv) path"
    and e: "path_find nls path (W_Cache w) = Some e"
    and g: "I_Target iv = Everything \<Longrightarrow> I_Generation iv \<le> unat (E_Generation e)"
  shows "I_Sequence iv \<le> unat (E_Sequence e)"
proof -
  let ?i = "bucket_index nls path"
  have mem: "e \<in> set (path_list (W_Cache w) ?i)" "RtlEqualUnicodeString nls (E_Path e) path"
    using path_find_Some [OF _ nls] e ok unfolding cache_world_ok_def by blast+
  show ?thesis
  proof (cases "I_Target iv")
    case (One q)
    then have "cleared nls (W_Cache w) iv (PathOne q)" by (intro done_cleared [OF ok iv(1)]) simp
    moreover have "RtlEqualUnicodeString nls (E_Path e) q" using iv(2) One mem(2) equal_trans by auto
    ultimately show ?thesis using mem(1) bucket_index_less [of nls path] unfolding cleared.simps by blast
  next
    case (Prefix dir)
    then have "cleared nls (W_Cache w) iv (PathUnder dir ?i)"
      by (intro done_cleared [OF ok iv(1)]) (simp add: PATH_CACHE_BUCKETS_def)
    moreover have "dir \<noteq> []"
      using ok iv(1) Prefix unfolding cache_world_ok_def history_ok_def invalidation_ok_def by blast
    then have "PathCacheIsUnder nls dir (E_Path e)"
      using iv(2) Prefix PathCacheIsUnder_equal [OF nls _ mem(2)] by simp
    ultimately show ?thesis using mem(1) by simp
  next
    case Everything
    then have "cleared nls (W_Cache w) iv Bump" by (intro done_cleared [OF ok iv(1)]) simp
    then have "I_Sequence iv \<le> unat (E_Sequence e) \<or> unat (E_Generation e) < I_Generation iv"
      using mem(1) bucket_index_less [of nls path] unfolding cleared.simps by blast
    with g [OF Everything] show ?thesis by linarith
  qed
qed

lemma listed_after_invalidation:
  assumes nls: "nls_ok nls" and ok: "cache_world_ok nls w" and iv: "iv \<in> W_Done w" "covers_listing nls (I_Target iv) dir"
    and e: "e \<in> set (listing_list (W_Cache w) (bucket_index nls dir))" "RtlEqualUnicodeString nls (L_Path e) dir"
  shows "I_Sequence iv \<le> unat (L_Sequence e)"
proof -
  let ?i = "bucket_index nls dir"
  have parent: "I_Sequence iv \<le> unat (L_Sequence e)"
    if par: "is_parent nls dir q" "I_Target iv = One q \<or> I_Target iv = Prefix q" for q
  proof -
    obtain p where p: "PathCacheParent q = Some p" "RtlEqualUnicodeString nls dir p"
      using par(1) unfolding is_parent_def by (cases "PathCacheParent q") simp_all
    have "cleared nls (W_Cache w) iv (ListOne p)"
      by (rule done_cleared [OF ok iv(1)]) (use par(2) p(1) in auto)
    then show ?thesis using e(1) equal_trans [OF e(2) p(2)] bucket_index_less [of nls dir] unfolding cleared.simps by blast
  qed
  show ?thesis
  proof (cases "I_Target iv")
    case (One q)
    then have "cleared nls (W_Cache w) iv (ListOne q)" by (intro done_cleared [OF ok iv(1)]) simp
    then show ?thesis
      using parent One iv(2) e(1) equal_trans [OF e(2), of q] bucket_index_less [of nls dir]
      unfolding cleared.simps One covers_listing.simps by blast
  next
    case (Prefix d)
    then have "cleared nls (W_Cache w) iv (ListUnder d ?i)"
      by (intro done_cleared [OF ok iv(1)]) (simp add: LISTING_CACHE_BUCKETS_def)
    moreover have "d \<noteq> []"
      using ok iv(1) Prefix unfolding cache_world_ok_def history_ok_def invalidation_ok_def by blast
    ultimately show ?thesis
      using parent [of d] Prefix iv(2) e PathCacheIsUnder_equal [OF nls, of d "L_Path e" dir] by auto
  next
    case Everything
    then have "cleared nls (W_Cache w) iv (ListAll ?i)"
      by (intro done_cleared [OF ok iv(1)]) (simp add: LISTING_CACHE_BUCKETS_def)
    then show ?thesis using e by simp
  qed
qed

end
