(* ===== verification/Path_Cache_Behaviour.thy ===== *)
theory Path_Cache_Behaviour
  imports Path_Cache_Protocol
begin

text \<open>
  The whole operations of PathCache.c run alone: what a lookup answers after each of them. The
  cache is a partial map from paths, equal but for case, to results; its interface, as a map that
  may forget, is the locale \<open>forgetful_map\<close>, which the path cache provides.
\<close>

section \<open>Lookups through the invariant\<close>

lemma find_filter_same:
  assumes "\<And>x. Q x \<Longrightarrow> P x = c"
  shows "List.find Q (filter (\<lambda>x. \<not> P x) xs) = (if c then None else List.find Q xs)"
  using assms by (induction xs) auto

lemma path_find_filter:
  assumes "path_list s' (bucket_index nls path) = filter (\<lambda>e. \<not> P (E_Path e)) (path_list s (bucket_index nls path))"
    and "\<And>p. RtlEqualUnicodeString nls p path \<Longrightarrow> P p = P path"
  shows "path_find nls path s' = (if P path then None else path_find nls path s)"
  unfolding path_find_def bucket_index_folds assms(1) by (rule find_filter_same) (rule assms(2))

lemma listing_find_filter:
  assumes "listing_list s' (bucket_index nls path) = filter (\<lambda>e. \<not> P (L_Path e)) (listing_list s (bucket_index nls path))"
    and "\<And>p. RtlEqualUnicodeString nls p path \<Longrightarrow> P p = P path"
  shows "listing_find nls path s' = (if P path then None else listing_find nls path s)"
  unfolding listing_find_def bucket_index_folds assms(1) by (rule find_filter_same) (rule assms(2))

lemma path_find_frame: "Buckets s' = Buckets s \<Longrightarrow> path_find nls path s' = path_find nls path s"
  by (simp add: path_find_def)

lemma listing_find_frame: "ListingBuckets s' = ListingBuckets s \<Longrightarrow> listing_find nls path s' = listing_find nls path s"
  by (simp add: listing_find_def)

section \<open>Invalidation\<close>

lemma equal_cong:
  "RtlEqualUnicodeString nls p path \<Longrightarrow> RtlEqualUnicodeString nls p q = RtlEqualUnicodeString nls path q"
  by (metis equal_sym equal_trans)

text \<open>An entry equal to a path lies in the path's bucket, so dropping there is dropping everywhere.\<close>

lemma drop_elsewhere:
  assumes "path_inv nls s" "nls_ok nls" "j < 256" "j \<noteq> bucket_index nls path"
  shows "filter (\<lambda>e. \<not> RtlEqualUnicodeString nls (E_Path e) path) (path_list s j) = path_list s j"
proof (rule filter_True, rule ballI)
  fix e assume "e \<in> set (path_list s j)"
  then have "bucket_index nls (E_Path e) = j" using assms(1,3) unfolding path_inv_def bucket_ok_def by blast
  then show "\<not> RtlEqualUnicodeString nls (E_Path e) path" using bucket_index_equal [OF assms(2)] assms(4) by blast
qed

lemma drop_listing_elsewhere:
  assumes "listing_inv nls ext s" "nls_ok nls" "j < 256" "j \<noteq> bucket_index nls path"
  shows "filter (\<lambda>e. \<not> RtlEqualUnicodeString nls (L_Path e) path) (listing_list s j) = listing_list s j"
proof (rule filter_True, rule ballI)
  fix e assume "e \<in> set (listing_list s j)"
  then have "bucket_index nls (L_Path e) = j" using assms(1,3) unfolding listing_inv_def bucket_ok_def by blast
  then show "\<not> RtlEqualUnicodeString nls (L_Path e) path" using bucket_index_equal [OF assms(2)] assms(4) by blast
qed

lemma path_drop_find:
  assumes "path_inv nls s" "nls_ok nls"
  shows "path_find nls p (path_drop nls path s) = (if RtlEqualUnicodeString nls p path then None else path_find nls p s)"
proof (rule path_find_filter [where P = "\<lambda>q. RtlEqualUnicodeString nls q path"])
  show "path_list (path_drop nls path s) (bucket_index nls p) =
      filter (\<lambda>e. \<not> RtlEqualUnicodeString nls (E_Path e) path) (path_list s (bucket_index nls p))"
    using drop_elsewhere [OF assms, of "bucket_index nls p" path] by (simp add: path_drop_list [OF assms(1)])
qed (rule equal_cong)

lemma ListingCacheDrop_find:
  assumes "listing_inv nls ext s" "nls_ok nls"
  shows "listing_find nls p (ListingCacheDrop nls path s) =
         (if RtlEqualUnicodeString nls p path then None else listing_find nls p s)"
proof (rule listing_find_filter [where P = "\<lambda>q. RtlEqualUnicodeString nls q path"])
  show "listing_list (ListingCacheDrop nls path s) (bucket_index nls p) =
      filter (\<lambda>e. \<not> RtlEqualUnicodeString nls (L_Path e) path) (listing_list s (bucket_index nls p))"
    using drop_listing_elsewhere [OF assms, of "bucket_index nls p" path] by (simp add: listing_drop_list [OF assms(1)])
qed (rule equal_cong)

lemma ListingCacheDropParent_find:
  assumes "listing_inv nls ext s" "nls_ok nls"
  shows "listing_find nls p (ListingCacheDropParent nls path s) = (if is_parent nls p path then None else listing_find nls p s)"
  using ListingCacheDrop_find [OF assms] by (simp add: ListingCacheDropParent_def is_parent_def split: option.split)

lemma InvalidateUnder_find:
  assumes "path_inv nls s" "nls_ok nls" "dir \<noteq> []"
  shows "path_find nls p (PathCacheInvalidateUnder nls dir False False s) =
         (if PathCacheIsUnder nls dir p then None else path_find nls p s)"
  by (rule path_find_filter [where P = "PathCacheIsUnder nls dir"])
    (simp_all add: PathCacheInvalidateUnder_def PATH_CACHE_BUCKETS_def fold_sweep_paths_list [OF assms(1)]
      PathCacheIsUnder_equal [OF assms(2,3)])

lemma DropUnder_find:
  assumes "listing_inv nls ext s" "nls_ok nls" "dir \<noteq> []"
  shows "listing_find nls p (ListingCacheDropUnder nls (Some dir) s) =
         (if PathCacheIsUnder nls dir p then None else listing_find nls p s)"
  by (rule listing_find_filter [where P = "PathCacheIsUnder nls dir"])
    (simp_all add: ListingCacheDropUnder_def LISTING_CACHE_BUCKETS_def fold_sweep_listings_list [OF assms(1)]
      PathCacheIsUnder_equal [OF assms(2,3)])

lemma DropAll_find:
  assumes "listing_inv nls ext s"
  shows "listing_find nls p (ListingCacheDropUnder nls None s) = None"
  using listing_find_filter [where P = "\<lambda>_. True" and s = s and s' = "ListingCacheDropUnder nls None s" and path = p]
  by (simp add: ListingCacheDropUnder_def LISTING_CACHE_BUCKETS_def fold_sweep_listings_list [OF assms])

lemma InvalidateUnder_frame: "path_frame s (PathCacheInvalidateUnder nls dir keepDir childrenOnly s)"
  unfolding PathCacheInvalidateUnder_def by (rule fold_sweep_paths_frame)

lemma DropUnder_frame: "listing_frame s (ListingCacheDropUnder nls dir s)"
  unfolding ListingCacheDropUnder_def by (rule fold_sweep_listings_frame)

lemma InvalidateUnder_inv: "path_inv nls s \<Longrightarrow> path_inv nls (PathCacheInvalidateUnder nls dir keepDir childrenOnly s)"
  by (simp add: PathCacheInvalidateUnder_def PATH_CACHE_BUCKETS_def path_inv_fold_sweep)

lemma DropUnder_inv: "listing_inv nls ext s \<Longrightarrow> listing_inv nls ext (ListingCacheDropUnder nls dir s)"
  by (simp add: ListingCacheDropUnder_def LISTING_CACHE_BUCKETS_def listing_inv_fold_sweep)

lemma advance_inv [simp]:
  "path_inv nls (PathCacheAdvanceSequence s) = path_inv nls s"
  "listing_inv nls ext (PathCacheAdvanceSequence s) = listing_inv nls ext s"
  by (simp_all add: PathCacheAdvanceSequence_def)

lemma advance_find [simp]:
  "path_find nls p (PathCacheAdvanceSequence s) = path_find nls p s"
  "listing_find nls p (PathCacheAdvanceSequence s) = listing_find nls p s"
  by (simp_all add: PathCacheAdvanceSequence_def path_find_def listing_find_def)

lemma BlorgPathCacheInvalidate_spec:
  assumes "path_inv nls s" "listing_inv nls ext s" "nls_ok nls" "Ready s" "path \<noteq> []"
    and s': "s' = BlorgPathCacheInvalidate nls path s"
  shows "path_inv nls s' \<and> listing_inv nls ext s' \<and> Sequence s' = Sequence s + 1 \<and>
         (\<forall>p. path_find nls p s' = (if covers_path nls (One path) p then None else path_find nls p s)) \<and>
         (\<forall>p. listing_find nls p s' = (if covers_listing nls (One path) p then None else listing_find nls p s))"
proof -
  let ?s1 = "PathCacheAdvanceSequence s"
  let ?s2 = "path_drop nls path ?s1" and ?s3 = "ListingCacheDrop nls path (path_drop nls path ?s1)"
  have eq: "s' = ListingCacheDropParent nls path ?s3"
    using assms(4,5) unfolding s' BlorgPathCacheInvalidate_def Let_def by simp
  have i2: "path_inv nls ?s2" "listing_inv nls ext ?s2"
    using assms(1,2) path_inv_drop listing_inv_path_frame [OF _ path_drop_frame] by simp_all
  have i3: "listing_inv nls ext ?s3" using listing_inv_drop i2(2) by blast
  have frame: "listing_frame ?s2 s'"
    unfolding eq by (rule listing_frame_trans [OF ListingCacheDrop_frame ListingCacheDropParent_frame])
  note f = listing_frameD [OF frame] path_frameD [OF path_drop_frame [of ?s1 nls path]]
  have "path_find nls p s' = (if RtlEqualUnicodeString nls p path then None else path_find nls p s)" for p
    using path_find_frame [OF f(1)] path_drop_find [of nls ?s1 p path] assms(1,3) by simp
  moreover have "listing_find nls p s' =
      (if RtlEqualUnicodeString nls p path \<or> is_parent nls p path then None else listing_find nls p s)" for p
    using ListingCacheDropParent_find [OF i3 assms(3)] ListingCacheDrop_find [OF i2(2) assms(3)]
      listing_find_frame [OF f(8)] unfolding eq by simp
  moreover have "Sequence s' = Sequence s + 1" using f by (simp add: PathCacheAdvanceSequence_def)
  moreover have "path_inv nls s'" "listing_inv nls ext s'"
    using path_inv_listing_frame [OF i2(1) frame] listing_inv_drop_parent [OF i3] unfolding eq by simp_all
  ultimately show ?thesis by simp
qed

lemma BlorgPathCacheInvalidatePrefix_spec:
  assumes "path_inv nls s" "listing_inv nls ext s" "nls_ok nls" "Ready s" "dir \<noteq> []"
    and s': "s' = BlorgPathCacheInvalidatePrefix nls dir s"
  shows "path_inv nls s' \<and> listing_inv nls ext s' \<and> Sequence s' = Sequence s + 1 \<and>
         (\<forall>p. path_find nls p s' = (if covers_path nls (Prefix dir) p then None else path_find nls p s)) \<and>
         (\<forall>p. listing_find nls p s' = (if covers_listing nls (Prefix dir) p then None else listing_find nls p s))"
proof -
  let ?s1 = "PathCacheAdvanceSequence s"
  let ?s2 = "PathCacheInvalidateUnder nls dir False False ?s1"
  let ?s3 = "ListingCacheDropUnder nls (Some dir) ?s2"
  have eq: "s' = ListingCacheDropParent nls dir ?s3"
    using assms(4,5) unfolding s' BlorgPathCacheInvalidatePrefix_def Let_def by simp
  have i2: "path_inv nls ?s2" "listing_inv nls ext ?s2"
    using assms(1,2) InvalidateUnder_inv listing_inv_path_frame [OF _ InvalidateUnder_frame] by simp_all
  have i3: "listing_inv nls ext ?s3" using DropUnder_inv i2(2) by blast
  have frame: "listing_frame ?s2 s'"
    unfolding eq by (rule listing_frame_trans [OF DropUnder_frame ListingCacheDropParent_frame])
  note f = listing_frameD [OF frame] path_frameD [OF InvalidateUnder_frame [of ?s1 nls dir False False]]
  have "path_find nls p s' = (if PathCacheIsUnder nls dir p then None else path_find nls p s)" for p
    using path_find_frame [OF f(1)] InvalidateUnder_find [of nls ?s1 dir p] assms(1,3,5) by simp
  moreover have "listing_find nls p s' =
      (if PathCacheIsUnder nls dir p \<or> is_parent nls p dir then None else listing_find nls p s)" for p
    using ListingCacheDropParent_find [OF i3 assms(3)] DropUnder_find [OF i2(2) assms(3,5)]
      listing_find_frame [OF f(8)] unfolding eq by simp
  moreover have "Sequence s' = Sequence s + 1" using f by (simp add: PathCacheAdvanceSequence_def)
  moreover have "path_inv nls s'" "listing_inv nls ext s'"
    using path_inv_listing_frame [OF i2(1) frame] listing_inv_drop_parent [OF i3] unfolding eq by simp_all
  ultimately show ?thesis by simp
qed

section \<open>Insertion\<close>

definition insertable :: "UNICODE_STRING \<Rightarrow> bool" where
  "insertable path \<longleftrightarrow> path \<noteq> [] \<and> byte_length path \<le> PATH_CACHE_MAX_PATH_BYTES"

lemma PathCacheInsert_spec:
  assumes iv: "path_inv nls s" and nls: "nls_ok nls" and rdy: "Ready s" and path: "insertable path"
    and meta: "exists \<Longrightarrow> case meta of Some m \<Rightarrow> \<not> NoStore m | None \<Rightarrow> True"
    and honoured: "PathCacheTicketHonoured ticket s"
    and s': "s' = PathCacheInsert nls True now path exists meta ticket s"
  shows "path_inv nls s' \<and> path_frame s s' \<and>
         (\<forall>p. RtlEqualUnicodeString nls p path \<longrightarrow>
            (\<exists>e. path_find nls p s' = Some e \<and> written exists meta ticket now (Generation s) s e)) \<and>
         (\<forall>p. \<not> RtlEqualUnicodeString nls p path \<longrightarrow> path_find nls p s' = None \<or> path_find nls p s' = path_find nls p s)"
proof -
  have eq: "s' = insert_locked nls path exists meta ticket now (PathCacheLifetime s) (Generation s) s"
    using rdy path meta unfolding s' PathCacheInsert_def insertable_def by (auto split: option.splits)
  have ne: "path \<noteq> []" using path by (simp add: insertable_def)
  note spec = insert_locked_spec [OF iv nls ne eq]
  have iv': "path_inv nls s'" using spec by blast
  have "\<exists>e. path_find nls p s' = Some e \<and> written exists meta ticket now (Generation s) s e"
    if p: "RtlEqualUnicodeString nls p path" for p
  proof -
    obtain e where e: "e \<in> set (path_list s' (bucket_index nls path))" "RtlEqualUnicodeString nls (E_Path e) path"
      "written exists meta ticket now (Generation s) s e"
      using spec honoured by blast
    have "path_find nls p s' = Some e"
      unfolding path_find_Some [OF iv' nls]
      using e(1,2) equal_trans [OF e(2) equal_sym [OF p]] bucket_index_equal [OF nls p] by simp
    with e(3) show ?thesis by blast
  qed
  moreover have "path_find nls p s' = None \<or> path_find nls p s' = path_find nls p s"
    if p: "\<not> RtlEqualUnicodeString nls p path" for p
  proof (cases "path_find nls p s'")
    case (Some e)
    then have e: "e \<in> set (path_list s' (bucket_index nls p))" "RtlEqualUnicodeString nls (E_Path e) p"
      using path_find_Some [OF iv' nls] by blast+
    then have "\<not> RtlEqualUnicodeString nls (E_Path e) path" using p equal_sym equal_trans by blast
    with spec e(1) have "e \<in> set (path_list s (bucket_index nls p))" by (meson bucket_index_less)
    then have "path_find nls p s = Some e" using path_find_Some [OF iv nls] e(2) by blast
    with Some show ?thesis by simp
  qed simp
  ultimately show ?thesis using spec by blast
qed

section \<open>A map that may forget\<close>

text \<open>
  What a client of the path cache may rely on: a lookup after an insert of the same path answers
  what was inserted, and a lookup of another path answers what it answered before or nothing. The
  cache may drop any entry to make room. \<open>aux\<close> is what an insert needs beside key and value.
\<close>

locale forgetful_map =
  fixes put :: "'a \<Rightarrow> 'k \<Rightarrow> 'v \<Rightarrow> 's \<Rightarrow> 's" and get :: "'k \<Rightarrow> 's \<Rightarrow> 'v option"
    and same :: "'k \<Rightarrow> 'k \<Rightarrow> bool" and ok :: "'s \<Rightarrow> bool" and key_ok :: "'k \<Rightarrow> bool" and val_ok :: "'v \<Rightarrow> bool"
  assumes get_put: "ok s \<Longrightarrow> key_ok k \<Longrightarrow> val_ok v \<Longrightarrow> same k' k \<Longrightarrow> get k' (put a k v s) = Some v"
    and get_put_other: "ok s \<Longrightarrow> key_ok k \<Longrightarrow> val_ok v \<Longrightarrow> \<not> same k' k \<Longrightarrow>
      get k' (put a k v s) = None \<or> get k' (put a k v s) = get k' s"
    and put_ok: "ok s \<Longrightarrow> key_ok k \<Longrightarrow> val_ok v \<Longrightarrow> ok (put a k v s)"
begin

abbreviation put_all :: "('a \<times> 'k \<times> 'v) list \<Rightarrow> 's \<Rightarrow> 's" where
  "put_all xs s \<equiv> fold (\<lambda>(a, k, v). put a k v) xs s"

text \<open>After a sequence of inserts a key has its last value, or none.\<close>

lemma get_put_all:
  assumes "ok s" "\<forall>(a, k, v)\<in>set xs. key_ok k \<and> val_ok v"
  shows "ok (put_all xs s) \<and>
         (get k (put_all xs s) = None \<or>
          get k (put_all xs s) =
            (case List.find (\<lambda>(_, k', _). same k k') (rev xs) of Some (_, _, v) \<Rightarrow> Some v | None \<Rightarrow> get k s))"
  using assms
proof (induction xs rule: rev_induct)
  case (snoc x xs)
  obtain a k' v where x: "x = (a, k', v)" by (cases x)
  have IH: "ok (put_all xs s)" "get k (put_all xs s) = None \<or> get k (put_all xs s) =
      (case List.find (\<lambda>(_, k', _). same k k') (rev xs) of Some (_, _, v) \<Rightarrow> Some v | None \<Rightarrow> get k s)"
    using snoc by auto
  have kv: "key_ok k'" "val_ok v" using snoc.prems(2) x by auto
  have ok: "ok (put a k' v (put_all xs s))" using put_ok [OF IH(1) kv] .
  show ?case
  proof (cases "same k k'")
    case True
    with ok get_put [OF IH(1) kv True] show ?thesis by (simp add: x)
  next
    case False
    with ok IH(2) get_put_other [OF IH(1) kv False, of a] show ?thesis by (auto simp: x)
  qed
qed simp

end

text \<open>The path cache as that map, under one honoured ticket.\<close>

definition cache_put ::
    "NLS \<Rightarrow> PATH_CACHE_TICKET option \<Rightarrow> ULONG64 \<Rightarrow> UNICODE_STRING \<Rightarrow> DIRECTORY_ENTRY_METADATA option \<Rightarrow>
     PATH_CACHE_STATE \<Rightarrow> PATH_CACHE_STATE" where
  "cache_put nls ticket now path v s = PathCacheInsert nls True now path (v \<noteq> None) v ticket s"

definition cache_get :: "NLS \<Rightarrow> UNICODE_STRING \<Rightarrow> PATH_CACHE_STATE \<Rightarrow> DIRECTORY_ENTRY_METADATA option option" where
  "cache_get nls path s = map_option (\<lambda>e. if E_Exists e then Some (E_Meta e) else None) (path_find nls path s)"

definition cache_ready :: "NLS \<Rightarrow> PATH_CACHE_TICKET option \<Rightarrow> PATH_CACHE_STATE \<Rightarrow> bool" where
  "cache_ready nls ticket s \<longleftrightarrow> nls_ok nls \<and> path_inv nls s \<and> Ready s \<and> PathCacheTicketHonoured ticket s"

definition storable :: "DIRECTORY_ENTRY_METADATA option \<Rightarrow> bool" where
  "storable v \<longleftrightarrow> (case v of Some m \<Rightarrow> \<not> NoStore m | None \<Rightarrow> True)"

lemma honoured_frame: "path_frame s s' \<Longrightarrow> PathCacheTicketHonoured ticket s' = PathCacheTicketHonoured ticket s"
  by (simp add: PathCacheTicketHonoured_def path_frameD split: option.split)

interpretation path_map: forgetful_map "cache_put nls ticket" "cache_get nls" "RtlEqualUnicodeString nls"
  "cache_ready nls ticket" insertable storable
proof (unfold_locales, goal_cases)
  case (1 s k v k' a)
  then have "\<exists>e. path_find nls k' (cache_put nls ticket a k v s) = Some e \<and> written (v \<noteq> None) v ticket a (Generation s) s e"
    using PathCacheInsert_spec [of nls s k "v \<noteq> None" v ticket _ a]
    unfolding cache_ready_def storable_def cache_put_def by blast
  then show ?case by (auto simp: cache_get_def written_def)
next
  case (2 s k v k' a)
  then have "path_find nls k' (cache_put nls ticket a k v s) = None \<or>
      path_find nls k' (cache_put nls ticket a k v s) = path_find nls k' s"
    using PathCacheInsert_spec [of nls s k "v \<noteq> None" v ticket _ a]
    unfolding cache_ready_def storable_def cache_put_def by blast
  then show ?case by (auto simp: cache_get_def)
next
  case (3 s k v a)
  then have iv: "path_inv nls (cache_put nls ticket a k v s)" and frame: "path_frame s (cache_put nls ticket a k v s)"
    using PathCacheInsert_spec [of nls s k "v \<noteq> None" v ticket _ a]
    unfolding cache_ready_def storable_def cache_put_def by blast+
  with 3 show ?case by (simp add: cache_ready_def honoured_frame [OF frame] path_frameD(4) [OF frame])
qed

end
