(* ===== verification/Path_Cache_Seed.thy ===== *)
theory Path_Cache_Seed
  imports Path_Cache_Behaviour
begin

text \<open>
  Seeding the path cache from a listing is equivalent to answering from the listing: what a lookup
  of a child finds after BlorgPathCacheSeedListing is what the per-open scan of the listing
  (CreateFindEntryByName) finds, files before subdirectories and the first of two names that
  differ only in case, or nothing.
\<close>

text \<open>What the entry at a place of the listing is seeded as, if it can be.\<close>

definition seed_item ::
    "(nat \<Rightarrow> ULONG64) \<Rightarrow> UNICODE_STRING \<Rightarrow> DIRECTORY_INFO \<Rightarrow> nat \<Rightarrow>
     (ULONG64 \<times> UNICODE_STRING \<times> DIRECTORY_ENTRY_METADATA option) list" where
  "seed_item clk scratch li j =
     (if PathCacheIsComponent (HttpListingEntryName li j) \<and>
         byte_length scratch + byte_length (HttpListingEntryName li j) \<le> PATH_CACHE_MAX_PATH_BYTES
      then [(clk j, scratch @ HttpListingEntryName li j, Some (entry_metadata li j zero_metadata))] else [])"

definition seed_clock :: "(bool \<Rightarrow> nat \<Rightarrow> ULONG64) \<Rightarrow> DIRECTORY_INFO \<Rightarrow> nat \<Rightarrow> ULONG64" where
  "seed_clock clock li j = (if j < FileCount li then clock False j else clock True (j - FileCount li))"

definition seed_items :: "(nat \<Rightarrow> ULONG64) \<Rightarrow> UNICODE_STRING \<Rightarrow> DIRECTORY_INFO \<Rightarrow> nat list \<Rightarrow>
     (ULONG64 \<times> UNICODE_STRING \<times> DIRECTORY_ENTRY_METADATA option) list" where
  "seed_items clk scratch li js = concat (map (seed_item clk scratch li) js)"

lemma seed_items_simps [simp]:
  "seed_items clk scratch li [] = []"
  "seed_items clk scratch li (j # js) = seed_item clk scratch li j @ seed_items clk scratch li js"
  "seed_items clk scratch li (is @ js) = seed_items clk scratch li is @ seed_items clk scratch li js"
  by (simp_all add: seed_items_def)

lemma rev_seed_item [simp]: "rev (seed_item clk scratch li j) = seed_item clk scratch li j"
  by (simp add: seed_item_def)

lemma rev_seed_items: "rev (seed_items clk scratch li js) = seed_items clk scratch li (rev js)"
  by (induction js) simp_all

abbreviation put_seeds :: "NLS \<Rightarrow> PATH_CACHE_TICKET option \<Rightarrow> (ULONG64 \<times> UNICODE_STRING \<times> DIRECTORY_ENTRY_METADATA option) list \<Rightarrow>
    PATH_CACHE_STATE \<Rightarrow> PATH_CACHE_STATE" where
  "put_seeds nls ticket xs s \<equiv> fold (\<lambda>(a, k, v). cache_put nls ticket a k v) xs s"

lemma PathCacheSeedEntry_item:
  assumes "HttpListingEntryName li j = name" "entry_metadata li j zero_metadata = meta" "clk j = now"
  shows "PathCacheSeedEntry nls True now scratch name meta ticket s = put_seeds nls ticket (seed_item clk scratch li j) s"
  using assms by (auto simp: PathCacheSeedEntry_def seed_item_def cache_put_def)

section \<open>The two loops\<close>

lemma seed_subdirs_items:
  assumes "n \<le> SubDirCount li" "Size meta = 0" "IsDirectory meta" "\<not> NoStore meta"
  shows "\<exists>meta'. Size meta' = 0 \<and> \<not> NoStore meta' \<and>
           seed_subdirs nls (\<lambda>_ _. True) clock scratch li ticket n meta s =
             (meta', put_seeds nls ticket (seed_items (seed_clock clock li) scratch li (map (\<lambda>i. FileCount li + i) (rev [0..<n]))) s)"
  using assms
proof (induction n arbitrary: meta s)
  case (Suc n)
  let ?sub = "SubDirs li ! n"
  let ?meta = "meta\<lparr>CreationTime := S_CreationTime ?sub, LastAccessedTime := S_LastAccessedTime ?sub,
      LastModifiedTime := S_LastModifiedTime ?sub\<rparr>"
  have sub: "BlorgGetSubDirEntry li n = Some ?sub" using Suc.prems(1) by (simp add: BlorgGetSubDirEntry_def)
  have meta: "entry_metadata li (FileCount li + n) zero_metadata = ?meta"
    using Suc.prems by (simp add: entry_metadata_def Let_def zero_metadata_def)
  have step: "PathCacheSeedEntry nls True (clock True n) scratch (S_Name ?sub) ?meta ticket s =
      put_seeds nls ticket (seed_item (seed_clock clock li) scratch li (FileCount li + n)) s"
    by (rule PathCacheSeedEntry_item) (use meta in \<open>simp_all add: HttpListingEntryName_def seed_clock_def\<close>)
  have "\<exists>meta'. Size meta' = 0 \<and> \<not> NoStore meta' \<and>
      seed_subdirs nls (\<lambda>_ _. True) clock scratch li ticket n ?meta
        (put_seeds nls ticket (seed_item (seed_clock clock li) scratch li (FileCount li + n)) s) =
      (meta', put_seeds nls ticket (seed_items (seed_clock clock li) scratch li (map (\<lambda>i. FileCount li + i) (rev [0..<n])))
        (put_seeds nls ticket (seed_item (seed_clock clock li) scratch li (FileCount li + n)) s))"
    by (rule Suc.IH) (use Suc.prems in simp_all)
  then show ?case by (simp add: sub Let_def step)
qed simp

lemma seed_files_items:
  assumes "n \<le> FileCount li" "\<not> IsDirectory meta" "\<not> NoStore meta"
  shows "seed_files nls (\<lambda>_ _. True) clock scratch li ticket n meta s =
         put_seeds nls ticket (seed_items (seed_clock clock li) scratch li (rev [0..<n])) s"
  using assms
proof (induction n arbitrary: meta s)
  case (Suc n)
  let ?fi = "Files li ! n"
  let ?meta = "meta\<lparr>Size := F_Size ?fi, CreationTime := F_CreationTime ?fi,
      LastAccessedTime := F_LastAccessedTime ?fi, LastModifiedTime := F_LastModifiedTime ?fi\<rparr>"
  have fi: "BlorgGetFileEntry li n = Some ?fi" using Suc.prems(1) by (simp add: BlorgGetFileEntry_def)
  have meta: "entry_metadata li n zero_metadata = ?meta"
    using Suc.prems by (simp add: entry_metadata_def Let_def zero_metadata_def)
  have step: "PathCacheSeedEntry nls True (clock False n) scratch (F_Name ?fi) ?meta ticket s =
      put_seeds nls ticket (seed_item (seed_clock clock li) scratch li n) s"
    by (rule PathCacheSeedEntry_item) (use meta Suc.prems(1) in \<open>simp_all add: HttpListingEntryName_def seed_clock_def\<close>)
  have "seed_files nls (\<lambda>_ _. True) clock scratch li ticket n ?meta
        (put_seeds nls ticket (seed_item (seed_clock clock li) scratch li n) s) =
      put_seeds nls ticket (seed_items (seed_clock clock li) scratch li (rev [0..<n]))
        (put_seeds nls ticket (seed_item (seed_clock clock li) scratch li n) s)"
    by (rule Suc.IH) (use Suc.prems in simp_all)
  then show ?case by (simp add: fi Let_def step)
qed simp

text \<open>Together they insert the first PATH_CACHE_SEED_MAX entries of the listing, last first.\<close>

lemma seed_entries_items:
  "seed_entries nls (\<lambda>_ _. True) clock dir li ticket s =
   put_seeds nls ticket
     (seed_items (seed_clock clock li) (with_separator dir) li (rev [0..<min PATH_CACHE_SEED_MAX (entry_count li)])) s"
proof -
  let ?scratch = "with_separator dir" and ?clk = "seed_clock clock li"
  define files where "files = (if FileCount li < PATH_CACHE_SEED_MAX then FileCount li else PATH_CACHE_SEED_MAX)"
  define subs where "subs = (if SubDirCount li < PATH_CACHE_SEED_MAX - files then SubDirCount li else PATH_CACHE_SEED_MAX - files)"
  have le: "files \<le> FileCount li" "subs \<le> SubDirCount li" by (auto simp: files_def subs_def)
  have zero: "Size (zero_metadata\<lparr>IsDirectory := True\<rparr>) = 0" "IsDirectory (zero_metadata\<lparr>IsDirectory := True\<rparr>)"
    "\<not> NoStore (zero_metadata\<lparr>IsDirectory := True\<rparr>)"
    by (simp_all add: zero_metadata_def)
  obtain meta where meta: "\<not> NoStore meta"
    "seed_subdirs nls (\<lambda>_ _. True) clock ?scratch li ticket subs (zero_metadata\<lparr>IsDirectory := True\<rparr>) s =
      (meta, put_seeds nls ticket (seed_items ?clk ?scratch li (map (\<lambda>i. FileCount li + i) (rev [0..<subs]))) s)"
    using seed_subdirs_items [OF le(2) zero, of nls clock ?scratch ticket s] by blast
  have order: "map (\<lambda>i. FileCount li + i) (rev [0..<subs]) @ rev [0..<files] =
      rev [0..<min PATH_CACHE_SEED_MAX (entry_count li)]"
  proof (cases "FileCount li < PATH_CACHE_SEED_MAX")
    case True
    then have "min PATH_CACHE_SEED_MAX (entry_count li) = files + subs" "files = FileCount li" by (auto simp: files_def subs_def)
    moreover have "map (\<lambda>i. FileCount li + i) [0..<subs] = [FileCount li..<FileCount li + subs]"
      by (induction subs) simp_all
    ultimately show ?thesis
      unfolding rev_map [symmetric] by (simp only: rev_append [symmetric] upt_add_eq_append [OF le0])
  next
    case False
    then show ?thesis by (simp add: files_def subs_def)
  qed
  have "seed_entries nls (\<lambda>_ _. True) clock dir li ticket s =
      seed_files nls (\<lambda>_ _. True) clock ?scratch li ticket files (meta\<lparr>IsDirectory := False\<rparr>)
        (put_seeds nls ticket (seed_items ?clk ?scratch li (map (\<lambda>i. FileCount li + i) (rev [0..<subs]))) s)"
    unfolding seed_entries_def Let_def files_def [symmetric] subs_def [symmetric] meta(2) by simp
  also have "\<dots> = put_seeds nls ticket (seed_items ?clk ?scratch li (map (\<lambda>i. FileCount li + i) (rev [0..<subs]) @ rev [0..<files])) s"
    using seed_files_items [OF le(1), of "meta\<lparr>IsDirectory := False\<rparr>"] meta(1) by simp
  finally show ?thesis unfolding order .
qed

section \<open>The lookup\<close>

lemma seed_items_ok:
  assumes "\<forall>j\<in>set js. j < entry_count li" "scratch \<noteq> []"
  shows "\<forall>(a, k, v)\<in>set (seed_items clk scratch li js). insertable k \<and> storable v"
  using assms
  by (auto simp: seed_items_def seed_item_def insertable_def storable_def entry_metadata_def Let_def zero_metadata_def
      split: if_splits)

lemma component_equal:
  assumes "nls_ok nls" "RtlEqualUnicodeString nls a b" "PathCacheIsComponent b"
  shows "PathCacheIsComponent a"
proof -
  have len: "length a = length b" using assms(2) by (rule equal_length)
  have "a ! i \<noteq> backslash" if "i < length a" for i
    using equal_nth_separator [OF assms(1,2) that] that len assms(3) by (metis PathCacheIsComponent_iff nth_mem)
  then have "backslash \<notin> set a" by (auto simp: in_set_conv_nth)
  with assms(3) len show ?thesis by (auto simp: PathCacheIsComponent_iff)
qed

lemma find_seed_items:
  assumes "nls_ok nls" "PathCacheIsComponent name" "byte_length scratch + byte_length name \<le> PATH_CACHE_MAX_PATH_BYTES"
  shows "List.find (\<lambda>(_, k, _). RtlEqualUnicodeString nls (scratch @ name) k) (seed_items clk scratch li js) =
         map_option (\<lambda>j. (clk j, scratch @ HttpListingEntryName li j, Some (entry_metadata li j zero_metadata)))
           (List.find (\<lambda>j. RtlEqualUnicodeString nls (HttpListingEntryName li j) name) js)"
proof (induction js)
  case (Cons j js)
  let ?n = "HttpListingEntryName li j"
  have "PathCacheIsComponent ?n \<and> byte_length scratch + byte_length ?n \<le> PATH_CACHE_MAX_PATH_BYTES"
    if "RtlEqualUnicodeString nls ?n name"
    using that component_equal [OF assms(1) that assms(2)] equal_length [OF that] assms(3) by simp
  then show ?case
    using Cons.IH by (auto simp: seed_item_def equal_append_same equal_commute [of nls name])
qed simp

lemma find_seed_items_long:
  assumes "\<not> byte_length scratch + byte_length name \<le> PATH_CACHE_MAX_PATH_BYTES"
  shows "List.find (\<lambda>(_, k, _). RtlEqualUnicodeString nls (scratch @ name) k) (seed_items clk scratch li js) = None"
  using assms by (induction js) (auto simp: seed_item_def equal_append_same dest: equal_length)

lemma find_upt_prefix:
  assumes "List.find P [0..<m] = Some j" "m \<le> n"
  shows "List.find P [0..<n] = Some j"
proof -
  have "List.find P (xs @ ys) = Some j" if "List.find P xs = Some j" for xs ys
    using that by (induction xs) (auto split: if_splits)
  moreover have "[0..<n] = [0..<m] @ [m..<n]" using assms(2) by (metis upt_add_eq_append le_add_diff_inverse le0)
  ultimately show ?thesis using assms(1) by metis
qed

text \<open>The children are dropped before they are seeded, so nothing older is left.\<close>

lemma InvalidateUnder_child_find:
  assumes "path_inv nls s" "nls_ok nls" "dir \<noteq> []" "PathCacheIsComponent name"
  shows "path_find nls (with_separator dir @ name) (PathCacheInvalidateUnder nls dir True childrenOnly s) = None"
proof -
  let ?p = "with_separator dir @ name" and ?s = "PathCacheInvalidateUnder nls dir True childrenOnly s"
  let ?P = "\<lambda>q. PathCacheIsUnder nls dir q \<and> \<not> (True \<and> length q = length dir) \<and> \<not> (childrenOnly \<and> PathCacheIsBelowChild dir q)"
  have below: "PathCacheIsBelowChild dir q = PathCacheIsBelowChild dir ?p" if "RtlEqualUnicodeString nls q ?p" for q
    unfolding PathCacheIsBelowChild_def list_ex_iff equal_length [OF that]
    using equal_nth_separator [OF assms(2) that] equal_length [OF that] by auto
  have "?P ?p"
    using PathCacheIsUnder_child [OF assms(3)] PathCacheIsBelowChild_child [OF assms(3)] assms(3,4)
    by (simp add: PathCacheIsComponent_iff with_separator_eq)
  moreover have "path_find nls ?p ?s = (if ?P ?p then None else path_find nls ?p s)"
  proof (rule path_find_filter)
    show "path_list ?s (bucket_index nls ?p) = filter (\<lambda>e. \<not> ?P (E_Path e)) (path_list s (bucket_index nls ?p))"
      using fold_sweep_paths_list [OF assms(1) bucket_index_less]
      by (simp add: PathCacheInvalidateUnder_def PATH_CACHE_BUCKETS_def)
    fix q assume q: "RtlEqualUnicodeString nls q ?p"
    show "?P q = ?P ?p"
      unfolding below [OF q] PathCacheIsUnder_equal [OF assms(2,3) q] equal_length [OF q] by (rule refl)
  qed
  ultimately show ?thesis by simp
qed

lemma seed_listing_get:
  assumes ready: "cache_ready nls ticket s" and dir: "dir \<noteq> []" and name: "PathCacheIsComponent name"
    and s': "s' = BlorgPathCacheSeedListing nls True (\<lambda>_ _. True) clock dir (Some li) ticket s"
  shows "path_inv nls s' \<and>
         (cache_get nls (with_separator dir @ name) s' = None \<or>
          (\<exists>j. scan_listing nls li name = Some j \<and>
               cache_get nls (with_separator dir @ name) s' = Some (Some (entry_metadata li j zero_metadata))))"
proof -
  let ?k = "with_separator dir @ name" and ?n = "min PATH_CACHE_SEED_MAX (entry_count li)"
  let ?s1 = "PathCacheInvalidateUnder nls dir True (ChangeFeedLive s) s"
  let ?items = "seed_items (seed_clock clock li) (with_separator dir) li (rev [0..<?n])"
  have r: "nls_ok nls" "path_inv nls s" "Ready s" using ready by (simp_all add: cache_ready_def)
  have ready1: "cache_ready nls ticket ?s1"
    using ready InvalidateUnder_inv honoured_frame [OF InvalidateUnder_frame] path_frameD(4) [OF InvalidateUnder_frame]
    unfolding cache_ready_def by blast
  have none: "cache_get nls ?k ?s1 = None"
    using InvalidateUnder_child_find [OF r(2,1) dir name] by (simp add: cache_get_def)
  show ?thesis
  proof (cases "byte_length dir + 2 > PATH_CACHE_MAX_PATH_BYTES")
    case True
    then have "s' = ?s1" using r(3) dir by (simp add: s' BlorgPathCacheSeedListing_def)
    with none ready1 show ?thesis by (simp add: cache_ready_def)
  next
    case False
    then have eq: "s' = put_seeds nls ticket ?items ?s1"
      using r(3) dir by (simp add: s' BlorgPathCacheSeedListing_def seed_entries_items)
    have ok: "\<forall>(a, k, v)\<in>set ?items. insertable k \<and> storable v"
      by (rule seed_items_ok) (use dir in \<open>auto simp: with_separator_eq\<close>)
    note get = path_map.get_put_all [OF ready1 ok, of ?k, folded eq]
    have "cache_get nls ?k s' = None \<or> (\<exists>j. scan_listing nls li name = Some j \<and>
        cache_get nls ?k s' = Some (Some (entry_metadata li j zero_metadata)))"
    proof (cases "byte_length (with_separator dir) + byte_length name \<le> PATH_CACHE_MAX_PATH_BYTES")
      case True
      note found = find_seed_items [OF r(1) name True, of "seed_clock clock li" li "[0..<?n]"]
      show ?thesis
      proof (cases "List.find (\<lambda>j. RtlEqualUnicodeString nls (HttpListingEntryName li j) name) [0..<?n]")
        case None
        then show ?thesis using get none by (simp add: rev_seed_items found)
      next
        case (Some j)
        then have "scan_listing nls li name = Some j" unfolding scan_listing_def by (rule find_upt_prefix) simp
        then show ?thesis using get Some by (auto simp: rev_seed_items found)
      qed
    next
      case False
      then show ?thesis using get none by (simp add: rev_seed_items find_seed_items_long [OF False])
    qed
    with get show ?thesis by (simp add: cache_ready_def)
  qed
qed

end
