(* ===== verification/Listing_Theorems.thy ===== *)
theory Listing_Theorems
  imports Listing_Correct
begin

text \<open>
  The properties of directory listings, from the decoding of the server's answer to the lookup of
  a name, with a concrete answer that meets their hypotheses.
\<close>

section \<open>A concrete answer\<close>

text \<open>A directory holding the file \<open>b\<close> and the subdirectory \<open>c\<close>, in ASCII.\<close>

definition ex_utf8 :: utf8_decoder where
  "ex_utf8 room bytes =
     (if 2 * length bytes \<le> room then (STATUS_SUCCESS, map ucast bytes) else (STATUS_INVALID_PARAMETER, []))"

definition ex_flat :: flat_directory where
  "ex_flat = \<lparr>fd_files = [Some \<lparr>ff_name = Some [0x62], ff_size = 9, ff_created = 1, ff_accessed = 2, ff_modified = 3\<rparr>],
     fd_subdirectories = [Some \<lparr>fs_name = Some [0x63], fs_created = 4, fs_accessed = 5, fs_modified = 6\<rparr>]\<rparr>"

definition ex_listing :: DIRECTORY_INFO where
  "ex_listing = (case HttpDecodeListing ascii_nls ex_utf8 True ex_flat 64 False of Inr li \<Rightarrow> li)"

lemma ex_utf8_ok: "utf8_ok ex_utf8"
  by (simp add: utf8_ok_def ex_utf8_def)

lemma ex_decoded: "HttpDecodeListing ascii_nls ex_utf8 True ex_flat 64 False = Inr ex_listing"
proof -
  have "\<not> isl (HttpDecodeListing ascii_nls ex_utf8 True ex_flat 64 False)" by code_simp
  then show ?thesis by (simp add: ex_listing_def isl_def split: sum.splits)
qed

lemma ex_listing_value:
  "Files ex_listing = [\<lparr>F_Size = 9, F_CreationTime = 1, F_LastAccessedTime = 2, F_LastModifiedTime = 3, F_Name = [0x62], F_NameAt = 0\<rparr>]"
  "SubDirs ex_listing = [\<lparr>S_CreationTime = 4, S_LastAccessedTime = 5, S_LastModifiedTime = 6, S_Name = [0x63], S_NameAt = 2\<rparr>]"
  "DI_Bytes ex_listing = 200" "RefCount ex_listing = 1" "Descendants ex_listing = []" "\<not> DI_NoStore ex_listing"
  by code_simp+

lemma ex_flat_small:
  "Some name \<in> set (flat_names ex_flat) \<Longrightarrow> length name < 2 ^ 32"
  "length (fd_files ex_flat) + length (fd_subdirectories ex_flat) < 2 ^ 64"
  by (auto simp: ex_flat_def flat_names_def)

section \<open>Looking a name up\<close>

text \<open>
  The lookup CreateFindEntryByName promises: the first file of the listing with the name, else the
  first subdirectory with it.
\<close>

definition find_entry_by_name ::
    "NLS \<Rightarrow> DIRECTORY_INFO \<Rightarrow> UNICODE_STRING \<Rightarrow> DIRECTORY_ENTRY_METADATA \<Rightarrow> DIRECTORY_ENTRY_METADATA option" where
  "find_entry_by_name nls li name out =
     (case List.find (\<lambda>f. RtlEqualUnicodeString nls (F_Name f) name) (Files li) of
        Some f \<Rightarrow> Some (out\<lparr>Size := F_Size f, CreationTime := F_CreationTime f, LastAccessedTime := F_LastAccessedTime f,
                          LastModifiedTime := F_LastModifiedTime f, IsDirectory := False\<rparr>)
      | None \<Rightarrow>
          map_option (\<lambda>d. out\<lparr>Size := 0, CreationTime := S_CreationTime d, LastAccessedTime := S_LastAccessedTime d,
                              LastModifiedTime := S_LastModifiedTime d, IsDirectory := True\<rparr>)
            (List.find (\<lambda>d. RtlEqualUnicodeString nls (S_Name d) name) (SubDirs li)))"

lemma find_append: "List.find P (xs @ ys) = (case List.find P xs of Some x \<Rightarrow> Some x | None \<Rightarrow> List.find P ys)"
  by (induction xs) simp_all

lemma find_map: "List.find P (map f xs) = map_option f (List.find (\<lambda>x. P (f x)) xs)"
  by (induction xs) simp_all

lemma find_cong_set: "(\<And>x. x \<in> set xs \<Longrightarrow> P x = Q x) \<Longrightarrow> List.find P xs = List.find Q xs"
  by (induction xs) simp_all

lemma find_nth: "List.find P xs = map_option (\<lambda>i. xs ! i) (List.find (\<lambda>i. P (xs ! i)) [0..<length xs])"
  using find_map [of P "\<lambda>i. xs ! i" "[0..<length xs]"] by (simp add: map_nth)

lemma scan_listing_entry:
  "map_option (\<lambda>entry. entry_metadata li entry out) (scan_listing nls li name) = find_entry_by_name nls li name out"
proof -
  let ?P = "\<lambda>j. RtlEqualUnicodeString nls (HttpListingEntryName li j) name"
  let ?m = "FileCount li" and ?n = "SubDirCount li"
  have files: "List.find ?P [0..<?m] = List.find (\<lambda>i. RtlEqualUnicodeString nls (F_Name (Files li ! i)) name) [0..<?m]"
    by (rule find_cong_set) (simp add: HttpListingEntryName_def)
  have "[?m..<?m + ?n] = map (\<lambda>i. i + ?m) [0..<?n]" by (simp add: map_add_upt add.commute)
  then have subs: "List.find ?P [?m..<?m + ?n] =
      map_option (\<lambda>i. i + ?m) (List.find (\<lambda>i. RtlEqualUnicodeString nls (S_Name (SubDirs li ! i)) name) [0..<?n])"
    by (simp add: find_map HttpListingEntryName_def)
  have split: "[0..<?m + ?n] = [0..<?m] @ [?m..<?m + ?n]" by (rule upt_add_eq_append) simp
  have inside: "i < ?m" if "List.find ?P [0..<?m] = Some i" for i using find_SomeD [OF that] by simp
  show ?thesis
    unfolding scan_listing_def find_entry_by_name_def split find_append subs
      find_nth [of "\<lambda>f. RtlEqualUnicodeString nls (F_Name f) name"] find_nth [of "\<lambda>f. RtlEqualUnicodeString nls (S_Name f) name"]
    using inside unfolding files
    by (auto simp: entry_metadata_def Let_def option.map_comp o_def split: option.split)
qed

text \<open>C28. On a listing decoded from any answer of the server, the hashed lookup of a name ends and
  answers what a linear search of the files and then of the subdirectories answers, whatever the
  runtime's hash collides on, case ignored.\<close>

theorem decoded_listing_lookup:
  assumes "nls_ok nls" "utf8_ok utf8"
    and "\<And>n. Some n \<in> set (flat_names d) \<Longrightarrow> length n < 2 ^ 32"
    and "length (fd_files d) + length (fd_subdirectories d) < 2 ^ 64"
    and "HttpDecodeListing nls utf8 pool d bodyLen noStore = Inr li"
  shows "CreateFindEntryByName nls li name out = Some (find_entry_by_name nls li name out)"
proof -
  have "indexed nls li" using HttpDecodeListing_Inr [OF assms(2-5)] by blast
  then show ?thesis
    by (simp add: CreateFindEntryByName_def BlorgFindDirectoryEntry_scan [OF assms(1)] scan_listing_entry)
qed

definition ex_blank :: DIRECTORY_ENTRY_METADATA where
  "ex_blank = \<lparr>Size = 0, CreationTime = 0, LastAccessedTime = 0, LastModifiedTime = 0, IsDirectory = False, NoStore = False\<rparr>"

theorem decoded_listing_lookup_witness:
  "map_option (map_option Size) (CreateFindEntryByName ascii_nls ex_listing [0x42] ex_blank) = Some (Some 9)"
  using decoded_listing_lookup [OF ascii_nls_ok ex_utf8_ok ex_flat_small ex_decoded, of "[0x42]" ex_blank]
  by (simp add: find_entry_by_name_def ex_listing_value RtlEqualUnicodeString_def ascii_nls_def)

section \<open>Decoding\<close>

text \<open>C29. A listing decoded from the server's answer lies inside the one block allocated for it:
  its entries, its index and its names follow each other without overlap, every name with its
  terminator ends before the block does, and the block never holds more entries than the answer's
  bytes could carry. No sum or product of the sizes wraps.\<close>

theorem decoded_listing_layout:
  assumes "utf8_ok utf8"
    and "\<And>n. Some n \<in> set (flat_names d) \<Longrightarrow> length n < 2 ^ 32"
    and "length (fd_files d) + length (fd_subdirectories d) < 2 ^ 64"
    and "HttpDecodeListing nls utf8 pool d bodyLen noStore = Inr li"
  shows "FileCount li = length (fd_files d) \<and> SubDirCount li = length (fd_subdirectories d) \<and>
         entry_count li * 4 \<le> unat bodyLen \<and> names_inside li \<and>
         unat (SubDirsOffset li) = 88 + 48 * FileCount li \<and>
         unat (IndexOffset li) = unat (SubDirsOffset li) + 40 * SubDirCount li \<and>
         unat (NamesOffset li) = unat (IndexOffset li) + 4 * (length (IndexHeads li) + entry_count li) \<and>
         unat (NamesOffset li) \<le> unat (DI_Bytes li)"
proof -
  note d = HttpDecodeListing_Inr [OF assms]
  obtain li0 nb files subs where alloc: "BlorgAllocateDirectoryInfo pool (of_nat (length (fd_files d))) (of_nat (length (fd_subdirectories d))) nb = Some li0"
    and li: "li = (BlorgIndexDirectoryInfo nls (li0\<lparr>Files := files, SubDirs := subs\<rparr>))\<lparr>DI_NoStore := noStore\<rparr>"
    using assms(4) by (auto simp: HttpDecodeListing_def Let_def split: if_splits option.splits sum.splits)
  note b = BlorgAllocateDirectoryInfo_Some [OF alloc, unfolded listing_block_def]
  have f: "FileCount li0 = length (fd_files d)" "SubDirCount li0 = length (fd_subdirectories d)"
    using b assms(3) by (simp_all add: unat_of_nat_less)
  have same: "SubDirsOffset li = SubDirsOffset li0" "IndexOffset li = IndexOffset li0" "NamesOffset li = NamesOffset li0"
    "DI_Bytes li = DI_Bytes li0" "length (IndexHeads li) = length (IndexHeads li0)"
    by (simp_all add: li BlorgIndexDirectoryInfo_def)
  show ?thesis using d b f by (simp add: same)
qed

theorem decoded_listing_layout_witness:
  "unat (NamesOffset ex_listing) \<le> 200 \<and> names_inside ex_listing"
  using decoded_listing_layout [OF ex_utf8_ok ex_flat_small ex_decoded] by (simp add: ex_listing_value)

lemma credible_bound:
  assumes "m + n < 2 ^ 64" "HttpListingCountsAreCredible (of_nat m) (of_nat n) bodyLen"
  shows "m + n \<le> unat bodyLen div 4"
proof -
  have m: "unat (of_nat m :: SIZE_T) = m" "unat (of_nat n :: SIZE_T) = n" using assms(1) by (simp_all add: unat_of_nat_less)
  obtain c where c: "HttpCheckedAddSizeT (of_nat m) (of_nat n) = Some c" "c \<le> bodyLen div 4"
    using assms(2) by (auto simp: HttpListingCountsAreCredible_def HTTP_MIN_LISTING_ENTRY_WIRE_BYTES_def split: option.splits)
  have "unat c = m + n" using unat_checked_add [OF c(1)] m by simp
  moreover have "unat c \<le> unat (bodyLen div 4)" using c(2) by (simp add: word_le_nat_alt)
  ultimately show ?thesis by (simp add: unat_div)
qed

text \<open>An answer is refused, and nothing of it is kept, when it claims more entries than its
  bytes could hold, or when an entry is absent, has no name or has an empty one, whether or not
  memory is available. Without memory every answer is refused.\<close>

theorem decode_refusals:
  assumes "\<And>n. Some n \<in> set (flat_names d) \<Longrightarrow> length n < 2 ^ 32"
    and "length (fd_files d) + length (fd_subdirectories d) < 2 ^ 64"
  shows "(unat bodyLen div 4 < length (fd_subdirectories d) + length (fd_files d) \<or>
           None \<in> set (flat_names d) \<or> Some [] \<in> set (flat_names d) \<longrightarrow>
           HttpDecodeListing nls utf8 pool d bodyLen noStore = Inl STATUS_INVALID_PARAMETER) \<and>
         HttpDecodeListing nls utf8 False d bodyLen noStore \<in> {Inl STATUS_INVALID_PARAMETER, Inl STATUS_INSUFFICIENT_RESOURCES}"
proof (intro conjI impI)
  assume bad: "unat bodyLen div 4 < length (fd_subdirectories d) + length (fd_files d) \<or>
    None \<in> set (flat_names d) \<or> Some [] \<in> set (flat_names d)"
  have "name_bytes (flat_names d) 0 = None" if "None \<in> set (flat_names d) \<or> Some [] \<in> set (flat_names d)"
    using that name_bytes_Some [OF _ assms(1), of "flat_names d" 0] by (cases "name_bytes (flat_names d) 0") auto
  moreover have "\<not> HttpListingCountsAreCredible (of_nat (length (fd_subdirectories d))) (of_nat (length (fd_files d))) bodyLen"
    if "unat bodyLen div 4 < length (fd_subdirectories d) + length (fd_files d)"
    using that credible_bound [of "length (fd_subdirectories d)" "length (fd_files d)" bodyLen] assms(2) by auto
  ultimately show "HttpDecodeListing nls utf8 pool d bodyLen noStore = Inl STATUS_INVALID_PARAMETER"
    using bad by (auto simp: HttpDecodeListing_def Let_def)
next
  have "BlorgAllocateDirectoryInfo False a b n = None" for a b n
    by (simp add: BlorgAllocateDirectoryInfo_def Let_def split: option.split)
  then show "HttpDecodeListing nls utf8 False d bodyLen noStore \<in> {Inl STATUS_INVALID_PARAMETER, Inl STATUS_INSUFFICIENT_RESOURCES}"
    by (simp add: HttpDecodeListing_def Let_def split: option.split)
qed

theorem decode_refusals_witness:
  "HttpDecodeListing ascii_nls ex_utf8 True ex_flat 7 False = Inl STATUS_INVALID_PARAMETER"
proof -
  have "unat (7 :: SIZE_T) div 4 < length (fd_subdirectories ex_flat) + length (fd_files ex_flat)"
    by (simp add: ex_flat_def)
  then show ?thesis using decode_refusals [OF ex_flat_small, of 7 ascii_nls ex_utf8 True False] by blast
qed

text \<open>C30. The listings a subtree answer carries form a tree below the listing asked for: each names
  an earlier one of them, or the root, as its parent, and an existing subdirectory of it as its
  place; and together they hold no more entries than the caller allowed, nor than the driver's own
  cap. Whatever the server sent after the first listing that breaks this is dropped.\<close>

theorem decoded_descendants_are_a_tree:
  "let xs = HttpDecodeDescendants nls utf8 arrayPool pool flat bodyLen maxEntries root
   in (\<forall>i < length xs. unat (X_Parent (xs ! i)) \<le> i \<and>
         unat (X_SubDir (xs ! i)) <
           SubDirCount (if X_Parent (xs ! i) = 0 then root else X_Listing (xs ! (unat (X_Parent (xs ! i)) - 1)))) \<and>
      sum_list (map (\<lambda>x. entry_count (X_Listing x)) xs) \<le> min (unat maxEntries) 65536"
proof -
  define xs where "xs = HttpDecodeDescendants nls utf8 arrayPool pool flat bodyLen maxEntries root"
  have ok: "descendants_ok root xs" "sum_list (map (\<lambda>x. entry_count (X_Listing x)) xs) \<le> min (unat maxEntries) 65536"
    using HttpDecodeDescendants_ok [of root nls utf8 arrayPool pool flat bodyLen maxEntries]
    unfolding xs_def HTTP_SUBTREE_MAX_ENTRIES_def by blast+
  have "unat (X_Parent (xs ! i)) \<le> i \<and> unat (X_SubDir (xs ! i)) <
      SubDirCount (if X_Parent (xs ! i) = 0 then root else X_Listing (xs ! (unat (X_Parent (xs ! i)) - 1)))"
    if i: "i < length xs" for i
  proof -
    obtain p where p: "parent_listing root (take i xs) (X_Parent (xs ! i)) = Some p" "unat (X_SubDir (xs ! i)) < SubDirCount p"
      using ok(1) i unfolding descendants_ok_def by blast
    show ?thesis
    proof (cases "X_Parent (xs ! i) = 0")
      case False
      then have "unat (X_Parent (xs ! i)) \<le> i" "p = X_Listing (take i xs ! (unat (X_Parent (xs ! i)) - 1))"
        using p(1) i by (auto simp: parent_listing_def split: if_splits)
      moreover have "0 < unat (X_Parent (xs ! i))" using False by (simp add: unat_gt_0)
      ultimately show ?thesis using p(2) False by simp
    qed (use p in \<open>simp add: parent_listing_def\<close>)
  qed
  then show ?thesis using ok(2) unfolding xs_def [symmetric] Let_def by blast
qed

definition ex_descendants :: "decoded_descendant list" where
  "ex_descendants = HttpDecodeDescendants ascii_nls ex_utf8 True (\<lambda>_. True)
     [Some \<lparr>fx_listing = Some ex_flat, fx_parent = 0, fx_subdirectory = 0\<rparr>,
      Some \<lparr>fx_listing = Some ex_flat, fx_parent = 1, fx_subdirectory = 0\<rparr>,
      Some \<lparr>fx_listing = Some ex_flat, fx_parent = 1, fx_subdirectory = 1\<rparr>] 64 100 ex_listing"

lemma ex_descendants_length: "length ex_descendants = 2"
  by code_simp

theorem decoded_descendants_are_a_tree_witness:
  "unat (X_Parent (ex_descendants ! 1)) \<le> 1 \<and> sum_list (map (\<lambda>x. entry_count (X_Listing x)) ex_descendants) \<le> 100"
  using decoded_descendants_are_a_tree [of ascii_nls ex_utf8 True "\<lambda>_. True" _ 64 100 ex_listing]
    ex_descendants_length
  unfolding ex_descendants_def [symmetric] Let_def by (simp add: ex_descendants_def)

end
