(* ===== verification/Path_Cache_Theorems.thy ===== *)
theory Path_Cache_Theorems
  imports Path_Cache_Seed Listing_Theorems
begin

text \<open>
  The properties of the path cache and the listing cache, with concrete runs that meet their
  hypotheses.
\<close>

section \<open>Whole invalidations as runs of the step relation\<close>

definition ran_parts :: "part list \<Rightarrow> invalidation \<Rightarrow> PATH_CACHE_STATE \<Rightarrow> invalidation" where
  "ran_parts ps iv s =
     iv\<lparr>I_Todo := [], I_Did := I_Did iv \<union> set ps,
        I_Generation := (if Bump \<in> set ps then Suc (unat (Generation s)) else I_Generation iv)\<rparr>"

lemma run_parts:
  assumes "W_Running w k = Some iv" "I_Todo iv = ps" "Bump \<in> set ps \<Longrightarrow> Generation (W_Cache w) \<noteq> - 1"
    "Bump \<notin> set (tl ps)"
  shows "cache_steps nls w (w\<lparr>W_Cache := fold (run_part nls) ps (W_Cache w),
           W_Running := (W_Running w)(k \<mapsto> ran_parts ps iv (W_Cache w))\<rparr>)"
  using assms
proof (induction ps arbitrary: w iv)
  case Nil
  then have "ran_parts [] iv (W_Cache w) = iv" by (simp add: ran_parts_def)
  with Nil have eq: "w\<lparr>W_Cache := fold (run_part nls) [] (W_Cache w),
      W_Running := (W_Running w)(k \<mapsto> ran_parts [] iv (W_Cache w))\<rparr> = w"
    by (simp add: fun_upd_idem)
  show ?case unfolding eq by (rule rtranclp.rtrancl_refl)
next
  case (Cons p ps)
  let ?iv = "advance_invalidation nls iv (W_Cache w)"
  let ?w = "w\<lparr>W_Cache := run_part nls p (W_Cache w), W_Running := (W_Running w)(k \<mapsto> ?iv)\<rparr>"
  have step: "cache_step nls w ?w"
    using Cons.prems by (intro cache_step.part) auto
  have bump: "Bump \<notin> set ps" "Bump \<notin> set (tl ps)" using Cons.prems(4) by (simp, cases ps, auto)
  have todo: "I_Todo ?iv = ps" using Cons.prems(2) by (simp add: advance_invalidation_def)
  have "cache_steps nls ?w (?w\<lparr>W_Cache := fold (run_part nls) ps (W_Cache ?w),
      W_Running := (W_Running ?w)(k \<mapsto> ran_parts ps ?iv (W_Cache ?w))\<rparr>)"
    by (rule Cons.IH) (use todo bump in simp_all)
  moreover have "ran_parts ps ?iv (W_Cache ?w) = ran_parts (p # ps) iv (W_Cache w)"
    using bump(1) Cons.prems(2) by (auto simp: ran_parts_def advance_invalidation_def)
  then have "?w\<lparr>W_Cache := fold (run_part nls) ps (W_Cache ?w), W_Running := (W_Running ?w)(k \<mapsto> ran_parts ps ?iv (W_Cache ?w))\<rparr> =
      w\<lparr>W_Cache := fold (run_part nls) (p # ps) (W_Cache w), W_Running := (W_Running w)(k \<mapsto> ran_parts (p # ps) iv (W_Cache w))\<rparr>"
    by simp
  ultimately show ?case using converse_rtranclp_into_rtranclp [of "cache_step nls", OF step] by metis
qed

lemma parts_bump: "Bump \<notin> set (tl (parts target))"
proof -
  have tl: "set (tl xs) \<subseteq> set xs" for xs :: "part list" by (cases xs) auto
  show ?thesis
  proof (cases target)
    case (Prefix dir)
    have "Bump \<notin> set (parts (Prefix dir))" by (auto split: option.split)
    then show ?thesis unfolding Prefix using tl by blast
  qed (auto split: option.split)
qed

text \<open>The history entry a completed invalidation leaves.\<close>

definition completed :: "target \<Rightarrow> PATH_CACHE_STATE \<Rightarrow> invalidation" where
  "completed target s = ran_parts (parts target) (begin_invalidation target s) s"

lemma run_invalidation:
  assumes "W_Running w k = None" "Sequence (W_Cache w) \<noteq> - 1" "case target of Prefix dir \<Rightarrow> dir \<noteq> [] | _ \<Rightarrow> True"
    "target = Everything \<Longrightarrow> Generation (W_Cache w) \<noteq> - 1"
  shows "cache_steps nls w (w\<lparr>W_Cache := fold (run_part nls) (parts target) (PathCacheAdvanceSequence (W_Cache w)),
           W_Done := insert (completed target (W_Cache w)) (W_Done w)\<rparr>)"
proof -
  define iv s1 where "iv = begin_invalidation target (W_Cache w)" and "s1 = PathCacheAdvanceSequence (W_Cache w)"
  define w1 where "w1 = w\<lparr>W_Cache := s1, W_Running := (W_Running w)(k \<mapsto> iv)\<rparr>"
  define w2 where "w2 = w1\<lparr>W_Cache := fold (run_part nls) (parts target) (W_Cache w1),
      W_Running := (W_Running w1)(k \<mapsto> ran_parts (parts target) iv (W_Cache w1))\<rparr>"
  define w3 where "w3 = w2\<lparr>W_Running := (W_Running w2)(k := None),
      W_Done := insert (completed target (W_Cache w)) (W_Done w2)\<rparr>"
  have bump: "target = Everything" if "Bump \<in> set (parts target)"
    using that by (cases target) (auto split: option.splits)
  have gen: "Generation s1 = Generation (W_Cache w)" by (simp add: s1_def PathCacheAdvanceSequence_def)
  have same: "ran_parts (parts target) iv s1 = completed target (W_Cache w)"
    by (simp add: completed_def ran_parts_def gen iv_def)
  have "cache_step nls w w1" unfolding w1_def iv_def s1_def using assms(1-3) by (rule cache_step.start)
  moreover have "cache_steps nls w1 w2"
    unfolding w2_def
    by (rule run_parts) (use assms(4) bump parts_bump gen in \<open>auto simp: begin_invalidation_def w1_def iv_def\<close>)
  moreover have "cache_step nls w2 w3"
    unfolding w3_def
  proof (rule cache_step.finish)
    show "W_Running w2 k = Some (completed target (W_Cache w))" using same by (simp add: w2_def w1_def)
    show "I_Todo (completed target (W_Cache w)) = []" by (simp add: completed_def ran_parts_def)
  qed
  ultimately have "cache_steps nls w w3"
    by (rule rtranclp.rtrancl_into_rtrancl [OF converse_rtranclp_into_rtranclp])
  moreover have "w3 = w\<lparr>W_Cache := fold (run_part nls) (parts target) s1, W_Done := insert (completed target (W_Cache w)) (W_Done w)\<rparr>"
    unfolding w3_def w2_def w1_def using assms(1) by (simp add: fun_upd_idem)
  ultimately show ?thesis by (simp only: s1_def)
qed

section \<open>A concrete run\<close>

text \<open>
  The path \<open>\a\<close> is invalidated; a request for it is then issued, and its answer inserted. The
  lookups are of the path spelled \<open>\A\<close>.
\<close>

definition ex_path :: UNICODE_STRING where "ex_path = [backslash, 0x61]"
definition ex_upper :: UNICODE_STRING where "ex_upper = [backslash, 0x41]"

definition ex_meta :: DIRECTORY_ENTRY_METADATA where
  "ex_meta = zero_metadata\<lparr>Size := 7\<rparr>"

definition ex_ticket :: PATH_CACHE_TICKET where
  "ex_ticket = \<lparr>T_Sequence = 1, T_IssueTime = 1000\<rparr>"

definition ex_invalidated :: cache_world where
  "ex_invalidated = cache_boot
     \<lparr>W_Cache := BlorgPathCacheInvalidate ascii_nls ex_path (W_Cache cache_boot),
      W_Done := {completed (One ex_path) (W_Cache cache_boot)}\<rparr>"

definition ex_inserted :: cache_world where
  "ex_inserted = ex_invalidated
     \<lparr>W_Cache := insert_locked ascii_nls ex_path True (Some ex_meta) (Some ex_ticket) 1000 PATH_CACHE_TTL_100NS 0 (W_Cache ex_invalidated),
      W_Tickets := {ex_ticket}, W_Generations := {0}\<rparr>"

lemma ex_paths: "ex_path \<noteq> []" "ex_upper \<noteq> []" "RtlEqualUnicodeString ascii_nls ex_upper ex_path" "insertable ex_path"
  by (simp_all add: ex_path_def ex_upper_def RtlEqualUnicodeString_def ascii_nls_def insertable_def PATH_CACHE_MAX_PATH_BYTES_def)

lemma boot_fields:
  "Ready (W_Cache cache_boot)" "Sequence (W_Cache cache_boot) = 0" "Generation (W_Cache cache_boot) = 0"
  "W_Running cache_boot k = None" "W_Tickets cache_boot = {}" "W_Generations cache_boot = {}" "W_Done cache_boot = {}"
  "\<not> ChangeFeedLive (W_Cache cache_boot)" "W_Ext cache_boot = (\<lambda>_. 0)"
  by (simp_all add: cache_boot_def BlorgPathCacheInit_def)

lemma ex_invalidated_reached: "cache_steps ascii_nls cache_boot ex_invalidated"
proof -
  have "cache_steps ascii_nls cache_boot
      (cache_boot\<lparr>W_Cache := fold (run_part ascii_nls) (parts (One ex_path)) (PathCacheAdvanceSequence (W_Cache cache_boot)),
        W_Done := insert (completed (One ex_path) (W_Cache cache_boot)) (W_Done cache_boot)\<rparr>)"
    by (rule run_invalidation [of _ 0]) (simp_all add: boot_fields)
  then show ?thesis
    unfolding ex_invalidated_def BlorgPathCacheInvalidate_parts [OF boot_fields(1) ex_paths(1)] boot_fields(7) .
qed

lemma ex_invalidated_ok: "cache_world_ok ascii_nls ex_invalidated"
  using cache_steps_ok [OF ex_invalidated_reached ascii_nls_ok cache_boot_ok] .

lemma boot_lists: "i < 256 \<Longrightarrow> path_list (W_Cache cache_boot) i = [] \<and> listing_list (W_Cache cache_boot) i = []"
  by (simp add: cache_boot_def BlorgPathCacheInit_def PATH_CACHE_BUCKETS_def LISTING_CACHE_BUCKETS_def empty_bucket_def)

lemma ex_invalidated_cache: "W_Cache ex_invalidated = PathCacheAdvanceSequence (W_Cache cache_boot)"
  using boot_fields(1) ex_paths(1)
  by (simp add: ex_invalidated_def BlorgPathCacheInvalidate_def Let_def path_drop_def ListingCacheDrop_def
      ListingCacheDropParent_def boot_lists PathCacheAdvanceSequence_def split: option.split)

lemma ex_invalidated_fields:
  "Sequence (W_Cache ex_invalidated) = 1" "Generation (W_Cache ex_invalidated) = 0" "Ready (W_Cache ex_invalidated)"
  "Infos (W_Cache ex_invalidated) = Map.empty" "ListingBytes (W_Cache ex_invalidated) = 0"
  "W_Tickets ex_invalidated = {}" "W_Generations ex_invalidated = {}" "W_Ext ex_invalidated = (\<lambda>_. 0)"
  unfolding ex_invalidated_cache
  by (simp_all add: PathCacheAdvanceSequence_def ex_invalidated_def boot_fields) (simp_all add: cache_boot_def BlorgPathCacheInit_def)

lemma ex_inserted_reached: "cache_steps ascii_nls ex_invalidated ex_inserted"
proof -
  define w0 where "w0 = ex_invalidated"
  define w1 where "w1 = w0\<lparr>W_Tickets := insert (BlorgPathCacheTakeTicket 1000 (W_Cache w0)) (W_Tickets w0)\<rparr>"
  define w2 where "w2 = w1\<lparr>W_Generations := insert (Generation (W_Cache w1)) (W_Generations w1)\<rparr>"
  define w3 where "w3 = w2\<lparr>W_Cache := insert_locked ascii_nls ex_path True (Some ex_meta) (Some ex_ticket)
      1000 PATH_CACHE_TTL_100NS 0 (W_Cache w2)\<rparr>"
  have "cache_step ascii_nls w0 w1" unfolding w1_def by (rule cache_step.ticket)
  moreover have "cache_step ascii_nls w1 w2" unfolding w2_def by (rule cache_step.sample)
  moreover have "cache_step ascii_nls w2 w3"
    unfolding w3_def
    by (rule cache_step.put)
      (simp_all add: w2_def w1_def w0_def ex_invalidated_fields BlorgPathCacheTakeTicket_def ex_ticket_def ex_paths)
  ultimately have "cache_steps ascii_nls w0 w3"
    by (rule rtranclp.rtrancl_into_rtrancl [OF rtranclp.rtrancl_into_rtrancl [OF r_into_rtranclp]])
  moreover have "w3 = ex_inserted"
    by (simp add: w3_def w2_def w1_def w0_def ex_inserted_def ex_invalidated_fields BlorgPathCacheTakeTicket_def ex_ticket_def)
  ultimately show ?thesis by (simp only: w0_def)
qed

lemma ex_inserted_found:
  "\<exists>e. path_find ascii_nls ex_upper (W_Cache ex_inserted) = Some e \<and>
       written True (Some ex_meta) (Some ex_ticket) 1000 0 (W_Cache ex_invalidated) e"
proof -
  have iv: "path_inv ascii_nls (W_Cache ex_invalidated)" "path_inv ascii_nls (W_Cache ex_inserted)"
    using ex_invalidated_ok cache_steps_ok [OF ex_inserted_reached ascii_nls_ok ex_invalidated_ok]
    by (simp_all add: cache_world_ok_def)
  have "W_Cache ex_inserted = insert_locked ascii_nls ex_path True (Some ex_meta) (Some ex_ticket) 1000 PATH_CACHE_TTL_100NS 0
      (W_Cache ex_invalidated)" by (simp add: ex_inserted_def)
  note spec = insert_locked_spec [OF iv(1) ascii_nls_ok ex_paths(1) this]
  have "PathCacheTicketHonoured (Some ex_ticket) (W_Cache ex_invalidated)"
    by (simp add: PathCacheTicketHonoured_def ex_ticket_def ex_invalidated_fields)
  with spec obtain e where e: "e \<in> set (path_list (W_Cache ex_inserted) (bucket_index ascii_nls ex_path))"
    "RtlEqualUnicodeString ascii_nls (E_Path e) ex_path" "written True (Some ex_meta) (Some ex_ticket) 1000 0 (W_Cache ex_invalidated) e"
    by blast
  have "path_find ascii_nls ex_upper (W_Cache ex_inserted) = Some e"
    unfolding path_find_Some [OF iv(2) ascii_nls_ok]
    using e(1,2) bucket_index_equal [OF ascii_nls_ok ex_paths(3)] equal_trans [OF e(2) equal_sym [OF ex_paths(3)]] by simp
  with e(3) show ?thesis by blast
qed

lemma ex_inserted_ok: "cache_world_ok ascii_nls ex_inserted"
  by (rule cache_steps_ok [OF ex_inserted_reached ascii_nls_ok ex_invalidated_ok])

lemma ex_reached: "cache_steps ascii_nls cache_boot ex_inserted"
  by (rule rtranclp_trans [OF ex_invalidated_reached ex_inserted_reached])

lemma ex_found_locked:
  "find_locked ascii_nls ex_upper zero_metadata t 1000 PATH_CACHE_TTL_100NS 0 (W_Cache ex_inserted) =
   (PathCacheExists, ex_meta, ex_ticket)"
proof -
  obtain e where "path_find ascii_nls ex_upper (W_Cache ex_inserted) = Some e"
    "written True (Some ex_meta) (Some ex_ticket) 1000 0 (W_Cache ex_invalidated) e"
    using ex_inserted_found by blast
  then show ?thesis
    by (simp add: find_locked_def written_def PathCacheEntryLive_def PathCacheAge_def PATH_CACHE_TTL_100NS_def ex_ticket_def)
qed

section \<open>What lookups answer under concurrency\<close>

lemma found_locked_after:
  assumes "nls_ok nls" "cache_steps nls cache_boot w1" "iv \<in> W_Done w1" "covers_path nls (I_Target iv) path"
    and "cache_steps nls w1 w2"
    and "find_locked nls path meta t now lifetime (Generation (W_Cache w1)) (W_Cache w2) = (result, meta', t')"
    and "result \<noteq> PathCacheMiss"
  shows "\<exists>e. path_find nls path (W_Cache w2) = Some e \<and> I_Sequence iv \<le> unat (E_Sequence e) \<and>
             result = (if E_Exists e then PathCacheExists else PathCacheNotFound) \<and>
             (E_Exists e \<longrightarrow> meta' = E_Meta e \<and> T_Sequence t' = E_Sequence e)"
proof -
  have ok1: "cache_world_ok nls w1" by (rule cache_steps_ok [OF assms(2,1) cache_boot_ok])
  have ok2: "cache_world_ok nls w2" by (rule cache_steps_ok [OF assms(5,1) ok1])
  obtain e where e: "path_find nls path (W_Cache w2) = Some e" "E_Generation e = Generation (W_Cache w1)"
    "result = (if E_Exists e then PathCacheExists else PathCacheNotFound)"
    "E_Exists e \<longrightarrow> meta' = E_Meta e \<and> T_Sequence t' = E_Sequence e"
    using assms(6,7) by (auto simp: find_locked_def PathCacheEntryLive_def split: option.splits if_splits)
  have "iv \<in> W_Done w2" using cache_steps_monotone [OF assms(5)] assms(3) by blast
  moreover have "I_Generation iv \<le> unat (E_Generation e)"
    using ok1 assms(3) e(2) unfolding cache_world_ok_def history_ok_def invalidation_ok_def by auto
  ultimately have "I_Sequence iv \<le> unat (E_Sequence e)"
    using found_after_invalidation [OF assms(1) ok2 _ assms(4) e(1)] by blast
  with e show ?thesis by blast
qed

text \<open>C2. A lookup of a path that has been invalidated answers only from an entry whose request
  was ticketed after that invalidation, whatever other threads insert, publish or invalidate in
  between, however late an insert of an earlier answer arrives, and whether the invalidation named
  the path, a directory above it or the whole cache.\<close>

theorem lookup_after_invalidation:
  assumes "nls_ok nls" "cache_steps nls cache_boot w1" "iv \<in> W_Done w1" "covers_path nls (I_Target iv) path"
    and "cache_steps nls w1 w2"
    and "find_locked nls path meta t now lifetime (Generation (W_Cache w1)) (W_Cache w2) = (result, meta', t')"
    and "result \<noteq> PathCacheMiss"
  shows "\<exists>e. path_find nls path (W_Cache w2) = Some e \<and> I_Sequence iv \<le> unat (E_Sequence e) \<and>
             result = (if E_Exists e then PathCacheExists else PathCacheNotFound) \<and>
             (E_Exists e \<longrightarrow> meta' = E_Meta e \<and> T_Sequence t' = E_Sequence e)"
  using found_locked_after [OF assms] .

lemma ex_done: "completed (One ex_path) (W_Cache cache_boot) \<in> W_Done ex_invalidated"
  "I_Target (completed (One ex_path) (W_Cache cache_boot)) = One ex_path"
  "I_Sequence (completed (One ex_path) (W_Cache cache_boot)) = 1"
  by (simp_all add: ex_invalidated_def completed_def ran_parts_def begin_invalidation_def boot_fields)

theorem lookup_after_invalidation_witness:
  "\<exists>e. path_find ascii_nls ex_upper (W_Cache ex_inserted) = Some e \<and> 1 \<le> unat (E_Sequence e)"
  using lookup_after_invalidation [OF ascii_nls_ok ex_invalidated_reached ex_done(1) _ ex_inserted_reached
      ex_found_locked [folded ex_invalidated_fields(2)]]
  by (auto simp: ex_done ex_paths)

text \<open>The run goes on: a listing of the directory is fetched and published under the same ticket.\<close>

definition ex_fetched :: cache_world where
  "ex_fetched = ex_inserted
     \<lparr>W_Cache := (W_Cache ex_inserted)\<lparr>Infos := (Infos (W_Cache ex_inserted))(7 \<mapsto> ex_listing)\<rparr>, W_Ext := (W_Ext ex_inserted)(7 := 1)\<rparr>"

definition ex_published :: cache_world where
  "ex_published = ex_fetched\<lparr>W_Cache := snd (publish_locked ascii_nls True ex_path 7 200 (Some ex_ticket) 1000 PATH_CACHE_TTL_100NS 0 (W_Cache ex_fetched))\<rparr>"

lemma ex_inserted_fields:
  "Sequence (W_Cache ex_inserted) = 1" "Generation (W_Cache ex_inserted) = 0" "Infos (W_Cache ex_inserted) = Map.empty"
  "ListingBuckets (W_Cache ex_inserted) = ListingBuckets (W_Cache cache_boot)" "ListingBytes (W_Cache ex_inserted) = 0"
  "Ready (W_Cache ex_inserted)" "W_Tickets ex_inserted = {ex_ticket}" "W_Generations ex_inserted = {0}" "W_Ext ex_inserted = (\<lambda>_. 0)"
proof -
  have iv: "path_inv ascii_nls (W_Cache ex_invalidated)" using ex_invalidated_ok by (simp add: cache_world_ok_def)
  have "path_frame (W_Cache ex_invalidated) (W_Cache ex_inserted)"
    using insert_locked_spec [OF iv ascii_nls_ok ex_paths(1) refl, of True "Some ex_meta" "Some ex_ticket" 1000 PATH_CACHE_TTL_100NS 0]
    by (simp add: ex_inserted_def)
  note frame = path_frameD [OF this]
  show "W_Tickets ex_inserted = {ex_ticket}" "W_Generations ex_inserted = {0}" "W_Ext ex_inserted = (\<lambda>_. 0)"
    by (simp_all add: ex_inserted_def ex_invalidated_fields)
  show "Sequence (W_Cache ex_inserted) = 1" "Generation (W_Cache ex_inserted) = 0" "Ready (W_Cache ex_inserted)"
    "Infos (W_Cache ex_inserted) = Map.empty" "ListingBytes (W_Cache ex_inserted) = 0"
    "ListingBuckets (W_Cache ex_inserted) = ListingBuckets (W_Cache cache_boot)"
    using frame ex_invalidated_fields by (simp_all add: ex_invalidated_cache PathCacheAdvanceSequence_def)
qed

lemma ex_fetched_step: "cache_step ascii_nls ex_inserted ex_fetched"
  unfolding ex_fetched_def by (rule cache_step.fetch) (simp_all add: ex_inserted_fields ex_listing_value)

lemma ex_published_reached: "cache_steps ascii_nls ex_inserted ex_published"
proof -
  note ex_fetched_step
  moreover have "cache_step ascii_nls ex_fetched ex_published"
    unfolding ex_published_def
    by (rule cache_step.publish [where t = ex_ticket and generation = 0 and dir = ex_path and a = 7 and li = ex_listing
          and bytes = 200, OF _ _ _ _ _ _ _ _ _ surjective_pairing])
      (simp_all add: ex_fetched_def ex_inserted_fields ex_paths ex_listing_value ListingCacheSizeOf_def)
  ultimately show ?thesis by (rule rtranclp.rtrancl_into_rtrancl [OF r_into_rtranclp])
qed

lemma ex_published_ok: "cache_world_ok ascii_nls ex_published"
  by (rule cache_steps_ok [OF ex_published_reached ascii_nls_ok ex_inserted_ok])

lemma ex_published_listed:
  "\<exists>e. listing_find ascii_nls ex_upper (W_Cache ex_published) = Some e \<and> L_Listing e = 7 \<and> L_Sequence e = 1 \<and>
       L_Generation e = 0 \<and> L_IssueTime e = 1000"
proof -
  have iv: "listing_inv ascii_nls (W_Ext ex_fetched) (W_Cache ex_fetched)" "listing_inv ascii_nls (W_Ext ex_published) (W_Cache ex_published)"
    using listing_inv_fetch [of ascii_nls "W_Ext ex_inserted" "W_Cache ex_inserted" 7 ex_listing] ex_inserted_ok ex_published_ok
    by (simp_all add: cache_world_ok_def ex_fetched_def ex_inserted_fields ex_listing_value)
  have none: "listing_list (W_Cache ex_fetched) i = []" if "i < 256" for i
    using boot_lists [OF that] by (simp add: ex_fetched_def ex_inserted_fields)
  have bytes: "other_bytes (W_Cache ex_fetched) (bucket_index ascii_nls ex_path) = 0"
    using iv(1) none [OF bucket_index_less] by (simp add: other_bytes_def listing_inv_def) (simp add: ex_fetched_def ex_inserted_fields)
  have seq: "Sequence (W_Cache ex_fetched) = 1" by (simp add: ex_fetched_def ex_inserted_fields)
  obtain current s' where p: "publish_locked ascii_nls True ex_path 7 200 (Some ex_ticket) 1000 PATH_CACHE_TTL_100NS 0 (W_Cache ex_fetched) = (current, s')"
    by fastforce
  let ?i = "bucket_index ascii_nls ex_path"
  have info: "0 < W_Ext ex_fetched 7" "Infos (W_Cache ex_fetched) 7 = Some ex_listing" "200 = ListingCacheSizeOf ex_listing"
    by (simp_all add: ex_fetched_def ListingCacheSizeOf_def ex_listing_value)
  note spec = publish_locked_spec [OF iv(1) ex_paths(1) info(1,2) ex_listing_value(5,6) info(3) _ p, simplified]
  have honoured: "PathCacheTicketHonoured (Some ex_ticket) (W_Cache ex_fetched)"
    by (simp add: PathCacheTicketHonoured_def ex_ticket_def seq)
  then have "current" using spec none [OF bucket_index_less] by simp
  then obtain e where e: "e \<in> set (listing_list s' ?i)" "L_Path e = ex_path" "L_Listing e = 7" "L_Generation e = 0" "L_IssueTime e = 1000"
    using spec bytes by (auto simp: LISTING_CACHE_MAX_BYTES_def ex_ticket_def)
  have sq: "L_Sequence e = T_Sequence ex_ticket" using spec e(1) none [OF bucket_index_less, of ascii_nls ex_path] by (metis bucket_index_less empty_iff empty_set)
  have "W_Cache ex_published = s'" by (simp add: ex_published_def p)
  moreover have "\<exists>e\<in>set (listing_list s' (bucket_index ascii_nls ex_path)). L_Path e = ex_path \<and> L_Listing e = 7 \<and>
      L_Sequence e = 1 \<and> L_Generation e = 0 \<and> L_IssueTime e = 1000"
    using e sq by (auto simp: ex_ticket_def)
  ultimately show ?thesis
    using listing_find_Some [OF iv(2) ascii_nls_ok] bucket_index_equal [OF ascii_nls_ok ex_paths(3)] ex_paths(3) equal_commute
    by metis
qed

lemma listed_locked_after:
  assumes "nls_ok nls" "cache_steps nls cache_boot w" "iv \<in> W_Done w" "covers_listing nls (I_Target iv) dir"
    and "lookup_listing_locked nls dir allowStale t now lifetime generation (W_Cache w) = (r, s')" "R_Listing r = Some a"
  shows "I_Sequence iv \<le> unat (T_Sequence (R_Ticket r))"
proof -
  have ok: "cache_world_ok nls w" by (rule cache_steps_ok [OF assms(2,1) cache_boot_ok])
  then have iv: "listing_inv nls (W_Ext w) (W_Cache w)" by (simp add: cache_world_ok_def)
  obtain e where e: "e \<in> set (listing_list (W_Cache w) (bucket_index nls dir))" "RtlEqualUnicodeString nls (L_Path e) dir"
    "R_Ticket r = \<lparr>T_Sequence = L_Sequence e, T_IssueTime = L_IssueTime e\<rparr>"
    using lookup_listing_spec [OF iv assms(1,5,6)] by blast
  show ?thesis using listed_after_invalidation [OF assms(1) ok assms(3,4) e(1,2)] e(3) by simp
qed

text \<open>C5. A listing handed out for a directory after an invalidation of it, of its parent's entry
  for it, of a directory above it or of everything, was requested after that invalidation: the
  ticket it carries is no older, so neither is what is derived from it.\<close>

theorem listing_after_invalidation:
  assumes "nls_ok nls" "cache_steps nls cache_boot w" "iv \<in> W_Done w" "covers_listing nls (I_Target iv) dir"
    and "lookup_listing_locked nls dir allowStale t now lifetime generation (W_Cache w) = (r, s')" "R_Listing r = Some a"
  shows "I_Sequence iv \<le> unat (T_Sequence (R_Ticket r))"
  using listed_locked_after [OF assms] .

lemma ex_published_done: "completed (One ex_path) (W_Cache cache_boot) \<in> W_Done ex_published"
  using cache_steps_monotone [OF rtranclp_trans [OF ex_inserted_reached ex_published_reached]] ex_done(1) by blast

lemma ex_listed: "\<exists>r s'. lookup_listing_locked ascii_nls ex_upper False ex_ticket 1000 PATH_CACHE_TTL_100NS 0 (W_Cache ex_published) = (r, s') \<and>
    R_Listing r = Some 7 \<and> T_Sequence (R_Ticket r) = 1"
  using ex_published_listed
  by (auto simp: lookup_listing_locked_def ListingCacheEntryLive_def PathCacheAge_def PATH_CACHE_TTL_100NS_def LISTING_STALE_GRACE_100NS_def)

theorem listing_after_invalidation_witness:
  "\<exists>r s'. lookup_listing_locked ascii_nls ex_upper False ex_ticket 1000 PATH_CACHE_TTL_100NS 0 (W_Cache ex_published) = (r, s') \<and>
          R_Listing r = Some 7 \<and> 1 \<le> unat (T_Sequence (R_Ticket r))"
proof -
  obtain r s' where r: "lookup_listing_locked ascii_nls ex_upper False ex_ticket 1000 PATH_CACHE_TTL_100NS 0 (W_Cache ex_published) = (r, s')"
    "R_Listing r = Some 7" using ex_listed by blast
  show ?thesis
    using listing_after_invalidation [OF ascii_nls_ok rtranclp_trans [OF ex_reached ex_published_reached] ex_published_done _ r] r
    by (simp add: ex_done ex_paths)
qed




text \<open>C18. The reference count of a listing is, at every moment, the number of references held
  outside the cache and by the cache's entries; it is positive while the listing is on the heap,
  and a listing that anyone holds is on the heap: nothing is freed early and nothing is leaked.\<close>

theorem listing_references_exact:
  assumes "nls_ok nls" "cache_steps nls cache_boot w"
  shows "case Infos (W_Cache w) a of
           Some li \<Rightarrow> RefCount li = W_Ext w a + cache_refs (W_Cache w) a \<and> 0 < RefCount li
         | None \<Rightarrow> W_Ext w a = 0 \<and> (\<forall>i < 256. \<forall>e\<in>set (listing_list (W_Cache w) i). L_Listing e \<noteq> a)"
proof -
  have ok: "cache_world_ok nls w" by (rule cache_steps_ok [OF assms(2,1) cache_boot_ok])
  then have l: "listing_inv nls (W_Ext w) (W_Cache w)" by (simp add: cache_world_ok_def)
  then have refs: "refs_ok (W_Ext w) (W_Cache w)" by (simp add: listing_inv_def)
  show ?thesis
  proof (cases "Infos (W_Cache w) a")
    case None
    then have "W_Ext w a = 0" using held_present [OF refs, of a] refs unfolding refs_ok_def by (metis antisym_conv1 option.distinct(1))
    moreover have "L_Listing e \<noteq> a" if "i < 256" "e \<in> set (listing_list (W_Cache w) i)" for i e
      using listing_inv_entry [OF l that] None by force
    ultimately show ?thesis using None by simp
  next
    case (Some li)
    then have "case Some li of None \<Rightarrow> W_Ext w a + cache_refs (W_Cache w) a = 0
        | Some li \<Rightarrow> RefCount li = W_Ext w a + cache_refs (W_Cache w) a \<and> 0 < RefCount li"
      using refs unfolding refs_ok_def by (metis (no_types, lifting))
    with Some show ?thesis by simp
  qed
qed

theorem listing_references_exact_witness:
  "case Infos (W_Cache ex_published) 7 of
     Some li \<Rightarrow> RefCount li = W_Ext ex_published 7 + cache_refs (W_Cache ex_published) 7 \<and> 0 < RefCount li
   | None \<Rightarrow> W_Ext ex_published 7 = 0 \<and> (\<forall>i < 256. \<forall>e\<in>set (listing_list (W_Cache ex_published) i). L_Listing e \<noteq> 7)"
  by (rule listing_references_exact [OF ascii_nls_ok rtranclp_trans [OF ex_reached ex_published_reached]])

section \<open>The operations one at a time\<close>

lemma reached_ok:
  assumes "nls_ok nls" "cache_steps nls cache_boot w"
  shows "path_inv nls (W_Cache w)" "listing_inv nls (W_Ext w) (W_Cache w)" "stamps_ok (W_Cache w)"
  using cache_steps_ok [OF assms(2,1) cache_boot_ok] by (simp_all add: cache_world_ok_def)

lemma Lookup_find:
  assumes "Ready s" "path \<noteq> []"
  shows "BlorgPathCacheLookup nls now path out s =
    (case path_find nls path s of
       Some e \<Rightarrow> if PathCacheEntryLive e now (Generation s) (PathCacheLifetime s)
                 then if E_Exists e then (PathCacheExists, E_Meta e) else (PathCacheNotFound, out) else (PathCacheMiss, out)
     | None \<Rightarrow> (PathCacheMiss, out))"
  using assms by (simp add: BlorgPathCacheLookup_def PathCacheFind_def find_locked_def split: option.split)

lemma equal_nonempty: "RtlEqualUnicodeString nls p q \<Longrightarrow> q \<noteq> [] \<Longrightarrow> p \<noteq> []"
  using equal_length by fastforce

lemma insert_other_lookup:
  assumes "path_find nls q s' = None \<or> path_find nls q s' = path_find nls q s" "path_frame s s'"
  shows "BlorgPathCacheLookup nls now q out s' \<in> {(PathCacheMiss, out), BlorgPathCacheLookup nls now q out s}"
proof (cases "Ready s \<and> q \<noteq> []")
  case True
  note frame = path_frameD [OF assms(2)]
  have r: "Ready s" "Ready s'" "q \<noteq> []" using True frame by simp_all
  show ?thesis
    using assms(1) unfolding Lookup_find [OF r(1,3)] Lookup_find [OF r(2,3)] frame(5,8) by auto
next
  case False
  then show ?thesis using path_frameD [OF assms(2)] by (auto simp: BlorgPathCacheLookup_def PathCacheFind_def)
qed

text \<open>C24. What is inserted under a ticket that is still honoured is what a lookup answers, however
  the path is spelled in case, while the answer is young enough; an insertion changes no other
  path's answer except by evicting it; and one under a ticket an invalidation has overtaken changes
  nothing.\<close>

theorem insert_lookup:
  assumes "nls_ok nls" "cache_steps nls cache_boot w" "Ready (W_Cache w)" "insertable path" "\<not> NoStore m"
    and "s1 = BlorgPathCacheInsertExists nls True now path m (Some t) (W_Cache w)"
    and "s0 = BlorgPathCacheInsertNotFound nls True now path (Some t) (W_Cache w)"
  shows "if T_Sequence t = Sequence (W_Cache w)
    then (\<forall>p now'. RtlEqualUnicodeString nls p path \<and> PathCacheAge (T_IssueTime t) now' < PATH_CACHE_TTL_100NS \<longrightarrow>
            BlorgPathCacheLookup nls now' p out s1 = (PathCacheExists, m) \<and>
            BlorgPathCacheLookup nls now' p out s0 = (PathCacheNotFound, out)) \<and>
         (\<forall>q now'. \<not> RtlEqualUnicodeString nls q path \<longrightarrow>
            {BlorgPathCacheLookup nls now' q out s1, BlorgPathCacheLookup nls now' q out s0} \<subseteq>
            {(PathCacheMiss, out), BlorgPathCacheLookup nls now' q out (W_Cache w)})
    else s1 = W_Cache w \<and> s0 = W_Cache w"
proof (cases "T_Sequence t = Sequence (W_Cache w)")
  case False
  then show ?thesis
    by (simp add: assms(6,7) BlorgPathCacheInsertExists_def BlorgPathCacheInsertNotFound_def PathCacheInsert_def
        insert_locked_def PathCacheTicketHonoured_def Let_def)
next
  case True
  then have honoured: "PathCacheTicketHonoured (Some t) (W_Cache w)" by (simp add: PathCacheTicketHonoured_def)
  note spec = PathCacheInsert_spec [OF reached_ok(1) [OF assms(1,2)] assms(1,3,4) _ honoured refl]
  have spec1: "path_inv nls s1 \<and> path_frame (W_Cache w) s1 \<and>
      (\<forall>p. RtlEqualUnicodeString nls p path \<longrightarrow> (\<exists>e. path_find nls p s1 = Some e \<and> written True (Some m) (Some t) now (Generation (W_Cache w)) (W_Cache w) e)) \<and>
      (\<forall>p. \<not> RtlEqualUnicodeString nls p path \<longrightarrow> path_find nls p s1 = None \<or> path_find nls p s1 = path_find nls p (W_Cache w))"
    unfolding assms(6) BlorgPathCacheInsertExists_def by (rule spec) (use assms(5) in simp)
  have spec0: "path_inv nls s0 \<and> path_frame (W_Cache w) s0 \<and>
      (\<forall>p. RtlEqualUnicodeString nls p path \<longrightarrow> (\<exists>e. path_find nls p s0 = Some e \<and> written False None (Some t) now (Generation (W_Cache w)) (W_Cache w) e)) \<and>
      (\<forall>p. \<not> RtlEqualUnicodeString nls p path \<longrightarrow> path_find nls p s0 = None \<or> path_find nls p s0 = path_find nls p (W_Cache w))"
    unfolding assms(7) BlorgPathCacheInsertNotFound_def by (rule spec) simp
  note f1 = path_frameD [OF spec1 [THEN conjunct2, THEN conjunct1]]
  note f0 = path_frameD [OF spec0 [THEN conjunct2, THEN conjunct1]]
  have ttl: "PATH_CACHE_TTL_100NS \<le> PathCacheLifetime s" for s
    by (simp add: PathCacheLifetime_def PATH_CACHE_TTL_100NS_def PATH_CACHE_FEED_TTL_100NS_def)
  have hit: "BlorgPathCacheLookup nls now' p out s1 = (PathCacheExists, m) \<and> BlorgPathCacheLookup nls now' p out s0 = (PathCacheNotFound, out)"
    if p: "RtlEqualUnicodeString nls p path" and age: "PathCacheAge (T_IssueTime t) now' < PATH_CACHE_TTL_100NS" for p now'
  proof -
    have ne: "p \<noteq> []" using equal_nonempty [OF p] assms(4) by (simp add: insertable_def)
    obtain e1 where e1: "path_find nls p s1 = Some e1" "written True (Some m) (Some t) now (Generation (W_Cache w)) (W_Cache w) e1"
      using spec1 p by blast
    obtain e0 where e0: "path_find nls p s0 = Some e0" "written False None (Some t) now (Generation (W_Cache w)) (W_Cache w) e0"
      using spec0 p by blast
    have young: "PathCacheAge (T_IssueTime t) now' < PathCacheLifetime s" for s using age ttl order_less_le_trans by blast
    show ?thesis
      using e1(2) e0(2) age young
      by (simp add: Lookup_find f1 f0 assms(3) ne e1(1) e0(1) written_def PathCacheEntryLive_def)
  qed
  moreover have "{BlorgPathCacheLookup nls now' q out s1, BlorgPathCacheLookup nls now' q out s0} \<subseteq>
      {(PathCacheMiss, out), BlorgPathCacheLookup nls now' q out (W_Cache w)}" if "\<not> RtlEqualUnicodeString nls q path" for q now'
    using insert_other_lookup [of nls q s1 "W_Cache w" now' out] insert_other_lookup [of nls q s0 "W_Cache w" now' out] spec1 spec0 that
    by blast
  ultimately show ?thesis using True by simp
qed

theorem insert_lookup_witness:
  "BlorgPathCacheLookup ascii_nls 1001 ex_upper zero_metadata
     (BlorgPathCacheInsertExists ascii_nls True 1000 ex_path ex_meta (Some ex_ticket) (W_Cache ex_invalidated)) = (PathCacheExists, ex_meta)"
  using insert_lookup [OF ascii_nls_ok ex_invalidated_reached ex_invalidated_fields(3) ex_paths(4), of ex_meta _ 1000 ex_ticket _ zero_metadata]
    ex_paths(3)
  by (simp add: ex_ticket_def ex_invalidated_fields PathCacheAge_def PATH_CACHE_TTL_100NS_def ex_meta_def zero_metadata_def)

text \<open>C25. The invalidation of a path removes that path, its listing and its parent's listing from
  the caches, that of a directory everything at or below it and its parent's listing; both leave
  every other answer as it was, and overtake every ticket taken before.\<close>

theorem invalidation_exact:
  assumes "nls_ok nls" "cache_steps nls cache_boot w" "Ready (W_Cache w)" "path \<noteq> []"
    and "s' = BlorgPathCacheInvalidate nls path (W_Cache w) \<and> target = One path \<or>
         s' = BlorgPathCacheInvalidatePrefix nls path (W_Cache w) \<and> target = Prefix path"
  shows "Sequence s' = Sequence (W_Cache w) + 1 \<and>
         path_find nls p s' = (if covers_path nls target p then None else path_find nls p (W_Cache w)) \<and>
         listing_find nls p s' = (if covers_listing nls target p then None else listing_find nls p (W_Cache w))"
  using assms(5)
proof (elim disjE conjE)
  assume "s' = BlorgPathCacheInvalidate nls path (W_Cache w)" "target = One path"
  with BlorgPathCacheInvalidate_spec [OF reached_ok(1,2) [OF assms(1,2)] assms(1,3,4) this(1)] show ?thesis by blast
next
  assume "s' = BlorgPathCacheInvalidatePrefix nls path (W_Cache w)" "target = Prefix path"
  with BlorgPathCacheInvalidatePrefix_spec [OF reached_ok(1,2) [OF assms(1,2)] assms(1,3,4) this(1)] show ?thesis by blast
qed

lemma ex_published_ready: "Ready (W_Cache ex_published)"
proof -
  have iv: "listing_inv ascii_nls (W_Ext ex_fetched) (W_Cache ex_fetched)"
    using listing_inv_fetch [of ascii_nls "W_Ext ex_inserted" "W_Cache ex_inserted" 7 ex_listing] ex_inserted_ok
    by (simp add: cache_world_ok_def ex_fetched_def ex_inserted_fields ex_listing_value)
  have info: "0 < W_Ext ex_fetched 7" "Infos (W_Cache ex_fetched) 7 = Some ex_listing" "200 = ListingCacheSizeOf ex_listing"
    by (simp_all add: ex_fetched_def ListingCacheSizeOf_def ex_listing_value)
  obtain c s' where p: "publish_locked ascii_nls True ex_path 7 200 (Some ex_ticket) 1000 PATH_CACHE_TTL_100NS 0 (W_Cache ex_fetched) = (c, s')"
    by fastforce
  have "listing_frame (W_Cache ex_fetched) s'"
    using publish_locked_spec [OF iv ex_paths(1) info(1,2) ex_listing_value(5,6) info(3) _ p] by simp
  then have "Ready s' = Ready (W_Cache ex_inserted)" using listing_frameD by (fastforce simp: ex_fetched_def)
  then show ?thesis by (simp add: ex_published_def p ex_inserted_fields)
qed

theorem invalidation_exact_witness:
  "path_find ascii_nls ex_path (BlorgPathCacheInvalidatePrefix ascii_nls [backslash] (W_Cache ex_published)) = None"
  using invalidation_exact [OF ascii_nls_ok rtranclp_trans [OF ex_reached ex_published_reached] ex_published_ready,
      of "[backslash]" "BlorgPathCacheInvalidatePrefix ascii_nls [backslash] (W_Cache ex_published)" "Prefix [backslash]" ex_path]
  by (simp add: PathCacheIsUnder_def RtlPrefixUnicodeString_def ex_path_def ends_with_separator_def)

text \<open>When the change feed comes up, everything cached before is forgotten: every lookup of a
  path and of a listing misses, no listing is held any longer, and entries live for the feed's
  longer lifetime from then on.\<close>

theorem feed_starts_empty:
  assumes "nls_ok nls" "cache_steps nls cache_boot w" "Ready (W_Cache w)" "Generation (W_Cache w) \<noteq> - 1"
    and "s' = BlorgPathCacheFollowFeed nls True (W_Cache w)"
  shows "BlorgPathCacheLookup nls now path out s' = (PathCacheMiss, out) \<and>
         R_Listing (fst (BlorgPathCacheLookupListing nls now dir allowStale t s')) = None \<and>
         ListingBytes s' = 0 \<and> PathCacheLifetime s' = PATH_CACHE_FEED_TTL_100NS \<and>
         Sequence s' = Sequence (W_Cache w) + 1"
proof -
  define s where "s = (PathCacheAdvanceSequence (W_Cache w))\<lparr>Generation := Generation (W_Cache w) + 1\<rparr>"
  have s': "s' = (ListingCacheDropUnder nls None s)\<lparr>ChangeFeedLive := True\<rparr>"
    using assms(3,5) by (simp add: BlorgPathCacheFollowFeed_def BlorgPathCacheInvalidateAll_def Let_def s_def PathCacheAdvanceSequence_def)
  note iv = reached_ok [OF assms(1,2)]
  have l: "listing_inv nls (W_Ext w) s" using iv(2) by (simp add: s_def PathCacheAdvanceSequence_def)
  note frame = listing_frameD [OF DropUnder_frame [of s nls None]]
  have fields: "Buckets s' = Buckets (W_Cache w)" "Generation s' = Generation (W_Cache w) + 1" "Ready s'" "Sequence s' = Sequence (W_Cache w) + 1"
    using frame assms(3) by (simp_all add: s' s_def PathCacheAdvanceSequence_def)
  have "listing_list s' i = []" if "i < 256" for i
    using fold_sweep_listings_list [OF l that, of "\<lambda>_. True"] by (simp add: s' ListingCacheDropUnder_def LISTING_CACHE_BUCKETS_def)
  then have "\<forall>b\<in>set (ListingBuckets s'). B_List b = []"
    using listing_inv_length [OF DropUnder_inv [OF l]] by (auto simp: s' in_set_conv_nth)
  then have "map (\<lambda>b. sum_list (map L_Bytes (B_List b))) (ListingBuckets s') = map (\<lambda>_. 0) (ListingBuckets s')" by simp
  then have "held_bytes s' = 0" unfolding held_bytes_def by (simp only: sum_list_0)
  moreover have "ListingBytes s' = held_bytes s'"
    using DropUnder_inv [OF l, of None] by (simp add: s' listing_inv_def held_bytes_def)
  moreover have "listing_find nls dir s' = None" using DropAll_find [OF l] by (simp add: s' listing_find_def)
  then have "R_Listing (fst (BlorgPathCacheLookupListing nls now dir allowStale t s')) = None"
    by (simp add: BlorgPathCacheLookupListing_def lookup_listing_locked_def)
  moreover have "BlorgPathCacheLookup nls now path out s' = (PathCacheMiss, out)"
  proof (cases "path_find nls path s'")
    case (Some e)
    then have "path_find nls path (W_Cache w) = Some e" using path_find_frame [OF fields(1)] by simp
    then have "unat (E_Generation e) \<le> unat (Generation (W_Cache w))"
      using path_find_Some [OF iv(1) assms(1)] iv(3) bucket_index_less unfolding stamps_ok_def by blast
    moreover have "unat (Generation s') = Suc (unat (Generation (W_Cache w)))"
      unfolding fields(2) using assms(4) by (rule unat_plus_one)
    ultimately have "E_Generation e \<noteq> Generation s'" by auto
    then show ?thesis
      using fields(3) Some by (simp add: PathCacheEntryLive_def BlorgPathCacheLookup_def PathCacheFind_def find_locked_def)
  qed (simp add: BlorgPathCacheLookup_def PathCacheFind_def find_locked_def)
  moreover have "PathCacheLifetime s' = PATH_CACHE_FEED_TTL_100NS" by (simp add: s' PathCacheLifetime_def)
  ultimately show ?thesis using fields(4) by simp
qed

theorem feed_starts_empty_witness:
  "BlorgPathCacheLookup ascii_nls 1000 ex_path zero_metadata (BlorgPathCacheFollowFeed ascii_nls True (W_Cache ex_inserted)) =
   (PathCacheMiss, zero_metadata)"
  using feed_starts_empty [OF ascii_nls_ok ex_reached ex_inserted_fields(6) _ refl, of 1000 ex_path zero_metadata]
  by (simp add: ex_inserted_fields)

text \<open>C27. A whole invalidation, however it is asked for, is a run of the step relation of the
  concurrency claims: the sequence first, then its critical sections in the order of the code.\<close>

theorem invalidations_are_runs:
  assumes "W_Running w k = None" "Sequence (W_Cache w) \<noteq> - 1" "Generation (W_Cache w) \<noteq> - 1" "Ready (W_Cache w)" "path \<noteq> []"
  shows "cache_steps nls w (w\<lparr>W_Cache := BlorgPathCacheInvalidate nls path (W_Cache w),
                              W_Done := insert (completed (One path) (W_Cache w)) (W_Done w)\<rparr>) \<and>
         cache_steps nls w (w\<lparr>W_Cache := BlorgPathCacheInvalidatePrefix nls path (W_Cache w),
                              W_Done := insert (completed (Prefix path) (W_Cache w)) (W_Done w)\<rparr>) \<and>
         cache_steps nls w (w\<lparr>W_Cache := BlorgPathCacheInvalidateAll nls (W_Cache w),
                              W_Done := insert (completed Everything (W_Cache w)) (W_Done w)\<rparr>)"
  unfolding BlorgPathCacheInvalidate_parts [OF assms(4,5)] BlorgPathCacheInvalidatePrefix_parts [OF assms(4,5)]
    BlorgPathCacheInvalidateAll_parts [OF assms(4)]
  by (intro conjI run_invalidation [OF assms(1,2)]) (simp_all add: assms)

theorem invalidations_are_runs_witness:
  "cache_steps ascii_nls cache_boot
     (cache_boot\<lparr>W_Cache := BlorgPathCacheInvalidateAll ascii_nls (W_Cache cache_boot),
                 W_Done := insert (completed Everything (W_Cache cache_boot)) (W_Done cache_boot)\<rparr>)"
  using invalidations_are_runs [OF boot_fields(4) _ _ boot_fields(1), of ex_path ascii_nls] by (simp add: boot_fields ex_paths)




lemma word_plus_grace: "lifetime \<le> PATH_CACHE_FEED_TTL_100NS \<Longrightarrow> lifetime \<le> lifetime + LISTING_STALE_GRACE_100NS"
  by (simp add: PATH_CACHE_FEED_TTL_100NS_def LISTING_STALE_GRACE_100NS_def word_le_nat_alt unat_word_ariths)

text \<open>A published listing is refused exactly when its ticket was overtaken by an invalidation or
  the cache holds a live listing of the directory from a later request; one that is accepted, for
  which memory was had and which fits beside the other buckets' listings, is what the next lookup of the
  directory is handed, with its request's ticket.\<close>

theorem publish_lookup_listing:
  assumes "nls_ok nls" "cache_steps nls cache_boot w" "dir \<noteq> []" "0 < W_Ext w a" "Infos (W_Cache w) a = Some li"
    and "Descendants li = []" "\<not> DI_NoStore li" "0 \<le> ListingCacheSizeOf li"
    and "publish_locked nls pool dir a (ListingCacheSizeOf li) (Some t) now lifetime generation (W_Cache w) = (current, s')"
  shows "(current \<longleftrightarrow> T_Sequence t = Sequence (W_Cache w) \<and>
            \<not> (\<exists>e. listing_find nls dir (W_Cache w) = Some e \<and> ListingCacheEntryLive e now generation lifetime \<and>
                   L_IssueTime e > T_IssueTime t)) \<and>
         (current \<and> pool \<and> other_bytes (W_Cache w) (bucket_index nls dir) + ListingCacheSizeOf li \<le> LISTING_CACHE_MAX_BYTES \<and>
          PathCacheAge (T_IssueTime t) now' < lifetime \<and> lifetime \<le> PATH_CACHE_FEED_TTL_100NS \<longrightarrow>
            R_Listing (fst (lookup_listing_locked nls dir allowStale t' now' lifetime generation s')) = Some a \<and>
            R_Ticket (fst (lookup_listing_locked nls dir allowStale t' now' lifetime generation s')) = t)"
proof (intro conjI impI)
  note iv = reached_ok(2) [OF assms(1,2)]
  note spec = publish_locked_spec [OF iv assms(3,4,5,6,7) refl assms(8,9), simplified]
  show "current \<longleftrightarrow> T_Sequence t = Sequence (W_Cache w) \<and>
      \<not> (\<exists>e. listing_find nls dir (W_Cache w) = Some e \<and> ListingCacheEntryLive e now generation lifetime \<and> L_IssueTime e > T_IssueTime t)"
    using spec listing_find_Some [OF iv assms(1)] unfolding PathCacheTicketHonoured_def by auto
  assume fit: "current \<and> pool \<and> other_bytes (W_Cache w) (bucket_index nls dir) + ListingCacheSizeOf li \<le> LISTING_CACHE_MAX_BYTES \<and>
    PathCacheAge (T_IssueTime t) now' < lifetime \<and> lifetime \<le> PATH_CACHE_FEED_TTL_100NS"
  then obtain e where e: "e \<in> set (listing_list s' (bucket_index nls dir))" "L_Path e = dir" "L_Listing e = a"
    "L_Generation e = generation" "L_IssueTime e = T_IssueTime t" "L_Sequence e = T_Sequence t"
    using spec by auto
  have "listing_find nls dir s' = Some e" using listing_find_Some [of nls "W_Ext w" s' dir e] spec assms(1) e(1,2) by auto
  moreover have live: "ListingCacheEntryLive e now' generation lifetime"
    using order_less_le_trans [OF _ word_plus_grace] fit e(4,5) by (auto simp: ListingCacheEntryLive_def)
  moreover have "\<not> lifetime \<le> PathCacheAge (L_IssueTime e) now'" using fit e(5) by auto
  ultimately show "R_Listing (fst (lookup_listing_locked nls dir allowStale t' now' lifetime generation s')) = Some a"
    "R_Ticket (fst (lookup_listing_locked nls dir allowStale t' now' lifetime generation s')) = t"
    using e by (simp_all add: lookup_listing_locked_def Let_def)
qed

theorem publish_lookup_listing_witness:
  "R_Listing (fst (lookup_listing_locked ascii_nls ex_path False ex_ticket 1001 PATH_CACHE_TTL_100NS 0
     (snd (publish_locked ascii_nls True ex_path 7 200 (Some ex_ticket) 1000 PATH_CACHE_TTL_100NS 0 (W_Cache ex_fetched))))) = Some 7"
proof -
  obtain c s' where p: "publish_locked ascii_nls True ex_path 7 200 (Some ex_ticket) 1000 PATH_CACHE_TTL_100NS 0 (W_Cache ex_fetched) = (c, s')"
    by fastforce
  have size: "200 = ListingCacheSizeOf ex_listing" by (simp add: ListingCacheSizeOf_def ex_listing_value)
  have l: "listing_list (W_Cache ex_fetched) (bucket_index ascii_nls ex_path) = []" 
    using boot_lists [OF bucket_index_less] by (simp add: ex_fetched_def ex_inserted_fields)
  then have "listing_find ascii_nls ex_path (W_Cache ex_fetched) = None" by (simp add: listing_find_def)
  moreover have "listing_inv ascii_nls (W_Ext ex_fetched) (W_Cache ex_fetched)"
    using reached_ok(2) [OF ascii_nls_ok rtranclp.rtrancl_into_rtrancl [OF ex_reached ex_fetched_step]] .
  then have "other_bytes (W_Cache ex_fetched) (bucket_index ascii_nls ex_path) = 0"
    using l by (simp add: other_bytes_def listing_inv_def) (simp add: ex_fetched_def ex_inserted_fields)
  ultimately show ?thesis
    using publish_lookup_listing [OF ascii_nls_ok rtranclp.rtrancl_into_rtrancl [OF ex_reached ex_fetched_step] ex_paths(1) _ _
        ex_listing_value(5,6) _ p [unfolded size], of 1001 False ex_ticket] p
    by (simp add: size [symmetric] ex_fetched_def ex_inserted_fields ex_ticket_def PathCacheAge_def PATH_CACHE_TTL_100NS_def
        PATH_CACHE_FEED_TTL_100NS_def LISTING_CACHE_MAX_BYTES_def)
qed

text \<open>What an invalidation of a directory covers is the directory itself and the paths that
  continue it after a separator, case ignored: \<open>\ab\<close> is not under \<open>\a\<close>. The directory
  a path is cached under is the one its parent is invalidated in.\<close>

theorem is_under_and_parent:
  assumes "nls_ok nls" "dir \<noteq> []"
  shows "(PathCacheIsUnder nls dir path \<longleftrightarrow>
            RtlEqualUnicodeString nls dir path \<or> RtlPrefixUnicodeString nls (with_separator dir) path) \<and>
         (PathCacheIsComponent name \<and> (ends_with_separator dir \<longrightarrow> dir = [backslash]) \<longrightarrow>
            PathCacheParent (with_separator dir @ name) = Some dir \<and> PathCacheIsUnder nls dir (with_separator dir @ name) \<and>
            \<not> PathCacheIsBelowChild dir (with_separator dir @ name))"
  using PathCacheIsUnder_iff [OF assms] PathCacheParent_child [of name dir] PathCacheIsUnder_child [OF assms(2)]
    PathCacheIsBelowChild_child [OF assms(2)] assms(2)
  unfolding PathCacheIsComponent_iff by blast

theorem is_under_and_parent_witness:
  "\<not> PathCacheIsUnder ascii_nls [backslash, 0x61] [backslash, 0x61, 0x62] \<and>
   PathCacheParent [backslash, 0x61, backslash, 0x62] = Some [backslash, 0x61]"
  using is_under_and_parent [OF ascii_nls_ok, of "[backslash, 0x61]" "[backslash, 0x61, 0x62]" "[0x62]"]
  by (simp add: with_separator_def PathCacheIsComponent_def MAX_NAME_LEN_def ends_with_separator_def
      RtlPrefixUnicodeString_def RtlEqualUnicodeString_def ascii_nls_def)

end
