(* ===== verification/Http_Text.thy ===== *)
theory Http_Text
  imports Blorg_Prelude
begin

unbundle bit_operations_syntax

text \<open>
  The text handling of the HTTP client (Client.c): decimal and hexadecimal numbers, header names,
  Content-Length, Cache-Control, the version an entity tag names, and the percent-encoding of
  request paths.

  Text is a list of bytes; a pointer with its length is the list. A response's headers are as
  picohttpparser reports them, name and value. Routines that return FALSE or a status beside an
  output return an option or a sum here. C's \<open>char\<close> is signed, a byte here is not: every
  comparison below is against ASCII characters from both sides, where the two agree.
\<close>

section \<open>Numbers and names\<close>

abbreviation SIZE_MAX :: SIZE_T where "SIZE_MAX \<equiv> - 1"

fun str_to_size_loop :: "UCHAR list \<Rightarrow> SIZE_T \<Rightarrow> NTSTATUS + SIZE_T" where
  "str_to_size_loop [] result = Inr result"
| "str_to_size_loop (c # cs) result =
     (if 0x30 \<le> c \<and> c \<le> 0x39
      then if result > SIZE_MAX div 10 \<or> (result = SIZE_MAX div 10 \<and> ucast (c - 0x30) > SIZE_MAX mod 10)
           then Inl STATUS_INVALID_PARAMETER
           else str_to_size_loop cs (result * 10 + ucast (c - 0x30))
      else Inl STATUS_INVALID_PARAMETER)"

definition HttpStrToSize :: "UCHAR list \<Rightarrow> NTSTATUS + SIZE_T" where
  "HttpStrToSize text = (if text = [] then Inl STATUS_INVALID_PARAMETER else str_to_size_loop text 0)"

definition lower :: "UCHAR \<Rightarrow> UCHAR" where
  "lower c = (if 0x41 \<le> c \<and> c \<le> 0x5A then c + (0x61 - 0x41) else c)"

fun tokens_match :: "UCHAR list \<Rightarrow> UCHAR list \<Rightarrow> bool" where
  "tokens_match (c # cs) (e # es) \<longleftrightarrow> (if lower c \<noteq> e then False else tokens_match cs es)"
| "tokens_match _ _ \<longleftrightarrow> True"

definition HttpTokenEquals :: "UCHAR list \<Rightarrow> UCHAR list \<Rightarrow> bool" where
  "HttpTokenEquals name expected \<longleftrightarrow>
     (if length name \<noteq> length expected then False else tokens_match name expected)"

record phr_header =
  h_name :: "UCHAR list"
  h_value :: "UCHAR list"

section \<open>Content-Length\<close>

fun content_length_loop :: "phr_header list \<Rightarrow> NTSTATUS + SIZE_T \<Rightarrow> NTSTATUS + SIZE_T" where
  "content_length_loop [] result = result"
| "content_length_loop (h # hs) result =
     (if \<not> HttpTokenEquals (h_name h) (ascii ''content-length'') then content_length_loop hs result
      else if result \<noteq> Inl STATUS_NOT_FOUND then Inl STATUS_INVALID_NETWORK_RESPONSE
      else content_length_loop hs (HttpStrToSize (h_value h)))"

definition HttpGetContentLengthFromHeaders :: "phr_header list \<Rightarrow> NTSTATUS + SIZE_T" where
  "HttpGetContentLengthFromHeaders headers = content_length_loop headers (Inl STATUS_NOT_FOUND)"

section \<open>Cache-Control\<close>

definition blank :: "UCHAR \<Rightarrow> bool" where
  "blank c \<longleftrightarrow> c = 0x20 \<or> c = 0x09"

text \<open>
  The two trimming loops of HttpForbidsStoring, over the directive between \<open>first\<close> and
  \<open>last\<close>: blanks off the front, then off the end.
\<close>

definition trim :: "UCHAR list \<Rightarrow> UCHAR list" where
  "trim d = rev (dropWhile blank (rev (dropWhile blank d)))"

text \<open>The loop over the directives of one value; the argument is the value from \<open>start\<close> on.\<close>

function forbids_value :: "UCHAR list \<Rightarrow> bool" where
  "forbids_value v =
     (if v = [] then False
      else let d = takeWhile (\<lambda>c. c \<noteq> 0x2C) v
           in if HttpTokenEquals (trim d) (ascii ''no-store'') then True
              else forbids_value (drop (length d + 1) v))"
  by pat_completeness auto
termination by (relation "measure length") auto

declare forbids_value.simps [simp del]

fun HttpForbidsStoring :: "phr_header list \<Rightarrow> bool" where
  "HttpForbidsStoring [] \<longleftrightarrow> False"
| "HttpForbidsStoring (h # hs) \<longleftrightarrow>
     (if \<not> HttpTokenEquals (h_name h) (ascii ''cache-control'') then HttpForbidsStoring hs
      else if forbids_value (h_value h) then True else HttpForbidsStoring hs)"

section \<open>The version of a file\<close>

definition hex_digit :: "UCHAR \<Rightarrow> ULONG option" where
  "hex_digit c =
     (if 0x30 \<le> c \<and> c \<le> 0x39 then Some (ucast (c - 0x30))
      else if 0x61 \<le> c \<and> c \<le> 0x66 then Some (ucast (c - 0x61) + 10)
      else if 0x41 \<le> c \<and> c \<le> 0x46 then Some (ucast (c - 0x41) + 10)
      else None)"

fun hex_loop :: "UCHAR list \<Rightarrow> ULONG64 \<Rightarrow> ULONG64 option" where
  "hex_loop [] acc = Some acc"
| "hex_loop (c # cs) acc =
     (case hex_digit c of None \<Rightarrow> None | Some digit \<Rightarrow> hex_loop cs (push_bit 4 acc OR ucast digit))"

definition HttpParseHex64 :: "UCHAR list \<Rightarrow> ULONG64 option" where
  "HttpParseHex64 text = (if length text = 0 \<or> length text > 16 then None else hex_loop text 0)"

fun etag_loop :: "phr_header list \<Rightarrow> UCHAR list option \<Rightarrow> UCHAR list option option" where
  "etag_loop [] tag = Some tag"
| "etag_loop (h # hs) tag =
     (if HttpTokenEquals (h_name h) (ascii ''etag'')
      then if tag \<noteq> None then None else etag_loop hs (Some (h_value h))
      else etag_loop hs tag)"

definition TICKS_PER_SECOND :: ULONG64 where "TICKS_PER_SECOND = 10000000"
definition EPOCH_TICKS :: ULONG64 where "EPOCH_TICKS = 116444736000000000"

text \<open>The part of HttpParseFileVersion that reads one tag; the result is the size and the time.\<close>

definition parse_tag :: "UCHAR list \<Rightarrow> (ULONG64 \<times> ULONG64) option" where
  "parse_tag tag =
     (if length tag < 2 \<or> tag ! 0 \<noteq> 0x22 \<or> tag ! (length tag - 1) \<noteq> 0x22 then None
      else let text = take (length tag - 2) (drop 1 tag);
               dot = length (takeWhile (\<lambda>c. c \<noteq> 0x2E) text);
               dash = dot + length (takeWhile (\<lambda>c. c \<noteq> 0x2D) (drop dot text))
           in if dash \<ge> length text then None
              else case HttpParseHex64 (take dot text) of None \<Rightarrow> None
                 | Some seconds \<Rightarrow>
              (case HttpParseHex64 (take (dash - dot - 1) (drop (dot + 1) text)) of None \<Rightarrow> None
                 | Some nanoseconds \<Rightarrow>
              (case HttpParseHex64 (drop (dash + 1) text) of None \<Rightarrow> None
                 | Some sz \<Rightarrow>
                     if nanoseconds \<ge> 1000000000 \<or> seconds > (- 1 - EPOCH_TICKS) div TICKS_PER_SECOND - 1 then None
                     else Some (sz, seconds * TICKS_PER_SECOND + nanoseconds div 100 + EPOCH_TICKS))))"

definition HttpParseFileVersion :: "phr_header list \<Rightarrow> (ULONG64 \<times> ULONG64) option" where
  "HttpParseFileVersion headers =
     (case etag_loop headers None of Some (Some tag) \<Rightarrow> parse_tag tag | _ \<Rightarrow> None)"

section \<open>Percent-encoding\<close>

definition HEX_TO_CHAR :: "UCHAR \<Rightarrow> UCHAR" where
  "HEX_TO_CHAR x = (if x < 10 then 0x30 + x else 0x41 + x - 10)"

definition HttpIsCharacterSafeForUrl :: "UCHAR \<Rightarrow> bool" where
  "HttpIsCharacterSafeForUrl c \<longleftrightarrow>
     (0x41 \<le> c \<and> c \<le> 0x5A) \<or> (0x61 \<le> c \<and> c \<le> 0x7A) \<or> (0x30 \<le> c \<and> c \<le> 0x39) \<or>
     c = 0x2D \<or> c = 0x2E \<or> c = 0x5F \<or> c = 0x7E"

fun encoded_length :: "UCHAR list \<Rightarrow> nat" where
  "encoded_length [] = 0"
| "encoded_length (c # cs) = (if HttpIsCharacterSafeForUrl c then 1 else 3) + encoded_length cs"

text \<open>
  The writing loop: \<open>out\<close> is what has been written, its length the code's \<open>j\<close>.
\<close>

fun encode_loop :: "nat \<Rightarrow> UCHAR list \<Rightarrow> UCHAR list \<Rightarrow> NTSTATUS + UCHAR list" where
  "encode_loop encodedLength [] out = Inr out"
| "encode_loop encodedLength (c # cs) out =
     (if HttpIsCharacterSafeForUrl c
      then if length out + 1 > encodedLength then Inl STATUS_BUFFER_OVERFLOW
           else encode_loop encodedLength cs (out @ [c])
      else if length out + 3 > encodedLength then Inl STATUS_BUFFER_OVERFLOW
           else encode_loop encodedLength cs
                  (out @ [0x25, HEX_TO_CHAR (drop_bit 4 c AND 0xF), HEX_TO_CHAR (c AND 0xF)]))"

text \<open>
  HttpUrlEncodePathToAnsi: \<open>to_utf8\<close> is RtlUnicodeStringToUTF8String, whose result is at most
  MAXUSHORT bytes, \<open>pool\<close> the outcome of the allocation. The result is the encoded text and the
  size of its buffer (MaximumLength).
\<close>

definition HttpUrlEncodePathToAnsi ::
    "(UNICODE_STRING \<Rightarrow> NTSTATUS + UCHAR list) \<Rightarrow> bool \<Rightarrow> UNICODE_STRING \<Rightarrow> SIZE_T \<Rightarrow>
     NTSTATUS + (UCHAR list \<times> nat)" where
  "HttpUrlEncodePathToAnsi to_utf8 pool input reserve =
     (case to_utf8 input of
        Inl status \<Rightarrow> Inl status
      | Inr utf8 \<Rightarrow>
          let encodedLength = encoded_length utf8
          in if unat reserve > 65535 \<or> encodedLength + unat reserve + 1 > 65535 then Inl STATUS_NAME_TOO_LONG
             else if \<not> pool then Inl STATUS_INSUFFICIENT_RESOURCES
             else case encode_loop encodedLength utf8 [] of
                    Inl status \<Rightarrow> Inl status
                  | Inr out \<Rightarrow> Inr (out, encodedLength + unat reserve + 1))"

end
