(* ===== verification/Http_Response.thy ===== *)
theory Http_Response
  imports Http_Text Listing
begin

unbundle bit_operations_syntax

text \<open>
  Reading a response of the HTTP client (Client.c): receives are posted, what arrives is appended,
  headers are parsed once they are complete, and the body is collected until the declared length
  has arrived, in the context's own buffer or straight in the caller's memory (a zero-copy read).

  The receive buffer is the list of its bytes, of length Capacity; the caller's memory described by
  TargetMdl is a list too, None for a NULL MDL. Reads and writes of either go through the prelude's
  \<open>peek\<close> and \<open>poke\<close>, which are undefined outside it, and an operation that would touch memory outside is
  the outcome \<open>Faulted\<close>. picohttpparser is the parameter \<open>phr\<close>; pool allocations and the mapping
  of the MDL are arguments. The socket, the connection pool and TLS are not part of this theory:
  what arrives is plaintext, whichever way it came.
\<close>

section \<open>The context\<close>

datatype HTTP_OPERATION = HttpOpDirInfo | HttpOpFileInfo | HttpOpFileRead | HttpOpChanges

datatype HTTP_CONNECTION_SOURCE = HttpConnectionPoolable | HttpConnectionReused | HttpConnectionFresh

record HTTP_CONTEXT =
  C_Headers :: "phr_header list"
  C_Buffer :: "UCHAR list"
  C_TargetMdl :: "UCHAR list option"
  C_BodyOffset :: SIZE_T
  C_ContentLength :: SIZE_T
  C_BodyEndOffset :: SIZE_T
  C_ExpectedContentLength :: SIZE_T
  C_ConnectionSource :: HTTP_CONNECTION_SOURCE
  C_Operation :: HTTP_OPERATION
  C_StatusCode :: int
  C_ExpectedStatusCode :: int
  C_Capacity :: ULONG
  C_Length :: ULONG
  C_NoStore :: bool
  C_HasVersion :: bool
  C_VersionSize :: ULONG64
  C_VersionTime :: ULONG64

definition HTTP_MAX_CONTENT_LENGTH :: SIZE_T where "HTTP_MAX_CONTENT_LENGTH = 64 * 1024 * 1024"
definition HTTP_MAX_HEADER_BYTES :: ULONG where "HTTP_MAX_HEADER_BYTES = 64 * 1024"
definition HTTP_PAGE_SIZE :: SIZE_T where "HTTP_PAGE_SIZE = 4096"

text \<open>
  Requests in flight are counted from 1, so that the drain at unload, which drops the standing
  reference, sees the count reach zero exactly once; the flag is HttpDrainEvent. Each operation is
  one interlocked exchange that succeeded.
\<close>

record HTTP_ACTIVE =
  HttpActiveRequests :: ULONG
  HttpDrainEvent :: bool

definition HttpAcquireActive :: "HTTP_ACTIVE \<Rightarrow> bool \<times> HTTP_ACTIVE" where
  "HttpAcquireActive g =
     (if HttpActiveRequests g \<noteq> 0 then (True, g\<lparr>HttpActiveRequests := HttpActiveRequests g + 1\<rparr>) else (False, g))"

definition HttpReleaseActive :: "HTTP_ACTIVE \<Rightarrow> HTTP_ACTIVE" where
  "HttpReleaseActive g =
     (let n = HttpActiveRequests g - 1
      in g\<lparr>HttpActiveRequests := n, HttpDrainEvent := HttpDrainEvent g \<or> n = 0\<rparr>)"

text \<open>A context as ExAllocatePoolZero leaves it, around a buffer whose contents are not initialised.\<close>

definition fresh_context :: "HTTP_OPERATION \<Rightarrow> int \<Rightarrow> UCHAR list \<Rightarrow> HTTP_CONTEXT" where
  "fresh_context operation expectedStatusCode buffer =
     \<lparr>C_Headers = [], C_Buffer = buffer, C_TargetMdl = None, C_BodyOffset = 0, C_ContentLength = 0,
      C_BodyEndOffset = 0, C_ExpectedContentLength = 0,
      C_ConnectionSource = HttpConnectionPoolable, C_Operation = operation, C_StatusCode = 0,
      C_ExpectedStatusCode = expectedStatusCode, C_Capacity = of_nat (length buffer), C_Length = 0,
      C_NoStore = False, C_HasVersion = False, C_VersionSize = 0, C_VersionTime = 0\<rparr>"

definition HttpNeedsWorkItem :: "bool \<Rightarrow> HTTP_OPERATION \<Rightarrow> bool" where
  "HttpNeedsWorkItem tlsEnabled operation \<longleftrightarrow> operation \<noteq> HttpOpFileRead \<or> tlsEnabled"

text \<open>
  HttpAllocateContext: \<open>context\<close>, \<open>buffer\<close> and \<open>workItem\<close> are the outcomes of its three
  allocations, of which a failure gives back what was taken before it.
\<close>

definition HttpAllocateContext ::
    "bool \<Rightarrow> bool \<Rightarrow> UCHAR list option \<Rightarrow> bool \<Rightarrow> HTTP_OPERATION \<Rightarrow> int \<Rightarrow> HTTP_ACTIVE \<Rightarrow>
     HTTP_CONTEXT option \<times> HTTP_ACTIVE" where
  "HttpAllocateContext tlsEnabled contextMemory buffer workItem operation expectedStatusCode g =
     (case HttpAcquireActive g of
        (False, g1) \<Rightarrow> (None, g1)
      | (True, g1) \<Rightarrow>
          if \<not> contextMemory then (None, HttpReleaseActive g1)
          else case buffer of
                 None \<Rightarrow> (None, HttpReleaseActive g1)
               | Some buf \<Rightarrow>
                   if HttpNeedsWorkItem tlsEnabled operation \<and> \<not> workItem then (None, HttpReleaseActive g1)
                   else (Some (fresh_context operation expectedStatusCode buf), g1))"

text \<open>What HttpGetFileCommon sets on it for a file read; the other operations leave both fields zero.\<close>

definition start_context ::
    "HTTP_OPERATION \<Rightarrow> int \<Rightarrow> UCHAR list \<Rightarrow> UCHAR list option \<Rightarrow> SIZE_T \<Rightarrow> HTTP_CONTEXT" where
  "start_context operation expectedStatusCode buffer targetMdl expectedContentLength =
     (fresh_context operation expectedStatusCode buffer)
       \<lparr>C_TargetMdl := targetMdl, C_ExpectedContentLength := expectedContentLength\<rparr>"

section \<open>Memory\<close>

text \<open>
  HttpGrowBufferIfNeeded: \<open>junk\<close> is the new allocation's contents, None when it fails; the bytes
  received so far are copied into it.
\<close>

definition HttpGrowBufferIfNeeded ::
    "(nat \<Rightarrow> UCHAR list option) \<Rightarrow> SIZE_T \<Rightarrow> HTTP_CONTEXT \<Rightarrow> NTSTATUS \<times> HTTP_CONTEXT" where
  "HttpGrowBufferIfNeeded junk requiredCapacity ctx =
     (if requiredCapacity \<le> ucast (C_Capacity ctx) then (STATUS_SUCCESS, ctx)
      else if requiredCapacity > 0xFFFFFFFF then (STATUS_INVALID_PARAMETER, ctx)
      else case junk (unat requiredCapacity) of
             None \<Rightarrow> (STATUS_INSUFFICIENT_RESOURCES, ctx)
           | Some new \<Rightarrow>
               (STATUS_SUCCESS,
                ctx\<lparr>C_Buffer := take (unat (C_Length ctx)) (C_Buffer ctx) @ drop (unat (C_Length ctx)) new,
                    C_Capacity := ucast requiredCapacity\<rparr>))"

section \<open>Headers\<close>

text \<open>
  phr_parse_response: more bytes are needed (-2), the response is malformed (another negative
  number), or its status line and headers take the given number of bytes.
\<close>

datatype phr_result = PhrIncomplete | PhrError | PhrDone nat int "phr_header list"

definition HttpStatusToNtStatus :: "int \<Rightarrow> NTSTATUS" where
  "HttpStatusToNtStatus statusCode =
     (if statusCode = 404 then STATUS_OBJECT_NAME_NOT_FOUND
      else if statusCode = 403 then STATUS_ACCESS_DENIED
      else if statusCode = 416 then STATUS_END_OF_FILE
      else STATUS_INVALID_PARAMETER)"

definition HttpParseHeaders :: "(UCHAR list \<Rightarrow> phr_result) \<Rightarrow> HTTP_CONTEXT \<Rightarrow> NTSTATUS \<times> HTTP_CONTEXT" where
  "HttpParseHeaders phr ctx =
     (case phr (take (unat (C_Length ctx)) (C_Buffer ctx)) of
        PhrIncomplete \<Rightarrow>
          (if HTTP_MAX_HEADER_BYTES \<le> C_Length ctx then STATUS_INVALID_NETWORK_RESPONSE
           else STATUS_BUFFER_TOO_SMALL, ctx)
      | PhrError \<Rightarrow> (STATUS_INVALID_PARAMETER, ctx)
      | PhrDone bytesProcessed statusCode headers \<Rightarrow>
          let ctx1 = ctx\<lparr>C_StatusCode := statusCode, C_Headers := headers, C_BodyOffset := of_nat bytesProcessed\<rparr>
          in case HttpGetContentLengthFromHeaders headers of
               Inl status \<Rightarrow> (status, ctx1)
             | Inr contentLength \<Rightarrow>
                 if contentLength > HTTP_MAX_CONTENT_LENGTH then (STATUS_INVALID_PARAMETER, ctx1)
                 else case HttpCheckedAddSizeT (C_BodyOffset ctx1) contentLength of
                        None \<Rightarrow> (STATUS_INVALID_PARAMETER, ctx1)
                      | Some bodyEndOffset \<Rightarrow>
                          (STATUS_SUCCESS,
                           ctx1\<lparr>C_ContentLength := contentLength, C_BodyEndOffset := bodyEndOffset,
                                C_NoStore := (C_Operation ctx = HttpOpDirInfo \<or> C_Operation ctx = HttpOpFileInfo) \<and>
                                             HttpForbidsStoring headers,
                                C_HasVersion := C_Operation ctx = HttpOpFileRead \<and> HttpParseFileVersion headers \<noteq> None,
                                C_VersionSize := (if C_Operation ctx = HttpOpFileRead
                                                  then case HttpParseFileVersion headers of Some (sz, _) \<Rightarrow> sz | None \<Rightarrow> C_VersionSize ctx
                                                  else C_VersionSize ctx),
                                C_VersionTime := (if C_Operation ctx = HttpOpFileRead
                                                  then case HttpParseFileVersion headers of Some (_, tm) \<Rightarrow> tm | None \<Rightarrow> C_VersionTime ctx
                                                  else C_VersionTime ctx)\<rparr>))"

section \<open>Reading the response\<close>

datatype http_outcome =
    ReceiveMore HTTP_CONTEXT
  | Failed NTSTATUS
  | Dispatched HTTP_CONTEXT
  | Retry HTTP_CONTEXT
  | Faulted

text \<open>The slide that aligns the body of a metadata answer to eight bytes.\<close>

definition align_body ::
    "(nat \<Rightarrow> UCHAR list option) \<Rightarrow> HTTP_CONTEXT \<Rightarrow> http_outcome + HTTP_CONTEXT" where
  "align_body junk ctx =
     (let alignedBodyOffset = (C_BodyOffset ctx + 7) AND NOT 7
      in if alignedBodyOffset = C_BodyOffset ctx then Inr ctx
         else case HttpCheckedAddSizeT alignedBodyOffset (C_ContentLength ctx) of
                None \<Rightarrow> Inl (Failed STATUS_INVALID_PARAMETER)
              | Some alignedBodyEnd \<Rightarrow>
          (case HttpGrowBufferIfNeeded junk (alignedBodyEnd + 1) ctx of
             (status, ctx1) \<Rightarrow>
               if \<not> NT_SUCCESS status then Inl (Failed status)
               else case peek (unat (C_BodyOffset ctx1)) (unat (ucast (C_Length ctx1) - C_BodyOffset ctx1)) (C_Buffer ctx1) of
                      None \<Rightarrow> Inl Faulted
                    | Some bytes \<Rightarrow>
                        (case poke (unat alignedBodyOffset) bytes (C_Buffer ctx1) of
                           None \<Rightarrow> Inl Faulted
                         | Some buf \<Rightarrow>
                             Inr (ctx1\<lparr>C_Buffer := buf,
                                       C_Length := C_Length ctx1 + ucast (alignedBodyOffset - C_BodyOffset ctx1),
                                       C_BodyOffset := alignedBodyOffset, C_BodyEndOffset := alignedBodyEnd\<rparr>))))"

text \<open>What follows the first successful parse of the headers: the destination is made ready.\<close>

definition place_body ::
    "(nat \<Rightarrow> UCHAR list option) \<Rightarrow> (nat \<Rightarrow> UCHAR list option) \<Rightarrow> bool \<Rightarrow> HTTP_CONTEXT \<Rightarrow> http_outcome + HTTP_CONTEXT" where
  "place_body alignJunk growJunk mapped ctx =
     (case C_TargetMdl ctx of
        Some mdl \<Rightarrow>
          let spill = unat (ucast (C_Length ctx) - C_BodyOffset ctx)
          in if spill = 0 then Inr ctx
             else if \<not> mapped then Inl (Failed STATUS_INSUFFICIENT_RESOURCES)
             else (case peek (unat (C_BodyOffset ctx)) spill (C_Buffer ctx) of
                     None \<Rightarrow> Inl Faulted
                   | Some bytes \<Rightarrow>
                       (case poke 0 bytes mdl of
                          None \<Rightarrow> Inl Faulted
                        | Some mdl' \<Rightarrow> Inr (ctx\<lparr>C_TargetMdl := Some mdl'\<rparr>)))
      | None \<Rightarrow>
          (case (if C_Operation ctx \<noteq> HttpOpFileRead then align_body alignJunk ctx else Inr ctx) of
             Inl outcome \<Rightarrow> Inl outcome
           | Inr ctx1 \<Rightarrow>
               (case HttpGrowBufferIfNeeded growJunk (C_BodyEndOffset ctx1 + 1) ctx1 of
                  (status, ctx2) \<Rightarrow> if \<not> NT_SUCCESS status then Inl (Failed status) else Inr ctx2)))"

definition read_tail :: "HTTP_CONTEXT \<Rightarrow> http_outcome" where
  "read_tail ctx = (if ucast (C_Length ctx) < C_BodyEndOffset ctx then ReceiveMore ctx else Dispatched ctx)"

definition HttpReadResponse ::
    "(UCHAR list \<Rightarrow> phr_result) \<Rightarrow> (nat \<Rightarrow> UCHAR list option) \<Rightarrow> (nat \<Rightarrow> UCHAR list option) \<Rightarrow> bool \<Rightarrow>
     HTTP_CONTEXT \<Rightarrow> http_outcome" where
  "HttpReadResponse phr alignJunk growJunk mapped ctx =
     (if C_BodyOffset ctx = 0
      then case HttpParseHeaders phr ctx of
             (parseStatus, ctx1) \<Rightarrow>
               if parseStatus = STATUS_BUFFER_TOO_SMALL then ReceiveMore ctx1
               else if \<not> NT_SUCCESS parseStatus then Failed parseStatus
               else if C_StatusCode ctx1 \<noteq> C_ExpectedStatusCode ctx1
                    then Failed (HttpStatusToNtStatus (C_StatusCode ctx1))
               else if C_Operation ctx1 = HttpOpFileRead \<and> C_ContentLength ctx1 \<noteq> C_ExpectedContentLength ctx1
                    then Failed STATUS_INVALID_PARAMETER
               else if ucast (C_Length ctx1) > C_BodyEndOffset ctx1 then Failed STATUS_INVALID_PARAMETER
               else (case place_body alignJunk growJunk mapped ctx1 of
                       Inl outcome \<Rightarrow> outcome
                     | Inr ctx2 \<Rightarrow> read_tail ctx2)
      else if ucast (C_Length ctx) > C_BodyEndOffset ctx then Failed STATUS_INVALID_PARAMETER
      else read_tail ctx)"

section \<open>Receives\<close>

text \<open>
  A posted receive: where it writes and how much at most. HttpIssueReceive grows the buffer by a
  page first when the headers have filled it; the stack expansion it may go through re-enters it
  unchanged.
\<close>

datatype receive = IntoBuffer nat nat | IntoMdl nat nat

definition HttpIssueReceive ::
    "(nat \<Rightarrow> UCHAR list option) \<Rightarrow> HTTP_CONTEXT \<Rightarrow> NTSTATUS + (receive \<times> HTTP_CONTEXT)" where
  "HttpIssueReceive junk ctx =
     (if C_BodyOffset ctx = 0
      then case (if C_Length ctx = C_Capacity ctx
                 then HttpGrowBufferIfNeeded junk (ucast (C_Capacity ctx) + HTTP_PAGE_SIZE) ctx
                 else (STATUS_SUCCESS, ctx)) of
             (status, ctx1) \<Rightarrow>
               if \<not> NT_SUCCESS status then Inl status
               else Inr (IntoBuffer (unat (C_Length ctx1)) (unat (C_Capacity ctx1 - C_Length ctx1)), ctx1)
      else if C_TargetMdl ctx \<noteq> None
      then Inr (IntoMdl (unat (C_Length ctx - ucast (C_BodyOffset ctx)))
                        (unat (ucast (C_BodyEndOffset ctx) - C_Length ctx)), ctx)
      else Inr (IntoBuffer (unat (C_Length ctx)) (unat (ucast (C_BodyEndOffset ctx) - C_Length ctx)), ctx))"

text \<open>The transport writes what arrived where the receive was posted.\<close>

fun deliver :: "receive \<Rightarrow> UCHAR list \<Rightarrow> HTTP_CONTEXT \<Rightarrow> HTTP_CONTEXT option" where
  "deliver (IntoBuffer at n) bytes ctx =
     map_option (\<lambda>buf. ctx\<lparr>C_Buffer := buf\<rparr>) (poke at bytes (C_Buffer ctx))"
| "deliver (IntoMdl at n) bytes ctx =
     Option.bind (C_TargetMdl ctx) (\<lambda>mdl. map_option (\<lambda>mdl'. ctx\<lparr>C_TargetMdl := Some mdl'\<rparr>) (poke at bytes mdl))"

fun receive_room :: "receive \<Rightarrow> nat" where
  "receive_room (IntoBuffer at n) = n"
| "receive_room (IntoMdl at n) = n"

text \<open>The retry on a fresh connection resets what a first attempt may have parsed.\<close>

definition HttpFailOrRetryReusedConnection :: "NTSTATUS \<Rightarrow> HTTP_CONTEXT \<Rightarrow> http_outcome" where
  "HttpFailOrRetryReusedConnection status ctx =
     (if C_ConnectionSource ctx \<noteq> HttpConnectionReused \<or> C_Length ctx \<noteq> 0 then Failed status
      else Retry (ctx\<lparr>C_ConnectionSource := HttpConnectionFresh, C_Length := 0, C_BodyOffset := 0,
                      C_ContentLength := 0, C_BodyEndOffset := 0, C_Headers := [], C_StatusCode := 0\<rparr>))"

definition HttpOnReceive ::
    "(UCHAR list \<Rightarrow> phr_result) \<Rightarrow> (nat \<Rightarrow> UCHAR list option) \<Rightarrow> (nat \<Rightarrow> UCHAR list option) \<Rightarrow> bool \<Rightarrow>
     NTSTATUS \<Rightarrow> nat \<Rightarrow> HTTP_CONTEXT \<Rightarrow> http_outcome" where
  "HttpOnReceive phr alignJunk growJunk mapped status bytesTransferred ctx =
     (if \<not> NT_SUCCESS status then HttpFailOrRetryReusedConnection status ctx
      else if bytesTransferred = 0 \<and> (C_BodyOffset ctx = 0 \<or> ucast (C_Length ctx) < C_BodyEndOffset ctx)
      then HttpFailOrRetryReusedConnection STATUS_CONNECTION_DISCONNECTED ctx
      else HttpReadResponse phr alignJunk growJunk mapped (ctx\<lparr>C_Length := C_Length ctx + of_nat bytesTransferred\<rparr>))"

section \<open>What the caller is handed\<close>

text \<open>The body at dispatch: in the caller's memory, or in the context's buffer.\<close>

definition response_body :: "HTTP_CONTEXT \<Rightarrow> UCHAR list option" where
  "response_body ctx =
     (case C_TargetMdl ctx of
        Some mdl \<Rightarrow> peek 0 (unat (C_ContentLength ctx)) mdl
      | None \<Rightarrow> peek (unat (C_BodyOffset ctx)) (unat (C_ContentLength ctx)) (C_Buffer ctx))"

end
