(* ===== verification/Http_Text_Correct.thy ===== *)
theory Http_Text_Correct
  imports Http_Text
begin

unbundle bit_operations_syntax

text \<open>What the text routines of the HTTP client compute.\<close>

section \<open>Decimal numbers\<close>

definition digit :: "UCHAR \<Rightarrow> bool" where
  "digit c \<longleftrightarrow> 0x30 \<le> c \<and> c \<le> 0x39"

definition decimal :: "nat \<Rightarrow> UCHAR list \<Rightarrow> nat" where
  "decimal n cs = foldl (\<lambda>n c. n * 10 + (unat c - 48)) n cs"

lemma decimal_simps [simp]: "decimal n [] = n" "decimal n (c # cs) = decimal (n * 10 + (unat c - 48)) cs"
  by (simp_all add: decimal_def)

lemma decimal_ge: "n \<le> decimal n cs"
proof (induction cs arbitrary: n)
  case (Cons c cs)
  show ?case using Cons.IH [of "n * 10 + (unat c - 48)"] by simp
qed simp

lemma digit_value:
  assumes "digit c"
  shows "unat (ucast (c - 0x30) :: SIZE_T) = unat c - 48" "unat c - 48 \<le> 9"
proof -
  have "unat (c - 0x30) = unat c - 48" using assms unat_minus_le [of "0x30" c] by (simp add: digit_def)
  moreover have "unat c \<le> 57" using assms by (simp add: digit_def word_le_nat_alt)
  ultimately show "unat (ucast (c - 0x30) :: SIZE_T) = unat c - 48" "unat c - 48 \<le> 9"
    by (simp_all add: unat_ucast_up)
qed

lemma size_overflow_test:
  fixes r d :: SIZE_T
  assumes "unat d \<le> 9"
  shows "(r > SIZE_MAX div 10 \<or> (r = SIZE_MAX div 10 \<and> d > SIZE_MAX mod 10)) \<longleftrightarrow> \<not> unat r * 10 + unat d < 2 ^ 64"
proof -
  have q: "unat (SIZE_MAX div 10) = 1844674407370955161" "unat (SIZE_MAX mod 10) = 5"
    by simp_all
  show ?thesis
    unfolding word_less_nat_alt word_unat_eq_iff q using assms by auto
qed

lemma str_to_size_loop_spec:
  "str_to_size_loop cs r =
     (if (\<forall>c\<in>set cs. digit c) \<and> decimal (unat r) cs < 2 ^ 64 then Inr (of_nat (decimal (unat r) cs))
      else Inl STATUS_INVALID_PARAMETER)"
proof (induction cs arbitrary: r)
  case Nil
  have "unat r < 2 ^ LENGTH(64)" by (rule unsigned_less)
  then show ?case by simp
next
  case (Cons c cs)
  let ?d = "ucast (c - 0x30) :: SIZE_T"
  show ?case
  proof (cases "digit c")
    case True
    note d = digit_value [OF True]
    have fits: "(r > SIZE_MAX div 10 \<or> (r = SIZE_MAX div 10 \<and> ?d > SIZE_MAX mod 10)) \<longleftrightarrow> \<not> unat r * 10 + (unat c - 48) < 2 ^ 64"
      using size_overflow_test [of ?d r] d by simp
    show ?thesis
    proof (cases "unat r * 10 + (unat c - 48) < 2 ^ 64")
      case small: True
      then have "unat (r * 10 + ?d) = unat r * 10 + (unat c - 48)"
        using d by (simp add: unat_word_ariths)
      moreover have "str_to_size_loop (c # cs) r = str_to_size_loop cs (r * 10 + ?d)"
        using True fits small unfolding str_to_size_loop.simps digit_def by (simp only: simp_thms if_True if_False)
      ultimately show ?thesis using True Cons.IH [of "r * 10 + ?d"] by simp
    next
      case False
      then have "\<not> decimal (unat r) (c # cs) < 2 ^ 64"
        using decimal_ge [of "unat r * 10 + (unat c - 48)" cs] by simp
      moreover have "str_to_size_loop (c # cs) r = Inl STATUS_INVALID_PARAMETER"
        using True fits False unfolding str_to_size_loop.simps digit_def by (simp only: simp_thms if_True if_False)
      ultimately show ?thesis by (simp only: simp_thms if_False)
    qed
  next
    case False
    then show ?thesis by (simp add: digit_def [symmetric])
  qed
qed

section \<open>Header names\<close>

lemma tokens_match_map: "length a = length b \<Longrightarrow> tokens_match a b \<longleftrightarrow> map lower a = b"
  by (induction a b rule: list_induct2) auto

lemma HttpTokenEquals_iff: "HttpTokenEquals a b \<longleftrightarrow> map lower a = b"
  unfolding HttpTokenEquals_def using tokens_match_map [of a b] by auto

text \<open>The headers of a name.\<close>

definition named :: "string \<Rightarrow> phr_header list \<Rightarrow> phr_header list" where
  "named name hs = filter (\<lambda>h. map lower (h_name h) = ascii name) hs"

lemma HttpStrToSize_not_NOT_FOUND: "HttpStrToSize v \<noteq> Inl STATUS_NOT_FOUND"
  by (auto simp: HttpStrToSize_def str_to_size_loop_spec status_defs)

lemma content_length_loop_named:
  "content_length_loop hs r =
     (case named ''content-length'' hs of
        [] \<Rightarrow> r
      | h # rest \<Rightarrow> if r = Inl STATUS_NOT_FOUND \<and> rest = [] then HttpStrToSize (h_value h)
                    else Inl STATUS_INVALID_NETWORK_RESPONSE)"
proof (induction hs arbitrary: r)
  case Nil
  then show ?case by (simp add: named_def)
next
  case (Cons h hs)
  show ?case
    using Cons.IH HttpStrToSize_not_NOT_FOUND [of "h_value h"]
    by (cases "named ''content-length'' hs") (auto simp: named_def HttpTokenEquals_iff)
qed

lemma etag_loop_named:
  "etag_loop hs tag =
     (case named ''etag'' hs of
        [] \<Rightarrow> Some tag
      | h # rest \<Rightarrow> if tag = None \<and> rest = [] then Some (Some (h_value h)) else None)"
proof (induction hs arbitrary: tag)
  case Nil
  then show ?case by (simp add: named_def)
next
  case (Cons h hs)
  show ?case using Cons.IH by (cases "named ''etag'' hs") (auto simp: named_def HttpTokenEquals_iff)
qed

section \<open>Cache-Control\<close>

text \<open>A directive between commas, with blanks around it.\<close>

definition has_directive :: "UCHAR list \<Rightarrow> UCHAR list \<Rightarrow> bool" where
  "has_directive token v \<longleftrightarrow>
     (\<exists>before ws t ws' after. v = before @ ws @ t @ ws' @ after \<and> map lower t = token \<and>
        (\<forall>c\<in>set (ws @ ws'). blank c) \<and> (before = [] \<or> last before = 0x2C) \<and> (after = [] \<or> hd after = 0x2C))"

lemma trim_token:
  assumes "token \<noteq> []" "\<not> blank (hd token)" "\<not> blank (last token)" "\<And>c. blank (lower c) \<longleftrightarrow> blank c"
  shows "map lower (trim d) = token \<longleftrightarrow> (\<exists>ws t ws'. d = ws @ t @ ws' \<and> map lower t = token \<and> (\<forall>c\<in>set (ws @ ws'). blank c))"
proof
  let ?x = "dropWhile blank d"
  have "d = takeWhile blank d @ ?x" by simp
  moreover have "?x = trim d @ rev (takeWhile blank (rev ?x))"
    using takeWhile_dropWhile_id [of blank "rev ?x"] unfolding trim_def by (metis rev_append rev_rev_ident)
  ultimately have eq: "d = takeWhile blank d @ trim d @ rev (takeWhile blank (rev ?x))" by metis
  have blanks: "\<forall>c\<in>set (takeWhile blank d @ rev (takeWhile blank (rev ?x))). blank c" by (auto dest: set_takeWhileD)
  assume "map lower (trim d) = token"
  with eq blanks show "\<exists>ws t ws'. d = ws @ t @ ws' \<and> map lower t = token \<and> (\<forall>c\<in>set (ws @ ws'). blank c)" by blast
next
  assume "\<exists>ws t ws'. d = ws @ t @ ws' \<and> map lower t = token \<and> (\<forall>c\<in>set (ws @ ws'). blank c)"
  then obtain ws t ws' where d: "d = ws @ t @ ws'" "map lower t = token" "\<forall>c\<in>set (ws @ ws'). blank c" by blast
  have t: "t \<noteq> []" using assms(1) d(2) by auto
  have "hd token = lower (hd t)" "last token = lower (last t)" using d(2) t by (auto simp: hd_map last_map)
  then have t: "t \<noteq> []" "\<not> blank (hd t)" "\<not> blank (last t)" using t assms(2-4) by metis+
  have "dropWhile blank d = t @ ws'"
    unfolding d(1) using d(3) t(1,2) by (subst dropWhile_append2) (auto simp: dropWhile_eq_self_iff)
  moreover have "dropWhile blank (rev ws' @ rev t) = rev t"
    using d(3) t(1,3) by (subst dropWhile_append2) (auto simp: dropWhile_eq_self_iff hd_rev)
  ultimately have "trim d = t" by (simp add: trim_def)
  with d(2) show "map lower (trim d) = token" by simp
qed

lemma lower_blank: "blank (lower c) \<longleftrightarrow> blank c"
proof -
  have "\<not> blank (c + 0x20)" "\<not> blank c" if "0x41 \<le> c" "c \<le> 0x5A"
  proof -
    have n: "65 \<le> unat c" "unat c \<le> 90" using that by (simp_all add: word_le_nat_alt)
    then have "unat (c + 0x20) = unat c + 32" by (simp add: unat_word_ariths)
    then show "\<not> blank (c + 0x20)" "\<not> blank c" using n unfolding blank_def word_unat_eq_iff by simp_all
  qed
  then show ?thesis by (auto simp: lower_def)
qed

lemma comma_lower: "lower c = 0x2C \<longleftrightarrow> c = 0x2C"
proof -
  have "c + 0x20 \<noteq> 0x2C" "c \<noteq> 0x2C" if "0x41 \<le> c" "c \<le> 0x5A"
  proof -
    have n: "65 \<le> unat c" "unat c \<le> 90" using that by (simp_all add: word_le_nat_alt)
    then have "unat (c + 0x20) = unat c + 32" by (simp add: unat_word_ariths)
    then show "c + 0x20 \<noteq> 0x2C" "c \<noteq> 0x2C" using n unfolding word_unat_eq_iff by simp_all
  qed
  then show ?thesis by (auto simp: lower_def)
qed

lemma directive_no_comma:
  assumes "map lower t = token" "0x2C \<notin> set token" "\<forall>c\<in>set (ws @ ws'). blank c"
  shows "0x2C \<notin> set (ws @ t @ ws')"
proof -
  have "0x2C \<notin> set t" using assms(1,2) comma_lower by force
  moreover have "\<not> blank 0x2C" by (simp add: blank_def)
  ultimately show ?thesis using assms(3) by auto
qed

lemma takeWhile_shorter: "x \<in> set xs \<Longrightarrow> \<not> P x \<Longrightarrow> length (takeWhile P xs) < length xs"
  by (induction xs) auto

text \<open>The directive is the first one, or lies after the first comma.\<close>

lemma has_directive_first:
  assumes "0x2C \<notin> set token" "d = takeWhile (\<lambda>c. c \<noteq> 0x2C) v"
  shows "has_directive token v \<longleftrightarrow>
    (\<exists>ws t ws'. d = ws @ t @ ws' \<and> map lower t = token \<and> (\<forall>c\<in>set (ws @ ws'). blank c)) \<or>
    (length d < length v \<and> has_directive token (drop (length d + 1) v))"
    (is "_ \<longleftrightarrow> ?first \<or> ?later")
proof
  assume "has_directive token v"
  then obtain before ws t ws' after where v: "v = before @ ws @ t @ ws' @ after" "map lower t = token"
    "\<forall>c\<in>set (ws @ ws'). blank c" "before = [] \<or> last before = 0x2C" "after = [] \<or> hd after = 0x2C"
    unfolding has_directive_def by blast
  have free: "0x2C \<notin> set (ws @ t @ ws')" by (rule directive_no_comma [OF v(2) assms(1) v(3)])
  show "?first \<or> ?later"
  proof (cases "before = []")
    case True
    then have "v = (ws @ t @ ws') @ after" using v(1) by simp
    moreover have "takeWhile (\<lambda>c. c \<noteq> 0x2C) after = []" using v(5) by (cases after) auto
    moreover have "takeWhile (\<lambda>c. c \<noteq> 0x2C) ((ws @ t @ ws') @ after) = (ws @ t @ ws') @ takeWhile (\<lambda>c. c \<noteq> 0x2C) after"
      using free by (intro takeWhile_append2) auto
    ultimately have "d = ws @ t @ ws'" using assms(2) by simp
    with v(2,3) show ?thesis by blast
  next
    case False
    then have "0x2C \<in> set before" using v(4) last_in_set by metis
    then have d: "d = takeWhile (\<lambda>c. c \<noteq> 0x2C) before" "length d < length before"
      unfolding assms(2) v(1) by (auto simp: takeWhile_append1 takeWhile_shorter)
    let ?b = "drop (length d + 1) before"
    have "drop (length d + 1) v = ?b @ ws @ t @ ws' @ after" using d(2) by (simp add: v(1))
    moreover have "?b = [] \<or> last ?b = 0x2C" using v(4) False by (cases "length before \<le> length d + 1") (auto simp: last_drop)
    ultimately have "has_directive token (drop (length d + 1) v)"
      unfolding has_directive_def using v(2,3,5) by blast
    then show ?thesis using d(2) v(1) by auto
  qed
next
  have v: "v = d @ drop (length d) v" unfolding assms(2) by (metis takeWhile_dropWhile_id dropWhile_eq_drop)
  assume "?first \<or> ?later"
  then show "has_directive token v"
  proof
    assume ?first
    then obtain ws t ws' where f: "d = ws @ t @ ws'" "map lower t = token" "\<forall>c\<in>set (ws @ ws'). blank c" by blast
    have "drop (length d) v = [] \<or> hd (drop (length d) v) = 0x2C"
      using hd_dropWhile [of "\<lambda>c. c \<noteq> 0x2C" v] unfolding assms(2) dropWhile_eq_drop by auto
    moreover have "v = [] @ ws @ t @ ws' @ drop (length d) v" by (subst v) (simp add: f(1))
    ultimately show ?thesis unfolding has_directive_def using f(2,3) by blast
  next
    assume l: ?later
    then obtain before ws t ws' after where w: "drop (length d + 1) v = before @ ws @ t @ ws' @ after" "map lower t = token"
      "\<forall>c\<in>set (ws @ ws'). blank c" "before = [] \<or> last before = 0x2C" "after = [] \<or> hd after = 0x2C"
      unfolding has_directive_def by blast
    have "v ! length d = 0x2C" using l nth_length_takeWhile [of "\<lambda>c. c \<noteq> 0x2C" v] unfolding assms(2) by auto
    then have "drop (length d) v = 0x2C # drop (length d + 1) v" using l by (metis Cons_nth_drop_Suc Suc_eq_plus1)
    then have "v = d @ 0x2C # before @ ws @ t @ ws' @ after" using v w(1) by metis
    then have "v = (d @ 0x2C # before) @ ws @ t @ ws' @ after" by simp
    moreover have "last (d @ 0x2C # before) = 0x2C" using w(4) by auto
    ultimately show ?thesis unfolding has_directive_def using w(2,3,5) by blast
  qed
qed

lemma forbids_value_iff: "forbids_value v \<longleftrightarrow> has_directive (ascii ''no-store'') v"
proof (induction v rule: forbids_value.induct)
  case (1 v)
  have token: "ascii ''no-store'' \<noteq> []" "\<not> blank (hd (ascii ''no-store''))" "\<not> blank (last (ascii ''no-store''))"
    "0x2C \<notin> set (ascii ''no-store'')"
    by (simp_all add: ascii_def blank_def)
  let ?d = "takeWhile (\<lambda>c. c \<noteq> 0x2C) v"
  show ?case
  proof (cases "v = []")
    case True
    then show ?thesis using token(1) unfolding has_directive_def by (subst forbids_value.simps) auto
  next
    case False
    have later: "has_directive (ascii ''no-store'') (drop (length ?d + 1) v) \<longleftrightarrow>
        length ?d < length v \<and> has_directive (ascii ''no-store'') (drop (length ?d + 1) v)"
    proof -
      have "\<not> has_directive (ascii ''no-store'') []" using token(1) unfolding has_directive_def by auto
      moreover have "drop (length ?d + 1) v = []" if "\<not> length ?d < length v" using that by simp
      ultimately show ?thesis by metis
    qed
    have "forbids_value v \<longleftrightarrow> HttpTokenEquals (trim ?d) (ascii ''no-store'') \<or> forbids_value (drop (length ?d + 1) v)"
      using False by (subst forbids_value.simps) (simp add: Let_def)
    also have "\<dots> \<longleftrightarrow> has_directive (ascii ''no-store'') v"
    proof (cases "HttpTokenEquals (trim ?d) (ascii ''no-store'')")
      case True
      then show ?thesis
        unfolding has_directive_first [OF token(4) refl, of v]
        using trim_token [OF token(1-3) lower_blank, of ?d] by (simp add: HttpTokenEquals_iff)
    next
      case notEq: False
      then have "forbids_value (drop (length ?d + 1) v) \<longleftrightarrow> has_directive (ascii ''no-store'') (drop (length ?d + 1) v)"
        using "1.IH" [OF False refl] by simp
      with notEq later show ?thesis
        unfolding has_directive_first [OF token(4) refl, of v]
        using trim_token [OF token(1-3) lower_blank, of ?d] by (simp add: HttpTokenEquals_iff)
    qed
    finally show ?thesis .
  qed
qed

lemma HttpForbidsStoring_iff:
  "HttpForbidsStoring hs \<longleftrightarrow> (\<exists>h\<in>set (named ''cache-control'' hs). has_directive (ascii ''no-store'') (h_value h))"
  by (induction hs) (auto simp: named_def HttpTokenEquals_iff forbids_value_iff)

section \<open>Hexadecimal numbers and the version tag\<close>

definition hexadecimal :: "nat \<Rightarrow> UCHAR list \<Rightarrow> nat" where
  "hexadecimal n cs = foldl (\<lambda>n c. n * 16 + unat (the (hex_digit c))) n cs"

lemma hexadecimal_simps [simp]:
  "hexadecimal n [] = n" "hexadecimal n (c # cs) = hexadecimal (n * 16 + unat (the (hex_digit c))) cs"
  by (simp_all add: hexadecimal_def)

lemma hex_digit_less:
  assumes "hex_digit c = Some d"
  shows "unat d < 16"
proof -
  have "unat (c - 0x30) = unat c - 48" if "0x30 \<le> c" using unat_minus_le [OF that] by simp
  moreover have "unat (c - 0x61) = unat c - 97" if "0x61 \<le> c" using unat_minus_le [OF that] by simp
  moreover have "unat (c - 0x41) = unat c - 65" if "0x41 \<le> c" using unat_minus_le [OF that] by simp
  ultimately show ?thesis
    using assms
    by (auto simp: hex_digit_def word_le_nat_alt unat_word_ariths unat_ucast_up split: if_splits)
qed

lemma shift_in_digit:
  fixes acc :: ULONG64 and d :: ULONG
  assumes "unat d < 16" "unat acc * 16 + unat d < 2 ^ 64"
  shows "unat (push_bit 4 acc OR ucast d) = unat acc * 16 + unat d"
proof -
  let ?d = "ucast d :: ULONG64"
  have d: "unat ?d = unat d" by (simp add: unat_ucast_up)
  have "take_bit 4 ?d = ?d"
    by (rule word_unat_eq_iff [THEN iffD2]) (use assms(1) d in \<open>simp add: unsigned_take_bit_eq take_bit_nat_eq_self\<close>)
  then have "\<not> bit ?d n" if "4 \<le> n" for n using that by (metis bit_take_bit_iff leD)
  then have "push_bit 4 acc AND ?d = 0"
    by (intro bit_word_eqI) (auto simp: bit_simps)
  then have "push_bit 4 acc OR ?d = push_bit 4 acc + ?d" by (rule disjunctive_add_eq_or [symmetric])
  moreover have "push_bit 4 acc = acc * 16" by (simp add: push_bit_eq_mult)
  ultimately show ?thesis using assms(2) d by (simp add: unat_word_ariths)
qed

lemma hex_loop_spec:
  assumes "unat acc < 16 ^ m" "m + length cs \<le> 16"
  shows "hex_loop cs acc =
      (if \<forall>c\<in>set cs. hex_digit c \<noteq> None then Some (of_nat (hexadecimal (unat acc) cs)) else None) \<and>
    hexadecimal (unat acc) cs < 2 ^ 64 + (if \<forall>c\<in>set cs. hex_digit c \<noteq> None then 0 else hexadecimal (unat acc) cs)"
  using assms
proof (induction cs arbitrary: acc m)
  case Nil
  have "unat acc < 2 ^ LENGTH(64)" by (rule unsigned_less)
  then show ?case by simp
next
  case (Cons c cs)
  show ?case
  proof (cases "hex_digit c")
    case (Some d)
    have d: "unat d < 16" by (rule hex_digit_less [OF Some])
    have lt: "unat acc * 16 + unat d < 16 ^ Suc m" using Cons.prems(1) d by simp
    also have "(16::nat) ^ Suc m \<le> 16 ^ 16" using Cons.prems(2) by (intro power_increasing) auto
    finally have "unat (push_bit 4 acc OR ucast d) = unat acc * 16 + unat d" by (intro shift_in_digit d) simp
    then show ?thesis using Cons.IH [of "push_bit 4 acc OR ucast d" "Suc m"] lt Cons.prems(2) Some by auto
  qed simp
qed

lemma HttpParseHex64_Some:
  "HttpParseHex64 cs = Some v \<longleftrightarrow>
     0 < length cs \<and> length cs \<le> 16 \<and> (\<forall>c\<in>set cs. hex_digit c \<noteq> None) \<and> unat v = hexadecimal 0 cs"
  using hex_loop_spec [of 0 0 cs]
  by (auto simp: HttpParseHex64_def unat_of_nat_less word_unat_eq_iff split: if_splits)

text \<open>A tag as the server spells it.\<close>

definition version_tag :: "UCHAR list \<Rightarrow> UCHAR list \<Rightarrow> UCHAR list \<Rightarrow> UCHAR list" where
  "version_tag a b c = [0x22] @ a @ [0x2E] @ b @ [0x2D] @ c @ [0x22]"

lemma hex_digit_punctuation: "hex_digit 0x2E = None" "hex_digit 0x2D = None" "hex_digit 0x22 = None"
  by (simp_all add: hex_digit_def)

lemma seconds_bound: "unat ((- 1 - EPOCH_TICKS) div TICKS_PER_SECOND - 1) = 1833029933769"
  by (simp add: EPOCH_TICKS_def TICKS_PER_SECOND_def)

lemma version_time:
  assumes "unat s \<le> 1833029933769" "unat n < 1000000000"
  shows "unat (s * TICKS_PER_SECOND + n div 100 + EPOCH_TICKS) = unat s * 10000000 + unat n div 100 + 116444736000000000"
  using assms by (simp add: EPOCH_TICKS_def TICKS_PER_SECOND_def unat_word_ariths unat_div)

lemma parse_tag_text:
  assumes "tag = [0x22] @ body @ [0x22]"
    "dot = length (takeWhile (\<lambda>c. c \<noteq> 0x2E) body)" "dash = dot + length (takeWhile (\<lambda>c. c \<noteq> 0x2D) (drop dot body))"
  shows "parse_tag tag = Some (sz, t) \<longleftrightarrow>
    dash < length body \<and> (\<exists>s n. HttpParseHex64 (take dot body) = Some s \<and>
      HttpParseHex64 (take (dash - dot - 1) (drop (dot + 1) body)) = Some n \<and> HttpParseHex64 (drop (dash + 1) body) = Some sz \<and>
      unat n < 1000000000 \<and> unat s \<le> 1833029933769 \<and> t = s * TICKS_PER_SECOND + n div 100 + EPOCH_TICKS)"
proof -
  have q: "length tag = length body + 2" "tag ! 0 = 0x22" "tag ! (length tag - 1) = 0x22" "take (length tag - 2) (drop 1 tag) = body"
    using assms(1) by (simp_all add: nth_append)
  have lt: "(n \<ge> 1000000000 \<or> s > (- 1 - EPOCH_TICKS) div TICKS_PER_SECOND - 1) \<longleftrightarrow> \<not> (unat n < 1000000000 \<and> unat s \<le> 1833029933769)"
    for n s :: ULONG64
    unfolding word_le_nat_alt word_less_nat_alt seconds_bound by auto
  show ?thesis
    unfolding parse_tag_def Let_def q(4) assms(2,3) [symmetric] lt
    using q(1-3) by (auto split: option.splits)
qed

lemma parse_tag_split:
  fixes body :: "UCHAR list"
  assumes "dot = length (takeWhile (\<lambda>c. c \<noteq> 0x2E) body)" "dash = dot + length (takeWhile (\<lambda>c. c \<noteq> 0x2D) (drop dot body))"
    and "dash < length body"
  shows "dot < dash" "body = take dot body @ [0x2E] @ take (dash - dot - 1) (drop (dot + 1) body) @ [0x2D] @ drop (dash + 1) body"
proof -
  have d: "drop dot body \<noteq> []" using assms(2,3) by auto
  have "hd (drop dot body) = 0x2E"
    using d hd_dropWhile [of "\<lambda>c. c \<noteq> 0x2E" body] unfolding assms(1) dropWhile_eq_drop [symmetric] by auto
  then have rest: "drop dot body = 0x2E # drop (dot + 1) body" using d by (cases "drop dot body") (auto simp: drop_Suc tl_drop [symmetric])
  then show lt: "dot < dash" using assms(2) by simp
  let ?k = "length (takeWhile (\<lambda>c. c \<noteq> 0x2D) (drop dot body))"
  have "drop ?k (drop dot body) \<noteq> []" using assms(2,3) by simp
  then have "hd (drop ?k (drop dot body)) = 0x2D"
    using hd_dropWhile [of "\<lambda>c. c \<noteq> 0x2D" "drop dot body"] unfolding dropWhile_eq_drop [symmetric] by auto
  then have "hd (drop dash body) = 0x2D" using assms(2) by (simp add: add.commute)
  moreover have "drop dash body \<noteq> []" using assms(3) by simp
  ultimately have tail: "drop dash body = 0x2D # drop (dash + 1) body" by (cases "drop dash body") (auto simp: drop_Suc tl_drop [symmetric])
  have "drop (dot + 1) body = take (dash - dot - 1) (drop (dot + 1) body) @ drop (dash - dot - 1) (drop (dot + 1) body)"
    by (simp only: append_take_drop_id)
  also have "drop (dash - dot - 1) (drop (dot + 1) body) = drop dash body" using lt by simp
  finally show "body = take dot body @ [0x2E] @ take (dash - dot - 1) (drop (dot + 1) body) @ [0x2D] @ drop (dash + 1) body"
    using append_take_drop_id [of dot body] rest tail by simp
qed

lemma parse_tag_Some:
  "parse_tag tag = Some (sz, t) \<longleftrightarrow>
   (\<exists>a b c s n. tag = version_tag a b c \<and> HttpParseHex64 a = Some s \<and> HttpParseHex64 b = Some n \<and> HttpParseHex64 c = Some sz \<and>
      unat n < 1000000000 \<and> unat s \<le> 1833029933769 \<and> t = s * TICKS_PER_SECOND + n div 100 + EPOCH_TICKS)"
  (is "_ \<longleftrightarrow> ?R")
proof
  assume p: "parse_tag tag = Some (sz, t)"
  then have q: "2 \<le> length tag" "tag ! 0 = 0x22" "tag ! (length tag - 1) = 0x22" by (auto simp: parse_tag_def split: if_splits)
  define body where "body = take (length tag - 2) (drop 1 tag)"
  obtain x ys y where xs: "tag = x # ys @ [y]" using q(1) by (cases tag; cases "tl tag" rule: rev_cases) auto
  then have tag: "tag = [0x22] @ body @ [0x22]" using q(2,3) by (simp add: body_def nth_append)
  define dot where "dot = length (takeWhile (\<lambda>c. c \<noteq> 0x2E) body)"
  define dash where "dash = dot + length (takeWhile (\<lambda>c. c \<noteq> 0x2D) (drop dot body))"
  note pt = p [unfolded parse_tag_text [OF tag dot_def dash_def]]
  have "body = take dot body @ [0x2E] @ take (dash - dot - 1) (drop (dot + 1) body) @ [0x2D] @ drop (dash + 1) body"
    using parse_tag_split [OF dot_def dash_def] pt by blast
  then have "tag = version_tag (take dot body) (take (dash - dot - 1) (drop (dot + 1) body)) (drop (dash + 1) body)"
    unfolding version_tag_def using tag by simp
  with pt show ?R by blast
next
  assume ?R
  then obtain a b c s n where tag: "tag = version_tag a b c" and hex: "HttpParseHex64 a = Some s" "HttpParseHex64 b = Some n" "HttpParseHex64 c = Some sz"
    and r: "unat n < 1000000000" "unat s \<le> 1833029933769" "t = s * TICKS_PER_SECOND + n div 100 + EPOCH_TICKS" by blast
  let ?body = "a @ [0x2E] @ b @ [0x2D] @ c"
  have no: "0x2E \<notin> set a" "0x2D \<notin> set a" "0x2D \<notin> set b"
    using hex hex_digit_punctuation by (auto simp: HttpParseHex64_Some)
  have dot: "length a = length (takeWhile (\<lambda>c. c \<noteq> 0x2E) ?body)"
    using no(1) by (subst takeWhile_append2) auto
  have "takeWhile (\<lambda>c. c \<noteq> 0x2D) (b @ 0x2D # c) = b @ takeWhile (\<lambda>c. c \<noteq> 0x2D) (0x2D # c)"
    using no(3) by (intro takeWhile_append2) auto
  then have dash: "length a + length b + 1 = length a + length (takeWhile (\<lambda>c. c \<noteq> 0x2D) (drop (length a) ?body))" by simp
  have "tag = [0x22] @ ?body @ [0x22]" by (simp add: tag version_tag_def)
  note pt = parse_tag_text [OF this dot dash]
  show "parse_tag tag = Some (sz, t)" unfolding pt using hex r by auto
qed

section \<open>Percent-encoding\<close>

text \<open>The decoding that a server applies to a request path.\<close>

fun percent_decode :: "UCHAR list \<Rightarrow> UCHAR list option" where
  "percent_decode [] = Some []"
| "percent_decode (c # cs) =
     (if c \<noteq> 0x25 then map_option ((#) c) (percent_decode cs)
      else case cs of
             a # b # rest \<Rightarrow>
               (case (hex_digit a, hex_digit b) of
                  (Some x, Some y) \<Rightarrow> map_option ((#) (ucast (16 * x + y))) (percent_decode rest)
                | _ \<Rightarrow> None)
           | _ \<Rightarrow> None)"

definition escape :: "UCHAR \<Rightarrow> UCHAR list" where
  "escape c = (if HttpIsCharacterSafeForUrl c then [c]
               else [0x25, HEX_TO_CHAR (drop_bit 4 c AND 0xF), HEX_TO_CHAR (c AND 0xF)])"

definition percent_encode :: "UCHAR list \<Rightarrow> UCHAR list" where
  "percent_encode cs = concat (map escape cs)"

lemma percent_encode_simps [simp]: "percent_encode [] = []" "percent_encode (c # cs) = escape c @ percent_encode cs"
  by (simp_all add: percent_encode_def)

lemma encoded_length_eq: "encoded_length cs = length (percent_encode cs)"
  by (induction cs) (auto simp: escape_def)

lemma encode_loop_spec:
  "length out + encoded_length cs \<le> n \<Longrightarrow> encode_loop n cs out = Inr (out @ percent_encode cs)"
  by (induction cs arbitrary: out) (auto simp: escape_def split: if_splits)

lemma all_bytes: "(\<forall>c\<in>set (map of_nat [0..<256]). P c) \<longleftrightarrow> (\<forall>c :: UCHAR. P c)"
proof -
  have "c \<in> set (map of_nat [0..<256])" for c :: UCHAR
  proof -
    have "unat c < 2 ^ LENGTH(8)" by (rule unsigned_less)
    moreover have "c = of_nat (unat c)" by simp
    ultimately show ?thesis by (auto simp: image_iff intro!: bexI [of _ "unat c"])
  qed
  then show ?thesis by blast
qed

definition escape_ok :: "UCHAR \<Rightarrow> bool" where
  "escape_ok c \<longleftrightarrow>
     (case (hex_digit (HEX_TO_CHAR (drop_bit 4 c AND 0xF)), hex_digit (HEX_TO_CHAR (c AND 0xF))) of
        (Some x, Some y) \<Rightarrow> ucast (16 * x + y) = c | _ \<Rightarrow> False) \<and>
     (HttpIsCharacterSafeForUrl c \<longrightarrow> c \<noteq> 0x25) \<and>
     (\<forall>x\<in>set (escape c). HttpIsCharacterSafeForUrl x \<or> x = 0x25)"

lemma escape_ok: "escape_ok c"
proof -
  have "\<forall>c\<in>set (map of_nat [0..<256]). escape_ok c" by code_simp
  then show ?thesis unfolding all_bytes by blast
qed

lemma percent_decode_escape: "percent_decode (escape c @ cs) = map_option ((#) c) (percent_decode cs)"
  using escape_ok [of c] unfolding escape_ok_def
  by (auto simp: escape_def split: option.splits)

lemma percent_decode_encode: "percent_decode (percent_encode cs) = Some cs"
  by (induction cs) (simp_all add: percent_decode_escape)

lemma percent_encode_safe: "x \<in> set (percent_encode cs) \<Longrightarrow> HttpIsCharacterSafeForUrl x \<or> x = 0x25"
  using escape_ok unfolding escape_ok_def percent_encode_def by fastforce

end
