(* ===== verification/Http_Response_Correct.thy ===== *)
theory Http_Response_Correct
  imports Http_Response Http_Text_Correct Listing_Correct
begin

unbundle bit_operations_syntax

text \<open>
  Reading a response, whatever pieces it arrives in: the invariant of a request between two
  receives, and that every receive keeps it. The stream is everything the peer has sent on the
  connection since the request went out.
\<close>

section \<open>Word arithmetic\<close>

lemma unat_ulong_size [simp]: "unat (ucast (x :: ULONG) :: SIZE_T) = unat x"
  by (simp add: unat_ucast_up)

lemma unat_advance:
  fixes x :: ULONG
  assumes "unat x + k < 2 ^ 32"
  shows "unat (x + of_nat k) = unat x + k"
  using assms by (simp add: unat_word_ariths unat_of_nat_less)

lemma unat_sub_64:
  fixes a b :: SIZE_T
  assumes "unat b \<le> unat a"
  shows "unat (a - b) = unat a - unat b"
  using assms by (simp add: unat_sub word_le_nat_alt)

lemma unat_down:
  fixes x :: SIZE_T
  assumes "unat x < 2 ^ 32"
  shows "unat (ucast x :: ULONG) = unat x"
  using assms by (simp add: unsigned_ucast_eq take_bit_nat_eq_self)

lemma unat_align:
  fixes x :: SIZE_T
  assumes "unat x + 7 < 2 ^ 64"
  shows "unat x \<le> unat ((x + 7) AND NOT 7)" "unat ((x + 7) AND NOT 7) \<le> unat x + 7"
proof -
  let ?y = "x + 7"
  have y: "unat ?y = unat x + 7" using assms by (simp add: unat_word_ariths)
  have "z AND NOT (mask 3) = push_bit 3 (drop_bit 3 z)" for z :: SIZE_T
    by (intro bit_word_eqI) (auto simp: bit_simps)
  moreover have "(7 :: SIZE_T) = mask 3" by (simp add: mask_eq_exp_minus_1)
  ultimately have "?y AND NOT 7 = push_bit 3 (drop_bit 3 ?y)" by metis
  then have "?y = (?y AND NOT 7) + take_bit 3 ?y" by (simp add: bits_ident)
  moreover have "unat (take_bit 3 ?y) < 2 ^ 3" unfolding unsigned_take_bit_eq by (rule take_bit_nat_less_exp)
  then have "unat (take_bit 3 ?y) \<le> 7" by simp
  moreover have "take_bit 3 ?y \<le> ?y" by (simp add: word_le_nat_alt unsigned_take_bit_eq)
  ultimately have "unat (?y AND NOT 7) = unat ?y - unat (take_bit 3 ?y)" "unat (take_bit 3 ?y) \<le> 7"
    using unat_sub [of "take_bit 3 ?y" ?y] by (metis add_diff_cancel_right')+
  then show "unat x \<le> unat ((x + 7) AND NOT 7)" "unat ((x + 7) AND NOT 7) \<le> unat x + 7" using y by simp_all
qed

section \<open>Growing the buffer\<close>

definition pool_ok :: "(nat \<Rightarrow> UCHAR list option) \<Rightarrow> bool" where
  "pool_ok junk \<longleftrightarrow> (\<forall>n xs. junk n = Some xs \<longrightarrow> length xs = n)"

lemma grow_ok:
  assumes "HttpGrowBufferIfNeeded junk req ctx = (status, ctx')" "NT_SUCCESS status" "pool_ok junk"
    and "length (C_Buffer ctx) = unat (C_Capacity ctx)" "unat (C_Length ctx) \<le> unat (C_Capacity ctx)"
  shows "\<exists>buf cap. ctx' = ctx\<lparr>C_Buffer := buf, C_Capacity := cap\<rparr> \<and> length buf = unat cap \<and>
           unat req \<le> unat cap \<and> unat cap = max (unat req) (unat (C_Capacity ctx)) \<and>
           take (unat (C_Length ctx)) buf = take (unat (C_Length ctx)) (C_Buffer ctx)"
proof (cases "req \<le> ucast (C_Capacity ctx)")
  case True
  then have "ctx' = ctx" using assms(1) by (simp add: HttpGrowBufferIfNeeded_def)
  moreover have "unat req \<le> unat (C_Capacity ctx)" using True by (simp add: word_le_nat_alt)
  ultimately show ?thesis using assms(4)
    by (intro exI [of _ "C_Buffer ctx"] exI [of _ "C_Capacity ctx"]) simp
next
  case False
  then have small: "\<not> req > 0xFFFFFFFF" using assms(1,2) by (auto simp: HttpGrowBufferIfNeeded_def)
  then have "unat req < 2 ^ 32" by (simp add: word_less_nat_alt)
  then have cap: "unat (ucast req :: ULONG) = unat req" by (rule unat_down)
  obtain new where new: "junk (unat req) = Some new"
    using False small assms(1,2) by (cases "junk (unat req)") (auto simp: HttpGrowBufferIfNeeded_def)
  have ctx': "ctx' = ctx\<lparr>C_Buffer := take (unat (C_Length ctx)) (C_Buffer ctx) @ drop (unat (C_Length ctx)) new,
      C_Capacity := ucast req\<rparr>"
    using False small assms(1) new by (simp add: HttpGrowBufferIfNeeded_def)
  have "unat (C_Capacity ctx) < unat req" using False by (simp add: word_le_nat_alt)
  moreover have "length new = unat req" using assms(3) new by (simp add: pool_ok_def)
  ultimately show ?thesis
    unfolding ctx' using cap assms(4,5)
    by (intro exI [of _ "take (unat (C_Length ctx)) (C_Buffer ctx) @ drop (unat (C_Length ctx)) new"] exI [of _ "ucast req"])
      (simp add: max_def)
qed

section \<open>The invariant between receives\<close>

text \<open>
  What the driver relies on from picohttpparser: a complete head is not empty, lies inside what it
  was given, and more bytes after it do not change it.
\<close>

definition phr_ok :: "(UCHAR list \<Rightarrow> phr_result) \<Rightarrow> bool" where
  "phr_ok phr \<longleftrightarrow>
     (\<forall>s n code hs. phr s = PhrDone n code hs \<longrightarrow>
        0 < n \<and> n \<le> length s \<and> (\<forall>t. phr (s @ t) = PhrDone n code hs))"

text \<open>The buffer's size before the headers are parsed, from its size at the start.\<close>

definition head_cap :: "nat \<Rightarrow> nat" where
  "head_cap cap0 = max cap0 (65535 + 4096)"

definition frame_ok :: "HTTP_CONTEXT \<Rightarrow> bool" where
  "frame_ok ctx \<longleftrightarrow>
     length (C_Buffer ctx) = unat (C_Capacity ctx) \<and>
     (\<forall>mdl. C_TargetMdl ctx = Some mdl \<longrightarrow> C_Operation ctx = HttpOpFileRead \<and> unat (C_ExpectedContentLength ctx) \<le> length mdl)"

definition head_ok :: "nat \<Rightarrow> HTTP_CONTEXT \<Rightarrow> UCHAR list \<Rightarrow> bool" where
  "head_ok cap0 ctx s \<longleftrightarrow>
     frame_ok ctx \<and> C_BodyOffset ctx = 0 \<and> unat (C_Length ctx) = length s \<and> length s \<le> unat (C_Capacity ctx) \<and>
     take (length s) (C_Buffer ctx) = s \<and> unat (C_Capacity ctx) \<le> head_cap cap0"

definition head_read :: "(UCHAR list \<Rightarrow> phr_result) \<Rightarrow> HTTP_CONTEXT \<Rightarrow> UCHAR list \<Rightarrow> nat \<Rightarrow> bool" where
  "head_read phr ctx s n \<longleftrightarrow>
     (\<exists>hs. phr s = PhrDone n (C_ExpectedStatusCode ctx) hs \<and>
        HttpGetContentLengthFromHeaders hs = Inr (C_ContentLength ctx) \<and> C_Headers ctx = hs) \<and>
     unat (C_ContentLength ctx) \<le> 67108864 \<and>
     (C_Operation ctx = HttpOpFileRead \<longrightarrow> C_ContentLength ctx = C_ExpectedContentLength ctx)"

definition body_ok :: "(UCHAR list \<Rightarrow> phr_result) \<Rightarrow> nat \<Rightarrow> HTTP_CONTEXT \<Rightarrow> UCHAR list \<Rightarrow> bool" where
  "body_ok phr cap0 ctx s \<longleftrightarrow>
     frame_ok ctx \<and>
     (\<exists>n. head_read phr ctx s n \<and> 0 < n \<and> n \<le> length s \<and> n \<le> head_cap cap0 \<and>
        n \<le> unat (C_BodyOffset ctx) \<and> unat (C_BodyOffset ctx) \<le> n + 7 \<and>
        unat (C_BodyEndOffset ctx) = unat (C_BodyOffset ctx) + unat (C_ContentLength ctx) \<and>
        unat (C_Length ctx) = unat (C_BodyOffset ctx) + (length s - n) \<and>
        unat (C_Length ctx) \<le> unat (C_BodyEndOffset ctx) \<and>
        unat (C_Capacity ctx) \<le> head_cap cap0 + 67108864 + 8 \<and>
        (case C_TargetMdl ctx of
           Some mdl \<Rightarrow> take (length s - n) mdl = drop n s
         | None \<Rightarrow> unat (C_BodyEndOffset ctx) < unat (C_Capacity ctx) \<and>
                   take (length s - n) (drop (unat (C_BodyOffset ctx)) (C_Buffer ctx)) = drop n s))"

lemma content_length_error:
  "HttpGetContentLengthFromHeaders hs = Inl st \<Longrightarrow> st \<noteq> STATUS_BUFFER_TOO_SMALL \<and> \<not> NT_SUCCESS st"
  unfolding HttpGetContentLengthFromHeaders_def content_length_loop_named
  by (auto simp: HttpStrToSize_def str_to_size_loop_spec status_defs NT_SUCCESS_def split: list.splits if_splits)

lemma parse_headers_ok:
  assumes h: "head_ok cap0 ctx s" and phr: "phr_ok phr" and p: "HttpParseHeaders phr ctx = (status, ctx1)" "NT_SUCCESS status"
    and cap: "cap0 < 2 ^ 31"
  shows "\<exists>n hs cl. phr s = PhrDone n (C_StatusCode ctx1) hs \<and> HttpGetContentLengthFromHeaders hs = Inr cl \<and>
      C_Headers ctx1 = hs \<and> C_ContentLength ctx1 = cl \<and> unat cl \<le> 67108864 \<and>
      0 < n \<and> n \<le> length s \<and> n \<le> head_cap cap0 \<and> unat (C_BodyOffset ctx1) = n \<and>
      unat (C_BodyEndOffset ctx1) = n + unat cl \<and>
      C_Buffer ctx1 = C_Buffer ctx \<and> C_Capacity ctx1 = C_Capacity ctx \<and> C_Length ctx1 = C_Length ctx \<and>
      C_TargetMdl ctx1 = C_TargetMdl ctx \<and> C_Operation ctx1 = C_Operation ctx \<and>
      C_ExpectedContentLength ctx1 = C_ExpectedContentLength ctx \<and> C_ExpectedStatusCode ctx1 = C_ExpectedStatusCode ctx"
proof -
  have s: "take (unat (C_Length ctx)) (C_Buffer ctx) = s" using h by (simp add: head_ok_def)
  obtain n code hs where d: "phr s = PhrDone n code hs"
    using p s by (cases "phr s") (auto simp: HttpParseHeaders_def split: if_splits)
  have n: "0 < n" "n \<le> length s" using phr d by (auto simp: phr_ok_def)
  have ns: "n \<le> head_cap cap0" using n(2) h by (simp add: head_ok_def)
  also have "\<dots> < 2 ^ 32" using cap by (simp add: head_cap_def)
  finally have bo: "unat (of_nat n :: SIZE_T) = n" by (intro unat_of_nat_less) simp
  obtain cl where cl: "HttpGetContentLengthFromHeaders hs = Inr cl"
  proof (cases "HttpGetContentLengthFromHeaders hs")
    case (Inl st)
    then have "status = st" using p(1) s d by (simp add: HttpParseHeaders_def)
    moreover have "\<not> NT_SUCCESS st" using content_length_error [OF Inl] by blast
    ultimately show ?thesis using p(2) by simp
  qed
  have small: "\<not> cl > HTTP_MAX_CONTENT_LENGTH" using p s d cl by (auto simp: HttpParseHeaders_def Let_def)
  then have cln: "unat cl \<le> 67108864" by (simp add: HTTP_MAX_CONTENT_LENGTH_def word_less_nat_alt)
  obtain be where be: "HttpCheckedAddSizeT (of_nat n) cl = Some be"
    using p s d cl small by (cases "HttpCheckedAddSizeT (of_nat n) cl") (auto simp: HttpParseHeaders_def Let_def)
  have "unat be = n + unat cl" using unat_checked_add [OF be] bo by simp
  moreover have "C_StatusCode ctx1 = code" "C_Headers ctx1 = hs" "C_ContentLength ctx1 = cl" "C_BodyOffset ctx1 = of_nat n"
    "C_BodyEndOffset ctx1 = be" "C_Buffer ctx1 = C_Buffer ctx" "C_Capacity ctx1 = C_Capacity ctx" "C_Length ctx1 = C_Length ctx"
    "C_TargetMdl ctx1 = C_TargetMdl ctx" "C_Operation ctx1 = C_Operation ctx"
    "C_ExpectedContentLength ctx1 = C_ExpectedContentLength ctx" "C_ExpectedStatusCode ctx1 = C_ExpectedStatusCode ctx"
    using p(1) s d cl small be by (auto simp: HttpParseHeaders_def Let_def)
  ultimately show ?thesis using d cl n ns bo cln by simp
qed

text \<open>The context once the headers are in, before the body's place is made ready.\<close>

definition parsed_ok :: "(UCHAR list \<Rightarrow> phr_result) \<Rightarrow> nat \<Rightarrow> HTTP_CONTEXT \<Rightarrow> UCHAR list \<Rightarrow> nat \<Rightarrow> bool" where
  "parsed_ok phr cap0 ctx s n \<longleftrightarrow>
     frame_ok ctx \<and> head_read phr ctx s n \<and> 0 < n \<and> n \<le> length s \<and> n \<le> head_cap cap0 \<and>
     unat (C_BodyOffset ctx) = n \<and> unat (C_BodyEndOffset ctx) = n + unat (C_ContentLength ctx) \<and>
     unat (C_Length ctx) = length s \<and> length s \<le> unat (C_Capacity ctx) \<and>
     length s \<le> unat (C_BodyEndOffset ctx) \<and> take (length s) (C_Buffer ctx) = s \<and> unat (C_Capacity ctx) \<le> head_cap cap0"

lemma drop_of_take: "take m buf = s \<Longrightarrow> m = length s \<Longrightarrow> take (m - n) (drop n buf) = drop n s"
  by (metis drop_take)

lemma place_mdl:
  assumes ok: "parsed_ok phr cap0 ctx s n" and mdl: "C_TargetMdl ctx = Some mdl"
  shows "place_body aj gj mapped ctx \<noteq> Inl Faulted"
    and "place_body aj gj mapped ctx = Inr ctx2 \<Longrightarrow> body_ok phr cap0 ctx2 s"
proof -
  have f: "C_Operation ctx = HttpOpFileRead" "unat (C_ExpectedContentLength ctx) \<le> length mdl" "length (C_Buffer ctx) = unat (C_Capacity ctx)"
    using ok mdl by (auto simp: parsed_ok_def frame_ok_def)
  then have room: "unat (C_ContentLength ctx) \<le> length mdl" using ok by (auto simp: parsed_ok_def head_read_def)
  have le: "unat (C_BodyOffset ctx) \<le> unat (ucast (C_Length ctx) :: SIZE_T)" "n \<le> length s"
    using ok by (auto simp: parsed_ok_def)
  have spill: "unat (ucast (C_Length ctx) - C_BodyOffset ctx) = length s - n"
    using unat_sub_64 [OF le(1)] ok by (simp add: parsed_ok_def)
  have body: "take (length s - n) (drop n (C_Buffer ctx)) = drop n s"
    by (rule drop_of_take) (use ok in \<open>auto simp: parsed_ok_def\<close>)
  have pk: "peek (unat (C_BodyOffset ctx)) (length s - n) (C_Buffer ctx) = Some (drop n s)"
    using ok body f(3) by (simp add: peek_def parsed_ok_def)
  have "length s - n \<le> unat (C_ContentLength ctx)" using ok by (auto simp: parsed_ok_def)
  then obtain mdl' where po: "poke 0 (drop n s) mdl = Some mdl'" using poke_ok [of 0 "drop n s" mdl] room le(2) by auto
  note m = poked [OF po order_refl]
  show "place_body aj gj mapped ctx \<noteq> Inl Faulted"
    by (simp add: place_body_def mdl spill Let_def pk po)
  have base: "body_ok phr cap0 (ctx\<lparr>C_TargetMdl := Some mdl2\<rparr>) s" if "length mdl2 = length mdl" "take (length s - n) mdl2 = drop n s" for mdl2
    using ok f that
    by (auto simp: body_ok_def parsed_ok_def frame_ok_def head_read_def intro!: exI [of _ n])
  assume p: "place_body aj gj mapped ctx = Inr ctx2"
  show "body_ok phr cap0 ctx2 s"
  proof (cases "length s = n")
    case True
    then have "ctx2 = ctx" using p by (simp add: place_body_def mdl spill)
    then have "ctx2 = ctx\<lparr>C_TargetMdl := Some mdl\<rparr>" using mdl by simp
    then show ?thesis using base [of mdl] True by simp
  next
    case False
    then have "ctx2 = ctx\<lparr>C_TargetMdl := Some mdl'\<rparr>"
      using p le(2) by (auto simp: place_body_def mdl spill Let_def pk po split: if_splits)
    then show ?thesis using base [of mdl'] m by simp
  qed
qed

text \<open>The body in the context's buffer, which may still have to grow for the rest of it.\<close>

definition placed_ok :: "(UCHAR list \<Rightarrow> phr_result) \<Rightarrow> nat \<Rightarrow> HTTP_CONTEXT \<Rightarrow> UCHAR list \<Rightarrow> nat \<Rightarrow> bool" where
  "placed_ok phr cap0 ctx s n \<longleftrightarrow>
     frame_ok ctx \<and> C_TargetMdl ctx = None \<and> head_read phr ctx s n \<and> 0 < n \<and> n \<le> length s \<and> n \<le> head_cap cap0 \<and>
     n \<le> unat (C_BodyOffset ctx) \<and> unat (C_BodyOffset ctx) \<le> n + 7 \<and>
     unat (C_BodyEndOffset ctx) = unat (C_BodyOffset ctx) + unat (C_ContentLength ctx) \<and>
     unat (C_Length ctx) = unat (C_BodyOffset ctx) + (length s - n) \<and>
     unat (C_Length ctx) \<le> unat (C_BodyEndOffset ctx) \<and> unat (C_Length ctx) \<le> unat (C_Capacity ctx) \<and>
     unat (C_Capacity ctx) \<le> head_cap cap0 + 67108864 + 8 \<and>
     take (length s - n) (drop (unat (C_BodyOffset ctx)) (C_Buffer ctx)) = drop n s"

lemma parsed_placed:
  assumes ok: "parsed_ok phr cap0 ctx s n" and mdl: "C_TargetMdl ctx = None"
  shows "placed_ok phr cap0 ctx s n"
proof -
  have "take (length s - n) (drop n (C_Buffer ctx)) = drop n s"
    by (rule drop_of_take) (use ok in \<open>auto simp: parsed_ok_def\<close>)
  then show ?thesis using ok mdl by (auto simp: parsed_ok_def placed_ok_def)
qed

lemma align_ok:
  assumes ok: "parsed_ok phr cap0 ctx s n" and mdl: "C_TargetMdl ctx = None" and junk: "pool_ok junk" and cap: "cap0 < 2 ^ 31"
  shows "align_body junk ctx \<noteq> Inl Faulted"
    and "align_body junk ctx = Inr ctx1 \<Longrightarrow> placed_ok phr cap0 ctx1 s n"
proof -
  let ?cl = "unat (C_ContentLength ctx)"
  define A where "A = (C_BodyOffset ctx + 7) AND NOT 7"
  have hc: "head_cap cap0 < 2 ^ 31" using cap by (simp add: head_cap_def)
  have n: "unat (C_BodyOffset ctx) = n" "n \<le> head_cap cap0" "n \<le> length s" "0 < n" "?cl \<le> 67108864" "length s \<le> n + ?cl"
    "unat (C_Length ctx) = length s" "length s \<le> unat (C_Capacity ctx)" "length (C_Buffer ctx) = unat (C_Capacity ctx)"
    "unat (C_Capacity ctx) \<le> head_cap cap0" "take (length s) (C_Buffer ctx) = s" "head_read phr ctx s n"
    using ok by (auto simp: parsed_ok_def frame_ok_def head_read_def)
  have A: "n \<le> unat A" "unat A \<le> n + 7" using unat_align [of "C_BodyOffset ctx", folded A_def] n(1,2) hc by simp_all
  have placed: "placed_ok phr cap0 ctx s n" by (rule parsed_placed [OF ok mdl])
  consider (same) "align_body junk ctx = Inr ctx" | (failed) st where "align_body junk ctx = Inl (Failed st)"
    | (moved) c where "align_body junk ctx = Inr c" "placed_ok phr cap0 c s n"
  proof (cases "A = C_BodyOffset ctx")
    case True
    then show ?thesis using same unfolding align_body_def Let_def A_def [symmetric] by simp
  next
    case False
    have "unat A + ?cl < 2 ^ 64" using A(2) n(2,5) hc by simp
    then have be: "HttpCheckedAddSizeT A (C_ContentLength ctx) = Some (A + C_ContentLength ctx)" (is "_ = Some ?E")
      using HttpCheckedAddSizeT_Some by blast
    have E: "unat ?E = unat A + ?cl" by (rule unat_checked_add [OF be])
    then have E1: "unat (?E + 1) = unat A + ?cl + 1" using A(2) n(2,5) hc by (simp add: unat_word_ariths)
    obtain st c where g: "HttpGrowBufferIfNeeded junk (?E + 1) ctx = (st, c)" by fastforce
    show ?thesis
    proof (cases "NT_SUCCESS st")
      case no: False
      then show ?thesis using failed [of st] False be g unfolding align_body_def Let_def A_def [symmetric] by simp
    next
      case True
      obtain buf cap' where c: "c = ctx\<lparr>C_Buffer := buf, C_Capacity := cap'\<rparr>" "length buf = unat cap'"
        "unat cap' = max (unat (?E + 1)) (unat (C_Capacity ctx))" "take (length s) buf = take (length s) (C_Buffer ctx)"
        using grow_ok [OF g True junk n(9)] n(7,8) by auto
      have capb: "unat A + ?cl + 1 \<le> unat cap'" "unat cap' \<le> head_cap cap0 + 67108864 + 8"
        using c(3) E1 A(2) n(2,5,10) by simp_all
      have le: "unat (C_BodyOffset ctx) \<le> unat (ucast (C_Length ctx) :: SIZE_T)" using n by simp
      have spill: "unat (ucast (C_Length ctx) - C_BodyOffset ctx) = length s - n" using unat_sub_64 [OF le] n by simp
      have body: "take (length s - n) (drop n buf) = drop n s"
        by (rule drop_of_take) (use c(4) n(11) in simp_all)
      have pk: "peek n (length s - n) buf = Some (drop n s)"
        using body c(2) capb(1) A(1) n(3,6) by (simp add: peek_def)
      obtain buf' where po: "poke (unat A) (drop n s) buf = Some buf'"
        using poke_ok [of "unat A" "drop n s" buf] c(2) capb(1) n(3,6) by (auto simp: le_diff_conv)
      note m = poked [OF po order_refl]
      have shift: "unat (ucast (A - C_BodyOffset ctx) :: ULONG) = unat A - n"
        using unat_sub_64 [of "C_BodyOffset ctx" A] A n(1) by (subst unat_down) auto
      have len: "unat (C_Length ctx + ucast (A - C_BodyOffset ctx)) = unat A + (length s - n)"
        using shift A n(2,3,5,6,7) hc by (simp add: unat_word_ariths)
      let ?c = "c\<lparr>C_Buffer := buf', C_Length := C_Length c + ucast (A - C_BodyOffset c), C_BodyOffset := A, C_BodyEndOffset := ?E\<rparr>"
      have "align_body junk ctx = Inr ?c"
        using False be g True spill pk po n(1) unfolding align_body_def Let_def A_def [symmetric] by (simp add: c(1))
      moreover have "placed_ok phr cap0 ?c s n"
        using n A mdl capb E len m c(2)
        by (simp add: placed_ok_def frame_ok_def head_read_def c(1)) linarith
      ultimately show ?thesis by (rule moved)
    qed
  qed
  note cases = this
  show "align_body junk ctx \<noteq> Inl Faulted" using cases by cases auto
  assume "align_body junk ctx = Inr ctx1"
  then show "placed_ok phr cap0 ctx1 s n" using cases placed by cases auto
qed

lemma grow_body_ok:
  assumes ok: "placed_ok phr cap0 ctx s n" and junk: "pool_ok junk" and cap: "cap0 < 2 ^ 31"
    and g: "HttpGrowBufferIfNeeded junk (C_BodyEndOffset ctx + 1) ctx = (status, ctx')" "NT_SUCCESS status"
  shows "body_ok phr cap0 ctx' s"
proof -
  have p: "length (C_Buffer ctx) = unat (C_Capacity ctx)" "unat (C_Length ctx) \<le> unat (C_Capacity ctx)"
    "unat (C_Length ctx) = unat (C_BodyOffset ctx) + (length s - n)" "unat (C_BodyEndOffset ctx) \<le> head_cap cap0 + 7 + 67108864"
    using ok by (auto simp: placed_ok_def frame_ok_def head_read_def)
  have E1: "unat (C_BodyEndOffset ctx + 1) = unat (C_BodyEndOffset ctx) + 1"
    using p(4) cap by (simp add: unat_word_ariths head_cap_def)
  obtain buf cap' where c: "ctx' = ctx\<lparr>C_Buffer := buf, C_Capacity := cap'\<rparr>" "length buf = unat cap'"
    "unat cap' = max (unat (C_BodyEndOffset ctx + 1)) (unat (C_Capacity ctx))"
    "take (unat (C_Length ctx)) buf = take (unat (C_Length ctx)) (C_Buffer ctx)"
    using grow_ok [OF g junk p(1,2)] by auto
  have "take (length s - n) (drop (unat (C_BodyOffset ctx)) buf) =
      take (length s - n) (drop (unat (C_BodyOffset ctx)) (C_Buffer ctx))"
    using arg_cong [OF c(4), of "drop (unat (C_BodyOffset ctx))"] p(3) by (simp add: drop_take)
  moreover have "unat (C_BodyEndOffset ctx) < unat cap'" "unat cap' \<le> head_cap cap0 + 67108864 + 8"
    using c(3) E1 ok p(4) by (auto simp: placed_ok_def)
  ultimately show ?thesis
    using ok c(2) unfolding c(1) body_ok_def
    by (auto simp: placed_ok_def frame_ok_def head_read_def intro!: exI [of _ n])
qed

lemma place_body_ok:
  assumes ok: "parsed_ok phr cap0 ctx s n" and junk: "pool_ok aj" "pool_ok gj" and cap: "cap0 < 2 ^ 31"
  shows "place_body aj gj mapped ctx \<noteq> Inl Faulted"
    and "place_body aj gj mapped ctx = Inr ctx2 \<Longrightarrow> body_ok phr cap0 ctx2 s"
proof -
  let ?al = "if C_Operation ctx \<noteq> HttpOpFileRead then align_body aj ctx else Inr ctx"
  have none: "?al \<noteq> Inl Faulted" "\<And>c. ?al = Inr c \<Longrightarrow> placed_ok phr cap0 c s n" if "C_TargetMdl ctx = None"
    using align_ok [OF ok that junk(1) cap] parsed_placed [OF ok that] by (auto split: if_splits)
  show "place_body aj gj mapped ctx \<noteq> Inl Faulted"
    using place_mdl(1) [OF ok] none by (cases "C_TargetMdl ctx") (auto simp: place_body_def split: sum.splits prod.splits)
  assume p: "place_body aj gj mapped ctx = Inr ctx2"
  show "body_ok phr cap0 ctx2 s"
  proof (cases "C_TargetMdl ctx")
    case (Some mdl)
    then show ?thesis using place_mdl(2) [OF ok Some p] by simp
  next
    case None
    obtain c1 where c1: "?al = Inr c1" using p None by (cases ?al) (auto simp: place_body_def)
    obtain st c2 where g: "HttpGrowBufferIfNeeded gj (C_BodyEndOffset c1 + 1) c1 = (st, c2)" by fastforce
    have "NT_SUCCESS st" "ctx2 = c2" using p None c1 g by (auto simp: place_body_def split: if_splits)
    then show ?thesis using grow_body_ok [OF none(2) [OF None c1] junk(2) cap g] by simp
  qed
qed

section \<open>One receive\<close>

datatype http_state =
    Receiving HTTP_CONTEXT "UCHAR list"
  | Finished HTTP_CONTEXT "UCHAR list"
  | Broken NTSTATUS
  | Crashed

text \<open>A retry starts over on a new connection, which has sent nothing yet.\<close>

fun state_of :: "http_outcome \<Rightarrow> UCHAR list \<Rightarrow> http_state" where
  "state_of (ReceiveMore ctx) s = Receiving ctx s"
| "state_of (Dispatched ctx) s = Finished ctx s"
| "state_of (Failed status) s = Broken status"
| "state_of (Retry ctx) s = Receiving ctx []"
| "state_of Faulted s = Crashed"

fun state_ok :: "(UCHAR list \<Rightarrow> phr_result) \<Rightarrow> nat \<Rightarrow> http_state \<Rightarrow> bool" where
  "state_ok phr cap0 (Receiving ctx s) \<longleftrightarrow>
     (head_ok cap0 ctx s \<and> length s < 65536) \<or> (body_ok phr cap0 ctx s \<and> unat (C_Length ctx) < unat (C_BodyEndOffset ctx))"
| "state_ok phr cap0 (Finished ctx s) \<longleftrightarrow> body_ok phr cap0 ctx s \<and> C_Length ctx = ucast (C_BodyEndOffset ctx)"
| "state_ok phr cap0 (Broken status) \<longleftrightarrow> \<not> NT_SUCCESS status"
| "state_ok phr cap0 Crashed \<longleftrightarrow> False"

lemma body_bounds:
  assumes "body_ok phr cap0 ctx s" "cap0 < 2 ^ 31"
  shows "unat (C_BodyEndOffset ctx) < 2 ^ 32" "unat (C_BodyOffset ctx) \<le> unat (C_Length ctx)" "C_BodyOffset ctx \<noteq> 0"
    "unat (C_Length ctx) \<le> unat (C_BodyEndOffset ctx)"
proof -
  obtain n where n: "0 < n" "n \<le> head_cap cap0" "n \<le> unat (C_BodyOffset ctx)" "unat (C_BodyOffset ctx) \<le> n + 7"
    "unat (C_BodyEndOffset ctx) = unat (C_BodyOffset ctx) + unat (C_ContentLength ctx)" "unat (C_ContentLength ctx) \<le> 67108864"
    "unat (C_Length ctx) = unat (C_BodyOffset ctx) + (length s - n)" "unat (C_Length ctx) \<le> unat (C_BodyEndOffset ctx)"
    using assms(1) unfolding body_ok_def head_read_def by blast
  show "unat (C_BodyEndOffset ctx) < 2 ^ 32" using n assms(2) by (simp add: head_cap_def)
  show "unat (C_BodyOffset ctx) \<le> unat (C_Length ctx)" "C_BodyOffset ctx \<noteq> 0" "unat (C_Length ctx) \<le> unat (C_BodyEndOffset ctx)"
    using n by auto
qed

lemma read_tail_ok:
  assumes "body_ok phr cap0 ctx s" "cap0 < 2 ^ 31"
  shows "state_ok phr cap0 (state_of (read_tail ctx) s)"
proof (cases "(ucast (C_Length ctx) :: SIZE_T) < C_BodyEndOffset ctx")
  case True
  then show ?thesis using assms(1) by (simp add: read_tail_def word_less_nat_alt)
next
  case False
  then have "unat (C_Length ctx) = unat (C_BodyEndOffset ctx)"
    using body_bounds(4) [OF assms] by (simp add: word_less_nat_alt)
  then have "C_Length ctx = ucast (C_BodyEndOffset ctx)"
    using unat_down [OF body_bounds(1) [OF assms]] by (simp add: word_unat_eq_iff)
  then show ?thesis using False assms(1) by (simp add: read_tail_def)
qed

lemma align_body_Inl:
  "align_body junk ctx = Inl res \<Longrightarrow> res = Faulted \<or> (\<exists>st. res = Failed st \<and> \<not> NT_SUCCESS st)"
  by (auto simp: align_body_def Let_def split: if_splits option.splits prod.splits)

lemma place_body_Inl:
  "place_body aj gj mapped ctx = Inl res \<Longrightarrow> res = Faulted \<or> (\<exists>st. res = Failed st \<and> \<not> NT_SUCCESS st)"
  by (auto simp: place_body_def Let_def dest: align_body_Inl split: if_splits option.splits prod.splits sum.splits)

lemma parse_incomplete:
  assumes "HttpParseHeaders phr ctx = (STATUS_BUFFER_TOO_SMALL, ctx1)"
  shows "ctx1 = ctx \<and> \<not> HTTP_MAX_HEADER_BYTES \<le> C_Length ctx"
proof -
  have "phr (take (unat (C_Length ctx)) (C_Buffer ctx)) = PhrIncomplete"
    using assms content_length_error
    by (auto simp: HttpParseHeaders_def Let_def status_defs split: phr_result.splits sum.splits if_splits option.splits)
  then show ?thesis using assms by (auto simp: HttpParseHeaders_def status_defs split: if_splits)
qed

lemma parse_headers_fails:
  assumes "head_ok cap0 ctx s" "HttpParseHeaders phr ctx = (STATUS_BUFFER_TOO_SMALL, ctx1)"
  shows "ctx1 = ctx \<and> length s < 65536"
  using parse_incomplete [OF assms(2)] assms(1) by (auto simp: head_ok_def HTTP_MAX_HEADER_BYTES_def word_le_nat_alt)

lemma read_head_ok:
  assumes h: "head_ok cap0 ctx s" and phr: "phr_ok phr" and junk: "pool_ok aj" "pool_ok gj" and cap: "cap0 < 2 ^ 31"
  shows "state_ok phr cap0 (state_of (HttpReadResponse phr aj gj mapped ctx) s)"
proof -
  obtain st ctx1 where p: "HttpParseHeaders phr ctx = (st, ctx1)" by fastforce
  have bo: "C_BodyOffset ctx = 0" using h by (simp add: head_ok_def)
  consider (more) "st = STATUS_BUFFER_TOO_SMALL" | (bad) "st \<noteq> STATUS_BUFFER_TOO_SMALL" "\<not> NT_SUCCESS st"
    | (ok) "st \<noteq> STATUS_BUFFER_TOO_SMALL" "NT_SUCCESS st" by blast
  then show ?thesis
  proof cases
    case more
    then have "ctx1 = ctx \<and> length s < 65536" using parse_headers_fails [OF h] p by blast
    then show ?thesis using more p h by (simp add: HttpReadResponse_def bo)
  next
    case bad
    then show ?thesis using p by (simp add: HttpReadResponse_def bo)
  next
    case ok
    obtain n hs cl where d: "phr s = PhrDone n (C_StatusCode ctx1) hs" "HttpGetContentLengthFromHeaders hs = Inr cl"
      "C_Headers ctx1 = hs" "C_ContentLength ctx1 = cl" "unat cl \<le> 67108864" "0 < n" "n \<le> length s" "n \<le> head_cap cap0"
      "unat (C_BodyOffset ctx1) = n" "unat (C_BodyEndOffset ctx1) = n + unat cl"
      and same: "C_Buffer ctx1 = C_Buffer ctx" "C_Capacity ctx1 = C_Capacity ctx" "C_Length ctx1 = C_Length ctx"
      "C_TargetMdl ctx1 = C_TargetMdl ctx" "C_Operation ctx1 = C_Operation ctx"
      "C_ExpectedContentLength ctx1 = C_ExpectedContentLength ctx" "C_ExpectedStatusCode ctx1 = C_ExpectedStatusCode ctx"
      using parse_headers_ok [OF h phr p ok(2) cap] by blast
    have not_ok: "\<not> NT_SUCCESS (HttpStatusToNtStatus code)" for code by (simp add: HttpStatusToNtStatus_def)
    show ?thesis
    proof (cases "C_StatusCode ctx1 = C_ExpectedStatusCode ctx1 \<and>
        (C_Operation ctx1 = HttpOpFileRead \<longrightarrow> C_ContentLength ctx1 = C_ExpectedContentLength ctx1) \<and>
        \<not> (ucast (C_Length ctx1) :: SIZE_T) > C_BodyEndOffset ctx1")
      case False
      then show ?thesis using ok p not_ok by (auto simp: HttpReadResponse_def bo)
    next
      case True
      then have end_ok: "length s \<le> n + unat cl" using h d(10) same(3) by (auto simp: word_less_nat_alt head_ok_def)
      have "frame_ok ctx1" using h unfolding head_ok_def frame_ok_def same by simp
      then have parsed: "parsed_ok phr cap0 ctx1 s n"
        using True h d same end_ok by (auto simp: parsed_ok_def head_ok_def head_read_def)
      have r: "HttpReadResponse phr aj gj mapped ctx =
          (case place_body aj gj mapped ctx1 of Inl res \<Rightarrow> res | Inr ctx2 \<Rightarrow> read_tail ctx2)"
        using True ok p by (auto simp: HttpReadResponse_def bo)
      note pl = place_body_ok [OF parsed junk cap, of mapped]
      show ?thesis
      proof (cases "place_body aj gj mapped ctx1")
        case (Inl res)
        then show ?thesis using place_body_Inl [OF Inl] pl(1) by (auto simp: r)
      next
        case (Inr ctx2)
        then show ?thesis using read_tail_ok [OF pl(2) [OF Inr] cap] by (simp add: r)
      qed
    qed
  qed
qed

lemma read_body_ok:
  assumes b: "body_ok phr cap0 ctx s" and cap: "cap0 < 2 ^ 31"
  shows "state_ok phr cap0 (state_of (HttpReadResponse phr aj gj mapped ctx) s)"
  using read_tail_ok [OF assms] body_bounds [OF assms]
  by (auto simp: HttpReadResponse_def word_less_nat_alt)

lemma issue_head_ok:
  assumes h: "head_ok cap0 ctx s" "length s < 65536" and junk: "pool_ok junk"
    and i: "HttpIssueReceive junk ctx = Inr (post, ctx1)"
  shows "head_ok cap0 ctx1 s \<and> post = IntoBuffer (length s) (unat (C_Capacity ctx1) - length s)"
proof -
  have f: "C_BodyOffset ctx = 0" "unat (C_Length ctx) = length s" "length s \<le> unat (C_Capacity ctx)" "frame_ok ctx"
    "length (C_Buffer ctx) = unat (C_Capacity ctx)" "take (length s) (C_Buffer ctx) = s" "unat (C_Capacity ctx) \<le> head_cap cap0"
    using h(1) by (auto simp: head_ok_def frame_ok_def)
  have room: "unat (C_Capacity c - C_Length c) = unat (C_Capacity c) - length s" if "head_ok cap0 c s" for c
    using that by (auto simp: head_ok_def unat_sub word_le_nat_alt)
  show ?thesis
  proof (cases "C_Length ctx = C_Capacity ctx")
    case False
    then have "ctx1 = ctx" "post = IntoBuffer (length s) (unat (C_Capacity ctx - C_Length ctx))"
      using i f(1,2) by (auto simp: HttpIssueReceive_def)
    then show ?thesis using h(1) room by simp
  next
    case True
    let ?req = "ucast (C_Capacity ctx) + HTTP_PAGE_SIZE :: SIZE_T"
    obtain st c where g: "HttpGrowBufferIfNeeded junk ?req ctx = (st, c)" by fastforce
    have ok: "NT_SUCCESS st" "ctx1 = c" "post = IntoBuffer (unat (C_Length c)) (unat (C_Capacity c - C_Length c))"
      using i f(1) True g by (auto simp: HttpIssueReceive_def split: if_splits)
    have cap: "unat (C_Capacity ctx) = length s" using True f(2) by simp
    have "unat ?req = length s + 4096"
      using cap h(2) by (simp add: HTTP_PAGE_SIZE_def unat_word_ariths)
    then obtain buf cap' where c: "c = ctx\<lparr>C_Buffer := buf, C_Capacity := cap'\<rparr>" "length buf = unat cap'"
      "unat cap' = length s + 4096" "take (length s) buf = take (length s) (C_Buffer ctx)"
      using grow_ok [OF g ok(1) junk f(5)] f(2,3) cap by (auto simp: max_def)
    have "head_ok cap0 c s"
      using h(1) c h(2) by (auto simp: head_ok_def frame_ok_def head_cap_def)
    from this room [OF this] show ?thesis using ok(2,3) f(2) c(1) by simp
  qed
qed

lemma fail_or_retry_ok:
  assumes "\<not> NT_SUCCESS status" "C_Length ctx = 0 \<longrightarrow> head_ok cap0 ctx []"
  shows "state_ok phr cap0 (state_of (HttpFailOrRetryReusedConnection status ctx) s)"
proof (cases "C_ConnectionSource ctx \<noteq> HttpConnectionReused \<or> C_Length ctx \<noteq> 0")
  case False
  then have "head_ok cap0 ctx []" using assms(2) by simp
  then show ?thesis using False by (simp add: HttpFailOrRetryReusedConnection_def head_ok_def frame_ok_def)
qed (use assms(1) in \<open>auto simp: HttpFailOrRetryReusedConnection_def\<close>)

lemma head_received:
  assumes h: "head_ok cap0 ctx s" and cap: "cap0 < 2 ^ 31" and k: "length bytes \<le> unat (C_Capacity ctx) - length s"
    and d: "deliver (IntoBuffer (length s) r) bytes ctx = Some ctx2"
  shows "head_ok cap0 (ctx2\<lparr>C_Length := C_Length ctx2 + of_nat (length bytes)\<rparr>) (s @ bytes) \<and> C_Length ctx2 = C_Length ctx \<and>
         C_BodyOffset ctx2 = 0 \<and> (C_Length ctx2 = 0 \<longrightarrow> head_ok cap0 ctx2 [])"
proof -
  obtain buf where b: "poke (length s) bytes (C_Buffer ctx) = Some buf" "ctx2 = ctx\<lparr>C_Buffer := buf\<rparr>"
    using d by auto
  note p = poked [OF b(1), of 0, simplified]
  have f: "unat (C_Length ctx) = length s" "length s \<le> unat (C_Capacity ctx)" "take (length s) (C_Buffer ctx) = s"
    "unat (C_Capacity ctx) \<le> head_cap cap0" using h by (auto simp: head_ok_def)
  have "head_cap cap0 < 2 ^ 32" using cap by (simp add: head_cap_def)
  then have "unat (C_Length ctx + of_nat (length bytes)) = length s + length bytes"
    using unat_advance [of "C_Length ctx" "length bytes"] f k by simp
  then show ?thesis
    using h p f k unfolding b(2) by (auto simp: head_ok_def frame_ok_def)
qed

lemma body_received:
  assumes b: "body_ok phr cap0 ctx s" and phr: "phr_ok phr" and cap: "cap0 < 2 ^ 31"
    and k: "length bytes \<le> unat (C_BodyEndOffset ctx) - unat (C_Length ctx)"
    and i: "HttpIssueReceive junk ctx = Inr (post, ctx1)"
  shows "\<exists>ctx2. deliver post bytes ctx1 = Some ctx2 \<and> C_Length ctx2 = C_Length ctx \<and> C_BodyOffset ctx2 = C_BodyOffset ctx \<and>
           C_BodyEndOffset ctx2 = C_BodyEndOffset ctx \<and> receive_room post = unat (C_BodyEndOffset ctx) - unat (C_Length ctx) \<and>
           body_ok phr cap0 (ctx2\<lparr>C_Length := C_Length ctx2 + of_nat (length bytes)\<rparr>) (s @ bytes)"
proof -
  note bb = body_bounds [OF b cap]
  obtain n where n: "head_read phr ctx s n" "0 < n" "n \<le> length s" "n \<le> head_cap cap0" "n \<le> unat (C_BodyOffset ctx)"
    "unat (C_BodyOffset ctx) \<le> n + 7" "unat (C_BodyEndOffset ctx) = unat (C_BodyOffset ctx) + unat (C_ContentLength ctx)"
    "unat (C_Length ctx) = unat (C_BodyOffset ctx) + (length s - n)" "unat (C_Capacity ctx) \<le> head_cap cap0 + 67108864 + 8"
    and place: "case C_TargetMdl ctx of Some mdl \<Rightarrow> take (length s - n) mdl = drop n s
         | None \<Rightarrow> unat (C_BodyEndOffset ctx) < unat (C_Capacity ctx) \<and>
                   take (length s - n) (drop (unat (C_BodyOffset ctx)) (C_Buffer ctx)) = drop n s"
    using b unfolding body_ok_def by blast
  have fr: "frame_ok ctx" using b by (simp add: body_ok_def)
  have len: "unat (C_Length ctx + of_nat (length bytes)) = unat (C_Length ctx) + length bytes"
    using unat_advance [of "C_Length ctx" "length bytes"] k bb(1,4) by simp
  have hr: "head_read phr ctx (s @ bytes) n" using n(1) phr unfolding head_read_def phr_ok_def by blast
  have room: "unat (ucast (C_BodyEndOffset ctx) - C_Length ctx) = unat (C_BodyEndOffset ctx) - unat (C_Length ctx)"
    using unat_down [OF bb(1)] bb(4) by (simp add: unat_sub word_le_nat_alt)
  have ctx1: "ctx1 = ctx" using i bb(3) by (auto simp: HttpIssueReceive_def split: if_splits)
  show ?thesis
  proof (cases "C_TargetMdl ctx")
    case None
    have post: "post = IntoBuffer (unat (C_Length ctx)) (unat (C_BodyEndOffset ctx) - unat (C_Length ctx))"
      using i bb(3) None room by (auto simp: HttpIssueReceive_def)
    have "unat (C_Length ctx) + length bytes \<le> length (C_Buffer ctx)"
      using place None fr k bb(4) by (auto simp: frame_ok_def)
    then obtain buf where p: "poke (unat (C_Length ctx)) bytes (C_Buffer ctx) = Some buf" using poke_ok by blast
    note pk = poked [OF p bb(2)]
    have "take (length s - n + length bytes) (drop (unat (C_BodyOffset ctx)) buf) = drop n s @ bytes"
      using pk(2) place None n(8) by simp
    then have "body_ok phr cap0 (ctx\<lparr>C_Buffer := buf, C_Length := C_Length ctx + of_nat (length bytes)\<rparr>) (s @ bytes)"
      unfolding body_ok_def using fr hr n(2-9) len k bb(4) place None pk(1)
      by (auto simp: frame_ok_def head_read_def intro!: exI [of _ n])
    then show ?thesis using p post ctx1 by (intro exI [of _ "ctx\<lparr>C_Buffer := buf\<rparr>"]) simp
  next
    case (Some mdl)
    have down: "unat (ucast (C_BodyOffset ctx) :: ULONG) = unat (C_BodyOffset ctx)" by (rule unat_down) (use bb in simp)
    then have off: "unat (C_Length ctx - ucast (C_BodyOffset ctx)) = length s - n"
      using unat_sub [of "ucast (C_BodyOffset ctx) :: ULONG" "C_Length ctx"] bb(2) n(8) by (simp add: word_le_nat_alt)
    have post: "post = IntoMdl (length s - n) (unat (C_BodyEndOffset ctx) - unat (C_Length ctx))"
      using i bb(3) Some room off by (auto simp: HttpIssueReceive_def)
    have "unat (C_ContentLength ctx) \<le> length mdl" using fr Some n(1) by (auto simp: frame_ok_def head_read_def)
    then have "length s - n + length bytes \<le> length mdl" using k n(3,7,8) bb(4) by linarith
    then obtain mdl' where p: "poke (length s - n) bytes mdl = Some mdl'" using poke_ok by blast
    note pk = poked [OF p, of 0, simplified]
    have "take (length s - n + length bytes) mdl' = drop n s @ bytes" using pk(2) place Some by simp
    then have "body_ok phr cap0 (ctx\<lparr>C_TargetMdl := Some mdl', C_Length := C_Length ctx + of_nat (length bytes)\<rparr>) (s @ bytes)"
      unfolding body_ok_def using fr hr n(2-9) len k bb(4) Some pk(1)
      by (auto simp: frame_ok_def head_read_def intro!: exI [of _ n])
    then show ?thesis using p post ctx1 Some by (intro exI [of _ "ctx\<lparr>C_TargetMdl := Some mdl'\<rparr>"]) simp
  qed
qed

section \<open>A whole response\<close>

text \<open>
  The states a request goes through: a receive is posted and completes with whatever the transport
  chose to deliver, in any segmentation, with success or an error status. A delivery outside memory
  is a crash. A receive the transport does not accept ends the request with the status it gives.
\<close>

inductive response_step :: "(UCHAR list \<Rightarrow> phr_result) \<Rightarrow> http_state \<Rightarrow> http_state \<Rightarrow> bool" for phr where
  arrive: "response_step phr (Receiving ctx s) (state_of (HttpOnReceive phr aj gj mapped status (length bytes) ctx2) (s @ bytes))"
    if "pool_ok junk" "pool_ok aj" "pool_ok gj" "HttpIssueReceive junk ctx = Inr (post, ctx1)"
      "length bytes \<le> receive_room post" "deliver post bytes ctx1 = Some ctx2"
| overrun: "response_step phr (Receiving ctx s) Crashed"
    if "pool_ok junk" "HttpIssueReceive junk ctx = Inr (post, ctx1)"
      "length bytes \<le> receive_room post" "deliver post bytes ctx1 = None"
| refused: "response_step phr (Receiving ctx s) (Broken status)"
    if "pool_ok junk" "HttpIssueReceive junk ctx = Inl status"
| unposted: "response_step phr (Receiving ctx s) (Broken status)"
    if "\<not> NT_SUCCESS status"

lemma deliver_head:
  assumes "head_ok cap0 ctx s" "length bytes \<le> unat (C_Capacity ctx) - length s"
  shows "deliver (IntoBuffer (length s) r) bytes ctx \<noteq> None"
  using assms poke_ok [of "length s" bytes "C_Buffer ctx"] by (auto simp: head_ok_def frame_ok_def)

lemma on_receive_ok:
  assumes fail: "C_Length ctx = 0 \<longrightarrow> head_ok cap0 ctx []"
    and read: "state_ok phr cap0 (state_of (HttpReadResponse phr aj gj mapped (ctx\<lparr>C_Length := C_Length ctx + of_nat n\<rparr>)) s)"
  shows "state_ok phr cap0 (state_of (HttpOnReceive phr aj gj mapped status n ctx) s)"
proof -
  have "\<not> NT_SUCCESS STATUS_CONNECTION_DISCONNECTED" by simp
  then show ?thesis
    using fail_or_retry_ok [OF _ fail] read unfolding HttpOnReceive_def by presburger
qed

lemma response_step_ok:
  assumes step: "response_step phr x y" and ok: "state_ok phr cap0 x" and phr: "phr_ok phr" and cap: "cap0 < 2 ^ 31"
  shows "state_ok phr cap0 y"
  using step ok
proof cases
  case (arrive junk aj gj ctx post ctx1 bytes ctx2 s mapped status)
  from ok arrive(1) consider (head) "head_ok cap0 ctx s" "length s < 65536"
    | (body) "body_ok phr cap0 ctx s" "unat (C_Length ctx) < unat (C_BodyEndOffset ctx)" by auto
  then show ?thesis
  proof cases
    case head
    note h = issue_head_ok [OF head arrive(3,6)]
    have k: "length bytes \<le> unat (C_Capacity ctx1) - length s" using arrive(7) h by simp
    have "deliver (IntoBuffer (length s) (unat (C_Capacity ctx1) - length s)) bytes ctx1 = Some ctx2" using arrive(8) h by simp
    note r = head_received [OF conjunct1 [OF h] cap k this]
    show ?thesis unfolding arrive(2) by (rule on_receive_ok) (use r read_head_ok [OF _ phr arrive(4,5) cap] in blast)+
  next
    case body
    have room: "receive_room post = unat (C_BodyEndOffset ctx) - unat (C_Length ctx)"
      using body_received [OF body(1) phr cap _ arrive(6), of "[]"] by auto
    obtain c where c: "deliver post bytes ctx1 = Some c" "C_Length c = C_Length ctx" "C_BodyOffset c = C_BodyOffset ctx"
      "body_ok phr cap0 (c\<lparr>C_Length := C_Length c + of_nat (length bytes)\<rparr>) (s @ bytes)"
      using body_received [OF body(1) phr cap _ arrive(6), of bytes] arrive(7) room by auto
    have "C_Length ctx \<noteq> 0" using body_bounds(2,3) [OF body(1) cap] by (auto simp: unat_eq_0)
    then show ?thesis
      unfolding arrive(2) by (intro on_receive_ok) (use c arrive(8) read_body_ok [OF _ cap] in auto)
  qed
next
  case (overrun junk ctx post ctx1 bytes s)
  from ok overrun(1) consider (head) "head_ok cap0 ctx s" "length s < 65536" | (body) "body_ok phr cap0 ctx s" by auto
  then show ?thesis
  proof cases
    case head
    note h = issue_head_ok [OF head overrun(3,4)]
    have k: "length bytes \<le> unat (C_Capacity ctx1) - length s" using overrun(5) h by simp
    show ?thesis using deliver_head [OF conjunct1 [OF h] k, of "unat (C_Capacity ctx1) - length s"] h overrun(6) by simp
  next
    case body
    have "receive_room post = unat (C_BodyEndOffset ctx) - unat (C_Length ctx)"
      using body_received [OF body phr cap _ overrun(4), of "[]"] by auto
    then show ?thesis using body_received [OF body phr cap _ overrun(4), of bytes] overrun(5,6) by auto
  qed
next
  case (refused junk ctx status s)
  then show ?thesis by (auto simp: HttpIssueReceive_def split: if_splits prod.splits)
next
  case (unposted status ctx s)
  then show ?thesis by simp
qed

lemma response_steps_ok:
  assumes "(response_step phr)\<^sup>*\<^sup>* x y" "state_ok phr cap0 x" "phr_ok phr" "cap0 < 2 ^ 31"
  shows "state_ok phr cap0 y"
  using assms(1,2) by (induction rule: rtranclp_induct) (auto dest: response_step_ok [OF _ _ assms(3,4)])

text \<open>A request as the operations start it: a zero-copy read posts memory for all it asks for.\<close>

definition request_ok :: "HTTP_OPERATION \<Rightarrow> UCHAR list \<Rightarrow> UCHAR list option \<Rightarrow> SIZE_T \<Rightarrow> bool" where
  "request_ok operation junk mdl expected \<longleftrightarrow>
     length junk < 2 ^ 31 \<and> (case mdl of None \<Rightarrow> True | Some m \<Rightarrow> operation = HttpOpFileRead \<and> unat expected \<le> length m)"

lemma request_start_ok:
  assumes "request_ok operation junk mdl expected"
  shows "state_ok phr (length junk)
      (Receiving ((start_context operation code junk mdl expected)\<lparr>C_ConnectionSource := src\<rparr>) [])"
  using assms unat_of_nat_less [of "length junk", where 'a = 32]
  by (auto simp: request_ok_def start_context_def fresh_context_def head_ok_def frame_ok_def head_cap_def split: option.splits)

lemma finished_body:
  assumes "state_ok phr cap0 (Finished ctx s)" "cap0 < 2 ^ 31"
  shows "\<exists>n hs. phr s = PhrDone n (C_ExpectedStatusCode ctx) hs \<and> HttpGetContentLengthFromHeaders hs = Inr (C_ContentLength ctx) \<and>
      length s = n + unat (C_ContentLength ctx) \<and> response_body ctx = Some (drop n s) \<and> C_Headers ctx = hs \<and>
      (C_Operation ctx = HttpOpFileRead \<longrightarrow> C_ContentLength ctx = C_ExpectedContentLength ctx)"
proof -
  have b: "body_ok phr cap0 ctx s" and e: "C_Length ctx = ucast (C_BodyEndOffset ctx)" using assms(1) by auto
  note bb = body_bounds [OF b assms(2)]
  obtain n where n: "head_read phr ctx s n" "n \<le> length s"
    "unat (C_BodyEndOffset ctx) = unat (C_BodyOffset ctx) + unat (C_ContentLength ctx)"
    "unat (C_Length ctx) = unat (C_BodyOffset ctx) + (length s - n)"
    and place: "case C_TargetMdl ctx of Some mdl \<Rightarrow> take (length s - n) mdl = drop n s
         | None \<Rightarrow> unat (C_BodyEndOffset ctx) < unat (C_Capacity ctx) \<and>
                   take (length s - n) (drop (unat (C_BodyOffset ctx)) (C_Buffer ctx)) = drop n s"
    using b unfolding body_ok_def by blast
  have fr: "frame_ok ctx" using b by (simp add: body_ok_def)
  have len: "length s - n = unat (C_ContentLength ctx)" using n(3,4) e unat_down [OF bb(1)] by simp
  have "response_body ctx = Some (drop n s)"
  proof (cases "C_TargetMdl ctx")
    case None
    then show ?thesis using place fr n(3) len by (auto simp: response_body_def peek_def frame_ok_def)
  next
    case (Some mdl)
    have "unat (C_ContentLength ctx) \<le> length mdl" using fr Some n(1) by (auto simp: frame_ok_def head_read_def)
    then show ?thesis using place Some len by (simp add: response_body_def peek_def)
  qed
  then show ?thesis using n(1,2) len by (auto simp: head_read_def)
qed

section \<open>What the request asked for and what its headers said\<close>

definition asked :: "HTTP_CONTEXT \<Rightarrow> HTTP_OPERATION \<times> int \<times> SIZE_T" where
  "asked ctx = (C_Operation ctx, C_ExpectedStatusCode ctx, C_ExpectedContentLength ctx)"

definition told :: "HTTP_CONTEXT \<Rightarrow> phr_header list \<times> bool \<times> bool \<times> ULONG64 \<times> ULONG64" where
  "told ctx = (C_Headers ctx, C_NoStore ctx, C_HasVersion ctx, C_VersionSize ctx, C_VersionTime ctx)"

definition verdict :: "HTTP_CONTEXT \<Rightarrow> bool" where
  "verdict ctx \<longleftrightarrow>
     (C_NoStore ctx \<longleftrightarrow>
        (C_Operation ctx = HttpOpDirInfo \<or> C_Operation ctx = HttpOpFileInfo) \<and> HttpForbidsStoring (C_Headers ctx)) \<and>
     (C_Operation ctx = HttpOpFileRead \<longrightarrow>
        (if C_HasVersion ctx then Some (C_VersionSize ctx, C_VersionTime ctx) else None) =
        HttpParseFileVersion (C_Headers ctx))"

definition same_request :: "HTTP_CONTEXT \<Rightarrow> HTTP_CONTEXT \<Rightarrow> bool" where
  "same_request a b \<longleftrightarrow> asked a = asked b \<and> told a = told b"

lemma same_request_verdict: "same_request a b \<Longrightarrow> verdict a = verdict b"
  by (simp add: same_request_def asked_def told_def verdict_def)

lemma same_request_grow: "HttpGrowBufferIfNeeded junk n ctx = (st, ctx1) \<Longrightarrow> same_request ctx1 ctx"
  by (auto simp: HttpGrowBufferIfNeeded_def same_request_def asked_def told_def split: if_splits option.splits)

lemma same_request_trans: "same_request a b \<Longrightarrow> same_request b c \<Longrightarrow> same_request a c"
  by (simp add: same_request_def)

lemma same_request_align: "align_body junk ctx = Inr ctx1 \<Longrightarrow> same_request ctx1 ctx"
  by (auto simp: align_body_def Let_def dest!: same_request_grow split: if_splits option.splits prod.splits)
    (auto simp: same_request_def asked_def told_def)

lemma same_request_place:
  assumes "place_body aj gj mapped ctx = Inr ctx2"
  shows "same_request ctx2 ctx"
proof (cases "C_TargetMdl ctx")
  case None
  then obtain ctx1 st where a: "(if C_Operation ctx \<noteq> HttpOpFileRead then align_body aj ctx else Inr ctx) = Inr ctx1"
    and g: "HttpGrowBufferIfNeeded gj (C_BodyEndOffset ctx1 + 1) ctx1 = (st, ctx2)"
    using assms by (auto simp: place_body_def split: sum.splits prod.splits if_splits)
  have "same_request ctx1 ctx" using a same_request_align by (auto simp: same_request_def split: if_splits)
  then show ?thesis using same_request_trans [OF same_request_grow [OF g]] by blast
next
  case (Some mdl)
  then show ?thesis
    using assms by (auto simp: place_body_def Let_def same_request_def asked_def told_def split: if_splits option.splits)
qed

lemma same_request_receive:
  assumes "HttpIssueReceive junk ctx = Inr (post, ctx1)" "deliver post bytes ctx1 = Some ctx2"
  shows "same_request ctx2 ctx" "C_BodyOffset ctx2 = C_BodyOffset ctx"
proof -
  have "same_request ctx1 ctx \<and> C_BodyOffset ctx1 = C_BodyOffset ctx"
    using assms(1) by (auto simp: HttpIssueReceive_def HttpGrowBufferIfNeeded_def same_request_def asked_def told_def
      split: if_splits option.splits prod.splits)
  moreover have "same_request ctx2 ctx1 \<and> C_BodyOffset ctx2 = C_BodyOffset ctx1"
    using assms(2) by (cases post) (auto simp: same_request_def asked_def told_def bind_eq_Some_conv)
  ultimately show "same_request ctx2 ctx" "C_BodyOffset ctx2 = C_BodyOffset ctx"
    using same_request_trans by auto
qed

lemma parse_headers_verdict:
  assumes "HttpParseHeaders phr ctx = (st, ctx1)"
  shows "asked ctx1 = asked ctx" "NT_SUCCESS st \<Longrightarrow> verdict ctx1"
  using assms content_length_error
  by (auto simp: HttpParseHeaders_def Let_def asked_def verdict_def
    split: phr_result.splits sum.splits if_splits option.splits)

fun request_kept :: "HTTP_OPERATION \<times> int \<times> SIZE_T \<Rightarrow> http_state \<Rightarrow> bool" where
  "request_kept req (Receiving ctx s) \<longleftrightarrow> asked ctx = req \<and> (C_BodyOffset ctx \<noteq> 0 \<longrightarrow> verdict ctx)"
| "request_kept req (Finished ctx s) \<longleftrightarrow> asked ctx = req \<and> verdict ctx"
| "request_kept req (Broken st) \<longleftrightarrow> True"
| "request_kept req Crashed \<longleftrightarrow> True"

lemma request_kept_tail: "asked ctx = req \<Longrightarrow> verdict ctx \<Longrightarrow> request_kept req (state_of (read_tail ctx) s)"
  by (simp add: read_tail_def)

lemma request_kept_read:
  assumes "request_kept req (Receiving ctx s)"
  shows "request_kept req (state_of (HttpReadResponse phr aj gj mapped ctx) s)"
proof (cases "C_BodyOffset ctx = 0")
  case False
  then show ?thesis using assms request_kept_tail by (auto simp: HttpReadResponse_def)
next
  case True
  obtain st ctx1 where p: "HttpParseHeaders phr ctx = (st, ctx1)" by fastforce
  note v = parse_headers_verdict [OF p]
  show ?thesis
  proof (cases "\<exists>ctx2. st \<noteq> STATUS_BUFFER_TOO_SMALL \<and> NT_SUCCESS st \<and> place_body aj gj mapped ctx1 = Inr ctx2")
    case True
    then obtain ctx2 where ok: "NT_SUCCESS st" "place_body aj gj mapped ctx1 = Inr ctx2" by blast
    have "asked ctx2 = req" "verdict ctx2"
      using same_request_place [OF ok(2)] v assms ok(1) same_request_verdict [of ctx2 ctx1] by (auto simp: same_request_def)
    then show ?thesis using p ok request_kept_tail \<open>C_BodyOffset ctx = 0\<close> parse_incomplete [of phr ctx ctx1] assms
      by (auto simp: HttpReadResponse_def)
  next
    case False
    then consider "st = STATUS_BUFFER_TOO_SMALL" | "st \<noteq> STATUS_BUFFER_TOO_SMALL" "\<not> NT_SUCCESS st"
      | res where "st \<noteq> STATUS_BUFFER_TOO_SMALL" "NT_SUCCESS st" "place_body aj gj mapped ctx1 = Inl res"
      by (cases "place_body aj gj mapped ctx1") auto
    then show ?thesis
    proof cases
      case 1
      then show ?thesis using p parse_incomplete [of phr ctx ctx1] assms True by (simp add: HttpReadResponse_def)
    next
      case 2
      then show ?thesis using p True by (simp add: HttpReadResponse_def)
    next
      case 3
      then show ?thesis using p True place_body_Inl [OF 3(3)] by (auto simp: HttpReadResponse_def)
    qed
  qed
qed

lemma request_kept_step:
  assumes "response_step phr x y" "request_kept req x"
  shows "request_kept req y"
  using assms
proof cases
  case (arrive junk aj gj ctx post ctx1 bytes ctx2 s mapped status)
  note r = same_request_receive [OF arrive(6,8)]
  have "request_kept req (Receiving (ctx2\<lparr>C_Length := n\<rparr>) s')" for n s'
    using assms(2) arrive(1) r same_request_verdict [OF r(1)]
    by (auto simp: same_request_def asked_def verdict_def)
  then have "request_kept req (state_of (HttpReadResponse phr aj gj mapped (ctx2\<lparr>C_Length := n\<rparr>)) s')" for n s'
    by (rule request_kept_read)
  moreover have "request_kept req (state_of (HttpFailOrRetryReusedConnection st ctx2) s')" for st s'
    using assms(2) arrive(1) r by (auto simp: HttpFailOrRetryReusedConnection_def same_request_def asked_def)
  ultimately show ?thesis unfolding arrive(2) HttpOnReceive_def by presburger
qed auto

lemma request_kept_steps:
  assumes "(response_step phr)\<^sup>*\<^sup>* x y" "request_kept req x"
  shows "request_kept req y"
  using assms by (induction rule: rtranclp_induct) (auto dest: request_kept_step)

end
