(* ===== verification/Http_Response_Complete.thy ===== *)
theory Http_Response_Complete
  imports Http_Response_Correct
begin

unbundle bit_operations_syntax

text \<open>
  A good response is read to its end: while memory lasts and the transport reports no error, a
  response with a valid head and exactly the body it declares is dispatched, however the stream is
  cut into segments.
\<close>

definition generous :: "(nat \<Rightarrow> UCHAR list option) \<Rightarrow> bool" where
  "generous pool \<longleftrightarrow> pool_ok pool \<and> (\<forall>n. pool n \<noteq> None)"

text \<open>
  The loop of receives over one connection: \<open>ks\<close> bounds the segments, of which the first brings at
  most \<open>Suc k\<close> bytes, and never more than the receive asked for.
\<close>

fun respond ::
    "(UCHAR list \<Rightarrow> phr_result) \<Rightarrow> (nat \<Rightarrow> UCHAR list option) \<Rightarrow> nat list \<Rightarrow> UCHAR list \<Rightarrow> HTTP_CONTEXT \<Rightarrow> UCHAR list \<Rightarrow>
     http_state" where
  "respond phr pool [] rest ctx s = Receiving ctx s"
| "respond phr pool (k # ks) rest ctx s =
     (case HttpIssueReceive pool ctx of
        Inl st \<Rightarrow> Broken st
      | Inr (post, ctx1) \<Rightarrow>
          let bytes = take (min (Suc k) (receive_room post)) rest
          in case deliver post bytes ctx1 of
               None \<Rightarrow> Crashed
             | Some ctx2 \<Rightarrow>
                 (case HttpOnReceive phr pool pool True STATUS_SUCCESS (length bytes) ctx2 of
                    ReceiveMore ctx3 \<Rightarrow> respond phr pool ks (drop (length bytes) rest) ctx3 (s @ bytes)
                  | res \<Rightarrow> state_of res (s @ bytes)))"

text \<open>A response with a head of \<open>n\<close> bytes and the declared body, and nothing after it.\<close>

definition whole_response ::
    "(UCHAR list \<Rightarrow> phr_result) \<Rightarrow> HTTP_OPERATION \<times> int \<times> SIZE_T \<Rightarrow> UCHAR list \<Rightarrow> nat \<Rightarrow> SIZE_T \<Rightarrow> bool" where
  "whole_response phr req full n cl \<longleftrightarrow>
     (\<exists>hs. phr (take n full) = PhrDone n (fst (snd req)) hs \<and> HttpGetContentLengthFromHeaders hs = Inr cl) \<and>
     (\<forall>m<n. phr (take m full) = PhrIncomplete) \<and> n \<le> 65536 \<and> unat cl \<le> 67108864 \<and>
     (fst req = HttpOpFileRead \<longrightarrow> cl = snd (snd req)) \<and> length full = n + unat cl"

section \<open>Nothing is refused\<close>

lemma grow_generous:
  assumes "generous pool" "unat req < 2 ^ 32"
  shows "\<exists>ctx1. HttpGrowBufferIfNeeded pool req ctx = (STATUS_SUCCESS, ctx1)"
proof -
  have "\<not> req > 0xFFFFFFFF" using assms(2) by (simp add: word_less_nat_alt)
  moreover obtain new where "pool (unat req) = Some new" using assms(1) by (auto simp: generous_def)
  ultimately show ?thesis by (auto simp: HttpGrowBufferIfNeeded_def)
qed

lemma align_generous:
  assumes pool: "generous pool" and ok: "parsed_ok phr cap0 ctx s n" and cap: "cap0 < 2 ^ 31" and mdl: "C_TargetMdl ctx = None"
  shows "\<exists>c. align_body pool ctx = Inr c"
proof -
  define A where "A = (C_BodyOffset ctx + 7) AND NOT 7"
  have n: "unat (C_BodyOffset ctx) = n" "n \<le> head_cap cap0" "unat (C_ContentLength ctx) \<le> 67108864"
    using ok by (auto simp: parsed_ok_def head_read_def)
  have hc: "head_cap cap0 < 2 ^ 31" using cap by (simp add: head_cap_def)
  have A: "unat A \<le> n + 7" using unat_align [of "C_BodyOffset ctx", folded A_def] n hc by simp
  have "unat A + unat (C_ContentLength ctx) < 2 ^ 64" using A n hc by simp
  then have be: "HttpCheckedAddSizeT A (C_ContentLength ctx) = Some (A + C_ContentLength ctx)"
    using HttpCheckedAddSizeT_Some by blast
  have "unat (A + C_ContentLength ctx + 1) < 2 ^ 32"
    using unat_checked_add [OF be] A n hc by (simp add: unat_word_ariths)
  from grow_generous [OF pool this] obtain c
    where g: "HttpGrowBufferIfNeeded pool (A + C_ContentLength ctx + 1) ctx = (STATUS_SUCCESS, c)" by blast
  have "align_body pool ctx \<noteq> Inl Faulted" using align_ok(1) [OF ok mdl _ cap] pool by (simp add: generous_def)
  then show ?thesis
    unfolding align_body_def Let_def A_def [symmetric] using be g by (auto split: option.splits if_splits)
qed

lemma place_generous:
  assumes pool: "generous pool" and ok: "parsed_ok phr cap0 ctx s n" and cap: "cap0 < 2 ^ 31"
  shows "\<exists>ctx2. place_body pool pool True ctx = Inr ctx2"
proof -
  have po: "pool_ok pool" using pool by (simp add: generous_def)
  have nf: "place_body pool pool True ctx \<noteq> Inl Faulted" by (rule place_body_ok(1) [OF ok po po cap])
  show ?thesis
  proof (cases "C_TargetMdl ctx")
    case (Some mdl)
    then show ?thesis using nf by (auto simp: place_body_def Let_def split: option.splits if_splits)
  next
    case None
    obtain c where c: "(if C_Operation ctx \<noteq> HttpOpFileRead then align_body pool ctx else Inr ctx) = Inr c"
      using align_generous [OF pool ok cap None] by (cases "C_Operation ctx = HttpOpFileRead") auto
    then have "placed_ok phr cap0 c s n"
      using align_ok(2) [OF ok None po cap] parsed_placed [OF ok None] by (auto split: if_splits)
    then have "unat (C_BodyEndOffset c + 1) < 2 ^ 32"
      using cap by (auto simp: placed_ok_def head_read_def head_cap_def unat_word_ariths)
    then obtain c2 where "HttpGrowBufferIfNeeded pool (C_BodyEndOffset c + 1) c = (STATUS_SUCCESS, c2)"
      using grow_generous [OF pool] by blast
    then show ?thesis using c None unfolding place_body_def by simp
  qed
qed

lemma prefix_incomplete:
  assumes "whole_response phr req full n cl" "s = take (length s) full" "length s < n"
  shows "phr s = PhrIncomplete"
  using assms unfolding whole_response_def by metis

lemma prefix_complete:
  assumes w: "whole_response phr req full n cl" and phr: "phr_ok phr" and s: "s = take (length s) full" "n \<le> length s"
  shows "\<exists>hs. phr s = PhrDone n (fst (snd req)) hs \<and> HttpGetContentLengthFromHeaders hs = Inr cl"
proof -
  obtain hs where h: "phr (take n full) = PhrDone n (fst (snd req)) hs" "HttpGetContentLengthFromHeaders hs = Inr cl"
    using w by (auto simp: whole_response_def)
  have "take n s = take n full" using s by (metis min.absorb1 take_take)
  then have "s = take n full @ drop n s" by (metis append_take_drop_id)
  then have "phr s = PhrDone n (fst (snd req)) hs" using phr h(1) unfolding phr_ok_def by metis
  then show ?thesis using h(2) by blast
qed

lemma read_head_generous:
  assumes h: "head_ok cap0 ctx s" and w: "whole_response phr req full n cl" and phr: "phr_ok phr" and pool: "generous pool"
    and cap: "cap0 < 2 ^ 31" and req: "asked ctx = req" and s: "s = take (length s) full" "length s \<le> length full"
  shows "\<exists>c. HttpReadResponse phr pool pool True ctx = ReceiveMore c \<and> (C_BodyOffset c = 0 \<longrightarrow> length s < n) \<or>
            HttpReadResponse phr pool pool True ctx = Dispatched c"
proof -
  have f: "take (unat (C_Length ctx)) (C_Buffer ctx) = s" "C_BodyOffset ctx = 0" "unat (C_Length ctx) = length s"
    using h by (auto simp: head_ok_def)
  show ?thesis
  proof (cases "length s < n")
    case True
    then have "\<not> HTTP_MAX_HEADER_BYTES \<le> C_Length ctx"
      using f(3) w by (auto simp: whole_response_def HTTP_MAX_HEADER_BYTES_def word_le_nat_alt)
    then have "HttpParseHeaders phr ctx = (STATUS_BUFFER_TOO_SMALL, ctx)"
      using prefix_incomplete [OF w s(1) True] by (simp add: HttpParseHeaders_def f(1))
    then show ?thesis using True by (simp add: HttpReadResponse_def f(2))
  next
    case False
    then obtain hs where p: "phr s = PhrDone n (fst (snd req)) hs" "HttpGetContentLengthFromHeaders hs = Inr cl"
      using prefix_complete [OF w phr s(1)] by auto
    have len: "unat cl \<le> 67108864" "n \<le> 65536" "length full = n + unat cl" "fst req = HttpOpFileRead \<Longrightarrow> cl = snd (snd req)"
      using w by (auto simp: whole_response_def)
    have n: "unat (of_nat n :: SIZE_T) = n" using len(2) by (intro unat_of_nat_less) simp
    then have be: "HttpCheckedAddSizeT (of_nat n) cl = Some (of_nat n + cl)" using len HttpCheckedAddSizeT_Some by simp
    have small: "\<not> cl > HTTP_MAX_CONTENT_LENGTH" using len(1) by (simp add: HTTP_MAX_CONTENT_LENGTH_def word_less_nat_alt)
    obtain ctx1 where ctx1: "HttpParseHeaders phr ctx = (STATUS_SUCCESS, ctx1)"
      and e: "C_StatusCode ctx1 = fst (snd req)" "C_ContentLength ctx1 = cl" "C_BodyEndOffset ctx1 = of_nat n + cl"
        "C_Length ctx1 = C_Length ctx" "C_Headers ctx1 = hs" "C_BodyOffset ctx1 = of_nat n"
        "C_Buffer ctx1 = C_Buffer ctx" "C_Capacity ctx1 = C_Capacity ctx" "C_TargetMdl ctx1 = C_TargetMdl ctx"
      using be p small by (simp add: HttpParseHeaders_def f(1) Let_def)
    have a: "asked ctx1 = asked ctx" by (rule parse_headers_verdict(1) [OF ctx1])
    have E: "unat (C_BodyEndOffset ctx1) = n + unat cl" using e(3) unat_checked_add [OF be] n by simp
    have over: "\<not> (ucast (C_Length ctx1) :: SIZE_T) > C_BodyEndOffset ctx1"
      using E e(4) f(3) s(2) len(3) by (simp add: word_less_nat_alt)
    have match: "C_StatusCode ctx1 = C_ExpectedStatusCode ctx1" "C_Operation ctx1 = HttpOpFileRead \<longrightarrow> cl = C_ExpectedContentLength ctx1"
      using a req e(1) len(4) by (auto simp: asked_def)
    have parsed: "parsed_ok phr cap0 ctx1 s n"
      using parse_headers_ok [OF h phr ctx1 _ cap] match e h p(1) E n over a f(3) s(2) len(3)
      by (auto simp: parsed_ok_def head_read_def head_ok_def frame_ok_def asked_def)
    obtain c where c: "place_body pool pool True ctx1 = Inr c" using place_generous [OF pool parsed cap] by blast
    have "body_ok phr cap0 c s" by (rule place_body_ok(2) [OF parsed _ _ cap c]) (use pool in \<open>simp_all add: generous_def\<close>)
    then have "C_BodyOffset c \<noteq> 0" by (rule body_bounds(3) [OF _ cap])
    then show ?thesis using c ctx1 match over f(2) e(2) by (auto simp: HttpReadResponse_def read_tail_def status_defs NT_SUCCESS_def)
  qed
qed

lemma read_body_generous:
  assumes "body_ok phr cap0 ctx s" "cap0 < 2 ^ 31"
  shows "\<exists>c. HttpReadResponse phr pool pool True ctx = ReceiveMore c \<and> (C_BodyOffset c = 0 \<longrightarrow> length s < n) \<or>
            HttpReadResponse phr pool pool True ctx = Dispatched c"
  using body_bounds [OF assms] by (auto simp: HttpReadResponse_def read_tail_def word_less_nat_alt)

lemma on_receive_generous:
  assumes "HttpReadResponse phr pool pool True (ctx\<lparr>C_Length := C_Length ctx + of_nat n\<rparr>) = r" "0 < n"
  shows "HttpOnReceive phr pool pool True STATUS_SUCCESS n ctx = r"
  using assms by (simp add: HttpOnReceive_def)

section \<open>Every segmentation\<close>

lemma issue_generous:
  assumes pool: "generous pool" and ok: "state_ok phr cap0 (Receiving ctx s)" and cap: "cap0 < 2 ^ 31" and phr: "phr_ok phr"
  shows "\<exists>post ctx1. HttpIssueReceive pool ctx = Inr (post, ctx1) \<and> 0 < receive_room post"
proof -
  from ok consider (head) "head_ok cap0 ctx s" "length s < 65536"
    | (body) "body_ok phr cap0 ctx s" "unat (C_Length ctx) < unat (C_BodyEndOffset ctx)" by auto
  then show ?thesis
  proof cases
    case head
    have c: "unat (C_Length ctx) = length s" "C_BodyOffset ctx = 0" "length s \<le> unat (C_Capacity ctx)" using head(1) by (auto simp: head_ok_def)
    show ?thesis
    proof (cases "C_Length ctx = C_Capacity ctx")
      case True
      have "unat (ucast (C_Capacity ctx) + HTTP_PAGE_SIZE :: SIZE_T) = length s + 4096"
        using True c(1) head(2) by (simp add: HTTP_PAGE_SIZE_def unat_word_ariths)
      then have req: "unat (ucast (C_Capacity ctx) + HTTP_PAGE_SIZE :: SIZE_T) < 2 ^ 32" using head(2) by simp
      obtain c1 where g: "HttpGrowBufferIfNeeded pool (ucast (C_Capacity ctx) + HTTP_PAGE_SIZE) ctx = (STATUS_SUCCESS, c1)"
        using grow_generous [OF pool req] by blast
      have i: "HttpIssueReceive pool ctx = Inr (IntoBuffer (unat (C_Length c1)) (unat (C_Capacity c1 - C_Length c1)), c1)"
        using True c(2) g by (simp add: HttpIssueReceive_def)
      have cap1: "C_Capacity c1 = ucast (ucast (C_Capacity ctx) + HTTP_PAGE_SIZE :: SIZE_T)" "C_Length c1 = C_Length ctx"
        using g \<open>unat (ucast _ + HTTP_PAGE_SIZE) = _\<close> c(1) True pool
        by (auto simp: HttpGrowBufferIfNeeded_def word_le_nat_alt status_defs split: if_splits option.splits)
      have "unat (C_Capacity c1) = length s + 4096"
        using unat_down [OF req] cap1(1) \<open>unat (ucast _ + HTTP_PAGE_SIZE) = _\<close> by simp
      then have "unat (C_Capacity c1 - C_Length c1) = 4096" using cap1(2) c(1) by (simp add: unat_sub word_le_nat_alt)
      then show ?thesis using i by auto
    next
      case False
      then have "C_Capacity ctx - C_Length ctx \<noteq> 0" by auto
      then have "0 < unat (C_Capacity ctx - C_Length ctx)" by (simp add: unat_gt_0)
      then show ?thesis using False c(2) by (auto simp: HttpIssueReceive_def)
    qed
  next
    case body
    have nz: "C_BodyOffset ctx \<noteq> 0" by (rule body_bounds(3) [OF body(1) cap])
    then obtain post ctx1 where i: "HttpIssueReceive pool ctx = Inr (post, ctx1)"
      by (cases "C_TargetMdl ctx") (simp_all add: HttpIssueReceive_def)
    have "receive_room post = unat (C_BodyEndOffset ctx) - unat (C_Length ctx)"
      using body_received [OF body(1) phr cap _ i, of "[]"] by auto
    then show ?thesis using i body(2) by auto
  qed
qed

text \<open>One turn of the loop: a non-empty piece is taken, and the response goes on or is dispatched.\<close>

lemma turn_generous:
  assumes ok: "state_ok phr cap0 (Receiving ctx s)" and kept: "request_kept req (Receiving ctx s)"
    and w: "whole_response phr req full n cl" and phr: "phr_ok phr" and pool: "generous pool" and cap: "cap0 < 2 ^ 31"
    and i: "HttpIssueReceive pool ctx = Inr (post, ctx1)" and bytes: "length bytes \<le> receive_room post" "bytes \<noteq> []"
    and s: "s @ bytes = take (length (s @ bytes)) full" "length (s @ bytes) \<le> length full"
  shows "\<exists>ctx2 c. deliver post bytes ctx1 = Some ctx2 \<and>
      (HttpOnReceive phr pool pool True STATUS_SUCCESS (length bytes) ctx2 = ReceiveMore c \<and>
         (C_BodyOffset c = 0 \<longrightarrow> length (s @ bytes) < n) \<or>
       HttpOnReceive phr pool pool True STATUS_SUCCESS (length bytes) ctx2 = Dispatched c)"
proof -
  have po: "pool_ok pool" using pool by (simp add: generous_def)
  have some: "0 < length bytes" using bytes(2) by simp
  from ok consider (head) "head_ok cap0 ctx s" "length s < 65536"
    | (body) "body_ok phr cap0 ctx s" "unat (C_Length ctx) < unat (C_BodyEndOffset ctx)" by auto
  then show ?thesis
  proof cases
    case head
    note h = issue_head_ok [OF head po i]
    have k: "length bytes \<le> unat (C_Capacity ctx1) - length s" using bytes(1) h by simp
    obtain ctx2 where d: "deliver (IntoBuffer (length s) (unat (C_Capacity ctx1) - length s)) bytes ctx1 = Some ctx2"
      using deliver_head [OF conjunct1 [OF h] k] by blast
    note r = head_received [OF conjunct1 [OF h] cap k d]
    have d': "deliver post bytes ctx1 = Some ctx2" using d h by simp
    have "asked (ctx2\<lparr>C_Length := C_Length ctx2 + of_nat (length bytes)\<rparr>) = req"
      using same_request_receive(1) [OF i d'] kept by (simp add: same_request_def asked_def)
    from read_head_generous [OF conjunct1 [OF r] w phr pool cap this s]
    show ?thesis using d' on_receive_generous [OF _ some] by blast
  next
    case body
    have "receive_room post = unat (C_BodyEndOffset ctx) - unat (C_Length ctx)"
      using body_received [OF body(1) phr cap _ i, of "[]"] by auto
    then obtain ctx2 where d: "deliver post bytes ctx1 = Some ctx2"
      "body_ok phr cap0 (ctx2\<lparr>C_Length := C_Length ctx2 + of_nat (length bytes)\<rparr>) (s @ bytes)"
      using body_received [OF body(1) phr cap _ i, of bytes] bytes(1) by auto
    from read_body_generous [OF d(2) cap, of pool n]
    show ?thesis using d(1) on_receive_generous [OF _ some] by blast
  qed
qed

lemma head_read_whole:
  assumes "head_read phr ctx s m" "whole_response phr req full n cl" "phr_ok phr" "s = take (length s) full"
  shows "m = n" "C_ContentLength ctx = cl" "n \<le> length s"
proof -
  obtain hs where hs: "phr s = PhrDone m (C_ExpectedStatusCode ctx) hs" "HttpGetContentLengthFromHeaders hs = Inr (C_ContentLength ctx)"
    using assms(1) by (auto simp: head_read_def)
  show n: "n \<le> length s" using prefix_incomplete [OF assms(2,4)] hs(1) by (metis not_le_imp_less phr_result.distinct(3))
  show "m = n" "C_ContentLength ctx = cl" using prefix_complete [OF assms(2,3,4) n] hs by auto
qed

lemma body_whole:
  assumes "body_ok phr cap0 ctx s" "whole_response phr req full n cl" "phr_ok phr" "s = take (length s) full"
  shows "length full - length s = unat (C_BodyEndOffset ctx) - unat (C_Length ctx)"
proof -
  obtain m where m: "head_read phr ctx s m" "m \<le> length s"
    "unat (C_BodyEndOffset ctx) = unat (C_BodyOffset ctx) + unat (C_ContentLength ctx)"
    "unat (C_Length ctx) = unat (C_BodyOffset ctx) + (length s - m)" using assms(1) unfolding body_ok_def by blast
  then show ?thesis using head_read_whole [OF m(1) assms(2-4)] assms(2) by (auto simp: whole_response_def)
qed

lemma finished_is_whole:
  assumes "state_ok phr cap0 (Finished ctx s)" "whole_response phr req full n cl" "phr_ok phr"
    and "s = take (length s) full" "length s \<le> length full" "cap0 < 2 ^ 31"
  shows "s = full"
proof -
  have b: "body_ok phr cap0 ctx s" and e: "C_Length ctx = ucast (C_BodyEndOffset ctx)" using assms(1) by auto
  have "unat (C_Length ctx) = unat (C_BodyEndOffset ctx)" using e unat_down [OF body_bounds(1) [OF b assms(6)]] by simp
  then have "length s = length full" using body_whole [OF b assms(2-4)] assms(5) by simp
  then show ?thesis using assms(4) by simp
qed

text \<open>A response that is still being received is not complete.\<close>

lemma receiving_short:
  assumes "state_ok phr cap0 (Receiving c s)" "C_BodyOffset c = 0 \<longrightarrow> length s < n"
    and w: "whole_response phr req full n cl" "phr_ok phr" "s = take (length s) full"
  shows "length s < length full"
proof (cases "C_BodyOffset c = 0")
  case True
  then show ?thesis using assms(2) w(1) by (simp add: whole_response_def)
next
  case False
  then have b: "body_ok phr cap0 c s" "unat (C_Length c) < unat (C_BodyEndOffset c)" using assms(1) by (auto simp: head_ok_def)
  then show ?thesis using body_whole [OF b(1) w] by simp
qed

lemma respond_generous:
  assumes w: "whole_response phr req full n cl" and phr: "phr_ok phr" and pool: "generous pool" and cap: "cap0 < 2 ^ 31"
    and "state_ok phr cap0 (Receiving ctx s)" "request_kept req (Receiving ctx s)" "full = s @ rest" "rest \<noteq> []"
    "length rest \<le> length ks"
  shows "\<exists>c. respond phr pool ks rest ctx s = Finished c full \<and> state_ok phr cap0 (Finished c full) \<and> request_kept req (Finished c full)"
  using assms(5-9)
proof (induction ks arbitrary: ctx s rest)
  case (Cons k ks)
  note ok = Cons.prems(1) and kept = Cons.prems(2)
  have po: "pool_ok pool" using pool by (simp add: generous_def)
  obtain post ctx1 where i: "HttpIssueReceive pool ctx = Inr (post, ctx1)" "0 < receive_room post"
    using issue_generous [OF pool ok cap phr] by blast
  define bytes where "bytes = take (min (Suc k) (receive_room post)) rest"
  have b: "length bytes \<le> receive_room post" "bytes \<noteq> []" using i(2) Cons.prems(4) by (auto simp: bytes_def)
  have split: "full = (s @ bytes) @ drop (length bytes) rest"
    using Cons.prems(3) by (simp add: bytes_def min_def)
  then have s: "s @ bytes = take (length (s @ bytes)) full" "length (s @ bytes) \<le> length full"
    by (metis append_eq_conv_conj, metis le_add1 length_append)
  obtain ctx2 c where d: "deliver post bytes ctx1 = Some ctx2"
    and r: "HttpOnReceive phr pool pool True STATUS_SUCCESS (length bytes) ctx2 = ReceiveMore c \<and>
              (C_BodyOffset c = 0 \<longrightarrow> length (s @ bytes) < n) \<or>
            HttpOnReceive phr pool pool True STATUS_SUCCESS (length bytes) ctx2 = Dispatched c"
    using turn_generous [OF ok kept w phr pool cap i(1) b s] by blast
  define y where "y = state_of (HttpOnReceive phr pool pool True STATUS_SUCCESS (length bytes) ctx2) (s @ bytes)"
  have step: "response_step phr (Receiving ctx s) y" unfolding y_def by (rule arrive [OF po po po i(1) b(1) d])
  note y = response_step_ok [OF step ok phr cap] request_kept_step [OF step kept]
  have run: "respond phr pool (k # ks) rest ctx s =
      (case HttpOnReceive phr pool pool True STATUS_SUCCESS (length bytes) ctx2 of
         ReceiveMore ctx3 \<Rightarrow> respond phr pool ks (drop (length bytes) rest) ctx3 (s @ bytes) | res \<Rightarrow> state_of res (s @ bytes))"
    unfolding respond.simps i(1) using d by (simp only: bytes_def [symmetric] Let_def sum.case prod.case option.case)
  from r show ?case
  proof
    assume mm: "HttpOnReceive phr pool pool True STATUS_SUCCESS (length bytes) ctx2 = ReceiveMore c \<and>
      (C_BodyOffset c = 0 \<longrightarrow> length (s @ bytes) < n)"
    note m = conjunct1 [OF mm]
    then have c: "state_ok phr cap0 (Receiving c (s @ bytes))" "request_kept req (Receiving c (s @ bytes))" using y by (auto simp: y_def)
    have "length (s @ bytes) < length full" by (rule receiving_short [OF c(1) conjunct2 [OF mm] w phr s(1)])
    then have "drop (length bytes) rest \<noteq> []" using split by auto
    moreover have "length (drop (length bytes) rest) \<le> length ks" using Cons.prems(5) b(2) by (cases bytes) auto
    ultimately show ?thesis using Cons.IH [OF c split] run m by simp
  next
    assume m: "HttpOnReceive phr pool pool True STATUS_SUCCESS (length bytes) ctx2 = Dispatched c"
    then have c: "state_ok phr cap0 (Finished c (s @ bytes))" "request_kept req (Finished c (s @ bytes))" using y by (auto simp: y_def)
    have "s @ bytes = full" using finished_is_whole [OF c(1) w phr s cap] s(1) by simp
    then show ?thesis using run m c by simp
  qed
qed simp

end
