(* ===== verification/Http_Theorems.thy ===== *)
theory Http_Theorems
  imports Http_Response_Complete
begin

unbundle bit_operations_syntax

text \<open>
  What the HTTP client guarantees: of the bodies it hands on, of the memory it touches while
  reading, and of the texts it reads and writes.
\<close>

section \<open>A concrete server\<close>

text \<open>
  A parser that knows one head, and the response a server sends with it: the head and three bytes.
\<close>

definition demo_head :: "UCHAR list" where
  "demo_head = ascii ''HTTP/1.1 206 '' @ [0x0D, 0x0A] @ ascii ''Content-Length: 3'' @ [0x0D, 0x0A, 0x0D, 0x0A]"

definition demo_headers :: "phr_header list" where
  "demo_headers = [\<lparr>h_name = ascii ''Content-Length'', h_value = ascii ''3''\<rparr>]"

definition demo_phr :: "UCHAR list \<Rightarrow> phr_result" where
  "demo_phr s = (if take 36 s = demo_head then PhrDone 36 206 demo_headers else PhrIncomplete)"

definition demo_pool :: "nat \<Rightarrow> UCHAR list option" where
  "demo_pool n = Some (replicate n 0)"

definition demo_stream :: "UCHAR list" where
  "demo_stream = demo_head @ [7, 8, 9]"

definition demo_request :: HTTP_CONTEXT where
  "demo_request = (start_context HttpOpFileRead 206 (replicate 20 0) (Some [0, 0, 0, 0]) 3)
     \<lparr>C_ConnectionSource := HttpConnectionReused\<rparr>"

lemma demo_head_length: "length demo_head = 36"
  by (simp add: demo_head_def ascii_def)

lemma demo_phr_ok: "phr_ok demo_phr"
proof -
  have "36 \<le> length s" if "take 36 s = demo_head" for s
    using arg_cong [OF that, of length] demo_head_length by simp
  then show ?thesis by (auto simp: phr_ok_def demo_phr_def split: if_splits)
qed

lemma demo_pool_ok: "generous demo_pool"
  by (simp add: generous_def pool_ok_def demo_pool_def)

lemma demo_whole: "whole_response demo_phr (HttpOpFileRead, 206, 3) demo_stream 36 3"
proof -
  have "demo_phr (take m demo_stream) = PhrIncomplete" if "m < 36" for m
  proof -
    have "length (take m demo_stream) < 36" using that by simp
    then have "take 36 (take m demo_stream) \<noteq> demo_head" using demo_head_length by (metis length_take min_less_iff_conj nat_neq_iff)
    then show ?thesis by (simp add: demo_phr_def)
  qed
  moreover have "demo_phr (take 36 demo_stream) = PhrDone 36 206 demo_headers" "length demo_stream = 39"
    using demo_head_length by (simp_all add: demo_phr_def demo_stream_def)
  moreover have "HttpGetContentLengthFromHeaders demo_headers = Inr 3" by code_simp
  ultimately show ?thesis by (simp add: whole_response_def)
qed

lemma demo_request_ok: "request_ok HttpOpFileRead (replicate 20 0) (Some [0, 0, 0, 0]) 3"
  by (simp add: request_ok_def)

section \<open>The loop of receives is a run\<close>

lemma respond_steps:
  assumes "pool_ok pool"
  shows "(response_step phr)\<^sup>*\<^sup>* (Receiving ctx s) (respond phr pool ks rest ctx s)"
proof (induction ks arbitrary: ctx s rest)
  case (Cons k ks)
  show ?case
  proof (cases "HttpIssueReceive pool ctx")
    case (Inl st)
    then show ?thesis using refused [OF assms Inl, of phr s] by (simp add: r_into_rtranclp)
  next
    case (Inr p)
    obtain post ctx1 where p: "p = (post, ctx1)" by fastforce
    define bytes where "bytes = take (min (Suc k) (receive_room post)) rest"
    have room: "length bytes \<le> receive_room post" by (simp add: bytes_def)
    note i = Inr [unfolded p]
    have run: "respond phr pool (k # ks) rest ctx s =
        (case deliver post bytes ctx1 of None \<Rightarrow> Crashed
         | Some ctx2 \<Rightarrow>
             (case HttpOnReceive phr pool pool True STATUS_SUCCESS (length bytes) ctx2 of
                ReceiveMore ctx3 \<Rightarrow> respond phr pool ks (drop (length bytes) rest) ctx3 (s @ bytes)
              | res \<Rightarrow> state_of res (s @ bytes)))"
      unfolding respond.simps i by (simp only: bytes_def [symmetric] Let_def sum.case prod.case)
    show ?thesis
    proof (cases "deliver post bytes ctx1")
      case None
      then show ?thesis using overrun [OF assms i room None, of phr s] unfolding run by (simp add: r_into_rtranclp)
    next
      case (Some ctx2)
      let ?r = "HttpOnReceive phr pool pool True STATUS_SUCCESS (length bytes) ctx2"
      have step: "response_step phr (Receiving ctx s) (state_of ?r (s @ bytes))"
        by (rule arrive [OF assms assms assms i room Some])
      show ?thesis
      proof (cases ?r)
        case (ReceiveMore ctx3)
        then show ?thesis
          using converse_rtranclp_into_rtranclp [of "response_step phr", OF step] Cons.IH [of ctx3 "s @ bytes" "drop (length bytes) rest"] Some
          unfolding run by simp
      qed (use step Some in \<open>auto simp only: run option.case http_outcome.case intro: r_into_rtranclp\<close>)
    qed
  qed
qed simp

lemma respond_whole:
  assumes "phr_ok phr" "generous pool" "request_ok operation junk mdl expected"
    "whole_response phr (operation, code, expected) full n cl" "length full \<le> length ks"
  shows "\<exists>ctx. respond phr pool ks full ((start_context operation code junk mdl expected)\<lparr>C_ConnectionSource := src\<rparr>) []
      = Finished ctx full \<and> state_ok phr (length junk) (Finished ctx full) \<and>
    request_kept (operation, code, expected) (Finished ctx full)"
proof (rule respond_generous [OF assms(4,1,2), of "length junk"])
  let ?ctx0 = "(start_context operation code junk mdl expected)\<lparr>C_ConnectionSource := src\<rparr>"
  show "length junk < 2 ^ 31" using assms(3) by (simp add: request_ok_def)
  show "state_ok phr (length junk) (Receiving ?ctx0 [])" by (rule request_start_ok [OF assms(3)])
  show "request_kept (operation, code, expected) (Receiving ?ctx0 [])"
    by (simp add: start_context_def fresh_context_def asked_def)
  obtain hs where "phr (take n full) = PhrDone n code hs" using assms(4) by (auto simp: whole_response_def)
  then have "0 < n" using assms(1) by (auto simp: phr_ok_def)
  then show "full \<noteq> []" using assms(4) by (auto simp: whole_response_def)
qed (use assms(5) in auto)

section \<open>Claims\<close>

text \<open>C4. A response is only handed on when it is exactly the response that was asked for. When a
  request dispatches its answer after the bytes \<open>s\<close>, in whatever segments they came and whatever
  retries and allocations went before, then \<open>s\<close> is a head of \<open>n\<close> bytes with the expected status code
  and one valid Content-Length, followed by exactly that many bytes: nothing is missing and nothing
  was sent on top. The body handed on is these bytes, whether they were collected in the context's
  buffer (and moved to be aligned) or received straight into the caller's memory; a file read gets as
  many as it asked for, the version of the file is the one the headers name, and the no-store verdict
  of a metadata answer is theirs.\<close>

theorem response_body_exact:
  assumes "phr_ok phr" "request_ok operation junk mdl expected"
    and "(response_step phr)\<^sup>*\<^sup>*
           (Receiving ((start_context operation code junk mdl expected)\<lparr>C_ConnectionSource := src\<rparr>) []) (Finished ctx s)"
  shows "\<exists>n hs. phr s = PhrDone n code hs \<and> HttpGetContentLengthFromHeaders hs = Inr (C_ContentLength ctx) \<and>
      length s = n + unat (C_ContentLength ctx) \<and> response_body ctx = Some (drop n s) \<and>
      (operation = HttpOpFileRead \<longrightarrow> C_ContentLength ctx = expected \<and>
         HttpParseFileVersion hs = (if C_HasVersion ctx then Some (C_VersionSize ctx, C_VersionTime ctx) else None)) \<and>
      (operation = HttpOpDirInfo \<or> operation = HttpOpFileInfo \<longrightarrow> C_NoStore ctx = HttpForbidsStoring hs)"
proof -
  have cap: "length junk < 2 ^ 31" using assms(2) by (simp add: request_ok_def)
  note ok = response_steps_ok [OF assms(3) request_start_ok [OF assms(2)] assms(1) cap]
  have "request_kept (operation, code, expected) (Finished ctx s)"
    by (rule request_kept_steps [OF assms(3)]) (simp add: start_context_def fresh_context_def asked_def)
  then have "asked ctx = (operation, code, expected)" "verdict ctx" by auto
  then show ?thesis using finished_body [OF ok cap] by (auto simp: asked_def verdict_def)
qed

theorem response_body_exact_witness:
  "\<exists>ctx. respond demo_phr demo_pool (replicate 39 4) demo_stream demo_request [] = Finished ctx demo_stream \<and>
      response_body ctx = Some [7, 8, 9] \<and> C_ContentLength ctx = 3"
proof -
  have "generous demo_pool" "pool_ok demo_pool" "length demo_stream \<le> length (replicate 39 (4::nat))"
    using demo_pool_ok demo_head_length by (auto simp: generous_def demo_stream_def)
  then obtain ctx where ctx: "respond demo_phr demo_pool (replicate 39 4) demo_stream demo_request [] = Finished ctx demo_stream"
    using respond_whole [OF demo_phr_ok _ demo_request_ok demo_whole] unfolding demo_request_def by blast
  then have "(response_step demo_phr)\<^sup>*\<^sup>* (Receiving demo_request []) (Finished ctx demo_stream)"
    using respond_steps [OF \<open>pool_ok demo_pool\<close>] by metis
  from response_body_exact [OF demo_phr_ok demo_request_ok this [unfolded demo_request_def]]
  obtain n hs where "demo_phr demo_stream = PhrDone n 206 hs" "response_body ctx = Some (drop n demo_stream)"
    "C_ContentLength ctx = 3" by auto
  then have "response_body ctx = Some (drop 36 demo_stream)" "C_ContentLength ctx = 3"
    by (auto simp: demo_phr_def demo_stream_def demo_head_length split: if_splits)
  then show ?thesis using ctx by (simp add: demo_stream_def demo_head_length)
qed

text \<open>C6. Reading a response never touches memory outside its buffers, whatever the peer sends. No run
  of a request crashes: every delivery, every copy into the caller's memory and every slide of the
  body lies inside the memory it goes to, and what the client holds for one response never exceeds
  its first buffer (or a header section's worth) plus the largest content length it accepts.\<close>

theorem response_memory_safe:
  assumes "phr_ok phr" "request_ok operation junk mdl expected"
    and "(response_step phr)\<^sup>*\<^sup>*
           (Receiving ((start_context operation code junk mdl expected)\<lparr>C_ConnectionSource := src\<rparr>) []) y"
  shows "y \<noteq> Crashed \<and>
     (\<forall>ctx s. y = Receiving ctx s \<or> y = Finished ctx s \<longrightarrow>
        length (C_Buffer ctx) = unat (C_Capacity ctx) \<and>
        length (C_Buffer ctx) \<le> max (length junk) (65535 + 4096) + 67108864 + 8)"
proof -
  have cap: "length junk < 2 ^ 31" using assms(2) by (simp add: request_ok_def)
  note ok = response_steps_ok [OF assms(3) request_start_ok [OF assms(2)] assms(1) cap]
  show ?thesis
    by (cases y) (use ok in \<open>auto simp: head_ok_def body_ok_def frame_ok_def head_cap_def\<close>)
qed

theorem response_memory_safe_witness:
  "request_ok HttpOpFileRead (replicate 20 0) (Some [0, 0, 0, 0]) 3 \<and>
   respond demo_phr demo_pool [6, 90, 1] demo_stream demo_request [] \<noteq> Crashed"
proof -
  have "pool_ok demo_pool" using demo_pool_ok by (simp add: generous_def)
  from respond_steps [OF this, of demo_phr demo_request "[]" "[6, 90, 1]" demo_stream]
  have "(response_step demo_phr)\<^sup>*\<^sup>*
    (Receiving ((start_context HttpOpFileRead 206 (replicate 20 0) (Some [0, 0, 0, 0]) 3)
       \<lparr>C_ConnectionSource := HttpConnectionReused\<rparr>) [])
    (respond demo_phr demo_pool [6, 90, 1] demo_stream demo_request [])" by (simp add: demo_request_def)
  from response_memory_safe [OF demo_phr_ok demo_request_ok this] show ?thesis using demo_request_ok by simp
qed

text \<open>C31. A good response gets through, in any segmentation. While allocations succeed and the
  transport reports no error, a response with the expected status, a head of at most 64 KB, one valid
  Content-Length of at most 64 MB (for a file read, the length it asked for) and exactly that body is
  dispatched with that body, after at most as many receives as it has bytes.\<close>

theorem response_completes:
  assumes "phr_ok phr" "generous pool" "request_ok operation junk mdl expected"
    and "whole_response phr (operation, code, expected) full n cl" "length full \<le> length ks"
  shows "\<exists>ctx. respond phr pool ks full
      ((start_context operation code junk mdl expected)\<lparr>C_ConnectionSource := src\<rparr>) [] = Finished ctx full \<and>
      response_body ctx = Some (drop n full) \<and> C_ContentLength ctx = cl"
proof -
  have cap: "length junk < 2 ^ 31" using assms(3) by (simp add: request_ok_def)
  from respond_whole [OF assms, of src] obtain ctx
    where ctx: "respond phr pool ks full ((start_context operation code junk mdl expected)\<lparr>C_ConnectionSource := src\<rparr>) [] = Finished ctx full"
      and ok: "state_ok phr (length junk) (Finished ctx full)" by blast
  obtain m where m: "phr full = PhrDone m (C_ExpectedStatusCode ctx) (C_Headers ctx)"
    "HttpGetContentLengthFromHeaders (C_Headers ctx) = Inr (C_ContentLength ctx)" "response_body ctx = Some (drop m full)"
    using finished_body [OF ok cap] by blast
  have "n \<le> length full" using assms(4) by (simp add: whole_response_def)
  then have "m = n" "C_ContentLength ctx = cl" using prefix_complete [OF assms(4,1), of full] m by auto
  then show ?thesis using ctx m(3) by auto
qed

theorem response_completes_witness:
  "\<exists>ctx. respond demo_phr demo_pool (9 # replicate 40 0) demo_stream demo_request [] = Finished ctx demo_stream \<and>
      response_body ctx = Some (drop 36 demo_stream) \<and> C_ContentLength ctx = 3"
proof -
  have "length demo_stream \<le> length (9 # replicate 40 (0::nat))" by (simp add: demo_stream_def demo_head_length)
  from response_completes [OF demo_phr_ok demo_pool_ok demo_request_ok demo_whole this]
  show ?thesis unfolding demo_request_def .
qed

text \<open>C32. Content-Length is read as the protocol asks. A header section without one is told apart from
  one with several, which is refused whatever they say (the two ways a response's framing could be
  smuggled); a single one counts only when it is a non-empty string of decimal digits whose value
  fits in a SIZE_T, and then it is that value, with no wrap-around.\<close>

theorem content_length_reads:
  "HttpGetContentLengthFromHeaders hs =
     (case map h_value (named ''content-length'' hs) of
        [] \<Rightarrow> Inl STATUS_NOT_FOUND
      | [v] \<Rightarrow> if v \<noteq> [] \<and> list_all digit v \<and> decimal 0 v < 2 ^ 64
               then Inr (of_nat (decimal 0 v)) else Inl STATUS_INVALID_PARAMETER
      | _ \<Rightarrow> Inl STATUS_INVALID_NETWORK_RESPONSE)"
  unfolding HttpGetContentLengthFromHeaders_def content_length_loop_named
  by (auto simp: HttpStrToSize_def str_to_size_loop_spec list_all_iff split: list.splits)

text \<open>The no-store verdict is exact: it is given if and only if some Cache-Control header has
  no-store, in any case, as one of its comma-separated directives, blanks around it aside; a
  directive that only contains the word, or a quoted neighbour, does not count.\<close>

theorem forbids_storing_reads:
  "HttpForbidsStoring hs \<longleftrightarrow>
     (\<exists>h. h \<in> set (named ''cache-control'' hs) \<and> has_directive (ascii ''no-store'') (h_value h))"
  by (auto simp: HttpForbidsStoring_iff)

text \<open>A version is read if and only if the response has one ETag and it is spelled as the server
  spells it: quoted, seconds, a dot, nanoseconds, a dash and the size, each of one to sixteen
  hexadecimal digits, the nanoseconds below a second and the time within what a file time can hold.
  The size and the time are then the ones spelled, in ticks since 1601, with no wrap-around.\<close>

theorem file_version_reads:
  "HttpParseFileVersion hs = Some (sz, t) \<longleftrightarrow>
     (\<exists>h a b c. named ''etag'' hs = [h] \<and> h_value h = version_tag a b c \<and>
        list_all (\<lambda>x. 0 < length x \<and> length x \<le> 16 \<and> list_all (\<lambda>d. hex_digit d \<noteq> None) x) [a, b, c] \<and>
        hexadecimal 0 b < 1000000000 \<and> hexadecimal 0 a \<le> 1833029933769 \<and> unat sz = hexadecimal 0 c \<and>
        unat t = hexadecimal 0 a * 10000000 + hexadecimal 0 b div 100 + 116444736000000000)"
  (is "_ \<longleftrightarrow> ?R")
proof -
  have "HttpParseFileVersion hs = Some (sz, t) \<longleftrightarrow> (\<exists>h. named ''etag'' hs = [h] \<and> parse_tag (h_value h) = Some (sz, t))"
    unfolding HttpParseFileVersion_def etag_loop_named by (auto split: list.splits option.splits)
  also have "\<dots> \<longleftrightarrow> ?R"
  proof
    assume "\<exists>h. named ''etag'' hs = [h] \<and> parse_tag (h_value h) = Some (sz, t)"
    then obtain h a b c s n where h: "named ''etag'' hs = [h]" "h_value h = version_tag a b c" "HttpParseHex64 a = Some s"
      "HttpParseHex64 b = Some n" "HttpParseHex64 c = Some sz" "unat n < 1000000000" "unat s \<le> 1833029933769"
      "t = s * TICKS_PER_SECOND + n div 100 + EPOCH_TICKS"
      using parse_tag_Some by blast
    then have "list_all (\<lambda>x. 0 < length x \<and> length x \<le> 16 \<and> list_all (\<lambda>d. hex_digit d \<noteq> None) x) [a, b, c] \<and>
        hexadecimal 0 b < 1000000000 \<and> hexadecimal 0 a \<le> 1833029933769 \<and> unat sz = hexadecimal 0 c \<and>
        unat t = hexadecimal 0 a * 10000000 + hexadecimal 0 b div 100 + 116444736000000000"
      using version_time [OF h(7,6)] by (simp add: HttpParseHex64_Some list_all_iff)
    then show ?R using h(1,2) by blast
  next
    assume ?R
    then obtain h a b c where h: "named ''etag'' hs = [h]" "h_value h = version_tag a b c"
      and l: "list_all (\<lambda>x. 0 < length x \<and> length x \<le> 16 \<and> list_all (\<lambda>d. hex_digit d \<noteq> None) x) [a, b, c]"
      and v: "hexadecimal 0 b < 1000000000" "hexadecimal 0 a \<le> 1833029933769" "unat sz = hexadecimal 0 c"
        "unat t = hexadecimal 0 a * 10000000 + hexadecimal 0 b div 100 + 116444736000000000" by blast
    let ?s = "of_nat (hexadecimal 0 a) :: ULONG64" and ?n = "of_nat (hexadecimal 0 b) :: ULONG64"
    have u: "unat ?s = hexadecimal 0 a" "unat ?n = hexadecimal 0 b" using v by (auto intro!: unat_of_nat_less)
    then have "HttpParseHex64 a = Some ?s" "HttpParseHex64 b = Some ?n" "HttpParseHex64 c = Some sz"
      using l v(3) by (auto simp: HttpParseHex64_Some list_all_iff)
    moreover have "unat t = unat (?s * TICKS_PER_SECOND + ?n div 100 + EPOCH_TICKS)"
      using version_time [of ?s ?n] u v by simp
    then have "t = ?s * TICKS_PER_SECOND + ?n div 100 + EPOCH_TICKS" by (rule unsigned_word_eqI)
    ultimately have "parse_tag (version_tag a b c) = Some (sz, t)" using u v parse_tag_Some by metis
    then show "\<exists>h. named ''etag'' hs = [h] \<and> parse_tag (h_value h) = Some (sz, t)" using h by auto
  qed
  finally show ?thesis .
qed


end
