(* ===== verification/Change_Feed.thy ===== *)
theory Change_Feed
  imports Path_Cache
begin

text \<open>
  The change feed (ChangeFeed.c) and the decoding of its answers (HttpDeserializeChangeBatch in
  Client.c): a thread holds one long poll open at a time and turns what the server reports into
  invalidations of the path cache and reports to the directory-change notification package.

  A batch is a value; its paths also carry where in the batch's allocation their characters lie, in
  characters from the end of the entries. The verified FlatBuffer table the generated accessors read
  is a record of its fields, a missing vector None. What the thread waits for is an argument: the
  answers of its polls and whether Stop was signalled. Path lengths are natural numbers, as a path
  that does not fit a UNICODE_STRING fails the batch.
\<close>

section \<open>Batches\<close>

datatype CHANGE_KIND = ChangeModified | ChangeCreated | ChangeRemoved

record CHANGE_ENTRY =
  CE_Path :: UNICODE_STRING
  CE_Kind :: CHANGE_KIND
  CE_At :: nat

definition CHANGE_BATCH_MAX_ENTRIES :: nat where "CHANGE_BATCH_MAX_ENTRIES = 4096"
definition CHANGE_BATCH_MAX_PATH_BYTES :: nat where "CHANGE_BATCH_MAX_PATH_BYTES = 1024 * 1024"

record CHANGE_BATCH =
  CB_Epoch :: ULONG64
  CB_Generation :: ULONG64
  CB_Entries :: "CHANGE_ENTRY list"
  CB_Reset :: bool

record flat_batch =
  fb_epoch :: ULONG64
  fb_generation :: ULONG64
  fb_reset :: bool
  fb_modified :: "UCHAR list list option"
  fb_created :: "UCHAR list list option"
  fb_removed :: "UCHAR list list option"

definition batch_lists :: "flat_batch \<Rightarrow> (CHANGE_KIND \<times> UCHAR list list) list" where
  "batch_lists fb =
     [(ChangeModified, case_option [] id (fb_modified fb)), (ChangeCreated, case_option [] id (fb_created fb)),
      (ChangeRemoved, case_option [] id (fb_removed fb))]"

text \<open>The sizing loop: the entries and the bytes of their paths, until the batch is past a limit.\<close>

fun size_batch :: "(CHANGE_KIND \<times> UCHAR list list) list \<Rightarrow> bool \<Rightarrow> nat \<Rightarrow> nat \<Rightarrow> bool \<times> nat \<times> nat" where
  "size_batch [] reset count pathBytes = (reset, count, pathBytes)"
| "size_batch ((_, paths) # rest) reset count pathBytes =
     (if reset then (reset, count, pathBytes)
      else let count' = count + length paths;
               pathBytes' = (if count' \<le> CHANGE_BATCH_MAX_ENTRIES then pathBytes + sum_list (map length paths) else pathBytes)
           in size_batch rest (count' > CHANGE_BATCH_MAX_ENTRIES \<or> pathBytes' > CHANGE_BATCH_MAX_PATH_BYTES) count' pathBytes')"

text \<open>
  One path: a leading separator, the converted characters, and a separator for every slash. \<open>utf8\<close>
  is RtlUTF8ToUnicodeN, as in the listings.
\<close>

definition decode_change_path :: "utf8_decoder \<Rightarrow> UCHAR list \<Rightarrow> NTSTATUS + UNICODE_STRING" where
  "decode_change_path utf8 path =
     (let (status, chars) = (if path \<noteq> [] then utf8 (length path * 2) path else (STATUS_SUCCESS, []))
      in if \<not> NT_SUCCESS status then Inl status
         else if (1 + length chars) * 2 > 65535 then Inl STATUS_INVALID_PARAMETER
         else Inr (backslash # map (\<lambda>c. if c = 0x2F then backslash else c) chars))"

fun decode_changes ::
    "utf8_decoder \<Rightarrow> CHANGE_KIND \<Rightarrow> UCHAR list list \<Rightarrow> nat \<Rightarrow> NTSTATUS + (CHANGE_ENTRY list \<times> nat)" where
  "decode_changes utf8 kind [] cursor = Inr ([], cursor)"
| "decode_changes utf8 kind (path # paths) cursor =
     (case decode_change_path utf8 path of
        Inl status \<Rightarrow> Inl status
      | Inr chars \<Rightarrow>
          (case decode_changes utf8 kind paths (cursor + length chars) of
             Inl status \<Rightarrow> Inl status
           | Inr (entries, cursor') \<Rightarrow> Inr (\<lparr>CE_Path = chars, CE_Kind = kind, CE_At = cursor\<rparr> # entries, cursor')))"

fun decode_lists ::
    "utf8_decoder \<Rightarrow> nat \<Rightarrow> (CHANGE_KIND \<times> UCHAR list list) list \<Rightarrow> nat \<Rightarrow> nat \<Rightarrow> NTSTATUS + CHANGE_ENTRY list" where
  "decode_lists utf8 count [] entry cursor = Inr []"
| "decode_lists utf8 count ((kind, paths) # others) entry cursor =
     (if \<not> entry < count then Inr []
      else case decode_changes utf8 kind paths cursor of
             Inl status \<Rightarrow> Inl status
           | Inr (entries, cursor') \<Rightarrow>
               (case decode_lists utf8 count others (entry + length paths) cursor' of
                  Inl status \<Rightarrow> Inl status
                | Inr rest \<Rightarrow> Inr (entries @ rest)))"

text \<open>
  HttpDeserializeChangeBatch on the body's bytes: \<open>verify\<close> is flatcc's verifier together with the
  accessors of the root table, \<open>pool\<close> the allocation.
\<close>

definition HttpDeserializeChangeBatch ::
    "(UCHAR list \<Rightarrow> flat_batch option) \<Rightarrow> utf8_decoder \<Rightarrow> bool \<Rightarrow> UCHAR list \<Rightarrow> NTSTATUS + CHANGE_BATCH" where
  "HttpDeserializeChangeBatch verify utf8 pool body =
     (if body = [] then Inl STATUS_INVALID_PARAMETER
      else case verify body of
             None \<Rightarrow> Inl STATUS_INVALID_PARAMETER
           | Some fb \<Rightarrow>
               let (reset, count, pathBytes) = size_batch (batch_lists fb) (fb_reset fb) 0 0;
                   count = (if reset then 0 else count)
               in if \<not> pool then Inl STATUS_INSUFFICIENT_RESOURCES
                  else case decode_lists utf8 count (batch_lists fb) 0 0 of
                         Inl status \<Rightarrow> Inl status
                       | Inr entries \<Rightarrow>
                           Inr \<lparr>CB_Epoch = fb_epoch fb, CB_Generation = fb_generation fb, CB_Entries = entries, CB_Reset = reset\<rparr>)"

text \<open>The characters the allocation has room for after the entries.\<close>

definition batch_room :: "flat_batch \<Rightarrow> nat" where
  "batch_room fb =
     (let (reset, count, pathBytes) = size_batch (batch_lists fb) (fb_reset fb) 0 0
      in if reset then 0 else count + pathBytes)"

section \<open>Notifications\<close>

text \<open>The scan back to the last separator is the loop of PathCacheParent; the offset is in bytes.\<close>

definition ChangeFeedNameOffset :: "UNICODE_STRING \<Rightarrow> nat" where
  "ChangeFeedNameOffset path =
     (let chars = last_separator path (length path)
      in if chars * 2 = length path * 2 then 0 else chars * 2)"

record change_report =
  CR_Path :: UNICODE_STRING
  CR_NameOffset :: nat
  CR_Filter :: ULONG
  CR_Action :: ULONG

definition FILE_NOTIFY_NAMES :: ULONG where "FILE_NOTIFY_NAMES = 0x3"
definition FILE_NOTIFY_SIZE_AND_WRITE :: ULONG where "FILE_NOTIFY_SIZE_AND_WRITE = 0x18"
definition FILE_ACTION_ADDED :: ULONG where "FILE_ACTION_ADDED = 1"
definition FILE_ACTION_REMOVED :: ULONG where "FILE_ACTION_REMOVED = 2"
definition FILE_ACTION_MODIFIED :: ULONG where "FILE_ACTION_MODIFIED = 3"

fun notify_loop :: "CHANGE_ENTRY list \<Rightarrow> change_report list" where
  "notify_loop [] = []"
| "notify_loop (entry # entries) =
     (let nameOffset = ChangeFeedNameOffset (CE_Path entry)
      in if nameOffset = 0 then notify_loop entries
         else \<lparr>CR_Path = CE_Path entry, CR_NameOffset = nameOffset,
               CR_Filter = (if CE_Kind entry = ChangeModified then FILE_NOTIFY_SIZE_AND_WRITE else FILE_NOTIFY_NAMES),
               CR_Action = (case CE_Kind entry of ChangeModified \<Rightarrow> FILE_ACTION_MODIFIED
                            | ChangeRemoved \<Rightarrow> FILE_ACTION_REMOVED | ChangeCreated \<Rightarrow> FILE_ACTION_ADDED)\<rparr> # notify_loop entries)"

section \<open>Applying a batch\<close>

definition CHANGE_FEED_PRECISE_STRUCTURAL_MAX :: nat where "CHANGE_FEED_PRECISE_STRUCTURAL_MAX = 64"
definition CHANGE_FEED_BACKOFF_MIN_MS :: ULONG where "CHANGE_FEED_BACKOFF_MIN_MS = 1000"
definition CHANGE_FEED_BACKOFF_MAX_MS :: ULONG where "CHANGE_FEED_BACKOFF_MAX_MS = 30000"

record CHANGE_FEED_STATE =
  CF_Thread :: bool
  CF_Volume :: bool
  CF_Epoch :: ULONG64
  CF_Since :: ULONG64
  CF_BackoffMs :: ULONG

definition ChangeFeedNotify :: "CHANGE_FEED_STATE \<Rightarrow> CHANGE_BATCH \<Rightarrow> change_report list" where
  "ChangeFeedNotify cf batch = (if \<not> CF_Volume cf then [] else notify_loop (CB_Entries batch))"

fun structural_count :: "CHANGE_ENTRY list \<Rightarrow> nat" where
  "structural_count [] = 0"
| "structural_count (entry # entries) = (if CE_Kind entry \<noteq> ChangeModified then 1 else 0) + structural_count entries"

definition apply_entry :: "NLS \<Rightarrow> CHANGE_ENTRY \<Rightarrow> PATH_CACHE_STATE \<Rightarrow> PATH_CACHE_STATE" where
  "apply_entry nls entry s =
     (if CE_Kind entry = ChangeModified then BlorgPathCacheInvalidate nls (CE_Path entry) s
      else BlorgPathCacheInvalidatePrefix nls (CE_Path entry) s)"

definition ChangeFeedApply ::
    "NLS \<Rightarrow> CHANGE_FEED_STATE \<Rightarrow> CHANGE_BATCH \<Rightarrow> PATH_CACHE_STATE \<Rightarrow> change_report list \<times> PATH_CACHE_STATE" where
  "ChangeFeedApply nls cf batch s =
     (let s' = (if structural_count (CB_Entries batch) > CHANGE_FEED_PRECISE_STRUCTURAL_MAX
                then BlorgPathCacheInvalidateAll nls s
                else fold (apply_entry nls) (CB_Entries batch) s)
      in (ChangeFeedNotify cf batch, s'))"

definition BlorgChangeFeedReceive ::
    "NLS \<Rightarrow> NTSTATUS \<Rightarrow> CHANGE_BATCH option \<Rightarrow> CHANGE_FEED_STATE \<Rightarrow> PATH_CACHE_STATE \<Rightarrow>
     change_report list \<times> CHANGE_FEED_STATE \<times> PATH_CACHE_STATE" where
  "BlorgChangeFeedReceive nls status batch cf s =
     (case (NT_SUCCESS status, batch) of
        (True, Some b) \<Rightarrow>
          let (reports, s') =
                (if CB_Reset b \<or> CB_Epoch b \<noteq> CF_Epoch cf then ([], BlorgPathCacheFollowFeed nls True s)
                 else ChangeFeedApply nls cf b s)
          in (reports, cf\<lparr>CF_Epoch := CB_Epoch b, CF_Since := CB_Generation b\<rparr>, s')
      | _ \<Rightarrow> ([], cf\<lparr>CF_Epoch := 0, CF_Since := 0\<rparr>, BlorgPathCacheFollowFeed nls False s))"

section \<open>Polling\<close>

text \<open>
  What becomes of one poll: the status BlorgHttpGetChanges returns for the epoch and generation it
  is asked from, and, when that is pending, the status and batch its completion brings.
\<close>

type_synonym poll_outcome = "ULONG64 \<Rightarrow> ULONG64 \<Rightarrow> NTSTATUS \<times> NTSTATUS \<times> CHANGE_BATCH option"

definition next_backoff :: "ULONG \<Rightarrow> ULONG" where
  "next_backoff ms =
     (if ms = 0 then CHANGE_FEED_BACKOFF_MIN_MS
      else if ms * 2 > CHANGE_FEED_BACKOFF_MAX_MS then CHANGE_FEED_BACKOFF_MAX_MS else ms * 2)"

definition BlorgChangeFeedPoll ::
    "NLS \<Rightarrow> poll_outcome \<Rightarrow> CHANGE_FEED_STATE \<Rightarrow> PATH_CACHE_STATE \<Rightarrow>
     ULONG \<times> change_report list \<times> CHANGE_FEED_STATE \<times> PATH_CACHE_STATE" where
  "BlorgChangeFeedPoll nls poll cf s =
     (let (issued, answered, answer) = poll (CF_Epoch cf) (CF_Since cf);
          (status, batch) = (if issued = STATUS_PENDING then (answered, answer) else (issued, None));
          (reports, cf1, s1) = BlorgChangeFeedReceive nls status batch cf s
      in if NT_SUCCESS status then (0, reports, cf1\<lparr>CF_BackoffMs := 0\<rparr>, s1)
         else let ms = next_backoff (CF_BackoffMs cf1)
              in (ms, reports, cf1\<lparr>CF_BackoffMs := ms\<rparr>, s1))"

text \<open>
  The follower, over the waits it makes: each brings whether Stop was signalled, and the outcome of
  the poll made when it was not. The result lists the delays the polls asked for.
\<close>

fun ChangeFeedThread ::
    "NLS \<Rightarrow> (bool \<times> poll_outcome) list \<Rightarrow> CHANGE_FEED_STATE \<Rightarrow> PATH_CACHE_STATE \<Rightarrow>
     ULONG list \<times> CHANGE_FEED_STATE \<times> PATH_CACHE_STATE" where
  "ChangeFeedThread nls [] cf s = ([], cf, s)"
| "ChangeFeedThread nls ((stop, poll) # waits) cf s =
     (if stop then ([], cf, s)
      else let (ms, _, cf1, s1) = BlorgChangeFeedPoll nls poll cf s;
               (rest, cf2, s2) = ChangeFeedThread nls waits cf1 s1
           in (ms # rest, cf2, s2))"

text \<open>\<open>enabled\<close> is the registry's ChangeFeed value, \<open>created\<close> the outcome of PsCreateSystemThread.\<close>

definition BlorgChangeFeedStart :: "bool \<Rightarrow> bool \<Rightarrow> CHANGE_FEED_STATE \<Rightarrow> CHANGE_FEED_STATE" where
  "BlorgChangeFeedStart enabled created cf =
     (if \<not> enabled \<or> CF_Thread cf then cf
      else let cf1 = cf\<lparr>CF_Volume := True, CF_Epoch := 0, CF_Since := 0, CF_BackoffMs := 0\<rparr>
           in if created then cf1\<lparr>CF_Thread := True\<rparr> else cf1\<lparr>CF_Thread := False, CF_Volume := False\<rparr>)"

definition BlorgChangeFeedStop ::
    "NLS \<Rightarrow> CHANGE_FEED_STATE \<Rightarrow> PATH_CACHE_STATE \<Rightarrow> CHANGE_FEED_STATE \<times> PATH_CACHE_STATE" where
  "BlorgChangeFeedStop nls cf s =
     (cf\<lparr>CF_Thread := False, CF_Volume := False\<rparr>, BlorgPathCacheFollowFeed nls False s)"

end
