(* ===== verification/Change_Feed_Correct.thy ===== *)
theory Change_Feed_Correct
  imports Change_Feed Path_Cache_Theorems
begin

text \<open>
  What a batch of changes does to the caches, seen through the step relation of the path cache; the
  decoded batch; and the state the polls leave behind.
\<close>

section \<open>A batch as invalidations\<close>

definition entry_target :: "CHANGE_ENTRY \<Rightarrow> target" where
  "entry_target e = (if CE_Kind e = ChangeModified then One (CE_Path e) else Prefix (CE_Path e))"

text \<open>Everything on a reset and past the limit of structural changes, what the entries name otherwise.\<close>

definition batch_targets :: "CHANGE_FEED_STATE \<Rightarrow> CHANGE_BATCH \<Rightarrow> target list" where
  "batch_targets cf b =
     (if CB_Reset b \<or> CB_Epoch b \<noteq> CF_Epoch cf \<or> structural_count (CB_Entries b) > CHANGE_FEED_PRECISE_STRUCTURAL_MAX
      then [Everything] else map entry_target (CB_Entries b))"

definition named_paths :: "CHANGE_BATCH \<Rightarrow> bool" where
  "named_paths b \<longleftrightarrow> list_all (\<lambda>e. CE_Path e \<noteq> []) (CB_Entries b)"

lemma run_part_fields:
  "Ready (run_part nls p s) = Ready s" "Sequence (run_part nls p s) = Sequence s"
  "ChangeFeedLive (run_part nls p s) = ChangeFeedLive s"
  "Generation (run_part nls p s) = (if p = Bump then Generation s + 1 else Generation s)"
proof -
  have p: "path_frame s (run_part nls p s)" if "\<exists>x i. p = PathOne x \<or> p = PathUnder x i"
    using that by (auto intro: path_drop_frame sweep_paths_frame)
  have l: "listing_frame s (run_part nls p s)" if "\<exists>x i. p = ListOne x \<or> p = ListUnder x i \<or> p = ListAll i"
    using that by (auto intro: ListingCacheDrop_frame sweep_listings_frame)
  show "Ready (run_part nls p s) = Ready s" "Sequence (run_part nls p s) = Sequence s"
    "ChangeFeedLive (run_part nls p s) = ChangeFeedLive s"
    "Generation (run_part nls p s) = (if p = Bump then Generation s + 1 else Generation s)"
    by (cases p; use path_frameD [OF p] listing_frameD [OF l] in force)+
qed

lemma fold_parts_fields:
  "Ready (fold (run_part nls) ps s) = Ready s" "Sequence (fold (run_part nls) ps s) = Sequence s"
  "ChangeFeedLive (fold (run_part nls) ps s) = ChangeFeedLive s"
  "Bump \<notin> set ps \<Longrightarrow> Generation (fold (run_part nls) ps s) = Generation s"
  by (induction ps arbitrary: s) (auto simp: run_part_fields)

lemma parts_no_bump: "target \<noteq> Everything \<Longrightarrow> Bump \<notin> set (parts target)"
  by (cases target) (auto split: option.splits)

lemma apply_entry_parts:
  assumes "Ready s" "CE_Path e \<noteq> []"
  shows "apply_entry nls e s = fold (run_part nls) (parts (entry_target e)) (PathCacheAdvanceSequence s)"
  using BlorgPathCacheInvalidate_parts [OF assms] BlorgPathCacheInvalidatePrefix_parts [OF assms]
  by (simp add: apply_entry_def entry_target_def del: parts.simps)

lemma apply_entry_fields:
  assumes "Ready s" "CE_Path e \<noteq> []"
  shows "Ready (apply_entry nls e s)" "Sequence (apply_entry nls e s) = Sequence s + 1"
    "ChangeFeedLive (apply_entry nls e s) = ChangeFeedLive s" "Generation (apply_entry nls e s) = Generation s"
proof -
  have "Bump \<notin> set (parts (entry_target e))" by (rule parts_no_bump) (simp add: entry_target_def)
  then show "Ready (apply_entry nls e s)" "Sequence (apply_entry nls e s) = Sequence s + 1"
    "ChangeFeedLive (apply_entry nls e s) = ChangeFeedLive s" "Generation (apply_entry nls e s) = Generation s"
    using assms(1) unfolding apply_entry_parts [OF assms] fold_parts_fields
    by (simp_all add: PathCacheAdvanceSequence_def fold_parts_fields(4))
qed

lemma completed_fields: "I_Target (completed target s) = target" "I_Sequence (completed target s) = Suc (unat (Sequence s))"
  by (simp_all add: completed_def ran_parts_def begin_invalidation_def)

lemma below_top:
  fixes x :: LONG64
  assumes "unat x < 2 ^ 64 - 1"
  shows "x \<noteq> - 1"
  using assms by (auto simp: unsigned_minus_1_eq_mask mask_eq_exp_minus_1)

lemma apply_entries_run:
  assumes "W_Running w k = None" "Ready (W_Cache w)" "list_all (\<lambda>e. CE_Path e \<noteq> []) es"
    "unat (Sequence (W_Cache w)) + length es < 2 ^ 64 - 1"
  shows "\<exists>w'. cache_steps nls w w' \<and> W_Cache w' = fold (apply_entry nls) es (W_Cache w) \<and> W_Running w' k = None \<and>
      (\<forall>e\<in>set es. \<exists>iv\<in>W_Done w'. I_Target iv = entry_target e \<and> unat (Sequence (W_Cache w)) < I_Sequence iv)"
  using assms
proof (induction es arbitrary: w)
  case Nil
  then show ?case by (intro exI [of _ w]) simp
next
  case (Cons e es)
  let ?s = "W_Cache w"
  have e: "CE_Path e \<noteq> []" "Ready ?s" using Cons.prems by auto
  have seq: "unat (Sequence ?s + 1) = Suc (unat (Sequence ?s))"
    using Cons.prems(4) by (simp add: unat_word_ariths)
  have top: "Sequence ?s \<noteq> - 1" by (rule below_top) (use Cons.prems(4) in simp)
  define w1 where "w1 = w\<lparr>W_Cache := apply_entry nls e ?s, W_Done := insert (completed (entry_target e) ?s) (W_Done w)\<rparr>"
  have r1: "cache_steps nls w w1"
    unfolding w1_def apply_entry_parts [OF e(2,1)]
    by (rule run_invalidation [OF Cons.prems(1) top]) (use e(1) in \<open>auto simp: entry_target_def split: if_splits\<close>)
  have f: "Ready (W_Cache w1)" "Sequence (W_Cache w1) = Sequence ?s + 1" "W_Running w1 k = None"
    using apply_entry_fields [OF e(2,1)] Cons.prems(1) by (simp_all add: w1_def)
  obtain w' where w': "cache_steps nls w1 w'" "W_Cache w' = fold (apply_entry nls) es (W_Cache w1)" "W_Running w' k = None"
    "\<forall>x\<in>set es. \<exists>iv\<in>W_Done w'. I_Target iv = entry_target x \<and> unat (Sequence (W_Cache w1)) < I_Sequence iv"
    using Cons.IH [OF f(3,1)] Cons.prems(3,4) f(2) seq by auto
  have "completed (entry_target e) ?s \<in> W_Done w'" using cache_steps_monotone [OF w'(1)] by (auto simp: w1_def)
  then have "\<forall>x\<in>set (e # es). \<exists>iv\<in>W_Done w'. I_Target iv = entry_target x \<and> unat (Sequence ?s) < I_Sequence iv"
    using w'(4) f(2) seq completed_fields [of "entry_target e" ?s] by fastforce
  then show ?case using rtranclp_trans [OF r1 w'(1)] w'(2,3) by (auto simp: w1_def)
qed

lemma invalidate_all_run:
  assumes "W_Running w k = None" "Ready (W_Cache w)" "Sequence (W_Cache w) \<noteq> - 1" "Generation (W_Cache w) \<noteq> - 1"
  shows "cache_steps nls w (w\<lparr>W_Cache := BlorgPathCacheInvalidateAll nls (W_Cache w),
      W_Done := insert (completed Everything (W_Cache w)) (W_Done w)\<rparr>)"
  unfolding BlorgPathCacheInvalidateAll_parts [OF assms(2)]
  by (rule run_invalidation [OF assms(1,3)]) (use assms(4) in auto)

lemma receive_success:
  assumes "NT_SUCCESS status"
  shows "BlorgChangeFeedReceive nls status (Some b) cf s =
    (let (reports, s') = (if CB_Reset b \<or> CB_Epoch b \<noteq> CF_Epoch cf then ([], BlorgPathCacheFollowFeed nls True s)
        else ChangeFeedApply nls cf b s)
     in (reports, cf\<lparr>CF_Epoch := CB_Epoch b, CF_Since := CB_Generation b\<rparr>, s'))"
  using assms by (simp add: BlorgChangeFeedReceive_def)

text \<open>Acting on a batch is a run of the caches that completes an invalidation of each of its targets.\<close>

lemma receive_run:
  assumes w: "W_Running w k = None" "Ready (W_Cache w)" "unat (Sequence (W_Cache w)) + length (CB_Entries b) < 2 ^ 64 - 1"
      "Generation (W_Cache w) \<noteq> - 1"
    and b: "named_paths b" "NT_SUCCESS status"
    and r: "BlorgChangeFeedReceive nls status (Some b) cf (W_Cache w) = (reports, cf', s')"
  shows "\<exists>w'. cache_steps nls w w' \<and> W_Cache w' = s' \<and>
      (\<forall>t\<in>set (batch_targets cf b). \<exists>iv\<in>W_Done w'. I_Target iv = t \<and> unat (Sequence (W_Cache w)) < I_Sequence iv)"
proof -
  let ?s = "W_Cache w"
  let ?all = "w\<lparr>W_Cache := BlorgPathCacheInvalidateAll nls ?s, W_Done := insert (completed Everything ?s) (W_Done w)\<rparr>"
  have "Sequence ?s \<noteq> - 1" by (rule below_top) (use w(3) in simp)
  note all = invalidate_all_run [OF w(1,2) this w(4)]
  consider (reset) "CB_Reset b \<or> CB_Epoch b \<noteq> CF_Epoch cf"
    | (flush) "\<not> CB_Reset b" "CB_Epoch b = CF_Epoch cf" "structural_count (CB_Entries b) > CHANGE_FEED_PRECISE_STRUCTURAL_MAX"
    | (precise) "\<not> CB_Reset b" "CB_Epoch b = CF_Epoch cf" "\<not> structural_count (CB_Entries b) > CHANGE_FEED_PRECISE_STRUCTURAL_MAX"
    by blast
  then show ?thesis
  proof cases
    case reset
    define w' where "w' = ?all\<lparr>W_Cache := (W_Cache ?all)\<lparr>ChangeFeedLive := True\<rparr>, W_Feed := I_Sequence (completed Everything ?s)\<rparr>"
    have "cache_step nls ?all w'" unfolding w'_def by (rule cache_step.feed_up) (simp_all add: completed_fields)
    then have "cache_steps nls w w'" using all by (rule rtranclp.rtrancl_into_rtrancl [rotated])
    moreover have "W_Cache w' = s'"
      using r reset unfolding receive_success [OF b(2)] by (simp add: w'_def BlorgPathCacheFollowFeed_def)
    ultimately show ?thesis
      using reset by (intro exI [of _ w']) (auto simp: batch_targets_def w'_def completed_fields)
  next
    case flush
    then have "s' = BlorgPathCacheInvalidateAll nls ?s"
      using r unfolding receive_success [OF b(2)] by (simp add: ChangeFeedApply_def)
    then show ?thesis
      using flush all by (intro exI [of _ ?all]) (auto simp: batch_targets_def completed_fields)
  next
    case precise
    then have "s' = fold (apply_entry nls) (CB_Entries b) ?s"
      using r unfolding receive_success [OF b(2)] by (simp add: ChangeFeedApply_def)
    then show ?thesis
      using apply_entries_run [OF w(1,2) b(1) [unfolded named_paths_def] w(3), of nls] precise
      by (auto simp: batch_targets_def)
  qed
qed

section \<open>What a precise batch leaves\<close>

lemma apply_entries_exact:
  assumes "path_inv nls s" "listing_inv nls ext s" "nls_ok nls" "Ready s" "list_all (\<lambda>e. CE_Path e \<noteq> []) es"
  shows "(\<forall>p. path_find nls p (fold (apply_entry nls) es s) =
           (if \<exists>e\<in>set es. covers_path nls (entry_target e) p then None else path_find nls p s)) \<and>
         (\<forall>p. listing_find nls p (fold (apply_entry nls) es s) =
           (if \<exists>e\<in>set es. covers_listing nls (entry_target e) p then None else listing_find nls p s))"
  using assms
proof (induction es arbitrary: s)
  case (Cons e es)
  let ?s = "apply_entry nls e s"
  have e: "CE_Path e \<noteq> []" using Cons.prems(5) by simp
  have "path_inv nls ?s \<and> listing_inv nls ext ?s \<and>
      (\<forall>p. path_find nls p ?s = (if covers_path nls (entry_target e) p then None else path_find nls p s)) \<and>
      (\<forall>p. listing_find nls p ?s = (if covers_listing nls (entry_target e) p then None else listing_find nls p s))"
    using BlorgPathCacheInvalidate_spec [OF Cons.prems(1-4) e refl] BlorgPathCacheInvalidatePrefix_spec [OF Cons.prems(1-4) e refl]
    by (cases "CE_Kind e = ChangeModified") (simp_all add: apply_entry_def entry_target_def)
  then show ?case
    using Cons.IH [of ?s] Cons.prems(3,5) apply_entry_fields(1) [OF Cons.prems(4) e] by simp
qed simp

section \<open>Notifications\<close>

lemma name_offset_split:
  assumes "path = dir @ backslash # name" "backslash \<notin> set name"
  shows "ChangeFeedNameOffset path = (if name = [] then 0 else 2 * (length dir + 1))"
  using last_separator_append [OF assms(2), of dir] assms(1) by (simp add: ChangeFeedNameOffset_def)

lemma name_offset_none:
  assumes "backslash \<notin> set path"
  shows "ChangeFeedNameOffset path = 0"
proof -
  let ?c = "last_separator path (length path)"
  have c: "?c \<le> length path" "?c \<noteq> 0 \<Longrightarrow> path ! (?c - 1) = backslash"
    using last_separator_bounds [of "length path" path] by auto
  have "?c = 0"
  proof (rule ccontr)
    assume "?c \<noteq> 0"
    then have "path ! (?c - 1) \<in> set path" using c(1) by (intro nth_mem) linarith
    then show False using c(2) \<open>?c \<noteq> 0\<close> assms by simp
  qed
  then show ?thesis by (simp add: ChangeFeedNameOffset_def)
qed

lemma notify_loop_reports:
  assumes "list_all (\<lambda>e. CE_Path e \<noteq> []) es"
  shows "map CR_Path (notify_loop es) = filter (\<lambda>p. last p \<noteq> backslash \<and> backslash \<in> set p) (map CE_Path es) \<and>
    list_all (\<lambda>r. \<exists>dir name. CR_Path r = dir @ backslash # name \<and> backslash \<notin> set name \<and> name \<noteq> [] \<and>
                  CR_NameOffset r = 2 * (length dir + 1)) (notify_loop es)"
  using assms
proof (induction es)
  case (Cons e es)
  show ?case
  proof (cases "backslash \<in> set (CE_Path e)")
    case False
    then show ?thesis using Cons name_offset_none by simp
  next
    case True
    then obtain dir name where p: "CE_Path e = dir @ backslash # name" "backslash \<notin> set name" by (meson split_list_last)
    then have "name \<noteq> [] \<Longrightarrow> last name \<noteq> backslash" using last_in_set by fastforce
    then show ?thesis using Cons p name_offset_split [OF p] by (cases "name = []") auto
  qed
qed simp

section \<open>Decoding\<close>

definition all_paths :: "(CHANGE_KIND \<times> UCHAR list list) list \<Rightarrow> UCHAR list list" where
  "all_paths ls = concat (map snd ls)"

definition over_limit :: "nat \<Rightarrow> nat \<Rightarrow> bool" where
  "over_limit count pathBytes \<longleftrightarrow> count > CHANGE_BATCH_MAX_ENTRIES \<or> pathBytes > CHANGE_BATCH_MAX_PATH_BYTES"

lemma all_paths_simps [simp]: "all_paths [] = []" "all_paths ((k, ps) # ls) = ps @ all_paths ls"
  by (simp_all add: all_paths_def)

lemma size_batch_reset: "size_batch ls True count pathBytes = (True, count, pathBytes)"
  by (cases ls) auto

text \<open>The sizing loop, which may stop early, decides as the totals do.\<close>

lemma size_batch_totals:
  assumes "\<not> over_limit count pathBytes"
  shows "\<exists>c p. size_batch ls False count pathBytes = (c, p) \<and>
     c = over_limit (count + length (all_paths ls)) (pathBytes + sum_list (map length (all_paths ls))) \<and>
     (\<not> c \<longrightarrow> p = (count + length (all_paths ls), pathBytes + sum_list (map length (all_paths ls))))"
  using assms
proof (induction ls arbitrary: count pathBytes)
  case (Cons l ls)
  obtain k ps where l: "l = (k, ps)" by fastforce
  let ?c = "count + length ps"
  let ?p = "if ?c \<le> CHANGE_BATCH_MAX_ENTRIES then pathBytes + sum_list (map length ps) else pathBytes"
  show ?case
  proof (cases "over_limit ?c ?p")
    case True
    then have "over_limit (count + length (all_paths (l # ls))) (pathBytes + sum_list (map length (all_paths (l # ls))))"
      by (auto simp: over_limit_def l split: if_splits)
    moreover have "size_batch (l # ls) False count pathBytes = (True, ?c, ?p)"
      using True by (simp add: l Let_def over_limit_def size_batch_reset)
    ultimately show ?thesis by auto
  next
    case False
    then have p: "?p = pathBytes + sum_list (map length ps)" by (auto simp: over_limit_def)
    have "size_batch (l # ls) False count pathBytes = size_batch ls False ?c ?p"
      using False p by (simp add: l Let_def over_limit_def)
    then show ?thesis using Cons.IH [OF False] unfolding p by (simp add: l add.assoc)
  qed
qed auto

lemma decode_change_path_Inr:
  assumes "decode_change_path utf8 path = Inr chars" "utf8_ok utf8"
  shows "chars \<noteq> []" "chars ! 0 = backslash" "0x2F \<notin> set chars" "length chars * 2 \<le> 65535" "length chars \<le> 1 + length path"
proof -
  obtain st cs where u: "(if path \<noteq> [] then utf8 (length path * 2) path else (STATUS_SUCCESS, [])) = (st, cs)" by fastforce
  have ok: "NT_SUCCESS st" "(1 + length cs) * 2 \<le> 65535" "chars = backslash # map (\<lambda>c. if c = 0x2F then backslash else c) cs"
    using assms(1) u by (auto simp: decode_change_path_def split: if_splits)
  then show "chars \<noteq> []" "chars ! 0 = backslash" "0x2F \<notin> set chars" "length chars * 2 \<le> 65535" by auto
  have "length cs \<le> length path" using u ok(1) assms(2) unfolding utf8_ok_def by (cases "path = []") (auto, metis fst_conv snd_conv)
  then show "length chars \<le> 1 + length path" using ok(3) by simp
qed

text \<open>Entries whose characters lie one after the other from \<open>at\<close> on, up to \<open>limit\<close>.\<close>

fun laid_out :: "nat \<Rightarrow> CHANGE_ENTRY list \<Rightarrow> nat \<Rightarrow> bool" where
  "laid_out at [] limit \<longleftrightarrow> at \<le> limit"
| "laid_out at (e # es) limit \<longleftrightarrow> at \<le> CE_At e \<and> laid_out (CE_At e + length (CE_Path e)) es limit"

lemma laid_out_append: "laid_out at es mid \<Longrightarrow> laid_out mid fs limit \<Longrightarrow> laid_out at (es @ fs) limit"
proof (induction es arbitrary: at)
  case Nil
  then show ?case by (cases fs) auto
qed auto

lemma laid_out_weaken: "laid_out at es limit \<Longrightarrow> limit \<le> limit' \<Longrightarrow> laid_out at es limit'"
  by (induction es arbitrary: at) auto

definition spelled :: "CHANGE_ENTRY \<Rightarrow> bool" where
  "spelled e \<longleftrightarrow> CE_Path e \<noteq> [] \<and> CE_Path e ! 0 = backslash \<and> 0x2F \<notin> set (CE_Path e) \<and> length (CE_Path e) * 2 \<le> 65535"

lemma decode_changes_Inr:
  assumes "decode_changes utf8 kind ps cursor = Inr (es, cursor')" "utf8_ok utf8"
  shows "map (\<lambda>e. (CE_Kind e, Inr (CE_Path e))) es = map (\<lambda>p. (kind, decode_change_path utf8 p)) ps \<and> list_all spelled es \<and>
     laid_out cursor es cursor' \<and> cursor \<le> cursor' \<and> cursor' \<le> cursor + length ps + sum_list (map length ps)"
  using assms
proof (induction ps arbitrary: cursor es cursor')
  case (Cons p ps)
  obtain chars es1 where d: "decode_change_path utf8 p = Inr chars"
    "decode_changes utf8 kind ps (cursor + length chars) = Inr (es1, cursor')" "es = \<lparr>CE_Path = chars, CE_Kind = kind, CE_At = cursor\<rparr> # es1"
    using Cons.prems(1) by (auto split: sum.splits)
  note c = decode_change_path_Inr [OF d(1) Cons.prems(2)]
  show ?case using Cons.IH [OF d(2) Cons.prems(2)] c d(1,3) by (auto simp: spelled_def)
qed simp

lemma decode_lists_Inr:
  assumes "decode_lists utf8 count ls entry cursor = Inr es" "utf8_ok utf8" "count = entry + length (all_paths ls)"
  shows "map (\<lambda>e. (CE_Kind e, Inr (CE_Path e))) es = concat (map (\<lambda>(k, ps). map (\<lambda>p. (k, decode_change_path utf8 p)) ps) ls) \<and>
     list_all spelled es \<and> laid_out cursor es (cursor + length (all_paths ls) + sum_list (map length (all_paths ls)))"
  using assms
proof (induction ls arbitrary: entry cursor es)
  case (Cons l ls)
  obtain k ps where l: "l = (k, ps)" by fastforce
  show ?case
  proof (cases "entry < count")
    case False
    then have "length (all_paths (l # ls)) = 0" using Cons.prems(3) by linarith
    then have "all_paths (l # ls) = []" by simp
    then have "\<forall>x\<in>set (l # ls). snd x = []" unfolding all_paths_def by fastforce
    then have "concat (map (\<lambda>(k, ps). map (\<lambda>p. (k, decode_change_path utf8 p)) ps) (l # ls)) = []" by (simp add: split_beta)
    moreover have "es = []" using Cons.prems(1) False by (simp add: l)
    ultimately show ?thesis by simp
  next
    case True
    obtain es1 c es2 where d: "decode_changes utf8 k ps cursor = Inr (es1, c)" "decode_lists utf8 count ls (entry + length ps) c = Inr es2"
      "es = es1 @ es2" using Cons.prems(1) True by (auto simp: l split: sum.splits)
    note i = decode_changes_Inr [OF d(1) Cons.prems(2)]
    have "count = entry + length ps + length (all_paths ls)" using Cons.prems(3) by (simp add: l)
    note j = Cons.IH [OF d(2) Cons.prems(2) this]
    have "laid_out cursor es (c + length (all_paths ls) + sum_list (map length (all_paths ls)))"
      unfolding d(3) using i j laid_out_append by blast
    then have "laid_out cursor es (cursor + length (all_paths (l # ls)) + sum_list (map length (all_paths (l # ls))))"
      by (rule laid_out_weaken) (use i in \<open>simp add: l\<close>)
    then show ?thesis using i j d(3) by (simp add: l)
  qed
qed simp

lemma laid_out_bounds:
  assumes "laid_out at es limit" "i < length es"
  shows "CE_At (es ! i) + length (CE_Path (es ! i)) \<le> limit"
    and "j < i \<Longrightarrow> CE_At (es ! j) + length (CE_Path (es ! j)) \<le> CE_At (es ! i)"
proof -
  have start: "at \<le> limit" if "laid_out at es limit" for at es using that
    by (induction es arbitrary: at) fastforce+
  have lo: "at \<le> CE_At (es ! i)" if "laid_out at es limit" "i < length es" for at es i using that
    by (induction es arbitrary: at i) (fastforce simp: nth_Cons split: nat.splits)+
  show "CE_At (es ! i) + length (CE_Path (es ! i)) \<le> limit"
    using assms by (induction es arbitrary: at i) (auto simp: nth_Cons dest: start split: nat.splits)
  show "j < i \<Longrightarrow> CE_At (es ! j) + length (CE_Path (es ! j)) \<le> CE_At (es ! i)"
    using assms by (induction es arbitrary: at i j) (auto simp: nth_Cons dest: lo split: nat.splits)
qed

section \<open>Polls\<close>

definition feed_ok :: "CHANGE_FEED_STATE \<Rightarrow> PATH_CACHE_STATE \<Rightarrow> bool" where
  "feed_ok cf s \<longleftrightarrow>
     (CF_Epoch cf \<noteq> 0 \<longrightarrow> ChangeFeedLive s) \<and>
     (CF_BackoffMs cf \<noteq> 0 \<longrightarrow>
        1000 \<le> unat (CF_BackoffMs cf) \<and> unat (CF_BackoffMs cf) \<le> 30000 \<and>
        \<not> ChangeFeedLive s \<and> CF_Epoch cf = 0 \<and> CF_Since cf = 0)"

lemma unat_double:
  assumes "unat ms \<le> 30000"
  shows "unat (ms * 2 :: ULONG) = unat ms * 2"
  using assms by (simp add: unat_word_ariths)

lemma next_backoff_unat:
  assumes "ms = 0 \<or> 1000 \<le> unat ms \<and> unat ms \<le> 30000"
  shows "unat (next_backoff ms) = (if ms = 0 then 1000 else min 30000 (unat ms * 2))"
  using assms unat_double [of ms]
  by (auto simp: next_backoff_def CHANGE_FEED_BACKOFF_MIN_MS_def CHANGE_FEED_BACKOFF_MAX_MS_def word_less_nat_alt)

lemma invalidate_all_live: "ChangeFeedLive (BlorgPathCacheInvalidateAll nls s) = ChangeFeedLive s"
  using listing_frameD(6) [OF DropUnder_frame]
  by (simp add: BlorgPathCacheInvalidateAll_def Let_def PathCacheAdvanceSequence_def)

lemma apply_entry_live: "ChangeFeedLive (apply_entry nls e s) = ChangeFeedLive s"
proof (cases "Ready s \<and> CE_Path e \<noteq> []")
  case True
  then show ?thesis using apply_entry_fields(3) by blast
qed (auto simp: apply_entry_def BlorgPathCacheInvalidate_def BlorgPathCacheInvalidatePrefix_def)

lemma apply_entries_live: "ChangeFeedLive (fold (apply_entry nls) es s) = ChangeFeedLive s"
  by (induction es arbitrary: s) (simp_all add: apply_entry_live)

lemma receive_feed:
  assumes "BlorgChangeFeedReceive nls status batch cf s = (reports, cf', s')"
  shows "CF_BackoffMs cf' = CF_BackoffMs cf"
    and "\<not> NT_SUCCESS status \<or> batch = None \<Longrightarrow> \<not> ChangeFeedLive s' \<and> CF_Epoch cf' = 0 \<and> CF_Since cf' = 0"
    and "CF_Epoch cf \<noteq> 0 \<longrightarrow> ChangeFeedLive s \<Longrightarrow> CF_Epoch cf' \<noteq> 0 \<longrightarrow> ChangeFeedLive s'"
  using assms
  by (auto simp: BlorgChangeFeedReceive_def BlorgPathCacheFollowFeed_def ChangeFeedApply_def Let_def
      invalidate_all_live apply_entries_live split: option.splits bool.splits if_splits prod.splits)

text \<open>The status and the batch a poll ends with.\<close>

definition poll_result :: "poll_outcome \<Rightarrow> CHANGE_FEED_STATE \<Rightarrow> NTSTATUS \<times> CHANGE_BATCH option" where
  "poll_result poll cf =
     (let (issued, answered, answer) = poll (CF_Epoch cf) (CF_Since cf)
      in if issued = STATUS_PENDING then (answered, answer) else (issued, None))"

lemma poll_ok:
  assumes "feed_ok cf s" "BlorgChangeFeedPoll nls poll cf s = (ms, reports, cf', s')"
  shows "feed_ok cf' s' \<and> ms = CF_BackoffMs cf' \<and> (ms = 0 \<longleftrightarrow> NT_SUCCESS (fst (poll_result poll cf))) \<and>
     (ms \<noteq> 0 \<longrightarrow> unat ms = (if CF_BackoffMs cf = 0 then 1000 else min 30000 (unat (CF_BackoffMs cf) * 2)))"
proof -
  obtain status batch where p: "poll_result poll cf = (status, batch)" by fastforce
  obtain cf1 where r: "BlorgChangeFeedReceive nls status batch cf s = (reports, cf1, s')"
    and c: "(ms, cf') = (if NT_SUCCESS status then (0, cf1\<lparr>CF_BackoffMs := 0\<rparr>)
      else (next_backoff (CF_BackoffMs cf1), cf1\<lparr>CF_BackoffMs := next_backoff (CF_BackoffMs cf1)\<rparr>))"
    using assms(2) p unfolding BlorgChangeFeedPoll_def poll_result_def Let_def
    by (auto split: prod.splits if_splits)
  note f = receive_feed [OF r]
  have b: "CF_BackoffMs cf = 0 \<or> 1000 \<le> unat (CF_BackoffMs cf) \<and> unat (CF_BackoffMs cf) \<le> 30000"
    using assms(1) by (auto simp: feed_ok_def)
  note n = next_backoff_unat [OF b]
  have nz: "next_backoff (CF_BackoffMs cf) \<noteq> 0" using n b by (auto simp: unat_eq_0 [symmetric] min_def split: if_splits)
  show ?thesis
  proof (cases "NT_SUCCESS status")
    case True
    then show ?thesis using c f(3) assms(1) p by (auto simp: feed_ok_def)
  next
    case False
    then have e: "ms = next_backoff (CF_BackoffMs cf)" "cf' = cf1\<lparr>CF_BackoffMs := ms\<rparr>" using c f(1) by auto
    have range: "1000 \<le> unat ms" "unat ms \<le> 30000" using n b by (auto simp: e(1))
    show ?thesis using f(2) False p e nz range n by (auto simp: feed_ok_def)
  qed
qed

lemma thread_ok:
  assumes "feed_ok cf s" "ChangeFeedThread nls waits cf s = (delays, cf', s')"
  shows "feed_ok cf' s' \<and> list_all (\<lambda>ms. ms = 0 \<or> 1000 \<le> unat ms \<and> unat ms \<le> 30000) delays"
  using assms
proof (induction waits arbitrary: cf s delays)
  case (Cons x waits)
  obtain stop poll where x: "x = (stop, poll)" by fastforce
  show ?case
  proof (cases stop)
    case True
    then show ?thesis using Cons.prems by (simp add: x)
  next
    case False
    obtain ms reports cf1 s1 where p: "BlorgChangeFeedPoll nls poll cf s = (ms, reports, cf1, s1)" by (metis prod_cases4)
    obtain rest where r: "ChangeFeedThread nls waits cf1 s1 = (rest, cf', s')" "delays = ms # rest"
      using Cons.prems(2) False p by (auto simp: x split: prod.splits)
    note q = poll_ok [OF Cons.prems(1) p]
    then show ?thesis using Cons.IH [OF conjunct1 [OF q] r(1)] r(2) by (auto simp: feed_ok_def)
  qed
qed simp

text \<open>Polls that all fail: the delays double from a second to half a minute.\<close>

definition failing :: "poll_outcome \<Rightarrow> bool" where
  "failing poll \<longleftrightarrow> (\<forall>epoch since. case poll epoch since of (issued, answered, _) \<Rightarrow>
     \<not> NT_SUCCESS (if issued = STATUS_PENDING then answered else issued))"

lemma thread_backoff:
  assumes "feed_ok cf s" "ChangeFeedThread nls (map (Pair False) polls) cf s = (delays, cf', s')" "list_all failing polls"
    and "unat (CF_BackoffMs cf) = (if k = 0 then 0 else min 30000 (1000 * 2 ^ (k - 1)))"
  shows "map unat delays = map (\<lambda>i. min 30000 (1000 * 2 ^ i)) [k..<k + length polls]"
  using assms
proof (induction polls arbitrary: cf s delays k)
  case (Cons poll polls)
  obtain ms reports cf1 s1 where p: "BlorgChangeFeedPoll nls poll cf s = (ms, reports, cf1, s1)" by (metis prod_cases4)
  obtain rest where r: "ChangeFeedThread nls (map (Pair False) polls) cf1 s1 = (rest, cf', s')" "delays = ms # rest"
    using Cons.prems(2) p by (auto split: prod.splits)
  note q = poll_ok [OF Cons.prems(1) p]
  have "\<not> NT_SUCCESS (fst (poll_result poll cf))"
    using Cons.prems(3) by (fastforce simp: failing_def poll_result_def Let_def split: prod.splits if_splits)
  then have nz: "ms \<noteq> 0" using q by blast
  have zero: "CF_BackoffMs cf = 0 \<longleftrightarrow> k = 0" using Cons.prems(4) by (auto simp: unat_eq_0 [symmetric] min_def split: if_splits)
  have step: "unat ms = (if CF_BackoffMs cf = 0 then 1000 else min 30000 (unat (CF_BackoffMs cf) * 2))" using q nz by blast
  have ms: "unat ms = min 30000 (1000 * 2 ^ k)"
    unfolding step using zero Cons.prems(4) by (cases k) (auto simp: min_def)
  have "map unat rest = map (\<lambda>i. min 30000 (1000 * 2 ^ i)) [Suc k..<Suc k + length polls]"
    by (rule Cons.IH [OF conjunct1 [OF q] r(1)]) (use Cons.prems(3) q ms in auto)
  moreover have "[k..<k + length (poll # polls)] = k # [Suc k..<Suc k + length polls]"
    by (simp add: upt_conv_Cons del: upt_Suc)
  ultimately show ?case using ms r(2) by (simp only: list.map)
qed simp

end
