(* ===== verification/Change_Feed_Theorems.thy ===== *)
theory Change_Feed_Theorems
  imports Change_Feed_Correct
begin

text \<open>
  The properties of the change feed: what a batch does to the path cache and the listing cache, what
  a decoded batch is, and what the polls leave behind.
\<close>

section \<open>A concrete batch\<close>

definition ex_batch :: CHANGE_BATCH where
  "ex_batch = \<lparr>CB_Epoch = 9, CB_Generation = 5,
     CB_Entries = [\<lparr>CE_Path = ex_upper, CE_Kind = ChangeModified, CE_At = 0\<rparr>], CB_Reset = False\<rparr>"

definition ex_feed :: CHANGE_FEED_STATE where
  "ex_feed = \<lparr>CF_Thread = True, CF_Volume = True, CF_Epoch = 9, CF_Since = 4, CF_BackoffMs = 0\<rparr>"

lemma ex_batch_ok:
  "named_paths ex_batch" "batch_targets ex_feed ex_batch = [One ex_upper]" "length (CB_Entries ex_batch) = 1"
  "structural_count (CB_Entries ex_batch) \<le> CHANGE_FEED_PRECISE_STRUCTURAL_MAX" "\<not> CB_Reset ex_batch" "CB_Epoch ex_batch = CF_Epoch ex_feed"
  by (simp_all add: named_paths_def ex_batch_def ex_paths batch_targets_def ex_feed_def CHANGE_FEED_PRECISE_STRUCTURAL_MAX_def entry_target_def)

lemma ex_inserted_idle: "W_Running ex_inserted 0 = None"
  by (simp add: ex_inserted_def ex_invalidated_def boot_fields)

section \<open>Claims\<close>

text \<open>C14. A reported change is never served stale. When the feed has acted on a batch, every path and
  every directory listing the batch covers (what its entries name; everything on a reset, on a batch
  of another server process, and past 64 created or removed paths) is answered from then on only from
  requests ticketed after the batch began to be applied, whatever other threads insert, publish, look
  up or invalidate meanwhile and however late an earlier answer arrives. The feed then follows the
  batch's server process from the batch's generation.\<close>

theorem change_batch_coherent:
  assumes "nls_ok nls" "cache_steps nls cache_boot w" "W_Running w k = None" "Ready (W_Cache w)"
    and "unat (Sequence (W_Cache w)) + length (CB_Entries b) < 2 ^ 64 - 1" "Generation (W_Cache w) \<noteq> - 1"
    and "named_paths b" "NT_SUCCESS status"
    and "BlorgChangeFeedReceive nls status (Some b) cf (W_Cache w) = (reports, cf', s')"
  shows "CF_Epoch cf' = CB_Epoch b \<and> CF_Since cf' = CB_Generation b \<and>
    (\<exists>w'. cache_steps nls w w' \<and> W_Cache w' = s' \<and>
      (\<forall>w1 w2 x p meta t now lifetime r meta' t'.
         cache_steps nls w' w1 \<and> cache_steps nls w1 w2 \<and> x \<in> set (batch_targets cf b) \<and> covers_path nls x p \<and>
         find_locked nls p meta t now lifetime (Generation (W_Cache w1)) (W_Cache w2) = (r, meta', t') \<and> r \<noteq> PathCacheMiss \<longrightarrow>
         (\<exists>e. path_find nls p (W_Cache w2) = Some e \<and> unat (Sequence (W_Cache w)) < unat (E_Sequence e))) \<and>
      (\<forall>w2 x dir allowStale t now lifetime generation r s2 a.
         cache_steps nls w' w2 \<and> x \<in> set (batch_targets cf b) \<and> covers_listing nls x dir \<and>
         lookup_listing_locked nls dir allowStale t now lifetime generation (W_Cache w2) = (r, s2) \<and> R_Listing r = Some a \<longrightarrow>
         unat (Sequence (W_Cache w)) < unat (T_Sequence (R_Ticket r))))"
proof -
  obtain w' where w': "cache_steps nls w w'" "W_Cache w' = s'"
    "\<forall>t\<in>set (batch_targets cf b). \<exists>iv\<in>W_Done w'. I_Target iv = t \<and> unat (Sequence (W_Cache w)) < I_Sequence iv"
    using receive_run [OF assms(3-9)] by blast
  have reach: "cache_steps nls cache_boot w'" by (rule rtranclp_trans [OF assms(2) w'(1)])
  have done_later: "\<exists>iv\<in>W_Done v. I_Target iv = x \<and> unat (Sequence (W_Cache w)) < I_Sequence iv"
    if "cache_steps nls w' v" "x \<in> set (batch_targets cf b)" for v x
    using w'(3) that cache_steps_monotone [OF that(1)] by blast
  have epoch: "CF_Epoch cf' = CB_Epoch b" "CF_Since cf' = CB_Generation b"
    using assms(9) unfolding receive_success [OF assms(8)] by (auto simp: Let_def split: prod.splits if_splits)
  have path: "\<exists>e. path_find nls p (W_Cache w2) = Some e \<and> unat (Sequence (W_Cache w)) < unat (E_Sequence e)"
    if h: "cache_steps nls w' w1" "cache_steps nls w1 w2" "x \<in> set (batch_targets cf b)" "covers_path nls x p"
      "find_locked nls p meta t now lifetime (Generation (W_Cache w1)) (W_Cache w2) = (r, meta', t')" "r \<noteq> PathCacheMiss"
    for w1 w2 x p meta t now lifetime r meta' t'
  proof -
    obtain iv where iv: "iv \<in> W_Done w1" "I_Target iv = x" "unat (Sequence (W_Cache w)) < I_Sequence iv"
      using done_later [OF h(1,3)] by blast
    have "covers_path nls (I_Target iv) p" using h(4) iv(2) by simp
    from found_locked_after [OF assms(1) rtranclp_trans [OF reach h(1)] iv(1) this h(2,5,6)]
    show ?thesis using iv(3) by auto
  qed
  have listing: "unat (Sequence (W_Cache w)) < unat (T_Sequence (R_Ticket r))"
    if h: "cache_steps nls w' w2" "x \<in> set (batch_targets cf b)" "covers_listing nls x dir"
      "lookup_listing_locked nls dir allowStale t now lifetime generation (W_Cache w2) = (r, s2)" "R_Listing r = Some a"
    for w2 x dir allowStale t now lifetime generation r s2 a
  proof -
    obtain iv where iv: "iv \<in> W_Done w2" "I_Target iv = x" "unat (Sequence (W_Cache w)) < I_Sequence iv"
      using done_later [OF h(1,2)] by blast
    have "covers_listing nls (I_Target iv) dir" using h(3) iv(2) by simp
    from listed_locked_after [OF assms(1) rtranclp_trans [OF reach h(1)] iv(1) this h(4,5)]
    show ?thesis using iv(3) by simp
  qed
  show ?thesis
    by (intro conjI exI [of _ w'] allI impI epoch w'(1,2); elim conjE; (rule path | rule listing); assumption)
qed

theorem change_batch_coherent_witness:
  "\<exists>reports cf' s' w'. BlorgChangeFeedReceive ascii_nls STATUS_SUCCESS (Some ex_batch) ex_feed (W_Cache ex_inserted) = (reports, cf', s') \<and>
     CF_Since cf' = 5 \<and> cache_steps ascii_nls ex_inserted w' \<and> W_Cache w' = s'"
proof -
  obtain reports cf' s' where r: "BlorgChangeFeedReceive ascii_nls STATUS_SUCCESS (Some ex_batch) ex_feed (W_Cache ex_inserted) = (reports, cf', s')"
    by (metis prod_cases3)
  have "unat (Sequence (W_Cache ex_inserted)) + length (CB_Entries ex_batch) < 2 ^ 64 - 1" "Generation (W_Cache ex_inserted) \<noteq> - 1"
    by (simp_all add: ex_inserted_fields ex_batch_ok)
  from change_batch_coherent [OF ascii_nls_ok ex_reached ex_inserted_idle ex_inserted_fields(6) this ex_batch_ok(1) _ r]
  have "CF_Since cf' = 5" "\<exists>w'. cache_steps ascii_nls ex_inserted w' \<and> W_Cache w' = s'" by (auto simp: ex_batch_def)
  then show ?thesis using r by blast
qed

text \<open>C34. A batch of the followed process with at most 64 created or removed paths is applied exactly:
  a path or a listing is gone afterwards if and only if some entry covers it (a modified path itself,
  a created or removed one with everything beneath it, and the listing of the parent in both cases),
  and everything else is found as before. Each entry but the root is reported once, in order, to the
  notification package, with the offset at which the path's last component starts.\<close>

theorem change_batch_exact:
  assumes "nls_ok nls" "cache_steps nls cache_boot w" "Ready (W_Cache w)" "named_paths b" "NT_SUCCESS status" "CF_Volume cf"
    and "\<not> CB_Reset b" "CB_Epoch b = CF_Epoch cf" "structural_count (CB_Entries b) \<le> CHANGE_FEED_PRECISE_STRUCTURAL_MAX"
    and "BlorgChangeFeedReceive nls status (Some b) cf (W_Cache w) = (reports, cf', s')"
  shows "(\<forall>p. path_find nls p s' =
            (if \<exists>x. x \<in> set (batch_targets cf b) \<and> covers_path nls x p then None else path_find nls p (W_Cache w))) \<and>
         (\<forall>p. listing_find nls p s' =
            (if \<exists>x. x \<in> set (batch_targets cf b) \<and> covers_listing nls x p then None else listing_find nls p (W_Cache w))) \<and>
         map CR_Path reports = filter (\<lambda>p. last p \<noteq> backslash \<and> backslash \<in> set p) (map CE_Path (CB_Entries b)) \<and>
         list_all (\<lambda>r. \<exists>dir name. CR_Path r = dir @ backslash # name \<and> backslash \<notin> set name \<and> name \<noteq> [] \<and>
                       CR_NameOffset r = 2 * (length dir + 1)) reports"
proof -
  have s': "s' = fold (apply_entry nls) (CB_Entries b) (W_Cache w)" and reports: "reports = notify_loop (CB_Entries b)"
    using assms(6-10) unfolding receive_success [OF assms(5)] by (simp_all add: ChangeFeedApply_def ChangeFeedNotify_def Let_def)
  have t: "batch_targets cf b = map entry_target (CB_Entries b)" using assms(7-9) by (simp add: batch_targets_def)
  show ?thesis
    using apply_entries_exact [OF reached_ok(1,2) [OF assms(1,2)] assms(1,3) assms(4) [unfolded named_paths_def]]
      notify_loop_reports [OF assms(4) [unfolded named_paths_def]]
    unfolding s' reports t by auto
qed

theorem change_batch_exact_witness:
  "\<exists>reports cf' s'. BlorgChangeFeedReceive ascii_nls STATUS_SUCCESS (Some ex_batch) ex_feed (W_Cache ex_inserted) = (reports, cf', s') \<and>
     path_find ascii_nls ex_path s' = None \<and> map CR_Path reports = [ex_upper]"
proof -
  obtain reports cf' s' where r: "BlorgChangeFeedReceive ascii_nls STATUS_SUCCESS (Some ex_batch) ex_feed (W_Cache ex_inserted) = (reports, cf', s')"
    by (metis prod_cases3)
  have "CF_Volume ex_feed" by (simp add: ex_feed_def)
  from change_batch_exact [OF ascii_nls_ok ex_reached ex_inserted_fields(6) ex_batch_ok(1) _ this ex_batch_ok(5,6,4) r]
  have "path_find ascii_nls ex_path s' = None" "map CR_Path reports = filter (\<lambda>p. last p \<noteq> backslash \<and> backslash \<in> set p) (map CE_Path (CB_Entries ex_batch))"
    using ex_paths(3) equal_sym [OF ex_paths(3)] by (auto simp: ex_batch_ok)
  then show ?thesis using r by (auto simp: ex_batch_def ex_upper_def)
qed

text \<open>The feed is only trusted while it works, and a server that is down costs a bounded number of
  requests. Over any polls, however they end, the feed follows a server process only while the caches
  are told it is live, and after a poll that failed it is not live and asks from the beginning again.
  Every wait is nothing or between one second and thirty; when every poll fails, the waits are 1, 2,
  4, 8, 16 seconds and 30 from then on.\<close>

theorem feed_polls:
  assumes "feed_ok cf s" "ChangeFeedThread nls waits cf s = (delays, cf', s')"
  shows "feed_ok cf' s' \<and> list_all (\<lambda>ms. ms = 0 \<or> 1000 \<le> unat ms \<and> unat ms \<le> 30000) delays \<and>
     (\<forall>polls. CF_BackoffMs cf = 0 \<and> waits = map (Pair False) polls \<and> list_all failing polls \<longrightarrow>
        map unat delays = map (\<lambda>i. min 30000 (1000 * 2 ^ i)) [0..<length polls])"
  using thread_ok [OF assms] thread_backoff [OF assms(1), of nls _ delays cf' s' 0] assms(2) by auto

lemma ex_feed_backoff: "CF_BackoffMs (ex_feed\<lparr>CF_Epoch := 0, CF_Since := 0\<rparr>) = 0"
  by (simp add: ex_feed_def)

theorem feed_polls_witness:
  "feed_ok (BlorgChangeFeedStart True True (ex_feed\<lparr>CF_Thread := False\<rparr>)) (W_Cache cache_boot) \<and>
   map unat (fst (ChangeFeedThread ascii_nls (map (Pair False) (replicate 7 (\<lambda>_ _. (STATUS_NOT_FOUND, 0, None))))
      (ex_feed\<lparr>CF_Epoch := 0, CF_Since := 0\<rparr>) (W_Cache cache_boot))) = [1000, 2000, 4000, 8000, 16000, 30000, 30000]"
proof -
  let ?polls = "replicate 7 (\<lambda>_ _. (STATUS_NOT_FOUND, 0, None)) :: poll_outcome list"
  let ?waits = "map (Pair False) ?polls"
  let ?cf = "ex_feed\<lparr>CF_Epoch := 0, CF_Since := 0\<rparr>"
  obtain delays cf' s' where r: "ChangeFeedThread ascii_nls ?waits ?cf (W_Cache cache_boot) = (delays, cf', s')" by (metis prod_cases3)
  have ok: "feed_ok ?cf (W_Cache cache_boot)" by (simp add: feed_ok_def ex_feed_def)
  have "list_all failing ?polls"
    by (simp add: list_all_iff failing_def status_defs NT_SUCCESS_def)
  then have "map unat delays = map (\<lambda>i. min 30000 (1000 * 2 ^ i)) [0..<7]"
    using feed_polls [OF ok r, THEN conjunct2, THEN conjunct2, rule_format, of ?polls] ex_feed_backoff by simp
  also have "\<dots> = [1000, 2000, 4000, 8000, 16000, 30000, 30000]" by (simp add: upt_rec)
  finally have "map unat (fst (ChangeFeedThread ascii_nls ?waits ?cf (W_Cache cache_boot))) = [1000, 2000, 4000, 8000, 16000, 30000, 30000]"
    unfolding r fst_conv .
  moreover have "feed_ok (BlorgChangeFeedStart True True (ex_feed\<lparr>CF_Thread := False\<rparr>)) (W_Cache cache_boot)"
    by (simp add: feed_ok_def BlorgChangeFeedStart_def ex_feed_def)
  ultimately show ?thesis by (rule conjI [rotated])
qed

text \<open>A decoded batch is what the server sent, inside one allocation. It is a reset with no entries
  exactly when the server said so or its entries or their bytes pass the limits; otherwise its entries
  are the modified, created and removed paths in order, each decoded, spelled with a leading and with
  separating backslashes and no slash, and fitting a UNICODE_STRING. Their characters lie one after
  the other, without overlap, inside the room that was allocated for them before any was converted.\<close>

theorem decoded_change_batch:
  assumes "utf8_ok utf8" "verify body = Some fb" "HttpDeserializeChangeBatch verify utf8 pool body = Inr b"
  shows "CB_Epoch b = fb_epoch fb \<and> CB_Generation b = fb_generation fb \<and> named_paths b \<and> list_all spelled (CB_Entries b) \<and>
     (CB_Reset b \<longleftrightarrow> fb_reset fb \<or> length (all_paths (batch_lists fb)) > 4096 \<or>
        sum_list (map length (all_paths (batch_lists fb))) > 1048576) \<and>
     (if CB_Reset b then CB_Entries b = []
      else map (\<lambda>e. (CE_Kind e, Inr (CE_Path e))) (CB_Entries b) =
             concat (map (\<lambda>(k, ps). map (\<lambda>p. (k, decode_change_path utf8 p)) ps) (batch_lists fb))) \<and>
     (\<forall>i j. i < length (CB_Entries b) \<longrightarrow>
        CE_At (CB_Entries b ! i) + length (CE_Path (CB_Entries b ! i)) \<le> batch_room fb \<and>
        (j < i \<longrightarrow> CE_At (CB_Entries b ! j) + length (CE_Path (CB_Entries b ! j)) \<le> CE_At (CB_Entries b ! i)))"
proof -
  obtain reset count bytes where z: "size_batch (batch_lists fb) (fb_reset fb) 0 0 = (reset, count, bytes)" by (metis prod_cases3)
  have dec: "decode_lists utf8 (if reset then 0 else count) (batch_lists fb) 0 0 = Inr (CB_Entries b)"
    and b: "CB_Epoch b = fb_epoch fb" "CB_Generation b = fb_generation fb" "CB_Reset b = reset"
    using assms(2,3) z by (auto simp: HttpDeserializeChangeBatch_def Let_def split: if_splits sum.splits)
  have "\<not> over_limit 0 0" by (simp add: over_limit_def)
  from size_batch_totals [OF this, of "batch_lists fb"]
  have reset: "reset \<longleftrightarrow> fb_reset fb \<or> over_limit (length (all_paths (batch_lists fb))) (sum_list (map length (all_paths (batch_lists fb))))"
    and total: "\<not> reset \<Longrightarrow> count = length (all_paths (batch_lists fb)) \<and> bytes = sum_list (map length (all_paths (batch_lists fb)))"
    using z size_batch_reset by (cases "fb_reset fb"; auto)+
  have entries: "reset \<Longrightarrow> CB_Entries b = []" using dec by (simp add: batch_lists_def)
  have room: "batch_room fb = (if reset then 0 else count + bytes)" using z by (simp add: batch_room_def)
  have main: "list_all spelled (CB_Entries b) \<and> laid_out 0 (CB_Entries b) (batch_room fb) \<and>
     (\<not> reset \<longrightarrow> map (\<lambda>e. (CE_Kind e, Inr (CE_Path e))) (CB_Entries b) =
        concat (map (\<lambda>(k, ps). map (\<lambda>p. (k, decode_change_path utf8 p)) ps) (batch_lists fb)))"
    using decode_lists_Inr [OF _ assms(1), of count "batch_lists fb" 0 0 "CB_Entries b"] dec total entries
    by (cases reset) (auto simp: room)
  then have "named_paths b" by (auto simp: named_paths_def list_all_iff spelled_def)
  then show ?thesis
    using main b reset entries laid_out_bounds [OF conjunct1 [OF conjunct2 [OF main]]]
    by (auto simp: over_limit_def CHANGE_BATCH_MAX_ENTRIES_def CHANGE_BATCH_MAX_PATH_BYTES_def)
qed

definition change_utf8 :: utf8_decoder where
  "change_utf8 room bytes = (if 2 * length bytes \<le> room then (STATUS_SUCCESS, map ucast bytes) else (STATUS_BUFFER_TOO_SMALL, []))"

definition ex_flat_batch :: flat_batch where
  "ex_flat_batch = \<lparr>fb_epoch = 9, fb_generation = 5, fb_reset = False, fb_modified = Some [[0x61, 0x2F, 0x62]],
     fb_created = None, fb_removed = Some [[]]\<rparr>"

lemma change_utf8_ok: "utf8_ok change_utf8"
  by (simp add: utf8_ok_def change_utf8_def)

theorem decoded_change_batch_witness:
  "\<exists>b. HttpDeserializeChangeBatch (\<lambda>_. Some ex_flat_batch) change_utf8 True [1] = Inr b \<and> named_paths b \<and>
     map CE_Path (CB_Entries b) = [[backslash, 0x61, backslash, 0x62], [backslash]]"
proof -
  have d: "HttpDeserializeChangeBatch (\<lambda>_. Some ex_flat_batch) change_utf8 True [1] =
     Inr \<lparr>CB_Epoch = 9, CB_Generation = 5,
          CB_Entries = [\<lparr>CE_Path = [backslash, 0x61, backslash, 0x62], CE_Kind = ChangeModified, CE_At = 0\<rparr>,
                        \<lparr>CE_Path = [backslash], CE_Kind = ChangeRemoved, CE_At = 4\<rparr>], CB_Reset = False\<rparr>"
    by (simp add: HttpDeserializeChangeBatch_def ex_flat_batch_def batch_lists_def CHANGE_BATCH_MAX_ENTRIES_def
      CHANGE_BATCH_MAX_PATH_BYTES_def decode_change_path_def change_utf8_def)
  from decoded_change_batch [OF change_utf8_ok _ d] show ?thesis using d by simp
qed

end
