(* ===== verification/Tls_Messages.thy ===== *)
theory Tls_Messages
  imports Blorg_Prelude
begin

unbundle bit_operations_syntax

text \<open>
  The byte-level half of the TLS client (Tls.c): the key schedule's labels, record nonces, the
  handshake messages it builds and parses, and the DER it reads from certificates and signatures.

  A message with its length is the list of its bytes. Every read goes through \<open>peek\<close> or \<open>rd\<close>
  and every write through \<open>poke\<close>, so that None is an access outside the message or the buffer and a
  status in the sum is what the code returns. Pointers into a message are offsets. Offsets are
  natural numbers where they are bounded by a message's 24-bit length, so that no ULONG sum of theirs
  wraps; the length of the server name, which the caller gives, is kept in 32 bits. HMAC-SHA256 is a
  parameter: the CNG provider behind it is not part of the repository.
\<close>

definition rd :: "UCHAR list \<Rightarrow> nat \<Rightarrow> UCHAR option" where
  "rd mem at = (if at < length mem then Some (mem ! at) else None)"

definition TLS_HASH_LEN :: nat where "TLS_HASH_LEN = 32"
definition TLS_IV_LEN :: nat where "TLS_IV_LEN = 12"
definition TLS_ECC_PUBKEY_LEN :: nat where "TLS_ECC_PUBKEY_LEN = 65"
definition TLS_SPKI_DER_LEN :: nat where "TLS_SPKI_DER_LEN = 91"
definition TLS_HANDSHAKE_RANDOM_LEN :: nat where "TLS_HANDSHAKE_RANDOM_LEN = 32"
definition TLS_CERT_VERIFY_CONTENT_LEN :: nat where "TLS_CERT_VERIFY_CONTENT_LEN = 130"

section \<open>Key schedule\<close>

type_synonym hmac = "UCHAR list \<Rightarrow> UCHAR list \<Rightarrow> NTSTATUS + UCHAR list"

definition BlorgTlsHkdfExtract :: "hmac \<Rightarrow> UCHAR list \<Rightarrow> UCHAR list \<Rightarrow> NTSTATUS + UCHAR list" where
  "BlorgTlsHkdfExtract hmac salt ikm = hmac salt ikm"

text \<open>
  The loop of BlorgTlsHkdfExpand: \<open>t\<close> is the previous block, empty before the first, \<open>out\<close> what has
  been written.
\<close>

function expand_loop ::
    "hmac \<Rightarrow> UCHAR list \<Rightarrow> UCHAR list \<Rightarrow> nat \<Rightarrow> UCHAR list \<Rightarrow> UCHAR list \<Rightarrow> nat \<Rightarrow> UCHAR \<Rightarrow> NTSTATUS + UCHAR list" where
  "expand_loop hmac prk info outLen t out generated counter =
     (if \<not> generated < outLen then Inr out
      else case hmac prk (t @ info @ [counter]) of
             Inl status \<Rightarrow> Inl status
           | Inr t' \<Rightarrow>
               let copyLen = (if outLen - generated < TLS_HASH_LEN then outLen - generated else TLS_HASH_LEN)
               in expand_loop hmac prk info outLen t' (out @ take copyLen t') (generated + copyLen) (counter + 1))"
  by pat_completeness auto
termination
  by (relation "measure (\<lambda>(hmac, prk, info, outLen, t, out, generated, counter). outLen - generated)") (auto simp: TLS_HASH_LEN_def)

declare expand_loop.simps [simp del]

definition BlorgTlsHkdfExpand :: "hmac \<Rightarrow> UCHAR list \<Rightarrow> UCHAR list \<Rightarrow> nat \<Rightarrow> NTSTATUS + UCHAR list" where
  "BlorgTlsHkdfExpand hmac prk info outLen =
     (if length info + TLS_HASH_LEN + 1 > 256 then Inl STATUS_INVALID_PARAMETER
      else expand_loop hmac prk info outLen [] [] 0 1)"

definition hkdf_label :: "UCHAR list \<Rightarrow> UCHAR list \<Rightarrow> ULONG \<Rightarrow> UCHAR list" where
  "hkdf_label label context len =
     [ucast (drop_bit 8 len), ucast (len AND 0xFF)] @ [of_nat (6 + length label)] @
     [0x74, 0x6C, 0x73, 0x31, 0x33, 0x20] @ label @ [of_nat (length context)] @ context"

definition BlorgTlsHkdfExpandLabel ::
    "hmac \<Rightarrow> UCHAR list \<Rightarrow> UCHAR list \<Rightarrow> UCHAR list \<Rightarrow> ULONG \<Rightarrow> NTSTATUS + UCHAR list" where
  "BlorgTlsHkdfExpandLabel hmac secret label context len =
     (if 6 + length label > 255 \<or> length context > 255 then Inl STATUS_INVALID_PARAMETER
      else BlorgTlsHkdfExpand hmac secret (hkdf_label label context len) (unat len))"

section \<open>Records\<close>

fun nonce_loop :: "ULONG64 \<Rightarrow> nat list \<Rightarrow> UCHAR list \<Rightarrow> UCHAR list" where
  "nonce_loop seqNum [] nonce = nonce"
| "nonce_loop seqNum (i # is) nonce =
     nonce_loop seqNum is
       (nonce[TLS_IV_LEN - 8 + i := nonce ! (TLS_IV_LEN - 8 + i) XOR ucast (drop_bit (8 * (7 - i)) seqNum)])"

definition TlsBuildNonce :: "UCHAR list \<Rightarrow> ULONG64 \<Rightarrow> UCHAR list" where
  "TlsBuildNonce staticIv seqNum = nonce_loop seqNum [0..<8] staticIv"

fun strip_loop :: "UCHAR list \<Rightarrow> nat \<Rightarrow> nat option" where
  "strip_loop plaintext 0 = Some 0"
| "strip_loop plaintext (Suc i) =
     (case rd plaintext i of
        None \<Rightarrow> None
      | Some b \<Rightarrow> if b = 0 then strip_loop plaintext i else Some (Suc i))"

text \<open>The content type and the length of the content before it, or FALSE.\<close>

definition BlorgTlsStripInnerPlaintext :: "UCHAR list \<Rightarrow> (UCHAR \<times> nat) option option" where
  "BlorgTlsStripInnerPlaintext plaintext =
     do {
       i \<leftarrow> strip_loop plaintext (length plaintext);
       (if i = 0 then Some None
        else do { contentType \<leftarrow> rd plaintext (i - 1); Some (Some (contentType, i - 1)) })
     }"

definition BlorgTlsConstantTimeEqual :: "UCHAR list \<Rightarrow> UCHAR list \<Rightarrow> bool" where
  "BlorgTlsConstantTimeEqual a b = (fold (\<lambda>(x, y) diff. diff OR (x XOR y)) (zip a b) 0 = 0)"

section \<open>Integers on the wire\<close>

definition TlsPutUint16 :: "USHORT \<Rightarrow> UCHAR list" where
  "TlsPutUint16 v = [ucast (drop_bit 8 v), ucast (v AND 0xFF)]"

definition TlsPutUint24 :: "ULONG \<Rightarrow> UCHAR list" where
  "TlsPutUint24 v = [ucast (drop_bit 16 v AND 0xFF), ucast (drop_bit 8 v AND 0xFF), ucast (v AND 0xFF)]"

definition TlsGetUint16 :: "UCHAR list \<Rightarrow> nat \<Rightarrow> USHORT option" where
  "TlsGetUint16 mem at = do { a \<leftarrow> rd mem at; b \<leftarrow> rd mem (at + 1); Some (push_bit 8 (ucast a) OR ucast b) }"

definition get_uint24 :: "UCHAR list \<Rightarrow> nat \<Rightarrow> ULONG option" where
  "get_uint24 mem at =
     do {
       a \<leftarrow> rd mem at; b \<leftarrow> rd mem (at + 1); c \<leftarrow> rd mem (at + 2);
       Some (push_bit 16 (ucast a) OR push_bit 8 (ucast b) OR ucast c)
     }"

section \<open>Public keys\<close>

definition spki_header :: "UCHAR list" where
  "spki_header = [0x30, 0x59, 0x30, 0x13, 0x06, 0x07, 0x2A, 0x86, 0x48, 0xCE, 0x3D, 0x02, 0x01,
     0x06, 0x08, 0x2A, 0x86, 0x48, 0xCE, 0x3D, 0x03, 0x01, 0x07, 0x03, 0x42, 0x00]"

definition BlorgTlsEncodeP256SubjectPublicKeyInfo :: "UCHAR list \<Rightarrow> UCHAR list" where
  "BlorgTlsEncodeP256SubjectPublicKeyInfo publicKey = spki_header @ publicKey"

definition BlorgTlsDecodeP256SubjectPublicKeyInfo :: "UCHAR list \<Rightarrow> (NTSTATUS + UCHAR list) option" where
  "BlorgTlsDecodeP256SubjectPublicKeyInfo der =
     (if length der \<noteq> TLS_SPKI_DER_LEN then Some (Inl STATUS_INVALID_PARAMETER)
      else do {
        header \<leftarrow> peek 0 (length spki_header) der;
        (if header \<noteq> spki_header then Some (Inl STATUS_INVALID_PARAMETER)
         else do {
           publicKey \<leftarrow> peek (length spki_header) TLS_ECC_PUBKEY_LEN der;
           first \<leftarrow> rd publicKey 0;
           (if first \<noteq> 0x04 then Some (Inl STATUS_INVALID_PARAMETER) else Some (Inr publicKey))
         })
      })"

section \<open>The ClientHello\<close>

text \<open>
  BlorgTlsBuildClientHello writes into a buffer of the caller; \<open>put_bytes\<close> puts bytes at an offset and
  moves it on. The two length fields left open are filled in at the end. \<open>serverName\<close> is empty for
  a NULL or empty name.
\<close>

definition put_bytes :: "UCHAR list \<Rightarrow> nat \<times> UCHAR list \<Rightarrow> (nat \<times> UCHAR list) option" where
  "put_bytes bytes st = (case st of (offset, buf) \<Rightarrow> map_option (Pair (offset + length bytes)) (poke offset bytes buf))"

definition server_name_extension :: "UCHAR list \<Rightarrow> UCHAR list" where
  "server_name_extension serverName =
     TlsPutUint16 0x0000 @ TlsPutUint16 (of_nat (2 + 1 + 2 + length serverName)) @
     TlsPutUint16 (of_nat (1 + 2 + length serverName)) @ [0x00] @ TlsPutUint16 (of_nat (length serverName)) @ serverName"

definition groups_extension :: "UCHAR list" where
  "groups_extension = TlsPutUint16 0x000A @ TlsPutUint16 4 @ TlsPutUint16 2 @ TlsPutUint16 0x0017"

definition key_share_extension :: "UCHAR list \<Rightarrow> UCHAR list" where
  "key_share_extension publicKey =
     TlsPutUint16 0x0033 @ TlsPutUint16 (of_nat (2 + (2 + 2 + TLS_ECC_PUBKEY_LEN))) @
     TlsPutUint16 (of_nat (2 + 2 + TLS_ECC_PUBKEY_LEN)) @ TlsPutUint16 0x0017 @ TlsPutUint16 (of_nat TLS_ECC_PUBKEY_LEN) @ publicKey"

definition versions_and_algorithms :: "UCHAR list" where
  "versions_and_algorithms =
     TlsPutUint16 0x002B @ TlsPutUint16 3 @ [2] @ TlsPutUint16 0x0304 @
     TlsPutUint16 0x000D @ TlsPutUint16 4 @ TlsPutUint16 2 @ TlsPutUint16 0x0403"

definition hello_fixed :: "UCHAR list \<Rightarrow> UCHAR list" where
  "hello_fixed random = [0x03, 0x03] @ random @ [0x00] @ TlsPutUint16 2 @ TlsPutUint16 0x1301 @ [0x01, 0x00]"

definition BlorgTlsBuildClientHello ::
    "UCHAR list \<Rightarrow> UCHAR list \<Rightarrow> UCHAR list \<Rightarrow> UCHAR list \<Rightarrow> (NTSTATUS + nat \<times> UCHAR list) option" where
  "BlorgTlsBuildClientHello random publicKey serverName buffer =
     (let bufferLen = length buffer
      in if bufferLen < 4 then Some (Inl STATUS_INVALID_PARAMETER)
         else do {
           (offset, buf) \<leftarrow> put_bytes [0x01] (0, buffer);
           let bodyStart = offset + 3;
           (if bodyStart + 2 + TLS_HANDSHAKE_RANDOM_LEN + 1 + 2 + 2 + 1 + 1 + 2 > bufferLen then Some (Inl STATUS_INVALID_PARAMETER)
            else do {
              (extensionsLenOffset, buf) \<leftarrow> put_bytes (hello_fixed random) (bodyStart, buf);
              let extensionsStart = extensionsLenOffset + 2;
              let nameLen = (of_nat (length serverName) :: ULONG);
              (if serverName \<noteq> [] \<and> unat (of_nat extensionsStart + 4 + (2 + 1 + 2 + nameLen) :: ULONG) > bufferLen
               then Some (Inl STATUS_INVALID_PARAMETER)
               else do {
                 (offset, buf) \<leftarrow> (if serverName \<noteq> [] then put_bytes (server_name_extension serverName) (extensionsStart, buf)
                                       else Some (extensionsStart, buf));
                 (if offset + 8 > bufferLen then Some (Inl STATUS_INVALID_PARAMETER)
                  else do {
                    (offset, buf) \<leftarrow> put_bytes groups_extension (offset, buf);
                    (if offset + 4 + (2 + (2 + 2 + TLS_ECC_PUBKEY_LEN)) > bufferLen then Some (Inl STATUS_INVALID_PARAMETER)
                     else do {
                       (offset, buf) \<leftarrow> put_bytes (key_share_extension publicKey) (offset, buf);
                       (if offset + 7 + 8 > bufferLen then Some (Inl STATUS_INVALID_PARAMETER)
                        else do {
                          (offset, buf) \<leftarrow> put_bytes versions_and_algorithms (offset, buf);
                          buf \<leftarrow> poke extensionsLenOffset (TlsPutUint16 (of_nat (offset - extensionsStart))) buf;
                          buf \<leftarrow> poke 1 (TlsPutUint24 (of_nat (offset - bodyStart))) buf;
                          Some (Inr (offset, buf))
                        })
                     })
                  })
               })
            })
         })"

end
