(* ===== verification/Tls_Parse.thy ===== *)
theory Tls_Parse
  imports Tls_Messages
begin

unbundle bit_operations_syntax

text \<open>
  The parsers of the TLS handshake (Tls.c): ServerHello, Certificate, CertificateVerify, and the DER
  inside the last two. As in the rest of the TLS theories, None is a read outside the message.
\<close>

type_synonym 'a parsed = "(NTSTATUS + 'a) option"

abbreviation refused :: "'a parsed" where
  "refused \<equiv> Some (Inl STATUS_INVALID_PARAMETER)"

section \<open>ServerHello\<close>

text \<open>
  The loop over the extensions up to \<open>extEnd\<close>; \<open>key\<close> is the public point found so far, None while
  foundKeyShare is FALSE.
\<close>

definition extension_value ::
    "UCHAR list \<Rightarrow> USHORT \<Rightarrow> nat \<Rightarrow> nat \<Rightarrow> bool \<Rightarrow> UCHAR list option \<Rightarrow> (bool \<times> UCHAR list option) parsed" where
  "extension_value msg extType extLen offset foundVersion key =
     (if extType = 0x002B
      then if extLen \<noteq> 2 then refused
           else do { v \<leftarrow> TlsGetUint16 msg offset; (if v \<noteq> 0x0304 then refused else Some (Inr (True, key))) }
      else if extType = 0x0033
      then if extLen \<noteq> 2 + 2 + TLS_ECC_PUBKEY_LEN then refused
           else do {
             group \<leftarrow> TlsGetUint16 msg offset;
             (if group \<noteq> 0x0017 then refused
              else do {
                keyLen \<leftarrow> TlsGetUint16 msg (offset + 2);
                (if unat keyLen \<noteq> TLS_ECC_PUBKEY_LEN then refused
                 else do {
                   point \<leftarrow> peek (offset + 4) TLS_ECC_PUBKEY_LEN msg;
                   first \<leftarrow> rd point 0;
                   (if first \<noteq> 0x04 then refused else Some (Inr (foundVersion, Some point)))
                 })
              })
           }
      else Some (Inr (foundVersion, key)))"

function server_extensions :: "UCHAR list \<Rightarrow> nat \<Rightarrow> nat \<Rightarrow> bool \<Rightarrow> UCHAR list option \<Rightarrow> (UCHAR list) parsed" where
  "server_extensions msg extEnd offset foundVersion key =
     (if offset + 4 \<le> extEnd
      then case (TlsGetUint16 msg offset, TlsGetUint16 msg (offset + 2)) of
             (Some extType, Some extLen) \<Rightarrow>
               if offset + 4 + unat extLen > extEnd then refused
               else (case extension_value msg extType (unat extLen) (offset + 4) foundVersion key of
                       Some (Inr (foundVersion', key')) \<Rightarrow>
                         server_extensions msg extEnd (offset + 4 + unat extLen) foundVersion' key'
                     | Some (Inl status) \<Rightarrow> Some (Inl status)
                     | None \<Rightarrow> None)
           | _ \<Rightarrow> None
      else if \<not> foundVersion then refused
      else case key of None \<Rightarrow> refused | Some point \<Rightarrow> Some (Inr point))"
  by pat_completeness auto
termination by (relation "measure (\<lambda>(msg, extEnd, offset, foundVersion, key). extEnd - offset)") auto

declare server_extensions.simps [simp del]

definition BlorgTlsParseServerHello :: "UCHAR list \<Rightarrow> (UCHAR list \<times> UCHAR list) parsed" where
  "BlorgTlsParseServerHello msg =
     (if length msg < 2 + TLS_HANDSHAKE_RANDOM_LEN + 1 + 2 + 1 + 2 then refused
      else do {
        random \<leftarrow> peek 2 TLS_HANDSHAKE_RANDOM_LEN msg;
        sessionIdLen \<leftarrow> rd msg (2 + TLS_HANDSHAKE_RANDOM_LEN);
        let offset = 2 + TLS_HANDSHAKE_RANDOM_LEN + 1;
        (if offset + unat sessionIdLen > length msg then refused
         else do {
           let offset = offset + unat sessionIdLen;
           (if offset + 2 > length msg then refused
            else do {
              suite \<leftarrow> TlsGetUint16 msg offset;
              (if suite \<noteq> 0x1301 then refused
               else do {
                 let offset = offset + 2 + 1;
                 (if offset + 2 > length msg then refused
                  else do {
                    extensionsLen \<leftarrow> TlsGetUint16 msg offset;
                    let offset = offset + 2;
                    (if offset + unat extensionsLen > length msg then refused
                     else case server_extensions msg (offset + unat extensionsLen) offset False None of
                            None \<Rightarrow> None
                          | Some (Inl status) \<Rightarrow> Some (Inl status)
                          | Some (Inr point) \<Rightarrow> Some (Inr (random, point)))
                  })
               })
            })
         })
      })"

section \<open>Certificate\<close>

text \<open>The result is where the leaf certificate starts in the message, and its length.\<close>

definition BlorgTlsParseCertificateMessage :: "UCHAR list \<Rightarrow> (nat \<times> nat) parsed" where
  "BlorgTlsParseCertificateMessage msg =
     (if length msg < 1 then refused
      else do {
        contextLen \<leftarrow> rd msg 0;
        let offset = 1 + unat contextLen;
        (if offset + 3 > length msg then refused
         else do {
           certListLen \<leftarrow> get_uint24 msg offset;
           let offset = offset + 3;
           (if unat certListLen < 3 \<or> offset + unat certListLen > length msg then refused
            else do {
              certDataLen \<leftarrow> get_uint24 msg offset;
              let offset = offset + 3;
              (if offset + unat certDataLen > length msg then refused
               else Some (Inr (offset, unat certDataLen)))
            })
         })
      })"

section \<open>DER\<close>

text \<open>
  The length octets both TLV readers go through, at \<open>p\<close> before \<open>e\<close>: the outer option is a read
  outside memory, the inner one FALSE. The result is the length and where the value starts.
\<close>

definition der_length :: "UCHAR list \<Rightarrow> nat \<Rightarrow> nat \<Rightarrow> (ULONG \<times> nat) option option" where
  "der_length mem p e =
     (if p \<ge> e then Some None
      else do {
        b \<leftarrow> rd mem p;
        (if b AND 0x80 = 0
         then Some (if e - (p + 1) < unat b then None else Some (ucast b, p + 1))
         else let lenBytes = unat (b AND 0x7F)
              in if lenBytes = 0 \<or> lenBytes > 2 \<or> e - (p + 1) < lenBytes then Some None
                 else do {
                   bytes \<leftarrow> peek (p + 1) lenBytes mem;
                   let len = foldl (\<lambda>len c. push_bit 8 len OR ucast c) (0 :: ULONG) bytes;
                   Some (if e - (p + 1 + lenBytes) < unat len then None else Some (len, p + 1 + lenBytes))
                 })
      })"

text \<open>On success, where the value starts and its length.\<close>

definition TlsDerReadTlv :: "UCHAR list \<Rightarrow> nat \<Rightarrow> nat \<Rightarrow> UCHAR \<Rightarrow> (nat \<times> nat) option option" where
  "TlsDerReadTlv mem p e expectedTag =
     (if p \<ge> e then Some None
      else do {
        tag \<leftarrow> rd mem p;
        (if tag \<noteq> expectedTag then Some None
         else do {
           r \<leftarrow> der_length mem (p + 1) e;
           Some (map_option (\<lambda>(len, q). (q, unat len)) r)
         })
      })"

text \<open>On success, where the next element starts.\<close>

definition TlsDerSkipTlv :: "UCHAR list \<Rightarrow> nat \<Rightarrow> nat \<Rightarrow> nat option option" where
  "TlsDerSkipTlv mem p e =
     (if p \<ge> e then Some None
      else do {
        r \<leftarrow> der_length mem (p + 1) e;
        Some (map_option (\<lambda>(len, q). q + unat len) r)
      })"

fun skip_fields :: "nat \<Rightarrow> UCHAR list \<Rightarrow> nat \<Rightarrow> nat \<Rightarrow> nat option option" where
  "skip_fields 0 mem p e = Some (Some p)"
| "skip_fields (Suc n) mem p e =
     (case TlsDerSkipTlv mem p e of
        None \<Rightarrow> None
      | Some None \<Rightarrow> Some None
      | Some (Some q) \<Rightarrow> skip_fields n mem q e)"

text \<open>The optional version field, which is skipped when its tag is there.\<close>

definition skip_version :: "UCHAR list \<Rightarrow> nat \<Rightarrow> nat \<Rightarrow> nat option option" where
  "skip_version mem p e =
     (if p < e
      then do { tag \<leftarrow> rd mem p; (if tag = 0xA0 then TlsDerSkipTlv mem p e else Some (Some p)) }
      else Some (Some p))"

definition BlorgTlsExtractSpkiFromCertificate :: "UCHAR list \<Rightarrow> (nat \<times> nat) parsed" where
  "BlorgTlsExtractSpkiFromCertificate cert =
     (case TlsDerReadTlv cert 0 (length cert) 0x30 of
        None \<Rightarrow> None | Some None \<Rightarrow> refused
      | Some (Some (p, len)) \<Rightarrow>
     (case TlsDerReadTlv cert p (length cert) 0x30 of
        None \<Rightarrow> None | Some None \<Rightarrow> refused
      | Some (Some (p, len)) \<Rightarrow>
          let tbsEnd = p + len
          in (case skip_version cert p tbsEnd of
                None \<Rightarrow> None | Some None \<Rightarrow> refused
              | Some (Some p) \<Rightarrow>
             (case skip_fields 5 cert p tbsEnd of
                None \<Rightarrow> None | Some None \<Rightarrow> refused
              | Some (Some spkiStart) \<Rightarrow>
             (case TlsDerReadTlv cert spkiStart tbsEnd 0x30 of
                None \<Rightarrow> None | Some None \<Rightarrow> refused
              | Some (Some (p, len)) \<Rightarrow> Some (Inr (spkiStart, p + len - spkiStart)))))))"

section \<open>CertificateVerify\<close>

text \<open>An INTEGER of the signature with the sign octet taken off, padded to 32 bytes.\<close>

definition signature_half :: "UCHAR list \<Rightarrow> nat \<Rightarrow> nat \<Rightarrow> (UCHAR list option) option" where
  "signature_half msg start len =
     do {
       first \<leftarrow> (if len = 33 then rd msg start else Some 1);
       let (start, len) = (if len = 33 \<and> first = 0 then (start + 1, len - 1) else (start, len));
       (if len > 32 \<or> len = 0 then Some None
        else do { bytes \<leftarrow> peek start len msg; Some (Some (replicate (32 - len) 0 @ bytes)) })
     }"

definition BlorgTlsParseCertificateVerifyMessage :: "UCHAR list \<Rightarrow> (UCHAR list) parsed" where
  "BlorgTlsParseCertificateVerifyMessage msg =
     (if length msg < 4 then refused
      else do {
        scheme \<leftarrow> TlsGetUint16 msg 0;
        (if scheme \<noteq> 0x0403 then refused
         else do {
           sigLen \<leftarrow> TlsGetUint16 msg 2;
           (if 4 + unat sigLen \<noteq> length msg then refused
            else (case TlsDerReadTlv msg 4 (4 + unat sigLen) 0x30 of
                    None \<Rightarrow> None | Some None \<Rightarrow> refused
                  | Some (Some (p, seqLen)) \<Rightarrow>
                 (case TlsDerReadTlv msg p (p + seqLen) 0x02 of
                    None \<Rightarrow> None | Some None \<Rightarrow> refused
                  | Some (Some (rStart, rLen)) \<Rightarrow>
                 (case TlsDerReadTlv msg (rStart + rLen) (p + seqLen) 0x02 of
                    None \<Rightarrow> None | Some None \<Rightarrow> refused
                  | Some (Some (sStart, sLen)) \<Rightarrow>
                      (case (signature_half msg rStart rLen, signature_half msg sStart sLen) of
                         (Some (Some r), Some (Some s)) \<Rightarrow> Some (Inr (r @ s))
                       | (Some _, Some _) \<Rightarrow> refused
                       | _ \<Rightarrow> None)))))
         })
      })"

definition cert_verify_context :: "UCHAR list" where
  "cert_verify_context =
     [0x54, 0x4c, 0x53, 0x20, 0x31, 0x2e, 0x33, 0x2c, 0x20, 0x73, 0x65, 0x72,
      0x76, 0x65, 0x72, 0x20, 0x43, 0x65, 0x72, 0x74, 0x69, 0x66, 0x69, 0x63,
      0x61, 0x74, 0x65, 0x56, 0x65, 0x72, 0x69, 0x66, 0x79]"

definition BlorgTlsBuildServerCertVerifyContent :: "UCHAR list \<Rightarrow> NTSTATUS + UCHAR list" where
  "BlorgTlsBuildServerCertVerifyContent transcriptHash =
     (let content = replicate 64 0x20 @ cert_verify_context @ [0x00] @ transcriptHash
      in if length content = TLS_CERT_VERIFY_CONTENT_LEN then Inr content else Inl STATUS_INVALID_PARAMETER)"

end
