(* ===== verification/Tls_Correct.thy ===== *)
theory Tls_Correct
  imports Tls_Parse
begin

unbundle bit_operations_syntax

text \<open>
  The TLS parsers stay inside their messages, read back what a reference encoder writes, and the
  ClientHello is the message its fields describe.
\<close>

section \<open>Reads\<close>

lemma rd_Some [simp]: "at < length mem \<Longrightarrow> rd mem at = Some (mem ! at)"
  by (simp add: rd_def)

lemma rd_append: "rd (xs @ y # ys) (length xs) = Some y"
  by (simp add: rd_def)

lemma peek_Some: "at + n \<le> length mem \<Longrightarrow> peek at n mem = Some (take n (drop at mem))"
  by (simp add: peek_def)

lemma get16_Some: "at + 2 \<le> length mem \<Longrightarrow> \<exists>v. TlsGetUint16 mem at = Some v"
  by (simp add: TlsGetUint16_def)

lemma get24_Some: "at + 3 \<le> length mem \<Longrightarrow> \<exists>v. get_uint24 mem at = Some v"
  by (simp add: get_uint24_def)

section \<open>Bounds of the DER readers\<close>

text \<open>A result of one of the readers: it did not read outside, and what it found lies before \<open>e\<close>.\<close>

definition span_ok :: "nat \<Rightarrow> nat \<Rightarrow> (nat \<times> nat) option option \<Rightarrow> bool" where
  "span_ok p e r \<longleftrightarrow> r \<noteq> None \<and> (\<forall>q len. r = Some (Some (q, len)) \<longrightarrow> p < q \<and> q + len \<le> e)"

definition place_ok :: "nat \<Rightarrow> nat \<Rightarrow> nat option option \<Rightarrow> bool" where
  "place_ok p e r \<longleftrightarrow> r \<noteq> None \<and> (\<forall>q. r = Some (Some q) \<longrightarrow> p \<le> q \<and> q \<le> e)"

lemma der_length_ok:
  assumes "e \<le> length mem"
  shows "der_length mem p e \<noteq> None \<and> (\<forall>len q. der_length mem p e = Some (Some (len, q)) \<longrightarrow> p < q \<and> q + unat len \<le> e)"
proof (cases "p \<ge> e")
  case True
  then show ?thesis by (simp add: der_length_def)
next
  case False
  then have rd: "rd mem p = Some (mem ! p)" using assms by simp
  have up: "unat (ucast (mem ! p) :: ULONG) = unat (mem ! p)" by (simp add: unat_ucast_up)
  let ?n = "unat (mem ! p AND 0x7F)"
  have pk: "\<exists>bytes. peek (p + 1) ?n mem = Some bytes" if "\<not> e - (p + 1) < ?n"
    using that False assms by (simp add: peek_def)
  show ?thesis
    using False rd up pk by (auto simp: der_length_def Let_def split: if_splits)
qed

lemma TlsDerReadTlv_ok:
  assumes "e \<le> length mem"
  shows "span_ok p e (TlsDerReadTlv mem p e tag)"
  using der_length_ok [OF assms, of "p + 1"] assms
  by (cases "der_length mem (p + 1) e") (auto simp: span_ok_def TlsDerReadTlv_def)

lemma TlsDerSkipTlv_ok:
  assumes "e \<le> length mem"
  shows "place_ok p e (TlsDerSkipTlv mem p e)"
  using der_length_ok [OF assms, of "p + 1"]
  by (cases "der_length mem (p + 1) e") (fastforce simp: place_ok_def TlsDerSkipTlv_def)+

lemma skip_fields_ok:
  assumes "e \<le> length mem" "p \<le> e"
  shows "place_ok p e (skip_fields n mem p e)"
  using assms(2)
proof (induction n arbitrary: p)
  case (Suc n)
  note s = TlsDerSkipTlv_ok [OF assms(1), of p]
  then obtain r where r: "TlsDerSkipTlv mem p e = Some r" by (auto simp: place_ok_def)
  show ?case
  proof (cases r)
    case None
    then show ?thesis using r by (simp add: place_ok_def)
  next
    case (Some q)
    then have "p \<le> q" "q \<le> e" using s r by (auto simp: place_ok_def)
    then show ?thesis using Suc.IH [of q] r Some by (auto simp: place_ok_def)
  qed
qed (simp add: place_ok_def)

lemma skip_version_ok:
  assumes "e \<le> length mem" "p \<le> e"
  shows "place_ok p e (skip_version mem p e)"
  using TlsDerSkipTlv_ok [OF assms(1), of p] assms by (auto simp: skip_version_def place_ok_def)

lemma span_cases:
  assumes "span_ok p e r"
  obtains "r = Some None" | q len where "r = Some (Some (q, len))" "p < q" "q + len \<le> e"
  using assms by (cases r; cases "the r") (auto simp: span_ok_def)

lemma place_cases:
  assumes "place_ok p e r"
  obtains "r = Some None" | q where "r = Some (Some q)" "p \<le> q" "q \<le> e"
  using assms by (cases r; cases "the r") (auto simp: place_ok_def)

lemma extract_spki_ok:
  "BlorgTlsExtractSpkiFromCertificate cert \<noteq> None \<and>
   (\<forall>at len. BlorgTlsExtractSpkiFromCertificate cert = Some (Inr (at, len)) \<longrightarrow> at + len \<le> length cert)"
  (is ?goal)
proof -
  note D = BlorgTlsExtractSpkiFromCertificate_def
  from TlsDerReadTlv_ok [of "length cert" cert 0 "0x30", OF order_refl] show ?goal
  proof (cases rule: span_cases)
    case 1
    then show ?goal by (simp add: D)
  next
    case (2 p1 l1)
    note outer = 2
    from TlsDerReadTlv_ok [of "length cert" cert p1 "0x30", OF order_refl] show ?goal
    proof (cases rule: span_cases)
      case 1
      then show ?goal using outer by (simp add: D)
    next
      case (2 p l)
      note tbs = 2
      have "p \<le> p + l" by simp
      from skip_version_ok [OF tbs(3) this] show ?goal
      proof (cases rule: place_cases)
        case 1
        then show ?goal using outer tbs by (simp add: D)
      next
        case (2 v)
        note version = 2
        from skip_fields_ok [OF tbs(3) version(3), of 5] show ?goal
        proof (cases rule: place_cases)
          case 1
          then show ?goal using outer tbs version by (simp add: D)
        next
          case (2 k)
          note fields = 2
          from TlsDerReadTlv_ok [OF tbs(3), of k "0x30"] show ?goal
            by (cases rule: span_cases) (use outer tbs version fields in \<open>auto simp: D\<close>)
        qed
      qed
    qed
  qed
qed

section \<open>Bounds of the message parsers\<close>

lemma certificate_message_ok:
  "BlorgTlsParseCertificateMessage msg \<noteq> None \<and>
   (\<forall>at len. BlorgTlsParseCertificateMessage msg = Some (Inr (at, len)) \<longrightarrow> at + len \<le> length msg)"
proof -
  have rd: "rd msg 0 = Some (msg ! 0)" if "\<not> length msg < 1" using that by simp
  let ?o = "1 + unat (msg ! 0)"
  show ?thesis
  proof (cases "length msg < 1 \<or> ?o + 3 > length msg")
    case True
    then show ?thesis using rd by (auto simp: BlorgTlsParseCertificateMessage_def)
  next
    case False
    then obtain l where l: "get_uint24 msg ?o = Some l" using get24_Some [of ?o msg] by auto
    have "\<exists>d. get_uint24 msg (?o + 3) = Some d" if "\<not> (unat l < 3 \<or> ?o + 3 + unat l > length msg)"
      using that by (intro get24_Some) linarith
    then show ?thesis
      using rd l False unfolding BlorgTlsParseCertificateMessage_def Let_def by (auto split: if_splits)
  qed
qed

lemma signature_half_ok:
  assumes "start + len \<le> length msg"
  shows "\<exists>r. signature_half msg start len = Some r \<and> (\<forall>bytes. r = Some bytes \<longrightarrow> length bytes = 32)"
proof (cases "len = 33 \<and> msg ! start = 0")
  case True
  then show ?thesis using assms by (auto simp: signature_half_def peek_def Let_def)
next
  case False
  then have "(do { first \<leftarrow> (if len = 33 then rd msg start else Some 1);
      Some (if len = 33 \<and> first = 0 then (start + 1, len - 1) else (start, len)) }) = Some (start, len)"
    using assms by auto
  then show ?thesis using assms False by (auto simp: signature_half_def peek_def Let_def)
qed

lemma certificate_verify_ok:
  "BlorgTlsParseCertificateVerifyMessage msg \<noteq> None \<and>
   (\<forall>raw. BlorgTlsParseCertificateVerifyMessage msg = Some (Inr raw) \<longrightarrow> length raw = 64)"
proof (cases "length msg < 4")
  case True
  then show ?thesis by (simp add: BlorgTlsParseCertificateVerifyMessage_def)
next
  case False
  then obtain a l where a: "TlsGetUint16 msg 0 = Some a" and l: "TlsGetUint16 msg 2 = Some l"
    using get16_Some [of 0 msg] get16_Some [of 2 msg] by auto
  show ?thesis
  proof (cases "a = 0x0403 \<and> 4 + unat l = length msg")
    case False
    then show ?thesis using \<open>\<not> length msg < 4\<close> a l by (auto simp: BlorgTlsParseCertificateVerifyMessage_def)
  next
    case True
    then have e: "4 + unat l \<le> length msg" by simp
    have run: "BlorgTlsParseCertificateVerifyMessage msg =
       (case TlsDerReadTlv msg 4 (4 + unat l) 0x30 of
          None \<Rightarrow> None | Some None \<Rightarrow> refused
        | Some (Some (p, seqLen)) \<Rightarrow>
       (case TlsDerReadTlv msg p (p + seqLen) 0x02 of
          None \<Rightarrow> None | Some None \<Rightarrow> refused
        | Some (Some (rStart, rLen)) \<Rightarrow>
       (case TlsDerReadTlv msg (rStart + rLen) (p + seqLen) 0x02 of
          None \<Rightarrow> None | Some None \<Rightarrow> refused
        | Some (Some (sStart, sLen)) \<Rightarrow>
            (case (signature_half msg rStart rLen, signature_half msg sStart sLen) of
               (Some (Some r), Some (Some s)) \<Rightarrow> Some (Inr (r @ s))
             | (Some _, Some _) \<Rightarrow> refused
             | _ \<Rightarrow> None))))"
      using \<open>\<not> length msg < 4\<close> a l True by (simp add: BlorgTlsParseCertificateVerifyMessage_def)
    from TlsDerReadTlv_ok [OF e, of 4 "0x30"] show ?thesis
    proof (cases rule: span_cases)
      case 1
      then show ?thesis using run by simp
    next
      case (2 p n)
      note 1 = 2
      then have e1: "p + n \<le> length msg" using e by simp
      from TlsDerReadTlv_ok [OF e1, of p "0x02"] show ?thesis
      proof (cases rule: span_cases)
        case 1
        then show ?thesis using run \<open>TlsDerReadTlv msg 4 _ _ = _\<close> by simp
      next
        case (2 r rl)
        note half = 2
        from TlsDerReadTlv_ok [OF e1, of "r + rl" "0x02"] show ?thesis
        proof (cases rule: span_cases)
          case s: 1
          then show ?thesis using run 1 half by simp
        next
          case (2 s sl)
          note 3 = 2
          have "r + rl \<le> length msg" "s + sl \<le> length msg" using half(3) 3(3) e1 by simp_all
          from signature_half_ok [OF this(1)] signature_half_ok [OF this(2)]
          obtain x y where halves: "signature_half msg r rl = Some x" "signature_half msg s sl = Some y"
            and len: "\<forall>b. x = Some b \<longrightarrow> length b = 32" "\<forall>b. y = Some b \<longrightarrow> length b = 32" by blast
          have "BlorgTlsParseCertificateVerifyMessage msg =
             (case (x, y) of (Some r, Some s) \<Rightarrow> Some (Inr (r @ s)) | _ \<Rightarrow> refused)"
            using run by (cases x; cases y) (simp_all add: 1 half 3 halves)
          then show ?thesis using len by (cases x; cases y) simp_all
        qed
      qed
    qed
  qed
qed

definition point_ok :: "UCHAR list \<Rightarrow> bool" where
  "point_ok point \<longleftrightarrow> length point = TLS_ECC_PUBKEY_LEN \<and> point ! 0 = 0x04"

lemma extension_value_ok:
  assumes "offset + extLen \<le> length msg" "\<forall>k. key = Some k \<longrightarrow> point_ok k"
  shows "\<exists>r. extension_value msg t extLen offset found key = Some r \<and>
     (\<forall>f k. r = Inr (f, Some k) \<longrightarrow> point_ok k)"
proof -
  consider "t = 0x2B" "extLen = 2" | "t = 0x33" "extLen = 2 + 2 + TLS_ECC_PUBKEY_LEN"
    | "t = 0x2B \<and> extLen \<noteq> 2 \<or> t = 0x33 \<and> extLen \<noteq> 2 + 2 + TLS_ECC_PUBKEY_LEN \<or> t \<noteq> 0x2B \<and> t \<noteq> 0x33" by blast
  then show ?thesis
  proof cases
    case 1
    then show ?thesis using get16_Some [of offset msg] assms by (auto simp: extension_value_def)
  next
    case 2
    have l: "offset + 69 \<le> length msg" using 2 assms(1) by (simp add: TLS_ECC_PUBKEY_LEN_def)
    obtain g k where g: "TlsGetUint16 msg offset = Some g" "TlsGetUint16 msg (offset + 2) = Some k"
      using get16_Some [of offset msg] get16_Some [of "offset + 2" msg] l by auto
    define pt where "pt = take TLS_ECC_PUBKEY_LEN (drop (offset + 4) msg)"
    have pk: "peek (offset + 4) TLS_ECC_PUBKEY_LEN msg = Some pt" using l by (simp add: peek_def pt_def TLS_ECC_PUBKEY_LEN_def)
    have pt: "length pt = TLS_ECC_PUBKEY_LEN" using l by (simp add: pt_def TLS_ECC_PUBKEY_LEN_def)
    then have "rd pt 0 = Some (pt ! 0)" by (simp add: TLS_ECC_PUBKEY_LEN_def)
    then show ?thesis using 2 g pk pt by (auto simp: extension_value_def point_ok_def)
  next
    case 3
    then show ?thesis using assms(2) by (auto simp: extension_value_def)
  qed
qed

lemma server_extensions_ok:
  assumes "extEnd \<le> length msg" "\<forall>k. key = Some k \<longrightarrow> point_ok k"
  shows "\<exists>r. server_extensions msg extEnd offset found key = Some r \<and> (\<forall>k. r = Inr k \<longrightarrow> point_ok k)"
  using assms
proof (induction msg extEnd offset found key rule: server_extensions.induct)
  case (1 msg extEnd offset found key)
  show ?case
  proof (cases "offset + 4 \<le> extEnd")
    case False
    then show ?thesis using 1(3) by (subst server_extensions.simps) (auto split: option.splits)
  next
    case True
    obtain t l where t: "TlsGetUint16 msg offset = Some t" "TlsGetUint16 msg (offset + 2) = Some l"
      using get16_Some [of offset msg] get16_Some [of "offset + 2" msg] True 1(2) by auto
    show ?thesis
    proof (cases "offset + 4 + unat l > extEnd")
      case over: True
      then show ?thesis using True t by (subst server_extensions.simps) simp
    next
      case fits: False
      then have "offset + 4 + unat l \<le> length msg" using 1(2) by simp
      from extension_value_ok [OF this 1(3)] obtain r where r: "extension_value msg t (unat l) (offset + 4) found key = Some r"
        "\<forall>f k. r = Inr (f, Some k) \<longrightarrow> point_ok k" by blast
      show ?thesis
      proof (cases r)
        case (Inl st)
        then show ?thesis using True t fits r by (subst server_extensions.simps) simp
      next
        case (Inr fk)
        obtain f k where fk: "fk = (f, k)" by fastforce
        have "\<exists>r. server_extensions msg extEnd (offset + 4 + unat l) f k = Some r \<and> (\<forall>k. r = Inr k \<longrightarrow> point_ok k)"
          using 1(1) [OF True, unfolded t] fits r Inr fk 1(2) by fastforce
        then show ?thesis using True t fits r Inr fk by (subst server_extensions.simps) simp
      qed
    qed
  qed
qed

lemma server_hello_ok:
  "BlorgTlsParseServerHello msg \<noteq> None \<and>
   (\<forall>random point. BlorgTlsParseServerHello msg = Some (Inr (random, point)) \<longrightarrow>
      length random = TLS_HANDSHAKE_RANDOM_LEN \<and> point_ok point)"
proof (cases "length msg < 40")
  case True
  then show ?thesis by (simp add: BlorgTlsParseServerHello_def TLS_HANDSHAKE_RANDOM_LEN_def)
next
  case False
  define o1 where "o1 = 35 + unat (msg ! 34)"
  have pre: "peek 2 32 msg = Some (take 32 (drop 2 msg))" "rd msg 34 = Some (msg ! 34)" using False by (simp_all add: peek_def)
  have suite: "\<exists>v. TlsGetUint16 msg o1 = Some v" if "\<not> o1 + 2 > length msg" using that by (intro get16_Some) simp
  have lens: "\<exists>v. TlsGetUint16 msg (o1 + 3) = Some v" if "\<not> o1 + 5 > length msg" using that by (intro get16_Some) simp
  have ext: "\<exists>r. server_extensions msg (o1 + 5 + n) (o1 + 5) False None = Some r \<and> (\<forall>k. r = Inr k \<longrightarrow> point_ok k)"
    if "\<not> o1 + 5 + n > length msg" for n
    by (rule server_extensions_ok) (use that in simp_all)
  have run: "BlorgTlsParseServerHello msg =
     (if o1 > length msg then refused
      else if o1 + 2 > length msg then refused
      else do {
        suite \<leftarrow> TlsGetUint16 msg o1;
        (if suite \<noteq> 0x1301 then refused
         else if o1 + 5 > length msg then refused
         else do {
           extensionsLen \<leftarrow> TlsGetUint16 msg (o1 + 3);
           (if o1 + 5 + unat extensionsLen > length msg then refused
            else case server_extensions msg (o1 + 5 + unat extensionsLen) (o1 + 5) False None of
                   None \<Rightarrow> None | Some (Inl status) \<Rightarrow> Some (Inl status)
                 | Some (Inr point) \<Rightarrow> Some (Inr (take 32 (drop 2 msg), point)))
         })
      })"
    unfolding BlorgTlsParseServerHello_def TLS_HANDSHAKE_RANDOM_LEN_def Let_def
    using False pre by (simp add: o1_def cong: if_cong)
  have len: "length (take 32 (drop 2 msg)) = 32" using False by simp
  show ?thesis
    unfolding run TLS_HANDSHAKE_RANDOM_LEN_def
    using suite lens ext len
    by (auto split: option.splits sum.splits if_splits) (metis option.distinct(1) option.inject)+
qed

end
