(* ===== verification/Tls_Roundtrip.thy ===== *)
theory Tls_Roundtrip
  imports Tls_Correct
begin

unbundle bit_operations_syntax

text \<open>
  A reference encoder for the DER of certificates and signatures, written from the encoding rules and
  not from the readers, and the readers of Tls_Parse run on what it writes.
\<close>

section \<open>The reference encoder\<close>

definition der_octets :: "nat \<Rightarrow> UCHAR list" where
  "der_octets n =
     (if n < 128 then [of_nat n]
      else if n < 256 then [0x81, of_nat n]
      else [0x82, of_nat (n div 256), of_nat (n mod 256)])"

definition der_tlv :: "UCHAR \<Rightarrow> UCHAR list \<Rightarrow> UCHAR list" where
  "der_tlv tag v = tag # der_octets (length v) @ v"

text \<open>An unsigned big-endian number as a DER INTEGER: no needless zero octet, and one when the sign bit is set.\<close>

definition der_unsigned :: "UCHAR list \<Rightarrow> UCHAR list" where
  "der_unsigned bytes =
     (case dropWhile (\<lambda>b. b = 0) bytes of
        [] \<Rightarrow> [0]
      | b # bs \<Rightarrow> if b \<ge> 0x80 then 0 # b # bs else b # bs)"

definition certificate_der ::
    "(UCHAR list) option \<Rightarrow> (UCHAR \<times> UCHAR list) list \<Rightarrow> UCHAR list \<Rightarrow> UCHAR list \<Rightarrow> UCHAR list \<Rightarrow> UCHAR list" where
  "certificate_der version fields spki extensions signature =
     der_tlv 0x30
       (der_tlv 0x30
          ((case version of None \<Rightarrow> [] | Some v \<Rightarrow> der_tlv 0xA0 v) @
           concat (map (\<lambda>(tag, v). der_tlv tag v) fields) @ spki @ extensions) @
        signature)"

section \<open>Length octets\<close>

lemma length_der_octets: "0 < length (der_octets n)" "length (der_octets n) \<le> 3"
  by (simp_all add: der_octets_def)

lemma unat_of_nat_byte: "n < 256 \<Longrightarrow> unat (of_nat n :: UCHAR) = n"
  by (simp add: unat_of_nat)

lemma high_bit_byte: "(b :: UCHAR) AND 0x80 = 0 \<longleftrightarrow> unat b < 128"
proof -
  have "(b :: UCHAR) AND 0x80 = 0 \<longleftrightarrow> \<not> bit b 7"
    using and_exp_eq_0_iff_not_bit [of b 7] by simp
  also have "\<dots> \<longleftrightarrow> unat b < 128"
  proof -
    have "bit b 7 \<longleftrightarrow> odd (unat b div 128)" using bit_unsigned_iff [where 'a = nat, of b 7] by (simp add: bit_iff_odd)
    moreover have "unat b < 256" using unsigned_less [of b] by simp
    ultimately show ?thesis by (auto simp: odd_iff_mod_2_eq_one)
  qed
  finally show ?thesis .
qed

lemma shift_or_byte: "push_bit 8 (of_nat n :: 'a::len word) OR ucast (b :: UCHAR) = of_nat (n * 256 + unat b)"
proof -
  have "push_bit 8 (of_nat n :: 'a word) OR ucast b = push_bit 8 (of_nat n) + ucast b"
    by (rule disjunctive_add [symmetric]) (auto simp: bit_simps dest: bit_imp_le_length)
  also have "\<dots> = of_nat (n * 256) + of_nat (unat b)" by (simp add: push_bit_eq_mult)
  finally show ?thesis by simp
qed

lemma ucast_of_nat_byte: "n < 256 \<Longrightarrow> (ucast (of_nat n :: UCHAR) :: 'a::len word) = of_nat n"
  by (simp add: unsigned_of_nat take_bit_eq_mod)

lemma der_length_octets:
  assumes "length v < 65536" "length pre + length (der_octets (length v)) + length v \<le> e"
  shows "der_length (pre @ der_octets (length v) @ v @ post) (length pre) e =
     Some (Some (of_nat (length v), length pre + length (der_octets (length v))))"
proof -
  let ?n = "length v"
  have byte: "unat (of_nat k :: UCHAR) = k" if "k < 256" for k using that by (rule unat_of_nat_byte)
  have size: "unat (of_nat ?n :: ULONG) = ?n" using assms(1) by (simp add: unat_of_nat)
  consider "?n < 128" | "128 \<le> ?n" "?n < 256" | "256 \<le> ?n" by linarith
  then show ?thesis
  proof cases
    case 1
    then show ?thesis using assms by (simp add: der_length_def der_octets_def rd_append high_bit_byte byte ucast_of_nat_byte)
  next
    case 2
    then show ?thesis using assms
      by (simp add: der_length_def der_octets_def rd_append peek_def ucast_of_nat_byte byte size Let_def)
  next
    case 3
    have d: "?n div 256 < 256" "?n mod 256 < 256" using assms(1) by simp_all
    have "push_bit 8 (of_nat (?n div 256)) OR ucast (of_nat (?n mod 256) :: UCHAR) = (of_nat ?n :: ULONG)"
      using shift_or_byte [of "?n div 256" "of_nat (?n mod 256)"] byte [OF d(2)] by (simp add: div_mult_mod_eq)
    then show ?thesis using 3 assms d
      by (simp add: der_length_def der_octets_def rd_append peek_def ucast_of_nat_byte byte size Let_def) linarith
  qed
qed

lemma length_der_tlv [simp]: "length (der_tlv tag v) = 1 + length (der_octets (length v)) + length v"
  by (simp add: der_tlv_def)

section \<open>Elements\<close>

text \<open>The header of an element is its tag and its length octets.\<close>

lemma der_length_tlv:
  assumes "length v < 65536" "length pre + length (der_tlv tag v) \<le> e"
  shows "der_length (pre @ der_tlv tag v @ post) (length pre + 1) e =
     Some (Some (of_nat (length v), length pre + 1 + length (der_octets (length v))))"
  using der_length_octets [of v "pre @ [tag]" e post] assms by (simp add: der_tlv_def)

lemma tag_der_tlv: "rd (pre @ der_tlv tag v @ post) (length pre) = Some tag"
  by (simp add: der_tlv_def rd_append)

lemma read_der_tlv:
  assumes "length v < 65536" "length pre + length (der_tlv tag v) \<le> e"
  shows "TlsDerReadTlv (pre @ der_tlv tag v @ post) (length pre) e tag =
     Some (Some (length pre + 1 + length (der_octets (length v)), length v))"
  unfolding TlsDerReadTlv_def tag_der_tlv der_length_tlv [OF assms]
  using assms by (simp add: unat_of_nat)

lemma skip_der_tlv:
  assumes "length v < 65536" "length pre + length (der_tlv tag v) \<le> e"
  shows "TlsDerSkipTlv (pre @ der_tlv tag v @ post) (length pre) e = Some (Some (length pre + length (der_tlv tag v)))"
  unfolding TlsDerSkipTlv_def der_length_tlv [OF assms]
  using assms by (simp add: unat_of_nat)

abbreviation der_fields :: "(UCHAR \<times> UCHAR list) list \<Rightarrow> UCHAR list" where
  "der_fields fields \<equiv> concat (map (\<lambda>(tag, v). der_tlv tag v) fields)"

lemma skip_der_fields:
  assumes "length pre + length (der_fields fields) \<le> e" "\<forall>(tag, v)\<in>set fields. length v < 65536"
  shows "skip_fields (length fields) (pre @ der_fields fields @ post) (length pre) e =
     Some (Some (length pre + length (der_fields fields)))"
  using assms
proof (induction fields arbitrary: pre)
  case (Cons f fields)
  obtain tag v where f: "f = (tag, v)" by fastforce
  have v: "length v < 65536" "length pre + length (der_tlv tag v) \<le> e" using Cons.prems f by simp_all
  have "skip_fields (length fields) ((pre @ der_tlv tag v) @ der_fields fields @ post) (length (pre @ der_tlv tag v)) e =
     Some (Some (length (pre @ der_tlv tag v) + length (der_fields fields)))"
    using Cons.prems f by (intro Cons.IH) simp_all
  then show ?case using skip_der_tlv [OF v, of "der_fields fields @ post"] f by simp
qed simp

section \<open>Certificates\<close>

abbreviation der_version :: "(UCHAR list) option \<Rightarrow> UCHAR list" where
  "der_version version \<equiv> (case version of None \<Rightarrow> [] | Some v \<Rightarrow> der_tlv 0xA0 v)"

text \<open>The parts of a certificate the reader relies on: five fields before the key, and no field that reads as a version.\<close>

definition certificate_parts :: "(UCHAR list) option \<Rightarrow> (UCHAR \<times> UCHAR list) list \<Rightarrow> bool" where
  "certificate_parts version fields \<longleftrightarrow>
     length fields = 5 \<and> (\<forall>(tag, v)\<in>set fields. length v < 65536) \<and> (\<forall>v. version = Some v \<longrightarrow> length v < 65536) \<and>
     fst (hd fields) \<noteq> 0xA0"

lemma skip_version_der:
  assumes "certificate_parts version fields" "length pre + length (der_version version @ der_fields fields) \<le> e"
  shows "skip_version (pre @ der_version version @ der_fields fields @ post) (length pre) e =
     Some (Some (length pre + length (der_version version)))"
proof (cases version)
  case None
  obtain tag v fs where f: "fields = (tag, v) # fs" using assms(1) by (cases fields) (auto simp: certificate_parts_def)
  then have "tag \<noteq> 0xA0" using assms(1) by (simp add: certificate_parts_def)
  then show ?thesis using assms(2) None f tag_der_tlv [of pre tag v "der_fields fs @ post"] by (simp add: skip_version_def)
next
  case (Some v)
  then have v: "length v < 65536" "length pre + length (der_tlv 0xA0 v) \<le> e" using assms by (simp_all add: certificate_parts_def)
  show ?thesis
    using skip_der_tlv [OF v, of "der_fields fields @ post"] tag_der_tlv [of pre "0xA0" v "der_fields fields @ post"] v Some
    by (simp add: skip_version_def)
qed

lemma extract_spki_der:
  assumes parts: "certificate_parts version fields"
    and size: "length (certificate_der version fields (der_tlv 0x30 key) extensions signature) < 65536"
  defines "cert \<equiv> certificate_der version fields (der_tlv 0x30 key) extensions signature"
  shows "\<exists>at. BlorgTlsExtractSpkiFromCertificate cert = Some (Inr (at, length (der_tlv 0x30 key))) \<and>
     (\<exists>pre post. cert = pre @ der_tlv 0x30 key @ post \<and> length pre = at)"
proof -
  define tbs where "tbs = der_version version @ der_fields fields @ der_tlv 0x30 key @ extensions"
  define body where "body = der_tlv 0x30 tbs @ signature"
  have cert: "cert = [] @ der_tlv 0x30 body @ []" by (simp add: cert_def certificate_der_def body_def tbs_def)
  have body_len: "length body < 65536" and tbs_len: "length tbs < 65536" and key_len: "length key < 65536"
    using size unfolding cert_def [symmetric] cert body_def tbs_def by simp_all
  define pre1 where "pre1 = 0x30 # der_octets (length body)"
  define pre where "pre = pre1 @ 0x30 # der_octets (length tbs)"
  have cert1: "cert = pre1 @ der_tlv 0x30 tbs @ signature" unfolding cert pre1_def by (simp add: der_tlv_def body_def)
  have cert2: "cert = pre @ der_version version @ der_fields fields @ der_tlv 0x30 key @ extensions @ signature"
    unfolding cert1 pre_def by (simp add: der_tlv_def tbs_def)
  let ?e = "length pre + length tbs"
  have r1: "TlsDerReadTlv cert 0 (length cert) 0x30 = Some (Some (length pre1, length body))"
    using read_der_tlv [of body "[]" "0x30" "length cert" "[]"] body_len cert by (simp add: pre1_def)
  have r2: "TlsDerReadTlv cert (length pre1) (length cert) 0x30 = Some (Some (length pre, length tbs))"
    using read_der_tlv [of tbs pre1 "0x30" "length cert" signature] tbs_len by (simp add: cert1 pre_def)
  have v: "skip_version cert (length pre) ?e = Some (Some (length pre + length (der_version version)))"
    unfolding cert2 by (rule skip_version_der [OF parts]) (simp add: tbs_def)
  have f: "skip_fields 5 cert (length pre + length (der_version version)) ?e =
     Some (Some (length pre + length (der_version version) + length (der_fields fields)))"
    using skip_der_fields [of "pre @ der_version version" fields ?e "der_tlv 0x30 key @ extensions @ signature"] parts
    by (simp add: cert2 certificate_parts_def tbs_def)
  let ?at = "length pre + length (der_version version) + length (der_fields fields)"
  have k: "TlsDerReadTlv cert ?at ?e 0x30 = Some (Some (?at + 1 + length (der_octets (length key)), length key))"
    using read_der_tlv [of key "pre @ der_version version @ der_fields fields" "0x30" ?e "extensions @ signature"] key_len
    by (simp add: cert2 tbs_def add.assoc)
  have "BlorgTlsExtractSpkiFromCertificate cert = Some (Inr (?at, length (der_tlv 0x30 key)))"
    unfolding BlorgTlsExtractSpkiFromCertificate_def by (simp add: r1 r2 v f k Let_def)
  moreover have "cert = (pre @ der_version version @ der_fields fields) @ der_tlv 0x30 key @ (extensions @ signature)"
    by (simp add: cert2)
  moreover have "length (pre @ der_version version @ der_fields fields) = ?at" by simp
  ultimately show ?thesis by blast
qed

section \<open>Public keys\<close>

lemma encode_is_der:
  assumes "length publicKey = TLS_ECC_PUBKEY_LEN"
  shows "BlorgTlsEncodeP256SubjectPublicKeyInfo publicKey = der_tlv 0x30 (drop 2 (BlorgTlsEncodeP256SubjectPublicKeyInfo publicKey))"
  using assms by (simp add: BlorgTlsEncodeP256SubjectPublicKeyInfo_def spki_header_def der_tlv_def der_octets_def TLS_ECC_PUBKEY_LEN_def)

lemma decode_encode:
  assumes "point_ok publicKey"
  shows "BlorgTlsDecodeP256SubjectPublicKeyInfo (BlorgTlsEncodeP256SubjectPublicKeyInfo publicKey) = Some (Inr publicKey)"
  using assms by (simp add: point_ok_def BlorgTlsDecodeP256SubjectPublicKeyInfo_def BlorgTlsEncodeP256SubjectPublicKeyInfo_def
      spki_header_def peek_def TLS_SPKI_DER_LEN_def TLS_ECC_PUBKEY_LEN_def)

section \<open>Integers on the wire\<close>

lemma rd_after: "rd (pre @ xs) (length pre + k) = rd xs k"
  by (simp add: rd_def nth_append)

lemma get_put16: "TlsGetUint16 (pre @ TlsPutUint16 v @ post) (length pre) = Some v"
proof -
  have m: "(0xFF :: USHORT) = mask 8" by (simp add: mask_eq_exp_minus_1)
  have "push_bit 8 (ucast (ucast (drop_bit 8 v) :: UCHAR)) OR ucast (ucast (v AND 0xFF) :: UCHAR) = v"
    unfolding m by (intro bit_word_eqI) (auto simp: bit_simps)
  then show ?thesis using rd_after [of pre "TlsPutUint16 v @ post" 0] rd_after [of pre "TlsPutUint16 v @ post" 1]
    by (simp add: TlsGetUint16_def TlsPutUint16_def rd_def)
qed

lemma get_put24:
  assumes "n < 2 ^ 24"
  shows "get_uint24 (pre @ TlsPutUint24 (of_nat n) @ post) (length pre) = Some (of_nat n)"
proof -
  have m: "(0xFF :: ULONG) = mask 8" by (simp add: mask_eq_exp_minus_1)
  have high: "\<not> bit (of_nat n :: ULONG) k" if "24 \<le> k" for k
  proof -
    have "n < 2 ^ k" using assms power_increasing [of 24 k "2 :: nat"] that by linarith
    then have "\<not> bit n k" by (simp add: bit_iff_odd)
    then show ?thesis by (simp add: bit_simps)
  qed
  have "push_bit 16 (ucast (ucast (drop_bit 16 v AND 0xFF) :: UCHAR)) OR
     push_bit 8 (ucast (ucast (drop_bit 8 v AND 0xFF) :: UCHAR)) OR ucast (ucast (v AND 0xFF) :: UCHAR) = v"
    if v: "v = of_nat n" for v :: ULONG
    unfolding m
  proof (rule bit_word_eqI, goal_cases)
    case (1 k)
    consider "k < 8" | "8 \<le> k" "k < 16" | "16 \<le> k" "k < 24" | "24 \<le> k" by linarith
    then show ?case
      by cases (use high [of k] in \<open>auto simp: bit_simps v less_diff_conv2\<close>)
  qed
  then show ?thesis using rd_after [of pre "TlsPutUint24 (of_nat n) @ post" 0] rd_after [of pre "TlsPutUint24 (of_nat n) @ post" 1]
      rd_after [of pre "TlsPutUint24 (of_nat n) @ post" 2]
    by (simp add: get_uint24_def TlsPutUint24_def rd_def)
qed

section \<open>Messages\<close>

text \<open>A Certificate message with an empty request context, of the leaf and what follows it in the list.\<close>

definition certificate_message :: "UCHAR list \<Rightarrow> UCHAR list \<Rightarrow> UCHAR list" where
  "certificate_message cert rest =
     [0] @ TlsPutUint24 (of_nat (3 + length cert + length rest)) @ TlsPutUint24 (of_nat (length cert)) @ cert @ rest"

lemma length_put [simp]: "length (TlsPutUint16 v) = 2" "length (TlsPutUint24 w) = 3"
  by (simp_all add: TlsPutUint16_def TlsPutUint24_def)

lemma parse_certificate_message:
  assumes "3 + length cert + length rest < 2 ^ 24"
  shows "BlorgTlsParseCertificateMessage (certificate_message cert rest) = Some (Inr (7, length cert))"
proof -
  let ?m = "certificate_message cert rest"
  have first: "rd ?m 0 = Some 0" by (simp add: certificate_message_def rd_def)
  have listLen: "get_uint24 ?m 1 = Some (of_nat (3 + length cert + length rest))"
    using get_put24 [OF assms, of "[0]" "TlsPutUint24 (of_nat (length cert)) @ cert @ rest"] by (simp add: certificate_message_def)
  have certLen: "get_uint24 ?m 4 = Some (of_nat (length cert))"
    using get_put24 [of "length cert" "[0] @ TlsPutUint24 (of_nat (3 + length cert + length rest))" "cert @ rest"] assms
    by (simp add: certificate_message_def)
  have u: "unat (of_nat (3 + length cert + length rest) :: ULONG) = 3 + length cert + length rest"
    "unat (of_nat (length cert) :: ULONG) = length cert"
    using assms by (simp_all add: unat_of_nat_less del: of_nat_add)
  have len: "length ?m = 7 + length cert + length rest" by (simp add: certificate_message_def)
  show ?thesis
    unfolding BlorgTlsParseCertificateMessage_def Let_def by (simp add: first listLen [unfolded One_nat_def] certLen len u del: of_nat_add)
qed

definition certificate_verify_message :: "UCHAR list \<Rightarrow> UCHAR list \<Rightarrow> UCHAR list" where
  "certificate_verify_message r s =
     (let sig = der_tlv 0x30 (der_tlv 0x02 (der_unsigned r) @ der_tlv 0x02 (der_unsigned s))
      in TlsPutUint16 0x0403 @ TlsPutUint16 (of_nat (length sig)) @ sig)"

lemma dropWhile_zero: "\<exists>n. bytes = replicate n 0 @ dropWhile (\<lambda>b. b = 0) bytes"
  by (induction bytes) (auto intro: exI [of _ "Suc _"] exI [of _ 0])

lemma der_unsigned_cases:
  assumes "length bytes = 32"
  obtains "der_unsigned bytes = [0]" "bytes = replicate 32 0"
    | b bs n where "der_unsigned bytes = 0 # b # bs" "bytes = replicate n 0 @ b # bs"
    | b bs n where "der_unsigned bytes = b # bs" "bytes = replicate n 0 @ b # bs" "b \<noteq> 0"
proof -
  obtain n where n: "bytes = replicate n 0 @ dropWhile (\<lambda>b. b = 0) bytes" using dropWhile_zero by blast
  show thesis
  proof (cases "dropWhile (\<lambda>b. b = 0) bytes")
    case Nil
    then have b: "bytes = replicate n 0" by (metis n append_Nil2)
    then have "n = 32" using assms by simp
    then show thesis using that(1) b Nil by (simp add: der_unsigned_def)
  next
    case (Cons b bs)
    then have "b \<noteq> 0" using hd_dropWhile [of "\<lambda>b. b = 0" bytes] by simp
    moreover have "bytes = replicate n 0 @ b # bs" by (metis n Cons)
    ultimately show thesis using that(2,3) [of b bs n] Cons by (cases "b \<ge> 0x80") (simp_all add: der_unsigned_def)
  qed
qed

lemma half_der_unsigned:
  assumes "length bytes = 32" "v = der_unsigned bytes"
  shows "signature_half (pre @ v @ post) (length pre) (length v) = Some (Some bytes)"
  using assms(1)
proof (cases rule: der_unsigned_cases)
  case 1
  then show ?thesis using assms(2) by (simp add: signature_half_def peek_def replicate_app_Cons_same flip: replicate_Suc)
next
  case (2 b bs n)
  then have "n + length bs = 31" using assms(1) by simp
  then have "n = 31 - length bs" "length bs \<le> 31" by simp_all
  then show ?thesis using 2 assms(2) replicate_append_same [of "30 - length bs" "0 :: UCHAR"]
    by (cases "length bs = 31") (auto simp: signature_half_def peek_def rd_append Suc_diff_le simp flip: replicate_Suc)
next
  case (3 b bs n)
  then have "n + length bs = 31" using assms(1) by simp
  then have "n = 31 - length bs" "length bs \<le> 31" by simp_all
  then show ?thesis using 3 assms(2) by (auto simp: signature_half_def peek_def rd_append)
qed

lemma length_der_unsigned: "length bytes = 32 \<Longrightarrow> length (der_unsigned bytes) \<le> 33"
  by (cases rule: der_unsigned_cases) auto

lemma parse_certificate_verify:
  assumes "length r = 32" "length s = 32"
  shows "BlorgTlsParseCertificateVerifyMessage (certificate_verify_message r s) = Some (Inr (r @ s))"
proof -
  define x where "x = der_unsigned r"
  define y where "y = der_unsigned s"
  define seq where "seq = der_tlv 0x02 x @ der_tlv 0x02 y"
  define pre where "pre = TlsPutUint16 0x0403 @ TlsPutUint16 (of_nat (length (der_tlv 0x30 seq)))"
  define msg where "msg = certificate_verify_message r s"
  have msg: "msg = pre @ der_tlv 0x30 seq @ []"
    by (simp add: msg_def certificate_verify_message_def pre_def seq_def x_def y_def Let_def)
  have xy: "length x \<le> 33" "length y \<le> 33" unfolding x_def y_def by (intro length_der_unsigned assms)+
  have o3: "length (der_octets n) \<le> 3" for n by (rule length_der_octets)
  have seqLen: "length seq \<le> 74" using xy o3 [of "length x"] o3 [of "length y"] by (simp add: seq_def)
  have sigLen: "length (der_tlv 0x30 seq) \<le> 78" using seqLen o3 [of "length seq"] by simp
  have pre: "length pre = 4" by (simp add: pre_def)
  let ?e = "4 + length (der_tlv 0x30 seq)"
  define in1 where "in1 = pre @ 0x30 # der_octets (length seq)"
  have msg1: "msg = in1 @ der_tlv 0x02 x @ der_tlv 0x02 y" unfolding msg in1_def by (simp add: der_tlv_def seq_def)
  have msg2: "msg = (in1 @ der_tlv 0x02 x) @ der_tlv 0x02 y @ []" by (simp add: msg1)
  have e: "?e = length in1 + length seq" by (simp add: in1_def pre)
  have get: "TlsGetUint16 msg 0 = Some 0x0403" "TlsGetUint16 msg 2 = Some (of_nat (length (der_tlv 0x30 seq)))"
    using get_put16 [of "[]" "0x0403" "TlsPutUint16 (of_nat (length (der_tlv 0x30 seq))) @ der_tlv 0x30 seq"]
      get_put16 [of "TlsPutUint16 0x0403" "of_nat (length (der_tlv 0x30 seq))" "der_tlv 0x30 seq"]
    by (simp_all add: msg pre_def del: length_der_tlv)
  have u: "unat (of_nat (length (der_tlv 0x30 seq)) :: USHORT) = length (der_tlv 0x30 seq)"
    using sigLen by (intro unat_of_nat_less) simp
  have len: "length msg = ?e" by (simp add: msg pre)
  have r1: "TlsDerReadTlv msg 4 ?e 0x30 = Some (Some (length in1, length seq))"
    using read_der_tlv [of seq pre "0x30" ?e "[]"] seqLen by (simp add: msg in1_def pre)
  define rs where "rs = length in1 + 1 + length (der_octets (length x))"
  define ss where "ss = rs + length x + 1 + length (der_octets (length y))"
  have r2: "TlsDerReadTlv msg (length in1) (length in1 + length seq) 0x02 = Some (Some (rs, length x))"
    using read_der_tlv [of x in1 "0x02" "length in1 + length seq" "der_tlv 0x02 y"] xy by (simp add: msg1 seq_def rs_def)
  have r3: "TlsDerReadTlv msg (rs + length x) (length in1 + length seq) 0x02 = Some (Some (ss, length y))"
    using read_der_tlv [of y "in1 @ der_tlv 0x02 x" "0x02" "length in1 + length seq" "[]"] xy
    unfolding msg2 [symmetric] by (simp add: seq_def rs_def ss_def add.assoc)
  have h1: "signature_half msg rs (length x) = Some (Some r)"
    using half_der_unsigned [OF assms(1) x_def, of "in1 @ 0x02 # der_octets (length x)" "der_tlv 0x02 y"]
    by (simp add: msg1 der_tlv_def rs_def)
  have h2: "signature_half msg ss (length y) = Some (Some s)"
    using half_der_unsigned [OF assms(2) y_def, of "in1 @ der_tlv 0x02 x @ 0x02 # der_octets (length y)" "[]"]
    by (simp add: msg1 der_tlv_def [of "0x02" y] rs_def ss_def add.assoc)
  show ?thesis
    unfolding BlorgTlsParseCertificateVerifyMessage_def msg_def [symmetric]
    by (simp add: get u len r1 r2 r3 h1 h2 del: length_der_tlv)
qed

end
