(* ===== verification/Tls_Hello.thy ===== *)
theory Tls_Hello
  imports Tls_Roundtrip
begin

unbundle bit_operations_syntax

text \<open>
  The ClientHello that is built is the message with every length field holding the length of what
  follows it, and the padding, nonces and key expansion of Tls.c against their definitions in RFC
  8446 and RFC 5869.
\<close>

section \<open>The reference ClientHello\<close>

text \<open>A field of the message preceded by its length in two or three bytes.\<close>

definition vec16 :: "UCHAR list \<Rightarrow> UCHAR list" where
  "vec16 bytes = TlsPutUint16 (of_nat (length bytes)) @ bytes"

definition vec24 :: "UCHAR list \<Rightarrow> UCHAR list" where
  "vec24 bytes = TlsPutUint24 (of_nat (length bytes)) @ bytes"

definition extension :: "USHORT \<Rightarrow> UCHAR list \<Rightarrow> UCHAR list" where
  "extension extType content = TlsPutUint16 extType @ vec16 content"

definition hello_extensions :: "UCHAR list \<Rightarrow> UCHAR list \<Rightarrow> UCHAR list" where
  "hello_extensions publicKey serverName =
     (if serverName = [] then [] else extension 0 (vec16 ([0] @ vec16 serverName))) @
     extension 10 (vec16 (TlsPutUint16 0x0017)) @
     extension 51 (vec16 (TlsPutUint16 0x0017 @ vec16 publicKey)) @
     extension 43 ([2] @ TlsPutUint16 0x0304) @
     extension 13 (vec16 (TlsPutUint16 0x0403))"

definition client_hello :: "UCHAR list \<Rightarrow> UCHAR list \<Rightarrow> UCHAR list \<Rightarrow> UCHAR list" where
  "client_hello random publicKey serverName =
     [1] @ vec24 (TlsPutUint16 0x0303 @ random @ [0] @ vec16 (TlsPutUint16 0x1301) @ [1, 0] @
                  vec16 (hello_extensions publicKey serverName))"

lemma length_vec [simp]: "length (vec16 bytes) = 2 + length bytes" "length (vec24 bytes) = 3 + length bytes"
  "length (extension t bytes) = 4 + length bytes"
  by (simp_all add: vec16_def vec24_def extension_def)

section \<open>Writing into the buffer\<close>

text \<open>A buffer of which \<open>written\<close> has been overwritten.\<close>

definition over :: "UCHAR list \<Rightarrow> UCHAR list \<Rightarrow> UCHAR list" where
  "over written buffer = written @ drop (length written) buffer"

lemma length_over [simp]: "length written \<le> length buffer \<Longrightarrow> length (over written buffer) = length buffer"
  by (simp add: over_def)

lemma put_over:
  assumes "length written = offset" "offset + length bytes = offset'" "offset' \<le> length buffer" "written @ bytes = written'"
  shows "put_bytes bytes (offset, over written buffer) = Some (offset', over written' buffer)"
  using assms by (auto simp: put_bytes_def poke_def over_def add.commute)

lemma over_skip:
  assumes "length written + n \<le> length buffer"
  shows "over written buffer = over (written @ take n (drop (length written) buffer)) buffer"
  using assms by (simp add: over_def add.commute) (metis append_take_drop_id drop_drop)

lemma poke_over:
  assumes "length hole = length bytes" "offset = length pre" "length (pre @ hole @ post) \<le> length buffer"
  shows "poke offset bytes (over (pre @ hole @ post) buffer) = Some (over (pre @ bytes @ post) buffer)"
  using assms by (simp add: poke_def over_def)

section \<open>BlorgTlsBuildClientHello\<close>

abbreviation name_part :: "UCHAR list \<Rightarrow> UCHAR list" where
  "name_part serverName \<equiv> (if serverName = [] then [] else server_name_extension serverName)"

lemma hello_lengths:
  "length random = TLS_HANDSHAKE_RANDOM_LEN \<Longrightarrow> length (hello_fixed random) = 41"
  "length (server_name_extension serverName) = 9 + length serverName"
  "length groups_extension = 8"
  "length publicKey = TLS_ECC_PUBKEY_LEN \<Longrightarrow> length (key_share_extension publicKey) = 75"
  "length versions_and_algorithms = 15"
  by (simp_all add: hello_fixed_def server_name_extension_def groups_extension_def key_share_extension_def
      versions_and_algorithms_def TLS_HANDSHAKE_RANDOM_LEN_def TLS_ECC_PUBKEY_LEN_def)

lemma hello_extensions_parts:
  assumes "length publicKey = TLS_ECC_PUBKEY_LEN"
  shows "hello_extensions publicKey serverName =
     name_part serverName @ groups_extension @ key_share_extension publicKey @ versions_and_algorithms"
  using assms by (simp add: hello_extensions_def server_name_extension_def groups_extension_def key_share_extension_def
      versions_and_algorithms_def extension_def vec16_def TLS_ECC_PUBKEY_LEN_def TlsPutUint16_def)

lemma client_hello_parts:
  assumes "length random = TLS_HANDSHAKE_RANDOM_LEN"
  shows "client_hello random publicKey serverName =
     [1] @ TlsPutUint24 (of_nat (43 + length (hello_extensions publicKey serverName))) @ hello_fixed random @
     TlsPutUint16 (of_nat (length (hello_extensions publicKey serverName))) @ hello_extensions publicKey serverName"
  using assms by (simp add: client_hello_def hello_fixed_def vec24_def vec16_def TlsPutUint16_def TLS_HANDSHAKE_RANDOM_LEN_def)

lemma name_check:
  assumes "length serverName + 64 < 2 ^ 32"
  shows "unat (56 + of_nat (length serverName) :: ULONG) = 56 + length serverName"
  using assms unat_of_nat_less [of "56 + length serverName", where 'a = 32] by simp

lemma build_client_hello:
  assumes random: "length random = TLS_HANDSHAKE_RANDOM_LEN" and key: "length publicKey = TLS_ECC_PUBKEY_LEN"
    and name: "length serverName + 64 < 2 ^ 32"
  shows "BlorgTlsBuildClientHello random publicKey serverName buffer =
     (if length (client_hello random publicKey serverName) \<le> length buffer
      then Some (Inr (length (client_hello random publicKey serverName), over (client_hello random publicKey serverName) buffer))
      else refused)"
proof -
  note lens = hello_lengths(1) [OF random] hello_lengths(2,3) hello_lengths(4) [OF key] hello_lengths(5)
  note D = BlorgTlsBuildClientHello_def Let_def TLS_HANDSHAKE_RANDOM_LEN_def TLS_ECC_PUBKEY_LEN_def
  let ?B = "length buffer"
  define sn where "sn = name_part serverName"
  define hole where "hole = take 3 (drop 1 buffer)"
  define hole' where "hole' = take 2 (drop 45 buffer)"
  define pre where "pre = [1] @ hole @ hello_fixed random"
  have hole: "length pre = 45" if "47 \<le> ?B" using that by (simp add: pre_def hole_def lens)
  have hole2: "length hole' = 2" if "47 \<le> ?B" using that by (simp add: hole'_def)
  have exts: "hello_extensions publicKey serverName = sn @ groups_extension @ key_share_extension publicKey @ versions_and_algorithms"
    using hello_extensions_parts [OF key] by (simp add: sn_def)
  have extLen: "length (hello_extensions publicKey serverName) = 98 + length sn" by (simp add: exts lens)
  have size: "length (client_hello random publicKey serverName) = 145 + length sn"
    unfolding client_hello_parts [OF random] exts by (simp add: lens)
  have sn: "length sn = (if serverName = [] then 0 else 9 + length serverName)" by (simp add: sn_def lens)
  have s1: "put_bytes [1] (0, buffer) = Some (1, over [1] buffer)" if "1 \<le> ?B"
    using that by (simp add: put_bytes_def poke_def over_def)
  have s2: "put_bytes (hello_fixed random) (4, over [1] buffer) = Some (45, over (pre @ hole') buffer)" if "47 \<le> ?B"
  proof -
    have "over [1] buffer = over ([1] @ hole) buffer" unfolding hole_def using over_skip [of "[1]" 3 buffer] that by simp
    moreover have "put_bytes (hello_fixed random) (4, over ([1] @ hole) buffer) = Some (45, over pre buffer)"
      by (rule put_over) (use that in \<open>simp_all add: lens pre_def hole_def\<close>)
    moreover have "over pre buffer = over (pre @ hole') buffer"
      unfolding hole'_def using over_skip [of pre 2 buffer] that hole [OF that] by simp
    ultimately show ?thesis by (simp only:)
  qed
  have s3: "put_bytes (server_name_extension serverName) (47, over (pre @ hole') buffer) =
      Some (47 + length sn, over (pre @ hole' @ sn) buffer)" if "47 + length sn \<le> ?B" "serverName \<noteq> []"
    by (rule put_over) (use that hole hole2 in \<open>simp_all add: sn_def\<close>)
  have s4: "put_bytes groups_extension (47 + length sn, over (pre @ hole' @ sn) buffer) =
      Some (55 + length sn, over (pre @ hole' @ sn @ groups_extension) buffer)" if "55 + length sn \<le> ?B"
    by (rule put_over) (use that hole hole2 in \<open>simp_all add: lens\<close>)
  have s5: "put_bytes (key_share_extension publicKey) (55 + length sn, over (pre @ hole' @ sn @ groups_extension) buffer) =
      Some (130 + length sn, over (pre @ hole' @ sn @ groups_extension @ key_share_extension publicKey) buffer)"
    if "130 + length sn \<le> ?B"
    by (rule put_over) (use that hole hole2 in \<open>simp_all add: lens\<close>)
  show ?thesis
  proof (cases "145 + length sn \<le> ?B")
    case True
    then have big: "47 \<le> ?B" "\<not> ?B < 47 + length sn" by simp_all
    note holes = hole [OF big(1)] hole2 [OF big(1)]
    have s6: "put_bytes versions_and_algorithms
          (130 + length sn, over (pre @ hole' @ sn @ groups_extension @ key_share_extension publicKey) buffer) =
        Some (145 + length sn, over (pre @ hole' @ hello_extensions publicKey serverName) buffer)"
      by (rule put_over) (use True holes in \<open>simp_all add: lens exts\<close>)
    have s7: "poke 45 (TlsPutUint16 v) (over (pre @ hole' @ hello_extensions publicKey serverName) buffer) =
        Some (over (pre @ TlsPutUint16 v @ hello_extensions publicKey serverName) buffer)" for v
      using True holes by (intro poke_over) (simp_all add: lens exts)
    have s8: "poke 1 (TlsPutUint24 w) (over (pre @ TlsPutUint16 v @ hello_extensions publicKey serverName) buffer) =
        Some (over ([1] @ TlsPutUint24 w @ hello_fixed random @ TlsPutUint16 v @ hello_extensions publicKey serverName) buffer)" for v w
    proof -
      have "poke 1 (TlsPutUint24 w) (over ([1] @ hole @ (hello_fixed random @ TlsPutUint16 v @ hello_extensions publicKey serverName)) buffer) =
         Some (over ([1] @ TlsPutUint24 w @ (hello_fixed random @ TlsPutUint16 v @ hello_extensions publicKey serverName)) buffer)"
        using True by (intro poke_over) (simp_all add: hole_def lens exts)
      then show ?thesis by (simp add: pre_def)
    qed
    have "BlorgTlsBuildClientHello random publicKey serverName buffer =
       Some (Inr (145 + length sn, over (client_hello random publicKey serverName) buffer))"
      unfolding D client_hello_parts [OF random] extLen using True sn s4 s5 s6 s7 s8
      by (cases "serverName = []") (simp_all add: s1 s2 s3 name_check [OF name] lens)
    then show ?thesis using True size by simp
  next
    case False
    consider "?B < 47" | "47 \<le> ?B" "?B < 47 + length sn" | "47 + length sn \<le> ?B" by linarith
    then have "BlorgTlsBuildClientHello random publicKey serverName buffer = refused"
    proof cases
      case 1
      then show ?thesis unfolding D by (simp add: s1)
    next
      case 2
      then show ?thesis unfolding D using sn by (simp add: s1 s2 name_check [OF name] split: if_splits)
    next
      case 3
      note 3 = this
      consider "?B < 55 + length sn" | "55 + length sn \<le> ?B" "?B < 130 + length sn" | "130 + length sn \<le> ?B" by linarith
      then show ?thesis
        unfolding D using sn 3 False s4 s5
        by cases (cases "serverName = []"; simp add: s1 s2 s3 name_check [OF name])+
    qed
    then show ?thesis using False size by simp
  qed
qed

section \<open>Records\<close>

lemma strip_zeros:
  "k \<le> n \<Longrightarrow> strip_loop (content @ replicate n 0) (length content + k) = strip_loop (content @ replicate n 0) (length content)"
  by (induction k) (simp_all add: rd_def nth_append)

lemma strip_padded:
  assumes "t \<noteq> 0"
  shows "BlorgTlsStripInnerPlaintext (content @ [t] @ replicate n 0) = Some (Some (t, length content))"
proof -
  have len: "length (content @ [t] @ replicate n 0) = length (content @ [t]) + n" by simp
  have "strip_loop (content @ [t] @ replicate n 0) (length (content @ [t] @ replicate n 0)) = Some (Suc (length content))"
    unfolding len using strip_zeros [of n n "content @ [t]"] assms by (simp add: rd_append)
  then show ?thesis by (simp add: BlorgTlsStripInnerPlaintext_def rd_append)
qed

lemma strip_all_zero: "BlorgTlsStripInnerPlaintext (replicate n 0) = Some None"
  using strip_zeros [of n n "[]"] by (simp add: BlorgTlsStripInnerPlaintext_def)

lemma xor_cancel: "a XOR x = a XOR y \<longleftrightarrow> x = (y :: UCHAR)"
  by (metis xor.assoc xor_self_eq xor.left_neutral)

lemma nonce_byte:
  assumes "length iv = TLS_IV_LEN" "i < 8"
  shows "TlsBuildNonce iv seqNum ! (4 + i) = iv ! (4 + i) XOR ucast (drop_bit (8 * (7 - i)) seqNum)"
proof -
  have up: "[0..<8] = [0, 1, 2, 3, 4, 5, 6, 7 :: nat]" by (simp add: upt_conv_Cons del: upt_Suc)
  have "i \<in> {0, 1, 2, 3, 4, 5, 6, 7}" using assms(2) by auto
  then show ?thesis using assms(1)
    unfolding TlsBuildNonce_def up TLS_IV_LEN_def by (elim insertE emptyE) (simp_all add: TLS_IV_LEN_def nth_list_update)
qed

lemma nonce_inj:
  assumes iv: "length iv = TLS_IV_LEN" and same: "TlsBuildNonce iv m = TlsBuildNonce iv n"
  shows "m = n"
proof (rule bit_word_eqI)
  fix k assume k: "k < LENGTH(64)"
  define i where "i = 7 - k div 8"
  have i: "i < 8" "8 * (7 - i) + k mod 8 = k" using k by (simp_all add: i_def)
  have "(ucast (drop_bit (8 * (7 - i)) m) :: UCHAR) = ucast (drop_bit (8 * (7 - i)) n)"
    using nonce_byte [OF iv i(1), of m] nonce_byte [OF iv i(1), of n] same by (metis xor_cancel)
  then have "bit (ucast (drop_bit (8 * (7 - i)) m) :: UCHAR) (k mod 8) = bit (ucast (drop_bit (8 * (7 - i)) n) :: UCHAR) (k mod 8)" by simp
  then show "bit m k = bit n k" by (simp add: bit_simps i(2))
qed

lemma constant_time_fold:
  "fold (\<lambda>(x, y) diff. diff OR (x XOR y)) ps (d :: UCHAR) = 0 \<longleftrightarrow> d = 0 \<and> (\<forall>(x, y)\<in>set ps. x = y)"
  by (induction ps arbitrary: d) (use xor_cancel in \<open>auto simp: or_eq_0_iff\<close>, metis xor_self_eq)

lemma constant_time_equal:
  "length a = length b \<Longrightarrow> BlorgTlsConstantTimeEqual a b \<longleftrightarrow> a = b"
  unfolding BlorgTlsConstantTimeEqual_def constant_time_fold
  by (induction a b rule: list_induct2) auto

section \<open>Key expansion\<close>

primrec hkdf_block :: "(UCHAR list \<Rightarrow> UCHAR list \<Rightarrow> UCHAR list) \<Rightarrow> UCHAR list \<Rightarrow> UCHAR list \<Rightarrow> nat \<Rightarrow> UCHAR list" where
  "hkdf_block mac prk info 0 = []"
| "hkdf_block mac prk info (Suc i) = mac prk (hkdf_block mac prk info i @ info @ [of_nat (Suc i)])"

definition hkdf_blocks :: "(UCHAR list \<Rightarrow> UCHAR list \<Rightarrow> UCHAR list) \<Rightarrow> UCHAR list \<Rightarrow> UCHAR list \<Rightarrow> nat \<Rightarrow> UCHAR list" where
  "hkdf_blocks mac prk info n = concat (map (hkdf_block mac prk info) [1..<Suc n])"

lemma blocks_Suc: "hkdf_blocks mac prk info (Suc j) = hkdf_blocks mac prk info j @ hkdf_block mac prk info (Suc j)"
  by (simp add: hkdf_blocks_def)

lemma length_blocks:
  "(\<And>k m. length (mac k m) = TLS_HASH_LEN) \<Longrightarrow> length (hkdf_blocks mac prk info j) = TLS_HASH_LEN * j"
  by (induction j) (simp_all add: hkdf_blocks_def)

lemma take_blocks:
  assumes "\<And>k m. length (mac k m) = TLS_HASH_LEN" "outLen \<le> TLS_HASH_LEN * i" "i \<le> n"
  shows "take outLen (hkdf_blocks mac prk info n) = take outLen (hkdf_blocks mac prk info i)"
  using assms(3)
proof (induction n rule: dec_induct)
  case (step n)
  have "outLen \<le> TLS_HASH_LEN * n" using assms(2) step(1) by (meson le_trans mult_le_mono2)
  then show ?case using step(3) length_blocks [of mac prk info n] assms(1) by (simp add: blocks_Suc)
qed simp

lemma expand_loop_blocks:
  assumes mac: "\<And>k m. length (mac k m) = TLS_HASH_LEN" and small: "outLen \<le> TLS_HASH_LEN * n" and i: "i \<le> n"
  shows "expand_loop (\<lambda>k m. Inr (mac k m)) prk info outLen (hkdf_block mac prk info i)
       (take outLen (hkdf_blocks mac prk info i)) (min outLen (TLS_HASH_LEN * i)) (of_nat (Suc i)) =
     Inr (take outLen (hkdf_blocks mac prk info n))"
  using i
proof (induction "n - i" arbitrary: i)
  case 0
  then show ?case using small by (subst expand_loop.simps) simp
next
  case (Suc d)
  note len = length_blocks [of mac, OF mac]
  show ?case
  proof (cases "TLS_HASH_LEN * i < outLen")
    case True
    define copyLen where "copyLen = (if outLen - TLS_HASH_LEN * i < TLS_HASH_LEN then outLen - TLS_HASH_LEN * i else TLS_HASH_LEN)"
    have out: "take outLen (hkdf_blocks mac prk info i) @ take copyLen (hkdf_block mac prk info (Suc i)) =
        take outLen (hkdf_blocks mac prk info (Suc i))"
      using True len mac by (simp add: blocks_Suc copyLen_def)
    have gen: "TLS_HASH_LEN * i + copyLen = min outLen (TLS_HASH_LEN * Suc i)" using True by (simp add: copyLen_def)
    have next_block: "mac prk (hkdf_block mac prk info i @ info @ [of_nat (Suc i)]) = hkdf_block mac prk info (Suc i)" by simp
    have m: "min outLen (TLS_HASH_LEN * i) = TLS_HASH_LEN * i" using True by simp
    have "expand_loop (\<lambda>k m. Inr (mac k m)) prk info outLen (hkdf_block mac prk info i)
       (take outLen (hkdf_blocks mac prk info i)) (TLS_HASH_LEN * i) (of_nat (Suc i)) =
      expand_loop (\<lambda>k m. Inr (mac k m)) prk info outLen (hkdf_block mac prk info (Suc i))
       (take outLen (hkdf_blocks mac prk info (Suc i))) (min outLen (TLS_HASH_LEN * Suc i)) (of_nat (Suc i) + 1)"
      unfolding out [symmetric] gen [symmetric] next_block [symmetric]
      by (subst expand_loop.simps) (simp add: True copyLen_def Let_def del: hkdf_block.simps)
    also have "\<dots> = Inr (take outLen (hkdf_blocks mac prk info n))"
      using Suc.hyps(1) [of "Suc i"] Suc.hyps(2) by (simp add: add.commute del: hkdf_block.simps)
    finally show ?thesis unfolding m .
  next
    case False
    then show ?thesis using take_blocks [of mac outLen i n, OF mac _ Suc.prems]
      by (subst expand_loop.simps) simp
  qed
qed

lemma hkdf_expand_blocks:
  assumes "\<And>k m. length (mac k m) = TLS_HASH_LEN" "length info + 33 \<le> 256" "outLen \<le> TLS_HASH_LEN * n"
  shows "BlorgTlsHkdfExpand (\<lambda>k m. Inr (mac k m)) prk info outLen = Inr (take outLen (hkdf_blocks mac prk info n))"
  using expand_loop_blocks [of mac outLen n 0 prk info, OF assms(1,3)] assms(2)
  by (simp add: BlorgTlsHkdfExpand_def hkdf_blocks_def TLS_HASH_LEN_def)

end
