(* ===== verification/Tls_Theorems.thy ===== *)
theory Tls_Theorems
  imports Tls_Hello
begin

unbundle bit_operations_syntax

text \<open>
  What the TLS message layer promises its handshake: parsers that stay inside the message, readers
  that undo the encoding rules, a ClientHello with the right lengths, distinct nonces, and the key
  expansion of the RFCs.
\<close>

section \<open>The remaining bounds\<close>

lemma decode_spki_ok:
  "BlorgTlsDecodeP256SubjectPublicKeyInfo der \<noteq> None \<and>
   (\<forall>key. BlorgTlsDecodeP256SubjectPublicKeyInfo der = Some (Inr key) \<longrightarrow> point_ok key)"
proof (cases "length der = TLS_SPKI_DER_LEN")
  case True
  define key where "key = take TLS_ECC_PUBKEY_LEN (drop (length spki_header) der)"
  have "peek 0 (length spki_header) der = Some (take (length spki_header) der)"
    and k: "peek (length spki_header) TLS_ECC_PUBKEY_LEN der = Some key"
    and l: "length key = TLS_ECC_PUBKEY_LEN"
    using True by (simp_all add: peek_def key_def spki_header_def TLS_SPKI_DER_LEN_def TLS_ECC_PUBKEY_LEN_def)
  moreover have "rd key 0 = Some (key ! 0)" using l by (simp add: TLS_ECC_PUBKEY_LEN_def)
  ultimately show ?thesis by (auto simp: BlorgTlsDecodeP256SubjectPublicKeyInfo_def point_ok_def)
qed (simp add: BlorgTlsDecodeP256SubjectPublicKeyInfo_def)

lemma strip_loop_ok:
  "i \<le> length plaintext \<Longrightarrow>
   \<exists>j. strip_loop plaintext i = Some j \<and> j \<le> i \<and> (0 < j \<longrightarrow> plaintext ! (j - 1) \<noteq> 0)"
  by (induction i) (auto simp: le_Suc_eq)

lemma strip_ok:
  "BlorgTlsStripInnerPlaintext plaintext \<noteq> None \<and>
   (\<forall>t n. BlorgTlsStripInnerPlaintext plaintext = Some (Some (t, n)) \<longrightarrow> n < length plaintext \<and> t \<noteq> 0)"
proof -
  obtain j where "strip_loop plaintext (length plaintext) = Some j" "j \<le> length plaintext" "0 < j \<longrightarrow> plaintext ! (j - 1) \<noteq> 0"
    using strip_loop_ok [of "length plaintext" plaintext] by auto
  then show ?thesis by (auto simp: BlorgTlsStripInnerPlaintext_def)
qed

section \<open>Claims\<close>

text \<open>C15. Whatever a server sends, no parser of the handshake reads outside the message it was
  given, and what it reports lies inside: the leaf certificate in its message, the public key in its
  certificate, a 65-byte uncompressed point in a ServerHello or a public key, a 64-byte signature in
  a CertificateVerify, and the content of a record before its content type.\<close>

theorem tls_parsers_in_bounds:
  "(BlorgTlsParseServerHello msg \<noteq> None \<and>
    (\<forall>random point. BlorgTlsParseServerHello msg = Some (Inr (random, point)) \<longrightarrow>
       length random = TLS_HANDSHAKE_RANDOM_LEN \<and> point_ok point)) \<and>
   (BlorgTlsParseCertificateMessage msg \<noteq> None \<and>
    (\<forall>at len. BlorgTlsParseCertificateMessage msg = Some (Inr (at, len)) \<longrightarrow> at + len \<le> length msg)) \<and>
   (BlorgTlsExtractSpkiFromCertificate msg \<noteq> None \<and>
    (\<forall>at len. BlorgTlsExtractSpkiFromCertificate msg = Some (Inr (at, len)) \<longrightarrow> at + len \<le> length msg)) \<and>
   (BlorgTlsParseCertificateVerifyMessage msg \<noteq> None \<and>
    (\<forall>raw. BlorgTlsParseCertificateVerifyMessage msg = Some (Inr raw) \<longrightarrow> length raw = 64)) \<and>
   (BlorgTlsDecodeP256SubjectPublicKeyInfo msg \<noteq> None \<and>
    (\<forall>key. BlorgTlsDecodeP256SubjectPublicKeyInfo msg = Some (Inr key) \<longrightarrow> point_ok key)) \<and>
   (BlorgTlsStripInnerPlaintext msg \<noteq> None \<and>
    (\<forall>t n. BlorgTlsStripInnerPlaintext msg = Some (Some (t, n)) \<longrightarrow> n < length msg \<and> t \<noteq> 0))"
  by (intro conjI [OF server_hello_ok] conjI [OF certificate_message_ok] conjI [OF extract_spki_ok]
      conjI [OF certificate_verify_ok] conjI [OF decode_spki_ok] strip_ok)

theorem tls_parsers_in_bounds_witness:
  "BlorgTlsParseCertificateMessage [0, 0, 0, 5, 0, 0, 2, 9, 9] = Some (Inr (7, 2)) \<and>
   (7 :: nat) + 2 \<le> length [0, 0, 0, 5, 0, 0, 2, 9, 9 :: UCHAR]"
proof
  show parsed: "BlorgTlsParseCertificateMessage [0, 0, 0, 5, 0, 0, 2, 9, 9] = Some (Inr (7, 2))"
    by (simp add: BlorgTlsParseCertificateMessage_def rd_def get_uint24_def Let_def)
  show "(7 :: nat) + 2 \<le> length [0, 0, 0, 5, 0, 0, 2, 9, 9 :: UCHAR]"
    using tls_parsers_in_bounds [of "[0, 0, 0, 5, 0, 0, 2, 9, 9]"] parsed by blast
qed

text \<open>C35. A Certificate message is read down to the server's key: for any certificate written by the
  reference encoder, with or without a version, the message yields the certificate, the certificate
  yields the SubjectPublicKeyInfo and that yields the key that was encoded; and the CertificateVerify
  message of any two 32-byte numbers yields those numbers side by side.\<close>

theorem tls_certificate_roundtrip:
  assumes "certificate_parts version fields" "point_ok publicKey" "length r = 32" "length s = 32"
    and "cert = certificate_der version fields (BlorgTlsEncodeP256SubjectPublicKeyInfo publicKey) extensions signature"
    and "length cert < 65536" "length rest < 65536"
  shows "(\<exists>at. BlorgTlsParseCertificateMessage (certificate_message cert rest) = Some (Inr (at, length cert)) \<and>
        take (length cert) (drop at (certificate_message cert rest)) = cert) \<and>
     (\<exists>at len. BlorgTlsExtractSpkiFromCertificate cert = Some (Inr (at, len)) \<and>
        BlorgTlsDecodeP256SubjectPublicKeyInfo (take len (drop at cert)) = Some (Inr publicKey)) \<and>
     BlorgTlsParseCertificateVerifyMessage (certificate_verify_message r s) = Some (Inr (r @ s))"
proof (intro conjI)
  show "\<exists>at. BlorgTlsParseCertificateMessage (certificate_message cert rest) = Some (Inr (at, length cert)) \<and>
        take (length cert) (drop at (certificate_message cert rest)) = cert"
    using parse_certificate_message [of cert rest] assms(6,7)
    by (intro exI [of _ 7]) (simp add: certificate_message_def TlsPutUint24_def)
  have key: "length publicKey = TLS_ECC_PUBKEY_LEN" using assms(2) by (simp add: point_ok_def)
  show "\<exists>at len. BlorgTlsExtractSpkiFromCertificate cert = Some (Inr (at, len)) \<and>
        BlorgTlsDecodeP256SubjectPublicKeyInfo (take len (drop at cert)) = Some (Inr publicKey)"
    using extract_spki_der [of version fields "drop 2 (BlorgTlsEncodeP256SubjectPublicKeyInfo publicKey)" extensions signature]
      assms(1,5,6) decode_encode [OF assms(2)] unfolding encode_is_der [OF key, symmetric] by fastforce
  show "BlorgTlsParseCertificateVerifyMessage (certificate_verify_message r s) = Some (Inr (r @ s))"
    by (rule parse_certificate_verify [OF assms(3,4)])
qed

theorem tls_certificate_roundtrip_witness:
  "(\<exists>at len. BlorgTlsExtractSpkiFromCertificate
        (certificate_der None [(2, [1]), (0x30, [6]), (0x30, []), (0x30, [7]), (0x30, [])] (BlorgTlsEncodeP256SubjectPublicKeyInfo (4 # replicate 64 9)) [] [3]) = Some (Inr (at, len)) \<and>
      BlorgTlsDecodeP256SubjectPublicKeyInfo (take len (drop at
        (certificate_der None [(2, [1]), (0x30, [6]), (0x30, []), (0x30, [7]), (0x30, [])] (BlorgTlsEncodeP256SubjectPublicKeyInfo (4 # replicate 64 9)) [] [3]))) =
        Some (Inr (4 # replicate 64 9))) \<and>
   BlorgTlsParseCertificateVerifyMessage (certificate_verify_message (replicate 32 1) (0 # replicate 31 0xFF)) =
     Some (Inr (replicate 32 1 @ 0 # replicate 31 0xFF))"
proof -
  let ?key = "4 # replicate 64 9 :: UCHAR list"
  let ?cert = "certificate_der None [(2, [1]), (0x30, [6]), (0x30, []), (0x30, [7]), (0x30, [])] (BlorgTlsEncodeP256SubjectPublicKeyInfo ?key) [] [3]"
  have parts: "certificate_parts None [(2, [1]), (0x30, [6]), (0x30, []), (0x30, [7]), (0x30, [])]" by (simp add: certificate_parts_def)
  have point: "point_ok ?key" by (simp add: point_ok_def TLS_ECC_PUBKEY_LEN_def)
  have "length (BlorgTlsEncodeP256SubjectPublicKeyInfo ?key) = 91"
    by (simp add: BlorgTlsEncodeP256SubjectPublicKeyInfo_def spki_header_def)
  then have "length ?cert < 65536"
    using length_der_octets(2) by (simp add: certificate_der_def der_octets_def)
  then show ?thesis
    using tls_certificate_roundtrip [OF parts point, of "replicate 32 1" "0 # replicate 31 0xFF" ?cert "[]" "[3]" "[]"] by simp
qed

text \<open>The ClientHello that is built is, byte for byte, the message of RFC 8446 with the fields the
  client offers, each length field holding the length of what follows it; it is written exactly
  when it fits the buffer, and otherwise the buffer is refused.\<close>

theorem tls_client_hello_exact:
  assumes "length random = TLS_HANDSHAKE_RANDOM_LEN" "length publicKey = TLS_ECC_PUBKEY_LEN" "length serverName + 64 < 2 ^ 32"
  shows "BlorgTlsBuildClientHello random publicKey serverName buffer =
     (if length (client_hello random publicKey serverName) \<le> length buffer
      then Some (Inr (length (client_hello random publicKey serverName), over (client_hello random publicKey serverName) buffer))
      else Some (Inl STATUS_INVALID_PARAMETER))"
  by (rule build_client_hello [OF assms])

theorem tls_client_hello_exact_witness:
  "BlorgTlsBuildClientHello (replicate 32 7) (replicate 65 4) [0x61] (replicate 300 0) =
     Some (Inr (155, over (client_hello (replicate 32 7) (replicate 65 4) [0x61]) (replicate 300 0))) \<and>
   BlorgTlsBuildClientHello (replicate 32 7) (replicate 65 4) [0x61] (replicate 154 0) = Some (Inl STATUS_INVALID_PARAMETER)"
proof -
  have len: "length (client_hello (replicate 32 7) (replicate 65 4) [0x61]) = 155"
    by (simp add: client_hello_def hello_extensions_def)
  have h: "length (replicate 32 (7 :: UCHAR)) = TLS_HANDSHAKE_RANDOM_LEN" "length (replicate 65 (4 :: UCHAR)) = TLS_ECC_PUBKEY_LEN"
    "length [0x61 :: UCHAR] + 64 < 2 ^ 32"
    by (simp_all add: TLS_HANDSHAKE_RANDOM_LEN_def TLS_ECC_PUBKEY_LEN_def)
  show ?thesis
    using tls_client_hello_exact [OF h, of "replicate 300 0"] tls_client_hello_exact [OF h, of "replicate 154 0"]
    unfolding len length_replicate by simp
qed

text \<open>C36. Under one key no two records are sealed with the same nonce: the nonces of two sequence
  numbers differ. A record padded with any number of zeros gives back its content and its content
  type, one that is all padding is reported as such, and the comparison of verify data and pins
  answers equality.\<close>

theorem tls_records:
  assumes "length iv = TLS_IV_LEN" "m \<noteq> n" "t \<noteq> 0" "length a = length b"
  shows "TlsBuildNonce iv m \<noteq> TlsBuildNonce iv n \<and>
     BlorgTlsStripInnerPlaintext (content @ [t] @ replicate k 0) = Some (Some (t, length content)) \<and>
     BlorgTlsStripInnerPlaintext (replicate k 0) = Some None \<and>
     BlorgTlsConstantTimeEqual a b = (a = b)"
  using nonce_inj [OF assms(1)] assms(2) strip_padded [OF assms(3)] strip_all_zero constant_time_equal [OF assms(4)] by blast

theorem tls_records_witness:
  "TlsBuildNonce (replicate 12 5) 0 \<noteq> TlsBuildNonce (replicate 12 5) (2 ^ 63) \<and>
   BlorgTlsStripInnerPlaintext [7, 0, 23, 0, 0] = Some (Some (23, 2)) \<and> \<not> BlorgTlsConstantTimeEqual [1, 2] [1, 3]"
proof -
  have "length (replicate 12 (5 :: UCHAR)) = TLS_IV_LEN" "(0 :: ULONG64) \<noteq> 2 ^ 63" "(23 :: UCHAR) \<noteq> 0"
    "length [1, 2 :: UCHAR] = length [1, 3 :: UCHAR]" by (simp_all add: TLS_IV_LEN_def)
  from tls_records [OF this, of "[7, 0]" 2] show ?thesis by (simp add: numeral_2_eq_2)
qed

text \<open>The HkdfLabel structure of RFC 8446, section 7.1, and the number of blocks an output takes.\<close>

definition vec8 :: "UCHAR list \<Rightarrow> UCHAR list" where
  "vec8 bytes = of_nat (length bytes) # bytes"

definition hkdf_label_reference :: "UCHAR list \<Rightarrow> UCHAR list \<Rightarrow> USHORT \<Rightarrow> UCHAR list" where
  "hkdf_label_reference label context len = TlsPutUint16 len @ vec8 (ascii ''tls13 '' @ label) @ vec8 context"

lemma hkdf_label_is_reference: "hkdf_label label context len = hkdf_label_reference label context (ucast len)"
proof -
  have m: "(0xFF :: ULONG) = mask 8" "(0xFF :: USHORT) = mask 8" by (simp_all add: mask_eq_exp_minus_1)
  have "(ucast (drop_bit 8 len) :: UCHAR) = ucast (drop_bit 8 (ucast len :: USHORT))"
    by (intro bit_word_eqI) (auto simp: bit_simps)
  moreover have "(ucast (len AND 0xFF) :: UCHAR) = ucast ((ucast len :: USHORT) AND 0xFF)"
    unfolding m by (intro bit_word_eqI) (auto simp: bit_simps)
  ultimately show ?thesis
    by (simp add: hkdf_label_def hkdf_label_reference_def vec8_def TlsPutUint16_def ascii_def)
qed

text \<open>C37. HKDF-Expand-Label is the key expansion of RFC 8446 and RFC 5869 over any MAC of 32 bytes, for
  every output within the 255 blocks the RFC allows: the output is the first bytes of the chained
  blocks over the encoded label. Labels and contexts too long for the work buffer are refused, and a
  failure of the MAC is passed on.\<close>

theorem tls_hkdf_is_rfc:
  assumes "\<And>k m. length (mac k m) = TLS_HASH_LEN" "unat len \<le> 255 * TLS_HASH_LEN" "0 < len"
  shows "BlorgTlsHkdfExpandLabel (\<lambda>k m. Inr (mac k m)) secret label context len =
     (if length label + length context + 10 + TLS_HASH_LEN + 1 > 256 then Inl STATUS_INVALID_PARAMETER
      else Inr (take (unat len) (hkdf_blocks mac secret (hkdf_label_reference label context (ucast len)) 255))) \<and>
     (length label + length context + 10 + TLS_HASH_LEN + 1 \<le> 256 \<longrightarrow>
      BlorgTlsHkdfExpandLabel (\<lambda>k m. Inl status) secret label context len = Inl status)"
proof -
  have len: "length (hkdf_label label context len) = 10 + length label + length context" by (simp add: hkdf_label_def)
  have h: "unat len \<le> TLS_HASH_LEN * 255" using assms(2) by simp
  have pos: "0 < unat len" using assms(3) by (simp add: word_less_nat_alt)
  have fail: "expand_loop (\<lambda>k m. Inl status) secret info (unat len) [] [] 0 1 = Inl status" for info
    using pos by (subst expand_loop.simps) simp
  show ?thesis
  proof (cases "length label + length context + 10 + TLS_HASH_LEN + 1 > 256")
    case True
    then show ?thesis by (auto simp: BlorgTlsHkdfExpandLabel_def BlorgTlsHkdfExpand_def len)
  next
    case False
    then have ok: "\<not> (6 + length label > 255 \<or> length context > 255)" "length (hkdf_label label context len) + 33 \<le> 256"
      by (simp_all add: len TLS_HASH_LEN_def)
    have "BlorgTlsHkdfExpandLabel (\<lambda>k m. Inr (mac k m)) secret label context len =
       Inr (take (unat len) (hkdf_blocks mac secret (hkdf_label_reference label context (ucast len)) 255))"
      using hkdf_expand_blocks [of mac "hkdf_label label context len" "unat len" 255 secret, OF assms(1) ok(2) h] ok(1)
      by (simp add: BlorgTlsHkdfExpandLabel_def hkdf_label_is_reference)
    moreover have "BlorgTlsHkdfExpandLabel (\<lambda>k m. Inl status) secret label context len = Inl status"
      using ok fail by (simp add: BlorgTlsHkdfExpandLabel_def BlorgTlsHkdfExpand_def TLS_HASH_LEN_def)
    ultimately show ?thesis using False by simp
  qed
qed

theorem tls_hkdf_is_rfc_witness:
  "BlorgTlsHkdfExpandLabel (\<lambda>k m. Inr (replicate 32 9)) [1] [2] [3] 16 =
     Inr (take 16 (hkdf_blocks (\<lambda>k m. replicate 32 9) [1] (hkdf_label_reference [2] [3] 16) 255))"
  using tls_hkdf_is_rfc [of "\<lambda>k m. replicate 32 9" 16 "[1]" "[2]" "[3]" STATUS_INVALID_PARAMETER]
  by (simp add: TLS_HASH_LEN_def)

end
