(* ===== verification/Read_Fair.thy ===== *)
theory Read_Fair
  imports Blorg_Prelude
begin

unbundle bit_operations_syntax

text \<open>
  How fetches share the link (Read.c, ReadFair): admission of a fetch or holding it, the release of
  held reads when a fetch settles, and the reservations of reads that fetch in several runs.

  An IRP and the nonpaged node of a file are numbers; \<open>Irps\<close> and \<open>Nodes\<close> are what the code keeps in
  them. The lists of ReadFair are lists of IRPs in link order, and \<open>Queued\<close> the reads whose work item
  has been queued. Each definition that takes the lock is the whole of what the code does under it, so
  that one application of it is one atomic step.
\<close>

section \<open>State\<close>

record READ_NODE =
  ReadFinishTag :: ULONG64
  ReadFetchesInFlight :: ULONG

text \<open>Of a read IRP: its file's node, Parameters.Read.Length, DriverContext[1] and the admitted flag.\<close>

record READ_IRP =
  R_Node :: nat
  R_Length :: ULONG
  R_Start :: ULONG64
  R_Admitted :: bool

record READ_FAIR =
  InFlightBytes :: ULONG64
  VirtualTime :: ULONG64
  InFlightFetches :: ULONG
  Held :: "nat list"
  Waiting :: "nat list"
  Queued :: "nat list"
  Irps :: "nat \<Rightarrow> READ_IRP"
  Nodes :: "nat \<Rightarrow> READ_NODE"

definition READ_FAIR_MAX_FETCHES :: ULONG where "READ_FAIR_MAX_FETCHES = 32"

definition BlorgReadInit :: "READ_FAIR \<Rightarrow> READ_FAIR" where
  "BlorgReadInit s = s\<lparr>InFlightBytes := 0, VirtualTime := 0, InFlightFetches := 0, Held := [], Waiting := []\<rparr>"

abbreviation irp_node :: "READ_FAIR \<Rightarrow> nat \<Rightarrow> READ_NODE" where
  "irp_node s irp \<equiv> Nodes s (R_Node (Irps s irp))"

section \<open>Admission\<close>

definition ReadFairMustHold :: "ULONG \<Rightarrow> READ_FAIR \<Rightarrow> nat \<Rightarrow> bool \<Rightarrow> bool" where
  "ReadFairMustHold ReadFairBudget s irp mayHold =
     (let budget = (ucast ReadFairBudget :: ULONG64);
          overBudget = mayHold \<and> budget \<noteq> 0 \<and> InFlightBytes s \<ge> budget \<and> ReadFetchesInFlight (irp_node s irp) \<noteq> 0
      in overBudget \<or> InFlightFetches s \<ge> READ_FAIR_MAX_FETCHES)"

text \<open>The four changes that put a read in flight.\<close>

definition enter_flight :: "nat \<Rightarrow> READ_FAIR \<Rightarrow> READ_FAIR" where
  "enter_flight irp s =
     (let r = Irps s irp; node = irp_node s irp
      in s\<lparr>InFlightBytes := InFlightBytes s + ucast (R_Length r),
           InFlightFetches := InFlightFetches s + 1,
           Nodes := (Nodes s)(R_Node r := node\<lparr>ReadFetchesInFlight := ReadFetchesInFlight node + 1\<rparr>),
           Irps := (Irps s)(irp := r\<lparr>R_Admitted := True\<rparr>)\<rparr>)"

text \<open>Charges the fetch to its file, then holds it or admits it, as decided.\<close>

definition admit_decided :: "nat \<Rightarrow> bool \<Rightarrow> bool \<Rightarrow> READ_FAIR \<Rightarrow> READ_FAIR" where
  "admit_decided irp mayHold hold s =
     (let r = Irps s irp; node = irp_node s irp;
          start = (if ReadFinishTag node > VirtualTime s then ReadFinishTag node else VirtualTime s);
          s1 = s\<lparr>Nodes := (Nodes s)(R_Node r := node\<lparr>ReadFinishTag := start + ucast (R_Length r)\<rparr>)\<rparr>
      in if hold
         then let s2 = s1\<lparr>Irps := (Irps s1)(irp := r\<lparr>R_Start := start\<rparr>)\<rparr>
              in if mayHold then s2\<lparr>Held := Held s2 @ [irp]\<rparr> else s2\<lparr>Waiting := Waiting s2 @ [irp]\<rparr>
         else enter_flight irp (s1\<lparr>VirtualTime := start\<rparr>))"

text \<open>
  The routine as a whole. \<open>between\<close> is what other threads do to the state while the lock is dropped
  for the allocation of the work item, and \<open>allocated\<close> whether that succeeds.
\<close>

definition ReadFairAdmit ::
    "ULONG \<Rightarrow> bool \<Rightarrow> (READ_FAIR \<Rightarrow> READ_FAIR) \<Rightarrow> nat \<Rightarrow> bool \<Rightarrow> READ_FAIR \<Rightarrow> NTSTATUS \<times> READ_FAIR" where
  "ReadFairAdmit ReadFairBudget allocated between irp mayHold s =
     (if ReadFairMustHold ReadFairBudget s irp mayHold
      then if \<not> allocated then (STATUS_INSUFFICIENT_RESOURCES, between s)
           else let s' = between s; hold = ReadFairMustHold ReadFairBudget s' irp mayHold
                in (if hold then STATUS_PENDING else STATUS_SUCCESS, admit_decided irp mayHold hold s')
      else (STATUS_SUCCESS, admit_decided irp mayHold False s))"

section \<open>Release\<close>

text \<open>The scan of the held read-ahead, with the best candidate so far and its start tag.\<close>

fun held_scan :: "READ_FAIR \<Rightarrow> bool \<Rightarrow> nat list \<Rightarrow> nat option \<Rightarrow> ULONG64 \<Rightarrow> nat option \<times> ULONG64" where
  "held_scan s room [] best bestStart = (best, bestStart)"
| "held_scan s room (irp # irps) best bestStart =
     (let start = R_Start (Irps s irp)
      in if start < bestStart \<and> (room \<or> ReadFetchesInFlight (irp_node s irp) = 0)
         then held_scan s room irps (Some irp) start
         else held_scan s room irps best bestStart)"

definition next_read :: "ULONG \<Rightarrow> READ_FAIR \<Rightarrow> nat option \<times> ULONG64" where
  "next_read ReadFairBudget s =
     (case Waiting s of
        irp # _ \<Rightarrow> (Some irp, R_Start (Irps s irp))
      | [] \<Rightarrow> held_scan s (InFlightBytes s < ucast ReadFairBudget) (Held s) None (- 1))"

text \<open>One turn of the loop's body, once there is a read to admit.\<close>

definition admit_next :: "nat \<Rightarrow> ULONG64 \<Rightarrow> READ_FAIR \<Rightarrow> READ_FAIR" where
  "admit_next irp start s =
     (let s1 = (case Waiting s of _ # ws \<Rightarrow> s\<lparr>Waiting := ws\<rparr> | [] \<Rightarrow> s\<lparr>Held := remove1 irp (Held s)\<rparr>);
          s2 = (if start > VirtualTime s1 then s1\<lparr>VirtualTime := start\<rparr> else s1)
      in enter_flight irp s2)"

lemma fetches_room:
  assumes "InFlightFetches s < READ_FAIR_MAX_FETCHES"
  shows "unat (InFlightFetches (admit_next irp start s)) = Suc (unat (InFlightFetches s))"
proof -
  have "InFlightFetches (admit_next irp start s) = InFlightFetches s + 1"
    by (auto simp: admit_next_def enter_flight_def Let_def split: list.splits)
  then show ?thesis using assms unat_Suc_less [of "InFlightFetches s" READ_FAIR_MAX_FETCHES] by (simp add: word_less_nat_alt)
qed

function ReadFairAdmitHeld :: "ULONG \<Rightarrow> READ_FAIR \<Rightarrow> nat list \<Rightarrow> nat list \<times> READ_FAIR" where
  "ReadFairAdmitHeld ReadFairBudget s released =
     (if InFlightFetches s < READ_FAIR_MAX_FETCHES
      then case next_read ReadFairBudget s of
             (None, _) \<Rightarrow> (released, s)
           | (Some irp, start) \<Rightarrow> ReadFairAdmitHeld ReadFairBudget (admit_next irp start s) (released @ [irp])
      else (released, s))"
  by pat_completeness auto
termination
proof (relation "measure (\<lambda>(budget, s, released). 32 - unat (InFlightFetches s))", goal_cases)
  case (2 budget s released x start irp)
  have "unat (InFlightFetches s) < 32" using 2(1) by (simp add: READ_FAIR_MAX_FETCHES_def word_less_nat_alt)
  then show ?case using fetches_room [OF 2(1)] by simp
qed simp

declare ReadFairAdmitHeld.simps [simp del]

definition ReadFairIssueHeld :: "nat list \<times> READ_FAIR \<Rightarrow> READ_FAIR" where
  "ReadFairIssueHeld r = (case r of (released, s) \<Rightarrow> s\<lparr>Queued := Queued s @ released\<rparr>)"

definition ReadFairSettle :: "ULONG \<Rightarrow> nat \<Rightarrow> READ_FAIR \<Rightarrow> READ_FAIR" where
  "ReadFairSettle ReadFairBudget irp s =
     (if \<not> R_Admitted (Irps s irp) then s
      else let r = (Irps s irp)\<lparr>R_Admitted := False\<rparr>; node = irp_node s irp;
               s1 = s\<lparr>Irps := (Irps s)(irp := r),
                      InFlightBytes := InFlightBytes s - ucast (R_Length r),
                      InFlightFetches := InFlightFetches s - 1,
                      Nodes := (Nodes s)(R_Node r := node\<lparr>ReadFetchesInFlight := ReadFetchesInFlight node - 1\<rparr>)\<rparr>
           in ReadFairIssueHeld (ReadFairAdmitHeld ReadFairBudget s1 []))"

section \<open>Reservations\<close>

definition ReadFairReserve :: "ULONG \<Rightarrow> READ_FAIR \<Rightarrow> ULONG \<times> READ_FAIR" where
  "ReadFairReserve fetches s =
     (let room = (if InFlightFetches s < READ_FAIR_MAX_FETCHES then READ_FAIR_MAX_FETCHES - InFlightFetches s else 0);
          reserved = min fetches room
      in (reserved, s\<lparr>InFlightFetches := InFlightFetches s + reserved\<rparr>))"

definition ReadFairGiveBack :: "ULONG \<Rightarrow> ULONG \<Rightarrow> READ_FAIR \<Rightarrow> READ_FAIR" where
  "ReadFairGiveBack ReadFairBudget fetches s =
     (if fetches = 0 then s
      else ReadFairIssueHeld (ReadFairAdmitHeld ReadFairBudget (s\<lparr>InFlightFetches := InFlightFetches s - fetches\<rparr>) []))"

end
