(* ===== verification/Read_Fair_Correct.thy ===== *)
theory Read_Fair_Correct
  imports Read_Fair
begin

unbundle bit_operations_syntax

text \<open>
  The invariants of the link: exact counters, what the lists hold, bounded tags, and the condition
  under which a read may be left held. Every locked region keeps the first three, and every region
  that takes something off the link ends with the last restored.
\<close>

section \<open>The invariants\<close>

definition admitted :: "READ_FAIR \<Rightarrow> nat set" where
  "admitted s = {irp. R_Admitted (Irps s irp)}"

definition of_node :: "READ_FAIR \<Rightarrow> nat \<Rightarrow> nat set" where
  "of_node s n = {irp \<in> admitted s. R_Node (Irps s irp) = n}"

text \<open>\<open>k\<close> fetches are reserved beside those of the admitted reads.\<close>

definition counts :: "nat \<Rightarrow> READ_FAIR \<Rightarrow> bool" where
  "counts k s \<longleftrightarrow> finite (admitted s) \<and> unat (InFlightFetches s) = card (admitted s) + k \<and>
     unat (InFlightFetches s) \<le> 32 \<and>
     unat (InFlightBytes s) = (\<Sum>irp\<in>admitted s. unat (R_Length (Irps s irp))) \<and>
     (\<forall>n. unat (ReadFetchesInFlight (Nodes s n)) = card (of_node s n))"

text \<open>\<open>out\<close> are the released reads that are not yet queued.\<close>

definition listed :: "nat list \<Rightarrow> READ_FAIR \<Rightarrow> bool" where
  "listed out s \<longleftrightarrow> distinct (Held s @ Waiting s @ out @ Queued s) \<and>
     (\<forall>irp \<in> set (Held s) \<union> set (Waiting s). \<not> R_Admitted (Irps s irp)) \<and>
     (\<forall>irp \<in> set out \<union> set (Queued s). R_Admitted (Irps s irp))"

text \<open>No tag exceeds the bytes charged so far.\<close>

definition tags :: "nat \<Rightarrow> READ_FAIR \<Rightarrow> bool" where
  "tags charged s \<longleftrightarrow> unat (VirtualTime s) \<le> charged \<and> (\<forall>n. unat (ReadFinishTag (Nodes s n)) \<le> charged) \<and>
     (\<forall>irp \<in> set (Held s) \<union> set (Waiting s). unat (R_Start (Irps s irp)) \<le> charged)"

definition calm :: "ULONG \<Rightarrow> READ_FAIR \<Rightarrow> bool" where
  "calm ReadFairBudget s \<longleftrightarrow> unat (InFlightFetches s) < 32 \<longrightarrow>
     Waiting s = [] \<and> (\<forall>irp\<in>set (Held s). ReadFetchesInFlight (irp_node s irp) \<noteq> 0) \<and>
     (Held s \<noteq> [] \<longrightarrow> ucast ReadFairBudget \<le> InFlightBytes s)"

lemma max_fetches [simp]: "unat READ_FAIR_MAX_FETCHES = 32" by (simp add: READ_FAIR_MAX_FETCHES_def)

lemma fetches_less [simp]: "x < READ_FAIR_MAX_FETCHES \<longleftrightarrow> unat x < 32" "READ_FAIR_MAX_FETCHES \<le> x \<longleftrightarrow> 32 \<le> unat x"
  by (simp_all add: word_less_nat_alt word_le_nat_alt)

section \<open>Entering and leaving the link\<close>

lemma lengths_small:
  assumes "finite A" "card A \<le> 32"
  shows "(\<Sum>irp\<in>A. unat (f irp :: ULONG)) < 2 ^ 40"
proof -
  have "(\<Sum>irp\<in>A. unat (f irp)) \<le> card A * (2 ^ 32 - 1)"
  proof -
    have "unat (f irp) \<le> 2 ^ 32 - 1" for irp using unsigned_less [of "f irp", where 'a = nat] by simp
    then show ?thesis using sum_bounded_above [of A "\<lambda>irp. unat (f irp)" "2 ^ 32 - 1"] by simp
  qed
  also have "\<dots> \<le> 32 * (2 ^ 32 - 1)" using assms(2) by simp
  also have "\<dots> < 2 ^ 40" by simp
  finally show ?thesis .
qed

lemma admitted_enter: "admitted (enter_flight irp s) = insert irp (admitted s)"
  by (auto simp: admitted_def enter_flight_def Let_def)

lemma of_node_enter:
  "of_node (enter_flight irp s) n = (if n = R_Node (Irps s irp) then insert irp (of_node s n) else of_node s n - {irp})"
  by (auto simp: of_node_def admitted_def enter_flight_def Let_def)

lemma enter_fields [simp]:
  "R_Length (Irps (enter_flight irp s) i) = R_Length (Irps s i)" "R_Node (Irps (enter_flight irp s) i) = R_Node (Irps s i)"
  "R_Start (Irps (enter_flight irp s) i) = R_Start (Irps s i)"
  "R_Admitted (Irps (enter_flight irp s) i) = (i = irp \<or> R_Admitted (Irps s i))"
  "ReadFinishTag (Nodes (enter_flight irp s) n) = ReadFinishTag (Nodes s n)"
  "Held (enter_flight irp s) = Held s" "Waiting (enter_flight irp s) = Waiting s" "Queued (enter_flight irp s) = Queued s"
  "VirtualTime (enter_flight irp s) = VirtualTime s" "InFlightFetches (enter_flight irp s) = InFlightFetches s + 1"
  by (simp_all add: enter_flight_def Let_def)

lemma counts_enter:
  assumes c: "counts k s" and new: "\<not> R_Admitted (Irps s irp)" and room: "unat (InFlightFetches s) < 32"
  shows "counts k (enter_flight irp s)"
proof -
  have fin: "finite (admitted s)" and notin: "irp \<notin> admitted s" and f: "unat (InFlightFetches s) = card (admitted s) + k"
    and b: "unat (InFlightBytes s) = (\<Sum>irp\<in>admitted s. unat (R_Length (Irps s irp)))"
    and n: "\<And>n. unat (ReadFetchesInFlight (Nodes s n)) = card (of_node s n)"
    using c new by (simp_all add: counts_def admitted_def)
  have fetches: "unat (InFlightFetches s + 1) = Suc (unat (InFlightFetches s))"
    using unat_Suc_less [of "InFlightFetches s" READ_FAIR_MAX_FETCHES] room by simp
  have finn: "finite (of_node s m)" and notn: "irp \<notin> of_node s m" for m using fin notin by (simp_all add: of_node_def)
  have cn: "card (of_node s m) \<le> card (admitted s)" for m by (rule card_mono [OF fin]) (auto simp: of_node_def)
  have small: "unat (InFlightBytes s) < 2 ^ 40" unfolding b using fin f room by (intro lengths_small) simp_all
  have len: "unat (R_Length (Irps s irp)) < 2 ^ 32" using unsigned_less [of "R_Length (Irps s irp)"] by simp
  have "unat (InFlightBytes s + ucast (R_Length (Irps s irp))) = unat (InFlightBytes s) + unat (R_Length (Irps s irp))"
    using small len by (simp add: unat_word_ariths unat_ucast_up)
  then have bytes: "unat (InFlightBytes (enter_flight irp s)) = (\<Sum>i\<in>admitted (enter_flight irp s). unat (R_Length (Irps (enter_flight irp s) i)))"
    using fin notin b by (simp add: admitted_enter) (simp add: enter_flight_def Let_def)
  have node: "unat (ReadFetchesInFlight (Nodes (enter_flight irp s) m)) = card (of_node (enter_flight irp s) m)" for m
  proof (cases "m = R_Node (Irps s irp)")
    case True
    have "unat (ReadFetchesInFlight (Nodes s m)) < 32" using n [of m] cn [of m] f room by simp
    then have "unat (ReadFetchesInFlight (Nodes s m) + 1) = Suc (unat (ReadFetchesInFlight (Nodes s m)))"
      using unat_Suc_less [of "ReadFetchesInFlight (Nodes s m)" READ_FAIR_MAX_FETCHES] by simp
    then show ?thesis using True n [of m] finn [of m] notn [of m] by (simp add: of_node_enter) (simp add: enter_flight_def Let_def)
  next
    case False
    then show ?thesis using n [of m] notn [of m] by (simp add: of_node_enter) (simp add: enter_flight_def Let_def)
  qed
  show ?thesis
    using fin notin f room fetches bytes node by (simp add: counts_def admitted_enter)
qed

text \<open>What ReadFairSettle does before it releases held reads.\<close>

definition leave_flight :: "nat \<Rightarrow> READ_FAIR \<Rightarrow> READ_FAIR" where
  "leave_flight irp s =
     (let r = (Irps s irp)\<lparr>R_Admitted := False\<rparr>; node = irp_node s irp
      in s\<lparr>Irps := (Irps s)(irp := r), InFlightBytes := InFlightBytes s - ucast (R_Length r),
           InFlightFetches := InFlightFetches s - 1,
           Nodes := (Nodes s)(R_Node r := node\<lparr>ReadFetchesInFlight := ReadFetchesInFlight node - 1\<rparr>)\<rparr>)"

lemma settle_alt:
  "ReadFairSettle B irp s =
     (if R_Admitted (Irps s irp) then ReadFairIssueHeld (ReadFairAdmitHeld B (leave_flight irp s) []) else s)"
  by (simp add: ReadFairSettle_def leave_flight_def Let_def)

lemma leave_fields [simp]:
  "R_Length (Irps (leave_flight irp s) i) = R_Length (Irps s i)" "R_Node (Irps (leave_flight irp s) i) = R_Node (Irps s i)"
  "R_Start (Irps (leave_flight irp s) i) = R_Start (Irps s i)"
  "R_Admitted (Irps (leave_flight irp s) i) = (i \<noteq> irp \<and> R_Admitted (Irps s i))"
  "ReadFinishTag (Nodes (leave_flight irp s) n) = ReadFinishTag (Nodes s n)"
  "Held (leave_flight irp s) = Held s" "Waiting (leave_flight irp s) = Waiting s" "Queued (leave_flight irp s) = Queued s"
  "VirtualTime (leave_flight irp s) = VirtualTime s"
  by (simp_all add: leave_flight_def Let_def)

lemma counts_leave:
  assumes c: "counts k s" and old: "R_Admitted (Irps s irp)"
  shows "counts k (leave_flight irp s)"
proof -
  have fin: "finite (admitted s)" and isin: "irp \<in> admitted s" and f: "unat (InFlightFetches s) = card (admitted s) + k"
    and le: "unat (InFlightFetches s) \<le> 32"
    and b: "unat (InFlightBytes s) = (\<Sum>irp\<in>admitted s. unat (R_Length (Irps s irp)))"
    and n: "\<And>n. unat (ReadFetchesInFlight (Nodes s n)) = card (of_node s n)"
    using c old by (simp_all add: counts_def admitted_def)
  have adm: "admitted (leave_flight irp s) = admitted s - {irp}" by (auto simp: admitted_def)
  have nodes: "of_node (leave_flight irp s) m = of_node s m - {irp}" for m by (auto simp: of_node_def adm)
  have pos: "0 < card (admitted s)" using fin isin by (auto simp: card_gt_0_iff)
  have fetches: "unat (InFlightFetches (leave_flight irp s)) = unat (InFlightFetches s) - 1"
    using unat_minus_le [of 1 "InFlightFetches s"] pos f by (simp add: leave_flight_def Let_def word_le_nat_alt)
  have part: "unat (R_Length (Irps s irp)) \<le> unat (InFlightBytes s)"
    unfolding b by (rule member_le_sum [OF isin]) (simp_all add: fin)
  have bytes: "unat (InFlightBytes (leave_flight irp s)) = unat (InFlightBytes s) - unat (R_Length (Irps s irp))"
    using unat_minus_le [of "ucast (R_Length (Irps s irp))" "InFlightBytes s"] part
    by (simp add: leave_flight_def Let_def word_le_nat_alt unat_ucast_up)
  have node: "unat (ReadFetchesInFlight (Nodes (leave_flight irp s) m)) = card (of_node (leave_flight irp s) m)" for m
  proof (cases "m = R_Node (Irps s irp)")
    case True
    have fm: "finite (of_node s m)" using fin by (simp add: of_node_def)
    have i: "irp \<in> of_node s m" using isin True by (simp add: of_node_def)
    then have "0 < card (of_node s m)" using fm by (auto simp: card_gt_0_iff)
    then have "unat (ReadFetchesInFlight (Nodes s m) - 1) = unat (ReadFetchesInFlight (Nodes s m)) - 1"
      using unat_minus_le [of 1 "ReadFetchesInFlight (Nodes s m)"] n [of m] by (simp add: word_le_nat_alt)
    then show ?thesis using True i fm n [of m] by (simp add: nodes card_Diff_singleton) (simp add: leave_flight_def Let_def)
  next
    case False
    then have "irp \<notin> of_node s m" by (simp add: of_node_def)
    then show ?thesis using False n [of m] by (simp add: nodes) (simp add: leave_flight_def Let_def)
  qed
  have sum: "(\<Sum>i\<in>admitted s - {irp}. unat (R_Length (Irps s i))) = unat (InFlightBytes s) - unat (R_Length (Irps s irp))"
    unfolding b using sum.remove [OF fin isin, of "\<lambda>i. unat (R_Length (Irps s i))"] by simp
  show ?thesis
    using fin isin f le pos fetches bytes node sum by (simp add: counts_def adm card_Diff_singleton)
qed

section \<open>The read that goes next\<close>

definition eligible :: "READ_FAIR \<Rightarrow> bool \<Rightarrow> nat \<Rightarrow> bool" where
  "eligible s room irp \<longleftrightarrow> room \<or> ReadFetchesInFlight (irp_node s irp) = 0"

text \<open>The scan picks the earliest of the eligible reads with the lowest start tag.\<close>

lemma held_scan_None:
  "held_scan s room irps best bestStart = (None, st) \<Longrightarrow>
   best = None \<and> st = bestStart \<and> (\<forall>irp\<in>set irps. eligible s room irp \<longrightarrow> bestStart \<le> R_Start (Irps s irp))"
proof (induction s room irps best bestStart rule: held_scan.induct)
  case (2 s room irp irps best bestStart)
  show ?case
  proof (cases "R_Start (Irps s irp) < bestStart \<and> eligible s room irp")
    case True
    then show ?thesis using 2 by (auto simp: Let_def eligible_def)
  next
    case False
    then have e: "held_scan s room irps best bestStart = (None, st)" using 2(3) by (auto simp: Let_def eligible_def split: if_splits)
    have "eligible s room irp \<longrightarrow> bestStart \<le> R_Start (Irps s irp)" using False by auto
    then show ?thesis using 2(2) [OF refl _ e] False by (auto simp: eligible_def)
  qed
qed simp

lemma held_scan_Some:
  "held_scan s room irps best bestStart = (Some i, st) \<Longrightarrow>
   (best = Some i \<and> st = bestStart \<or> i \<in> set irps \<and> eligible s room i \<and> st = R_Start (Irps s i) \<and> st < bestStart) \<and>
   st \<le> bestStart \<and> (\<forall>irp\<in>set irps. eligible s room irp \<longrightarrow> st \<le> R_Start (Irps s irp))"
proof (induction s room irps best bestStart rule: held_scan.induct)
  case (2 s room irp irps best bestStart)
  show ?case
  proof (cases "R_Start (Irps s irp) < bestStart \<and> eligible s room irp")
    case True
    then show ?thesis using 2 by (auto simp: Let_def eligible_def)
  next
    case False
    then have e: "held_scan s room irps best bestStart = (Some i, st)" using 2(3) by (auto simp: Let_def eligible_def split: if_splits)
    have "eligible s room irp \<longrightarrow> bestStart \<le> R_Start (Irps s irp)" using False by auto
    then show ?thesis using 2(2) [OF refl _ e] False by (auto simp: eligible_def)
  qed
qed simp

abbreviation link_room :: "ULONG \<Rightarrow> READ_FAIR \<Rightarrow> bool" where
  "link_room ReadFairBudget s \<equiv> InFlightBytes s < ucast ReadFairBudget"

lemma next_read_None:
  assumes "next_read B s = (None, st)" "tags charged s" "charged < 2 ^ 64 - 1"
  shows "Waiting s = []" "\<forall>irp\<in>set (Held s). \<not> eligible s (link_room B s) irp"
proof -
  show w: "Waiting s = []" using assms(1) by (auto simp: next_read_def split: list.splits)
  show "\<forall>irp\<in>set (Held s). \<not> eligible s (link_room B s) irp"
  proof
    fix irp assume i: "irp \<in> set (Held s)"
    have "unat (R_Start (Irps s irp)) \<le> charged" using assms(2) i by (simp add: tags_def)
    then have "unat (R_Start (Irps s irp)) < unat (- 1 :: ULONG64)"
      using assms(3) by (simp add: unsigned_minus_1_eq_mask mask_eq_exp_minus_1)
    then have "R_Start (Irps s irp) < - 1" by (simp add: word_less_nat_alt)
    then show "\<not> eligible s (link_room B s) irp"
      using held_scan_None [of s "link_room B s" "Held s" None "- 1" st] assms(1) w i by (auto simp: next_read_def)
  qed
qed

lemma next_read_Some:
  assumes "next_read B s = (Some irp, st)"
  shows "st = R_Start (Irps s irp)"
    and "Waiting s = irp # tl (Waiting s) \<or> Waiting s = [] \<and> irp \<in> set (Held s) \<and> eligible s (link_room B s) irp \<and>
      (\<forall>i\<in>set (Held s). eligible s (link_room B s) i \<longrightarrow> R_Start (Irps s irp) \<le> R_Start (Irps s i))"
  using assms held_scan_Some [of s "link_room B s" "Held s" None "- 1" irp st] by (auto simp: next_read_def split: list.splits)

section \<open>The loop\<close>

lemma admit_next_fields:
  "Irps (admit_next irp st s) = Irps (enter_flight irp s)" "Nodes (admit_next irp st s) = Nodes (enter_flight irp s)"
  "InFlightBytes (admit_next irp st s) = InFlightBytes (enter_flight irp s)"
  "InFlightFetches (admit_next irp st s) = InFlightFetches (enter_flight irp s)" "Queued (admit_next irp st s) = Queued s"
  "Held (admit_next irp st s) = (if Waiting s = [] then remove1 irp (Held s) else Held s)"
  "Waiting (admit_next irp st s) = tl (Waiting s)"
  "VirtualTime (admit_next irp st s) = max st (VirtualTime s)"
  by (auto simp: admit_next_def enter_flight_def Let_def max_def split: list.splits)

lemma counts_cong:
  assumes "\<And>i. R_Admitted (Irps t i) = R_Admitted (Irps s i)" "\<And>i. R_Length (Irps t i) = R_Length (Irps s i)"
    "\<And>i. R_Node (Irps t i) = R_Node (Irps s i)" "\<And>n. ReadFetchesInFlight (Nodes t n) = ReadFetchesInFlight (Nodes s n)"
    "InFlightBytes t = InFlightBytes s" "InFlightFetches t = InFlightFetches s"
  shows "counts k t = counts k s"
  using assms by (simp add: counts_def admitted_def of_node_def)

lemma step_counts:
  assumes "next_read B s = (Some irp, st)" "counts k s" "listed out s" "unat (InFlightFetches s) < 32"
  shows "counts k (admit_next irp st s)"
proof -
  have "irp \<in> set (Held s) \<union> set (Waiting s)" using next_read_Some(2) [OF assms(1)] by (metis UnCI list.set_intros(1))
  then have "\<not> R_Admitted (Irps s irp)" using assms(3) by (auto simp: listed_def)
  then have "counts k (enter_flight irp s)" using assms(2,4) by (intro counts_enter)
  then show ?thesis using counts_cong [of "admit_next irp st s" "enter_flight irp s"] by (simp add: admit_next_fields)
qed

lemma step_listed:
  assumes nx: "next_read B s = (Some irp, st)" and l: "listed out s"
  shows "listed (out @ [irp]) (admit_next irp st s)"
proof (cases "Waiting s")
  case Nil
  then have "irp \<in> set (Held s)" using next_read_Some(2) [OF nx] by simp
  then show ?thesis using l Nil by (auto simp: listed_def admit_next_fields)
next
  case (Cons w ws)
  then have "w = irp" using next_read_Some(2) [OF nx] by simp
  then show ?thesis using l Cons by (auto simp: listed_def admit_next_fields)
qed

lemma step_tags:
  assumes nx: "next_read B s = (Some irp, st)" and t: "tags charged s"
  shows "tags charged (admit_next irp st s)"
proof -
  have "irp \<in> set (Held s) \<union> set (Waiting s)" using next_read_Some(2) [OF nx] by (metis UnCI list.set_intros(1))
  then have "unat st \<le> charged" using t next_read_Some(1) [OF nx] by (auto simp: tags_def)
  moreover have "set (Held (admit_next irp st s)) \<subseteq> set (Held s)"
    using set_remove1_subset [of irp "Held s"] by (simp add: admit_next_fields)
  moreover have "set (Waiting (admit_next irp st s)) \<subseteq> set (Waiting s)"
    by (cases "Waiting s") (auto simp: admit_next_fields)
  moreover have "R_Start (Irps (admit_next irp st s) i) = R_Start (Irps s i)"
    "ReadFinishTag (Nodes (admit_next irp st s) n) = ReadFinishTag (Nodes s n)"
    "unat (VirtualTime (admit_next irp st s)) = max (unat st) (unat (VirtualTime s))" for i n
    by (simp_all add: admit_next_fields max_def word_le_nat_alt)
  ultimately show ?thesis using t unfolding tags_def by (metis (no_types, lifting) UnE UnI1 UnI2 max.bounded_iff subsetD)
qed

lemma admit_held_keeps:
  assumes "counts k s" "listed out s" "tags charged s" "charged < 2 ^ 64 - 1" "ReadFairAdmitHeld B s out = (out', s')"
  shows "counts k s' \<and> listed out' s' \<and> tags charged s' \<and> calm B s'"
  using assms
proof (induction B s out rule: ReadFairAdmitHeld.induct)
  case (1 B s out)
  show ?case
  proof (cases "unat (InFlightFetches s) < 32")
    case False
    then show ?thesis using 1(2-6) by (subst (asm) ReadFairAdmitHeld.simps) (simp add: calm_def)
  next
    case True
    obtain nx st where nx: "next_read B s = (nx, st)" by fastforce
    show ?thesis
    proof (cases nx)
      case None
      then have "out' = out" "s' = s" using 1(6) True nx by (subst (asm) ReadFairAdmitHeld.simps, simp)+
      moreover have "calm B s"
        using next_read_None [of B s st charged] nx None 1(4,5)
        by (cases "Held s") (auto simp: calm_def eligible_def linorder_not_less)
      ultimately show ?thesis using 1(2-4) by simp
    next
      case (Some irp)
      have run: "ReadFairAdmitHeld B (admit_next irp st s) (out @ [irp]) = (out', s')"
        using 1(6) True nx Some by (subst (asm) ReadFairAdmitHeld.simps) simp
      have nx': "next_read B s = (Some irp, st)" using nx Some by simp
      show ?thesis
        using 1(1) [OF _ nx [symmetric] Some step_counts [OF nx' 1(2,3) True] step_listed [OF nx' 1(3)] step_tags [OF nx' 1(4)] 1(5) run] True by simp
    qed
  qed
qed

section \<open>The locked regions\<close>

text \<open>Everything that holds of the link between two of its locked regions.\<close>

definition fair_inv :: "ULONG \<Rightarrow> nat \<Rightarrow> nat \<Rightarrow> READ_FAIR \<Rightarrow> bool" where
  "fair_inv B k charged s \<longleftrightarrow> counts k s \<and> listed [] s \<and> tags charged s \<and> calm B s"

lemma issue_held_inv:
  assumes "counts k s" "listed [] s" "tags charged s" "charged < 2 ^ 64 - 1"
  shows "fair_inv B k charged (ReadFairIssueHeld (ReadFairAdmitHeld B s []))"
proof -
  obtain out s' where r: "ReadFairAdmitHeld B s [] = (out, s')" by fastforce
  from admit_held_keeps [OF assms r] have k: "counts k s'" "listed out s'" "tags charged s'" "calm B s'" by simp_all
  define t where "t = s'\<lparr>Queued := Queued s' @ out\<rparr>"
  have "counts k t" using k(1) counts_cong [of t s'] by (simp add: t_def)
  moreover have "listed [] t" using k(2) by (auto simp: listed_def t_def)
  moreover have "tags charged t" "calm B t" using k(3,4) by (simp_all add: tags_def calm_def t_def)
  ultimately show ?thesis using r by (simp add: fair_inv_def ReadFairIssueHeld_def t_def)
qed

lemma settle_inv:
  assumes i: "fair_inv B k charged s" and c: "charged < 2 ^ 64 - 1" and q: "irp \<notin> set (Queued s)"
  shows "fair_inv B k charged (ReadFairSettle B irp s)"
proof (cases "R_Admitted (Irps s irp)")
  case False
  then show ?thesis using i by (simp add: settle_alt)
next
  case True
  have "counts k (leave_flight irp s)" using counts_leave True i by (simp add: fair_inv_def)
  moreover have "listed [] (leave_flight irp s)" using i q by (auto simp: listed_def fair_inv_def)
  moreover have "tags charged (leave_flight irp s)" using i by (simp add: fair_inv_def tags_def)
  ultimately show ?thesis using issue_held_inv [OF _ _ _ c] True by (simp add: settle_alt)
qed

lemma give_back_inv:
  assumes i: "fair_inv B k charged s" and c: "charged < 2 ^ 64 - 1" and n: "unat n \<le> k"
  shows "fair_inv B (k - unat n) charged (ReadFairGiveBack B n s)"
proof (cases "n = 0")
  case True
  then show ?thesis using i by (simp add: ReadFairGiveBack_def)
next
  case False
  define t where "t = s\<lparr>InFlightFetches := InFlightFetches s - n\<rparr>"
  have cs: "counts k s" using i by (simp add: fair_inv_def)
  then have "unat n \<le> unat (InFlightFetches s)" using n by (simp add: counts_def)
  then have "unat (InFlightFetches s - n) = unat (InFlightFetches s) - unat n" by (intro unat_minus_le) (simp add: word_le_nat_alt)
  then have "counts (k - unat n) t" using cs n by (auto simp: counts_def t_def admitted_def of_node_def)
  moreover have "listed [] t" "tags charged t" using i by (simp_all add: fair_inv_def listed_def tags_def t_def)
  ultimately show ?thesis using issue_held_inv [OF _ _ _ c, of "k - unat n" t B] False by (simp add: ReadFairGiveBack_def t_def)
qed

lemma reserve_inv:
  assumes i: "fair_inv B k charged s" and r: "ReadFairReserve n s = (reserved, t)"
  shows "fair_inv B (k + unat reserved) charged t" "reserved \<le> n"
proof -
  have le: "unat (InFlightFetches s) \<le> 32" using i by (simp add: fair_inv_def counts_def)
  have t: "t = s\<lparr>InFlightFetches := InFlightFetches s + reserved\<rparr>" and
    res: "reserved = min n (if InFlightFetches s < READ_FAIR_MAX_FETCHES then READ_FAIR_MAX_FETCHES - InFlightFetches s else 0)"
    using r by (simp_all add: ReadFairReserve_def Let_def del: fetches_less) metis+
  show "reserved \<le> n" by (simp add: res)
  have "unat reserved \<le> 32 - unat (InFlightFetches s)"
  proof (cases "unat (InFlightFetches s) < 32")
    case True
    have "unat (READ_FAIR_MAX_FETCHES - InFlightFetches s) = 32 - unat (InFlightFetches s)"
      using unat_minus_le [of "InFlightFetches s" READ_FAIR_MAX_FETCHES] True by (simp add: word_le_nat_alt)
    moreover have "reserved \<le> READ_FAIR_MAX_FETCHES - InFlightFetches s" using True by (simp add: res)
    ultimately show ?thesis by (simp add: word_le_nat_alt)
  next
    case False
    then show ?thesis by (simp add: res)
  qed
  then have sum: "unat (InFlightFetches s) + unat reserved \<le> 32" using le by linarith
  then have f: "unat (InFlightFetches t) = unat (InFlightFetches s) + unat reserved"
    using unat_add_lem [of "InFlightFetches s" reserved] by (simp add: t)
  have same: "admitted t = admitted s" "of_node t = of_node s" by (simp_all add: t admitted_def of_node_def fun_eq_iff)
  have "counts k s" using i by (simp add: fair_inv_def)
  then have "counts (k + unat reserved) t" using f sum unfolding counts_def same by (simp add: t)
  moreover have "listed [] t" "tags charged t" using i by (simp_all add: fair_inv_def listed_def tags_def t)
  moreover have "calm B t"
  proof -
    have "calm B s" using i by (simp add: fair_inv_def)
    then show ?thesis using f unfolding calm_def by (simp add: t)
  qed
  ultimately show "fair_inv B (k + unat reserved) charged t" by (simp add: fair_inv_def)
qed

text \<open>Charging a read of length at most what is added to the bytes charged.\<close>

definition charge :: "nat \<Rightarrow> READ_FAIR \<Rightarrow> READ_FAIR" where
  "charge irp s =
     (let node = irp_node s irp
      in s\<lparr>Nodes := (Nodes s)(R_Node (Irps s irp) :=
           node\<lparr>ReadFinishTag := max (ReadFinishTag node) (VirtualTime s) + ucast (R_Length (Irps s irp))\<rparr>)\<rparr>)"

definition start_tag :: "nat \<Rightarrow> READ_FAIR \<Rightarrow> ULONG64" where
  "start_tag irp s = max (ReadFinishTag (irp_node s irp)) (VirtualTime s)"

lemma admit_decided_alt:
  "admit_decided irp mayHold hold s =
     (if hold
      then let s2 = (charge irp s)\<lparr>Irps := (Irps s)(irp := (Irps s irp)\<lparr>R_Start := start_tag irp s\<rparr>)\<rparr>
           in if mayHold then s2\<lparr>Held := Held s @ [irp]\<rparr> else s2\<lparr>Waiting := Waiting s @ [irp]\<rparr>
      else enter_flight irp ((charge irp s)\<lparr>VirtualTime := start_tag irp s\<rparr>))"
proof -
  have m: "(if ReadFinishTag n > v then ReadFinishTag n else v) = max (ReadFinishTag n) v" for n :: READ_NODE and v
    by (auto simp: max_def)
  show ?thesis by (simp add: admit_decided_def charge_def start_tag_def Let_def m)
qed

lemma charge_fields [simp]:
  "Irps (charge irp s) = Irps s" "Held (charge irp s) = Held s" "Waiting (charge irp s) = Waiting s" "Queued (charge irp s) = Queued s"
  "InFlightBytes (charge irp s) = InFlightBytes s" "InFlightFetches (charge irp s) = InFlightFetches s"
  "VirtualTime (charge irp s) = VirtualTime s" "ReadFetchesInFlight (Nodes (charge irp s) n) = ReadFetchesInFlight (Nodes s n)"
  by (simp_all add: charge_def Let_def)

lemma charge_tags:
  assumes t: "tags charged s" and c: "charged + unat (R_Length (Irps s irp)) < 2 ^ 64"
  shows "unat (ReadFinishTag (Nodes (charge irp s) n)) \<le> charged + unat (R_Length (Irps s irp))"
    and "unat (start_tag irp s) \<le> charged"
proof -
  show st: "unat (start_tag irp s) \<le> charged" using t by (auto simp: tags_def start_tag_def max_def)
  have "unat (start_tag irp s + ucast (R_Length (Irps s irp))) = unat (start_tag irp s) + unat (R_Length (Irps s irp))"
    using unat_add_lem [of "start_tag irp s" "ucast (R_Length (Irps s irp))"] st c by (simp add: unat_ucast_up)
  then show "unat (ReadFinishTag (Nodes (charge irp s) n)) \<le> charged + unat (R_Length (Irps s irp))"
    using t st by (auto simp: tags_def charge_def Let_def start_tag_def trans_le_add1)
qed

lemma calm_enter:
  assumes c: "counts k s" and new: "\<not> R_Admitted (Irps s irp)" and room: "unat (InFlightFetches s) < 32" and calm: "calm B s"
  shows "calm B (enter_flight irp s)"
proof -
  let ?t = "enter_flight irp s"
  have ct: "counts k ?t" by (rule counts_enter [OF c new room])
  have fin: "finite (admitted ?t)" "finite (of_node ?t n)" for n using ct by (simp_all add: counts_def of_node_def)
  have "(\<Sum>i\<in>admitted s. unat (R_Length (Irps s i))) \<le> (\<Sum>i\<in>admitted ?t. unat (R_Length (Irps s i)))"
    by (rule sum_mono2 [OF fin(1)]) (auto simp: admitted_enter)
  then have bytes: "InFlightBytes s \<le> InFlightBytes ?t" using c ct by (simp add: counts_def word_le_nat_alt)
  have node: "ReadFetchesInFlight (Nodes ?t n) \<noteq> 0" if "ReadFetchesInFlight (Nodes s n) \<noteq> 0" for n
  proof -
    have "of_node s n \<subseteq> of_node ?t n" using new by (auto simp: of_node_def admitted_def)
    then have "card (of_node s n) \<le> card (of_node ?t n)" by (rule card_mono [OF fin(2)])
    then have "unat (ReadFetchesInFlight (Nodes s n)) \<le> unat (ReadFetchesInFlight (Nodes ?t n))" using c ct by (simp add: counts_def)
    then show ?thesis using that by (metis unat_eq_zero le_zero_eq)
  qed
  have "Waiting s = []" "\<forall>i\<in>set (Held s). ReadFetchesInFlight (irp_node s i) \<noteq> 0" "Held s \<noteq> [] \<longrightarrow> ucast B \<le> InFlightBytes s"
    using calm room by (simp_all add: calm_def)
  then show ?thesis using bytes node by (auto simp: calm_def intro: order_trans)
qed

lemma admit_inv:
  assumes i: "fair_inv B k charged s" and c: "charged + unat (R_Length (Irps s irp)) < 2 ^ 64"
    and new: "\<not> R_Admitted (Irps s irp)" "irp \<notin> set (Held s)" "irp \<notin> set (Waiting s)"
    and hold: "hold = ReadFairMustHold B s irp mayHold"
  shows "fair_inv B k (charged + unat (R_Length (Irps s irp))) (admit_decided irp mayHold hold s)"
proof -
  let ?c = "charged + unat (R_Length (Irps s irp))"
  let ?t = "admit_decided irp mayHold hold s"
  have inv: "counts k s" "listed [] s" "tags charged s" "calm B s" using i by (simp_all add: fair_inv_def)
  note ct = charge_tags [OF inv(3) c]
  have q: "irp \<notin> set (Queued s)" using inv(2) new(1) by (auto simp: listed_def)
  have tags: "tags ?c ?t"
    using inv(3) ct(1) ct(2) by (auto simp: tags_def admit_decided_alt Let_def trans_le_add1)
  show ?thesis
  proof (cases hold)
    case False
    then have t: "?t = enter_flight irp ((charge irp s)\<lparr>VirtualTime := start_tag irp s\<rparr>)" by (simp add: admit_decided_alt)
    have room: "unat (InFlightFetches s) < 32" using False hold by (auto simp: ReadFairMustHold_def Let_def)
    have "counts k ((charge irp s)\<lparr>VirtualTime := start_tag irp s\<rparr>)"
      using inv(1) by (simp add: counts_def admitted_def of_node_def)
    then have "counts k ?t" unfolding t by (rule counts_enter) (use new room in simp_all)
    moreover have "listed [] ?t" using inv(2) new by (auto simp: t listed_def)
    moreover have "calm B ?t"
      unfolding t by (rule calm_enter [where k = k]) (use inv(4) new \<open>counts k ((charge irp s)\<lparr>VirtualTime := start_tag irp s\<rparr>)\<close> in \<open>simp_all add: calm_def room\<close>)
    ultimately show ?thesis using tags by (simp add: fair_inv_def)
  next
    case True
    have "counts k ?t" using inv(1) True counts_cong [of ?t s k] by (simp add: admit_decided_alt Let_def)
    moreover have "listed [] ?t" using inv(2) True new q by (auto simp: listed_def admit_decided_alt Let_def)
    moreover have "calm B ?t"
      using inv(4) True hold by (auto simp: calm_def admit_decided_alt ReadFairMustHold_def Let_def)
    ultimately show ?thesis using tags by (simp add: fair_inv_def)
  qed
qed

end
