(* ===== verification/Read_Protocol.thy ===== *)
theory Read_Protocol
  imports Read_Fair_Correct
begin

unbundle bit_operations_syntax

text \<open>
  The life of a non-cached read (Read.c) from the moment it is marked pending to its completion, with
  every read of the volume on its way at once. A read is in one phase: the program point its thread,
  work item or completion has reached. A step is one locked region of one read, or the answer of the
  disk cache or the client, so that every interleaving of the code is a sequence of steps.
\<close>

section \<open>Phases\<close>

text \<open>What a thread that owns an admitted read offers the disk cache before it fetches.\<close>

datatype read_offer = NoOffer | OfferRuns | OfferAgain

datatype read_phase =
    Absent
  | Arriving bool                \<comment> \<open>marked pending, not yet offered to the disk cache; speculative or not\<close>
  | Admitting bool read_offer    \<comment> \<open>about to ask for admission\<close>
  | Allocating bool read_offer   \<comment> \<open>found it must be held, allocating the work item\<close>
  | Parked                       \<comment> \<open>held, waiting, or released with its work item queued\<close>
  | Issuing read_offer           \<comment> \<open>admitted, owned by a thread\<close>
  | Offering ULONG               \<comment> \<open>offered to the disk cache in part, with so many fetches reserved\<close>
  | Fetching                     \<comment> \<open>the client has it\<close>
  | Serving ULONG                \<comment> \<open>the disk cache has it, with so many fetches\<close>
  | DiskDone NTSTATUS bool       \<comment> \<open>the disk cache is done with it; whether to fetch it whole instead\<close>
  | Refetching                   \<comment> \<open>queued for ReadRefetchWorker\<close>
  | Completed NTSTATUS

text \<open>\<open>W_Owed\<close> are reservations that threads in ReadFromDiskCache have still to give back, \<open>W_Charged\<close> the
  bytes charged to files since the driver started.\<close>

record READ_WORLD =
  W_Fair :: READ_FAIR
  W_Phase :: "nat \<Rightarrow> read_phase"
  W_Owed :: "ULONG list"
  W_Reads :: "nat set"
  W_Charged :: nat

definition set_phase :: "nat \<Rightarrow> read_phase \<Rightarrow> READ_WORLD \<Rightarrow> READ_WORLD" where
  "set_phase irp p w = w\<lparr>W_Phase := (W_Phase w)(irp := p)\<rparr>"

text \<open>The completion of an IRP, after its admission is settled.\<close>

definition finish :: "ULONG \<Rightarrow> nat \<Rightarrow> NTSTATUS \<Rightarrow> READ_WORLD \<Rightarrow> READ_WORLD" where
  "finish B irp status w = set_phase irp (Completed status) (w\<lparr>W_Fair := ReadFairSettle B irp (W_Fair w)\<rparr>)"

section \<open>The regions\<close>

definition arrive :: "nat \<Rightarrow> nat \<Rightarrow> ULONG \<Rightarrow> bool \<Rightarrow> READ_WORLD \<Rightarrow> READ_WORLD" where
  "arrive irp node len speculative w =
     set_phase irp (Arriving speculative)
       (w\<lparr>W_Reads := insert irp (W_Reads w),
          W_Fair := (W_Fair w)\<lparr>Irps := (Irps (W_Fair w))(irp := \<lparr>R_Node = node, R_Length = len, R_Start = 0, R_Admitted = False\<rparr>)\<rparr>\<rparr>)"

text \<open>The first offer, of the whole read; one the cache does not take goes on to admission.\<close>

definition offer_whole :: "nat \<Rightarrow> bool \<Rightarrow> bool \<Rightarrow> READ_WORLD \<Rightarrow> READ_WORLD" where
  "offer_whole irp speculative taken w =
     set_phase irp (if taken then Serving 0 else Admitting speculative OfferRuns) w"

text \<open>The decision of ReadFairAdmit, under the lock.\<close>

definition decide :: "nat \<Rightarrow> bool \<Rightarrow> bool \<Rightarrow> read_offer \<Rightarrow> READ_WORLD \<Rightarrow> READ_WORLD" where
  "decide irp mayHold hold offer w =
     set_phase irp (if hold then Parked else Issuing offer)
       (w\<lparr>W_Fair := admit_decided irp mayHold hold (W_Fair w),
          W_Charged := W_Charged w + unat (R_Length (Irps (W_Fair w) irp))\<rparr>)"

definition admit_look :: "ULONG \<Rightarrow> nat \<Rightarrow> bool \<Rightarrow> read_offer \<Rightarrow> READ_WORLD \<Rightarrow> READ_WORLD" where
  "admit_look B irp mayHold offer w =
     (if ReadFairMustHold B (W_Fair w) irp mayHold then set_phase irp (Allocating mayHold offer) w
      else decide irp mayHold False offer w)"

definition admit_again :: "ULONG \<Rightarrow> bool \<Rightarrow> nat \<Rightarrow> bool \<Rightarrow> read_offer \<Rightarrow> READ_WORLD \<Rightarrow> READ_WORLD" where
  "admit_again B allocated irp mayHold offer w =
     (if \<not> allocated then finish B irp STATUS_INSUFFICIENT_RESOURCES w
      else decide irp mayHold (ReadFairMustHold B (W_Fair w) irp mayHold) offer w)"

text \<open>ReadFromDiskCache: the reservation, the cache's answer, and what is given back once it is known.\<close>

definition offer_part :: "nat \<Rightarrow> ULONG \<Rightarrow> READ_WORLD \<Rightarrow> READ_WORLD" where
  "offer_part irp runs w =
     (case ReadFairReserve (runs - 1) (W_Fair w) of
        (reserved, s) \<Rightarrow> set_phase irp (Offering reserved) (w\<lparr>W_Fair := s\<rparr>))"

definition offer_answer :: "nat \<Rightarrow> ULONG \<Rightarrow> bool \<Rightarrow> ULONG \<Rightarrow> READ_WORLD \<Rightarrow> READ_WORLD" where
  "offer_answer irp reserved started fetches w =
     (let back = (if started then reserved - (if fetches > 1 then fetches - 1 else 0) else reserved)
      in set_phase irp (if started then Serving fetches else Issuing NoOffer) (w\<lparr>W_Owed := W_Owed w @ [back]\<rparr>))"

definition give_back_owed :: "ULONG \<Rightarrow> READ_WORLD \<Rightarrow> READ_WORLD" where
  "give_back_owed B w =
     (case W_Owed w of [] \<Rightarrow> w | n # ns \<Rightarrow> w\<lparr>W_Fair := ReadFairGiveBack B n (W_Fair w), W_Owed := ns\<rparr>)"

text \<open>ReadIssueFetch from an admitted read: pending with the client, or a status that completes it.\<close>

definition issue_fetch :: "ULONG \<Rightarrow> nat \<Rightarrow> NTSTATUS \<Rightarrow> READ_WORLD \<Rightarrow> READ_WORLD" where
  "issue_fetch B irp fetchStatus w =
     (if fetchStatus = STATUS_PENDING then set_phase irp Fetching w else finish B irp fetchStatus w)"

text \<open>ReadComplete: \<open>buffered\<close> is a body in a buffer of its own, \<open>mapped\<close> whether the IRP's pages map.\<close>

definition ReadComplete :: "ULONG \<Rightarrow> nat \<Rightarrow> NTSTATUS \<Rightarrow> bool \<Rightarrow> bool \<Rightarrow> READ_WORLD \<Rightarrow> READ_WORLD" where
  "ReadComplete B irp status buffered mapped w =
     finish B irp (if \<not> NT_SUCCESS status then status
                   else if buffered \<and> \<not> mapped then STATUS_INSUFFICIENT_RESOURCES else STATUS_SUCCESS) w"

text \<open>ReadDiskComplete: its two locked regions, with the allocation of the work item in between.\<close>

definition disk_give_back :: "ULONG \<Rightarrow> nat \<Rightarrow> ULONG \<Rightarrow> NTSTATUS \<Rightarrow> bool \<Rightarrow> READ_WORLD \<Rightarrow> READ_WORLD" where
  "disk_give_back B irp fetches status refetch w =
     set_phase irp (DiskDone status refetch)
       (w\<lparr>W_Fair := ReadFairGiveBack B (if fetches > 1 then fetches - 1 else 0) (W_Fair w)\<rparr>)"

definition disk_finish :: "ULONG \<Rightarrow> bool \<Rightarrow> nat \<Rightarrow> NTSTATUS \<Rightarrow> bool \<Rightarrow> READ_WORLD \<Rightarrow> READ_WORLD" where
  "disk_finish B allocated irp status refetch w =
     (if NT_SUCCESS status then finish B irp STATUS_SUCCESS w
      else if \<not> (refetch \<and> allocated) then finish B irp status w
      else set_phase irp Refetching w)"

text \<open>ReadIssueReleased up to the offer or the fetch, with the status of the trim.\<close>

definition ReadIssueReleased :: "ULONG \<Rightarrow> nat \<Rightarrow> bool \<Rightarrow> NTSTATUS \<Rightarrow> READ_WORLD \<Rightarrow> READ_WORLD" where
  "ReadIssueReleased B irp fromDiskCache trimStatus w =
     (let offer = (if fromDiskCache then OfferAgain else NoOffer)
      in if \<not> NT_SUCCESS trimStatus then finish B irp trimStatus w
         else if \<not> R_Admitted (Irps (W_Fair w) irp) then set_phase irp (Admitting False offer) w
         else set_phase irp (Issuing offer) w)"

definition ReadFairWorker :: "ULONG \<Rightarrow> nat \<Rightarrow> NTSTATUS \<Rightarrow> READ_WORLD \<Rightarrow> READ_WORLD" where
  "ReadFairWorker B irp trimStatus w =
     ReadIssueReleased B irp True trimStatus (w\<lparr>W_Fair := (W_Fair w)\<lparr>Queued := remove1 irp (Queued (W_Fair w))\<rparr>\<rparr>)"

definition ReadRefetchWorker :: "ULONG \<Rightarrow> nat \<Rightarrow> NTSTATUS \<Rightarrow> READ_WORLD \<Rightarrow> READ_WORLD" where
  "ReadRefetchWorker B irp trimStatus w = ReadIssueReleased B irp False trimStatus w"

section \<open>Steps\<close>

inductive read_step :: "ULONG \<Rightarrow> READ_WORLD \<Rightarrow> READ_WORLD \<Rightarrow> bool" for B where
  step_whole: "W_Phase w irp = Arriving sp \<Longrightarrow> read_step B w (offer_whole irp sp taken w)"
| step_look: "W_Phase w irp = Admitting mh offer \<Longrightarrow> read_step B w (admit_look B irp mh offer w)"
| step_again: "W_Phase w irp = Allocating mh offer \<Longrightarrow> read_step B w (admit_again B allocated irp mh offer w)"
| step_runs: "W_Phase w irp = Issuing offer \<Longrightarrow> offer \<noteq> NoOffer \<Longrightarrow> runs \<noteq> 0 \<Longrightarrow> read_step B w (offer_part irp runs w)"
| step_no_runs: "W_Phase w irp = Issuing offer \<Longrightarrow> offer \<noteq> NoOffer \<Longrightarrow> read_step B w (set_phase irp (Issuing NoOffer) w)"
| step_whole_again: "W_Phase w irp = Issuing OfferAgain \<Longrightarrow> read_step B w (set_phase irp (Serving 0) w)"
| step_answer: "W_Phase w irp = Offering reserved \<Longrightarrow> unat fetches \<le> 1 + unat reserved \<Longrightarrow>
    read_step B w (offer_answer irp reserved started fetches w)"
| step_owed: "W_Owed w \<noteq> [] \<Longrightarrow> read_step B w (give_back_owed B w)"
| step_issue: "W_Phase w irp = Issuing NoOffer \<Longrightarrow> read_step B w (issue_fetch B irp status w)"
| step_complete: "W_Phase w irp = Fetching \<Longrightarrow> read_step B w (ReadComplete B irp status buffered mapped w)"
| step_disk: "W_Phase w irp = Serving fetches \<Longrightarrow> read_step B w (disk_give_back B irp fetches status refetch w)"
| step_disk_finish: "W_Phase w irp = DiskDone status refetch \<Longrightarrow> read_step B w (disk_finish B allocated irp status refetch w)"
| step_worker: "irp \<in> set (Queued (W_Fair w)) \<Longrightarrow> read_step B w (ReadFairWorker B irp status w)"
| step_refetch: "W_Phase w irp = Refetching \<Longrightarrow> read_step B w (ReadRefetchWorker B irp status w)"

text \<open>A new read, on an IRP that is not in use.\<close>

inductive read_arrival :: "READ_WORLD \<Rightarrow> READ_WORLD \<Rightarrow> bool" where
  "W_Phase w irp = Absent \<Longrightarrow> read_arrival w (arrive irp node len sp w)"

definition read_start :: READ_WORLD where
  "read_start = \<lparr>W_Fair = BlorgReadInit \<lparr>InFlightBytes = 0, VirtualTime = 0, InFlightFetches = 0, Held = [], Waiting = [], Queued = [],
       Irps = \<lambda>_. \<lparr>R_Node = 0, R_Length = 0, R_Start = 0, R_Admitted = False\<rparr>,
       Nodes = \<lambda>_. \<lparr>ReadFinishTag = 0, ReadFetchesInFlight = 0\<rparr>\<rparr>,
     W_Phase = \<lambda>_. Absent, W_Owed = [], W_Reads = {}, W_Charged = 0\<rparr>"

definition read_reachable :: "ULONG \<Rightarrow> READ_WORLD \<Rightarrow> bool" where
  "read_reachable B w \<longleftrightarrow> (\<lambda>v v'. read_step B v v' \<or> read_arrival v v')\<^sup>*\<^sup>* read_start w"

end
