(* ===== verification/Read_Protocol_Correct.thy ===== *)
theory Read_Protocol_Correct
  imports Read_Protocol
begin

unbundle bit_operations_syntax

text \<open>
  The invariant of all reads together, kept by every step, and the work left before they complete,
  which every step lowers.
\<close>

section \<open>What a release leaves alone\<close>

definition parked :: "READ_FAIR \<Rightarrow> nat set" where
  "parked s = set (Held s) \<union> set (Waiting s) \<union> set (Queued s)"

definition idle_reads :: "READ_FAIR \<Rightarrow> nat set" where
  "idle_reads s = set (Held s) \<union> set (Waiting s)"

text \<open>From \<open>s\<close> to \<open>t\<close>, held reads may have been admitted and released, and nothing else of a read has changed.\<close>

definition releases :: "READ_FAIR \<Rightarrow> READ_FAIR \<Rightarrow> bool" where
  "releases s t \<longleftrightarrow> parked t = parked s \<and> (\<forall>i. R_Length (Irps t i) = R_Length (Irps s i)) \<and>
     (\<forall>i. R_Admitted (Irps s i) \<longrightarrow> R_Admitted (Irps t i)) \<and>
     (\<forall>i. i \<notin> idle_reads s \<longrightarrow> R_Admitted (Irps t i) = R_Admitted (Irps s i))"

lemma admit_held_releases:
  assumes "ReadFairAdmitHeld B s out = (out', s')" "listed out s"
  shows "idle_reads s' \<union> set out' = idle_reads s \<union> set out \<and> Queued s' = Queued s \<and>
     (\<forall>i. R_Length (Irps s' i) = R_Length (Irps s i)) \<and>
     (\<forall>i. R_Admitted (Irps s i) \<longrightarrow> R_Admitted (Irps s' i)) \<and>
     (\<forall>i. i \<notin> idle_reads s \<longrightarrow> R_Admitted (Irps s' i) = R_Admitted (Irps s i))"
  using assms
proof (induction B s out rule: ReadFairAdmitHeld.induct)
  case (1 B s out)
  obtain nx st where nx: "next_read B s = (nx, st)" by fastforce
  show ?case
  proof (cases "unat (InFlightFetches s) < 32 \<and> nx \<noteq> None")
    case False
    then have "out' = out" "s' = s" using 1(2) nx by (subst (asm) ReadFairAdmitHeld.simps, auto split: if_splits)+
    then show ?thesis by simp
  next
    case True
    then obtain irp where irp: "nx = Some irp" by auto
    let ?t = "admit_next irp st s"
    have run: "ReadFairAdmitHeld B ?t (out @ [irp]) = (out', s')"
      using 1(2) True nx irp by (subst (asm) ReadFairAdmitHeld.simps) simp
    have nx': "next_read B s = (Some irp, st)" using nx irp by simp
    have l: "listed (out @ [irp]) ?t" by (rule step_listed [OF nx' 1(3)])
    have idle: "idle_reads ?t = idle_reads s - {irp}" "irp \<in> idle_reads s"
      using next_read_Some(2) [OF nx'] 1(3) by (cases "Waiting s"; auto simp: idle_reads_def admit_next_fields listed_def)+
    from 1(1) [OF _ nx [symmetric] irp run l] True
    have ih: "idle_reads s' \<union> set out' = idle_reads ?t \<union> set (out @ [irp])" "Queued s' = Queued ?t"
      "\<forall>i. R_Length (Irps s' i) = R_Length (Irps ?t i)" "\<forall>i. R_Admitted (Irps ?t i) \<longrightarrow> R_Admitted (Irps s' i)"
      "\<forall>i. i \<notin> idle_reads ?t \<longrightarrow> R_Admitted (Irps s' i) = R_Admitted (Irps ?t i)" by simp_all
    have f: "R_Admitted (Irps ?t i) = (i = irp \<or> R_Admitted (Irps s i))" "R_Length (Irps ?t i) = R_Length (Irps s i)" "Queued ?t = Queued s" for i
      by (simp_all add: admit_next_fields)
    show ?thesis
    proof (intro conjI allI impI)
      show "idle_reads s' \<union> set out' = idle_reads s \<union> set out" using ih(1) idle by auto
      show "Queued s' = Queued s" using ih(2) f(3) by simp
      show "R_Length (Irps s' i) = R_Length (Irps s i)" for i using ih(3) f(2) by simp
      show "R_Admitted (Irps s' i)" if "R_Admitted (Irps s i)" for i using ih(4) f(1) that by blast
      show "R_Admitted (Irps s' i) = R_Admitted (Irps s i)" if "i \<notin> idle_reads s" for i using ih(5) idle f(1) that by auto
    qed
  qed
qed

lemma issue_held_releases:
  assumes "listed [] s"
  shows "releases s (ReadFairIssueHeld (ReadFairAdmitHeld B s []))"
proof -
  obtain out t where r: "ReadFairAdmitHeld B s [] = (out, t)" by fastforce
  from admit_held_releases [OF r assms]
  show ?thesis by (auto simp: releases_def ReadFairIssueHeld_def r parked_def idle_reads_def)
qed

lemma give_back_releases: "listed [] s \<Longrightarrow> releases s (ReadFairGiveBack B n s)"
  using issue_held_releases [of "s\<lparr>InFlightFetches := InFlightFetches s - n\<rparr>" B]
  by (auto simp: ReadFairGiveBack_def releases_def listed_def parked_def idle_reads_def)

text \<open>Settling a read that is not parked.\<close>

lemma settle_releases:
  assumes "listed [] s" "irp \<notin> parked s"
  shows "parked (ReadFairSettle B irp s) = parked s" "\<not> R_Admitted (Irps (ReadFairSettle B irp s) irp)"
    and "i \<noteq> irp \<Longrightarrow> R_Admitted (Irps s i) \<Longrightarrow> R_Admitted (Irps (ReadFairSettle B irp s) i)"
    and "i \<noteq> irp \<Longrightarrow> i \<notin> idle_reads s \<Longrightarrow> R_Admitted (Irps (ReadFairSettle B irp s) i) = R_Admitted (Irps s i)"
    and "R_Length (Irps (ReadFairSettle B irp s) i) = R_Length (Irps s i)"
proof -
  let ?t = "ReadFairSettle B irp s"
  have "listed [] (leave_flight irp s)" using assms by (auto simp: listed_def parked_def)
  from issue_held_releases [OF this, of B]
  have r: "R_Admitted (Irps s irp) \<Longrightarrow> releases (leave_flight irp s) ?t" by (simp add: settle_alt)
  have p: "parked (leave_flight irp s) = parked s" "idle_reads (leave_flight irp s) = idle_reads s" by (simp_all add: parked_def idle_reads_def)
  have n: "irp \<notin> idle_reads s" using assms(2) by (auto simp: parked_def idle_reads_def)
  show "parked ?t = parked s" "\<not> R_Admitted (Irps ?t irp)"
    "i \<noteq> irp \<Longrightarrow> R_Admitted (Irps s i) \<Longrightarrow> R_Admitted (Irps ?t i)"
    "i \<noteq> irp \<Longrightarrow> i \<notin> idle_reads s \<Longrightarrow> R_Admitted (Irps ?t i) = R_Admitted (Irps s i)"
    "R_Length (Irps ?t i) = R_Length (Irps s i)"
    using r p n by (cases "R_Admitted (Irps s irp)"; simp add: releases_def settle_alt)+
qed

section \<open>The invariant\<close>

text \<open>Fetches a read has reserved beside its own.\<close>

fun extra :: "read_phase \<Rightarrow> nat" where
  "extra (Offering reserved) = unat reserved"
| "extra (Serving fetches) = unat fetches - 1"
| "extra _ = 0"

definition reserved_fetches :: "READ_WORLD \<Rightarrow> nat" where
  "reserved_fetches w = (\<Sum>i\<in>W_Reads w. extra (W_Phase w i)) + sum_list (map unat (W_Owed w))"

text \<open>Whether a phase requires, or rules out, that the read is admitted.\<close>

fun phase_admission :: "read_phase \<Rightarrow> bool \<Rightarrow> bool" where
  "phase_admission (Issuing offer) adm = adm"
| "phase_admission (Offering reserved) adm = adm"
| "phase_admission Fetching adm = adm"
| "phase_admission Parked adm = True"
| "phase_admission (Serving fetches) adm = True"
| "phase_admission (DiskDone status refetch) adm = True"
| "phase_admission Refetching adm = True"
| "phase_admission _ adm = (\<not> adm)"

definition world_inv :: "ULONG \<Rightarrow> READ_WORLD \<Rightarrow> bool" where
  "world_inv B w \<longleftrightarrow> finite (W_Reads w) \<and> fair_inv B (reserved_fetches w) (W_Charged w) (W_Fair w) \<and>
     (\<forall>i. (W_Phase w i \<noteq> Absent \<longrightarrow> i \<in> W_Reads w) \<and> (W_Phase w i = Parked \<longleftrightarrow> i \<in> parked (W_Fair w)) \<and>
          phase_admission (W_Phase w i) (R_Admitted (Irps (W_Fair w) i)))"

lemma world_invD:
  assumes "world_inv B w"
  shows "finite (W_Reads w)" "fair_inv B (reserved_fetches w) (W_Charged w) (W_Fair w)" "listed [] (W_Fair w)"
    and "W_Phase w i \<noteq> Absent \<Longrightarrow> i \<in> W_Reads w" "W_Phase w i = Parked \<longleftrightarrow> i \<in> parked (W_Fair w)"
    "phase_admission (W_Phase w i) (R_Admitted (Irps (W_Fair w) i))"
  using assms by (simp_all add: world_inv_def fair_inv_def)

lemma start_inv: "world_inv B read_start"
  by (simp add: world_inv_def read_start_def BlorgReadInit_def fair_inv_def counts_def listed_def tags_def calm_def parked_def
      admitted_def of_node_def reserved_fetches_def)

lemma sum_update:
  fixes f :: "nat \<Rightarrow> nat"
  assumes "finite A" "i \<in> A"
  shows "(\<Sum>j\<in>A. (if j = i then x else f j)) + f i = (\<Sum>j\<in>A. f j) + x"
proof -
  have "(\<Sum>j\<in>A - {i}. (if j = i then x else f j)) = (\<Sum>j\<in>A - {i}. f j)" by (rule sum.cong) auto
  then show ?thesis using sum.remove [OF assms, of f] sum.remove [OF assms, of "\<lambda>j. if j = i then x else f j"] by simp
qed

lemma reserved_update:
  assumes "finite (W_Reads w)" "irp \<in> W_Reads w"
  shows "reserved_fetches (set_phase irp p w) + extra (W_Phase w irp) = reserved_fetches w + extra p"
proof -
  have "(\<lambda>i. extra (((W_Phase w)(irp := p)) i)) = (\<lambda>j. if j = irp then extra p else extra (W_Phase w j))" by (simp add: fun_eq_iff)
  then show ?thesis using sum_update [OF assms, of "extra p" "\<lambda>i. extra (W_Phase w i)"]
    by (simp add: reserved_fetches_def set_phase_def if_distrib [of extra])
qed

text \<open>
  A step that moves one read to a new phase. The state it leaves the link in may have released other
  reads, which stay parked.
\<close>

lemma world_inv_move:
  assumes w: "world_inv B w" and irp: "W_Phase w irp \<noteq> Absent" "W_Phase w irp \<noteq> Parked \<or> p \<noteq> Parked"
    and fair: "fair_inv B (reserved_fetches (set_phase irp p (w\<lparr>W_Fair := s, W_Owed := owed, W_Charged := c\<rparr>))) c s"
    and park: "parked s = (if p = Parked then insert irp (parked (W_Fair w)) else parked (W_Fair w) - {irp})"
    and adm: "\<And>i. i \<noteq> irp \<Longrightarrow> i \<notin> parked (W_Fair w) \<Longrightarrow> R_Admitted (Irps s i) = R_Admitted (Irps (W_Fair w) i)"
    and new: "phase_admission p (R_Admitted (Irps s irp))"
  shows "world_inv B (set_phase irp p (w\<lparr>W_Fair := s, W_Owed := owed, W_Charged := c\<rparr>))" (is "world_inv B ?w")
proof -
  note d = world_invD [OF w]
  have ph: "W_Phase ?w i = (if i = irp then p else W_Phase w i)" "W_Fair ?w = s" "W_Reads ?w = W_Reads w" "W_Charged ?w = c" for i
    by (simp_all add: set_phase_def)
  have "(W_Phase ?w i \<noteq> Absent \<longrightarrow> i \<in> W_Reads ?w) \<and> (W_Phase ?w i = Parked \<longleftrightarrow> i \<in> parked (W_Fair ?w)) \<and>
      phase_admission (W_Phase ?w i) (R_Admitted (Irps (W_Fair ?w) i))" for i
  proof (cases "i = irp")
    case True
    then show ?thesis using irp d(4) [of irp] new park by (simp add: ph)
  next
    case False
    then have pk: "W_Phase w i = Parked \<longleftrightarrow> i \<in> parked s" using d(5) [of i] park by auto
    have "phase_admission (W_Phase w i) (R_Admitted (Irps s i))"
    proof (cases "W_Phase w i = Parked")
      case False
      then show ?thesis using d(5,6) [of i] adm [of i] \<open>i \<noteq> irp\<close> by simp
    qed simp
    then show ?thesis using False d(4) [of i] pk by (simp add: ph)
  qed
  then show ?thesis using d(1) fair by (simp add: world_inv_def ph)
qed

text \<open>Most steps leave the reservations as they are.\<close>

lemma world_inv_move_same:
  assumes w: "world_inv B w" and irp: "W_Phase w irp \<noteq> Absent" "W_Phase w irp \<noteq> Parked \<or> p \<noteq> Parked" "extra p = extra (W_Phase w irp)"
    and fair: "fair_inv B (reserved_fetches w) c s"
    and park: "parked s = (if p = Parked then insert irp (parked (W_Fair w)) else parked (W_Fair w) - {irp})"
    and adm: "\<And>i. i \<noteq> irp \<Longrightarrow> i \<notin> parked (W_Fair w) \<Longrightarrow> R_Admitted (Irps s i) = R_Admitted (Irps (W_Fair w) i)"
    and new: "phase_admission p (R_Admitted (Irps s irp))"
  shows "world_inv B (set_phase irp p (w\<lparr>W_Fair := s, W_Charged := c\<rparr>))"
proof -
  let ?v = "w\<lparr>W_Fair := s, W_Owed := W_Owed w, W_Charged := c\<rparr>"
  have "irp \<in> W_Reads w" "finite (W_Reads w)" using world_invD(1,4) [OF w] irp(1) by auto
  then have "reserved_fetches (set_phase irp p ?v) = reserved_fetches w"
    using reserved_update [of ?v irp p] irp(3) by (simp add: reserved_fetches_def)
  then show ?thesis using world_inv_move [OF w irp(1,2), where owed = "W_Owed w" and c = c and s = s] fair park adm new by simp
qed

lemma inv_set_phase:
  assumes "world_inv B w" "W_Phase w irp \<noteq> Absent" "W_Phase w irp \<noteq> Parked" "p \<noteq> Parked" "extra p = extra (W_Phase w irp)"
    "phase_admission p (R_Admitted (Irps (W_Fair w) irp))"
  shows "world_inv B (set_phase irp p w)"
proof -
  have "irp \<notin> parked (W_Fair w)" using world_invD(5) [OF assms(1)] assms(3) by blast
  then show ?thesis
    using world_inv_move_same [OF assms(1,2) _ assms(5), where c = "W_Charged w" and s = "W_Fair w"] assms world_invD(2) [OF assms(1)] by simp
qed

lemma inv_finish:
  assumes w: "world_inv B w" and c: "W_Charged w < 2 ^ 64 - 1"
    and irp: "W_Phase w irp \<noteq> Absent" "W_Phase w irp \<noteq> Parked" "extra (W_Phase w irp) = 0"
  shows "world_inv B (finish B irp status w)"
proof -
  note d = world_invD [OF w]
  have np: "irp \<notin> parked (W_Fair w)" using d(5) irp(2) by blast
  then have "irp \<notin> set (Queued (W_Fair w))" by (simp add: parked_def)
  then have fair: "fair_inv B (reserved_fetches w) (W_Charged w) (ReadFairSettle B irp (W_Fair w))" by (rule settle_inv [OF d(2) c])
  note r = settle_releases [OF d(3) np, where B = B]
  have "world_inv B (set_phase irp (Completed status) (w\<lparr>W_Fair := ReadFairSettle B irp (W_Fair w), W_Charged := W_Charged w\<rparr>))"
    by (rule world_inv_move_same [OF w irp(1) _ _ fair]) (use irp np r in \<open>auto simp: parked_def idle_reads_def\<close>)
  then show ?thesis by (simp add: finish_def)
qed

lemma inv_decide:
  assumes w: "world_inv B w" and c: "W_Charged w + unat (R_Length (Irps (W_Fair w) irp)) < 2 ^ 64 - 1"
    and irp: "W_Phase w irp = Admitting mayHold offer \<or> W_Phase w irp = Allocating mayHold offer"
    and hold: "hold = ReadFairMustHold B (W_Fair w) irp mayHold"
  shows "world_inv B (decide irp mayHold hold offer w)"
proof -
  note d = world_invD [OF w]
  let ?s = "admit_decided irp mayHold hold (W_Fair w)"
  let ?c = "W_Charged w + unat (R_Length (Irps (W_Fair w) irp))"
  have np: "irp \<notin> parked (W_Fair w)" using d(5) [of irp] irp by auto
  have na: "\<not> R_Admitted (Irps (W_Fair w) irp)" using d(6) [of irp] irp by auto
  have fair: "fair_inv B (reserved_fetches w) ?c ?s"
    by (rule admit_inv [OF d(2) _ na _ _ hold]) (use c np in \<open>auto simp: parked_def\<close>)
  have "world_inv B (set_phase irp (if hold then Parked else Issuing offer) (w\<lparr>W_Fair := ?s, W_Charged := ?c\<rparr>))"
    by (rule world_inv_move_same [OF w _ _ _ fair])
      (use irp np in \<open>auto simp: parked_def admit_decided_alt Let_def\<close>)
  then show ?thesis by (simp add: decide_def)
qed

section \<open>Reservations, workers and arrivals\<close>

lemma inv_offer_part:
  assumes w: "world_inv B w" and irp: "W_Phase w irp = Issuing offer"
  shows "world_inv B (offer_part irp runs w)"
proof -
  note d = world_invD [OF w]
  obtain n t where r: "ReadFairReserve (runs - 1) (W_Fair w) = (n, t)" by fastforce
  then have t: "t = (W_Fair w)\<lparr>InFlightFetches := InFlightFetches (W_Fair w) + n\<rparr>" by (auto simp: ReadFairReserve_def Let_def)
  have np: "irp \<notin> parked (W_Fair w)" using d(5) [of irp] irp by simp
  let ?v = "w\<lparr>W_Fair := t, W_Owed := W_Owed w, W_Charged := W_Charged w\<rparr>"
  have "reserved_fetches (set_phase irp (Offering n) ?v) = reserved_fetches w + unat n"
    using reserved_update [of ?v irp "Offering n"] d(1) d(4) [of irp] irp by (simp add: reserved_fetches_def)
  then have "fair_inv B (reserved_fetches (set_phase irp (Offering n) ?v)) (W_Charged w) t" using reserve_inv(1) [OF d(2) r] by simp
  from world_inv_move [OF w _ _ this] show ?thesis
    using irp np d(6) [of irp] by (simp add: offer_part_def r) (simp add: t parked_def)
qed

lemma inv_answer:
  assumes w: "world_inv B w" and irp: "W_Phase w irp = Offering n" and f: "unat fetches \<le> 1 + unat n"
  shows "world_inv B (offer_answer irp n started fetches w)"
proof -
  note d = world_invD [OF w]
  define due where "due = (if started then n - (if fetches > 1 then fetches - 1 else 0) else n)"
  define p where "p = (if started then Serving fetches else Issuing NoOffer)"
  have np: "irp \<notin> parked (W_Fair w)" using d(5) [of irp] irp by simp
  have f1: "unat (fetches - 1) = unat fetches - 1" if "fetches > 1"
    using that by (intro trans [OF unat_minus_le]) simp_all
  have due: "unat due + extra p = unat n"
  proof (cases "started \<and> fetches > 1")
    case True
    have "unat (n - (fetches - 1)) = unat n - (unat fetches - 1)"
      using True f f1 by (subst unat_minus_le) (simp_all add: word_le_nat_alt)
    then show ?thesis using True f by (simp add: due_def p_def)
  next
    case False
    moreover have "unat fetches \<le> 1" if "\<not> fetches > 1" using that by (simp add: word_less_nat_alt)
    ultimately show ?thesis by (auto simp: due_def p_def)
  qed
  let ?v = "w\<lparr>W_Fair := W_Fair w, W_Owed := W_Owed w @ [due], W_Charged := W_Charged w\<rparr>"
  have "reserved_fetches (set_phase irp p ?v) = reserved_fetches w"
    using due reserved_update [of ?v irp p] d(1) d(4) [of irp] irp by (simp add: reserved_fetches_def)
  then have "fair_inv B (reserved_fetches (set_phase irp p ?v)) (W_Charged w) (W_Fair w)" using d(2) by simp
  from world_inv_move [OF w _ _ this] show ?thesis
    using irp np d(6) [of irp] by (simp add: offer_answer_def Let_def due_def [symmetric] p_def [symmetric]) (simp add: p_def)
qed

lemma inv_owed:
  assumes w: "world_inv B w" and c: "W_Charged w < 2 ^ 64 - 1"
  shows "world_inv B (give_back_owed B w)"
proof (cases "W_Owed w")
  case Nil
  then show ?thesis using w by (simp add: give_back_owed_def)
next
  case (Cons n ns)
  note d = world_invD [OF w]
  let ?w = "give_back_owed B w"
  have f: "W_Fair ?w = ReadFairGiveBack B n (W_Fair w)" "W_Phase ?w = W_Phase w" "W_Reads ?w = W_Reads w" "W_Charged ?w = W_Charged w"
    "W_Owed ?w = ns" by (simp_all add: give_back_owed_def Cons)
  have "unat n \<le> reserved_fetches w" "reserved_fetches ?w = reserved_fetches w - unat n" by (simp_all add: reserved_fetches_def f Cons)
  then have "fair_inv B (reserved_fetches ?w) (W_Charged ?w) (W_Fair ?w)" using give_back_inv [OF d(2) c] by (simp add: f)
  moreover have r: "releases (W_Fair w) (W_Fair ?w)" unfolding f by (rule give_back_releases [OF d(3)])
  then have pk: "parked (W_Fair ?w) = parked (W_Fair w)" by (simp add: releases_def)
  have "phase_admission (W_Phase w i) (R_Admitted (Irps (W_Fair ?w) i))" for i
  proof (cases "i \<in> parked (W_Fair w)")
    case True
    then show ?thesis using d(5) [of i] by simp
  next
    case False
    then show ?thesis using d(6) [of i] r by (auto simp: releases_def parked_def idle_reads_def)
  qed
  ultimately show ?thesis using d(1,4,5) pk f by (simp add: world_inv_def)
qed

lemma inv_disk:
  assumes w: "world_inv B w" and c: "W_Charged w < 2 ^ 64 - 1" and irp: "W_Phase w irp = Serving fetches"
  shows "world_inv B (disk_give_back B irp fetches status refetch w)"
proof -
  note d = world_invD [OF w]
  define n where "n = (if fetches > 1 then fetches - 1 else 0)"
  have n: "unat n = extra (W_Phase w irp)"
  proof (cases "fetches > 1")
    case True
    then show ?thesis using irp unat_minus_le [of 1 fetches] by (simp add: n_def)
  next
    case False
    then have "unat fetches \<le> 1" by (simp add: word_less_nat_alt)
    then show ?thesis using irp False by (simp add: n_def)
  qed
  have rd: "irp \<in> W_Reads w" using d(4) [of irp] irp by simp
  then have le: "unat n \<le> reserved_fetches w"
    unfolding n reserved_fetches_def using member_le_sum [OF rd, of "\<lambda>i. extra (W_Phase w i)"] d(1) by (simp add: trans_le_add1)
  let ?s = "ReadFairGiveBack B n (W_Fair w)"
  let ?v = "w\<lparr>W_Fair := ?s, W_Owed := W_Owed w, W_Charged := W_Charged w\<rparr>"
  have "reserved_fetches (set_phase irp (DiskDone status refetch) ?v) = reserved_fetches w - unat n"
    using reserved_update [of ?v irp "DiskDone status refetch"] d(1) rd n by (simp add: reserved_fetches_def)
  then have fair: "fair_inv B (reserved_fetches (set_phase irp (DiskDone status refetch) ?v)) (W_Charged w) ?s"
    using give_back_inv [OF d(2) c le] by simp
  have r: "releases (W_Fair w) ?s" by (rule give_back_releases [OF d(3)])
  have np: "irp \<notin> parked (W_Fair w)" using d(5) [of irp] irp by simp
  have "world_inv B (set_phase irp (DiskDone status refetch) ?v)"
    by (rule world_inv_move [OF w _ _ fair]) (use irp np r in \<open>auto simp: releases_def parked_def idle_reads_def\<close>)
  then show ?thesis by (simp add: disk_give_back_def n_def)
qed

text \<open>The worker takes the read off its queue; from there it is an admitted read a thread owns.\<close>

definition unqueue :: "nat \<Rightarrow> READ_WORLD \<Rightarrow> READ_WORLD" where
  "unqueue irp w = set_phase irp (Issuing OfferAgain) (w\<lparr>W_Fair := (W_Fair w)\<lparr>Queued := remove1 irp (Queued (W_Fair w))\<rparr>\<rparr>)"

lemma worker_alt:
  assumes "R_Admitted (Irps (W_Fair w) irp)"
  shows "ReadFairWorker B irp status w = (if NT_SUCCESS status then unqueue irp w else finish B irp status (unqueue irp w))"
  using assms by (simp add: ReadFairWorker_def ReadIssueReleased_def unqueue_def finish_def set_phase_def)

lemma queued_admitted: "world_inv B w \<Longrightarrow> irp \<in> set (Queued (W_Fair w)) \<Longrightarrow> R_Admitted (Irps (W_Fair w) irp) \<and> W_Phase w irp = Parked"
  using world_invD(3,5) by (fastforce simp: listed_def parked_def)

lemma inv_unqueue:
  assumes w: "world_inv B w" and q: "irp \<in> set (Queued (W_Fair w))"
  shows "world_inv B (unqueue irp w)"
proof -
  note d = world_invD [OF w]
  let ?s = "(W_Fair w)\<lparr>Queued := remove1 irp (Queued (W_Fair w))\<rparr>"
  have dq: "distinct (Held (W_Fair w) @ Waiting (W_Fair w) @ Queued (W_Fair w))" using d(3) by (simp add: listed_def)
  have fair: "fair_inv B (reserved_fetches w) (W_Charged w) ?s"
    using d(2) counts_cong [of ?s "W_Fair w"] by (auto simp: fair_inv_def listed_def tags_def calm_def)
  have "world_inv B (set_phase irp (Issuing OfferAgain) (w\<lparr>W_Fair := ?s, W_Charged := W_Charged w\<rparr>))"
    by (rule world_inv_move_same [OF w _ _ _ fair]) (use queued_admitted [OF w q] q dq in \<open>auto simp: parked_def\<close>)
  then show ?thesis by (simp add: unqueue_def)
qed

lemma inv_worker:
  assumes "world_inv B w" "W_Charged w < 2 ^ 64 - 1" "irp \<in> set (Queued (W_Fair w))"
  shows "world_inv B (ReadFairWorker B irp status w)"
  using inv_unqueue [OF assms(1,3)] inv_finish [of B "unqueue irp w" irp status] queued_admitted [OF assms(1,3)] assms(2)
  by (simp add: worker_alt) (simp add: unqueue_def set_phase_def)

lemma inv_arrive:
  assumes w: "world_inv B w" and irp: "W_Phase w irp = Absent"
  shows "world_inv B (arrive irp node len sp w)"
proof -
  note d = world_invD [OF w]
  let ?w = "arrive irp node len sp w"
  let ?s = "W_Fair w" let ?t = "W_Fair ?w"
  have na: "irp \<notin> admitted ?s" using d(6) [of irp] irp by (simp add: admitted_def)
  have np: "irp \<notin> parked ?s" using d(5) [of irp] irp by simp
  have t: "?t = ?s\<lparr>Irps := (Irps ?s)(irp := \<lparr>R_Node = node, R_Length = len, R_Start = 0, R_Admitted = False\<rparr>)\<rparr>"
    by (simp add: arrive_def set_phase_def)
  have adm: "admitted ?t = admitted ?s" and nodes: "of_node ?t n = of_node ?s n" for n
    using na by (auto simp: t admitted_def of_node_def)
  have "(\<Sum>i\<in>admitted ?s. unat (R_Length (Irps ?t i))) = (\<Sum>i\<in>admitted ?s. unat (R_Length (Irps ?s i)))"
    by (rule sum.cong) (use na in \<open>auto simp: t\<close>)
  then have "counts k ?t = counts k ?s" for k by (simp add: counts_def adm nodes) (simp add: t)
  moreover have "listed [] ?t = listed [] ?s" "tags c ?t = tags c ?s" "calm B ?t = calm B ?s" for c
    using np by (auto simp: t listed_def tags_def calm_def parked_def)
  ultimately have fair: "fair_inv B k c ?t = fair_inv B k c ?s" for k c by (simp add: fair_inv_def)
  have reads: "W_Reads ?w = insert irp (W_Reads w)" "W_Phase ?w = (W_Phase w)(irp := Arriving sp)" "W_Owed ?w = W_Owed w" "W_Charged ?w = W_Charged w"
    by (simp_all add: arrive_def set_phase_def)
  have "(\<Sum>i\<in>insert irp (W_Reads w). extra (((W_Phase w)(irp := Arriving sp)) i)) = (\<Sum>i\<in>W_Reads w. extra (W_Phase w i))"
  proof -
    have "extra (((W_Phase w)(irp := Arriving sp)) i) = extra (W_Phase w i)" for i using irp by simp
    then show ?thesis using d(1) irp by (cases "irp \<in> W_Reads w") (simp_all add: insert_absorb del: fun_upd_apply)
  qed
  then have "reserved_fetches ?w = reserved_fetches w" by (simp add: reserved_fetches_def reads del: fun_upd_apply)
  then show ?thesis using d(1,2,4,5,6) fair np na unfolding world_inv_def reads by (auto simp: t parked_def)
qed

section \<open>Every step keeps the invariant\<close>

lemma charged_step: "read_step B w w' \<Longrightarrow> W_Charged w \<le> W_Charged w'"
  by (induction rule: read_step.induct)
    (auto simp: offer_whole_def admit_look_def admit_again_def decide_def offer_part_def offer_answer_def give_back_owed_def
      issue_fetch_def ReadComplete_def disk_give_back_def disk_finish_def ReadFairWorker_def ReadRefetchWorker_def
      ReadIssueReleased_def finish_def set_phase_def Let_def split: prod.splits list.splits)

lemma inv_step:
  assumes "read_step B w w'" "world_inv B w" "W_Charged w' < 2 ^ 64 - 1"
  shows "world_inv B w'"
proof -
  have c: "W_Charged w < 2 ^ 64 - 1" using charged_step [OF assms(1)] assms(3) by linarith
  note d = world_invD [OF assms(2)]
  from assms(1) show ?thesis
  proof cases
    case (step_whole irp sp taken)
    then show ?thesis using inv_set_phase [OF assms(2), of irp "Serving 0"] inv_set_phase [OF assms(2), of irp "Admitting sp OfferRuns"] d(6) [of irp]
      by (simp add: offer_whole_def)
  next
    case (step_no_runs irp offer)
    then show ?thesis using inv_set_phase [OF assms(2), of irp "Issuing NoOffer"] d(6) [of irp] by simp
  next
    case (step_look irp mh offer)
    show ?thesis
    proof (cases "ReadFairMustHold B (W_Fair w) irp mh")
      case True
      then show ?thesis using inv_set_phase [OF assms(2), of irp "Allocating mh offer"] step_look d(6) [of irp] by (simp add: admit_look_def)
    next
      case False
      then show ?thesis using inv_decide [OF assms(2), of irp mh offer False] step_look assms(3)
        by (simp add: admit_look_def decide_def set_phase_def)
    qed
  next
    case (step_again irp mh offer allocated)
    then show ?thesis
      using inv_decide [OF assms(2), of irp mh offer] inv_finish [OF assms(2) c, of irp] assms(3)
      by (cases allocated) (simp_all add: admit_again_def decide_def set_phase_def)
  next
    case (step_issue irp status)
    then show ?thesis using inv_set_phase [OF assms(2), of irp Fetching] inv_finish [OF assms(2) c, of irp] d(6) [of irp]
      by (simp add: issue_fetch_def)
  next
    case (step_disk_finish irp status refetch allocated)
    then show ?thesis using inv_set_phase [OF assms(2), of irp Refetching] inv_finish [OF assms(2) c, of irp]
      by (simp add: disk_finish_def)
  next
    case (step_refetch irp status)
    then show ?thesis
      using inv_set_phase [OF assms(2), of irp "Admitting False NoOffer"] inv_set_phase [OF assms(2), of irp "Issuing NoOffer"]
        inv_finish [OF assms(2) c, of irp] by (simp add: ReadRefetchWorker_def ReadIssueReleased_def Let_def)
  qed (use inv_set_phase [OF assms(2)] inv_finish [OF assms(2) c] inv_offer_part [OF assms(2)] inv_answer [OF assms(2)]
      inv_owed [OF assms(2) c] inv_disk [OF assms(2) c] inv_worker [OF assms(2) c] d(6) in
      \<open>simp_all add: ReadComplete_def\<close>)
qed

lemma reachable_inv:
  assumes "read_reachable B w" "W_Charged w < 2 ^ 64 - 1"
  shows "world_inv B w"
proof -
  have "(\<lambda>v v'. read_step B v v' \<or> read_arrival v v')\<^sup>*\<^sup>* read_start w" using assms(1) by (simp add: read_reachable_def)
  then show ?thesis using assms(2)
  proof (induction rule: rtranclp_induct)
    case base
    show ?case by (rule start_inv)
  next
    case (step v v')
    from step(2) show ?case
    proof
      assume s: "read_step B v v'"
      then show ?thesis using inv_step [OF s] step(3,4) charged_step [OF s] by linarith
    next
      assume "read_arrival v v'"
      then show ?thesis
      proof cases
        case (1 irp node len sp)
        then have "W_Charged v' = W_Charged v" by (simp add: arrive_def set_phase_def)
        then show ?thesis using 1 inv_arrive step(3,4) by simp
      qed
    qed
  qed
qed

section \<open>The work left\<close>

fun rank :: "bool \<Rightarrow> read_phase \<Rightarrow> nat" where
  "rank adm Absent = 0"
| "rank adm (Completed status) = 0"
| "rank adm Parked = (if adm then 16 else 20)"
| "rank adm (Issuing offer) = (if offer = NoOffer then 4 else 14)"
| "rank adm (Offering reserved) = 12"
| "rank adm Fetching = 2"
| "rank adm (Serving fetches) = (if adm then 10 else 30)"
| "rank adm (DiskDone status refetch) = (if adm then 8 else 28)"
| "rank adm Refetching = (if adm then 6 else 26)"
| "rank adm (Admitting mayHold offer) = 25"
| "rank adm (Allocating mayHold offer) = 23"
| "rank adm (Arriving speculative) = 39"

definition read_rank :: "READ_WORLD \<Rightarrow> nat \<Rightarrow> nat" where
  "read_rank w i = rank (R_Admitted (Irps (W_Fair w) i)) (W_Phase w i)"

definition work :: "READ_WORLD \<Rightarrow> nat" where
  "work w = (\<Sum>i\<in>W_Reads w. read_rank w i) + length (W_Owed w)"

text \<open>A step of one read lowers its own rank, and a release lowers that of the reads it releases.\<close>

lemma work_less:
  assumes fin: "finite (W_Reads w)" and irp: "irp \<in> W_Reads w" and reads: "W_Reads w' = W_Reads w"
    and others: "\<And>i. i \<noteq> irp \<Longrightarrow> read_rank w' i \<le> read_rank w i"
    and own: "read_rank w' irp + length (W_Owed w') < read_rank w irp + length (W_Owed w)"
  shows "work w' < work w"
proof -
  have "(\<Sum>i\<in>W_Reads w - {irp}. read_rank w' i) \<le> (\<Sum>i\<in>W_Reads w - {irp}. read_rank w i)"
    by (rule sum_mono) (use others in auto)
  then show ?thesis
    unfolding work_def reads using sum.remove [OF fin irp, of "read_rank w"] sum.remove [OF fin irp, of "read_rank w'"] own by linarith
qed

lemma rank_le:
  assumes w: "world_inv B w"
    and same: "W_Phase w' i = W_Phase w i"
    and adm: "i \<notin> parked (W_Fair w) \<Longrightarrow> R_Admitted (Irps (W_Fair w') i) = R_Admitted (Irps (W_Fair w) i)"
    and keep: "R_Admitted (Irps (W_Fair w) i) \<Longrightarrow> R_Admitted (Irps (W_Fair w') i)"
  shows "read_rank w' i \<le> read_rank w i"
proof (cases "i \<in> parked (W_Fair w)")
  case True
  then have "W_Phase w i = Parked" using world_invD(5) [OF w] by blast
  then show ?thesis using same keep by (simp add: read_rank_def)
next
  case False
  then show ?thesis using same adm by (simp add: read_rank_def)
qed

lemma work_move:
  assumes w: "world_inv B w" and irp: "W_Phase w irp \<noteq> Absent"
    and adm: "\<And>i. i \<noteq> irp \<Longrightarrow> i \<notin> parked (W_Fair w) \<Longrightarrow> R_Admitted (Irps s i) = R_Admitted (Irps (W_Fair w) i)"
    and keep: "\<And>i. i \<noteq> irp \<Longrightarrow> R_Admitted (Irps (W_Fair w) i) \<Longrightarrow> R_Admitted (Irps s i)"
    and own: "rank (R_Admitted (Irps s irp)) p + length owed < read_rank w irp + length (W_Owed w)"
  shows "work (set_phase irp p (w\<lparr>W_Fair := s, W_Owed := owed, W_Charged := c\<rparr>)) < work w"
proof (rule work_less [of w irp])
  show "finite (W_Reads w)" "irp \<in> W_Reads w" using world_invD(1,4) [OF w] irp by auto
  show "W_Reads (set_phase irp p (w\<lparr>W_Fair := s, W_Owed := owed, W_Charged := c\<rparr>)) = W_Reads w" by (simp add: set_phase_def)
  show "read_rank (set_phase irp p (w\<lparr>W_Fair := s, W_Owed := owed, W_Charged := c\<rparr>)) i \<le> read_rank w i" if "i \<noteq> irp" for i
    by (rule rank_le [OF w]) (use adm keep that in \<open>simp_all add: set_phase_def\<close>)
  show "read_rank (set_phase irp p (w\<lparr>W_Fair := s, W_Owed := owed, W_Charged := c\<rparr>)) irp +
      length (W_Owed (set_phase irp p (w\<lparr>W_Fair := s, W_Owed := owed, W_Charged := c\<rparr>))) < read_rank w irp + length (W_Owed w)"
    using own by (simp add: set_phase_def read_rank_def)
qed

lemma work_set_phase:
  assumes "world_inv B w" "W_Phase w irp \<noteq> Absent" "rank (R_Admitted (Irps (W_Fair w) irp)) p < read_rank w irp"
  shows "work (set_phase irp p w) < work w"
  using work_move [OF assms(1,2), where s = "W_Fair w" and p = p and owed = "W_Owed w" and c = "W_Charged w"] assms(3) by simp

lemma work_finish:
  assumes w: "world_inv B w" and irp: "W_Phase w irp \<noteq> Absent" "W_Phase w irp \<noteq> Parked" "0 < read_rank w irp"
  shows "work (finish B irp status w) < work w"
proof -
  have "irp \<notin> parked (W_Fair w)" using world_invD(5) [OF w] irp(2) by blast
  note r = settle_releases [OF world_invD(3) [OF w] this, where B = B]
  have "i \<notin> idle_reads (W_Fair w)" if "i \<notin> parked (W_Fair w)" for i using that by (auto simp: idle_reads_def parked_def)
  then show ?thesis
    using work_move [OF w irp(1), where s = "ReadFairSettle B irp (W_Fair w)" and p = "Completed status" and owed = "W_Owed w" and c = "W_Charged w"]
      r(3,4) irp(3) by (simp add: finish_def)
qed

lemma work_decide:
  assumes w: "world_inv B w" and irp: "W_Phase w irp = Admitting mayHold offer \<or> W_Phase w irp = Allocating mayHold offer"
  shows "work (decide irp mayHold hold offer w) < work w"
proof -
  have na: "\<not> R_Admitted (Irps (W_Fair w) irp)" using world_invD(6) [OF w, of irp] irp by auto
  let ?s = "admit_decided irp mayHold hold (W_Fair w)"
  have adm: "R_Admitted (Irps ?s i) = (R_Admitted (Irps (W_Fair w) i) \<or> i = irp \<and> \<not> hold)" for i
    by (auto simp: admit_decided_alt Let_def)
  have "rank (R_Admitted (Irps ?s irp)) (if hold then Parked else Issuing offer) \<le> 20" by (simp add: adm na)
  moreover have "23 \<le> read_rank w irp" using irp by (auto simp: read_rank_def)
  ultimately have own: "rank (R_Admitted (Irps ?s irp)) (if hold then Parked else Issuing offer) + length (W_Owed w) < read_rank w irp + length (W_Owed w)"
    by linarith
  have "W_Phase w irp \<noteq> Absent" using irp by auto
  from work_move [OF w this _ _ own] show ?thesis by (simp add: decide_def adm)
qed

lemma work_give_back:
  assumes w: "world_inv B w" and irp: "W_Phase w irp \<noteq> Absent"
    and own: "rank (R_Admitted (Irps (W_Fair w) irp)) p + length owed < read_rank w irp + length (W_Owed w)" and np: "W_Phase w irp \<noteq> Parked"
  shows "work (set_phase irp p (w\<lparr>W_Fair := ReadFairGiveBack B n (W_Fair w), W_Owed := owed\<rparr>)) < work w"
proof -
  have r: "releases (W_Fair w) (ReadFairGiveBack B n (W_Fair w))" by (rule give_back_releases [OF world_invD(3) [OF w]])
  have out: "i \<notin> idle_reads (W_Fair w)" if "i \<notin> parked (W_Fair w)" for i using that by (auto simp: idle_reads_def parked_def)
  have "irp \<notin> parked (W_Fair w)" using world_invD(5) [OF w] np by blast
  then show ?thesis
    using work_move [OF w irp, where s = "ReadFairGiveBack B n (W_Fair w)" and p = p and owed = owed and c = "W_Charged w"] own r out
    by (simp add: releases_def)
qed

lemma work_owed:
  assumes w: "world_inv B w" and o: "W_Owed w \<noteq> []"
  shows "work (give_back_owed B w) < work w"
proof -
  obtain n ns where owed: "W_Owed w = n # ns" using o by (cases "W_Owed w") auto
  have r: "releases (W_Fair w) (ReadFairGiveBack B n (W_Fair w))" by (rule give_back_releases [OF world_invD(3) [OF w]])
  let ?w = "give_back_owed B w"
  have f: "W_Phase ?w = W_Phase w" "W_Reads ?w = W_Reads w" "W_Owed ?w = ns" "W_Fair ?w = ReadFairGiveBack B n (W_Fair w)"
    by (simp_all add: give_back_owed_def owed)
  have "read_rank ?w i \<le> read_rank w i" for i
    by (rule rank_le [OF w]) (use r in \<open>auto simp: f releases_def parked_def idle_reads_def\<close>)
  then have "(\<Sum>i\<in>W_Reads w. read_rank ?w i) \<le> (\<Sum>i\<in>W_Reads w. read_rank w i)" by (rule sum_mono)
  then show ?thesis by (simp add: work_def f owed)
qed

lemma work_step:
  assumes w: "world_inv B w" and step: "read_step B w w'"
  shows "work w' < work w"
proof -
  note d = world_invD [OF w]
  note sp = work_set_phase [OF w]
  note fi = work_finish [OF w]
  from step show ?thesis
  proof cases
    case (step_whole irp sp taken)
    then have "\<not> R_Admitted (Irps (W_Fair w) irp)" using d(6) [of irp] by simp
    then show ?thesis using step_whole sp [of irp "Serving 0"] sp [of irp "Admitting sp OfferRuns"]
      by (simp add: offer_whole_def read_rank_def)
  next
    case (step_look irp mh offer)
    then show ?thesis using sp [of irp "Allocating mh offer"] work_decide [OF w, of irp mh offer False]
      by (simp add: admit_look_def read_rank_def)
  next
    case (step_again irp mh offer allocated)
    then show ?thesis using fi [of irp] work_decide [OF w, of irp mh offer] by (simp add: admit_again_def read_rank_def)
  next
    case (step_runs irp offer runs)
    obtain n t where r: "ReadFairReserve (runs - 1) (W_Fair w) = (n, t)" by fastforce
    then have t: "Irps t = Irps (W_Fair w)" by (auto simp: ReadFairReserve_def Let_def)
    then show ?thesis
      using work_move [OF w, of irp t "Offering n" "W_Owed w" "W_Charged w"] step_runs by (simp add: offer_part_def r read_rank_def)
  next
    case (step_no_runs irp offer)
    then show ?thesis using sp [of irp "Issuing NoOffer"] by (simp add: read_rank_def)
  next
    case (step_whole_again irp)
    then show ?thesis using sp [of irp "Serving 0"] d(6) [of irp] by (simp add: read_rank_def)
  next
    case (step_answer irp n fetches started)
    define due where "due = (if started then n - (if fetches > 1 then fetches - 1 else 0) else n)"
    define p where "p = (if started then Serving fetches else Issuing NoOffer)"
    have "rank True p \<le> 10" by (simp add: p_def)
    then have "work (set_phase irp p (w\<lparr>W_Fair := W_Fair w, W_Owed := W_Owed w @ [due], W_Charged := W_Charged w\<rparr>)) < work w"
      using step_answer d(6) [of irp] by (intro work_move [OF w]) (simp_all add: read_rank_def)
    then show ?thesis using step_answer by (simp add: offer_answer_def Let_def due_def p_def)
  next
    case step_owed
    then show ?thesis using work_owed [OF w] by simp
  next
    case (step_issue irp status)
    then show ?thesis using sp [of irp Fetching] fi [of irp] by (simp add: issue_fetch_def read_rank_def)
  next
    case (step_complete irp status buffered mapped)
    then show ?thesis using fi [of irp] by (simp add: ReadComplete_def read_rank_def)
  next
    case (step_disk irp fetches status refetch)
    then show ?thesis
      using work_give_back [OF w, of irp "DiskDone status refetch" "W_Owed w"] by (simp add: disk_give_back_def read_rank_def)
  next
    case (step_disk_finish irp status refetch allocated)
    then show ?thesis using sp [of irp Refetching] fi [of irp] by (simp add: disk_finish_def read_rank_def)
  next
    case (step_worker irp status)
    note qa = queued_admitted [OF w step_worker(2)]
    let ?s = "(W_Fair w)\<lparr>Queued := remove1 irp (Queued (W_Fair w))\<rparr>"
    have u: "work (unqueue irp w) < work w"
      using work_move [OF w, of irp ?s "Issuing OfferAgain" "W_Owed w" "W_Charged w"] qa by (simp add: unqueue_def read_rank_def)
    have "work (finish B irp status (unqueue irp w)) < work (unqueue irp w)"
      by (rule work_finish [OF inv_unqueue [OF w step_worker(2)]]) (simp_all add: unqueue_def set_phase_def read_rank_def)
    then show ?thesis using u step_worker qa by (simp add: worker_alt)
  next
    case (step_refetch irp status)
    then show ?thesis
      using sp [of irp "Admitting False NoOffer"] sp [of irp "Issuing NoOffer"] fi [of irp]
      by (simp add: ReadRefetchWorker_def ReadIssueReleased_def Let_def read_rank_def)
  qed
qed

section \<open>Some read can always move\<close>

definition under_way :: "read_phase \<Rightarrow> bool" where
  "under_way p \<longleftrightarrow> p \<noteq> Absent \<and> (\<forall>status. p \<noteq> Completed status)"

lemma unparked_moves:
  assumes "under_way (W_Phase w irp)" "W_Phase w irp \<noteq> Parked"
  shows "\<exists>w'. read_step B w w'"
proof (cases "W_Phase w irp")
  case (Issuing offer)
  then show ?thesis using step_issue [of w irp] step_no_runs [of w irp offer] by (cases "offer = NoOffer") blast+
next
  case (Offering n)
  then show ?thesis using step_answer [of w irp n 0] by auto
qed (use assms in \<open>auto simp: under_way_def intro: read_step.intros\<close>)

lemma admitted_moves:
  assumes w: "world_inv B w" and adm: "R_Admitted (Irps (W_Fair w) irp)"
  shows "\<exists>w'. read_step B w w'"
proof (cases "W_Phase w irp = Parked")
  case True
  then have "irp \<in> set (Queued (W_Fair w))"
    using world_invD(3,5) [OF w] adm by (auto simp: listed_def parked_def)
  then show ?thesis using step_worker by blast
next
  case False
  have "under_way (W_Phase w irp)" using world_invD(6) [OF w, of irp] adm by (cases "W_Phase w irp") (auto simp: under_way_def)
  then show ?thesis using False by (rule unparked_moves)
qed

lemma full_link_moves:
  assumes w: "world_inv B w" and full: "0 < unat (InFlightFetches (W_Fair w))"
  shows "\<exists>w'. read_step B w w'"
proof -
  have "unat (InFlightFetches (W_Fair w)) = card (admitted (W_Fair w)) + reserved_fetches w"
    using world_invD(2) [OF w] by (simp add: fair_inv_def counts_def)
  then consider "admitted (W_Fair w) \<noteq> {}" | "W_Owed w \<noteq> []" | "(\<Sum>i\<in>W_Reads w. extra (W_Phase w i)) \<noteq> 0"
    using full by (fastforce simp: reserved_fetches_def)
  then show ?thesis
  proof cases
    case 1
    then show ?thesis using admitted_moves [OF w] by (auto simp: admitted_def)
  next
    case 2
    then show ?thesis using step_owed by blast
  next
    case 3
    then obtain i where "extra (W_Phase w i) \<noteq> 0" by (meson sum.neutral)
    then have "under_way (W_Phase w i)" "W_Phase w i \<noteq> Parked" by (cases "W_Phase w i"; simp add: under_way_def)+
    then show ?thesis by (rule unparked_moves)
  qed
qed

lemma some_read_moves:
  assumes w: "world_inv B w" and irp: "under_way (W_Phase w irp)"
  shows "\<exists>w'. read_step B w w'"
proof (cases "W_Phase w irp = Parked \<and> irp \<notin> set (Queued (W_Fair w))")
  case False
  then show ?thesis using unparked_moves [OF irp] step_worker [of irp w B] by blast
next
  case True
  then have i: "irp \<in> set (Held (W_Fair w)) \<union> set (Waiting (W_Fair w))" using world_invD(5) [OF w, of irp] by (auto simp: parked_def)
  let ?s = "W_Fair w"
  have c: "counts (reserved_fetches w) ?s" "calm B ?s" using world_invD(2) [OF w] by (simp_all add: fair_inv_def)
  show ?thesis
  proof (cases "unat (InFlightFetches ?s) < 32")
    case False
    then show ?thesis using full_link_moves [OF w] by simp
  next
    case True
    then have "ReadFetchesInFlight (irp_node ?s irp) \<noteq> 0" using c(2) i by (auto simp: calm_def)
    then have "unat (ReadFetchesInFlight (irp_node ?s irp)) \<noteq> 0" by (simp add: unat_eq_zero)
    then have "of_node ?s (R_Node (Irps ?s irp)) \<noteq> {}" using c(1) by (auto simp: counts_def)
    then show ?thesis using admitted_moves [OF w] by (auto simp: of_node_def admitted_def)
  qed
qed

end
