(* ===== verification/Read_Policy.thy ===== *)
theory Read_Policy
  imports Blorg_Prelude
begin

unbundle bit_operations_syntax

text \<open>
  What Read.c decides about one read: how much of it lies in the file and which path it takes, the
  streams it belongs to, and the read-ahead granule of its handle.

  LONGLONG values are 64-bit words compared by their signed value. The windows' counters wrap at
  64 bits as the code's do. The agreement count of a handle, a LONG, stays between -1 and 1 and is
  an integer. Calls out of Read.c are their answers.
\<close>

section \<open>Trimming\<close>

definition ReadTrimToFileSize :: "ULONG64 \<Rightarrow> ULONG64 \<Rightarrow> ULONG \<Rightarrow> NTSTATUS + ULONG" where
  "ReadTrimToFileSize fileSize startingByte bytesLength =
     (if sint startingByte \<ge> sint fileSize then Inl STATUS_END_OF_FILE
      else if sint startingByte > (2 ^ 63 - 1) - uint bytesLength then Inl STATUS_END_OF_FILE
      else if sint (startingByte + ucast bytesLength) > sint fileSize
      then Inr (bytesLength - ucast ((startingByte + ucast bytesLength) - fileSize))
      else Inr bytesLength)"

section \<open>The route of a read\<close>

record READ_REQUEST =
  Q_Length :: ULONG
  Q_Offset :: ULONG64
  Q_IsFcb :: bool
  Q_Paging :: bool
  Q_NoCache :: bool
  Q_DataSection :: bool
  Q_InFsp :: bool
  Q_Passive :: bool

text \<open>The answers of CcFlushCache, FsRtlCheckOplock, FsRtlCheckLockForReadAccess and BlorgLockUserBuffer,
  and the file's size as ReadSnapshotFile or the header gives it.\<close>

record READ_ANSWERS =
  A_Flush :: NTSTATUS
  A_Oplock :: NTSTATUS
  A_LockFree :: bool
  A_Buffer :: NTSTATUS
  A_FileSize :: ULONG64

datatype read_route = ReturnNow NTSTATUS | PostToFsp | NonCached ULONG | CachedRead ULONG

definition STATUS_FILE_LOCK_CONFLICT :: NTSTATUS where "STATUS_FILE_LOCK_CONFLICT = 0xC0000054"

text \<open>BlorgVolumeRead up to where a non-cached read is marked pending or a cached one reaches Cc.\<close>

definition read_route :: "READ_REQUEST \<Rightarrow> READ_ANSWERS \<Rightarrow> read_route" where
  "read_route q a =
     (if Q_Length q = 0 then ReturnNow STATUS_SUCCESS
      else if sint (Q_Offset q) < 0 then ReturnNow STATUS_INVALID_PARAMETER
      else if \<not> Q_IsFcb q then ReturnNow STATUS_INVALID_PARAMETER
      else if \<not> Q_Paging q \<and> Q_NoCache q \<and> Q_DataSection q \<and> \<not> NT_SUCCESS (A_Flush a) then ReturnNow (A_Flush a)
      else if \<not> Q_Paging q \<and> A_Oplock a \<noteq> STATUS_SUCCESS then ReturnNow (A_Oplock a)
      else if \<not> Q_Paging q \<and> \<not> A_LockFree a then ReturnNow STATUS_FILE_LOCK_CONFLICT
      else case ReadTrimToFileSize (A_FileSize a) (Q_Offset q) (Q_Length q) of
             Inl status \<Rightarrow> ReturnNow status
           | Inr realLength \<Rightarrow>
               if \<not> Q_NoCache q then CachedRead realLength
               else if \<not> Q_InFsp q \<and> \<not> Q_Passive q then PostToFsp
               else if \<not> Q_Paging q \<and> \<not> NT_SUCCESS (A_Buffer a) then ReturnNow (A_Buffer a)
               else NonCached realLength)"

section \<open>Streams\<close>

record READ_STREAM_TRACKER =
  Stream_End :: ULONG64
  Stream_Streak :: ULONG64

definition READ_STREAM_TRACKER_COUNT :: nat where "READ_STREAM_TRACKER_COUNT = 4"

text \<open>The part of an FCB the read policy keeps.\<close>

record READ_FCB =
  Streams :: "READ_STREAM_TRACKER list"
  ReadLastStreamIndex :: nat
  ReadAheadFetchedBytes :: ULONG64
  ReadAheadConsumedBytes :: ULONG64
  ReadMaxPagingBytes :: ULONG
  ReadIdleTicks :: ULONG64
  ReadBusyTicks :: ULONG64

definition ReadIsSequential :: "READ_FCB \<Rightarrow> ULONG64 \<Rightarrow> bool" where
  "ReadIsSequential fcb offset =
     fold (\<lambda>i sequential. sequential \<or> offset = Stream_End (Streams fcb ! i)) [0..<READ_STREAM_TRACKER_COUNT] False"

definition claim_step :: "READ_FCB \<Rightarrow> ULONG64 \<Rightarrow> nat \<Rightarrow> nat \<times> nat \<Rightarrow> nat \<times> nat" where
  "claim_step fcb offset i st =
     (case st of (matched, coldest) \<Rightarrow>
       (if offset = Stream_End (Streams fcb ! i) then i else matched,
        if Stream_Streak (Streams fcb ! i) < Stream_Streak (Streams fcb ! coldest) then i else coldest))"

definition ReadClaimStream :: "READ_FCB \<Rightarrow> ULONG64 \<Rightarrow> nat" where
  "ReadClaimStream fcb offset =
     (case fold (claim_step fcb offset) [0..<READ_STREAM_TRACKER_COUNT] (READ_STREAM_TRACKER_COUNT, 0) of
        (matched, coldest) \<Rightarrow> if matched \<noteq> READ_STREAM_TRACKER_COUNT then matched else coldest)"

definition ReadTrackStream :: "READ_FCB \<Rightarrow> ULONG64 \<Rightarrow> ULONG \<Rightarrow> READ_FCB" where
  "ReadTrackStream fcb offset len =
     (let index = ReadClaimStream fcb offset; stream = Streams fcb ! index
      in fcb\<lparr>Streams := (Streams fcb)[index :=
                 \<lparr>Stream_End = offset + ucast len,
                  Stream_Streak = (if offset = Stream_End stream then Stream_Streak stream + 1 else 1)\<rparr>],
             ReadLastStreamIndex := index\<rparr>)"

definition ReadCurrentStreak :: "READ_FCB \<Rightarrow> ULONG64" where
  "ReadCurrentStreak fcb = Stream_Streak (Streams fcb ! ReadLastStreamIndex fcb)"

text \<open>What a paging read on its way to a fetch leaves in the FCB.\<close>

definition note_paging_read :: "READ_FCB \<Rightarrow> ULONG64 \<Rightarrow> ULONG \<Rightarrow> READ_FCB" where
  "note_paging_read fcb startingByte realLength =
     (let fcb1 = ReadTrackStream fcb startingByte realLength;
          fcb2 = fcb1\<lparr>ReadAheadFetchedBytes := ReadAheadFetchedBytes fcb1 + ucast realLength\<rparr>
      in if realLength > ReadMaxPagingBytes fcb2 then fcb2\<lparr>ReadMaxPagingBytes := realLength\<rparr> else fcb2)"

section \<open>The granule\<close>

definition READ_AHEAD_ADAPT_WINDOW_GRANULES :: ULONG64 where "READ_AHEAD_ADAPT_WINDOW_GRANULES = 2"
definition READ_AHEAD_ADAPT_WINDOW_FLOOR :: ULONG64 where "READ_AHEAD_ADAPT_WINDOW_FLOOR = 256 * 1024"
definition READ_AHEAD_ADAPT_LEAD_GRANULES :: ULONG64 where "READ_AHEAD_ADAPT_LEAD_GRANULES = 1"
definition READ_AHEAD_ADAPT_AGREEMENT :: int where "READ_AHEAD_ADAPT_AGREEMENT = 2"
definition READ_AHEAD_ADAPT_WASTE_RATIO :: ULONG64 where "READ_AHEAD_ADAPT_WASTE_RATIO = 2"
definition READ_AHEAD_ADAPT_GROW_STREAK :: ULONG64 where "READ_AHEAD_ADAPT_GROW_STREAK = 16"
definition READ_AHEAD_ADAPT_GREEDY_IDLE_PERCENT :: ULONG64 where "READ_AHEAD_ADAPT_GREEDY_IDLE_PERCENT = 25"
definition READ_AHEAD_ADAPT_QUIET_DEPTH :: ULONG64 where "READ_AHEAD_ADAPT_QUIET_DEPTH = 6"

record READ_CONFIG =
  ReadAheadGranularity :: ULONG
  ReadAheadMaxGranularity :: ULONG
  ReadAheadAdapt :: bool
  ReadAheadSlackGrowth :: bool

record READ_CCB =
  Ccb_Granularity :: ULONG
  Ccb_Agreement :: int

definition ReadIsGreedy :: "READ_FCB \<Rightarrow> bool" where
  "ReadIsGreedy fcb =
     (let total_ticks = ReadIdleTicks fcb + ReadBusyTicks fcb
      in if total_ticks = 0 \<or> ReadIdleTicks fcb = 0 then False
         else ReadIdleTicks fcb * 100 < total_ticks * READ_AHEAD_ADAPT_GREEDY_IDLE_PERCENT)"

definition adapt_window :: "ULONG \<Rightarrow> ULONG64" where
  "adapt_window current =
     (let window = ucast current * READ_AHEAD_ADAPT_WINDOW_GRANULES
      in if window < READ_AHEAD_ADAPT_WINDOW_FLOOR then READ_AHEAD_ADAPT_WINDOW_FLOOR else window)"

definition adapt_vote :: "READ_CONFIG \<Rightarrow> ULONG64 \<Rightarrow> READ_FCB \<Rightarrow> ULONG \<Rightarrow> int" where
  "adapt_vote cfg fetchesActive fcb current =
     (let greedy = ReadAheadSlackGrowth cfg \<and> fetchesActive < READ_AHEAD_ADAPT_QUIET_DEPTH \<and> ReadIsGreedy fcb;
          lead = ucast current * READ_AHEAD_ADAPT_LEAD_GRANULES
      in if ReadAheadFetchedBytes fcb > ReadAheadConsumedBytes fcb * READ_AHEAD_ADAPT_WASTE_RATIO + lead then 1
         else if greedy \<and> ReadMaxPagingBytes fcb \<ge> current \<and> ReadCurrentStreak fcb \<ge> READ_AHEAD_ADAPT_GROW_STREAK then - 1
         else 0)"

definition adapt_next :: "READ_CONFIG \<Rightarrow> int \<Rightarrow> ULONG \<Rightarrow> ULONG" where
  "adapt_next cfg vote current =
     (let ceiling = (if ReadAheadGranularity cfg > ReadAheadMaxGranularity cfg then ReadAheadGranularity cfg else ReadAheadMaxGranularity cfg)
      in if vote > 0 then (if current > PAGE_SIZE then current div 2 else PAGE_SIZE)
         else (if current < ceiling then current * 2 else ceiling))"

text \<open>The last component is what Cc was told, if anything.\<close>

definition ReadAdaptGranularity ::
    "READ_CONFIG \<Rightarrow> ULONG64 \<Rightarrow> READ_FCB \<Rightarrow> READ_CCB \<Rightarrow> READ_FCB \<times> READ_CCB \<times> ULONG option" where
  "ReadAdaptGranularity cfg fetchesActive fcb ccb =
     (if ReadAheadGranularity cfg = 0 \<or> Ccb_Granularity ccb = 0 \<or> \<not> ReadAheadAdapt cfg then (fcb, ccb, None)
      else let current = Ccb_Granularity ccb
           in if ReadAheadConsumedBytes fcb < adapt_window current then (fcb, ccb, None)
              else let vote = adapt_vote cfg fetchesActive fcb current;
                       fcb1 = fcb\<lparr>ReadAheadConsumedBytes := 0, ReadAheadFetchedBytes := 0, ReadMaxPagingBytes := 0,
                                  ReadIdleTicks := 0, ReadBusyTicks := 0\<rparr>
                   in if vote = 0 then (fcb1, ccb\<lparr>Ccb_Agreement := 0\<rparr>, None)
                      else let agreement = (if Ccb_Agreement ccb * vote > 0 then Ccb_Agreement ccb + vote else vote)
                           in if agreement > - READ_AHEAD_ADAPT_AGREEMENT \<and> agreement < READ_AHEAD_ADAPT_AGREEMENT
                              then (fcb1, ccb\<lparr>Ccb_Agreement := agreement\<rparr>, None)
                              else let ccb1 = ccb\<lparr>Ccb_Agreement := 0\<rparr>; new = adapt_next cfg vote current
                                   in if new = current then (fcb1, ccb1, None)
                                      else (fcb1, ccb1\<lparr>Ccb_Granularity := new\<rparr>, Some new))"

text \<open>A cached or fast-I/O read: the bytes it copied are consumed, and the policy is evaluated.\<close>

definition consume_read ::
    "READ_CONFIG \<Rightarrow> ULONG64 \<Rightarrow> READ_FCB \<Rightarrow> READ_CCB \<Rightarrow> ULONG64 \<Rightarrow> READ_FCB \<times> READ_CCB \<times> ULONG option" where
  "consume_read cfg fetchesActive fcb ccb bytes =
     ReadAdaptGranularity cfg fetchesActive (fcb\<lparr>ReadAheadConsumedBytes := ReadAheadConsumedBytes fcb + bytes\<rparr>) ccb"

text \<open>The cache map of a handle's first cached read.\<close>

definition start_handle :: "READ_CONFIG \<Rightarrow> READ_FCB \<Rightarrow> READ_CCB \<Rightarrow> READ_FCB \<times> READ_CCB \<times> ULONG option" where
  "start_handle cfg fcb ccb =
     (if ReadAheadGranularity cfg \<noteq> 0
      then (fcb\<lparr>ReadAheadFetchedBytes := 0, ReadAheadConsumedBytes := 0\<rparr>,
            ccb\<lparr>Ccb_Granularity := ReadAheadGranularity cfg\<rparr>, Some (ReadAheadGranularity cfg))
      else (fcb, ccb, None))"

section \<open>The granularity settings of the registry\<close>

text \<open>The values as read, absent when the registry has none.\<close>

definition accept_granularity :: "ULONG option \<Rightarrow> ULONG \<Rightarrow> ULONG" where
  "accept_granularity kb current =
     (case kb of
        None \<Rightarrow> current
      | Some kb \<Rightarrow>
          if kb \<le> (- 1) div 1024
          then let granularity = kb * 1024
               in if granularity = 0 \<or> granularity \<ge> PAGE_SIZE \<and> granularity AND (granularity - 1) = 0 then granularity else current
          else current)"

definition accept_max_granularity :: "ULONG option \<Rightarrow> ULONG \<Rightarrow> ULONG" where
  "accept_max_granularity kb current =
     (case kb of
        None \<Rightarrow> current
      | Some kb \<Rightarrow>
          if kb \<le> (- 1) div 1024
          then let granularity = kb * 1024
               in if granularity \<ge> PAGE_SIZE \<and> granularity AND (granularity - 1) = 0 then granularity else current
          else current)"

definition READ_AHEAD_GRANULARITY :: ULONG where "READ_AHEAD_GRANULARITY = PAGE_SIZE * 32"
definition READ_AHEAD_MAX_GRANULARITY :: ULONG where "READ_AHEAD_MAX_GRANULARITY = PAGE_SIZE * 512"

definition read_config :: "ULONG option \<Rightarrow> ULONG option \<Rightarrow> bool \<Rightarrow> bool \<Rightarrow> READ_CONFIG" where
  "read_config granularityKb maxGranularityKb adapt slackGrowth =
     \<lparr>ReadAheadGranularity = accept_granularity granularityKb READ_AHEAD_GRANULARITY,
      ReadAheadMaxGranularity = accept_max_granularity maxGranularityKb READ_AHEAD_MAX_GRANULARITY,
      ReadAheadAdapt = adapt, ReadAheadSlackGrowth = slackGrowth\<rparr>"

end
