(* ===== verification/Read_Policy_Correct.thy ===== *)
theory Read_Policy_Correct
  imports Read_Policy
begin

unbundle bit_operations_syntax

text \<open>
  Trimming computes the part of a read inside the file without wrap-around, the streams follow
  sequential readers, and the granule of a handle stays a power of two in its range.
\<close>

section \<open>Trimming\<close>

lemma sint_small: "uint (x :: ULONG64) < 2 ^ 63 \<Longrightarrow> sint x = uint x"
  using signed_take_bit_int_eq_self [of 63 "uint x"] order_trans [of "- (2 ^ 63)" 0 "uint x"] by (simp add: sint_uint)

lemma sint_nonneg: "0 \<le> sint (x :: ULONG64) \<Longrightarrow> sint x = uint x \<and> uint x < 2 ^ 63"
  using sint_less [of x] by (simp add: uint_sint take_bit_int_eq_self)

lemma trim_correct:
  assumes start: "0 \<le> sint start"
  shows "ReadTrimToFileSize fsize start len =
     (if sint start \<ge> sint fsize \<or> sint start + uint len \<ge> 2 ^ 63 then Inl STATUS_END_OF_FILE
      else Inr (of_int (min (uint len) (sint fsize - sint start))))"
proof (cases "sint start \<ge> sint fsize \<or> sint start + uint len \<ge> 2 ^ 63")
  case True
  then show ?thesis by (auto simp: ReadTrimToFileSize_def)
next
  case False
  have s: "sint start = uint start" "uint start < 2 ^ 63" using sint_nonneg [OF start] by simp_all
  have z: "sint fsize = uint fsize" using sint_nonneg [of fsize] False start by simp
  have u: "uint (ucast len :: ULONG64) = uint len" by (simp add: uint_up_ucast is_up)
  have sum: "uint (start + ucast len) = uint start + uint len"
    using False s u by (simp add: uint_word_ariths)
  have ssum: "sint (start + ucast len) = uint start + uint len" using sint_small [of "start + ucast len"] sum False s by simp
  show ?thesis
  proof (cases "uint start + uint len > uint fsize")
    case over: True
    have "uint start + uint len < 2 ^ 63" "0 \<le> uint fsize" using False s(1) by simp_all
    then have "uint start + uint len - uint fsize < 2 ^ 63" by linarith
    then have "uint ((start + ucast len) - fsize) = uint start + uint len - uint fsize"
      using over sum by (simp add: uint_sub_if_size word_size)
    then have "uint len - uint ((start + ucast len) - fsize) = uint fsize - uint start" by simp
    moreover have "len - ucast ((start + ucast len) - fsize) = (of_int (uint len - uint ((start + ucast len) - fsize)) :: ULONG)" by simp
    ultimately have "len - ucast ((start + ucast len) - fsize) = of_int (uint fsize - uint start)" by (simp only:)
    then show ?thesis using False over s z ssum by (simp add: ReadTrimToFileSize_def)
  next
    case False
    then show ?thesis using \<open>\<not> (_ \<or> _)\<close> s z ssum by (simp add: ReadTrimToFileSize_def)
  qed
qed

lemma trim_bounds:
  assumes "0 \<le> sint start" "ReadTrimToFileSize fsize start len = Inr n" "len \<noteq> 0"
  shows "0 < unat n \<and> n \<le> len \<and> sint start + uint n \<le> sint fsize \<and> uint n = min (uint len) (sint fsize - sint start)"
proof -
  have f: "\<not> (sint start \<ge> sint fsize \<or> sint start + uint len \<ge> 2 ^ 63)"
    and n: "n = of_int (min (uint len) (sint fsize - sint start))"
    using assms(2) unfolding trim_correct [OF assms(1)] by (auto split: if_splits)
  let ?m = "min (uint len) (sint fsize - sint start)"
  have l: "0 < uint len" "uint len < 2 ^ 32" using assms(3) unsigned_less [of len] by (simp_all add: word_neq_0_conv word_less_def)
  then have m: "0 < ?m" "?m < 2 ^ 32" using f by auto
  have "uint (of_int m :: ULONG) = m" if "0 < m" "m < 2 ^ 32" for m
    using that by (simp add: uint_word_of_int_eq take_bit_int_eq_self)
  then have u: "uint n = ?m" unfolding n using m by blast
  have "int (unat n) = uint n" by simp
  then have "0 < unat n" using u m by linarith
  then show ?thesis using u by (simp add: word_le_def)
qed

text \<open>A fetch or a cached copy is only ever asked for inside the file.\<close>

lemma route_bounds:
  assumes "read_route q a = NonCached n \<or> read_route q a = CachedRead n"
  shows "0 \<le> sint (Q_Offset q)" "0 < unat n" "n \<le> Q_Length q" "sint (Q_Offset q) + uint n \<le> sint (A_FileSize a)"
    and "uint n = min (uint (Q_Length q)) (sint (A_FileSize a) - sint (Q_Offset q))"
proof -
  have l: "Q_Length q \<noteq> 0" and o: "0 \<le> sint (Q_Offset q)" and t: "ReadTrimToFileSize (A_FileSize a) (Q_Offset q) (Q_Length q) = Inr n"
    using assms by (auto simp: read_route_def split: if_splits sum.splits)
  show "0 \<le> sint (Q_Offset q)" by (rule o)
  show "0 < unat n" "n \<le> Q_Length q" "sint (Q_Offset q) + uint n \<le> sint (A_FileSize a)"
    "uint n = min (uint (Q_Length q)) (sint (A_FileSize a) - sint (Q_Offset q))"
    using trim_bounds [OF o t l] by simp_all
qed

section \<open>Streams\<close>

lemma four: "[0..<READ_STREAM_TRACKER_COUNT] = [0, 1, 2, 3]"
  by (simp add: READ_STREAM_TRACKER_COUNT_def upt_conv_Cons del: upt_Suc)

lemma less_four: "(i :: nat) < 4 \<longleftrightarrow> i = 0 \<or> i = 1 \<or> i = 2 \<or> i = 3"
  by auto

lemma is_sequential_iff: "ReadIsSequential fcb offset \<longleftrightarrow> (\<exists>i<4. offset = Stream_End (Streams fcb ! i))"
  by (auto simp: ReadIsSequential_def four less_four)

lemma claim_fold:
  assumes "fold (claim_step fcb offset) indices (matched, coldest) = (matched', coldest')"
  shows "(\<forall>i\<in>insert coldest (set indices). Stream_Streak (Streams fcb ! coldest') \<le> Stream_Streak (Streams fcb ! i)) \<and>
     coldest' \<in> insert coldest (set indices) \<and>
     (if \<exists>i\<in>set indices. offset = Stream_End (Streams fcb ! i)
      then matched' \<in> set indices \<and> offset = Stream_End (Streams fcb ! matched') else matched' = matched)"
  using assms
proof (induction indices arbitrary: matched coldest)
  case (Cons i indices)
  obtain m c where mc: "claim_step fcb offset i (matched, coldest) = (m, c)" by fastforce
  have "fold (claim_step fcb offset) indices (m, c) = (matched', coldest')" using Cons.prems mc by simp
  note ih = Cons.IH [OF this]
  have c: "c \<in> {i, coldest}" "Stream_Streak (Streams fcb ! c) \<le> Stream_Streak (Streams fcb ! i)"
    "Stream_Streak (Streams fcb ! c) \<le> Stream_Streak (Streams fcb ! coldest)"
    and m: "m = (if offset = Stream_End (Streams fcb ! i) then i else matched)"
    using mc by (auto simp: claim_step_def split: if_splits)
  show ?case
  proof (intro conjI)
    show "\<forall>j\<in>insert coldest (set (i # indices)). Stream_Streak (Streams fcb ! coldest') \<le> Stream_Streak (Streams fcb ! j)"
      using ih c(2,3) by (auto intro: order_trans)
    show "coldest' \<in> insert coldest (set (i # indices))" using ih c(1) by auto
    show "if \<exists>j\<in>set (i # indices). offset = Stream_End (Streams fcb ! j)
      then matched' \<in> set (i # indices) \<and> offset = Stream_End (Streams fcb ! matched') else matched' = matched"
      using ih m by (auto split: if_splits)
  qed
qed simp

lemma claim_stream:
  assumes "index = ReadClaimStream fcb offset"
  shows "index < 4"
    and "ReadIsSequential fcb offset \<Longrightarrow> offset = Stream_End (Streams fcb ! index)"
    and "\<not> ReadIsSequential fcb offset \<Longrightarrow> i < 4 \<Longrightarrow> Stream_Streak (Streams fcb ! index) \<le> Stream_Streak (Streams fcb ! i)"
proof -
  obtain m c where f: "fold (claim_step fcb offset) [0..<4] (4, 0) = (m, c)" by fastforce
  have idx: "index = (if m \<noteq> 4 then m else c)" using assms f by (simp add: ReadClaimStream_def READ_STREAM_TRACKER_COUNT_def)
  note r = claim_fold [OF f]
  show "index < 4" using r idx by (auto split: if_splits)
  show "offset = Stream_End (Streams fcb ! index)" if "ReadIsSequential fcb offset"
    using that r idx unfolding is_sequential_iff by (auto split: if_splits)
  show "Stream_Streak (Streams fcb ! index) \<le> Stream_Streak (Streams fcb ! i)" if "\<not> ReadIsSequential fcb offset" "i < 4"
    using that r idx unfolding is_sequential_iff by (auto split: if_splits)
qed

section \<open>The granule\<close>

lemma power_of_two_nat: "0 < n \<Longrightarrow> n AND (n - 1) = 0 \<Longrightarrow> \<exists>k. n = (2 :: nat) ^ k"
proof (induction n rule: less_induct)
  case (less n)
  show ?case
  proof (cases "odd n")
    case True
    then have "(n - 1) div 2 = n div 2" by (auto elim: oddE)
    then have "n AND (n - 1) = 2 * (n div 2)" using and_rec [of n "n - 1"] True by simp
    then have "n AND (n - 1) = n - 1" using True by simp
    then show ?thesis using less.prems by (intro exI [of _ 0]) simp
  next
    case False
    then obtain m where m: "n = 2 * m" "0 < m" using less.prems(1) by auto
    then have h: "n div 2 = m" "(n - 1) div 2 = m - 1" by auto
    have "n AND (n - 1) = 2 * (m AND (m - 1))" using and_rec [of n "n - 1"] False h by simp
    then have "m AND (m - 1) = 0" using less.prems(2) by simp
    then obtain k where "m = 2 ^ k" using less.IH [of m] m by auto
    then show ?thesis using m by (intro exI [of _ "Suc k"]) simp
  qed
qed

lemma power_of_two: "(x :: ULONG) \<noteq> 0 \<Longrightarrow> x AND (x - 1) = 0 \<Longrightarrow> \<exists>k. unat x = 2 ^ k"
proof -
  assume x: "x \<noteq> 0" "x AND (x - 1) = 0"
  have "unat (x - 1) = unat x - 1" using x(1) by (simp add: unat_minus_one)
  moreover have "unat x AND unat (x - 1) = 0" using x(2) by (metis unat_0 unsigned_and_eq)
  ultimately show ?thesis using power_of_two_nat [of "unat x"] x(1) by (simp add: unat_gt_0)
qed

definition granule_ceiling :: "READ_CONFIG \<Rightarrow> ULONG" where
  "granule_ceiling cfg = max (ReadAheadGranularity cfg) (ReadAheadMaxGranularity cfg)"

definition page_power :: "ULONG \<Rightarrow> bool" where
  "page_power g \<longleftrightarrow> (\<exists>k. unat g = 2 ^ k) \<and> PAGE_SIZE \<le> g"

definition granule_ok :: "READ_CONFIG \<Rightarrow> ULONG \<Rightarrow> bool" where
  "granule_ok cfg g \<longleftrightarrow> page_power g \<and> g \<le> granule_ceiling cfg"

definition config_ok :: "READ_CONFIG \<Rightarrow> bool" where
  "config_ok cfg \<longleftrightarrow> (ReadAheadGranularity cfg = 0 \<or> page_power (ReadAheadGranularity cfg)) \<and> page_power (ReadAheadMaxGranularity cfg)"

lemma page_power_check: "PAGE_SIZE \<le> g \<Longrightarrow> g AND (g - 1) = 0 \<Longrightarrow> page_power g"
  using power_of_two [of g] by (cases "g = 0") (auto simp: page_power_def PAGE_SIZE_def)

lemma read_config_ok: "config_ok (read_config granularityKb maxKb adapt slack)"
proof -
  have "page_power READ_AHEAD_GRANULARITY" "page_power READ_AHEAD_MAX_GRANULARITY"
    by (rule page_power_check; simp add: READ_AHEAD_GRANULARITY_def READ_AHEAD_MAX_GRANULARITY_def PAGE_SIZE_def)+
  then show ?thesis
    by (auto simp: config_ok_def read_config_def accept_granularity_def accept_max_granularity_def Let_def
        intro: page_power_check split: option.splits)
qed

lemma page_size_unat: "unat PAGE_SIZE = 2 ^ 12" by (simp add: PAGE_SIZE_def)

lemma adapt_next_ok:
  assumes cfg: "config_ok cfg" and g: "granule_ok cfg g" and vote: "vote \<noteq> 0"
  shows "granule_ok cfg (adapt_next cfg vote g)"
    and "adapt_next cfg vote g \<noteq> g \<Longrightarrow>
       (if vote > 0 then unat g = 2 * unat (adapt_next cfg vote g) else unat (adapt_next cfg vote g) = 2 * unat g)"
proof -
  obtain k where k: "unat g = 2 ^ k" and page: "2 ^ 12 \<le> unat g" and top: "unat g \<le> unat (granule_ceiling cfg)"
    using g by (auto simp: granule_ok_def page_power_def word_le_nat_alt page_size_unat)
  let ?c = "granule_ceiling cfg"
  have cdef: "(if ReadAheadGranularity cfg > ReadAheadMaxGranularity cfg then ReadAheadGranularity cfg else ReadAheadMaxGranularity cfg) = ?c"
    by (auto simp: granule_ceiling_def max_def)
  have cp: "page_power ?c" using cfg by (auto simp: config_ok_def granule_ceiling_def max_def)
  then obtain m where m: "unat ?c = 2 ^ m" and cpage: "2 ^ 12 \<le> unat ?c" by (auto simp: page_power_def word_le_nat_alt page_size_unat)
  have c32: "unat ?c < 2 ^ 32" using unsigned_less [of ?c, where 'a = nat] by simp
  have "granule_ok cfg (adapt_next cfg vote g) \<and> (adapt_next cfg vote g \<noteq> g \<longrightarrow>
       (if vote > 0 then unat g = 2 * unat (adapt_next cfg vote g) else unat (adapt_next cfg vote g) = 2 * unat g))"
  proof (cases "vote > 0")
    case True
    show ?thesis
    proof (cases "g > PAGE_SIZE")
      case False
      then have "g = PAGE_SIZE" using page by (metis linorder_not_less order_antisym page_size_unat word_le_nat_alt)
      then show ?thesis using True g False by (simp add: adapt_next_def)
    next
      case big: True
      then have "2 ^ 12 < (2 :: nat) ^ k" using k by (simp add: word_less_nat_alt page_size_unat)
      then have k12: "12 < k" using power_less_imp_less_exp [of "2 :: nat" 12 k] by simp
      have "unat (g div 2) = unat g div 2" by (simp add: unat_div_distrib)
      moreover have "(2 :: nat) ^ k = 2 * 2 ^ (k - 1)" using k12 by (metis less_nat_zero_code power_minus_mult mult.commute neq0_conv)
      ultimately have half: "unat (g div 2) = 2 ^ (k - 1)" "2 ^ k = 2 * (2 :: nat) ^ (k - 1)" using k by simp_all
      have "(2 :: nat) ^ 12 \<le> 2 ^ (k - 1)" using k12 by (intro power_increasing) simp_all
      moreover have "2 ^ (k - 1) \<le> unat ?c" using half(2) k top by linarith
      ultimately have "granule_ok cfg (g div 2)" using half(1) k top
        by (auto simp: granule_ok_def page_power_def word_le_nat_alt page_size_unat)
      moreover have "unat g = 2 * unat (g div 2)" using half k by simp
      moreover have "adapt_next cfg vote g = g div 2" using True big by (simp add: adapt_next_def)
      ultimately show ?thesis using True by simp
    qed
  next
    case False
    show ?thesis
    proof (cases "g < ?c")
      case True
      then have "(2 :: nat) ^ k < 2 ^ m" using k m by (simp add: word_less_nat_alt)
      then have "k < m" using power_less_imp_less_exp [of "2 :: nat" k m] by simp
      then have le: "(2 :: nat) ^ Suc k \<le> 2 ^ m" by (intro power_increasing) simp_all
      have "2 ^ Suc k < (2 :: nat) ^ 32" using le m c32 by linarith
      then have double: "unat (g * 2) = 2 ^ Suc k" using k unat_mult_lem [of g 2] by simp
      then have "granule_ok cfg (g * 2)" using le m page k
        by (auto simp: granule_ok_def page_power_def word_le_nat_alt page_size_unat intro: exI [of _ "Suc k"])
      moreover have "adapt_next cfg vote g = g * 2" using False True by (simp add: adapt_next_def cdef)
      ultimately show ?thesis using False double k by simp
    next
      case stay: False
      then have "g = ?c" using top by (metis linorder_not_less order_antisym word_le_nat_alt)
      then show ?thesis using False stay g by (simp add: adapt_next_def cdef)
    qed
  qed
  then show "granule_ok cfg (adapt_next cfg vote g)"
    "adapt_next cfg vote g \<noteq> g \<Longrightarrow>
       (if vote > 0 then unat g = 2 * unat (adapt_next cfg vote g) else unat (adapt_next cfg vote g) = 2 * unat g)" by blast+
qed

section \<open>A handle over its life\<close>

text \<open>What happens to a handle and its file: a read of the application's, a paging read, and another
  handle that starts the window afresh. The last component of the state is the granule Cc was last told.\<close>

datatype read_event = Consumed ULONG64 ULONG64 | PagedIn ULONG64 ULONG | OtherHandle

fun handle_event :: "READ_CONFIG \<Rightarrow> read_event \<Rightarrow> READ_FCB \<times> READ_CCB \<times> ULONG \<Rightarrow> READ_FCB \<times> READ_CCB \<times> ULONG" where
  "handle_event cfg (Consumed bytes active) (fcb, ccb, cc) =
     (case consume_read cfg active fcb ccb bytes of
        (fcb', ccb', told) \<Rightarrow> (fcb', ccb', case told of None \<Rightarrow> cc | Some g \<Rightarrow> g))"
| "handle_event cfg (PagedIn offset len) (fcb, ccb, cc) = (note_paging_read fcb offset len, ccb, cc)"
| "handle_event cfg OtherHandle (fcb, ccb, cc) = (fst (start_handle cfg fcb ccb), ccb, cc)"

definition handle_ok :: "READ_CONFIG \<Rightarrow> READ_CCB \<Rightarrow> ULONG \<Rightarrow> bool" where
  "handle_ok cfg ccb cc \<longleftrightarrow> granule_ok cfg (Ccb_Granularity ccb) \<and> Ccb_Agreement ccb \<in> {-1, 0, 1} \<and> cc = Ccb_Granularity ccb"

lemma vote_cases: "adapt_vote cfg active fcb g \<in> {-1, 0, 1}"
  by (simp add: adapt_vote_def Let_def)

text \<open>One evaluation of the policy: Cc is told something exactly when the granule moves, which takes a full
  window, a vote, and the same vote from the window before.\<close>

lemma adapt_outcome:
  assumes cfg: "config_ok cfg" and g: "granule_ok cfg (Ccb_Granularity ccb)" and a: "Ccb_Agreement ccb \<in> {-1, 0, 1}"
    and run: "ReadAdaptGranularity cfg active fcb ccb = (fcb', ccb', told)"
  shows "granule_ok cfg (Ccb_Granularity ccb')" "Ccb_Agreement ccb' \<in> {-1, 0, 1}"
    and "told = None \<longrightarrow> Ccb_Granularity ccb' = Ccb_Granularity ccb"
    and "told = Some n \<Longrightarrow> n = Ccb_Granularity ccb' \<and> adapt_window (Ccb_Granularity ccb) \<le> ReadAheadConsumedBytes fcb \<and>
      Ccb_Agreement ccb \<noteq> 0 \<and> Ccb_Agreement ccb = adapt_vote cfg active fcb (Ccb_Granularity ccb) \<and>
      (if Ccb_Agreement ccb = 1 then unat (Ccb_Granularity ccb) = 2 * unat n else unat n = 2 * unat (Ccb_Granularity ccb))"
proof -
  define vote where "vote = adapt_vote cfg active fcb (Ccb_Granularity ccb)"
  have v: "vote \<in> {-1, 0, 1}" unfolding vote_def by (rule vote_cases)
  have out: "granule_ok cfg (Ccb_Granularity ccb') \<and> Ccb_Agreement ccb' \<in> {-1, 0, 1} \<and>
    (told = None \<longrightarrow> Ccb_Granularity ccb' = Ccb_Granularity ccb) \<and>
    (told = Some n \<longrightarrow> n = Ccb_Granularity ccb' \<and> adapt_window (Ccb_Granularity ccb) \<le> ReadAheadConsumedBytes fcb \<and>
      Ccb_Agreement ccb \<noteq> 0 \<and> Ccb_Agreement ccb = vote \<and> n = adapt_next cfg vote (Ccb_Granularity ccb) \<and> n \<noteq> Ccb_Granularity ccb)" for n
  proof (cases "vote = 0")
    case True
    then show ?thesis using run g a
      by (auto simp: ReadAdaptGranularity_def Let_def vote_def [symmetric] split: if_splits)
  next
    case False
    have nx: "granule_ok cfg (adapt_next cfg vote (Ccb_Granularity ccb))" by (rule adapt_next_ok(1) [OF cfg g False])
    have agree: "Ccb_Agreement ccb = vote" if "\<not> (x > - 2 \<and> x < 2)" "x = (if Ccb_Agreement ccb * vote > 0 then Ccb_Agreement ccb + vote else vote)" for x
      using that a v False by (auto split: if_splits)
    show ?thesis using run g a v nx False agree
      by (auto simp: ReadAdaptGranularity_def Let_def vote_def [symmetric] READ_AHEAD_ADAPT_AGREEMENT_def linorder_not_less split: if_splits)
  qed
  show "granule_ok cfg (Ccb_Granularity ccb')" "Ccb_Agreement ccb' \<in> {-1, 0, 1}"
    "told = None \<longrightarrow> Ccb_Granularity ccb' = Ccb_Granularity ccb" using out by blast+
  assume t: "told = Some n"
  then have o: "n = Ccb_Granularity ccb'" "adapt_window (Ccb_Granularity ccb) \<le> ReadAheadConsumedBytes fcb"
    "Ccb_Agreement ccb \<noteq> 0" "Ccb_Agreement ccb = vote" "n = adapt_next cfg vote (Ccb_Granularity ccb)" "n \<noteq> Ccb_Granularity ccb"
    using out [of n] by blast+
  then show "n = Ccb_Granularity ccb' \<and> adapt_window (Ccb_Granularity ccb) \<le> ReadAheadConsumedBytes fcb \<and>
      Ccb_Agreement ccb \<noteq> 0 \<and> Ccb_Agreement ccb = adapt_vote cfg active fcb (Ccb_Granularity ccb) \<and>
      (if Ccb_Agreement ccb = 1 then unat (Ccb_Granularity ccb) = 2 * unat n else unat n = 2 * unat (Ccb_Granularity ccb))"
    using adapt_next_ok(2) [OF cfg g, of vote] v unfolding vote_def [symmetric] by auto
qed

lemma event_ok:
  assumes cfg: "config_ok cfg" and h: "handle_ok cfg ccb cc" and run: "handle_event cfg ev (fcb, ccb, cc) = (fcb', ccb', cc')"
  shows "handle_ok cfg ccb' cc'"
proof (cases ev)
  case (Consumed bytes active)
  let ?f = "fcb\<lparr>ReadAheadConsumedBytes := ReadAheadConsumedBytes fcb + bytes\<rparr>"
  obtain f c told where r: "ReadAdaptGranularity cfg active ?f ccb = (f, c, told)" by (metis prod_cases3)
  have c: "ccb' = c" "cc' = (case told of None \<Rightarrow> cc | Some g \<Rightarrow> g)" using run Consumed r by (auto simp: consume_read_def)
  have "granule_ok cfg (Ccb_Granularity ccb)" "Ccb_Agreement ccb \<in> {-1, 0, 1}" "cc = Ccb_Granularity ccb" using h by (simp_all add: handle_ok_def)
  note out = adapt_outcome [OF cfg this(1,2) r] this(3)
  show ?thesis
  proof (cases told)
    case None
    then show ?thesis using out(1,2,3,5) c unfolding handle_ok_def by simp
  next
    case (Some g)
    then show ?thesis using out(1,2) out(4) [OF Some] c unfolding handle_ok_def by simp
  qed
qed (use h run in auto)

lemma events_ok:
  assumes "config_ok cfg" "handle_ok cfg ccb cc" "fold (handle_event cfg) evs (fcb, ccb, cc) = (fcb', ccb', cc')"
  shows "handle_ok cfg ccb' cc'"
  using assms(2,3)
proof (induction evs arbitrary: fcb ccb cc)
  case (Cons ev evs)
  obtain f c d where e: "handle_event cfg ev (fcb, ccb, cc) = (f, c, d)" by (metis prod_cases3)
  show ?case by (rule Cons.IH [OF event_ok [OF assms(1) Cons.prems(1) e]]) (use Cons.prems(2) e in simp)
qed simp

end
