(* ===== verification/Read_Theorems.thy ===== *)
theory Read_Theorems
  imports Read_Protocol_Correct Read_Policy_Correct
begin

unbundle bit_operations_syntax

text \<open>
  What the read path promises: exact counters under every interleaving, no read left behind, the order
  of release, reads that stay inside the file, and the read-ahead granule.
\<close>

section \<open>A first read\<close>

definition one_read :: READ_WORLD where
  "one_read = arrive 0 7 4096 True read_start"

lemma one_read_reachable: "read_reachable B one_read"
proof -
  have "read_arrival read_start one_read"
    unfolding one_read_def by (rule read_arrival.intros) (simp add: read_start_def)
  then show ?thesis unfolding read_reachable_def by (intro r_into_rtranclp) simp
qed

lemma one_read_state: "W_Charged one_read = 0" "W_Phase one_read 0 = Arriving True" "W_Reads one_read = {0}" "W_Owed one_read = []"
  by (simp_all add: one_read_def arrive_def set_phase_def read_start_def)

section \<open>Claims\<close>

text \<open>C16. Whatever the interleaving of arriving, held, released, fetched and disk-served reads, the
  link's counters are exact: the fetches in flight are those of the admitted reads and those reserved
  beside them, never more than 32; the bytes in flight are the admitted reads' lengths; each file's
  count is that of its admitted reads. A read is held only for a reason: a demand read only while 32
  fetches are in flight, a read-ahead only then or while its own file has a fetch in flight and the
  bytes in flight have reached the budget.\<close>

theorem link_counters_exact:
  assumes "read_reachable B w" "W_Charged w < 2 ^ 64 - 1"
  shows "unat (InFlightFetches (W_Fair w)) = card (admitted (W_Fair w)) + reserved_fetches w \<and>
     unat (InFlightFetches (W_Fair w)) \<le> 32 \<and>
     unat (InFlightBytes (W_Fair w)) = (\<Sum>irp\<in>admitted (W_Fair w). unat (R_Length (Irps (W_Fair w) irp))) \<and>
     (\<forall>n. unat (ReadFetchesInFlight (Nodes (W_Fair w) n)) = card (of_node (W_Fair w) n)) \<and>
     (Waiting (W_Fair w) \<noteq> [] \<longrightarrow> unat (InFlightFetches (W_Fair w)) = 32) \<and>
     (\<forall>irp\<in>set (Held (W_Fair w)). unat (InFlightFetches (W_Fair w)) = 32 \<or>
        ReadFetchesInFlight (irp_node (W_Fair w) irp) \<noteq> 0 \<and> ucast B \<le> InFlightBytes (W_Fair w))"
proof -
  have i: "counts (reserved_fetches w) (W_Fair w)" "calm B (W_Fair w)"
    using world_invD(2) [OF reachable_inv [OF assms]] by (simp_all add: fair_inv_def)
  then have "unat (InFlightFetches (W_Fair w)) = 32 \<or> unat (InFlightFetches (W_Fair w)) < 32" by (auto simp: counts_def)
  then show ?thesis
  proof
    assume "unat (InFlightFetches (W_Fair w)) = 32"
    then show ?thesis using i(1) unfolding counts_def by blast
  next
    assume "unat (InFlightFetches (W_Fair w)) < 32"
    then have "Waiting (W_Fair w) = []" "\<forall>irp\<in>set (Held (W_Fair w)). ReadFetchesInFlight (irp_node (W_Fair w) irp) \<noteq> 0"
      "Held (W_Fair w) \<noteq> [] \<longrightarrow> ucast B \<le> InFlightBytes (W_Fair w)" using i(2) by (simp_all add: calm_def)
    then show ?thesis using i(1) unfolding counts_def by (metis empty_iff list.set(1))
  qed
qed

theorem link_counters_exact_witness:
  "unat (InFlightFetches (W_Fair one_read)) = card (admitted (W_Fair one_read)) + reserved_fetches one_read \<and>
   reserved_fetches one_read = 0"
  using link_counters_exact [OF one_read_reachable, of 0]
  by (simp add: one_read_state reserved_fetches_def)

text \<open>C7. No read is left behind. Every step of a read, of a completion or of a work item brings the reads
  on their way closer to the end, by a measure that only a new read raises; and when nothing can take
  a step, every read that arrived has been completed, none is held, and the link is empty. So every
  read of the volume is completed, however the threads, the disk cache and the network interleave.\<close>

theorem reads_complete:
  assumes "read_reachable B w" "W_Charged w < 2 ^ 64 - 1"
  shows "(\<forall>w'. read_step B w w' \<longrightarrow> work w' < work w) \<and>
     ((\<nexists>w'. read_step B w w') \<longrightarrow>
        (\<forall>irp. W_Phase w irp \<noteq> Absent \<longrightarrow> (\<exists>status. W_Phase w irp = Completed status)) \<and>
        Held (W_Fair w) = [] \<and> Waiting (W_Fair w) = [] \<and> Queued (W_Fair w) = [] \<and> InFlightFetches (W_Fair w) = 0)"
proof -
  have inv: "world_inv B w" by (rule reachable_inv [OF assms])
  have fin: "W_Phase w irp \<noteq> Absent \<longrightarrow> (\<exists>status. W_Phase w irp = Completed status)" if "\<nexists>w'. read_step B w w'" for irp
    using some_read_moves [OF inv, of irp] that by (auto simp: under_way_def)
  have "i \<notin> parked (W_Fair w)" if "\<nexists>w'. read_step B w w'" for i using fin [OF that, of i] world_invD(5) [OF inv, of i] by auto
  moreover have "InFlightFetches (W_Fair w) = 0" if "\<nexists>w'. read_step B w w'"
    using full_link_moves [OF inv] that by (metis neq0_conv unat_eq_zero)
  ultimately show ?thesis using work_step [OF inv] fin by (auto simp: parked_def) (metis list.set_intros(1) neq_Nil_conv)+
qed

theorem reads_complete_witness:
  "(\<exists>w'. read_step 0x200000 one_read w') \<and> work (offer_whole 0 True False one_read) < work one_read"
proof -
  have "W_Phase one_read 0 \<noteq> Absent" "\<nexists>status. W_Phase one_read 0 = Completed status" "W_Charged one_read < 2 ^ 64 - 1"
    by (simp_all add: one_read_state)
  moreover have "read_step 0x200000 one_read (offer_whole 0 True False one_read)" by (rule step_whole) (simp add: one_read_state)
  ultimately show ?thesis using reads_complete [OF one_read_reachable, of "0x200000"] by blast
qed

text \<open>C39. A read that stays in the file: the bytes BlorgVolumeRead goes on to fetch or to copy start at the
  offset asked for, are the part of the range asked for that lies before the end of the file, at
  least one byte, and neither the offset nor the end wraps around; a read it does not go on with is
  answered, and one at or past the end, or whose end cannot be represented, as end of file.\<close>

theorem read_stays_in_file:
  "(read_route q a = NonCached n \<or> read_route q a = CachedRead n \<longrightarrow>
      0 \<le> sint (Q_Offset q) \<and> 0 < unat n \<and> n \<le> Q_Length q \<and> sint (Q_Offset q) + uint n \<le> sint (A_FileSize a) \<and>
      uint n = min (uint (Q_Length q)) (sint (A_FileSize a) - sint (Q_Offset q))) \<and>
   (Q_Paging q \<and> Q_IsFcb q \<and> Q_Length q \<noteq> 0 \<and> 0 \<le> sint (Q_Offset q) \<and>
      (sint (A_FileSize a) \<le> sint (Q_Offset q) \<or> 2 ^ 63 \<le> sint (Q_Offset q) + uint (Q_Length q)) \<longrightarrow>
      read_route q a = ReturnNow STATUS_END_OF_FILE)"
proof (intro conjI impI)
  assume "Q_Paging q \<and> Q_IsFcb q \<and> Q_Length q \<noteq> 0 \<and> 0 \<le> sint (Q_Offset q) \<and>
      (sint (A_FileSize a) \<le> sint (Q_Offset q) \<or> 2 ^ 63 \<le> sint (Q_Offset q) + uint (Q_Length q))"
  moreover from this have "ReadTrimToFileSize (A_FileSize a) (Q_Offset q) (Q_Length q) = Inl STATUS_END_OF_FILE"
    using trim_correct [of "Q_Offset q" "A_FileSize a" "Q_Length q"] by presburger
  ultimately show "read_route q a = ReturnNow STATUS_END_OF_FILE" by (simp add: read_route_def)
qed (use route_bounds [of q a n] in blast)+

theorem read_stays_in_file_witness:
  "read_route \<lparr>Q_Length = 4096, Q_Offset = 8192, Q_IsFcb = True, Q_Paging = True, Q_NoCache = True, Q_DataSection = False,
      Q_InFsp = False, Q_Passive = True\<rparr> \<lparr>A_Flush = 0, A_Oplock = 0, A_LockFree = True, A_Buffer = 0, A_FileSize = 10000\<rparr> = NonCached 1808 \<and>
   (8192 :: int) + 1808 \<le> 10000"
proof -
  let ?q = "\<lparr>Q_Length = 4096, Q_Offset = 8192, Q_IsFcb = True, Q_Paging = True, Q_NoCache = True, Q_DataSection = False,
      Q_InFsp = False, Q_Passive = True\<rparr>"
  let ?a = "\<lparr>A_Flush = 0, A_Oplock = 0, A_LockFree = True, A_Buffer = 0, A_FileSize = 10000\<rparr>"
  have r: "read_route ?q ?a = NonCached 1808" by (simp add: read_route_def ReadTrimToFileSize_def sint_small)
  then show ?thesis using read_stays_in_file [of ?q ?a 1808] by (simp add: sint_small)
qed



text \<open>The read-ahead granule of a handle: whatever the registry says and whatever reads and paging
  follow, in any order, the granule Cc was last told is the one the handle keeps, it is a power of two
  of at least a page and never above the ceiling, and the tally of votes stays between -1 and 1. Cc is
  told a new one only when a full window agrees with the window before it, half the old when both
  found waste and twice the old when both found a greedy sequential reader.\<close>

theorem granule_policy:
  assumes "cfg = read_config granularityKb maxKb adapt slack" "ReadAheadGranularity cfg \<noteq> 0"
    and "start_handle cfg fcb \<lparr>Ccb_Granularity = 0, Ccb_Agreement = 0\<rparr> = (fcb1, ccb1, Some cc1)"
    and "fold (handle_event cfg) evs (fcb1, ccb1, cc1) = (fcb2, ccb2, cc2)"
    and "ReadAdaptGranularity cfg active fcb2 ccb2 = (fcb3, ccb3, told)"
  shows "cc2 = Ccb_Granularity ccb2 \<and> granule_ok cfg cc2 \<and> Ccb_Agreement ccb2 \<in> {-1, 0, 1} \<and>
     (told = None \<longrightarrow> Ccb_Granularity ccb3 = cc2) \<and>
     (\<forall>g. told = Some g \<longrightarrow> adapt_window cc2 \<le> ReadAheadConsumedBytes fcb2 \<and>
        Ccb_Agreement ccb2 \<noteq> 0 \<and> adapt_vote cfg active fcb2 cc2 = Ccb_Agreement ccb2 \<and>
        (if Ccb_Agreement ccb2 = 1 then unat cc2 = 2 * unat g else unat g = 2 * unat cc2))"
proof -
  have cfg: "config_ok cfg" unfolding assms(1) by (rule read_config_ok)
  have "granule_ok cfg (ReadAheadGranularity cfg)"
    using cfg assms(2) by (auto simp: config_ok_def granule_ok_def granule_ceiling_def)
  then have "handle_ok cfg ccb1 cc1" using assms(2,3) by (auto simp: start_handle_def handle_ok_def)
  from events_ok [OF cfg this assms(4)] have h: "handle_ok cfg ccb2 cc2" .
  then have o: "granule_ok cfg (Ccb_Granularity ccb2)" "Ccb_Agreement ccb2 \<in> {-1, 0, 1}" "cc2 = Ccb_Granularity ccb2"
    by (simp_all add: handle_ok_def)
  show ?thesis using adapt_outcome(3) [OF cfg o(1,2) assms(5)] adapt_outcome(4) [OF cfg o(1,2) assms(5)] o by metis
qed

theorem granule_policy_witness:
  "let cfg = read_config None None True True; fcb = \<lparr>Streams = replicate 4 \<lparr>Stream_End = 0, Stream_Streak = 0\<rparr>, ReadLastStreamIndex = 0,
       ReadAheadFetchedBytes = 0, ReadAheadConsumedBytes = 0, ReadMaxPagingBytes = 0, ReadIdleTicks = 0, ReadBusyTicks = 0\<rparr>;
       ccb = \<lparr>Ccb_Granularity = 0x20000, Ccb_Agreement = 0\<rparr>
   in start_handle cfg fcb \<lparr>Ccb_Granularity = 0, Ccb_Agreement = 0\<rparr> = (fcb, ccb, Some 0x20000) \<and> granule_ok cfg 0x20000"
proof -
  let ?cfg = "read_config None None True True"
  let ?fcb = "\<lparr>Streams = replicate 4 \<lparr>Stream_End = 0, Stream_Streak = 0\<rparr>, ReadLastStreamIndex = 0,
       ReadAheadFetchedBytes = 0, ReadAheadConsumedBytes = 0, ReadMaxPagingBytes = 0, ReadIdleTicks = 0, ReadBusyTicks = 0\<rparr>"
  let ?ccb = "\<lparr>Ccb_Granularity = 0x20000, Ccb_Agreement = 0\<rparr>"
  have c: "ReadAheadGranularity ?cfg = 0x20000"
    by (simp add: read_config_def accept_granularity_def READ_AHEAD_GRANULARITY_def PAGE_SIZE_def)
  have s: "start_handle ?cfg ?fcb \<lparr>Ccb_Granularity = 0, Ccb_Agreement = 0\<rparr> = (?fcb, ?ccb, Some 0x20000)"
    by (simp add: start_handle_def c)
  obtain f d told where r: "ReadAdaptGranularity ?cfg 0 ?fcb ?ccb = (f, d, told)" by (metis prod_cases3)
  show ?thesis using granule_policy [OF refl _ s _ r, of "[]"] s c by simp
qed

section \<open>A budget of zero\<close>

text \<open>
  A ReadFairBudget of zero is documented to hold nothing. The fetch limit still holds read-ahead then,
  and the release treats a budget of zero as a link that never has room: a read-ahead held at the
  limit stays held, with fetches to spare, until its own file has nothing in flight.
\<close>

lemma held_scan_none_eligible:
  "\<forall>irp\<in>set irps. \<not> eligible s room irp \<Longrightarrow> held_scan s room irps None st = (None, st)"
  by (induction irps) (auto simp: Let_def eligible_def)

lemma zero_budget_keeps_holding:
  assumes "Waiting s = []" "\<forall>irp\<in>set (Held s). ReadFetchesInFlight (irp_node s irp) \<noteq> 0"
  shows "ReadFairAdmitHeld 0 s [] = ([], s)"
    and "ReadFairMustHold 0 s irp True = (unat (InFlightFetches s) \<ge> 32)"
proof -
  have "next_read 0 s = (None, - 1)"
    using assms held_scan_none_eligible [of "Held s" s False "- 1"] by (simp add: next_read_def eligible_def)
  then show "ReadFairAdmitHeld 0 s [] = ([], s)" by (subst ReadFairAdmitHeld.simps) simp
  show "ReadFairMustHold 0 s irp True = (unat (InFlightFetches s) \<ge> 32)" by (simp add: ReadFairMustHold_def Let_def)
qed

end
