(* ===== verification/Node_Model.thy ===== *)
theory Node_Model
  imports Path_Cache
begin

text \<open>
  The nodes of the volume (Structs.c): file and directory control blocks, their creation and
  teardown, the tree they form, the child index that names are looked up in, the node table
  that full paths are looked up in, and the deferred reaping of idle nodes.

  Nodes live in a map from addresses to node records. Every operation that follows a pointer
  returns an option: \<open>None\<close> is the access to memory that is not a live node. A LIST_ENTRY chain
  is the list of the nodes on it, head first; unlinking from it or appending to it writes to
  its neighbours, so the operations demand that the whole chain is live. TableLink.Flink is
  the flag \<open>TableLinked\<close>, the ReapLink chain the list \<open>ReapList\<close>, the ChildNext chains the
  lists of \<open>NodeChildren\<close>. Counts of handles and pins are integers, bounded by the number of
  file objects and threads of the system. \<open>Ledger\<close> counts the blocks and resources
  that are outstanding in the lookaside lists, the pool and the resource package.
\<close>

section \<open>Data\<close>

type_synonym node_ptr = ULONG64

datatype node_type = FCB_SIGNATURE | DCB_SIGNATURE | ROOT_DCB_SIGNATURE | VCB_SIGNATURE

record SHARE_ACCESS =
  OpenCount :: ULONG
  Readers :: ULONG
  Writers :: ULONG
  Deleters :: ULONG
  SharedRead :: ULONG
  SharedWrite :: ULONG
  SharedDelete :: ULONG

record COMMON_CONTEXT =
  NodeTypeCode :: node_type
  FullPath :: UNICODE_STRING
  ParentDcb :: node_ptr
  TableLinked :: bool
  TableBucketIndex :: nat
  RefCount :: int
  PinCount :: int
  OnReapList :: bool
  ChildrenList :: "node_ptr list"
  FileSize :: ULONG64
  AllocationSize :: ULONG64
  N_CreationTime :: ULONG64
  N_LastAccessedTime :: ULONG64
  N_LastModifiedTime :: ULONG64
  MetaTicket :: PATH_CACHE_TICKET
  ShareAccess :: SHARE_ACCESS
  UncleanCount :: int
  ReadIdleLastEndQpc :: ULONG64

record node_ledger =
  NonPagedOut :: int
  FcbOut :: int
  DcbOut :: int
  NamesOut :: int
  ResourcesOut :: int

record node_state =
  Nodes :: "node_ptr \<rightharpoonup> COMMON_CONTEXT"
  NodeTable :: "nat \<Rightarrow> node_ptr list"
  NodeChildren :: "nat \<Rightarrow> node_ptr list"
  ReapList :: "node_ptr list"
  Queued :: bool
  ShuttingDown :: bool
  WorkItem :: bool
  Ledger :: node_ledger

text \<open>The outcomes of the allocations and initialisations that creating one node makes.\<close>

record create_outcome =
  NonPagedOk :: bool
  NodeAddress :: node_ptr
  NameOk :: bool
  HdrResourceStatus :: NTSTATUS
  PagingResourceStatus :: NTSTATUS

definition STATUS_OBJECT_PATH_NOT_FOUND :: NTSTATUS where "STATUS_OBJECT_PATH_NOT_FOUND = 0xC000003A"

definition live :: "node_state \<Rightarrow> node_ptr list \<Rightarrow> bool" where
  "live s ns \<longleftrightarrow> list_all (\<lambda>n. Nodes s n \<noteq> None) ns"

definition with_node :: "node_ptr \<Rightarrow> (COMMON_CONTEXT \<Rightarrow> COMMON_CONTEXT) \<Rightarrow> node_state \<Rightarrow> node_state option" where
  "with_node n f s = map_option (\<lambda>x. s\<lparr>Nodes := (Nodes s)(n \<mapsto> f x)\<rparr>) (Nodes s n)"

section \<open>Creation\<close>

definition NodeTableBucketIndexFor :: "NLS \<Rightarrow> UNICODE_STRING \<Rightarrow> nat" where
  "NodeTableBucketIndexFor nls path = unat (drop_bit 24 (BlorgHashPath nls path))"

definition zero_ticket :: PATH_CACHE_TICKET where
  "zero_ticket = \<lparr>T_Sequence = 0, T_IssueTime = 0\<rparr>"

definition no_share :: SHARE_ACCESS where
  "no_share = \<lparr>OpenCount = 0, Readers = 0, Writers = 0, Deleters = 0, SharedRead = 0, SharedWrite = 0, SharedDelete = 0\<rparr>"

definition fresh_node :: "NLS \<Rightarrow> node_type \<Rightarrow> UNICODE_STRING \<Rightarrow> ULONG64 \<Rightarrow> COMMON_CONTEXT" where
  "fresh_node nls kind path sz =
     \<lparr>NodeTypeCode = kind, FullPath = path, ParentDcb = 0, TableLinked = False,
      TableBucketIndex = NodeTableBucketIndexFor nls path, RefCount = 0, PinCount = 0,
      OnReapList = False, ChildrenList = [], FileSize = sz, AllocationSize = sz,
      N_CreationTime = 0, N_LastAccessedTime = 0, N_LastModifiedTime = 0, MetaTicket = zero_ticket,
      ShareAccess = no_share, UncleanCount = 0, ReadIdleLastEndQpc = 0\<rparr>"

text \<open>
  BlorgCreateFCB and BlorgCreateDCB: each block taken is put in the ledger, and the failures
  give back what was taken before them, in the code's order. The address returned is 0 (NULL)
  on failure.
\<close>

definition BlorgCreateFCB ::
    "NLS \<Rightarrow> create_outcome \<Rightarrow> node_type \<Rightarrow> UNICODE_STRING \<Rightarrow> ULONG64 \<Rightarrow> node_state \<Rightarrow> NTSTATUS \<times> node_ptr \<times> node_state" where
  "BlorgCreateFCB nls out kind path sz s =
     (if \<not> NonPagedOk out then (STATUS_INSUFFICIENT_RESOURCES, 0, s)
      else let l1 = (Ledger s)\<lparr>NonPagedOut := NonPagedOut (Ledger s) + 1\<rparr>
      in if NodeAddress out = 0
         then (STATUS_INSUFFICIENT_RESOURCES, 0, s\<lparr>Ledger := l1\<lparr>NonPagedOut := NonPagedOut l1 - 1\<rparr>\<rparr>)
      else let l2 = l1\<lparr>FcbOut := FcbOut l1 + 1\<rparr>
      in if path \<noteq> [] \<and> \<not> NameOk out
         then (STATUS_INSUFFICIENT_RESOURCES, 0,
               s\<lparr>Ledger := l2\<lparr>FcbOut := FcbOut l2 - 1, NonPagedOut := NonPagedOut l2 - 1\<rparr>\<rparr>)
      else let named = (if path \<noteq> [] then 1 else 0); l3 = l2\<lparr>NamesOut := NamesOut l2 + named\<rparr>
      in if \<not> NT_SUCCESS (HdrResourceStatus out)
         then (HdrResourceStatus out, 0,
               s\<lparr>Ledger := l3\<lparr>NamesOut := NamesOut l3 - named, FcbOut := FcbOut l3 - 1,
                             NonPagedOut := NonPagedOut l3 - 1\<rparr>\<rparr>)
      else let l4 = l3\<lparr>ResourcesOut := ResourcesOut l3 + 1\<rparr>
      in if \<not> NT_SUCCESS (PagingResourceStatus out)
         then (PagingResourceStatus out, 0,
               s\<lparr>Ledger := l4\<lparr>ResourcesOut := ResourcesOut l4 - 1, NamesOut := NamesOut l4 - named,
                             FcbOut := FcbOut l4 - 1, NonPagedOut := NonPagedOut l4 - 1\<rparr>\<rparr>)
      else (STATUS_SUCCESS, NodeAddress out,
            s\<lparr>Ledger := l4\<lparr>ResourcesOut := ResourcesOut l4 + 1\<rparr>,
              Nodes := (Nodes s)(NodeAddress out \<mapsto> fresh_node nls kind path sz)\<rparr>))"

definition BlorgCreateDCB ::
    "NLS \<Rightarrow> create_outcome \<Rightarrow> node_type \<Rightarrow> UNICODE_STRING \<Rightarrow> node_state \<Rightarrow> NTSTATUS \<times> node_ptr \<times> node_state" where
  "BlorgCreateDCB nls out kind path s =
     (if \<not> NonPagedOk out then (STATUS_INSUFFICIENT_RESOURCES, 0, s)
      else let l1 = (Ledger s)\<lparr>NonPagedOut := NonPagedOut (Ledger s) + 1\<rparr>
      in if NodeAddress out = 0
         then (STATUS_INSUFFICIENT_RESOURCES, 0, s\<lparr>Ledger := l1\<lparr>NonPagedOut := NonPagedOut l1 - 1\<rparr>\<rparr>)
      else let l2 = l1\<lparr>DcbOut := DcbOut l1 + 1\<rparr>
      in if \<not> NameOk out
         then (STATUS_INSUFFICIENT_RESOURCES, 0,
               s\<lparr>Ledger := l2\<lparr>DcbOut := DcbOut l2 - 1, NonPagedOut := NonPagedOut l2 - 1\<rparr>\<rparr>)
      else let l3 = l2\<lparr>NamesOut := NamesOut l2 + 1\<rparr>
      in if \<not> NT_SUCCESS (HdrResourceStatus out)
         then (HdrResourceStatus out, 0,
               s\<lparr>Ledger := l3\<lparr>NamesOut := NamesOut l3 - 1, DcbOut := DcbOut l3 - 1,
                             NonPagedOut := NonPagedOut l3 - 1\<rparr>\<rparr>)
      else let l4 = l3\<lparr>ResourcesOut := ResourcesOut l3 + 1\<rparr>
      in if \<not> NT_SUCCESS (PagingResourceStatus out)
         then (PagingResourceStatus out, 0,
               s\<lparr>Ledger := l4\<lparr>ResourcesOut := ResourcesOut l4 - 1, NamesOut := NamesOut l4 - 1,
                             DcbOut := DcbOut l4 - 1, NonPagedOut := NonPagedOut l4 - 1\<rparr>\<rparr>)
      else (STATUS_SUCCESS, NodeAddress out,
            s\<lparr>Ledger := l4\<lparr>ResourcesOut := ResourcesOut l4 + 1\<rparr>,
              Nodes := (Nodes s)(NodeAddress out \<mapsto> fresh_node nls kind path 0)\<rparr>))"

section \<open>The child index\<close>

text \<open>
  NodeGetLastComponent: the scan back from the end, past one trailing separator that is not
  the whole path. \<open>last_start path k\<close> is the index after the last separator before index \<open>k\<close>.
\<close>

fun last_start :: "UNICODE_STRING \<Rightarrow> nat \<Rightarrow> nat" where
  "last_start path 0 = 0"
| "last_start path (Suc k) = (if path ! k = backslash then Suc k else last_start path k)"

definition NodeGetLastComponent :: "UNICODE_STRING \<Rightarrow> UNICODE_STRING" where
  "NodeGetLastComponent path =
     (if path = [] then []
      else let stop = (if path ! (length path - 1) = backslash \<and> 1 < length path
                       then length path - 1 else length path)
           in drop (last_start path stop) (take stop path))"

definition NodeArePathComponentsEqual :: "NLS \<Rightarrow> UNICODE_STRING \<Rightarrow> UNICODE_STRING \<Rightarrow> bool" where
  "NodeArePathComponentsEqual nls a b \<longleftrightarrow> byte_length a = byte_length b \<and> RtlEqualUnicodeString nls a b"

definition BlorgNodeChildBucket :: "NLS \<Rightarrow> node_ptr \<Rightarrow> UNICODE_STRING \<Rightarrow> nat" where
  "BlorgNodeChildBucket nls parent name =
     unat (drop_bit 20 ((BlorgHashPath nls name XOR ucast (drop_bit 4 parent)) * 0x9E3779B1 :: ULONG))"

definition child_bucket :: "NLS \<Rightarrow> COMMON_CONTEXT \<Rightarrow> nat" where
  "child_bucket nls x = BlorgNodeChildBucket nls (ParentDcb x) (NodeGetLastComponent (FullPath x))"

definition NodeChildLink :: "NLS \<Rightarrow> node_ptr \<Rightarrow> node_state \<Rightarrow> node_state option" where
  "NodeChildLink nls n s =
     map_option (\<lambda>x. let b = child_bucket nls x
                     in s\<lparr>NodeChildren := (NodeChildren s)(b := n # NodeChildren s b)\<rparr>) (Nodes s n)"

definition NodeChildUnlink :: "NLS \<Rightarrow> node_ptr \<Rightarrow> node_state \<Rightarrow> node_state option" where
  "NodeChildUnlink nls n s =
     (case Nodes s n of None \<Rightarrow> None
      | Some x \<Rightarrow>
          let b = child_bucket nls x; chain = NodeChildren s b
          in if live s (takeWhile (\<lambda>m. m \<noteq> n) chain)
             then Some (s\<lparr>NodeChildren := (NodeChildren s)(b := remove1 n chain)\<rparr>) else None)"

fun search_chain :: "NLS \<Rightarrow> node_state \<Rightarrow> node_ptr \<Rightarrow> UNICODE_STRING \<Rightarrow> node_ptr list \<Rightarrow> node_ptr option" where
  "search_chain nls s parent name [] = Some 0"
| "search_chain nls s parent name (c # cs) =
     (case Nodes s c of None \<Rightarrow> None
      | Some x \<Rightarrow>
          if ParentDcb x \<noteq> parent then search_chain nls s parent name cs
          else if NodeArePathComponentsEqual nls name (NodeGetLastComponent (FullPath x)) then Some c
          else search_chain nls s parent name cs)"

definition NodeSearchByName :: "NLS \<Rightarrow> node_ptr \<Rightarrow> UNICODE_STRING \<Rightarrow> node_state \<Rightarrow> node_ptr option" where
  "NodeSearchByName nls parent name s =
     search_chain nls s parent name (NodeChildren s (BlorgNodeChildBucket nls parent name))"

section \<open>Teardown of a node\<close>

text \<open>
  RemoveEntryList on a node's Links: the node leaves the ChildrenList of its parent. Unlinking
  writes to its neighbours on the chain, whose head is in the parent.
\<close>

definition unlink_child :: "node_ptr \<Rightarrow> node_ptr \<Rightarrow> node_state \<Rightarrow> node_state option" where
  "unlink_child parent n s =
     (case Nodes s parent of None \<Rightarrow> None
      | Some p \<Rightarrow>
          if n \<in> set (ChildrenList p) \<and> live s (ChildrenList p)
          then with_node parent (\<lambda>p. p\<lparr>ChildrenList := remove1 n (ChildrenList p)\<rparr>) s else None)"

definition deallocate_common :: "node_ledger \<Rightarrow> node_ledger" where
  "deallocate_common l = l\<lparr>ResourcesOut := ResourcesOut l - 1 - 1, NonPagedOut := NonPagedOut l - 1\<rparr>"

text \<open>
  BlorgFreeFileContext on a node: for each kind, the shared teardown, the child index, the name
  (the pool refuses a NULL block), the parent's list and the block itself.
\<close>

definition BlorgFreeFileContext :: "NLS \<Rightarrow> node_ptr \<Rightarrow> node_state \<Rightarrow> node_state option" where
  "BlorgFreeFileContext nls n s =
     (case Nodes s n of None \<Rightarrow> None
      | Some x \<Rightarrow>
          let l = deallocate_common (Ledger s)
          in case NodeTypeCode x of
               FCB_SIGNATURE \<Rightarrow>
                 if FullPath x = [] then None
                 else do {
                   s1 \<leftarrow> NodeChildUnlink nls n s;
                   s2 \<leftarrow> unlink_child (ParentDcb x) n s1;
                   Some (s2\<lparr>Ledger := l\<lparr>NamesOut := NamesOut l - 1, FcbOut := FcbOut l - 1\<rparr>,
                            Nodes := (Nodes s2)(n := None)\<rparr>)
                 }
             | DCB_SIGNATURE \<Rightarrow>
                 do {
                   s1 \<leftarrow> NodeChildUnlink nls n s;
                   s2 \<leftarrow> unlink_child (ParentDcb x) n s1;
                   Some (s2\<lparr>Ledger := l\<lparr>NamesOut := NamesOut l - 1, DcbOut := DcbOut l - 1\<rparr>,
                            Nodes := (Nodes s2)(n := None)\<rparr>)
                 }
             | VCB_SIGNATURE \<Rightarrow>
                 Some (s\<lparr>Ledger := l\<lparr>FcbOut := FcbOut l - 1\<rparr>, Nodes := (Nodes s)(n := None)\<rparr>)
             | ROOT_DCB_SIGNATURE \<Rightarrow>
                 Some (s\<lparr>Ledger := l\<lparr>NamesOut := NamesOut l - 1, DcbOut := DcbOut l - 1\<rparr>,
                         Nodes := (Nodes s)(n := None)\<rparr>))"

section \<open>The node table and the reap list\<close>

text \<open>
  NodeReapKick is one locked decision: the work item is queued when it is not already and the
  volume is not being torn down. Queueing a work item that is gone is an access to freed
  memory.
\<close>

definition NodeReapKick :: "node_state \<Rightarrow> node_state option" where
  "NodeReapKick s =
     (if Queued s then Some s
      else if ShuttingDown s then Some s
      else if \<not> WorkItem s then None
      else Some (s\<lparr>Queued := True\<rparr>))"

text \<open>
  BlorgNodeDeferReap in its three parts: the claim (true when it is won), the push, the kick.
\<close>

definition claim_reap :: "node_ptr \<Rightarrow> node_state \<Rightarrow> (bool \<times> node_state) option" where
  "claim_reap n s =
     (case Nodes s n of None \<Rightarrow> None
      | Some x \<Rightarrow>
          if OnReapList x then Some (False, s)
          else map_option (Pair True) (with_node n (\<lambda>x. x\<lparr>OnReapList := True\<rparr>) s))"

definition push_reap :: "node_ptr \<Rightarrow> node_state \<Rightarrow> node_state option" where
  "push_reap n s = (if Nodes s n = None then None else Some (s\<lparr>ReapList := n # ReapList s\<rparr>))"

definition BlorgNodeDeferReap :: "node_ptr \<Rightarrow> node_state \<Rightarrow> node_state option" where
  "BlorgNodeDeferReap n s =
     do {
       (claimed, s1) \<leftarrow> claim_reap n s;
       if claimed then do { s2 \<leftarrow> push_reap n s1; NodeReapKick s2 } else Some s1
     }"

definition NodeDeferReapIfIdleLocked :: "node_ptr \<Rightarrow> node_state \<Rightarrow> node_state option" where
  "NodeDeferReapIfIdleLocked n s =
     (case Nodes s n of None \<Rightarrow> None
      | Some x \<Rightarrow> if RefCount x = 0 \<and> PinCount x = 0 then BlorgNodeDeferReap n s else Some s)"

definition BlorgNodeDeferReapIfIdle :: "node_ptr \<Rightarrow> node_state \<Rightarrow> node_state option" where
  "BlorgNodeDeferReapIfIdle n s = NodeDeferReapIfIdleLocked n s"

text \<open>Taking a node off its bucket, if it is on it.\<close>

definition table_unlink :: "node_ptr \<Rightarrow> node_state \<Rightarrow> node_state option" where
  "table_unlink n s =
     (case Nodes s n of None \<Rightarrow> None
      | Some x \<Rightarrow>
          let b = TableBucketIndex x
          in if \<not> TableLinked x then Some s
             else if n \<in> set (NodeTable s b) \<and> live s (NodeTable s b)
             then with_node n (\<lambda>x. x\<lparr>TableLinked := False\<rparr>)
                    (s\<lparr>NodeTable := (NodeTable s)(b := remove1 n (NodeTable s b))\<rparr>)
             else None)"

definition NodeTableTryRetire :: "node_ptr \<Rightarrow> node_state \<Rightarrow> (bool \<times> node_state) option" where
  "NodeTableTryRetire n s =
     (case Nodes s n of None \<Rightarrow> None
      | Some x \<Rightarrow>
          if RefCount x = 0 \<and> PinCount x = 0 \<and> \<not> OnReapList x
          then do {
            s1 \<leftarrow> with_node n (\<lambda>x. x\<lparr>OnReapList := True\<rparr>) s;
            s2 \<leftarrow> table_unlink n s1;
            Some (True, s2)
          }
          else Some (False, s))"

definition BlorgNodeTablePublish :: "node_ptr \<Rightarrow> node_state \<Rightarrow> node_state option" where
  "BlorgNodeTablePublish n s =
     (case Nodes s n of None \<Rightarrow> None
      | Some x \<Rightarrow>
          let b = TableBucketIndex x
          in if TableLinked x then Some s
             else if live s (NodeTable s b)
             then with_node n (\<lambda>x. x\<lparr>TableLinked := True\<rparr>)
                    (s\<lparr>NodeTable := (NodeTable s)(b := NodeTable s b @ [n])\<rparr>)
             else None)"

fun table_find :: "NLS \<Rightarrow> node_state \<Rightarrow> UNICODE_STRING \<Rightarrow> node_ptr list \<Rightarrow> node_ptr option" where
  "table_find nls s path [] = Some 0"
| "table_find nls s path (n # ns) =
     (case Nodes s n of None \<Rightarrow> None
      | Some x \<Rightarrow>
          if byte_length (FullPath x) = byte_length path \<and> RtlEqualUnicodeString nls (FullPath x) path
          then Some n else table_find nls s path ns)"

definition BlorgNodeTableLookupPin :: "NLS \<Rightarrow> UNICODE_STRING \<Rightarrow> node_state \<Rightarrow> (node_ptr \<times> node_state) option" where
  "BlorgNodeTableLookupPin nls path s =
     do {
       found \<leftarrow> table_find nls s path (NodeTable s (NodeTableBucketIndexFor nls path));
       if found = 0 then Some (0, s)
       else map_option (Pair found) (with_node found (\<lambda>x. x\<lparr>PinCount := PinCount x + 1\<rparr>) s)
     }"

definition drop_pin :: "node_ptr \<Rightarrow> node_state \<Rightarrow> node_state option" where
  "drop_pin n s = with_node n (\<lambda>x. x\<lparr>PinCount := PinCount x - 1\<rparr>) s"

definition BlorgNodeUnpin :: "node_ptr \<Rightarrow> node_state \<Rightarrow> node_state option" where
  "BlorgNodeUnpin n s = do { s1 \<leftarrow> drop_pin n s; NodeDeferReapIfIdleLocked n s1 }"

definition drop_ref :: "node_ptr \<Rightarrow> node_state \<Rightarrow> node_state option" where
  "drop_ref n s = with_node n (\<lambda>x. x\<lparr>RefCount := RefCount x - 1\<rparr>) s"

definition take_ref :: "node_ptr \<Rightarrow> node_state \<Rightarrow> node_state option" where
  "take_ref n s = with_node n (\<lambda>x. x\<lparr>RefCount := RefCount x + 1\<rparr>) s"

definition BlorgNodeDereference :: "node_ptr \<Rightarrow> node_state \<Rightarrow> node_state option" where
  "BlorgNodeDereference n s = do { s1 \<leftarrow> drop_ref n s; NodeDeferReapIfIdleLocked n s1 }"

definition BlorgNodeTableInit :: "bool \<Rightarrow> node_state \<Rightarrow> NTSTATUS \<times> node_state" where
  "BlorgNodeTableInit allocated s =
     (if allocated then STATUS_SUCCESS else STATUS_INSUFFICIENT_RESOURCES,
      s\<lparr>NodeTable := (\<lambda>_. []), ReapList := [], Queued := False, ShuttingDown := False,
        WorkItem := allocated\<rparr>)"

section \<open>Reaping\<close>

text \<open>
  BlorgReapEmptyAncestorDcbs is a loop up the tree; not returning would be the value None.
\<close>

partial_function (option) BlorgReapEmptyAncestorDcbs :: "NLS \<Rightarrow> node_ptr \<Rightarrow> node_state \<Rightarrow> node_state option" where
  "BlorgReapEmptyAncestorDcbs nls d s =
     (case Nodes s d of None \<Rightarrow> None
      | Some x \<Rightarrow>
          if NodeTypeCode x = DCB_SIGNATURE \<and> ChildrenList x = []
          then Option.bind (NodeTableTryRetire d s) (\<lambda>(retired, s1).
                 if retired
                 then Option.bind (BlorgFreeFileContext nls d s1) (BlorgReapEmptyAncestorDcbs nls (ParentDcb x))
                 else Some s1)
          else Some s)"

text \<open>
  The worker's decision on one node of its batch, under the node's bucket lock: true when the
  node is to be freed.
\<close>

definition reap_decide :: "node_ptr \<Rightarrow> node_state \<Rightarrow> (bool \<times> node_state) option" where
  "reap_decide n s =
     (case Nodes s n of None \<Rightarrow> None
      | Some x \<Rightarrow>
          if RefCount x = 0 \<and> PinCount x = 0 \<and> (NodeTypeCode x \<noteq> DCB_SIGNATURE \<or> ChildrenList x = [])
          then map_option (Pair True) (table_unlink n s)
          else map_option (Pair False) (with_node n (\<lambda>x. x\<lparr>OnReapList := False\<rparr>) s))"

fun reap_batch :: "NLS \<Rightarrow> node_ptr list \<Rightarrow> node_state \<Rightarrow> node_state option" where
  "reap_batch nls [] s = Some s"
| "reap_batch nls (n # ns) s =
     do {
       (freeNode, s1) \<leftarrow> reap_decide n s;
       if freeNode
       then do {
         x \<leftarrow> Nodes s1 n;
         s2 \<leftarrow> BlorgFreeFileContext nls n s1;
         s3 \<leftarrow> BlorgReapEmptyAncestorDcbs nls (ParentDcb x) s2;
         reap_batch nls ns s3
       }
       else reap_batch nls ns s1
     }"

definition worker_tail :: "node_state \<Rightarrow> bool \<times> node_state" where
  "worker_tail s = (ReapList s \<noteq> [], s\<lparr>Queued := False\<rparr>)"

definition NodeReapWorker :: "NLS \<Rightarrow> node_state \<Rightarrow> node_state option" where
  "NodeReapWorker nls s =
     do {
       s1 \<leftarrow> reap_batch nls (ReapList s) (s\<lparr>ReapList := []\<rparr>);
       (case worker_tail s1 of (pending, s2) \<Rightarrow> if pending then NodeReapKick s2 else Some s2)
     }"

section \<open>The path tree\<close>

text \<open>
  FsRtlDissectName belongs to the system and is the parameter \<open>dissect\<close>: the first component of
  a path and what remains after it. \<open>path_parts\<close> is the sequence of its answers along a path,
  each component with what remains after it; a path has at most as many parts as characters when
  what remains is always shorter.
\<close>

type_synonym dissector = "UNICODE_STRING \<Rightarrow> UNICODE_STRING \<times> UNICODE_STRING"

fun path_parts :: "dissector \<Rightarrow> nat \<Rightarrow> UNICODE_STRING \<Rightarrow> (UNICODE_STRING \<times> UNICODE_STRING) list" where
  "path_parts dissect 0 path = []"
| "path_parts dissect (Suc k) path =
     (if path = [] then [] else dissect path # path_parts dissect k (snd (dissect path)))"

definition dissect_shrinks :: "dissector \<Rightarrow> bool" where
  "dissect_shrinks dissect \<longleftrightarrow> (\<forall>path. path \<noteq> [] \<longrightarrow> length (snd (dissect path)) < length path)"

text \<open>\<open>Some 0\<close> is NULL.\<close>

fun search_parts ::
    "NLS \<Rightarrow> node_ptr \<Rightarrow> (UNICODE_STRING \<times> UNICODE_STRING) list \<Rightarrow> node_state \<Rightarrow> node_ptr option" where
  "search_parts nls current [] s = Some current"
| "search_parts nls current ((component, remaining) # parts) s =
     do {
       child \<leftarrow> NodeSearchByName nls current component s;
       if child = 0 then Some 0
       else do {
         x \<leftarrow> Nodes s child;
         if NodeTypeCode x = FCB_SIGNATURE
         then Some (if remaining = [] then child else 0)
         else search_parts nls child parts s
       }
     }"

definition BlorgSearchByPath ::
    "NLS \<Rightarrow> dissector \<Rightarrow> node_ptr \<Rightarrow> UNICODE_STRING \<Rightarrow> node_state \<Rightarrow> node_ptr option" where
  "BlorgSearchByPath nls dissect parent path s =
     search_parts nls parent (path_parts dissect (length path) path) s"

text \<open>
  Putting a new node below a directory: its parent, the parent's list and the child index.
\<close>

definition link_child :: "NLS \<Rightarrow> node_ptr \<Rightarrow> node_ptr \<Rightarrow> node_state \<Rightarrow> node_state option" where
  "link_child nls parent n s =
     do {
       s1 \<leftarrow> with_node n (\<lambda>x. x\<lparr>ParentDcb := parent\<rparr>) s;
       p \<leftarrow> Nodes s1 parent;
       if live s1 (ChildrenList p)
       then do {
         s2 \<leftarrow> with_node parent (\<lambda>p. p\<lparr>ChildrenList := ChildrenList p @ [n]\<rparr>) s1;
         NodeChildLink nls n s2
       }
       else None
     }"

datatype insert_end = Inserted node_ptr | InsertFailed NTSTATUS node_ptr

text \<open>
  The walk of BlorgInsertByPath. \<open>outs\<close> are the outcomes of the creations it makes, in order;
  past their end memory is exhausted. A failure names the directory whose empty ancestors are
  to be reaped.
\<close>

definition exhausted :: create_outcome where
  "exhausted = \<lparr>NonPagedOk = False, NodeAddress = 0, NameOk = False,
     HdrResourceStatus = 0, PagingResourceStatus = 0\<rparr>"

definition next_outcome :: "create_outcome list \<Rightarrow> create_outcome" where
  "next_outcome outs = (case outs of [] \<Rightarrow> exhausted | out # _ \<Rightarrow> out)"

fun insert_parts ::
    "NLS \<Rightarrow> UNICODE_STRING \<Rightarrow> DIRECTORY_ENTRY_METADATA \<Rightarrow> (UNICODE_STRING \<times> UNICODE_STRING) list \<Rightarrow>
     create_outcome list \<Rightarrow> node_ptr \<Rightarrow> node_ptr \<Rightarrow> node_state \<Rightarrow> (insert_end \<times> node_state) option" where
  "insert_parts nls path meta [] outs current lastCreated s = Some (Inserted lastCreated, s)"
| "insert_parts nls path meta ((firstPart, remaining) # parts) outs current lastCreated s =
     (let isLast = (remaining = [])
      in do {
        existing \<leftarrow> NodeSearchByName nls current firstPart s;
        if existing \<noteq> 0
        then if isLast then Some (Inserted lastCreated, s)
             else do {
               x \<leftarrow> Nodes s existing;
               if NodeTypeCode x \<noteq> DCB_SIGNATURE \<and> NodeTypeCode x \<noteq> ROOT_DCB_SIGNATURE
               then Some (InsertFailed STATUS_OBJECT_PATH_NOT_FOUND current, s)
               else insert_parts nls path meta parts outs existing lastCreated s
             }
        else if isLast \<and> \<not> IsDirectory meta
        then (case BlorgCreateFCB nls (next_outcome outs) FCB_SIGNATURE path (Size meta) s of
                (status, n, s1) \<Rightarrow>
                  if \<not> NT_SUCCESS status then Some (InsertFailed status current, s1)
                  else do {
                    s2 \<leftarrow> with_node n (\<lambda>x. x\<lparr>N_LastAccessedTime := LastAccessedTime meta,
                             N_LastModifiedTime := LastModifiedTime meta,
                             N_CreationTime := CreationTime meta\<rparr>) s1;
                    s3 \<leftarrow> link_child nls current n s2;
                    Some (Inserted n, s3)
                  })
        else (let partial = (if isLast then path else take (length path - (length remaining + 1)) path)
              in case BlorgCreateDCB nls (next_outcome outs) DCB_SIGNATURE partial s of
                (status, n, s1) \<Rightarrow>
                  if \<not> NT_SUCCESS status then Some (InsertFailed status current, s1)
                  else do {
                    s2 \<leftarrow> link_child nls current n s1;
                    if isLast then Some (Inserted n, s2)
                    else insert_parts nls path meta parts (tl outs) n n s2
                  })
      })"

definition BlorgInsertByPath ::
    "NLS \<Rightarrow> dissector \<Rightarrow> create_outcome list \<Rightarrow> node_ptr \<Rightarrow> UNICODE_STRING \<Rightarrow> DIRECTORY_ENTRY_METADATA \<Rightarrow>
     node_state \<Rightarrow> (NTSTATUS \<times> node_ptr \<times> node_state) option" where
  "BlorgInsertByPath nls dissect outs parent path meta s =
     do {
       (ending, s1) \<leftarrow> insert_parts nls path meta (path_parts dissect (length path) path) outs parent 0 s;
       (case ending of
          Inserted n \<Rightarrow> Some (STATUS_SUCCESS, n, s1)
        | InsertFailed status current \<Rightarrow>
            do { s2 \<leftarrow> BlorgReapEmptyAncestorDcbs nls current s1; Some (status, 0, s2) })
     }"

section \<open>Volume teardown\<close>

text \<open>
  BlorgNodeTableTeardown around its wait: the latch, and what follows once the worker is not
  queued.
\<close>

definition teardown_latch :: "node_state \<Rightarrow> node_state" where
  "teardown_latch s = s\<lparr>ShuttingDown := True\<rparr>"

fun unclaim_all :: "node_ptr list \<Rightarrow> node_state \<Rightarrow> node_state option" where
  "unclaim_all [] s = Some s"
| "unclaim_all (n # ns) s = do { s1 \<leftarrow> with_node n (\<lambda>x. x\<lparr>OnReapList := False\<rparr>) s; unclaim_all ns s1 }"

definition teardown_finish :: "node_state \<Rightarrow> node_state option" where
  "teardown_finish s =
     do {
       s1 \<leftarrow> unclaim_all (ReapList s) (s\<lparr>ReapList := []\<rparr>);
       Some (s1\<lparr>WorkItem := False, NodeTable := (\<lambda>_. [])\<rparr>)
     }"

end
