(* ===== verification/Node_Protocol.thy ===== *)
theory Node_Protocol
  imports Node_Model "HOL-Library.Multiset"
begin

text \<open>
  The agents that share the nodes (Structs.c, Create.c, Close.c), as a machine whose events are
  the sections that run under one lock or are one interlocked operation.

  An agent is a handle (an open file object), a thread on the warm open path holding a pin, a
  thread inside BlorgNodeUnpin, BlorgNodeDereference or BlorgNodeDeferReapIfIdle, between its
  interlocked operations, or a thread about to kick the worker. The thread that owns the VCB
  resource exclusively, the reap worker or a cold open, is the machine's \<open>Vcb\<close>. Threads inside the idle
  test hold their node's bucket lock shared, so the sections that need a bucket lock exclusively wait
  for them (\<open>bucket_idle\<close>). Where the code holds a lock longer than the model, the model has
  more interleavings than the code.
\<close>

section \<open>What a node says of its file\<close>

text \<open>
  The fields that opens, refreshes and cleanups change under the node's own resource, and that no part
  of the protocol reads.
\<close>

record node_data =
  ND_FileSize :: ULONG64
  ND_AllocationSize :: ULONG64
  ND_CreationTime :: ULONG64
  ND_LastAccessedTime :: ULONG64
  ND_LastModifiedTime :: ULONG64
  ND_MetaTicket :: PATH_CACHE_TICKET
  ND_ShareAccess :: SHARE_ACCESS
  ND_UncleanCount :: int
  ND_ReadIdle :: ULONG64

definition data_of :: "COMMON_CONTEXT \<Rightarrow> node_data" where
  "data_of x = \<lparr>ND_FileSize = FileSize x, ND_AllocationSize = AllocationSize x, ND_CreationTime = N_CreationTime x,
     ND_LastAccessedTime = N_LastAccessedTime x, ND_LastModifiedTime = N_LastModifiedTime x,
     ND_MetaTicket = MetaTicket x, ND_ShareAccess = ShareAccess x, ND_UncleanCount = UncleanCount x,
     ND_ReadIdle = ReadIdleLastEndQpc x\<rparr>"

definition set_data :: "node_data \<Rightarrow> COMMON_CONTEXT \<Rightarrow> COMMON_CONTEXT" where
  "set_data d x = x\<lparr>FileSize := ND_FileSize d, AllocationSize := ND_AllocationSize d, N_CreationTime := ND_CreationTime d,
     N_LastAccessedTime := ND_LastAccessedTime d, N_LastModifiedTime := ND_LastModifiedTime d,
     MetaTicket := ND_MetaTicket d, ShareAccess := ND_ShareAccess d, UncleanCount := ND_UncleanCount d,
     ReadIdleLastEndQpc := ND_ReadIdle d\<rparr>"

section \<open>Agents\<close>

datatype agent =
    Handle node_ptr          \<comment> \<open>an open file object\<close>
  | Pinned node_ptr          \<comment> \<open>the warm path, after the lookup\<close>
  | PinnedOpening node_ptr   \<comment> \<open>the warm path, after the increment of RefCount\<close>
  | TestRef node_ptr         \<comment> \<open>the idle test, about to read RefCount\<close>
  | TestPin node_ptr         \<comment> \<open>the idle test, about to read PinCount\<close>
  | Claiming node_ptr        \<comment> \<open>the idle test passed, about to claim\<close>
  | Pushing node_ptr         \<comment> \<open>the claim won, about to push\<close>
  | Kicking                  \<comment> \<open>about to kick the worker\<close>

datatype vcb_phase =
    VcbFree
  | WorkerAt "node_ptr list"                         \<comment> \<open>the worker's loop, with the rest of its batch\<close>
  | WorkerFree node_ptr "node_ptr list"              \<comment> \<open>the worker, about to free a node\<close>
  | WalkAt node_ptr "node_ptr list option"           \<comment> \<open>BlorgReapEmptyAncestorDcbs, for the worker or a create\<close>
  | WalkFree node_ptr "node_ptr list option"         \<comment> \<open>the walk, about to free a retired directory\<close>
  | ColdFound node_ptr                               \<comment> \<open>a create that found its node in the tree\<close>
  | ColdFresh node_ptr                               \<comment> \<open>a create that inserted its node\<close>
  | ColdOpening node_ptr bool                        \<comment> \<open>after the increment of RefCount, fresh or found\<close>
  | ColdOpened node_ptr                              \<comment> \<open>about to publish\<close>
  | ColdFailed node_ptr                              \<comment> \<open>a failed open of a found node\<close>
  | ColdDrop node_ptr                                \<comment> \<open>a failed open of a fresh node\<close>

datatype worker_phase = WorkerIdle | WorkerQueued | WorkerPopped "node_ptr list" | WorkerRunning | WorkerTail

record machine =
  Mem :: node_state
  Root :: node_ptr
  Agents :: "agent multiset"
  Vcb :: vcb_phase
  Worker :: worker_phase

text \<open>The nodes whose bucket lock an agent holds shared.\<close>

fun holds_bucket_of :: "agent \<Rightarrow> node_ptr option" where
  "holds_bucket_of (TestRef n) = Some n"
| "holds_bucket_of (TestPin n) = Some n"
| "holds_bucket_of (Claiming n) = Some n"
| "holds_bucket_of (Pushing n) = Some n"
| "holds_bucket_of _ = None"

definition bucket_of :: "machine \<Rightarrow> node_ptr \<Rightarrow> nat option" where
  "bucket_of m n = map_option TableBucketIndex (Nodes (Mem m) n)"

definition bucket_idle :: "machine \<Rightarrow> node_ptr \<Rightarrow> bool" where
  "bucket_idle m n \<longleftrightarrow>
     (\<forall>a \<in># Agents m. case holds_bucket_of a of None \<Rightarrow> True | Some k \<Rightarrow> bucket_of m k \<noteq> bucket_of m n)"

section \<open>Events\<close>

datatype event =
    Lookup UNICODE_STRING
  | OpenBegin node_ptr | OpenDone node_ptr | OpenFail node_ptr | Unpin node_ptr
  | Close node_ptr
  | ReadRef node_ptr | ReadPin node_ptr | Claim node_ptr | Push node_ptr | Kick
  | WorkerTake | WorkerAcquire | WorkerDecide | WorkerFrees | WorkerRelease | WorkerTails
  | WalkDecide | WalkFrees
  | ColdEnter UNICODE_STRING DIRECTORY_ENTRY_METADATA "create_outcome list"
  | ColdReturn | ColdRefuse | ColdBegin | ColdDone | ColdFail | ColdPublish | ColdDefer | ColdFrees
  | RootOpen | RootClose
  | Touch node_ptr node_data
  | Latch

text \<open>
  The allocator's promise to a create: the addresses it hands out are those of no live node,
  and differ.
\<close>

definition fresh_outcomes :: "node_state \<Rightarrow> create_outcome list \<Rightarrow> bool" where
  "fresh_outcomes s outs \<longleftrightarrow>
     (let as = filter (\<lambda>a. a \<noteq> 0) (map NodeAddress outs)
      in distinct as \<and> list_all (\<lambda>a. Nodes s a = None) as)"

text \<open>Who may change what a node says of its file: a handle, an open on the warm path, a cold open.\<close>

definition may_touch :: "machine \<Rightarrow> node_ptr \<Rightarrow> bool" where
  "may_touch m n \<longleftrightarrow> Handle n \<in># Agents m \<or> Pinned n \<in># Agents m \<or> PinnedOpening n \<in># Agents m \<or>
     (case Vcb m of ColdFound k \<Rightarrow> k = n | ColdFresh k \<Rightarrow> k = n | ColdOpening k _ \<Rightarrow> k = n | _ \<Rightarrow> False)"

fun enabled :: "event \<Rightarrow> machine \<Rightarrow> bool" where
  "enabled (Lookup path) m = True"
| "enabled (OpenBegin n) m = (Pinned n \<in># Agents m)"
| "enabled (OpenDone n) m = (PinnedOpening n \<in># Agents m)"
| "enabled (OpenFail n) m = (PinnedOpening n \<in># Agents m)"
| "enabled (Unpin n) m = (Pinned n \<in># Agents m)"
| "enabled (Close n) m = (Handle n \<in># Agents m \<and> n \<noteq> Root m)"
| "enabled (ReadRef n) m = (TestRef n \<in># Agents m)"
| "enabled (ReadPin n) m = (TestPin n \<in># Agents m)"
| "enabled (Claim n) m = (Claiming n \<in># Agents m)"
| "enabled (Push n) m = (Pushing n \<in># Agents m)"
| "enabled Kick m = (Kicking \<in># Agents m)"
| "enabled WorkerTake m = (Worker m = WorkerQueued)"
| "enabled WorkerAcquire m = (Vcb m = VcbFree \<and> (case Worker m of WorkerPopped _ \<Rightarrow> True | _ \<Rightarrow> False))"
| "enabled WorkerDecide m = (case Vcb m of WorkerAt (n # _) \<Rightarrow> bucket_idle m n | _ \<Rightarrow> False)"
| "enabled WorkerFrees m = (case Vcb m of WorkerFree _ _ \<Rightarrow> True | _ \<Rightarrow> False)"
| "enabled WorkerRelease m = (Vcb m = WorkerAt [])"
| "enabled WorkerTails m = (Worker m = WorkerTail)"
| "enabled WalkDecide m = (case Vcb m of WalkAt d _ \<Rightarrow> bucket_idle m d | _ \<Rightarrow> False)"
| "enabled WalkFrees m = (case Vcb m of WalkFree _ _ \<Rightarrow> True | _ \<Rightarrow> False)"
| "enabled (ColdEnter path meta outs) m = (Vcb m = VcbFree \<and> path \<noteq> [] \<and> fresh_outcomes (Mem m) outs)"
| "enabled ColdReturn m = (case Vcb m of ColdFound _ \<Rightarrow> True | _ \<Rightarrow> False)"
| "enabled ColdRefuse m = (case Vcb m of ColdFound _ \<Rightarrow> True | ColdFresh _ \<Rightarrow> True | _ \<Rightarrow> False)"
| "enabled ColdBegin m = (case Vcb m of ColdFound _ \<Rightarrow> True | ColdFresh _ \<Rightarrow> True | _ \<Rightarrow> False)"
| "enabled ColdDone m = (case Vcb m of ColdOpening _ _ \<Rightarrow> True | _ \<Rightarrow> False)"
| "enabled ColdFail m = (case Vcb m of ColdOpening _ _ \<Rightarrow> True | _ \<Rightarrow> False)"
| "enabled ColdPublish m = (case Vcb m of ColdOpened n \<Rightarrow> bucket_idle m n | _ \<Rightarrow> False)"
| "enabled ColdDefer m = (case Vcb m of ColdFailed _ \<Rightarrow> True | _ \<Rightarrow> False)"
| "enabled ColdFrees m = (case Vcb m of ColdDrop _ \<Rightarrow> True | _ \<Rightarrow> False)"
| "enabled RootOpen m = True"
| "enabled RootClose m = (Handle (Root m) \<in># Agents m)"
| "enabled (Touch n d) m = may_touch m n"
| "enabled Latch m = True"

section \<open>What an event does\<close>

definition become :: "agent \<Rightarrow> agent multiset \<Rightarrow> machine \<Rightarrow> machine" where
  "become a as m = m\<lparr>Agents := Agents m - {#a#} + as\<rparr>"

definition run :: "node_state option \<Rightarrow> (machine \<Rightarrow> machine) \<Rightarrow> machine \<Rightarrow> machine option" where
  "run s' f m = map_option (\<lambda>s. f (m\<lparr>Mem := s\<rparr>)) s'"

definition resume :: "node_ptr list option \<Rightarrow> vcb_phase" where
  "resume k = (case k of None \<Rightarrow> VcbFree | Some batch \<Rightarrow> WorkerAt batch)"

definition parent_of :: "node_state \<Rightarrow> node_ptr \<Rightarrow> node_ptr option" where
  "parent_of s n = map_option ParentDcb (Nodes s n)"

definition cold_enter ::
    "NLS \<Rightarrow> dissector \<Rightarrow> UNICODE_STRING \<Rightarrow> DIRECTORY_ENTRY_METADATA \<Rightarrow> create_outcome list \<Rightarrow> machine \<Rightarrow> machine option" where
  "cold_enter nls dissect path meta outs m =
     do {
       found \<leftarrow> BlorgSearchByPath nls dissect (Root m) path (Mem m);
       if found \<noteq> 0 then Some (m\<lparr>Vcb := ColdFound found\<rparr>)
       else do {
         (ending, s1) \<leftarrow> insert_parts nls path meta (path_parts dissect (length path) path) outs (Root m) 0 (Mem m);
         Some (m\<lparr>Mem := s1,
                 Vcb := (case ending of
                           Inserted n \<Rightarrow> if n = 0 then VcbFree else ColdFresh n
                         | InsertFailed _ current \<Rightarrow> WalkAt current None)\<rparr>)
       }
     }"

definition walk_decide :: "node_ptr \<Rightarrow> node_ptr list option \<Rightarrow> machine \<Rightarrow> machine option" where
  "walk_decide d k m =
     (case Nodes (Mem m) d of None \<Rightarrow> None
      | Some x \<Rightarrow>
          if NodeTypeCode x = DCB_SIGNATURE \<and> ChildrenList x = []
          then do {
            (retired, s1) \<leftarrow> NodeTableTryRetire d (Mem m);
            Some (m\<lparr>Mem := s1, Vcb := (if retired then WalkFree d k else resume k)\<rparr>)
          }
          else Some (m\<lparr>Vcb := resume k\<rparr>))"

fun exec :: "NLS \<Rightarrow> dissector \<Rightarrow> event \<Rightarrow> machine \<Rightarrow> machine option" where
  "exec nls dissect (Lookup path) m =
     do {
       (n, s1) \<leftarrow> BlorgNodeTableLookupPin nls path (Mem m);
       Some (m\<lparr>Mem := s1, Agents := (if n = 0 then Agents m else add_mset (Pinned n) (Agents m))\<rparr>)
     }"
| "exec nls dissect (OpenBegin n) m = run (take_ref n (Mem m)) (become (Pinned n) {#PinnedOpening n#}) m"
| "exec nls dissect (OpenDone n) m = Some (become (PinnedOpening n) {#Pinned n, Handle n#} m)"
| "exec nls dissect (OpenFail n) m = run (drop_ref n (Mem m)) (become (PinnedOpening n) {#Pinned n#}) m"
| "exec nls dissect (Unpin n) m = run (drop_pin n (Mem m)) (become (Pinned n) {#TestRef n#}) m"
| "exec nls dissect (Close n) m = run (drop_ref n (Mem m)) (become (Handle n) {#TestRef n#}) m"
| "exec nls dissect (ReadRef n) m =
     map_option (\<lambda>x. become (TestRef n) (if RefCount x = 0 then {#TestPin n#} else {#}) m) (Nodes (Mem m) n)"
| "exec nls dissect (ReadPin n) m =
     map_option (\<lambda>x. become (TestPin n) (if PinCount x = 0 then {#Claiming n#} else {#}) m) (Nodes (Mem m) n)"
| "exec nls dissect (Claim n) m =
     do {
       (claimed, s1) \<leftarrow> claim_reap n (Mem m);
       Some (become (Claiming n) (if claimed then {#Pushing n#} else {#}) (m\<lparr>Mem := s1\<rparr>))
     }"
| "exec nls dissect (Push n) m = run (push_reap n (Mem m)) (become (Pushing n) {#Kicking#}) m"
| "exec nls dissect Kick m =
     do {
       s1 \<leftarrow> NodeReapKick (Mem m);
       Some (become Kicking {#} (m\<lparr>Mem := s1,
               Worker := (if Queued s1 \<and> \<not> Queued (Mem m) then WorkerQueued else Worker m)\<rparr>))
     }"
| "exec nls dissect WorkerTake m =
     Some (m\<lparr>Mem := (Mem m)\<lparr>ReapList := []\<rparr>,
             Worker := (if ReapList (Mem m) = [] then WorkerTail else WorkerPopped (ReapList (Mem m)))\<rparr>)"
| "exec nls dissect WorkerAcquire m =
     (case Worker m of WorkerPopped batch \<Rightarrow> Some (m\<lparr>Vcb := WorkerAt batch, Worker := WorkerRunning\<rparr>) | _ \<Rightarrow> None)"
| "exec nls dissect WorkerDecide m =
     (case Vcb m of
        WorkerAt (n # batch) \<Rightarrow>
          do {
            (freeNode, s1) \<leftarrow> reap_decide n (Mem m);
            Some (m\<lparr>Mem := s1, Vcb := (if freeNode then WorkerFree n batch else WorkerAt batch)\<rparr>)
          }
      | _ \<Rightarrow> None)"
| "exec nls dissect WorkerFrees m =
     (case Vcb m of
        WorkerFree n batch \<Rightarrow>
          do { p \<leftarrow> parent_of (Mem m) n; run (BlorgFreeFileContext nls n (Mem m)) (Vcb_update (\<lambda>_. WalkAt p (Some batch))) m }
      | _ \<Rightarrow> None)"
| "exec nls dissect WorkerRelease m = Some (m\<lparr>Vcb := VcbFree, Worker := WorkerTail\<rparr>)"
| "exec nls dissect WorkerTails m =
     (case worker_tail (Mem m) of
        (pending, s1) \<Rightarrow> Some (m\<lparr>Mem := s1, Worker := WorkerIdle,
                                Agents := (if pending then add_mset Kicking (Agents m) else Agents m)\<rparr>))"
| "exec nls dissect WalkDecide m = (case Vcb m of WalkAt d k \<Rightarrow> walk_decide d k m | _ \<Rightarrow> None)"
| "exec nls dissect WalkFrees m =
     (case Vcb m of
        WalkFree d k \<Rightarrow>
          do { p \<leftarrow> parent_of (Mem m) d; run (BlorgFreeFileContext nls d (Mem m)) (Vcb_update (\<lambda>_. WalkAt p k)) m }
      | _ \<Rightarrow> None)"
| "exec nls dissect (ColdEnter path meta outs) m = cold_enter nls dissect path meta outs m"
| "exec nls dissect ColdReturn m = Some (m\<lparr>Vcb := VcbFree\<rparr>)"
| "exec nls dissect ColdRefuse m =
     (case Vcb m of ColdFound n \<Rightarrow> Some (m\<lparr>Vcb := ColdFailed n\<rparr>)
      | ColdFresh n \<Rightarrow> Some (m\<lparr>Vcb := ColdDrop n\<rparr>) | _ \<Rightarrow> None)"
| "exec nls dissect ColdBegin m =
     (case Vcb m of
        ColdFound n \<Rightarrow> run (take_ref n (Mem m)) (Vcb_update (\<lambda>_. ColdOpening n False)) m
      | ColdFresh n \<Rightarrow> run (take_ref n (Mem m)) (Vcb_update (\<lambda>_. ColdOpening n True)) m
      | _ \<Rightarrow> None)"
| "exec nls dissect ColdDone m =
     (case Vcb m of
        ColdOpening n _ \<Rightarrow> Some (m\<lparr>Vcb := ColdOpened n, Agents := add_mset (Handle n) (Agents m)\<rparr>)
      | _ \<Rightarrow> None)"
| "exec nls dissect ColdFail m =
     (case Vcb m of
        ColdOpening n isFresh \<Rightarrow>
          run (drop_ref n (Mem m)) (Vcb_update (\<lambda>_. if isFresh then ColdDrop n else ColdFailed n)) m
      | _ \<Rightarrow> None)"
| "exec nls dissect ColdPublish m =
     (case Vcb m of ColdOpened n \<Rightarrow> run (BlorgNodeTablePublish n (Mem m)) (Vcb_update (\<lambda>_. VcbFree)) m | _ \<Rightarrow> None)"
| "exec nls dissect ColdDefer m =
     (case Vcb m of
        ColdFailed n \<Rightarrow> Some (m\<lparr>Vcb := VcbFree, Agents := add_mset (TestRef n) (Agents m)\<rparr>)
      | _ \<Rightarrow> None)"
| "exec nls dissect ColdFrees m =
     (case Vcb m of
        ColdDrop n \<Rightarrow>
          do { p \<leftarrow> parent_of (Mem m) n; run (BlorgFreeFileContext nls n (Mem m)) (Vcb_update (\<lambda>_. WalkAt p None)) m }
      | _ \<Rightarrow> None)"
| "exec nls dissect RootOpen m =
     run (take_ref (Root m) (Mem m)) (\<lambda>m. m\<lparr>Agents := add_mset (Handle (Root m)) (Agents m)\<rparr>) m"
| "exec nls dissect RootClose m = run (drop_ref (Root m) (Mem m)) (become (Handle (Root m)) {#}) m"
| "exec nls dissect (Touch n d) m = run (with_node n (set_data d) (Mem m)) id m"
| "exec nls dissect Latch m = Some (m\<lparr>Mem := teardown_latch (Mem m)\<rparr>)"

section \<open>Runs\<close>

text \<open>
  The volume as BlorgCreateVolumeDeviceObject leaves it: the root directory, no other node, an
  initialised node table.
\<close>

definition volume_start :: "NLS \<Rightarrow> node_ptr \<Rightarrow> machine" where
  "volume_start nls root =
     \<lparr>Mem = \<lparr>Nodes = [root \<mapsto> fresh_node nls ROOT_DCB_SIGNATURE [backslash] 0], NodeTable = (\<lambda>_. []),
             NodeChildren = (\<lambda>_. []), ReapList = [], Queued = False, ShuttingDown = False, WorkItem = True,
             Ledger = \<lparr>NonPagedOut = 1, FcbOut = 0, DcbOut = 1, NamesOut = 1, ResourcesOut = 2\<rparr>\<rparr>,
      Root = root, Agents = {#}, Vcb = VcbFree, Worker = WorkerIdle\<rparr>"

inductive reachable :: "NLS \<Rightarrow> dissector \<Rightarrow> node_ptr \<Rightarrow> machine \<Rightarrow> bool" for nls dissect root where
  start: "root \<noteq> 0 \<Longrightarrow> reachable nls dissect root (volume_start nls root)"
| step: "reachable nls dissect root m \<Longrightarrow> enabled e m \<Longrightarrow> exec nls dissect e m = Some m' \<Longrightarrow>
    reachable nls dissect root m'"

text \<open>A sequence of events run one after the other, for evaluation.\<close>

fun exec_all :: "NLS \<Rightarrow> dissector \<Rightarrow> event list \<Rightarrow> machine \<Rightarrow> machine option" where
  "exec_all nls dissect [] m = Some m"
| "exec_all nls dissect (e # es) m =
     (if enabled e m then Option.bind (exec nls dissect e m) (exec_all nls dissect es) else None)"

lemma exec_all_reachable:
  assumes "reachable nls dissect root m" "exec_all nls dissect es m = Some m'"
  shows "reachable nls dissect root m'"
  using assms
proof (induction es arbitrary: m)
  case (Cons e es)
  then show ?case by (auto split: if_splits bind_splits intro: reachable.step)
qed simp

end
