(* ===== verification/Node_Inv.thy ===== *)
theory Node_Inv
  imports Node_Protocol
begin

text \<open>
  The invariant of the node machine, in pieces that each speak of a few components of the
  state: the tree, the child index, the node table, the counts, the agents, the claims for
  reaping, the thread that owns the VCB resource, the worker, the ledger, and that no idle node
  is forgotten.
\<close>

named_theorems inv_defs \<open>the pieces of the invariant\<close>

section \<open>Agents and counts\<close>

fun node_of :: "agent \<Rightarrow> node_ptr option" where
  "node_of (Handle n) = Some n"
| "node_of (Pinned n) = Some n"
| "node_of (PinnedOpening n) = Some n"
| "node_of (TestRef n) = Some n"
| "node_of (TestPin n) = Some n"
| "node_of (Claiming n) = Some n"
| "node_of (Pushing n) = Some n"
| "node_of Kicking = None"

fun opening_count :: "vcb_phase \<Rightarrow> node_ptr \<Rightarrow> nat" where
  "opening_count (ColdOpening k _) n = (if k = n then 1 else 0)"
| "opening_count _ n = 0"

definition refs :: "agent multiset \<Rightarrow> vcb_phase \<Rightarrow> node_ptr \<Rightarrow> nat" where
  "refs A V n = count A (Handle n) + count A (PinnedOpening n) + opening_count V n"

definition pins :: "agent multiset \<Rightarrow> node_ptr \<Rightarrow> nat" where
  "pins A n = count A (Pinned n) + count A (PinnedOpening n)"

type_synonym nodes = "node_ptr \<rightharpoonup> COMMON_CONTEXT"

definition counts_ok :: "nodes \<Rightarrow> agent multiset \<Rightarrow> vcb_phase \<Rightarrow> bool" where
  "counts_ok N A V \<longleftrightarrow>
     (\<forall>n x. N n = Some x \<longrightarrow> RefCount x = int (refs A V n) \<and> PinCount x = int (pins A n))"

definition agents_ok :: "node_ptr \<Rightarrow> nodes \<Rightarrow> agent multiset \<Rightarrow> bool" where
  "agents_ok root N A \<longleftrightarrow>
     (\<forall>a n. a \<in># A \<longrightarrow> node_of a = Some n \<longrightarrow> N n \<noteq> None \<and> (n = root \<longrightarrow> a = Handle n))"

section \<open>The tree, the child index, the table\<close>

definition is_directory :: "COMMON_CONTEXT \<Rightarrow> bool" where
  "is_directory x \<longleftrightarrow> NodeTypeCode x = DCB_SIGNATURE \<or> NodeTypeCode x = ROOT_DCB_SIGNATURE"

definition child_ok :: "nodes \<Rightarrow> node_ptr \<Rightarrow> COMMON_CONTEXT \<Rightarrow> bool" where
  "child_ok N n x \<longleftrightarrow>
     (NodeTypeCode x = FCB_SIGNATURE \<and> FullPath x \<noteq> [] \<or> NodeTypeCode x = DCB_SIGNATURE) \<and>
     (\<exists>p. N (ParentDcb x) = Some p \<and> is_directory p \<and> n \<in> set (ChildrenList p))"

definition parent_ok :: "node_ptr \<Rightarrow> nodes \<Rightarrow> node_ptr \<Rightarrow> COMMON_CONTEXT \<Rightarrow> bool" where
  "parent_ok root N n x \<longleftrightarrow>
     distinct (ChildrenList x) \<and>
     (\<forall>c \<in> set (ChildrenList x). c \<noteq> root \<and> (\<exists>y. N c = Some y \<and> ParentDcb y = n))"

definition ranked :: "node_ptr \<Rightarrow> nodes \<Rightarrow> (node_ptr \<Rightarrow> nat) \<Rightarrow> bool" where
  "ranked root N rank \<longleftrightarrow> (\<forall>n x. N n = Some x \<longrightarrow> n \<noteq> root \<longrightarrow> rank (ParentDcb x) < rank n)"

definition tree_ok :: "node_ptr \<Rightarrow> nodes \<Rightarrow> bool" where
  "tree_ok root N \<longleftrightarrow>
     finite (dom N) \<and> N 0 = None \<and>
     (\<exists>r. N root = Some r \<and> NodeTypeCode r = ROOT_DCB_SIGNATURE) \<and>
     (\<forall>n x. N n = Some x \<longrightarrow> n \<noteq> root \<longrightarrow> child_ok N n x) \<and>
     (\<forall>n x. N n = Some x \<longrightarrow> parent_ok root N n x) \<and>
     (\<exists>rank. ranked root N rank)"

definition index_ok :: "NLS \<Rightarrow> node_ptr \<Rightarrow> nodes \<Rightarrow> (nat \<Rightarrow> node_ptr list) \<Rightarrow> bool" where
  "index_ok nls root N C \<longleftrightarrow>
     (\<forall>b. distinct (C b)) \<and>
     (\<forall>b n. n \<in> set (C b) \<longleftrightarrow> n \<noteq> root \<and> (\<exists>x. N n = Some x \<and> child_bucket nls x = b))"

definition table_ok :: "node_ptr \<Rightarrow> nodes \<Rightarrow> (nat \<Rightarrow> node_ptr list) \<Rightarrow> bool" where
  "table_ok root N T \<longleftrightarrow>
     (\<forall>b. distinct (T b)) \<and>
     (\<forall>b n. n \<in> set (T b) \<longleftrightarrow>
        n \<noteq> root \<and> (\<exists>x. N n = Some x \<and> TableLinked x \<and> TableBucketIndex x = b)) \<and>
     (\<forall>x. N root = Some x \<longrightarrow> \<not> TableLinked x)"

section \<open>Claims\<close>

fun worker_claims :: "worker_phase \<Rightarrow> node_ptr list" where
  "worker_claims (WorkerPopped batch) = batch"
| "worker_claims _ = []"

fun batch_of :: "node_ptr list option \<Rightarrow> node_ptr list" where
  "batch_of None = []"
| "batch_of (Some batch) = batch"

fun vcb_claims :: "vcb_phase \<Rightarrow> node_ptr list" where
  "vcb_claims (WorkerAt batch) = batch"
| "vcb_claims (WorkerFree n batch) = n # batch"
| "vcb_claims (WalkAt d k) = batch_of k"
| "vcb_claims (WalkFree d k) = d # batch_of k"
| "vcb_claims _ = []"

definition claim_count ::
    "node_ptr list \<Rightarrow> worker_phase \<Rightarrow> vcb_phase \<Rightarrow> agent multiset \<Rightarrow> node_ptr \<Rightarrow> nat" where
  "claim_count L W V A n =
     count_list L n + count_list (worker_claims W) n + count_list (vcb_claims V) n + count A (Pushing n)"

definition claimed :: "nodes \<Rightarrow> node_ptr \<Rightarrow> nat" where
  "claimed N n = (case N n of None \<Rightarrow> 0 | Some x \<Rightarrow> if OnReapList x then 1 else 0)"

definition claims_ok ::
    "node_ptr \<Rightarrow> nodes \<Rightarrow> node_ptr list \<Rightarrow> worker_phase \<Rightarrow> vcb_phase \<Rightarrow> agent multiset \<Rightarrow> bool" where
  "claims_ok root N L W V A \<longleftrightarrow> claimed N root = 0 \<and> (\<forall>n. claim_count L W V A n = claimed N n)"

section \<open>The owner of the VCB resource, and the worker\<close>

definition quiet :: "node_ptr \<Rightarrow> nodes \<Rightarrow> agent multiset \<Rightarrow> node_ptr \<Rightarrow> bool" where
  "quiet root N A n \<longleftrightarrow>
     n \<noteq> root \<and> (\<exists>x. N n = Some x \<and> \<not> TableLinked x \<and> ChildrenList x = []) \<and>
     (\<forall>a \<in># A. node_of a \<noteq> Some n)"

definition resident :: "node_ptr \<Rightarrow> nodes \<Rightarrow> node_ptr \<Rightarrow> bool" where
  "resident root N n \<longleftrightarrow> n \<noteq> root \<and> N n \<noteq> None"

definition directory_at :: "nodes \<Rightarrow> node_ptr \<Rightarrow> bool" where
  "directory_at N d \<longleftrightarrow> (\<exists>x. N d = Some x \<and> is_directory x)"

fun vcb_ok :: "node_ptr \<Rightarrow> nodes \<Rightarrow> agent multiset \<Rightarrow> vcb_phase \<Rightarrow> bool" where
  "vcb_ok root N A (WorkerFree n batch) = quiet root N A n"
| "vcb_ok root N A (WalkFree n k) = quiet root N A n"
| "vcb_ok root N A (ColdFresh n) = (quiet root N A n \<and> claimed N n = 0)"
| "vcb_ok root N A (ColdDrop n) = (quiet root N A n \<and> claimed N n = 0)"
| "vcb_ok root N A (ColdOpening n isFresh) = (resident root N n \<and> (isFresh \<longrightarrow> quiet root N A n \<and> claimed N n = 0))"
| "vcb_ok root N A (ColdFound n) = resident root N n"
| "vcb_ok root N A (ColdOpened n) = resident root N n"
| "vcb_ok root N A (ColdFailed n) = resident root N n"
| "vcb_ok root N A (WalkAt d k) = directory_at N d"
| "vcb_ok root N A _ = True"

fun worker_owns :: "vcb_phase \<Rightarrow> bool" where
  "worker_owns (WorkerAt _) = True"
| "worker_owns (WorkerFree _ _) = True"
| "worker_owns (WalkAt _ (Some _)) = True"
| "worker_owns (WalkFree _ (Some _)) = True"
| "worker_owns _ = False"

definition worker_ok :: "bool \<Rightarrow> bool \<Rightarrow> worker_phase \<Rightarrow> vcb_phase \<Rightarrow> bool" where
  "worker_ok queued item W V \<longleftrightarrow>
     (W = WorkerRunning \<longleftrightarrow> worker_owns V) \<and> (queued \<longleftrightarrow> W \<noteq> WorkerIdle) \<and> item"

section \<open>Nothing is forgotten\<close>

definition idle :: "COMMON_CONTEXT \<Rightarrow> bool" where
  "idle x \<longleftrightarrow> RefCount x = 0 \<and> PinCount x = 0 \<and> ChildrenList x = []"

definition tested :: "agent multiset \<Rightarrow> node_ptr \<Rightarrow> bool" where
  "tested A n \<longleftrightarrow> TestRef n \<in># A \<or> TestPin n \<in># A \<or> Claiming n \<in># A"

fun attends :: "vcb_phase \<Rightarrow> node_ptr \<Rightarrow> bool" where
  "attends (ColdFresh k) n = (k = n)"
| "attends (ColdDrop k) n = (k = n)"
| "attends (ColdFailed k) n = (k = n)"
| "attends (WalkAt d _) n = (d = n)"
| "attends _ n = False"

definition strand_ok :: "node_ptr \<Rightarrow> nodes \<Rightarrow> agent multiset \<Rightarrow> vcb_phase \<Rightarrow> bool" where
  "strand_ok root N A V \<longleftrightarrow>
     (\<forall>n x. N n = Some x \<longrightarrow> n \<noteq> root \<longrightarrow> idle x \<longrightarrow> OnReapList x \<or> tested A n \<or> attends V n)"

definition kick_ok :: "node_ptr list \<Rightarrow> bool \<Rightarrow> bool \<Rightarrow> agent multiset \<Rightarrow> bool" where
  "kick_ok L queued down A \<longleftrightarrow> (L \<noteq> [] \<longrightarrow> queued \<or> down \<or> Kicking \<in># A)"

definition ledger_ok :: "nodes \<Rightarrow> node_ledger \<Rightarrow> bool" where
  "ledger_ok N l \<longleftrightarrow>
     NonPagedOut l = int (card (dom N)) \<and> NamesOut l = int (card (dom N)) \<and>
     ResourcesOut l = 2 * int (card (dom N)) \<and>
     FcbOut l = int (card {n. \<exists>x. N n = Some x \<and> NodeTypeCode x = FCB_SIGNATURE}) \<and>
     DcbOut l = int (card {n. \<exists>x. N n = Some x \<and> is_directory x})"

definition Inv :: "NLS \<Rightarrow> machine \<Rightarrow> bool" where
  "Inv nls m \<longleftrightarrow>
     (let s = Mem m; N = Nodes s; L = ReapList s; A = Agents m; V = Vcb m; W = Worker m; root = Root m
      in tree_ok root N \<and> index_ok nls root N (NodeChildren s) \<and> table_ok root N (NodeTable s) \<and>
         counts_ok N A V \<and> agents_ok root N A \<and> claims_ok root N L W V A \<and>
         vcb_ok root N A V \<and> worker_ok (Queued s) (WorkItem s) W V \<and> strand_ok root N A V \<and>
         kick_ok L (Queued s) (ShuttingDown s) A \<and> ledger_ok N (Ledger s))"

lemma InvI:
  assumes "Nodes (Mem m) = N" "NodeChildren (Mem m) = C" "NodeTable (Mem m) = T" "ReapList (Mem m) = L"
    "Queued (Mem m) = q" "WorkItem (Mem m) = i" "ShuttingDown (Mem m) = d" "Ledger (Mem m) = l"
    "Root m = root" "Agents m = A" "Vcb m = V" "Worker m = W"
    "tree_ok root N" "index_ok nls root N C" "table_ok root N T" "counts_ok N A V" "agents_ok root N A"
    "claims_ok root N L W V A" "vcb_ok root N A V" "worker_ok q i W V" "strand_ok root N A V"
    "kick_ok L q d A" "ledger_ok N l"
  shows "Inv nls m"
  using assms by (simp add: Inv_def Let_def)

lemma InvD:
  assumes "Inv nls m"
  shows "tree_ok (Root m) (Nodes (Mem m))" "index_ok nls (Root m) (Nodes (Mem m)) (NodeChildren (Mem m))"
    "table_ok (Root m) (Nodes (Mem m)) (NodeTable (Mem m))" "counts_ok (Nodes (Mem m)) (Agents m) (Vcb m)"
    "agents_ok (Root m) (Nodes (Mem m)) (Agents m)"
    "claims_ok (Root m) (Nodes (Mem m)) (ReapList (Mem m)) (Worker m) (Vcb m) (Agents m)"
    "vcb_ok (Root m) (Nodes (Mem m)) (Agents m) (Vcb m)"
    "worker_ok (Queued (Mem m)) (WorkItem (Mem m)) (Worker m) (Vcb m)"
    "strand_ok (Root m) (Nodes (Mem m)) (Agents m) (Vcb m)"
    "kick_ok (ReapList (Mem m)) (Queued (Mem m)) (ShuttingDown (Mem m)) (Agents m)"
    "ledger_ok (Nodes (Mem m)) (Ledger (Mem m))"
  using assms by (simp_all add: Inv_def Let_def)

section \<open>Updates that keep the shape of the tree\<close>

text \<open>What the tree, the index and the ledger see of a node.\<close>

definition shape :: "COMMON_CONTEXT \<Rightarrow> node_type \<times> UNICODE_STRING \<times> node_ptr \<times> node_ptr list" where
  "shape x = (NodeTypeCode x, FullPath x, ParentDcb x, ChildrenList x)"

definition same_shape :: "nodes \<Rightarrow> nodes \<Rightarrow> bool" where
  "same_shape N N' \<longleftrightarrow> (\<forall>n. map_option shape (N' n) = map_option shape (N n))"

lemma same_shape_upd:
  assumes "N n = Some x" "shape y = shape x"
  shows "same_shape N (N(n \<mapsto> y))"
  using assms by (simp add: same_shape_def)

lemma same_shape_refl [simp]: "same_shape N N"
  by (simp add: same_shape_def)

lemma same_shape_sym: "same_shape N N' \<Longrightarrow> same_shape N' N"
  unfolding same_shape_def by (metis (no_types))

lemma same_shapeD:
  assumes "same_shape N N'" "N' n = Some y"
  obtains x where "N n = Some x" "NodeTypeCode y = NodeTypeCode x" "FullPath y = FullPath x"
    "ParentDcb y = ParentDcb x" "ChildrenList y = ChildrenList x"
proof -
  have "map_option shape (N' n) = map_option shape (N n)"
    using assms(1) unfolding same_shape_def by blast
  then have "map_option shape (N n) = Some (shape y)" using assms(2) by simp
  then obtain x where "N n = Some x" "shape x = shape y" by (auto simp: map_option_eq_Some)
  then show thesis by (intro that [of x]) (auto simp: shape_def)
qed

lemma same_shape_None: "same_shape N N' \<Longrightarrow> N' n = None \<longleftrightarrow> N n = None"
  unfolding same_shape_def by (metis option.map_disc_iff)

lemma same_shape_dom: "same_shape N N' \<Longrightarrow> dom N' = dom N"
  by (simp add: dom_def same_shape_None)

lemma child_ok_shape:
  assumes "same_shape N N'" "N n = Some x" "N' n = Some y" "child_ok N n x"
  shows "child_ok N' n y"
proof -
  obtain x' where x': "N n = Some x'" "NodeTypeCode y = NodeTypeCode x'" "FullPath y = FullPath x'"
      "ParentDcb y = ParentDcb x'"
    using assms(1,3) by (rule same_shapeD)
  obtain p where p: "N (ParentDcb x) = Some p" "is_directory p" "n \<in> set (ChildrenList p)"
    using assms(4) by (auto simp: child_ok_def)
  obtain q where q: "N' (ParentDcb x) = Some q" "NodeTypeCode p = NodeTypeCode q" "ChildrenList p = ChildrenList q"
    using same_shape_sym [OF assms(1)] p(1) by (rule same_shapeD)
  show ?thesis using assms(2,4) x' p q by (auto simp: child_ok_def is_directory_def)
qed

lemma parent_ok_shape:
  assumes "same_shape N N'" "N n = Some x" "N' n = Some y" "parent_ok root N n x"
  shows "parent_ok root N' n y"
  unfolding parent_ok_def
proof (intro conjI ballI)
  obtain x' where x': "N n = Some x'" "ChildrenList y = ChildrenList x'"
    using assms(1,3) by (rule same_shapeD)
  then have xx: "x' = x" using assms(2) by simp
  show "distinct (ChildrenList y)" using assms(4) x'(2) xx by (simp add: parent_ok_def)
  fix c assume "c \<in> set (ChildrenList y)"
  then have "c \<noteq> root \<and> (\<exists>z. N c = Some z \<and> ParentDcb z = n)"
    using assms(4) x'(2) xx by (simp add: parent_ok_def)
  then obtain z where z: "c \<noteq> root" "N c = Some z" "ParentDcb z = n" by blast
  obtain z' where "N' c = Some z'" "ParentDcb z = ParentDcb z'"
    using same_shape_sym [OF assms(1)] z(2) by (rule same_shapeD)
  with z show "c \<noteq> root" "\<exists>z. N' c = Some z \<and> ParentDcb z = n" by auto
qed

lemma tree_ok_shape:
  assumes "same_shape N N'" "tree_ok root N"
  shows "tree_ok root N'"
proof -
  obtain rank where "ranked root N rank" using assms(2) by (auto simp: tree_ok_def)
  then have "ranked root N' rank"
    unfolding ranked_def by (metis assms(1) same_shapeD)
  moreover obtain r where r: "N root = Some r" "NodeTypeCode r = ROOT_DCB_SIGNATURE"
    using assms(2) by (auto simp: tree_ok_def)
  obtain r' where "N' root = Some r'" "NodeTypeCode r = NodeTypeCode r'"
    using same_shape_sym [OF assms(1)] r(1) by (rule same_shapeD)
  moreover have "child_ok N' n y" if "N' n = Some y" "n \<noteq> root" for n y
  proof -
    obtain x where "N n = Some x" using assms(1) \<open>N' n = Some y\<close> by (rule same_shapeD)
    with assms that show ?thesis by (auto simp: tree_ok_def intro: child_ok_shape)
  qed
  moreover have "parent_ok root N' n y" if "N' n = Some y" for n y
  proof -
    obtain x where "N n = Some x" using assms(1) \<open>N' n = Some y\<close> by (rule same_shapeD)
    with assms that show ?thesis by (auto simp: tree_ok_def intro: parent_ok_shape)
  qed
  ultimately show ?thesis
    using assms(2) r same_shape_dom [OF assms(1)] same_shape_None [OF assms(1)] unfolding tree_ok_def by metis
qed

lemma child_bucket_shape:
  "FullPath x = FullPath y \<Longrightarrow> ParentDcb x = ParentDcb y \<Longrightarrow> child_bucket nls x = child_bucket nls y"
  by (simp add: child_bucket_def)

lemma index_ok_shape:
  assumes "same_shape N N'" "index_ok nls root N C"
  shows "index_ok nls root N' C"
proof -
  have "(\<exists>y. N' n = Some y \<and> child_bucket nls y = b) \<longleftrightarrow> (\<exists>x. N n = Some x \<and> child_bucket nls x = b)" for n b
    using assms(1) same_shape_sym [OF assms(1)] by (metis child_bucket_shape same_shapeD)
  with assms(2) show ?thesis by (simp add: index_ok_def)
qed

lemma ledger_ok_shape:
  assumes "same_shape N N'" "ledger_ok N l"
  shows "ledger_ok N' l"
proof -
  have "(\<exists>y. N' n = Some y \<and> P (NodeTypeCode y)) \<longleftrightarrow> (\<exists>x. N n = Some x \<and> P (NodeTypeCode x))" for n P
    using assms(1) same_shape_sym [OF assms(1)] by (metis same_shapeD)
  from this [of _ "\<lambda>k. k = FCB_SIGNATURE"] this [of _ "\<lambda>k. k = DCB_SIGNATURE \<or> k = ROOT_DCB_SIGNATURE"]
  show ?thesis using assms(2) same_shape_dom [OF assms(1)] by (simp add: ledger_ok_def is_directory_def)
qed

lemmas shape_rules = tree_ok_shape index_ok_shape ledger_ok_shape

end
