(* ===== verification/Node_Steps.thy ===== *)
theory Node_Steps
  imports Node_Inv
begin

text \<open>
  The events that leave the tree as it is keep the invariant: the warm path, the closes, the
  idle tests, the claims, the worker's queueing and the cold open's counting.
\<close>

section \<open>Frames\<close>

definition same_flags :: "COMMON_CONTEXT \<Rightarrow> COMMON_CONTEXT \<Rightarrow> bool" where
  "same_flags x y \<longleftrightarrow> shape y = shape x \<and> TableLinked y = TableLinked x \<and>
     TableBucketIndex y = TableBucketIndex x \<and> OnReapList y = OnReapList x"

lemma same_flags_shape: "N n = Some x \<Longrightarrow> same_flags x y \<Longrightarrow> same_shape N (N(n \<mapsto> y))"
  by (rule same_shape_upd) (simp_all add: same_flags_def)

lemma same_flagsD:
  assumes "same_flags x y"
  shows "ChildrenList y = ChildrenList x" "NodeTypeCode y = NodeTypeCode x" "TableLinked y = TableLinked x"
    "TableBucketIndex y = TableBucketIndex x" "OnReapList y = OnReapList x" "FullPath y = FullPath x"
  using assms by (simp_all add: same_flags_def shape_def)

lemma table_ok_flags:
  assumes "table_ok root N T" "N n = Some x" "same_flags x y"
  shows "table_ok root (N(n \<mapsto> y)) T"
  using assms(1,2) same_flagsD [OF assms(3)] by (auto simp: table_ok_def)

lemma claimed_flags:
  assumes "N n = Some x" "same_flags x y"
  shows "claimed (N(n \<mapsto> y)) k = claimed N k"
  using assms(1) same_flagsD [OF assms(2)] by (simp add: claimed_def)

lemma quiet_flags:
  assumes "quiet root N A k" "N n = Some x" "same_flags x y" "k \<noteq> n"
    "\<And>a. a \<in># A' \<Longrightarrow> a \<in># A \<or> node_of a = Some n"
  shows "quiet root (N(n \<mapsto> y)) A' k"
  using assms(1,2,4) assms(5) by (fastforce simp: quiet_def)

lemma directory_at_flags:
  assumes "N n = Some x" "same_flags x y"
  shows "directory_at (N(n \<mapsto> y)) k = directory_at N k"
  using assms(1) same_flagsD [OF assms(2)] by (auto simp: directory_at_def is_directory_def)

lemma vcb_ok_frame:
  assumes ok: "vcb_ok root N A V" and n: "N n = Some x" "same_flags x y" "\<not> quiet root N A n"
    and A': "\<And>a. a \<in># A' \<Longrightarrow> a \<in># A \<or> node_of a = Some n"
  shows "vcb_ok root (N(n \<mapsto> y)) A' V"
proof -
  have q: "quiet root (N(n \<mapsto> y)) A' k" if "quiet root N A k" for k
  proof (rule quiet_flags [OF that n(1,2) _ A'])
    show "k \<noteq> n" using that n(3) by auto
  qed
  then show ?thesis
    using ok by (cases V)
      (auto simp: claimed_flags [of N n x y, OF n(1,2)] directory_at_flags [of N n x y, OF n(1,2)] resident_def)
qed

section \<open>Events on the counts of one node\<close>

lemma count_event:
  assumes inv: "Inv nls m" and n: "Nodes (Mem m) n = Some x" "same_flags x y"
    and counts: "RefCount y = int (refs A' V' n)" "PinCount y = int (pins A' n)"
      "\<And>k. k \<noteq> n \<Longrightarrow> refs A' V' k = refs (Agents m) (Vcb m) k \<and> pins A' k = pins (Agents m) k"
    and agents: "\<And>a. a \<in># A' \<Longrightarrow> a \<in># Agents m \<or> node_of a = Some n \<and> (n = Root m \<longrightarrow> a = Handle n)"
    and pushing: "\<And>k. count A' (Pushing k) = count (Agents m) (Pushing k)"
    and vcb: "vcb_claims V' = vcb_claims (Vcb m)" "worker_owns V' = worker_owns (Vcb m)"
      "vcb_ok (Root m) ((Nodes (Mem m))(n \<mapsto> y)) A' V'"
    and tests: "\<And>k. k \<noteq> n \<Longrightarrow> tested (Agents m) k \<Longrightarrow> tested A' k"
      "\<And>k. k \<noteq> n \<Longrightarrow> attends (Vcb m) k \<Longrightarrow> attends V' k"
      "n \<noteq> Root m \<Longrightarrow> idle y \<Longrightarrow> OnReapList x \<or> tested A' n \<or> attends V' n"
    and kick: "Kicking \<in># Agents m \<Longrightarrow> Kicking \<in># A'"
  shows "Inv nls (m\<lparr>Mem := (Mem m)\<lparr>Nodes := (Nodes (Mem m))(n \<mapsto> y)\<rparr>, Agents := A', Vcb := V'\<rparr>)"
proof (rule InvI [where N = "(Nodes (Mem m))(n \<mapsto> y)" and A = A' and V = V'])
  let ?N = "Nodes (Mem m)" and ?N' = "(Nodes (Mem m))(n \<mapsto> y)"
  note I = InvD [OF inv] and shape = same_flags_shape [of "Nodes (Mem m)" n x y, OF n]
  show "tree_ok (Root m) ?N'" "index_ok nls (Root m) ?N' (NodeChildren (Mem m))" "ledger_ok ?N' (Ledger (Mem m))"
    using I by (auto intro: shape_rules [OF shape])
  show "table_ok (Root m) ?N' (NodeTable (Mem m))" by (rule table_ok_flags [of _ "Nodes (Mem m)" _ n x y, OF I(3) n])
  show "counts_ok ?N' A' V'" using I(4) counts by (auto simp: counts_ok_def)
  show "agents_ok (Root m) ?N' A'"
    unfolding agents_ok_def
  proof (intro allI impI)
    fix a k assume a: "a \<in># A'" "node_of a = Some k"
    from agents [OF a(1)] show "?N' k \<noteq> None \<and> (k = Root m \<longrightarrow> a = Handle k)"
      using I(5) a(2) unfolding agents_ok_def by auto
  qed
  show "claims_ok (Root m) ?N' (ReapList (Mem m)) (Worker m) V' A'"
    using I(6) pushing vcb(1) by (simp add: claims_ok_def claim_count_def claimed_flags [of "Nodes (Mem m)" n x y, OF n])
  show "vcb_ok (Root m) ?N' A' V'" by (rule vcb(3))
  show "worker_ok (Queued (Mem m)) (WorkItem (Mem m)) (Worker m) V'"
    using I(8) vcb(2) by (simp add: worker_ok_def)
  show "strand_ok (Root m) ?N' A' V'"
    using I(9) tests same_flagsD(5) [OF n(2)] by (auto simp: strand_ok_def)
  show "kick_ok (ReapList (Mem m)) (Queued (Mem m)) (ShuttingDown (Mem m)) A'"
    using I(10) kick by (auto simp: kick_ok_def)
qed simp_all

lemma count_unchanged_event:
  assumes inv: "Inv nls m" and n: "Nodes (Mem m) n = Some x"
    and counts: "\<And>k. refs A' V' k = refs (Agents m) (Vcb m) k \<and> pins A' k = pins (Agents m) k"
    and agents: "\<And>a. a \<in># A' \<Longrightarrow> a \<in># Agents m \<or> node_of a = Some n \<and> (n = Root m \<longrightarrow> a = Handle n)"
    and pushing: "\<And>k. count A' (Pushing k) = count (Agents m) (Pushing k)"
    and vcb: "vcb_claims V' = vcb_claims (Vcb m)" "worker_owns V' = worker_owns (Vcb m)"
      "vcb_ok (Root m) (Nodes (Mem m)) A' V'"
    and tests: "\<And>k. k \<noteq> n \<Longrightarrow> tested (Agents m) k \<Longrightarrow> tested A' k"
      "\<And>k. k \<noteq> n \<Longrightarrow> attends (Vcb m) k \<Longrightarrow> attends V' k"
      "n \<noteq> Root m \<Longrightarrow> idle x \<Longrightarrow> OnReapList x \<or> tested A' n \<or> attends V' n"
    and kick: "Kicking \<in># Agents m \<Longrightarrow> Kicking \<in># A'"
  shows "Inv nls (m\<lparr>Agents := A', Vcb := V'\<rparr>)"
proof -
  have upd: "(Nodes (Mem m))(n \<mapsto> x) = Nodes (Mem m)" using n by (simp add: fun_upd_idem)
  have "Inv nls (m\<lparr>Mem := (Mem m)\<lparr>Nodes := (Nodes (Mem m))(n \<mapsto> x)\<rparr>, Agents := A', Vcb := V'\<rparr>)"
  proof (rule count_event [OF inv n])
    show "same_flags x x" by (simp add: same_flags_def)
    show "RefCount x = int (refs A' V' n)" "PinCount x = int (pins A' n)"
      using InvD(4) [OF inv] n counts by (simp_all add: counts_ok_def)
  qed (use counts agents pushing vcb tests kick upd in simp_all)
  then show ?thesis using upd by simp
qed

section \<open>Reading the invariant\<close>

lemma agent_node:
  assumes "Inv nls m" "a \<in># Agents m" "node_of a = Some n"
  obtains x where "Nodes (Mem m) n = Some x" "RefCount x = int (refs (Agents m) (Vcb m) n)"
    "PinCount x = int (pins (Agents m) n)" "n = Root m \<Longrightarrow> a = Handle n" "\<not> quiet (Root m) (Nodes (Mem m)) (Agents m) n"
proof -
  obtain x where "Nodes (Mem m) n = Some x"
    using InvD(5) [OF assms(1)] assms(2,3) unfolding agents_ok_def by blast
  then show thesis
    using InvD(4,5) [OF assms(1)] assms(2,3)
    by (intro that) (auto simp: counts_ok_def agents_ok_def quiet_def)
qed

lemma root_node:
  assumes "Inv nls m"
  obtains x where "Nodes (Mem m) (Root m) = Some x" "NodeTypeCode x = ROOT_DCB_SIGNATURE"
    "RefCount x = int (refs (Agents m) (Vcb m) (Root m))" "PinCount x = int (pins (Agents m) (Root m))"
  using InvD(1,4) [OF assms] by (auto simp: tree_ok_def counts_ok_def)


lemma tested_become:
  assumes "tested A k" "node_of a = Some n" "k \<noteq> n"
  shows "tested (A - {#a#} + B) k"
  using assms by (cases a) (auto simp: tested_def count_greater_zero_iff [symmetric] simp del: count_greater_zero_iff)

lemma kicking_become: "Kicking \<in># A \<Longrightarrow> node_of a = Some n \<Longrightarrow> Kicking \<in># A - {#a#} + B"
  by (cases a) (auto simp: count_greater_zero_iff [symmetric] simp del: count_greater_zero_iff)

lemma count_become_other:
  assumes "node_of a = Some n" "\<And>b. b \<in># B \<Longrightarrow> node_of b = Some n" "node_of c = Some k" "k \<noteq> n"
  shows "count (A - {#a#} + B) c = count A c"
proof -
  have "c \<noteq> a" "c \<notin># B" using assms by auto
  then show ?thesis by (simp add: not_in_iff)
qed

section \<open>The warm path and the closes\<close>

text \<open>
  An agent that holds a node does something to its counts and becomes other agents on the same
  node.
\<close>

lemma agent_event:
  assumes inv: "Inv nls m" and a: "a \<in># Agents m" "node_of a = Some n" "a \<noteq> Pushing n"
    and B: "\<And>b. b \<in># B \<Longrightarrow> node_of b = Some n \<and> b \<noteq> Pushing n \<and> (n = Root m \<longrightarrow> b = Handle n)"
    and x: "Nodes (Mem m) n = Some x" "same_flags x y"
      "RefCount y = int (refs (Agents m - {#a#} + B) (Vcb m) n)" "PinCount y = int (pins (Agents m - {#a#} + B) n)"
    and idle: "idle y \<Longrightarrow> n \<noteq> Root m \<Longrightarrow> OnReapList x \<or> tested (Agents m - {#a#} + B) n \<or> attends (Vcb m) n"
  shows "Inv nls (m\<lparr>Mem := (Mem m)\<lparr>Nodes := (Nodes (Mem m))(n \<mapsto> y)\<rparr>, Agents := Agents m - {#a#} + B\<rparr>)"
proof -
  let ?A = "Agents m - {#a#} + B"
  have notq: "\<not> quiet (Root m) (Nodes (Mem m)) (Agents m) n" using a by (auto simp: quiet_def)
  have "Inv nls (m\<lparr>Mem := (Mem m)\<lparr>Nodes := (Nodes (Mem m))(n \<mapsto> y)\<rparr>, Agents := ?A, Vcb := Vcb m\<rparr>)"
  proof (rule count_event [OF inv x])
    show "refs ?A (Vcb m) k = refs (Agents m) (Vcb m) k \<and> pins ?A k = pins (Agents m) k" if "k \<noteq> n" for k
      unfolding refs_def pins_def using count_become_other [OF a(2)] B that by simp
    show "count ?A (Pushing k) = count (Agents m) (Pushing k)" for k
    proof (cases "k = n")
      case True
      with B a(3) show ?thesis by (auto simp: not_in_iff [symmetric])
    next
      case False
      show ?thesis by (rule count_become_other [OF a(2)]) (use B False in auto)
    qed
    show "vcb_ok (Root m) ((Nodes (Mem m))(n \<mapsto> y)) ?A (Vcb m)"
      by (rule vcb_ok_frame [OF InvD(7) [OF inv] x(1,2) notq]) (use B in \<open>auto dest: in_diffD\<close>)
    show "tested ?A k" if "k \<noteq> n" "tested (Agents m) k" for k
      by (rule tested_become [OF that(2) a(2) that(1)])
    show "Kicking \<in># ?A" if "Kicking \<in># Agents m" using that a(2) by (rule kicking_become)
  qed (use B idle in \<open>auto dest: in_diffD\<close>)
  then show ?thesis by simp
qed

lemma agent_step:
  assumes inv: "Inv nls m" and a: "a \<in># Agents m" "node_of a = Some n" "a \<noteq> Pushing n"
    and e: "run (with_node n f (Mem m)) (become a B) m = Some m'"
    and B: "\<And>b. b \<in># B \<Longrightarrow> node_of b = Some n \<and> b \<noteq> Pushing n \<and> (n = Root m \<longrightarrow> b = Handle n)"
    and f: "\<And>x. same_flags x (f x)"
      "\<And>x. RefCount x = int (refs (Agents m) (Vcb m) n) \<Longrightarrow> PinCount x = int (pins (Agents m) n) \<Longrightarrow>
         RefCount (f x) = int (refs (Agents m - {#a#} + B) (Vcb m) n) \<and>
         PinCount (f x) = int (pins (Agents m - {#a#} + B) n) \<and>
         (idle (f x) \<longrightarrow> n \<noteq> Root m \<longrightarrow> OnReapList x \<or> tested (Agents m - {#a#} + B) n \<or> attends (Vcb m) n)"
  shows "Inv nls m'"
proof -
  obtain x where x: "Nodes (Mem m) n = Some x" "RefCount x = int (refs (Agents m) (Vcb m) n)"
      "PinCount x = int (pins (Agents m) n)"
    using agent_node [OF inv a(1,2)] by metis
  have "m' = m\<lparr>Mem := (Mem m)\<lparr>Nodes := (Nodes (Mem m))(n \<mapsto> f x)\<rparr>, Agents := Agents m - {#a#} + B\<rparr>"
    using e x(1) by (auto simp: with_node_def run_def become_def)
  with agent_event [OF inv a B x(1) f(1)] f(2) [OF x(2,3)] show ?thesis by simp
qed

lemmas count_simps = refs_def pins_def

lemma not_root: "Inv nls m \<Longrightarrow> a \<in># Agents m \<Longrightarrow> node_of a = Some n \<Longrightarrow> a \<noteq> Handle n \<Longrightarrow> n \<noteq> Root m"
  using InvD(5) unfolding agents_ok_def by blast

lemma warm_Inv:
  assumes inv: "Inv nls m" and en: "enabled e m" and ex: "exec nls dissect e m = Some m'"
    and e: "e \<in> {OpenBegin n, OpenFail n, Unpin n, Close n, RootClose}"
  shows "Inv nls m'"
proof -
  have fl: "same_flags x (x\<lparr>RefCount := r\<rparr>)" "same_flags x (x\<lparr>PinCount := r\<rparr>)" for x r
    by (simp_all add: same_flags_def shape_def)
  note nr = not_root [OF inv]
  consider "e = OpenBegin n" | "e = OpenFail n" | "e = Unpin n" | "e = Close n" | "e = RootClose" using e by blast
  then show ?thesis
  proof cases
    case 1
    have a: "Pinned n \<in># Agents m" using en 1 by simp
    obtain A0 where A0: "Agents m = add_mset (Pinned n) A0" using a by (rule mset_add)
    show ?thesis
      by (rule agent_step [OF inv a _ _ ex [unfolded 1 exec.simps take_ref_def]])
        (use a nr [OF a] fl in \<open>auto simp: A0 count_simps idle_def\<close>)
  next
    case 2
    have a: "PinnedOpening n \<in># Agents m" using en 2 by simp
    obtain A0 where A0: "Agents m = add_mset (PinnedOpening n) A0" using a by (rule mset_add)
    show ?thesis
      by (rule agent_step [OF inv a _ _ ex [unfolded 2 exec.simps drop_ref_def]])
        (use a nr [OF a] fl in \<open>auto simp: A0 count_simps idle_def\<close>)
  next
    case 3
    have a: "Pinned n \<in># Agents m" using en 3 by simp
    obtain A0 where A0: "Agents m = add_mset (Pinned n) A0" using a by (rule mset_add)
    show ?thesis
      by (rule agent_step [OF inv a _ _ ex [unfolded 3 exec.simps drop_pin_def]])
        (use a nr [OF a] fl in \<open>auto simp: A0 count_simps tested_def\<close>)
  next
    case 4
    have a: "Handle n \<in># Agents m" "n \<noteq> Root m" using en 4 by simp_all
    obtain A0 where A0: "Agents m = add_mset (Handle n) A0" using a(1) by (rule mset_add)
    show ?thesis
      by (rule agent_step [OF inv a(1) _ _ ex [unfolded 4 exec.simps drop_ref_def]])
        (use a fl in \<open>auto simp: A0 count_simps tested_def\<close>)
  next
    case 5
    have a: "Handle (Root m) \<in># Agents m" using en 5 by simp
    obtain A0 where A0: "Agents m = add_mset (Handle (Root m)) A0" using a by (rule mset_add)
    show ?thesis
      by (rule agent_step [OF inv a _ _ ex [unfolded 5 exec.simps drop_ref_def]])
        (use a fl in \<open>auto simp: A0 count_simps\<close>)
  qed
qed

lemma agent_only_event:
  assumes inv: "Inv nls m" and a: "a \<in># Agents m" "node_of a = Some n" "a \<noteq> Pushing n"
    and B: "\<And>b. b \<in># B \<Longrightarrow> node_of b = Some n \<and> b \<noteq> Pushing n \<and> (n = Root m \<longrightarrow> b = Handle n)"
    and x: "Nodes (Mem m) n = Some x" "refs (Agents m - {#a#} + B) (Vcb m) n = refs (Agents m) (Vcb m) n"
      "pins (Agents m - {#a#} + B) n = pins (Agents m) n"
    and idle: "idle x \<Longrightarrow> n \<noteq> Root m \<Longrightarrow> OnReapList x \<or> tested (Agents m - {#a#} + B) n \<or> attends (Vcb m) n"
  shows "Inv nls (become a B m)"
proof -
  have upd: "(Nodes (Mem m))(n \<mapsto> x) = Nodes (Mem m)" using x(1) by (simp add: fun_upd_idem)
  have "Inv nls (m\<lparr>Mem := (Mem m)\<lparr>Nodes := (Nodes (Mem m))(n \<mapsto> x)\<rparr>, Agents := Agents m - {#a#} + B\<rparr>)"
    by (rule agent_event [OF inv a B x(1)])
      (use InvD(4) [OF inv] x idle in \<open>auto simp: counts_ok_def same_flags_def\<close>)
  then show ?thesis by (simp add: upd become_def)
qed

lemma test_Inv:
  assumes inv: "Inv nls m" and en: "enabled e m" and ex: "exec nls dissect e m = Some m'"
    and e: "e \<in> {OpenDone n, ReadRef n, ReadPin n}"
  shows "Inv nls m'"
proof -
  note nr = not_root [OF inv]
  consider "e = OpenDone n" | "e = ReadRef n" | "e = ReadPin n" using e by blast
  then show ?thesis
  proof cases
    case 1
    have a: "PinnedOpening n \<in># Agents m" using en 1 by simp
    obtain A0 where A0: "Agents m = add_mset (PinnedOpening n) A0" using a by (rule mset_add)
    obtain x where x: "Nodes (Mem m) n = Some x" "PinCount x = int (pins (Agents m) n)" using agent_node [OF inv a] by auto
    have "m' = become (PinnedOpening n) {#Pinned n, Handle n#} m" using ex 1 by simp
    moreover have "\<not> idle x" using x by (auto simp: A0 idle_def pins_def)
    ultimately show ?thesis
      by (auto intro!: agent_only_event [OF inv a _ _ _ x(1)] simp: A0 count_simps nr [OF a] a)
  next
    case 2
    have a: "TestRef n \<in># Agents m" using en 2 by simp
    obtain A0 where A0: "Agents m = add_mset (TestRef n) A0" using a by (rule mset_add)
    obtain x where x: "Nodes (Mem m) n = Some x" using agent_node [OF inv a] by auto
    have m': "m' = become (TestRef n) (if RefCount x = 0 then {#TestPin n#} else {#}) m" using ex 2 x by simp
    show ?thesis
      unfolding m'
      by (rule agent_only_event [OF inv a _ _ _ x]) (auto simp: A0 count_simps nr [OF a] tested_def idle_def split: if_splits)
  next
    case 3
    have a: "TestPin n \<in># Agents m" using en 3 by simp
    obtain A0 where A0: "Agents m = add_mset (TestPin n) A0" using a by (rule mset_add)
    obtain x where x: "Nodes (Mem m) n = Some x" using agent_node [OF inv a] by auto
    have m': "m' = become (TestPin n) (if PinCount x = 0 then {#Claiming n#} else {#}) m" using ex 3 x by simp
    show ?thesis
      unfolding m'
      by (rule agent_only_event [OF inv a _ _ _ x]) (auto simp: A0 count_simps nr [OF a] tested_def idle_def split: if_splits)
  qed
qed

section \<open>Lookups and opens of the root\<close>

lemma table_find_SomeD:
  "table_find nls s path ns = Some n \<Longrightarrow> n \<noteq> 0 \<Longrightarrow>
    n \<in> set ns \<and> (\<exists>x. Nodes s n = Some x \<and> RtlEqualUnicodeString nls (FullPath x) path)"
  by (induction ns) (auto split: option.splits if_splits)

lemma table_find_live: "live s ns \<Longrightarrow> table_find nls s path ns \<noteq> None"
  by (induction ns) (auto simp: live_def)

lemma table_member:
  assumes "table_ok root N T" "n \<in> set (T b)"
  obtains x where "N n = Some x" "TableLinked x" "n \<noteq> root" "TableBucketIndex x = b"
  using assms by (auto simp: table_ok_def)

lemma refs_add [simp]:
  "refs (add_mset (Pinned n) A) V k = refs A V k"
  "refs (add_mset (Handle n) A) V k = refs A V k + (if n = k then 1 else 0)"
  "refs (add_mset (TestRef n) A) V k = refs A V k"
  "pins (add_mset (Pinned n) A) k = pins A k + (if n = k then 1 else 0)"
  "pins (add_mset (Handle n) A) k = pins A k"
  "pins (add_mset (TestRef n) A) k = pins A k"
  by (auto simp: refs_def pins_def)

lemma tested_add [simp]:
  "tested (add_mset (Pinned n) A) k = tested A k"
  "tested (add_mset (Handle n) A) k = tested A k"
  "tested (add_mset (TestRef n) A) k \<longleftrightarrow> n = k \<or> tested A k"
  by (auto simp: tested_def)

lemma Lookup_Inv:
  assumes inv: "Inv nls m" and ex: "exec nls dissect (Lookup path) m = Some m'"
  shows "Inv nls m'"
proof -
  obtain n where n: "table_find nls (Mem m) path (NodeTable (Mem m) (NodeTableBucketIndexFor nls path)) = Some n"
    using ex by (auto simp: BlorgNodeTableLookupPin_def split: bind_splits)
  show ?thesis
  proof (cases "n = 0")
    case True
    then show ?thesis using ex n inv by (simp add: BlorgNodeTableLookupPin_def)
  next
    case False
    note mem = table_find_SomeD [OF n False, THEN conjunct1]
    obtain x where x: "Nodes (Mem m) n = Some x" "TableLinked x" "n \<noteq> Root m"
      using table_member [OF InvD(3) [OF inv] mem] by metis
    let ?y = "x\<lparr>PinCount := PinCount x + 1\<rparr>"
    have fl: "same_flags x ?y" by (simp add: same_flags_def shape_def)
    have nq: "\<not> quiet (Root m) (Nodes (Mem m)) (Agents m) n" using x by (simp add: quiet_def)
    have m': "m' = m\<lparr>Mem := (Mem m)\<lparr>Nodes := (Nodes (Mem m))(n \<mapsto> ?y)\<rparr>,
        Agents := add_mset (Pinned n) (Agents m), Vcb := Vcb m\<rparr>"
      using ex n False x(1) by (auto simp: BlorgNodeTableLookupPin_def with_node_def)
    show ?thesis
      unfolding m'
    proof (rule count_event [OF inv x(1) fl])
      show "vcb_ok (Root m) ((Nodes (Mem m))(n \<mapsto> ?y)) (add_mset (Pinned n) (Agents m)) (Vcb m)"
        by (rule vcb_ok_frame [OF InvD(7) [OF inv] x(1) fl nq]) auto
    qed (use InvD(4) [OF inv] x in \<open>auto simp: counts_ok_def idle_def\<close>)
  qed
qed

lemma RootOpen_Inv:
  assumes inv: "Inv nls m" and ex: "exec nls dissect RootOpen m = Some m'"
  shows "Inv nls m'"
proof -
  obtain x where x: "Nodes (Mem m) (Root m) = Some x" "RefCount x = int (refs (Agents m) (Vcb m) (Root m))"
      "PinCount x = int (pins (Agents m) (Root m))"
    using root_node [OF inv] by metis
  let ?y = "x\<lparr>RefCount := RefCount x + 1\<rparr>"
  have fl: "same_flags x ?y" by (simp add: same_flags_def shape_def)
  have nq: "\<not> quiet (Root m) (Nodes (Mem m)) (Agents m) (Root m)" by (simp add: quiet_def)
  have m': "m' = m\<lparr>Mem := (Mem m)\<lparr>Nodes := (Nodes (Mem m))(Root m \<mapsto> ?y)\<rparr>,
      Agents := add_mset (Handle (Root m)) (Agents m), Vcb := Vcb m\<rparr>"
    using ex x(1) by (auto simp: take_ref_def with_node_def run_def)
  show ?thesis
    unfolding m'
  proof (rule count_event [OF inv x(1) fl])
    show "vcb_ok (Root m) ((Nodes (Mem m))(Root m \<mapsto> ?y)) (add_mset (Handle (Root m)) (Agents m)) (Vcb m)"
      by (rule vcb_ok_frame [OF InvD(7) [OF inv] x(1) fl nq]) auto
  qed (use x in auto)
qed

section \<open>The cold open's counts\<close>

lemma quiet_counts:
  assumes "quiet root N A n"
  shows "refs A V n = opening_count V n" "pins A n = 0"
proof -
  have "Handle n \<notin># A" "Pinned n \<notin># A" "PinnedOpening n \<notin># A" using assms by (auto simp: quiet_def)
  then show "refs A V n = opening_count V n" "pins A n = 0" by (simp_all add: refs_def pins_def not_in_iff)
qed

lemma refs_vcb: "opening_count V' n = opening_count V n \<Longrightarrow> refs A V' n = refs A V n"
  by (simp add: refs_def)

lemma vcb_only_event:
  assumes inv: "Inv nls m" and n: "Nodes (Mem m) n = Some x"
    and V: "opening_count V' = opening_count (Vcb m)" "vcb_claims V' = vcb_claims (Vcb m)"
      "worker_owns V' = worker_owns (Vcb m)" "vcb_ok (Root m) (Nodes (Mem m)) (Agents m) V'"
      "\<And>k. k \<noteq> n \<Longrightarrow> attends (Vcb m) k \<Longrightarrow> attends V' k"
      "n \<noteq> Root m \<Longrightarrow> idle x \<Longrightarrow> OnReapList x \<or> tested (Agents m) n \<or> attends V' n"
  shows "Inv nls (m\<lparr>Vcb := V'\<rparr>)"
proof -
  have "Inv nls (m\<lparr>Agents := Agents m, Vcb := V'\<rparr>)"
    by (rule count_unchanged_event [OF inv n]) (use V in \<open>auto simp: refs_def\<close>)
  then show ?thesis by simp
qed

lemma cold_node:
  assumes "Inv nls m" "resident (Root m) (Nodes (Mem m)) n \<or> quiet (Root m) (Nodes (Mem m)) (Agents m) n"
  obtains x where "Nodes (Mem m) n = Some x" "n \<noteq> Root m" "RefCount x = int (refs (Agents m) (Vcb m) n)"
    "PinCount x = int (pins (Agents m) n)"
    "idle x \<Longrightarrow> OnReapList x \<or> tested (Agents m) n \<or> attends (Vcb m) n"
proof -
  obtain x where x: "Nodes (Mem m) n = Some x" "n \<noteq> Root m"
    using assms(2) by (auto simp: resident_def quiet_def)
  with InvD(4,9) [OF assms(1)] show thesis by (intro that) (auto simp: counts_ok_def strand_ok_def)
qed

lemma resident_upd: "N n = Some x \<Longrightarrow> resident root (N(n \<mapsto> y)) k = resident root N k"
  by (auto simp: resident_def)

lemma quiet_upd:
  assumes "quiet root N A n" "N n = Some x" "same_flags x y"
  shows "quiet root (N(n \<mapsto> y)) A n"
  using assms same_flagsD [OF assms(3)] by (auto simp: quiet_def)

lemma cold_ref_event:
  assumes inv: "Inv nls m" and n: "Nodes (Mem m) n = Some x" "same_flags x y" "PinCount y = PinCount x"
    and cold: "vcb_claims (Vcb m) = []" "\<not> worker_owns (Vcb m)" "vcb_claims V' = []" "\<not> worker_owns V'"
      "\<And>k. k \<noteq> n \<Longrightarrow> \<not> attends (Vcb m) k"
    and V': "RefCount y = int (refs (Agents m) V' n)" "\<And>k. k \<noteq> n \<Longrightarrow> opening_count V' k = opening_count (Vcb m) k"
      "vcb_ok (Root m) ((Nodes (Mem m))(n \<mapsto> y)) (Agents m) V'"
      "n \<noteq> Root m \<Longrightarrow> idle y \<Longrightarrow> OnReapList x \<or> tested (Agents m) n \<or> attends V' n"
  shows "Inv nls (m\<lparr>Mem := (Mem m)\<lparr>Nodes := (Nodes (Mem m))(n \<mapsto> y)\<rparr>, Vcb := V'\<rparr>)"
proof -
  have "Inv nls (m\<lparr>Mem := (Mem m)\<lparr>Nodes := (Nodes (Mem m))(n \<mapsto> y)\<rparr>, Agents := Agents m, Vcb := V'\<rparr>)"
    by (rule count_event [OF inv n(1,2)])
      (use InvD(4) [OF inv] n cold V' in \<open>auto simp: counts_ok_def refs_def\<close>)
  then show ?thesis by simp
qed

lemma ColdBegin_Inv:
  assumes inv: "Inv nls m" and ex: "exec nls dissect ColdBegin m = Some m'"
  shows "Inv nls m'"
proof -
  obtain n f where V: "Vcb m = (if f then ColdFresh n else ColdFound n)"
    and m': "run (take_ref n (Mem m)) (Vcb_update (\<lambda>_. ColdOpening n f)) m = Some m'"
  proof (cases "Vcb m")
    case (ColdFound n)
    then show thesis using ex that [of False n] by simp
  next
    case (ColdFresh n)
    then show thesis using ex that [of True n] by simp
  qed (use ex in simp_all)
  have ok: "vcb_ok (Root m) (Nodes (Mem m)) (Agents m) (if f then ColdFresh n else ColdFound n)"
    using InvD(7) [OF inv] V by simp
  then have "resident (Root m) (Nodes (Mem m)) n \<or> quiet (Root m) (Nodes (Mem m)) (Agents m) n"
    by (auto split: if_splits)
  then obtain x where x: "Nodes (Mem m) n = Some x" "n \<noteq> Root m" "RefCount x = int (refs (Agents m) (Vcb m) n)"
    using cold_node [OF inv] by metis
  let ?y = "x\<lparr>RefCount := RefCount x + 1\<rparr>"
  have fl: "same_flags x ?y" by (simp add: same_flags_def shape_def)
  have m'': "m' = m\<lparr>Mem := (Mem m)\<lparr>Nodes := (Nodes (Mem m))(n \<mapsto> ?y)\<rparr>, Vcb := ColdOpening n f\<rparr>"
    using m' x(1) by (auto simp: run_def take_ref_def with_node_def)
  have "vcb_ok (Root m) ((Nodes (Mem m))(n \<mapsto> ?y)) (Agents m) (ColdOpening n f)"
    using ok x(1,2) quiet_upd [of _ "Nodes (Mem m)" _ n x, OF _ x(1) fl] claimed_flags [of "Nodes (Mem m)" n x ?y n, OF x(1) fl]
    by (auto simp: resident_def split: if_splits)
  with x show ?thesis
    unfolding m'' by (intro cold_ref_event [OF inv x(1) fl]) (auto simp: V refs_def idle_def split: if_splits)
qed

lemma ColdFail_Inv:
  assumes inv: "Inv nls m" and ex: "exec nls dissect ColdFail m = Some m'"
  shows "Inv nls m'"
proof -
  obtain n f where V: "Vcb m = ColdOpening n f"
    and m': "run (drop_ref n (Mem m)) (Vcb_update (\<lambda>_. if f then ColdDrop n else ColdFailed n)) m = Some m'"
    using ex by (cases "Vcb m") auto
  have ok: "resident (Root m) (Nodes (Mem m)) n"
      "f \<Longrightarrow> quiet (Root m) (Nodes (Mem m)) (Agents m) n \<and> claimed (Nodes (Mem m)) n = 0"
    using InvD(7) [OF inv] V by auto
  then obtain x where x: "Nodes (Mem m) n = Some x" "n \<noteq> Root m" "RefCount x = int (refs (Agents m) (Vcb m) n)"
    using cold_node [OF inv] by metis
  let ?y = "x\<lparr>RefCount := RefCount x - 1\<rparr>"
  have fl: "same_flags x ?y" by (simp add: same_flags_def shape_def)
  have m'': "m' = m\<lparr>Mem := (Mem m)\<lparr>Nodes := (Nodes (Mem m))(n \<mapsto> ?y)\<rparr>, Vcb := if f then ColdDrop n else ColdFailed n\<rparr>"
    using m' x(1) by (auto simp: run_def drop_ref_def with_node_def)
  have "vcb_ok (Root m) ((Nodes (Mem m))(n \<mapsto> ?y)) (Agents m) (if f then ColdDrop n else ColdFailed n)"
    using ok x(1,2) quiet_upd [of _ "Nodes (Mem m)" _ n x, OF _ x(1) fl] claimed_flags [of "Nodes (Mem m)" n x ?y n, OF x(1) fl]
    by (auto simp: resident_def)
  with x show ?thesis
    unfolding m'' by (intro cold_ref_event [OF inv x(1) fl]) (auto simp: V refs_def)
qed

lemma ColdDone_Inv:
  assumes inv: "Inv nls m" and ex: "exec nls dissect ColdDone m = Some m'"
  shows "Inv nls m'"
proof -
  obtain n f where V: "Vcb m = ColdOpening n f"
    and m': "m' = m\<lparr>Agents := add_mset (Handle n) (Agents m), Vcb := ColdOpened n\<rparr>"
    using ex by (cases "Vcb m") auto
  have ok: "resident (Root m) (Nodes (Mem m)) n" using InvD(7) [OF inv] V by simp
  then obtain x where x: "Nodes (Mem m) n = Some x" "n \<noteq> Root m" "RefCount x = int (refs (Agents m) (Vcb m) n)"
    using cold_node [OF inv] by metis
  show ?thesis
    unfolding m'
    by (rule count_unchanged_event [OF inv x(1)]) (use ok x V in \<open>auto simp: refs_def pins_def idle_def\<close>)
qed

lemma ColdDefer_Inv:
  assumes inv: "Inv nls m" and ex: "exec nls dissect ColdDefer m = Some m'"
  shows "Inv nls m'"
proof -
  obtain n where V: "Vcb m = ColdFailed n"
    and m': "m' = m\<lparr>Agents := add_mset (TestRef n) (Agents m), Vcb := VcbFree\<rparr>"
    using ex by (cases "Vcb m") auto
  have ok: "resident (Root m) (Nodes (Mem m)) n" using InvD(7) [OF inv] V by simp
  then obtain x where x: "Nodes (Mem m) n = Some x" "n \<noteq> Root m" using cold_node [OF inv] by metis
  show ?thesis
    unfolding m'
    by (rule count_unchanged_event [OF inv x(1)]) (use x V in \<open>auto simp: refs_def pins_def\<close>)
qed

lemma ColdReturn_Inv:
  assumes inv: "Inv nls m" and en: "enabled ColdReturn m" and ex: "exec nls dissect ColdReturn m = Some m'"
  shows "Inv nls m'"
proof -
  obtain n where V: "Vcb m = ColdFound n" using en by (auto split: vcb_phase.splits)
  have "resident (Root m) (Nodes (Mem m)) n" using InvD(7) [OF inv] V by simp
  then obtain x where x: "Nodes (Mem m) n = Some x" "idle x \<Longrightarrow> OnReapList x \<or> tested (Agents m) n \<or> attends (Vcb m) n"
    using cold_node [OF inv] by metis
  have "m' = m\<lparr>Vcb := VcbFree\<rparr>" using ex by simp
  then show ?thesis using x V by (auto intro!: vcb_only_event [OF inv x(1)])
qed

lemma ColdRefuse_Inv:
  assumes inv: "Inv nls m" and ex: "exec nls dissect ColdRefuse m = Some m'"
  shows "Inv nls m'"
proof -
  obtain n f where V: "Vcb m = (if f then ColdFresh n else ColdFound n)"
    and m': "m' = m\<lparr>Vcb := if f then ColdDrop n else ColdFailed n\<rparr>"
  proof (cases "Vcb m")
    case (ColdFound n)
    then show thesis using ex that [of False n] by simp
  next
    case (ColdFresh n)
    then show thesis using ex that [of True n] by simp
  qed (use ex in simp_all)
  have ok: "vcb_ok (Root m) (Nodes (Mem m)) (Agents m) (if f then ColdFresh n else ColdFound n)"
    using InvD(7) [OF inv] V by simp
  then have "resident (Root m) (Nodes (Mem m)) n \<or> quiet (Root m) (Nodes (Mem m)) (Agents m) n"
    by (auto split: if_splits)
  then obtain x where x: "Nodes (Mem m) n = Some x" using cold_node [OF inv] by metis
  show ?thesis
    unfolding m' using V ok by (intro vcb_only_event [OF inv x]) (auto split: if_splits)
qed

section \<open>What a node says of its file\<close>

lemma set_data_flags: "same_flags x (set_data d x)" "RefCount (set_data d x) = RefCount x" "PinCount (set_data d x) = PinCount x"
  by (simp_all add: same_flags_def shape_def set_data_def)

lemma vcb_ok_flags:
  assumes "vcb_ok root N A V" "N n = Some x" "same_flags x y"
  shows "vcb_ok root (N(n \<mapsto> y)) A V"
proof -
  have "quiet root (N(n \<mapsto> y)) A k = quiet root N A k" for k
    using assms(2) same_flagsD [OF assms(3)] by (auto simp: quiet_def)
  then show ?thesis
    using assms(1,2) by (cases V)
      (auto simp: claimed_flags [of N n x y, OF assms(2,3)] directory_at_flags [of N n x y, OF assms(2,3)] resident_def)
qed

lemma touch_node:
  assumes "Inv nls m" "may_touch m n"
  obtains x where "Nodes (Mem m) n = Some x"
proof -
  consider a where "a \<in># Agents m" "node_of a = Some n" | "resident (Root m) (Nodes (Mem m)) n \<or> quiet (Root m) (Nodes (Mem m)) (Agents m) n"
  proof -
    have "vcb_ok (Root m) (Nodes (Mem m)) (Agents m) (Vcb m)" by (rule InvD(7) [OF assms(1)])
    with assms(2) that(2) that(1) [of "Handle n"] that(1) [of "Pinned n"] that(1) [of "PinnedOpening n"] show thesis
      by (auto simp: may_touch_def split: vcb_phase.splits)
  qed
  then show thesis
  proof cases
    case (1 a) then show thesis using agent_node [OF assms(1)] that by metis
  next
    case 2 then show thesis using cold_node [OF assms(1)] that by metis
  qed
qed

lemma Touch_Inv:
  assumes inv: "Inv nls m" and en: "enabled (Touch n d) m" and ex: "exec nls dissect (Touch n d) m = Some m'"
  shows "Inv nls m'"
proof -
  note I = InvD [OF inv]
  obtain x where x: "Nodes (Mem m) n = Some x" using touch_node [OF inv] en by auto
  let ?y = "set_data d x"
  have m': "m' = m\<lparr>Mem := (Mem m)\<lparr>Nodes := (Nodes (Mem m))(n \<mapsto> ?y)\<rparr>, Agents := Agents m, Vcb := Vcb m\<rparr>"
    using ex x by (auto simp: run_def with_node_def)
  show ?thesis
    unfolding m'
  proof (rule count_event [OF inv x set_data_flags(1)])
    show "vcb_ok (Root m) ((Nodes (Mem m))(n \<mapsto> ?y)) (Agents m) (Vcb m)"
      by (rule vcb_ok_flags [OF I(7) x set_data_flags(1)])
    show "n \<noteq> Root m \<Longrightarrow> idle ?y \<Longrightarrow> OnReapList x \<or> tested (Agents m) n \<or> attends (Vcb m) n"
      using I(9) x by (auto simp: strand_ok_def idle_def set_data_def)
  qed (use I(4) x in \<open>auto simp: counts_ok_def set_data_flags\<close>)
qed

end
