(* ===== verification/Node_Claims.thy ===== *)
theory Node_Claims
  imports Node_Steps
begin

text \<open>
  The events of the reap list, the worker and the table keep the invariant: claims, pushes,
  kicks, the worker's decisions, retirement and publication.
\<close>

section \<open>Frames for the flags of one node\<close>

lemma counts_ok_upd:
  assumes "counts_ok N A V" "N n = Some x" "RefCount y = RefCount x" "PinCount y = PinCount x"
    "\<And>k. refs A' V' k = refs A V k" "\<And>k. pins A' k = pins A k"
  shows "counts_ok (N(n \<mapsto> y)) A' V'"
  using assms by (auto simp: counts_ok_def)

lemma agents_ok_upd: "agents_ok root N A \<Longrightarrow> N n = Some x \<Longrightarrow> agents_ok root (N(n \<mapsto> y)) A"
  unfolding agents_ok_def by (metis fun_upd_other fun_upd_same option.discI)

lemma agents_ok_sub: "agents_ok root N A \<Longrightarrow> (\<And>a. a \<in># A' \<Longrightarrow> a \<in># A) \<Longrightarrow> agents_ok root N A'"
  unfolding agents_ok_def by blast

lemma claimed_upd: "claimed (N(n \<mapsto> y)) k = (if k = n then if OnReapList y then 1 else 0 else claimed N k)"
  by (simp add: claimed_def)

lemma strand_okD:
  "strand_ok root N A V \<Longrightarrow> N n = Some x \<Longrightarrow> n \<noteq> root \<Longrightarrow> idle x \<Longrightarrow> OnReapList x \<or> tested A n \<or> attends V n"
  unfolding strand_ok_def by blast

lemma claimed_node:
  assumes "claims_ok root N L W V A" "0 < claim_count L W V A n"
  obtains x where "N n = Some x" "OnReapList x" "n \<noteq> root" "claim_count L W V A n = 1"
proof -
  have "claimed N n \<noteq> 0" "claimed N root = 0" "claim_count L W V A n = claimed N n"
    using assms by (auto simp: claims_ok_def)
  moreover from this have "n \<noteq> root" by auto
  ultimately show thesis using that by (auto simp: claimed_def split: option.splits if_splits)
qed

section \<open>Claims and pushes\<close>

lemma Claim_Inv:
  assumes inv: "Inv nls m" and a: "Claiming n \<in># Agents m" and ex: "exec nls dissect (Claim n) m = Some m'"
  shows "Inv nls m'"
proof -
  obtain x where x: "Nodes (Mem m) n = Some x" "n \<noteq> Root m"
    using agent_node [OF inv a] not_root [OF inv a] by auto
  obtain A0 where A0: "Agents m = add_mset (Claiming n) A0" using a by (rule mset_add)
  show ?thesis
  proof (cases "OnReapList x")
    case True
    then have "m' = become (Claiming n) {#} m" using ex x(1) by (simp add: claim_reap_def)
    with True x show ?thesis
      by (auto intro!: agent_only_event [OF inv a _ _ _ x(1)] simp: A0 count_simps)
  next
    case False
    let ?y = "x\<lparr>OnReapList := True\<rparr>" and ?A = "Agents m - {#Claiming n#} + {#Pushing n#}"
    let ?N = "(Nodes (Mem m))(n \<mapsto> ?y)"
    have nq: "\<not> quiet (Root m) (Nodes (Mem m)) (Agents m) n" using a by (force simp: quiet_def)
    have m': "m' = m\<lparr>Mem := (Mem m)\<lparr>Nodes := ?N\<rparr>, Agents := ?A\<rparr>"
      using ex x(1) False by (auto simp: claim_reap_def with_node_def become_def)
    have shape: "same_shape (Nodes (Mem m)) ?N"
      by (rule same_shape_upd [of _ _ x]) (simp_all add: x shape_def)
    note I = InvD [OF inv]
    show ?thesis
      unfolding m'
    proof (rule InvI [where N = ?N and A = ?A])
      show "tree_ok (Root m) ?N" "index_ok nls (Root m) ?N (NodeChildren (Mem m))" "ledger_ok ?N (Ledger (Mem m))"
        using I by (auto intro: shape_rules [OF shape])
      show "table_ok (Root m) ?N (NodeTable (Mem m))" using I(3) x by (auto simp: table_ok_def)
      show "counts_ok ?N ?A (Vcb m)"
        by (rule counts_ok_upd [of "Nodes (Mem m)" _ _ n x ?y, OF I(4) x(1)]) (auto simp: A0 count_simps)
      show "agents_ok (Root m) ?N ?A"
        using I(5) x by (auto simp: agents_ok_def A0)
      show "claims_ok (Root m) ?N (ReapList (Mem m)) (Worker m) (Vcb m) ?A"
        using I(6) x False by (auto simp: claims_ok_def claim_count_def claimed_def A0)
      have q: "quiet (Root m) ?N ?A k \<and> k \<noteq> n" if "quiet (Root m) (Nodes (Mem m)) (Agents m) k" for k
        using that nq by (cases "k = n") (auto simp: quiet_def A0)
      show "vcb_ok (Root m) ?N ?A (Vcb m)"
        using I(7) q x by (cases "Vcb m") (auto simp: claimed_upd resident_def directory_at_def is_directory_def)
      show "worker_ok (Queued (Mem m)) (WorkItem (Mem m)) (Worker m) (Vcb m)" by (rule I(8))
      have "tested ?A k" if "tested (Agents m) k" "k \<noteq> n" for k using that by (auto simp: tested_def A0)
      with I(9) show "strand_ok (Root m) ?N ?A (Vcb m)" by (auto simp: strand_ok_def idle_def)
      show "kick_ok (ReapList (Mem m)) (Queued (Mem m)) (ShuttingDown (Mem m)) ?A"
        using I(10) by (auto simp: kick_ok_def A0)
    qed simp_all
  qed
qed

text \<open>
  The events below change neither a node nor the tree; what they move is the reap list, the
  worker and the agents without a node.
\<close>

lemma frame_event:
  assumes inv: "Inv nls m" and same: "Nodes s = Nodes (Mem m)" "NodeChildren s = NodeChildren (Mem m)"
      "NodeTable s = NodeTable (Mem m)" "Ledger s = Ledger (Mem m)"
    and counts: "\<And>k. count A' (Handle k) = count (Agents m) (Handle k)" "\<And>k. count A' (PinnedOpening k) = count (Agents m) (PinnedOpening k)"
      "\<And>k. count A' (Pinned k) = count (Agents m) (Pinned k)" "\<And>k. opening_count V' k = opening_count (Vcb m) k"
    and agents: "\<And>a k. a \<in># A' \<Longrightarrow> node_of a = Some k \<Longrightarrow> a \<in># Agents m" "\<And>k. tested (Agents m) k \<Longrightarrow> tested A' k"
    and claims: "\<And>k. claim_count (ReapList s) W' V' A' k = claim_count (ReapList (Mem m)) (Worker m) (Vcb m) (Agents m) k"
    and vcb: "vcb_ok (Root m) (Nodes (Mem m)) (Agents m) V'" "\<And>k. attends (Vcb m) k \<Longrightarrow> attends V' k"
    and worker: "worker_ok (Queued s) (WorkItem s) W' V'" "kick_ok (ReapList s) (Queued s) (ShuttingDown s) A'"
  shows "Inv nls (m\<lparr>Mem := s, Agents := A', Vcb := V', Worker := W'\<rparr>)"
proof (rule InvI [where N = "Nodes (Mem m)" and A = A' and V = V' and W = W'])
  note I = InvD [OF inv]
  show "counts_ok (Nodes (Mem m)) A' V'" using I(4) counts by (simp add: counts_ok_def refs_def pins_def)
  show "agents_ok (Root m) (Nodes (Mem m)) A'" using I(5) agents(1) unfolding agents_ok_def by blast
  show "claims_ok (Root m) (Nodes (Mem m)) (ReapList s) W' V' A'" using I(6) claims by (simp add: claims_ok_def)
  have "quiet (Root m) (Nodes (Mem m)) A' k" if "quiet (Root m) (Nodes (Mem m)) (Agents m) k" for k
    using that agents(1) unfolding quiet_def by blast
  then show "vcb_ok (Root m) (Nodes (Mem m)) A' V'" using vcb(1) by (cases V') auto
  show "strand_ok (Root m) (Nodes (Mem m)) A' V'" using I(9) agents(2) vcb(2) unfolding strand_ok_def by blast
  show "worker_ok (Queued s) (WorkItem s) W' V'" by (rule worker(1))
  show "kick_ok (ReapList s) (Queued s) (ShuttingDown s) A'" by (rule worker(2))
qed (use same InvD [OF inv] in simp_all)

lemma Push_Inv:
  assumes inv: "Inv nls m" and a: "Pushing n \<in># Agents m" and ex: "exec nls dissect (Push n) m = Some m'"
  shows "Inv nls m'"
proof -
  obtain A0 where A0: "Agents m = add_mset (Pushing n) A0" using a by (rule mset_add)
  have m': "m' = m\<lparr>Mem := (Mem m)\<lparr>ReapList := n # ReapList (Mem m)\<rparr>, Agents := add_mset Kicking A0,
      Vcb := Vcb m, Worker := Worker m\<rparr>"
    using ex by (auto simp: push_reap_def run_def become_def A0 split: if_splits)
  show ?thesis
    unfolding m'
    by (rule frame_event [OF inv])
      (use InvD(7,8) [OF inv] in \<open>auto simp: A0 claim_count_def tested_def kick_ok_def\<close>)
qed

lemma Kick_Inv:
  assumes inv: "Inv nls m" and a: "Kicking \<in># Agents m" and ex: "exec nls dissect Kick m = Some m'"
  shows "Inv nls m'"
proof -
  obtain A0 where A0: "Agents m = add_mset Kicking A0" using a by (rule mset_add)
  note W = InvD(8) [OF inv]
  show ?thesis
  proof (cases "Queued (Mem m) \<or> ShuttingDown (Mem m)")
    case True
    then have m': "m' = m\<lparr>Mem := Mem m, Agents := A0, Vcb := Vcb m, Worker := Worker m\<rparr>"
      using ex by (auto simp: NodeReapKick_def become_def A0 split: if_splits)
    show ?thesis
      unfolding m' by (rule frame_event [OF inv])
        (use True W InvD(7) [OF inv] in \<open>auto simp: A0 claim_count_def tested_def kick_ok_def\<close>)
  next
    case False
    then have m': "m' = m\<lparr>Mem := (Mem m)\<lparr>Queued := True\<rparr>, Agents := A0, Vcb := Vcb m, Worker := WorkerQueued\<rparr>"
      using ex W by (auto simp: NodeReapKick_def become_def A0 worker_ok_def)
    show ?thesis
      unfolding m' by (rule frame_event [OF inv])
        (use False W InvD(7) [OF inv] in \<open>auto simp: A0 claim_count_def tested_def kick_ok_def worker_ok_def\<close>)
  qed
qed

lemma worker_Inv:
  assumes inv: "Inv nls m" and en: "enabled e m" and ex: "exec nls dissect e m = Some m'"
    and e: "e \<in> {WorkerTake, WorkerAcquire, WorkerRelease, WorkerTails, Latch}"
  shows "Inv nls m'"
proof -
  note W = InvD(8) [OF inv] and V = InvD(7) [OF inv] and K = InvD(10) [OF inv]
  consider "e = WorkerTake" | "e = WorkerAcquire" | "e = WorkerRelease" | "e = WorkerTails" | "e = Latch" using e by blast
  then show ?thesis
  proof cases
    case 1
    have w: "Worker m = WorkerQueued" using en 1 by simp
    have m': "m' = m\<lparr>Mem := (Mem m)\<lparr>ReapList := []\<rparr>, Agents := Agents m, Vcb := Vcb m,
        Worker := if ReapList (Mem m) = [] then WorkerTail else WorkerPopped (ReapList (Mem m))\<rparr>"
      using ex 1 by simp
    show ?thesis
      unfolding m' by (rule frame_event [OF inv])
        (use w W V in \<open>auto simp: claim_count_def kick_ok_def worker_ok_def\<close>)
  next
    case 2
    obtain batch where w: "Worker m = WorkerPopped batch" "Vcb m = VcbFree" using en 2 by (auto split: worker_phase.splits)
    have m': "m' = m\<lparr>Mem := Mem m, Agents := Agents m, Vcb := WorkerAt batch, Worker := WorkerRunning\<rparr>"
      using ex 2 w by simp
    show ?thesis
      unfolding m' by (rule frame_event [OF inv]) (use w W K in \<open>auto simp: claim_count_def worker_ok_def\<close>)
  next
    case 3
    have w: "Vcb m = WorkerAt []" using en 3 by simp
    have m': "m' = m\<lparr>Mem := Mem m, Agents := Agents m, Vcb := VcbFree, Worker := WorkerTail\<rparr>" using ex 3 by simp
    show ?thesis
      unfolding m' by (rule frame_event [OF inv]) (use w W K in \<open>auto simp: claim_count_def worker_ok_def\<close>)
  next
    case 4
    have w: "Worker m = WorkerTail" using en 4 by simp
    have m': "m' = m\<lparr>Mem := (Mem m)\<lparr>Queued := False\<rparr>,
        Agents := if ReapList (Mem m) \<noteq> [] then add_mset Kicking (Agents m) else Agents m, Vcb := Vcb m, Worker := WorkerIdle\<rparr>"
      using ex 4 by (auto simp: worker_tail_def)
    show ?thesis
      unfolding m' by (rule frame_event [OF inv])
        (use w W V in \<open>auto simp: claim_count_def kick_ok_def worker_ok_def tested_def split: if_splits\<close>)
  next
    case 5
    have m': "m' = m\<lparr>Mem := (Mem m)\<lparr>ShuttingDown := True\<rparr>, Agents := Agents m, Vcb := Vcb m, Worker := Worker m\<rparr>"
      using ex 5 by (auto simp: teardown_latch_def)
    show ?thesis
      unfolding m' by (rule frame_event [OF inv]) (use W V in \<open>auto simp: kick_ok_def\<close>)
  qed
qed

section \<open>Decisions under the bucket lock\<close>

lemma bucket_idle_no_test:
  assumes "bucket_idle m n" "a \<in># Agents m" "holds_bucket_of a = Some n"
  shows False
  using assms unfolding bucket_idle_def by force

text \<open>A node with no handle and no pin whose bucket nobody holds is in no agent's hands.\<close>

lemma unheld:
  assumes inv: "Inv nls m" and idle: "bucket_idle m n" and x: "Nodes (Mem m) n = Some x" "RefCount x = 0" "PinCount x = 0"
    and a: "a \<in># Agents m"
  shows "node_of a \<noteq> Some n"
proof
  assume an: "node_of a = Some n"
  have c: "refs (Agents m) (Vcb m) n = 0" "pins (Agents m) n = 0"
    using InvD(4) [OF inv] x by (auto simp: counts_ok_def)
  have "a \<noteq> Handle n" "a \<noteq> Pinned n" "a \<noteq> PinnedOpening n"
    using a c by (auto simp: refs_def pins_def simp flip: not_in_iff)
  then show False
    using an bucket_idle_no_test [OF idle a] by (cases a) auto
qed

lemma table_unlink_ok:
  assumes T: "table_ok root (Nodes s) (NodeTable s)" and x: "Nodes s n = Some x" "n \<noteq> root"
  obtains T' where "table_unlink n s = Some (s\<lparr>Nodes := (Nodes s)(n \<mapsto> x\<lparr>TableLinked := False\<rparr>), NodeTable := T'\<rparr>)"
    "table_ok root ((Nodes s)(n \<mapsto> x\<lparr>TableLinked := False\<rparr>)) T'"
proof (cases "TableLinked x")
  case False
  then have "x\<lparr>TableLinked := False\<rparr> = x" by simp
  moreover have "(Nodes s)(n \<mapsto> x) = Nodes s" using x(1) by (simp add: fun_upd_idem)
  ultimately have "s\<lparr>Nodes := (Nodes s)(n \<mapsto> x\<lparr>TableLinked := False\<rparr>), NodeTable := NodeTable s\<rparr> = s"
      "(Nodes s)(n \<mapsto> x\<lparr>TableLinked := False\<rparr>) = Nodes s" by simp_all
  with False T x show thesis by (intro that [of "NodeTable s"]) (simp_all only: table_unlink_def, simp_all)
next
  case True
  let ?b = "TableBucketIndex x"
  let ?T = "(NodeTable s)(?b := remove1 n (NodeTable s ?b))"
  have "n \<in> set (NodeTable s ?b)" "live s (NodeTable s ?b)"
    using T True x by (auto simp: table_ok_def live_def list_all_iff)
  moreover have "table_ok root ((Nodes s)(n \<mapsto> x\<lparr>TableLinked := False\<rparr>)) ?T"
    using T x by (auto simp: table_ok_def)
  ultimately show thesis
    using True x by (intro that [of ?T]) (simp_all add: table_unlink_def with_node_def Let_def)
qed

lemma childless:
  assumes inv: "Inv nls m" and x: "Nodes (Mem m) n = Some x" "n \<noteq> Root m" "NodeTypeCode x \<noteq> DCB_SIGNATURE"
  shows "ChildrenList x = []"
proof (rule ccontr)
  assume "ChildrenList x \<noteq> []"
  then obtain c where c: "c \<in> set (ChildrenList x)" by (cases "ChildrenList x") auto
  have T: "tree_ok (Root m) (Nodes (Mem m))" by (rule InvD(1) [OF inv])
  then have "parent_ok (Root m) (Nodes (Mem m)) n x" using x(1) by (simp add: tree_ok_def)
  then obtain y where y: "c \<noteq> Root m" "Nodes (Mem m) c = Some y" "ParentDcb y = n"
    using c by (auto simp: parent_ok_def)
  then have "child_ok (Nodes (Mem m)) c y" using T by (simp add: tree_ok_def)
  then have "is_directory x" using x(1) y(3) by (auto simp: child_ok_def)
  moreover have "child_ok (Nodes (Mem m)) n x" using T x(1,2) by (simp add: tree_ok_def)
  ultimately show False using x(3) by (auto simp: child_ok_def is_directory_def)
qed

text \<open>
  The owner of the VCB resource takes a node off the table, or changes its claim, and moves to
  another phase.
\<close>

lemma flag_event:
  assumes inv: "Inv nls m" and x: "Nodes (Mem m) n = Some x" "shape y = shape x" "RefCount y = RefCount x" "PinCount y = PinCount x"
    and T: "table_ok (Root m) ((Nodes (Mem m))(n \<mapsto> y)) T'"
    and V: "\<And>k. opening_count V' k = opening_count (Vcb m) k" "worker_owns V' = worker_owns (Vcb m)"
      "vcb_ok (Root m) ((Nodes (Mem m))(n \<mapsto> y)) (Agents m) V'"
      "\<And>k. k \<noteq> n \<Longrightarrow> attends (Vcb m) k \<Longrightarrow> attends V' k"
      "n \<noteq> Root m \<Longrightarrow> idle x \<Longrightarrow> OnReapList y \<or> tested (Agents m) n \<or> attends V' n"
    and claims: "\<And>k. k \<noteq> n \<Longrightarrow> count_list (vcb_claims V') k = count_list (vcb_claims (Vcb m)) k"
      "claim_count (ReapList (Mem m)) (Worker m) V' (Agents m) n = (if OnReapList y then 1 else 0)"
      "n = Root m \<Longrightarrow> \<not> OnReapList y"
  shows "Inv nls (m\<lparr>Mem := (Mem m)\<lparr>Nodes := (Nodes (Mem m))(n \<mapsto> y), NodeTable := T'\<rparr>, Vcb := V'\<rparr>)"
proof (rule InvI [where N = "(Nodes (Mem m))(n \<mapsto> y)" and V = V' and T = T'])
  let ?N = "(Nodes (Mem m))(n \<mapsto> y)"
  note I = InvD [OF inv]
  have shape: "same_shape (Nodes (Mem m)) ?N" by (rule same_shape_upd [of "Nodes (Mem m)" n x y, OF x(1,2)])
  show "tree_ok (Root m) ?N" "index_ok nls (Root m) ?N (NodeChildren (Mem m))" "ledger_ok ?N (Ledger (Mem m))"
    using I by (auto intro: shape_rules [OF shape])
  show "counts_ok ?N (Agents m) V'" by (rule counts_ok_upd [of "Nodes (Mem m)" _ _ n x y, OF I(4) x(1,3,4)]) (simp_all add: refs_def V(1))
  show "agents_ok (Root m) ?N (Agents m)" using I(5) x(1) by (rule agents_ok_upd)
  show "claims_ok (Root m) ?N (ReapList (Mem m)) (Worker m) V' (Agents m)"
    using I(6) claims unfolding claims_ok_def claimed_upd claim_count_def by auto
  show "worker_ok (Queued (Mem m)) (WorkItem (Mem m)) (Worker m) V'" using I(8) V(2) by (simp add: worker_ok_def)
  have "idle y = idle x" using x by (auto simp: idle_def shape_def)
  then show "strand_ok (Root m) ?N (Agents m) V'" using I(9) V(4,5) by (auto simp: strand_ok_def)
  show "kick_ok (ReapList (Mem m)) (Queued (Mem m)) (ShuttingDown (Mem m)) (Agents m)" by (rule I(10))
qed (use T V(3) in simp_all)

lemma WorkerDecide_Inv:
  assumes inv: "Inv nls m" and en: "enabled WorkerDecide m" and ex: "exec nls dissect WorkerDecide m = Some m'"
  shows "Inv nls m'"
proof -
  obtain n batch where V: "Vcb m = WorkerAt (n # batch)" "bucket_idle m n"
    using en by (auto split: vcb_phase.splits list.splits)
  note I = InvD [OF inv]
  have "0 < claim_count (ReapList (Mem m)) (Worker m) (Vcb m) (Agents m) n" by (simp add: claim_count_def V)
  then obtain x where x: "Nodes (Mem m) n = Some x" "OnReapList x" "n \<noteq> Root m"
      and one: "claim_count (ReapList (Mem m)) (Worker m) (Vcb m) (Agents m) n = 1"
    using claimed_node [OF I(6)] by metis
  show ?thesis
  proof (cases "RefCount x = 0 \<and> PinCount x = 0 \<and> (NodeTypeCode x \<noteq> DCB_SIGNATURE \<or> ChildrenList x = [])")
    case True
    let ?y = "x\<lparr>TableLinked := False\<rparr>"
    obtain T' where T': "table_unlink n (Mem m) = Some ((Mem m)\<lparr>Nodes := (Nodes (Mem m))(n \<mapsto> ?y), NodeTable := T'\<rparr>)"
        "table_ok (Root m) ((Nodes (Mem m))(n \<mapsto> ?y)) T'"
      using table_unlink_ok [OF I(3) x(1,3)] by metis
    have m': "m' = m\<lparr>Mem := (Mem m)\<lparr>Nodes := (Nodes (Mem m))(n \<mapsto> ?y), NodeTable := T'\<rparr>, Vcb := WorkerFree n batch\<rparr>"
      using ex V True x(1) T'(1) by (simp add: reap_decide_def)
    have q: "quiet (Root m) ((Nodes (Mem m))(n \<mapsto> ?y)) (Agents m) n"
      using unheld [OF inv V(2) x(1)] True childless [OF inv x(1,3)] x(3) by (auto simp: quiet_def)
    show ?thesis
      unfolding m'
      by (rule flag_event [OF inv x(1) _ _ _ T'(2)]) (use x V one q in \<open>auto simp: shape_def claim_count_def\<close>)
  next
    case False
    let ?y = "x\<lparr>OnReapList := False\<rparr>"
    have m': "m' = m\<lparr>Mem := (Mem m)\<lparr>Nodes := (Nodes (Mem m))(n \<mapsto> ?y), NodeTable := NodeTable (Mem m)\<rparr>, Vcb := WorkerAt batch\<rparr>"
      using ex V False x(1) by (auto simp: reap_decide_def with_node_def)
    have T: "table_ok (Root m) ((Nodes (Mem m))(n \<mapsto> ?y)) (NodeTable (Mem m))"
      using I(3) x by (auto simp: table_ok_def)
    show ?thesis
      unfolding m'
      by (rule flag_event [OF inv x(1) _ _ _ T]) (use x V one False in \<open>auto simp: shape_def claim_count_def idle_def\<close>)
  qed
qed

lemma resume_simps [simp]:
  "opening_count (resume k) n = 0" "vcb_claims (resume k) = batch_of k" "worker_owns (resume k) = worker_owns (WalkAt d k)"
  "vcb_ok root N A (resume k)" "\<not> attends (resume k) n"
  by (cases k; simp add: resume_def)+

lemma WalkDecide_Inv:
  assumes inv: "Inv nls m" and en: "enabled WalkDecide m" and ex: "exec nls dissect WalkDecide m = Some m'"
  shows "Inv nls m'"
proof -
  obtain d k where V: "Vcb m = WalkAt d k" "bucket_idle m d" using en by (auto split: vcb_phase.splits)
  note I = InvD [OF inv]
  obtain x where x: "Nodes (Mem m) d = Some x" "is_directory x" using I(7) V by (auto simp: directory_at_def)
  have notroot: "d \<noteq> Root m" if "NodeTypeCode x = DCB_SIGNATURE"
    using that x(1) I(1) by (auto simp: tree_ok_def)
  have kind: "NodeTypeCode x = DCB_SIGNATURE" if "d \<noteq> Root m"
  proof -
    have "child_ok (Nodes (Mem m)) d x" using that I(1) x(1) by (simp add: tree_ok_def)
    then show ?thesis using x(2) by (auto simp: child_ok_def is_directory_def)
  qed
  have stop: "Inv nls (m\<lparr>Vcb := resume k\<rparr>)" if "\<not> (NodeTypeCode x = DCB_SIGNATURE \<and> idle x \<and> \<not> OnReapList x)"
    by (rule vcb_only_event [OF inv x(1)]) (use that V kind in \<open>auto intro!: ext\<close>)
  show ?thesis
  proof (cases "NodeTypeCode x = DCB_SIGNATURE \<and> idle x \<and> \<not> OnReapList x")
    case False
    have "m' = m\<lparr>Vcb := resume k\<rparr>"
      using ex V x(1) False
      by (auto simp: walk_decide_def NodeTableTryRetire_def idle_def split: if_splits)
    with stop [OF False] show ?thesis by simp
  next
    case True
    let ?x = "x\<lparr>OnReapList := True\<rparr>" and ?y = "x\<lparr>OnReapList := True, TableLinked := False\<rparr>"
    let ?s = "(Mem m)\<lparr>Nodes := (Nodes (Mem m))(d \<mapsto> ?x)\<rparr>"
    have d: "d \<noteq> Root m" using True notroot by simp
    have "table_ok (Root m) (Nodes ?s) (NodeTable ?s)" using I(3) x(1) by (auto simp: table_ok_def)
    then obtain T' where T': "table_unlink d ?s = Some (?s\<lparr>Nodes := (Nodes ?s)(d \<mapsto> ?x\<lparr>TableLinked := False\<rparr>), NodeTable := T'\<rparr>)"
        "table_ok (Root m) ((Nodes ?s)(d \<mapsto> ?x\<lparr>TableLinked := False\<rparr>)) T'"
      using table_unlink_ok [of "Root m" ?s d ?x] d by auto
    have m': "m' = m\<lparr>Mem := (Mem m)\<lparr>Nodes := (Nodes (Mem m))(d \<mapsto> ?y), NodeTable := T'\<rparr>, Vcb := WalkFree d k\<rparr>"
      using ex V x(1) True T'(1)
      by (auto simp: walk_decide_def NodeTableTryRetire_def idle_def with_node_def)
    have q: "quiet (Root m) ((Nodes (Mem m))(d \<mapsto> ?y)) (Agents m) d"
      using unheld [OF inv V(2) x(1)] True d by (auto simp: quiet_def idle_def)
    have none: "claim_count (ReapList (Mem m)) (Worker m) (Vcb m) (Agents m) d = 0"
      using I(6) x(1) True by (simp add: claims_ok_def claimed_def)
    show ?thesis
      unfolding m'
    proof (rule flag_event [OF inv x(1)])
      show "table_ok (Root m) ((Nodes (Mem m))(d \<mapsto> ?y)) T'" using T'(2) by simp
      show "worker_owns (WalkFree d k) = worker_owns (Vcb m)" using V by (cases k) simp_all
    qed (use V none d q in \<open>auto simp: shape_def claim_count_def\<close>)
  qed
qed

lemma ColdPublish_Inv:
  assumes inv: "Inv nls m" and ex: "exec nls dissect ColdPublish m = Some m'"
  shows "Inv nls m'"
proof -
  obtain n where V: "Vcb m = ColdOpened n" using ex by (cases "Vcb m") auto
  note I = InvD [OF inv]
  have "resident (Root m) (Nodes (Mem m)) n" using I(7) V by simp
  then obtain x where x: "Nodes (Mem m) n = Some x" "n \<noteq> Root m"
      "idle x \<Longrightarrow> OnReapList x \<or> tested (Agents m) n \<or> attends (Vcb m) n"
    using cold_node [OF inv] by metis
  show ?thesis
  proof (cases "TableLinked x")
    case True
    then have "m' = m\<lparr>Vcb := VcbFree\<rparr>" using ex V x(1) by (auto simp: BlorgNodeTablePublish_def run_def)
    then show ?thesis using x V by (auto intro!: vcb_only_event [OF inv x(1)])
  next
    case False
    let ?b = "TableBucketIndex x" and ?y = "x\<lparr>TableLinked := True\<rparr>"
    let ?T = "(NodeTable (Mem m))(?b := NodeTable (Mem m) ?b @ [n])"
    have m': "m' = m\<lparr>Mem := (Mem m)\<lparr>Nodes := (Nodes (Mem m))(n \<mapsto> ?y), NodeTable := ?T\<rparr>, Vcb := VcbFree\<rparr>"
      using ex V x(1) False by (auto simp: BlorgNodeTablePublish_def run_def with_node_def Let_def split: if_splits)
    have T: "table_ok (Root m) ((Nodes (Mem m))(n \<mapsto> ?y)) ?T" using I(3) x(1,2) False by (auto simp: table_ok_def)
    have c: "claim_count (ReapList (Mem m)) (Worker m) (Vcb m) (Agents m) n = claimed (Nodes (Mem m)) n"
      using I(6) by (simp add: claims_ok_def)
    show ?thesis
      unfolding m'
      by (rule flag_event [OF inv x(1) _ _ _ T]) (use x V c in \<open>auto simp: shape_def claim_count_def claimed_def\<close>)
  qed
qed

end
