(* ===== verification/Node_Tree.thy ===== *)
theory Node_Tree
  imports Node_Claims
begin

text \<open>
  The events that change the tree keep the invariant: freeing a node, and the search and the
  insertion of a cold open.
\<close>

section \<open>Reading the tree\<close>

lemma tree_parent:
  assumes T: "tree_ok root N" and n: "N n = Some x" "n \<noteq> root"
  obtains p where "N (ParentDcb x) = Some p" "is_directory p" "n \<in> set (ChildrenList p)" "ParentDcb x \<noteq> n"
    "NodeTypeCode x = FCB_SIGNATURE \<and> FullPath x \<noteq> [] \<or> NodeTypeCode x = DCB_SIGNATURE"
proof -
  have "child_ok N n x" using T n unfolding tree_ok_def by blast
  moreover obtain rank where "ranked root N rank" using T by (auto simp: tree_ok_def)
  then have "rank (ParentDcb x) < rank n" using n by (simp add: ranked_def)
  then have "ParentDcb x \<noteq> n" by auto
  ultimately show thesis using that by (auto simp: child_ok_def)
qed

lemma tree_child:
  assumes T: "tree_ok root N" and p: "N p = Some x" "c \<in> set (ChildrenList x)"
  obtains y where "N c = Some y" "ParentDcb y = p" "c \<noteq> root"
proof -
  have "parent_ok root N p x" using T p unfolding tree_ok_def by blast
  then show thesis using that p(2) by (auto simp: parent_ok_def)
qed

lemma tree_distinct: "tree_ok root N \<Longrightarrow> N p = Some x \<Longrightarrow> distinct (ChildrenList x)"
  unfolding tree_ok_def parent_ok_def by blast

lemma tree_live: "tree_ok root (Nodes s) \<Longrightarrow> Nodes s p = Some x \<Longrightarrow> live s (ChildrenList x)"
  by (auto simp: live_def list_all_iff elim: tree_child)

lemma tree_nonzero: "tree_ok root N \<Longrightarrow> N n = Some x \<Longrightarrow> n \<noteq> 0"
  by (auto simp: tree_ok_def)

lemma index_live: "index_ok nls root (Nodes s) C \<Longrightarrow> live s (C b)"
  by (auto simp: live_def list_all_iff index_ok_def)

lemma live_sub: "live s ns \<Longrightarrow> set ms \<subseteq> set ns \<Longrightarrow> live s ms"
  by (auto simp: live_def list_all_iff)

section \<open>Freeing a leaf\<close>

definition without_leaf :: "nodes \<Rightarrow> node_ptr \<Rightarrow> node_ptr \<Rightarrow> COMMON_CONTEXT \<Rightarrow> nodes" where
  "without_leaf N n p px = (N(p \<mapsto> px\<lparr>ChildrenList := remove1 n (ChildrenList px)\<rparr>))(n := None)"

definition free_ledger :: "COMMON_CONTEXT \<Rightarrow> node_ledger \<Rightarrow> node_ledger" where
  "free_ledger x l0 =
     (let l = deallocate_common l0
      in if NodeTypeCode x = FCB_SIGNATURE then l\<lparr>NamesOut := NamesOut l - 1, FcbOut := FcbOut l - 1\<rparr>
         else l\<lparr>NamesOut := NamesOut l - 1, DcbOut := DcbOut l - 1\<rparr>)"

lemma free_ok:
  assumes T: "tree_ok root (Nodes s)" and C: "index_ok nls root (Nodes s) (NodeChildren s)"
    and n: "Nodes s n = Some x" "n \<noteq> root" and p: "Nodes s (ParentDcb x) = Some px"
  shows "BlorgFreeFileContext nls n s =
    Some (s\<lparr>Ledger := free_ledger x (Ledger s), Nodes := without_leaf (Nodes s) n (ParentDcb x) px,
            NodeChildren := (NodeChildren s)(child_bucket nls x := remove1 n (NodeChildren s (child_bucket nls x)))\<rparr>)"
proof -
  let ?b = "child_bucket nls x"
  obtain q where q: "Nodes s (ParentDcb x) = Some q" "n \<in> set (ChildrenList q)"
      "NodeTypeCode x = FCB_SIGNATURE \<and> FullPath x \<noteq> [] \<or> NodeTypeCode x = DCB_SIGNATURE"
    using tree_parent [OF T n] by metis
  then have qx: "q = px" using p by simp
  have chain: "live s (takeWhile (\<lambda>m. m \<noteq> n) (NodeChildren s ?b))"
    using index_live [OF C, of ?b] by (rule live_sub) (auto dest: set_takeWhileD)
  have u: "NodeChildUnlink nls n s = Some (s\<lparr>NodeChildren := (NodeChildren s)(?b := remove1 n (NodeChildren s ?b))\<rparr>)"
    using n(1) chain by (simp add: NodeChildUnlink_def Let_def)
  have l: "live s' (ChildrenList px)" if "Nodes s' = Nodes s" for s'
    using tree_live [OF T p] that by (simp add: live_def)
  have r: "unlink_child (ParentDcb x) n s' =
      Some (s'\<lparr>Nodes := (Nodes s)(ParentDcb x \<mapsto> px\<lparr>ChildrenList := remove1 n (ChildrenList px)\<rparr>)\<rparr>)"
    if "Nodes s' = Nodes s" for s'
    using q(1,2) qx l [OF that] that by (simp add: unlink_child_def with_node_def)
  from q(3) show ?thesis
  proof
    assume k: "NodeTypeCode x = FCB_SIGNATURE \<and> FullPath x \<noteq> []"
    then show ?thesis
      using n(1) u r by (simp add: BlorgFreeFileContext_def free_ledger_def without_leaf_def Let_def)
  next
    assume k: "NodeTypeCode x = DCB_SIGNATURE"
    then show ?thesis
      using n(1) u r by (simp add: BlorgFreeFileContext_def free_ledger_def without_leaf_def Let_def)
  qed
qed

lemma without_leaf_Some:
  assumes "without_leaf N n p px k = Some y" "N p = Some px"
  obtains z where "N k = Some z" "k \<noteq> n" "NodeTypeCode y = NodeTypeCode z" "FullPath y = FullPath z"
    "ParentDcb y = ParentDcb z" "k \<noteq> p \<Longrightarrow> y = z" "k = p \<Longrightarrow> z = px \<and> y = px\<lparr>ChildrenList := remove1 n (ChildrenList px)\<rparr>"
proof (cases "k = p")
  case True
  then show thesis using assms by (intro that [of px]) (auto simp: without_leaf_def split: if_splits)
next
  case False
  then show thesis using assms by (intro that [of y]) (auto simp: without_leaf_def split: if_splits)
qed

lemma without_leaf_other:
  assumes "N k = Some z" "k \<noteq> n" "N p = Some px"
  obtains y where "without_leaf N n p px k = Some y" "NodeTypeCode y = NodeTypeCode z" "ParentDcb y = ParentDcb z"
    "FullPath y = FullPath z" "RefCount y = RefCount z" "PinCount y = PinCount z" "OnReapList y = OnReapList z"
    "TableLinked y = TableLinked z" "TableBucketIndex y = TableBucketIndex z"
    "ChildrenList y = (if k = p then remove1 n (ChildrenList z) else ChildrenList z)"
proof (cases "k = p")
  case True
  then show thesis using assms by (intro that [of "px\<lparr>ChildrenList := remove1 n (ChildrenList px)\<rparr>"]) (auto simp: without_leaf_def)
next
  case False
  then show thesis using assms by (intro that [of z]) (auto simp: without_leaf_def)
qed

lemma without_leaf_tree:
  assumes T: "tree_ok root N" and n: "N n = Some x" "n \<noteq> root" "ChildrenList x = []" and p: "N (ParentDcb x) = Some px"
  shows "tree_ok root (without_leaf N n (ParentDcb x) px)"
proof -
  let ?N = "without_leaf N n (ParentDcb x) px"
  have d: "dom ?N = dom N - {n}" using p by (auto simp: without_leaf_def)
  have pn: "ParentDcb x \<noteq> n" using tree_parent [OF T n(1,2)] by metis
  obtain rank where rank: "ranked root N rank" using T by (auto simp: tree_ok_def)
  have "ranked root ?N rank"
    unfolding ranked_def by (metis p rank ranked_def without_leaf_Some)
  moreover obtain r where r: "N root = Some r" "NodeTypeCode r = ROOT_DCB_SIGNATURE" using T by (auto simp: tree_ok_def)
  obtain r' where "?N root = Some r'" "NodeTypeCode r' = NodeTypeCode r"
    using without_leaf_other [OF r(1) n(2) [symmetric] p] by metis
  moreover have "child_ok ?N k y" if k: "?N k = Some y" "k \<noteq> root" for k y
  proof -
    obtain z where z: "N k = Some z" "k \<noteq> n" "NodeTypeCode y = NodeTypeCode z" "FullPath y = FullPath z" "ParentDcb y = ParentDcb z"
      using without_leaf_Some [OF k(1) p] by metis
    obtain q where q: "N (ParentDcb z) = Some q" "is_directory q" "k \<in> set (ChildrenList q)"
        "NodeTypeCode z = FCB_SIGNATURE \<and> FullPath z \<noteq> [] \<or> NodeTypeCode z = DCB_SIGNATURE"
      using tree_parent [OF T z(1) k(2)] by metis
    have "ParentDcb z \<noteq> n" using q(1,3) n(1,3) by auto
    then obtain q' where "?N (ParentDcb z) = Some q'" "NodeTypeCode q' = NodeTypeCode q"
        "ChildrenList q' = (if ParentDcb z = ParentDcb x then remove1 n (ChildrenList q) else ChildrenList q)"
      using without_leaf_other [OF q(1) _ p] by metis
    with q z show ?thesis by (auto simp: child_ok_def is_directory_def)
  qed
  moreover have "parent_ok root ?N k y" if k: "?N k = Some y" for k y
    unfolding parent_ok_def
  proof (intro conjI ballI)
    obtain z where z: "N k = Some z" "k \<noteq> n" "k \<noteq> ParentDcb x \<Longrightarrow> y = z"
        "k = ParentDcb x \<Longrightarrow> z = px \<and> y = px\<lparr>ChildrenList := remove1 n (ChildrenList px)\<rparr>"
      using without_leaf_Some [OF k(1) p] by metis
    have dz: "distinct (ChildrenList z)" using T z(1) by (rule tree_distinct)
    then show "distinct (ChildrenList y)" using z(3,4) by (cases "k = ParentDcb x") auto
    fix c assume c: "c \<in> set (ChildrenList y)"
    then have cz: "c \<in> set (ChildrenList z)" using z(3,4) by (cases "k = ParentDcb x") (auto dest: subsetD [OF set_remove1_subset])
    obtain w where w: "N c = Some w" "ParentDcb w = k" "c \<noteq> root" using tree_child [OF T z(1) cz] by metis
    have "c \<noteq> n"
      using c dz z(3,4) w n(1) by (cases "k = ParentDcb x") auto
    then obtain w' where "?N c = Some w'" "ParentDcb w' = ParentDcb w"
      using without_leaf_other [OF w(1) _ p] by metis
    with w show "c \<noteq> root" "\<exists>w. ?N c = Some w \<and> ParentDcb w = k" by auto
  qed
  moreover have "finite (dom ?N)" "?N 0 = None"
    using d T p by (auto simp: tree_ok_def without_leaf_def)
  ultimately show ?thesis using r unfolding tree_ok_def by metis
qed

lemma without_leaf_index:
  assumes C: "index_ok nls root N C" and n: "N n = Some x" "n \<noteq> root" and p: "N (ParentDcb x) = Some px"
  shows "index_ok nls root (without_leaf N n (ParentDcb x) px)
    (C(child_bucket nls x := remove1 n (C (child_bucket nls x))))"
proof -
  let ?b = "child_bucket nls x" and ?N = "without_leaf N n (ParentDcb x) px"
  have d: "distinct (C b)" for b using C by (simp add: index_ok_def)
  have m: "k \<in> set (C b) \<longleftrightarrow> k \<noteq> root \<and> (\<exists>z. N k = Some z \<and> child_bucket nls z = b)" for k b
    using C by (simp add: index_ok_def)
  have N: "(\<exists>y. ?N k = Some y \<and> child_bucket nls y = b) \<longleftrightarrow> k \<noteq> n \<and> (\<exists>z. N k = Some z \<and> child_bucket nls z = b)" for k b
    using p by (cases "k = n"; cases "k = ParentDcb x") (simp_all add: without_leaf_def child_bucket_def)
  show ?thesis
    unfolding index_ok_def N using d m n by auto
qed

lemma without_leaf_table:
  assumes T: "table_ok root N T" and n: "N n = Some x" "n \<noteq> root" "\<not> TableLinked x" and p: "N p = Some px"
  shows "table_ok root (without_leaf N n p px) T"
proof -
  have "(\<exists>y. without_leaf N n p px k = Some y \<and> TableLinked y \<and> TableBucketIndex y = b) \<longleftrightarrow>
      (\<exists>z. N k = Some z \<and> TableLinked z \<and> TableBucketIndex z = b)" for k b
    using p n by (cases "k = n"; cases "k = p") (simp_all add: without_leaf_def)
  moreover have "\<not> TableLinked y" if "without_leaf N n p px root = Some y" for y
    using that T n p by (cases "root = p") (auto simp: without_leaf_def table_ok_def)
  ultimately show ?thesis using T by (simp add: table_ok_def)
qed

lemma without_leaf_ledger:
  assumes L: "ledger_ok N l" and T: "tree_ok root N" and n: "N n = Some x" "n \<noteq> root" and p: "N (ParentDcb x) = Some px"
  shows "ledger_ok (without_leaf N n (ParentDcb x) px) (free_ledger x l)"
proof -
  let ?N = "without_leaf N n (ParentDcb x) px"
  have kinds: "{k. \<exists>y. ?N k = Some y \<and> P (NodeTypeCode y)} = {k. \<exists>z. N k = Some z \<and> P (NodeTypeCode z)} - {n}" for P
    using p by (auto simp: without_leaf_def)
  have d: "dom ?N = dom N - {n}" using p by (auto simp: without_leaf_def)
  have fin: "finite (dom N)" using T by (simp add: tree_ok_def)
  then have fin': "finite {k. \<exists>z. N k = Some z \<and> P (NodeTypeCode z)}" for P
    by (rule rev_finite_subset) auto
  have card: "int (card (S - {n})) = int (card S) - 1" if "n \<in> S" "finite S" for S :: "node_ptr set"
    using card_Suc_Diff1 [OF that(2,1)] by linarith
  have dom: "int (card (dom ?N)) = int (card (dom N)) - 1" unfolding d using fin n by (intro card) auto
  have kind: "NodeTypeCode x = FCB_SIGNATURE \<or> NodeTypeCode x = DCB_SIGNATURE" using tree_parent [OF T n] by metis
  note F = kinds [of "\<lambda>t. t = FCB_SIGNATURE"] and D = kinds [of "\<lambda>t. t = DCB_SIGNATURE \<or> t = ROOT_DCB_SIGNATURE"]
  from kind show ?thesis
  proof
    assume k: "NodeTypeCode x = FCB_SIGNATURE"
    then have "int (card {k. \<exists>y. ?N k = Some y \<and> NodeTypeCode y = FCB_SIGNATURE}) =
        int (card {k. \<exists>z. N k = Some z \<and> NodeTypeCode z = FCB_SIGNATURE}) - 1"
      unfolding F using n fin' [of "\<lambda>t. t = FCB_SIGNATURE"] by (intro card) auto
    moreover have "{k. \<exists>z. N k = Some z \<and> (NodeTypeCode z = DCB_SIGNATURE \<or> NodeTypeCode z = ROOT_DCB_SIGNATURE)} - {n} =
        {k. \<exists>z. N k = Some z \<and> (NodeTypeCode z = DCB_SIGNATURE \<or> NodeTypeCode z = ROOT_DCB_SIGNATURE)}"
      using n k by auto
    ultimately show ?thesis
      using L k dom D by (simp add: ledger_ok_def free_ledger_def deallocate_common_def Let_def is_directory_def)
  next
    assume k: "NodeTypeCode x = DCB_SIGNATURE"
    then have "int (card {k. \<exists>y. ?N k = Some y \<and> (NodeTypeCode y = DCB_SIGNATURE \<or> NodeTypeCode y = ROOT_DCB_SIGNATURE)}) =
        int (card {k. \<exists>z. N k = Some z \<and> (NodeTypeCode z = DCB_SIGNATURE \<or> NodeTypeCode z = ROOT_DCB_SIGNATURE)}) - 1"
      unfolding D using n fin' [of "\<lambda>t. t = DCB_SIGNATURE \<or> t = ROOT_DCB_SIGNATURE"] by (intro card) auto
    moreover have "{k. \<exists>z. N k = Some z \<and> NodeTypeCode z = FCB_SIGNATURE} - {n} =
        {k. \<exists>z. N k = Some z \<and> NodeTypeCode z = FCB_SIGNATURE}"
      using n k by auto
    ultimately show ?thesis
      using L k dom F by (simp add: ledger_ok_def free_ledger_def deallocate_common_def Let_def is_directory_def)
  qed
qed

lemma free_event:
  assumes inv: "Inv nls m" and q: "quiet (Root m) (Nodes (Mem m)) (Agents m) n" and x: "Nodes (Mem m) n = Some x"
    and s': "BlorgFreeFileContext nls n (Mem m) = Some s'"
    and V: "\<And>k. opening_count (Vcb m) k = 0" "\<And>k. attends (Vcb m) k \<Longrightarrow> k = n"
      "worker_owns (WalkAt (ParentDcb x) k') = worker_owns (Vcb m)"
      "\<And>k. claim_count (ReapList (Mem m)) (Worker m) (WalkAt (ParentDcb x) k') (Agents m) k =
         (if k = n then 0 else claim_count (ReapList (Mem m)) (Worker m) (Vcb m) (Agents m) k)"
  shows "Inv nls (m\<lparr>Mem := s', Vcb := WalkAt (ParentDcb x) k'\<rparr>)"
proof -
  note I = InvD [OF inv]
  have n: "n \<noteq> Root m" "\<not> TableLinked x" "ChildrenList x = []" using q x by (auto simp: quiet_def)
  have none: "node_of a \<noteq> Some n" if "a \<in># Agents m" for a using q that by (auto simp: quiet_def)
  obtain p where p: "Nodes (Mem m) (ParentDcb x) = Some p" "is_directory p" "ParentDcb x \<noteq> n"
    using tree_parent [OF I(1) x n(1)] by metis
  let ?N = "without_leaf (Nodes (Mem m)) n (ParentDcb x) p"
  let ?C = "(NodeChildren (Mem m))(child_bucket nls x := remove1 n (NodeChildren (Mem m) (child_bucket nls x)))"
  have s: "s' = (Mem m)\<lparr>Ledger := free_ledger x (Ledger (Mem m)), Nodes := ?N, NodeChildren := ?C\<rparr>"
    using free_ok [OF I(1,2) x n(1) p(1)] s' by simp
  show ?thesis
    unfolding s
  proof (rule InvI [where N = ?N and C = ?C and l = "free_ledger x (Ledger (Mem m))" and V = "WalkAt (ParentDcb x) k'"])
    show "tree_ok (Root m) ?N" by (rule without_leaf_tree [OF I(1) x n(1,3) p(1)])
    show "index_ok nls (Root m) ?N ?C" by (rule without_leaf_index [OF I(2) x n(1) p(1)])
    show "ledger_ok ?N (free_ledger x (Ledger (Mem m)))" by (rule without_leaf_ledger [OF I(11,1) x n(1) p(1)])
    show "table_ok (Root m) ?N (NodeTable (Mem m))" by (rule without_leaf_table [OF I(3) x n(1,2) p(1)])
    show "counts_ok ?N (Agents m) (WalkAt (ParentDcb x) k')"
      using I(4) p V(1) by (auto simp: counts_ok_def refs_def without_leaf_def)
    show "agents_ok (Root m) ?N (Agents m)"
      using I(5) none p unfolding agents_ok_def without_leaf_def by auto
    show "claims_ok (Root m) ?N (ReapList (Mem m)) (Worker m) (WalkAt (ParentDcb x) k') (Agents m)"
      using I(6) p n(1) unfolding claims_ok_def V(4) by (auto simp: claimed_def without_leaf_def)
    show "vcb_ok (Root m) ?N (Agents m) (WalkAt (ParentDcb x) k')"
      using p by (auto simp: directory_at_def without_leaf_def is_directory_def)
    show "worker_ok (Queued (Mem m)) (WorkItem (Mem m)) (Worker m) (WalkAt (ParentDcb x) k')"
      using I(8) V(3) by (simp add: worker_ok_def)
    show "strand_ok (Root m) ?N (Agents m) (WalkAt (ParentDcb x) k')"
      using I(9) V(2) by (auto simp: strand_ok_def without_leaf_def)
    show "kick_ok (ReapList (Mem m)) (Queued (Mem m)) (ShuttingDown (Mem m)) (Agents m)" by (rule I(10))
  qed simp_all
qed

lemma frees_Inv:
  assumes inv: "Inv nls m" and en: "enabled e m" and ex: "exec nls dissect e m = Some m'"
    and e: "e \<in> {WorkerFrees, WalkFrees, ColdFrees}"
  shows "Inv nls m'"
proof -
  note I = InvD [OF inv]
  obtain n k where V: "Vcb m = ColdDrop n \<and> k = None \<or> (\<exists>b. Vcb m = WorkerFree n b \<and> k = Some b) \<or> Vcb m = WalkFree n k"
    and ex': "Option.bind (parent_of (Mem m) n) (\<lambda>p. run (BlorgFreeFileContext nls n (Mem m)) (Vcb_update (\<lambda>_. WalkAt p k)) m) = Some m'"
    using en ex e by (auto split: vcb_phase.splits)
  have q: "quiet (Root m) (Nodes (Mem m)) (Agents m) n" using I(7) V by auto
  then obtain x where x: "Nodes (Mem m) n = Some x" by (auto simp: quiet_def)
  obtain s' where s': "BlorgFreeFileContext nls n (Mem m) = Some s'" "m' = m\<lparr>Mem := s', Vcb := WalkAt (ParentDcb x) k\<rparr>"
    using ex' x by (auto simp: parent_of_def run_def)
  have c: "claim_count (ReapList (Mem m)) (Worker m) (Vcb m) (Agents m) n = claimed (Nodes (Mem m)) n"
    using I(6) by (simp add: claims_ok_def)
  have le: "claimed (Nodes (Mem m)) n \<le> 1" by (simp add: claimed_def split: option.split)
  have cd: "claimed (Nodes (Mem m)) n = 0" if "Vcb m = ColdDrop n" using I(7) that by simp
  show ?thesis
    unfolding s'(2)
  proof (rule free_event [OF inv q x s'(1)])
    show "worker_owns (WalkAt (ParentDcb x) k) = worker_owns (Vcb m)" using V by (cases k) auto
    show "claim_count (ReapList (Mem m)) (Worker m) (WalkAt (ParentDcb x) k) (Agents m) j =
        (if j = n then 0 else claim_count (ReapList (Mem m)) (Worker m) (Vcb m) (Agents m) j)" for j
      using V c le cd by (auto simp: claim_count_def)
  qed (use V in auto)
qed

end
