(* ===== verification/Node_Insert.thy ===== *)
theory Node_Insert
  imports Node_Tree
begin

text \<open>
  The cold open: creating a node fails without trace or gives a fresh one, the search of the
  tree follows live nodes only, and the insertion of a path keeps the invariant whatever
  creation fails on the way.
\<close>

section \<open>Creation\<close>

definition fcb_ledger :: "UNICODE_STRING \<Rightarrow> node_ledger \<Rightarrow> node_ledger" where
  "fcb_ledger path l =
     l\<lparr>NonPagedOut := NonPagedOut l + 1, FcbOut := FcbOut l + 1,
       NamesOut := NamesOut l + (if path \<noteq> [] then 1 else 0), ResourcesOut := ResourcesOut l + 2\<rparr>"

definition dcb_ledger :: "node_ledger \<Rightarrow> node_ledger" where
  "dcb_ledger l =
     l\<lparr>NonPagedOut := NonPagedOut l + 1, DcbOut := DcbOut l + 1,
       NamesOut := NamesOut l + 1, ResourcesOut := ResourcesOut l + 2\<rparr>"

definition fcb_created :: "create_outcome \<Rightarrow> UNICODE_STRING \<Rightarrow> bool" where
  "fcb_created out path \<longleftrightarrow>
     NonPagedOk out \<and> NodeAddress out \<noteq> 0 \<and> (path \<noteq> [] \<longrightarrow> NameOk out) \<and>
     NT_SUCCESS (HdrResourceStatus out) \<and> NT_SUCCESS (PagingResourceStatus out)"

definition dcb_created :: "create_outcome \<Rightarrow> bool" where
  "dcb_created out \<longleftrightarrow>
     NonPagedOk out \<and> NodeAddress out \<noteq> 0 \<and> NameOk out \<and>
     NT_SUCCESS (HdrResourceStatus out) \<and> NT_SUCCESS (PagingResourceStatus out)"

text \<open>The status of a creation that fails: memory first, then the resources in order.\<close>

definition create_failure :: "create_outcome \<Rightarrow> bool \<Rightarrow> NTSTATUS" where
  "create_failure out named =
     (if \<not> NonPagedOk out \<or> NodeAddress out = 0 \<or> named \<and> \<not> NameOk out then STATUS_INSUFFICIENT_RESOURCES
      else if \<not> NT_SUCCESS (HdrResourceStatus out) then HdrResourceStatus out
      else PagingResourceStatus out)"

lemma create_fcb_ok:
  "fcb_created out path \<Longrightarrow>
   BlorgCreateFCB nls out kind path sz s =
     (STATUS_SUCCESS, NodeAddress out,
      s\<lparr>Ledger := fcb_ledger path (Ledger s), Nodes := (Nodes s)(NodeAddress out \<mapsto> fresh_node nls kind path sz)\<rparr>)"
  by (auto simp: BlorgCreateFCB_def fcb_created_def fcb_ledger_def Let_def)

lemma create_fcb_fails:
  assumes "\<not> fcb_created out path"
  shows "\<not> NT_SUCCESS (create_failure out (path \<noteq> []))"
    "BlorgCreateFCB nls out kind path sz s = (create_failure out (path \<noteq> []), 0, s)"
  using assms by (auto simp: BlorgCreateFCB_def fcb_created_def create_failure_def Let_def)

lemma create_dcb_ok:
  "dcb_created out \<Longrightarrow>
   BlorgCreateDCB nls out kind path s =
     (STATUS_SUCCESS, NodeAddress out,
      s\<lparr>Ledger := dcb_ledger (Ledger s), Nodes := (Nodes s)(NodeAddress out \<mapsto> fresh_node nls kind path 0)\<rparr>)"
  by (auto simp: BlorgCreateDCB_def dcb_created_def dcb_ledger_def Let_def)

lemma create_dcb_fails:
  assumes "\<not> dcb_created out"
  shows "\<not> NT_SUCCESS (create_failure out True)"
    "BlorgCreateDCB nls out kind path s = (create_failure out True, 0, s)"
  using assms by (auto simp: BlorgCreateDCB_def dcb_created_def create_failure_def Let_def)

section \<open>Searching\<close>

lemma search_chain_ok:
  assumes "live s cs"
  obtains c where "search_chain nls s parent name cs = Some c"
    "c \<noteq> 0 \<Longrightarrow> c \<in> set cs \<and> (\<exists>x. Nodes s c = Some x \<and> ParentDcb x = parent \<and>
       NodeArePathComponentsEqual nls name (NodeGetLastComponent (FullPath x)))"
  using assms
proof (induction cs arbitrary: thesis)
  case (Cons d cs)
  then obtain x where x: "Nodes s d = Some x" "live s cs" by (auto simp: live_def)
  show ?case
  proof (cases "ParentDcb x = parent \<and> NodeArePathComponentsEqual nls name (NodeGetLastComponent (FullPath x))")
    case True
    then show ?thesis using x by (intro Cons.prems(1) [of d]) auto
  next
    case False
    obtain c where "search_chain nls s parent name cs = Some c"
      "c \<noteq> 0 \<Longrightarrow> c \<in> set cs \<and> (\<exists>x. Nodes s c = Some x \<and> ParentDcb x = parent \<and>
         NodeArePathComponentsEqual nls name (NodeGetLastComponent (FullPath x)))"
      using Cons.IH x(2) by blast
    with False x(1) show ?thesis by (intro Cons.prems(1) [of c]) auto
  qed
qed simp

lemma search_by_name_ok:
  assumes "index_ok nls root (Nodes s) (NodeChildren s)"
  obtains c where "NodeSearchByName nls parent name s = Some c"
    "c \<noteq> 0 \<Longrightarrow> c \<noteq> root \<and> (\<exists>x. Nodes s c = Some x \<and> ParentDcb x = parent \<and>
       NodeArePathComponentsEqual nls name (NodeGetLastComponent (FullPath x)))"
proof -
  obtain c where c: "NodeSearchByName nls parent name s = Some c"
      "c \<noteq> 0 \<Longrightarrow> c \<in> set (NodeChildren s (BlorgNodeChildBucket nls parent name)) \<and>
         (\<exists>x. Nodes s c = Some x \<and> ParentDcb x = parent \<and>
            NodeArePathComponentsEqual nls name (NodeGetLastComponent (FullPath x)))"
    unfolding NodeSearchByName_def using search_chain_ok [OF index_live [OF assms]] by metis
  moreover have "c \<noteq> root" if "c \<in> set (NodeChildren s b)" for b using that assms by (auto simp: index_ok_def)
  ultimately show thesis using that by blast
qed

lemma search_parts_ok:
  assumes C: "index_ok nls root (Nodes s) (NodeChildren s)"
  obtains c where "search_parts nls current parts s = Some c" "c = 0 \<or> c = current \<or> c \<noteq> root \<and> Nodes s c \<noteq> None"
proof (induction parts arbitrary: current thesis)
  case (Cons part parts)
  obtain component remaining where part: "part = (component, remaining)" by (cases part)
  obtain c where c: "NodeSearchByName nls current component s = Some c"
      "c \<noteq> 0 \<Longrightarrow> c \<noteq> root \<and> (\<exists>x. Nodes s c = Some x)"
    using search_by_name_ok [OF C] by metis
  show ?case
  proof (cases "c = 0")
    case True
    then show ?thesis using c part by (intro Cons.prems [of 0]) simp_all
  next
    case False
    then obtain x where x: "Nodes s c = Some x" "c \<noteq> root" using c(2) by blast
    obtain d where d: "search_parts nls c parts s = Some d" "d = 0 \<or> d = c \<or> d \<noteq> root \<and> Nodes s d \<noteq> None"
      by (rule Cons.IH)
    show ?thesis
      using Cons.prems [of "if NodeTypeCode x = FCB_SIGNATURE then if remaining = [] then c else 0 else d"]
        c(1) False x d part by (auto split: if_splits)
  qed
qed simp

lemma search_parts_not_root:
  assumes C: "index_ok nls root (Nodes s) (NodeChildren s)" and "parts \<noteq> []"
    and found: "search_parts nls current parts s = Some c" "c \<noteq> 0"
  shows "c \<noteq> root \<and> Nodes s c \<noteq> None"
proof -
  obtain component remaining rest where parts: "parts = (component, remaining) # rest"
    using assms(2) by (cases parts) auto
  obtain d where d: "NodeSearchByName nls current component s = Some d"
      "d \<noteq> 0 \<Longrightarrow> d \<noteq> root \<and> (\<exists>x. Nodes s d = Some x)"
    using search_by_name_ok [OF C] by metis
  have d0: "d \<noteq> 0" using found d parts by (cases "d = 0") auto
  then obtain x where x: "Nodes s d = Some x" "d \<noteq> root" using d(2) by blast
  obtain e where "search_parts nls d rest s = Some e" "e = 0 \<or> e = d \<or> e \<noteq> root \<and> Nodes s e \<noteq> None"
    using search_parts_ok [OF C] by metis
  then show ?thesis using found d d0 x parts by (auto split: if_splits)
qed

section \<open>Linking a new leaf\<close>

definition with_leaf :: "nodes \<Rightarrow> node_ptr \<Rightarrow> COMMON_CONTEXT \<Rightarrow> node_ptr \<Rightarrow> COMMON_CONTEXT \<Rightarrow> nodes" where
  "with_leaf N n x p px = (N(n \<mapsto> x))(p \<mapsto> px\<lparr>ChildrenList := ChildrenList px @ [n]\<rparr>)"

definition new_leaf :: "node_ptr \<Rightarrow> COMMON_CONTEXT \<Rightarrow> bool" where
  "new_leaf p x \<longleftrightarrow>
     ParentDcb x = p \<and> \<not> TableLinked x \<and> RefCount x = 0 \<and> PinCount x = 0 \<and> \<not> OnReapList x \<and> ChildrenList x = [] \<and>
     (NodeTypeCode x = FCB_SIGNATURE \<and> FullPath x \<noteq> [] \<or> NodeTypeCode x = DCB_SIGNATURE)"

lemma with_leaf_tree:
  assumes T: "tree_ok root N" and n: "N n = None" "n \<noteq> 0" and x: "new_leaf p x" and p: "N p = Some px" "is_directory px"
  shows "tree_ok root (with_leaf N n x p px)"
proof -
  let ?N = "with_leaf N n x p px"
  have pn: "p \<noteq> n" using n(1) p(1) by auto
  have root: "root \<noteq> n" using T n(1) by (auto simp: tree_ok_def)
  have old: "\<exists>z. ?N k = Some z \<and> NodeTypeCode z = NodeTypeCode y \<and> FullPath z = FullPath y \<and> ParentDcb z = ParentDcb y \<and>
      ChildrenList z = (if k = p then ChildrenList y @ [n] else ChildrenList y)" if "N k = Some y" for k y
    using that p n(1) pn by (cases "k = p") (auto simp: with_leaf_def)
  have new: "?N n = Some x" using pn by (simp add: with_leaf_def)
  have prior: "\<exists>y. N k = Some y \<and> NodeTypeCode z = NodeTypeCode y \<and> FullPath z = FullPath y \<and> ParentDcb z = ParentDcb y \<and>
      ChildrenList z = (if k = p then ChildrenList y @ [n] else ChildrenList y)" if "?N k = Some z" "k \<noteq> n" for k z
    using that p by (cases "k = p") (auto simp: with_leaf_def)
  obtain rank where rank: "ranked root N rank" using T by (auto simp: tree_ok_def)
  have live: "ParentDcb y \<noteq> n" if "N k = Some y" "k \<noteq> root" for k y
    using tree_parent [OF T that] n(1) by (metis option.distinct(1))
  have "ranked root ?N (rank(n := Suc (rank p)))"
    unfolding ranked_def
  proof (intro allI impI)
    fix k z assume k: "?N k = Some z" "k \<noteq> root"
    show "(rank(n := Suc (rank p))) (ParentDcb z) < (rank(n := Suc (rank p))) k"
    proof (cases "k = n")
      case True
      then show ?thesis using k(1) new x pn by (auto simp: new_leaf_def)
    next
      case False
      then obtain y where "N k = Some y" "ParentDcb z = ParentDcb y" using prior [OF k(1)] by blast
      then show ?thesis using rank k(2) live [of k y] False by (simp add: ranked_def)
    qed
  qed
  moreover have "child_ok ?N k z" if k: "?N k = Some z" "k \<noteq> root" for k z
  proof (cases "k = n")
    case True
    then have "z = x" using k(1) new by simp
    moreover obtain q where "?N p = Some q" "NodeTypeCode q = NodeTypeCode px" "ChildrenList q = ChildrenList px @ [n]"
      using old [OF p(1)] by auto
    ultimately show ?thesis using x p(2) True by (auto simp: child_ok_def new_leaf_def is_directory_def)
  next
    case False
    then obtain y where y: "N k = Some y" "NodeTypeCode z = NodeTypeCode y" "FullPath z = FullPath y" "ParentDcb z = ParentDcb y"
      using prior [OF k(1)] by blast
    obtain q where q: "N (ParentDcb y) = Some q" "is_directory q" "k \<in> set (ChildrenList q)"
        "NodeTypeCode y = FCB_SIGNATURE \<and> FullPath y \<noteq> [] \<or> NodeTypeCode y = DCB_SIGNATURE"
      using tree_parent [OF T y(1) k(2)] by metis
    obtain q' where "?N (ParentDcb y) = Some q'" "NodeTypeCode q' = NodeTypeCode q" "k \<in> set (ChildrenList q')"
      using old [OF q(1)] q(3) by (auto split: if_splits)
    with q y show ?thesis by (auto simp: child_ok_def is_directory_def)
  qed
  moreover have "parent_ok root ?N k z" if k: "?N k = Some z" for k z
  proof (cases "k = n")
    case True
    then show ?thesis using k new x by (auto simp: parent_ok_def new_leaf_def)
  next
    case False
    then obtain y where y: "N k = Some y" "ChildrenList z = (if k = p then ChildrenList y @ [n] else ChildrenList y)"
      using prior [OF k] by blast
    have par: "parent_ok root N k y" using T y(1) by (simp add: tree_ok_def)
    have nn: "n \<notin> set (ChildrenList y)" using tree_child [OF T y(1)] n(1) by (metis option.distinct(1))
    have "c \<noteq> root \<and> (\<exists>w. ?N c = Some w \<and> ParentDcb w = k)" if "c \<in> set (ChildrenList z)" for c
    proof (cases "c = n")
      case True
      then have "k = p" using that y(2) nn by (auto split: if_splits)
      then show ?thesis using True root new x by (auto simp: new_leaf_def)
    next
      case False
      then have "c \<in> set (ChildrenList y)" using that y(2) by (auto split: if_splits)
      then obtain w where "N c = Some w" "ParentDcb w = k" "c \<noteq> root" using tree_child [OF T y(1)] by metis
      then show ?thesis using old [of c w] by auto
    qed
    then show ?thesis using par nn y(2) by (auto simp: parent_ok_def)
  qed
  moreover have "finite (dom ?N)" "?N 0 = None" "\<exists>r. ?N root = Some r \<and> NodeTypeCode r = ROOT_DCB_SIGNATURE"
  proof -
    show "finite (dom ?N)" using T by (simp add: with_leaf_def tree_ok_def)
    show "?N 0 = None" using T n p by (auto simp: with_leaf_def tree_ok_def)
    obtain r where "N root = Some r" "NodeTypeCode r = ROOT_DCB_SIGNATURE" using T by (auto simp: tree_ok_def)
    then show "\<exists>r. ?N root = Some r \<and> NodeTypeCode r = ROOT_DCB_SIGNATURE" using old [of root r] by auto
  qed
  ultimately show ?thesis unfolding tree_ok_def by blast
qed

lemma with_leaf_index:
  assumes C: "index_ok nls root N C" and n: "N n = None" "n \<noteq> root" and p: "N p = Some px"
  shows "index_ok nls root (with_leaf N n x p px) (C(child_bucket nls x := n # C (child_bucket nls x)))"
proof -
  let ?N = "with_leaf N n x p px"
  have pn: "p \<noteq> n" using n p by auto
  have d: "distinct (C b)" for b using C by (simp add: index_ok_def)
  have m: "k \<in> set (C b) \<longleftrightarrow> k \<noteq> root \<and> (\<exists>z. N k = Some z \<and> child_bucket nls z = b)" for k b
    using C by (simp add: index_ok_def)
  have nn: "n \<notin> set (C b)" for b using m n(1) by simp
  have N: "(\<exists>y. ?N k = Some y \<and> child_bucket nls y = b) \<longleftrightarrow>
      (if k = n then child_bucket nls x = b else \<exists>z. N k = Some z \<and> child_bucket nls z = b)" for k b
    using p pn by (cases "k = n"; cases "k = p") (simp_all add: with_leaf_def child_bucket_def)
  show ?thesis
    unfolding index_ok_def N using d m n nn by auto
qed

lemma with_leaf_table:
  assumes T: "table_ok root N T" and n: "N n = None" "n \<noteq> root" "\<not> TableLinked x" and p: "N p = Some px"
  shows "table_ok root (with_leaf N n x p px) T"
proof -
  have pn: "p \<noteq> n" using n p by auto
  have "(\<exists>y. with_leaf N n x p px k = Some y \<and> TableLinked y \<and> TableBucketIndex y = b) \<longleftrightarrow>
      (\<exists>z. N k = Some z \<and> TableLinked z \<and> TableBucketIndex z = b)" for k b
    using p n pn by (cases "k = n"; cases "k = p") (simp_all add: with_leaf_def)
  moreover have "\<not> TableLinked y" if "with_leaf N n x p px root = Some y" for y
    using that T n p by (cases "root = p") (auto simp: with_leaf_def table_ok_def)
  ultimately show ?thesis using T by (simp add: table_ok_def)
qed

lemma with_leaf_ledger:
  assumes L: "ledger_ok N l" and T: "tree_ok root N" and n: "N n = None" and x: "new_leaf p x" and p: "N p = Some px"
    and l': "l' = (if NodeTypeCode x = FCB_SIGNATURE then fcb_ledger (FullPath x) l else dcb_ledger l)"
  shows "ledger_ok (with_leaf N n x p px) l'"
proof -
  let ?N = "with_leaf N n x p px"
  have pn: "p \<noteq> n" using n p by auto
  have kinds: "{k. \<exists>y. ?N k = Some y \<and> P (NodeTypeCode y)} =
      (if P (NodeTypeCode x) then insert n {k. \<exists>z. N k = Some z \<and> P (NodeTypeCode z)} else {k. \<exists>z. N k = Some z \<and> P (NodeTypeCode z)})" for P
    using p pn n by (auto simp: with_leaf_def)
  have d: "dom ?N = insert n (dom N)" using p by (auto simp: with_leaf_def)
  have fin: "finite (dom N)" using T by (simp add: tree_ok_def)
  then have fin': "finite {k. \<exists>z. N k = Some z \<and> P (NodeTypeCode z)}" for P
    by (rule rev_finite_subset) auto
  have dom: "card (dom ?N) = Suc (card (dom N))" unfolding d using fin n by (simp add: domIff)
  note F = kinds [of "\<lambda>t. t = FCB_SIGNATURE"] and D = kinds [of "\<lambda>t. t = DCB_SIGNATURE \<or> t = ROOT_DCB_SIGNATURE"]
  have cF: "card (insert n {k. \<exists>z. N k = Some z \<and> NodeTypeCode z = FCB_SIGNATURE}) =
      Suc (card {k. \<exists>z. N k = Some z \<and> NodeTypeCode z = FCB_SIGNATURE})"
    using n fin' [of "\<lambda>t. t = FCB_SIGNATURE"] by simp
  have cD: "card (insert n {k. \<exists>z. N k = Some z \<and> (NodeTypeCode z = DCB_SIGNATURE \<or> NodeTypeCode z = ROOT_DCB_SIGNATURE)}) =
      Suc (card {k. \<exists>z. N k = Some z \<and> (NodeTypeCode z = DCB_SIGNATURE \<or> NodeTypeCode z = ROOT_DCB_SIGNATURE)})"
    using n fin' [of "\<lambda>t. t = DCB_SIGNATURE \<or> t = ROOT_DCB_SIGNATURE"] by simp
  show ?thesis
    using L dom F D cF cD x
    by (auto simp: ledger_ok_def l' is_directory_def fcb_ledger_def dcb_ledger_def new_leaf_def)
qed

text \<open>Linking a freshly created node under the directory the walk is at.\<close>

lemma link_child_ok:
  assumes T: "tree_ok root (Nodes s)" and n: "Nodes s n = None" and p: "Nodes s p = Some px"
  shows "link_child nls p n (s\<lparr>Ledger := l, Nodes := (Nodes s)(n \<mapsto> x)\<rparr>) =
    Some (s\<lparr>Ledger := l, Nodes := with_leaf (Nodes s) n (x\<lparr>ParentDcb := p\<rparr>) p px,
      NodeChildren := (NodeChildren s)(child_bucket nls (x\<lparr>ParentDcb := p\<rparr>) :=
        n # NodeChildren s (child_bucket nls (x\<lparr>ParentDcb := p\<rparr>)))\<rparr>)"
proof -
  have pn: "p \<noteq> n" using n p by auto
  have "live (s\<lparr>Ledger := l, Nodes := (Nodes s)(n \<mapsto> x\<lparr>ParentDcb := p\<rparr>)\<rparr>) (ChildrenList px)"
    using tree_live [OF T p] by (auto simp: live_def list_all_iff)
  then show ?thesis
    using pn p by (simp add: link_child_def with_node_def NodeChildLink_def with_leaf_def Let_def fun_upd_twist)
qed

lemma link_event:
  assumes inv: "Inv nls (m\<lparr>Mem := s, Vcb := WalkAt p None\<rparr>)" and n: "Nodes s n = None" "n \<noteq> 0"
    and x: "new_leaf p x" and p: "Nodes s p = Some px" "is_directory px"
    and l: "l = (if NodeTypeCode x = FCB_SIGNATURE then fcb_ledger (FullPath x) (Ledger s) else dcb_ledger (Ledger s))"
  shows "Inv nls (m\<lparr>Mem := s\<lparr>Ledger := l, Nodes := with_leaf (Nodes s) n x p px,
      NodeChildren := (NodeChildren s)(child_bucket nls x := n # NodeChildren s (child_bucket nls x))\<rparr>, Vcb := WalkAt n None\<rparr>) = (NodeTypeCode x = DCB_SIGNATURE)"
    (is ?walk)
    and "Inv nls (m\<lparr>Mem := s\<lparr>Ledger := l, Nodes := with_leaf (Nodes s) n x p px,
      NodeChildren := (NodeChildren s)(child_bucket nls x := n # NodeChildren s (child_bucket nls x))\<rparr>, Vcb := ColdFresh n\<rparr>)"
    (is ?fresh)
proof -
  let ?N = "with_leaf (Nodes s) n x p px" and ?C = "(NodeChildren s)(child_bucket nls x := n # NodeChildren s (child_bucket nls x))"
  note I = InvD [OF inv, simplified]
  have pn: "p \<noteq> n" using n p by auto
  have root: "n \<noteq> Root m" using I(1) n(1) by (auto simp: tree_ok_def)
  have none: "node_of a \<noteq> Some n" if "a \<in># Agents m" for a
    using I(5) that n(1) unfolding agents_ok_def by blast
  have zero: "refs (Agents m) V n = opening_count V n" "pins (Agents m) n = 0" for V
  proof -
    have "Handle n \<notin># Agents m" "Pinned n \<notin># Agents m" "PinnedOpening n \<notin># Agents m" using none by force+
    then show "refs (Agents m) V n = opening_count V n" "pins (Agents m) n = 0"
      by (simp_all add: refs_def pins_def not_in_iff)
  qed
  have new: "?N n = Some x" using pn by (simp add: with_leaf_def)
  have tree: "tree_ok (Root m) ?N" by (rule with_leaf_tree [OF I(1) n x p])
  have index: "index_ok nls (Root m) ?N ?C" by (rule with_leaf_index [OF I(2) n(1) root p(1)])
  have ledger: "ledger_ok ?N l" by (rule with_leaf_ledger [OF I(11,1) n(1) x p(1) l])
  have table: "table_ok (Root m) ?N (NodeTable s)"
    by (rule with_leaf_table [OF I(3) n(1) root _ p(1)]) (use x in \<open>simp add: new_leaf_def\<close>)
  have counts: "counts_ok ?N (Agents m) V" if "\<And>k. opening_count V k = 0" for V
    using I(4) p(1) pn x zero that by (auto simp: counts_ok_def with_leaf_def new_leaf_def refs_def)
  have agents: "agents_ok (Root m) ?N (Agents m)"
    using I(5) p(1) by (auto simp: agents_ok_def with_leaf_def)
  have claimed: "claimed ?N k = claimed (Nodes s) k" for k
    using p(1) pn n(1) x by (auto simp: claimed_def with_leaf_def new_leaf_def)
  have claims: "claims_ok (Root m) ?N (ReapList s) (Worker m) V (Agents m)" if "vcb_claims V = []" for V
    using I(6) that by (simp add: claims_ok_def claimed claim_count_def)
  have strand: "strand_ok (Root m) ?N (Agents m) V" if "attends V n" for V
    using I(9) that pn p(1) by (auto simp: strand_ok_def with_leaf_def idle_def)
  have worker: "worker_ok (Queued s) (WorkItem s) (Worker m) V" if "\<not> worker_owns V" for V
    using I(8) that by (simp add: worker_ok_def)
  have dir: "directory_at ?N n \<longleftrightarrow> NodeTypeCode x = DCB_SIGNATURE"
    using new x by (auto simp: directory_at_def is_directory_def new_leaf_def)
  have quiet: "quiet (Root m) ?N (Agents m) n" using new x root none by (auto simp: quiet_def new_leaf_def)
  have c0: "claimed ?N n = 0" using claimed n(1) by (simp add: claimed_def)
  show ?walk
    unfolding Inv_def Let_def using tree index ledger table counts agents claims strand worker dir I(10) by simp
  show ?fresh
    unfolding Inv_def Let_def using tree index ledger table counts agents claims strand worker quiet c0 I(10) by simp
qed

end
