(* ===== verification/Node_Correct.thy ===== *)
theory Node_Correct
  imports Node_Insert
begin

text \<open>
  The whole of the node machine: the insertion of a path, the invariant of every reachable
  state, and that no enabled event touches memory that is not a live node.
\<close>

section \<open>Inserting a path\<close>

lemma not_created_exhausted [simp]: "\<not> fcb_created exhausted path" "\<not> dcb_created exhausted"
  by (simp_all add: fcb_created_def dcb_created_def exhausted_def)

lemma fresh_outcome:
  assumes "fresh_outcomes s outs" "NodeAddress (next_outcome outs) \<noteq> 0"
  shows "Nodes s (NodeAddress (next_outcome outs)) = None"
  using assms by (auto simp: fresh_outcomes_def next_outcome_def exhausted_def Let_def split: list.splits)

lemma fresh_outcomes_tl:
  assumes "fresh_outcomes s outs" "NodeAddress (next_outcome outs) = n" "n \<noteq> 0" "outs \<noteq> []"
    "\<And>k. k \<noteq> n \<Longrightarrow> Nodes s k = None \<Longrightarrow> Nodes s' k = None"
  shows "fresh_outcomes s' (tl outs)"
proof -
  obtain out rest where outs: "outs = out # rest" using assms(4) by (cases outs) auto
  then have out: "NodeAddress out = n" using assms(2) by (simp add: next_outcome_def)
  have "Nodes s' a = None" if a: "a \<in> NodeAddress ` set rest" "a \<noteq> 0" for a
  proof (rule assms(5))
    have "n \<notin> NodeAddress ` set rest" "Nodes s a = None"
      using a assms(1,3) outs out by (auto simp: fresh_outcomes_def Let_def list_all_iff)
    then show "a \<noteq> n" "Nodes s a = None" using a(1) by metis+
  qed
  moreover have "distinct (filter (\<lambda>a. a \<noteq> 0) (map NodeAddress rest))"
    using assms(1) outs by (auto simp: fresh_outcomes_def Let_def split: if_splits)
  ultimately show ?thesis unfolding outs by (auto simp: fresh_outcomes_def Let_def list_all_iff)
qed

text \<open>
  Where the walk stands: nothing is created yet and it is at a directory of the tree, or it is
  at the directory it created last.
\<close>

definition walk_at :: "NLS \<Rightarrow> machine \<Rightarrow> node_ptr \<Rightarrow> node_ptr \<Rightarrow> node_state \<Rightarrow> bool" where
  "walk_at nls m current lastCreated s \<longleftrightarrow>
     Inv nls (m\<lparr>Mem := s, Vcb := WalkAt current None\<rparr>) \<and>
     (lastCreated = 0 \<and> s = Mem m \<or>
      lastCreated = current \<and> current \<noteq> 0 \<and> Inv nls (m\<lparr>Mem := s, Vcb := ColdFresh current\<rparr>))"

definition insert_result :: "NLS \<Rightarrow> machine \<Rightarrow> insert_end \<Rightarrow> node_state \<Rightarrow> bool" where
  "insert_result nls m ending s \<longleftrightarrow>
     (case ending of
        Inserted n \<Rightarrow> if n = 0 then s = Mem m else Inv nls (m\<lparr>Mem := s, Vcb := ColdFresh n\<rparr>)
      | InsertFailed _ d \<Rightarrow> Inv nls (m\<lparr>Mem := s, Vcb := WalkAt d None\<rparr>))"

lemma walk_at_start:
  assumes inv: "Inv nls m" "Vcb m = VcbFree" and d: "directory_at (Nodes (Mem m)) d"
  shows "walk_at nls m d 0 (Mem m)"
proof -
  obtain x where x: "Nodes (Mem m) d = Some x" using d by (auto simp: directory_at_def)
  have "Inv nls (m\<lparr>Vcb := WalkAt d None\<rparr>)"
    by (rule vcb_only_event [OF inv(1) x]) (use inv(2) d in \<open>auto intro!: ext\<close>)
  then show ?thesis by (simp add: walk_at_def)
qed

lemma walk_result:
  assumes "walk_at nls m current lastCreated s"
  shows "insert_result nls m (Inserted lastCreated) s" "insert_result nls m (InsertFailed st current) s"
  using assms by (auto simp: walk_at_def insert_result_def)

lemma walk_descend:
  assumes inv: "Inv nls m" "Vcb m = VcbFree" and w: "walk_at nls m current lastCreated s"
    and e: "Nodes s e = Some x" "e \<noteq> Root m" "ParentDcb x = current" "is_directory x"
  shows "lastCreated = 0" "walk_at nls m e lastCreated s"
proof -
  show last: "lastCreated = 0"
  proof (rule ccontr)
    assume "lastCreated \<noteq> 0"
    then have fresh: "Inv nls (m\<lparr>Mem := s, Vcb := ColdFresh current\<rparr>)" using w by (auto simp: walk_at_def)
    obtain p where "Nodes s current = Some p" "e \<in> set (ChildrenList p)"
      using tree_parent [OF InvD(1) [OF fresh, simplified] e(1,2)] e(3) by auto
    then show False using InvD(7) [OF fresh] by (auto simp: quiet_def)
  qed
  then have s: "s = Mem m" using w by (auto simp: walk_at_def)
  have "directory_at (Nodes (Mem m)) e" using e s by (auto simp: directory_at_def)
  then show "walk_at nls m e lastCreated s" using walk_at_start [OF inv] last s by simp
qed

lemma walk_link:
  assumes w: "walk_at nls m p lastCreated s" and n: "Nodes s n = None" "n \<noteq> 0" and x: "new_leaf p (x\<lparr>ParentDcb := p\<rparr>)"
    and l: "l = (if NodeTypeCode x = FCB_SIGNATURE then fcb_ledger (FullPath x) (Ledger s) else dcb_ledger (Ledger s))"
  obtains s' where "link_child nls p n (s\<lparr>Ledger := l, Nodes := (Nodes s)(n \<mapsto> x)\<rparr>) = Some s'"
    "insert_result nls m (Inserted n) s'" "NodeTypeCode x = DCB_SIGNATURE \<Longrightarrow> walk_at nls m n n s'"
    "\<And>k. k \<noteq> n \<Longrightarrow> Nodes s k = None \<Longrightarrow> Nodes s' k = None"
proof -
  let ?x = "x\<lparr>ParentDcb := p\<rparr>"
  have inv: "Inv nls (m\<lparr>Mem := s, Vcb := WalkAt p None\<rparr>)" using w by (simp add: walk_at_def)
  obtain px where px: "Nodes s p = Some px" "is_directory px"
    using InvD(7) [OF inv] by (auto simp: directory_at_def)
  let ?s = "s\<lparr>Ledger := l, Nodes := with_leaf (Nodes s) n ?x p px,
      NodeChildren := (NodeChildren s)(child_bucket nls ?x := n # NodeChildren s (child_bucket nls ?x))\<rparr>"
  have l': "l = (if NodeTypeCode ?x = FCB_SIGNATURE then fcb_ledger (FullPath ?x) (Ledger s) else dcb_ledger (Ledger s))"
    using l by simp
  have link: "link_child nls p n (s\<lparr>Ledger := l, Nodes := (Nodes s)(n \<mapsto> x)\<rparr>) = Some ?s"
    by (rule link_child_ok [OF InvD(1) [OF inv, simplified] n(1) px(1)])
  show thesis
  proof (rule that [OF link])
    show "insert_result nls m (Inserted n) ?s"
      using link_event(2) [OF inv n x px l'] n(2) by (simp add: insert_result_def)
    show "walk_at nls m n n ?s" if "NodeTypeCode x = DCB_SIGNATURE"
      using link_event [OF inv n x px l'] that n(2) by (simp add: walk_at_def)
    show "Nodes ?s k = None" if "k \<noteq> n" "Nodes s k = None" for k
      using that px by (auto simp: with_leaf_def)
  qed
qed

lemma new_leaf_fresh:
  "kind = FCB_SIGNATURE \<and> path \<noteq> [] \<or> kind = DCB_SIGNATURE \<Longrightarrow> new_leaf p ((fresh_node nls kind path sz)\<lparr>ParentDcb := p\<rparr>)"
  by (auto simp: new_leaf_def fresh_node_def)

lemma insert_parts_ok:
  assumes inv: "Inv nls m" "Vcb m = VcbFree" and path: "path \<noteq> []"
    and "walk_at nls m current lastCreated s" "fresh_outcomes s outs"
  obtains ending s' where "insert_parts nls path meta parts outs current lastCreated s = Some (ending, s')"
    "insert_result nls m ending s'"
  using assms(4,5)
proof (induction parts arbitrary: outs current lastCreated s thesis)
  case Nil
  then show ?case using walk_result(1) by (metis insert_parts.simps(1))
next
  case (Cons part parts)
  note w = Cons.prems(2) and outs = Cons.prems(3)
  obtain first remaining where part: "part = (first, remaining)" by (cases part)
  let ?out = "next_outcome outs"
  have invw: "Inv nls (m\<lparr>Mem := s, Vcb := WalkAt current None\<rparr>)" using w by (simp add: walk_at_def)
  obtain e where e: "NodeSearchByName nls current first s = Some e"
      "e \<noteq> 0 \<Longrightarrow> e \<noteq> Root m \<and> (\<exists>x. Nodes s e = Some x \<and> ParentDcb x = current)"
    using search_by_name_ok [OF InvD(2) [OF invw, simplified]] by metis
  show ?case
  proof (cases "e = 0")
    case False
    then obtain x where x: "Nodes s e = Some x" "e \<noteq> Root m" "ParentDcb x = current" using e(2) by blast
    show ?thesis
    proof (cases "remaining = [] \<or> \<not> is_directory x")
      case True
      then show ?thesis
      proof (cases "remaining = []")
        case True
        then show ?thesis using Cons.prems(1) walk_result(1) [OF w] e(1) False part by auto
      next
        case more: False
        then have "\<not> is_directory x" using True by simp
        then show ?thesis
          using Cons.prems(1) walk_result(2) [OF w] e(1) False x(1) part more by (auto simp: is_directory_def)
      qed
    next
      case dir: False
      then have w': "walk_at nls m e lastCreated s" using walk_descend [OF inv w x] by simp
      obtain ending s' where "insert_parts nls path meta parts outs e lastCreated s = Some (ending, s')"
          "insert_result nls m ending s'"
        using Cons.IH [OF _ w' outs] by metis
      then show ?thesis using Cons.prems(1) e(1) False x(1) part dir by (auto simp: is_directory_def)
    qed
  next
    case True
    show ?thesis
    proof (cases "remaining = [] \<and> \<not> IsDirectory meta")
      case leaf_file: True
      show ?thesis
      proof (cases "fcb_created ?out path")
        case False
        then show ?thesis
          using Cons.prems(1) walk_result(2) [OF w] e(1) True leaf_file part create_fcb_fails [OF False] by auto
      next
        case created: True
        let ?n = "NodeAddress ?out"
        let ?x = "(fresh_node nls FCB_SIGNATURE path (Size meta))\<lparr>N_LastAccessedTime := LastAccessedTime meta,
            N_LastModifiedTime := LastModifiedTime meta, N_CreationTime := CreationTime meta\<rparr>"
        have n: "Nodes s ?n = None" "?n \<noteq> 0"
          using fresh_outcome [OF outs] created by (auto simp: fcb_created_def)
        have leaf: "new_leaf current (?x\<lparr>ParentDcb := current\<rparr>)"
          using path by (simp add: new_leaf_def fresh_node_def)
        have l: "fcb_ledger path (Ledger s) =
            (if NodeTypeCode ?x = FCB_SIGNATURE then fcb_ledger (FullPath ?x) (Ledger s) else dcb_ledger (Ledger s))"
          by (simp add: fresh_node_def)
        obtain s' where "link_child nls current ?n (s\<lparr>Ledger := fcb_ledger path (Ledger s), Nodes := (Nodes s)(?n \<mapsto> ?x)\<rparr>) = Some s'"
            "insert_result nls m (Inserted ?n) s'"
          using walk_link [OF w n leaf l] by metis
        then show ?thesis
          using Cons.prems(1) e(1) True leaf_file part create_fcb_ok [OF created] by (auto simp: with_node_def)
      qed
    next
      case notfile: False
      let ?partial = "if remaining = [] then path else take (length path - (length remaining + 1)) path"
      show ?thesis
      proof (cases "dcb_created ?out")
        case False
        then show ?thesis
          using Cons.prems(1) walk_result(2) [OF w] e(1) True notfile part create_dcb_fails [OF False] by auto
      next
        case created: True
        let ?n = "NodeAddress ?out" and ?x = "fresh_node nls DCB_SIGNATURE ?partial 0"
        have n: "Nodes s ?n = None" "?n \<noteq> 0" "outs \<noteq> []"
          using fresh_outcome [OF outs] created by (auto simp: dcb_created_def next_outcome_def exhausted_def)
        have leaf: "new_leaf current (?x\<lparr>ParentDcb := current\<rparr>)" by (rule new_leaf_fresh) simp
        have kind: "NodeTypeCode ?x = DCB_SIGNATURE" by (simp add: fresh_node_def)
        have l: "dcb_ledger (Ledger s) =
            (if NodeTypeCode ?x = FCB_SIGNATURE then fcb_ledger (FullPath ?x) (Ledger s) else dcb_ledger (Ledger s))"
          using kind by simp
        obtain s' where s': "link_child nls current ?n (s\<lparr>Ledger := dcb_ledger (Ledger s), Nodes := (Nodes s)(?n \<mapsto> ?x)\<rparr>) = Some s'"
            "insert_result nls m (Inserted ?n) s'" "walk_at nls m ?n ?n s'" "\<And>k. k \<noteq> ?n \<Longrightarrow> Nodes s k = None \<Longrightarrow> Nodes s' k = None"
          using walk_link [OF w n(1,2) leaf l] kind by metis
        show ?thesis
        proof (cases "remaining = []")
          case True
          then show ?thesis
            using Cons.prems(1) e(1) \<open>e = 0\<close> notfile part create_dcb_ok [OF created] s' by auto
        next
          case False
          have "fresh_outcomes s' (tl outs)" by (rule fresh_outcomes_tl [OF outs refl n(2,3) s'(4)])
          then obtain ending s'' where "insert_parts nls path meta parts (tl outs) ?n ?n s' = Some (ending, s'')"
              "insert_result nls m ending s''"
            using Cons.IH [OF _ s'(3)] by metis
          then show ?thesis
            using Cons.prems(1) e(1) \<open>e = 0\<close> False part create_dcb_ok [OF created] s'(1) by auto
        qed
      qed
    qed
  qed
qed

lemma ColdEnter_Inv:
  assumes inv: "Inv nls m" and en: "enabled (ColdEnter path meta outs) m" and ex: "exec nls dissect (ColdEnter path meta outs) m = Some m'"
  shows "Inv nls m'"
proof -
  have V: "Vcb m = VcbFree" "path \<noteq> []" "fresh_outcomes (Mem m) outs" using en by simp_all
  note I = InvD [OF inv]
  let ?parts = "path_parts dissect (length path) path"
  have parts: "?parts \<noteq> []" using V(2) by (cases "length path") auto
  obtain c where c: "search_parts nls (Root m) ?parts (Mem m) = Some c"
    using search_parts_ok [OF I(2)] by metis
  show ?thesis
  proof (cases "c = 0")
    case False
    then have "c \<noteq> Root m \<and> Nodes (Mem m) c \<noteq> None" using search_parts_not_root [OF I(2) parts c] by simp
    then obtain x where x: "Nodes (Mem m) c = Some x" "c \<noteq> Root m" by auto
    have "m' = m\<lparr>Vcb := ColdFound c\<rparr>" using ex c False by (simp add: cold_enter_def BlorgSearchByPath_def)
    moreover have "Inv nls (m\<lparr>Vcb := ColdFound c\<rparr>)"
      by (rule vcb_only_event [OF inv x(1)])
        (use V x InvD(9) [OF inv] in \<open>auto intro!: ext simp: resident_def strand_ok_def\<close>)
    ultimately show ?thesis by simp
  next
    case True
    have dir: "directory_at (Nodes (Mem m)) (Root m)"
      using root_node [OF inv] by (auto simp: directory_at_def is_directory_def)
    obtain ending s1 where r: "insert_parts nls path meta ?parts outs (Root m) 0 (Mem m) = Some (ending, s1)"
        "insert_result nls m ending s1"
      using insert_parts_ok [OF inv V(1,2) walk_at_start [OF inv V(1) dir] V(3)] by metis
    have m': "m' = m\<lparr>Mem := s1, Vcb := (case ending of Inserted n \<Rightarrow> if n = 0 then VcbFree else ColdFresh n
        | InsertFailed _ current \<Rightarrow> WalkAt current None)\<rparr>"
      using ex c True r(1) by (simp add: cold_enter_def BlorgSearchByPath_def)
    have "m\<lparr>Mem := Mem m, Vcb := VcbFree\<rparr> = m" using V(1) by (cases m) simp
    then show ?thesis using r(2) m' inv by (auto simp: insert_result_def split: insert_end.splits if_splits)
  qed
qed

section \<open>The invariant\<close>

lemma start_Inv: "root \<noteq> 0 \<Longrightarrow> Inv nls (volume_start nls root)"
proof (rule InvI [where N = "[root \<mapsto> fresh_node nls ROOT_DCB_SIGNATURE [backslash] 0]"])
  let ?N = "[root \<mapsto> fresh_node nls ROOT_DCB_SIGNATURE [backslash] 0]"
  assume root: "root \<noteq> 0"
  show "tree_ok root ?N"
    using root by (auto simp: tree_ok_def ranked_def parent_ok_def fresh_node_def)
  have "{n. \<exists>x. ?N n = Some x \<and> NodeTypeCode x = FCB_SIGNATURE} = {}" "{n. \<exists>x. ?N n = Some x \<and> is_directory x} = {root}"
    by (auto simp: fresh_node_def is_directory_def)
  then show "ledger_ok ?N \<lparr>NonPagedOut = 1, FcbOut = 0, DcbOut = 1, NamesOut = 1, ResourcesOut = 2\<rparr>"
    by (simp add: ledger_ok_def)
qed (auto simp: volume_start_def index_ok_def table_ok_def counts_ok_def agents_ok_def claims_ok_def claim_count_def
  claimed_def worker_ok_def strand_ok_def kick_ok_def refs_def pins_def fresh_node_def)

lemma exec_Inv:
  assumes inv: "Inv nls m" and en: "enabled e m" and ex: "exec nls dissect e m = Some m'"
  shows "Inv nls m'"
proof (cases e)
  case (Lookup path) with ex show ?thesis by (simp only: Lookup_Inv [OF inv])
next
  case (OpenBegin n) with warm_Inv [OF assms, of n] show ?thesis by simp
next
  case (OpenDone n) with test_Inv [OF assms, of n] show ?thesis by simp
next
  case (OpenFail n) with warm_Inv [OF assms, of n] show ?thesis by simp
next
  case (Unpin n) with warm_Inv [OF assms, of n] show ?thesis by simp
next
  case (Close n) with warm_Inv [OF assms, of n] show ?thesis by simp
next
  case (ReadRef n) with test_Inv [OF assms, of n] show ?thesis by simp
next
  case (ReadPin n) with test_Inv [OF assms, of n] show ?thesis by simp
next
  case (Claim n) with en ex show ?thesis by (auto simp del: exec.simps intro: Claim_Inv [OF inv])
next
  case (Push n) with en ex show ?thesis by (auto simp del: exec.simps intro: Push_Inv [OF inv])
next
  case Kick with en ex show ?thesis by (auto simp del: exec.simps intro: Kick_Inv [OF inv])
next
  case WorkerTake with worker_Inv [OF assms] show ?thesis by simp
next
  case WorkerAcquire with worker_Inv [OF assms] show ?thesis by simp
next
  case WorkerDecide with en ex show ?thesis by (simp only: WorkerDecide_Inv [OF inv])
next
  case WorkerFrees with frees_Inv [OF assms] show ?thesis by simp
next
  case WorkerRelease with worker_Inv [OF assms] show ?thesis by simp
next
  case WorkerTails with worker_Inv [OF assms] show ?thesis by simp
next
  case WalkDecide with en ex show ?thesis by (simp only: WalkDecide_Inv [OF inv])
next
  case WalkFrees with frees_Inv [OF assms] show ?thesis by simp
next
  case (ColdEnter path meta outs) with en ex show ?thesis by (simp only: ColdEnter_Inv [OF inv])
next
  case ColdReturn with en ex show ?thesis by (simp only: ColdReturn_Inv [OF inv])
next
  case ColdRefuse with ex show ?thesis by (simp only: ColdRefuse_Inv [OF inv])
next
  case ColdBegin with ex show ?thesis by (simp only: ColdBegin_Inv [OF inv])
next
  case ColdDone with ex show ?thesis by (simp only: ColdDone_Inv [OF inv])
next
  case ColdFail with ex show ?thesis by (simp only: ColdFail_Inv [OF inv])
next
  case ColdPublish with ex show ?thesis by (simp only: ColdPublish_Inv [OF inv])
next
  case ColdDefer with ex show ?thesis by (simp only: ColdDefer_Inv [OF inv])
next
  case ColdFrees with frees_Inv [OF assms] show ?thesis by simp
next
  case RootOpen with ex show ?thesis by (simp only: RootOpen_Inv [OF inv])
next
  case RootClose with warm_Inv [OF assms] show ?thesis by simp
next
  case (Touch n d) with en ex show ?thesis by (simp only: Touch_Inv [OF inv])
next
  case Latch with worker_Inv [OF assms] show ?thesis by simp
qed

lemma reachable_Inv: "reachable nls dissect root m \<Longrightarrow> Inv nls m"
  by (induction rule: reachable.induct) (auto intro: start_Inv exec_Inv)

section \<open>No event touches a dead node\<close>

lemma exec_live:
  assumes inv: "Inv nls m" and en: "enabled e m"
  shows "exec nls dissect e m \<noteq> None"
proof -
  note I = InvD [OF inv]
  have agent: "\<exists>x. Nodes (Mem m) n = Some x" if "a \<in># Agents m" "node_of a = Some n" for a n
    using agent_node [OF inv that] by metis
  have root: "\<exists>x. Nodes (Mem m) (Root m) = Some x" using root_node [OF inv] by metis
  have free: "\<exists>x s'. Nodes (Mem m) n = Some x \<and> BlorgFreeFileContext nls n (Mem m) = Some s'"
    if q: "quiet (Root m) (Nodes (Mem m)) (Agents m) n" for n
  proof -
    obtain x where x: "Nodes (Mem m) n = Some x" "n \<noteq> Root m" using q by (auto simp: quiet_def)
    obtain p where p: "Nodes (Mem m) (ParentDcb x) = Some p" using tree_parent [OF I(1) x] by metis
    show ?thesis using x free_ok [OF I(1,2) x p] by blast
  qed
  note defs = run_def take_ref_def drop_ref_def drop_pin_def with_node_def resident_def parent_of_def
  show ?thesis
  proof (cases e)
    case (Lookup path)
    have "live (Mem m) (NodeTable (Mem m) b)" for b using I(3) by (auto simp: live_def list_all_iff table_ok_def)
    from table_find_live [OF this] obtain n where
        n: "table_find nls (Mem m) path (NodeTable (Mem m) (NodeTableBucketIndexFor nls path)) = Some n" by blast
    show ?thesis
      using Lookup n table_find_SomeD [OF n] by (auto simp: BlorgNodeTableLookupPin_def with_node_def)
  next
    case (OpenBegin n) with en agent [of "Pinned n" n] show ?thesis by (auto simp: defs)
  next
    case (OpenFail n) with en agent [of "PinnedOpening n" n] show ?thesis by (auto simp: defs)
  next
    case (Unpin n) with en agent [of "Pinned n" n] show ?thesis by (auto simp: defs)
  next
    case (Close n) with en agent [of "Handle n" n] show ?thesis by (auto simp: defs)
  next
    case (ReadRef n) with en agent [of "TestRef n" n] show ?thesis by (auto simp: defs)
  next
    case (ReadPin n) with en agent [of "TestPin n" n] show ?thesis by (auto simp: defs)
  next
    case (Claim n) with en agent [of "Claiming n" n] show ?thesis by (auto simp: defs claim_reap_def)
  next
    case (Push n) with en agent [of "Pushing n" n] show ?thesis by (auto simp: defs push_reap_def)
  next
    case Kick with I(8) show ?thesis by (auto simp: NodeReapKick_def worker_ok_def)
  next
    case WorkerAcquire with en show ?thesis by (auto split: worker_phase.splits)
  next
    case WorkerDecide
    then obtain n batch where V: "Vcb m = WorkerAt (n # batch)" using en by (auto split: vcb_phase.splits list.splits)
    have "0 < claim_count (ReapList (Mem m)) (Worker m) (Vcb m) (Agents m) n" by (simp add: claim_count_def V)
    then obtain x where x: "Nodes (Mem m) n = Some x" "n \<noteq> Root m" using claimed_node [OF I(6)] by metis
    obtain s' where "table_unlink n (Mem m) = Some s'" using table_unlink_ok [OF I(3) x] by metis
    then show ?thesis using WorkerDecide V x by (auto simp: reap_decide_def with_node_def)
  next
    case WorkerFrees
    then obtain n batch where "Vcb m = WorkerFree n batch" using en by (auto split: vcb_phase.splits)
    then show ?thesis using WorkerFrees free [of n] I(7) by (auto simp: defs)
  next
    case WalkDecide
    then obtain d k where V: "Vcb m = WalkAt d k" using en by (auto split: vcb_phase.splits)
    then obtain x where x: "Nodes (Mem m) d = Some x" using I(7) by (auto simp: directory_at_def)
    show ?thesis
    proof (cases "d = Root m")
      case True
      then have "NodeTypeCode x = ROOT_DCB_SIGNATURE" using x root_node [OF inv] by auto
      then show ?thesis using WalkDecide V x by (simp add: walk_decide_def)
    next
      case False
      let ?s = "(Mem m)\<lparr>Nodes := (Nodes (Mem m))(d \<mapsto> x\<lparr>OnReapList := True\<rparr>)\<rparr>"
      have "table_ok (Root m) (Nodes ?s) (NodeTable ?s)" using I(3) x by (auto simp: table_ok_def)
      then obtain s' where "table_unlink d ?s = Some s'"
        using table_unlink_ok [of "Root m" ?s d] False by force
      then show ?thesis
        using WalkDecide V x by (auto simp: walk_decide_def NodeTableTryRetire_def with_node_def)
    qed
  next
    case WalkFrees
    then obtain n k where "Vcb m = WalkFree n k" using en by (auto split: vcb_phase.splits)
    then show ?thesis using WalkFrees free [of n] I(7) by (auto simp: defs)
  next
    case (ColdEnter path meta outs)
    then have V: "Vcb m = VcbFree" "path \<noteq> []" "fresh_outcomes (Mem m) outs" using en by simp_all
    let ?parts = "path_parts dissect (length path) path"
    obtain c where c: "search_parts nls (Root m) ?parts (Mem m) = Some c" using search_parts_ok [OF I(2)] by metis
    have dir: "directory_at (Nodes (Mem m)) (Root m)"
      using root_node [OF inv] by (auto simp: directory_at_def is_directory_def)
    obtain ending s1 where "insert_parts nls path meta ?parts outs (Root m) 0 (Mem m) = Some (ending, s1)"
      using insert_parts_ok [OF inv V(1,2) walk_at_start [OF inv V(1) dir] V(3)] by metis
    then show ?thesis using ColdEnter c by (simp add: cold_enter_def BlorgSearchByPath_def)
  next
    case ColdRefuse with en show ?thesis by (auto split: vcb_phase.splits)
  next
    case ColdBegin with en I(7) show ?thesis by (auto simp: defs quiet_def split: vcb_phase.splits)
  next
    case ColdDone with en show ?thesis by (auto split: vcb_phase.splits)
  next
    case ColdFail with en I(7) show ?thesis by (auto simp: defs split: vcb_phase.splits)
  next
    case ColdPublish
    then obtain n where V: "Vcb m = ColdOpened n" using en by (auto split: vcb_phase.splits)
    have "live (Mem m) (NodeTable (Mem m) b)" for b using I(3) by (auto simp: live_def list_all_iff table_ok_def)
    then show ?thesis using ColdPublish V I(7) by (auto simp: defs BlorgNodeTablePublish_def Let_def)
  next
    case ColdDefer with en show ?thesis by (auto split: vcb_phase.splits)
  next
    case ColdFrees
    then obtain n where "Vcb m = ColdDrop n" using en by (auto split: vcb_phase.splits)
    then show ?thesis using ColdFrees free [of n] I(7) by (auto simp: defs)
  next
    case RootOpen with root show ?thesis by (auto simp: defs)
  next
    case RootClose with root show ?thesis by (auto simp: defs)
  next
    case (Touch n d) with en touch_node [OF inv] show ?thesis by (auto simp: defs)
  qed (auto simp: worker_tail_def)
qed

end
