(* ===== verification/Node_Settle.thy ===== *)
theory Node_Settle
  imports Node_Correct
begin

text \<open>
  Work on nodes that has begun comes to an end: once nothing new arrives, every run of the
  machine stops, it stops only when no thread has anything left to do, and then every node
  that is left is open or leads to one that is.
\<close>

section \<open>Work that has begun\<close>

fun finishes :: "event \<Rightarrow> bool" where
  "finishes (Lookup _) = False"
| "finishes (OpenBegin _) = False"
| "finishes (Close _) = False"
| "finishes (ColdEnter _ _ _) = False"
| "finishes RootOpen = False"
| "finishes RootClose = False"
| "finishes (Touch _ _) = False"
| "finishes Latch = False"
| "finishes _ = True"

definition quiescent :: "machine \<Rightarrow> bool" where
  "quiescent m \<longleftrightarrow> (\<forall>a. a \<in># Agents m \<longrightarrow> (\<exists>n. a = Handle n)) \<and> Vcb m = VcbFree \<and> Worker m = WorkerIdle"

lemma agent_can_finish:
  assumes "a \<in># Agents m" "\<And>n. a \<noteq> Handle n"
  shows "\<exists>e. finishes e \<and> enabled e m"
proof (cases a)
  case (Pinned n) with assms show ?thesis by (intro exI [of _ "Unpin n"]) simp
next
  case (PinnedOpening n) with assms show ?thesis by (intro exI [of _ "OpenDone n"]) simp
next
  case (TestRef n) with assms show ?thesis by (intro exI [of _ "ReadRef n"]) simp
next
  case (TestPin n) with assms show ?thesis by (intro exI [of _ "ReadPin n"]) simp
next
  case (Claiming n) with assms show ?thesis by (intro exI [of _ "Claim n"]) simp
next
  case (Pushing n) with assms show ?thesis by (intro exI [of _ "Push n"]) simp
next
  case Kicking with assms show ?thesis by (intro exI [of _ Kick]) simp
qed (use assms in auto)

text \<open>There is no deadlock: while a thread has something left to do, some thread can do it.\<close>

lemma can_finish:
  assumes inv: "Inv nls m" and busy: "\<not> quiescent m"
  shows "\<exists>e. finishes e \<and> enabled e m"
proof (cases "\<exists>a. a \<in># Agents m \<and> (\<forall>n. a \<noteq> Handle n)")
  case True
  then show ?thesis using agent_can_finish by blast
next
  case False
  then have handles: "\<exists>n. a = Handle n" if "a \<in># Agents m" for a using that by blast
  then have idle: "bucket_idle m n" for n by (fastforce simp: bucket_idle_def)
  have worker: "Worker m = WorkerRunning \<longleftrightarrow> worker_owns (Vcb m)" using InvD(8) [OF inv] by (simp add: worker_ok_def)
  show ?thesis
  proof (cases "Vcb m")
    case VcbFree
    then show ?thesis
    proof (cases "Worker m")
      case WorkerIdle with VcbFree busy handles show ?thesis by (auto simp: quiescent_def)
    next
      case WorkerQueued then show ?thesis by (intro exI [of _ WorkerTake]) simp
    next
      case (WorkerPopped b) with VcbFree show ?thesis by (intro exI [of _ WorkerAcquire]) simp
    next
      case WorkerRunning with VcbFree worker show ?thesis by simp
    next
      case WorkerTail then show ?thesis by (intro exI [of _ WorkerTails]) simp
    qed
  next
    case (WorkerAt batch)
    then show ?thesis
      by (cases batch) (use idle in \<open>auto intro: exI [of _ WorkerRelease] exI [of _ WorkerDecide]\<close>)
  next
    case (WorkerFree n b) then show ?thesis by (intro exI [of _ WorkerFrees]) simp
  next
    case (WalkAt d k) with idle show ?thesis by (intro exI [of _ WalkDecide]) simp
  next
    case (WalkFree d k) then show ?thesis by (intro exI [of _ WalkFrees]) simp
  next
    case (ColdFound n) then show ?thesis by (intro exI [of _ ColdReturn]) simp
  next
    case (ColdFresh n) then show ?thesis by (intro exI [of _ ColdRefuse]) simp
  next
    case (ColdOpening n f) then show ?thesis by (intro exI [of _ ColdDone]) simp
  next
    case (ColdOpened n) with idle show ?thesis by (intro exI [of _ ColdPublish]) simp
  next
    case (ColdFailed n) then show ?thesis by (intro exI [of _ ColdDefer]) simp
  next
    case (ColdDrop n) then show ?thesis by (intro exI [of _ ColdFrees]) simp
  qed
qed

section \<open>It ends\<close>

text \<open>
  A bound on the number of events that are left. A kick may start a pass of the worker; a pass
  kicks again only when nodes were pushed meanwhile; every freed node is gone.
\<close>

fun agent_cost :: "agent \<Rightarrow> nat" where
  "agent_cost (Handle _) = 0"
| "agent_cost (PinnedOpening _) = 51"
| "agent_cost (Pinned _) = 50"
| "agent_cost (TestRef _) = 49"
| "agent_cost (TestPin _) = 48"
| "agent_cost (Claiming _) = 47"
| "agent_cost (Pushing _) = 46"
| "agent_cost Kicking = 11"

fun worker_cost :: "worker_phase \<Rightarrow> bool \<Rightarrow> nat" where
  "worker_cost WorkerIdle pending = 0"
| "worker_cost WorkerQueued pending = 10"
| "worker_cost (WorkerPopped batch) pending = (if pending then 14 else 3) + 4 * length batch"
| "worker_cost WorkerRunning pending = (if pending then 13 else 2)"
| "worker_cost WorkerTail pending = (if pending then 12 else 1)"

fun vcb_cost :: "vcb_phase \<Rightarrow> nat" where
  "vcb_cost VcbFree = 0"
| "vcb_cost (WorkerAt batch) = 4 * length batch"
| "vcb_cost (WorkerFree n batch) = 3 + 4 * length batch"
| "vcb_cost (WalkAt d k) = 2 + 4 * length (batch_of k)"
| "vcb_cost (WalkFree d k) = 1 + 4 * length (batch_of k)"
| "vcb_cost (ColdFound n) = 54"
| "vcb_cost (ColdFresh n) = 54"
| "vcb_cost (ColdOpening n f) = 53"
| "vcb_cost (ColdOpened n) = 1"
| "vcb_cost (ColdFailed n) = 50"
| "vcb_cost (ColdDrop n) = 3"

definition work_left :: "machine \<Rightarrow> nat" where
  "work_left m =
     sum_mset (image_mset agent_cost (Agents m)) + worker_cost (Worker m) (ReapList (Mem m) \<noteq> []) + vcb_cost (Vcb m) +
     20 * length (ReapList (Mem m)) + 3 * card (dom (Nodes (Mem m)))"

lemma cost_become:
  assumes "a \<in># A"
  shows "sum_mset (image_mset agent_cost (A - {#a#} + B)) + agent_cost a =
    sum_mset (image_mset agent_cost A) + sum_mset (image_mset agent_cost B)"
proof -
  obtain A0 where "A = add_mset a A0" using assms by (rule mset_add)
  then show ?thesis by simp
qed

definition same_size :: "node_state \<Rightarrow> node_state \<Rightarrow> bool" where
  "same_size s s' \<longleftrightarrow> dom (Nodes s') = dom (Nodes s) \<and> ReapList s' = ReapList s"

lemma same_size_simps [simp]: "same_size s s" "same_size (s\<lparr>NodeTable := T\<rparr>) s' = same_size s s'"
  by (simp_all add: same_size_def)

lemma same_size_trans: "same_size s s1 \<Longrightarrow> same_size s1 s2 \<Longrightarrow> same_size s s2"
  by (simp add: same_size_def)

lemma same_sizeD: "same_size s s' \<Longrightarrow> card (dom (Nodes s')) = card (dom (Nodes s))" "same_size s s' \<Longrightarrow> ReapList s' = ReapList s"
  by (simp_all add: same_size_def)

lemma with_node_size:
  assumes "with_node n f s = Some s'"
  shows "same_size s s'"
proof -
  obtain x where "Nodes s n = Some x" "s' = s\<lparr>Nodes := (Nodes s)(n \<mapsto> f x)\<rparr>" using assms by (auto simp: with_node_def)
  then show ?thesis by (simp add: same_size_def insert_absorb domI)
qed

lemma table_unlink_size: "table_unlink n s = Some s' \<Longrightarrow> same_size s s'"
  by (auto simp: table_unlink_def Let_def split: option.splits if_splits dest: with_node_size)

lemma free_card:
  assumes inv: "Inv nls m" and q: "quiet (Root m) (Nodes (Mem m)) (Agents m) n"
    and s': "BlorgFreeFileContext nls n (Mem m) = Some s'"
  shows "Suc (card (dom (Nodes s'))) = card (dom (Nodes (Mem m)))" "ReapList s' = ReapList (Mem m)"
proof -
  note I = InvD [OF inv]
  obtain x where x: "Nodes (Mem m) n = Some x" "n \<noteq> Root m" using q by (auto simp: quiet_def)
  obtain p where p: "Nodes (Mem m) (ParentDcb x) = Some p" using tree_parent [OF I(1) x] by metis
  have s: "Nodes s' = without_leaf (Nodes (Mem m)) n (ParentDcb x) p" "ReapList s' = ReapList (Mem m)"
    using free_ok [OF I(1,2) x p] s' by auto
  have "dom (Nodes s') = dom (Nodes (Mem m)) - {n}" using s(1) p by (auto simp: without_leaf_def)
  moreover have "finite (dom (Nodes (Mem m)))" "n \<in> dom (Nodes (Mem m))" using I(1) x by (auto simp: tree_ok_def)
  ultimately show "Suc (card (dom (Nodes s'))) = card (dom (Nodes (Mem m)))"
    using card_Suc_Diff1 [of "dom (Nodes (Mem m))" n] by simp
  show "ReapList s' = ReapList (Mem m)" by (rule s(2))
qed

lemma publish_size: "BlorgNodeTablePublish n s = Some s' \<Longrightarrow> same_size s s'"
  by (auto simp: BlorgNodeTablePublish_def Let_def split: option.splits if_splits dest: with_node_size)

lemma reap_decide_size: "reap_decide n s = Some (b, s') \<Longrightarrow> same_size s s'"
  by (auto simp: reap_decide_def split: option.splits if_splits dest: with_node_size table_unlink_size)

lemma claim_reap_size: "claim_reap n s = Some (b, s') \<Longrightarrow> same_size s s'"
  by (auto simp: claim_reap_def split: option.splits if_splits dest: with_node_size)

lemma try_retire_size: "NodeTableTryRetire n s = Some (b, s') \<Longrightarrow> same_size s s'"
  by (auto simp: NodeTableTryRetire_def split: option.splits if_splits bind_splits
    dest!: with_node_size table_unlink_size intro: same_size_trans)

lemma agent_work:
  assumes a: "a \<in># Agents m" and mem: "same_size (Mem m) s'"
    and less: "sum_mset (image_mset agent_cost B) < agent_cost a"
  shows "work_left (become a B (m\<lparr>Mem := s'\<rparr>)) < work_left m"
  using cost_become [OF a, of B] less same_sizeD [OF mem] by (simp add: work_left_def become_def)

lemma agent_finish_work:
  assumes inv: "Inv nls m" and en: "enabled e m" and ex: "exec nls dissect e m = Some m'"
    and e: "e \<in> {OpenDone n, OpenFail n, Unpin n, ReadRef n, ReadPin n, Claim n, Push n, Kick}"
  shows "work_left m' < work_left m"
proof -
  consider "e = OpenDone n" | "e = OpenFail n" | "e = Unpin n" | "e = ReadRef n" | "e = ReadPin n" | "e = Claim n" | "e = Push n" | "e = Kick"
    using e by blast
  then show ?thesis
  proof cases
    case 1
    with en ex show ?thesis using agent_work [of "PinnedOpening n" m "Mem m" "{#Pinned n, Handle n#}"] by auto
  next
    case 2
    then obtain s' where s': "drop_ref n (Mem m) = Some s'" "m' = become (PinnedOpening n) {#Pinned n#} (m\<lparr>Mem := s'\<rparr>)"
      using ex by (auto simp: run_def)
    with 2 en show ?thesis by (auto intro!: agent_work intro: with_node_size simp: drop_ref_def)
  next
    case 3
    then obtain s' where s': "drop_pin n (Mem m) = Some s'" "m' = become (Pinned n) {#TestRef n#} (m\<lparr>Mem := s'\<rparr>)"
      using ex by (auto simp: run_def)
    with 3 en show ?thesis by (auto intro!: agent_work intro: with_node_size simp: drop_pin_def)
  next
    case 4
    with en ex obtain b where "m' = become (TestRef n) (if b then {#TestPin n#} else {#}) m" by auto
    with 4 en show ?thesis using agent_work [of "TestRef n" m "Mem m"] by auto
  next
    case 5
    with en ex obtain b where "m' = become (TestPin n) (if b then {#Claiming n#} else {#}) m" by auto
    with 5 en show ?thesis using agent_work [of "TestPin n" m "Mem m"] by auto
  next
    case 6
    then obtain c s' where s': "claim_reap n (Mem m) = Some (c, s')"
        "m' = become (Claiming n) (if c then {#Pushing n#} else {#}) (m\<lparr>Mem := s'\<rparr>)"
      using ex by (auto split: bind_splits)
    from claim_reap_size [OF s'(1)] 6 en s'(2) show ?thesis by (auto intro!: agent_work)
  next
    case 7
    then have a: "Pushing n \<in># Agents m" using en by simp
    have m': "m' = become (Pushing n) {#Kicking#} (m\<lparr>Mem := (Mem m)\<lparr>ReapList := n # ReapList (Mem m)\<rparr>\<rparr>)"
      using 7 ex by (auto simp: run_def push_reap_def split: if_splits)
    have "worker_cost w p \<le> worker_cost w q + 11" for w p q by (cases w) auto
    from this [of "Worker m" True "ReapList (Mem m) \<noteq> []"] show ?thesis
      using cost_become [OF a, of "{#Kicking#}"] by (simp add: m' work_left_def become_def)
  next
    case 8
    then have a: "Kicking \<in># Agents m" using en by simp
    obtain s' where s': "NodeReapKick (Mem m) = Some s'" "Nodes s' = Nodes (Mem m)" "ReapList s' = ReapList (Mem m)"
        "m' = become Kicking {#} (m\<lparr>Mem := s', Worker := (if Queued s' \<and> \<not> Queued (Mem m) then WorkerQueued else Worker m)\<rparr>)"
      using 8 ex by (auto simp: NodeReapKick_def split: if_splits)
    have "Worker m = WorkerIdle" if "\<not> Queued (Mem m)" using InvD(8) [OF inv] that by (simp add: worker_ok_def)
    then show ?thesis
      using cost_become [OF a, of "{#}"] s' by (auto simp: work_left_def become_def)
  qed
qed

lemma resume_cost [simp]: "vcb_cost (resume k) = 4 * length (batch_of k)"
  by (cases k) (simp_all add: resume_def)

lemma vcb_finish_work:
  assumes inv: "Inv nls m" and en: "enabled e m" and ex: "exec nls dissect e m = Some m'"
    and e: "e \<in> {WorkerTake, WorkerAcquire, WorkerDecide, WorkerFrees, WorkerRelease, WorkerTails, WalkDecide, WalkFrees,
      ColdReturn, ColdRefuse, ColdBegin, ColdDone, ColdFail, ColdPublish, ColdDefer, ColdFrees}"
  shows "work_left m' < work_left m"
proof -
  note I = InvD [OF inv]
  have free: ?thesis if V: "vcb_ok (Root m) (Nodes (Mem m)) (Agents m) (Vcb m) \<Longrightarrow> quiet (Root m) (Nodes (Mem m)) (Agents m) n"
      "vcb_cost (WalkAt p k) \<le> vcb_cost (Vcb m) + 2"
      and r: "run (BlorgFreeFileContext nls n (Mem m)) (Vcb_update (\<lambda>_. WalkAt p k)) m = Some m'" for n p k
  proof -
    obtain s' where s': "BlorgFreeFileContext nls n (Mem m) = Some s'" "m' = m\<lparr>Mem := s', Vcb := WalkAt p k\<rparr>"
      using r by (auto simp: run_def)
    show ?thesis using free_card [OF inv V(1) [OF I(7)] s'(1)] s'(2) V(2) by (simp add: work_left_def)
  qed
  have ref: ?thesis if "with_node n f (Mem m) = Some s'" "m' = m\<lparr>Mem := s', Vcb := V'\<rparr>" "vcb_cost V' < vcb_cost (Vcb m)" for n f s' V'
    using same_sizeD [OF with_node_size [OF that(1)]] that(2,3) by (simp add: work_left_def)
  consider "e \<in> {WorkerTake, WorkerAcquire, WorkerRelease, WorkerTails}" | "e = WorkerDecide" | "e = WalkDecide"
    | "e \<in> {WorkerFrees, WalkFrees, ColdFrees}" | "e \<in> {ColdReturn, ColdRefuse, ColdDone, ColdDefer}" | "e \<in> {ColdBegin, ColdFail}" | "e = ColdPublish"
    using e by blast
  then show ?thesis
  proof cases
    case 1
    have "Worker m = WorkerRunning" if "Vcb m = WorkerAt []" using I(8) that by (simp add: worker_ok_def)
    with 1 en ex show ?thesis
      by (auto simp: work_left_def worker_tail_def split: worker_phase.splits if_splits)
  next
    case 2
    then obtain n batch b s' where V: "Vcb m = WorkerAt (n # batch)" and r: "reap_decide n (Mem m) = Some (b, s')"
      and m': "m' = m\<lparr>Mem := s', Vcb := (if b then WorkerFree n batch else WorkerAt batch)\<rparr>"
      using en ex by (auto split: vcb_phase.splits list.splits bind_splits)
    show ?thesis using same_sizeD [OF reap_decide_size [OF r]] V m' by (simp add: work_left_def)
  next
    case 3
    then obtain d k where V: "Vcb m = WalkAt d k" "walk_decide d k m = Some m'" using en ex by (auto split: vcb_phase.splits)
    then show ?thesis
      by (auto simp: walk_decide_def work_left_def same_size_def split: option.splits if_splits bind_splits dest!: try_retire_size)
  next
    case 4
    then show ?thesis
    proof (cases "Vcb m")
      case (WorkerFree n b)
      then obtain p where "run (BlorgFreeFileContext nls n (Mem m)) (Vcb_update (\<lambda>_. WalkAt p (Some b))) m = Some m'"
        using 4 en ex by (auto split: bind_splits)
      with WorkerFree free [of n p "Some b"] show ?thesis by simp
    next
      case (WalkFree n k)
      then obtain p where "run (BlorgFreeFileContext nls n (Mem m)) (Vcb_update (\<lambda>_. WalkAt p (k))) m = Some m'"
        using 4 en ex by (auto split: bind_splits)
      with WalkFree free [of n p k] show ?thesis by simp
    next
      case (ColdDrop n)
      then obtain p where "run (BlorgFreeFileContext nls n (Mem m)) (Vcb_update (\<lambda>_. WalkAt p (None))) m = Some m'"
        using 4 en ex by (auto split: bind_splits)
      with ColdDrop free [of n p None] show ?thesis by simp
    qed (use en 4 in auto)
  next
    case 5
    with en ex show ?thesis by (auto simp: work_left_def split: vcb_phase.splits)
  next
    case 6
    then obtain n f s' V' where "with_node n f (Mem m) = Some s'" "m' = m\<lparr>Mem := s', Vcb := V'\<rparr>" "vcb_cost V' < vcb_cost (Vcb m)"
      using en ex by (auto simp: run_def take_ref_def drop_ref_def split: vcb_phase.splits if_splits)
    then show ?thesis by (rule ref)
  next
    case 7
    then obtain n s' where V: "Vcb m = ColdOpened n" and p: "BlorgNodeTablePublish n (Mem m) = Some s'"
      and m': "m' = m\<lparr>Mem := s', Vcb := VcbFree\<rparr>"
      using en ex by (auto simp: run_def split: vcb_phase.splits)
    show ?thesis using same_sizeD [OF publish_size [OF p]] V m' by (simp add: work_left_def)
  qed
qed

lemma finish_work:
  assumes inv: "Inv nls m" and e: "finishes e" "enabled e m" and ex: "exec nls dissect e m = Some m'"
  shows "work_left m' < work_left m"
  using agent_finish_work [OF inv e(2) ex] vcb_finish_work [OF inv e(2) ex] e(1) by (cases e) auto

lemma finishing_run_bounded:
  assumes "Inv nls m" "list_all finishes es" "exec_all nls dissect es m = Some m'"
  shows "length es + work_left m' \<le> work_left m"
  using assms
proof (induction es arbitrary: m)
  case (Cons e es)
  then obtain m1 where m1: "enabled e m" "exec nls dissect e m = Some m1" "exec_all nls dissect es m1 = Some m'"
    by (auto split: if_splits bind_splits)
  have "finishes e" using Cons.prems(2) by simp
  then have "work_left m1 < work_left m" using m1(1,2) by (rule finish_work [OF Cons.prems(1)])
  moreover have "length es + work_left m' \<le> work_left m1"
    using Cons.IH [OF exec_Inv [OF Cons.prems(1) m1(1,2)]] Cons.prems(2) m1(3) by simp
  ultimately show ?case by simp
qed simp

lemma finishing_run_exists:
  assumes "Inv nls m"
  obtains es m' where "list_all finishes es" "exec_all nls dissect es m = Some m'" "quiescent m'" "Inv nls m'"
  using assms
proof (induction "work_left m" arbitrary: m thesis rule: less_induct)
  case less
  show ?case
  proof (cases "quiescent m")
    case True
    then show ?thesis using less.prems(1) [of "[]" m] less.prems(2) by simp
  next
    case False
    then obtain e where e: "finishes e" "enabled e m" using can_finish [OF less.prems(2)] by blast
    obtain m1 where m1: "exec nls dissect e m = Some m1" using exec_live [OF less.prems(2) e(2)] by blast
    obtain es m' where "list_all finishes es" "exec_all nls dissect es m1 = Some m'" "quiescent m'" "Inv nls m'"
      using less.hyps [OF finish_work [OF less.prems(2) e m1] _ exec_Inv [OF less.prems(2) e(2) m1]] by metis
    then show ?thesis using less.prems(1) [of "e # es" m'] e m1 by simp
  qed
qed

section \<open>What is left is in use\<close>

definition below :: "nodes \<Rightarrow> node_ptr \<Rightarrow> node_ptr \<Rightarrow> bool" where
  "below N c p \<longleftrightarrow> (\<exists>x. N c = Some x \<and> ParentDcb x = p)"

definition leads_to_open :: "machine \<Rightarrow> node_ptr \<Rightarrow> bool" where
  "leads_to_open m n \<longleftrightarrow> (\<exists>c. (below (Nodes (Mem m)))\<^sup>*\<^sup>* c n \<and> Handle c \<in># Agents m)"

lemma quiescent_in_use:
  assumes inv: "Inv nls m" and q: "quiescent m" "\<not> ShuttingDown (Mem m)" and n: "Nodes (Mem m) n = Some x" "n \<noteq> Root m"
  shows "leads_to_open m n"
proof -
  note I = InvD [OF inv]
  have none: "\<not> tested (Agents m) k" "\<not> attends (Vcb m) k" "Pushing k \<notin># Agents m" for k
    using q(1) by (auto simp: quiescent_def tested_def)
  have "\<not> Queued (Mem m)" using I(8) q(1) by (simp add: worker_ok_def quiescent_def)
  moreover have "Kicking \<notin># Agents m" using q(1) by (auto simp: quiescent_def)
  ultimately have "ReapList (Mem m) = []" using I(10) q(2) by (auto simp: kick_ok_def)
  then have unclaimed: "claimed (Nodes (Mem m)) k = 0" for k
    using I(6) q(1) none(3) [of k] by (auto simp: claims_ok_def claim_count_def quiescent_def not_in_iff)
  obtain rank where rank: "ranked (Root m) (Nodes (Mem m)) rank" using I(1) by (auto simp: tree_ok_def)
  let ?top = "Max (rank ` dom (Nodes (Mem m)))"
  have fin: "finite (dom (Nodes (Mem m)))" using I(1) by (simp add: tree_ok_def)
  show ?thesis
    using n
  proof (induction "?top - rank n" arbitrary: n x rule: less_induct)
    case less
    note n = less.prems
    have top: "rank k \<le> ?top" if "Nodes (Mem m) k = Some y" for k y using fin that by (intro Max_ge) auto
    have "\<not> idle x" using I(9) n unclaimed [of n] none by (auto simp: strand_ok_def claimed_def)
    moreover have "PinCount x = 0"
    proof -
      have "Pinned n \<notin># Agents m" "PinnedOpening n \<notin># Agents m" using q(1) by (auto simp: quiescent_def)
      then show ?thesis using I(4) n(1) by (simp add: counts_ok_def pins_def not_in_iff)
    qed
    ultimately consider "RefCount x \<noteq> 0" | c where "c \<in> set (ChildrenList x)"
      by (auto simp: idle_def) (metis list.set_intros(1) neq_Nil_conv)
    then show ?case
    proof cases
      case 1
      have "PinnedOpening n \<notin># Agents m" "opening_count (Vcb m) n = 0" using q(1) by (auto simp: quiescent_def)
      then have "Handle n \<in># Agents m"
        using I(4) n(1) 1 by (auto simp: counts_ok_def refs_def not_in_iff)
      then show ?thesis unfolding leads_to_open_def by blast
    next
      case 2
      obtain y where y: "Nodes (Mem m) c = Some y" "ParentDcb y = n" "c \<noteq> Root m"
        using tree_child [OF I(1) n(1) 2] by metis
      have "rank n < rank c" using rank y by (auto simp: ranked_def)
      then have "?top - rank c < ?top - rank n" using top [OF y(1)] by linarith
      then have "leads_to_open m c" using less.hyps y(1,3) by blast
      moreover have "below (Nodes (Mem m)) c n" using y by (auto simp: below_def)
      ultimately show ?thesis unfolding leads_to_open_def by (meson rtranclp.rtrancl_into_rtrancl)
    qed
  qed
qed

end
