(* ===== verification/Node_Runs.thy ===== *)
theory Node_Runs
  imports Node_Settle
begin

text \<open>
  The whole operations of Structs.c, run without interruption, are runs of the node machine:
  the drops of a pin and of a handle, the walk over empty ancestors and the reap worker. A node
  that is created, linked and freed again leaves no trace.
\<close>

section \<open>Runs\<close>

lemma exec_all_append:
  "exec_all nls dissect (es @ fs) m = Option.bind (exec_all nls dissect es m) (exec_all nls dissect fs)"
proof (induction es arbitrary: m)
  case (Cons e es)
  then show ?case by (cases "exec nls dissect e m") simp_all
qed simp

lemma exec_all_Inv: "Inv nls m \<Longrightarrow> exec_all nls dissect es m = Some m' \<Longrightarrow> Inv nls m'"
  by (induction es arbitrary: m) (auto split: if_splits bind_splits intro: exec_Inv)

lemma exec_root: "exec nls dissect e m = Some m' \<Longrightarrow> Root m' = Root m"
  by (cases e) (auto simp: run_def become_def cold_enter_def walk_decide_def worker_tail_def
    split: option.splits bind_splits vcb_phase.splits worker_phase.splits list.splits if_splits prod.splits)

lemma reachable_root: "reachable nls dissect root m \<Longrightarrow> Root m = root"
  by (induction rule: reachable.induct) (auto simp: volume_start_def dest: exec_root)

section \<open>The drops\<close>

text \<open>The idle test and what follows it, for a thread that holds the bucket lock.\<close>

lemma test_run:
  assumes inv: "Inv nls m" and a: "TestRef n \<in># Agents m"
  obtains es m' where "exec_all nls dissect es m = Some m'" "NodeDeferReapIfIdleLocked n (Mem m) = Some (Mem m')" "list_all finishes es"
    "Agents m' = Agents m - {#TestRef n#}" "Vcb m' = Vcb m"
proof -
  obtain x where x: "Nodes (Mem m) n = Some x" using agent_node [OF inv a] by auto
  have item: "WorkItem (Mem m)" using InvD(8) [OF inv] by (simp add: worker_ok_def)
  obtain A0 where A0: "Agents m = add_mset (TestRef n) A0" using a by (rule mset_add)
  consider "RefCount x \<noteq> 0" | "RefCount x = 0" "PinCount x \<noteq> 0" | "RefCount x = 0" "PinCount x = 0" "OnReapList x"
    | "RefCount x = 0" "PinCount x = 0" "\<not> OnReapList x" by blast
  then show thesis
  proof cases
    case 1
    show thesis
      by (rule that [of "[ReadRef n]" "m\<lparr>Agents := A0\<rparr>"])
        (use 1 x A0 in \<open>auto simp: become_def NodeDeferReapIfIdleLocked_def\<close>)
  next
    case 2
    show thesis
      by (rule that [of "[ReadRef n, ReadPin n]" "m\<lparr>Agents := A0\<rparr>"])
        (use 2 x A0 in \<open>auto simp: become_def NodeDeferReapIfIdleLocked_def\<close>)
  next
    case 3
    show thesis
      by (rule that [of "[ReadRef n, ReadPin n, Claim n]" "m\<lparr>Agents := A0\<rparr>"])
        (use 3 x A0 in \<open>auto simp: become_def NodeDeferReapIfIdleLocked_def BlorgNodeDeferReap_def claim_reap_def\<close>)
  next
    case 4
    let ?s = "(Mem m)\<lparr>Nodes := (Nodes (Mem m))(n \<mapsto> x\<lparr>OnReapList := True\<rparr>), ReapList := n # ReapList (Mem m)\<rparr>"
    let ?s' = "if Queued (Mem m) \<or> ShuttingDown (Mem m) then ?s else ?s\<lparr>Queued := True\<rparr>"
    let ?W = "if Queued (Mem m) \<or> ShuttingDown (Mem m) then Worker m else WorkerQueued"
    show thesis
      by (rule that [of "[ReadRef n, ReadPin n, Claim n, Push n, Kick]" "m\<lparr>Mem := ?s', Agents := A0, Worker := ?W\<rparr>"])
        (use 4 x A0 item in \<open>auto simp: become_def run_def NodeDeferReapIfIdleLocked_def BlorgNodeDeferReap_def
           claim_reap_def push_reap_def NodeReapKick_def with_node_def\<close>)
  qed
qed

lemma drop_run:
  assumes inv: "Inv nls m" and e: "enabled e m" "exec nls dissect e m = Some m1" "TestRef n \<in># Agents m1"
  obtains es m' where "exec_all nls dissect (e # es) m = Some m'" "NodeDeferReapIfIdleLocked n (Mem m1) = Some (Mem m')" "list_all finishes es"
    "Agents m' = Agents m1 - {#TestRef n#}" "Vcb m' = Vcb m1"
proof -
  obtain es m' where "exec_all nls dissect es m1 = Some m'" "NodeDeferReapIfIdleLocked n (Mem m1) = Some (Mem m')" "list_all finishes es"
      "Agents m' = Agents m1 - {#TestRef n#}" "Vcb m' = Vcb m1"
    using test_run [OF exec_Inv [OF inv e(1,2)] e(3)] by metis
  with e that show thesis by simp
qed

lemma Unpin_run:
  assumes inv: "Inv nls m" and a: "Pinned n \<in># Agents m"
  obtains es m' where "exec_all nls dissect (Unpin n # es) m = Some m'" "BlorgNodeUnpin n (Mem m) = Some (Mem m')" "list_all finishes es"
    "Agents m' = Agents m - {#Pinned n#}" "Vcb m' = Vcb m"
proof -
  obtain x where "Nodes (Mem m) n = Some x" using agent_node [OF inv a] by auto
  then obtain s1 where s1: "drop_pin n (Mem m) = Some s1" by (auto simp: drop_pin_def with_node_def)
  obtain es m' where "exec_all nls dissect (Unpin n # es) m = Some m'" "NodeDeferReapIfIdleLocked n s1 = Some (Mem m')" "list_all finishes es"
      "Agents m' = Agents m - {#Pinned n#}" "Vcb m' = Vcb m"
  proof (rule drop_run [OF inv])
    show "enabled (Unpin n) m" using a by simp
    show "exec nls dissect (Unpin n) m = Some (become (Pinned n) {#TestRef n#} (m\<lparr>Mem := s1\<rparr>))" using s1 by (simp add: run_def)
    show "TestRef n \<in># Agents (become (Pinned n) {#TestRef n#} (m\<lparr>Mem := s1\<rparr>))" by (simp add: become_def)
  qed (simp add: become_def)
  then show thesis using that s1 by (simp add: BlorgNodeUnpin_def)
qed

lemma Dereference_run:
  assumes inv: "Inv nls m" and a: "Handle n \<in># Agents m" "n \<noteq> Root m"
  obtains es m' where "exec_all nls dissect (Close n # es) m = Some m'" "BlorgNodeDereference n (Mem m) = Some (Mem m')" "list_all finishes es"
    "Agents m' = Agents m - {#Handle n#}" "Vcb m' = Vcb m"
proof -
  obtain x where "Nodes (Mem m) n = Some x" using agent_node [OF inv a(1)] by auto
  then obtain s1 where s1: "drop_ref n (Mem m) = Some s1" by (auto simp: drop_ref_def with_node_def)
  obtain es m' where "exec_all nls dissect (Close n # es) m = Some m'" "NodeDeferReapIfIdleLocked n s1 = Some (Mem m')" "list_all finishes es"
      "Agents m' = Agents m - {#Handle n#}" "Vcb m' = Vcb m"
  proof (rule drop_run [OF inv])
    show "enabled (Close n) m" using a by simp
    show "exec nls dissect (Close n) m = Some (become (Handle n) {#TestRef n#} (m\<lparr>Mem := s1\<rparr>))" using s1 by (simp add: run_def)
    show "TestRef n \<in># Agents (become (Handle n) {#TestRef n#} (m\<lparr>Mem := s1\<rparr>))" by (simp add: become_def)
  qed (simp add: become_def)
  then show thesis using that s1 by (simp add: BlorgNodeDereference_def)
qed

section \<open>The walk and the worker\<close>

definition no_bucket_held :: "machine \<Rightarrow> bool" where
  "no_bucket_held m \<longleftrightarrow> (\<forall>a. a \<in># Agents m \<longrightarrow> holds_bucket_of a = None)"

lemma no_bucket_held_idle: "no_bucket_held m \<Longrightarrow> bucket_idle m n"
  by (auto simp: no_bucket_held_def bucket_idle_def)

lemma walk_run:
  assumes "Inv nls m" "Vcb m = WalkAt d k" "no_bucket_held m"
  obtains es s' where "exec_all nls dissect es m = Some (m\<lparr>Mem := s', Vcb := resume k\<rparr>)"
    "BlorgReapEmptyAncestorDcbs nls d (Mem m) = Some s'" "list_all finishes es"
  using assms
proof (induction "work_left m" arbitrary: m d thesis rule: less_induct)
  case less
  note inv = less.prems(2) and V = less.prems(3) and free = less.prems(4)
  obtain x where x: "Nodes (Mem m) d = Some x" using InvD(7) [OF inv] V by (auto simp: directory_at_def)
  have en: "enabled WalkDecide m" using V no_bucket_held_idle [OF free] by simp
  obtain m1 where m1: "exec nls dissect WalkDecide m = Some m1" using exec_live [OF inv en] by blast
  have inv1: "Inv nls m1" using exec_Inv [OF inv en m1] .
  show ?case
  proof (cases "NodeTypeCode x = DCB_SIGNATURE \<and> ChildrenList x = []")
    case False
    have unfold: "BlorgReapEmptyAncestorDcbs nls d (Mem m) = Some (Mem m)"
      using False x by (subst BlorgReapEmptyAncestorDcbs.simps) auto
    have "m1 = m\<lparr>Vcb := resume k\<rparr>" using m1 V x False by (auto simp: walk_decide_def)
    then show ?thesis
      using less.prems(1) [of "[WalkDecide]" "Mem m"] en m1 unfold by (auto simp del: exec.simps)
  next
    case True
    obtain r s1 where r: "NodeTableTryRetire d (Mem m) = Some (r, s1)"
      and m1': "m1 = m\<lparr>Mem := s1, Vcb := (if r then WalkFree d k else resume k)\<rparr>"
      using m1 V x True by (auto simp: walk_decide_def split: bind_splits)
    show ?thesis
    proof (cases r)
      case False
      have "BlorgReapEmptyAncestorDcbs nls d (Mem m) = Some s1"
        using False True x r by (subst BlorgReapEmptyAncestorDcbs.simps) auto
      then show ?thesis
        using less.prems(1) [of "[WalkDecide]" s1] en m1 m1' False by (auto simp del: exec.simps)
    next
      case retired: True
      have en2: "enabled WalkFrees m1" using m1' retired by simp
      obtain m2 where m2: "exec nls dissect WalkFrees m1 = Some m2" using exec_live [OF inv1 en2] by blast
      have inv2: "Inv nls m2" using exec_Inv [OF inv1 en2 m2] .
      have "same_size (Mem m) s1" using r by (rule try_retire_size)
      obtain y where y: "Nodes s1 d = Some y" using InvD(7) [OF inv1] m1' retired by (auto simp: quiet_def)
      have yx: "ParentDcb y = ParentDcb x"
        using r x y by (auto simp: NodeTableTryRetire_def table_unlink_def with_node_def Let_def split: if_splits bind_splits option.splits)
      obtain s2 where s2: "BlorgFreeFileContext nls d s1 = Some s2" "m2 = m\<lparr>Mem := s2, Vcb := WalkAt (ParentDcb x) k\<rparr>"
        using m2 m1' retired y yx by (auto simp: run_def parent_of_def)
      have "work_left m2 < work_left m"
        using finish_work [OF inv _ en m1] finish_work [OF inv1 _ en2 m2] by simp
      moreover have "no_bucket_held m2" using free s2(2) by (simp add: no_bucket_held_def)
      ultimately obtain es s' where es: "exec_all nls dissect es m2 = Some (m2\<lparr>Mem := s', Vcb := resume k\<rparr>)"
          "BlorgReapEmptyAncestorDcbs nls (ParentDcb x) (Mem m2) = Some s'" "list_all finishes es"
        using less.hyps [OF _ _ inv2, of "ParentDcb x"] s2(2) by auto
      have "BlorgReapEmptyAncestorDcbs nls d (Mem m) = Some s'"
        using True x r retired s2 es(2) by (subst BlorgReapEmptyAncestorDcbs.simps) auto
      then show ?thesis
        using less.prems(1) [of "WalkDecide # WalkFrees # es" s'] en m1 en2 m2 es s2(2) by (auto simp del: exec.simps)
    qed
  qed
qed

lemma batch_run:
  assumes "Inv nls m" "Vcb m = WorkerAt batch" "no_bucket_held m"
  obtains es s' where "exec_all nls dissect es m = Some (m\<lparr>Mem := s', Vcb := WorkerAt []\<rparr>)"
    "reap_batch nls batch (Mem m) = Some s'" "list_all finishes es"
  using assms
proof (induction batch arbitrary: m thesis)
  case Nil
  show ?case by (rule Nil.prems(1) [of "[]" "Mem m"]) (use Nil.prems in \<open>cases m, simp_all\<close>)
next
  case (Cons n batch)
  note inv = Cons.prems(2) and V = Cons.prems(3) and free = Cons.prems(4)
  have en: "enabled WorkerDecide m" using V no_bucket_held_idle [OF free] by simp
  obtain m1 where m1: "exec nls dissect WorkerDecide m = Some m1" using exec_live [OF inv en] by blast
  have inv1: "Inv nls m1" using exec_Inv [OF inv en m1] .
  obtain b s1 where b: "reap_decide n (Mem m) = Some (b, s1)" "m1 = m\<lparr>Mem := s1, Vcb := (if b then WorkerFree n batch else WorkerAt batch)\<rparr>"
    using m1 V by (auto split: bind_splits)
  show ?case
  proof (cases b)
    case False
    have "no_bucket_held m1" using free b(2) by (simp add: no_bucket_held_def)
    then obtain es s' where "exec_all nls dissect es m1 = Some (m1\<lparr>Mem := s', Vcb := WorkerAt []\<rparr>)"
        "reap_batch nls batch (Mem m1) = Some s'" "list_all finishes es"
      using Cons.IH [OF _ inv1] b(2) False by auto
    then show ?thesis
      using Cons.prems(1) [of "WorkerDecide # es" s'] en m1 b False by (auto simp del: exec.simps)
  next
    case True
    have en2: "enabled WorkerFrees m1" using b(2) True by simp
    obtain m2 where m2: "exec nls dissect WorkerFrees m1 = Some m2" using exec_live [OF inv1 en2] by blast
    have inv2: "Inv nls m2" using exec_Inv [OF inv1 en2 m2] .
    obtain y where y: "Nodes s1 n = Some y" using InvD(7) [OF inv1] b(2) True by (auto simp: quiet_def)
    obtain s2 where s2: "BlorgFreeFileContext nls n s1 = Some s2" "m2 = m\<lparr>Mem := s2, Vcb := WalkAt (ParentDcb y) (Some batch)\<rparr>"
      using m2 b(2) True y by (auto simp: run_def parent_of_def)
    have free2: "no_bucket_held m2" using free s2(2) by (simp add: no_bucket_held_def)
    obtain es3 s3 where es3: "exec_all nls dissect es3 m2 = Some (m2\<lparr>Mem := s3, Vcb := resume (Some batch)\<rparr>)"
        "BlorgReapEmptyAncestorDcbs nls (ParentDcb y) (Mem m2) = Some s3" "list_all finishes es3"
      using walk_run [OF inv2 _ free2, of "ParentDcb y" "Some batch" dissect] s2(2) by auto
    let ?m3 = "m2\<lparr>Mem := s3, Vcb := WorkerAt batch\<rparr>"
    have inv3: "Inv nls ?m3" using exec_all_Inv [OF inv2 es3(1)] by (simp add: resume_def)
    have "no_bucket_held ?m3" using free2 by (simp add: no_bucket_held_def)
    then obtain es s' where es: "exec_all nls dissect es ?m3 = Some (?m3\<lparr>Mem := s', Vcb := WorkerAt []\<rparr>)"
        "reap_batch nls batch (Mem ?m3) = Some s'" "list_all finishes es"
      using Cons.IH [OF _ inv3] by auto
    have "reap_batch nls (n # batch) (Mem m) = Some s'"
      using b True y s2 es3(2) es(2) by simp
    moreover have "exec_all nls dissect (WorkerDecide # WorkerFrees # es3 @ es) m = Some (m\<lparr>Mem := s', Vcb := WorkerAt []\<rparr>)"
      using en m1 en2 m2 es3(1) es(1) s2(2) by (simp add: exec_all_append resume_def del: exec.simps)
    ultimately show ?thesis
      using Cons.prems(1) [of "WorkerDecide # WorkerFrees # es3 @ es" s'] es3(3) es(3) by simp
  qed
qed

text \<open>One pass of the reap worker, from its start to its end.\<close>

lemma worker_run:
  assumes inv: "Inv nls m" and w: "Worker m = WorkerQueued" "Vcb m = VcbFree" "no_bucket_held m"
  obtains es m' where "exec_all nls dissect es m = Some m'" "NodeReapWorker nls (Mem m) = Some (Mem m')" "list_all finishes es"
proof -
  let ?L = "ReapList (Mem m)"
  obtain es m1 s1 where m1: "exec_all nls dissect es m = Some m1" "reap_batch nls ?L ((Mem m)\<lparr>ReapList := []\<rparr>) = Some s1"
      "Mem m1 = s1" "Worker m1 = WorkerTail" "list_all finishes es"
  proof (cases "?L = []")
    case True
    show thesis
      by (rule that [of "[WorkerTake]" "m\<lparr>Mem := (Mem m)\<lparr>ReapList := []\<rparr>, Worker := WorkerTail\<rparr>"]) (use True w in auto)
  next
    case False
    let ?m = "m\<lparr>Mem := (Mem m)\<lparr>ReapList := []\<rparr>, Vcb := WorkerAt ?L, Worker := WorkerRunning\<rparr>"
    have e: "exec_all nls dissect [WorkerTake, WorkerAcquire] m = Some ?m" using False w by simp
    have inv': "Inv nls ?m"
    proof -
      have 1: "Inv nls (m\<lparr>Mem := (Mem m)\<lparr>ReapList := []\<rparr>, Worker := WorkerPopped ?L\<rparr>)"
        using exec_Inv [OF inv, of WorkerTake] w False by simp
      show ?thesis using exec_Inv [OF 1, of WorkerAcquire] w by simp
    qed
    have "no_bucket_held ?m" using w(3) by (simp add: no_bucket_held_def)
    then obtain es s1 where es: "exec_all nls dissect es ?m = Some (?m\<lparr>Mem := s1, Vcb := WorkerAt []\<rparr>)"
        "reap_batch nls ?L (Mem ?m) = Some s1" "list_all finishes es"
      using batch_run [OF inv', of ?L dissect] by auto
    have "exec_all nls dissect ([WorkerTake, WorkerAcquire] @ es @ [WorkerRelease]) m =
        Some (?m\<lparr>Mem := s1, Vcb := VcbFree, Worker := WorkerTail\<rparr>)"
      using e es(1) unfolding exec_all_append by simp
    then show thesis using es that by (auto simp del: exec_all.simps)
  qed
  have inv1: "Inv nls m1" by (rule exec_all_Inv [OF inv m1(1)])
  have item: "WorkItem s1" using InvD(8) [OF inv1] m1(3) by (simp add: worker_ok_def)
  show thesis
  proof (cases "ReapList s1 = []")
    case True
    have "exec_all nls dissect (es @ [WorkerTails]) m = Some (m1\<lparr>Mem := s1\<lparr>Queued := False\<rparr>, Worker := WorkerIdle\<rparr>)"
      using m1 True by (simp add: exec_all_append worker_tail_def)
    then show thesis using that m1 True by (auto simp: NodeReapWorker_def worker_tail_def)
  next
    case False
    let ?s = "if ShuttingDown s1 then s1\<lparr>Queued := False\<rparr> else s1\<lparr>Queued := True\<rparr>"
    have "exec_all nls dissect (es @ [WorkerTails, Kick]) m =
        Some (m1\<lparr>Mem := ?s, Worker := if ShuttingDown s1 then WorkerIdle else WorkerQueued\<rparr>)"
      using m1 False item by (simp add: exec_all_append worker_tail_def NodeReapKick_def become_def)
    then show thesis using that m1 False item by (auto simp: NodeReapWorker_def worker_tail_def NodeReapKick_def)
  qed
qed

section \<open>Creation and release\<close>

lemma link_free:
  assumes inv: "Inv nls m" and n: "Nodes (Mem m) n = None" "n \<noteq> 0" and x: "new_leaf p (x\<lparr>ParentDcb := p\<rparr>)"
    and p: "Nodes (Mem m) p = Some px" "is_directory px"
    and l: "l = (if NodeTypeCode x = FCB_SIGNATURE then fcb_ledger (FullPath x) (Ledger (Mem m)) else dcb_ledger (Ledger (Mem m)))"
  shows "\<exists>s2. link_child nls p n ((Mem m)\<lparr>Ledger := l, Nodes := (Nodes (Mem m))(n \<mapsto> x)\<rparr>) = Some s2 \<and>
    BlorgFreeFileContext nls n s2 = Some (Mem m)"
proof -
  note I = InvD [OF inv]
  let ?x = "x\<lparr>ParentDcb := p\<rparr>" and ?s = "Mem m" and ?b = "child_bucket nls (x\<lparr>ParentDcb := p\<rparr>)"
  let ?N = "with_leaf (Nodes ?s) n ?x p px" and ?px = "px\<lparr>ChildrenList := ChildrenList px @ [n]\<rparr>"
  let ?s2 = "?s\<lparr>Ledger := l, Nodes := ?N, NodeChildren := (NodeChildren ?s)(?b := n # NodeChildren ?s ?b)\<rparr>"
  have link: "link_child nls p n (?s\<lparr>Ledger := l, Nodes := (Nodes ?s)(n \<mapsto> x)\<rparr>) = Some ?s2"
    by (rule link_child_ok [OF I(1) n(1) p(1)])
  have pn: "p \<noteq> n" using n p by auto
  have root: "n \<noteq> Root m" using I(1) n(1) by (auto simp: tree_ok_def)
  have T: "tree_ok (Root m) (Nodes ?s2)" using with_leaf_tree [OF I(1) n x p] by simp
  have C: "index_ok nls (Root m) (Nodes ?s2) (NodeChildren ?s2)" using with_leaf_index [OF I(2) n(1) root p(1), of ?x] by simp
  have nx: "Nodes ?s2 n = Some ?x" using pn by (simp add: with_leaf_def)
  have np: "Nodes ?s2 (ParentDcb ?x) = Some ?px" using pn by (simp add: with_leaf_def)
  have nc: "n \<notin> set (ChildrenList px)" using tree_child [OF I(1) p(1)] n(1) by (metis option.distinct(1))
  have "without_leaf ?N n p ?px = Nodes ?s"
    using pn p(1) n(1) nc by (auto simp: without_leaf_def with_leaf_def remove1_append fun_eq_iff)
  moreover have "free_ledger ?x l = Ledger ?s"
    using x l by (auto simp: free_ledger_def deallocate_common_def fcb_ledger_def dcb_ledger_def new_leaf_def Let_def)
  ultimately have "BlorgFreeFileContext nls n ?s2 = Some ?s"
    using free_ok [OF T C nx root np] by (simp add: fun_upd_idem)
  with link show ?thesis by blast
qed

end
