(* ===== verification/Node_Theorems.thy ===== *)
theory Node_Theorems
  imports Node_Runs
begin

text \<open>
  What the node protocol guarantees: no thread ever touches a freed node, the counts and claims
  are exact, begun work ends and leaves nothing behind, the whole operations are runs of
  the machine, and creation that fails leaves no trace. The example is a volume on which the
  file \<open>\a\b\<close> is opened cold and closed again.
\<close>

section \<open>An example\<close>

definition node_dissect :: dissector where
  "node_dissect path =
     (let p = (if path \<noteq> [] \<and> hd path = backslash then tl path else path);
          c = takeWhile (\<lambda>w. w \<noteq> backslash) p
      in (c, drop (length c + 1) p))"

definition node_path :: UNICODE_STRING where "node_path = [backslash, 0x61, backslash, 0x62]"

definition node_meta :: DIRECTORY_ENTRY_METADATA where
  "node_meta = \<lparr>Size = 7, CreationTime = 1, LastAccessedTime = 2, LastModifiedTime = 3, IsDirectory = False, NoStore = False\<rparr>"

definition node_outcome :: "node_ptr \<Rightarrow> create_outcome" where
  "node_outcome a = \<lparr>NonPagedOk = True, NodeAddress = a, NameOk = True, HdrResourceStatus = 0, PagingResourceStatus = 0\<rparr>"

definition node_open :: "event list" where
  "node_open = [ColdEnter node_path node_meta [node_outcome 0x20, node_outcome 0x30], ColdBegin, ColdDone, ColdPublish]"

definition node_close :: "event list" where
  "node_close = [Close 0x30, ReadRef 0x30, ReadPin 0x30, Claim 0x30, Push 0x30, Kick]"

definition node_reap :: "event list" where
  "node_reap = [WorkerTake, WorkerAcquire, WorkerDecide, WorkerFrees, WalkDecide, WalkFrees, WalkDecide, WorkerRelease, WorkerTails]"

definition node_after :: "event list \<Rightarrow> machine" where
  "node_after es = the (exec_all ascii_nls node_dissect es (volume_start ascii_nls 0x10))"

lemma node_after_reachable:
  assumes "exec_all ascii_nls node_dissect es (volume_start ascii_nls 0x10) \<noteq> None"
  shows "reachable ascii_nls node_dissect 0x10 (node_after es)"
  by (rule exec_all_reachable [OF reachable.start]) (use assms in \<open>auto simp: node_after_def\<close>)

lemma node_opened:
  "reachable ascii_nls node_dissect 0x10 (node_after node_open)" "Handle 0x30 \<in># Agents (node_after node_open)"
  "Root (node_after node_open) = 0x10"
proof -
  show r: "reachable ascii_nls node_dissect 0x10 (node_after node_open)" by (rule node_after_reachable) code_simp
  show "Handle 0x30 \<in># Agents (node_after node_open)" by code_simp
  show "Root (node_after node_open) = 0x10" using r by (rule reachable_root)
qed

section \<open>Safety\<close>

text \<open>C3.
  No use after free: in every reachable state of the volume, whatever the interleaving of opens,
  closes, pins, tests, the worker and cold opens, every event that is enabled runs without
  touching memory that is not a live node (Structs.c, NodeTableTryRetire to BlorgInsertByPath), and
  in the state it leaves every node that a handle, a pin or a thread inside an idle test refers to
  is live.
\<close>

theorem nodes_never_dangle:
  assumes "reachable nls dissect root m" "enabled e m"
  shows "\<exists>m'. exec nls dissect e m = Some m' \<and> reachable nls dissect root m' \<and>
    (\<forall>a n. a \<in># Agents m' \<longrightarrow> node_of a = Some n \<longrightarrow> Nodes (Mem m') n \<noteq> None)"
proof -
  note inv = reachable_Inv [OF assms(1)]
  obtain m' where m': "exec nls dissect e m = Some m'" using exec_live [OF inv assms(2)] by blast
  moreover have "reachable nls dissect root m'" using assms m' by (rule reachable.step)
  moreover have "agents_ok (Root m') (Nodes (Mem m')) (Agents m')" using InvD(5) [OF exec_Inv [OF inv assms(2) m']] .
  ultimately show ?thesis unfolding agents_ok_def by blast
qed

lemma nodes_never_dangle_witness:
  "\<exists>m'. exec ascii_nls node_dissect (Close 0x30) (node_after node_open) = Some m' \<and> Nodes (Mem m') 0x30 \<noteq> None"
proof -
  have "enabled (Close 0x30) (node_after node_open)" using node_opened by simp
  then obtain m' where m': "exec ascii_nls node_dissect (Close 0x30) (node_after node_open) = Some m'"
      "\<And>a n. a \<in># Agents m' \<Longrightarrow> node_of a = Some n \<Longrightarrow> Nodes (Mem m') n \<noteq> None"
    using nodes_never_dangle [OF node_opened(1)] by blast
  have "TestRef 0x30 \<in># Agents m'" using m'(1) by (auto simp: run_def become_def)
  then have "Nodes (Mem m') 0x30 \<noteq> None" using m'(2) [of "TestRef 0x30" "0x30"] by simp
  with m'(1) show ?thesis by blast
qed

text \<open>C12.
  The bookkeeping of the nodes is exact in every reachable state: RefCount is the number of
  handles and of opens past their increment, PinCount the number of pins; a node is claimed for
  reaping exactly when it is in one place of the reap machinery, and never in two; it is marked
  published exactly when its bucket holds it; and the blocks and resources outstanding are those
  of the resident nodes.
\<close>

theorem node_counts_exact:
  assumes "reachable nls dissect root m" "Nodes (Mem m) n = Some x" "n \<noteq> root"
  shows "RefCount x = int (refs (Agents m) (Vcb m) n) \<and> PinCount x = int (pins (Agents m) n) \<and>
    claim_count (ReapList (Mem m)) (Worker m) (Vcb m) (Agents m) n = (if OnReapList x then 1 else 0) \<and>
    TableLinked x = (n \<in> set (NodeTable (Mem m) (TableBucketIndex x))) \<and>
    NonPagedOut (Ledger (Mem m)) = int (card (dom (Nodes (Mem m)))) \<and>
    ResourcesOut (Ledger (Mem m)) = 2 * NonPagedOut (Ledger (Mem m)) \<and>
    FcbOut (Ledger (Mem m)) + DcbOut (Ledger (Mem m)) = NonPagedOut (Ledger (Mem m))"
proof -
  have root: "Root m = root" using assms(1) by (rule reachable_root)
  note I = InvD [OF reachable_Inv [OF assms(1)], unfolded root]
  have kinds: "dom (Nodes (Mem m)) = {k. \<exists>y. Nodes (Mem m) k = Some y \<and> NodeTypeCode y = FCB_SIGNATURE} \<union>
      {k. \<exists>y. Nodes (Mem m) k = Some y \<and> is_directory y}" (is "_ = ?F \<union> ?D")
  proof -
    have "NodeTypeCode y = FCB_SIGNATURE \<or> is_directory y" if "Nodes (Mem m) k = Some y" for k y
    proof (cases "k = root")
      case True
      then show ?thesis using I(1) that by (auto simp: tree_ok_def is_directory_def)
    next
      case False
      then show ?thesis using tree_parent [OF I(1) that False] by (metis is_directory_def)
    qed
    then show ?thesis by blast
  qed
  have fin: "finite (dom (Nodes (Mem m)))" using I(1) by (simp add: tree_ok_def)
  have "?F \<inter> ?D = {}" by (auto simp: is_directory_def)
  moreover have "finite ?F" "finite ?D" using fin unfolding kinds by simp_all
  ultimately have "card (dom (Nodes (Mem m))) = card ?F + card ?D" unfolding kinds by (intro card_Un_disjoint)
  then show ?thesis
    using I(3,4,6,11) assms(2,3) by (auto simp: counts_ok_def claims_ok_def claimed_def table_ok_def ledger_ok_def)
qed

lemma node_counts_exact_witness:
  "\<exists>x. Nodes (Mem (node_after node_open)) 0x30 = Some x \<and> RefCount x = 1 \<and> TableLinked x"
proof -
  have "Nodes (Mem (node_after node_open)) 0x30 \<noteq> None" by code_simp
  then obtain x where x: "Nodes (Mem (node_after node_open)) 0x30 = Some x" by blast
  have "RefCount x = int (refs (Agents (node_after node_open)) (Vcb (node_after node_open)) 0x30)"
      "TableLinked x = (0x30 \<in> set (NodeTable (Mem (node_after node_open)) (TableBucketIndex x)))"
    using node_counts_exact [OF node_opened(1) x] by simp_all
  moreover have "refs (Agents (node_after node_open)) (Vcb (node_after node_open)) 0x30 = 1" by code_simp
  moreover have "case Nodes (Mem (node_after node_open)) 0x30 of None \<Rightarrow> False
      | Some x \<Rightarrow> 0x30 \<in> set (NodeTable (Mem (node_after node_open)) (TableBucketIndex x))" by code_simp
  ultimately show ?thesis using x by simp
qed

section \<open>Begun work ends\<close>

text \<open>C8.
  Nothing is stranded and nothing spins. From every reachable state, any run of events that only
  finishes what threads have begun (no new lookup, open or close) is bounded in length by
  \<open>work_left\<close>; while it is not at an end some such event is enabled, so no lock is waited for
  in vain; and at its end no thread holds a pin or the VCB resource and, unless the volume is being
  torn down, every node that is still resident has an open handle on it or below it.
\<close>

theorem node_work_settles:
  assumes "reachable nls dissect root m" "list_all finishes es" "exec_all nls dissect es m = Some m'"
  shows "length es \<le> work_left m \<and>
    ((\<exists>e. finishes e \<and> enabled e m') \<or>
     quiescent m' \<and> (ShuttingDown (Mem m') \<or> (\<forall>n. Nodes (Mem m') n \<noteq> None \<longrightarrow> n = root \<or> leads_to_open m' n)))"
proof -
  note inv = reachable_Inv [OF assms(1)]
  have inv': "Inv nls m'" by (rule exec_all_Inv [OF inv assms(3)])
  have root: "Root m' = root" using exec_all_reachable [OF assms(1,3)] by (rule reachable_root)
  have "length es \<le> work_left m" using finishing_run_bounded [OF inv assms(2,3)] by simp
  moreover have "quiescent m'" if "\<not> (\<exists>e. finishes e \<and> enabled e m')" using can_finish [OF inv'] that by blast
  moreover have "leads_to_open m' n" if "quiescent m'" "\<not> ShuttingDown (Mem m')" "Nodes (Mem m') n \<noteq> None" "n \<noteq> root" for n
    using quiescent_in_use [OF inv' that(1,2)] that(3,4) root by auto
  ultimately show ?thesis by blast
qed

lemma node_work_settles_witness:
  "length node_reap \<le> work_left (node_after (node_open @ node_close)) \<and>
   quiescent (node_after (node_open @ node_close @ node_reap)) \<and> Nodes (Mem (node_after (node_open @ node_close @ node_reap))) 0x30 = None"
proof -
  let ?m = "node_after (node_open @ node_close)" and ?m' = "node_after (node_open @ node_close @ node_reap)"
  have r: "reachable ascii_nls node_dissect 0x10 ?m" by (rule node_after_reachable) code_simp
  have "exec_all ascii_nls node_dissect ((node_open @ node_close) @ node_reap) (volume_start ascii_nls 0x10) \<noteq> None"
      "exec_all ascii_nls node_dissect (node_open @ node_close) (volume_start ascii_nls 0x10) \<noteq> None"
    by code_simp+
  then have e: "exec_all ascii_nls node_dissect node_reap ?m = Some ?m'"
    by (auto simp: node_after_def exec_all_append split: bind_splits)
  have f: "list_all finishes node_reap" by (simp add: node_reap_def)
  have a: "Agents ?m' = {#} \<and> Vcb ?m' = VcbFree \<and> Worker ?m' = WorkerIdle" by code_simp
  have g: "Nodes (Mem ?m') 0x30 = None" by code_simp
  show ?thesis using node_work_settles [OF r f e] a g by (auto simp: quiescent_def)
qed

section \<open>Whole operations\<close>

text \<open>C21.
  The functions of Structs.c, each run without interruption, are runs of the machine: dropping a
  pin (BlorgNodeUnpin), dropping a handle (BlorgNodeDereference), the walk over empty ancestors
  (BlorgReapEmptyAncestorDcbs, which therefore returns) and a pass of the worker
  (NodeReapWorker), each from any reachable state in which its caller stands where the code calls
  it, with the same memory at the end.
\<close>

theorem node_operations_are_runs:
  assumes "reachable nls dissect root m"
  shows "(Pinned n \<in># Agents m \<longrightarrow>
      (\<exists>es m'. exec_all nls dissect (Unpin n # es) m = Some m' \<and> BlorgNodeUnpin n (Mem m) = Some (Mem m') \<and> list_all finishes es)) \<and>
    (Handle n \<in># Agents m \<and> n \<noteq> root \<longrightarrow>
      (\<exists>es m'. exec_all nls dissect (Close n # es) m = Some m' \<and> BlorgNodeDereference n (Mem m) = Some (Mem m') \<and> list_all finishes es)) \<and>
    (no_bucket_held m \<and> Vcb m = WalkAt d k \<longrightarrow>
      (\<exists>es s'. exec_all nls dissect es m = Some (m\<lparr>Mem := s', Vcb := resume k\<rparr>) \<and>
         BlorgReapEmptyAncestorDcbs nls d (Mem m) = Some s' \<and> list_all finishes es)) \<and>
    (no_bucket_held m \<and> Worker m = WorkerQueued \<and> Vcb m = VcbFree \<longrightarrow>
      (\<exists>es m'. exec_all nls dissect es m = Some m' \<and> NodeReapWorker nls (Mem m) = Some (Mem m') \<and> list_all finishes es))"
proof -
  note inv = reachable_Inv [OF assms]
  have root: "Root m = root" using assms by (rule reachable_root)
  show ?thesis
  proof (intro conjI impI)
    show "\<exists>es m'. exec_all nls dissect (Unpin n # es) m = Some m' \<and> BlorgNodeUnpin n (Mem m) = Some (Mem m') \<and> list_all finishes es"
      if "Pinned n \<in># Agents m"
      using Unpin_run [OF inv that] by metis
    show "\<exists>es m'. exec_all nls dissect (Close n # es) m = Some m' \<and> BlorgNodeDereference n (Mem m) = Some (Mem m') \<and> list_all finishes es"
      if "Handle n \<in># Agents m \<and> n \<noteq> root"
      using Dereference_run [OF inv] that root by metis
    show "\<exists>es s'. exec_all nls dissect es m = Some (m\<lparr>Mem := s', Vcb := resume k\<rparr>) \<and>
         BlorgReapEmptyAncestorDcbs nls d (Mem m) = Some s' \<and> list_all finishes es"
      if "no_bucket_held m \<and> Vcb m = WalkAt d k"
      using walk_run [OF inv] that by metis
    show "\<exists>es m'. exec_all nls dissect es m = Some m' \<and> NodeReapWorker nls (Mem m) = Some (Mem m') \<and> list_all finishes es"
      if "no_bucket_held m \<and> Worker m = WorkerQueued \<and> Vcb m = VcbFree"
      using worker_run [OF inv] that by metis
  qed
qed

lemma node_operations_are_runs_witness:
  "(\<exists>s'. BlorgNodeDereference 0x30 (Mem (node_after node_open)) = Some s') \<and>
   (\<exists>s'. NodeReapWorker ascii_nls (Mem (node_after (node_open @ node_close))) = Some s')"
proof -
  have r: "reachable ascii_nls node_dissect 0x10 (node_after (node_open @ node_close))"
    by (rule node_after_reachable) code_simp
  have "Agents (node_after (node_open @ node_close)) = {#} \<and> Worker (node_after (node_open @ node_close)) = WorkerQueued \<and>
      Vcb (node_after (node_open @ node_close)) = VcbFree" by code_simp
  then have "no_bucket_held (node_after (node_open @ node_close))" "Worker (node_after (node_open @ node_close)) = WorkerQueued"
      "Vcb (node_after (node_open @ node_close)) = VcbFree" by (simp_all add: no_bucket_held_def)
  then have w: "no_bucket_held (node_after (node_open @ node_close)) \<and> Worker (node_after (node_open @ node_close)) = WorkerQueued \<and>
      Vcb (node_after (node_open @ node_close)) = VcbFree" by simp
  have h: "Handle 0x30 \<in># Agents (node_after node_open) \<and> (0x30 :: node_ptr) \<noteq> 0x10" using node_opened by simp
  note runs = node_operations_are_runs [OF node_opened(1), of "0x30", THEN conjunct2, THEN conjunct1, rule_format, OF h]
    node_operations_are_runs [OF r, THEN conjunct2, THEN conjunct2, THEN conjunct2, rule_format, OF w]
  show ?thesis using runs by blast
qed

section \<open>Failure and release\<close>

text \<open>C20.
  A node that cannot be created leaves no trace: whichever allocation or initialisation of
  BlorgCreateFCB or BlorgCreateDCB fails, the caller gets an error status and NULL, and every
  block and resource taken before has been given back. A node that is created, linked below a directory and
  freed again (BlorgFreeFileContext), as a failed open does, leaves the memory exactly as it was.
\<close>

theorem create_rolls_back:
  assumes "reachable nls dissect root m" "Nodes (Mem m) p = Some px" "is_directory px" "path \<noteq> []"
    "Nodes (Mem m) (NodeAddress out) = None"
  shows "(case BlorgCreateFCB nls out FCB_SIGNATURE path sz (Mem m) of (status, n, s1) \<Rightarrow>
      if NT_SUCCESS status
      then n \<noteq> 0 \<and> (\<exists>s2. link_child nls p n s1 = Some s2 \<and> BlorgFreeFileContext nls n s2 = Some (Mem m))
      else n = 0 \<and> s1 = Mem m) \<and>
    (case BlorgCreateDCB nls out DCB_SIGNATURE path (Mem m) of (status, n, s1) \<Rightarrow>
      if NT_SUCCESS status
      then n \<noteq> 0 \<and> (\<exists>s2. link_child nls p n s1 = Some s2 \<and> BlorgFreeFileContext nls n s2 = Some (Mem m))
      else n = 0 \<and> s1 = Mem m)"
proof -
  note inv = reachable_Inv [OF assms(1)]
  let ?n = "NodeAddress out"
  have leaf: "new_leaf p ((fresh_node nls FCB_SIGNATURE path sz)\<lparr>ParentDcb := p\<rparr>)"
      "new_leaf p ((fresh_node nls DCB_SIGNATURE path 0)\<lparr>ParentDcb := p\<rparr>)"
    using assms(4) by (auto intro: new_leaf_fresh)
  have F: "case BlorgCreateFCB nls out FCB_SIGNATURE path sz (Mem m) of (status, n, s1) \<Rightarrow>
      if NT_SUCCESS status
      then n \<noteq> 0 \<and> (\<exists>s2. link_child nls p n s1 = Some s2 \<and> BlorgFreeFileContext nls n s2 = Some (Mem m))
      else n = 0 \<and> s1 = Mem m"
  proof (cases "fcb_created out path")
    case True
    then have n0: "?n \<noteq> 0" by (simp add: fcb_created_def)
    from link_free [OF inv assms(5) n0 leaf(1) assms(2,3) refl] show ?thesis
      using create_fcb_ok [OF True, where nls = nls and kind = FCB_SIGNATURE and sz = sz and s = "Mem m"] n0 by (simp add: fresh_node_def)
  next
    case False
    from create_fcb_fails(1) [OF False] create_fcb_fails(2) [OF False, where nls = nls and kind = FCB_SIGNATURE and sz = sz and s = "Mem m"] show ?thesis by simp
  qed
  have D: "case BlorgCreateDCB nls out DCB_SIGNATURE path (Mem m) of (status, n, s1) \<Rightarrow>
      if NT_SUCCESS status
      then n \<noteq> 0 \<and> (\<exists>s2. link_child nls p n s1 = Some s2 \<and> BlorgFreeFileContext nls n s2 = Some (Mem m))
      else n = 0 \<and> s1 = Mem m"
  proof (cases "dcb_created out")
    case True
    then have n0: "?n \<noteq> 0" by (simp add: dcb_created_def)
    from link_free [OF inv assms(5) n0 leaf(2) assms(2,3) refl] show ?thesis
      using create_dcb_ok [OF True, where nls = nls and kind = DCB_SIGNATURE and path = path and s = "Mem m"] n0 by (simp add: fresh_node_def)
  next
    case False
    from create_dcb_fails(1) [OF False] create_dcb_fails(2) [OF False, where nls = nls and kind = DCB_SIGNATURE and path = path and s = "Mem m"] show ?thesis by simp
  qed
  from F D show ?thesis by (rule conjI)
qed

lemma create_rolls_back_witness:
  "snd (BlorgCreateDCB ascii_nls ((node_outcome 0x40)\<lparr>PagingResourceStatus := STATUS_INSUFFICIENT_RESOURCES\<rparr>) DCB_SIGNATURE node_path
     (Mem (node_after node_open))) = (0, Mem (node_after node_open))"
proof -
  have "Nodes (Mem (node_after node_open)) 0x40 = None" by code_simp
  moreover obtain px where "Nodes (Mem (node_after node_open)) 0x10 = Some px" "is_directory px"
    using root_node [OF reachable_Inv [OF node_opened(1)]] node_opened(3) by (auto simp: is_directory_def)
  moreover have "node_path \<noteq> []" by (simp add: node_path_def)
  ultimately have "case BlorgCreateDCB ascii_nls ((node_outcome 0x40)\<lparr>PagingResourceStatus := STATUS_INSUFFICIENT_RESOURCES\<rparr>)
      DCB_SIGNATURE node_path (Mem (node_after node_open)) of (status, n, s1) \<Rightarrow>
      if NT_SUCCESS status
      then n \<noteq> 0 \<and> (\<exists>s2. link_child ascii_nls 0x10 n s1 = Some s2 \<and> BlorgFreeFileContext ascii_nls n s2 = Some (Mem (node_after node_open)))
      else n = 0 \<and> s1 = Mem (node_after node_open)"
    by (intro create_rolls_back [OF node_opened(1), THEN conjunct2]) (auto simp: node_outcome_def)
  moreover have "\<not> dcb_created ((node_outcome 0x40)\<lparr>PagingResourceStatus := STATUS_INSUFFICIENT_RESOURCES\<rparr>)"
    by (simp add: dcb_created_def node_outcome_def)
  ultimately show ?thesis using create_dcb_fails by (auto split: prod.splits if_splits)
qed

end
