(* ===== verification/Dir_Entries.thy ===== *)
theory Dir_Entries
  imports Node_Model
begin

text \<open>
  Directory enumeration (DirCtrl.c): pattern matching, the three FILE_*_DIR_INFORMATION layouts, and
  the loop that fills a caller's buffer from a handle's listing.

  An entry is built in a scratch block and copied out whole, so the model gives it as the bytes
  written there, little-endian, and both the scratch block and the caller's buffer are byte lists:
  a write outside either is \<open>None\<close>. The caller's buffer may be user memory, whose accessors
  raise: \<open>faults\<close> says which writes do, with the exception code.
\<close>

section \<open>Words of the layout\<close>

definition le_bytes :: "nat \<Rightarrow> 'a::len word \<Rightarrow> UCHAR list" where
  "le_bytes n x = map (\<lambda>i. ucast (drop_bit (8 * i) x)) [0..<n]"

abbreviation le32 :: "ULONG \<Rightarrow> UCHAR list" where "le32 \<equiv> le_bytes 4"
abbreviation le64 :: "ULONG64 \<Rightarrow> UCHAR list" where "le64 \<equiv> le_bytes 8"

definition wide_bytes :: "UNICODE_STRING \<Rightarrow> UCHAR list" where
  "wide_bytes s = concat (map (le_bytes 2) s)"

definition FILE_ATTRIBUTE_DIRECTORY :: ULONG where "FILE_ATTRIBUTE_DIRECTORY = 0x10"
definition FILE_ATTRIBUTE_NORMAL :: ULONG where "FILE_ATTRIBUTE_NORMAL = 0x80"
definition STATUS_NO_MORE_FILES :: NTSTATUS where "STATUS_NO_MORE_FILES = 0x80000006"

text \<open>RtlInitUnicodeString: up to the first NUL, and no longer than a counted string can be.\<close>

definition RtlInitUnicodeString :: "UNICODE_STRING \<Rightarrow> UNICODE_STRING" where
  "RtlInitUnicodeString s = take 32766 (takeWhile (\<lambda>c. c \<noteq> 0) s)"

section \<open>Entries\<close>

definition DirCtrlAlignEntrySize :: "ULONG \<Rightarrow> ULONG" where
  "DirCtrlAlignEntrySize sz = (sz + 7) AND NOT 7"

text \<open>
  The three layouts share their first 68 bytes, up to EaSize; then come, all zero, the short name of
  FILE_BOTH_DIR_INFORMATION and the file id of FILE_ID_BOTH_DIR_INFORMATION, and then the name.
\<close>

datatype dir_layout = FileIdBothDir | FileFullDir | FileBothDir

fun name_offset_of :: "dir_layout \<Rightarrow> nat" where
  "name_offset_of FileIdBothDir = 104"
| "name_offset_of FileFullDir = 68"
| "name_offset_of FileBothDir = 94"

definition DIRCTRL_ENTRY_MAX_BYTES :: ULONG where
  "DIRCTRL_ENTRY_MAX_BYTES =
     (of_nat (name_offset_of FileIdBothDir) + of_nat ((MAX_NAME_LEN - 1) * 2) + 7) AND NOT 7"

record dir_entry =
  DE_Name :: UNICODE_STRING
  DE_Creation :: ULONG64
  DE_Access :: ULONG64
  DE_Write :: ULONG64
  DE_Size :: ULONG64
  DE_Attributes :: ULONG

definition FILL_DIR_INFO_COMMON_FIELDS :: "ULONG \<Rightarrow> ULONG \<Rightarrow> dir_entry \<Rightarrow> bool \<Rightarrow> bool \<Rightarrow> UCHAR list" where
  "FILL_DIR_INFO_COMMON_FIELDS alignedSize index e returnSingle isLast =
     le32 (if returnSingle \<or> isLast then 0 else alignedSize) @ le32 index @
     le64 (DE_Creation e) @ le64 (DE_Access e) @ le64 (DE_Write e) @ le64 (DE_Write e) @
     le64 (DE_Size e) @ le64 (DE_Size e) @ le32 (DE_Attributes e) @
     le32 (of_nat (byte_length (DE_Name e))) @ le32 0"

definition dir_info_bytes :: "dir_layout \<Rightarrow> ULONG \<Rightarrow> ULONG \<Rightarrow> dir_entry \<Rightarrow> bool \<Rightarrow> bool \<Rightarrow> UCHAR list" where
  "dir_info_bytes layout alignedSize index e returnSingle isLast =
     (let raw = FILL_DIR_INFO_COMMON_FIELDS alignedSize index e returnSingle isLast @
                replicate (name_offset_of layout - 68) 0 @ wide_bytes (DE_Name e)
      in raw @ replicate (unat alignedSize - length raw) 0)"

text \<open>
  The fill routines differ in their layout only. A fill is a refusal or the bytes it has written
  at the start of Out.
\<close>

definition dir_fill :: "dir_layout \<Rightarrow> ULONG \<Rightarrow> ULONG \<Rightarrow> dir_entry \<Rightarrow> bool \<Rightarrow> bool \<Rightarrow> NTSTATUS + UCHAR list" where
  "dir_fill layout remainingLength index e returnSingle isLast =
     (let rawSize = of_nat (name_offset_of layout) + of_nat (byte_length (DE_Name e));
          alignedSize = DirCtrlAlignEntrySize rawSize
      in if remainingLength < alignedSize then Inl STATUS_BUFFER_OVERFLOW
         else Inr (dir_info_bytes layout alignedSize index e returnSingle isLast))"

definition DirCtrlFillFileIdBothDirInfo where "DirCtrlFillFileIdBothDirInfo = dir_fill FileIdBothDir"
definition DirCtrlFillFileFullDirInfo where "DirCtrlFillFileFullDirInfo = dir_fill FileFullDir"
definition DirCtrlFillFileBothDirInfo where "DirCtrlFillFileBothDirInfo = dir_fill FileBothDir"

fun fill_routine :: "dir_layout \<Rightarrow> ULONG \<Rightarrow> ULONG \<Rightarrow> dir_entry \<Rightarrow> bool \<Rightarrow> bool \<Rightarrow> NTSTATUS + UCHAR list" where
  "fill_routine FileIdBothDir = DirCtrlFillFileIdBothDirInfo"
| "fill_routine FileFullDir = DirCtrlFillFileFullDirInfo"
| "fill_routine FileBothDir = DirCtrlFillFileBothDirInfo"

section \<open>Matching\<close>

definition CCB_FLAG_MATCH_ALL :: ULONG64 where "CCB_FLAG_MATCH_ALL = 1"

text \<open>
  FsRtlIsNameInExpression is the parameter \<open>inExpression\<close> (pattern, then name; \<open>None\<close> when it
  raises), FsRtlAreNamesEqual the system's comparison without case. A NULL pattern buffer is
  \<open>None\<close>.
\<close>

definition DirCtrlMatchPattern ::
    "NLS \<Rightarrow> (UNICODE_STRING \<Rightarrow> UNICODE_STRING \<Rightarrow> bool option) \<Rightarrow> UNICODE_STRING \<Rightarrow> UNICODE_STRING option \<Rightarrow> ULONG64 \<Rightarrow> bool" where
  "DirCtrlMatchPattern nls inExpression name searchPattern flags =
     (if flags AND CCB_FLAG_MATCH_ALL \<noteq> 0 then True
      else case searchPattern of
             None \<Rightarrow> False
           | Some pattern \<Rightarrow>
               if pattern = [] then False
               else if list_ex (\<lambda>ch. ch = 0x2A \<or> ch = 0x3F \<or> ch = 0x22 \<or> ch = 0x3E \<or> ch = 0x3C) pattern
               then (case inExpression pattern name of None \<Rightarrow> False | Some r \<Rightarrow> r)
               else RtlEqualUnicodeString nls pattern name)"

section \<open>The loop\<close>

text \<open>The entry at an index: the files first, then the subdirectories.\<close>

definition dir_entry_at :: "DIRECTORY_INFO \<Rightarrow> nat \<Rightarrow> dir_entry option" where
  "dir_entry_at li index =
     (if FileCount li \<le> index
      then map_option (\<lambda>sub. \<lparr>DE_Name = RtlInitUnicodeString (S_Name sub), DE_Creation = S_CreationTime sub,
             DE_Access = S_LastAccessedTime sub, DE_Write = S_LastModifiedTime sub, DE_Size = 0,
             DE_Attributes = FILE_ATTRIBUTE_DIRECTORY\<rparr>) (BlorgGetSubDirEntry li (index - FileCount li))
      else map_option (\<lambda>fi. \<lparr>DE_Name = RtlInitUnicodeString (F_Name fi), DE_Creation = F_CreationTime fi,
             DE_Access = F_LastAccessedTime fi, DE_Write = F_LastModifiedTime fi, DE_Size = F_Size fi,
             DE_Attributes = FILE_ATTRIBUTE_NORMAL\<rparr>) (BlorgGetFileEntry li index))"

record dir_scan =
  Sc_Index :: ULONG
  Sc_Remaining :: ULONG
  Sc_Cursor :: nat
  Sc_LastEntry :: "nat option"
  Sc_TotalWritten :: nat
  Sc_Found :: bool
  Sc_Buffer :: "UCHAR list"

text \<open>
  What the loop ends with: the write of an entry raised, the first candidate was refused, or the
  entries ran out, one was enough or the next did not fit.
\<close>

datatype dir_loop_end = LoopRaised NTSTATUS | LoopRefused NTSTATUS ULONG | LoopStopped dir_scan

definition copy_out ::
    "(nat \<Rightarrow> nat \<Rightarrow> NTSTATUS option) \<Rightarrow> nat \<Rightarrow> UCHAR list \<Rightarrow> UCHAR list \<Rightarrow> (NTSTATUS + UCHAR list) option" where
  "copy_out faults at bytes buffer =
     (case faults at (length bytes) of Some code \<Rightarrow> Some (Inl code) | None \<Rightarrow> map_option Inr (poke at bytes buffer))"

definition scan_written :: "UCHAR list \<Rightarrow> UCHAR list \<Rightarrow> dir_scan \<Rightarrow> dir_scan" where
  "scan_written bytes buffer sc =
     sc\<lparr>Sc_Index := Sc_Index sc + 1, Sc_Remaining := Sc_Remaining sc - of_nat (length bytes),
        Sc_Cursor := Sc_Cursor sc + length bytes, Sc_LastEntry := Some (Sc_Cursor sc),
        Sc_TotalWritten := Sc_TotalWritten sc + length bytes, Sc_Found := True, Sc_Buffer := buffer\<rparr>"

text \<open>Building an entry in the scratch block, which holds DIRCTRL_ENTRY_MAX_BYTES.\<close>

definition fill_scratch :: "UCHAR list \<Rightarrow> UCHAR list option" where
  "fill_scratch bytes = map_option (\<lambda>_. bytes) (poke 0 bytes (replicate (unat DIRCTRL_ENTRY_MAX_BYTES) 0))"

function enumerate_loop ::
    "(UNICODE_STRING \<Rightarrow> bool) \<Rightarrow> dir_layout \<Rightarrow> (nat \<Rightarrow> nat \<Rightarrow> NTSTATUS option) \<Rightarrow> DIRECTORY_INFO \<Rightarrow> ULONG \<Rightarrow> bool \<Rightarrow>
     dir_scan \<Rightarrow> dir_loop_end option" where
  "enumerate_loop matches layout faults li totalEntries returnSingle sc =
     (if Sc_Index sc < totalEntries
      then case dir_entry_at li (unat (Sc_Index sc)) of
             None \<Rightarrow> Some (LoopStopped sc)
           | Some e \<Rightarrow>
               if matches (DE_Name e)
               then case fill_routine layout (min (Sc_Remaining sc) DIRCTRL_ENTRY_MAX_BYTES) (Sc_Index sc) e
                           returnSingle (Sc_Index sc = totalEntries - 1) of
                      Inl st \<Rightarrow> Some (if Sc_Found sc then LoopStopped sc else LoopRefused st (Sc_Index sc))
                    | Inr bytes \<Rightarrow>
                        Option.bind (fill_scratch bytes) (\<lambda>scratch.
                        Option.bind (copy_out faults (Sc_Cursor sc) scratch (Sc_Buffer sc)) (\<lambda>copied.
                        case copied of
                          Inl code \<Rightarrow> Some (LoopRaised code)
                        | Inr buffer \<Rightarrow>
                            if returnSingle then Some (LoopStopped (scan_written scratch buffer sc))
                            else enumerate_loop matches layout faults li totalEntries returnSingle
                                   (scan_written scratch buffer sc)))
               else enumerate_loop matches layout faults li totalEntries returnSingle (sc\<lparr>Sc_Index := Sc_Index sc + 1\<rparr>)
      else Some (LoopStopped sc))"
  by pat_completeness auto
termination
proof (relation "measure (\<lambda>(matches, layout, faults, li, totalEntries, returnSingle, sc). unat totalEntries - unat (Sc_Index sc))", goal_cases)
  case (3 matches layout faults li totalEntries returnSingle sc)
  then show ?case using unat_Suc_less [of "Sc_Index sc" totalEntries] by (simp add: word_less_nat_alt)
next
  case (2 matches layout faults li totalEntries returnSingle sc)
  then show ?case using unat_Suc_less [of "Sc_Index sc" totalEntries] by (simp add: word_less_nat_alt scan_written_def)
qed simp

declare enumerate_loop.simps [simp del]

text \<open>The result: the status, the bytes used, where the next query resumes and the buffer.\<close>

record dir_result =
  DR_Status :: NTSTATUS
  DR_BytesUsed :: nat
  DR_FinalIndex :: ULONG
  DR_Buffer :: "UCHAR list"

definition DirCtrlEnumerateDirectoryEntries ::
    "(UNICODE_STRING \<Rightarrow> bool) \<Rightarrow> dir_layout \<Rightarrow> (nat \<Rightarrow> nat \<Rightarrow> NTSTATUS option) \<Rightarrow> DIRECTORY_INFO \<Rightarrow> ULONG \<Rightarrow> ULONG \<Rightarrow> bool \<Rightarrow>
     UCHAR list \<Rightarrow> ULONG \<Rightarrow> (NTSTATUS + dir_result) option" where
  "DirCtrlEnumerateDirectoryEntries matches layout faults li startIndex totalEntries returnSingle outBuffer outLength =
     Option.bind (enumerate_loop matches layout faults li totalEntries returnSingle
         \<lparr>Sc_Index = startIndex, Sc_Remaining = outLength, Sc_Cursor = 0, Sc_LastEntry = None,
          Sc_TotalWritten = 0, Sc_Found = False, Sc_Buffer = outBuffer\<rparr>) (\<lambda>r.
     case r of
       LoopRaised code \<Rightarrow> Some (Inl code)
     | LoopRefused st index \<Rightarrow>
         Some (Inr \<lparr>DR_Status = st, DR_BytesUsed = 0, DR_FinalIndex = index, DR_Buffer = outBuffer\<rparr>)
     | LoopStopped sc \<Rightarrow>
         Option.bind (case Sc_LastEntry sc of None \<Rightarrow> Some (Inr (Sc_Buffer sc))
                      | Some at \<Rightarrow> copy_out faults at (le32 0) (Sc_Buffer sc)) (\<lambda>copied.
         case copied of
           Inl code \<Rightarrow> Some (Inl code)
         | Inr buffer \<Rightarrow>
             Some (Inr \<lparr>DR_Status = (if Sc_Found sc then STATUS_SUCCESS else STATUS_NO_MORE_FILES),
                        DR_BytesUsed = Sc_TotalWritten sc, DR_FinalIndex = Sc_Index sc, DR_Buffer = buffer\<rparr>)))"

end
