(* ===== verification/Dir_Control.thy ===== *)
theory Dir_Control
  imports Dir_Entries
begin

text \<open>
  Directory queries (DirCtrl.c): the handler of IRP_MJ_DIRECTORY_CONTROL on the volume, the fetch a
  query issues when the listing cache has no answer, the background refresh, and their completions.

  A handle's CCB holds its pattern, its position and a reference to its own snapshot of the
  directory. The handler's locked part is one definition; what it reads of the CCB before it takes the
  directory's resource is its argument \<open>initialRead\<close>. What the kernel answers (the resource, the
  pool, the user buffer, the clock) is the record \<open>dir_answers\<close>.
\<close>

section \<open>Data\<close>

record DIR_CCB =
  Dir_Flags :: ULONG64
  CurrentIndex :: ULONG64
  SearchPattern :: "UNICODE_STRING option"
  Entries :: "nat option"

definition new_dir_ccb :: DIR_CCB where
  "new_dir_ccb = \<lparr>Dir_Flags = 0, CurrentIndex = 0, SearchPattern = None, Entries = None\<rparr>"

datatype info_class =
    FileIdBothDirectoryInformation | FileFullDirectoryInformation | FileBothDirectoryInformation
  | FileDirectoryInformation | FileIdFullDirectoryInformation | FileNamesInformation | OtherInformation

record dir_query =
  Q_RestartScan :: bool
  Q_ReturnSingle :: bool
  Q_IndexSpecified :: bool
  Q_FileIndex :: ULONG
  Q_Length :: ULONG
  Q_Class :: info_class
  Q_Pattern :: "UNICODE_STRING option"
  Q_NetDone :: bool
  Q_InFsp :: bool

record dir_answers =
  A_Acquired :: bool
  A_Now :: ULONG64
  A_Upcased :: NTSTATUS
  A_Scratch :: bool
  A_Mapped :: bool
  A_Faults :: "nat \<Rightarrow> nat \<Rightarrow> NTSTATUS option"
  A_InExpression :: "UNICODE_STRING \<Rightarrow> UNICODE_STRING \<Rightarrow> bool option"

definition STATUS_NOT_IMPLEMENTED :: NTSTATUS where "STATUS_NOT_IMPLEMENTED = 0xC0000002"
definition STATUS_INVALID_INFO_CLASS :: NTSTATUS where "STATUS_INVALID_INFO_CLASS = 0xC0000003"
definition STATUS_INVALID_DEVICE_REQUEST :: NTSTATUS where "STATUS_INVALID_DEVICE_REQUEST = 0xC0000010"

text \<open>
  How a pass of the handler ends: the request is posted to the FSP, a fetch is issued for it, or it
  is answered with a status, IoStatus.Information, the caller's buffer (unspecified after an
  exception) and whether a refresh is owed.
\<close>

datatype dir_end = DirPost | DirMiss | DirAnswer NTSTATUS nat "UCHAR list option" bool

section \<open>The parts of a query\<close>

definition dir_match_all :: "DIR_CCB \<Rightarrow> bool" where
  "dir_match_all ccb \<longleftrightarrow> Dir_Flags ccb AND CCB_FLAG_MATCH_ALL \<noteq> 0"

definition dir_initial :: "DIR_CCB \<Rightarrow> bool" where
  "dir_initial ccb \<longleftrightarrow> SearchPattern ccb = None \<and> \<not> dir_match_all ccb"

text \<open>Once the resource is held: whether this is still the initial query, and the reset position.\<close>

definition dir_acquired :: "bool \<Rightarrow> dir_query \<Rightarrow> DIR_CCB \<Rightarrow> bool \<times> DIR_CCB" where
  "dir_acquired initialRead q ccb =
     (if initialRead
      then if \<not> dir_initial ccb then (False, if Q_RestartScan q then ccb\<lparr>CurrentIndex := 0\<rparr> else ccb)
           else (True, ccb)
      else if Q_RestartScan q then (False, ccb\<lparr>CurrentIndex := 0\<rparr>)
      else (False, ccb))"

definition has_pattern :: "dir_query \<Rightarrow> bool" where
  "has_pattern q = (case Q_Pattern q of None \<Rightarrow> False | Some p \<Rightarrow> p \<noteq> [])"

text \<open>The handle's pattern; a failed upcase leaves it cleared, \<open>Inl\<close> with the status.\<close>

definition dir_set_pattern :: "NLS \<Rightarrow> NTSTATUS \<Rightarrow> bool \<Rightarrow> dir_query \<Rightarrow> DIR_CCB \<Rightarrow> NTSTATUS option \<times> DIR_CCB" where
  "dir_set_pattern nls upcased initialQuery q ccb =
     (if (initialQuery \<or> Q_RestartScan q) \<and> \<not> Q_NetDone q
      then let ccb1 = ccb\<lparr>Dir_Flags := 0, SearchPattern := None\<rparr>
           in if \<not> has_pattern q then (None, ccb1\<lparr>Dir_Flags := Dir_Flags ccb1 OR CCB_FLAG_MATCH_ALL\<rparr>)
              else if \<not> NT_SUCCESS upcased then (Some upcased, ccb1)
              else let pattern = map (RtlUpcaseUnicodeChar nls) (the (Q_Pattern q));
                       ccb2 = ccb1\<lparr>SearchPattern := Some pattern\<rparr>
                   in (None, if length pattern = 1 \<and> pattern ! 0 = 0x2A
                             then ccb2\<lparr>Dir_Flags := Dir_Flags ccb2 OR CCB_FLAG_MATCH_ALL\<rparr> else ccb2)
      else (None, ccb))"

definition release_entries :: "nat option \<Rightarrow> PATH_CACHE_STATE \<Rightarrow> PATH_CACHE_STATE" where
  "release_entries entries s =
     (case entries of None \<Rightarrow> s | Some a \<Rightarrow> s\<lparr>Infos := BlorgReleaseDirectoryInfo a (Infos s)\<rparr>)"

definition DirCtrlInstallSnapshot :: "nat \<Rightarrow> DIR_CCB \<Rightarrow> PATH_CACHE_STATE \<Rightarrow> DIR_CCB \<times> PATH_CACHE_STATE" where
  "DirCtrlInstallSnapshot snapshot ccb s =
     (case Entries ccb of
        Some _ \<Rightarrow> (ccb, s\<lparr>Infos := BlorgReleaseDirectoryInfo snapshot (Infos s)\<rparr>)
      | None \<Rightarrow> (ccb\<lparr>Entries := Some snapshot\<rparr>, s))"

text \<open>
  The handle's snapshot: dropped first for an initial query or a restart, then looked for if there is
  none. \<open>None\<close> is a miss; otherwise whether a refresh is owed.
\<close>

definition dir_drop_snapshot :: "bool \<Rightarrow> DIR_CCB \<Rightarrow> PATH_CACHE_STATE \<Rightarrow> DIR_CCB \<times> PATH_CACHE_STATE" where
  "dir_drop_snapshot freshSnapshot ccb s =
     (if freshSnapshot then (ccb\<lparr>Entries := None\<rparr>, release_entries (Entries ccb) s) else (ccb, s))"

definition dir_snapshot ::
    "NLS \<Rightarrow> ULONG64 \<Rightarrow> UNICODE_STRING \<Rightarrow> bool \<Rightarrow> DIR_CCB \<Rightarrow> PATH_CACHE_STATE \<Rightarrow> bool option \<times> DIR_CCB \<times> PATH_CACHE_STATE" where
  "dir_snapshot nls now dir freshSnapshot ccb s =
     (case dir_drop_snapshot freshSnapshot ccb s of (ccb1, s1) \<Rightarrow>
        case Entries ccb1 of
          Some _ \<Rightarrow> (Some False, ccb1, s1)
        | None \<Rightarrow>
            (case BlorgPathCacheLookupListing nls now dir True zero_ticket s1 of (r, s2) \<Rightarrow>
               case R_Listing r of
                 None \<Rightarrow> (None, ccb1, s2)
               | Some snapshot \<Rightarrow>
                   (case DirCtrlInstallSnapshot snapshot ccb1 s2 of
                      (ccb3, s3) \<Rightarrow> (Some (R_RefreshOwed r), ccb3, s3))))"

fun dir_class :: "info_class \<Rightarrow> NTSTATUS + dir_layout" where
  "dir_class FileIdBothDirectoryInformation = Inr FileIdBothDir"
| "dir_class FileFullDirectoryInformation = Inr FileFullDir"
| "dir_class FileBothDirectoryInformation = Inr FileBothDir"
| "dir_class FileDirectoryInformation = Inl STATUS_NOT_IMPLEMENTED"
| "dir_class FileIdFullDirectoryInformation = Inl STATUS_NOT_IMPLEMENTED"
| "dir_class FileNamesInformation = Inl STATUS_NOT_IMPLEMENTED"
| "dir_class OtherInformation = Inl STATUS_INVALID_INFO_CLASS"

definition dir_matches :: "NLS \<Rightarrow> dir_answers \<Rightarrow> DIR_CCB \<Rightarrow> UNICODE_STRING \<Rightarrow> bool" where
  "dir_matches nls ans ccb name = DirCtrlMatchPattern nls (A_InExpression ans) name (SearchPattern ccb) (Dir_Flags ccb)"

text \<open>
  The enumeration of the handle's snapshot into the caller's buffer, and the position it leaves. A
  CCB whose Entries point to a block that is gone is \<open>None\<close>.
\<close>

definition dir_enumerate ::
    "NLS \<Rightarrow> dir_answers \<Rightarrow> dir_query \<Rightarrow> UCHAR list \<Rightarrow> bool \<Rightarrow> DIR_CCB \<Rightarrow> PATH_CACHE_STATE \<Rightarrow> (dir_end \<times> DIR_CCB) option" where
  "dir_enumerate nls ans q buffer refreshOwed ccb s =
     (case Entries ccb of
        None \<Rightarrow> Some (DirAnswer STATUS_NO_MORE_FILES 0 (Some buffer) False, ccb)
      | Some a \<Rightarrow>
          Option.bind (Infos s a) (\<lambda>li.
          let index = (if Q_IndexSpecified q then Q_FileIndex q else ucast (CurrentIndex ccb));
              totalEntries = of_nat (entry_count li)
          in case dir_class (Q_Class q) of
               Inl result \<Rightarrow> Some (DirAnswer result 0 (Some buffer) refreshOwed, ccb)
             | Inr layout \<Rightarrow>
                 if \<not> A_Scratch ans \<or> \<not> A_Mapped ans
                 then Some (DirAnswer STATUS_INSUFFICIENT_RESOURCES 0 (Some buffer) refreshOwed, ccb)
                 else Option.bind (DirCtrlEnumerateDirectoryEntries (dir_matches nls ans ccb) layout (A_Faults ans) li
                                     index totalEntries (Q_ReturnSingle q) buffer (Q_Length q)) (\<lambda>r.
                 case r of
                   Inl code \<Rightarrow> Some (DirAnswer code 0 None refreshOwed, ccb)
                 | Inr res \<Rightarrow>
                     Some (DirAnswer (DR_Status res) (if NT_SUCCESS (DR_Status res) then DR_BytesUsed res else 0)
                             (Some (DR_Buffer res)) refreshOwed,
                           if Q_IndexSpecified q then ccb else ccb\<lparr>CurrentIndex := ucast (DR_FinalIndex res)\<rparr>))))"

section \<open>The handler\<close>

definition dir_query_pass ::
    "NLS \<Rightarrow> dir_answers \<Rightarrow> UNICODE_STRING \<Rightarrow> bool \<Rightarrow> dir_query \<Rightarrow> UCHAR list \<Rightarrow> DIR_CCB \<Rightarrow> PATH_CACHE_STATE \<Rightarrow>
     (dir_end \<times> DIR_CCB \<times> PATH_CACHE_STATE) option" where
  "dir_query_pass nls ans dir initialRead q buffer ccb s =
     (if \<not> A_Acquired ans then Some (DirPost, ccb, s)
      else case dir_acquired initialRead q ccb of
        (initialQuery, ccb1) \<Rightarrow>
          (case dir_set_pattern nls (A_Upcased ans) initialQuery q ccb1 of
             (Some result, ccb2) \<Rightarrow> Some (DirAnswer result 0 (Some buffer) False, ccb2, s)
           | (None, ccb2) \<Rightarrow>
               (case dir_snapshot nls (A_Now ans) dir (\<not> Q_NetDone q \<and> (initialQuery \<or> Q_RestartScan q)) ccb2 s of
                  (None, ccb3, s3) \<Rightarrow> Some (if Q_InFsp q then DirMiss else DirPost, ccb3, s3)
                | (Some refreshOwed, ccb3, s3) \<Rightarrow>
                    map_option (\<lambda>(r, ccb4). (r, ccb4, s3)) (dir_enumerate nls ans q buffer refreshOwed ccb3 s3))))"

datatype dir_minor = IRP_MN_QUERY_DIRECTORY | IRP_MN_NOTIFY_CHANGE_DIRECTORY | IRP_MN_OTHER

text \<open>A watch is handed to FsRtlNotifyFullChangeDirectory, which keeps the request.\<close>

definition dir_notify :: "bool \<Rightarrow> DIR_CCB option \<Rightarrow> NTSTATUS" where
  "dir_notify isDirectory ccb =
     (if \<not> isDirectory then STATUS_INVALID_PARAMETER
      else if ccb = None then STATUS_INVALID_PARAMETER
      else STATUS_PENDING)"

text \<open>
  The whole handler, by minor function. \<open>ccb\<close> is the handle's, \<open>None\<close> where FsContext2 is NULL.
\<close>

definition BlorgVolumeDirectoryControl ::
    "NLS \<Rightarrow> dir_answers \<Rightarrow> dir_minor \<Rightarrow> node_type \<Rightarrow> UNICODE_STRING \<Rightarrow> bool \<Rightarrow> dir_query \<Rightarrow> UCHAR list \<Rightarrow> DIR_CCB option \<Rightarrow>
     PATH_CACHE_STATE \<Rightarrow> (dir_end \<times> DIR_CCB option \<times> PATH_CACHE_STATE) option" where
  "BlorgVolumeDirectoryControl nls ans minor kind dir initialRead q buffer ccb s =
     (let refused = (\<lambda>result. Some (DirAnswer result 0 (Some buffer) False, ccb, s));
          isDirectory = (kind = DCB_SIGNATURE \<or> kind = ROOT_DCB_SIGNATURE)
      in case minor of
           IRP_MN_QUERY_DIRECTORY \<Rightarrow>
             if \<not> isDirectory then refused STATUS_INVALID_PARAMETER
             else (case ccb of
                     None \<Rightarrow> refused STATUS_INVALID_PARAMETER
                   | Some c \<Rightarrow> map_option (\<lambda>(r, c', s'). (r, Some c', s')) (dir_query_pass nls ans dir initialRead q buffer c s))
         | IRP_MN_NOTIFY_CHANGE_DIRECTORY \<Rightarrow>
             refused (dir_notify isDirectory ccb)
         | IRP_MN_OTHER \<Rightarrow> refused STATUS_INVALID_DEVICE_REQUEST)"

section \<open>Fetches and their completions\<close>

text \<open>A fetch in flight is the ticket it carries. \<open>answer\<close> is what BlorgHttpGetDirectoryInfo returns.\<close>

definition DirCtrlFetch :: "bool \<Rightarrow> ULONG64 \<Rightarrow> NTSTATUS \<Rightarrow> PATH_CACHE_STATE \<Rightarrow> NTSTATUS \<times> PATH_CACHE_TICKET option" where
  "DirCtrlFetch pool now answer s =
     (if \<not> pool then (STATUS_INSUFFICIENT_RESOURCES, None)
      else let ticket = BlorgPathCacheTakeTicket now s
           in (answer, if answer \<noteq> STATUS_PENDING then None else Some ticket))"

definition DirCtrlRefresh :: "bool \<Rightarrow> bool \<Rightarrow> ULONG64 \<Rightarrow> NTSTATUS \<Rightarrow> PATH_CACHE_STATE \<Rightarrow> PATH_CACHE_TICKET option" where
  "DirCtrlRefresh pool pathPool now answer s =
     (if \<not> pool then None
      else if \<not> pathPool then None
      else let ticket = BlorgPathCacheTakeTicket now s
           in if answer \<noteq> STATUS_PENDING then None else Some ticket)"

record publish_answers =
  P_EntryPool :: bool
  P_Now :: ULONG64
  P_Scratch :: bool
  P_SeedPool :: "bool \<Rightarrow> nat \<Rightarrow> bool"
  P_SeedClock :: "bool \<Rightarrow> nat \<Rightarrow> ULONG64"
  P_ArrayPool :: bool
  P_PathPool :: "nat \<Rightarrow> bool"
  P_DescendantPool :: "nat \<Rightarrow> bool"
  P_DescendantClock :: "nat \<Rightarrow> ULONG64"

definition DirCtrlPublish ::
    "NLS \<Rightarrow> publish_answers \<Rightarrow> UNICODE_STRING \<Rightarrow> nat \<Rightarrow> PATH_CACHE_TICKET \<Rightarrow> PATH_CACHE_STATE \<Rightarrow> PATH_CACHE_STATE" where
  "DirCtrlPublish nls ans dir dirInfo ticket s =
     (case BlorgTakeDescendants dirInfo (Infos s) of (descendants, h) \<Rightarrow>
      case BlorgPathCachePublishListing nls (P_EntryPool ans) (P_Now ans) dir dirInfo (Some ticket) (s\<lparr>Infos := h\<rparr>) of
        (current, s1) \<Rightarrow>
          let s2 = (if current
                    then BlorgPathCacheSeedListing nls (P_Scratch ans) (P_SeedPool ans) (P_SeedClock ans) dir
                           (Infos s1 dirInfo) (Some ticket) s1
                    else s1)
          in if descendants = [] then s2
             else (case BlorgPathCachePublishDescendants nls (P_ArrayPool ans) (P_PathPool ans) (P_DescendantPool ans)
                          (P_DescendantClock ans) dir dirInfo descendants (Some ticket) s2 of
                     (published, s3) \<Rightarrow> s3\<lparr>Infos := BlorgReleaseDescendants descendants (Infos s3)\<rparr>))"

text \<open>
  The completion of a query's fetch. \<open>Inl\<close> a status the request is completed with, \<open>Inr ()\<close> when it
  has been queued again with NET_DONE set; \<open>requeue\<close> is what BlorgFsdRequeueRequest returns.
\<close>

definition DirCtrlComplete ::
    "NLS \<Rightarrow> publish_answers \<Rightarrow> NTSTATUS \<Rightarrow> NTSTATUS \<Rightarrow> UNICODE_STRING \<Rightarrow> nat \<Rightarrow> PATH_CACHE_TICKET \<Rightarrow> DIR_CCB \<Rightarrow> PATH_CACHE_STATE \<Rightarrow>
     (NTSTATUS + unit) \<times> DIR_CCB \<times> PATH_CACHE_STATE" where
  "DirCtrlComplete nls ans requeue status dir dirInfo ticket ccb s =
     (if \<not> NT_SUCCESS status then (Inl status, ccb, s)
      else let s1 = DirCtrlPublish nls ans dir dirInfo ticket s;
               (ccb2, mine) = (case Entries ccb of None \<Rightarrow> (ccb\<lparr>Entries := Some dirInfo\<rparr>, None) | Some _ \<Rightarrow> (ccb, Some dirInfo))
           in (if requeue \<noteq> STATUS_PENDING then Inl requeue else Inr (), ccb2, release_entries mine s1))"

definition DirCtrlRefreshComplete ::
    "NLS \<Rightarrow> publish_answers \<Rightarrow> NTSTATUS \<Rightarrow> UNICODE_STRING \<Rightarrow> nat \<Rightarrow> PATH_CACHE_TICKET \<Rightarrow> PATH_CACHE_STATE \<Rightarrow> PATH_CACHE_STATE" where
  "DirCtrlRefreshComplete nls ans status dir dirInfo ticket s =
     (if NT_SUCCESS status
      then let s1 = DirCtrlPublish nls ans dir dirInfo ticket s
           in s1\<lparr>Infos := BlorgReleaseDirectoryInfo dirInfo (Infos s1)\<rparr>
      else s)"

end
