(* ===== verification/Dir_Layout.thy ===== *)
theory Dir_Layout
  imports Dir_Entries
begin

text \<open>
  The layout of a filled buffer: a reader that walks NextEntryOffset the way a caller does, and
  that it reads back the entries that were written.
\<close>

section \<open>Reading the layout\<close>

fun le_value :: "UCHAR list \<Rightarrow> nat" where
  "le_value [] = 0"
| "le_value (b # bs) = unat b + 256 * le_value bs"

definition get_le :: "nat \<Rightarrow> nat \<Rightarrow> UCHAR list \<Rightarrow> nat" where
  "get_le n at buf = le_value (take n (drop at buf))"

fun wide_of :: "UCHAR list \<Rightarrow> UNICODE_STRING" where
  "wide_of (a # b # bs) = (ucast a + 256 * ucast b) # wide_of bs"
| "wide_of _ = []"

text \<open>One entry as a caller reads it: its FileIndex and its fields.\<close>

definition read_entry :: "dir_layout \<Rightarrow> UCHAR list \<Rightarrow> nat \<times> dir_entry" where
  "read_entry layout buf =
     (get_le 4 4 buf,
      \<lparr>DE_Name = wide_of (take (get_le 4 60 buf) (drop (name_offset_of layout) buf)),
       DE_Creation = of_nat (get_le 8 8 buf), DE_Access = of_nat (get_le 8 16 buf),
       DE_Write = of_nat (get_le 8 24 buf), DE_Size = of_nat (get_le 8 40 buf),
       DE_Attributes = of_nat (get_le 4 56 buf)\<rparr>)"

function read_entries :: "dir_layout \<Rightarrow> UCHAR list \<Rightarrow> (nat \<times> dir_entry) list" where
  "read_entries layout buf =
     (if length buf < name_offset_of layout then []
      else read_entry layout buf #
           (if get_le 4 0 buf = 0 then [] else read_entries layout (drop (get_le 4 0 buf) buf)))"
  by pat_completeness auto
termination
  by (relation "measure (\<lambda>(layout, buf). length buf)", simp, case_tac layout) auto

declare read_entries.simps [simp del]

section \<open>Little-endian words\<close>

lemma le_bytes_Suc: "le_bytes (Suc n) x = ucast x # le_bytes n (drop_bit 8 x)"
proof -
  have "[0..<Suc n] = 0 # map Suc [0..<n]" by (simp add: map_Suc_upt upt_conv_Cons del: upt_Suc)
  then show ?thesis by (simp add: le_bytes_def o_def add.commute del: upt_Suc)
qed

lemma length_le_bytes [simp]: "length (le_bytes n x) = n"
  by (simp add: le_bytes_def)

lemma le_value_le_bytes: "le_value (le_bytes n (x :: 'a::len word)) = unat x mod 256 ^ n"
proof (induction n arbitrary: x)
  case 0
  then show ?case by (simp add: le_bytes_def)
next
  case (Suc n)
  have "unat (ucast x :: UCHAR) = unat x mod 256"
    by (simp add: unsigned_ucast_eq take_bit_nat_def)
  moreover have "unat (drop_bit 8 x) = unat x div 256"
    by (simp add: unsigned_drop_bit_eq drop_bit_nat_def take_bit_nat_eq_self)
  ultimately show ?case
    by (simp add: le_bytes_Suc Suc mod_mult2_eq)
qed

lemma le_value_le32 [simp]: "le_value (le32 x) = unat x"
  using unsigned_less [of x, where ?'a = nat] by (simp add: le_value_le_bytes)

lemma le_value_le64 [simp]: "le_value (le64 x) = unat x"
  using unsigned_less [of x, where ?'a = nat] by (simp add: le_value_le_bytes)

lemma le_bytes_2: "le_bytes 2 c = [ucast c, ucast (drop_bit 8 c)]"
  by (simp add: le_bytes_def upt_conv_Cons numeral_2_eq_2)

lemma word_of_parts: "unat c = unat a + 256 * unat b \<Longrightarrow> c = a + 256 * (b :: WCHAR)"
proof -
  assume "unat c = unat a + 256 * unat b"
  then have "(of_nat (unat c) :: WCHAR) = of_nat (unat a + 256 * unat b)" by (rule arg_cong)
  then show ?thesis by simp
qed

lemma wide_char: "ucast (ucast c :: UCHAR) + 256 * ucast (ucast (drop_bit 8 c) :: UCHAR) = (c :: WCHAR)"
proof -
  have "unat (ucast (ucast c :: UCHAR) :: WCHAR) = unat c mod 256"
    by (simp add: unat_ucast_up unsigned_ucast_eq unsigned_take_bit_eq take_bit_nat_def)
  moreover have "unat (drop_bit 8 c) = unat c div 256"
    using unsigned_less [of c, where ?'a = nat] by (simp add: unsigned_drop_bit_eq drop_bit_nat_def take_bit_nat_eq_self)
  then have "unat (ucast (ucast (drop_bit 8 c) :: UCHAR) :: WCHAR) = unat c div 256"
    using unsigned_less [of c, where ?'a = nat] by (simp add: unat_ucast_up unsigned_ucast_eq unsigned_take_bit_eq take_bit_nat_def)
  ultimately show ?thesis by (intro word_of_parts [symmetric]) simp
qed

lemma length_wide_bytes [simp]: "length (wide_bytes s) = byte_length s"
  by (induction s) (simp_all add: wide_bytes_def)

lemma wide_of_wide_bytes [simp]: "wide_of (wide_bytes s) = s"
  by (induction s) (simp_all add: wide_bytes_def le_bytes_2 wide_char)

section \<open>Sizes\<close>

definition entry_size :: "dir_layout \<Rightarrow> dir_entry \<Rightarrow> nat" where
  "entry_size layout e = (name_offset_of layout + byte_length (DE_Name e) + 7) div 8 * 8"

lemma unat_entry_align:
  assumes "unat x + 7 < 2 ^ 32"
  shows "unat (DirCtrlAlignEntrySize x) = (unat x + 7) div 8 * 8"
proof -
  let ?y = "x + 7 :: ULONG"
  have y: "unat ?y = unat x + 7" using assms by (simp add: unat_word_ariths)
  have "NOT 7 = NOT (mask 3 :: ULONG)" by (simp add: mask_eq_exp_minus_1)
  then have "?y AND NOT 7 = push_bit 3 (drop_bit 3 ?y)" by (auto simp: bit_eq_iff bit_simps)
  moreover have "unat ?y div 8 * 8 < 2 ^ 32" using assms y by linarith
  ultimately show ?thesis
    by (simp add: DirCtrlAlignEntrySize_def y unsigned_push_bit_eq unsigned_drop_bit_eq push_bit_nat_def drop_bit_nat_def take_bit_nat_eq_self)
qed

section \<open>One entry\<close>

text \<open>The bytes of an entry, with whatever NextEntryOffset it has.\<close>

definition entry_tail :: "dir_layout \<Rightarrow> ULONG \<Rightarrow> dir_entry \<Rightarrow> UCHAR list" where
  "entry_tail layout index e =
     (let raw = le32 index @ le64 (DE_Creation e) @ le64 (DE_Access e) @ le64 (DE_Write e) @ le64 (DE_Write e) @
                le64 (DE_Size e) @ le64 (DE_Size e) @ le32 (DE_Attributes e) @
                le32 (of_nat (byte_length (DE_Name e))) @ le32 0 @
                replicate (name_offset_of layout - 68) 0 @ wide_bytes (DE_Name e)
      in raw @ replicate (entry_size layout e - 4 - length raw) 0)"

definition entry_bytes :: "dir_layout \<Rightarrow> ULONG \<Rightarrow> ULONG \<Rightarrow> dir_entry \<Rightarrow> UCHAR list" where
  "entry_bytes layout nextOffset index e = le32 nextOffset @ entry_tail layout index e"

lemma name_offset_bounds: "68 \<le> name_offset_of layout" "name_offset_of layout \<le> 104"
  by (cases layout; simp)+

lemma entry_size_bounds:
  "name_offset_of layout + byte_length (DE_Name e) \<le> entry_size layout e"
  "entry_size layout e \<le> name_offset_of layout + byte_length (DE_Name e) + 7"
  unfolding entry_size_def by linarith+

lemma length_entry_tail: "length (entry_tail layout index e) = entry_size layout e - 4"
  using name_offset_bounds(1) [of layout] entry_size_bounds(1) [of layout e]
  by (simp add: entry_tail_def Let_def)

lemma length_entry_bytes [simp]: "length (entry_bytes layout nextOffset index e) = entry_size layout e"
  using name_offset_bounds(1) [of layout] entry_size_bounds(1) [of layout e]
  by (simp add: entry_bytes_def length_entry_tail)

lemma dir_info_bytes_eq:
  assumes "unat alignedSize = entry_size layout e"
  shows "dir_info_bytes layout alignedSize index e returnSingle isLast =
    entry_bytes layout (if returnSingle \<or> isLast then 0 else alignedSize) index e"
  using assms by (simp add: dir_info_bytes_def FILL_DIR_INFO_COMMON_FIELDS_def entry_bytes_def entry_tail_def Let_def)

lemma get_le_0: "get_le 4 0 (entry_bytes layout nextOffset index e @ rest) = unat nextOffset"
  by (simp add: get_le_def entry_bytes_def)

lemma read_entry_bytes:
  assumes "byte_length (DE_Name e) < 2 ^ 32"
  shows "read_entry layout (entry_bytes layout nextOffset index e @ rest) = (unat index, e)"
proof -
  define pad where "pad = replicate (entry_size layout e - name_offset_of layout - byte_length (DE_Name e)) (0 :: UCHAR) @ rest"
  have eq: "entry_bytes layout nextOffset index e @ rest =
      le32 nextOffset @ le32 index @ le64 (DE_Creation e) @ le64 (DE_Access e) @ le64 (DE_Write e) @ le64 (DE_Write e) @
      le64 (DE_Size e) @ le64 (DE_Size e) @ le32 (DE_Attributes e) @ le32 (of_nat (byte_length (DE_Name e))) @ le32 0 @
      replicate (name_offset_of layout - 68) 0 @ wide_bytes (DE_Name e) @ pad"
    using name_offset_bounds(1) [of layout] by (simp add: entry_bytes_def entry_tail_def pad_def Let_def)
  have n: "unat (of_nat (byte_length (DE_Name e)) :: ULONG) = byte_length (DE_Name e)"
    by (rule unat_of_nat_less) (use assms in simp)
  have at: "drop (name_offset_of layout) (entry_bytes layout nextOffset index e @ rest) = wide_bytes (DE_Name e) @ pad"
    using name_offset_bounds(1) [of layout] unfolding eq by simp
  have len: "get_le 4 60 (entry_bytes layout nextOffset index e @ rest) = byte_length (DE_Name e)"
    using n unfolding eq get_le_def by simp
  have fields: "get_le 4 4 (entry_bytes layout nextOffset index e @ rest) = unat index"
    "get_le 8 8 (entry_bytes layout nextOffset index e @ rest) = unat (DE_Creation e)"
    "get_le 8 16 (entry_bytes layout nextOffset index e @ rest) = unat (DE_Access e)"
    "get_le 8 24 (entry_bytes layout nextOffset index e @ rest) = unat (DE_Write e)"
    "get_le 8 40 (entry_bytes layout nextOffset index e @ rest) = unat (DE_Size e)"
    "get_le 4 56 (entry_bytes layout nextOffset index e @ rest) = unat (DE_Attributes e)"
    unfolding eq get_le_def by simp_all
  show ?thesis unfolding read_entry_def at len fields by simp
qed

section \<open>A buffer of entries\<close>

type_synonym listed = "nat \<times> dir_entry"

definition sizes :: "dir_layout \<Rightarrow> listed list \<Rightarrow> nat" where
  "sizes layout es = sum_list (map (\<lambda>(i, e). entry_size layout e) es)"

text \<open>Entries each of which points to the end of itself, and the same with the last one pointing nowhere.\<close>

definition open_chain :: "dir_layout \<Rightarrow> listed list \<Rightarrow> UCHAR list" where
  "open_chain layout es = concat (map (\<lambda>(i, e). entry_bytes layout (of_nat (entry_size layout e)) (of_nat i) e) es)"

definition ended_chain :: "dir_layout \<Rightarrow> ULONG \<Rightarrow> listed list \<Rightarrow> UCHAR list" where
  "ended_chain layout nextOffset es =
     (if es = [] then []
      else open_chain layout (butlast es) @ (case last es of (i, e) \<Rightarrow> entry_bytes layout nextOffset (of_nat i) e))"

definition listed_ok :: "dir_layout \<Rightarrow> listed list \<Rightarrow> bool" where
  "listed_ok layout es \<longleftrightarrow> (\<forall>(i, e) \<in> set es. i < 2 ^ 32 \<and> length (DE_Name e) \<le> 32766)"

lemma length_open_chain [simp]: "length (open_chain layout es) = sizes layout es"
  by (induction es) (auto simp: open_chain_def sizes_def)

lemma sizes_append [simp]: "sizes layout (es @ fs) = sizes layout es + sizes layout fs"
  by (simp add: sizes_def)

lemma open_chain_append: "open_chain layout (es @ fs) = open_chain layout es @ open_chain layout fs"
  by (simp add: open_chain_def)

lemma ended_chain_snoc:
  "ended_chain layout nextOffset (es @ [(i, e)]) = open_chain layout es @ entry_bytes layout nextOffset (of_nat i) e"
  by (simp add: ended_chain_def)

lemma length_ended_chain: "length (ended_chain layout nextOffset es) = sizes layout es"
proof (cases es rule: rev_cases)
  case (snoc xs x)
  then show ?thesis by (cases x) (simp add: ended_chain_snoc sizes_def)
qed (simp add: ended_chain_def sizes_def)

lemma entry_size_small:
  assumes "length (DE_Name e) \<le> 32766"
  shows "entry_size layout e < 2 ^ 32" "0 < entry_size layout e"
  using assms entry_size_bounds [of layout e] name_offset_bounds [of layout] by simp_all

lemma read_entries_step:
  assumes "length (DE_Name e) \<le> 32766" "i < 2 ^ 32"
  shows "read_entries layout (entry_bytes layout nextOffset (of_nat i) e @ rest) =
    (i, e) # (if nextOffset = 0 then [] else read_entries layout (drop (unat nextOffset) (entry_bytes layout nextOffset (of_nat i) e @ rest)))"
proof -
  have "\<not> length (entry_bytes layout nextOffset (of_nat i) e @ rest) < name_offset_of layout"
    using entry_size_bounds(1) [of layout e] by simp
  moreover have "read_entry layout (entry_bytes layout nextOffset (of_nat i) e @ rest) = (i, e)"
    using read_entry_bytes [of e layout nextOffset "of_nat i" rest] unat_of_nat_less [of i, where 'a = 32] assms by simp
  ultimately show ?thesis
    by (subst read_entries.simps) (simp add: get_le_0 unat_eq_0)
qed

text \<open>A caller reads back what was written.\<close>

lemma read_ended_chain:
  assumes "listed_ok layout es"
  shows "read_entries layout (ended_chain layout 0 es) = es"
  using assms
proof (induction es)
  case Nil
  then show ?case using name_offset_bounds(1) [of layout] by (subst read_entries.simps) (simp add: ended_chain_def)
next
  case (Cons x es)
  obtain i e where x: "x = (i, e)" by (cases x)
  have ok: "length (DE_Name e) \<le> 32766" "i < 2 ^ 32" using Cons.prems by (auto simp: listed_ok_def x)
  show ?case
  proof (cases es)
    case Nil
    then show ?thesis using read_entries_step [OF ok, of layout 0 "[]"] by (simp add: x open_chain_def ended_chain_def)
  next
    case (Cons y ys)
    have n: "unat (of_nat (entry_size layout e) :: ULONG) = entry_size layout e" "(of_nat (entry_size layout e) :: ULONG) \<noteq> 0"
      using entry_size_small [OF ok(1), of layout] unat_of_nat_less [of "entry_size layout e", where 'a = 32]
      by (auto simp: word_unat_eq_iff)
    have "ended_chain layout 0 (x # es) = entry_bytes layout (of_nat (entry_size layout e)) (of_nat i) e @ ended_chain layout 0 es"
      using Cons by (simp add: x open_chain_def ended_chain_def)
    then show ?thesis
      using read_entries_step [OF ok, of layout "of_nat (entry_size layout e)" "ended_chain layout 0 es"] n Cons.IH Cons.prems
      by (simp add: listed_ok_def x)
  qed
qed

end
