(* ===== verification/Dir_Enumerate.thy ===== *)
theory Dir_Enumerate
  imports Dir_Layout
begin

text \<open>
  What one enumeration call puts in the caller's buffer: every matching entry from where it starts to
  where it stops, in order, and nothing outside the buffer.
\<close>

section \<open>The entries a call is to return\<close>

definition dir_between :: "(UNICODE_STRING \<Rightarrow> bool) \<Rightarrow> DIRECTORY_INFO \<Rightarrow> nat \<Rightarrow> nat \<Rightarrow> listed list" where
  "dir_between matches li a b =
     map (\<lambda>i. (i, the (dir_entry_at li i))) (filter (\<lambda>i. matches (DE_Name (the (dir_entry_at li i)))) [a..<b])"

lemma dir_between_same [simp]: "dir_between matches li a a = []"
  by (simp add: dir_between_def)

lemma dir_between_Suc:
  "a \<le> i \<Longrightarrow> dir_between matches li a (Suc i) =
    dir_between matches li a i @ (if matches (DE_Name (the (dir_entry_at li i))) then [(i, the (dir_entry_at li i))] else [])"
  by (simp add: dir_between_def)

lemma dir_between_append:
  "a \<le> b \<Longrightarrow> b \<le> c \<Longrightarrow> dir_between matches li a b @ dir_between matches li b c = dir_between matches li a c"
proof -
  assume "a \<le> b" "b \<le> c"
  then obtain k where "c = b + k" "[a..<b + k] = [a..<b] @ [b..<b + k]" using le_Suc_ex upt_add_eq_append by blast
  then show ?thesis by (simp add: dir_between_def)
qed

lemma dir_entry_present: "i < entry_count li \<Longrightarrow> \<exists>e. dir_entry_at li i = Some e"
  by (auto simp: dir_entry_at_def BlorgGetSubDirEntry_def BlorgGetFileEntry_def)

lemma dir_entry_name: "dir_entry_at li i = Some e \<Longrightarrow> length (DE_Name e) \<le> 32766"
  by (auto simp: dir_entry_at_def RtlInitUnicodeString_def split: if_splits)

lemma listed_ok_between:
  assumes "b \<le> entry_count li" "entry_count li < 2 ^ 32"
  shows "listed_ok layout (dir_between matches li a b)"
proof -
  have "length (DE_Name (the (dir_entry_at li i))) \<le> 32766" if "i < b" for i
    using dir_entry_present [of i li] dir_entry_name [of li i] assms(1) that by auto
  then show ?thesis using assms by (auto simp: listed_ok_def dir_between_def)
qed

section \<open>Filling one entry\<close>

lemma max_bytes: "unat DIRCTRL_ENTRY_MAX_BYTES = 624"
  by (simp add: DIRCTRL_ENTRY_MAX_BYTES_def MAX_NAME_LEN_def)

lemma aligned_size:
  assumes "length (DE_Name e) \<le> 32766"
  shows "unat (DirCtrlAlignEntrySize (of_nat (name_offset_of layout) + of_nat (byte_length (DE_Name e)))) = entry_size layout e"
proof -
  have "unat (of_nat (name_offset_of layout) + of_nat (byte_length (DE_Name e)) :: ULONG) = name_offset_of layout + byte_length (DE_Name e)"
    unfolding of_nat_add [symmetric]
    by (rule unat_of_nat_less) (use assms name_offset_bounds(2) [of layout] in simp)
  then show ?thesis
    using assms name_offset_bounds(2) [of layout] by (subst unat_entry_align) (simp_all add: entry_size_def)
qed

lemma fill_routine_eq: "fill_routine layout = dir_fill layout"
  by (cases layout) (simp_all add: DirCtrlFillFileIdBothDirInfo_def DirCtrlFillFileFullDirInfo_def DirCtrlFillFileBothDirInfo_def)

lemma fill_cases:
  assumes "length (DE_Name e) \<le> 32766"
  shows "fill_routine layout room index e returnSingle isLast =
    (if unat room < entry_size layout e then Inl STATUS_BUFFER_OVERFLOW
     else Inr (entry_bytes layout (if returnSingle \<or> isLast then 0 else of_nat (entry_size layout e)) index e))"
proof -
  let ?a = "DirCtrlAlignEntrySize (of_nat (name_offset_of layout) + of_nat (byte_length (DE_Name e)))"
  have a: "unat ?a = entry_size layout e" by (rule aligned_size [OF assms])
  then have "?a = of_nat (entry_size layout e)" by (metis of_nat_unat ucast_id)
  then show ?thesis
    using a dir_info_bytes_eq [OF a] by (simp add: fill_routine_eq dir_fill_def Let_def word_less_nat_alt)
qed

lemma scratch_room: "length bytes \<le> 624 \<Longrightarrow> fill_scratch bytes = Some bytes"
  by (simp add: fill_scratch_def poke_def max_bytes)

section \<open>The loop\<close>

text \<open>The room an entry is offered: what is left of the caller's buffer, and the scratch block.\<close>

definition room :: "nat \<Rightarrow> nat" where
  "room left = min left 624"

definition scan_ok :: "(UNICODE_STRING \<Rightarrow> bool) \<Rightarrow> dir_layout \<Rightarrow> DIRECTORY_INFO \<Rightarrow> UCHAR list \<Rightarrow> nat \<Rightarrow> dir_scan \<Rightarrow> bool" where
  "scan_ok matches layout li out start sc \<longleftrightarrow>
     (let es = dir_between matches li start (unat (Sc_Index sc))
      in start \<le> unat (Sc_Index sc) \<and> sizes layout es \<le> length out \<and> Sc_Cursor sc = sizes layout es \<and>
         Sc_TotalWritten sc = sizes layout es \<and> unat (Sc_Remaining sc) = length out - sizes layout es \<and>
         Sc_Found sc = (es \<noteq> []) \<and> Sc_LastEntry sc = (if es = [] then None else Some (sizes layout (butlast es))) \<and>
         (\<exists>nx. Sc_Buffer sc = ended_chain layout nx es @ drop (sizes layout es) out))"

definition scan_open :: "(UNICODE_STRING \<Rightarrow> bool) \<Rightarrow> dir_layout \<Rightarrow> DIRECTORY_INFO \<Rightarrow> UCHAR list \<Rightarrow> nat \<Rightarrow> dir_scan \<Rightarrow> bool" where
  "scan_open matches layout li out start sc \<longleftrightarrow>
     (let es = dir_between matches li start (unat (Sc_Index sc))
      in Sc_Buffer sc = open_chain layout es @ drop (sizes layout es) out)"

text \<open>An entry at an index that matches and is refused the room that is left.\<close>

definition no_room :: "(UNICODE_STRING \<Rightarrow> bool) \<Rightarrow> dir_layout \<Rightarrow> DIRECTORY_INFO \<Rightarrow> nat \<Rightarrow> nat \<Rightarrow> bool" where
  "no_room matches layout li left i \<longleftrightarrow>
     (case dir_entry_at li i of None \<Rightarrow> False | Some e \<Rightarrow> matches (DE_Name e) \<and> room left < entry_size layout e)"

definition loop_ok ::
    "(UNICODE_STRING \<Rightarrow> bool) \<Rightarrow> dir_layout \<Rightarrow> (nat \<Rightarrow> nat \<Rightarrow> NTSTATUS option) \<Rightarrow> DIRECTORY_INFO \<Rightarrow> ULONG \<Rightarrow> bool \<Rightarrow>
     UCHAR list \<Rightarrow> nat \<Rightarrow> dir_loop_end \<Rightarrow> bool" where
  "loop_ok matches layout faults li totalEntries returnSingle out start r \<longleftrightarrow>
     (case r of
        LoopRaised code \<Rightarrow> \<exists>at n. at + n \<le> length out \<and> faults at n = Some code
      | LoopRefused st index \<Rightarrow>
          st = STATUS_BUFFER_OVERFLOW \<and> start \<le> unat index \<and> unat index < unat totalEntries \<and>
          dir_between matches li start (unat index) = [] \<and> no_room matches layout li (length out) (unat index)
      | LoopStopped sc \<Rightarrow>
          (let es = dir_between matches li start (unat (Sc_Index sc))
           in scan_ok matches layout li out start sc \<and> unat (Sc_Index sc) \<le> max start (unat totalEntries) \<and>
              (unat totalEntries \<le> unat (Sc_Index sc) \<or> returnSingle \<and> length es = 1 \<or>
               es \<noteq> [] \<and> unat (Sc_Index sc) < unat totalEntries \<and>
               no_room matches layout li (length out - sizes layout es) (unat (Sc_Index sc))) \<and>
              (returnSingle \<longrightarrow> length es \<le> 1)))"

lemma unat_min: "unat (min a b :: 'a::len word) = min (unat a) (unat b)"
  by (simp add: min_def word_le_nat_alt)

lemma scan_ok_written:
  assumes ok: "scan_ok matches layout li out start sc" and op: "scan_open matches layout li out start sc"
    and e: "dir_entry_at li (unat (Sc_Index sc)) = Some e" "matches (DE_Name e)" and idx: "unat (Sc_Index sc + 1) = Suc (unat (Sc_Index sc))"
    and fits: "entry_size layout e \<le> unat (Sc_Remaining sc)" and n: "length (DE_Name e) \<le> 32766"
    and b: "bytes = entry_bytes layout nx (Sc_Index sc) e" and p: "poke (Sc_Cursor sc) bytes (Sc_Buffer sc) = Some buffer"
  shows "scan_ok matches layout li out start (scan_written bytes buffer sc)"
    "nx = of_nat (entry_size layout e) \<Longrightarrow> scan_open matches layout li out start (scan_written bytes buffer sc)"
    "dir_between matches li start (unat (Sc_Index (scan_written bytes buffer sc))) \<noteq> []"
    "length (dir_between matches li start (unat (Sc_Index (scan_written bytes buffer sc)))) =
      Suc (length (dir_between matches li start (unat (Sc_Index sc))))"
proof -
  let ?es = "dir_between matches li start (unat (Sc_Index sc))" and ?x = "(unat (Sc_Index sc), e)"
  have start: "start \<le> unat (Sc_Index sc)" using ok by (simp add: scan_ok_def Let_def)
  have es: "dir_between matches li start (Suc (unat (Sc_Index sc))) = ?es @ [?x]"
    using e by (simp add: dir_between_Suc [OF start])
  have sz: "sizes layout ?es \<le> length out" "Sc_Cursor sc = sizes layout ?es" "Sc_TotalWritten sc = sizes layout ?es"
      "unat (Sc_Remaining sc) = length out - sizes layout ?es"
    using ok by (simp_all add: scan_ok_def Let_def)
  have buf: "Sc_Buffer sc = open_chain layout ?es @ drop (sizes layout ?es) out" using op by (simp add: scan_open_def Let_def)
  have x: "sizes layout [?x] = entry_size layout e" "of_nat (unat (Sc_Index sc)) = Sc_Index sc" by (simp_all add: sizes_def)
  have buffer: "buffer = open_chain layout ?es @ bytes @ drop (sizes layout ?es + entry_size layout e) out"
    using p fits sz unfolding buf b poke_def by (auto simp: add.commute split: if_splits)
  have rem: "unat (Sc_Remaining sc - of_nat (entry_size layout e)) = unat (Sc_Remaining sc) - entry_size layout e"
    using fits entry_size_small(1) [OF n, of layout] unat_of_nat_less [of "entry_size layout e", where 'a = 32]
    by (simp add: unat_minus_le word_le_nat_alt)
  show "scan_ok matches layout li out start (scan_written bytes buffer sc)"
    using start fits sz rem by (auto simp: scan_ok_def scan_written_def Let_def idx es x b buffer ended_chain_snoc)
  show "scan_open matches layout li out start (scan_written bytes buffer sc)" if "nx = of_nat (entry_size layout e)"
    unfolding scan_open_def Let_def using that
    by (simp add: scan_written_def idx es x b buffer open_chain_append) (simp add: open_chain_def)
  show "dir_between matches li start (unat (Sc_Index (scan_written bytes buffer sc))) \<noteq> []"
    "length (dir_between matches li start (unat (Sc_Index (scan_written bytes buffer sc)))) = Suc (length ?es)"
    by (simp_all add: scan_written_def idx es)
qed

lemma poke_room: "at + length bytes \<le> length buf \<Longrightarrow> \<exists>buf'. poke at bytes buf = Some buf'"
  by (rule poke_ok)

lemma scan_ok_length: "scan_ok matches layout li out start sc \<Longrightarrow> length (Sc_Buffer sc) = length out"
  by (auto simp: scan_ok_def Let_def length_ended_chain)

text \<open>One turn of the loop at a matching entry that has room.\<close>

lemma enumerate_turn:
  assumes "Sc_Index sc < totalEntries" "dir_entry_at li (unat (Sc_Index sc)) = Some e" "matches (DE_Name e)"
    "length (DE_Name e) \<le> 32766" "entry_size layout e \<le> room (unat (Sc_Remaining sc))"
    "bytes = entry_bytes layout (if returnSingle \<or> Sc_Index sc = totalEntries - 1 then 0 else of_nat (entry_size layout e)) (Sc_Index sc) e"
  shows "enumerate_loop matches layout faults li totalEntries returnSingle sc =
    Option.bind (copy_out faults (Sc_Cursor sc) bytes (Sc_Buffer sc)) (\<lambda>copied. case copied of
       Inl code \<Rightarrow> Some (LoopRaised code)
     | Inr buffer \<Rightarrow>
         if returnSingle then Some (LoopStopped (scan_written bytes buffer sc))
         else enumerate_loop matches layout faults li totalEntries returnSingle (scan_written bytes buffer sc))"
proof -
  have fits: "\<not> unat (min (Sc_Remaining sc) DIRCTRL_ENTRY_MAX_BYTES) < entry_size layout e"
    unfolding unat_min max_bytes using assms(5) by (auto simp: room_def)
  have "fill_scratch bytes = Some bytes" using assms(5,6) by (intro scratch_room) (simp add: room_def)
  then show ?thesis
    using assms(1-4) fits
    by (subst enumerate_loop.simps) (simp add: fill_cases assms(6) [symmetric] cong: if_cong)
qed

lemma enumerate_loop_spec:
  assumes "scan_ok matches layout li out start sc" "returnSingle \<longrightarrow> dir_between matches li start (unat (Sc_Index sc)) = []"
    "unat (Sc_Index sc) < unat totalEntries \<longrightarrow> scan_open matches layout li out start sc"
    "unat totalEntries \<le> entry_count li" "unat (Sc_Index sc) \<le> max start (unat totalEntries)"
  shows "\<exists>r. enumerate_loop matches layout faults li totalEntries returnSingle sc = Some r \<and>
    loop_ok matches layout faults li totalEntries returnSingle out start r"
  using assms
proof (induction matches layout faults li totalEntries returnSingle sc rule: enumerate_loop.induct)
  case (1 matches layout faults li totalEntries returnSingle sc)
  let ?es = "dir_between matches li start (unat (Sc_Index sc))"
  note ok = "1.prems"(1) and single = "1.prems"(2)
  have start: "start \<le> unat (Sc_Index sc)" using ok by (simp add: scan_ok_def Let_def)
  show ?case
  proof (cases "Sc_Index sc < totalEntries")
    case False
    then have r: "enumerate_loop matches layout faults li totalEntries returnSingle sc = Some (LoopStopped sc)"
      by (subst enumerate_loop.simps) simp
    have "unat totalEntries \<le> unat (Sc_Index sc)" using False by (simp add: word_less_nat_alt)
    then show ?thesis unfolding r using ok single "1.prems"(5) by (auto simp: loop_ok_def Let_def)
  next
    case True
    then have lt: "unat (Sc_Index sc) < unat totalEntries" by (simp add: word_less_nat_alt)
    have idx: "unat (Sc_Index sc + 1) = Suc (unat (Sc_Index sc))" by (rule unat_Suc_less [OF lt])
    have op: "scan_open matches layout li out start sc" using "1.prems"(3) lt by simp
    obtain e where e: "dir_entry_at li (unat (Sc_Index sc)) = Some e"
      using dir_entry_present [of "unat (Sc_Index sc)" li] lt "1.prems"(4) by auto
    note n = dir_entry_name [OF e]
    show ?thesis
    proof (cases "matches (DE_Name e)")
      case False
      have same: "dir_between matches li start (Suc (unat (Sc_Index sc))) = ?es"
        using False e by (simp add: dir_between_Suc [OF start])
      have "\<exists>r. enumerate_loop matches layout faults li totalEntries returnSingle (sc\<lparr>Sc_Index := Sc_Index sc + 1\<rparr>) = Some r \<and>
          loop_ok matches layout faults li totalEntries returnSingle out start r"
        using ok single op "1.prems"(4) start lt
        by (intro "1.IH"(2) [OF True e False]) (auto simp: scan_ok_def scan_open_def Let_def idx same)
      then show ?thesis using True e False by (subst enumerate_loop.simps) simp
    next
      case m: True
      show ?thesis
      proof (cases "room (unat (Sc_Remaining sc)) < entry_size layout e")
        case full: True
        then have "unat (min (Sc_Remaining sc) DIRCTRL_ENTRY_MAX_BYTES) < entry_size layout e"
          by (simp add: unat_min max_bytes room_def)
        then have r: "enumerate_loop matches layout faults li totalEntries returnSingle sc =
            Some (if Sc_Found sc then LoopStopped sc else LoopRefused STATUS_BUFFER_OVERFLOW (Sc_Index sc))"
          using True e m n by (subst enumerate_loop.simps) (simp add: fill_cases)
        have "no_room matches layout li (length out - sizes layout ?es) (unat (Sc_Index sc))" "Sc_Found sc = (?es \<noteq> [])"
          using full e m ok by (simp_all add: no_room_def scan_ok_def Let_def)
        then show ?thesis
          unfolding r using ok single start lt by (auto simp: loop_ok_def Let_def sizes_def)
      next
        case False
        define bytes where "bytes = entry_bytes layout (if returnSingle \<or> Sc_Index sc = totalEntries - 1 then 0 else of_nat (entry_size layout e)) (Sc_Index sc) e"
        have fits: "entry_size layout e \<le> room (unat (Sc_Remaining sc))" "entry_size layout e \<le> unat (Sc_Remaining sc)"
          using False unfolding room_def by auto
        note turn = enumerate_turn [where matches = matches and faults = faults, OF True e m n fits(1) bytes_def]
        have within: "Sc_Cursor sc + length bytes \<le> length out"
          using ok fits(2) by (auto simp: scan_ok_def Let_def bytes_def)
        then obtain buffer where p: "poke (Sc_Cursor sc) bytes (Sc_Buffer sc) = Some buffer"
          using poke_room [of "Sc_Cursor sc" bytes "Sc_Buffer sc"] scan_ok_length [OF ok] by auto
        note w = scan_ok_written [where matches = matches and nx = "if returnSingle \<or> Sc_Index sc = totalEntries - 1 then 0 else of_nat (entry_size layout e)",
            OF ok op e m idx fits(2) n bytes_def p]
        have upto_total: "unat (Sc_Index (scan_written bytes buffer sc)) \<le> max start (unat totalEntries)"
          using idx lt by (simp add: scan_written_def)
        show ?thesis
        proof (cases "faults (Sc_Cursor sc) (length bytes)")
          case (Some code)
          then show ?thesis unfolding turn using within by (auto simp: copy_out_def loop_ok_def)
        next
          case None
          then have turn': "enumerate_loop matches layout faults li totalEntries returnSingle sc =
              (if returnSingle then Some (LoopStopped (scan_written bytes buffer sc))
               else enumerate_loop matches layout faults li totalEntries returnSingle (scan_written bytes buffer sc))"
            unfolding turn by (simp add: copy_out_def p)
          show ?thesis
          proof (cases returnSingle)
            case True
            then show ?thesis unfolding turn' using w(1,4) single upto_total by (auto simp: loop_ok_def Let_def)
          next
            case ns: False
            have "scan_open matches layout li out start (scan_written bytes buffer sc)"
              if "unat (Sc_Index (scan_written bytes buffer sc)) < unat totalEntries"
            proof -
              have "Sc_Index sc \<noteq> totalEntries - 1"
              proof
                assume "Sc_Index sc = totalEntries - 1"
                then have "Sc_Index sc + 1 = totalEntries" by simp
                with that show False by (simp add: scan_written_def)
              qed
              then show ?thesis using w(2) ns by simp
            qed
            moreover have "fill_routine layout (min (Sc_Remaining sc) DIRCTRL_ENTRY_MAX_BYTES) (Sc_Index sc) e returnSingle
                (Sc_Index sc = totalEntries - 1) = Inr bytes"
              using False n by (simp add: fill_cases bytes_def unat_min max_bytes room_def)
            moreover have "fill_scratch bytes = Some bytes" using fits(1) by (intro scratch_room) (simp add: room_def bytes_def)
            moreover have "copy_out faults (Sc_Cursor sc) bytes (Sc_Buffer sc) = Some (Inr buffer)" using None p by (simp add: copy_out_def)
            ultimately have "\<exists>r. enumerate_loop matches layout faults li totalEntries returnSingle (scan_written bytes buffer sc) = Some r \<and>
                loop_ok matches layout faults li totalEntries returnSingle out start r"
              using w(1) ns upto_total "1.prems"(4) by (intro "1.IH"(1) [OF True e m _ _ _ refl]) auto
            then show ?thesis unfolding turn' using ns by simp
          qed
        qed
      qed
    qed
  qed
qed

section \<open>The whole call\<close>

lemma poke_ends_chain:
  assumes "es \<noteq> []"
  shows "poke (sizes layout (butlast es)) (le32 0) (ended_chain layout nx es @ rest) = Some (ended_chain layout 0 es @ rest)"
proof -
  obtain xs i e where es: "es = xs @ [(i, e)]" using assms by (metis rev_exhaust surj_pair)
  show ?thesis unfolding es ended_chain_snoc by (simp add: poke_def entry_bytes_def)
qed

definition enumerated_ok ::
    "(UNICODE_STRING \<Rightarrow> bool) \<Rightarrow> dir_layout \<Rightarrow> DIRECTORY_INFO \<Rightarrow> bool \<Rightarrow> UCHAR list \<Rightarrow> nat \<Rightarrow> dir_result \<Rightarrow> bool" where
  "enumerated_ok matches layout li returnSingle out start r \<longleftrightarrow>
     (let final = unat (DR_FinalIndex r); es = dir_between matches li start final
      in start \<le> final \<and> final \<le> max start (entry_count li) \<and> length (DR_Buffer r) = length out \<and> DR_BytesUsed r = sizes layout es \<and>
         DR_BytesUsed r \<le> length out \<and> drop (DR_BytesUsed r) (DR_Buffer r) = drop (DR_BytesUsed r) out \<and>
         read_entries layout (take (DR_BytesUsed r) (DR_Buffer r)) = es \<and> (returnSingle \<longrightarrow> length es \<le> 1) \<and>
         (final < entry_count li \<longrightarrow> returnSingle \<and> es \<noteq> [] \<or> no_room matches layout li (length out - DR_BytesUsed r) final) \<and>
         DR_Status r = (if es \<noteq> [] then STATUS_SUCCESS else if final < entry_count li then STATUS_BUFFER_OVERFLOW
                        else STATUS_NO_MORE_FILES))"

lemma enumerate_spec:
  assumes "entry_count li < 2 ^ 32" "length out = unat outLength"
  shows "\<exists>r. DirCtrlEnumerateDirectoryEntries matches layout faults li startIndex (of_nat (entry_count li)) returnSingle out outLength = Some r \<and>
    (case r of Inl code \<Rightarrow> \<exists>at n. at + n \<le> length out \<and> faults at n = Some code
     | Inr res \<Rightarrow> enumerated_ok matches layout li returnSingle out (unat startIndex) res)"
proof -
  let ?sc = "\<lparr>Sc_Index = startIndex, Sc_Remaining = outLength, Sc_Cursor = 0, Sc_LastEntry = None,
          Sc_TotalWritten = 0, Sc_Found = False, Sc_Buffer = out\<rparr>"
  let ?total = "of_nat (entry_count li) :: ULONG"
  have total: "unat ?total = entry_count li" by (rule unat_of_nat_less) (use assms(1) in simp)
  have start: "scan_ok matches layout li out (unat startIndex) ?sc" "scan_open matches layout li out (unat startIndex) ?sc"
    using assms(2) by (simp_all add: scan_ok_def scan_open_def Let_def sizes_def ended_chain_def open_chain_def)
  obtain r where r: "enumerate_loop matches layout faults li ?total returnSingle ?sc = Some r"
      "loop_ok matches layout faults li ?total returnSingle out (unat startIndex) r"
    using enumerate_loop_spec [OF start(1), of returnSingle ?total faults] start(2) total by auto
  show ?thesis
  proof (cases r)
    case (LoopRaised code)
    then show ?thesis using r by (auto simp: DirCtrlEnumerateDirectoryEntries_def loop_ok_def)
  next
    case (LoopRefused st index)
    then show ?thesis
      using r total name_offset_bounds(1) [of layout]
      by (auto simp: DirCtrlEnumerateDirectoryEntries_def loop_ok_def enumerated_ok_def Let_def sizes_def read_entries.simps)
  next
    case (LoopStopped sc)
    let ?es = "dir_between matches li (unat startIndex) (unat (Sc_Index sc))"
    let ?rest = "drop (sizes layout ?es) out"
    have ok: "scan_ok matches layout li out (unat startIndex) sc" using r(2) LoopStopped by (simp add: loop_ok_def Let_def)
    have f: "unat startIndex \<le> unat (Sc_Index sc)" "sizes layout ?es \<le> length out" "Sc_TotalWritten sc = sizes layout ?es"
        "Sc_Found sc = (?es \<noteq> [])" "Sc_LastEntry sc = (if ?es = [] then None else Some (sizes layout (butlast ?es)))"
      using ok by (simp_all add: scan_ok_def Let_def)
    obtain nx where buf: "Sc_Buffer sc = ended_chain layout nx ?es @ ?rest" using ok by (auto simp: scan_ok_def Let_def)
    have poked: "poke (sizes layout (butlast ?es)) (le32 0) (Sc_Buffer sc) = Some (ended_chain layout 0 ?es @ ?rest)" if "?es \<noteq> []"
      unfolding buf by (rule poke_ends_chain [OF that])
    have within: "sizes layout (butlast ?es) + 4 \<le> length out" if "?es \<noteq> []"
      using poked [OF that] scan_ok_length [OF ok] by (simp add: poke_def split: if_splits)
    let ?res = "\<lparr>DR_Status = (if ?es \<noteq> [] then STATUS_SUCCESS else STATUS_NO_MORE_FILES), DR_BytesUsed = sizes layout ?es,
        DR_FinalIndex = Sc_Index sc, DR_Buffer = ended_chain layout 0 ?es @ ?rest\<rparr>"
    consider (raised) code where "?es \<noteq> []" "faults (sizes layout (butlast ?es)) 4 = Some code"
      | (ended) "?es \<noteq> []" "faults (sizes layout (butlast ?es)) 4 = None" | (none) "?es = []" by blast
    then show ?thesis
    proof cases
      case raised
      then show ?thesis using r(1) LoopStopped f within
        by (auto simp: DirCtrlEnumerateDirectoryEntries_def copy_out_def)
    next
      case ended
      then have e: "DirCtrlEnumerateDirectoryEntries matches layout faults li startIndex ?total returnSingle out outLength = Some (Inr ?res)"
        using r(1) LoopStopped f poked by (simp add: DirCtrlEnumerateDirectoryEntries_def copy_out_def)
      have "unat startIndex < unat (Sc_Index sc)" using ended(1) f(1) by (cases "unat startIndex = unat (Sc_Index sc)") auto
      then have "unat (Sc_Index sc) \<le> entry_count li" using r(2) LoopStopped total by (auto simp: loop_ok_def Let_def)
      then have "read_entries layout (ended_chain layout 0 ?es) = ?es"
        by (intro read_ended_chain listed_ok_between [OF _ assms(1)])
      then have "enumerated_ok matches layout li returnSingle out (unat startIndex) ?res"
        using r(2) LoopStopped f ended(1) total by (auto simp: enumerated_ok_def loop_ok_def Let_def length_ended_chain)
      then show ?thesis unfolding e by simp
    next
      case none
      then have e: "DirCtrlEnumerateDirectoryEntries matches layout faults li startIndex ?total returnSingle out outLength = Some (Inr ?res)"
        using r(1) LoopStopped f buf by (simp add: DirCtrlEnumerateDirectoryEntries_def ended_chain_def)
      have "enumerated_ok matches layout li returnSingle out (unat startIndex) ?res"
        using r(2) LoopStopped f none total name_offset_bounds(1) [of layout]
        by (auto simp: enumerated_ok_def loop_ok_def Let_def sizes_def ended_chain_def read_entries.simps)
      then show ?thesis unfolding e by simp
    qed
  qed
qed

end
