(* ===== verification/Dir_Queries.thy ===== *)
theory Dir_Queries
  imports Dir_Control Dir_Enumerate
begin

text \<open>
  Successive queries on one handle: what they return together is the directory, each matching entry
  once and in order, whatever the sizes of their buffers.
\<close>

section \<open>Listings with the same entries\<close>

definition same_entries :: "DIRECTORY_INFO \<Rightarrow> DIRECTORY_INFO \<Rightarrow> bool" where
  "same_entries li li' \<longleftrightarrow> Files li' = Files li \<and> SubDirs li' = SubDirs li"

lemma same_entries_at: "same_entries li li' \<Longrightarrow> dir_entry_at li' i = dir_entry_at li i"
  by (simp add: same_entries_def dir_entry_at_def BlorgGetFileEntry_def BlorgGetSubDirEntry_def)

lemma same_entries_between: "same_entries li li' \<Longrightarrow> dir_between matches li' a b = dir_between matches li a b"
  by (simp add: dir_between_def same_entries_at)

lemma same_entries_count: "same_entries li li' \<Longrightarrow> entry_count li' = entry_count li"
  by (simp add: same_entries_def)

section \<open>A pass that continues an enumeration\<close>

lemma continues_acquired:
  assumes "\<not> dir_initial ccb" "\<not> Q_RestartScan q"
  shows "dir_acquired initialRead q ccb = (False, ccb)" "dir_set_pattern nls upcased False q ccb = (None, ccb)"
  using assms by (simp_all add: dir_acquired_def dir_set_pattern_def)

lemma continued_pass:
  assumes "\<not> dir_initial ccb" "\<not> Q_RestartScan q" "A_Acquired ans" "Entries ccb = Some a"
  shows "dir_query_pass nls ans dir initialRead q buffer ccb s =
    map_option (\<lambda>(r, ccb'). (r, ccb', s)) (dir_enumerate nls ans q buffer False ccb s)"
  using assms(3,4) continues_acquired [OF assms(1,2)] assms(2)
  by (simp add: dir_query_pass_def dir_snapshot_def dir_drop_snapshot_def)

text \<open>What an enumeration answers, from what the loop has been shown to do.\<close>

lemma enumerate_answer:
  assumes e: "Entries ccb = Some a" "Infos s a = Some li" and small: "entry_count li < 2 ^ 32"
    and q: "\<not> Q_IndexSpecified q" "dir_class (Q_Class q) = Inr layout" "length buffer = unat (Q_Length q)"
    and ans: "A_Scratch ans" "A_Mapped ans" "unat (CurrentIndex ccb) < 2 ^ 32"
  shows "\<exists>r ccb'. dir_enumerate nls ans q buffer owed ccb s = Some (r, ccb') \<and>
    (case r of
       DirAnswer status n out owed' \<Rightarrow>
         owed' = owed \<and>
         (case out of
            None \<Rightarrow> n = 0 \<and> ccb' = ccb \<and> (\<exists>at k. at + k \<le> length buffer \<and> A_Faults ans at k = Some status)
          | Some b \<Rightarrow> (\<exists>res. enumerated_ok (dir_matches nls ans ccb) layout li (Q_ReturnSingle q) buffer (unat (CurrentIndex ccb)) res \<and>
              status = DR_Status res \<and> n = (if NT_SUCCESS (DR_Status res) then DR_BytesUsed res else 0) \<and> b = DR_Buffer res \<and>
              ccb' = ccb\<lparr>CurrentIndex := ucast (DR_FinalIndex res)\<rparr>))
     | _ \<Rightarrow> False)"
proof -
  have i: "unat (ucast (CurrentIndex ccb) :: ULONG) = unat (CurrentIndex ccb)"
    using ans(3) by (simp add: unsigned_ucast_eq take_bit_nat_eq_self)
  obtain r where r: "DirCtrlEnumerateDirectoryEntries (dir_matches nls ans ccb) layout (A_Faults ans) li
      (ucast (CurrentIndex ccb)) (of_nat (entry_count li)) (Q_ReturnSingle q) buffer (Q_Length q) = Some r"
    "case r of Inl code \<Rightarrow> \<exists>at n. at + n \<le> length buffer \<and> A_Faults ans at n = Some code
     | Inr res \<Rightarrow> enumerated_ok (dir_matches nls ans ccb) layout li (Q_ReturnSingle q) buffer (unat (CurrentIndex ccb)) res"
    using enumerate_spec [OF small q(3), of "dir_matches nls ans ccb" layout "A_Faults ans" "ucast (CurrentIndex ccb)" "Q_ReturnSingle q"]
    unfolding i by blast
  show ?thesis
    using r e q(1,2) ans(1,2) by (cases r) (auto simp: dir_enumerate_def Let_def)
qed

section \<open>Runs of queries\<close>

text \<open>
  \<open>dir_reads nls inExpression a li ccb es ccb'\<close>: successful queries took the handle from \<open>ccb\<close> to
  \<open>ccb'\<close>, and a caller walking their buffers has read \<open>es\<close>. Between them the caches may change in any
  way that leaves the snapshot's entries, its reference being the handle's.
\<close>

definition plain_query :: "dir_query \<Rightarrow> dir_layout \<Rightarrow> UCHAR list \<Rightarrow> bool" where
  "plain_query q layout buffer \<longleftrightarrow> \<not> Q_RestartScan q \<and> \<not> Q_IndexSpecified q \<and>
     dir_class (Q_Class q) = Inr layout \<and> length buffer = unat (Q_Length q)"

definition snapshot_at :: "nat \<Rightarrow> DIRECTORY_INFO \<Rightarrow> PATH_CACHE_STATE \<Rightarrow> bool" where
  "snapshot_at a li s \<longleftrightarrow> (case Infos s a of None \<Rightarrow> False | Some li' \<Rightarrow> same_entries li li')"

inductive dir_reads ::
    "NLS \<Rightarrow> (UNICODE_STRING \<Rightarrow> UNICODE_STRING \<Rightarrow> bool option) \<Rightarrow> nat \<Rightarrow> DIRECTORY_INFO \<Rightarrow> DIR_CCB \<Rightarrow> listed list \<Rightarrow> DIR_CCB \<Rightarrow> bool"
  for nls inExpression a li ccb where
  begun: "dir_reads nls inExpression a li ccb [] ccb"
| query: "dir_reads nls inExpression a li ccb es ccb1 \<Longrightarrow> snapshot_at a li s \<Longrightarrow> plain_query q layout buffer \<Longrightarrow>
    A_InExpression ans = inExpression \<Longrightarrow>
    dir_query_pass nls ans dir initialRead q buffer ccb1 s = Some (DirAnswer STATUS_SUCCESS n (Some out) owed, ccb2, s2) \<Longrightarrow>
    dir_reads nls inExpression a li ccb (es @ read_entries layout (take n out)) ccb2"

definition handle_matches :: "NLS \<Rightarrow> (UNICODE_STRING \<Rightarrow> UNICODE_STRING \<Rightarrow> bool option) \<Rightarrow> DIR_CCB \<Rightarrow> UNICODE_STRING \<Rightarrow> bool" where
  "handle_matches nls inExpression ccb name = DirCtrlMatchPattern nls inExpression name (SearchPattern ccb) (Dir_Flags ccb)"

text \<open>One query on a handle that is part way through its snapshot.\<close>

definition part_way :: "nat \<Rightarrow> DIRECTORY_INFO \<Rightarrow> DIR_CCB \<Rightarrow> DIR_CCB \<Rightarrow> bool" where
  "part_way a li ccb ccb1 \<longleftrightarrow>
     \<not> dir_initial ccb1 \<and> Entries ccb1 = Some a \<and> SearchPattern ccb1 = SearchPattern ccb \<and> Dir_Flags ccb1 = Dir_Flags ccb \<and>
     unat (CurrentIndex ccb1) \<le> entry_count li"

lemma next_query:
  assumes at: "part_way a li ccb ccb1" and snap: "snapshot_at a li s" and q: "plain_query q layout buffer"
    and small: "entry_count li < 2 ^ 32" and ans: "A_InExpression ans = inExpression"
    and r: "dir_query_pass nls ans dir initialRead q buffer ccb1 s = Some (DirAnswer status n (Some out) owed, ccb2, s2)"
    and ok: "A_Acquired ans" "A_Scratch ans" "A_Mapped ans"
  shows "part_way a li ccb ccb2 \<and> unat (CurrentIndex ccb1) \<le> unat (CurrentIndex ccb2) \<and>
    (let es = dir_between (handle_matches nls inExpression ccb) li (unat (CurrentIndex ccb1)) (unat (CurrentIndex ccb2))
     in status = (if es \<noteq> [] then STATUS_SUCCESS
          else if unat (CurrentIndex ccb2) < entry_count li then STATUS_BUFFER_OVERFLOW else STATUS_NO_MORE_FILES) \<and>
        (status = STATUS_SUCCESS \<longrightarrow> read_entries layout (take n out) = es) \<and>
        (status = STATUS_BUFFER_OVERFLOW \<longrightarrow> no_room (handle_matches nls inExpression ccb) layout li (length buffer) (unat (CurrentIndex ccb2))))"
proof -
  obtain li' where li: "Infos s a = Some li'" "same_entries li li'" using snap by (auto simp: snapshot_at_def split: option.splits)
  note same = same_entries_at [OF li(2)] same_entries_between [OF li(2)] same_entries_count [OF li(2)]
  have a: "\<not> dir_initial ccb1" "Entries ccb1 = Some a" "unat (CurrentIndex ccb1) \<le> entry_count li"
    using at by (simp_all add: part_way_def)
  have m: "dir_matches nls ans ccb1 = handle_matches nls inExpression ccb"
    using at ans by (simp add: part_way_def dir_matches_def [abs_def] handle_matches_def [abs_def])
  have q': "\<not> Q_RestartScan q" "\<not> Q_IndexSpecified q" "dir_class (Q_Class q) = Inr layout" "length buffer = unat (Q_Length q)"
    using q by (simp_all add: plain_query_def)
  have e: "dir_enumerate nls ans q buffer False ccb1 s = Some (DirAnswer status n (Some out) owed, ccb2)"
    using r continued_pass [OF a(1) q'(1) ok(1) a(2)] by auto
  have "entry_count li' < 2 ^ 32" "unat (CurrentIndex ccb1) < 2 ^ 32" using same(3) small a(3) by simp_all
  then obtain res where res: "enumerated_ok (handle_matches nls inExpression ccb) layout li' (Q_ReturnSingle q) buffer (unat (CurrentIndex ccb1)) res"
      "status = DR_Status res" "n = (if NT_SUCCESS (DR_Status res) then DR_BytesUsed res else 0)" "out = DR_Buffer res"
      "ccb2 = ccb1\<lparr>CurrentIndex := ucast (DR_FinalIndex res)\<rparr>"
    using enumerate_answer [OF a(2) li(1) _ q'(2,3,4) ok(2,3), where nls = nls and owed = False] e m by auto
  have i: "unat (CurrentIndex ccb2) = unat (DR_FinalIndex res)" by (simp add: res(5) unat_ucast_up)
  have "max (unat (CurrentIndex ccb1)) (entry_count li) = entry_count li" using a(3) by simp
  then have f: "unat (CurrentIndex ccb1) \<le> unat (CurrentIndex ccb2)" "unat (CurrentIndex ccb2) \<le> entry_count li"
    using res(1) unfolding enumerated_ok_def Let_def i same by simp_all
  have "part_way a li ccb ccb2" using at f(2) by (auto simp: part_way_def res(5) dir_initial_def dir_match_all_def unat_ucast_up)
  moreover have nr: "no_room matches layout li' k j = no_room matches layout li k j" for matches k j by (simp add: no_room_def same(1))
  define es where "es = dir_between (handle_matches nls inExpression ccb) li (unat (CurrentIndex ccb1)) (unat (CurrentIndex ccb2))"
  have facts: "DR_BytesUsed res = sizes layout es" "read_entries layout (take (DR_BytesUsed res) out) = es"
      "unat (CurrentIndex ccb2) < entry_count li \<Longrightarrow> es \<noteq> [] \<or> no_room (handle_matches nls inExpression ccb) layout li (length buffer - DR_BytesUsed res) (unat (CurrentIndex ccb2))"
      "status = (if es \<noteq> [] then STATUS_SUCCESS else if unat (CurrentIndex ccb2) < entry_count li then STATUS_BUFFER_OVERFLOW else STATUS_NO_MORE_FILES)"
    using res unfolding enumerated_ok_def Let_def i same nr es_def by auto
  have distinct: "STATUS_SUCCESS \<noteq> STATUS_BUFFER_OVERFLOW" "STATUS_SUCCESS \<noteq> STATUS_NO_MORE_FILES" "STATUS_BUFFER_OVERFLOW \<noteq> STATUS_NO_MORE_FILES"
    by (simp_all add: STATUS_SUCCESS_def STATUS_NO_MORE_FILES_def STATUS_BUFFER_OVERFLOW_def)
  have "status = STATUS_SUCCESS \<Longrightarrow> read_entries layout (take n out) = es" using res(2,3) facts(2) by simp
  moreover have "status = STATUS_BUFFER_OVERFLOW \<Longrightarrow> no_room (handle_matches nls inExpression ccb) layout li (length buffer) (unat (CurrentIndex ccb2))"
    using facts(1,3,4) distinct by (auto simp: sizes_def split: if_splits)
  ultimately show ?thesis using f(1) facts(4) unfolding Let_def es_def [symmetric] by blast
qed

lemma succeeded:
  assumes "dir_query_pass nls ans dir initialRead q buffer ccb s = Some (DirAnswer STATUS_SUCCESS n out owed, ccb', s')"
    "\<not> dir_initial ccb" "\<not> Q_RestartScan q" "Entries ccb = Some a" "dir_class (Q_Class q) = Inr layout"
  shows "A_Acquired ans" "A_Scratch ans" "A_Mapped ans"
proof -
  show acq: "A_Acquired ans" using assms(1) by (cases "A_Acquired ans") (auto simp: dir_query_pass_def)
  have "\<exists>ccb'. dir_enumerate nls ans q buffer False ccb s = Some (DirAnswer STATUS_SUCCESS n out owed, ccb')"
    using assms(1) unfolding continued_pass [OF assms(2,3) acq assms(4)] by auto
  then show "A_Scratch ans" "A_Mapped ans"
    using assms(4,5)
    by (auto simp: dir_enumerate_def Let_def bind_Some_conv STATUS_SUCCESS_def STATUS_INSUFFICIENT_RESOURCES_def split: if_splits)
qed

lemma reads_so_far:
  assumes "dir_reads nls inExpression a li ccb es ccb'" "\<not> dir_initial ccb" "Entries ccb = Some a" "CurrentIndex ccb = 0"
    "entry_count li < 2 ^ 32"
  shows "part_way a li ccb ccb' \<and> es = dir_between (handle_matches nls inExpression ccb) li 0 (unat (CurrentIndex ccb'))"
  using assms
proof (induction rule: dir_reads.induct)
  case begun
  then show ?case by (simp add: part_way_def)
next
  case (query es ccb1 s q layout buffer ans dir initialRead n out owed ccb2 s2)
  let ?m = "handle_matches nls inExpression ccb"
  have IH: "part_way a li ccb ccb1" "es = dir_between ?m li 0 (unat (CurrentIndex ccb1))" using query by blast+
  have "\<not> dir_initial ccb1" "Entries ccb1 = Some a" "\<not> Q_RestartScan q" "dir_class (Q_Class q) = Inr layout"
    using IH(1) query.hyps(3) by (simp_all add: part_way_def plain_query_def)
  note ok = succeeded [OF query.hyps(5) this(1,3,2,4)]
  have "part_way a li ccb ccb2 \<and> unat (CurrentIndex ccb1) \<le> unat (CurrentIndex ccb2) \<and>
      read_entries layout (take n out) = dir_between ?m li (unat (CurrentIndex ccb1)) (unat (CurrentIndex ccb2))"
    using next_query [OF IH(1) query.hyps(2,3) query.prems(4) query.hyps(4,5) ok] by (simp add: Let_def)
  then show ?case using IH(2) dir_between_append [of 0 "unat (CurrentIndex ccb1)" "unat (CurrentIndex ccb2)" ?m li] by simp
qed

text \<open>Entries of a listing whose names have at most 259 characters all fit in 624 bytes.\<close>

definition short_names :: "DIRECTORY_INFO \<Rightarrow> bool" where
  "short_names li \<longleftrightarrow> (\<forall>i < entry_count li. length (HttpListingEntryName li i) < MAX_NAME_LEN)"

lemma short_name_at:
  assumes "short_names li" "dir_entry_at li i = Some e"
  shows "entry_size layout e \<le> 624"
proof -
  have i: "i < entry_count li" using assms(2) by (auto simp: dir_entry_at_def BlorgGetSubDirEntry_def BlorgGetFileEntry_def split: if_splits)
  have "DE_Name e = RtlInitUnicodeString (HttpListingEntryName li i)"
    using assms(2) by (auto simp: dir_entry_at_def BlorgGetSubDirEntry_def BlorgGetFileEntry_def HttpListingEntryName_def split: if_splits)
  then have "length (DE_Name e) \<le> length (HttpListingEntryName li i)"
    by (simp add: RtlInitUnicodeString_def min.coboundedI1 length_takeWhile_le)
  moreover have "length (HttpListingEntryName li i) < 260" using assms(1) i by (simp add: short_names_def MAX_NAME_LEN_def)
  ultimately have n: "name_offset_of layout + byte_length (DE_Name e) + 7 \<le> 629"
    using name_offset_bounds(2) [of layout] by linarith
  have "(name_offset_of layout + byte_length (DE_Name e) + 7) div 8 \<le> 78" using div_le_mono [OF n, of 8] by simp
  then show ?thesis unfolding entry_size_def by linarith
qed

lemma no_room_short: "short_names li \<Longrightarrow> 624 \<le> k \<Longrightarrow> \<not> no_room matches layout li k i"
  using short_name_at [of li i _ layout] by (auto simp: no_room_def room_def split: option.splits)

text \<open>Without faults a query of a handle that is part way through its snapshot is answered.\<close>

lemma pass_answers:
  assumes at: "part_way a li ccb ccb1" and snap: "snapshot_at a li s" and q: "plain_query q layout buffer"
    and small: "entry_count li < 2 ^ 32" and ok: "A_Acquired ans" "A_Scratch ans" "A_Mapped ans"
    and faults: "\<forall>at k. A_Faults ans at k = None"
  shows "\<exists>status n out ccb2. dir_query_pass nls ans dir initialRead q buffer ccb1 s = Some (DirAnswer status n (Some out) False, ccb2, s)"
proof -
  obtain li' where li: "Infos s a = Some li'" "same_entries li li'" using snap by (auto simp: snapshot_at_def split: option.splits)
  have a: "\<not> dir_initial ccb1" "Entries ccb1 = Some a" "unat (CurrentIndex ccb1) \<le> entry_count li"
    using at by (simp_all add: part_way_def)
  have q': "\<not> Q_RestartScan q" "\<not> Q_IndexSpecified q" "dir_class (Q_Class q) = Inr layout" "length buffer = unat (Q_Length q)"
    using q by (simp_all add: plain_query_def)
  have "entry_count li' < 2 ^ 32" "unat (CurrentIndex ccb1) < 2 ^ 32" using same_entries_count [OF li(2)] small a(3) by simp_all
  from enumerate_answer [OF a(2) li(1) this(1) q'(2,3,4) ok(2,3) this(2), where nls = nls and owed = False]
  obtain r ccb2 where r: "dir_enumerate nls ans q buffer False ccb1 s = Some (r, ccb2)"
    and "case r of DirAnswer status n out owed' \<Rightarrow> owed' = False \<and> out \<noteq> None | _ \<Rightarrow> False"
    using faults by (fastforce split: dir_end.splits option.splits)
  then obtain status n out where "r = DirAnswer status n (Some out) False" by (cases r) auto
  with r show ?thesis using continued_pass [OF a(1) q'(1) ok(1) a(2)] by auto
qed

end
