(* ===== verification/Dir_Protocol.thy ===== *)
theory Dir_Protocol
  imports Dir_Queries Path_Cache_Protocol
begin

text \<open>
  Handles under concurrency (DirCtrl.c): queries on the same handle, completions of fetches, the
  caches and their other users, interleaved. A thread is a query between the points where it takes the
  directory's resource, looks for a snapshot, installs it, enumerates and stores the position, or a
  completion that holds a fetched listing. The resource is modelled per handle, which allows more
  interleavings than the code's, which is per directory.

  The caches are the world of Path_Cache_Protocol, whose count of outside references is here made of
  what handles and threads hold and of what others hold; others drop only what is theirs.
\<close>

section \<open>The machine\<close>

datatype dir_thread =
    Arrived nat dir_query bool          \<comment> \<open>before the resource; whether it read an initial handle\<close>
  | Locked nat dir_query bool           \<comment> \<open>with the resource, exclusive or shared, before the snapshot\<close>
  | Installing nat dir_query bool nat   \<comment> \<open>with a reference to the listing it found\<close>
  | Reading nat dir_query bool nat      \<comment> \<open>enumerating the handle's snapshot\<close>
  | Storing nat bool ULONG64            \<comment> \<open>about to store the position\<close>
  | Fetched nat nat                     \<comment> \<open>a completion, with the listing that was fetched\<close>

fun handle_of :: "dir_thread \<Rightarrow> nat" where
  "handle_of (Arrived h _ _) = h"
| "handle_of (Locked h _ _) = h"
| "handle_of (Installing h _ _ _) = h"
| "handle_of (Reading h _ _ _) = h"
| "handle_of (Storing h _ _) = h"
| "handle_of (Fetched h _) = h"

text \<open>The handle whose resource a thread holds, and whether exclusively.\<close>

fun lock_of :: "dir_thread \<Rightarrow> (nat \<times> bool) option" where
  "lock_of (Locked h _ x) = Some (h, x)"
| "lock_of (Installing h _ x _) = Some (h, x)"
| "lock_of (Reading h _ x _) = Some (h, x)"
| "lock_of (Storing h x _) = Some (h, x)"
| "lock_of _ = None"

fun holds :: "dir_thread \<Rightarrow> nat option" where
  "holds (Installing _ _ _ a) = Some a"
| "holds (Fetched _ a) = Some a"
| "holds _ = None"

record dir_world =
  D_Caches :: cache_world
  D_Ccbs :: "nat \<rightharpoonup> UNICODE_STRING \<times> DIR_CCB"
  D_Threads :: "nat \<rightharpoonup> dir_thread"

definition snap :: "dir_world \<Rightarrow> nat \<Rightarrow> nat option" where
  "snap w h = Option.bind (D_Ccbs w h) (\<lambda>(dir, ccb). Entries ccb)"

definition holding :: "dir_world \<Rightarrow> nat \<Rightarrow> nat option" where
  "holding w t = Option.bind (D_Threads w t) holds"

definition tally :: "(nat \<Rightarrow> nat option) \<Rightarrow> nat \<Rightarrow> int" where
  "tally f a = int (card {k. f k = Some a})"

text \<open>The references to a listing that handles and threads hold.\<close>

definition held :: "dir_world \<Rightarrow> nat \<Rightarrow> int" where
  "held w a = tally (snap w) a + tally (holding w) a"

definition unlocked :: "dir_world \<Rightarrow> nat \<Rightarrow> bool" where
  "unlocked w h \<longleftrightarrow> (\<forall>t th x. D_Threads w t = Some th \<longrightarrow> lock_of th \<noteq> Some (h, x))"

definition not_exclusive :: "dir_world \<Rightarrow> nat \<Rightarrow> bool" where
  "not_exclusive w h \<longleftrightarrow> (\<forall>t th. D_Threads w t = Some th \<longrightarrow> lock_of th \<noteq> Some (h, True))"

definition drop_reference :: "nat option \<Rightarrow> cache_world \<Rightarrow> cache_world" where
  "drop_reference entries c =
     c\<lparr>W_Cache := release_entries entries (W_Cache c),
       W_Ext := (case entries of None \<Rightarrow> W_Ext c | Some a \<Rightarrow> (W_Ext c)(a := W_Ext c a - 1))\<rparr>"

definition set_ccb :: "nat \<Rightarrow> UNICODE_STRING \<Rightarrow> DIR_CCB \<Rightarrow> dir_world \<Rightarrow> dir_world" where
  "set_ccb h dir ccb w = w\<lparr>D_Ccbs := (D_Ccbs w)(h \<mapsto> (dir, ccb))\<rparr>"

definition set_thread :: "nat \<Rightarrow> dir_thread option \<Rightarrow> dir_world \<Rightarrow> dir_world" where
  "set_thread t th w = w\<lparr>D_Threads := (D_Threads w)(t := th)\<rparr>"

definition set_caches :: "cache_world \<Rightarrow> dir_world \<Rightarrow> dir_world" where
  "set_caches c w = w\<lparr>D_Caches := c\<rparr>"

inductive dir_step :: "NLS \<Rightarrow> dir_world \<Rightarrow> dir_world \<Rightarrow> bool" for nls where
  caches: "cache_step nls (D_Caches w) c \<Longrightarrow> \<forall>a. held w a \<le> W_Ext c a \<Longrightarrow> dir_step nls w (set_caches c w)"
| opened: "D_Ccbs w h = None \<Longrightarrow> dir_step nls w (set_ccb h dir new_dir_ccb w)"
| closed: "D_Ccbs w h = Some (dir, ccb) \<Longrightarrow> \<forall>t th. D_Threads w t = Some th \<longrightarrow> handle_of th \<noteq> h \<Longrightarrow>
    dir_step nls w ((set_caches (drop_reference (Entries ccb) (D_Caches w)) w)\<lparr>D_Ccbs := (D_Ccbs w)(h := None)\<rparr>)"
| arrived: "D_Threads w t = None \<Longrightarrow> D_Ccbs w h = Some (dir, ccb) \<Longrightarrow>
    dir_step nls w (set_thread t (Some (Arrived h q (dir_initial ccb))) w)"
| posted: "D_Threads w t = Some (Arrived h q initialRead) \<Longrightarrow> dir_step nls w (set_thread t None w)"
| exclusive: "D_Threads w t = Some (Arrived h q initialRead) \<Longrightarrow> D_Ccbs w h = Some (dir, ccb) \<Longrightarrow>
    initialRead \<or> Q_RestartScan q \<Longrightarrow> unlocked w h \<Longrightarrow> dir_acquired initialRead q ccb = (initialQuery, ccb1) \<Longrightarrow>
    dir_set_pattern nls upcased initialQuery q ccb1 = (None, ccb2) \<Longrightarrow>
    fresh = (\<not> Q_NetDone q \<and> (initialQuery \<or> Q_RestartScan q)) \<Longrightarrow>
    dir_step nls w (set_thread t (Some (Locked h q (initialQuery \<or> Q_RestartScan q)))
      (set_ccb h dir (if fresh then ccb2\<lparr>Entries := None\<rparr> else ccb2)
        (set_caches (if fresh then drop_reference (Entries ccb2) (D_Caches w) else D_Caches w) w)))"
| refused: "D_Threads w t = Some (Arrived h q initialRead) \<Longrightarrow> D_Ccbs w h = Some (dir, ccb) \<Longrightarrow>
    initialRead \<or> Q_RestartScan q \<Longrightarrow> unlocked w h \<Longrightarrow> dir_acquired initialRead q ccb = (initialQuery, ccb1) \<Longrightarrow>
    dir_set_pattern nls upcased initialQuery q ccb1 = (Some status, ccb2) \<Longrightarrow>
    dir_step nls w (set_thread t None (set_ccb h dir ccb2 w))"
| shared: "D_Threads w t = Some (Arrived h q False) \<Longrightarrow> \<not> Q_RestartScan q \<Longrightarrow> not_exclusive w h \<Longrightarrow>
    dir_step nls w (set_thread t (Some (Locked h q False)) w)"
| present: "D_Threads w t = Some (Locked h q x) \<Longrightarrow> D_Ccbs w h = Some (dir, ccb) \<Longrightarrow> Entries ccb = Some a \<Longrightarrow>
    dir_step nls w (set_thread t (Some (Reading h q x a)) w)"
| looked: "D_Threads w t = Some (Locked h q x) \<Longrightarrow> D_Ccbs w h = Some (dir, ccb) \<Longrightarrow> Entries ccb = None \<Longrightarrow>
    BlorgPathCacheLookupListing nls now dir True zero_ticket (W_Cache (D_Caches w)) = (r, s') \<Longrightarrow> R_Listing r = Some a \<Longrightarrow>
    c = (D_Caches w)\<lparr>W_Cache := s', W_Ext := (W_Ext (D_Caches w))(a := W_Ext (D_Caches w) a + 1),
           W_Tickets := insert (R_Ticket r) (W_Tickets (D_Caches w))\<rparr> \<Longrightarrow>
    dir_step nls w (set_thread t (Some (Installing h q x a)) (set_caches c w))"
| missed: "D_Threads w t = Some (Locked h q x) \<Longrightarrow> D_Ccbs w h = Some (dir, ccb) \<Longrightarrow> Entries ccb = None \<Longrightarrow>
    BlorgPathCacheLookupListing nls now dir True zero_ticket (W_Cache (D_Caches w)) = (r, s') \<Longrightarrow> R_Listing r = None \<Longrightarrow>
    dir_step nls w (set_thread t None w)"
| installed: "D_Threads w t = Some (Installing h q x a) \<Longrightarrow> D_Ccbs w h = Some (dir, ccb) \<Longrightarrow>
    DirCtrlInstallSnapshot a ccb (W_Cache (D_Caches w)) = (ccb', s') \<Longrightarrow> Entries ccb' = Some b \<Longrightarrow>
    c = (D_Caches w)\<lparr>W_Cache := s', W_Ext := (W_Ext (D_Caches w))(a := W_Ext (D_Caches w) a - (if Entries ccb = None then 0 else 1))\<rparr> \<Longrightarrow>
    dir_step nls w (set_thread t (Some (Reading h q x b)) (set_ccb h dir ccb' (set_caches c w)))"
| enumerated: "D_Threads w t = Some (Reading h q x a) \<Longrightarrow> D_Ccbs w h = Some (dir, ccb) \<Longrightarrow>
    dir_enumerate nls ans q buffer owed ccb (W_Cache (D_Caches w)) = Some (r, ccb') \<Longrightarrow>
    dir_step nls w (set_thread t (Some (Storing h x (CurrentIndex ccb'))) w)"
| kept: "D_Threads w t = Some (Reading h q x a) \<Longrightarrow> D_Ccbs w h = Some (dir, ccb) \<Longrightarrow>
    dir_enumerate nls ans q buffer owed ccb (W_Cache (D_Caches w)) = Some (r, ccb) \<Longrightarrow>
    dir_step nls w (set_thread t None w)"
| stored: "D_Threads w t = Some (Storing h x i) \<Longrightarrow> D_Ccbs w h = Some (dir, ccb) \<Longrightarrow>
    dir_step nls w (set_thread t None (set_ccb h dir (ccb\<lparr>CurrentIndex := i\<rparr>) w))"
| fetched: "D_Threads w t = None \<Longrightarrow> D_Ccbs w h \<noteq> None \<Longrightarrow> Infos (W_Cache (D_Caches w)) a = None \<Longrightarrow>
    DIRECTORY_INFO.RefCount li = 1 \<Longrightarrow> Descendants li = [] \<Longrightarrow>
    c = (D_Caches w)\<lparr>W_Cache := (W_Cache (D_Caches w))\<lparr>Infos := (Infos (W_Cache (D_Caches w)))(a \<mapsto> li)\<rparr>,
           W_Ext := (W_Ext (D_Caches w))(a := 1)\<rparr> \<Longrightarrow>
    dir_step nls w (set_thread t (Some (Fetched h a)) (set_caches c w))"
| completed: "D_Threads w t = Some (Fetched h a) \<Longrightarrow> D_Ccbs w h = Some (dir, ccb) \<Longrightarrow> unlocked w h \<Longrightarrow>
    (ccb2, mine) = (case Entries ccb of None \<Rightarrow> (ccb\<lparr>Entries := Some a\<rparr>, None) | Some _ \<Rightarrow> (ccb, Some a)) \<Longrightarrow>
    dir_step nls w (set_thread t None (set_ccb h dir ccb2 (set_caches (drop_reference mine (D_Caches w)) w)))"

definition dir_boot :: dir_world where
  "dir_boot = \<lparr>D_Caches = cache_boot, D_Ccbs = Map.empty, D_Threads = Map.empty\<rparr>"

abbreviation dir_steps :: "NLS \<Rightarrow> dir_world \<Rightarrow> dir_world \<Rightarrow> bool" where
  "dir_steps nls \<equiv> (dir_step nls)\<^sup>*\<^sup>*"

section \<open>The entries of a listing never change\<close>

lemma frame_upd: "info_frame h (h(a := None))" "h a = Some li \<Longrightarrow> info_frame h (h(a \<mapsto> li\<lparr>DIRECTORY_INFO.RefCount := k\<rparr>))"
  by (auto simp: info_frame_def)

lemma release_frame: "info_frame h (release depth a h)"
proof (induction depth arbitrary: a h)
  case (Suc depth)
  have "info_frame h0 (fold (\<lambda>d. release depth (D_Listing d)) ds h0)" for ds h0
    by (induction ds arbitrary: h0) (auto intro: info_frame_trans [OF Suc.IH])
  then show ?case
    using frame_upd [of h a] by (auto intro: info_frame_trans split: option.split)
qed simp

lemma release_info_frame: "info_frame h (BlorgReleaseDirectoryInfo a h)"
  by (simp add: BlorgReleaseDirectoryInfo_def release_frame)

lemma reference_info_frame: "info_frame h (BlorgReferenceDirectoryInfo a h)"
  by (auto simp: info_frame_def BlorgReferenceDirectoryInfo_def)

lemma remove_listing_frame: "info_frame (Infos s) (Infos (ListingCacheRemoveEntry i e s))"
  by (simp add: ListingCacheRemoveEntry_def release_info_frame)

lemma remove_listings_frame: "info_frame (Infos s) (Infos (remove_where ListingCacheRemoveEntry P i es s))"
proof (induction es arbitrary: s)
  case (Cons e es)
  show ?case
    using Cons [of s] info_frame_trans [OF remove_listing_frame Cons, of s i e] by simp
qed simp

lemma remove_listing_one_frame: "info_frame (Infos s) (Infos (remove_one ListingCacheRemoveEntry P i es s))"
  by (induction es) (simp_all add: remove_listing_frame)

lemma publish_walk_frame: "publish_walk nls dir alive i es existing s = (existing', s') \<Longrightarrow> info_frame (Infos s) (Infos s')"
  by (induction es arbitrary: existing s) (auto split: if_splits dest: info_frame_trans [OF remove_listing_frame])

lemma evict_frame: "info_frame (Infos s) (Infos (evict_over i bytes es s))"
proof (induction es arbitrary: s)
  case (Cons e es)
  show ?case using info_frame_trans [OF remove_listing_frame Cons, of s i e] by simp
qed simp

lemma publish_evict_frame: "info_frame (Infos s) (Infos (publish_evict i bytes s))"
  unfolding publish_evict_def Let_def by (auto intro: evict_frame info_frame_trans [OF remove_listing_frame])

lemma publish_insert_frame: "info_frame (Infos s) (Infos (publish_insert i new s))"
  by (auto simp: publish_insert_def ListingCacheCharge_def Let_def reference_info_frame)

lemma publish_locked_frame:
  assumes "publish_locked nls pool dir a bytes ticket now lifetime generation s = (current, s')"
  shows "info_frame (Infos s) (Infos s')"
proof -
  obtain ex s1 where w: "publish_walk nls dir (\<lambda>e. ListingCacheEntryLive e now generation lifetime) (ListingCacheBucket nls dir)
      (if PathCacheTicketHonoured ticket s then listing_list s (ListingCacheBucket nls dir) else []) None s = (ex, s1)" by fastforce
  note f = publish_walk_frame [OF w]
  have "info_frame (Infos s) (Infos (ListingCacheRemoveEntry i e s1))" for i e
    by (rule info_frame_trans [OF f remove_listing_frame])
  note f = f this
  have g: "info_frame (Infos s) (Infos t) \<Longrightarrow> info_frame (Infos s) (Infos (publish_insert i new (publish_evict i bytes t)))" for i new t
    by (rule info_frame_trans [OF _ info_frame_trans [OF publish_evict_frame publish_insert_frame]])
  show ?thesis
    using assms f g unfolding publish_locked_def Let_def w by (auto split: option.splits if_splits)
qed

lemma path_frame_infos: "path_frame s s' \<Longrightarrow> Infos s' = Infos s"
  by (auto simp: path_frame_def)

lemma run_part_frame: "info_frame (Infos s) (Infos (run_part nls p s))"
proof (cases p)
  case (PathOne path)
  then show ?thesis using path_frame_infos [OF path_drop_frame] by simp
next
  case (PathUnder dir i)
  then show ?thesis using path_frame_infos [OF sweep_paths_frame] by simp
qed (simp_all add: ListingCacheDrop_def Let_def sweep_listings_def remove_listings_frame remove_listing_one_frame)

text \<open>
  A step of the caches changes a listing in its reference count at most, or puts a new one at a free
  address.
\<close>

definition entries_kept :: "info_heap \<Rightarrow> info_heap \<Rightarrow> bool" where
  "entries_kept h h' \<longleftrightarrow>
     (\<forall>a li'. h' a = Some li' \<longrightarrow>
        (case h a of None \<Rightarrow> Descendants li' = [] | Some li \<Rightarrow> Descendants li' = Descendants li \<and> same_entries li li'))"

lemma frame_entries_kept: "info_frame h h' \<Longrightarrow> entries_kept h h'"
  unfolding info_frame_def entries_kept_def same_entries_def
proof (intro allI impI)
  fix a li' assume f: "\<forall>a li'. h' a = Some li' \<longrightarrow> (\<exists>li. h a = Some li \<and> li' = li\<lparr>DIRECTORY_INFO.RefCount := DIRECTORY_INFO.RefCount li'\<rparr>)"
    and a: "h' a = Some li'"
  then obtain li where li: "h a = Some li" "li' = li\<lparr>DIRECTORY_INFO.RefCount := DIRECTORY_INFO.RefCount li'\<rparr>" by blast
  have "Descendants li' = Descendants li" "Files li' = Files li" "SubDirs li' = SubDirs li" by (subst li(2), simp)+
  then show "case h a of None \<Rightarrow> Descendants li' = [] | Some li \<Rightarrow> Descendants li' = Descendants li \<and> Files li' = Files li \<and> SubDirs li' = SubDirs li"
    using li(1) by simp
qed

lemma cache_step_entries:
  assumes "cache_step nls w w'" "cache_world_ok nls w" "nls_ok nls"
  shows "entries_kept (Infos (W_Cache w)) (Infos (W_Cache w'))"
  using assms(1)
proof cases
  case (listed dir allowStale t now lifetime generation r s' a)
  then have "info_frame (Infos (W_Cache w)) (Infos s')"
    unfolding lookup_listing_locked_def Let_def
    by (auto simp: claim_refresh_def reference_info_frame split: option.splits if_splits)
  then show ?thesis unfolding listed(1) by (simp add: frame_entries_kept)
next
  case (put t generation path exists meta now lifetime)
  have "path_frame (W_Cache w) (insert_locked nls path exists meta (Some t) now lifetime generation (W_Cache w))"
    using insert_locked_spec [OF _ assms(3) put(4) refl] assms(2) unfolding cache_world_ok_def by blast
  then show ?thesis unfolding put(1) by (simp add: path_frame_infos frame_entries_kept)
next
  case (publish t generation dir a li bytes pool now lifetime current s')
  then show ?thesis using publish_locked_frame [OF publish(11)] by (simp add: frame_entries_kept)
next
  case (drop_paths i P)
  then show ?thesis using path_frame_infos [OF sweep_paths_frame] by (simp add: frame_entries_kept)
next
  case (drop_listings i Q)
  then show ?thesis by (simp add: frame_entries_kept sweep_listings_def remove_listings_frame)
next
  case (part k iv p todo)
  then show ?thesis by (simp add: frame_entries_kept run_part_frame)
next
  case (fetch a li)
  then show ?thesis by (auto simp: entries_kept_def same_entries_def split: option.split)
next
  case (reference a)
  then show ?thesis by (simp add: frame_entries_kept reference_info_frame)
next
  case (release a li)
  then show ?thesis by (simp add: frame_entries_kept release_info_frame)
qed (simp_all add: frame_entries_kept PathCacheAdvanceSequence_def)

end
