(* ===== verification/Dir_Handles.thy ===== *)
theory Dir_Handles
  imports Dir_Protocol
begin

text \<open>
  The invariant of directory handles: every snapshot a handle has, and every listing a thread holds, is
  accounted for among the references to it; exclusive means alone; and a thread that enumerates does so
  on its handle's snapshot.
\<close>

section \<open>Counting references\<close>

lemma tally_upd:
  assumes "finite {k. f k \<noteq> None}"
  shows "tally (f(k := v)) a = tally f a - (if f k = Some a then 1 else 0) + (if v = Some a then 1 else 0)"
proof -
  let ?S = "{j. f j = Some a}"
  have fin: "finite ?S" by (rule finite_subset [OF _ assms]) auto
  have gone: "int (card (?S - {k})) = int (card ?S) - (if f k = Some a then 1 else 0)"
  proof (cases "f k = Some a")
    case True
    then have "k \<in> ?S" by simp
    from card.remove [OF fin this] show ?thesis using True by simp
  qed simp
  have "{j. (f(k := v)) j = Some a} = (if v = Some a then insert k (?S - {k}) else ?S - {k})" by auto
  moreover have "card (insert k (?S - {k})) = Suc (card (?S - {k}))" using fin by (intro card_insert_disjoint) auto
  ultimately have "int (card {j. (f(k := v)) j = Some a}) = int (card (?S - {k})) + (if v = Some a then 1 else 0)"
    by (simp del: insert_Diff_single)
  then show ?thesis using gone by (simp add: tally_def)
qed

lemma tally_nonneg [simp]: "0 \<le> tally f a"
  by (simp add: tally_def)

lemma tally_pos: "finite {k. f k \<noteq> None} \<Longrightarrow> f k = Some a \<Longrightarrow> 0 < tally f a"
proof -
  assume "finite {k. f k \<noteq> None}" "f k = Some a"
  then have "finite {j. f j = Some a}" "k \<in> {j. f j = Some a}" by (auto elim: finite_subset [rotated])
  then have "0 < card {j. f j = Some a}" using card_gt_0_iff by blast
  then show ?thesis by (simp add: tally_def)
qed

lemma snap_set_simps [simp]:
  "snap (set_ccb h dir ccb w) = (snap w)(h := Entries ccb)" "holding (set_ccb h dir ccb w) = holding w"
  "snap (set_thread t th w) = snap w" "holding (set_thread t th w) = (holding w)(t := Option.bind th holds)"
  "snap (set_caches c w) = snap w" "holding (set_caches c w) = holding w"
  by (auto simp: snap_def [abs_def] holding_def [abs_def] set_ccb_def set_thread_def set_caches_def)

lemma set_simps [simp]:
  "D_Caches (set_ccb h dir ccb w) = D_Caches w" "D_Caches (set_thread t th w) = D_Caches w" "D_Caches (set_caches c w) = c"
  "D_Ccbs (set_ccb h dir ccb w) = (D_Ccbs w)(h \<mapsto> (dir, ccb))" "D_Ccbs (set_thread t th w) = D_Ccbs w" "D_Ccbs (set_caches c w) = D_Ccbs w"
  "D_Threads (set_ccb h dir ccb w) = D_Threads w" "D_Threads (set_thread t th w) = (D_Threads w)(t := th)" "D_Threads (set_caches c w) = D_Threads w"
  by (simp_all add: set_ccb_def set_thread_def set_caches_def)

section \<open>The invariant\<close>

definition refs_held :: "dir_world \<Rightarrow> bool" where
  "refs_held w \<longleftrightarrow> finite (dom (D_Ccbs w)) \<and> finite (dom (D_Threads w)) \<and> (\<forall>a. held w a \<le> W_Ext (D_Caches w) a)"

definition locks_ok :: "dir_world \<Rightarrow> bool" where
  "locks_ok w \<longleftrightarrow>
     (\<forall>t th t' th' h x. D_Threads w t = Some th \<longrightarrow> D_Threads w t' = Some th' \<longrightarrow> t \<noteq> t' \<longrightarrow>
        lock_of th = Some (h, True) \<longrightarrow> lock_of th' \<noteq> Some (h, x))"

definition threads_ok :: "dir_world \<Rightarrow> bool" where
  "threads_ok w \<longleftrightarrow>
     (\<forall>t th. D_Threads w t = Some th \<longrightarrow> D_Ccbs w (handle_of th) \<noteq> None \<and>
        (\<forall>h q x a. th = Reading h q x a \<longrightarrow> snap w h = Some a))"

definition caches_ok :: "NLS \<Rightarrow> dir_world \<Rightarrow> bool" where
  "caches_ok nls w \<longleftrightarrow> cache_world_ok nls (D_Caches w) \<and>
     (\<forall>a li. Infos (W_Cache (D_Caches w)) a = Some li \<longrightarrow> Descendants li = [])"

definition dir_inv :: "NLS \<Rightarrow> dir_world \<Rightarrow> bool" where
  "dir_inv nls w \<longleftrightarrow> caches_ok nls w \<and> refs_held w \<and> locks_ok w \<and> threads_ok w"

lemma finite_snap: "refs_held w \<Longrightarrow> finite {h. snap w h \<noteq> None}"
  by (rule finite_subset [of _ "dom (D_Ccbs w)"]) (auto simp: refs_held_def snap_def bind_eq_Some_conv)

lemma finite_holding: "refs_held w \<Longrightarrow> finite {t. holding w t \<noteq> None}"
  by (rule finite_subset [of _ "dom (D_Threads w)"]) (auto simp: refs_held_def holding_def bind_eq_Some_conv)

lemma held_ext:
  assumes "refs_held w"
  shows "snap w h = Some a \<Longrightarrow> 0 < W_Ext (D_Caches w) a" "holding w t = Some a \<Longrightarrow> 0 < W_Ext (D_Caches w) a"
proof -
  have "held w a \<le> W_Ext (D_Caches w) a" using assms by (simp add: refs_held_def)
  then show "snap w h = Some a \<Longrightarrow> 0 < W_Ext (D_Caches w) a" "holding w t = Some a \<Longrightarrow> 0 < W_Ext (D_Caches w) a"
    using tally_pos [OF finite_snap [OF assms], of h a] tally_pos [OF finite_holding [OF assms], of t a] tally_nonneg [of "snap w" a]
      tally_nonneg [of "holding w" a] unfolding held_def by linarith+
qed

text \<open>Whoever is held is on the heap.\<close>

lemma held_alive:
  assumes "dir_inv nls w" "0 < W_Ext (D_Caches w) a"
  obtains li where "Infos (W_Cache (D_Caches w)) a = Some li" "Descendants li = []"
proof -
  have c: "caches_ok nls w" using assms(1) by (simp add: dir_inv_def)
  then have "refs_ok (W_Ext (D_Caches w)) (W_Cache (D_Caches w))"
    by (simp add: caches_ok_def cache_world_ok_def listing_inv_def)
  then have "Infos (W_Cache (D_Caches w)) a \<noteq> None" using held_present [of "W_Ext (D_Caches w)" "W_Cache (D_Caches w)" a] assms(2) by auto
  then show thesis using that c by (auto simp: caches_ok_def)
qed

section \<open>The caches\<close>

lemma drop_reference_step:
  assumes "dir_inv nls w" "snap w h = entries \<or> holding w t = entries"
  shows "drop_reference entries (D_Caches w) = D_Caches w \<or> cache_step nls (D_Caches w) (drop_reference entries (D_Caches w))"
proof (cases entries)
  case None
  then show ?thesis by (simp add: drop_reference_def release_entries_def)
next
  case (Some a)
  have "0 < W_Ext (D_Caches w) a" using held_ext [of w] assms Some by (auto simp: dir_inv_def)
  moreover from held_alive [OF assms(1) this] obtain li where "Infos (W_Cache (D_Caches w)) a = Some li" "Descendants li = []" .
  ultimately have "cache_step nls (D_Caches w) (drop_reference entries (D_Caches w))"
    using cache_step.release [of "D_Caches w" a li nls] by (simp add: drop_reference_def release_entries_def Some)
  then show ?thesis ..
qed

lemma dir_step_caches:
  assumes "dir_step nls w w'" "dir_inv nls w"
  shows "D_Caches w' = D_Caches w \<or> cache_step nls (D_Caches w) (D_Caches w')"
  using assms(1)
proof cases
  case (closed h dir ccb)
  then show ?thesis using drop_reference_step [OF assms(2), of h "Entries ccb"] by (simp add: snap_def)
next
  case (exclusive t h q initialRead dir ccb initialQuery ccb1 upcased ccb2 fresh)
  have "Entries ccb2 = Entries ccb"
    using exclusive(6,7) by (auto simp: dir_acquired_def dir_set_pattern_def Let_def split: if_splits)
  then show ?thesis using exclusive drop_reference_step [OF assms(2), of h "Entries ccb"] by (simp add: snap_def)
next
  case (looked t h q x dir ccb now r s' a c)
  have "lookup_listing_locked nls dir True zero_ticket now (PathCacheLifetime (W_Cache (D_Caches w)))
      (Generation (W_Cache (D_Caches w))) (W_Cache (D_Caches w)) = (r, s')"
    using looked(5,6) by (auto simp: BlorgPathCacheLookupListing_def split: if_splits)
  then show ?thesis using cache_step.listed looked by simp
next
  case (installed t h q x a dir ccb ccb' s' b c)
  show ?thesis
  proof (cases "Entries ccb")
    case None
    then show ?thesis using installed by (simp add: DirCtrlInstallSnapshot_def)
  next
    case (Some b')
    have "holding w t = Some a" using installed(2) by (simp add: holding_def)
    then show ?thesis using installed Some drop_reference_step [OF assms(2), of 0 "Some a" t]
      by (auto simp: DirCtrlInstallSnapshot_def drop_reference_def release_entries_def)
  qed
next
  case (fetched t h a li c)
  then show ?thesis using cache_step.fetch [of "D_Caches w" a li nls] by simp
next
  case (completed t h a dir ccb ccb2 mine)
  have "holding w t = Some a" using completed(2) by (simp add: holding_def)
  then show ?thesis using completed drop_reference_step [OF assms(2), of 0 "Some a" t] drop_reference_step [OF assms(2), of 0 None t]
    by (auto simp: drop_reference_def release_entries_def split: option.splits)
qed simp_all

lemma caches_ok_step:
  assumes "dir_step nls w w'" "dir_inv nls w" "nls_ok nls"
  shows "caches_ok nls w'"
proof -
  have c: "cache_world_ok nls (D_Caches w)" "\<And>a li. Infos (W_Cache (D_Caches w)) a = Some li \<Longrightarrow> Descendants li = []"
    using assms(2) by (auto simp: dir_inv_def caches_ok_def)
  from dir_step_caches [OF assms(1,2)] show ?thesis
  proof
    assume s: "cache_step nls (D_Caches w) (D_Caches w')"
    have "Descendants li = []" if "Infos (W_Cache (D_Caches w')) a = Some li" for a li
    proof -
      have "case Infos (W_Cache (D_Caches w)) a of None \<Rightarrow> Descendants li = []
          | Some li0 \<Rightarrow> Descendants li = Descendants li0 \<and> same_entries li0 li"
        using cache_step_entries [OF s c(1) assms(3)] that unfolding entries_kept_def by blast
      then show ?thesis using c(2) by (cases "Infos (W_Cache (D_Caches w)) a") auto
    qed
    then show ?thesis using cache_step_ok [OF s assms(3) c(1)] by (simp add: caches_ok_def)
  qed (use c in \<open>simp add: caches_ok_def\<close>)
qed

section \<open>References\<close>

lemma set_entries [simp]:
  "dir_acquired initialRead q ccb = (initialQuery, ccb1) \<Longrightarrow> Entries ccb1 = Entries ccb"
  "dir_set_pattern nls upcased initialQuery q ccb = (st, ccb1) \<Longrightarrow> Entries ccb1 = Entries ccb"
  by (auto simp: dir_acquired_def dir_set_pattern_def Let_def split: if_splits)

lemma refs_held_move:
  assumes "refs_held w" "\<And>a. held w a - (if snap w h = Some a then 1 else 0) + (if Entries ccb = Some a then 1 else 0)
      - (if holding w t = Some a then 1 else 0) + (if Option.bind th holds = Some a then 1 else 0) \<le> W_Ext c a"
  shows "refs_held (set_thread t th (set_ccb h dir ccb (set_caches c w)))"
proof -
  let ?w = "set_thread t th (set_ccb h dir ccb (set_caches c w))"
  have "held ?w a = held w a - (if snap w h = Some a then 1 else 0) + (if Entries ccb = Some a then 1 else 0)
      - (if holding w t = Some a then 1 else 0) + (if Option.bind th holds = Some a then 1 else 0)" for a
    unfolding held_def by (simp only: snap_set_simps tally_upd [OF finite_snap [OF assms(1)]] tally_upd [OF finite_holding [OF assms(1)]])
  then have "held ?w a \<le> W_Ext c a" for a using assms(2) [of a] by (simp only:)
  then show ?thesis using assms(1) by (simp add: refs_held_def)
qed

lemma refs_held_thread:
  assumes "refs_held w" "\<And>a. held w a - (if holding w t = Some a then 1 else 0) + (if Option.bind th holds = Some a then 1 else 0) \<le> W_Ext c a"
  shows "refs_held (set_thread t th (set_caches c w))"
proof -
  let ?w = "set_thread t th (set_caches c w)"
  have "held ?w a = held w a - (if holding w t = Some a then 1 else 0) + (if Option.bind th holds = Some a then 1 else 0)" for a
    unfolding held_def by (simp only: snap_set_simps tally_upd [OF finite_holding [OF assms(1)]])
  then have "held ?w a \<le> W_Ext c a" for a using assms(2) [of a] by (simp only:)
  then show ?thesis using assms(1) by (simp add: refs_held_def)
qed

lemma set_caches_same [simp]: "set_caches (D_Caches w) w = w"
  by (simp add: set_caches_def)

lemma refs_held_step:
  assumes "dir_step nls w w'" "dir_inv nls w"
  shows "refs_held w'"
proof -
  have r: "refs_held w" using assms(2) by (simp add: dir_inv_def)
  have fin: "finite (dom (D_Ccbs w))" "finite (dom (D_Threads w))" and le: "\<And>a. held w a \<le> W_Ext (D_Caches w) a"
    using r by (simp_all add: refs_held_def)
  have le1: "held w a - 1 < W_Ext (D_Caches w) a" "held w a - 1 \<le> W_Ext (D_Caches w) a" "held w a < W_Ext (D_Caches w) a + 1" for a
    using le [of a] by simp_all
  note up = tally_upd [OF finite_snap [OF r]]
  note thread = refs_held_thread [OF r, of _ _ "D_Caches w", simplified]
  note move = refs_held_move [OF r, of _ _ _ _ "D_Caches w", simplified]
  have only: "refs_held (set_thread t th w)" if "holding w t = None \<or> True" "Option.bind th holds = None" for t th
    using thread [of t th] le le1 that(2) by simp
  show ?thesis
    using assms(1)
  proof cases
    case (caches c)
    then show ?thesis using fin by (simp add: refs_held_def held_def)
  next
    case (opened h dir)
    have "snap w h = None" using opened(2) by (simp add: snap_def)
    then show ?thesis using opened fin le by (simp add: refs_held_def held_def up new_dir_ccb_def)
  next
    case (closed h dir ccb)
    have "snap w' = (snap w)(h := None)" "holding w' = holding w"
      by (auto simp: closed(1) snap_def [abs_def] holding_def [abs_def])
    moreover have "snap w h = Entries ccb" using closed(2) by (simp add: snap_def)
    ultimately have "held w' a = held w a - (if Entries ccb = Some a then 1 else 0)" for a
      unfolding held_def by (simp add: up)
    then have "held w' a \<le> W_Ext (D_Caches w') a" for a
      using le [of a] by (auto simp: closed(1) drop_reference_def split: option.split)
    then show ?thesis using fin by (simp add: refs_held_def closed(1))
  next
    case (exclusive t h q initialRead dir ccb initialQuery ccb1 upcased ccb2 fresh)
    have e: "Entries ccb2 = Entries ccb" "snap w h = Entries ccb" "holding w t = None"
      using exclusive(2,3,6,7) by (auto simp: snap_def holding_def)
    show ?thesis unfolding exclusive(1)
      by (rule refs_held_move [OF r]) (use le le1 e in \<open>auto simp: drop_reference_def split: option.split\<close>)
  next
    case (refused t h q initialRead dir ccb initialQuery ccb1 upcased status ccb2)
    have e: "Entries ccb2 = Entries ccb" "snap w h = Entries ccb" "holding w t = None"
      using refused(2,3,6,7) by (auto simp: snap_def holding_def)
    show ?thesis unfolding refused(1) by (rule move) (use le le1 e in auto)
  next
    case (looked t h q x dir ccb now rr s' a c)
    have "holding w t = None" using looked(2) by (simp add: holding_def)
    then show ?thesis unfolding looked(1) by (intro refs_held_thread [OF r]) (use le le1 in \<open>auto simp: looked(7)\<close>)
  next
    case (installed t h q x a dir ccb ccb' s' b c)
    have e: "snap w h = Entries ccb" "holding w t = Some a" using installed(2,3) by (auto simp: snap_def holding_def)
    show ?thesis unfolding installed(1)
      by (rule refs_held_move [OF r]) (use le le1 e installed(4,5) in \<open>auto simp: installed(6) DirCtrlInstallSnapshot_def split: option.splits\<close>)
  next
    case (stored t h x i dir ccb)
    have e: "snap w h = Entries ccb" "holding w t = None" using stored(2,3) by (auto simp: snap_def holding_def)
    show ?thesis unfolding stored(1) by (rule move) (use le le1 e in auto)
  next
    case (fetched t h a li c)
    have "W_Ext (D_Caches w) a = 0"
      using held_alive [OF assms(2), of a] fetched(4) le [of a] unfolding held_def
      by (metis add_nonneg_nonneg dual_order.trans linorder_not_less option.distinct(1) order_antisym_conv tally_nonneg)
    moreover have "holding w t = None" using fetched(2) by (simp add: holding_def)
    moreover have "held w a \<le> 0" using le [of a] calculation by simp
    ultimately show ?thesis unfolding fetched(1) by (intro refs_held_thread [OF r]) (use le le1 in \<open>auto simp: fetched(7)\<close>)
  next
    case (completed t h a dir ccb ccb2 mine)
    have e: "snap w h = Entries ccb" "holding w t = Some a" using completed(2,3) by (auto simp: snap_def holding_def)
    show ?thesis unfolding completed(1)
      by (rule refs_held_move [OF r]) (use le le1 e completed(5) in \<open>auto simp: drop_reference_def split: option.splits\<close>)
  qed (simp_all add: only)
qed

section \<open>Locks and threads\<close>

lemma locks_ok_thread:
  assumes "locks_ok w" "D_Threads w' = (D_Threads w)(t := th)"
    "\<And>y h x t' th'. th = Some y \<Longrightarrow> lock_of y = Some (h, x) \<Longrightarrow> D_Threads w t' = Some th' \<Longrightarrow> t' \<noteq> t \<Longrightarrow>
       lock_of th' \<noteq> Some (h, True) \<and> (x \<longrightarrow> (\<forall>x'. lock_of th' \<noteq> Some (h, x')))"
  shows "locks_ok w'"
  unfolding locks_ok_def assms(2)
proof (intro allI impI)
  fix t1 y1 t2 y2 h x
  assume t: "((D_Threads w)(t := th)) t1 = Some y1" "((D_Threads w)(t := th)) t2 = Some y2" "t1 \<noteq> t2" "lock_of y1 = Some (h, True)"
  consider "t1 = t" | "t2 = t" | "t1 \<noteq> t" "t2 \<noteq> t" by blast
  then show "lock_of y2 \<noteq> Some (h, x)"
  proof cases
    case 1
    then show ?thesis using t assms(3) [of y1 h True t2 y2] by auto
  next
    case 2
    then show ?thesis using t assms(3) [of y2 h x t1 y1] by auto
  next
    case 3
    then show ?thesis using t assms(1) unfolding locks_ok_def by (metis fun_upd_other)
  qed
qed

lemma locks_ok_same_lock:
  assumes "locks_ok w" "D_Threads w' = (D_Threads w)(t := th)" "D_Threads w t = Some y" "Option.bind th lock_of \<in> {None, lock_of y}"
  shows "locks_ok w'"
proof (rule locks_ok_thread [OF assms(1,2)])
  fix z h x t' th' assume z: "th = Some z" "lock_of z = Some (h, x)" "D_Threads w t' = Some th'" "t' \<noteq> t"
  then have "lock_of y = Some (h, x)" using assms(4) by auto
  then show "lock_of th' \<noteq> Some (h, True) \<and> (x \<longrightarrow> (\<forall>x'. lock_of th' \<noteq> Some (h, x')))"
    using assms(1,3) z(3,4) unfolding locks_ok_def by metis
qed

lemma locks_ok_cong: "locks_ok w \<Longrightarrow> D_Threads w' = D_Threads w \<Longrightarrow> locks_ok w'"
  by (simp add: locks_ok_def)

lemma locks_ok_step:
  assumes "dir_step nls w w'" "dir_inv nls w"
  shows "locks_ok w'"
proof -
  have l: "locks_ok w" using assms(2) by (simp add: dir_inv_def)
  note same = locks_ok_same_lock [OF l]
  show ?thesis
    using assms(1)
  proof cases
    case (exclusive t h q initialRead dir ccb initialQuery ccb1 upcased ccb2 fresh)
    show ?thesis
      by (rule locks_ok_thread [OF l, of _ t "Some (Locked h q (initialQuery \<or> Q_RestartScan q))"])
        (use exclusive(5) in \<open>auto simp: exclusive(1) unlocked_def\<close>)
  next
    case (shared t h q)
    show ?thesis
      by (rule locks_ok_thread [OF l, of _ t "Some (Locked h q False)"])
        (use shared(4) in \<open>auto simp: shared(1) not_exclusive_def\<close>)
  next
    case (arrived t h dir ccb q)
    show ?thesis by (rule locks_ok_thread [OF l, of _ t "Some (Arrived h q (dir_initial ccb))"]) (auto simp: arrived(1))
  next
    case (fetched t h a li c)
    show ?thesis by (rule locks_ok_thread [OF l, of _ t "Some (Fetched h a)"]) (auto simp: fetched(1))
  next
    case (posted t h q initialRead)
    show ?thesis by (rule same [OF _ posted(2), of _ None]) (simp_all add: posted(1))
  next
    case (refused t h q initialRead dir ccb initialQuery ccb1 upcased status ccb2)
    show ?thesis by (rule same [OF _ refused(2), of _ None]) (simp_all add: refused(1))
  next
    case (present t h q x dir ccb a)
    show ?thesis by (rule same [OF _ present(2), of _ "Some (Reading h q x a)"]) (simp_all add: present(1))
  next
    case (looked t h q x dir ccb now r s' a c)
    show ?thesis by (rule same [OF _ looked(2), of _ "Some (Installing h q x a)"]) (simp_all add: looked(1))
  next
    case (missed t h q x dir ccb now r s')
    show ?thesis by (rule same [OF _ missed(2), of _ None]) (simp_all add: missed(1))
  next
    case (installed t h q x a dir ccb ccb' s' b c)
    show ?thesis by (rule same [OF _ installed(2), of _ "Some (Reading h q x b)"]) (simp_all add: installed(1))
  next
    case (enumerated t h q x a dir ccb ans buffer owed r ccb')
    show ?thesis by (rule same [OF _ enumerated(2), of _ "Some (Storing h x (CurrentIndex ccb'))"]) (simp_all add: enumerated(1))
  next
    case (kept t h q x a dir ccb ans buffer owed r)
    show ?thesis by (rule same [OF _ kept(2), of _ None]) (simp_all add: kept(1))
  next
    case (stored t h x i dir ccb)
    show ?thesis by (rule same [OF _ stored(2), of _ None]) (simp_all add: stored(1))
  next
    case (completed t h a dir ccb ccb2 mine)
    show ?thesis by (rule same [OF _ completed(2), of _ None]) (simp_all add: completed(1))
  qed (auto intro: locks_ok_cong [OF l])
qed

text \<open>
  A handle's snapshot is replaced only by a thread that holds its resource exclusively, and installed
  where there is none.
\<close>

lemma threads_ok_thread:
  assumes "threads_ok w" "D_Ccbs w' = D_Ccbs w" "D_Threads w' = (D_Threads w)(t := th)"
    "\<And>y. th = Some y \<Longrightarrow> D_Ccbs w (handle_of y) \<noteq> None \<and> (\<forall>h q x a. y = Reading h q x a \<longrightarrow> snap w h = Some a)"
  shows "threads_ok w'"
proof -
  have "snap w' = snap w" by (simp add: snap_def [abs_def] assms(2))
  then show ?thesis using assms(1,4) by (simp add: threads_ok_def assms(2,3))
qed

lemma threads_ok_ccb:
  assumes "threads_ok w" "D_Ccbs w' = (D_Ccbs w)(h \<mapsto> (dir, ccb'))" "D_Threads w' = (D_Threads w)(t := th)"
    "snap w h = Entries ccb' \<or> snap w h = None \<or> unlocked w h"
    "\<And>y. th = Some y \<Longrightarrow> handle_of y = h \<and> (\<forall>h q x a. y = Reading h q x a \<longrightarrow> Entries ccb' = Some a)"
  shows "threads_ok w'"
  unfolding threads_ok_def assms(3)
proof (intro allI impI conjI)
  fix t1 y assume y: "((D_Threads w)(t := th)) t1 = Some y"
  show "D_Ccbs w' (handle_of y) \<noteq> None"
    using y assms(1,5) by (cases "t1 = t") (auto simp: threads_ok_def assms(2))
  fix h1 q x a assume r: "y = Reading h1 q x a"
  show "snap w' h1 = Some a"
  proof (cases "t1 = t")
    case True
    then show ?thesis using y r assms(5) [of y] by (simp add: snap_def assms(2))
  next
    case False
    then have "D_Threads w t1 = Some (Reading h1 q x a)" using y r by simp
    moreover from this have "snap w h1 = Some a" using assms(1) unfolding threads_ok_def by blast
    moreover have "\<not> unlocked w h1" using calculation(1) unfolding unlocked_def by (metis lock_of.simps(3))
    ultimately show ?thesis using assms(4) by (auto simp: snap_def assms(2))
  qed
qed

lemma threads_ok_step:
  assumes "dir_step nls w w'" "dir_inv nls w"
  shows "threads_ok w'"
proof -
  have l: "threads_ok w" using assms(2) by (simp add: dir_inv_def)
  have handle: "D_Ccbs w (handle_of y) \<noteq> None" if "D_Threads w t = Some y" for t y using l that by (auto simp: threads_ok_def)
  note thread = threads_ok_thread [OF l]
  note ccb_rule = threads_ok_ccb [OF l]
  show ?thesis
    using assms(1)
  proof cases
    case (caches c)
    then show ?thesis using l by (simp add: threads_ok_def)
  next
    case (opened h dir)
    have "snap w' k = (if k = h then None else snap w k)" for k by (simp add: opened(1) new_dir_ccb_def)
    moreover have "snap w h = None" using opened(2) by (simp add: snap_def)
    moreover have "D_Ccbs w k \<noteq> None \<Longrightarrow> D_Ccbs w' k \<noteq> None" for k by (simp add: opened(1))
    moreover have "D_Threads w' = D_Threads w" by (simp add: opened(1))
    ultimately show ?thesis using l unfolding threads_ok_def by metis
  next
    case (closed h dir ccb)
    have "snap w' k = snap w k" if "k \<noteq> h" for k by (simp add: snap_def closed(1) that)
    then show ?thesis using l closed(1,3) unfolding threads_ok_def by fastforce
  next
    case (exclusive t h q initialRead dir ccb initialQuery ccb1 upcased ccb2 fresh)
    show ?thesis
      by (rule ccb_rule [where h = h and t = t and dir = dir and ccb' = "if fresh then ccb2\<lparr>Entries := None\<rparr> else ccb2"])
        (use exclusive(5) in \<open>auto simp: exclusive(1)\<close>)
  next
    case (refused t h q initialRead dir ccb initialQuery ccb1 upcased status ccb2)
    show ?thesis by (rule ccb_rule [where h = h and t = t and dir = dir and ccb' = ccb2]) (use refused(5) in \<open>auto simp: refused(1)\<close>)
  next
    case (installed t h q x a dir ccb ccb' s' b c)
    have "snap w h = Entries ccb" using installed(3) by (simp add: snap_def)
    then have "snap w h = Entries ccb' \<or> snap w h = None"
      using installed(4) by (auto simp: DirCtrlInstallSnapshot_def split: option.splits)
    then show ?thesis
      by (intro ccb_rule [where h = h and t = t and dir = dir and ccb' = ccb']) (use installed(5) in \<open>auto simp: installed(1)\<close>)
  next
    case (stored t h x i dir ccb)
    have "snap w h = Entries ccb" using stored(3) by (simp add: snap_def)
    then show ?thesis
      by (intro ccb_rule [where h = h and t = t and dir = dir and ccb' = "ccb\<lparr>CurrentIndex := i\<rparr>"]) (auto simp: stored(1))
  next
    case (completed t h a dir ccb ccb2 mine)
    show ?thesis by (rule ccb_rule [where h = h and t = t and dir = dir and ccb' = ccb2]) (use completed(4) in \<open>auto simp: completed(1)\<close>)
  next
    case (present t h q x dir ccb a)
    then show ?thesis by (intro thread [where t = t and th = "Some (Reading h q x a)"]) (auto simp: snap_def)
  qed (rule thread, (auto)[2], force dest: handle)+
qed

section \<open>Every reachable state\<close>

lemma dir_step_inv: "dir_step nls w w' \<Longrightarrow> dir_inv nls w \<Longrightarrow> nls_ok nls \<Longrightarrow> dir_inv nls w'"
  using caches_ok_step refs_held_step locks_ok_step threads_ok_step unfolding dir_inv_def by blast

lemma dir_boot_inv: "dir_inv nls dir_boot"
proof -
  have "Infos (W_Cache cache_boot) = Map.empty" "W_Ext cache_boot = (\<lambda>_. 0)" by (simp_all add: cache_boot_def BlorgPathCacheInit_def)
  then show ?thesis
    using cache_boot_ok [of nls]
    by (simp add: dir_inv_def caches_ok_def refs_held_def locks_ok_def threads_ok_def dir_boot_def held_def tally_def snap_def holding_def)
qed

lemma dir_steps_inv: "dir_steps nls w w' \<Longrightarrow> dir_inv nls w \<Longrightarrow> nls_ok nls \<Longrightarrow> dir_inv nls w'"
  by (induction rule: rtranclp_induct) (auto intro: dir_step_inv)

end
