(* ===== verification/Dir_Runs.thy ===== *)
theory Dir_Runs
  imports Dir_Handles
begin

text \<open>
  The handler, run without interruption, is a run of the machine: the definitions of Dir_Control and
  the interleaved steps of Dir_Protocol describe the same code.
\<close>

lemma release_entries_caches: "W_Cache (drop_reference entries c) = release_entries entries (W_Cache c)"
  by (simp add: drop_reference_def)

lemma enumerate_keeps:
  assumes "dir_enumerate nls ans q buffer owed ccb s = Some (r, ccb')"
  shows "ccb' = ccb\<lparr>CurrentIndex := CurrentIndex ccb'\<rparr>"
proof (cases "Entries ccb")
  case None
  then show ?thesis using assms by (simp add: dir_enumerate_def)
next
  case (Some a)
  then obtain li where li: "Infos s a = Some li" using assms by (cases "Infos s a") (simp_all add: dir_enumerate_def)
  show ?thesis
  proof (cases "dir_class (Q_Class q)")
    case (Inl st)
    then show ?thesis using assms Some li by (simp add: dir_enumerate_def Let_def)
  next
    case (Inr layout)
    let ?run = "DirCtrlEnumerateDirectoryEntries (dir_matches nls ans ccb) layout (A_Faults ans) li
      (if Q_IndexSpecified q then Q_FileIndex q else ucast (CurrentIndex ccb)) (of_nat (entry_count li)) (Q_ReturnSingle q) buffer (Q_Length q)"
    have "ccb' = ccb \<or> (\<exists>i. ccb' = ccb\<lparr>CurrentIndex := i\<rparr>)"
    proof (cases "\<not> A_Scratch ans \<or> \<not> A_Mapped ans")
      case True
      then show ?thesis using assms Some li Inr by (simp add: dir_enumerate_def Let_def)
    next
      case False
      then have "Option.bind ?run (\<lambda>r. case r of Inl code \<Rightarrow> Some (DirAnswer code 0 None owed, ccb)
          | Inr res \<Rightarrow> Some (DirAnswer (DR_Status res) (if NT_SUCCESS (DR_Status res) then DR_BytesUsed res else 0)
                             (Some (DR_Buffer res)) owed,
                           if Q_IndexSpecified q then ccb else ccb\<lparr>CurrentIndex := ucast (DR_FinalIndex res)\<rparr>)) = Some (r, ccb')"
        using assms Some li Inr by (simp add: dir_enumerate_def Let_def)
      then obtain rr :: "NTSTATUS + dir_result" where "(case rr of Inl code \<Rightarrow> Some (DirAnswer code 0 None owed, ccb)
          | Inr res \<Rightarrow> Some (DirAnswer (DR_Status res) (if NT_SUCCESS (DR_Status res) then DR_BytesUsed res else 0)
                             (Some (DR_Buffer res)) owed,
                           if Q_IndexSpecified q then ccb else ccb\<lparr>CurrentIndex := ucast (DR_FinalIndex res)\<rparr>)) = Some (r, ccb')"
        unfolding bind_Some_conv by blast
      then show ?thesis by (cases rr) (simp_all split: if_splits, blast+)
    qed
    then show ?thesis by auto
  qed
qed

text \<open>From the enumeration on.\<close>

lemma reading_run:
  assumes "D_Threads w t = Some (Reading h q x a)" "D_Ccbs w h = Some (dir, ccb)"
    "dir_enumerate nls ans q buffer owed ccb (W_Cache (D_Caches w)) = Some (r, ccb')"
  shows "\<exists>w'. dir_steps nls w w' \<and> D_Ccbs w' = (D_Ccbs w)(h \<mapsto> (dir, ccb')) \<and> D_Caches w' = D_Caches w \<and>
    D_Threads w' = (D_Threads w)(t := None)"
proof -
  let ?w1 = "set_thread t (Some (Storing h x (CurrentIndex ccb'))) w"
  let ?w2 = "set_thread t None (set_ccb h dir (ccb\<lparr>CurrentIndex := CurrentIndex ccb'\<rparr>) ?w1)"
  have "dir_step nls w ?w1" by (rule dir_step.enumerated [OF assms])
  moreover have "dir_step nls ?w1 ?w2" by (rule dir_step.stored) (simp_all add: assms(2))
  ultimately have "dir_steps nls w ?w2" by (meson r_into_rtranclp rtranclp.rtrancl_into_rtrancl)
  then show ?thesis using enumerate_keeps [OF assms(3)] by (intro exI [of _ ?w2]) simp
qed

text \<open>From the snapshot on.\<close>

lemma locked_run:
  assumes t: "D_Threads w t = Some (Locked h q x)" and c: "D_Ccbs w h = Some (dir, ccb)"
    and snap: "dir_snapshot nls (A_Now ans) dir False ccb (W_Cache (D_Caches w)) = (res, ccb3, s3)"
    and pass: "(case res of None \<Rightarrow> Some (r, ccb3, s3)
       | Some owed \<Rightarrow> map_option (\<lambda>(r, ccb4). (r, ccb4, s3)) (dir_enumerate nls ans q buffer owed ccb3 s3)) = Some (r, ccb', s')"
  shows "\<exists>w'. dir_steps nls w w' \<and> D_Ccbs w' = (D_Ccbs w)(h \<mapsto> (dir, ccb')) \<and> W_Cache (D_Caches w') = s' \<and>
    D_Threads w' = (D_Threads w)(t := None)"
proof (cases "Entries ccb")
  case (Some a)
  let ?w1 = "set_thread t (Some (Reading h q x a)) w"
  have s: "res = Some False" "ccb3 = ccb" "s3 = W_Cache (D_Caches w)"
    using snap Some by (simp_all add: dir_snapshot_def dir_drop_snapshot_def)
  have st: "dir_step nls w ?w1" by (rule dir_step.present [OF t c Some])
  have e: "dir_enumerate nls ans q buffer False ccb (W_Cache (D_Caches ?w1)) = Some (r, ccb')" "s' = W_Cache (D_Caches w)"
    using pass s by auto
  obtain w' where "dir_steps nls ?w1 w'" "D_Ccbs w' = (D_Ccbs ?w1)(h \<mapsto> (dir, ccb'))" "D_Caches w' = D_Caches ?w1"
      "D_Threads w' = (D_Threads ?w1)(t := None)"
    using reading_run [of ?w1 t h q x a dir ccb, OF _ _ e(1)] c by auto
  then show ?thesis using converse_rtranclp_into_rtranclp [of "dir_step nls", OF st] e(2) by (intro exI [of _ w']) simp
next
  case None
  obtain rr s2 where l: "BlorgPathCacheLookupListing nls (A_Now ans) dir True zero_ticket (W_Cache (D_Caches w)) = (rr, s2)" by fastforce
  show ?thesis
  proof (cases "R_Listing rr")
    case miss: None
    have "s2 = W_Cache (D_Caches w)"
      using l miss by (auto simp: BlorgPathCacheLookupListing_def lookup_listing_locked_def Let_def split: if_splits option.splits)
    moreover have "dir_step nls w (set_thread t None w)" by (rule dir_step.missed [OF t c None l miss])
    ultimately show ?thesis
      using snap pass None l miss c
      by (intro exI [of _ "set_thread t None w"]) (auto simp: dir_snapshot_def dir_drop_snapshot_def)
  next
    case (Some a)
    let ?c1 = "(D_Caches w)\<lparr>W_Cache := s2, W_Ext := (W_Ext (D_Caches w))(a := W_Ext (D_Caches w) a + 1),
           W_Tickets := insert (R_Ticket rr) (W_Tickets (D_Caches w))\<rparr>"
    let ?w1 = "set_thread t (Some (Installing h q x a)) (set_caches ?c1 w)"
    let ?ccb = "ccb\<lparr>Entries := Some a\<rparr>"
    let ?c2 = "?c1\<lparr>W_Cache := s2, W_Ext := (W_Ext ?c1)(a := W_Ext ?c1 a - (if Entries ccb = None then 0 else 1))\<rparr>"
    let ?w2 = "set_thread t (Some (Reading h q x a)) (set_ccb h dir ?ccb (set_caches ?c2 ?w1))"
    have s1: "dir_step nls w ?w1" by (rule dir_step.looked [OF t c None l Some refl])
    have s2: "dir_step nls ?w1 ?w2"
      by (rule dir_step.installed [where ccb = ccb and s' = s2 and a = a and b = a and ccb' = ?ccb and c = ?c2])
        (use None c in \<open>simp_all add: DirCtrlInstallSnapshot_def\<close>)
    have r: "res = Some (R_RefreshOwed rr)" "ccb3 = ?ccb" "s3 = s2"
      using snap None l Some by (simp_all add: dir_snapshot_def dir_drop_snapshot_def DirCtrlInstallSnapshot_def)
    have e: "dir_enumerate nls ans q buffer (R_RefreshOwed rr) ?ccb (W_Cache (D_Caches ?w2)) = Some (r, ccb')" "s' = s2"
      using pass r by auto
    obtain w' where w': "dir_steps nls ?w2 w'" "D_Ccbs w' = (D_Ccbs ?w2)(h \<mapsto> (dir, ccb'))" "D_Caches w' = D_Caches ?w2"
        "D_Threads w' = (D_Threads ?w2)(t := None)"
      using reading_run [of ?w2 t h q x a dir ?ccb, OF _ _ e(1)] by auto
    have "dir_steps nls w w'"
      using s1 s2 w'(1) by (meson converse_rtranclp_into_rtranclp)
    then show ?thesis using w'(2-4) e(2) by (intro exI [of _ w']) simp
  qed
qed

text \<open>A snapshot that was dropped is looked for like one that was never there.\<close>

lemma snapshot_dropped:
  "dir_snapshot nls now dir fresh ccb s =
   dir_snapshot nls now dir False (fst (dir_drop_snapshot fresh ccb s)) (snd (dir_drop_snapshot fresh ccb s))"
  by (simp add: dir_snapshot_def dir_drop_snapshot_def)

lemma query_run:
  assumes "D_Threads w t = None" "D_Ccbs w h = Some (dir, ccb)" "unlocked w h" "A_Acquired ans"
    and pass: "dir_query_pass nls ans dir (dir_initial ccb) q buffer ccb (W_Cache (D_Caches w)) = Some (r, ccb', s')"
  shows "\<exists>w'. dir_steps nls w w' \<and> D_Ccbs w' = (D_Ccbs w)(h \<mapsto> (dir, ccb')) \<and> W_Cache (D_Caches w') = s' \<and> D_Threads w' = D_Threads w"
proof -
  let ?w0 = "set_thread t (Some (Arrived h q (dir_initial ccb))) w"
  have s0: "dir_step nls w ?w0" by (rule dir_step.arrived [OF assms(1,2)])
  have un: "unlocked ?w0 h" using assms(3) by (auto simp: unlocked_def)
  have back_to: "(D_Threads w)(t := None) = D_Threads w" using assms(1) by auto
  obtain initialQuery ccb1 where a: "dir_acquired (dir_initial ccb) q ccb = (initialQuery, ccb1)" by fastforce
  obtain st ccb2 where p: "dir_set_pattern nls (A_Upcased ans) initialQuery q ccb1 = (st, ccb2)" by fastforce
  let ?fresh = "\<not> Q_NetDone q \<and> (initialQuery \<or> Q_RestartScan q)"
  show ?thesis
  proof (cases "dir_initial ccb \<or> Q_RestartScan q")
    case True
    show ?thesis
    proof (cases st)
      case (Some status)
      let ?w1 = "set_thread t None (set_ccb h dir ccb2 ?w0)"
      have "dir_step nls ?w0 ?w1" by (rule dir_step.refused [OF _ _ True un a p [unfolded Some]]) (simp_all add: assms(2))
      then have "dir_steps nls w ?w1" using s0 by (meson r_into_rtranclp rtranclp.rtrancl_into_rtrancl)
      then show ?thesis using pass assms(4) a p Some back_to by (intro exI [of _ ?w1]) (auto simp: dir_query_pass_def)
    next
      case None
      let ?ccb = "if ?fresh then ccb2\<lparr>Entries := None\<rparr> else ccb2"
      let ?c = "if ?fresh then drop_reference (Entries ccb2) (D_Caches ?w0) else D_Caches ?w0"
      let ?w1 = "set_thread t (Some (Locked h q (initialQuery \<or> Q_RestartScan q))) (set_ccb h dir ?ccb (set_caches ?c ?w0))"
      have s1: "dir_step nls ?w0 ?w1" by (rule dir_step.exclusive [OF _ _ True un a p [unfolded None] refl]) (simp_all add: assms(2))
      obtain res ccb3 s3 where sn: "dir_snapshot nls (A_Now ans) dir ?fresh ccb2 (W_Cache (D_Caches w)) = (res, ccb3, s3)"
        by (metis prod_cases3)
      have sn': "dir_snapshot nls (A_Now ans) dir False ?ccb (W_Cache (D_Caches ?w1)) = (res, ccb3, s3)"
        using sn by (subst (asm) snapshot_dropped) (auto simp: dir_drop_snapshot_def release_entries_caches)
      have "(case res of None \<Rightarrow> Some (r, ccb3, s3)
         | Some owed \<Rightarrow> map_option (\<lambda>(r, ccb4). (r, ccb4, s3)) (dir_enumerate nls ans q buffer owed ccb3 s3)) = Some (r, ccb', s')"
        using pass assms(4) a p None sn by (auto simp: dir_query_pass_def split: option.splits)
      from locked_run [of ?w1 t h q _ dir ?ccb, OF _ _ sn' this]
      obtain w' where w': "dir_steps nls ?w1 w'" "D_Ccbs w' = (D_Ccbs ?w1)(h \<mapsto> (dir, ccb'))" "W_Cache (D_Caches w') = s'"
          "D_Threads w' = (D_Threads ?w1)(t := None)" by auto
      have "dir_steps nls w w'" using s0 s1 w'(1) by (meson converse_rtranclp_into_rtranclp)
      then show ?thesis using w'(2-4) back_to by (intro exI [of _ w']) simp
    qed
  next
    case False
    let ?w1 = "set_thread t (Some (Locked h q False)) ?w0"
    have "not_exclusive ?w0 h" using un by (auto simp: unlocked_def not_exclusive_def)
    then have s1: "dir_step nls ?w0 ?w1" using False by (intro dir_step.shared) simp_all
    have same: "initialQuery = False" "ccb1 = ccb" "st = None" "ccb2 = ccb"
      using False a p by (auto simp: dir_acquired_def dir_set_pattern_def)
    obtain res ccb3 s3 where sn: "dir_snapshot nls (A_Now ans) dir False ccb (W_Cache (D_Caches w)) = (res, ccb3, s3)"
      by (metis prod_cases3)
    have "(case res of None \<Rightarrow> Some (r, ccb3, s3)
       | Some owed \<Rightarrow> map_option (\<lambda>(r, ccb4). (r, ccb4, s3)) (dir_enumerate nls ans q buffer owed ccb3 s3)) = Some (r, ccb', s')"
      using pass assms(4) a p same sn False by (auto simp: dir_query_pass_def split: option.splits)
    from locked_run [of ?w1 t h q False dir ccb, OF _ _ _ this] sn
    obtain w' where w': "dir_steps nls ?w1 w'" "D_Ccbs w' = (D_Ccbs ?w1)(h \<mapsto> (dir, ccb'))" "W_Cache (D_Caches w') = s'"
        "D_Threads w' = (D_Threads ?w1)(t := None)" using assms(2) by auto
    have "dir_steps nls w w'" using s0 s1 w'(1) by (meson converse_rtranclp_into_rtranclp)
    then show ?thesis using w'(2-4) back_to by (intro exI [of _ w']) simp
  qed
qed

end
