(* ===== verification/Dir_Theorems.thy ===== *)
theory Dir_Theorems
  imports Dir_Runs
begin

text \<open>
  The properties of directory queries, with the small directory they are instantiated on.
\<close>

section \<open>A small directory\<close>

definition dir_file :: "UNICODE_STRING \<Rightarrow> ULONG64 \<Rightarrow> DIRECTORY_FILE_METADATA" where
  "dir_file name sz = \<lparr>F_Size = sz, F_CreationTime = 11, F_LastAccessedTime = 12, F_LastModifiedTime = 13, F_Name = name, F_NameAt = 0\<rparr>"

definition dir_sub :: "UNICODE_STRING \<Rightarrow> DIRECTORY_SUBDIR_METADATA" where
  "dir_sub name = \<lparr>S_CreationTime = 21, S_LastAccessedTime = 22, S_LastModifiedTime = 23, S_Name = name, S_NameAt = 0\<rparr>"

definition dir_listing :: DIRECTORY_INFO where
  "dir_listing = \<lparr>SubDirsOffset = 0, IndexOffset = 0, NamesOffset = 0,
     Files = [dir_file [0x61, 0x62] 5, dir_file [0x63] 6], SubDirs = [dir_sub [0x64]], DI_Bytes = 0, Descendants = [],
     RefCount = 1, IndexMask = 0, IndexHeads = [], IndexLinks = [], DI_NoStore = False\<rparr>"

definition dir_any :: "UNICODE_STRING \<Rightarrow> UNICODE_STRING \<Rightarrow> bool option" where
  "dir_any pattern name = Some True"

definition dir_ans :: dir_answers where
  "dir_ans = \<lparr>A_Acquired = True, A_Now = 1, A_Upcased = 0, A_Scratch = True, A_Mapped = True, A_Faults = (\<lambda>_ _. None),
     A_InExpression = dir_any\<rparr>"

definition dir_q :: "ULONG \<Rightarrow> dir_query" where
  "dir_q len = \<lparr>Q_RestartScan = False, Q_ReturnSingle = False, Q_IndexSpecified = False, Q_FileIndex = 0, Q_Length = len,
     Q_Class = FileFullDirectoryInformation, Q_Pattern = None, Q_NetDone = True, Q_InFsp = True\<rparr>"

definition dir_handle :: DIR_CCB where
  "dir_handle = \<lparr>Dir_Flags = 1, CurrentIndex = 0, SearchPattern = None, Entries = Some 7\<rparr>"

section \<open>One buffer\<close>

text \<open>C13.
  What DirCtrlEnumerateDirectoryEntries leaves in the caller's buffer. It never writes outside it nor
  outside its scratch block, whatever the names; unless a write to the buffer raises, a caller that walks
  NextEntryOffset over the bytes used reads back exactly the matching entries from the start index to
  the final index, each with its index, times, size, attributes and name; the bytes after them are
  untouched. It stops before the end only when one entry was asked for or the next matching one has no
  room, and its status says which of these happened.
\<close>

theorem dir_buffer_exact:
  assumes "entry_count li < 2 ^ 32" "length out = unat outLength"
  shows "\<exists>r. DirCtrlEnumerateDirectoryEntries matches layout faults li startIndex (of_nat (entry_count li)) returnSingle out outLength = Some r \<and>
    (case r of
       Inl code \<Rightarrow> \<exists>at n. at + n \<le> length out \<and> faults at n = Some code
     | Inr res \<Rightarrow>
         let start = unat startIndex; final = unat (DR_FinalIndex res); es = dir_between matches li start final
         in start \<le> final \<and> final \<le> max start (entry_count li) \<and> length (DR_Buffer res) = length out \<and>
            DR_BytesUsed res = sizes layout es \<and> DR_BytesUsed res \<le> length out \<and>
            drop (DR_BytesUsed res) (DR_Buffer res) = drop (DR_BytesUsed res) out \<and>
            read_entries layout (take (DR_BytesUsed res) (DR_Buffer res)) = es \<and>
            (returnSingle \<longrightarrow> length es \<le> 1) \<and>
            (final < entry_count li \<longrightarrow>
               returnSingle \<and> es \<noteq> [] \<or> no_room matches layout li (length out - DR_BytesUsed res) final) \<and>
            DR_Status res = (if es \<noteq> [] then STATUS_SUCCESS else if final < entry_count li then STATUS_BUFFER_OVERFLOW
                             else STATUS_NO_MORE_FILES))"
  using enumerate_spec [OF assms, of matches layout faults startIndex returnSingle] unfolding enumerated_ok_def Let_def .

lemma dir_buffer_exact_witness:
  "\<exists>res. DirCtrlEnumerateDirectoryEntries (\<lambda>_. True) FileFullDir (\<lambda>_ _. None) dir_listing 1 (of_nat (entry_count dir_listing)) True
       (replicate 80 0) 80 = Some (Inr res) \<and> unat (DR_FinalIndex res) = 2 \<and> DR_Status res = STATUS_SUCCESS \<and>
     read_entries FileFullDir (take (DR_BytesUsed res) (DR_Buffer res)) = dir_between (\<lambda>_. True) dir_listing 1 2"
proof -
  have small: "entry_count dir_listing < 2 ^ 32" "length (replicate 80 (0 :: UCHAR)) = unat (80 :: ULONG)"
    by (simp_all add: dir_listing_def)
  have n: "length (dir_between (\<lambda>_. True) dir_listing 1 b) = b - 1" for b by (simp add: dir_between_def)
  have fits: "\<not> no_room (\<lambda>_. True) FileFullDir dir_listing 80 1"
    by (simp add: no_room_def room_def dir_entry_at_def dir_listing_def dir_file_def BlorgGetFileEntry_def entry_size_def RtlInitUnicodeString_def)
  have three: "entry_count dir_listing = 3" by (simp add: dir_listing_def)
  note all = dir_buffer_exact [OF small, of "\<lambda>_. True" FileFullDir "\<lambda>_ _. None" 1 True]
  then obtain res where res: "DirCtrlEnumerateDirectoryEntries (\<lambda>_. True) FileFullDir (\<lambda>_ _. None) dir_listing 1
       (of_nat (entry_count dir_listing)) True (replicate 80 0) 80 = Some (Inr res)"
    by (elim exE conjE, split sum.splits) auto
  define final where "final = unat (DR_FinalIndex res)"
  define es where "es = dir_between (\<lambda>_. True) dir_listing 1 final"
  have f: "1 \<le> final" "DR_BytesUsed res = sizes FileFullDir es" "read_entries FileFullDir (take (DR_BytesUsed res) (DR_Buffer res)) = es"
      "length es \<le> 1" "final < entry_count dir_listing \<Longrightarrow> es \<noteq> [] \<or> no_room (\<lambda>_. True) FileFullDir dir_listing (80 - DR_BytesUsed res) final"
      "es \<noteq> [] \<Longrightarrow> DR_Status res = STATUS_SUCCESS"
    using all unfolding res Let_def by (auto simp: final_def es_def)
  have "es \<noteq> []"
  proof
    assume e: "es = []"
    then have "final = 1" using n [of final] f(1) by (simp add: es_def)
    then show False using f(2,5) e fits three by (simp add: sizes_def)
  qed
  moreover have "length es = final - 1" unfolding es_def by (rule n)
  with \<open>es \<noteq> []\<close> have "final = 2" using f(4) by (cases es) auto
  ultimately show ?thesis using res f(3,6) by (auto simp: es_def final_def)
qed

section \<open>A whole enumeration\<close>

text \<open>C10.
  An enumeration returns the directory. Let queries on a handle, with buffers of any size and any of the
  supported classes, have succeeded one after the other from the start of its snapshot, the caches
  changing in between in any way that respects the handle's reference. Then what a caller has read is
  every matching entry up to the handle's position, once and in order. If the next query is given 624 bytes
  it does not fail for want of room: it returns at least one more entry, or it answers
  STATUS_NO_MORE_FILES, and then the caller has read all matching entries of the directory.
\<close>

theorem dir_enumeration_complete:
  assumes "dir_reads nls inExpression a li ccb es ccb'" "\<not> dir_initial ccb" "Entries ccb = Some a" "CurrentIndex ccb = 0"
    "entry_count li < 2 ^ 32" "short_names li" "snapshot_at a li s" "plain_query q layout buffer" "624 \<le> length buffer"
    "A_Acquired ans" "A_Scratch ans" "A_Mapped ans" "A_InExpression ans = inExpression" "\<forall>at k. A_Faults ans at k = None"
  shows "es = dir_between (handle_matches nls inExpression ccb) li 0 (unat (CurrentIndex ccb')) \<and>
    (\<exists>status n out ccb2.
       dir_query_pass nls ans dir initialRead q buffer ccb' s = Some (DirAnswer status n (Some out) False, ccb2, s) \<and>
       (status = STATUS_SUCCESS \<and> read_entries layout (take n out) \<noteq> [] \<and>
          dir_reads nls inExpression a li ccb (es @ read_entries layout (take n out)) ccb2 \<or>
        status = STATUS_NO_MORE_FILES \<and> es = dir_between (handle_matches nls inExpression ccb) li 0 (entry_count li)))"
proof -
  let ?m = "handle_matches nls inExpression ccb"
  have at: "part_way a li ccb ccb'" and es: "es = dir_between ?m li 0 (unat (CurrentIndex ccb'))"
    using reads_so_far [OF assms(1-5)] by blast+
  obtain status n out ccb2 where r: "dir_query_pass nls ans dir initialRead q buffer ccb' s = Some (DirAnswer status n (Some out) False, ccb2, s)"
    using pass_answers [OF at assms(7,8,5,10-12,14)] by metis
  note step = next_query [OF at assms(7,8,5,13) r assms(10-12), unfolded Let_def]
  let ?new = "dir_between ?m li (unat (CurrentIndex ccb')) (unat (CurrentIndex ccb2))"
  have "status \<noteq> STATUS_BUFFER_OVERFLOW" using step no_room_short [OF assms(6,9)] by blast
  then have "(?new \<noteq> [] \<and> status = STATUS_SUCCESS) \<or>
      (?new = [] \<and> status = STATUS_NO_MORE_FILES \<and> \<not> unat (CurrentIndex ccb2) < entry_count li)"
    using step by metis
  moreover have "unat (CurrentIndex ccb2) \<le> entry_count li" using step by (simp add: part_way_def)
  ultimately consider "?new \<noteq> []" "status = STATUS_SUCCESS" | "?new = []" "status = STATUS_NO_MORE_FILES" "unat (CurrentIndex ccb2) = entry_count li"
    by linarith
  then show ?thesis
  proof cases
    case 1
    then have "read_entries layout (take n out) = ?new" using step by blast
    moreover have "dir_reads nls inExpression a li ccb (es @ read_entries layout (take n out)) ccb2"
      using dir_reads.query [OF assms(1,7,8,13)] r 1 by simp
    ultimately show ?thesis using es r 1 by auto
  next
    case 2
    have "unat (CurrentIndex ccb') \<le> entry_count li" using at by (simp add: part_way_def)
    then have "es = dir_between ?m li 0 (entry_count li)"
      using dir_between_append [of 0 "unat (CurrentIndex ccb')" "entry_count li" ?m li] 2 es by simp
    then show ?thesis using es r 2 by auto
  qed
qed

lemma dir_enumeration_complete_witness:
  "\<exists>n out ccb2.
     dir_query_pass ascii_nls dir_ans [backslash] False (dir_q 700) (replicate 700 0) dir_handle
       ((W_Cache cache_boot)\<lparr>Infos := [7 \<mapsto> dir_listing]\<rparr>) =
       Some (DirAnswer STATUS_SUCCESS n (Some out) False, ccb2, (W_Cache cache_boot)\<lparr>Infos := [7 \<mapsto> dir_listing]\<rparr>) \<and>
     read_entries FileFullDir (take n out) \<noteq> []"
proof -
  let ?s = "(W_Cache cache_boot)\<lparr>Infos := [7 \<mapsto> dir_listing]\<rparr>"
  have h: "\<not> dir_initial dir_handle" "Entries dir_handle = Some 7" "CurrentIndex dir_handle = 0"
    by (simp_all add: dir_handle_def dir_initial_def dir_match_all_def CCB_FLAG_MATCH_ALL_def)
  have li: "entry_count dir_listing < 2 ^ 32" "short_names dir_listing" "snapshot_at 7 dir_listing ?s"
    by (simp_all add: dir_listing_def dir_file_def dir_sub_def short_names_def HttpListingEntryName_def MAX_NAME_LEN_def snapshot_at_def same_entries_def
        less_Suc_eq numeral_3_eq_3)
  have q: "plain_query (dir_q 700) FileFullDir (replicate 700 0)" "624 \<le> length (replicate 700 (0 :: UCHAR))"
    by (simp_all add: plain_query_def dir_q_def)
  have ans: "A_Acquired dir_ans" "A_Scratch dir_ans" "A_Mapped dir_ans" "A_InExpression dir_ans = dir_any"
      "\<forall>at k. A_Faults dir_ans at k = None" by (simp_all add: dir_ans_def)
  have "dir_between (handle_matches ascii_nls dir_any dir_handle) dir_listing 0 (entry_count dir_listing) \<noteq> []"
    by (simp add: dir_between_def handle_matches_def DirCtrlMatchPattern_def dir_handle_def CCB_FLAG_MATCH_ALL_def dir_listing_def)
  then have "[] \<noteq> dir_between (handle_matches ascii_nls dir_any dir_handle) dir_listing 0 (entry_count dir_listing)" by (rule not_sym)
  with dir_enumeration_complete [OF dir_reads.begun h li q ans, of ascii_nls "[backslash]" False]
  show ?thesis by (elim conjE exE disjE) (auto simp only:)
qed

section \<open>Snapshots under concurrency\<close>

lemma enumerate_defined:
  assumes "Entries ccb = Some a" "Infos s a = Some li" "entry_count li < 2 ^ 32" "length buffer = unat (Q_Length q)"
  shows "dir_enumerate nls ans q buffer owed ccb s \<noteq> None"
proof (cases "dir_class (Q_Class q)")
  case (Inl st)
  then show ?thesis using assms(1,2) by (simp add: dir_enumerate_def Let_def)
next
  case (Inr layout)
  obtain r where "DirCtrlEnumerateDirectoryEntries (dir_matches nls ans ccb) layout (A_Faults ans) li
      (if Q_IndexSpecified q then Q_FileIndex q else ucast (CurrentIndex ccb)) (of_nat (entry_count li)) (Q_ReturnSingle q) buffer (Q_Length q) = Some r"
    using enumerate_spec [OF assms(3,4)] by blast
  then show ?thesis using assms(1,2) Inr by (cases r) (simp_all add: dir_enumerate_def Let_def)
qed

text \<open>C9.
  An enumeration in progress is safe from everything else. In every state that queries, fetch completions,
  opens and closes of handles, invalidations and the caches' other users can reach, a thread that is
  enumerating (Reading) does so on its handle's snapshot, the snapshot is on the heap with a reference
  count that covers every handle and thread that holds it, and the enumeration is defined, so it reads no
  freed memory. Whatever step is taken next by anyone, while the thread enumerates the handle
  keeps this snapshot and its entries do not change.
\<close>

theorem dir_snapshots_safe:
  assumes "nls_ok nls" "dir_steps nls dir_boot w" "D_Threads w t = Some (Reading h q x a)"
  shows "\<exists>dir ccb li. D_Ccbs w h = Some (dir, ccb) \<and> Entries ccb = Some a \<and> Infos (W_Cache (D_Caches w)) a = Some li \<and>
    held w a \<le> DIRECTORY_INFO.RefCount li \<and>
    (entry_count li < 2 ^ 32 \<and> length buffer = unat (Q_Length q) \<longrightarrow>
       dir_enumerate nls ans q buffer owed ccb (W_Cache (D_Caches w)) \<noteq> None) \<and>
    (\<forall>w'. dir_step nls w w' \<and> D_Threads w' t = Some (Reading h q x a) \<longrightarrow>
       snap w' h = Some a \<and> (\<exists>li'. Infos (W_Cache (D_Caches w')) a = Some li' \<and> Files li' = Files li \<and> SubDirs li' = SubDirs li))"
proof -
  have inv: "dir_inv nls w" by (rule dir_steps_inv [OF assms(2) dir_boot_inv assms(1)])
  have here: "snap w h = Some a" using inv assms(3) by (auto simp: dir_inv_def threads_ok_def)
  then obtain dir ccb where ccb: "D_Ccbs w h = Some (dir, ccb)" "Entries ccb = Some a" by (auto simp: snap_def bind_eq_Some_conv)
  have ext: "0 < W_Ext (D_Caches w) a" using held_ext(1) [of w h a] inv here by (simp add: dir_inv_def)
  from held_alive [OF inv ext] obtain li where li: "Infos (W_Cache (D_Caches w)) a = Some li" by metis
  have ok: "cache_world_ok nls (D_Caches w)" using inv by (simp add: dir_inv_def caches_ok_def)
  then have "refs_ok (W_Ext (D_Caches w)) (W_Cache (D_Caches w))" by (simp add: cache_world_ok_def listing_inv_def)
  then have "DIRECTORY_INFO.RefCount li = W_Ext (D_Caches w) a + cache_refs (W_Cache (D_Caches w)) a"
    using li unfolding refs_ok_def by (auto dest: spec [of _ a])
  moreover have "held w a \<le> W_Ext (D_Caches w) a" using inv by (simp add: dir_inv_def refs_held_def)
  ultimately have count: "held w a \<le> DIRECTORY_INFO.RefCount li" using count_list_nonneg_refs [of "W_Cache (D_Caches w)" a] by simp
  have stay: "snap w' h = Some a \<and> (\<exists>li'. Infos (W_Cache (D_Caches w')) a = Some li' \<and> Files li' = Files li \<and> SubDirs li' = SubDirs li)"
    if "dir_step nls w w'" "D_Threads w' t = Some (Reading h q x a)" for w'
  proof -
    have inv': "dir_inv nls w'" by (rule dir_step_inv [OF that(1) inv assms(1)])
    have s: "snap w' h = Some a" using inv' that(2) by (auto simp: dir_inv_def threads_ok_def)
    then have "0 < W_Ext (D_Caches w') a" using held_ext(1) [of w' h a] inv' by (simp add: dir_inv_def)
    from held_alive [OF inv' this] obtain li' where li': "Infos (W_Cache (D_Caches w')) a = Some li'" by metis
    have "same_entries li li'"
      using dir_step_caches [OF that(1) inv]
    proof
      assume "cache_step nls (D_Caches w) (D_Caches w')"
      from cache_step_entries [OF this ok assms(1)] li li' show ?thesis unfolding entries_kept_def by fastforce
    qed (use li li' in \<open>simp add: same_entries_def\<close>)
    then show ?thesis using s li' by (auto simp: same_entries_def)
  qed
  show ?thesis using ccb li count stay enumerate_defined [OF ccb(2) li] by blast
qed

text \<open>A run to a state in which a thread enumerates: the handle is opened, a listing fetched and installed.\<close>

definition dir_at_1 :: dir_world where "dir_at_1 = set_ccb 5 [backslash] new_dir_ccb dir_boot"

definition dir_at_2 :: dir_world where
  "dir_at_2 = set_thread 1 (Some (Fetched 5 7)) (set_caches ((D_Caches dir_at_1)\<lparr>
     W_Cache := (W_Cache (D_Caches dir_at_1))\<lparr>Infos := (Infos (W_Cache (D_Caches dir_at_1)))(7 \<mapsto> dir_listing)\<rparr>,
     W_Ext := (W_Ext (D_Caches dir_at_1))(7 := 1)\<rparr>) dir_at_1)"

definition dir_at_3 :: dir_world where
  "dir_at_3 = set_thread 1 None (set_ccb 5 [backslash] (new_dir_ccb\<lparr>Entries := Some 7\<rparr>) (set_caches (drop_reference None (D_Caches dir_at_2)) dir_at_2))"

definition dir_at_4 :: dir_world where
  "dir_at_4 = set_thread 1 (Some (Arrived 5 (dir_q 80) True)) dir_at_3"

definition dir_at_5 :: dir_world where
  "dir_at_5 = set_thread 1 (Some (Locked 5 (dir_q 80) True)) (set_ccb 5 [backslash] (new_dir_ccb\<lparr>Entries := Some 7\<rparr>) (set_caches (D_Caches dir_at_4) dir_at_4))"

definition dir_at_6 :: dir_world where
  "dir_at_6 = set_thread 1 (Some (Reading 5 (dir_q 80) True 7)) dir_at_5"

lemma boot_threads: "D_Threads dir_boot = Map.empty" "D_Ccbs dir_boot = Map.empty" "Infos (W_Cache (D_Caches dir_boot)) = Map.empty"
  by (simp_all add: dir_boot_def cache_boot_def BlorgPathCacheInit_def)

lemma dir_at_3_reached: "dir_steps nls dir_boot dir_at_3"
proof -
  have s1: "dir_step nls dir_boot dir_at_1" unfolding dir_at_1_def by (rule dir_step.opened) (simp add: boot_threads)
  have s2: "dir_step nls dir_at_1 dir_at_2"
    unfolding dir_at_2_def by (rule dir_step.fetched [OF _ _ _ _ _ refl]) (simp_all add: dir_at_1_def boot_threads dir_listing_def)
  have s3: "dir_step nls dir_at_2 dir_at_3"
    unfolding dir_at_3_def
    by (rule dir_step.completed [where a = 7 and ccb = new_dir_ccb])
      (auto simp: dir_at_2_def dir_at_1_def boot_threads new_dir_ccb_def unlocked_def)
  show ?thesis using s1 s2 s3 by (meson r_into_rtranclp rtranclp_trans)
qed

lemma dir_at_6_reached: "dir_steps nls dir_boot dir_at_6"
proof -
  have c: "D_Ccbs dir_at_3 = [5 \<mapsto> ([backslash], new_dir_ccb\<lparr>Entries := Some 7\<rparr>)]" "D_Threads dir_at_3 = Map.empty"
    by (simp_all add: dir_at_3_def dir_at_2_def dir_at_1_def boot_threads)
  have i: "dir_initial (new_dir_ccb\<lparr>Entries := Some 7\<rparr>)"
    by (simp add: dir_initial_def new_dir_ccb_def dir_match_all_def)
  have s4: "dir_step nls dir_at_3 dir_at_4"
    using dir_step.arrived [of dir_at_3 1 5 "[backslash]" "new_dir_ccb\<lparr>Entries := Some 7\<rparr>" nls "dir_q 80"] c i by (simp add: dir_at_4_def)
  have "dir_acquired True (dir_q 80) (new_dir_ccb\<lparr>Entries := Some 7\<rparr>) = (True, new_dir_ccb\<lparr>Entries := Some 7\<rparr>)"
    using i by (simp add: dir_acquired_def)
  moreover have "dir_set_pattern nls 0 True (dir_q 80) (new_dir_ccb\<lparr>Entries := Some 7\<rparr>) = (None, new_dir_ccb\<lparr>Entries := Some 7\<rparr>)"
    by (simp add: dir_set_pattern_def dir_q_def)
  moreover have "unlocked dir_at_4 5" using c by (auto simp: unlocked_def dir_at_4_def)
  ultimately have s5: "dir_step nls dir_at_4 dir_at_5"
    using dir_step.exclusive [of dir_at_4 1 5 "dir_q 80" True "[backslash]" "new_dir_ccb\<lparr>Entries := Some 7\<rparr>" True
        "new_dir_ccb\<lparr>Entries := Some 7\<rparr>" nls 0 "new_dir_ccb\<lparr>Entries := Some 7\<rparr>" False] c
    by (simp add: dir_at_5_def dir_at_4_def dir_q_def)
  have s6: "dir_step nls dir_at_5 dir_at_6"
    unfolding dir_at_6_def by (rule dir_step.present [where ccb = "new_dir_ccb\<lparr>Entries := Some 7\<rparr>"]) (simp_all add: dir_at_5_def)
  show ?thesis using dir_at_3_reached s4 s5 s6 by (meson r_into_rtranclp rtranclp_trans)
qed

lemma dir_snapshots_safe_witness:
  "snap dir_at_6 5 = Some 7 \<and> Infos (W_Cache (D_Caches dir_at_6)) 7 \<noteq> None"
proof -
  have "D_Threads dir_at_6 1 = Some (Reading 5 (dir_q 80) True 7)" by (simp add: dir_at_6_def)
  from dir_snapshots_safe [OF ascii_nls_ok dir_at_6_reached this, of "[]" dir_ans False] show ?thesis by (auto simp: snap_def)
qed

section \<open>The handler and the machine\<close>

text \<open>C40.
  The handler of queries is a run of the machine: from any state in which a handle's resource is free, a
  pass of BlorgVolumeDirectoryControl over a query, run without interruption, is a sequence of the machine's steps
  that leaves the handle and the caches as the handler does and the other threads where they were.
\<close>

theorem dir_query_is_run:
  assumes "D_Threads w t = None" "D_Ccbs w h = Some (dir, ccb)" "unlocked w h" "A_Acquired ans"
    "BlorgVolumeDirectoryControl nls ans IRP_MN_QUERY_DIRECTORY DCB_SIGNATURE dir (dir_initial ccb) q buffer (Some ccb)
       (W_Cache (D_Caches w)) = Some (r, Some ccb', s')"
  shows "\<exists>w'. dir_steps nls w w' \<and> D_Ccbs w' = (D_Ccbs w)(h \<mapsto> (dir, ccb')) \<and> W_Cache (D_Caches w') = s' \<and> D_Threads w' = D_Threads w"
proof -
  have "dir_query_pass nls ans dir (dir_initial ccb) q buffer ccb (W_Cache (D_Caches w)) = Some (r, ccb', s')"
    using assms(5) by (auto simp: BlorgVolumeDirectoryControl_def)
  then show ?thesis by (rule query_run [OF assms(1-4)])
qed

definition dir_out :: "UCHAR list" where "dir_out = replicate 80 0"

lemma dir_query_is_run_witness:
  "\<exists>r ccb' s' w'. BlorgVolumeDirectoryControl ascii_nls dir_ans IRP_MN_QUERY_DIRECTORY DCB_SIGNATURE [backslash] True (dir_q 80) dir_out
       (Some (new_dir_ccb\<lparr>Entries := Some 7\<rparr>)) (W_Cache (D_Caches dir_at_3)) = Some (r, Some ccb', s') \<and>
     dir_steps ascii_nls dir_at_3 w' \<and> snap w' 5 = Some 7"
proof -
  let ?ccb = "new_dir_ccb\<lparr>Entries := Some 7\<rparr>" and ?s = "W_Cache (D_Caches dir_at_3)"
  have c: "D_Ccbs dir_at_3 5 = Some ([backslash], ?ccb)" "D_Threads dir_at_3 1 = None" "unlocked dir_at_3 5"
    by (simp_all add: dir_at_3_def dir_at_2_def dir_at_1_def boot_threads unlocked_def)
  have i: "dir_initial ?ccb" by (simp add: dir_initial_def new_dir_ccb_def dir_match_all_def)
  have li: "Infos ?s 7 = Some dir_listing"
    by (simp add: dir_at_3_def dir_at_2_def drop_reference_def release_entries_def)
  have "dir_enumerate ascii_nls dir_ans (dir_q 80) dir_out False ?ccb ?s \<noteq> None"
    by (rule enumerate_defined [OF _ li]) (simp_all add: dir_listing_def dir_q_def dir_out_def)
  then obtain r ccb' where e: "dir_enumerate ascii_nls dir_ans (dir_q 80) dir_out False ?ccb ?s = Some (r, ccb')" by auto
  have "dir_query_pass ascii_nls dir_ans [backslash] True (dir_q 80) dir_out ?ccb ?s = Some (r, ccb', ?s)"
  proof -
    have "A_Acquired dir_ans" by (simp add: dir_ans_def)
    moreover have "dir_acquired True (dir_q 80) ?ccb = (True, ?ccb)" using i by (simp add: dir_acquired_def)
    moreover have "dir_set_pattern ascii_nls (A_Upcased dir_ans) True (dir_q 80) ?ccb = (None, ?ccb)" by (simp add: dir_set_pattern_def dir_q_def)
    moreover have "Q_NetDone (dir_q 80)" by (simp add: dir_q_def)
    moreover have "dir_snapshot ascii_nls (A_Now dir_ans) [backslash] False ?ccb ?s = (Some False, ?ccb, ?s)"
      by (simp add: dir_snapshot_def dir_drop_snapshot_def)
    ultimately show ?thesis unfolding dir_query_pass_def using e by simp
  qed
  then have b: "BlorgVolumeDirectoryControl ascii_nls dir_ans IRP_MN_QUERY_DIRECTORY DCB_SIGNATURE [backslash] (dir_initial ?ccb) (dir_q 80) dir_out
       (Some ?ccb) ?s = Some (r, Some ccb', ?s)"
    using i by (simp add: BlorgVolumeDirectoryControl_def)
  from dir_query_is_run [OF c(2,1,3) _ b] obtain w' where w': "dir_steps ascii_nls dir_at_3 w'" "D_Ccbs w' = (D_Ccbs dir_at_3)(5 \<mapsto> ([backslash], ccb'))"
    by (auto simp: dir_ans_def)
  have "Entries ccb' = Some 7" by (subst enumerate_keeps [OF e]) simp
  then have "snap w' 5 = Some 7" by (simp add: snap_def w'(2))
  then show ?thesis using b w'(1) i by auto
qed

end
