(* ===== verification/Spec2Isabelle.thy ===== *)
theory Spec2Isabelle
  imports Disk_Cache_Theorems Path_Cache_Theorems Http_Theorems Change_Feed_Theorems Tls_Theorems Read_Theorems
    Node_Theorems Dir_Theorems
begin

text \<open>
  A verification development of BlorgFS, a Windows file system driver that mounts a read-only volume
  served over HTTP (src/src).

  \<^bold>\<open>The program.\<close> An open or a directory query is answered from the path cache, from a cached
  directory listing, or by an HTTP request whose answer is decoded into a listing and published to
  both caches (PathCache.c, Client.c, Create.c, DirCtrl.c). A long poll, the change feed, reports what
  changed on the server and invalidates the caches (ChangeFeed.c). Reads of file data that Cc does not
  hold go to the disk cache (DiskCache.c over DiskCacheIndex.c) and, for the blocks it lacks, to the
  server, sharing the link fairly between files (Read.c). Requests travel over pooled connections
  (Socket.c), optionally under TLS 1.3 (Tls.c, TlsHandshake.c). Around these stand the objects the
  kernel sees: nodes and handles (Structs.c), dispatch routines, the work queue, settings and
  statistics.

  \<^bold>\<open>How code is modelled.\<close> A struct is a record, an enumeration a datatype, a routine one definition
  with the routine's name; parts of long routines that have their own definition are named in lower
  case. ULONG, ULONG64 and their kin are words and wrap as in C; where an index or a length is a
  natural number the theory says what bounds it. NTSTATUS results are words in a sum or a pair. An
  access outside an array or a buffer is the value None of an option, so a theorem that excludes None
  is a theorem of memory safety. What the kernel, the network, picohttpparser, the generated
  FlatBuffer readers and the cryptographic provider answer is an argument of the definitions. Code
  that runs under a lock is one definition, and step relations interleave such definitions in every
  order.

  \<^bold>\<open>The theories.\<close>
  \<^item> Blorg_Prelude: machine types, statuses, memory as byte lists, lemmas on lists, options and words.
    Nt_Strings: counted strings compared and hashed without case, and BlorgHashPath of Structs.c.
  \<^item> Disk_Cache_Index (DiskCacheIndex.c) is the index: hash chains through the slots, the clock, ghost
    entries, pins and read plans. Disk_Cache_Index_Correct has its invariant and its refinement to a map
    from keys to slots; Disk_Cache_Pin, Disk_Cache_Plan what pinning and planning compute.
    Disk_Cache_Store states the index's contract as the locale slot_store, interpreted on the index.
    Disk_Cache (DiskCache.c) is fills, writes, reads and their completions; Disk_Cache_Read splits a
    read into parts; Disk_Cache_Protocol runs all of it interleaved, from the contract alone;
    Disk_Cache_Rundown is teardown. Disk_Cache_Theorems has the properties, Disk_Cache_Example the run
    they are instantiated on.
  \<^item> Listing (Structs.h, Client.c, Create.c) is a directory listing in its one block, with its name index,
    its decoding and its reference count; Listing_Correct and Listing_Theorems show layout, lookup and
    lifetime.
  \<^item> Path_Cache (PathCache.c) is the path cache and the listing cache with their tickets and
    generations. Path_Cache_Inv, Path_Cache_Ops, Path_Cache_Paths and Path_Cache_Behaviour have the
    invariant, the operations and the caches as maps that may forget (locales bucket_store and
    forgetful_map); Path_Cache_Protocol is the concurrency of invalidations and inserts; Path_Cache_Seed
    relates a seeded cache to its listing; Path_Cache_Theorems has the properties.
  \<^item> Http_Text (Client.c) reads numbers, header values, entity tags and encodes request paths;
    Http_Response (Client.c) receives a response into its buffers. Http_Text_Correct,
    Http_Response_Correct and Http_Response_Complete prove what they compute, that they touch nothing
    outside their buffers and that they finish; Http_Theorems has the properties.
  \<^item> Change_Feed (ChangeFeed.c, Client.c) decodes and applies batches and runs the poll loop, on the
    caches of Path_Cache; Change_Feed_Correct and Change_Feed_Theorems show what a batch leaves in them.
  \<^item> Tls_Messages and Tls_Parse (Tls.c) are the key expansion, nonces, padding, the ClientHello and the
    parsers of the server's messages with their DER. Tls_Correct bounds the parsers, Tls_Roundtrip runs
    them on a reference encoder, Tls_Hello compares the rest with the RFCs; Tls_Theorems has the
    properties.
  \<^item> Read_Fair (Read.c) is the link's admission, release and reservations; Read_Protocol the life of a
    non-cached read in phases; Read_Policy trimming, routing, stream tracking and the granule, with the
    registry's checks (Registry.c). Read_Fair_Correct, Read_Protocol_Correct and Read_Policy_Correct
    prove their invariants, and Read_Theorems has the properties.
  \<^item> Node_Model (Structs.c) is the nodes as a map from addresses to records, with the operations on
    them: BlorgCreateFCB and BlorgCreateDCB with their rollbacks, the tree and its child index, the node
    table, pins, references, the reap list, its worker, the walk over empty ancestors, search and insert
    by path, and BlorgFreeFileContext; a ledger counts the blocks and resources outstanding.
    Node_Protocol is the machine: handles, opens on the warm path, idle tests, the cold open and the
    worker as agents whose events are the sections under one lock. Node_Inv states the invariant,
    Node_Steps, Node_Claims, Node_Tree and Node_Insert show that the events keep its parts, and
    Node_Correct collects them. Node_Settle bounds begun work and describes its end, Node_Runs shows that
    the functions of Structs.c are runs of the machine, and Node_Theorems has the properties.
  \<^item> Dir_Entries (DirCtrl.c) is the pattern match, the layouts of FILE_*_DIR_INFORMATION as the bytes written to
    the scratch block and to the caller's buffer, whose writes may raise, and the loop of
    DirCtrlEnumerateDirectoryEntries. Dir_Layout reads a buffer back the way a caller does, Dir_Enumerate says what
    one call returns. Dir_Control is the handler of queries, its fetch, its refresh and their completions, on
    the caches of Path_Cache; FsRtlIsNameInExpression is a parameter. Dir_Queries composes the queries on one
    handle. Dir_Protocol is the machine of handles and threads between the points where the code takes
    a directory's resource, which the model keeps per handle; Dir_Handles has its invariant, Dir_Runs shows
    that the handler is a run of it, and Dir_Theorems has the properties.

  \<^bold>\<open>What is shown.\<close> Disk cache: every read it serves with success holds the bytes of the version asked
  for, under all interleavings, with every operation defined; the index implements a map; teardown
  waits for work in flight. Caches: after an invalidation completes, no lookup or listing it covers is
  answered from a request made before it; sizes, buckets and references stay exact. Listings: lookup
  by hash equals a scan, layouts stay inside their allocation. HTTP: a dispatched body is exactly the
  one the head declares, whatever the segmentation; reading is memory safe and completes. Change feed:
  a batch removes exactly what it covers, and the feed is trusted only while polls succeed. TLS: parsers
  stay in bounds and undo the encoding, the ClientHello is exact, nonces do not repeat, keys are
  expanded as the RFCs say. Reads: counters are exact, no read is left behind, release is in order, no
  byte outside the file is asked for, the granule stays in range. Nodes: under every interleaving no
  freed node is touched, counts, claims and the ledger are exact, begun work ends and leaves only nodes
  that are open or lead to an open one, and a failed creation leaves no trace. Directory queries: a buffer
  holds exactly the entries reported and nothing is written outside it, an enumeration returns every
  matching entry once, and a snapshot in use is never freed or changed, whatever else runs.

  \<^bold>\<open>Loops and bounds.\<close> Loops are recursive functions with termination proofs. The chain walks of the
  index and of a listing's name index, which could cycle in a corrupt structure, take fuel equal to the
  number of slots or entries and give None when it runs out; the invariants show that it never does. The
  release loop of ReadFair ends because each turn puts one more of 32 fetches in flight. The start tags
  of ReadFair are sums of bytes in 64 bits, and its claims assume that fewer than 2^64 - 1 bytes have
  been charged since the driver was loaded. The walk over empty ancestors is a partial function, and
  it is shown to return; the counts of a node are integers, bounded by the file objects and threads of the
  system; work_left of Node_Settle bounds what begun work on nodes may still do. FsRtlDissectName is a
  parameter of the path tree, of which the theorems on nodes assume nothing. Enumerations are of listings of
  fewer than 2^32 entries, since positions are ULONGs, and a buffer of 624 bytes has room for any one entry because
  the decoder admits names shorter than 260 characters only. The claims about
  HKDF are for outputs within the RFC's 255 blocks, and those about certificates for DER lengths below
  64 KB, which is what the reader accepts.

  \<^bold>\<open>Not modelled.\<close> The cryptography itself, which is calls into CNG, and the TLS handshake's state machine
  around it (TlsHandshake.c). Connections and the connection pool (Socket.c), which are calls into
  Winsock Kernel. Opens (Create.c) beyond the search of a listing and their effect on nodes,
  and the work queue (FspWorkQueue.c). Of nodes, the resources, oplocks, file locks and
  per-handle contexts, beyond their counts in the ledger.
  Cached reads beyond their routing, since they are calls into Cc. Driver load and mounting, security,
  volume and file information, statistics and the refused requests, which fill fixed structures or call
  the kernel.
\<close>

end
